(* ===== verification/Go_Prelude.thy ===== *)
theory Go_Prelude
  imports Main "HOL-Library.Multiset" "HOL-Library.Word"
begin

text \<open>
  Shared vocabulary of the development: the model of Go's basic types (bytes, strings as byte
  sequences, runes), the error values a run-time panic becomes, and the generic facts about
  exchanging two elements of a list and about segments \<open>xs[a..b)\<close> of a list on which the
  component theories rest.
\<close>

section \<open>Types\<close>

type_synonym byte = "8 word"
type_synonym gostring = "byte list"
type_synonym rune = int

text \<open>The run-time panics and throws that the modelled code can raise.\<close>

datatype panic =
    IndexOutOfRange
  | SliceOutOfRange
  | NilPointer
  | PanicMsg string
  | Throw string

text \<open>Sequencing of operations that may panic.\<close>

fun bindE :: "'e + 'a \<Rightarrow> ('a \<Rightarrow> 'e + 'b) \<Rightarrow> 'e + 'b" where
  "bindE (Inl e) k = Inl e"
| "bindE (Inr x) k = k x"

lemma bindE_eq_Inr [simp]: "bindE m k = Inr y \<longleftrightarrow> (\<exists>x. m = Inr x \<and> k x = Inr y)"
  by (cases m) auto

lemma bindE_cong:
  "m = m' \<Longrightarrow> (\<And>x. m' = Inr x \<Longrightarrow> k x = k' x) \<Longrightarrow> bindE m k = bindE m' k'"
  by (cases m') auto

lemma bindE_assoc: "bindE (bindE m f) g = bindE m (\<lambda>x. bindE (f x) g)"
  by (cases m) auto

named_theorems swap_simps \<open>rewriting an exchange of two list elements\<close>
named_theorems seg_intros \<open>introduction rules for permuted segments\<close>

section \<open>Exchanging two elements\<close>

definition swap :: "'a list \<Rightarrow> nat \<Rightarrow> nat \<Rightarrow> 'a list" where
  "swap l p q = l[p := l ! q, q := l ! p]"

lemma length_swap [simp]: "length (swap l p q) = length l"
  by (simp add: swap_def)

lemma nth_swap [swap_simps]:
  assumes "i < length xs" "j < length xs"
  shows "swap xs i j ! k = (if k = i then xs ! j else if k = j then xs ! i else xs ! k)"
  using assms by (cases "k < length xs") (auto simp: swap_def nth_list_update)

lemma mset_swap_eq [simp]:
  "i < length xs \<Longrightarrow> j < length xs \<Longrightarrow> mset (swap xs i j) = mset xs"
  unfolding swap_def by (rule mset_swap)

lemma swap_same [simp]: "swap xs i i = xs"
  by (simp add: swap_def)

section \<open>Segments\<close>

text \<open>\<open>seg_perm xs ys a b\<close>: \<open>ys\<close> is \<open>xs\<close> with the elements at positions \<open>a..<b\<close> permuted.\<close>

definition seg :: "'a list \<Rightarrow> nat \<Rightarrow> nat \<Rightarrow> 'a list" where
  "seg xs a b = take (b - a) (drop a xs)"

definition seg_perm :: "'a list \<Rightarrow> 'a list \<Rightarrow> nat \<Rightarrow> nat \<Rightarrow> bool" where
  "seg_perm xs ys a b \<longleftrightarrow>
     length ys = length xs \<and> (\<forall>k. k < a \<or> b \<le> k \<longrightarrow> ys ! k = xs ! k) \<and> mset ys = mset xs"

lemma seg_perm_refl [simp, seg_intros]: "seg_perm xs xs a b"
  by (simp add: seg_perm_def)

lemma seg_perm_trans: "seg_perm xs ys a b \<Longrightarrow> seg_perm ys zs a b \<Longrightarrow> seg_perm xs zs a b"
  by (auto simp: seg_perm_def)

lemma seg_perm_mono:
  "seg_perm xs ys a b \<Longrightarrow> a' \<le> a \<Longrightarrow> b \<le> b' \<Longrightarrow> seg_perm xs ys a' b'"
  by (auto simp: seg_perm_def)

lemma seg_perm_length: "seg_perm xs ys a b \<Longrightarrow> length ys = length xs"
  by (simp add: seg_perm_def)

lemma seg_perm_mset: "seg_perm xs ys a b \<Longrightarrow> mset ys = mset xs"
  by (simp add: seg_perm_def)

lemma seg_perm_outside: "seg_perm xs ys a b \<Longrightarrow> k < a \<or> b \<le> k \<Longrightarrow> ys ! k = xs ! k"
  unfolding seg_perm_def by blast

lemma seg_perm_swap [seg_intros]:
  "a \<le> i \<Longrightarrow> i < b \<Longrightarrow> a \<le> j \<Longrightarrow> j < b \<Longrightarrow> b \<le> length xs \<Longrightarrow> seg_perm xs (swap xs i j) a b"
  by (auto simp: seg_perm_def swap_simps)

lemma split_at_seg:
  "a \<le> b \<Longrightarrow> xs = take a xs @ seg xs a b @ drop b xs"
  unfolding seg_def
  by (metis append_take_drop_id drop_drop le_add_diff_inverse2)

lemma seg_perm_mset_seg:
  assumes "seg_perm xs ys a b" and "a \<le> b"
  shows "mset (seg ys a b) = mset (seg xs a b)"
proof -
  have len: "length ys = length xs" using assms(1) by (rule seg_perm_length)
  have t: "take a ys = take a xs"
    by (rule nth_equalityI) (use assms len in \<open>auto simp: seg_perm_def\<close>)
  have d: "drop b ys = drop b xs"
    by (rule nth_equalityI) (use assms len in \<open>auto simp: seg_perm_def\<close>)
  have "mset (take a ys) + mset (seg ys a b) + mset (drop b ys)
      = mset (take a xs) + mset (seg xs a b) + mset (drop b xs)"
    using split_at_seg [OF assms(2), of ys] split_at_seg [OF assms(2), of xs]
      seg_perm_mset [OF assms(1)]
    by (metis mset_append union_assoc)
  with t d show ?thesis by simp
qed

lemma set_seg: "b \<le> length xs \<Longrightarrow> set (seg xs a b) = {xs ! k | k. a \<le> k \<and> k < b}"
proof (intro set_eqI iffI)
  fix x assume b: "b \<le> length xs" and "x \<in> set (seg xs a b)"
  then obtain k where "k < length (seg xs a b)" and "x = seg xs a b ! k"
    by (auto simp: in_set_conv_nth)
  with b have "a \<le> a + k \<and> a + k < b" and "x = xs ! (a + k)"
    by (auto simp: seg_def)
  then show "x \<in> {xs ! k | k. a \<le> k \<and> k < b}" by blast
next
  fix x assume b: "b \<le> length xs" and "x \<in> {xs ! k | k. a \<le> k \<and> k < b}"
  then obtain k where k: "a \<le> k" "k < b" "x = xs ! k" by blast
  then have "seg xs a b ! (k - a) = x" and "k - a < length (seg xs a b)"
    using b by (auto simp: seg_def)
  then show "x \<in> set (seg xs a b)" by (metis nth_mem)
qed

text \<open>A property of every element of a segment survives a permutation of the segment.\<close>

lemma seg_perm_all:
  assumes "seg_perm xs ys a b" and "b \<le> length xs" and "\<And>k. a \<le> k \<Longrightarrow> k < b \<Longrightarrow> P (xs ! k)"
    and "a \<le> k" "k < b"
  shows "P (ys ! k)"
proof -
  have "b \<le> length ys" using assms by (simp add: seg_perm_length)
  then have "ys ! k \<in> set (seg ys a b)" using assms(4,5) by (auto simp: set_seg)
  also have "set (seg ys a b) = set (seg xs a b)"
    using seg_perm_mset_seg [OF assms(1)] assms(4,5) by (metis less_imp_le order_trans set_mset_mset)
  finally show ?thesis using assms(2,3) by (auto simp: set_seg)
qed

end
