(* ===== verification/Go_Sort.thy ===== *)
theory Go_Sort
  imports Go_Prelude
begin

text \<open>
  Package sort (src/sort/sort.go): the comparison sort behind \<open>sort.Sort\<close>. The collection is
  an arbitrary state \<open>'s\<close> reached only through the three methods of \<open>sort.Interface\<close>; the
  contract of those methods is the locale \<open>sort_interface\<close>, whose laws are promised for indices
  in range only, so every proof below also shows that no index leaves the collection.
\<close>

section \<open>sort.Interface and the algorithms\<close>

record 's sort_data =
  Len :: "'s \<Rightarrow> nat"
  Less :: "'s \<Rightarrow> nat \<Rightarrow> nat \<Rightarrow> bool"
  Swap :: "'s \<Rightarrow> nat \<Rightarrow> nat \<Rightarrow> 's"

definition min_int :: "nat \<Rightarrow> nat \<Rightarrow> nat" where
  "min_int a b = (if a < b then a else b)"

text \<open>insertionSort: the inner loop runs \<open>j\<close> down, the outer loop runs \<open>i\<close> up.\<close>

fun insertionSort_inner :: "'s sort_data \<Rightarrow> nat \<Rightarrow> nat \<Rightarrow> 's \<Rightarrow> 's" where
  "insertionSort_inner D a 0 s = s"
| "insertionSort_inner D a (Suc j) s =
     (if a < Suc j \<and> Less D s (Suc j) j
      then insertionSort_inner D a j (Swap D s (Suc j) j) else s)"

function insertionSort_outer :: "'s sort_data \<Rightarrow> nat \<Rightarrow> nat \<Rightarrow> nat \<Rightarrow> 's \<Rightarrow> 's" where
  "insertionSort_outer D a b i s =
     (if i < b then insertionSort_outer D a b (i + 1) (insertionSort_inner D a i s) else s)"
  by pat_completeness auto
termination
  by (relation "measure (\<lambda>(D, a, b, i, s). b - i)") auto

definition insertionSort :: "'s sort_data \<Rightarrow> nat \<Rightarrow> nat \<Rightarrow> 's \<Rightarrow> 's" where
  "insertionSort D a b s = insertionSort_outer D a b (a + 1) s"

function siftDown_loop :: "'s sort_data \<Rightarrow> nat \<Rightarrow> nat \<Rightarrow> nat \<Rightarrow> 's \<Rightarrow> 's" where
  "siftDown_loop D root hi first s =
     (let child = 2 * root + 1 in
      if child \<ge> hi then s
      else
        let child = (if child + 1 < hi \<and> Less D s (first + child) (first + child + 1)
                     then child + 1 else child) in
        if \<not> Less D s (first + root) (first + child) then s
        else siftDown_loop D child hi first (Swap D s (first + root) (first + child)))"
  by pat_completeness auto
termination
  by (relation "measure (\<lambda>(D, root, hi, first, s). hi - root)") (auto split: if_splits)

definition siftDown :: "'s sort_data \<Rightarrow> nat \<Rightarrow> nat \<Rightarrow> nat \<Rightarrow> 's \<Rightarrow> 's" where
  "siftDown D lo hi first s = siftDown_loop D lo hi first s"

text \<open>heapSort: \<open>heapSort_build\<close> is the loop over \<open>i\<close> from \<open>(hi-1)/2\<close> down to \<open>0\<close>;
  \<open>heapSort_pop\<close> the loop over \<open>i\<close> from \<open>hi-1\<close> down to \<open>0\<close>, with \<open>n = i + 1\<close>.\<close>

fun heapSort_build :: "'s sort_data \<Rightarrow> nat \<Rightarrow> nat \<Rightarrow> nat \<Rightarrow> 's \<Rightarrow> 's" where
  "heapSort_build D hi first 0 s = siftDown D 0 hi first s"
| "heapSort_build D hi first (Suc i) s =
     heapSort_build D hi first i (siftDown D (Suc i) hi first s)"

fun heapSort_pop :: "'s sort_data \<Rightarrow> nat \<Rightarrow> nat \<Rightarrow> 's \<Rightarrow> 's" where
  "heapSort_pop D first 0 s = s"
| "heapSort_pop D first (Suc i) s =
     heapSort_pop D first i (siftDown D 0 i first (Swap D s first (first + i)))"

definition heapSort :: "'s sort_data \<Rightarrow> nat \<Rightarrow> nat \<Rightarrow> 's \<Rightarrow> 's" where
  "heapSort D a b s =
     (let first = a; hi = b - a
      in heapSort_pop D first hi (heapSort_build D hi first ((hi - 1) div 2) s))"

definition medianOfThree :: "'s sort_data \<Rightarrow> nat \<Rightarrow> nat \<Rightarrow> nat \<Rightarrow> 's \<Rightarrow> 's" where
  "medianOfThree D m1 m0 m2 s =
     (let s = (if Less D s m1 m0 then Swap D s m1 m0 else s) in
      if Less D s m2 m1
      then let s = Swap D s m2 m1 in (if Less D s m1 m0 then Swap D s m1 m0 else s)
      else s)"

fun swapRange :: "'s sort_data \<Rightarrow> nat \<Rightarrow> nat \<Rightarrow> nat \<Rightarrow> 's \<Rightarrow> 's" where
  "swapRange D a b 0 s = s"
| "swapRange D a b (Suc n) s = (let s = swapRange D a b n s in Swap D s (a + n) (b + n))"

text \<open>doPivot: the two inner scans and the outer loop of the three-way partition.\<close>

function pivotUp :: "'s sort_data \<Rightarrow> nat \<Rightarrow> nat \<Rightarrow> nat \<Rightarrow> nat \<Rightarrow> 's \<Rightarrow> nat \<times> nat \<times> 's" where
  "pivotUp D pivot c a b s =
     (if b < c then
        if Less D s b pivot then pivotUp D pivot c a (b + 1) s
        else if \<not> Less D s pivot b then pivotUp D pivot c (a + 1) (b + 1) (Swap D s a b)
        else (a, b, s)
      else (a, b, s))"
  by pat_completeness auto
termination
  by (relation "measure (\<lambda>(D, p, c, a, b, s). c - b)") auto

function pivotDown :: "'s sort_data \<Rightarrow> nat \<Rightarrow> nat \<Rightarrow> nat \<Rightarrow> nat \<Rightarrow> 's \<Rightarrow> nat \<times> nat \<times> 's" where
  "pivotDown D pivot b c d s =
     (if b < c then
        if Less D s pivot (c - 1) then pivotDown D pivot b (c - 1) d s
        else if \<not> Less D s (c - 1) pivot
        then pivotDown D pivot b (c - 1) (d - 1) (Swap D s (c - 1) (d - 1))
        else (c, d, s)
      else (c, d, s))"
  by pat_completeness auto
termination
  by (relation "measure (\<lambda>(D, p, b, c, d, s). c - b)") auto

lemma pivotUp_mono: "pivotUp D pivot c a b s = (a', b', s') \<Longrightarrow> b \<le> b'"
  by (induction D pivot c a b s rule: pivotUp.induct)
    (subst (asm) pivotUp.simps, fastforce split: if_splits)

lemma pivotDown_mono: "pivotDown D pivot b c d s = (c', d', s') \<Longrightarrow> c' \<le> c"
  by (induction D pivot b c d s rule: pivotDown.induct)
    (subst (asm) pivotDown.simps, fastforce split: if_splits)

declare pivotUp.simps [simp del] pivotDown.simps [simp del]

function pivotLoop ::
  "'s sort_data \<Rightarrow> nat \<Rightarrow> nat \<Rightarrow> nat \<Rightarrow> nat \<Rightarrow> nat \<Rightarrow> 's \<Rightarrow> nat \<times> nat \<times> nat \<times> nat \<times> 's" where
  "pivotLoop D pivot a b c d s =
     (case pivotUp D pivot c a b s of (a1, b1, s1) \<Rightarrow>
      case pivotDown D pivot b1 c d s1 of (c1, d1, s2) \<Rightarrow>
      if b1 \<ge> c1 then (a1, b1, c1, d1, s2)
      else pivotLoop D pivot a1 (b1 + 1) (c1 - 1) d1 (Swap D s2 b1 (c1 - 1)))"
  by pat_completeness auto
termination
  by (relation "measure (\<lambda>(D, p, a, b, c, d, s). c - b)")
    (auto dest!: pivotUp_mono [OF sym] pivotDown_mono [OF sym])

definition doPivot :: "'s sort_data \<Rightarrow> nat \<Rightarrow> nat \<Rightarrow> 's \<Rightarrow> nat \<times> nat \<times> 's" where
  "doPivot D lo hi s =
     (let m = lo + (hi - lo) div 2;
          s = (if hi - lo > 40 then
                 let k = (hi - lo) div 8;
                     s = medianOfThree D lo (lo + k) (lo + 2 * k) s;
                     s = medianOfThree D m (m - k) (m + k) s
                 in medianOfThree D (hi - 1) (hi - 1 - k) (hi - 1 - 2 * k) s
               else s);
          s = medianOfThree D lo m (hi - 1) s
      in case pivotLoop D lo (lo + 1) (lo + 1) hi hi s of (a, b, c, d, s) \<Rightarrow>
         let n = min_int (b - a) (a - lo);
             s = swapRange D lo (b - n) n s;
             n = min_int (hi - d) (d - c);
             s = swapRange D c (hi - n) n s
         in (lo + b - a, hi - (d - c), s))"

text \<open>quickSort: the \<open>for\<close> loop and the recursive call both spend one unit of \<open>maxDepth\<close>.\<close>

fun quickSort :: "'s sort_data \<Rightarrow> nat \<Rightarrow> nat \<Rightarrow> nat \<Rightarrow> 's \<Rightarrow> 's" where
  "quickSort D a b 0 s =
     (if b - a > 7 then heapSort D a b s
      else if b - a > 1 then insertionSort D a b s else s)"
| "quickSort D a b (Suc maxDepth) s =
     (if b - a > 7 then
        case doPivot D a b s of (mlo, mhi, s) \<Rightarrow>
        if mlo - a < b - mhi
        then quickSort D mhi b maxDepth (quickSort D a mlo maxDepth s)
        else quickSort D a mlo maxDepth (quickSort D mhi b maxDepth s)
      else if b - a > 1 then insertionSort D a b s else s)"

fun depthLoop :: "nat \<Rightarrow> nat \<Rightarrow> nat" where
  "depthLoop i maxDepth = (if i > 0 then depthLoop (i div 2) (maxDepth + 1) else maxDepth)"

definition Sort :: "'s sort_data \<Rightarrow> 's \<Rightarrow> 's" where
  "Sort D s = (let n = Len D s; maxDepth = depthLoop n 0 * 2 in quickSort D 0 n maxDepth s)"

text \<open>\<open>Reverse\<close> swaps the arguments of \<open>Less\<close>.\<close>

definition Reverse :: "'s sort_data \<Rightarrow> 's sort_data" where
  "Reverse D = D\<lparr>Less := (\<lambda>s i j. Less D s j i)\<rparr>"

fun IsSorted_loop :: "'s sort_data \<Rightarrow> 's \<Rightarrow> nat \<Rightarrow> bool" where
  "IsSorted_loop D s 0 = True"
| "IsSorted_loop D s (Suc i) =
     (if Suc i > 0 \<and> Less D s (Suc i) i then False else IsSorted_loop D s i)"

definition IsSorted :: "'s sort_data \<Rightarrow> 's \<Rightarrow> bool" where
  "IsSorted D s = (let n = Len D s in IsSorted_loop D s (n - 1))"

text \<open>The convenience types \<open>IntSlice\<close> and \<open>StringSlice\<close>; Go compares strings bytewise.\<close>

definition IntSlice :: "int list sort_data" where
  "IntSlice = \<lparr>Len = length, Less = (\<lambda>p i j. p ! i < p ! j), Swap = swap\<rparr>"

fun string_less :: "gostring \<Rightarrow> gostring \<Rightarrow> bool" where
  "string_less [] [] = False"
| "string_less [] (y # ys) = True"
| "string_less (x # xs) [] = False"
| "string_less (x # xs) (y # ys) = (x < y \<or> x = y \<and> string_less xs ys)"

definition StringSlice :: "gostring list sort_data" where
  "StringSlice = \<lparr>Len = length, Less = (\<lambda>p i j. string_less (p ! i) (p ! j)), Swap = swap\<rparr>"

definition Ints :: "int list \<Rightarrow> int list" where
  "Ints a = Sort IntSlice a"

definition Strings :: "gostring list \<Rightarrow> gostring list" where
  "Strings a = Sort StringSlice a"

definition IntsAreSorted :: "int list \<Rightarrow> bool" where
  "IntsAreSorted a = IsSorted IntSlice a"

definition StringsAreSorted :: "gostring list \<Rightarrow> bool" where
  "StringsAreSorted a = IsSorted StringSlice a"

declare insertionSort_outer.simps [simp del] siftDown_loop.simps [simp del]
  pivotLoop.simps [simp del] depthLoop.simps [simp del]

section \<open>The contract of sort.Interface\<close>

text \<open>
  \<open>view s\<close> is the sequence the collection \<open>s\<close> stands for. \<open>Less\<close> must be a strict weak order on
  the elements, \<open>Swap\<close> must exchange two of them; both only for indices in range.
\<close>

locale sort_interface =
  fixes D :: "'s sort_data" and view :: "'s \<Rightarrow> 'a list" and lt :: "'a \<Rightarrow> 'a \<Rightarrow> bool"
  assumes Len_view: "Len D s = length (view s)"
    and Less_view: "i < length (view s) \<Longrightarrow> j < length (view s) \<Longrightarrow>
      Less D s i j = lt (view s ! i) (view s ! j)"
    and Swap_view: "i < length (view s) \<Longrightarrow> j < length (view s) \<Longrightarrow>
      view (Swap D s i j) = swap (view s) i j"
    and lt_asym: "lt x y \<Longrightarrow> \<not> lt y x"
    and lt_negtrans: "\<not> lt x y \<Longrightarrow> \<not> lt y z \<Longrightarrow> \<not> lt x z"
begin

lemma lt_irrefl: "\<not> lt x x"
  using lt_asym by blast

lemma lt_trans: "lt x y \<Longrightarrow> lt y z \<Longrightarrow> lt x z"
  using lt_asym lt_negtrans by blast

lemma lt_le_trans: "lt x y \<Longrightarrow> \<not> lt z y \<Longrightarrow> lt x z"
  using lt_negtrans by blast

lemma le_lt_trans: "\<not> lt y x \<Longrightarrow> lt y z \<Longrightarrow> lt x z"
  using lt_negtrans by blast

end

definition sorted_seg :: "('a \<Rightarrow> 'a \<Rightarrow> bool) \<Rightarrow> 'a list \<Rightarrow> nat \<Rightarrow> nat \<Rightarrow> bool" where
  "sorted_seg lt xs a b \<longleftrightarrow> (\<forall>i j. a \<le> i \<and> i < j \<and> j < b \<longrightarrow> \<not> lt (xs ! j) (xs ! i))"

lemma sorted_segD: "sorted_seg lt xs a b \<Longrightarrow> a \<le> i \<Longrightarrow> i < j \<Longrightarrow> j < b \<Longrightarrow> \<not> lt (xs ! j) (xs ! i)"
  by (simp add: sorted_seg_def)

lemma sorted_segI:
  "(\<And>i j. a \<le> i \<Longrightarrow> i < j \<Longrightarrow> j < b \<Longrightarrow> \<not> lt (xs ! j) (xs ! i)) \<Longrightarrow> sorted_seg lt xs a b"
  by (simp add: sorted_seg_def)

lemma sorted_seg_trivial [simp]: "b \<le> Suc a \<Longrightarrow> sorted_seg lt xs a b"
  by (auto simp: sorted_seg_def)

lemma sorted_seg_cong:
  "sorted_seg lt xs a b \<Longrightarrow> (\<And>k. a \<le> k \<Longrightarrow> k < b \<Longrightarrow> ys ! k = xs ! k) \<Longrightarrow> sorted_seg lt ys a b"
  by (simp add: sorted_seg_def)

section \<open>Insertion sort\<close>

context sort_interface
begin

text \<open>The inner loop: \<open>a..<j\<close> and \<open>j..i\<close> are sorted apart from the element travelling at \<open>j\<close>.\<close>

lemma insertionSort_inner_correct:
  assumes "j \<le> i" "i < length (view s)" "a \<le> i"
    and "\<And>p q. a \<le> p \<Longrightarrow> p < q \<Longrightarrow> q \<le> i \<Longrightarrow> q \<noteq> j \<Longrightarrow> \<not> lt (view s ! q) (view s ! p)"
  shows "seg_perm (view s) (view (insertionSort_inner D a j s)) a (Suc i) \<and>
         sorted_seg lt (view (insertionSort_inner D a j s)) a (Suc i)"
  using assms
proof (induction j arbitrary: s)
  case 0
  then show ?case by (auto intro!: sorted_segI)
next
  case (Suc j)
  have less: "Less D s (Suc j) j = lt (view s ! Suc j) (view s ! j)"
    using Suc.prems by (simp add: Less_view)
  show ?case
  proof (cases "a < Suc j \<and> Less D s (Suc j) j")
    case True
    let ?s = "Swap D s (Suc j) j"
    have v: "view ?s = swap (view s) (Suc j) j" using Suc.prems by (simp add: Swap_view)
    have step: "seg_perm (view s) (view ?s) a (Suc i)"
      using Suc.prems True by (auto simp: v intro!: seg_perm_swap)
    have "seg_perm (view ?s) (view (insertionSort_inner D a j ?s)) a (Suc i) \<and>
          sorted_seg lt (view (insertionSort_inner D a j ?s)) a (Suc i)"
    proof (rule Suc.IH)
      fix p q assume pq: "a \<le> p" "p < q" "q \<le> i" "q \<noteq> j"
      have nth: "view ?s ! k = (if k = Suc j then view s ! j else if k = j then view s ! Suc j
          else view s ! k)" for k
        using Suc.prems by (simp add: v swap_simps)
      consider "q = Suc j" "p = j" | "q = Suc j" "p < j" | "Suc j < q" "p = j"
        | "Suc j < q" "p = Suc j" | "q \<noteq> Suc j" "p \<noteq> j" "p \<noteq> Suc j"
        using pq by linarith
      then show "\<not> lt (view ?s ! q) (view ?s ! p)"
      proof cases
        case 1
        then show ?thesis using True less lt_asym by (simp add: nth)
      next
        case 2
        then show ?thesis using Suc.prems(1) Suc.prems(4) [of p j] pq by (simp add: nth)
      next
        case 3
        then show ?thesis using Suc.prems(4) [of "Suc j" q] pq by (simp add: nth)
      next
        case 4
        then show ?thesis using Suc.prems(4) [of j q] pq True by (simp add: nth)
      next
        case 5
        then show ?thesis using Suc.prems(4) [of p q] pq by (simp add: nth)
      qed
    qed (use Suc.prems v in auto)
    with step True show ?thesis by (auto intro: seg_perm_trans)
  next
    case False
    have "\<not> lt (view s ! q) (view s ! p)" if "a \<le> p" "p < q" "q < Suc i" for p q
    proof (cases "q = Suc j")
      case True
      with that False less have "\<not> lt (view s ! q) (view s ! j)" by auto
      moreover have "p = j \<or> \<not> lt (view s ! j) (view s ! p)"
        using that True Suc.prems(4) [of p j] by auto
      ultimately show ?thesis using lt_negtrans by blast
    qed (use that Suc.prems(4) [of p q] in auto)
    with False show ?thesis by (auto intro!: sorted_segI)
  qed
qed

lemma insertionSort_outer_correct:
  assumes "a < i" "i \<le> b" "b \<le> length (view s)" "sorted_seg lt (view s) a i"
  shows "seg_perm (view s) (view (insertionSort_outer D a b i s)) a b \<and>
         sorted_seg lt (view (insertionSort_outer D a b i s)) a b"
  using assms
proof (induction "b - i" arbitrary: i s)
  case 0
  then show ?case by (simp add: insertionSort_outer.simps)
next
  case (Suc n)
  let ?s = "insertionSort_inner D a i s"
  have in1: "seg_perm (view s) (view ?s) a (Suc i)" "sorted_seg lt (view ?s) a (Suc i)"
    using insertionSort_inner_correct [of i i s a] Suc.prems Suc.hyps(2)
    by (auto simp: sorted_seg_def)
  then have "seg_perm (view ?s) (view (insertionSort_outer D a b (Suc i) ?s)) a b \<and>
      sorted_seg lt (view (insertionSort_outer D a b (Suc i) ?s)) a b"
    using Suc.prems Suc.hyps(2) by (intro Suc.hyps(1)) (auto dest: seg_perm_length)
  moreover have "seg_perm (view s) (view ?s) a b"
    using in1(1) Suc.prems Suc.hyps(2) by (auto elim: seg_perm_mono)
  ultimately show ?case
    using Suc.hyps(2) by (subst (1 2) insertionSort_outer.simps) (auto intro: seg_perm_trans)
qed

lemma insertionSort_correct:
  assumes "a \<le> b" "b \<le> length (view s)"
  shows "seg_perm (view s) (view (insertionSort D a b s)) a b"
    and "sorted_seg lt (view (insertionSort D a b s)) a b"
proof -
  have "seg_perm (view s) (view (insertionSort D a b s)) a b \<and>
        sorted_seg lt (view (insertionSort D a b s)) a b"
  proof (cases "a < b")
    case True
    then show ?thesis
      using insertionSort_outer_correct [of a "Suc a" b s] assms sorted_segI [of a "Suc a" lt "view s"]
      by (simp add: insertionSort_def)
  next
    case False
    then show ?thesis using assms
      by (simp add: insertionSort_def insertionSort_outer.simps sorted_seg_trivial)
  qed
  then show "seg_perm (view s) (view (insertionSort D a b s)) a b"
    and "sorted_seg lt (view (insertionSort D a b s)) a b" by auto
qed

end

section \<open>Heap sort\<close>

definition is_child :: "nat \<Rightarrow> nat \<Rightarrow> bool" where
  "is_child i c \<longleftrightarrow> c = 2 * i + 1 \<or> c = 2 * i + 2"

lemma is_child_gt: "is_child i c \<Longrightarrow> i < c"
  by (auto simp: is_child_def)

lemma is_child_unique: "is_child i c \<Longrightarrow> is_child i' c \<Longrightarrow> i' = i"
  unfolding is_child_def by presburger

text \<open>The max-heap property of \<open>xs[first..first+hi)\<close> at every parent \<open>i \<ge> lo\<close>, possibly but one.\<close>

definition heap_seg :: "('a \<Rightarrow> 'a \<Rightarrow> bool) \<Rightarrow> 'a list \<Rightarrow> nat \<Rightarrow> nat \<Rightarrow> nat \<Rightarrow> (nat \<Rightarrow> bool) \<Rightarrow> bool" where
  "heap_seg lt xs first lo hi skip \<longleftrightarrow>
     (\<forall>i c. lo \<le> i \<and> is_child i c \<and> c < hi \<and> \<not> skip i \<longrightarrow> \<not> lt (xs ! (first + i)) (xs ! (first + c)))"

lemma heap_segD:
  "heap_seg lt xs first lo hi skip \<Longrightarrow> lo \<le> i \<Longrightarrow> is_child i c \<Longrightarrow> c < hi \<Longrightarrow> \<not> skip i \<Longrightarrow>
   \<not> lt (xs ! (first + i)) (xs ! (first + c))"
  by (simp add: heap_seg_def)

context sort_interface
begin

text \<open>One turn of the loop: with a child in range, the larger child \<open>c\<close> is compared to the root.\<close>

lemma siftDown_loop_turn:
  assumes "2 * root + 1 < hi" "first + hi \<le> length (view s)"
  obtains c where "is_child root c" "c < hi"
    "\<And>c'. is_child root c' \<Longrightarrow> c' < hi \<Longrightarrow> \<not> lt (view s ! (first + c)) (view s ! (first + c'))"
    "siftDown_loop D root hi first s =
      (if lt (view s ! (first + root)) (view s ! (first + c))
       then siftDown_loop D c hi first (Swap D s (first + root) (first + c)) else s)"
proof -
  define c0 where "c0 = 2 * root + 1"
  define c where "c = (if c0 + 1 < hi \<and> Less D s (first + c0) (first + c0 + 1) then c0 + 1 else c0)"
  have hi: "c < hi" and ch: "is_child root c"
    using assms(1) by (auto simp: c_def c0_def is_child_def)
  have big: "\<not> lt (view s ! (first + c)) (view s ! (first + c'))" if "is_child root c'" "c' < hi" for c'
  proof (cases "c' = c")
    case True
    then show ?thesis by (simp add: lt_irrefl)
  next
    case False
    then have "c0 + 1 < hi" "{c, c'} = {c0, c0 + 1}"
      using that ch hi by (auto simp: is_child_def c0_def)
    moreover have "Less D s (first + c0) (first + c0 + 1) = lt (view s ! (first + c0)) (view s ! (first + c0 + 1))"
      using calculation(1) assms(2) by (intro Less_view) auto
    ultimately show ?thesis
      using False lt_asym by (auto simp: c_def doubleton_eq_iff add.assoc split: if_splits)
  qed
  have less: "Less D s (first + root) (first + c) = lt (view s ! (first + root)) (view s ! (first + c))"
    using assms hi by (intro Less_view) auto
  have "\<not> hi \<le> 2 * root + 1" using assms(1) by simp
  then have "siftDown_loop D root hi first s =
      (if \<not> Less D s (first + root) (first + c) then s
       else siftDown_loop D c hi first (Swap D s (first + root) (first + c)))"
    unfolding c_def c0_def by (subst siftDown_loop.simps) (simp only: Let_def if_False)
  then have "siftDown_loop D root hi first s =
      (if lt (view s ! (first + root)) (view s ! (first + c))
       then siftDown_loop D c hi first (Swap D s (first + root) (first + c)) else s)"
    by (simp add: less)
  with ch hi big show ?thesis by (rule that)
qed

lemma siftDown_loop_correct:
  assumes "lo \<le> root" "first + hi \<le> length (view s)"
    and "heap_seg lt (view s) first lo hi (\<lambda>i. i = root)"
    and "\<And>i c. lo \<le> i \<Longrightarrow> is_child i root \<Longrightarrow> is_child root c \<Longrightarrow> c < hi \<Longrightarrow>
      \<not> lt (view s ! (first + i)) (view s ! (first + c))"
  shows "seg_perm (view s) (view (siftDown_loop D root hi first s)) first (first + hi) \<and>
    heap_seg lt (view (siftDown_loop D root hi first s)) first lo hi (\<lambda>_. False)"
  using assms
proof (induction "hi - root" arbitrary: root s rule: less_induct)
  case less
  let ?v = "view s"
  show ?case
  proof (cases "2 * root + 1 < hi")
    case False
    then have "siftDown_loop D root hi first s = s" by (simp add: siftDown_loop.simps Let_def)
    moreover have "i \<noteq> root" if "is_child i c" "c < hi" for i c
      using that False by (auto simp: is_child_def)
    ultimately show ?thesis using less.prems(3) by (auto simp: heap_seg_def)
  next
    case True
    then obtain c where c: "is_child root c" "c < hi"
      and big: "\<And>c'. is_child root c' \<Longrightarrow> c' < hi \<Longrightarrow> \<not> lt (?v ! (first + c)) (?v ! (first + c'))"
      and turn: "siftDown_loop D root hi first s = (if lt (?v ! (first + root)) (?v ! (first + c))
         then siftDown_loop D c hi first (Swap D s (first + root) (first + c)) else s)"
      using siftDown_loop_turn less.prems(2) by blast
    have rc: "root < c" using c(1) by (rule is_child_gt)
    show ?thesis
    proof (cases "lt (?v ! (first + root)) (?v ! (first + c))")
      case stop: False
      have "\<not> lt (?v ! (first + i)) (?v ! (first + c'))"
        if "lo \<le> i" "is_child i c'" "c' < hi" for i c'
        using that heap_segD [OF less.prems(3), of i c'] stop big [of c'] lt_negtrans
        by (cases "i = root") auto
      with turn stop show ?thesis by (simp add: heap_seg_def)
    next
      case go: True
      let ?s = "Swap D s (first + root) (first + c)"
      have v: "view ?s = swap ?v (first + root) (first + c)"
        using less.prems(2) c(2) rc by (intro Swap_view) auto
      have nth: "view ?s ! (first + k) = (if k = root then ?v ! (first + c)
          else if k = c then ?v ! (first + root) else ?v ! (first + k))" for k
        using less.prems(2) c(2) rc unfolding v by (subst nth_swap) auto
      have step: "seg_perm ?v (view ?s) first (first + hi)"
        unfolding v using less.prems(2) c(2) rc by (intro seg_perm_swap) auto
      have heap: "heap_seg lt (view ?s) first lo hi (\<lambda>i. i = c)"
        unfolding heap_seg_def
      proof (intro allI impI, elim conjE)
        fix i c' assume ic: "lo \<le> i" "is_child i c'" "c' < hi" "i \<noteq> c"
        show "\<not> lt (view ?s ! (first + i)) (view ?s ! (first + c'))"
        proof (cases "i = root")
          case True
          then have "c' \<noteq> root" using is_child_gt ic(2) by blast
          then show ?thesis using True ic go lt_asym big [of c'] by (simp add: nth)
        next
          case i: False
          have "c' \<noteq> c" using is_child_unique [OF c(1)] ic(2) i by blast
          then show ?thesis
            using i ic c less.prems(4) [of i c] heap_segD [OF less.prems(3), of i c']
            by (cases "c' = root") (simp_all add: nth)
        qed
      qed
      have "seg_perm (view ?s) (view (siftDown_loop D c hi first ?s)) first (first + hi) \<and>
        heap_seg lt (view (siftDown_loop D c hi first ?s)) first lo hi (\<lambda>_. False)"
      proof (rule less.hyps [OF _ _ _ heap])
        fix i c' assume ic: "lo \<le> i" "is_child i c" "is_child c c'" "c' < hi"
        have "i = root" using is_child_unique [OF c(1) ic(2)] .
        moreover have "c < c'" using ic(3) by (rule is_child_gt)
        ultimately have "i = root" "c' \<noteq> root" "c' \<noteq> c" using rc by auto
        then show "\<not> lt (view ?s ! (first + i)) (view ?s ! (first + c'))"
          using heap_segD [OF less.prems(3), of c c'] ic rc less.prems(1) by (simp add: nth)
      qed (use rc c less.prems(1,2) in \<open>auto simp: v\<close>)
      with step turn go show ?thesis by (auto intro: seg_perm_trans)
    qed
  qed
qed

lemma siftDown_heapify:
  assumes "first + hi \<le> length (view s)" "heap_seg lt (view s) first (Suc lo) hi (\<lambda>_. False)"
  shows "seg_perm (view s) (view (siftDown D lo hi first s)) first (first + hi)"
    and "heap_seg lt (view (siftDown D lo hi first s)) first lo hi (\<lambda>_. False)"
proof -
  have "heap_seg lt (view s) first lo hi (\<lambda>i. i = lo)"
    using assms(2) by (auto simp: heap_seg_def)
  moreover have "\<not> lo \<le> i" if "is_child i lo" for i
    using is_child_gt [OF that] by simp
  ultimately have "seg_perm (view s) (view (siftDown D lo hi first s)) first (first + hi) \<and>
    heap_seg lt (view (siftDown D lo hi first s)) first lo hi (\<lambda>_. False)"
    unfolding siftDown_def using assms(1) by (intro siftDown_loop_correct) auto
  then show "seg_perm (view s) (view (siftDown D lo hi first s)) first (first + hi)"
    and "heap_seg lt (view (siftDown D lo hi first s)) first lo hi (\<lambda>_. False)" by auto
qed

lemma heapSort_build_correct:
  assumes "first + hi \<le> length (view s)" "heap_seg lt (view s) first (Suc i) hi (\<lambda>_. False)"
  shows "seg_perm (view s) (view (heapSort_build D hi first i s)) first (first + hi) \<and>
    heap_seg lt (view (heapSort_build D hi first i s)) first 0 hi (\<lambda>_. False)"
  using assms
proof (induction i arbitrary: s)
  case 0
  then show ?case using siftDown_heapify [of first hi s 0] by simp
next
  case (Suc i)
  let ?s = "siftDown D (Suc i) hi first s"
  note sd = siftDown_heapify [OF Suc.prems]
  then have "seg_perm (view ?s) (view (heapSort_build D hi first i ?s)) first (first + hi) \<and>
    heap_seg lt (view (heapSort_build D hi first i ?s)) first 0 hi (\<lambda>_. False)"
    using Suc.prems(1) seg_perm_length [OF sd(1)] by (intro Suc.IH) auto
  with sd(1) show ?case by (auto intro: seg_perm_trans)
qed

lemma heap_root_max:
  assumes "heap_seg lt xs first 0 hi (\<lambda>_. False)" "k < hi"
  shows "\<not> lt (xs ! first) (xs ! (first + k))"
  using assms(2)
proof (induction k rule: less_induct)
  case (less k)
  show ?case
  proof (cases k)
    case 0
    then show ?thesis by (simp add: lt_irrefl)
  next
    case (Suc m)
    then have "is_child (m div 2) k" "m div 2 < k" unfolding is_child_def by presburger+
    then have "\<not> lt (xs ! first) (xs ! (first + m div 2))"
      and "\<not> lt (xs ! (first + m div 2)) (xs ! (first + k))"
      using less.IH [of "m div 2"] less.prems heap_segD [OF assms(1), of "m div 2" k] by auto
    then show ?thesis by (rule lt_negtrans)
  qed
qed

lemma heapSort_pop_correct:
  assumes "first + hi \<le> length (view s)" "n \<le> hi" "heap_seg lt (view s) first 0 n (\<lambda>_. False)"
    and "sorted_seg lt (view s) (first + n) (first + hi)"
    and "\<And>i j. i < n \<Longrightarrow> n \<le> j \<Longrightarrow> j < hi \<Longrightarrow> \<not> lt (view s ! (first + j)) (view s ! (first + i))"
  shows "seg_perm (view s) (view (heapSort_pop D first n s)) first (first + hi) \<and>
    sorted_seg lt (view (heapSort_pop D first n s)) first (first + hi)"
  using assms
proof (induction n arbitrary: s)
  case 0
  then show ?case by simp
next
  case (Suc n)
  let ?v = "view s" and ?s1 = "Swap D s first (first + n)"
  let ?s2 = "siftDown D 0 n first ?s1"
  have v1: "view ?s1 = swap ?v first (first + n)" using Suc.prems by (intro Swap_view) auto
  have nth1: "view ?s1 ! (first + k) = (if k = 0 then ?v ! (first + n)
      else if k = n then ?v ! first else ?v ! (first + k))" for k
    using Suc.prems(1,2) unfolding v1 by (subst nth_swap) auto
  have "heap_seg lt (view ?s1) first (Suc 0) n (\<lambda>_. False)"
    using Suc.prems(3) by (auto simp: heap_seg_def nth1 dest: is_child_gt)
  then have s2: "seg_perm (view ?s1) (view ?s2) first (first + n)"
    "heap_seg lt (view ?s2) first 0 n (\<lambda>_. False)"
    using Suc.prems(1,2) siftDown_heapify [of first n ?s1 0] by (auto simp: v1)
  have out: "view ?s2 ! (first + k) = view ?s1 ! (first + k)" if "n \<le> k" for k
    using seg_perm_outside [OF s2(1)] that by auto
  have perm: "seg_perm ?v (view ?s2) first (first + hi)"
    using seg_perm_swap [of first first "first + hi" "first + n" ?v] Suc.prems(1,2)
      seg_perm_mono [OF s2(1), of first "first + hi"]
    by (auto simp: v1 intro: seg_perm_trans)
  have max: "\<not> lt (view ?s1 ! (first + n)) (view ?s1 ! (first + k))" if "k \<le> n" for k
    using heap_root_max [OF Suc.prems(3), of k] heap_root_max [OF Suc.prems(3), of n] that lt_irrefl
    by (auto simp: nth1)
  have above: "\<not> lt (view ?s1 ! (first + j)) (view ?s1 ! (first + i))" if "i \<le> n" "n < j" "j < hi" for i j
    using Suc.prems(5) [of i j] Suc.prems(5) [of 0 j] Suc.prems(5) [of n j] that by (auto simp: nth1)
  have "seg_perm (view ?s2) (view (heapSort_pop D first n ?s2)) first (first + hi) \<and>
    sorted_seg lt (view (heapSort_pop D first n ?s2)) first (first + hi)"
  proof (rule Suc.IH [OF _ _ s2(2)])
    show "sorted_seg lt (view ?s2) (first + n) (first + hi)"
    proof (rule sorted_segI)
      fix i j assume ij: "first + n \<le> i" "i < j" "j < first + hi"
      define i' j' where "i' = i - first" and "j' = j - first"
      with ij have k: "i = first + i'" "j = first + j'" "n \<le> i'" "i' < j'" "j' < hi" by auto
      show "\<not> lt (view ?s2 ! j) (view ?s2 ! i)"
      proof (cases "i' = n")
        case True
        then show ?thesis using k above [of n j'] by (simp add: out)
      next
        case False
        then show ?thesis using k sorted_segD [OF Suc.prems(4), of i j] by (simp add: out nth1)
      qed
    qed
    fix i j assume ij: "i < n" "n \<le> j" "j < hi"
    have "\<not> lt (view ?s1 ! (first + j)) (view ?s2 ! k)" if "first \<le> k" "k < first + n" for k
    proof (rule seg_perm_all [OF s2(1), where P = "\<lambda>x. \<not> lt (view ?s1 ! (first + j)) x", OF _ _ that])
      fix k' assume "first \<le> k'" "k' < first + n"
      then obtain m where "k' = first + m" "m < n" by (metis add_less_cancel_left le_Suc_ex)
      with ij show "\<not> lt (view ?s1 ! (first + j)) (view ?s1 ! k')"
        using max [of m] above [of m j] by (cases "j = n") auto
    qed (use Suc.prems(1,2) v1 in auto)
    with ij show "\<not> lt (view ?s2 ! (first + j)) (view ?s2 ! (first + i))" by (simp add: out)
  qed (use Suc.prems(1,2) seg_perm_length [OF perm] in auto)
  with perm show ?case by (auto intro: seg_perm_trans)
qed

lemma heapSort_correct:
  assumes "a \<le> b" "b \<le> length (view s)"
  shows "seg_perm (view s) (view (heapSort D a b s)) a b"
    and "sorted_seg lt (view (heapSort D a b s)) a b"
proof -
  let ?hi = "b - a"
  let ?s = "heapSort_build D ?hi a ((?hi - 1) div 2) s"
  have "\<not> c < ?hi" if "Suc ((?hi - 1) div 2) \<le> i" "is_child i c" for i c
  proof -
    have "n \<le> 2 * Suc ((n - 1) div 2)" for n :: nat by arith
    then have "?hi \<le> 2 * Suc ((?hi - 1) div 2)" .
    also have "\<dots> \<le> 2 * i" using that(1) by (rule mult_le_mono2)
    also have "\<dots> < c" using that(2) by (auto simp: is_child_def)
    finally show ?thesis by simp
  qed
  then have "heap_seg lt (view s) a (Suc ((?hi - 1) div 2)) ?hi (\<lambda>_. False)"
    by (auto simp: heap_seg_def)
  then have bld: "seg_perm (view s) (view ?s) a b" "heap_seg lt (view ?s) a 0 ?hi (\<lambda>_. False)"
    using heapSort_build_correct [of a ?hi s "(?hi - 1) div 2"] assms by auto
  have "seg_perm (view ?s) (view (heapSort_pop D a ?hi ?s)) a (a + ?hi) \<and>
    sorted_seg lt (view (heapSort_pop D a ?hi ?s)) a (a + ?hi)"
    using assms bld seg_perm_length [OF bld(1)] by (intro heapSort_pop_correct) auto
  with bld(1) assms show "seg_perm (view s) (view (heapSort D a b s)) a b"
    and "sorted_seg lt (view (heapSort D a b s)) a b"
    by (auto simp: heapSort_def Let_def intro: seg_perm_trans)
qed

end

section \<open>Partitioning\<close>

text \<open>The loop invariant written out in the comment of \<open>doPivot\<close>, for a pivot value \<open>pv\<close>.\<close>

definition pivot_inv ::
  "('a \<Rightarrow> 'a \<Rightarrow> bool) \<Rightarrow> 'a \<Rightarrow> 'a list \<Rightarrow> nat \<Rightarrow> nat \<Rightarrow> nat \<Rightarrow> nat \<Rightarrow> nat \<Rightarrow> nat \<Rightarrow> bool" where
  "pivot_inv lt pv xs lo a b c d hi \<longleftrightarrow>
     lo < a \<and> a \<le> b \<and> b \<le> c \<and> c \<le> d \<and> d \<le> hi \<and> hi \<le> length xs \<and> xs ! lo = pv \<and>
     (\<forall>k. lo \<le> k \<and> k < a \<or> d \<le> k \<and> k < hi \<longrightarrow> \<not> lt (xs ! k) pv \<and> \<not> lt pv (xs ! k)) \<and>
     (\<forall>k. a \<le> k \<and> k < b \<longrightarrow> lt (xs ! k) pv) \<and>
     (\<forall>k. c \<le> k \<and> k < d \<longrightarrow> lt pv (xs ! k))"

lemma pivot_invI:
  assumes "lo < a \<and> a \<le> b \<and> b \<le> c \<and> c \<le> d \<and> d \<le> hi \<and> hi \<le> length xs \<and> xs ! lo = pv"
    and "\<And>k. lo \<le> k \<and> k < a \<or> d \<le> k \<and> k < hi \<Longrightarrow> \<not> lt (xs ! k) pv \<and> \<not> lt pv (xs ! k)"
    and "\<And>k. a \<le> k \<Longrightarrow> k < b \<Longrightarrow> lt (xs ! k) pv"
    and "\<And>k. c \<le> k \<Longrightarrow> k < d \<Longrightarrow> lt pv (xs ! k)"
  shows "pivot_inv lt pv xs lo a b c d hi"
  using assms unfolding pivot_inv_def by blast

lemma pivot_inv_order:
  "pivot_inv lt pv xs lo a b c d hi \<Longrightarrow>
   lo < a \<and> a \<le> b \<and> b \<le> c \<and> c \<le> d \<and> d \<le> hi \<and> hi \<le> length xs \<and> xs ! lo = pv"
  unfolding pivot_inv_def by blast

lemma pivot_inv_eq:
  "pivot_inv lt pv xs lo a b c d hi \<Longrightarrow> lo \<le> k \<and> k < a \<or> d \<le> k \<and> k < hi \<Longrightarrow>
   \<not> lt (xs ! k) pv \<and> \<not> lt pv (xs ! k)"
  unfolding pivot_inv_def by blast

lemma pivot_inv_lt: "pivot_inv lt pv xs lo a b c d hi \<Longrightarrow> a \<le> k \<Longrightarrow> k < b \<Longrightarrow> lt (xs ! k) pv"
  unfolding pivot_inv_def by blast

lemma pivot_inv_gt: "pivot_inv lt pv xs lo a b c d hi \<Longrightarrow> c \<le> k \<Longrightarrow> k < d \<Longrightarrow> lt pv (xs ! k)"
  unfolding pivot_inv_def by blast

context sort_interface
begin

lemma pivotUp_correct:
  assumes "pivot_inv lt pv (view s) lo a b c d hi" "pivotUp D lo c a b s = (a', b', s')"
  shows "pivot_inv lt pv (view s') lo a' b' c d hi \<and> seg_perm (view s) (view s') lo hi \<and>
    (b' < c \<longrightarrow> lt pv (view s' ! b'))"
  using assms
proof (induction "c - b" arbitrary: a b s rule: less_induct)
  case less
  let ?v = "view s"
  note inv = less.prems(1)
  note ord = pivot_inv_order [OF inv]
  show ?case
  proof (cases "b < c")
    case False
    then show ?thesis using less.prems by (simp add: pivotUp.simps)
  next
    case True
    have L: "Less D s b lo = lt (?v ! b) pv" "Less D s lo b = lt pv (?v ! b)"
      using ord True by (simp_all add: Less_view)
    consider "lt (?v ! b) pv" | "\<not> lt (?v ! b) pv" "\<not> lt pv (?v ! b)"
      | "\<not> lt (?v ! b) pv" "lt pv (?v ! b)" by blast
    then show ?thesis
    proof cases
      case 1
      have "pivot_inv lt pv ?v lo a (b + 1) c d hi"
      proof (rule pivot_invI)
        fix k assume "a \<le> k" "k < b + 1"
        then show "lt (?v ! k) pv" using pivot_inv_lt [OF inv] 1 by (cases "k = b") auto
      qed (use ord True pivot_inv_eq [OF inv] pivot_inv_gt [OF inv] in auto)
      moreover have "pivotUp D lo c a (b + 1) s = (a', b', s')"
        using less.prems(2) 1 True L by (simp add: pivotUp.simps [of D lo c a b])
      ultimately show ?thesis using True by (intro less.hyps) auto
    next
      case 2
      let ?s = "Swap D s a b"
      have v: "view ?s = swap ?v a b" using ord True by (intro Swap_view) auto
      have nth: "view ?s ! k = (if k = a then ?v ! b else if k = b then ?v ! a else ?v ! k)" for k
        using ord True unfolding v by (subst nth_swap) auto
      have "pivot_inv lt pv (view ?s) lo (a + 1) (b + 1) c d hi"
      proof (rule pivot_invI)
        fix k assume k: "a + 1 \<le> k" "k < b + 1"
        then show "lt (view ?s ! k) pv"
          using pivot_inv_lt [OF inv, of a] pivot_inv_lt [OF inv, of k] by (auto simp: nth)
      next
        fix k assume k: "lo \<le> k \<and> k < a + 1 \<or> d \<le> k \<and> k < hi"
        then have "k = a \<or> k \<noteq> a \<and> k \<noteq> b \<and> (lo \<le> k \<and> k < a \<or> d \<le> k \<and> k < hi)"
          using ord True by auto
        then show "\<not> lt (view ?s ! k) pv \<and> \<not> lt pv (view ?s ! k)"
          using pivot_inv_eq [OF inv, of k] 2 by (auto simp: nth)
      next
        fix k assume k: "c \<le> k" "k < d"
        then show "lt pv (view ?s ! k)" using pivot_inv_gt [OF inv k] ord True by (simp add: nth)
      qed (use ord True nth [of lo] length_swap [of ?v a b, folded v] in auto)
      moreover have "pivotUp D lo c (a + 1) (b + 1) ?s = (a', b', s')"
        using less.prems(2) 2 True L by (simp add: pivotUp.simps [of D lo c a b])
      ultimately have "pivot_inv lt pv (view s') lo a' b' c d hi \<and> seg_perm (view ?s) (view s') lo hi \<and>
          (b' < c \<longrightarrow> lt pv (view s' ! b'))"
        using True by (intro less.hyps) auto
      moreover have "seg_perm ?v (view ?s) lo hi"
        unfolding v using ord True by (intro seg_perm_swap) auto
      ultimately show ?thesis by (auto intro: seg_perm_trans)
    next
      case 3
      then show ?thesis using less.prems True L by (simp add: pivotUp.simps [of D lo c a b])
    qed
  qed
qed

lemma pivotDown_correct:
  assumes "pivot_inv lt pv (view s) lo a b c d hi" "pivotDown D lo b c d s = (c', d', s')"
  shows "pivot_inv lt pv (view s') lo a b c' d' hi \<and> seg_perm (view s) (view s') lo hi \<and>
    (\<forall>k < c'. view s' ! k = view s ! k) \<and> (b < c' \<longrightarrow> lt (view s' ! (c' - 1)) pv)"
  using assms
proof (induction "c - b" arbitrary: c d s rule: less_induct)
  case less
  let ?v = "view s"
  note inv = less.prems(1)
  note ord = pivot_inv_order [OF inv]
  show ?case
  proof (cases "b < c")
    case False
    then show ?thesis using less.prems by (simp add: pivotDown.simps)
  next
    case True
    then obtain e where e: "c = Suc e" "b \<le> e" by (cases c) auto
    have L: "Less D s e lo = lt (?v ! e) pv" "Less D s lo e = lt pv (?v ! e)"
      using ord e by (simp_all add: Less_view)
    consider "lt pv (?v ! e)" | "\<not> lt (?v ! e) pv" "\<not> lt pv (?v ! e)"
      | "lt (?v ! e) pv" "\<not> lt pv (?v ! e)" by blast
    then show ?thesis
    proof cases
      case 1
      have "pivot_inv lt pv ?v lo a b e d hi"
      proof (rule pivot_invI)
        fix k assume "e \<le> k" "k < d"
        then show "lt pv (?v ! k)" using pivot_inv_gt [OF inv] 1 e by (cases "k = e") auto
      qed (use ord e pivot_inv_eq [OF inv] pivot_inv_lt [OF inv] in auto)
      moreover have "pivotDown D lo b e d s = (c', d', s')"
        using less.prems(2) 1 e L by (simp add: pivotDown.simps [of D lo b "Suc e" d])
      ultimately show ?thesis using e by (intro less.hyps) auto
    next
      case 2
      from True ord obtain f where f: "d = Suc f" "e \<le> f" using e by (cases d) auto
      let ?s = "Swap D s e f"
      have v: "view ?s = swap ?v e f" using ord e f by (intro Swap_view) auto
      have nth: "view ?s ! k = (if k = e then ?v ! f
          else if k = f then ?v ! e else ?v ! k)" for k
        using ord e f unfolding v by (subst nth_swap) auto
      have "pivot_inv lt pv (view ?s) lo a b e f hi"
      proof (rule pivot_invI)
        fix k assume k: "e \<le> k" "k < f"
        then show "lt pv (view ?s ! k)"
          using pivot_inv_gt [OF inv, of "f"] pivot_inv_gt [OF inv, of k] e f by (auto simp: nth)
      next
        fix k assume k: "lo \<le> k \<and> k < a \<or> f \<le> k \<and> k < hi"
        then have "k = f \<or> k \<noteq> f \<and> k \<noteq> e \<and> (lo \<le> k \<and> k < a \<or> d \<le> k \<and> k < hi)"
          using ord e f by auto
        then show "\<not> lt (view ?s ! k) pv \<and> \<not> lt pv (view ?s ! k)"
          using pivot_inv_eq [OF inv, of k] 2 by (auto simp: nth)
      next
        fix k assume k: "a \<le> k" "k < b"
        then show "lt (view ?s ! k) pv" using pivot_inv_lt [OF inv k] ord e f by (simp add: nth)
      qed (use ord e f nth [of lo] length_swap [of ?v e "f", folded v] in auto)
      moreover have down: "pivotDown D lo b e f ?s = (c', d', s')"
        using less.prems(2) 2 e f L by (simp add: pivotDown.simps [of D lo b "Suc e" "Suc f"])
      ultimately have IH: "pivot_inv lt pv (view s') lo a b c' d' hi \<and> seg_perm (view ?s) (view s') lo hi \<and>
          (\<forall>k < c'. view s' ! k = view ?s ! k) \<and> (b < c' \<longrightarrow> lt (view s' ! (c' - 1)) pv)"
        using e f by (intro less.hyps) auto
      have "c' \<le> e" using pivotDown_mono [OF down] .
      then have "view ?s ! k = ?v ! k" if "k < c'" for k using that ord e f by (auto simp: nth)
      moreover have "seg_perm ?v (view ?s) lo hi"
        unfolding v using ord e f by (intro seg_perm_swap) auto
      ultimately show ?thesis using IH by (auto intro: seg_perm_trans)
    next
      case 3
      then show ?thesis using less.prems e L by (auto simp: pivotDown.simps [of D lo b "Suc e" d])
    qed
  qed
qed

lemma pivotLoop_correct:
  assumes "pivot_inv lt pv (view s) lo a b c d hi" "pivotLoop D lo a b c d s = (a', b', c', d', s')"
  shows "pivot_inv lt pv (view s') lo a' b' c' d' hi \<and> b' = c' \<and> seg_perm (view s) (view s') lo hi"
  using assms
proof (induction "c - b" arbitrary: a b c d s rule: less_induct)
  case less
  obtain a1 b1 s1 where up: "pivotUp D lo c a b s = (a1, b1, s1)" by (metis prod_cases3)
  obtain c1 d1 s2 where down: "pivotDown D lo b1 c d s1 = (c1, d1, s2)" by (metis prod_cases3)
  have U: "pivot_inv lt pv (view s1) lo a1 b1 c d hi" "seg_perm (view s) (view s1) lo hi"
    "b1 < c \<Longrightarrow> lt pv (view s1 ! b1)"
    using pivotUp_correct [OF less.prems(1) up] by blast+
  have N: "pivot_inv lt pv (view s2) lo a1 b1 c1 d1 hi" "seg_perm (view s1) (view s2) lo hi"
    "\<And>k. k < c1 \<Longrightarrow> view s2 ! k = view s1 ! k" "b1 < c1 \<Longrightarrow> lt (view s2 ! (c1 - 1)) pv"
    using pivotDown_correct [OF U(1) down] by blast+
  note inv = N(1)
  note ord = pivot_inv_order [OF inv]
  have perm: "seg_perm (view s) (view s2) lo hi" using U(2) N(2) by (rule seg_perm_trans)
  have unfold: "pivotLoop D lo a b c d s = (if b1 \<ge> c1 then (a1, b1, c1, d1, s2)
      else pivotLoop D lo a1 (b1 + 1) (c1 - 1) d1 (Swap D s2 b1 (c1 - 1)))"
    by (subst pivotLoop.simps) (simp add: up down)
  show ?case
  proof (cases "b1 \<ge> c1")
    case True
    then show ?thesis using less.prems(2) unfold N(1) perm ord by simp
  next
    case False
    then obtain e where e: "c1 = Suc e" "b1 \<le> e" by (cases c1) auto
    let ?s = "Swap D s2 b1 e"
    have v: "view ?s = swap (view s2) b1 e" using ord e by (intro Swap_view) auto
    have nth: "view ?s ! k = (if k = b1 then view s2 ! e
        else if k = e then view s2 ! b1 else view s2 ! k)" for k
      using ord e unfolding v by (subst nth_swap) auto
    have cc: "b \<le> b1" "c1 \<le> c" using pivotUp_mono [OF up] pivotDown_mono [OF down] by auto
    have big: "lt pv (view s2 ! b1)" using U(3) N(3) [of b1] e cc by simp
    have small: "lt (view s2 ! e) pv" using N(4) e by simp
    have ne: "b1 \<noteq> e" using big small lt_asym by blast
    have "pivot_inv lt pv (view ?s) lo a1 (b1 + 1) e d1 hi"
    proof (rule pivot_invI)
      fix k assume k: "e \<le> k" "k < d1"
      then show "lt pv (view ?s ! k)"
        using pivot_inv_gt [OF inv, of k] big ne e by (cases "k = e") (auto simp: nth)
    next
      fix k assume k: "a1 \<le> k" "k < b1 + 1"
      then show "lt (view ?s ! k) pv"
        using pivot_inv_lt [OF inv, of k] small e by (cases "k = b1") (auto simp: nth)
    next
      fix k assume k: "lo \<le> k \<and> k < a1 \<or> d1 \<le> k \<and> k < hi"
      then have "k \<noteq> b1" "k \<noteq> e" using ord e by auto
      then show "\<not> lt (view ?s ! k) pv \<and> \<not> lt pv (view ?s ! k)"
        using pivot_inv_eq [OF inv k] by (simp add: nth)
    qed (use ord e ne nth [of lo] length_swap [of "view s2" b1 e, folded v] in auto)
    moreover have "pivotLoop D lo a1 (b1 + 1) e d1 ?s = (a', b', c', d', s')"
      using less.prems(2) unfold e by simp
    ultimately have "pivot_inv lt pv (view s') lo a' b' c' d' hi \<and> b' = c' \<and> seg_perm (view ?s) (view s') lo hi"
      using e cc by (intro less.hyps) auto
    moreover have "seg_perm (view s2) (view ?s) lo hi"
      unfolding v using ord e by (intro seg_perm_swap) auto
    ultimately show ?thesis using perm by (blast intro: seg_perm_trans)
  qed
qed

lemma medianOfThree_perm:
  assumes "lo \<le> m0" "m0 < hi" "lo \<le> m1" "m1 < hi" "lo \<le> m2" "m2 < hi" "hi \<le> length (view s)"
  shows "seg_perm (view s) (view (medianOfThree D m1 m0 m2 s)) lo hi"
proof -
  have sw: "seg_perm (view s) (view t) lo hi \<Longrightarrow> lo \<le> i \<Longrightarrow> i < hi \<Longrightarrow> lo \<le> j \<Longrightarrow> j < hi \<Longrightarrow>
      seg_perm (view s) (view (Swap D t i j)) lo hi" for t i j
    using assms(7) seg_perm_length [of "view s" "view t" lo hi]
    by (subst Swap_view) (auto intro: seg_perm_trans [OF _ seg_perm_swap])
  show ?thesis
    unfolding medianOfThree_def Let_def using assms by (auto intro!: sw)
qed

lemma swapRange_nth:
  assumes "a + n \<le> b" "b + n \<le> length (view s)"
  shows "length (view (swapRange D a b n s)) = length (view s) \<and>
    mset (view (swapRange D a b n s)) = mset (view s) \<and>
    view (swapRange D a b n s) ! k =
      (if a \<le> k \<and> k < a + n then view s ! (k - a + b)
       else if b \<le> k \<and> k < b + n then view s ! (k - b + a) else view s ! k)"
  using assms
proof (induction n arbitrary: k)
  case 0
  then show ?case by auto
next
  case (Suc n)
  let ?t = "swapRange D a b n s"
  have IH: "length (view ?t) = length (view s)" "mset (view ?t) = mset (view s)"
    "view ?t ! k = (if a \<le> k \<and> k < a + n then view s ! (k - a + b)
       else if b \<le> k \<and> k < b + n then view s ! (k - b + a) else view s ! k)" for k
    using Suc by auto
  have v: "view (swapRange D a b (Suc n) s) = swap (view ?t) (a + n) (b + n)"
    using Suc.prems IH(1) by (simp add: Let_def Swap_view)
  have "swap (view ?t) (a + n) (b + n) ! k = (if k = a + n then view s ! (b + n)
      else if k = b + n then view s ! (a + n) else view ?t ! k)"
    using Suc.prems by (subst nth_swap) (simp_all add: IH(1) IH(3) [of "a + n"] IH(3) [of "b + n"])
  then show ?case unfolding v using Suc.prems IH(1,2) IH(3) [of k]
    by (auto simp: less_Suc_eq add.commute)
qed

lemma swapRange_perm:
  assumes "lo \<le> a" "a + n \<le> b" "b + n \<le> hi" "hi \<le> length (view s)"
  shows "seg_perm (view s) (view (swapRange D a b n s)) lo hi"
  using swapRange_nth [of a n b s] assms unfolding seg_perm_def by auto

text \<open>The result of partitioning: smaller elements, elements equal to the pivot, greater ones.\<close>

lemma doPivot_correct:
  assumes "lo + 7 < hi" "hi \<le> length (view s)" "doPivot D lo hi s = (mlo, mhi, s')"
  shows "lo \<le> mlo \<and> mlo < mhi \<and> mhi \<le> hi \<and> seg_perm (view s) (view s') lo hi \<and>
    (\<exists>pv. (\<forall>k. lo \<le> k \<and> k < mlo \<longrightarrow> lt (view s' ! k) pv) \<and>
      (\<forall>k. mlo \<le> k \<and> k < mhi \<longrightarrow> \<not> lt (view s' ! k) pv \<and> \<not> lt pv (view s' ! k)) \<and>
      (\<forall>k. mhi \<le> k \<and> k < hi \<longrightarrow> lt pv (view s' ! k)))"
proof -
  define k where "k = (hi - lo) div 8"
  define m where "m = lo + (hi - lo) div 2"
  define t1 where "t1 = (if hi - lo > 40 then medianOfThree D (hi - 1) (hi - 1 - k) (hi - 1 - 2 * k)
    (medianOfThree D m (m - k) (m + k) (medianOfThree D lo (lo + k) (lo + 2 * k) s)) else s)"
  define t2 where "t2 = medianOfThree D lo m (hi - 1) t1"
  have m3: "seg_perm (view s) (view t) lo hi \<Longrightarrow> lo \<le> i \<Longrightarrow> i < hi \<Longrightarrow> lo \<le> j \<Longrightarrow> j < hi \<Longrightarrow> lo \<le> l \<Longrightarrow> l < hi \<Longrightarrow>
      seg_perm (view s) (view (medianOfThree D i j l t)) lo hi" for t i j l
    using assms(2) seg_perm_length [of "view s" "view t"]
      medianOfThree_perm [of lo j hi i l t] by (metis seg_perm_trans)
  have arith: "lo \<le> m" "m < hi" "4 * k \<le> (hi - lo) div 2" "2 * ((hi - lo) div 2) \<le> hi - lo" "lo < hi"
    using assms(1) unfolding k_def m_def by auto
  have p1: "seg_perm (view s) (view t1) lo hi"
    unfolding t1_def using arith by (auto intro!: m3 simp: m_def)
  have p2: "seg_perm (view s) (view t2) lo hi"
    unfolding t2_def using arith by (intro m3 p1) auto
  define pv where "pv = view t2 ! lo"
  obtain a b c d t3 where loop: "pivotLoop D lo (lo + 1) (lo + 1) hi hi t2 = (a, b, c, d, t3)"
    by (metis prod_cases5)
  have "pivot_inv lt pv (view t2) lo (lo + 1) (lo + 1) hi hi hi"
    using assms(1,2) seg_perm_length [OF p2] lt_irrefl by (intro pivot_invI) (auto simp: pv_def less_Suc_eq)
  then have inv: "pivot_inv lt pv (view t3) lo a b c d hi" and bc: "b = c" and p3: "seg_perm (view t2) (view t3) lo hi"
    using pivotLoop_correct [OF _ loop] by blast+
  note ord = pivot_inv_order [OF inv]
  define n1 where "n1 = min_int (b - a) (a - lo)"
  define n2 where "n2 = min_int (hi - d) (d - c)"
  define t4 where "t4 = swapRange D lo (b - n1) n1 t3"
  define t5 where "t5 = swapRange D c (hi - n2) n2 t4"
  have n1: "n1 \<le> b - a" "n1 \<le> a - lo" "n1 = b - a \<or> n1 = a - lo" by (auto simp: n1_def min_int_def)
  have n2: "n2 \<le> hi - d" "n2 \<le> d - c" "n2 = hi - d \<or> n2 = d - c" by (auto simp: n2_def min_int_def)
  have r: "doPivot D lo hi s = (lo + b - a, hi - (d - c), t5)"
    unfolding doPivot_def Let_def
    by (simp only: k_def [symmetric] m_def [symmetric] t1_def [symmetric] t2_def [symmetric] loop
        prod.case n1_def [symmetric] n2_def [symmetric] t4_def [symmetric] t5_def [symmetric])
  have r1: "lo + n1 \<le> b - n1" "b - n1 + n1 = b" "b \<le> length (view t3)" using ord n1(1,2) by arith+
  have nth4: "length (view t4) = length (view t3)" "view t4 ! j = (if lo \<le> j \<and> j < lo + n1 then view t3 ! (j - lo + (b - n1))
      else if b - n1 \<le> j \<and> j < b then view t3 ! (j - (b - n1) + lo) else view t3 ! j)" for j
    using swapRange_nth [of lo n1 "b - n1" t3 j, unfolded r1(2), OF r1(1,3)] by (simp_all only: t4_def)
  have r2: "c + n2 \<le> hi - n2" "hi - n2 + n2 = hi" "hi \<le> length (view t4)" using ord n2(1,2) nth4(1) by arith+
  have nth5: "view t5 ! j = (if c \<le> j \<and> j < c + n2 then view t4 ! (j - c + (hi - n2))
      else if hi - n2 \<le> j \<and> j < hi then view t4 ! (j - (hi - n2) + c) else view t4 ! j)" for j
    using swapRange_nth [of c n2 "hi - n2" t4 j, unfolded r2(2), OF r2(1,3)] by (simp only: t5_def)
  have p4: "seg_perm (view t3) (view t4) lo hi"
    unfolding t4_def using ord n1 by (intro swapRange_perm) auto
  have p5: "seg_perm (view t4) (view t5) lo hi"
    unfolding t5_def using ord n2 bc nth4(1) by (intro swapRange_perm) auto
  have "lt (view t5 ! j) pv" if j: "lo \<le> j" "j < lo + b - a" for j
  proof -
    have "view t5 ! j = view t4 ! j" unfolding nth5 using j ord n2 bc by auto
    also have "\<dots> = view t3 ! (if j < lo + n1 then j - lo + (b - n1) else j)"
      unfolding nth4(2) using j ord n1 by auto
    finally show ?thesis using j ord n1 by (simp only:) (rule pivot_inv_lt [OF inv]; auto)
  qed
  moreover have "lt pv (view t5 ! j)" if j: "hi - (d - c) \<le> j" "j < hi" for j
  proof -
    define i where "i = (if hi - n2 \<le> j then j - (hi - n2) + c else j)"
    have i: "c \<le> i" "i < d" using j ord n2 by (auto simp: i_def)
    have "view t5 ! j = view t4 ! i"
      unfolding nth5 i_def using j ord n2 by auto
    also have "\<dots> = view t3 ! i"
      using i ord n1 bc by (subst nth4(2)) auto
    finally show ?thesis using pivot_inv_gt [OF inv i] by simp
  qed
  moreover have "\<not> lt (view t5 ! j) pv \<and> \<not> lt pv (view t5 ! j)" if "lo + b - a \<le> j" "j < hi - (d - c)" for j
  proof (cases "j < b")
    case True
    define i where "i = (if b - n1 \<le> j then j - (b - n1) + lo else j)"
    have "lo \<le> i \<and> i < a"
    proof (cases "b - n1 \<le> j")
      case jb: True
      have "j - (b - n1) < n1" using True jb ord n1(1) by arith
      then show ?thesis using jb n1(2) ord unfolding i_def if_P [OF jb] by arith
    next
      case jb: False
      have "n1 = b - a" using jb that(1) n1(3) ord by arith
      then show ?thesis using jb that(1) ord unfolding i_def if_not_P [OF jb] by arith
    qed
    then have i: "lo \<le> i \<and> i < a \<or> d \<le> i \<and> i < hi" ..
    have "view t5 ! j = view t4 ! j" using True ord n2 bc by (subst nth5) auto
    also have "\<dots> = view t3 ! i"
    proof -
      have "\<not> (lo \<le> j \<and> j < lo + n1)" using that(1) ord n1(1) by arith
      then show ?thesis using True unfolding nth4(2) [of j] i_def by auto
    qed
    finally show ?thesis using pivot_inv_eq [OF inv i] by simp
  next
    case False
    define i where "i = (if j < c + n2 then j - c + (hi - n2) else j)"
    have "d \<le> i \<and> i < hi"
    proof (cases "j < c + n2")
      case jc: True
      show ?thesis using jc False n2(1) ord bc unfolding i_def if_P [OF jc] by arith
    next
      case jc: False
      have "n2 = d - c" using jc that(2) n2(3) ord by arith
      then show ?thesis using jc that(2) ord unfolding i_def if_not_P [OF jc] by arith
    qed
    then have i: "lo \<le> i \<and> i < a \<or> d \<le> i \<and> i < hi" "\<not> i < b" "\<not> i < lo + n1"
      using ord n1(2) by auto
    have "j \<le> hi - n2 \<or> n2 = d - c" "\<not> (hi - n2 \<le> j \<and> \<not> j < c + n2)"
      using False that(2) ord n2(2,3) bc by arith+
    then have "view t5 ! j = view t4 ! i"
      using False bc unfolding nth5 [of j] i_def by auto
    also have "\<dots> = view t3 ! i" using i(2,3) by (subst nth4(2)) simp
    finally show ?thesis using pivot_inv_eq [OF inv i(1)] by simp
  qed
  moreover have "seg_perm (view s) (view t5) lo hi"
    using p2 p3 p4 p5 by (blast intro: seg_perm_trans)
  ultimately show ?thesis using r assms(3) ord bc by auto
qed

section \<open>quickSort and Sort\<close>

text \<open>Sorting the parts below and above the middle part sorts the whole.\<close>

lemma sorted_seg_join3:
  assumes "sorted_seg lt xs a m1" "sorted_seg lt xs m2 b" "m1 \<le> m2"
    and "\<And>k. a \<le> k \<Longrightarrow> k < m1 \<Longrightarrow> lt (xs ! k) pv"
    and "\<And>k. m1 \<le> k \<Longrightarrow> k < m2 \<Longrightarrow> \<not> lt (xs ! k) pv \<and> \<not> lt pv (xs ! k)"
    and "\<And>k. m2 \<le> k \<Longrightarrow> k < b \<Longrightarrow> lt pv (xs ! k)"
  shows "sorted_seg lt xs a b"
proof (rule sorted_segI)
  fix i j assume ij: "a \<le> i" "i < j" "j < b"
  have low: "\<not> lt pv (xs ! k)" if "a \<le> k" "k < m2" for k
    using that assms(4,5) lt_asym by (cases "k < m1") auto
  have high: "\<not> lt (xs ! k) pv" if "m1 \<le> k" "k < b" for k
    using that assms(5,6) lt_asym by (cases "k < m2") auto
  consider "j < m1" | "m2 \<le> i" | "i < m2" "m1 \<le> j" using assms(3) by linarith
  then show "\<not> lt (xs ! j) (xs ! i)"
  proof cases
    case 1
    then show ?thesis using sorted_segD [OF assms(1)] ij by blast
  next
    case 2
    then show ?thesis using sorted_segD [OF assms(2)] ij by blast
  next
    case 3
    then show ?thesis using low [of i] high [of j] ij lt_negtrans by blast
  qed
qed

lemma seg_perm_two_parts:
  assumes "seg_perm xs ys a m1" "seg_perm ys zs m2 b" "a \<le> m1" "m1 \<le> m2" "m2 \<le> b" "b \<le> length xs"
    and "\<And>k. a \<le> k \<Longrightarrow> k < m1 \<Longrightarrow> P (xs ! k)" "\<And>k. m2 \<le> k \<Longrightarrow> k < b \<Longrightarrow> Q (xs ! k)"
  shows "seg_perm xs zs a b"
    and "a \<le> k \<Longrightarrow> k < m1 \<Longrightarrow> zs ! k = ys ! k \<and> P (zs ! k)"
    and "m2 \<le> k \<Longrightarrow> k < b \<Longrightarrow> Q (zs ! k)"
    and "m1 \<le> k \<Longrightarrow> k < m2 \<Longrightarrow> zs ! k = xs ! k"
proof -
  show "seg_perm xs zs a b"
    using assms seg_perm_mono [OF assms(1), of a b] seg_perm_mono [OF assms(2), of a b]
    by (auto intro: seg_perm_trans)
  show "zs ! k = ys ! k \<and> P (zs ! k)" if "a \<le> k" "k < m1"
    using seg_perm_all [OF assms(1), of P k] assms(7) seg_perm_outside [OF assms(2), of k] that assms(4-6)
    by simp
  have "Q (ys ! k)" if "m2 \<le> k" "k < b" for k
    using seg_perm_outside [OF assms(1), of k] assms(4,8) that by simp
  then show "Q (zs ! k)" if "m2 \<le> k" "k < b"
    using seg_perm_all [OF assms(2), of Q k] seg_perm_length [OF assms(1)] that assms(6) by simp
  show "zs ! k = xs ! k" if "m1 \<le> k" "k < m2"
    using seg_perm_outside [OF assms(1), of k] seg_perm_outside [OF assms(2), of k] that by simp
qed

lemma quickSort_correct:
  assumes "a \<le> b" "b \<le> length (view s)"
  shows "seg_perm (view s) (view (quickSort D a b d s)) a b \<and>
    sorted_seg lt (view (quickSort D a b d s)) a b"
  using assms
proof (induction d arbitrary: a b s)
  case 0
  then show ?case using heapSort_correct [of a b s] insertionSort_correct [of a b s] by simp
next
  case (Suc d)
  show ?case
  proof (cases "b - a > 7")
    case False
    then show ?thesis using Suc.prems insertionSort_correct [of a b s] by simp
  next
    case True
    obtain mlo mhi t where dp: "doPivot D a b s = (mlo, mhi, t)" by (metis prod_cases3)
    have "a + 7 < b" using True by simp
    note part = doPivot_correct [OF this Suc.prems(2) dp]
    then obtain pv where m: "a \<le> mlo" "mlo < mhi" "mhi \<le> b" and p: "seg_perm (view s) (view t) a b"
      and lo: "\<And>k. a \<le> k \<Longrightarrow> k < mlo \<Longrightarrow> lt (view t ! k) pv"
      and mid: "\<And>k. mlo \<le> k \<Longrightarrow> k < mhi \<Longrightarrow> \<not> lt (view t ! k) pv \<and> \<not> lt pv (view t ! k)"
      and hi: "\<And>k. mhi \<le> k \<Longrightarrow> k < b \<Longrightarrow> lt pv (view t ! k)"
      by blast
    have len: "length (view t) = length (view s)" using p by (rule seg_perm_length)
    let ?lo = "\<lambda>u. quickSort D a mlo d u" and ?hi = "\<lambda>u. quickSort D mhi b d u"
    have L: "seg_perm (view u) (view (?lo u)) a mlo" "sorted_seg lt (view (?lo u)) a mlo"
      and H: "seg_perm (view u) (view (?hi u)) mhi b" "sorted_seg lt (view (?hi u)) mhi b"
      if "length (view u) = length (view s)" for u
      using Suc.IH [of a mlo u] Suc.IH [of mhi b u] m Suc.prems that by auto
    have len_lo: "length (view (?lo t)) = length (view s)" using L(1) [OF len] len by (simp add: seg_perm_def)
    have len_hi: "length (view (?hi t)) = length (view s)" using H(1) [OF len] len by (simp add: seg_perm_def)
    have mm: "mlo \<le> mhi" "b \<le> length (view t)" using m(2) Suc.prems(2) len by auto
    note LH = seg_perm_two_parts [OF L(1) [OF len] H(1) [OF len_lo] m(1) mm(1) m(3) mm(2),
      where P = "\<lambda>x. lt x pv" and Q = "\<lambda>x. lt pv x", OF lo hi]
    have HL: "view (?lo (?hi t)) ! k = view (?hi t) ! k" if "mhi \<le> k" for k
      using seg_perm_outside [OF L(1) [OF len_hi], of k] that m by simp
    have first: "seg_perm (view t) (view (?hi (?lo t))) a b \<and> sorted_seg lt (view (?hi (?lo t))) a b"
    proof
      show "seg_perm (view t) (view (?hi (?lo t))) a b" by (rule LH(1))
      show "sorted_seg lt (view (?hi (?lo t))) a b"
      proof (rule sorted_seg_join3 [of _ _ mlo mhi _ pv])
        show "sorted_seg lt (view (?hi (?lo t))) a mlo"
          using L(2) [OF len] by (rule sorted_seg_cong) (simp add: LH(2))
        show "sorted_seg lt (view (?hi (?lo t))) mhi b" using H(2) [OF len_lo] .
        show "\<not> lt (view (?hi (?lo t)) ! k) pv \<and> \<not> lt pv (view (?hi (?lo t)) ! k)"
          if "mlo \<le> k" "k < mhi" for k
          using LH(4) [of k] mid [of k] that by simp
      qed (use mm(1) LH(2,3) in blast)+
    qed
    have second: "seg_perm (view t) (view (?lo (?hi t))) a b \<and> sorted_seg lt (view (?lo (?hi t))) a b"
    proof
      have ph: "seg_perm (view t) (view (?hi t)) a b" using seg_perm_mono [OF H(1) [OF len]] m by auto
      then show "seg_perm (view t) (view (?lo (?hi t))) a b"
        using seg_perm_mono [OF L(1) [OF len_hi], of a b] m by (auto intro: seg_perm_trans)
      have low: "view (?hi t) ! k = view t ! k" if "k < mhi" for k
        using seg_perm_outside [OF H(1) [OF len], of k] that by simp
      show "sorted_seg lt (view (?lo (?hi t))) a b"
      proof (rule sorted_seg_join3 [of _ _ mlo mhi _ pv])
        show "sorted_seg lt (view (?lo (?hi t))) a mlo" using L(2) [OF len_hi] .
        show "sorted_seg lt (view (?lo (?hi t))) mhi b"
          using H(2) [OF len] by (rule sorted_seg_cong) (simp add: HL)
        show "lt (view (?lo (?hi t)) ! k) pv" if "a \<le> k" "k < mlo" for k
          using seg_perm_all [OF L(1) [OF len_hi], of "\<lambda>x. lt x pv" k] that m lo low len_hi Suc.prems by simp
        show "lt pv (view (?lo (?hi t)) ! k)" if "mhi \<le> k" "k < b" for k
          using seg_perm_all [OF H(1) [OF len], of "lt pv" k] that HL hi len Suc.prems by simp
        show "\<not> lt (view (?lo (?hi t)) ! k) pv \<and> \<not> lt pv (view (?lo (?hi t)) ! k)"
          if "mlo \<le> k" "k < mhi" for k
          using seg_perm_outside [OF L(1) [OF len_hi], of k] that mid low by simp
      qed (use m in auto)
    qed
    from first second p True dp show ?thesis by (auto intro: seg_perm_trans)
  qed
qed

lemma Sort_sorts:
  "mset (view (Sort D s)) = mset (view s)" "sorted_seg lt (view (Sort D s)) 0 (length (view s))"
  using quickSort_correct [of 0 "length (view s)" s "depthLoop (length (view s)) 0 * 2"]
  by (auto simp: Sort_def Let_def Len_view seg_perm_def)

lemma IsSorted_loop_iff:
  "n \<le> length (view s) - 1 \<Longrightarrow>
   IsSorted_loop D s n \<longleftrightarrow> (\<forall>i < n. \<not> lt (view s ! Suc i) (view s ! i))"
  by (induction n) (auto simp: Less_view less_Suc_eq)

text \<open>Comparing neighbours decides sortedness, by transitivity.\<close>

lemma IsSorted_view: "IsSorted D s \<longleftrightarrow> sorted_seg lt (view s) 0 (length (view s))"
proof
  assume "IsSorted D s"
  then have adj: "\<not> lt (view s ! Suc i) (view s ! i)" if "Suc i < length (view s)" for i
    using that IsSorted_loop_iff [of "length (view s) - 1" s] by (auto simp: IsSorted_def Len_view Let_def)
  have "\<not> lt (view s ! j) (view s ! i)" if "i < j" "j < length (view s)" for i j
    using that
  proof (induction j)
    case (Suc j)
    then show ?case using adj [of j] lt_negtrans by (cases "i = j") auto
  qed simp
  then show "sorted_seg lt (view s) 0 (length (view s))" by (rule sorted_segI)
next
  assume "sorted_seg lt (view s) 0 (length (view s))"
  then show "IsSorted D s"
    using IsSorted_loop_iff [of "length (view s) - 1" s] by (auto simp: IsSorted_def Len_view Let_def sorted_seg_def)
qed

text \<open>\<open>Reverse\<close> of a collection satisfies the contract for the converse order.\<close>

lemma Reverse_interface: "sort_interface (Reverse D) view (\<lambda>x y. lt y x)"
  by unfold_locales
    (auto simp: Reverse_def Len_view Less_view Swap_view dest: lt_asym lt_negtrans)

end

lemma sorted_seg_sorted_wrt:
  "sorted_seg lt xs 0 (length xs) \<longleftrightarrow> sorted_wrt (\<lambda>x y. \<not> lt y x) xs"
  by (auto simp: sorted_seg_def sorted_wrt_iff_nth_less)

section \<open>The slices of package sort meet the contract\<close>

interpretation ints: sort_interface IntSlice "\<lambda>p. p" "(<)"
  by unfold_locales (auto simp: IntSlice_def)

interpretation rev_ints: sort_interface "Reverse IntSlice" "\<lambda>p. p" "\<lambda>x y. y < x"
  by (rule ints.Reverse_interface)

lemma string_less_asym: "string_less xs ys \<Longrightarrow> \<not> string_less ys xs"
  by (induction xs ys rule: string_less.induct) auto

lemma string_less_trichotomy: "\<not> string_less xs ys \<Longrightarrow> \<not> string_less ys xs \<Longrightarrow> xs = ys"
  by (induction xs ys rule: string_less.induct) auto

lemma string_less_trans: "string_less xs ys \<Longrightarrow> string_less ys zs \<Longrightarrow> string_less xs zs"
proof (induction xs ys arbitrary: zs rule: string_less.induct)
  case (2 y ys)
  then show ?case by (cases zs) auto
next
  case (4 x xs y ys)
  then show ?case by (cases zs) auto
qed auto

interpretation strings: sort_interface StringSlice "\<lambda>p. p" string_less
proof
  fix x y z assume "\<not> string_less x y" "\<not> string_less y z"
  then show "\<not> string_less x z"
    by (metis string_less_asym string_less_trans string_less_trichotomy)
qed (auto simp: StringSlice_def string_less_asym)

section \<open>Properties\<close>

text \<open>C2: \<open>Sort\<close> sorts every collection that meets the contract of \<open>sort.Interface\<close>: whatever the
  strict weak order, the result is a permutation of the input, in order, and this needs the
  behaviour of \<open>Less\<close> and \<open>Swap\<close> only at indices below \<open>Len\<close>.\<close>

theorem Sort_correct:
  assumes "sort_interface D view lt"
  shows "mset (view (Sort D s)) = mset (view s) \<and> sorted_wrt (\<lambda>x y. \<not> lt y x) (view (Sort D s))"
proof -
  have "length (view (Sort D s)) = length (view s)"
    using sort_interface.Sort_sorts(1) [OF assms] by (rule mset_eq_length)
  then show ?thesis
    using sort_interface.Sort_sorts [OF assms, of s] sorted_seg_sorted_wrt [of lt "view (Sort D s)"] by simp
qed

theorem Sort_correct_witness:
  "mset (Sort IntSlice [3, 1, 2]) = mset [3, 1, 2 :: int] \<and>
   sorted_wrt (\<lambda>x y. \<not> y < x) (Sort IntSlice [3, 1, 2])"
  using Sort_correct [OF ints.sort_interface_axioms, of "[3, 1, 2]"] .

text \<open>The convenience wrappers: \<open>Ints\<close> sorts in increasing order, sorting the \<open>Reverse\<close> of a
  slice sorts it in decreasing order, \<open>Strings\<close> sorts by bytewise order, and \<open>IntsAreSorted\<close> and
  \<open>StringsAreSorted\<close> decide whether a slice is in order.\<close>

theorem sort_wrappers_correct:
  "mset (Ints a) = mset a \<and> sorted (Ints a) \<and>
   mset (Sort (Reverse IntSlice) a) = mset a \<and> sorted (rev (Sort (Reverse IntSlice) a)) \<and>
   mset (Strings u) = mset u \<and> sorted_wrt (\<lambda>x y. \<not> string_less y x) (Strings u) \<and>
   (IntsAreSorted a \<longleftrightarrow> sorted a) \<and>
   (StringsAreSorted u \<longleftrightarrow> sorted_wrt (\<lambda>x y. \<not> string_less y x) u)"
proof -
  have len: "length (Ints a) = length a" "length (Sort (Reverse IntSlice) a) = length a"
    "length (Strings u) = length u"
    using ints.Sort_sorts(1) [of a] rev_ints.Sort_sorts(1) [of a] strings.Sort_sorts(1) [of u]
    by (auto simp: Ints_def Strings_def dest: mset_eq_length)
  have "sorted_wrt (\<lambda>x y. \<not> y < x) (Ints a)" "sorted_wrt (\<lambda>x y. \<not> x < y) (Sort (Reverse IntSlice) a)"
    "sorted_wrt (\<lambda>x y. \<not> string_less y x) (Strings u)"
    using ints.Sort_sorts(2) [of a] rev_ints.Sort_sorts(2) [of a] strings.Sort_sorts(2) [of u] len
    by (simp_all flip: sorted_seg_sorted_wrt add: Ints_def Strings_def)
  then show ?thesis
    using ints.Sort_sorts(1) [of a] rev_ints.Sort_sorts(1) [of a] strings.Sort_sorts(1) [of u]
      ints.IsSorted_view [of a] strings.IsSorted_view [of u]
    by (simp add: Ints_def Strings_def IntsAreSorted_def StringsAreSorted_def sorted_seg_sorted_wrt
        sorted_wrt_rev not_less)
qed

end
