(* ===== verification/Go_Stable.thy ===== *)
theory Go_Stable
  imports Go_Sort
begin

text \<open>
  The stable sort of package sort (src/sort/sort.go, \<open>Stable\<close>, \<open>symMerge\<close>, \<open>rotate\<close>) and binary
  search (src/sort/search.go). \<open>Stable\<close> sorts blocks by insertion and merges neighbouring runs in
  place with the SymMerge algorithm; the proofs show that the result is in order, a permutation,
  and that elements the order does not distinguish keep their relative positions.
\<close>

section \<open>The algorithms\<close>

text \<open>The binary search loop that \<open>symMerge\<close> repeats with three different tests.\<close>

function bsearch :: "(nat \<Rightarrow> bool) \<Rightarrow> nat \<Rightarrow> nat \<Rightarrow> nat" where
  "bsearch below i j =
     (if i < j then
        let h = i + (j - i) div 2 in
        if below h then bsearch below (h + 1) j else bsearch below i h
      else i)"
  by pat_completeness auto
termination
  by (relation "measure (\<lambda>(p, i, j). j - i)") auto

text \<open>\<open>for k := a; k < i-1; k++ { data.Swap(k, k+1) }\<close> with \<open>n\<close> turns left.\<close>

fun swapUp :: "'s sort_data \<Rightarrow> nat \<Rightarrow> nat \<Rightarrow> 's \<Rightarrow> 's" where
  "swapUp D k 0 s = s"
| "swapUp D k (Suc n) s = swapUp D (k + 1) n (Swap D s k (k + 1))"

text \<open>\<open>for k := m; k > i; k-- { data.Swap(k, k-1) }\<close>.\<close>

fun swapDown :: "'s sort_data \<Rightarrow> nat \<Rightarrow> nat \<Rightarrow> 's \<Rightarrow> 's" where
  "swapDown D i 0 s = s"
| "swapDown D i (Suc k) s = (if Suc k > i then swapDown D i k (Swap D s (Suc k) k) else s)"

function rotate_loop :: "'s sort_data \<Rightarrow> nat \<Rightarrow> nat \<Rightarrow> nat \<Rightarrow> 's \<Rightarrow> 's" where
  "rotate_loop D m i j s =
     (if i = 0 \<or> j = 0 \<or> i = j then swapRange D (m - i) m i s
      else if i > j then rotate_loop D m (i - j) j (swapRange D (m - i) m j s)
      else rotate_loop D m i (j - i) (swapRange D (m - i) (m + j - i) i s))"
  by pat_completeness auto
termination
  by (relation "measure (\<lambda>(D, m, i, j, s). i + j)") auto

definition rotate :: "'s sort_data \<Rightarrow> nat \<Rightarrow> nat \<Rightarrow> nat \<Rightarrow> 's \<Rightarrow> 's" where
  "rotate D a m b s = rotate_loop D m (m - a) (b - m) s"

function symMerge :: "'s sort_data \<Rightarrow> nat \<Rightarrow> nat \<Rightarrow> nat \<Rightarrow> 's \<Rightarrow> 's" where
  "symMerge D a m b s =
     (if m - a = 1 then
        let i = bsearch (\<lambda>h. Less D s h a) m b in swapUp D a (i - 1 - a) s
      else if b - m = 1 then
        let i = bsearch (\<lambda>h. \<not> Less D s m h) a m in swapDown D i m s
      else
        let mid = a + (b - a) div 2;
            n = mid + m;
            (start, r) = (if m > mid then (n - b, mid) else (a, m));
            p = n - 1;
            start = bsearch (\<lambda>c. \<not> Less D s (p - c) c) start r;
            end' = n - start;
            s = (if start < m \<and> m < end' then rotate D start m end' s else s);
            s = (if a < start \<and> start < mid then symMerge D a start mid s else s)
        in if mid < end' \<and> end' < b then symMerge D mid end' b s else s)"
  by pat_completeness auto
termination
proof (relation "measure (\<lambda>(D, a, m, b, s). b - a)", goal_cases)
  case 1
  show ?case by simp
next
  case (2 D a m b s mid n pr start0 r p start e s1)
  have "mid - a < b - a" using 2(3,11) by linarith
  then show ?case by simp
next
  case (3 D a m b s mid n pr start0 r p start e s1 s2)
  have "b - mid < b - a" using 3(3,12) by linarith
  then show ?case by simp
qed

text \<open>\<open>Stable\<close>: the insertion-sorted blocks, one merging pass, the loop over the passes.\<close>

function stableBlocks :: "'s sort_data \<Rightarrow> nat \<Rightarrow> nat \<Rightarrow> nat \<Rightarrow> nat \<Rightarrow> 's \<Rightarrow> 's" where
  "stableBlocks D blockSize n a b s =
     (if b \<le> n \<and> 0 < blockSize
      then stableBlocks D blockSize n b (b + blockSize) (insertionSort D a b s)
      else insertionSort D a n s)"
  by pat_completeness auto
termination
  by (relation "measure (\<lambda>(D, bs, n, a, b, s). n + 1 - b)") auto

function stablePass :: "'s sort_data \<Rightarrow> nat \<Rightarrow> nat \<Rightarrow> nat \<Rightarrow> nat \<Rightarrow> 's \<Rightarrow> 's" where
  "stablePass D blockSize n a b s =
     (if b \<le> n \<and> 0 < blockSize
      then stablePass D blockSize n b (b + 2 * blockSize) (symMerge D a (a + blockSize) b s)
      else let m = a + blockSize in if m < n then symMerge D a m n s else s)"
  by pat_completeness auto
termination
  by (relation "measure (\<lambda>(D, bs, n, a, b, s). n + 1 - b)") auto

function stableMerge :: "'s sort_data \<Rightarrow> nat \<Rightarrow> nat \<Rightarrow> 's \<Rightarrow> 's" where
  "stableMerge D blockSize n s =
     (if blockSize < n \<and> 0 < blockSize
      then stableMerge D (blockSize * 2) n (stablePass D blockSize n 0 (2 * blockSize) s)
      else s)"
  by pat_completeness auto
termination
  by (relation "measure (\<lambda>(D, bs, n, s). n - bs)") auto

definition Stable :: "'s sort_data \<Rightarrow> 's \<Rightarrow> 's" where
  "Stable D s =
     (let n = Len D s; blockSize = 20;
          s = stableBlocks D blockSize n 0 blockSize s
      in stableMerge D blockSize n s)"

declare bsearch.simps [simp del] rotate_loop.simps [simp del] symMerge.simps [simp del]
  stableBlocks.simps [simp del] stablePass.simps [simp del] stableMerge.simps [simp del]

section \<open>Binary search\<close>

lemma bsearch_correct:
  assumes "i \<le> j" "\<And>h h'. i \<le> h \<Longrightarrow> h < h' \<Longrightarrow> h' < j \<Longrightarrow> below h' \<Longrightarrow> below h"
  shows "i \<le> bsearch below i j \<and> bsearch below i j \<le> j \<and>
    (\<forall>h. i \<le> h \<and> h < bsearch below i j \<longrightarrow> below h) \<and>
    (\<forall>h. bsearch below i j \<le> h \<and> h < j \<longrightarrow> \<not> below h)"
  using assms
proof (induction below i j rule: bsearch.induct)
  case (1 below i j)
  show ?case
  proof (cases "i < j")
    case False
    then show ?thesis using "1.prems"(1) by (auto simp: bsearch.simps)
  next
    case True
    define h where "h = i + (j - i) div 2"
    have h: "i \<le> h" "h < j" using True by (auto simp: h_def)
    show ?thesis
    proof (cases "below h")
      case below: True
      have r: "bsearch below i j = bsearch below (h + 1) j"
        using True below by (subst bsearch.simps) (simp add: h_def Let_def)
      have "h + 1 \<le> bsearch below (h + 1) j \<and> bsearch below (h + 1) j \<le> j \<and>
        (\<forall>k. h + 1 \<le> k \<and> k < bsearch below (h + 1) j \<longrightarrow> below k) \<and>
        (\<forall>k. bsearch below (h + 1) j \<le> k \<and> k < j \<longrightarrow> \<not> below k)"
        using h "1.prems"(2) True below by (intro "1.IH"(1) [OF True h_def]) auto
      moreover have "below k" if "i \<le> k" "k < h + 1" for k
        using that h below "1.prems"(2) [of k h] by (cases "k = h") auto
      ultimately show ?thesis unfolding r using h by (metis add_leD1 le_trans not_le)
    next
      case above: False
      have r: "bsearch below i j = bsearch below i h"
        using True above by (subst bsearch.simps) (simp add: h_def Let_def)
      have "i \<le> bsearch below i h \<and> bsearch below i h \<le> h \<and>
        (\<forall>k. i \<le> k \<and> k < bsearch below i h \<longrightarrow> below k) \<and>
        (\<forall>k. bsearch below i h \<le> k \<and> k < h \<longrightarrow> \<not> below k)"
        using h "1.prems"(2) True above by (intro "1.IH"(2) [OF True h_def]) auto
      moreover have "\<not> below k" if "h \<le> k" "k < j" for k
        using that h above "1.prems"(2) [of h k] by (cases "k = h") auto
      ultimately show ?thesis unfolding r using h by (metis less_imp_le order_trans not_le)
    qed
  qed
qed

lemma bsearch_bounds:
  assumes "i \<le> j" "\<forall>h h'. i \<le> h \<and> h < h' \<and> h' < j \<and> below h' \<longrightarrow> below h"
  shows "i \<le> bsearch below i j" "bsearch below i j \<le> j"
    "i \<le> h \<Longrightarrow> h < bsearch below i j \<Longrightarrow> below h"
    "bsearch below i j \<le> h \<Longrightarrow> h < j \<Longrightarrow> \<not> below h"
  using bsearch_correct [of i j below] assms by blast+

section \<open>Stable permutations\<close>

text \<open>\<open>stably lt xs ys\<close>: \<open>ys\<close> permutes \<open>xs\<close> and keeps the order of the elements of every class of
  elements that \<open>lt\<close> does not distinguish.\<close>

definition eqv :: "('a \<Rightarrow> 'a \<Rightarrow> bool) \<Rightarrow> 'a \<Rightarrow> 'a \<Rightarrow> bool" where
  "eqv lt k x \<longleftrightarrow> \<not> lt x k \<and> \<not> lt k x"

definition stably :: "('a \<Rightarrow> 'a \<Rightarrow> bool) \<Rightarrow> 'a list \<Rightarrow> 'a list \<Rightarrow> bool" where
  "stably lt xs ys \<longleftrightarrow> mset ys = mset xs \<and> (\<forall>k. filter (eqv lt k) ys = filter (eqv lt k) xs)"

lemma stably_refl [simp]: "stably lt xs xs"
  by (simp add: stably_def)

lemma stably_trans: "stably lt xs ys \<Longrightarrow> stably lt ys zs \<Longrightarrow> stably lt xs zs"
  by (simp add: stably_def)

lemma stably_append: "stably lt xs xs' \<Longrightarrow> stably lt ys ys' \<Longrightarrow> stably lt (xs @ ys) (xs' @ ys')"
  by (simp add: stably_def)

lemma stably_length: "stably lt xs ys \<Longrightarrow> length ys = length xs"
  unfolding stably_def by (metis size_mset)

lemma stably_set: "stably lt xs ys \<Longrightarrow> set ys = set xs"
  unfolding stably_def by (metis set_mset_mset)

lemma stably_cancel: "stably lt (p @ xs @ q) (p @ ys @ q) \<longleftrightarrow> stably lt xs ys"
  by (simp add: stably_def)

abbreviation sorted_by :: "('a \<Rightarrow> 'a \<Rightarrow> bool) \<Rightarrow> 'a list \<Rightarrow> bool" where
  "sorted_by lt \<equiv> sorted_wrt (\<lambda>x y. \<not> lt y x)"

lemma nth_block:
  "xs = p @ us @ q \<Longrightarrow> length p \<le> c \<Longrightarrow> c < length p + length us \<Longrightarrow> xs ! c = us ! (c - length p)"
  by (auto simp: nth_append)

lemma swap_append:
  "length p = i \<Longrightarrow> j = i + 1 + length m \<Longrightarrow>
   swap (p @ x # m @ y # q) i j = p @ y # m @ x # q \<and> swap (p @ x # m @ y # q) j i = p @ y # m @ x # q"
  by (auto simp: swap_def list_update_append nth_append)

context sort_interface
begin

text \<open>Exchanging two neighbouring blocks is stable when the right one is strictly smaller.\<close>

lemma stably_exchange:
  assumes "\<And>u v. u \<in> set us \<Longrightarrow> v \<in> set vs \<Longrightarrow> lt v u"
  shows "stably lt (us @ vs) (vs @ us)"
proof -
  have "filter (eqv lt k) us = [] \<or> filter (eqv lt k) vs = []" for k
  proof (rule ccontr)
    assume "\<not> ?thesis"
    then obtain u v where "u \<in> set us" "eqv lt k u" "v \<in> set vs" "eqv lt k v"
      by (auto simp: filter_empty_conv)
    then show False using assms [of u v] lt_negtrans [of v k u] by (auto simp: eqv_def)
  qed
  then show ?thesis unfolding stably_def by (auto, metis append_Nil append_Nil2)
qed

lemma Swap_append:
  assumes "view s = p @ x # m @ y # q" "length p = i" "j = i + 1 + length m"
  shows "view (Swap D s i j) = p @ y # m @ x # q" "view (Swap D s j i) = p @ y # m @ x # q"
  using assms swap_append [of p i j m x y q] by (simp_all add: Swap_view)

lemma swapRange_append:
  assumes "view s = p @ us @ m @ vs @ q" "length us = n" "length vs = n" "length p = a"
    "b = a + n + length m"
  shows "view (swapRange D a b n s) = p @ vs @ m @ us @ q"
  using assms
proof (induction n arbitrary: us m vs q b)
  case 0
  then show ?case by simp
next
  case (Suc n)
  obtain us' u where u: "us = us' @ [u]" "length us' = n"
    using Suc.prems(2) by (metis append_butlast_last_id length_butlast diff_Suc_1 length_0_conv nat.distinct(1))
  obtain vs' v where v: "vs = vs' @ [v]" "length vs' = n"
    using Suc.prems(3) by (metis append_butlast_last_id length_butlast diff_Suc_1 length_0_conv nat.distinct(1))
  have "view (swapRange D a b n s) = p @ vs' @ (u # m) @ us' @ (v # q)"
    using Suc.prems u v by (intro Suc.IH) auto
  then have "view (Swap D (swapRange D a b n s) (a + n) (b + n)) = (p @ vs') @ v # (m @ us') @ u # q"
    using Suc.prems u v by (intro Swap_append(1)) auto
  then show ?case using u v by (simp add: Let_def)
qed

lemma rotate_loop_append:
  assumes "view s = p @ us @ vs @ q" "length us = i" "length vs = j" "0 < i" "0 < j" "m = length p + i"
  shows "view (rotate_loop D m i j s) = p @ vs @ us @ q"
  using assms
proof (induction "i + j" arbitrary: i j s us vs p q rule: less_induct)
  case less
  consider "i = j" | "i > j" | "i < j" by linarith
  then show ?case
  proof cases
    case 1
    then show ?thesis
      using less.prems swapRange_append [of s p us "[]" vs q i "m - i" m]
      by (simp add: rotate_loop.simps)
  next
    case 2
    define us1 us2 where "us1 = take j us" and "us2 = drop j us"
    have u: "us = us1 @ us2" "length us1 = j" "length us2 = i - j"
      using less.prems 2 by (auto simp: us1_def us2_def)
    have "view (swapRange D (m - i) m j s) = p @ vs @ us2 @ us1 @ q"
      using less.prems u 2 by (intro swapRange_append) auto
    then have "view (rotate_loop D m (i - j) j (swapRange D (m - i) m j s)) = (p @ vs) @ us1 @ us2 @ q"
      using less.prems u 2 by (intro less.hyps) auto
    then show ?thesis using 2 less.prems u by (subst rotate_loop.simps) simp
  next
    case 3
    define vs1 vs2 where "vs1 = take (j - i) vs" and "vs2 = drop (j - i) vs"
    have v: "vs = vs1 @ vs2" "length vs1 = j - i" "length vs2 = i"
      using less.prems 3 by (auto simp: vs1_def vs2_def)
    have "view (swapRange D (m - i) (m + j - i) i s) = p @ vs2 @ vs1 @ us @ q"
      using less.prems v 3 by (intro swapRange_append) auto
    then have "view (rotate_loop D m i (j - i) (swapRange D (m - i) (m + j - i) i s)) = p @ vs1 @ vs2 @ us @ q"
      using less.prems v 3 by (intro less.hyps) auto
    then show ?thesis using 3 less.prems v by (subst rotate_loop.simps) simp
  qed
qed

text \<open>\<open>rotate\<close> changes \<open>x u v y\<close> to \<open>x v u y\<close>.\<close>

lemma rotate_append:
  assumes "view s = p @ us @ vs @ q" "us \<noteq> []" "vs \<noteq> []"
  shows "view (rotate D (length p) (length p + length us) (length p + length us + length vs) s)
    = p @ vs @ us @ q"
  unfolding rotate_def using assms by (intro rotate_loop_append) auto

lemma swapUp_append:
  "view s = p @ x # vs @ q \<Longrightarrow> length p = k \<Longrightarrow> n = length vs \<Longrightarrow> view (swapUp D k n s) = p @ vs @ x # q"
proof (induction vs arbitrary: p k n s)
  case Nil
  then show ?case by simp
next
  case (Cons v vs)
  have "view (Swap D s k (k + 1)) = p @ v # [] @ x # vs @ q"
    using Cons.prems by (intro Swap_append(1)) auto
  then have "view (swapUp D (k + 1) (length vs) (Swap D s k (k + 1))) = (p @ [v]) @ vs @ x # q"
    using Cons.prems by (intro Cons.IH) auto
  then show ?case using Cons.prems by simp
qed

lemma swapDown_append:
  "view s = p @ us @ x # q \<Longrightarrow> length p = i \<Longrightarrow> k = i + length us \<Longrightarrow> view (swapDown D i k s) = p @ x # us @ q"
proof (induction us arbitrary: q k s rule: rev_induct)
  case Nil
  moreover have "swapDown D i i s = s" by (cases i) auto
  ultimately show ?case by simp
next
  case (snoc u us)
  have "view (Swap D s (i + 1 + length us) (i + length us)) = (p @ us) @ x # [] @ u # q"
    using snoc.prems by (intro Swap_append(2)) auto
  then have "view (swapDown D i (i + length us) (Swap D s (i + 1 + length us) (i + length us))) = p @ x # us @ u # q"
    using snoc.prems by (intro snoc.IH) auto
  then show ?case using snoc.prems by (cases k) auto
qed

end

section \<open>SymMerge\<close>

context sort_interface
begin

lemma sorted_by_appendI:
  "sorted_by lt xs \<Longrightarrow> sorted_by lt ys \<Longrightarrow> (\<And>x y. x \<in> set xs \<Longrightarrow> y \<in> set ys \<Longrightarrow> \<not> lt y x) \<Longrightarrow>
   sorted_by lt (xs @ ys)"
  by (simp add: sorted_wrt_append)

lemma sorted_by_nth_mono: "sorted_by lt xs \<Longrightarrow> i \<le> j \<Longrightarrow> j < length xs \<Longrightarrow> \<not> lt (xs ! j) (xs ! i)"
  using lt_irrefl by (cases "i = j") (auto simp: sorted_wrt_iff_nth_less)

text \<open>A merge at the level of lists: split both runs, exchange the middle blocks, merge the halves.\<close>

lemma split_merge:
  assumes "sorted_by lt (us1 @ us2)" "sorted_by lt (vs1 @ vs2)"
    and "\<And>u v. u \<in> set us2 \<Longrightarrow> v \<in> set vs1 \<Longrightarrow> lt v u"
    and "\<And>u v. u \<in> set us1 \<Longrightarrow> v \<in> set vs2 \<Longrightarrow> \<not> lt v u"
    and "stably lt (us1 @ vs1) ws1" "sorted_by lt ws1" "stably lt (us2 @ vs2) ws2" "sorted_by lt ws2"
  shows "stably lt ((us1 @ us2) @ vs1 @ vs2) (ws1 @ ws2)" and "sorted_by lt (ws1 @ ws2)"
proof -
  have "stably lt (us1 @ (us2 @ vs1) @ vs2) (us1 @ (vs1 @ us2) @ vs2)"
    using stably_exchange [OF assms(3)] by (simp only: stably_cancel)
  moreover have "stably lt ((us1 @ vs1) @ us2 @ vs2) (ws1 @ ws2)"
    using assms(5,7) by (rule stably_append)
  ultimately show "stably lt ((us1 @ us2) @ vs1 @ vs2) (ws1 @ ws2)"
    by (auto intro: stably_trans)
  show "sorted_by lt (ws1 @ ws2)"
  proof (rule sorted_by_appendI [OF assms(6,8)])
    fix x y assume "x \<in> set ws1" "y \<in> set ws2"
    then have "x \<in> set us1 \<union> set vs1" "y \<in> set us2 \<union> set vs2"
      using stably_set [OF assms(5)] stably_set [OF assms(7)] by auto
    then show "\<not> lt y x"
      using assms(1,2,3,4) lt_asym by (auto simp: sorted_wrt_append)
  qed
qed

text \<open>The two base cases insert a single element of one run into the other run.\<close>

lemma symMerge_left1:
  assumes "view s = p @ u # vs @ q" "sorted_by lt vs" "vs \<noteq> []"
    and "a = length p" "m = a + 1" "b = m + length vs"
  shows "\<exists>ws. view (symMerge D a m b s) = p @ ws @ q \<and> stably lt (u # vs) ws \<and> sorted_by lt ws"
proof -
  let ?below = "\<lambda>h. Less D s h a"
  let ?i = "bsearch ?below m b"
  have less: "Less D s h a = lt (vs ! (h - m)) u" if "m \<le> h" "h < b" for h
    using that assms by (subst Less_view) (auto simp: nth_append)
  have mono: "\<forall>h h'. m \<le> h \<and> h < h' \<and> h' < b \<and> ?below h' \<longrightarrow> ?below h"
  proof (intro allI impI, elim conjE)
    fix h h' assume h: "m \<le> h" "h < h'" "h' < b" "?below h'"
    then have "\<not> lt (vs ! (h' - m)) (vs ! (h - m))"
      using assms by (intro sorted_by_nth_mono) auto
    with h show "?below h" using less [of h] less [of h'] by (auto intro: le_lt_trans)
  qed
  have "m \<le> b" using assms(6) by simp
  note i = bsearch_bounds [of m b ?below, OF this mono]
  define vs1 vs2 where "vs1 = take (?i - m) vs" and "vs2 = drop (?i - m) vs"
  have v: "vs = vs1 @ vs2" "length vs1 = ?i - 1 - a" using i assms by (auto simp: vs1_def vs2_def)
  have lt1: "lt v u" if mem: "v \<in> set vs1" for v
  proof -
    obtain k where k: "k < length vs1" "v = vs1 ! k" using mem by (auto simp: in_set_conv_nth)
    have h: "m \<le> m + k" "m + k < ?i" "m + k < b" using k(1) i(1,2) v(2) assms(5) by linarith+
    have "vs1 ! k = vs ! (m + k - m)" using k(1) by (simp add: vs1_def)
    then show ?thesis using i(3) [OF h(1,2)] less [OF h(1,3)] k(2) by simp
  qed
  have lt2: "\<not> lt v u" if mem: "v \<in> set vs2" for v
  proof -
    obtain k where k: "k < length vs2" "v = vs2 ! k" using mem by (auto simp: in_set_conv_nth)
    have "length vs2 = b - ?i" using i(1) assms(6) by (simp add: vs2_def)
    then have h: "?i \<le> ?i + k" "m \<le> ?i + k" "?i + k < b" using k(1) i(1) by linarith+
    have "vs2 ! k = vs ! (?i + k - m)" using i(1,2) assms(6) by (simp add: vs2_def)
    then show ?thesis using i(4) [OF h(1,3)] less [OF h(2,3)] k(2) by simp
  qed
  have "symMerge D a m b s = swapUp D a (?i - 1 - a) s"
    using assms(5) by (subst symMerge.simps) (simp add: Let_def)
  also have "view \<dots> = p @ vs1 @ u # vs2 @ q"
    using assms(1,4) v by (intro swapUp_append) simp_all
  finally have "view (symMerge D a m b s) = p @ (vs1 @ u # vs2) @ q" by simp
  moreover have "stably lt ([] @ ([u] @ vs1) @ vs2) ([] @ (vs1 @ [u]) @ vs2)"
    unfolding stably_cancel using lt1 by (intro stably_exchange) simp
  moreover have "sorted_by lt (vs1 @ u # vs2)"
    using assms(2) v(1) lt1 lt2 lt_asym by (simp add: sorted_wrt_append)
  ultimately show ?thesis using v(1) by auto
qed

lemma symMerge_right1:
  assumes "view s = p @ us @ v # q" "sorted_by lt us" "length us \<noteq> 1" "us \<noteq> []"
    and "a = length p" "m = a + length us" "b = m + 1"
  shows "\<exists>ws. view (symMerge D a m b s) = p @ ws @ q \<and> stably lt (us @ [v]) ws \<and> sorted_by lt ws"
proof -
  let ?below = "\<lambda>h. \<not> Less D s m h"
  let ?i = "bsearch ?below a m"
  have less: "Less D s m h = lt v (us ! (h - a))" if "a \<le> h" "h < m" for h
    using that assms by (subst Less_view) (auto simp: nth_append)
  have mono: "\<forall>h h'. a \<le> h \<and> h < h' \<and> h' < m \<and> ?below h' \<longrightarrow> ?below h"
  proof (intro allI impI, elim conjE)
    fix h h' assume h: "a \<le> h" "h < h'" "h' < m" "?below h'"
    then have "\<not> lt (us ! (h' - a)) (us ! (h - a))"
      using assms by (intro sorted_by_nth_mono) auto
    with h show "?below h" using less [of h] less [of h'] by (auto dest: lt_negtrans)
  qed
  have "a \<le> m" using assms(6) by simp
  note i = bsearch_bounds [of a m ?below, OF this mono]
  define us1 us2 where "us1 = take (?i - a) us" and "us2 = drop (?i - a) us"
  have u: "us = us1 @ us2" "length us1 = ?i - a" "length us2 = m - ?i"
    using i assms by (auto simp: us1_def us2_def)
  have lt1: "\<not> lt v x" if mem: "x \<in> set us1" for x
  proof -
    obtain k where k: "k < length us1" "x = us1 ! k" using mem by (auto simp: in_set_conv_nth)
    have h: "a \<le> a + k" "a + k < ?i" "a + k < m" using k(1) i(1,2) u(2) by linarith+
    have "us1 ! k = us ! (a + k - a)" using k(1) by (simp add: us1_def)
    then show ?thesis using i(3) [OF h(1,2)] less [OF h(1,3)] k(2) by simp
  qed
  have lt2: "lt v x" if mem: "x \<in> set us2" for x
  proof -
    obtain k where k: "k < length us2" "x = us2 ! k" using mem by (auto simp: in_set_conv_nth)
    have h: "?i \<le> ?i + k" "a \<le> ?i + k" "?i + k < m" using k(1) i(1) u(3) by linarith+
    have "us2 ! k = us ! (?i + k - a)" using i(1,2) assms(6) by (simp add: us2_def)
    then show ?thesis using i(4) [OF h(1,3)] less [OF h(2,3)] k(2) by simp
  qed
  have "m - a \<noteq> 1" "b - m = 1" using assms(3,6,7) by auto
  then have "symMerge D a m b s = swapDown D ?i m s" by (subst symMerge.simps) (simp add: Let_def)
  also have "view \<dots> = (p @ us1) @ v # us2 @ q"
    using assms(1,5) u i(1,2) by (intro swapDown_append) simp_all
  finally have "view (symMerge D a m b s) = p @ (us1 @ v # us2) @ q" by simp
  moreover have "stably lt (us1 @ (us2 @ [v]) @ []) (us1 @ ([v] @ us2) @ [])"
    unfolding stably_cancel using lt2 by (intro stably_exchange) simp
  moreover have "sorted_by lt (us1 @ v # us2)"
    using assms(2) u(1) lt1 lt2 lt_asym by (simp add: sorted_wrt_append)
  ultimately show ?thesis using u(1) by auto
qed

text \<open>The symmetric search: where to split both runs.\<close>

lemma symMerge_split:
  fixes us vs :: "'a list"
  defines "le_at \<equiv> \<lambda>p q c. \<not> lt (vs ! q c) (us ! p c)"
  assumes "view s = p @ us @ vs @ q" "sorted_by lt us" "sorted_by lt vs"
    and "a = length p" "m = a + length us" "b = m + length vs" "us \<noteq> []" "vs \<noteq> []"
    and "mid = a + (b - a) div 2" "n = mid + m"
    and "(start0, r0) = (if m > mid then (n - b, mid) else (a, m))"
    and "start = bsearch (\<lambda>c. \<not> Less D s (n - 1 - c) c) start0 r0"
  obtains us1 us2 vs1 vs2 where "us = us1 @ us2" "vs = vs1 @ vs2"
    "start = a + length us1" "n - start = m + length vs1" "mid = start + length vs1" "start \<le> m" "m \<le> n - start" "n - start \<le> b"
    "\<And>u v. u \<in> set us2 \<Longrightarrow> v \<in> set vs1 \<Longrightarrow> lt v u"
    "\<And>u v. u \<in> set us1 \<Longrightarrow> v \<in> set vs2 \<Longrightarrow> \<not> lt v u"
proof -
  have mid: "2 * mid \<le> a + b" "a + b \<le> 2 * mid + 1" "a < m" "m < b"
    using assms(5-10) length_greater_0_conv [of us] length_greater_0_conv [of vs] by linarith+
  have range: "a \<le> start0" "start0 \<le> r0" "r0 \<le> m" "m + r0 \<le> n" "n \<le> start0 + b"
    using assms(11,12) mid by (auto split: if_splits)
  let ?below = "\<lambda>c. \<not> Less D s (n - 1 - c) c"
  have idx: "m \<le> n - 1 - c" "n - 1 - c < b" "a \<le> c" "c < m" if "start0 \<le> c" "c < r0" for c
    using that range mid by linarith+
  have less: "Less D s (n - 1 - c) c = lt (vs ! (n - 1 - c - m)) (us ! (c - a))" if "start0 \<le> c" "c < r0" for c
  proof -
    have len: "b \<le> length (view s)" using assms(2,5,6,7) by simp
    have "view s ! c = us ! (c - a)"
      using nth_block [of "view s" p us "vs @ q" c] idx [OF that] assms(2,5,6) by simp
    moreover have "view s ! (n - 1 - c) = vs ! (n - 1 - c - m)"
      using nth_block [of "view s" "p @ us" vs q "n - 1 - c"] idx [OF that] assms(2,5,6,7) by simp
    ultimately show ?thesis using idx [OF that] len Less_view [of "n - 1 - c" s c] assms(8) by simp
  qed
  have mono_u: "\<not> lt (us ! (c' - a)) (us ! (c - a))" if "a \<le> c" "c \<le> c'" "c' < m" for c c'
    using that assms(5,6) by (intro sorted_by_nth_mono assms(3)) auto
  have mono_v: "\<not> lt (vs ! (c' - m)) (vs ! (c - m))" if "m \<le> c" "c \<le> c'" "c' < b" for c c'
    using that assms(7) by (intro sorted_by_nth_mono assms(4)) auto
  have mono: "\<forall>h h'. start0 \<le> h \<and> h < h' \<and> h' < r0 \<and> ?below h' \<longrightarrow> ?below h"
  proof (intro allI impI, elim conjE)
    fix h h' assume that: "start0 \<le> h" "h < h'" "h' < r0" "?below h'"
    have h: "start0 \<le> h" "h < r0" "start0 \<le> h'" "h' < r0" using that by auto
    have "\<not> lt (us ! (h' - a)) (us ! (h - a))"
      using idx [OF h(1,2)] idx [OF h(3,4)] that by (intro mono_u) auto
    moreover have "\<not> lt (vs ! (n - 1 - h - m)) (vs ! (n - 1 - h' - m))"
      using idx [OF h(1,2)] idx [OF h(3,4)] that by (intro mono_v) auto
    ultimately show "?below h"
      using less [OF h(1,2)] less [OF h(3,4)] that(4) lt_negtrans by meson
  qed
  note bs = bsearch_bounds [of start0 r0 ?below, OF range(2) mono, folded assms(13)]
  note st = bs(1,2)
  have below: "\<not> lt (vs ! (n - 1 - c - m)) (us ! (c - a))" if "start0 \<le> c" "c < start" for c
    using bs(3) [OF that] less [of c] that st by simp
  have above: "lt (vs ! (n - 1 - c - m)) (us ! (c - a))" if "start \<le> c" "c < r0" for c
    using bs(4) [OF that] less [of c] that st by simp
  define us1 us2 where "us1 = take (start - a) us" and "us2 = drop (start - a) us"
  define vs1 vs2 where "vs1 = take (n - start - m) vs" and "vs2 = drop (n - start - m) vs"
  have len: "length us1 = start - a" "length vs1 = n - start - m"
    using st range assms(6,7) mid by (auto simp: us1_def vs1_def)
  show ?thesis
  proof (rule that [of us1 us2 vs1 vs2])
    show "us = us1 @ us2" "vs = vs1 @ vs2" by (simp_all add: us1_def us2_def vs1_def vs2_def)
    show "start = a + length us1" "n - start = m + length vs1" "start \<le> m" "m \<le> n - start" "n - start \<le> b"
      "mid = start + length vs1"
      using st range mid len assms(11) by auto
  next
    fix u v assume "u \<in> set us2" "v \<in> set vs1"
    then obtain i j where "i < length us2" "u = us2 ! i" "j < length vs1" "v = vs1 ! j"
      by (auto simp: in_set_conv_nth)
    then have u: "u = us ! (start + i - a)" "start + i < m" and v: "v = vs ! (m + j - m)" "m + j < n - start"
      using st range len assms(6) by (auto simp: us2_def vs1_def)
    have r0: "start < r0" using u v st range mid assms(11,12) by (auto split: if_splits)
    have "\<not> lt (us ! (start + i - a)) (us ! (start - a))" using st range u by (intro mono_u) auto
    moreover have "\<not> lt (vs ! (n - 1 - start - m)) (vs ! (m + j - m))"
      using idx [OF st(1) r0] v by (intro mono_v) auto
    ultimately show "lt v u"
      using above [of start] r0 unfolding u(1) v(1) by (meson le_lt_trans lt_le_trans order_refl)
  next
    fix u v assume "u \<in> set us1" "v \<in> set vs2"
    then obtain i j where "i < length us1" "u = us1 ! i" "j < length vs2" "v = vs2 ! j"
      by (auto simp: in_set_conv_nth)
    then have u: "u = us ! (a + i - a)" "a + i < start" and v: "v = vs ! (n - start + j - m)" "n - start + j < b"
      using st range mid len assms(7) by (auto simp: us1_def vs2_def)
    have r0: "start0 \<le> start - 1" "start - 1 < r0" "start - 1 < start"
      using u v st range mid assms(11,12) by (auto split: if_splits)
    have eq: "n - 1 - (start - 1) = n - start" using u(2) by auto
    have "\<not> lt (us ! (start - 1 - a)) (us ! (a + i - a))" using st range u by (intro mono_u) auto
    moreover have "\<not> lt (vs ! (n - start + j - m)) (vs ! (n - start - m))"
      using idx [OF r0(1,2)] v unfolding eq by (intro mono_v) auto
    ultimately show "\<not> lt v u"
      using below [OF r0(1,3)] unfolding u(1) v(1) eq by (meson lt_negtrans)
  qed
qed

text \<open>\<open>symMerge\<close> merges two neighbouring sorted runs into one, stably.\<close>

lemma symMerge_correct:
  assumes "view s = p @ us @ vs @ q" "sorted_by lt us" "sorted_by lt vs" "us \<noteq> []" "vs \<noteq> []"
    and "a = length p" "m = a + length us" "b = m + length vs"
  shows "\<exists>ws. view (symMerge D a m b s) = p @ ws @ q \<and> stably lt (us @ vs) ws \<and> sorted_by lt ws"
  using assms
proof (induction "length us + length vs" arbitrary: us vs p q a m b s rule: less_induct)
  case less
  consider "length us = 1" | "length us \<noteq> 1" "length vs = 1" | "length us \<noteq> 1" "length vs \<noteq> 1" by blast
  then show ?case
  proof cases
    case 1
    then obtain u where "us = [u]" by (auto simp: length_Suc_conv)
    then show ?thesis using symMerge_left1 [of s p u vs q a m b] less.prems by simp
  next
    case 2
    then obtain v where "vs = [v]" by (auto simp: length_Suc_conv)
    then show ?thesis using symMerge_right1 [of s p us v q a m b] less.prems 2 by simp
  next
    case 3
    define mid where "mid = a + (b - a) div 2"
    define n where "n = mid + m"
    define sr where "sr = (if m > mid then (n - b, mid) else (a, m))"
    obtain start0 r0 where sr': "(start0, r0) = sr" by (metis surj_pair)
    define start where "start = bsearch (\<lambda>c. \<not> Less D s (n - 1 - c) c) start0 r0"
    obtain us1 us2 vs1 vs2 where split: "us = us1 @ us2" "vs = vs1 @ vs2"
      and pos: "start = a + length us1" "n - start = m + length vs1" "mid = start + length vs1"
        "start \<le> m" "m \<le> n - start" "n - start \<le> b"
      and lt: "\<And>u v. u \<in> set us2 \<Longrightarrow> v \<in> set vs1 \<Longrightarrow> lt v u"
      and le: "\<And>u v. u \<in> set us1 \<Longrightarrow> v \<in> set vs2 \<Longrightarrow> \<not> lt v u"
      using symMerge_split [OF less.prems(1-3,6-8,4,5) mid_def n_def sr' [unfolded sr_def] start_def] by metis
    have half: "mid - a < length us + length vs" "b - mid < length us + length vs" "mid \<le> b"
      using less.prems(4-8) 3 length_greater_0_conv [of us] length_greater_0_conv [of vs]
      unfolding mid_def by linarith+
    define s1 where "s1 = (if start < m \<and> m < n - start then rotate D start m (n - start) s else s)"
    have guard1: "start < m \<longleftrightarrow> us2 \<noteq> []" "m < n - start \<longleftrightarrow> vs1 \<noteq> []"
      using pos split less.prems(7) by auto
    have v1: "view s1 = p @ us1 @ vs1 @ us2 @ vs2 @ q"
      using rotate_append [of s "p @ us1" us2 vs1 "vs2 @ q"] less.prems(1,6,7) split pos guard1
      unfolding s1_def by (auto simp: add.assoc)
    define s2 where "s2 = (if a < start \<and> start < mid then symMerge D a start mid s1 else s1)"
    have guard2: "a < start \<longleftrightarrow> us1 \<noteq> []" "start < mid \<longleftrightarrow> vs1 \<noteq> []" using pos by auto
    have sorted: "sorted_by lt us1" "sorted_by lt us2" "sorted_by lt vs1" "sorted_by lt vs2"
      using less.prems(2,3) split by (auto simp: sorted_wrt_append)
    have "\<exists>ws. view s2 = p @ ws @ us2 @ vs2 @ q \<and> stably lt (us1 @ vs1) ws \<and> sorted_by lt ws"
    proof (cases "us1 \<noteq> [] \<and> vs1 \<noteq> []")
      case True
      have "length us1 + length vs1 < length us + length vs" using half(1) pos by linarith
      then show ?thesis
        using less.hyps [of us1 vs1 s1 p "us2 @ vs2 @ q" a start mid] True v1 sorted pos guard2 less.prems(6)
        unfolding s2_def by auto
    next
      case False
      then show ?thesis using v1 sorted guard2 unfolding s2_def by auto
    qed
    then obtain ws1 where w1: "view s2 = p @ ws1 @ us2 @ vs2 @ q" "stably lt (us1 @ vs1) ws1" "sorted_by lt ws1"
      by blast
    have len1: "length ws1 = length us1 + length vs1" using stably_length [OF w1(2)] by simp
    define s3 where "s3 = (if mid < n - start \<and> n - start < b then symMerge D mid (n - start) b s2 else s2)"
    have guard3: "mid < n - start \<longleftrightarrow> us2 \<noteq> []" "n - start < b \<longleftrightarrow> vs2 \<noteq> []"
      using pos split less.prems(7,8) by auto
    have "\<exists>ws. view s3 = (p @ ws1) @ ws @ q \<and> stably lt (us2 @ vs2) ws \<and> sorted_by lt ws"
    proof (cases "us2 \<noteq> [] \<and> vs2 \<noteq> []")
      case True
      have "mid = length (p @ ws1)" "n - start = mid + length us2" "b = n - start + length vs2"
        using len1 pos split less.prems(6-8) by auto
      moreover have "length us2 + length vs2 < length us + length vs"
        using half(2) pos split calculation by auto
      ultimately show ?thesis
        using less.hyps [of us2 vs2 s2 "p @ ws1" q mid "n - start" b] True w1(1) sorted guard3
        unfolding s3_def by auto
    next
      case False
      then show ?thesis using w1(1) sorted guard3 unfolding s3_def by auto
    qed
    then obtain ws2 where w2: "view s3 = (p @ ws1) @ ws2 @ q" "stably lt (us2 @ vs2) ws2" "sorted_by lt ws2"
      by blast
    have "m - a \<noteq> 1" "b - m \<noteq> 1" using 3 less.prems(7,8) by auto
    then have "symMerge D a m b s = s3"
      unfolding s3_def s2_def s1_def start_def n_def mid_def
      by (subst symMerge.simps)
        (simp only: if_False Let_def sr' [unfolded sr_def n_def mid_def, symmetric] prod.case)
    then show ?thesis
      using w2(1) split_merge [OF less.prems(2,3) [unfolded split] lt le w1(2,3) w2(2,3)] split by auto
  qed
qed

section \<open>Stable\<close>

text \<open>Every swap of insertion sort exchanges two neighbours of which the right one is smaller.\<close>

lemma swap_adjacent_stably:
  assumes "Suc j < length xs" "lt (xs ! Suc j) (xs ! j)"
  shows "stably lt xs (swap xs (Suc j) j)"
proof -
  define p q where "p = take j xs" and "q = drop (j + 2) xs"
  have xs: "xs = p @ ([xs ! j] @ [xs ! Suc j]) @ q" and "length p = j"
    using assms(1) by (simp_all add: p_def q_def Cons_nth_drop_Suc id_take_nth_drop)
  then have "swap xs (Suc j) j = p @ ([xs ! Suc j] @ [xs ! j]) @ q"
    using swap_append [of p j "Suc j" "[]" "xs ! j" "xs ! Suc j" q] by simp
  moreover have "stably lt ([xs ! j] @ [xs ! Suc j]) ([xs ! Suc j] @ [xs ! j])"
    using assms(2) by (intro stably_exchange) simp
  ultimately show ?thesis using xs by (metis stably_cancel)
qed

lemma insertionSort_inner_stably:
  "j < length (view s) \<Longrightarrow> stably lt (view s) (view (insertionSort_inner D a j s))"
proof (induction j arbitrary: s)
  case (Suc j)
  have v: "view (Swap D s (Suc j) j) = swap (view s) (Suc j) j"
    and l: "Less D s (Suc j) j = lt (view s ! Suc j) (view s ! j)"
    using Suc.prems by (simp_all add: Swap_view Less_view)
  show ?case
    using Suc.IH [of "Swap D s (Suc j) j"] swap_adjacent_stably [OF Suc.prems] Suc.prems v l
    by (auto intro: stably_trans)
qed simp

lemma insertionSort_outer_stably:
  "b \<le> length (view s) \<Longrightarrow> stably lt (view s) (view (insertionSort_outer D a b i s))"
proof (induction "b - i" arbitrary: i s)
  case 0
  then show ?case by (simp add: insertionSort_outer.simps)
next
  case (Suc n)
  have "stably lt (view s) (view (insertionSort_inner D a i s))"
    using Suc.prems Suc.hyps(2) by (intro insertionSort_inner_stably) auto
  moreover from this have "b \<le> length (view (insertionSort_inner D a i s))"
    using Suc.prems by (simp add: stably_length)
  then have "stably lt (view (insertionSort_inner D a i s))
      (view (insertionSort_outer D a b (i + 1) (insertionSort_inner D a i s)))"
    using Suc.hyps(2) by (intro Suc.hyps(1)) auto
  ultimately show ?case
    using Suc.hyps(2) by (subst insertionSort_outer.simps) (auto intro: stably_trans)
qed

lemma insertionSort_block:
  assumes "view s = p @ us @ q" "a = length p" "b = a + length us"
  shows "\<exists>ws. view (insertionSort D a b s) = p @ ws @ q \<and> stably lt us ws \<and> sorted_by lt ws"
proof -
  let ?v = "view (insertionSort D a b s)"
  have b: "a \<le> b" "b \<le> length (view s)" using assms by auto
  note C = insertionSort_correct [OF b]
  define ws where "ws = take (b - a) (drop a ?v)"
  have len: "length ?v = length (view s)" using C(1) by (rule seg_perm_length)
  have p: "take a ?v = p"
  proof (rule nth_equalityI)
    show "length (take a ?v) = length p" using assms len by simp
    fix i assume "i < length (take a ?v)"
    then show "take a ?v ! i = p ! i"
      using seg_perm_outside [OF C(1), of i] assms(1,2) by (simp add: nth_append)
  qed
  have q: "drop b ?v = q"
  proof (rule nth_equalityI)
    show "length (drop b ?v) = length q" using assms len by simp
    fix i assume "i < length (drop b ?v)"
    then have "drop b ?v ! i = view s ! (b + i)" using seg_perm_outside [OF C(1), of "b + i"] len by simp
    then show "drop b ?v ! i = q ! i" using assms by (simp add: nth_append)
  qed
  have v: "?v = p @ ws @ q"
    unfolding ws_def using split_at_seg [OF b(1), of ?v] p q by (simp add: seg_def)
  have lw: "length ws = length us" using arg_cong [OF v, of length] len assms by simp
  have "stably lt (view s) ?v" unfolding insertionSort_def using b(2) by (rule insertionSort_outer_stably)
  then have "stably lt us ws" by (simp add: v assms(1) stably_cancel)
  moreover have "sorted_by lt ws"
    unfolding sorted_wrt_iff_nth_less
  proof (intro allI impI)
    fix i j assume ij: "i < j" "j < length ws"
    then have "ws ! i = ?v ! (a + i)" "ws ! j = ?v ! (a + j)"
      unfolding v using assms(2) by (simp_all add: nth_append)
    then show "\<not> lt (ws ! j) (ws ! i)"
      using sorted_segD [OF C(2), of "a + i" "a + j"] ij lw assms(3) by simp
  qed
  ultimately show ?thesis using v by blast
qed

end

text \<open>\<open>runs lt k xs\<close>: cut into blocks of length \<open>k\<close>, the last one possibly shorter, every block
  of \<open>xs\<close> is in order.\<close>

inductive runs :: "('a \<Rightarrow> 'a \<Rightarrow> bool) \<Rightarrow> nat \<Rightarrow> 'a list \<Rightarrow> bool" for lt k where
  runs_last: "length xs \<le> k \<Longrightarrow> sorted_by lt xs \<Longrightarrow> runs lt k xs"
| runs_block: "length us = k \<Longrightarrow> sorted_by lt us \<Longrightarrow> runs lt k xs \<Longrightarrow> runs lt k (us @ xs)"

lemma runs_split:
  assumes "runs lt k xs" "k \<le> length xs" "0 < k"
  obtains us ys where "xs = us @ ys" "length us = k" "sorted_by lt us" "runs lt k ys"
  using assms(1)
proof cases
  case runs_last
  then have "length xs = k" using assms(2) by simp
  then show ?thesis using that [of xs "[]"] runs_last runs.runs_last [of "[]" k lt] by simp
next
  case (runs_block us ys)
  then show ?thesis using that by blast
qed

lemma runs_short: "runs lt k xs \<Longrightarrow> length xs \<le> k \<Longrightarrow> sorted_by lt xs"
  by (induction rule: runs.induct) auto

context sort_interface
begin

lemma stableBlocks_correct:
  assumes "view s = p @ xs" "a = length p" "b = a + k" "n = length (view s)" "0 < k"
  shows "\<exists>ys. view (stableBlocks D k n a b s) = p @ ys \<and> stably lt xs ys \<and> runs lt k ys"
  using assms
proof (induction "length xs" arbitrary: xs p a b s rule: less_induct)
  case less
  show ?case
  proof (cases "b \<le> n")
    case False
    then have "stableBlocks D k n a b s = insertionSort D a n s" by (simp add: stableBlocks.simps)
    moreover obtain ws where "view (insertionSort D a n s) = p @ ws @ []" "stably lt xs ws" "sorted_by lt ws"
      using insertionSort_block [of s p xs "[]" a n] less.prems by auto
    moreover have "length ws \<le> k" using stably_length [OF calculation(3)] False less.prems by simp
    ultimately show ?thesis by (auto intro: runs.runs_last)
  next
    case True
    define us xs' where "us = take k xs" and "xs' = drop k xs"
    have u: "xs = us @ xs'" "length us = k" using True less.prems by (auto simp: us_def xs'_def)
    obtain ws where w: "view (insertionSort D a b s) = p @ ws @ xs'" "stably lt us ws" "sorted_by lt ws"
      using insertionSort_block [of s p us xs' a b] less.prems u by auto
    have lw: "length ws = k" using stably_length [OF w(2)] u(2) by simp
    have "\<exists>ys. view (stableBlocks D k n b (b + k) (insertionSort D a b s)) = (p @ ws) @ ys \<and>
        stably lt xs' ys \<and> runs lt k ys"
      using less.prems u w(1) lw by (intro less.hyps) auto
    then obtain ys where "view (stableBlocks D k n b (b + k) (insertionSort D a b s)) = (p @ ws) @ ys"
      "stably lt xs' ys" "runs lt k ys" by blast
    then show ?thesis
      using True less.prems(5) w lw u(1) stably_append [OF w(2), of xs' ys] runs_block [of ws k lt ys]
      by (subst stableBlocks.simps) (intro exI [of _ "ws @ ys"], auto)
  qed
qed

lemma stablePass_correct:
  assumes "view s = p @ xs" "a = length p" "b = a + 2 * k" "n = length (view s)" "0 < k" "runs lt k xs"
  shows "\<exists>ys. view (stablePass D k n a b s) = p @ ys \<and> stably lt xs ys \<and> runs lt (2 * k) ys"
  using assms
proof (induction "length xs" arbitrary: xs p a b s rule: less_induct)
  case less
  show ?case
  proof (cases "k < length xs")
    case False
    then have "stablePass D k n a b s = s" using less.prems by (simp add: stablePass.simps Let_def)
    moreover have "runs lt (2 * k) xs" using False runs_short [OF less.prems(6)] by (intro runs.runs_last) auto
    ultimately show ?thesis using less.prems(1) by auto
  next
    case k: True
    obtain us ys where u: "xs = us @ ys" "length us = k" "sorted_by lt us" "runs lt k ys"
      using runs_split [OF less.prems(6)] k less.prems(5) by (metis less_imp_le)
    have ne: "us \<noteq> []" using u(2) less.prems(5) by auto
    show ?thesis
    proof (cases "b \<le> n")
      case False
      then have ys: "length ys < k" "ys \<noteq> []" using u(1,2) k less.prems by auto
      obtain ws where w: "view (symMerge D a (a + k) n s) = p @ ws @ []" "stably lt (us @ ys) ws" "sorted_by lt ws"
        using symMerge_correct [of s p us ys "[]" a "a + k" n] less.prems u ys ne runs_short [OF u(4)] by auto
      moreover have "stablePass D k n a b s = symMerge D a (a + k) n s"
        using False less.prems u(1) ys by (subst stablePass.simps) (simp add: Let_def u(2))
      moreover have "length ws \<le> 2 * k" using stably_length [OF w(2)] u(2) ys(1) by simp
      ultimately show ?thesis using u(1) by (auto intro: runs.runs_last)
    next
      case True
      then have "k \<le> length ys" using less.prems u(1,2) by auto
      then obtain vs zs where v: "ys = vs @ zs" "length vs = k" "sorted_by lt vs" "runs lt k zs"
        using runs_split [OF u(4)] less.prems(5) by metis
      have "vs \<noteq> []" using v(2) less.prems(5) by auto
      then obtain ws where w: "view (symMerge D a (a + k) b s) = p @ ws @ zs" "stably lt (us @ vs) ws" "sorted_by lt ws"
        using symMerge_correct [of s p us vs zs a "a + k" b] less.prems u v ne by auto
      have lw: "length ws = 2 * k" using stably_length [OF w(2)] u(2) v(2) by simp
      have "\<exists>rs. view (stablePass D k n b (b + 2 * k) (symMerge D a (a + k) b s)) = (p @ ws) @ rs \<and>
          stably lt zs rs \<and> runs lt (2 * k) rs"
        using less.prems u v w(1) lw by (intro less.hyps) auto
      then obtain rs where "view (stablePass D k n b (b + 2 * k) (symMerge D a (a + k) b s)) = (p @ ws) @ rs"
        "stably lt zs rs" "runs lt (2 * k) rs" by blast
      then show ?thesis
        using True less.prems(5) w lw u(1) v(1) stably_append [OF w(2), of zs rs] runs_block [of ws "2 * k" lt rs]
        by (subst stablePass.simps) (intro exI [of _ "ws @ rs"], auto)
    qed
  qed
qed

lemma stableMerge_correct:
  assumes "runs lt k (view s)" "n = length (view s)" "0 < k"
  shows "stably lt (view s) (view (stableMerge D k n s)) \<and> sorted_by lt (view (stableMerge D k n s))"
  using assms
proof (induction "n - k" arbitrary: k s rule: less_induct)
  case less
  show ?case
  proof (cases "k < n")
    case False
    then show ?thesis using less.prems by (subst (1 2) stableMerge.simps) (auto intro: runs_short)
  next
    case True
    let ?s = "stablePass D k n 0 (2 * k) s"
    have pass: "stably lt (view s) (view ?s)" "runs lt (2 * k) (view ?s)"
      using stablePass_correct [of s "[]" "view s" 0 "2 * k" k n] less.prems by auto
    have "stably lt (view ?s) (view (stableMerge D (2 * k) n ?s)) \<and> sorted_by lt (view (stableMerge D (2 * k) n ?s))"
      using True less.prems pass stably_length [OF pass(1)] by (intro less.hyps) auto
    then show ?thesis using True less.prems(3) pass(1)
      by (subst (1 2) stableMerge.simps) (auto simp: mult.commute intro: stably_trans)
  qed
qed

lemma Stable_view: "stably lt (view s) (view (Stable D s))" "sorted_by lt (view (Stable D s))"
proof -
  let ?n = "length (view s)"
  let ?s = "stableBlocks D 20 ?n 0 20 s"
  have b: "stably lt (view s) (view ?s)" "runs lt 20 (view ?s)"
    using stableBlocks_correct [of s "[]" "view s" 0 20 20 ?n] by auto
  then have "stably lt (view ?s) (view (stableMerge D 20 ?n ?s)) \<and> sorted_by lt (view (stableMerge D 20 ?n ?s))"
    by (intro stableMerge_correct) (auto dest: stably_length)
  with b show "stably lt (view s) (view (Stable D s))" "sorted_by lt (view (Stable D s))"
    by (auto simp: Stable_def Len_view Let_def intro: stably_trans)
qed

end

section \<open>Search\<close>

text \<open>\<open>sort.Search\<close> on Go's \<open>int\<close>; \<open>h\<close> stays between \<open>i\<close> and \<open>j\<close>, so nothing overflows.\<close>

function Search_loop :: "(int \<Rightarrow> bool) \<Rightarrow> int \<Rightarrow> int \<Rightarrow> int" where
  "Search_loop f i j =
     (if i < j then
        let h = i + (j - i) div 2 in
        if \<not> f h then Search_loop f (h + 1) j else Search_loop f i h
      else i)"
  by pat_completeness auto
termination
  by (relation "measure (\<lambda>(f, i, j). nat (j - i))") auto

declare Search_loop.simps [simp del]

definition Search :: "int \<Rightarrow> (int \<Rightarrow> bool) \<Rightarrow> int" where
  "Search n f = Search_loop f 0 n"

definition SearchInts :: "int list \<Rightarrow> int \<Rightarrow> int" where
  "SearchInts a x = Search (int (length a)) (\<lambda>i. a ! nat i \<ge> x)"

definition SearchStrings :: "gostring list \<Rightarrow> gostring \<Rightarrow> int" where
  "SearchStrings a x = Search (int (length a)) (\<lambda>i. \<not> string_less (a ! nat i) x)"

text \<open>The invariant of the source: \<open>f(i-1) == false\<close> and \<open>f(j) == true\<close>. It needs no monotonicity.\<close>

lemma Search_loop_correct:
  assumes "i \<le> j" "i = lo \<or> \<not> f (i - 1)" "j = hi \<or> f j" "lo \<le> i" "j \<le> hi"
  shows "lo \<le> Search_loop f i j \<and> Search_loop f i j \<le> hi \<and>
    (Search_loop f i j = lo \<or> \<not> f (Search_loop f i j - 1)) \<and>
    (Search_loop f i j = hi \<or> f (Search_loop f i j))"
  using assms
proof (induction f i j rule: Search_loop.induct)
  case (1 f i j)
  show ?case
  proof (cases "i < j")
    case False
    then show ?thesis using "1.prems" by (simp add: Search_loop.simps)
  next
    case True
    define h where "h = i + (j - i) div 2"
    have h: "i \<le> h" "h < j" using True by (auto simp: h_def)
    show ?thesis
    proof (cases "f h")
      case fh: True
      have r: "Search_loop f i j = Search_loop f i h"
        using True fh by (subst Search_loop.simps) (simp add: h_def Let_def)
      show ?thesis unfolding r using "1.IH"(2) [OF True h_def] fh h "1.prems" by simp
    next
      case fh: False
      have r: "Search_loop f i j = Search_loop f (h + 1) j"
        using True fh by (subst Search_loop.simps) (simp add: h_def Let_def)
      show ?thesis unfolding r using "1.IH"(1) [OF True h_def] fh h "1.prems" by simp
    qed
  qed
qed

lemma Search_neg: "n \<le> 0 \<Longrightarrow> Search n f = 0"
  by (simp add: Search_def Search_loop.simps)

lemma Search_boundary:
  assumes "0 \<le> n"
  shows "0 \<le> Search n f" "Search n f \<le> n" "Search n f = 0 \<or> \<not> f (Search n f - 1)"
    "Search n f = n \<or> f (Search n f)"
  using Search_loop_correct [of 0 n 0 f n] assms by (auto simp: Search_def)

section \<open>Properties of Stable and Search\<close>

text \<open>C3: \<open>Stable\<close> sorts every collection that meets the contract of \<open>sort.Interface\<close> and is
  stable: the result is in order, a permutation of the input, and for every element \<open>k\<close> the
  elements that compare equal to \<open>k\<close> appear in the same order as before.\<close>

theorem Stable_correct:
  assumes "sort_interface D view lt"
  shows "mset (view (Stable D s)) = mset (view s) \<and> sorted_wrt (\<lambda>x y. \<not> lt y x) (view (Stable D s)) \<and>
    (\<forall>k. filter (\<lambda>x. \<not> lt x k \<and> \<not> lt k x) (view (Stable D s)) = filter (\<lambda>x. \<not> lt x k \<and> \<not> lt k x) (view s))"
  using sort_interface.Stable_view [OF assms, of s] by (auto simp: stably_def eqv_def [abs_def])

theorem Stable_correct_witness:
  "mset (Stable IntSlice [3, 1, 2]) = mset [3, 1, 2 :: int] \<and>
   sorted_wrt (\<lambda>x y. \<not> y < x) (Stable IntSlice [3, 1, 2]) \<and>
   (\<forall>k. filter (\<lambda>x. \<not> x < k \<and> \<not> k < x) (Stable IntSlice [3, 1, 2]) = filter (\<lambda>x. \<not> x < k \<and> \<not> k < x) [3, 1, 2])"
  using Stable_correct [OF ints.sort_interface_axioms, of "[3, 1, 2]"] .

text \<open>\<open>Search\<close> on a monotone predicate returns the smallest index in \<open>[0, n]\<close> from which the
  predicate holds: it is false below the result and true from the result up to \<open>n\<close>.\<close>

theorem Search_least:
  assumes "0 \<le> n" and "\<forall>i j. 0 \<le> i \<and> i \<le> j \<and> j < n \<and> f i \<longrightarrow> f j"
  shows "0 \<le> Search n f \<and> Search n f \<le> n \<and>
    (\<forall>i. 0 \<le> i \<and> i < Search n f \<longrightarrow> \<not> f i) \<and> (\<forall>i. Search n f \<le> i \<and> i < n \<longrightarrow> f i)"
proof (intro conjI allI impI)
  note S = Search_boundary [OF assms(1), of f]
  show "0 \<le> Search n f" "Search n f \<le> n" using S by auto
  show "\<not> f i" if "0 \<le> i \<and> i < Search n f" for i
    using that S assms(2) [rule_format, of i "Search n f - 1"] by auto
  show "f i" if "Search n f \<le> i \<and> i < n" for i
    using that S assms(2) [rule_format, of "Search n f" i] by auto
qed

theorem Search_least_witness: "Search 10 (\<lambda>i. i \<ge> 7) = 7"
proof -
  have "0 \<le> (10::int)" and "\<forall>i j. 0 \<le> i \<and> i \<le> j \<and> j < (10::int) \<and> i \<ge> 7 \<longrightarrow> j \<ge> 7" by auto
  from Search_least [OF this] have below: "\<forall>i. 0 \<le> i \<and> i < Search 10 (\<lambda>i. i \<ge> 7) \<longrightarrow> \<not> i \<ge> 7"
    and above: "\<forall>i. Search 10 (\<lambda>i. i \<ge> 7) \<le> i \<and> i < 10 \<longrightarrow> i \<ge> 7" by blast+
  show ?thesis using below [rule_format, of 7] above [rule_format, of "Search 10 (\<lambda>i. i \<ge> 7)"]
      above [rule_format, of 6] by linarith
qed

text \<open>The wrappers on sorted slices: the returned index is where the key is or would be inserted.\<close>

lemma SearchInts_sorted:
  assumes "sorted a"
  shows "0 \<le> SearchInts a x \<and> SearchInts a x \<le> int (length a) \<and>
    (\<forall>i < nat (SearchInts a x). a ! i < x) \<and> (\<forall>i. nat (SearchInts a x) \<le> i \<and> i < length a \<longrightarrow> x \<le> a ! i)"
proof (intro conjI allI impI)
  note S = Search_boundary [of "int (length a)" "\<lambda>i. a ! nat i \<ge> x", folded SearchInts_def]
  show 1: "0 \<le> SearchInts a x" "SearchInts a x \<le> int (length a)" using S by auto
  show "a ! i < x" if i: "i < nat (SearchInts a x)" for i
  proof -
    have "\<not> a ! nat (SearchInts a x - 1) \<ge> x" using S i 1 by auto
    moreover have "a ! i \<le> a ! nat (SearchInts a x - 1)" using assms i 1 by (intro sorted_nth_mono) auto
    ultimately show ?thesis by simp
  qed
  show "x \<le> a ! i" if i: "nat (SearchInts a x) \<le> i \<and> i < length a" for i
  proof -
    have "x \<le> a ! nat (SearchInts a x)" using S i 1 by auto
    also have "\<dots> \<le> a ! i" using assms i 1 by (intro sorted_nth_mono) auto
    finally show ?thesis .
  qed
qed

end
