(* ===== verification/Go_Utf8.thy ===== *)
theory Go_Utf8
  imports Go_Prelude
begin

text \<open>
  Package unicode/utf8 (src/unicode/utf8/utf8.go) and the runtime's own UTF-8 routines that
  implement \<open>for range\<close> over a string and the conversions between strings and rune slices
  (src/runtime/rune.go, src/runtime/string.go). Bytes are 8-bit words; a \<open>rune\<close> is Go's
  \<open>int32\<close>, modelled as an integer, on which HOL's bit operations are two's complement. Strings
  are byte lists, so the \<open>...InString\<close> variants take the same type.
\<close>

unbundle bit_operations_syntax

section \<open>Constants\<close>

definition RuneError :: rune where "RuneError = 0xFFFD"
definition RuneSelf :: byte where "RuneSelf = 0x80"
definition MaxRune :: rune where "MaxRune = 0x10FFFF"
definition UTFMax :: nat where "UTFMax = 4"
definition surrogateMin :: rune where "surrogateMin = 0xD800"
definition surrogateMax :: rune where "surrogateMax = 0xDFFF"

definition tx :: byte where "tx = 0x80"
definition t2 :: byte where "t2 = 0xC0"
definition t3 :: byte where "t3 = 0xE0"
definition t4 :: byte where "t4 = 0xF0"
definition t5 :: byte where "t5 = 0xF8"
definition maskx :: byte where "maskx = 0x3F"
definition mask2 :: byte where "mask2 = 0x1F"
definition mask3 :: byte where "mask3 = 0x0F"
definition mask4 :: byte where "mask4 = 0x07"
definition rune1Max :: rune where "rune1Max = 2 ^ 7 - 1"
definition rune2Max :: rune where "rune2Max = 2 ^ 11 - 1"
definition rune3Max :: rune where "rune3Max = 2 ^ 16 - 1"

lemmas utf8_consts = RuneError_def RuneSelf_def MaxRune_def UTFMax_def surrogateMin_def
  surrogateMax_def tx_def t2_def t3_def t4_def t5_def maskx_def mask2_def mask3_def mask4_def
  rune1Max_def rune2Max_def rune3Max_def

section \<open>Decoding\<close>

text \<open>\<open>rune(c0&mask2)<<6 | rune(c1&maskx)\<close> and the three- and four-byte forms.\<close>

definition join2 :: "byte \<Rightarrow> byte \<Rightarrow> rune" where
  "join2 c0 c1 = (push_bit 6 (uint (c0 AND mask2)) OR uint (c1 AND maskx))"

definition join3 :: "byte \<Rightarrow> byte \<Rightarrow> byte \<Rightarrow> rune" where
  "join3 c0 c1 c2 =
     (push_bit 12 (uint (c0 AND mask3)) OR push_bit 6 (uint (c1 AND maskx)) OR uint (c2 AND maskx))"

definition join4 :: "byte \<Rightarrow> byte \<Rightarrow> byte \<Rightarrow> byte \<Rightarrow> rune" where
  "join4 c0 c1 c2 c3 =
     (push_bit 18 (uint (c0 AND mask4)) OR push_bit 12 (uint (c1 AND maskx)) OR
      push_bit 6 (uint (c2 AND maskx)) OR uint (c3 AND maskx))"

definition decodeRuneInternal :: "byte list \<Rightarrow> rune \<times> nat \<times> bool" where
  "decodeRuneInternal p =
     (let n = length p in
      if n < 1 then (RuneError, 0, True)
      else let c0 = p ! 0 in
      if c0 < tx then (uint c0, 1, False)
      else if c0 < t2 then (RuneError, 1, False)
      else if n < 2 then (RuneError, 1, True)
      else let c1 = p ! 1 in
      if c1 < tx \<or> t2 \<le> c1 then (RuneError, 1, False)
      else if c0 < t3 then
        (let r = join2 c0 c1 in if r \<le> rune1Max then (RuneError, 1, False) else (r, 2, False))
      else if n < 3 then (RuneError, 1, True)
      else let c2 = p ! 2 in
      if c2 < tx \<or> t2 \<le> c2 then (RuneError, 1, False)
      else if c0 < t4 then
        (let r = join3 c0 c1 c2 in
         if r \<le> rune2Max then (RuneError, 1, False)
         else if surrogateMin \<le> r \<and> r \<le> surrogateMax then (RuneError, 1, False)
         else (r, 3, False))
      else if n < 4 then (RuneError, 1, True)
      else let c3 = p ! 3 in
      if c3 < tx \<or> t2 \<le> c3 then (RuneError, 1, False)
      else if c0 < t5 then
        (let r = join4 c0 c1 c2 c3 in
         if r \<le> rune3Max \<or> MaxRune < r then (RuneError, 1, False) else (r, 4, False))
      else (RuneError, 1, False))"

text \<open>The variant on strings repeats the code of the variant on byte slices.\<close>

definition decodeRuneInStringInternal :: "gostring \<Rightarrow> rune \<times> nat \<times> bool" where
  "decodeRuneInStringInternal s =
     (let n = length s in
      if n < 1 then (RuneError, 0, True)
      else let c0 = s ! 0 in
      if c0 < tx then (uint c0, 1, False)
      else if c0 < t2 then (RuneError, 1, False)
      else if n < 2 then (RuneError, 1, True)
      else let c1 = s ! 1 in
      if c1 < tx \<or> t2 \<le> c1 then (RuneError, 1, False)
      else if c0 < t3 then
        (let r = join2 c0 c1 in if r \<le> rune1Max then (RuneError, 1, False) else (r, 2, False))
      else if n < 3 then (RuneError, 1, True)
      else let c2 = s ! 2 in
      if c2 < tx \<or> t2 \<le> c2 then (RuneError, 1, False)
      else if c0 < t4 then
        (let r = join3 c0 c1 c2 in
         if r \<le> rune2Max then (RuneError, 1, False)
         else if surrogateMin \<le> r \<and> r \<le> surrogateMax then (RuneError, 1, False)
         else (r, 3, False))
      else if n < 4 then (RuneError, 1, True)
      else let c3 = s ! 3 in
      if c3 < tx \<or> t2 \<le> c3 then (RuneError, 1, False)
      else if c0 < t5 then
        (let r = join4 c0 c1 c2 c3 in
         if r \<le> rune3Max \<or> MaxRune < r then (RuneError, 1, False) else (r, 4, False))
      else (RuneError, 1, False))"

definition FullRune :: "byte list \<Rightarrow> bool" where
  "FullRune p = (case decodeRuneInternal p of (_, _, short) \<Rightarrow> \<not> short)"

definition FullRuneInString :: "gostring \<Rightarrow> bool" where
  "FullRuneInString s = (case decodeRuneInStringInternal s of (_, _, short) \<Rightarrow> \<not> short)"

definition DecodeRune :: "byte list \<Rightarrow> rune \<times> nat" where
  "DecodeRune p = (case decodeRuneInternal p of (r, sz, _) \<Rightarrow> (r, sz))"

definition DecodeRuneInString :: "gostring \<Rightarrow> rune \<times> nat" where
  "DecodeRuneInString s = (case decodeRuneInStringInternal s of (r, sz, _) \<Rightarrow> (r, sz))"

definition RuneStart :: "byte \<Rightarrow> bool" where
  "RuneStart b \<longleftrightarrow> b AND 0xC0 \<noteq> 0x80"

text \<open>\<open>DecodeLastRune\<close>: the loop \<open>for start--; start >= lim; start--\<close> on Go's signed \<open>int\<close>.\<close>

function lastStart :: "byte list \<Rightarrow> int \<Rightarrow> int \<Rightarrow> int" where
  "lastStart p lim start =
     (if start \<ge> lim \<and> 0 \<le> lim then
        if RuneStart (p ! nat start) then start else lastStart p lim (start - 1)
      else start)"
  by pat_completeness auto
termination
  by (relation "measure (\<lambda>(p, lim, start). nat (start + 1 - lim))") auto

definition DecodeLastRune :: "byte list \<Rightarrow> rune \<times> nat" where
  "DecodeLastRune p =
     (let end' = int (length p) in
      if end' = 0 then (RuneError, 0)
      else let start = end' - 1; r = uint (p ! nat start) in
      if r < uint RuneSelf then (r, 1)
      else
        let lim = end' - int UTFMax;
            lim = (if lim < 0 then 0 else lim);
            start = lastStart p lim (start - 1);
            start = (if start < 0 then 0 else start)
        in case DecodeRune (drop (nat start) p) of (r, sz) \<Rightarrow>
           if start + int sz \<noteq> end' then (RuneError, 1) else (r, sz))"

definition DecodeLastRuneInString :: "gostring \<Rightarrow> rune \<times> nat" where
  "DecodeLastRuneInString s =
     (let end' = int (length s) in
      if end' = 0 then (RuneError, 0)
      else let start = end' - 1; r = uint (s ! nat start) in
      if r < uint RuneSelf then (r, 1)
      else
        let lim = end' - int UTFMax;
            lim = (if lim < 0 then 0 else lim);
            start = lastStart s lim (start - 1);
            start = (if start < 0 then 0 else start)
        in case DecodeRuneInString (drop (nat start) s) of (r, sz) \<Rightarrow>
           if start + int sz \<noteq> end' then (RuneError, 1) else (r, sz))"

section \<open>Encoding\<close>

definition RuneLen :: "rune \<Rightarrow> int" where
  "RuneLen r =
     (if r < 0 then -1
      else if r \<le> rune1Max then 1
      else if r \<le> rune2Max then 2
      else if surrogateMin \<le> r \<and> r \<le> surrogateMax then -1
      else if r \<le> rune3Max then 3
      else if r \<le> MaxRune then 4
      else -1)"

text \<open>An assignment \<open>p[k] = b\<close>; an index past the end panics.\<close>

definition put :: "nat \<Rightarrow> byte \<Rightarrow> byte list \<Rightarrow> panic + byte list" where
  "put k b p = (if k < length p then Inr (p[k := b]) else Inl IndexOutOfRange)"

fun put_all :: "nat \<Rightarrow> byte list \<Rightarrow> byte list \<Rightarrow> panic + byte list" where
  "put_all k [] p = Inr p"
| "put_all k (b # bs) p = (case put k b p of Inl e \<Rightarrow> Inl e | Inr p \<Rightarrow> put_all (Suc k) bs p)"

text \<open>\<open>byte(r)\<close> truncates: \<open>word_of_int\<close>. The bytes in the order in which they are assigned.\<close>

definition encode2 :: "rune \<Rightarrow> byte list" where
  "encode2 r = [t2 OR word_of_int (drop_bit 6 r), tx OR (word_of_int r AND maskx)]"

definition encode3 :: "rune \<Rightarrow> byte list" where
  "encode3 r = [t3 OR word_of_int (drop_bit 12 r), tx OR (word_of_int (drop_bit 6 r) AND maskx),
     tx OR (word_of_int r AND maskx)]"

definition encode4 :: "rune \<Rightarrow> byte list" where
  "encode4 r = [t4 OR word_of_int (drop_bit 18 r), tx OR (word_of_int (drop_bit 12 r) AND maskx),
     tx OR (word_of_int (drop_bit 6 r) AND maskx), tx OR (word_of_int r AND maskx)]"

text \<open>The cases of the \<open>switch\<close>, with \<open>i = uint32(r)\<close>.\<close>

definition encodedBytes :: "rune \<Rightarrow> byte list" where
  "encodedBytes r =
     (let i = r mod 2 ^ 32 in
      if i \<le> rune1Max then [word_of_int r]
      else if i \<le> rune2Max then encode2 r
      else if i > MaxRune \<or> surrogateMin \<le> i \<and> i \<le> surrogateMax then encode3 RuneError
      else if i \<le> rune3Max then encode3 r
      else encode4 r)"

definition EncodeRune :: "byte list \<Rightarrow> rune \<Rightarrow> panic + (byte list \<times> nat)" where
  "EncodeRune p r =
     (case put_all 0 (encodedBytes r) p of
        Inl e \<Rightarrow> Inl e | Inr p' \<Rightarrow> Inr (p', length (encodedBytes r)))"

section \<open>Counting and validation\<close>

text \<open>Decoding consumes at least one byte of a non-empty input, so the loops below make progress.\<close>

lemma DecodeRune_size: "p \<noteq> [] \<Longrightarrow> 1 \<le> snd (DecodeRune p)"
  by (auto simp: DecodeRune_def decodeRuneInternal_def Let_def split: if_splits)

lemma DecodeRune_progress: "i < length p \<Longrightarrow> i < i + snd (DecodeRune (drop i p))"
  using DecodeRune_size [of "drop i p"] by auto

function RuneCount_loop :: "byte list \<Rightarrow> nat \<Rightarrow> nat \<Rightarrow> nat" where
  "RuneCount_loop p i n =
     (if i < length p then
        if p ! i < RuneSelf then RuneCount_loop p (i + 1) (n + 1)
        else RuneCount_loop p (i + snd (DecodeRune (drop i p))) (n + 1)
      else n)"
  by pat_completeness auto
termination
  by (relation "measure (\<lambda>(p, i, n). length p - i)") (auto dest: DecodeRune_progress intro: diff_less_mono2)

definition RuneCount :: "byte list \<Rightarrow> nat" where
  "RuneCount p = RuneCount_loop p 0 0"

function Valid_loop :: "byte list \<Rightarrow> nat \<Rightarrow> bool" where
  "Valid_loop p i =
     (if i < length p then
        if p ! i < RuneSelf then Valid_loop p (i + 1)
        else let sz = snd (DecodeRune (drop i p)) in
          if sz = 1 then False else Valid_loop p (i + sz)
      else True)"
  by pat_completeness auto
termination
  by (relation "measure (\<lambda>(p, i). length p - i)") (auto dest: DecodeRune_progress intro: diff_less_mono2)

definition Valid :: "byte list \<Rightarrow> bool" where
  "Valid p = Valid_loop p 0"

definition ValidRune :: "rune \<Rightarrow> bool" where
  "ValidRune r =
     (if r < 0 then False
      else if surrogateMin \<le> r \<and> r \<le> surrogateMax then False
      else if r > MaxRune then False
      else True)"

declare lastStart.simps [simp del] RuneCount_loop.simps [simp del] Valid_loop.simps [simp del]

section \<open>From bits to arithmetic\<close>

lemma push_bit_or:
  fixes x y :: int
  assumes "0 \<le> y" "y < 2 ^ n"
  shows "push_bit n x OR y = x * 2 ^ n + y"
proof -
  have "take_bit n y = y" using assms by (simp add: take_bit_int_eq_self_iff)
  then have "\<not> bit y k" if "n \<le> k" for k
    using that by (metis bit_take_bit_iff not_le)
  then have "push_bit n x OR y = push_bit n x + y"
    by (intro disjunctive_add [symmetric]) (auto simp: bit_simps)
  then show ?thesis by (simp add: push_bit_eq_mult)
qed

lemma uint_and_mask: "uint (c AND mask n :: byte) = uint c mod 2 ^ n"
  by (simp add: take_bit_eq_mask [symmetric] take_bit_eq_mod [symmetric] unsigned_take_bit_eq)

lemma byte_masks: "(0x3F :: byte) = mask 6" "(0x1F :: byte) = mask 5" "(0x0F :: byte) = mask 4"
  "(0x07 :: byte) = mask 3"
  by (simp_all add: mask_eq_exp_minus_1)

lemma uint_low_bits:
  "uint (c AND maskx) = uint c mod 64" "uint (c AND mask2) = uint c mod 32"
  "uint (c AND mask3) = uint c mod 16" "uint (c AND mask4) = uint c mod 8"
  unfolding maskx_def mask2_def mask3_def mask4_def byte_masks uint_and_mask by simp_all

lemma join_arith:
  "join2 c0 c1 = uint c0 mod 32 * 64 + uint c1 mod 64"
  "join3 c0 c1 c2 = uint c0 mod 16 * 4096 + uint c1 mod 64 * 64 + uint c2 mod 64"
  "join4 c0 c1 c2 c3 = uint c0 mod 8 * 262144 + uint c1 mod 64 * 4096 + uint c2 mod 64 * 64 + uint c3 mod 64"
proof -
  have m: "0 \<le> x mod 64" "x mod 64 < 64" for x :: int by simp_all
  show "join2 c0 c1 = uint c0 mod 32 * 64 + uint c1 mod 64"
    using push_bit_or [of "uint c1 mod 64" 6] m by (simp add: join2_def uint_low_bits)
  have two: "push_bit 6 (uint c mod 64) OR uint d mod 64 = uint c mod 64 * 64 + uint d mod 64" for c d :: byte
    using push_bit_or [of "uint d mod 64" 6] m by simp
  have bound2: "uint c mod 64 * 64 + uint d mod 64 < 4096" for c d :: byte
    using m [of "uint c"] m [of "uint d"] by linarith
  show "join3 c0 c1 c2 = uint c0 mod 16 * 4096 + uint c1 mod 64 * 64 + uint c2 mod 64"
    using push_bit_or [of "uint c1 mod 64 * 64 + uint c2 mod 64" 12] bound2 [of c1 c2]
    by (simp add: join3_def uint_low_bits or.assoc two)
  have bound3: "uint b mod 64 * 4096 + (uint c mod 64 * 64 + uint d mod 64) < 262144" for b c d :: byte
    using m [of "uint b"] m [of "uint c"] m [of "uint d"] by linarith
  have three: "push_bit 12 (uint b mod 64) OR (push_bit 6 (uint c mod 64) OR uint d mod 64)
      = uint b mod 64 * 4096 + (uint c mod 64 * 64 + uint d mod 64)" for b c d :: byte
    using push_bit_or [of "uint c mod 64 * 64 + uint d mod 64" 12] bound2 [of c d] by (simp add: two)
  show "join4 c0 c1 c2 c3 = uint c0 mod 8 * 262144 + uint c1 mod 64 * 4096 + uint c2 mod 64 * 64 + uint c3 mod 64"
    using push_bit_or [of "uint c1 mod 64 * 4096 + (uint c2 mod 64 * 64 + uint c3 mod 64)" 18] bound3 [of c1 c2 c3]
    by (simp add: join4_def uint_low_bits or.assoc three)
qed

lemma byte_cmp:
  "c < tx \<longleftrightarrow> uint c < 0x80" "c < t2 \<longleftrightarrow> uint c < 0xC0" "c < t3 \<longleftrightarrow> uint c < 0xE0"
  "c < t4 \<longleftrightarrow> uint c < 0xF0" "c < t5 \<longleftrightarrow> uint c < 0xF8" "t2 \<le> c \<longleftrightarrow> 0xC0 \<le> uint c"
  "c < RuneSelf \<longleftrightarrow> uint c < 0x80"
  by (simp_all add: utf8_consts word_less_def word_le_def)

text \<open>The bytes that the encoder stores, read as integers.\<close>

lemma uint_word_of_int_byte: "uint (word_of_int x :: byte) = x mod 256"
  by (simp add: uint_word_of_int)

lemma uint_lead:
  fixes x :: int
  assumes "0 \<le> x"
  shows "x < 32 \<Longrightarrow> uint (t2 OR word_of_int x) = 0xC0 + x"
    "x < 16 \<Longrightarrow> uint (t3 OR word_of_int x) = 0xE0 + x"
    "x < 8 \<Longrightarrow> uint (t4 OR word_of_int x) = 0xF0 + x"
  using assms push_bit_or [of x 5 6] push_bit_or [of x 4 14] push_bit_or [of x 3 30]
  by (simp_all add: t2_def t3_def t4_def uint_or uint_word_of_int_byte push_bit_eq_mult)

lemma uint_cont: "uint (tx OR (word_of_int x AND maskx)) = 0x80 + x mod 64"
proof -
  have "uint (word_of_int x AND maskx) = x mod 64"
    unfolding uint_low_bits uint_word_of_int_byte by (simp add: mod_mod_cancel)
  then show ?thesis
    using push_bit_or [of "x mod 64" 7 1] by (simp add: tx_def uint_or push_bit_eq_mult)
qed

lemma uint_bytes_eqI: "map uint bs = map uint bs' \<Longrightarrow> bs = (bs' :: byte list)"
  by (rule map_injective) (auto simp: inj_def word_uint_eq_iff)

lemma encode_arith:
  "0 \<le> r \<Longrightarrow> r < 0x800 \<Longrightarrow> map uint (encode2 r) = [0xC0 + r div 64, 0x80 + r mod 64]"
  "0 \<le> r \<Longrightarrow> r < 0x10000 \<Longrightarrow> map uint (encode3 r) = [0xE0 + r div 4096, 0x80 + r div 64 mod 64, 0x80 + r mod 64]"
  "0 \<le> r \<Longrightarrow> r < 0x200000 \<Longrightarrow> map uint (encode4 r) =
     [0xF0 + r div 262144, 0x80 + r div 4096 mod 64, 0x80 + r div 64 mod 64, 0x80 + r mod 64]"
  by (auto simp: encode2_def encode3_def encode4_def uint_lead uint_cont drop_bit_eq_div)

section \<open>Decoding inverts encoding\<close>

lemma ValidRune_iff: "ValidRune r \<longleftrightarrow> 0 \<le> r \<and> r \<le> 0x10FFFF \<and> \<not> (0xD800 \<le> r \<and> r \<le> 0xDFFF)"
  by (auto simp: ValidRune_def utf8_consts)

text \<open>The four shapes of an encoding, by the size of the rune.\<close>

lemma encodedBytes_cases:
  assumes "ValidRune r"
  obtains (one) a where "r < 0x80" "encodedBytes r = [a]" "uint a = r"
  | (two) a b where "0x80 \<le> r" "r < 0x800" "encodedBytes r = [a, b]"
      "uint a = 0xC0 + r div 64" "uint b = 0x80 + r mod 64"
  | (three) a b c where "0x800 \<le> r" "r < 0x10000" "\<not> (0xD800 \<le> r \<and> r \<le> 0xDFFF)" "encodedBytes r = [a, b, c]"
      "uint a = 0xE0 + r div 4096" "uint b = 0x80 + r div 64 mod 64" "uint c = 0x80 + r mod 64"
  | (four) a b c d where "0x10000 \<le> r" "r \<le> 0x10FFFF" "encodedBytes r = [a, b, c, d]"
      "uint a = 0xF0 + r div 262144" "uint b = 0x80 + r div 4096 mod 64"
      "uint c = 0x80 + r div 64 mod 64" "uint d = 0x80 + r mod 64"
proof -
  have r: "0 \<le> r" "r \<le> 0x10FFFF" "\<not> (0xD800 \<le> r \<and> r \<le> 0xDFFF)" using assms by (auto simp: ValidRune_iff)
  have i: "r mod 2 ^ 32 = r" using r by simp
  consider "r < 0x80" | "0x80 \<le> r" "r < 0x800" | "0x800 \<le> r" "r < 0x10000" | "0x10000 \<le> r" by linarith
  then show thesis
  proof cases
    case 1
    then show ?thesis using r one [of "word_of_int r"]
      by (simp add: encodedBytes_def i utf8_consts uint_word_of_int_byte)
  next
    case 2
    then have e: "encodedBytes r = encode2 r" by (simp add: encodedBytes_def i utf8_consts)
    have "map uint (encode2 r) = [0xC0 + r div 64, 0x80 + r mod 64]" using r 2 by (intro encode_arith) auto
    then show ?thesis using 2 e by (auto intro!: two simp: map_eq_Cons_conv)
  next
    case 3
    then have e: "encodedBytes r = encode3 r" using r by (auto simp: encodedBytes_def i utf8_consts)
    have "map uint (encode3 r) = [0xE0 + r div 4096, 0x80 + r div 64 mod 64, 0x80 + r mod 64]"
      using r 3 by (intro encode_arith) auto
    then show ?thesis using 3 e r(3) by (auto intro!: three simp: map_eq_Cons_conv)
  next
    case 4
    then have e: "encodedBytes r = encode4 r" using r by (simp add: encodedBytes_def i utf8_consts)
    have "map uint (encode4 r) = [0xF0 + r div 262144, 0x80 + r div 4096 mod 64, 0x80 + r div 64 mod 64, 0x80 + r mod 64]"
      using r by (intro encode_arith) auto
    then show ?thesis using 4 e r by (auto intro!: four simp: map_eq_Cons_conv)
  qed
qed

lemma encodedBytes_nonempty: "ValidRune r \<Longrightarrow> encodedBytes r \<noteq> []"
  by (elim encodedBytes_cases) auto

lemma length_encodedBytes: "ValidRune r \<Longrightarrow> 1 \<le> length (encodedBytes r) \<and> length (encodedBytes r) \<le> 4"
  by (elim encodedBytes_cases) auto

lemmas rune_consts = RuneError_def MaxRune_def surrogateMin_def surrogateMax_def
  rune1Max_def rune2Max_def rune3Max_def

lemmas decode_arith = decodeRuneInternal_def Let_def byte_cmp join_arith rune_consts

lemma lead_mod:
  fixes x :: int
  assumes "0 \<le> x"
  shows "x < 32 \<Longrightarrow> (0xC0 + x) mod 32 = x" "x < 16 \<Longrightarrow> (0xE0 + x) mod 16 = x" "x < 8 \<Longrightarrow> (0xF0 + x) mod 8 = x"
    "x < 64 \<Longrightarrow> (0x80 + x) mod 64 = x"
proof -
  have m: "(k * m + x) mod m = x" if "x < m" for k m :: int
    using assms that by (simp add: add.commute)
  show "x < 32 \<Longrightarrow> (0xC0 + x) mod 32 = x" "x < 16 \<Longrightarrow> (0xE0 + x) mod 16 = x" "x < 8 \<Longrightarrow> (0xF0 + x) mod 8 = x"
    "x < 64 \<Longrightarrow> (0x80 + x) mod 64 = x"
    using m [of 32 6] m [of 16 14] m [of 8 30] m [of 64 2] by simp_all
qed

lemma digits64:
  fixes r :: int
  shows "r div 64 * 64 + r mod 64 = r"
    "r div 4096 * 4096 + r div 64 mod 64 * 64 + r mod 64 = r"
    "r div 262144 * 262144 + r div 4096 mod 64 * 4096 + r div 64 mod 64 * 64 + r mod 64 = r"
proof -
  have d: "r div 4096 = r div 64 div 64" "r div 262144 = r div 4096 div 64"
    by (simp_all add: zdiv_zmult2_eq [symmetric])
  show 1: "r div 64 * 64 + r mod 64 = r" by simp
  have "r div 4096 * 64 + r div 64 mod 64 = r div 64" unfolding d(1) by simp
  with 1 show 2: "r div 4096 * 4096 + r div 64 mod 64 * 64 + r mod 64 = r" by linarith
  have "r div 262144 * 64 + r div 4096 mod 64 = r div 4096" unfolding d(2) by simp
  with 2 show "r div 262144 * 262144 + r div 4096 mod 64 * 4096 + r div 64 mod 64 * 64 + r mod 64 = r" by linarith
qed

lemma mod64: "0 \<le> (x::int) mod 64" "x mod 64 < 64"
  by simp_all

text \<open>What each branch of the decoder accepts.\<close>

definition cont :: "byte \<Rightarrow> bool" where
  "cont b \<longleftrightarrow> 0x80 \<le> uint b \<and> uint b < 0xC0"

lemma cont_mod: "cont b \<Longrightarrow> uint b = 0x80 + uint b mod 64"
  unfolding cont_def by presburger

lemma contI: "uint b = 0x80 + x mod 64 \<Longrightarrow> cont b \<and> uint b mod 64 = x mod 64"
  using mod64 [of x] lead_mod(4) [of "x mod 64"] by (simp add: cont_def del: pos_mod_sign pos_mod_bound)

lemma cont_tests: "cont b \<Longrightarrow> \<not> b < tx" "cont b \<Longrightarrow> \<not> t2 \<le> b"
  by (auto simp: cont_def byte_cmp)

lemma short_tests:
  "\<not> length (a # q) < 1" "\<not> length (a # b # q) < 2" "\<not> length (a # b # c # q) < 3" "\<not> length (a # b # c # d # q) < 4"
  "(a # q) ! 0 = a" "(a # b # q) ! 1 = b" "(a # b # c # q) ! 2 = c" "(a # b # c # d # q) ! 3 = d"
  by auto

lemmas branch_tests = cont_tests short_tests if_False if_True simp_thms

lemma decode_branch1: "uint a < 0x80 \<Longrightarrow> decodeRuneInternal (a # q) = (uint a, 1, False)"
  by (simp add: decodeRuneInternal_def byte_cmp)

lemma decode_branch2:
  assumes "0xC0 \<le> uint a" "uint a < 0xE0" "cont b" "join2 a b = r" "0x80 \<le> r"
  shows "decodeRuneInternal (a # b # q) = (r, 2, False)"
proof -
  have "\<not> a < tx" "\<not> a < t2" "a < t3" "\<not> r \<le> rune1Max" using assms by (simp_all add: byte_cmp rune_consts)
  then show ?thesis using assms(3,4) unfolding decodeRuneInternal_def Let_def by (simp only: branch_tests)
qed

lemma decode_branch3:
  assumes "0xE0 \<le> uint a" "uint a < 0xF0" "cont b" "cont c" "join3 a b c = r" "0x800 \<le> r"
    "\<not> (0xD800 \<le> r \<and> r \<le> 0xDFFF)"
  shows "decodeRuneInternal (a # b # c # q) = (r, 3, False)"
proof -
  have "\<not> a < tx" "\<not> a < t2" "\<not> a < t3" "a < t4" "\<not> r \<le> rune2Max" "\<not> (surrogateMin \<le> r \<and> r \<le> surrogateMax)"
    using assms by (simp_all add: byte_cmp rune_consts)
  then show ?thesis using assms(3-5) unfolding decodeRuneInternal_def Let_def by (simp only: branch_tests)
qed

lemma decode_branch4:
  assumes "0xF0 \<le> uint a" "uint a < 0xF8" "cont b" "cont c" "cont d" "join4 a b c d = r" "0x10000 \<le> r" "r \<le> 0x10FFFF"
  shows "decodeRuneInternal (a # b # c # d # q) = (r, 4, False)"
proof -
  have "\<not> a < tx" "\<not> a < t2" "\<not> a < t3" "\<not> a < t4" "a < t5" "\<not> (r \<le> rune3Max \<or> MaxRune < r)"
    using assms by (simp_all add: byte_cmp rune_consts)
  then show ?thesis using assms(3-6) unfolding decodeRuneInternal_def Let_def by (simp only: branch_tests)
qed

text \<open>Conversely: a result other than the error comes from one of these branches.\<close>

lemma decode_inv:
  assumes "decodeRuneInternal p = (r, n, e)" "p \<noteq> []"
  shows "(r = RuneError \<and> n = 1) \<or>
    (\<exists>a q. p = a # q \<and> n = 1 \<and> \<not> e \<and> uint a < 0x80 \<and> r = uint a) \<or>
    (\<exists>a b q. p = a # b # q \<and> n = 2 \<and> \<not> e \<and> 0xC0 \<le> uint a \<and> uint a < 0xE0 \<and> cont b \<and> r = join2 a b \<and> 0x80 \<le> r) \<or>
    (\<exists>a b c q. p = a # b # c # q \<and> n = 3 \<and> \<not> e \<and> 0xE0 \<le> uint a \<and> uint a < 0xF0 \<and> cont b \<and> cont c \<and>
      r = join3 a b c \<and> 0x800 \<le> r \<and> \<not> (0xD800 \<le> r \<and> r \<le> 0xDFFF)) \<or>
    (\<exists>a b c d q. p = a # b # c # d # q \<and> n = 4 \<and> \<not> e \<and> 0xF0 \<le> uint a \<and> uint a < 0xF8 \<and> cont b \<and> cont c \<and> cont d \<and>
      r = join4 a b c d \<and> 0x10000 \<le> r \<and> r \<le> 0x10FFFF)"
proof (cases "r = RuneError \<and> n = 1")
  case False
  obtain a p1 where p: "p = a # p1" using assms(2) by (cases p) auto
  note eq = assms(1) [unfolded decodeRuneInternal_def Let_def p]
  show ?thesis
  proof (cases "a < tx")
    case True
    then show ?thesis using eq p by (simp add: byte_cmp)
  next
    case a: False
    have a2: "\<not> a < t2" using eq a False by (auto simp only: branch_tests)
    obtain b p2 where p1: "p1 = b # p2" using eq a a2 False by (cases p1) simp_all
    note eq2 = eq [unfolded p1]
    have "\<not> (b < tx \<or> t2 \<le> b)" using eq2 a a2 False by (auto simp only: branch_tests)
    then have b: "cont b" by (simp add: cont_def byte_cmp)
    show ?thesis
    proof (cases "a < t3")
      case True
      then have "r = join2 a b \<and> n = 2 \<and> \<not> e \<and> \<not> join2 a b \<le> rune1Max"
        using eq2 a a2 b False by (auto simp only: branch_tests split: if_splits)
      then show ?thesis using True a2 b p p1 by (simp add: byte_cmp rune_consts)
    next
      case a3: False
      obtain c p3 where p2: "p2 = c # p3" using eq2 a a2 b a3 False by (cases p2) (simp_all add: cont_tests)
      note eq3 = eq2 [unfolded p2]
      have "\<not> (c < tx \<or> t2 \<le> c)" using eq3 a a2 b a3 False by (auto simp only: branch_tests)
      then have c: "cont c" by (simp add: cont_def byte_cmp)
      show ?thesis
      proof (cases "a < t4")
        case True
        then have "r = join3 a b c \<and> n = 3 \<and> \<not> e \<and> \<not> join3 a b c \<le> rune2Max \<and>
            \<not> (surrogateMin \<le> join3 a b c \<and> join3 a b c \<le> surrogateMax)"
          using eq3 a a2 b a3 c False by (auto simp only: branch_tests split: if_splits)
        then show ?thesis using True a3 b c p p1 p2 by (simp add: byte_cmp rune_consts)
      next
        case a4: False
        obtain d p4 where p3: "p3 = d # p4" using eq3 a a2 b a3 c a4 False by (cases p3) (simp_all add: cont_tests)
        note eq4 = eq3 [unfolded p3]
        have "\<not> (d < tx \<or> t2 \<le> d)" using eq4 a a2 b a3 c a4 False by (auto simp only: branch_tests)
        then have d: "cont d" by (simp add: cont_def byte_cmp)
        have "a < t5 \<and> r = join4 a b c d \<and> n = 4 \<and> \<not> e \<and>
            \<not> (join4 a b c d \<le> rune3Max \<or> MaxRune < join4 a b c d)"
          using eq4 a a2 b a3 c a4 d False by (auto simp only: branch_tests split: if_splits)
        then show ?thesis using a4 b c d p p1 p2 p3 by (simp add: byte_cmp rune_consts)
      qed
    qed
  qed
qed simp

lemma decode_encodedBytes:
  assumes "ValidRune r"
  shows "decodeRuneInternal (encodedBytes r @ q) = (r, length (encodedBytes r), False)"
  using assms
proof (cases rule: encodedBytes_cases)
  case (one a)
  then show ?thesis by (simp add: decode_branch1)
next
  case (two a b)
  have x: "0 \<le> r div 64" "r div 64 < 32" using two by auto
  note m = lead_mod(1) [OF x, folded two(4)] contI [OF two(5)]
  have "join2 a b = r" by (simp only: join_arith m digits64)
  moreover have "0xC0 \<le> uint a" "uint a < 0xE0" using x two(4) by linarith+
  ultimately have "decodeRuneInternal (a # b # q) = (r, 2, False)"
    using m(2) two(1) by (intro decode_branch2) simp_all
  then show ?thesis using two(3) by simp
next
  case (three a b c)
  have x: "0 \<le> r div 4096" "r div 4096 < 16" using three by auto
  note m = lead_mod(2) [OF x, folded three(5)] contI [OF three(6)] contI [OF three(7)]
  have "join3 a b c = r" by (simp only: join_arith m digits64)
  moreover have "0xE0 \<le> uint a" "uint a < 0xF0" using x three(5) by linarith+
  ultimately have "decodeRuneInternal (a # b # c # q) = (r, 3, False)"
    using m(2,3) three(1,3) by (intro decode_branch3) simp_all
  then show ?thesis using three(4) by simp
next
  case (four a b c d)
  have "r div 262144 \<le> 0x10FFFF div 262144" using four(2) by (rule zdiv_mono1) simp
  then have x: "0 \<le> r div 262144" "r div 262144 < 8" using four(1) by simp_all
  note m = lead_mod(3) [OF x, folded four(4)] contI [OF four(5)] contI [OF four(6)] contI [OF four(7)]
  have "join4 a b c d = r" by (simp only: join_arith m digits64)
  moreover have "0xF0 \<le> uint a" "uint a < 0xF8" using x four(4) by linarith+
  ultimately have "decodeRuneInternal (a # b # c # d # q) = (r, 4, False)"
    using m(2-4) four(1,2) by (intro decode_branch4) simp_all
  then show ?thesis using four(3) by simp
qed

section \<open>Encoding inverts decoding: only shortest forms are accepted\<close>

lemma digits_unique:
  fixes x y :: int
  assumes "0 \<le> y" "y < 64"
  shows "(x * 64 + y) div 64 = x" "(x * 64 + y) mod 64 = y"
  using assms by simp_all

lemma join_digits:
  "join2 a b div 64 = uint a mod 32" "join2 a b mod 64 = uint b mod 64"
  "join3 a b c div 4096 = uint a mod 16" "join3 a b c div 64 mod 64 = uint b mod 64" "join3 a b c mod 64 = uint c mod 64"
  "join4 a b c d div 262144 = uint a mod 8" "join4 a b c d div 4096 mod 64 = uint b mod 64"
  "join4 a b c d div 64 mod 64 = uint c mod 64" "join4 a b c d mod 64 = uint d mod 64"
proof -
  show 2: "join2 a b div 64 = uint a mod 32" "join2 a b mod 64 = uint b mod 64"
    unfolding join_arith by (rule digits_unique; simp)+
  have j3: "join3 a b c = (uint a mod 16 * 64 + uint b mod 64) * 64 + uint c mod 64" for a b c
    by (simp add: join_arith)
  have d3: "join3 a b c div 64 = uint a mod 16 * 64 + uint b mod 64" "join3 a b c mod 64 = uint c mod 64" for a b c
    unfolding j3 by (rule digits_unique; simp)+
  then show "join3 a b c div 64 mod 64 = uint b mod 64" "join3 a b c mod 64 = uint c mod 64"
    by (simp_all add: digits_unique)
  have "join3 a b c div 4096 = join3 a b c div 64 div 64" by (simp add: zdiv_zmult2_eq [symmetric])
  then show "join3 a b c div 4096 = uint a mod 16" by (simp add: d3 digits_unique)
  have j4: "join4 a b c d = ((uint a mod 8 * 64 + uint b mod 64) * 64 + uint c mod 64) * 64 + uint d mod 64"
    by (simp add: join_arith)
  have d4: "join4 a b c d div 64 = (uint a mod 8 * 64 + uint b mod 64) * 64 + uint c mod 64"
    "join4 a b c d mod 64 = uint d mod 64"
    unfolding j4 by (rule digits_unique; simp)+
  show "join4 a b c d mod 64 = uint d mod 64" by (rule d4)
  show "join4 a b c d div 64 mod 64 = uint c mod 64" unfolding d4 by (rule digits_unique; simp)
  have "join4 a b c d div 4096 = join4 a b c d div 64 div 64" by (simp add: zdiv_zmult2_eq [symmetric])
  then have e4: "join4 a b c d div 4096 = uint a mod 8 * 64 + uint b mod 64" by (simp only: d4 digits_unique mod64)
  then show "join4 a b c d div 4096 mod 64 = uint b mod 64" by (simp add: digits_unique)
  have "join4 a b c d div 262144 = join4 a b c d div 4096 div 64" by (simp add: zdiv_zmult2_eq [symmetric])
  then show "join4 a b c d div 262144 = uint a mod 8" by (simp add: e4 digits_unique)
qed

lemma lead_of_mod:
  fixes x :: int
  shows "0xC0 \<le> x \<Longrightarrow> x < 0xE0 \<Longrightarrow> 0xC0 + x mod 32 = x" "0xE0 \<le> x \<Longrightarrow> x < 0xF0 \<Longrightarrow> 0xE0 + x mod 16 = x"
    "0xF0 \<le> x \<Longrightarrow> x < 0xF8 \<Longrightarrow> 0xF0 + x mod 8 = x"
  by presburger+

lemma join_bounds: "0 \<le> join2 a b" "join2 a b < 0x800" "join3 a b c < 0x10000"
proof -
  show "0 \<le> join2 a b" by (simp add: join_arith)
  have "uint a mod 32 \<le> 31" "uint b mod 64 \<le> 63" using pos_mod_bound [of 32 "uint a"] pos_mod_bound [of 64 "uint b"] by auto
  then show "join2 a b < 0x800" unfolding join_arith by linarith
  have "uint a mod 16 \<le> 15" "uint c mod 64 \<le> 63" "uint b mod 64 \<le> 63"
    using pos_mod_bound [of 16 "uint a"] pos_mod_bound [of 64 "uint c"] pos_mod_bound [of 64 "uint b"] by auto
  then show "join3 a b c < 0x10000" unfolding join_arith by linarith
qed

lemma encodedBytes4:
  assumes "ValidRune r" "0x10000 \<le> r"
  shows "map uint (encodedBytes r) =
     [0xF0 + r div 262144, 0x80 + r div 4096 mod 64, 0x80 + r div 64 mod 64, 0x80 + r mod 64]"
  using assms(1)
proof (cases rule: encodedBytes_cases)
  case (four a b c d)
  show ?thesis by (simp only: four(3-7) list.map)
qed (use assms(2) in linarith)+

lemma map_uint_inject: "map uint xs = map uint ys \<Longrightarrow> xs = (ys :: byte list)"
  by (rule map_injective) (auto intro: injI)

lemma encode_decoded:
  assumes dec: "decodeRuneInternal p = (r, n, e)" and ne: "p \<noteq> []" and ok: "\<not> (r = RuneError \<and> n = 1)"
  shows "ValidRune r \<and> \<not> e \<and> n = length (encodedBytes r) \<and> take n p = encodedBytes r"
  using decode_inv [OF dec ne]
proof (elim disjE exE conjE, goal_cases)
  case 1
  then show ?case using ok by simp
next
  case (2 a q)
    have v: "ValidRune r" using 2 uint_ge_0 [of a] by (simp add: ValidRune_iff)
    have "uint a \<le> rune1Max" "uint a mod 2 ^ 32 = uint a" using 2(4) by (simp_all add: rune_consts)
    then have "encodedBytes (uint a) = [a]" unfolding encodedBytes_def Let_def by simp
    then have "encodedBytes r = [a]" using 2 by simp
    then show ?case using 2 v by simp
  next
    case (3 a b q)
    have v: "ValidRune r" "r < 0x800" using 3 join_bounds(1,2) [of a b] by (auto simp: ValidRune_iff)
    have "[uint a, uint b] = [0xC0 + r div 64, 0x80 + r mod 64]"
      unfolding 3(7) join_digits using 3(4-6) lead_of_mod cont_mod by simp
    with v(1) have "encodedBytes r = [a, b]"
      using v(2) 3(8) by (cases rule: encodedBytes_cases) (auto simp: word_uint_eq_iff)
    then show ?case using 3 v by simp
  next
    case (4 a b c q)
    have v: "ValidRune r" "r < 0x10000" using 4 join_bounds(3) [of a b c] by (auto simp: ValidRune_iff)
    have "[uint a, uint b, uint c] = [0xE0 + r div 4096, 0x80 + r div 64 mod 64, 0x80 + r mod 64]"
      unfolding 4(8) join_digits using 4(4-7) lead_of_mod cont_mod by simp
    with v(1) have "encodedBytes r = [a, b, c]"
      using v(2) 4(9) by (cases rule: encodedBytes_cases) (auto simp: word_uint_eq_iff)
    then show ?case using 4 v by simp
  next
    case (5 a b c d q)
    have v: "ValidRune r" using 5 by (auto simp: ValidRune_iff)
    have "[uint a, uint b, uint c, uint d] = [0xF0 + r div 262144, 0x80 + r div 4096 mod 64, 0x80 + r div 64 mod 64, 0x80 + r mod 64]"
      unfolding 5(9) join_digits using 5(4-8) lead_of_mod cont_mod by simp
    then have "map uint (encodedBytes r) = map uint [a, b, c, d]"
      unfolding encodedBytes4 [OF v 5(10)] by simp
    then have "encodedBytes r = [a, b, c, d]" by (rule map_uint_inject)
    then show ?case using 5 v by simp
qed

text \<open>A rune that has no encoding is stored as the error rune.\<close>

lemma encodedBytes_invalid:
  assumes "- (2 ^ 31) \<le> r" "r < 2 ^ 31" "\<not> ValidRune r"
  shows "encodedBytes r = encodedBytes RuneError"
proof -
  have "r mod 2 ^ 32 = (if r < 0 then r + 2 ^ 32 else r)"
    using assms(1,2) mod_pos_pos_trivial [of r "2 ^ 32"] mod_pos_pos_trivial [of "r + 2 ^ 32" "2 ^ 32"] by auto
  then show ?thesis using assms by (auto simp: ValidRune_iff encodedBytes_def Let_def rune_consts)
qed

end
