(* ===== verification/Go_Runes.thy ===== *)
theory Go_Runes
  imports Go_Utf8
begin

text \<open>
  The runtime's UTF-8 routines (src/runtime/rune.go, src/runtime/string.go): what the compiler
  calls for \<open>for range\<close> over a string and for the conversions between strings, rune slices and
  integers; and the two functions of package unicode/utf8 that are such loops. The theory also
  relates both decoders to the abstract splitting of a byte string into runes.
  Memory handed out by the allocator without clearing is a parameter (\<open>mem\<close>, \<open>rmem\<close>); allocation
  itself is taken to succeed.
\<close>

unbundle bit_operations_syntax

section \<open>src/runtime/rune.go\<close>

definition testx :: byte where "testx = 0xC0"
definition rune4Max :: rune where "rune4Max = 2 ^ 21 - 1"

definition charntorune :: "gostring \<Rightarrow> rune \<times> nat" where
  "charntorune s =
     (if length s \<le> 0 then (RuneError, 1)
      else let c = s ! 0 in
      if c < tx then (uint c, 1)
      else if length s \<le> 1 then (RuneError, 1)
      else let c1 = s ! 1 XOR tx in
      if c1 AND testx \<noteq> 0 then (RuneError, 1)
      else if c < t3 then
        if c < t2 then (RuneError, 1)
        else let l = (push_bit 6 (uint c) OR uint c1) AND rune2Max in
          if l \<le> rune1Max then (RuneError, 1) else (l, 2)
      else if length s \<le> 2 then (RuneError, 1)
      else let c2 = s ! 2 XOR tx in
      if c2 AND testx \<noteq> 0 then (RuneError, 1)
      else if c < t4 then
        (let l = (push_bit 6 (push_bit 6 (uint c) OR uint c1) OR uint c2) AND rune3Max in
         if l \<le> rune2Max then (RuneError, 1)
         else if surrogateMin \<le> l \<and> l \<le> surrogateMax then (RuneError, 1)
         else (l, 3))
      else if length s \<le> 3 then (RuneError, 1)
      else let c3 = s ! 3 XOR tx in
      if c3 AND testx \<noteq> 0 then (RuneError, 1)
      else if c < t5 then
        (let l = (push_bit 6 (push_bit 6 (push_bit 6 (uint c) OR uint c1) OR uint c2) OR uint c3) AND rune4Max in
         if l \<le> rune3Max \<or> l > MaxRune then (RuneError, 1) else (l, 4))
      else (RuneError, 1))"

text \<open>The bytes that \<open>runetochar\<close> stores, computed on \<open>c = uint32(r)\<close>.\<close>

definition runetocharBytes :: "rune \<Rightarrow> byte list" where
  "runetocharBytes r =
     (let c = word_of_int r :: 32 word in
      if c \<le> 0x7F then [ucast c]
      else if c \<le> 0x7FF then [ucast (0xC0 OR drop_bit 6 c), ucast (0x80 OR (c AND 0x3F))]
      else let c = (if c > 0x10FFFF then 0xFFFD else c);
               c = (if 0xD800 \<le> c \<and> c \<le> 0xDFFF then 0xFFFD else c) in
      if c \<le> 0xFFFF then
        [ucast (0xE0 OR drop_bit 12 c), ucast (0x80 OR (drop_bit 6 c AND 0x3F)), ucast (0x80 OR (c AND 0x3F))]
      else
        [ucast (0xF0 OR drop_bit 18 c), ucast (0x80 OR (drop_bit 12 c AND 0x3F)),
         ucast (0x80 OR (drop_bit 6 c AND 0x3F)), ucast (0x80 OR (c AND 0x3F))])"

definition runetochar :: "byte list \<Rightarrow> rune \<Rightarrow> panic + (byte list \<times> nat)" where
  "runetochar str r =
     (case put_all 0 (runetocharBytes r) str of
        Inl e \<Rightarrow> Inl e | Inr str' \<Rightarrow> Inr (str', length (runetocharBytes r)))"

section \<open>src/runtime/string.go\<close>

definition stringiter :: "gostring \<Rightarrow> nat \<Rightarrow> nat" where
  "stringiter s k =
     (if k \<ge> length s then 0
      else let c = s ! k in
      if c < RuneSelf then k + 1
      else k + snd (charntorune (drop k s)))"

definition stringiter2 :: "gostring \<Rightarrow> nat \<Rightarrow> nat \<times> rune" where
  "stringiter2 s k =
     (if k \<ge> length s then (0, 0)
      else let c = s ! k in
      if c < RuneSelf then (k + 1, uint c)
      else case charntorune (drop k s) of (r, n) \<Rightarrow> (k + n, r))"

lemma charntorune_size: "1 \<le> snd (charntorune s)"
  by (auto simp: charntorune_def Let_def)

lemma stringiter_progress: "stringiter s k \<noteq> 0 \<Longrightarrow> k < length s \<and> k < stringiter s k"
  using charntorune_size [of "drop k s"] by (auto simp: stringiter_def Let_def split: if_splits)

lemma stringiter2_progress: "fst (stringiter2 s k) \<noteq> 0 \<Longrightarrow> k < length s \<and> k < fst (stringiter2 s k)"
  using charntorune_size [of "drop k s"]
  by (auto simp: stringiter2_def Let_def split: if_splits prod.splits)

text \<open>\<open>stringtoslicerune\<close>: a first pass counts, a second one stores.\<close>

function countRunes :: "gostring \<Rightarrow> nat \<Rightarrow> nat" where
  "countRunes s n = (if length s > 0 then countRunes (drop (snd (charntorune s)) s) (n + 1) else n)"
  by pat_completeness auto
termination
proof (relation "measure (\<lambda>(s, n). length s)", goal_cases)
  case (2 s n)
  then show ?case using charntorune_size [of s] by auto
qed simp

function storeRunes :: "gostring \<Rightarrow> nat \<Rightarrow> rune list \<Rightarrow> panic + rune list" where
  "storeRunes t n a =
     (if length t > 0 then
        case charntorune t of (r, k) \<Rightarrow>
          if n < length a then storeRunes (drop k t) (n + 1) (a[n := r]) else Inl IndexOutOfRange
      else Inr a)"
  by pat_completeness auto
termination
proof (relation "measure (\<lambda>(t, n, a). length t)", goal_cases)
  case (2 t n a r k)
  then show ?case using charntorune_size [of t] by (cases "charntorune t") auto
qed simp

definition rawruneslice :: "(nat \<Rightarrow> rune) \<Rightarrow> nat \<Rightarrow> rune list" where
  "rawruneslice rmem n = map rmem [0..<n]"

definition stringtoslicerune :: "(nat \<Rightarrow> rune) \<Rightarrow> rune list option \<Rightarrow> gostring \<Rightarrow> panic + rune list" where
  "stringtoslicerune rmem buf s =
     (let n = countRunes s 0;
          a = (case buf of Some b \<Rightarrow> if n \<le> length b then take n b else rawruneslice rmem n | None \<Rightarrow> rawruneslice rmem n)
      in storeRunes s 0 a)"

definition rawstring :: "(nat \<Rightarrow> byte) \<Rightarrow> nat \<Rightarrow> byte list" where
  "rawstring mem l = map mem [0..<l]"

definition rawstringtmp :: "(nat \<Rightarrow> byte) \<Rightarrow> byte list option \<Rightarrow> nat \<Rightarrow> byte list" where
  "rawstringtmp mem buf l =
     (case buf of Some b \<Rightarrow> if l \<le> length b then take l b else rawstring mem l | None \<Rightarrow> rawstring mem l)"

fun runeSizes :: "byte list \<Rightarrow> rune list \<Rightarrow> nat \<Rightarrow> panic + nat" where
  "runeSizes dum [] size1 = Inr size1"
| "runeSizes dum (r # a) size1 =
     (case runetochar dum r of Inl e \<Rightarrow> Inl e | Inr (dum, n) \<Rightarrow> runeSizes dum a (size1 + n))"

text \<open>\<open>runetochar(b[size2:], r)\<close> writes into the tail of \<open>b\<close>.\<close>

fun storeChars :: "nat \<Rightarrow> rune list \<Rightarrow> byte list \<Rightarrow> nat \<Rightarrow> panic + (byte list \<times> nat)" where
  "storeChars size1 [] b size2 = Inr (b, size2)"
| "storeChars size1 (r # a) b size2 =
     (if size2 \<ge> size1 then Inr (b, size2)
      else if size2 > length b then Inl SliceOutOfRange
      else case runetochar (drop size2 b) r of
          Inl e \<Rightarrow> Inl e
        | Inr (tl', n) \<Rightarrow> storeChars size1 a (take size2 b @ tl') (size2 + n))"

definition slicerunetostring :: "(nat \<Rightarrow> byte) \<Rightarrow> byte list option \<Rightarrow> rune list \<Rightarrow> panic + gostring" where
  "slicerunetostring mem buf a =
     (case runeSizes [0, 0, 0, 0] a 0 of
        Inl e \<Rightarrow> Inl e
      | Inr size1 \<Rightarrow>
          (case storeChars size1 a (rawstringtmp mem buf (size1 + 3)) 0 of
             Inl e \<Rightarrow> Inl e
           | Inr (b, size2) \<Rightarrow> Inr (take size2 b)))"

text \<open>\<open>string(v)\<close> for an integer: \<open>rune(v)\<close> truncates the \<open>int64\<close> to an \<open>int32\<close>.\<close>

definition intstring :: "(nat \<Rightarrow> byte) \<Rightarrow> byte list option \<Rightarrow> 64 word \<Rightarrow> panic + gostring" where
  "intstring mem buf v =
     (let b = (case buf of Some b \<Rightarrow> b | None \<Rightarrow> rawstring mem 4) in
      case runetochar b (sint (ucast v :: 32 word)) of
        Inl e \<Rightarrow> Inl e | Inr (b, n) \<Rightarrow> Inr (take n b))"

definition slicebytetostring :: "(nat \<Rightarrow> byte) \<Rightarrow> byte list option \<Rightarrow> byte list \<Rightarrow> gostring" where
  "slicebytetostring mem buf b =
     (let l = length b in
      if l = 0 then []
      else let c = rawstringtmp mem buf l in take l b @ drop l c)"

section \<open>Package unicode/utf8: the loops over strings\<close>

function RuneCountInString_loop :: "gostring \<Rightarrow> nat \<Rightarrow> nat \<Rightarrow> nat" where
  "RuneCountInString_loop s k n =
     (let k' = stringiter s k in if k' = 0 then n else RuneCountInString_loop s k' (n + 1))"
  by pat_completeness auto
termination
proof (relation "measure (\<lambda>(s, k, n). length s - k)", goal_cases)
  case (2 s k n k')
  then show ?case using stringiter_progress [of s k] by auto
qed simp

definition RuneCountInString :: "gostring \<Rightarrow> nat" where
  "RuneCountInString s = RuneCountInString_loop s 0 0"

function ValidString_loop :: "gostring \<Rightarrow> nat \<Rightarrow> bool" where
  "ValidString_loop s k =
     (case stringiter2 s k of (k', r) \<Rightarrow>
        if k' = 0 then True
        else if r = RuneError \<and> snd (DecodeRuneInString (drop k s)) = 1 then False
        else ValidString_loop s k')"
  by pat_completeness auto
termination
proof (relation "measure (\<lambda>(s, k). length s - k)", goal_cases)
  case (2 s k k' r)
  then show ?case using stringiter2_progress [of s k] by (cases "stringiter2 s k") auto
qed simp

definition ValidString :: "gostring \<Rightarrow> bool" where
  "ValidString s = ValidString_loop s 0"

declare countRunes.simps [simp del] storeRunes.simps [simp del] RuneCountInString_loop.simps [simp del]
  ValidString_loop.simps [simp del]


section \<open>The runtime decoder is the decoder of unicode/utf8\<close>

lemma byte_eqI:
  fixes x y :: byte
  assumes "bit x 0 = bit y 0" "bit x 1 = bit y 1" "bit x 2 = bit y 2" "bit x 3 = bit y 3"
    "bit x 4 = bit y 4" "bit x 5 = bit y 5" "bit x 6 = bit y 6" "bit x 7 = bit y 7"
  shows "x = y"
proof (rule bit_word_eqI)
  fix n assume "n < LENGTH(8)"
  then have "n \<in> {0, 1, 2, 3, 4, 5, 6, 7}" by auto
  then show "bit x n = bit y n" using assms by auto
qed

lemma and_C0: "b AND 0xC0 = push_bit 6 (drop_bit 6 b)" for b :: byte
  by (rule byte_eqI) (simp_all add: bit_simps)

lemma xor_testx: "(b XOR tx) AND testx = 0 \<longleftrightarrow> b AND 0xC0 = 0x80" for b :: byte
proof -
  have "(b XOR tx) AND testx = (b AND 0xC0) XOR 0x80"
    by (rule byte_eqI) (simp_all add: bit_simps tx_def testx_def)
  moreover have "x = y" if "x XOR y = 0" for x y :: byte
  proof -
    have "(x XOR y) XOR y = y" using that by simp
    then show ?thesis by (simp add: xor.assoc)
  qed
  ultimately show ?thesis by auto
qed

lemma uint_and_C0: "uint (b AND 0xC0 :: byte) = uint b div 64 * 64"
proof -
  have "uint b div 64 * 64 \<le> uint b" "uint b < 256" "0 \<le> uint b div 64 * 64"
    using uint_lt2p [of b] by (auto simp: pos_imp_zdiv_nonneg_iff)
  then have "uint b div 64 * 64 mod 256 = uint b div 64 * 64" by (intro mod_pos_pos_trivial) linarith+
  moreover have "uint b mod 256 = uint b" using uint_lt2p [of b] by (simp add: mod_pos_pos_trivial)
  ultimately show ?thesis unfolding and_C0 unsigned_push_bit_eq unsigned_drop_bit_eq
    by (simp add: push_bit_eq_mult drop_bit_eq_div take_bit_eq_mod)
qed

lemma and_C0_cont: "b AND 0xC0 = 0x80 \<longleftrightarrow> cont b" for b :: byte
proof -
  have "b AND 0xC0 = 0x80 \<longleftrightarrow> uint b div 64 * 64 = 128" unfolding word_uint_eq_iff uint_and_C0 by simp
  also have "\<dots> \<longleftrightarrow> cont b" unfolding cont_def by presburger
  finally show ?thesis .
qed

lemma RuneStart_cont: "RuneStart b \<longleftrightarrow> \<not> cont b"
  by (simp add: RuneStart_def and_C0_cont)

lemma xor_testx_cont: "(b XOR tx) AND testx \<noteq> 0 \<longleftrightarrow> b < tx \<or> t2 \<le> b"
  by (auto simp: xor_testx and_C0_cont cont_def byte_cmp)

lemma uint_xor_tx:
  assumes "\<not> (b < tx \<or> t2 \<le> b)"
  shows "uint (b XOR tx) = uint b mod 64"
proof -
  have "b AND 0xC0 = 0x80" using assms by (simp add: and_C0_cont cont_def byte_cmp)
  then have top: "bit (b AND 0xC0) n = bit (0x80 :: byte) n" for n by (rule arg_cong)
  have "b XOR tx = b AND maskx"
    using top [of 6] top [of 7] by (intro byte_eqI) (simp_all add: bit_simps tx_def maskx_def)
  then show ?thesis by (simp add: uint_low_bits)
qed

lemma rune_masks: "rune2Max = mask 11" "rune3Max = mask 16" "rune4Max = mask 21"
  by (simp_all add: rune2Max_def rune3Max_def rune4Max_def mask_eq_exp_minus_1)

lemma mod_digits:
  fixes x y :: int
  assumes "0 \<le> y" "y < b" "0 \<le> c"
  shows "(x * b + y) mod (b * c) = x mod c * b + y"
proof -
  have "(x * b + y) mod (b * c) = b * ((x * b + y) div b mod c) + (x * b + y) mod b"
    using assms by (intro zmod_zmult2_eq) linarith
  then show ?thesis using assms by simp
qed

lemma runtime_join:
  assumes "x = uint b mod 64" "y = uint c mod 64" "z = uint d mod 64"
  shows "(push_bit 6 (uint a) OR x) AND rune2Max = join2 a b"
    "(push_bit 6 (push_bit 6 (uint a) OR x) OR y) AND rune3Max = join3 a b c"
    "(push_bit 6 (push_bit 6 (push_bit 6 (uint a) OR x) OR y) OR z) AND rune4Max = join4 a b c d"
proof -
  have or64: "push_bit 6 v OR w mod 64 = v * 64 + w mod 64" for v w :: int
    using push_bit_or [of "w mod 64" 6 v] by simp
  have r: "0 \<le> x" "x < 64" "0 \<le> y" "y < 64" "0 \<le> z" "z < 64" by (simp_all add: assms)
  note or' = or64 [of _ "uint b", folded assms(1)] or64 [of _ "uint c", folded assms(2)] or64 [of _ "uint d", folded assms(3)]
  have "(uint a * 64 + x) mod 2048 = uint a mod 32 * 64 + x"
    using mod_digits [where x = "uint a" and y = x and b = 64 and c = 32] r by simp
  then show "(push_bit 6 (uint a) OR x) AND rune2Max = join2 a b"
    by (simp add: or' rune_masks take_bit_eq_mask [symmetric] take_bit_eq_mod join_arith assms(1) [symmetric])
  have "(uint a * 4096 + (x * 64 + y)) mod 65536 = uint a mod 16 * 4096 + (x * 64 + y)"
    using mod_digits [where x = "uint a" and y = "x * 64 + y" and b = 4096 and c = 16] r by simp
  then show "(push_bit 6 (push_bit 6 (uint a) OR x) OR y) AND rune3Max = join3 a b c"
    by (simp add: or' rune_masks take_bit_eq_mask [symmetric] take_bit_eq_mod join_arith assms(1) [symmetric] assms(2) [symmetric] algebra_simps)
  have "(uint a * 262144 + (x * 4096 + y * 64 + z)) mod 2097152 = uint a mod 8 * 262144 + (x * 4096 + y * 64 + z)"
    using mod_digits [where x = "uint a" and y = "x * 4096 + y * 64 + z" and b = 262144 and c = 8] r by simp
  then show "(push_bit 6 (push_bit 6 (push_bit 6 (uint a) OR x) OR y) OR z) AND rune4Max = join4 a b c d"
    by (simp add: or' rune_masks take_bit_eq_mask [symmetric] take_bit_eq_mod join_arith assms(1) [symmetric] assms(2) [symmetric] assms(3) [symmetric] algebra_simps)
qed


lemmas runtime_joins = runtime_join [OF uint_xor_tx uint_xor_tx uint_xor_tx]

lemma charntorune_decode: "charntorune s = (if s = [] then (RuneError, 1) else DecodeRune s)"
proof -
  note unf = charntorune_def DecodeRune_def decodeRuneInternal_def Let_def xor_testx_cont
  consider "length s \<le> 0" | "\<not> length s \<le> 0" "s ! 0 < tx" | "\<not> length s \<le> 0" "\<not> s ! 0 < tx" "length s \<le> 1"
    | (2) "\<not> s ! 0 < tx" "\<not> length s \<le> 1"
    by linarith
  then show ?thesis
  proof cases
    case 2
    note a = 2
    show ?thesis
    proof (cases "s ! 1 < tx \<or> t2 \<le> s ! 1")
      case True
      then show ?thesis using a by (auto simp: unf)
    next
      case b: False
      note j = runtime_joins [OF b b b]
      consider "s ! 0 < t3" | "\<not> s ! 0 < t3" "length s \<le> 2" | (3) "\<not> s ! 0 < t3" "\<not> length s \<le> 2" by linarith
      then show ?thesis
      proof cases
        case 3
        have lead: "\<not> s ! 0 < t2" using 3(1) by (simp add: byte_cmp)
        show ?thesis
        proof (cases "s ! 2 < tx \<or> t2 \<le> s ! 2")
          case True
          then show ?thesis using a b 3 lead by (auto simp: unf)
        next
          case c: False
          note j = runtime_joins [OF b c c]
          consider "s ! 0 < t4" | "\<not> s ! 0 < t4" "length s \<le> 3" | (4) "\<not> s ! 0 < t4" "\<not> length s \<le> 3" by linarith
          then show ?thesis
          proof cases
            case 4
            show ?thesis
            proof (cases "s ! 3 < tx \<or> t2 \<le> s ! 3")
              case True
              then show ?thesis using a b c 3 4 lead by (auto simp: unf)
            next
              case d: False
              show ?thesis using a b c d 3 4 lead runtime_joins [OF b c d] by (auto simp: unf)
            qed
          qed (use a b c 3 j lead in \<open>auto simp: unf\<close>)
        qed
      qed (use a b j in \<open>auto simp: unf\<close>)
    qed
  qed (auto simp: unf)
qed

section \<open>The runtime encoder is the encoder of unicode/utf8\<close>

lemma ucast_drop: "n \<le> 24 \<Longrightarrow> ucast (drop_bit n (word_of_int r :: 32 word)) = (word_of_int (drop_bit n r) :: byte)"
  by (rule bit_word_eqI) (auto simp: bit_simps)

lemma ucast_drop0: "ucast (word_of_int r :: 32 word) = (word_of_int r :: byte)"
  using ucast_drop [of 0 r] by simp

lemma ucast_lead:
  "ucast (0xC0 OR c :: 32 word) = t2 OR (ucast c :: byte)" "ucast (0xE0 OR c :: 32 word) = t3 OR (ucast c :: byte)"
  "ucast (0xF0 OR c :: 32 word) = t4 OR (ucast c :: byte)"
  "ucast (0x80 OR (c AND 0x3F) :: 32 word) = tx OR (ucast c AND maskx :: byte)"
  by (simp_all add: unsigned_or_eq unsigned_and_eq t2_def t3_def t4_def tx_def maskx_def)

lemmas ucast_store = ucast_lead ucast_drop ucast_drop0

lemma runetocharBytes_eq: "runetocharBytes r = encodedBytes r"
proof -
  let ?c = "word_of_int r :: 32 word"
  have u: "uint ?c = r mod 2 ^ 32" by (simp add: uint_word_of_int)
  have cmp: "?c \<le> 0x7F \<longleftrightarrow> r mod 2 ^ 32 \<le> rune1Max" "?c \<le> 0x7FF \<longleftrightarrow> r mod 2 ^ 32 \<le> rune2Max"
    "?c > 0x10FFFF \<longleftrightarrow> r mod 2 ^ 32 > MaxRune" "0xD800 \<le> ?c \<longleftrightarrow> surrogateMin \<le> r mod 2 ^ 32"
    "?c \<le> 0xDFFF \<longleftrightarrow> r mod 2 ^ 32 \<le> surrogateMax"
    "?c \<le> 0xFFFF \<longleftrightarrow> r mod 2 ^ 32 \<le> rune3Max"
    unfolding word_le_def word_less_def u by (simp_all add: rune_consts)
  have bad: "encode3 RuneError = [0xEF, 0xBF, 0xBD]"
    by (simp add: encode3_def RuneError_def t3_def tx_def maskx_def drop_bit_int_code)
  consider (big) "r mod 2 ^ 32 > MaxRune" | (surr) "\<not> r mod 2 ^ 32 > MaxRune" "surrogateMin \<le> r mod 2 ^ 32" "r mod 2 ^ 32 \<le> surrogateMax"
    | (ok) "\<not> r mod 2 ^ 32 > MaxRune" "\<not> (surrogateMin \<le> r mod 2 ^ 32 \<and> r mod 2 ^ 32 \<le> surrogateMax)"
    by blast
  then show ?thesis
  proof cases
    case big
    then have "\<not> r mod 2 ^ 32 \<le> rune1Max" "\<not> r mod 2 ^ 32 \<le> rune2Max" by (auto simp: rune_consts)
    with big show ?thesis unfolding runetocharBytes_def encodedBytes_def Let_def cmp bad
      by (simp add: drop_bit_eq_div)
  next
    case surr
    then have "\<not> r mod 2 ^ 32 \<le> rune1Max" "\<not> r mod 2 ^ 32 \<le> rune2Max" by (auto simp: rune_consts)
    with surr show ?thesis unfolding runetocharBytes_def encodedBytes_def Let_def cmp bad
      by (simp add: cmp drop_bit_eq_div)
  next
    case ok
    then show ?thesis unfolding runetocharBytes_def encodedBytes_def Let_def
      by (simp add: cmp ucast_store encode2_def encode3_def encode4_def) blast
  qed
qed

section \<open>Splitting a byte string into runes\<close>

text \<open>The specification: a byte string is a sequence of pieces, each the encoding of a valid rune
  or a single undecodable byte, which counts as \<open>RuneError\<close>.\<close>

function runes :: "byte list \<Rightarrow> (rune \<times> byte list) list" where
  "runes p = (if p = [] then [] else case DecodeRune p of (r, n) \<Rightarrow> (r, take n p) # runes (drop n p))"
  by pat_completeness auto
termination
proof (relation "measure length", goal_cases)
  case (2 p r n)
  then show ?case using DecodeRune_size [of p] by (cases "DecodeRune p") auto
qed simp

declare runes.simps [simp del]

lemma runes_Nil [simp]: "runes [] = []"
  by (simp add: runes.simps)

lemma runes_step: "p \<noteq> [] \<Longrightarrow> runes p = (fst (DecodeRune p), take (snd (DecodeRune p)) p) # runes (drop (snd (DecodeRune p)) p)"
  by (subst runes.simps) (simp split: prod.split)

lemma runes_concat: "concat (map snd (runes p)) = p"
proof (induction p rule: runes.induct)
  case (1 p)
  show ?case
  proof (cases "p = []")
    case False
    then have "concat (map snd (runes (drop (snd (DecodeRune p)) p))) = drop (snd (DecodeRune p)) p"
      using 1 by (metis prod.collapse)
    then show ?thesis using False by (simp add: runes_step)
  qed simp
qed

lemma DecodeRune_encodedBytes: "ValidRune r \<Longrightarrow> DecodeRune (encodedBytes r @ q) = (r, length (encodedBytes r))"
  by (simp add: DecodeRune_def decode_encodedBytes)

lemma runes_encoded:
  "ValidRune r \<Longrightarrow> runes (encodedBytes r @ q) = (r, encodedBytes r) # runes q"
  using encodedBytes_nonempty [of r] by (simp add: runes_step DecodeRune_encodedBytes)

lemma runes_encode_all:
  "\<forall>r \<in> set rs. ValidRune r \<Longrightarrow> runes (concat (map encodedBytes rs)) = map (\<lambda>r. (r, encodedBytes r)) rs"
  by (induction rs) (simp_all add: runes_encoded)

lemma DecodeRune_cases:
  assumes "p \<noteq> []"
  obtains (bad) "DecodeRune p = (RuneError, 1)"
    | (good) r where "ValidRune r" "DecodeRune p = (r, length (encodedBytes r))" "take (length (encodedBytes r)) p = encodedBytes r"
proof (cases "decodeRuneInternal p")
  case (fields r n e)
  then show ?thesis using encode_decoded [OF fields assms] bad good [of r]
    by (cases "r = RuneError \<and> n = 1") (auto simp: DecodeRune_def)
qed

lemma ascii_decode:
  assumes "p \<noteq> []" "p ! 0 < RuneSelf"
  shows "DecodeRune p = (uint (p ! 0), 1)"
  using assms by (cases p) (auto simp: DecodeRune_def decode_branch1 byte_cmp)

lemma ascii_valid: "c < RuneSelf \<Longrightarrow> ValidRune (uint c) \<and> encodedBytes (uint c) = [c]"
proof -
  assume "c < RuneSelf"
  then have "uint c < 0x80" by (simp add: byte_cmp)
  moreover have "0 \<le> uint c" by simp
  ultimately show ?thesis by (simp add: ValidRune_iff encodedBytes_def rune_consts)
qed

text \<open>Every loop of the two packages visits the pieces in order.\<close>

lemma RuneCount_loop_runes: "RuneCount_loop p i n = n + length (runes (drop i p))"
proof (induction p i n rule: RuneCount_loop.induct)
  case (1 p i n)
  show ?case
  proof (cases "i < length p")
    case i: True
    then have "DecodeRune (drop i p) = (uint (p ! i), 1)" if "p ! i < RuneSelf"
      using that ascii_decode [of "drop i p"] by simp
    then show ?thesis using 1 i by (subst RuneCount_loop.simps) (auto simp: runes_step [of "drop i p"] add.commute)
  qed (simp add: RuneCount_loop.simps)
qed

lemma RuneCount_runes: "RuneCount p = length (runes p)"
  by (simp add: RuneCount_def RuneCount_loop_runes)

lemma countRunes_runes: "countRunes s n = n + length (runes s)"
proof (induction s n rule: countRunes.induct)
  case (1 s n)
  then show ?case
    by (cases "s = []") (simp_all add: countRunes.simps [of s] countRunes.simps [of "[]"] charntorune_decode runes_step [of s])
qed

lemma decodeRuneInStringInternal_eq: "decodeRuneInStringInternal = decodeRuneInternal"
  by (rule ext) (simp only: decodeRuneInStringInternal_def decodeRuneInternal_def)

lemma DecodeRuneInString_eq: "DecodeRuneInString = DecodeRune"
  by (rule ext) (simp only: DecodeRuneInString_def DecodeRune_def decodeRuneInStringInternal_eq)

lemma stringiter2_eq:
  "stringiter2 s k = (if k < length s then (k + snd (DecodeRune (drop k s)), fst (DecodeRune (drop k s))) else (0, 0))"
  using ascii_decode [of "drop k s"]
  by (auto simp: stringiter2_def Let_def charntorune_decode split: prod.split)

lemma stringiter_eq: "stringiter s k = fst (stringiter2 s k)"
  by (auto simp: stringiter_def stringiter2_def Let_def split: prod.split)

lemma RuneCountInString_loop_runes: "RuneCountInString_loop s k n = n + length (runes (drop k s))"
proof (induction s k n rule: RuneCountInString_loop.induct)
  case (1 s k n)
  then show ?case
    using DecodeRune_size [of "drop k s"]
    by (cases "k < length s")
      (simp_all add: RuneCountInString_loop.simps [of s k] stringiter_eq stringiter2_eq runes_step [of "drop k s"] add.commute)
qed

definition valid_piece :: "rune \<times> byte list \<Rightarrow> bool" where
  "valid_piece x \<longleftrightarrow> ValidRune (fst x) \<and> snd x = encodedBytes (fst x)"

lemma RuneError_valid: "ValidRune RuneError" "length (encodedBytes RuneError) = 3"
  by (simp_all add: ValidRune_iff encodedBytes_def encode3_def rune_consts)

lemma valid_piece_decode:
  assumes "p \<noteq> []"
  shows "valid_piece (fst (DecodeRune p), take (snd (DecodeRune p)) p) \<longleftrightarrow>
    \<not> (fst (DecodeRune p) = RuneError \<and> snd (DecodeRune p) = 1)"
  using assms
proof (cases rule: DecodeRune_cases)
  case bad
  have "length (take 1 p) \<noteq> length (encodedBytes RuneError)" using RuneError_valid by simp
  then have "take 1 p \<noteq> encodedBytes RuneError" by metis
  then show ?thesis using bad by (simp add: valid_piece_def)
next
  case (good r)
  then have "r \<noteq> RuneError \<or> length (encodedBytes r) \<noteq> 1" using RuneError_valid by auto
  then show ?thesis using good by (simp add: valid_piece_def)
qed

lemma short_encoding_ascii:
  "ValidRune r \<Longrightarrow> length (encodedBytes r) = 1 \<Longrightarrow> hd (encodedBytes r) < RuneSelf"
  by (elim encodedBytes_cases) (auto simp: byte_cmp)

lemma valid_piece_size:
  assumes "p \<noteq> []" "\<not> p ! 0 < RuneSelf"
  shows "valid_piece (fst (DecodeRune p), take (snd (DecodeRune p)) p) \<longleftrightarrow> snd (DecodeRune p) \<noteq> 1"
  using assms(1)
proof (cases rule: DecodeRune_cases)
  case bad
  then show ?thesis using valid_piece_decode [OF assms(1)] by simp
next
  case (good r)
  have "length (encodedBytes r) \<noteq> 1"
  proof
    assume 1: "length (encodedBytes r) = 1"
    then have "hd (encodedBytes r) < RuneSelf" using good by (intro short_encoding_ascii)
    moreover have "encodedBytes r = [p ! 0]" using good(3) 1 assms(1) by (cases p) auto
    ultimately show False using assms(2) by simp
  qed
  then show ?thesis using good by (simp add: valid_piece_def)
qed

lemma Valid_loop_runes: "Valid_loop p i \<longleftrightarrow> list_all valid_piece (runes (drop i p))"
proof (induction p i rule: Valid_loop.induct)
  case (1 p i)
  show ?case
  proof (cases "i < length p")
    case i: True
    then have ne: "drop i p \<noteq> []" by simp
    show ?thesis
    proof (cases "p ! i < RuneSelf")
      case True
      then have d: "DecodeRune (drop i p) = (uint (p ! i), 1)" using ascii_decode [OF ne] i by simp
      have "take 1 (drop i p) = [p ! i]" using i by (metis Cons_nth_drop_Suc One_nat_def take0 take_Suc_Cons)
      then have "valid_piece (uint (p ! i), take 1 (drop i p))"
        using ascii_valid [OF True] by (simp add: valid_piece_def)
      then show ?thesis using 1(1) i True d by (simp add: Valid_loop.simps [of p i] runes_step [OF ne])
    next
      case False
      then show ?thesis using 1(2) i valid_piece_size [OF ne]
        by (auto simp: Valid_loop.simps [of p i] Let_def runes_step [OF ne] add.commute)
    qed
  qed (simp add: Valid_loop.simps)
qed

lemma ValidString_loop_runes: "ValidString_loop s k \<longleftrightarrow> list_all valid_piece (runes (drop k s))"
proof (induction s k rule: ValidString_loop.induct)
  case (1 s k)
  show ?case
  proof (cases "k < length s")
    case k: True
    then have ne: "drop k s \<noteq> []" by simp
    have "k + snd (DecodeRune (drop k s)) \<noteq> 0" using DecodeRune_size [OF ne] by simp
    then show ?thesis using 1 k valid_piece_decode [OF ne]
      by (auto simp: ValidString_loop.simps [of s k] stringiter2_eq DecodeRuneInString_eq runes_step [OF ne] add.commute)
  qed (simp add: ValidString_loop.simps stringiter2_eq)
qed

lemma list_all_valid_piece:
  "list_all valid_piece (runes p) \<longleftrightarrow> (\<exists>rs. (\<forall>r \<in> set rs. ValidRune r) \<and> p = concat (map encodedBytes rs))"
proof
  assume "list_all valid_piece (runes p)"
  then have v: "valid_piece x" if "x \<in> set (runes p)" for x using that by (simp add: list_all_iff)
  have "p = concat (map snd (runes p))" by (simp add: runes_concat)
  also have "map snd (runes p) = map encodedBytes (map fst (runes p))" using v by (auto simp: valid_piece_def)
  finally show "\<exists>rs. (\<forall>r \<in> set rs. ValidRune r) \<and> p = concat (map encodedBytes rs)"
    using v by (intro exI [of _ "map fst (runes p)"]) (auto simp: valid_piece_def)
qed (auto simp: runes_encode_all list_all_iff valid_piece_def)


section \<open>Stores\<close>

lemma put_all_eq:
  "put_all k bs p = (if k + length bs \<le> length p then Inr (take k p @ bs @ drop (k + length bs) p)
     else if bs = [] then Inr p else Inl IndexOutOfRange)"
proof (induction bs arbitrary: k p)
  case (Cons b bs)
  show ?case
  proof (cases "k < length p")
    case True
    then have "take (Suc k) (p[k := b]) = take k p @ [b]" "drop (Suc k + length bs) (p[k := b]) = drop (k + length (b # bs)) p"
      by (simp_all add: take_Suc_conv_app_nth upd_conv_take_nth_drop add.commute)
    then show ?thesis using True Cons [of "Suc k" "p[k := b]"] by (auto simp: put_def)
  qed (simp add: put_def)
qed simp

lemma encodedBytes_bounds: "1 \<le> length (encodedBytes r) \<and> length (encodedBytes r) \<le> 4"
  by (simp add: encodedBytes_def Let_def encode2_def encode3_def encode4_def)

lemma encodedBytes_ne [simp]: "encodedBytes r \<noteq> []"
  using encodedBytes_bounds [of r] by auto

lemma EncodeRune_eq:
  "EncodeRune p r = (if length (encodedBytes r) \<le> length p
     then Inr (encodedBytes r @ drop (length (encodedBytes r)) p, length (encodedBytes r)) else Inl IndexOutOfRange)"
  by (simp add: EncodeRune_def put_all_eq)

lemma runetochar_eq: "runetochar = EncodeRune"
  by (intro ext) (simp only: runetochar_def EncodeRune_def runetocharBytes_eq)

definition encodeAll :: "rune list \<Rightarrow> byte list" where
  "encodeAll rs = concat (map encodedBytes rs)"

lemma encodeAll_simps [simp]: "encodeAll [] = []" "encodeAll (r # rs) = encodedBytes r @ encodeAll rs"
  by (simp_all add: encodeAll_def)

lemma runeSizes_eq: "length dum = 4 \<Longrightarrow> runeSizes dum a n = Inr (n + length (encodeAll a))"
proof (induction a arbitrary: dum n)
  case (Cons r a)
  then show ?case using encodedBytes_bounds [of r] by (simp add: runetochar_eq EncodeRune_eq add.assoc)
qed simp

lemma storeChars_eq:
  "size2 + length (encodeAll a) = size1 \<Longrightarrow> size1 \<le> length b \<Longrightarrow>
   \<exists>b'. storeChars size1 a b size2 = Inr (b', size1) \<and> take size1 b' = take size2 b @ encodeAll a"
proof (induction a arbitrary: b size2)
  case (Cons r a)
  let ?e = "encodedBytes r"
  let ?b = "take size2 b @ ?e @ drop (size2 + length ?e) b"
  have "\<exists>b'. storeChars size1 a ?b (size2 + length ?e) = Inr (b', size1) \<and>
      take size1 b' = take (size2 + length ?e) ?b @ encodeAll a"
    using Cons.prems by (intro Cons.IH) auto
  moreover have "size2 < size1" using Cons.prems(1) encodedBytes_bounds [of r] by simp
  moreover have "drop (length ?e) (drop size2 b) = drop (size2 + length ?e) b" by (simp add: add.commute)
  ultimately show ?case using Cons.prems by (simp add: runetochar_eq EncodeRune_eq add.commute)
qed simp

lemma length_rawstringtmp [simp]: "length (rawstringtmp mem buf l) = l"
  by (simp add: rawstringtmp_def rawstring_def split: option.split)

lemma slicerunetostring_eq: "slicerunetostring mem buf a = Inr (encodeAll a)"
proof -
  obtain b' where "storeChars (length (encodeAll a)) a (rawstringtmp mem buf (length (encodeAll a) + 3)) 0
      = Inr (b', length (encodeAll a))" "take (length (encodeAll a)) b' = encodeAll a"
    using storeChars_eq [of 0 a "length (encodeAll a)" "rawstringtmp mem buf (length (encodeAll a) + 3)"] by auto
  then show ?thesis by (simp add: slicerunetostring_def runeSizes_eq)
qed

lemma storeRunes_eq:
  "n + length (runes t) = length a \<Longrightarrow> storeRunes t n a = Inr (take n a @ map fst (runes t))"
proof (induction t n a rule: storeRunes.induct)
  case (1 t n a)
  show ?case
  proof (cases "t = []")
    case False
    obtain r k where d: "DecodeRune t = (r, k)" by fastforce
    then have c: "charntorune t = (r, k)" using False by (simp add: charntorune_decode)
    have s: "runes t = (r, take k t) # runes (drop k t)" using False d by (simp add: runes_step)
    have n: "n < length a" using 1(2) s by simp
    then have "storeRunes (drop k t) (n + 1) (a[n := r]) = Inr (take (n + 1) (a[n := r]) @ map fst (runes (drop k t)))"
      using 1(1) [of r k] False c 1(2) s by simp
    moreover have "take (n + 1) (a[n := r]) = take n a @ [r]" using n by (simp add: take_Suc_conv_app_nth)
    ultimately show ?thesis using False c s n by (simp add: storeRunes.simps [of t])
  qed (use 1(2) in \<open>simp add: storeRunes.simps [of "[]"]\<close>)
qed

lemma stringtoslicerune_eq: "stringtoslicerune rmem buf s = Inr (map fst (runes s))"
  by (auto simp: stringtoslicerune_def countRunes_runes rawruneslice_def storeRunes_eq Let_def split: option.split)

lemma runes_encodeAll:
  "\<forall>r \<in> set rs. - (2 ^ 31) \<le> r \<and> r < 2 ^ 31 \<Longrightarrow>
   map fst (runes (encodeAll rs)) = map (\<lambda>r. if ValidRune r then r else RuneError) rs"
proof (induction rs)
  case (Cons r rs)
  have "encodedBytes r = encodedBytes (if ValidRune r then r else RuneError)"
    using Cons.prems encodedBytes_invalid by simp
  moreover have "ValidRune (if ValidRune r then r else RuneError)" using RuneError_valid by simp
  ultimately have "runes (encodedBytes r @ encodeAll rs)
      = (if ValidRune r then r else RuneError, encodedBytes r) # runes (encodeAll rs)"
    using runes_encoded by metis
  then show ?case using Cons by simp
qed simp

section \<open>Decoding from the end\<close>

lemma lastStart_spec:
  "0 \<le> lim \<Longrightarrow> lastStart p lim start \<le> start \<and>
   (lim - 1 \<le> start \<longrightarrow> lim - 1 \<le> lastStart p lim start) \<and>
   (lim \<le> lastStart p lim start \<longrightarrow> RuneStart (p ! nat (lastStart p lim start))) \<and>
   (\<forall>j. lastStart p lim start < j \<and> lim \<le> j \<and> j \<le> start \<longrightarrow> \<not> RuneStart (p ! nat j))"
proof (induction p lim start rule: lastStart.induct)
  case (1 p lim start)
  show ?case
  proof (cases "start \<ge> lim \<and> \<not> RuneStart (p ! nat start)")
    case True
    then have eq: "lastStart p lim start = lastStart p lim (start - 1)" using 1 by (simp add: lastStart.simps [of p lim start])
    note IH = 1(1) [OF _ _ 1(2)]
    have *: "\<not> RuneStart (p ! nat j)" if "lastStart p lim (start - 1) < j" "lim \<le> j" "j \<le> start" for j
      using that IH True 1(2) by (cases "j = start") auto
    show ?thesis unfolding eq using IH True 1(2) * by auto
  next
    case False
    then have "lastStart p lim start = start" using 1(2) by (auto simp: lastStart.simps [of p lim start])
    then show ?thesis using False by auto
  qed
qed

lemma encodedBytes_shape:
  assumes "ValidRune r"
  shows "\<exists>a bs. encodedBytes r = a # bs \<and> RuneStart a \<and> (\<forall>b \<in> set bs. \<not> RuneStart b)"
  using assms
proof (cases rule: encodedBytes_cases)
  case (one a)
  then show ?thesis by (simp add: RuneStart_cont cont_def)
next
  case (two a b)
  then have "0 \<le> r div 64" by (simp add: pos_imp_zdiv_nonneg_iff)
  then show ?thesis using two(3,4) contI [OF two(5)] by (simp add: RuneStart_cont cont_def)
next
  case (three a b c)
  then have "0 \<le> r div 4096" by (simp add: pos_imp_zdiv_nonneg_iff)
  then show ?thesis using three(4,5) contI [OF three(6)] contI [OF three(7)] by (simp add: RuneStart_cont cont_def)
next
  case (four a b c d)
  then have "0 \<le> r div 262144" by (simp add: pos_imp_zdiv_nonneg_iff)
  then show ?thesis using four(3,4) contI [OF four(5)] contI [OF four(6)] contI [OF four(7)]
    by (simp add: RuneStart_cont cont_def)
qed

lemma DecodeLastRune_unfold:
  assumes "p \<noteq> []" "\<not> uint (p ! nat (int (length p) - 1)) < uint RuneSelf"
    "s = lastStart p (if int (length p) - 4 < 0 then 0 else int (length p) - 4) (int (length p) - 2)"
  shows "DecodeLastRune p = (case DecodeRune (drop (nat s) p) of (r, sz) \<Rightarrow>
    if nat s + sz \<noteq> length p then (RuneError, 1) else (r, sz))"
proof -
  have "(if s < 0 then 0 else s) = int (nat s)" by simp
  moreover have "int (nat s) + int sz \<noteq> int (length p) \<longleftrightarrow> nat s + sz \<noteq> length p" for sz by linarith
  moreover have "int (length p) - 1 - 1 = int (length p) - 2" "int UTFMax = 4" by (simp_all add: UTFMax_def)
  ultimately show ?thesis using assms(1,2) unfolding DecodeLastRune_def Let_def
    by (simp only: assms(3) [symmetric] nat_int if_False) simp
qed

lemma DecodeLastRune_suffix:
  assumes v: "ValidRune r"
  shows "DecodeLastRune (q @ encodedBytes r) = (r, length (encodedBytes r))"
proof -
  obtain a bs where e: "encodedBytes r = a # bs" and a: "RuneStart a" and bs: "\<forall>b \<in> set bs. \<not> RuneStart b"
    using encodedBytes_shape [OF v] by blast
  let ?p = "q @ a # bs" and ?fin = "int (length q + 1 + length bs)"
  have len: "length bs \<le> 3" using encodedBytes_bounds [of r] e by simp
  have dec: "DecodeRune (a # bs) = (r, length bs + 1)" using DecodeRune_encodedBytes [OF v, of "[]"] e by simp
  show ?thesis
  proof (cases bs rule: rev_cases)
    case Nil
    then have 1: "length (encodedBytes r) = 1" using e by simp
    then have "a < RuneSelf" using short_encoding_ascii [OF v] e by simp
    moreover have "r = uint a" using dec ascii_decode [of "[a]"] Nil calculation by simp
    ultimately show ?thesis using Nil e by (simp add: DecodeLastRune_def Let_def word_less_def)
  next
    case (snoc bs' b)
    have "\<not> RuneStart b" using bs snoc by simp
    then have nb: "\<not> uint b < uint RuneSelf" by (simp add: RuneStart_cont cont_def RuneSelf_def)
    have "nat (?fin - 1) = length (q @ a # bs')" "?p = (q @ a # bs') @ [b]" using snoc by simp_all
    then have last: "?p ! nat (?fin - 1) = b" by (metis nth_append_length)
    define lim where "lim = (if ?fin - 4 < 0 then 0 else ?fin - 4)"
    define s where "s = lastStart ?p lim (?fin - 2)"
    have lim: "0 \<le> lim" "lim \<le> int (length q)" using len by (auto simp: lim_def)
    have all: "s < j \<Longrightarrow> lim \<le> j \<Longrightarrow> j \<le> ?fin - 2 \<Longrightarrow> \<not> RuneStart (?p ! nat j)" for j
      using lastStart_spec [OF lim(1), of ?p "?fin - 2", folded s_def] by blast
    have q_end: "int (length q) \<le> ?fin - 2" using snoc by simp
    note sp = lastStart_spec [OF lim(1), of ?p "?fin - 2", folded s_def]
    have "\<not> s < int (length q)"
    proof
      assume "s < int (length q)"
      then have "\<not> RuneStart (?p ! nat (int (length q)))" using all [OF _ lim(2) q_end] by simp
      then show False using a by simp
    qed
    moreover have "\<not> s > int (length q)"
    proof
      assume s: "s > int (length q)"
      then have "RuneStart (?p ! nat s)" using sp lim by auto
      moreover have "nat s = length q + 1 + (nat s - length q - 1)" "nat s - length q - 1 < length bs"
        using s sp snoc by auto
      then have "?p ! nat s = bs ! (nat s - length q - 1)" by (metis (no_types) add.commute add_diff_cancel_left' nth_Cons_Suc nth_append_length_plus plus_1_eq_Suc add.assoc)
      ultimately show False using bs \<open>nat s - length q - 1 < length bs\<close> by simp
    qed
    ultimately have s: "s = int (length q)" by simp
    have "int (length ?p) = ?fin" by simp
    then have "DecodeLastRune ?p = (case DecodeRune (drop (nat s) ?p) of (r, sz) \<Rightarrow>
        if nat s + sz \<noteq> length ?p then (RuneError, 1) else (r, sz))"
      using nb last s_def unfolding lim_def by (intro DecodeLastRune_unfold) simp_all
    then show ?thesis using s dec e by simp
  qed
qed

lemma DecodeLastRune_result:
  assumes "DecodeLastRune p = (r, n)" "p \<noteq> []" "(r, n) \<noteq> (RuneError, 1)"
  shows "ValidRune r \<and> n = length (encodedBytes r) \<and> (\<exists>q. p = q @ encodedBytes r)"
proof -
  obtain q b where p: "p = q @ [b]" using assms(2) by (cases p rule: rev_cases) auto
  show ?thesis
  proof (cases "uint b < uint RuneSelf")
    case True
    then have "r = uint b" "n = 1" using assms(1) by (auto simp: DecodeLastRune_def p Let_def)
    moreover have "b < RuneSelf" using True by (simp add: word_less_def)
    ultimately show ?thesis using ascii_valid [of b] p by auto
  next
    case False
    define lim where "lim = (if int (length p) - 4 < 0 then 0 else int (length p) - 4)"
    define s where "s = lastStart p lim (int (length p) - 2)"
    define k where "k = nat s"
    have "0 \<le> lim" by (simp add: lim_def)
    then have "s < int (length p)" using lastStart_spec [of lim p "int (length p) - 2"] s_def by simp
    moreover have "0 < length p" using assms(2) by simp
    ultimately have k: "k < length p" unfolding k_def by linarith
    obtain r' n' where d: "DecodeRune (drop k p) = (r', n')" by fastforce
    have "(r, n) = (if k + n' \<noteq> length p then (RuneError, 1) else (r', n'))"
      using DecodeLastRune_unfold [OF assms(2) _ s_def [unfolded lim_def]] False d assms(1)
      by (simp add: p k_def nth_append)
    then have *: "k + n' = length p" "r = r'" "n = n'" using assms(3) by (auto split: if_splits)
    have "drop k p \<noteq> []" using k by simp
    then show ?thesis
    proof (cases rule: DecodeRune_cases)
      case bad
      then show ?thesis using d * assms(3) by simp
    next
      case (good r2)
      then have "drop k p = encodedBytes r" using d * by (metis fst_conv snd_conv length_drop add_diff_cancel_left' order_refl take_all)
      then have "p = take k p @ encodedBytes r" by (metis append_take_drop_id)
      then show ?thesis using good d * by auto
    qed
  qed
qed

section \<open>The properties\<close>

text \<open>C4: Decoding is exact on every input. If the input starts with the encoding of a valid rune,
  \<open>DecodeRune\<close> (and the runtime's \<open>charntorune\<close>) returns that rune and the length of its encoding;
  otherwise, if there is input, both return the error rune with width 1; empty input gives width 0
  (and 1 in the runtime). So overlong forms, surrogate halves, stray continuation bytes, truncated
  sequences and code points above the maximum are rejected, and nothing else is.\<close>

theorem decode_exact:
  "(ValidRune r \<longrightarrow> DecodeRune (encodedBytes r @ q) = (r, length (encodedBytes r)) \<and>
      DecodeRuneInString (encodedBytes r @ q) = (r, length (encodedBytes r)) \<and>
      charntorune (encodedBytes r @ q) = (r, length (encodedBytes r))) \<and>
   (p \<noteq> [] \<and> (\<nexists>r q. ValidRune r \<and> p = encodedBytes r @ q) \<longrightarrow>
      DecodeRune p = (RuneError, 1) \<and> DecodeRuneInString p = (RuneError, 1) \<and> charntorune p = (RuneError, 1)) \<and>
   DecodeRune [] = (RuneError, 0) \<and> charntorune [] = (RuneError, 1)"
proof -
  have "DecodeRune p = (RuneError, 1)" if "p \<noteq> []" and no: "\<nexists>r q. ValidRune r \<and> p = encodedBytes r @ q"
    using that(1)
  proof (cases rule: DecodeRune_cases)
    case (good r)
    then have "p = encodedBytes r @ drop (length (encodedBytes r)) p" by (metis append_take_drop_id)
    then show ?thesis using no good(1) by blast
  qed
  then show ?thesis
    by (simp add: DecodeRune_encodedBytes DecodeRuneInString_eq charntorune_decode)
      (simp add: DecodeRune_def decodeRuneInternal_def)
qed

theorem decode_exact_witness:
  "DecodeRune [0xE2, 0x82, 0xAC, 0x21] = (0x20AC, 3) \<and> DecodeRune [0xED, 0xA0, 0x80] = (RuneError, 1)"
proof -
  have "encodedBytes 0x20AC @ [0x21] = [0xE2, 0x82, 0xAC, 0x21]"
    by (simp add: encodedBytes_def encode3_def rune_consts t3_def tx_def maskx_def drop_bit_eq_div)
  moreover have "ValidRune 0x20AC" "length (encodedBytes 0x20AC) = 3"
    by (simp_all add: ValidRune_iff encodedBytes_def encode3_def rune_consts)
  ultimately have 1: "DecodeRune [0xE2, 0x82, 0xAC, 0x21] = (0x20AC, 3)"
    using decode_exact [of "0x20AC" "[0x21]" "[]"] by simp
  have "DecodeRune [0xED, 0xA0, 0x80] = (RuneError, 1)"
    by (simp add: DecodeRune_def decodeRuneInternal_def Let_def byte_cmp join_arith rune_consts)
  with 1 show ?thesis by blast
qed

text \<open>C17: \<open>EncodeRune\<close> writes at the front of the buffer the unique encoding of a valid rune, and
  that of the error rune for every other 32-bit value, leaves the rest of the buffer alone and
  returns the number of bytes, which is \<open>RuneLen\<close> when the rune is valid (and \<open>RuneLen\<close> is -1 when
  it is not); a buffer that is too short makes it panic. Decoding what it wrote gives the rune back.\<close>

theorem EncodeRune_correct:
  assumes "- (2 ^ 31) \<le> r" "r < 2 ^ 31"
  defines "r' \<equiv> if ValidRune r then r else RuneError"
  shows "RuneLen r = (if ValidRune r then int (length (encodedBytes r)) else -1) \<and>
    (nat (RuneLen r') \<le> length p \<longrightarrow>
      (\<exists>bs. EncodeRune p r = Inr (bs @ drop (length bs) p, length bs) \<and> int (length bs) = RuneLen r' \<and>
        (\<forall>q. DecodeRune (bs @ q) = (r', length bs)))) \<and>
    (length p < nat (RuneLen r') \<longrightarrow> EncodeRune p r = Inl IndexOutOfRange)"
proof -
  have len: "RuneLen r = int (length (encodedBytes r))" if "ValidRune r" for r
    using that by (elim encodedBytes_cases) (auto simp: RuneLen_def rune_consts ValidRune_iff)
  have neg: "RuneLen r = -1" if "\<not> ValidRune r" using that by (auto simp: RuneLen_def rune_consts ValidRune_iff)
  have r': "ValidRune r'" "encodedBytes r = encodedBytes r'"
    using RuneError_valid encodedBytes_invalid [OF assms(1,2)] by (simp_all add: r'_def)
  then show ?thesis using len [of r'] len [of r] neg
    by (auto simp: EncodeRune_eq DecodeRune_encodedBytes intro!: exI [of _ "encodedBytes r'"])
qed

theorem EncodeRune_correct_witness:
  "(\<exists>bs. EncodeRune [1, 2, 3, 4] 0x20AC = Inr (bs @ drop (length bs) [1, 2, 3, 4], length bs) \<and> int (length bs) = 3) \<and>
   EncodeRune [1] 0xD800 = Inl IndexOutOfRange"
proof -
  have v: "ValidRune 0x20AC" "\<not> ValidRune 0xD800" by (simp_all add: ValidRune_iff)
  have l: "RuneLen 0x20AC = 3" "RuneLen RuneError = 3" by (simp_all add: RuneLen_def rune_consts)
  show ?thesis using EncodeRune_correct [of "0x20AC" "[1, 2, 3, 4]"] EncodeRune_correct [of "0xD800" "[1]"] v l
    by (auto simp del: drop.simps)
qed

text \<open>C18: \<open>Valid\<close> and \<open>ValidString\<close> accept exactly the concatenations of encodings of valid runes,
  and \<open>RuneCount\<close> and \<open>RuneCountInString\<close> return the number of runes of such a concatenation; on
  any input both count the pieces (valid encodings and single undecodable bytes) that it splits into.\<close>

theorem text_correct:
  "Valid p = (\<exists>rs. (\<forall>r \<in> set rs. ValidRune r) \<and> p = concat (map encodedBytes rs)) \<and>
   ValidString p = Valid p \<and>
   ((\<forall>r \<in> set rs. ValidRune r) \<longrightarrow> RuneCount (concat (map encodedBytes rs)) = length rs) \<and>
   RuneCount p = length (runes p) \<and> RuneCountInString p = RuneCount p"
  by (simp add: Valid_def ValidString_def Valid_loop_runes ValidString_loop_runes list_all_valid_piece
      RuneCount_runes RuneCountInString_def RuneCountInString_loop_runes runes_encode_all)

theorem text_correct_witness: "RuneCount (concat (map encodedBytes [0x41, 0x20AC, 0x1F600])) = 3"
  using text_correct [of "[]" "[0x41, 0x20AC, 0x1F600]"] by (simp add: ValidRune_iff)

text \<open>\<open>DecodeLastRune\<close> and \<open>DecodeLastRuneInString\<close>, which scan back at most four bytes for the
  start of a rune, return the rune whose encoding ends the input, if there is one, and otherwise
  the error rune with width 1 (0 on empty input).\<close>

theorem DecodeLastRune_exact:
  "(ValidRune r \<longrightarrow> DecodeLastRune (q @ encodedBytes r) = (r, length (encodedBytes r))) \<and>
   (p \<noteq> [] \<and> (\<nexists>q r. ValidRune r \<and> p = q @ encodedBytes r) \<longrightarrow> DecodeLastRune p = (RuneError, 1)) \<and>
   DecodeLastRune [] = (RuneError, 0) \<and> DecodeLastRuneInString p = DecodeLastRune p"
proof -
  have "DecodeLastRune p = (RuneError, 1)" if "p \<noteq> []" "\<nexists>q r. ValidRune r \<and> p = q @ encodedBytes r"
    using DecodeLastRune_result [of p] that by (metis surj_pair)
  moreover have "DecodeLastRuneInString p = DecodeLastRune p"
    by (simp only: DecodeLastRuneInString_def DecodeLastRune_def DecodeRuneInString_eq)
  ultimately show ?thesis by (simp add: DecodeLastRune_suffix) (simp add: DecodeLastRune_def)
qed

theorem DecodeLastRune_exact_witness: "DecodeLastRune ([0x80, 0x80] @ encodedBytes 0x20AC) = (0x20AC, 3)"
  using DecodeLastRune_exact [of "0x20AC" "[0x80, 0x80]" "[]"]
  by (simp add: ValidRune_iff encodedBytes_def encode3_def rune_consts)

text \<open>The conversions of the runtime. A string converts to the runes of its pieces; a rune slice
  converts to the concatenation of the encodings, without running past the buffer that the first
  pass sized, whatever buffer or uninitialised memory it is given; and converting there and back
  changes only the runes that have no encoding, to the error rune.\<close>

theorem string_conversions:
  assumes "\<forall>r \<in> set rs. - (2 ^ 31) \<le> r \<and> r < 2 ^ 31"
  shows "stringtoslicerune rmem buf s = Inr (map fst (runes s)) \<and>
    slicerunetostring mem buf' rs = Inr (concat (map encodedBytes rs)) \<and>
    (case slicerunetostring mem buf' rs of Inl e \<Rightarrow> False | Inr t \<Rightarrow>
       stringtoslicerune rmem buf t = Inr (map (\<lambda>r. if ValidRune r then r else RuneError) rs))"
  using runes_encodeAll [OF assms]
  by (simp add: stringtoslicerune_eq slicerunetostring_eq encodeAll_def)

theorem string_conversions_witness:
  "slicerunetostring (\<lambda>_. 0) None [0x41, -1] = Inr (concat (map encodedBytes [0x41, -1])) \<and>
   stringtoslicerune (\<lambda>_. 0) None (concat (map encodedBytes [0x41, -1])) = Inr [0x41, RuneError]"
  using string_conversions [of "[0x41, -1]" "\<lambda>_. 0" None "[]" "\<lambda>_. 0" None] by (auto simp: ValidRune_iff)

text \<open>\<open>string(v)\<close> for an integer in the range of \<open>rune\<close> is the encoding of that rune, or of the
  error rune; but the conversion truncates the \<open>int64\<close> first, so that an integer outside the range
  gives the rune of its low 32 bits where the language asks for the error rune: 2^32 + 65 gives A.\<close>

theorem intstring_truncates:
  "intstring mem None v = Inr (encodedBytes (sint (ucast v :: 32 word))) \<and>
   intstring mem None (2 ^ 32 + 65) = Inr [65]"
proof -
  have *: "intstring mem None v = Inr (encodedBytes (sint (ucast v :: 32 word)))" for v :: "64 word"
    using encodedBytes_bounds [of "sint (ucast v :: 32 word)"]
    by (simp add: intstring_def runetochar_eq EncodeRune_eq rawstring_def)
  have "ucast (2 ^ 32 + 65 :: 64 word) = (65 :: 32 word)" by simp
  then show ?thesis unfolding * by (simp add: encodedBytes_def rune_consts)
qed

end
