(* ===== verification/Go_Waitq.thy ===== *)
theory Go_Waitq
  imports Go_Prelude
begin

text \<open>
  The wait queues of a channel (src/runtime/chan.go, select.go): doubly linked lists of \<open>sudog\<close>
  records, threaded through their \<open>next\<close> and \<open>prev\<close> fields. The heap of sudogs is a function from
  names to records, so the definitions below read and write the very links that the code does.
  The refinement lemmas say that the operations implement a plain list. A sudog of a \<open>select\<close>
  carries a pointer to the flag that the first waker claims; \<open>dequeue\<close> skips sudogs whose flag is
  set already.
\<close>

type_synonym sid = nat
type_synonym gid = nat

record sudog =
  sg_g :: gid
  sg_selectdone :: "nat option"
  sg_next :: "sid option"
  sg_prev :: "sid option"
  sg_elem :: "gid option"
  sg_waitlink :: "sid option"

record waitq =
  wq_first :: "sid option"
  wq_last :: "sid option"

type_synonym sheap = "sid \<Rightarrow> sudog"
type_synonym flags = "nat \<Rightarrow> bool"

definition set_next :: "sid \<Rightarrow> sid option \<Rightarrow> sheap \<Rightarrow> sheap" where
  "set_next s n h = h(s := (h s)\<lparr>sg_next := n\<rparr>)"

definition set_prev :: "sid \<Rightarrow> sid option \<Rightarrow> sheap \<Rightarrow> sheap" where
  "set_prev s n h = h(s := (h s)\<lparr>sg_prev := n\<rparr>)"

section \<open>The operations\<close>

definition enqueue :: "sheap \<Rightarrow> waitq \<Rightarrow> sid \<Rightarrow> sheap \<times> waitq" where
  "enqueue h q sgp =
     (let h = set_next sgp None h in
      case wq_last q of
        None \<Rightarrow> (set_prev sgp None h, \<lparr>wq_first = Some sgp, wq_last = Some sgp\<rparr>)
      | Some x \<Rightarrow> (set_next x (Some sgp) (set_prev sgp (Some x) h), q\<lparr>wq_last := Some sgp\<rparr>))"

text \<open>Unlinking the first sudog, and the test-and-set of the flag: under the lock of a channel the
  flag may also be claimed through another channel of the same \<open>select\<close>, but a claimed flag stays
  claimed, so the read and the compare-and-swap are one step.\<close>

definition unlink_first :: "sheap \<Rightarrow> waitq \<Rightarrow> sid \<Rightarrow> sheap \<times> waitq" where
  "unlink_first h q sgp =
     (case sg_next (h sgp) of
        None \<Rightarrow> (h, \<lparr>wq_first = None, wq_last = None\<rparr>)
      | Some y \<Rightarrow> (set_next sgp None (set_prev y None h), q\<lparr>wq_first := Some y\<rparr>))"

partial_function (option) dequeue :: "sheap \<Rightarrow> flags \<Rightarrow> waitq \<Rightarrow> (sid option \<times> sheap \<times> flags \<times> waitq) option" where
  [code]: "dequeue h fl q =
     (case wq_first q of
        None \<Rightarrow> Some (None, h, fl, q)
      | Some sgp \<Rightarrow>
          (case unlink_first h q sgp of (h, q) \<Rightarrow>
             (case sg_selectdone (h sgp) of
                None \<Rightarrow> Some (Some sgp, h, fl, q)
              | Some d \<Rightarrow> if fl d then dequeue h fl q else Some (Some sgp, h, fl(d := True), q))))"

definition dequeueSudoG :: "sheap \<Rightarrow> waitq \<Rightarrow> sid \<Rightarrow> sheap \<times> waitq" where
  "dequeueSudoG h q sgp =
     (case sg_prev (h sgp) of
        Some x \<Rightarrow>
          (case sg_next (h sgp) of
             Some y \<Rightarrow>
               (set_prev sgp None (set_next sgp None (set_prev y (Some x) (set_next x (Some y) h))), q)
           | None \<Rightarrow> (set_prev sgp None (set_next x None h), q\<lparr>wq_last := Some x\<rparr>))
      | None \<Rightarrow>
          (case sg_next (h sgp) of
             Some y \<Rightarrow> (set_next sgp None (set_prev y None h), q\<lparr>wq_first := Some y\<rparr>)
           | None \<Rightarrow> if wq_first q = Some sgp then (h, \<lparr>wq_first = None, wq_last = None\<rparr>) else (h, q)))"

section \<open>The abstract queue\<close>

fun lenqueue :: "sid list \<Rightarrow> sid \<Rightarrow> sid list" where
  "lenqueue xs s = xs @ [s]"

fun ldequeue :: "sheap \<Rightarrow> flags \<Rightarrow> sid list \<Rightarrow> sid option \<times> flags \<times> sid list" where
  "ldequeue h fl [] = (None, fl, [])"
| "ldequeue h fl (s # xs) =
     (case sg_selectdone (h s) of
        None \<Rightarrow> (Some s, fl, xs)
      | Some d \<Rightarrow> if fl d then ldequeue h fl xs else (Some s, fl(d := True), xs))"

text \<open>Adjacent elements point at each other.\<close>

fun dlinks :: "sheap \<Rightarrow> sid list \<Rightarrow> bool" where
  "dlinks h (x # y # zs) \<longleftrightarrow> sg_next (h x) = Some y \<and> sg_prev (h y) = Some x \<and> dlinks h (y # zs)"
| "dlinks h _ \<longleftrightarrow> True"

definition is_queue :: "sheap \<Rightarrow> waitq \<Rightarrow> sid list \<Rightarrow> bool" where
  "is_queue h q xs \<longleftrightarrow>
     distinct xs \<and> dlinks h xs \<and>
     wq_first q = (if xs = [] then None else Some (hd xs)) \<and>
     wq_last q = (if xs = [] then None else Some (last xs)) \<and>
     (xs \<noteq> [] \<longrightarrow> sg_prev (h (hd xs)) = None \<and> sg_next (h (last xs)) = None)"

lemma dlinks_append:
  "dlinks h (xs @ ys) \<longleftrightarrow> dlinks h xs \<and> dlinks h ys \<and>
     (xs \<noteq> [] \<and> ys \<noteq> [] \<longrightarrow> sg_next (h (last xs)) = Some (hd ys) \<and> sg_prev (h (hd ys)) = Some (last xs))"
proof (induction xs)
  case (Cons x xs)
  then show ?case by (cases xs; cases ys) auto
qed simp

lemma dlinks_cong:
  "(\<And>x. x \<in> set xs \<Longrightarrow> x \<noteq> last xs \<Longrightarrow> sg_next (h' x) = sg_next (h x)) \<Longrightarrow>
   (\<And>x. x \<in> set xs \<Longrightarrow> x \<noteq> hd xs \<Longrightarrow> sg_prev (h' x) = sg_prev (h x)) \<Longrightarrow> distinct xs \<Longrightarrow>
   dlinks h xs \<Longrightarrow> dlinks h' xs"
proof (induction h xs rule: dlinks.induct)
  case (1 h x y zs)
  have "dlinks h' (y # zs)"
    using 1(4,5) by (intro 1(1)) (auto intro: 1(2,3) split: if_splits)
  moreover have "x \<noteq> last (y # zs)" using 1(4) last_in_set [of "y # zs"] by auto
  ultimately show ?case using 1(2) [of x] 1(3) [of y] 1(4,5) by auto
qed auto

lemma set_links [simp]:
  "sg_next (set_next s n h x) = (if x = s then n else sg_next (h x))"
  "sg_prev (set_next s n h x) = sg_prev (h x)"
  "sg_prev (set_prev s n h x) = (if x = s then n else sg_prev (h x))"
  "sg_next (set_prev s n h x) = sg_next (h x)"
  by (auto simp: set_next_def set_prev_def)

text \<open>Everything but the links.\<close>

definition same_data :: "sheap \<Rightarrow> sheap \<Rightarrow> bool" where
  "same_data h h' \<longleftrightarrow> (\<forall>x. sg_g (h' x) = sg_g (h x) \<and> sg_selectdone (h' x) = sg_selectdone (h x) \<and>
     sg_elem (h' x) = sg_elem (h x) \<and> sg_waitlink (h' x) = sg_waitlink (h x))"

lemma same_data_refl [simp]: "same_data h h"
  by (simp add: same_data_def)

lemma same_data_set [simp]: "same_data h (set_next s n h') = same_data h h'" "same_data h (set_prev s n h') = same_data h h'"
  by (auto simp: same_data_def set_next_def set_prev_def)

lemma same_data_trans: "same_data h h' \<Longrightarrow> same_data h' h'' \<Longrightarrow> same_data h h''"
  by (simp add: same_data_def)

lemma ldequeue_same_data: "same_data h h' \<Longrightarrow> ldequeue h' fl xs = ldequeue h fl xs"
  by (induction xs) (auto simp: same_data_def split: option.split)

section \<open>Refinement\<close>

lemma enqueue_refines:
  assumes q: "is_queue h q xs" and s: "s \<notin> set xs" and e: "enqueue h q s = (h', q')"
  shows "is_queue h' q' (lenqueue xs s)" "same_data h h'"
    "\<And>x. x \<notin> set xs \<Longrightarrow> x \<noteq> s \<Longrightarrow> h' x = h x"
proof -
  have d: "distinct (xs @ [s])" using q s by (simp add: is_queue_def)
  show "is_queue h' q' (lenqueue xs s)"
  proof (cases "xs = []")
    case True
    then show ?thesis using q e by (auto simp: is_queue_def enqueue_def Let_def)
  next
    case False
    then have l: "wq_last q = Some (last xs)" and f: "wq_first q = Some (hd xs)" using q by (auto simp: is_queue_def)
    have ne: "last xs \<noteq> s" "hd xs \<noteq> s" using s False by auto
    have h': "h' = set_next (last xs) (Some s) (set_prev s (Some (last xs)) (set_next s None h))"
      and q': "q' = q\<lparr>wq_last := Some s\<rparr>"
      using e l by (auto simp: enqueue_def Let_def)
    have "dlinks h' xs" using q s unfolding is_queue_def by (intro dlinks_cong [where h = h and h' = h']) (auto simp: h')
    then have "dlinks h' (xs @ [s])" using False ne by (simp add: dlinks_append h')
    moreover have "sg_prev (h' (hd xs)) = None" using q False ne by (simp add: h' is_queue_def)
    ultimately show ?thesis using False ne q d f unfolding is_queue_def by (simp add: h' q')
  qed
  show "same_data h h'" using e by (auto simp: enqueue_def Let_def split: option.splits)
  show "h' x = h x" if "x \<notin> set xs" "x \<noteq> s" for x
    using e q that by (auto simp: enqueue_def Let_def is_queue_def set_next_def set_prev_def split: option.splits if_splits)
qed

lemma unlink_first_refines:
  assumes q: "is_queue h q (s # xs)" and e: "unlink_first h q s = (h', q')"
  shows "is_queue h' q' xs" "same_data h h'" "sg_next (h' s) = None" "sg_prev (h' s) = None"
    "\<And>x. x \<notin> set (s # xs) \<Longrightarrow> h' x = h x"
proof -
  show "is_queue h' q' xs"
  proof (cases xs)
    case Nil
    then show ?thesis using q e by (auto simp: is_queue_def unlink_first_def)
  next
    case (Cons y ys)
    then have h': "h' = set_next s None (set_prev y None h)" and q': "q' = q\<lparr>wq_first := Some y\<rparr>"
      using q e by (auto simp: is_queue_def unlink_first_def)
    have d: "distinct (s # y # ys)" "dlinks h (y # ys)" using q Cons by (auto simp: is_queue_def)
    have "dlinks h' (y # ys)" using d by (intro dlinks_cong [where h = h and h' = h']) (auto simp: h')
    moreover have "last (y # ys) \<noteq> s" using d last_in_set [of "y # ys"] by auto
    ultimately show ?thesis using q Cons d unfolding is_queue_def by (auto simp: h' q')
  qed
  show "same_data h h'" using e by (auto simp: unlink_first_def split: option.splits)
  show "sg_next (h' s) = None" "sg_prev (h' s) = None"
    using e q by (cases xs; auto simp: unlink_first_def is_queue_def split: option.splits)+
  show "h' x = h x" if "x \<notin> set (s # xs)" for x
    using e q that by (cases xs) (auto simp: unlink_first_def is_queue_def set_next_def set_prev_def)
qed


lemma dequeue_refines:
  assumes "is_queue h q xs"
  shows "\<exists>r h' fl' q' xs'. dequeue h fl q = Some (r, h', fl', q') \<and> ldequeue h fl xs = (r, fl', xs') \<and>
    is_queue h' q' xs' \<and> same_data h h' \<and> (\<forall>x \<in> set xs - set xs'. sg_next (h' x) = None \<and> sg_prev (h' x) = None) \<and>
    (\<forall>x. x \<notin> set xs \<longrightarrow> h' x = h x)"
  using assms
proof (induction xs arbitrary: h fl q)
  case Nil
  then show ?case by (auto simp: is_queue_def dequeue.simps)
next
  case (Cons s xs)
  obtain h1 q1 where u: "unlink_first h q s = (h1, q1)" by fastforce
  note U = unlink_first_refines [OF Cons.prems u]
  have f: "wq_first q = Some s" using Cons.prems by (simp add: is_queue_def)
  have d: "distinct (s # xs)" using Cons.prems by (simp add: is_queue_def)
  have sd: "sg_selectdone (h1 s) = sg_selectdone (h s)" using U(2) by (simp add: same_data_def)
  show ?case
  proof (cases "\<exists>k. sg_selectdone (h s) = Some k \<and> fl k")
    case False
    then obtain fl' where *: "dequeue h fl q = Some (Some s, h1, fl', q1)" "ldequeue h fl (s # xs) = (Some s, fl', xs)"
      using f u sd by (cases "sg_selectdone (h s)") (auto simp: dequeue.simps [of h fl q])
    have links: "\<forall>x \<in> set (s # xs) - set xs. sg_next (h1 x) = None \<and> sg_prev (h1 x) = None" using U(3,4) d by auto
    show ?thesis using * U(1,2) links U(5) by (intro exI conjI) auto
  next
    case True
    then have *: "dequeue h fl q = dequeue h1 fl q1" "ldequeue h fl (s # xs) = ldequeue h fl xs"
      using f u sd by (auto simp: dequeue.simps [of h fl q])
    obtain r h' fl' q' xs' where IH: "dequeue h1 fl q1 = Some (r, h', fl', q')" "ldequeue h1 fl xs = (r, fl', xs')"
      "is_queue h' q' xs'" "same_data h1 h'" "\<forall>x \<in> set xs - set xs'. sg_next (h' x) = None \<and> sg_prev (h' x) = None"
      "\<forall>x. x \<notin> set xs \<longrightarrow> h' x = h1 x"
      using Cons.IH [OF U(1)] by blast
    have "\<forall>x \<in> set (s # xs) - set xs'. sg_next (h' x) = None \<and> sg_prev (h' x) = None" using IH(5,6) U(3,4) d by auto
    moreover have "ldequeue h fl xs = (r, fl', xs')" using IH(2) ldequeue_same_data [OF U(2)] by simp
    moreover have "\<forall>x. x \<notin> set (s # xs) \<longrightarrow> h' x = h x" using IH(6) U(5) by auto
    ultimately show ?thesis using * IH(1,3) same_data_trans [OF U(2) IH(4)] by (intro exI conjI) (assumption | simp)+
  qed
qed

lemma dequeueSudoG_absent:
  assumes "is_queue h q xs" "s \<notin> set xs" "sg_next (h s) = None" "sg_prev (h s) = None"
  shows "dequeueSudoG h q s = (h, q)"
  using assms by (auto simp: dequeueSudoG_def is_queue_def)

lemma dequeueSudoG_refines:
  assumes q: "is_queue h q (as @ s # bs)" and e: "dequeueSudoG h q s = (h', q')"
  shows "is_queue h' q' (as @ bs)" "same_data h h'" "sg_next (h' s) = None" "sg_prev (h' s) = None"
proof -
  have d: "distinct (as @ s # bs)" and l: "dlinks h as" "dlinks h (s # bs)"
    and j: "as \<noteq> [] \<longrightarrow> sg_next (h (last as)) = Some s \<and> sg_prev (h s) = Some (last as)"
    using q by (auto simp: is_queue_def dlinks_append)
  have l2: "dlinks h bs" and j2: "bs \<noteq> [] \<longrightarrow> sg_next (h s) = Some (hd bs) \<and> sg_prev (h (hd bs)) = Some s"
    using l(2) by (cases bs; simp)+
  have ends: "as = [] \<longrightarrow> sg_prev (h s) = None" "bs = [] \<longrightarrow> sg_next (h s) = None"
    "as \<noteq> [] \<longrightarrow> sg_prev (h (hd as)) = None" "bs \<noteq> [] \<longrightarrow> sg_next (h (last bs)) = None"
    using q by (auto simp: is_queue_def)
  have ne: "as \<noteq> [] \<longrightarrow> last as \<noteq> s \<and> hd as \<noteq> s \<and> last as \<notin> set bs" "bs \<noteq> [] \<longrightarrow> hd bs \<noteq> s \<and> last bs \<noteq> s \<and> hd bs \<notin> set as"
    using d by (auto dest: hd_in_set last_in_set)
  have frame: "dlinks h' as \<and> dlinks h' bs"
    if "\<And>x. x \<noteq> s \<Longrightarrow> as = [] \<or> x \<noteq> last as \<Longrightarrow> sg_next (h' x) = sg_next (h x)"
      "\<And>x. x \<noteq> s \<Longrightarrow> bs = [] \<or> x \<noteq> hd bs \<Longrightarrow> sg_prev (h' x) = sg_prev (h x)"
  proof
    have a: "x \<noteq> s" "bs = [] \<or> x \<noteq> hd bs" if "x \<in> set as" for x using that d ne(2) by auto
    have b: "x \<noteq> s" "as = [] \<or> x \<noteq> last as" if "x \<in> set bs" for x using that d ne(1) by auto
    show "dlinks h' as" using that a d by (intro dlinks_cong [OF _ _ _ l(1)]) simp_all
    show "dlinks h' bs" using that b d by (intro dlinks_cong [OF _ _ _ l2]) simp_all
  qed
  consider (mid) "as \<noteq> []" "bs \<noteq> []" | (last) "as \<noteq> []" "bs = []" | (first) "as = []" "bs \<noteq> []" | (single) "as = []" "bs = []"
    by blast
  then have "is_queue h' q' (as @ bs) \<and> same_data h h' \<and> sg_next (h' s) = None \<and> sg_prev (h' s) = None"
  proof cases
    case mid
    then have h': "h' = set_prev s None (set_next s None (set_prev (hd bs) (Some (last as)) (set_next (last as) (Some (hd bs)) h)))"
      and q': "q' = q" using e j j2 by (auto simp: dequeueSudoG_def)
    have "dlinks h' as \<and> dlinks h' bs" by (rule frame) (auto simp: h' mid)
    moreover have "sg_prev (h' (hd as)) = None" "sg_next (h' (last bs)) = None"
      using mid ends ne d by (auto simp: h' dest: hd_in_set last_in_set)
    ultimately show ?thesis using q mid ne unfolding is_queue_def by (simp add: dlinks_append h' q')
  next
    case last
    then have h': "h' = set_prev s None (set_next (last as) None h)" and q': "q' = q\<lparr>wq_last := Some (last as)\<rparr>"
      using e j ends by (auto simp: dequeueSudoG_def)
    have "dlinks h' as \<and> dlinks h' bs" by (rule frame) (auto simp: h' last)
    moreover have "sg_prev (h' (hd as)) = None" using last ends ne by (auto simp: h')
    ultimately show ?thesis using q last ne ends unfolding is_queue_def by (simp add: h' q')
  next
    case first
    then have h': "h' = set_next s None (set_prev (hd bs) None h)" and q': "q' = q\<lparr>wq_first := Some (hd bs)\<rparr>"
      using e j2 ends by (auto simp: dequeueSudoG_def)
    have "dlinks h' as \<and> dlinks h' bs" by (rule frame) (auto simp: h' first)
    moreover have "sg_next (h' (last bs)) = None" using first ends ne by (auto simp: h')
    ultimately show ?thesis using q first ne ends unfolding is_queue_def by (simp add: h' q')
  next
    case single
    then show ?thesis using q e ends by (auto simp: dequeueSudoG_def is_queue_def)
  qed
  then show "is_queue h' q' (as @ bs)" "same_data h h'" "sg_next (h' s) = None" "sg_prev (h' s) = None" by blast+
qed


section \<open>The contract of a waiting line\<close>

text \<open>What \<open>close\<close> does to a queue: take sudogs off until there is none.\<close>

fun drain :: "('h \<Rightarrow> 'q \<Rightarrow> (sid option \<times> 'h \<times> 'q) option) \<Rightarrow> nat \<Rightarrow> 'h \<Rightarrow> 'q \<Rightarrow> sid list" where
  "drain deq 0 h q = []"
| "drain deq (Suc n) h q =
     (case deq h q of Some (Some s, h', q') \<Rightarrow> s # drain deq n h' q' | _ \<Rightarrow> [])"

fun enq_all :: "('h \<Rightarrow> 'q \<Rightarrow> sid \<Rightarrow> 'h \<times> 'q) \<Rightarrow> sid list \<Rightarrow> 'h \<times> 'q \<Rightarrow> 'h \<times> 'q" where
  "enq_all enq [] hq = hq"
| "enq_all enq (s # ss) hq = enq_all enq ss (enq (fst hq) (snd hq) s)"

locale fifo_queue =
  fixes repr :: "'h \<Rightarrow> 'q \<Rightarrow> sid list \<Rightarrow> bool"
    and enq :: "'h \<Rightarrow> 'q \<Rightarrow> sid \<Rightarrow> 'h \<times> 'q"
    and deq :: "'h \<Rightarrow> 'q \<Rightarrow> (sid option \<times> 'h \<times> 'q) option"
  assumes enq: "repr h q xs \<Longrightarrow> s \<notin> set xs \<Longrightarrow> repr (fst (enq h q s)) (snd (enq h q s)) (xs @ [s])"
    and deq_Nil: "repr h q [] \<Longrightarrow> \<exists>h' q'. deq h q = Some (None, h', q') \<and> repr h' q' []"
    and deq_Cons: "repr h q (x # xs) \<Longrightarrow> \<exists>h' q'. deq h q = Some (Some x, h', q') \<and> repr h' q' xs"
begin

lemma enq_all_repr:
  "repr (fst hq) (snd hq) xs \<Longrightarrow> distinct (xs @ ss) \<Longrightarrow>
   repr (fst (enq_all enq ss hq)) (snd (enq_all enq ss hq)) (xs @ ss)"
proof (induction ss arbitrary: hq xs)
  case (Cons s ss)
  then have "repr (fst (enq (fst hq) (snd hq) s)) (snd (enq (fst hq) (snd hq) s)) (xs @ [s])" by (intro enq) auto
  then show ?case using Cons.IH [of "enq (fst hq) (snd hq) s" "xs @ [s]"] Cons.prems(2) by simp
qed simp

lemma drain_repr: "repr h q xs \<Longrightarrow> length xs < n \<Longrightarrow> drain deq n h q = xs"
proof (induction xs arbitrary: n h q)
  case Nil
  then show ?case using deq_Nil [OF Nil(1)] by (cases n) auto
next
  case (Cons x xs)
  then show ?case using deq_Cons [OF Cons.prems(1)] by (cases n) fastforce+
qed

lemma fifo: "repr (fst hq) (snd hq) [] \<Longrightarrow> distinct ss \<Longrightarrow> length ss < n \<Longrightarrow>
  drain deq n (fst (enq_all enq ss hq)) (snd (enq_all enq ss hq)) = ss"
  using enq_all_repr [of hq "[]" ss] by (intro drain_repr) simp_all

end

text \<open>The linked queues provide it for sudogs that take part in no \<open>select\<close>.\<close>

definition plain_queue :: "sheap \<Rightarrow> waitq \<Rightarrow> sid list \<Rightarrow> bool" where
  "plain_queue h q xs \<longleftrightarrow> is_queue h q xs \<and> (\<forall>x. sg_selectdone (h x) = None)"

definition plain_dequeue :: "sheap \<Rightarrow> waitq \<Rightarrow> (sid option \<times> sheap \<times> waitq) option" where
  "plain_dequeue h q = map_option (\<lambda>(r, h', _, q'). (r, h', q')) (dequeue h (\<lambda>_. False) q)"

interpretation chanq: fifo_queue plain_queue enqueue plain_dequeue
proof (unfold_locales, goal_cases)
  case (1 h q xs s)
  then show ?case using enqueue_refines [of h q xs s "fst (enqueue h q s)" "snd (enqueue h q s)"]
    by (simp add: plain_queue_def same_data_def)
next
  case (2 h q)
  then show ?case using dequeue_refines [of h q "[]" "\<lambda>_. False"]
    by (auto simp: plain_queue_def plain_dequeue_def same_data_def)
next
  case (3 h q x xs)
  then show ?case using dequeue_refines [of h q "x # xs" "\<lambda>_. False"]
    by (auto simp: plain_queue_def plain_dequeue_def same_data_def)
qed

section \<open>The properties\<close>

text \<open>C13: The linked wait queues implement lists. On a well-formed queue \<open>enqueue\<close> appends,
  \<open>dequeue\<close> returns and terminates like its list counterpart, skipping the sudogs of a \<open>select\<close> that
  was already signalled and claiming the flag of the one it returns, and \<open>dequeueSudoG\<close> removes a
  sudog from the middle, or does nothing if it is not there; every removed sudog has both links
  cleared, and nothing but links changes.\<close>

theorem waitq_refines_list:
  assumes "is_queue h q xs"
  shows "(s \<notin> set xs \<longrightarrow> (\<exists>h' q'. enqueue h q s = (h', q') \<and> is_queue h' q' (xs @ [s]) \<and> same_data h h')) \<and>
    (\<exists>r h' fl' q' xs'. dequeue h fl q = Some (r, h', fl', q') \<and> ldequeue h fl xs = (r, fl', xs') \<and> is_queue h' q' xs' \<and>
       same_data h h' \<and> (\<forall>x \<in> set xs - set xs'. sg_next (h' x) = None \<and> sg_prev (h' x) = None)) \<and>
    (s \<in> set xs \<longrightarrow> (\<exists>h' q'. dequeueSudoG h q s = (h', q') \<and> is_queue h' q' (remove1 s xs) \<and> same_data h h' \<and>
       sg_next (h' s) = None \<and> sg_prev (h' s) = None)) \<and>
    (s \<notin> set xs \<and> sg_next (h s) = None \<and> sg_prev (h s) = None \<longrightarrow> dequeueSudoG h q s = (h, q))"
proof (intro conjI)
  show "s \<notin> set xs \<longrightarrow> (\<exists>h' q'. enqueue h q s = (h', q') \<and> is_queue h' q' (xs @ [s]) \<and> same_data h h')"
    using enqueue_refines [OF assms, of s "fst (enqueue h q s)" "snd (enqueue h q s)"]
    by (intro impI exI [of _ "fst (enqueue h q s)"] exI [of _ "snd (enqueue h q s)"]) simp
  show "\<exists>r h' fl' q' xs'. dequeue h fl q = Some (r, h', fl', q') \<and> ldequeue h fl xs = (r, fl', xs') \<and> is_queue h' q' xs' \<and>
       same_data h h' \<and> (\<forall>x \<in> set xs - set xs'. sg_next (h' x) = None \<and> sg_prev (h' x) = None)"
    using dequeue_refines [OF assms, of fl] by blast
  show "s \<in> set xs \<longrightarrow> (\<exists>h' q'. dequeueSudoG h q s = (h', q') \<and> is_queue h' q' (remove1 s xs) \<and> same_data h h' \<and>
       sg_next (h' s) = None \<and> sg_prev (h' s) = None)"
  proof
    assume "s \<in> set xs"
    then obtain as bs where xs: "xs = as @ s # bs" "s \<notin> set as" by (meson split_list_first)
    then have "remove1 s xs = as @ bs" by (simp add: remove1_append)
    then show "\<exists>h' q'. dequeueSudoG h q s = (h', q') \<and> is_queue h' q' (remove1 s xs) \<and> same_data h h' \<and>
       sg_next (h' s) = None \<and> sg_prev (h' s) = None"
      using dequeueSudoG_refines [OF assms [unfolded xs(1)], of "fst (dequeueSudoG h q s)" "snd (dequeueSudoG h q s)"]
      by (metis prod.collapse)
  qed
  show "s \<notin> set xs \<and> sg_next (h s) = None \<and> sg_prev (h s) = None \<longrightarrow> dequeueSudoG h q s = (h, q)"
    using dequeueSudoG_absent [OF assms] by blast
qed

theorem waitq_refines_list_witness:
  "\<exists>h' q'. enqueue (\<lambda>_. \<lparr>sg_g = 0, sg_selectdone = None, sg_next = None, sg_prev = None, sg_elem = None, sg_waitlink = None\<rparr>)
     \<lparr>wq_first = None, wq_last = None\<rparr> 3 = (h', q') \<and> is_queue h' q' [3]"
proof -
  have "is_queue (\<lambda>_. \<lparr>sg_g = 0, sg_selectdone = None, sg_next = None, sg_prev = None, sg_elem = None, sg_waitlink = None\<rparr>)
     \<lparr>wq_first = None, wq_last = None\<rparr> []" by (simp add: is_queue_def)
  from waitq_refines_list [OF this, of 3, THEN conjunct1] show ?thesis by auto
qed

text \<open>Waiters are served in the order in which they arrived: whatever distinct sudogs are put into
  an empty queue, taking sudogs off until none is left, as \<open>close\<close> does, yields them in that order.\<close>

theorem waiters_fifo:
  assumes "plain_queue h q []" "distinct ss" "length ss < n"
  shows "drain plain_dequeue n (fst (enq_all enqueue ss (h, q))) (snd (enq_all enqueue ss (h, q))) = ss"
  using chanq.fifo [of "(h, q)" ss n] assms by simp

theorem waiters_fifo_witness:
  "drain plain_dequeue 4 (fst (enq_all enqueue [7, 2, 5] (\<lambda>_. \<lparr>sg_g = 0, sg_selectdone = None, sg_next = None, sg_prev = None, sg_elem = None, sg_waitlink = None\<rparr>,
     \<lparr>wq_first = None, wq_last = None\<rparr>)))
   (snd (enq_all enqueue [7, 2, 5] (\<lambda>_. \<lparr>sg_g = 0, sg_selectdone = None, sg_next = None, sg_prev = None, sg_elem = None, sg_waitlink = None\<rparr>,
     \<lparr>wq_first = None, wq_last = None\<rparr>))) = [7, 2, 5]"
  by (rule waiters_fifo) (simp_all add: plain_queue_def is_queue_def)

end
