(* ===== verification/Go_Chan.thy ===== *)
theory Go_Chan
  imports Go_Waitq
begin

text \<open>
  Channels (src/runtime/chan.go): \<open>makechan\<close>, \<open>chansend\<close>, \<open>chanrecv\<close>, \<open>closechan\<close> and the entry
  points built on them, for any number of goroutines that use one channel. Each stretch of code
  between taking the channel's lock and giving it up, parking included, is one function on the
  state; what a goroutine does when it is woken is another. The copy of the element and the
  \<open>goready\<close> that follow an unlock touch only the sudog that was dequeued and the goroutine parked
  on it, and belong to the same step. A goroutine's \<open>ep\<close> is its own slot in \<open>slots\<close>. Wait queues are
  lists here; \<open>Go_Waitq\<close> proves that the linked queues of the code implement them. The cache of
  free sudogs is that of one processor. The fields \<open>sent_log\<close> and \<open>recv_log\<close> are ghost state: the
  code does not have them and no definition reads them.
\<close>

section \<open>The state\<close>

record 'v hchan =
  qcount :: nat
  dataqsiz :: nat
  buf :: "'v list"
  closed :: bool
  elemzero :: 'v
  sendx :: nat
  recvx :: nat
  recvq :: "sid list"
  sendq :: "sid list"

text \<open>Where a goroutine is: outside the channel code, parked in it, or parked for ever.\<close>

datatype pc =
    Running
  | SendSync sid
  | SendAsync sid
  | RecvSync sid "gid option"
  | RecvAsync sid "gid option"
  | Forever

record gstate =
  g_pc :: pc
  g_param :: "sid option"
  g_waiting :: "sid option"

record 'v world =
  ch :: "'v hchan"
  sudogs :: sheap
  done_flags :: flags
  sudogcache :: "sid list"
  next_sid :: nat
  gs :: "gid \<Rightarrow> gstate"
  slots :: "gid \<Rightarrow> 'v"
  runnable :: "gid set"
  sent_log :: "(gid \<times> 'v) list"
  recv_log :: "(gid \<times> 'v) list"

datatype outcome =
    Selected bool
  | Received bool bool
  | Closed_ok
  | Parked
  | Failed panic

section \<open>Creation\<close>

definition maxAlign :: nat where "maxAlign = 8"

definition makechan ::
  "nat \<Rightarrow> nat \<Rightarrow> nat \<Rightarrow> nat \<Rightarrow> nat \<Rightarrow> 'v \<Rightarrow> int \<Rightarrow> panic + 'v hchan" where
  "makechan ptrbits maxMem hchanSize elem_size elem_align zero sz =
     (if elem_size \<ge> 2 ^ 16 then Inl (Throw ''makechan: invalid channel element type'')
      else if hchanSize mod maxAlign \<noteq> 0 \<or> elem_align > maxAlign then Inl (Throw ''makechan: bad alignment'')
      else if sz < 0 \<or> sz mod 2 ^ ptrbits \<noteq> sz \<or> (elem_size > 0 \<and> nat sz > (maxMem - hchanSize) div elem_size)
        then Inl (PanicMsg ''makechan: size out of range'')
      else Inr \<lparr>qcount = 0, dataqsiz = nat sz, buf = replicate (nat sz) zero, closed = False, elemzero = zero,
                sendx = 0, recvx = 0, recvq = [], sendq = []\<rparr>)"

section \<open>Sudogs and goroutines\<close>

definition set_g :: "gid \<Rightarrow> (gstate \<Rightarrow> gstate) \<Rightarrow> 'v world \<Rightarrow> 'v world" where
  "set_g g f s = s\<lparr>gs := (gs s)(g := f (gs s g))\<rparr>"

definition set_sg :: "sid \<Rightarrow> (sudog \<Rightarrow> sudog) \<Rightarrow> 'v world \<Rightarrow> 'v world" where
  "set_sg x f s = s\<lparr>sudogs := (sudogs s)(x := f (sudogs s x))\<rparr>"

definition set_ch :: "('v hchan \<Rightarrow> 'v hchan) \<Rightarrow> 'v world \<Rightarrow> 'v world" where
  "set_ch f s = s\<lparr>ch := f (ch s)\<rparr>"

definition new_sudog :: sudog where
  "new_sudog = \<lparr>sg_g = 0, sg_selectdone = None, sg_next = None, sg_prev = None, sg_elem = None, sg_waitlink = None\<rparr>"

definition acquireSudog :: "'v world \<Rightarrow> panic + (sid \<times> 'v world)" where
  "acquireSudog s =
     (case sudogcache s of
        x # rest \<Rightarrow>
          if sg_elem (sudogs s x) \<noteq> None then Inl (Throw ''acquireSudog: found s.elem != nil in cache'')
          else Inr (x, set_sg x (\<lambda>r. r\<lparr>sg_next := None\<rparr>) (s\<lparr>sudogcache := rest\<rparr>))
      | [] \<Rightarrow> Inr (next_sid s, set_sg (next_sid s) (\<lambda>_. new_sudog) (s\<lparr>next_sid := next_sid s + 1\<rparr>)))"

text \<open>\<open>s.next = c.sudogcache\<close> is the link of the cache, which is a list here.\<close>

definition releaseSudog :: "gid \<Rightarrow> sid \<Rightarrow> 'v world \<Rightarrow> panic + 'v world" where
  "releaseSudog gp x s =
     (let r = sudogs s x in
      if sg_elem r \<noteq> None then Inl (Throw ''runtime: sudog with non-nil elem'')
      else if sg_selectdone r \<noteq> None then Inl (Throw ''runtime: sudog with non-nil selectdone'')
      else if sg_next r \<noteq> None then Inl (Throw ''runtime: sudog with non-nil next'')
      else if sg_prev r \<noteq> None then Inl (Throw ''runtime: sudog with non-nil prev'')
      else if sg_waitlink r \<noteq> None then Inl (Throw ''runtime: sudog with non-nil waitlink'')
      else if g_param (gs s gp) \<noteq> None then Inl (Throw ''runtime: releaseSudog with non-nil gp.param'')
      else Inr (s\<lparr>sudogcache := x # sudogcache s\<rparr>))"

text \<open>\<open>goready\<close> refuses a goroutine that is not waiting.\<close>

definition goready :: "gid \<Rightarrow> 'v world \<Rightarrow> panic + 'v world" where
  "goready g s =
     (if g_pc (gs s g) = Running \<or> g \<in> runnable s then Inl (Throw ''bad g->status in ready'')
      else Inr (s\<lparr>runnable := insert g (runnable s)\<rparr>))"

definition dequeue_recvq :: "'v world \<Rightarrow> sid option \<times> 'v world" where
  "dequeue_recvq s =
     (case ldequeue (sudogs s) (done_flags s) (recvq (ch s)) of
        (r, fl, xs) \<Rightarrow> (r, set_ch (\<lambda>c. c\<lparr>recvq := xs\<rparr>) (s\<lparr>done_flags := fl\<rparr>)))"

definition dequeue_sendq :: "'v world \<Rightarrow> sid option \<times> 'v world" where
  "dequeue_sendq s =
     (case ldequeue (sudogs s) (done_flags s) (sendq (ch s)) of
        (r, fl, xs) \<Rightarrow> (r, set_ch (\<lambda>c. c\<lparr>sendq := xs\<rparr>) (s\<lparr>done_flags := fl\<rparr>)))"

definition ok_or :: "panic + 'v world \<Rightarrow> outcome \<Rightarrow> 'v world \<Rightarrow> outcome \<times> 'v world" where
  "ok_or r out s0 = (case r of Inl e \<Rightarrow> (Failed e, s0) | Inr s \<Rightarrow> (out, s))"

section \<open>Send\<close>

text \<open>The tail of an asynchronous send: store the element, then wake a receiver.\<close>

definition chansend_write :: "gid \<Rightarrow> 'v world \<Rightarrow> outcome \<times> 'v world" where
  "chansend_write gp s =
     (let c = ch s; v = slots s gp;
          x = sendx c + 1;
          s = set_ch (\<lambda>c. c\<lparr>buf := (buf c)[sendx c := v], sendx := (if x = dataqsiz c then 0 else x),
                           qcount := qcount c + 1\<rparr>) s;
          s = s\<lparr>sent_log := sent_log s @ [(gp, v)]\<rparr>
      in case dequeue_recvq s of
           (Some sg, s) \<Rightarrow> ok_or (goready (sg_g (sudogs s sg)) s) (Selected True) s
         | (None, s) \<Rightarrow> (Selected True, s))"

text \<open>The loop \<open>for c.qcount >= c.dataqsiz\<close> up to parking.\<close>

definition chansend_async :: "gid \<Rightarrow> bool \<Rightarrow> 'v world \<Rightarrow> outcome \<times> 'v world" where
  "chansend_async gp block s =
     (if qcount (ch s) \<ge> dataqsiz (ch s) then
        if \<not> block then (Selected False, s)
        else case acquireSudog s of
            Inl e \<Rightarrow> (Failed e, s)
          | Inr (mysg, s) \<Rightarrow>
              let s = set_sg mysg (\<lambda>r. r\<lparr>sg_g := gp, sg_elem := None, sg_selectdone := None\<rparr>) s;
                  s = set_ch (\<lambda>c. c\<lparr>sendq := lenqueue (sendq c) mysg\<rparr>) s
              in (Parked, set_g gp (\<lambda>r. r\<lparr>g_pc := SendAsync mysg\<rparr>) s)
      else chansend_write gp s)"

definition chansend_locked :: "gid \<Rightarrow> bool \<Rightarrow> 'v world \<Rightarrow> outcome \<times> 'v world" where
  "chansend_locked gp block s =
     (if closed (ch s) then (Failed (PanicMsg ''send on closed channel''), s)
      else if dataqsiz (ch s) = 0 then
        case dequeue_recvq s of
          (Some sg, s) \<Rightarrow>
            let recvg = sg_g (sudogs s sg);
                v = slots s gp;
                s = (case sg_elem (sudogs s sg) of
                       Some p \<Rightarrow> set_sg sg (\<lambda>r. r\<lparr>sg_elem := None\<rparr>) (s\<lparr>slots := (slots s)(p := v)\<rparr>)
                     | None \<Rightarrow> s);
                s = s\<lparr>sent_log := sent_log s @ [(gp, v)], recv_log := recv_log s @ [(recvg, v)]\<rparr>;
                s = set_g recvg (\<lambda>r. r\<lparr>g_param := Some sg\<rparr>) s
            in ok_or (goready recvg s) (Selected True) s
        | (None, s) \<Rightarrow>
            if \<not> block then (Selected False, s)
            else case acquireSudog s of
                Inl e \<Rightarrow> (Failed e, s)
              | Inr (mysg, s) \<Rightarrow>
                  let s = set_sg mysg (\<lambda>r. r\<lparr>sg_elem := Some gp, sg_waitlink := None, sg_g := gp, sg_selectdone := None\<rparr>) s;
                      s = set_g gp (\<lambda>r. r\<lparr>g_waiting := Some mysg, g_param := None\<rparr>) s;
                      s = set_ch (\<lambda>c. c\<lparr>sendq := lenqueue (sendq c) mysg\<rparr>) s
                  in (Parked, set_g gp (\<lambda>r. r\<lparr>g_pc := SendSync mysg\<rparr>) s)
      else chansend_async gp block s)"

text \<open>The test that a non-blocking send makes without the lock. It reads one word of the channel, then
  another, and other goroutines may run in between: \<open>s1\<close> is the state at the read of \<open>closed\<close>, \<open>s2\<close> the
  state at the read of \<open>recvq.first\<close> or \<open>qcount\<close>. (\<open>dataqsiz\<close> never changes.) Every stretch under the
  lock changes the value of such a test at most once, so that a read in the middle of one gives what a
  read before or after it gives.\<close>

definition chansend_fast :: "'v world \<Rightarrow> 'v world \<Rightarrow> bool" where
  "chansend_fast s1 s2 \<longleftrightarrow> \<not> closed (ch s1) \<and>
     ((dataqsiz (ch s2) = 0 \<and> recvq (ch s2) = []) \<or> (dataqsiz (ch s2) > 0 \<and> qcount (ch s2) = dataqsiz (ch s2)))"

text \<open>The whole of \<open>chansend\<close>, up to its park or its return: the two reads at \<open>s1\<close> and \<open>s2\<close>, what
  follows at \<open>s\<close>; then the same with nothing in between.\<close>

definition chansend_at :: "bool \<Rightarrow> gid \<Rightarrow> bool \<Rightarrow> 'v world \<Rightarrow> 'v world \<Rightarrow> 'v world \<Rightarrow> outcome \<times> 'v world" where
  "chansend_at isnil gp block s1 s2 s =
     (if isnil then
        if \<not> block then (Selected False, s) else (Parked, set_g gp (\<lambda>r. r\<lparr>g_pc := Forever\<rparr>) s)
      else if \<not> block \<and> chansend_fast s1 s2 then (Selected False, s)
      else chansend_locked gp block s)"

definition chansend :: "bool \<Rightarrow> gid \<Rightarrow> bool \<Rightarrow> 'v world \<Rightarrow> outcome \<times> 'v world" where
  "chansend isnil gp block s = chansend_at isnil gp block s s s"

lemmas chansend_once = chansend_def [unfolded chansend_at_def]

text \<open>What a parked sender does when it is woken.\<close>

definition chansend_sync_woken :: "gid \<Rightarrow> sid \<Rightarrow> 'v world \<Rightarrow> outcome \<times> 'v world" where
  "chansend_sync_woken gp mysg s =
     (if g_waiting (gs s gp) \<noteq> Some mysg then (Failed (Throw ''G waiting list is corrupted!''), s)
      else let s = set_g gp (\<lambda>r. r\<lparr>g_waiting := None\<rparr>) s in
      if g_param (gs s gp) = None then
        if \<not> closed (ch s) then (Failed (Throw ''chansend: spurious wakeup''), s)
        else (Failed (PanicMsg ''send on closed channel''), s)
      else let s = set_g gp (\<lambda>r. r\<lparr>g_param := None\<rparr>) s in
        ok_or (releaseSudog gp mysg s) (Selected True) s)"

definition chansend_async_woken :: "gid \<Rightarrow> sid \<Rightarrow> 'v world \<Rightarrow> outcome \<times> 'v world" where
  "chansend_async_woken gp mysg s =
     (case releaseSudog gp mysg s of
        Inl e \<Rightarrow> (Failed e, s)
      | Inr s \<Rightarrow>
          if closed (ch s) then (Failed (PanicMsg ''send on closed channel''), s)
          else chansend_async gp True s)"

section \<open>Receive\<close>

text \<open>\<open>memclr(ep)\<close> and \<open>typedmemmove(ep, ...)\<close>, skipped when \<open>ep\<close> is nil.\<close>

definition store :: "gid option \<Rightarrow> 'v \<Rightarrow> 'v world \<Rightarrow> 'v world" where
  "store ep v s = (case ep of None \<Rightarrow> s | Some p \<Rightarrow> s\<lparr>slots := (slots s)(p := v)\<rparr>)"

definition recvclosed :: "gid option \<Rightarrow> 'v world \<Rightarrow> outcome \<times> 'v world" where
  "recvclosed ep s = (Received True False, store ep (elemzero (ch s)) s)"

definition chanrecv_read :: "gid \<Rightarrow> gid option \<Rightarrow> 'v world \<Rightarrow> outcome \<times> 'v world" where
  "chanrecv_read gp ep s =
     (let c = ch s; v = buf c ! recvx c;
          s = store ep v s;
          x = recvx c + 1;
          s = set_ch (\<lambda>c. c\<lparr>buf := (buf c)[recvx c := elemzero c], recvx := (if x = dataqsiz c then 0 else x),
                           qcount := qcount c - 1\<rparr>) s;
          s = s\<lparr>recv_log := recv_log s @ [(gp, v)]\<rparr>
      in case dequeue_sendq s of
           (Some sg, s) \<Rightarrow> ok_or (goready (sg_g (sudogs s sg)) s) (Received True True) s
         | (None, s) \<Rightarrow> (Received True True, s))"

text \<open>The loop \<open>for c.qcount <= 0\<close> up to parking.\<close>

definition chanrecv_async :: "gid \<Rightarrow> gid option \<Rightarrow> bool \<Rightarrow> 'v world \<Rightarrow> outcome \<times> 'v world" where
  "chanrecv_async gp ep block s =
     (if qcount (ch s) \<le> 0 then
        if closed (ch s) then recvclosed ep s
        else if \<not> block then (Received False False, s)
        else case acquireSudog s of
            Inl e \<Rightarrow> (Failed e, s)
          | Inr (mysg, s) \<Rightarrow>
              let s = set_sg mysg (\<lambda>r. r\<lparr>sg_elem := None, sg_g := gp, sg_selectdone := None\<rparr>) s;
                  s = set_ch (\<lambda>c. c\<lparr>recvq := lenqueue (recvq c) mysg\<rparr>) s
              in (Parked, set_g gp (\<lambda>r. r\<lparr>g_pc := RecvAsync mysg ep\<rparr>) s)
      else chanrecv_read gp ep s)"

definition chanrecv_locked :: "gid \<Rightarrow> gid option \<Rightarrow> bool \<Rightarrow> 'v world \<Rightarrow> outcome \<times> 'v world" where
  "chanrecv_locked gp ep block s =
     (if dataqsiz (ch s) = 0 then
        if closed (ch s) then recvclosed ep s
        else case dequeue_sendq s of
          (Some sg, s) \<Rightarrow>
            let sender = sg_g (sudogs s sg);
                v = (case sg_elem (sudogs s sg) of Some p \<Rightarrow> slots s p | None \<Rightarrow> elemzero (ch s));
                s = store ep v s;
                s = set_sg sg (\<lambda>r. r\<lparr>sg_elem := None\<rparr>) s;
                s = s\<lparr>sent_log := sent_log s @ [(sender, v)], recv_log := recv_log s @ [(gp, v)]\<rparr>;
                s = set_g sender (\<lambda>r. r\<lparr>g_param := Some sg\<rparr>) s
            in ok_or (goready sender s) (Received True True) s
        | (None, s) \<Rightarrow>
            if \<not> block then (Received False False, s)
            else case acquireSudog s of
                Inl e \<Rightarrow> (Failed e, s)
              | Inr (mysg, s) \<Rightarrow>
                  let s = set_sg mysg (\<lambda>r. r\<lparr>sg_elem := ep, sg_waitlink := None, sg_g := gp, sg_selectdone := None\<rparr>) s;
                      s = set_g gp (\<lambda>r. r\<lparr>g_waiting := Some mysg, g_param := None\<rparr>) s;
                      s = set_ch (\<lambda>c. c\<lparr>recvq := lenqueue (recvq c) mysg\<rparr>) s
                  in (Parked, set_g gp (\<lambda>r. r\<lparr>g_pc := RecvSync mysg ep\<rparr>) s)
      else chanrecv_async gp ep block s)"

text \<open>The test without the lock: here \<open>sendq.first\<close> or \<open>qcount\<close> is read first, at \<open>s1\<close>, and \<open>closed\<close>
  last, at \<open>s2\<close>.\<close>

definition chanrecv_fast :: "'v world \<Rightarrow> 'v world \<Rightarrow> bool" where
  "chanrecv_fast s1 s2 \<longleftrightarrow>
     (dataqsiz (ch s1) = 0 \<and> sendq (ch s1) = [] \<or> dataqsiz (ch s1) > 0 \<and> qcount (ch s1) = 0) \<and> \<not> closed (ch s2)"

definition chanrecv_at ::
  "bool \<Rightarrow> gid \<Rightarrow> gid option \<Rightarrow> bool \<Rightarrow> 'v world \<Rightarrow> 'v world \<Rightarrow> 'v world \<Rightarrow> outcome \<times> 'v world" where
  "chanrecv_at isnil gp ep block s1 s2 s =
     (if isnil then
        if \<not> block then (Received False False, s) else (Parked, set_g gp (\<lambda>r. r\<lparr>g_pc := Forever\<rparr>) s)
      else if \<not> block \<and> chanrecv_fast s1 s2 then (Received False False, s)
      else chanrecv_locked gp ep block s)"

definition chanrecv :: "bool \<Rightarrow> gid \<Rightarrow> gid option \<Rightarrow> bool \<Rightarrow> 'v world \<Rightarrow> outcome \<times> 'v world" where
  "chanrecv isnil gp ep block s = chanrecv_at isnil gp ep block s s s"

lemmas chanrecv_once = chanrecv_def [unfolded chanrecv_at_def]

definition chanrecv_sync_woken :: "gid \<Rightarrow> sid \<Rightarrow> gid option \<Rightarrow> 'v world \<Rightarrow> outcome \<times> 'v world" where
  "chanrecv_sync_woken gp mysg ep s =
     (if g_waiting (gs s gp) \<noteq> Some mysg then (Failed (Throw ''G waiting list is corrupted!''), s)
      else let s = set_g gp (\<lambda>r. r\<lparr>g_waiting := None\<rparr>) s;
               haveData = g_param (gs s gp) \<noteq> None;
               s = set_g gp (\<lambda>r. r\<lparr>g_param := None\<rparr>) s
      in case releaseSudog gp mysg s of
           Inl e \<Rightarrow> (Failed e, s)
         | Inr s \<Rightarrow>
             if haveData then (Received True True, s)
             else if \<not> closed (ch s) then (Failed (Throw ''chanrecv: spurious wakeup''), s)
             else recvclosed ep s)"

definition chanrecv_async_woken :: "gid \<Rightarrow> sid \<Rightarrow> gid option \<Rightarrow> 'v world \<Rightarrow> outcome \<times> 'v world" where
  "chanrecv_async_woken gp mysg ep s =
     (case releaseSudog gp mysg s of
        Inl e \<Rightarrow> (Failed e, s)
      | Inr s \<Rightarrow> chanrecv_async gp ep True s)"

section \<open>Close\<close>

lemma ldequeue_shorter: "ldequeue h fl xs = (Some x, fl', xs') \<Longrightarrow> length xs' < length xs"
  by (induction xs arbitrary: fl) (auto split: option.splits if_splits dest: less_SucI)

text \<open>The two loops that release all readers and all writers.\<close>

definition release_waiter :: "sid \<Rightarrow> 'v world \<Rightarrow> panic + 'v world" where
  "release_waiter sg s =
     (let gp = sg_g (sudogs s sg);
          s = set_sg sg (\<lambda>r. r\<lparr>sg_elem := None\<rparr>) s;
          s = set_g gp (\<lambda>r. r\<lparr>g_param := None\<rparr>) s
      in goready gp s)"

lemma release_waiter_queues:
  "release_waiter sg s = Inr s' \<Longrightarrow> recvq (ch s') = recvq (ch s) \<and> sendq (ch s') = sendq (ch s)"
  by (auto simp: release_waiter_def Let_def goready_def set_g_def set_sg_def split: if_splits)

function close_recvq :: "'v world \<Rightarrow> panic + 'v world" where
  "close_recvq s =
     (case dequeue_recvq s of
        (None, s) \<Rightarrow> Inr s
      | (Some sg, s) \<Rightarrow> (case release_waiter sg s of Inl e \<Rightarrow> Inl e | Inr s \<Rightarrow> close_recvq s))"
  by pat_completeness auto
termination
proof (relation "measure (\<lambda>s. length (recvq (ch s)))", goal_cases)
  case (2 s ro s1 sg s2)
  then show ?case using release_waiter_queues [of sg s1 s2]
    by (auto simp: dequeue_recvq_def set_ch_def split: prod.splits dest!: ldequeue_shorter)
qed simp

function close_sendq :: "'v world \<Rightarrow> panic + 'v world" where
  "close_sendq s =
     (case dequeue_sendq s of
        (None, s) \<Rightarrow> Inr s
      | (Some sg, s) \<Rightarrow> (case release_waiter sg s of Inl e \<Rightarrow> Inl e | Inr s \<Rightarrow> close_sendq s))"
  by pat_completeness auto
termination
proof (relation "measure (\<lambda>s. length (sendq (ch s)))", goal_cases)
  case (2 s ro s1 sg s2)
  then show ?case using release_waiter_queues [of sg s1 s2]
    by (auto simp: dequeue_sendq_def set_ch_def split: prod.splits dest!: ldequeue_shorter)
qed simp

declare close_recvq.simps [simp del] close_sendq.simps [simp del]

definition closechan :: "bool \<Rightarrow> 'v world \<Rightarrow> outcome \<times> 'v world" where
  "closechan isnil s =
     (if isnil then (Failed (PanicMsg ''close of nil channel''), s)
      else if closed (ch s) then (Failed (PanicMsg ''close of closed channel''), s)
      else let s = set_ch (\<lambda>c. c\<lparr>closed := True\<rparr>) s in
        case close_recvq s of Inl e \<Rightarrow> (Failed e, s) | Inr s \<Rightarrow> ok_or (close_sendq s) Closed_ok s)"

section \<open>Entry points\<close>

definition chansend1 :: "bool \<Rightarrow> gid \<Rightarrow> 'v world \<Rightarrow> outcome \<times> 'v world" where
  "chansend1 isnil gp s = chansend isnil gp True s"

definition chanrecv1 :: "bool \<Rightarrow> gid \<Rightarrow> gid option \<Rightarrow> 'v world \<Rightarrow> outcome \<times> 'v world" where
  "chanrecv1 isnil gp ep s = chanrecv isnil gp ep True s"

definition selectnbsend :: "bool \<Rightarrow> gid \<Rightarrow> 'v world \<Rightarrow> outcome \<times> 'v world" where
  "selectnbsend isnil gp s = chansend isnil gp False s"

definition selectnbrecv :: "bool \<Rightarrow> gid \<Rightarrow> gid option \<Rightarrow> 'v world \<Rightarrow> outcome \<times> 'v world" where
  "selectnbrecv isnil gp ep s = chanrecv isnil gp ep False s"

definition reflect_chansend :: "bool \<Rightarrow> gid \<Rightarrow> bool \<Rightarrow> 'v world \<Rightarrow> outcome \<times> 'v world" where
  "reflect_chansend isnil gp nb s = chansend isnil gp (\<not> nb) s"

definition reflect_chanrecv :: "bool \<Rightarrow> gid \<Rightarrow> bool \<Rightarrow> gid option \<Rightarrow> 'v world \<Rightarrow> outcome \<times> 'v world" where
  "reflect_chanrecv isnil gp nb ep s = chanrecv isnil gp ep (\<not> nb) s"

definition reflect_chanlen :: "bool \<Rightarrow> 'v world \<Rightarrow> nat" where
  "reflect_chanlen isnil s = (if isnil then 0 else qcount (ch s))"

definition reflect_chancap :: "bool \<Rightarrow> 'v world \<Rightarrow> nat" where
  "reflect_chancap isnil s = (if isnil then 0 else dataqsiz (ch s))"

section \<open>Runs\<close>

text \<open>A goroutine that is not parked calls an operation; a woken one continues, up to its next park or
  its return. A non-blocking operation whose test without the lock succeeds, whatever ran between its
  reads, changes nothing and needs no step; one whose test fails goes on with the locked part, at
  whatever state it finds by then. Between operations a goroutine stores what it likes in its slot. A
  goroutine that returns or panics is \<open>Running\<close> again; a \<open>throw\<close> ends the program, so there is no step
  with that outcome.\<close>

definition is_throw :: "outcome \<Rightarrow> bool" where
  "is_throw out \<longleftrightarrow> (\<exists>msg. out = Failed (Throw msg))"

definition wake :: "gid \<Rightarrow> 'v world \<Rightarrow> 'v world" where
  "wake g s = s\<lparr>runnable := runnable s - {g}\<rparr>"

text \<open>Continue a woken goroutine at the point where it parked.\<close>

definition resume :: "gid \<Rightarrow> 'v world \<Rightarrow> outcome \<times> 'v world" where
  "resume g s =
     (let s' = set_g g (\<lambda>r. r\<lparr>g_pc := Running\<rparr>) (wake g s) in
      case g_pc (gs s g) of
        SendSync x \<Rightarrow> chansend_sync_woken g x s'
      | SendAsync x \<Rightarrow> chansend_async_woken g x s'
      | RecvSync x ep \<Rightarrow> chanrecv_sync_woken g x ep s'
      | RecvAsync x ep \<Rightarrow> chanrecv_async_woken g x ep s'
      | _ \<Rightarrow> (Failed (Throw ''resume''), s'))"

definition running :: "gid \<Rightarrow> 'v world \<Rightarrow> bool" where
  "running g s \<longleftrightarrow> g_pc (gs s g) = Running \<and> g \<notin> runnable s"

inductive chan_step :: "'v world \<Rightarrow> outcome \<Rightarrow> 'v world \<Rightarrow> bool" where
  assign: "running g s \<Longrightarrow> chan_step s Closed_ok (s\<lparr>slots := (slots s)(g := v)\<rparr>)"
| send: "running g s \<Longrightarrow> chansend isnil g block s = (out, s') \<Longrightarrow> \<not> is_throw out \<Longrightarrow> chan_step s out s'"
| send_locked: "running g s \<Longrightarrow> chansend_locked g False s = (out, s') \<Longrightarrow> \<not> is_throw out \<Longrightarrow> chan_step s out s'"
| recv: "running g s \<Longrightarrow> ep \<in> {None, Some g} \<Longrightarrow> chanrecv isnil g ep block s = (out, s') \<Longrightarrow> \<not> is_throw out \<Longrightarrow>
    chan_step s out s'"
| recv_locked: "running g s \<Longrightarrow> ep \<in> {None, Some g} \<Longrightarrow> chanrecv_locked g ep False s = (out, s') \<Longrightarrow>
    \<not> is_throw out \<Longrightarrow> chan_step s out s'"
| close: "running g s \<Longrightarrow> closechan isnil s = (out, s') \<Longrightarrow> \<not> is_throw out \<Longrightarrow> chan_step s out s'"
| resume: "g \<in> runnable s \<Longrightarrow> resume g s = (out, s') \<Longrightarrow> \<not> is_throw out \<Longrightarrow> chan_step s out s'"

inductive_cases chan_stepE: "chan_step s out s'"

definition init_world :: "'v hchan \<Rightarrow> (gid \<Rightarrow> 'v) \<Rightarrow> 'v world" where
  "init_world c m = \<lparr>ch = c, sudogs = (\<lambda>_. new_sudog), done_flags = (\<lambda>_. False), sudogcache = [], next_sid = 0,
     gs = (\<lambda>_. \<lparr>g_pc = Running, g_param = None, g_waiting = None\<rparr>), slots = m, runnable = {},
     sent_log = [], recv_log = []\<rparr>"

inductive chan_reach :: "'v hchan \<Rightarrow> (gid \<Rightarrow> 'v) \<Rightarrow> 'v world \<Rightarrow> bool" for c m where
  start: "chan_reach c m (init_world c m)"
| step: "chan_reach c m s \<Longrightarrow> chan_step s out s' \<Longrightarrow> chan_reach c m s'"

text \<open>From one state of a run to a later one.\<close>

inductive chan_runs :: "'v world \<Rightarrow> 'v world \<Rightarrow> bool" where
  stay: "chan_runs s s"
| go_on: "chan_runs s s' \<Longrightarrow> chan_step s' out s'' \<Longrightarrow> chan_runs s s''"


section \<open>The invariant\<close>

fun pc_sid :: "pc \<Rightarrow> sid option" where
  "pc_sid (SendSync x) = Some x"
| "pc_sid (SendAsync x) = Some x"
| "pc_sid (RecvSync x _) = Some x"
| "pc_sid (RecvAsync x _) = Some x"
| "pc_sid _ = None"

definition held :: "'v world \<Rightarrow> gid \<Rightarrow> sid \<Rightarrow> bool" where
  "held s g x \<longleftrightarrow> sg_g (sudogs s x) = g \<and> x < next_sid s \<and> x \<notin> set (sudogcache s)"

text \<open>What each goroutine may rely on: while it is parked its sudog is queued, and when it has been
  woken its sudog is out of the queue with no element attached.\<close>

definition gok :: "'v world \<Rightarrow> gid \<Rightarrow> bool" where
  "gok s g \<longleftrightarrow>
     (let r = gs s g; c = ch s; woken = (g \<in> runnable s) in
      (\<forall>x. pc_sid (g_pc r) = Some x \<longrightarrow> held s g x) \<and>
      (case g_pc r of
         SendSync x \<Rightarrow> dataqsiz c = 0 \<and> g_waiting r = Some x \<and>
           (if woken then x \<notin> set (sendq c) \<and> sg_elem (sudogs s x) = None \<and> (g_param r = Some x \<or> g_param r = None \<and> closed c)
            else x \<in> set (sendq c) \<and> sg_elem (sudogs s x) = Some g \<and> g_param r = None)
       | RecvSync x ep \<Rightarrow> dataqsiz c = 0 \<and> g_waiting r = Some x \<and>
           (if woken then x \<notin> set (recvq c) \<and> sg_elem (sudogs s x) = None \<and> (g_param r = Some x \<or> g_param r = None \<and> closed c)
            else x \<in> set (recvq c) \<and> sg_elem (sudogs s x) = ep \<and> g_param r = None)
       | SendAsync x \<Rightarrow> dataqsiz c > 0 \<and> g_param r = None \<and> sg_elem (sudogs s x) = None \<and> (woken \<longleftrightarrow> x \<notin> set (sendq c))
       | RecvAsync x ep \<Rightarrow> dataqsiz c > 0 \<and> g_param r = None \<and> sg_elem (sudogs s x) = None \<and> (woken \<longleftrightarrow> x \<notin> set (recvq c))
       | _ \<Rightarrow> \<not> woken \<and> g_param r = None))"

definition queues_ok :: "'v world \<Rightarrow> bool" where
  "queues_ok s \<longleftrightarrow> distinct (recvq (ch s)) \<and> distinct (sendq (ch s)) \<and>
     (\<forall>x \<in> set (recvq (ch s)). \<exists>ep. g_pc (gs s (sg_g (sudogs s x))) \<in> {RecvSync x ep, RecvAsync x ep}) \<and>
     (\<forall>x \<in> set (sendq (ch s)). g_pc (gs s (sg_g (sudogs s x))) \<in> {SendSync x, SendAsync x})"

definition sids_ok :: "'v world \<Rightarrow> bool" where
  "sids_ok s \<longleftrightarrow> distinct (sudogcache s) \<and> finite (runnable s) \<and>
     (\<forall>x \<in> set (sudogcache s). x < next_sid s \<and> sg_elem (sudogs s x) = None) \<and>
     (\<forall>x. sg_selectdone (sudogs s x) = None \<and> sg_next (sudogs s x) = None \<and> sg_prev (sudogs s x) = None \<and>
          sg_waitlink (sudogs s x) = None)"

definition closed_ok :: "'v world \<Rightarrow> bool" where
  "closed_ok s \<longleftrightarrow> (closed (ch s) \<longrightarrow> recvq (ch s) = [] \<and> sendq (ch s) = []) \<and>
     (dataqsiz (ch s) = 0 \<longrightarrow> recvq (ch s) = [] \<or> sendq (ch s) = [])"

definition buf_ok :: "'v hchan \<Rightarrow> bool" where
  "buf_ok c \<longleftrightarrow> length (buf c) = dataqsiz c \<and> qcount c \<le> dataqsiz c \<and>
     (dataqsiz c > 0 \<longrightarrow> recvx c < dataqsiz c \<and> sendx c = (recvx c + qcount c) mod dataqsiz c)"

text \<open>The elements in the circular buffer, oldest first.\<close>

definition contents :: "'v hchan \<Rightarrow> 'v list" where
  "contents c = map (\<lambda>i. buf c ! ((recvx c + i) mod dataqsiz c)) [0..<qcount c]"

definition log_ok :: "'v world \<Rightarrow> bool" where
  "log_ok s \<longleftrightarrow> map snd (sent_log s) = map snd (recv_log s) @ contents (ch s)"

definition core :: "'v world \<Rightarrow> bool" where
  "core s \<longleftrightarrow> (\<forall>g. gok s g) \<and> queues_ok s \<and> sids_ok s"

definition inv :: "'v world \<Rightarrow> bool" where
  "inv s \<longleftrightarrow> core s \<and> closed_ok s \<and> buf_ok (ch s) \<and> log_ok s"

lemma gok_cong:
  assumes "gok s g" "gs s' g = gs s g" "g \<in> runnable s' \<longleftrightarrow> g \<in> runnable s"
    "dataqsiz (ch s') = dataqsiz (ch s)" "closed (ch s) \<Longrightarrow> closed (ch s')" "next_sid s \<le> next_sid s'"
    "\<And>x. pc_sid (g_pc (gs s g)) = Some x \<Longrightarrow> held s g x \<Longrightarrow> sudogs s' x = sudogs s x \<and> x \<notin> set (sudogcache s') \<and>
       (x \<in> set (recvq (ch s')) \<longleftrightarrow> x \<in> set (recvq (ch s))) \<and> (x \<in> set (sendq (ch s')) \<longleftrightarrow> x \<in> set (sendq (ch s)))"
  shows "gok s' g"
proof (cases "pc_sid (g_pc (gs s g))")
  case None
  then show ?thesis using assms(1-3) by (cases "g_pc (gs s g)") (auto simp: gok_def Let_def)
next
  case (Some x)
  then have "held s g x" using assms(1) by (simp add: gok_def Let_def)
  note f = assms(7) [OF Some this] this
  show ?thesis using Some assms(1-6) f
    by (cases "g_pc (gs s g)") (auto simp: gok_def Let_def held_def split: if_splits)
qed

section \<open>The pieces of the operations keep the invariant\<close>

lemmas set_defs = set_g_def set_sg_def set_ch_def

lemma ldequeue_no_select:
  "(\<And>x. sg_selectdone (h x) = None) \<Longrightarrow> ldequeue h fl xs = (case xs of [] \<Rightarrow> (None, fl, []) | x # xs \<Rightarrow> (Some x, fl, xs))"
  by (cases xs) auto

lemma dequeue_recvq_eq:
  assumes "sids_ok s"
  shows "dequeue_recvq s = (case recvq (ch s) of [] \<Rightarrow> (None, s) | x # xs \<Rightarrow> (Some x, set_ch (\<lambda>c. c\<lparr>recvq := xs\<rparr>) s))"
proof -
  have "\<And>x. sg_selectdone (sudogs s x) = None" using assms by (simp add: sids_ok_def)
  then show ?thesis by (cases "recvq (ch s)") (simp_all add: dequeue_recvq_def ldequeue_no_select set_ch_def)
qed

lemma dequeue_sendq_eq:
  assumes "sids_ok s"
  shows "dequeue_sendq s = (case sendq (ch s) of [] \<Rightarrow> (None, s) | x # xs \<Rightarrow> (Some x, set_ch (\<lambda>c. c\<lparr>sendq := xs\<rparr>) s))"
proof -
  have "\<And>x. sg_selectdone (sudogs s x) = None" using assms by (simp add: sids_ok_def)
  then show ?thesis by (cases "sendq (ch s)") (simp_all add: dequeue_sendq_def ldequeue_no_select set_ch_def)
qed

text \<open>A sudog that nobody uses.\<close>

definition fresh :: "'v world \<Rightarrow> sid \<Rightarrow> bool" where
  "fresh s x \<longleftrightarrow> x < next_sid s \<and> x \<notin> set (sudogcache s) \<and> sg_elem (sudogs s x) = None \<and>
     (\<forall>g. pc_sid (g_pc (gs s g)) \<noteq> Some x) \<and> x \<notin> set (recvq (ch s)) \<and> x \<notin> set (sendq (ch s))"

definition same_but_sids :: "'v world \<Rightarrow> 'v world \<Rightarrow> bool" where
  "same_but_sids s s' \<longleftrightarrow> ch s' = ch s \<and> gs s' = gs s \<and> slots s' = slots s \<and> runnable s' = runnable s \<and>
     sent_log s' = sent_log s \<and> recv_log s' = recv_log s"

lemma queued_sid_held: "core s \<Longrightarrow> x \<in> set (recvq (ch s)) \<or> x \<in> set (sendq (ch s)) \<Longrightarrow>
  x < next_sid s \<and> x \<notin> set (sudogcache s) \<and> pc_sid (g_pc (gs s (sg_g (sudogs s x)))) = Some x"
proof -
  assume i: "core s" and x: "x \<in> set (recvq (ch s)) \<or> x \<in> set (sendq (ch s))"
  have q: "queues_ok s" and g: "gok s (sg_g (sudogs s x))" using i by (auto simp: core_def)
  have p: "pc_sid (g_pc (gs s (sg_g (sudogs s x)))) = Some x"
    using q x unfolding queues_ok_def by fastforce
  then have "held s (sg_g (sudogs s x)) x" using g unfolding gok_def Let_def by blast
  then show ?thesis using p by (simp add: held_def)
qed

lemma acquire_ok:
  assumes i: "core s"
  obtains x s' where "acquireSudog s = Inr (x, s')" "core s'" "fresh s' x" "same_but_sids s s'"
proof -
  have c: "sids_ok s" and g: "\<And>g. gok s g" and q: "queues_ok s" using i by (auto simp: core_def)
  have hd: "held s g x" if "pc_sid (g_pc (gs s g)) = Some x" for g x using g [of g] that by (simp add: gok_def Let_def)
  show thesis
  proof (cases "sudogcache s")
    case Nil
    define s' where "s' = set_sg (next_sid s) (\<lambda>_. new_sudog) (s\<lparr>next_sid := next_sid s + 1\<rparr>)"
    have other: "x \<noteq> next_sid s" if "held s g x" for g x using that by (simp add: held_def)
    have nq: "x \<noteq> next_sid s" if "x \<in> set (recvq (ch s)) \<or> x \<in> set (sendq (ch s))" for x
      using queued_sid_held [OF i that] by simp
    have "gok s' g" for g
      by (rule gok_cong [OF g]) (use other in \<open>auto simp: s'_def set_defs held_def\<close>)
    moreover have "queues_ok s'" using q nq by (auto simp: queues_ok_def s'_def set_defs)
    moreover have "sids_ok s'" using c by (auto simp: sids_ok_def s'_def set_defs new_sudog_def less_SucI)
    moreover have "pc_sid (g_pc (gs s g)) \<noteq> Some (next_sid s)" for g
      using hd [of g "next_sid s"] by (auto simp: held_def)
    then have "fresh s' (next_sid s)" using nq [of "next_sid s"] Nil
      by (auto simp: fresh_def s'_def set_defs new_sudog_def)
    ultimately show ?thesis using Nil i
      by (intro that [of "next_sid s" s'])
        (simp_all add: acquireSudog_def s'_def set_defs same_but_sids_def core_def)
  next
    case (Cons x rest)
    define s' where "s' = set_sg x (\<lambda>r. r\<lparr>sg_next := None\<rparr>) (s\<lparr>sudogcache := rest\<rparr>)"
    have x: "x \<notin> set rest" "sg_elem (sudogs s x) = None" "sg_next (sudogs s x) = None" "x < next_sid s" using c Cons by (auto simp: sids_ok_def)
    then have same: "sudogs s' = sudogs s" by (auto simp: s'_def set_defs)
    have "gok s' g" for g
      by (rule gok_cong [OF g]) (use Cons same in \<open>auto simp: s'_def set_defs held_def\<close>)
    moreover have "pc_sid (g_pc (gs s g)) \<noteq> Some x" for g using hd [of g x] Cons by (auto simp: held_def)
    then have "fresh s' x" using queued_sid_held [OF i, of x] x Cons same by (auto simp: fresh_def s'_def set_defs)
    moreover have "sids_ok s'" using c Cons same by (auto simp: sids_ok_def s'_def set_defs)
    ultimately show ?thesis using Cons i same x(2)
      by (intro that [of x s'])
        (simp_all add: acquireSudog_def s'_def set_defs same_but_sids_def core_def queues_ok_def)
  qed
qed


lemma release_ok:
  assumes i: "core s" and f: "fresh s x" and p: "g_param (gs s g) = None"
  obtains s' where "releaseSudog g x s = Inr s'" "core s'" "same_but_sids s s'"
proof -
  have c: "sids_ok s" and g: "\<And>g. gok s g" and q: "queues_ok s" using i by (auto simp: core_def)
  define s' where "s' = s\<lparr>sudogcache := x # sudogcache s\<rparr>"
  have "gok s' g" for g
  proof (rule gok_cong [OF g])
    fix y assume "pc_sid (g_pc (gs s g)) = Some y" "held s g y"
    then have "y \<noteq> x" using f by (auto simp: fresh_def)
    then show "sudogs s' y = sudogs s y \<and> y \<notin> set (sudogcache s') \<and>
       (y \<in> set (recvq (ch s')) \<longleftrightarrow> y \<in> set (recvq (ch s))) \<and> (y \<in> set (sendq (ch s')) \<longleftrightarrow> y \<in> set (sendq (ch s)))"
      using \<open>held s g y\<close> by (simp add: s'_def held_def)
  qed (simp_all add: s'_def)
  moreover have "queues_ok s'" using q by (simp add: queues_ok_def s'_def)
  moreover have "sids_ok s'" using c f by (auto simp: sids_ok_def s'_def fresh_def)
  moreover have "releaseSudog g x s = Inr s'"
    using f p c by (simp add: releaseSudog_def Let_def s'_def fresh_def sids_ok_def)
  ultimately show ?thesis by (intro that [of s']) (simp_all add: core_def same_but_sids_def s'_def)
qed

text \<open>Parking: the sudog is filled in and appended to a queue.\<close>

definition links_nil :: "sudog \<Rightarrow> bool" where
  "links_nil r \<longleftrightarrow> sg_selectdone r = None \<and> sg_next r = None \<and> sg_prev r = None \<and> sg_waitlink r = None"

lemma fresh_others:
  assumes "core s" "fresh s x" "g' \<noteq> g" "sudogs s' = (sudogs s)(x := r)" "gs s' = (gs s)(g := gr)"
    "runnable s' = runnable s" "sudogcache s' = sudogcache s" "next_sid s' = next_sid s"
    "dataqsiz (ch s') = dataqsiz (ch s)" "closed (ch s') = closed (ch s)"
    "set (recvq (ch s')) - {x} = set (recvq (ch s))" "set (sendq (ch s')) - {x} = set (sendq (ch s))"
  shows "gok s' g'"
proof (rule gok_cong [of s])
  fix y assume y: "pc_sid (g_pc (gs s g')) = Some y" "held s g' y"
  then have "y \<noteq> x" using assms(2) by (auto simp: fresh_def)
  then show "sudogs s' y = sudogs s y \<and> y \<notin> set (sudogcache s') \<and>
     (y \<in> set (recvq (ch s')) \<longleftrightarrow> y \<in> set (recvq (ch s))) \<and> (y \<in> set (sendq (ch s')) \<longleftrightarrow> y \<in> set (sendq (ch s)))"
    using y(2) assms(4,7) by (auto simp: held_def simp flip: assms(11,12))
qed (use assms in \<open>simp_all add: core_def\<close>)

lemma park_recv:
  assumes i: "core s" and f: "fresh s x" and r: "running g s"
    and sg: "sudogs s' = (sudogs s)(x := r)" "sg_g r = g" "links_nil r"
    and gs: "gs s' = (gs s)(g := gr)" "g_param gr = None"
    and same: "runnable s' = runnable s" "sudogcache s' = sudogcache s" "next_sid s' = next_sid s"
      "dataqsiz (ch s') = dataqsiz (ch s)" "closed (ch s') = closed (ch s)"
      "recvq (ch s') = recvq (ch s) @ [x]" "sendq (ch s') = sendq (ch s)"
    and pc: "g_pc gr = RecvSync x ep \<and> dataqsiz (ch s) = 0 \<and> g_waiting gr = Some x \<and> sg_elem r = ep \<or>
      g_pc gr = RecvAsync x ep \<and> dataqsiz (ch s) > 0 \<and> sg_elem r = None"
  shows "core s'"
proof -
  have c: "sids_ok s" and g: "\<And>g. gok s g" and q: "queues_ok s" using i by (auto simp: core_def)
  have x: "x < next_sid s" "x \<notin> set (sudogcache s)" "x \<notin> set (recvq (ch s))" "x \<notin> set (sendq (ch s))"
    using f by (auto simp: fresh_def)
  have "gok s' g'" for g'
  proof (cases "g' = g")
    case True
    have "gs s' g = gr" "sudogs s' x = r" "g \<notin> runnable s'" "held s' g x" "x \<in> set (recvq (ch s')) \<union> set (sendq (ch s'))"
      using r x sg(2) by (simp_all add: sg(1) gs(1) same held_def running_def)
    then show ?thesis using pc gs(2) same(4,6,7) by (elim disjE conjE) (simp_all add: gok_def Let_def True)
  next
    case False
    then show ?thesis using same x by (intro fresh_others [OF i f False sg(1) gs(1)]) auto
  qed
  moreover have notg: "sg_g (sudogs s y) \<noteq> g" if "y \<in> set (recvq (ch s)) \<or> y \<in> set (sendq (ch s))" for y
    using queued_sid_held [OF i that] r by (auto simp: running_def)
  have ny: "y \<noteq> x" if "y \<in> set (recvq (ch s)) \<or> y \<in> set (sendq (ch s))" for y using that x by auto
  have old: "sudogs s' y = sudogs s y \<and> gs s' (sg_g (sudogs s y)) = gs s (sg_g (sudogs s y))"
    if "y \<in> set (recvq (ch s)) \<or> y \<in> set (sendq (ch s))" for y
    using notg [OF that] ny [OF that] by (simp add: sg(1) gs(1))
  have "gs s' (sg_g (sudogs s' x)) = gr" by (simp add: sg(1,2) gs(1))
  then have "queues_ok s'" using q x old pc unfolding queues_ok_def same by (simp, blast)
  moreover have "sids_ok s'" using c x sg(3) unfolding sids_ok_def same sg(1) by (auto simp: links_nil_def)
  ultimately show ?thesis by (simp add: core_def)
qed

lemma park_send:
  assumes i: "core s" and f: "fresh s x" and r: "running g s"
    and sg: "sudogs s' = (sudogs s)(x := r)" "sg_g r = g" "links_nil r"
    and gs: "gs s' = (gs s)(g := gr)" "g_param gr = None"
    and same: "runnable s' = runnable s" "sudogcache s' = sudogcache s" "next_sid s' = next_sid s"
      "dataqsiz (ch s') = dataqsiz (ch s)" "closed (ch s') = closed (ch s)"
      "recvq (ch s') = recvq (ch s)" "sendq (ch s') = sendq (ch s) @ [x]"
    and pc: "g_pc gr = SendSync x \<and> dataqsiz (ch s) = 0 \<and> g_waiting gr = Some x \<and> sg_elem r = Some g \<or>
      g_pc gr = SendAsync x \<and> dataqsiz (ch s) > 0 \<and> sg_elem r = None"
  shows "core s'"
proof -
  have c: "sids_ok s" and g: "\<And>g. gok s g" and q: "queues_ok s" using i by (auto simp: core_def)
  have x: "x < next_sid s" "x \<notin> set (sudogcache s)" "x \<notin> set (recvq (ch s))" "x \<notin> set (sendq (ch s))"
    using f by (auto simp: fresh_def)
  have "gok s' g'" for g'
  proof (cases "g' = g")
    case True
    have "gs s' g = gr" "sudogs s' x = r" "g \<notin> runnable s'" "held s' g x" "x \<in> set (recvq (ch s')) \<union> set (sendq (ch s'))"
      using r x sg(2) by (simp_all add: sg(1) gs(1) same held_def running_def)
    then show ?thesis using pc gs(2) same(4,6,7) by (elim disjE conjE) (simp_all add: gok_def Let_def True)
  next
    case False
    then show ?thesis using same x by (intro fresh_others [OF i f False sg(1) gs(1)]) auto
  qed
  moreover have notg: "sg_g (sudogs s y) \<noteq> g" if "y \<in> set (recvq (ch s)) \<or> y \<in> set (sendq (ch s))" for y
    using queued_sid_held [OF i that] r by (auto simp: running_def)
  have ny: "y \<noteq> x" if "y \<in> set (recvq (ch s)) \<or> y \<in> set (sendq (ch s))" for y using that x by auto
  have old: "sudogs s' y = sudogs s y \<and> gs s' (sg_g (sudogs s y)) = gs s (sg_g (sudogs s y))"
    if "y \<in> set (recvq (ch s)) \<or> y \<in> set (sendq (ch s))" for y
    using notg [OF that] ny [OF that] by (simp add: sg(1) gs(1))
  have "gs s' (sg_g (sudogs s' x)) = gr" by (simp add: sg(1,2) gs(1))
  then have "queues_ok s'" using q x old pc unfolding queues_ok_def same by (simp, blast)
  moreover have "sids_ok s'" using c x sg(3) unfolding sids_ok_def same sg(1) by (auto simp: links_nil_def)
  ultimately show ?thesis by (simp add: core_def)
qed


text \<open>Waking: the sudog has left its queue, and its owner becomes runnable.\<close>

lemma wake_others:
  assumes "core s" "sg_g (sudogs s x) = r" "g \<noteq> r" "sudogs s' = (sudogs s)(x := y)" "gs s' = (gs s)(r := gr)"
    "runnable s' = insert r (runnable s)" "sudogcache s' = sudogcache s" "next_sid s' = next_sid s"
    "dataqsiz (ch s') = dataqsiz (ch s)" "closed (ch s) \<Longrightarrow> closed (ch s')"
    "set (recvq (ch s')) - {x} = set (recvq (ch s)) - {x}" "set (sendq (ch s')) - {x} = set (sendq (ch s)) - {x}"
  shows "gok s' g"
proof (rule gok_cong [of s])
  fix z assume z: "pc_sid (g_pc (gs s g)) = Some z" "held s g z"
  then have "z \<noteq> x" using assms(2,3) by (auto simp: held_def)
  then show "sudogs s' z = sudogs s z \<and> z \<notin> set (sudogcache s') \<and>
     (z \<in> set (recvq (ch s')) \<longleftrightarrow> z \<in> set (recvq (ch s))) \<and> (z \<in> set (sendq (ch s')) \<longleftrightarrow> z \<in> set (sendq (ch s)))"
    using z(2) assms(4,7,11,12) by (auto simp: held_def)
qed (use assms in \<open>simp_all add: core_def\<close>)

lemma head_waiter:
  assumes i: "core s"
  shows "recvq (ch s) = x # xs \<Longrightarrow> \<exists>ep. (g_pc (gs s (sg_g (sudogs s x))) = RecvSync x ep \<or>
      g_pc (gs s (sg_g (sudogs s x))) = RecvAsync x ep) \<and> sg_g (sudogs s x) \<notin> runnable s \<and> x \<notin> set xs"
    "sendq (ch s) = x # xs \<Longrightarrow> (g_pc (gs s (sg_g (sudogs s x))) = SendSync x \<or>
      g_pc (gs s (sg_g (sudogs s x))) = SendAsync x) \<and> sg_g (sudogs s x) \<notin> runnable s \<and> x \<notin> set xs"
proof -
  have q: "queues_ok s" and g: "gok s (sg_g (sudogs s x))" using i by (auto simp: core_def)
  let ?r = "sg_g (sudogs s x)"
  show "\<exists>ep. (g_pc (gs s ?r) = RecvSync x ep \<or> g_pc (gs s ?r) = RecvAsync x ep) \<and> ?r \<notin> runnable s \<and> x \<notin> set xs"
    if h: "recvq (ch s) = x # xs"
  proof -
    have x: "x \<in> set (recvq (ch s))" "x \<notin> set xs" using h q by (auto simp: queues_ok_def)
    then obtain ep where p: "g_pc (gs s ?r) = RecvSync x ep \<or> g_pc (gs s ?r) = RecvAsync x ep"
      using q by (auto simp: queues_ok_def)
    then have "?r \<notin> runnable s" using g x(1) by (elim disjE) (simp_all add: gok_def Let_def split: if_splits)
    then show ?thesis using p x(2) by blast
  qed
  show "(g_pc (gs s ?r) = SendSync x \<or> g_pc (gs s ?r) = SendAsync x) \<and> ?r \<notin> runnable s \<and> x \<notin> set xs"
    if h: "sendq (ch s) = x # xs"
  proof -
    have x: "x \<in> set (sendq (ch s))" "x \<notin> set xs" using h q by (auto simp: queues_ok_def)
    then have p: "g_pc (gs s ?r) = SendSync x \<or> g_pc (gs s ?r) = SendAsync x"
      using q by (auto simp: queues_ok_def)
    then have "?r \<notin> runnable s" using g x(1) by (elim disjE) (simp_all add: gok_def Let_def split: if_splits)
    then show ?thesis using p x(2) by blast
  qed
qed

lemma queue_owner_inj:
  assumes "core s" "x \<in> set (recvq (ch s)) \<or> x \<in> set (sendq (ch s))" "y \<in> set (recvq (ch s)) \<or> y \<in> set (sendq (ch s))"
    "sg_g (sudogs s x) = sg_g (sudogs s y)"
  shows "x = y"
proof -
  have "pc_sid (g_pc (gs s (sg_g (sudogs s x)))) = Some x" "pc_sid (g_pc (gs s (sg_g (sudogs s y)))) = Some y"
    using queued_sid_held [OF assms(1,2)] queued_sid_held [OF assms(1,3)] by blast+
  then show ?thesis unfolding assms(4) by simp
qed

lemma wake_recv:
  assumes i: "core s" and q: "recvq (ch s) = x # xs" and r: "r = sg_g (sudogs s x)"
    and sg: "sudogs s' = (sudogs s)(x := (sudogs s x)\<lparr>sg_elem := None\<rparr>)"
    and gs: "gs s' = (gs s)(r := (gs s r)\<lparr>g_param := p\<rparr>)"
    and same: "runnable s' = insert r (runnable s)" "sudogcache s' = sudogcache s" "next_sid s' = next_sid s"
      "dataqsiz (ch s') = dataqsiz (ch s)" "closed (ch s) \<Longrightarrow> closed (ch s')" "recvq (ch s') = xs" "sendq (ch s') = sendq (ch s)"
    and p: "p = Some x \<and> dataqsiz (ch s) = 0 \<or> p = None \<and> (dataqsiz (ch s) > 0 \<or> closed (ch s'))"
  shows "core s'"
proof -
  have c: "sids_ok s" and g: "\<And>g. gok s g" and qo: "queues_ok s" using i by (auto simp: core_def)
  obtain ep where h: "g_pc (gs s r) = RecvSync x ep \<or> g_pc (gs s r) = RecvAsync x ep" "r \<notin> runnable s" "x \<notin> set xs"
    using head_waiter(1) [OF i q] r by blast
  have xs: "x \<notin> set (sendq (ch s))" using h(1) qo r by (fastforce simp: queues_ok_def)
  have "gok s' g'" for g'
  proof (cases "g' = r")
    case True
    have "gs s' r = (gs s r)\<lparr>g_param := p\<rparr>" "sg_elem (sudogs s' x) = None" "sg_g (sudogs s' x) = sg_g (sudogs s x)" "r \<in> runnable s'" "x \<notin> set (recvq (ch s'))"
      using h(3) by (simp_all add: sg gs same)
    then show ?thesis using g [of r] h p same(2-4) unfolding True
      by (elim disjE conjE) (simp_all add: gok_def Let_def held_def)
  next
    case False
    then show ?thesis using same q by (intro wake_others [OF i r [symmetric] False sg gs]) auto
  qed
  moreover have old: "sudogs s' y = sudogs s y \<and> gs s' (sg_g (sudogs s y)) = gs s (sg_g (sudogs s y))"
    if "y \<in> set xs \<or> y \<in> set (sendq (ch s))" for y
  proof -
    have "y \<noteq> x" using that h(3) xs by auto
    moreover have "sg_g (sudogs s y) \<noteq> r" using queue_owner_inj [OF i, of x y] that q r \<open>y \<noteq> x\<close> by auto
    ultimately show ?thesis by (simp add: sg gs)
  qed
  then have "queues_ok s'" using qo q unfolding queues_ok_def same by simp
  moreover have "sids_ok s'" using c unfolding sids_ok_def same sg by simp
  ultimately show ?thesis by (simp add: core_def)
qed

lemma wake_send:
  assumes i: "core s" and q: "sendq (ch s) = x # xs" and r: "r = sg_g (sudogs s x)"
    and sg: "sudogs s' = (sudogs s)(x := (sudogs s x)\<lparr>sg_elem := None\<rparr>)"
    and gs: "gs s' = (gs s)(r := (gs s r)\<lparr>g_param := p\<rparr>)"
    and same: "runnable s' = insert r (runnable s)" "sudogcache s' = sudogcache s" "next_sid s' = next_sid s"
      "dataqsiz (ch s') = dataqsiz (ch s)" "closed (ch s) \<Longrightarrow> closed (ch s')" "recvq (ch s') = recvq (ch s)" "sendq (ch s') = xs"
    and p: "p = Some x \<and> dataqsiz (ch s) = 0 \<or> p = None \<and> (dataqsiz (ch s) > 0 \<or> closed (ch s'))"
  shows "core s'"
proof -
  have c: "sids_ok s" and g: "\<And>g. gok s g" and qo: "queues_ok s" using i by (auto simp: core_def)
  have h: "g_pc (gs s r) = SendSync x \<or> g_pc (gs s r) = SendAsync x" "r \<notin> runnable s" "x \<notin> set xs"
    using head_waiter(2) [OF i q] r by blast+
  have xs: "x \<notin> set (recvq (ch s))" using h(1) qo r by (fastforce simp: queues_ok_def)
  have "gok s' g'" for g'
  proof (cases "g' = r")
    case True
    have "gs s' r = (gs s r)\<lparr>g_param := p\<rparr>" "sg_elem (sudogs s' x) = None" "sg_g (sudogs s' x) = sg_g (sudogs s x)" "r \<in> runnable s'" "x \<notin> set (sendq (ch s'))"
      using h(3) by (simp_all add: sg gs same)
    then show ?thesis using g [of r] h p same(2-4) unfolding True
      by (elim disjE conjE) (simp_all add: gok_def Let_def held_def)
  next
    case False
    then show ?thesis using same q by (intro wake_others [OF i r [symmetric] False sg gs]) auto
  qed
  moreover have old: "sudogs s' y = sudogs s y \<and> gs s' (sg_g (sudogs s y)) = gs s (sg_g (sudogs s y))"
    if "y \<in> set (recvq (ch s)) \<or> y \<in> set xs" for y
  proof -
    have "y \<noteq> x" using that h(3) xs by auto
    moreover have "sg_g (sudogs s y) \<noteq> r" using queue_owner_inj [OF i, of x y] that q r \<open>y \<noteq> x\<close> by auto
    ultimately show ?thesis by (simp add: sg gs)
  qed
  then have "queues_ok s'" using qo q unfolding queues_ok_def same by simp
  moreover have "sids_ok s'" using c unfolding sids_ok_def same sg by simp
  ultimately show ?thesis by (simp add: core_def)
qed

end
