(* ===== verification/Go_Chan_Inv.thy ===== *)
theory Go_Chan_Inv
  imports Go_Chan
begin

text \<open>
  Every operation on a channel keeps the invariant of \<open>Go_Chan\<close>, hence every run does; what follows
  for the program: first in first out delivery with nothing lost or duplicated, no reachable
  \<open>throw\<close> (but for the tests of links, which lists do not have), no lost wake-up, and the meaning of \<open>close\<close> and of the non-blocking operations.
\<close>

section \<open>The circular buffer\<close>

lemma wrap: "a < d \<Longrightarrow> i < d \<Longrightarrow> (a + i) mod d = (if a + i < d then a + i else a + i - d)" for a i d :: nat
  by (simp add: le_mod_geq)

lemma wrap_inj: "a < d \<Longrightarrow> i < d \<Longrightarrow> j < d \<Longrightarrow> i \<noteq> j \<Longrightarrow> (a + i) mod d \<noteq> (a + j) mod d" for a i d :: nat
  by (auto simp: wrap split: if_splits)

lemma wrap_Suc: "x < d \<Longrightarrow> (if x + 1 = d then 0 else x + 1) = (x + 1) mod d" for x d :: nat
  by (simp add: mod_Suc)

lemma write_buf:
  assumes b: "buf_ok c" and q: "qcount c < dataqsiz c"
    and c': "c' = c\<lparr>buf := (buf c)[sendx c := v], sendx := (if sendx c + 1 = dataqsiz c then 0 else sendx c + 1), qcount := qcount c + 1\<rparr>"
  shows "buf_ok c'" "contents c' = contents c @ [v]"
proof -
  let ?d = "dataqsiz c"
  have d: "0 < ?d" "recvx c < ?d" "length (buf c) = ?d" "sendx c = (recvx c + qcount c) mod ?d" "sendx c < ?d"
    using b q by (auto simp: buf_ok_def)
  have "(sendx c + 1) mod ?d = (recvx c + (qcount c + 1)) mod ?d" by (simp add: d(4) mod_Suc_eq)
  then show "buf_ok c'" using d q b wrap_Suc [OF d(5)] by (simp add: buf_ok_def c')
  have "sendx c \<noteq> (recvx c + i) mod ?d" if "i < qcount c" for i
    using wrap_inj [OF d(2), of "qcount c" i] that q d(4) by simp
  then have "map (\<lambda>i. (buf c)[sendx c := v] ! ((recvx c + i) mod ?d)) [0..<qcount c] = contents c"
    by (simp add: contents_def nth_list_update_neq)
  moreover have "(buf c)[sendx c := v] ! ((recvx c + qcount c) mod ?d) = v" using d by simp
  ultimately show "contents c' = contents c @ [v]" by (simp add: contents_def c')
qed

lemma read_buf:
  assumes b: "buf_ok c" and q: "0 < qcount c"
    and c': "c' = c\<lparr>buf := (buf c)[recvx c := z], recvx := (if recvx c + 1 = dataqsiz c then 0 else recvx c + 1), qcount := qcount c - 1\<rparr>"
  shows "buf_ok c'" "contents c = buf c ! recvx c # contents c'"
proof -
  let ?d = "dataqsiz c"
  have d: "0 < ?d" "recvx c < ?d" "length (buf c) = ?d" "sendx c = (recvx c + qcount c) mod ?d" "qcount c \<le> ?d"
    using b q by (auto simp: buf_ok_def)
  have r: "((recvx c + 1) mod ?d + i) mod ?d = (recvx c + Suc i) mod ?d" for i
    by (metis add.assoc mod_add_left_eq plus_1_eq_Suc)
  have "sendx c = ((recvx c + 1) mod ?d + (qcount c - 1)) mod ?d" using q by (simp only: d(4) r) simp
  then show "buf_ok c'" using d q b wrap_Suc [OF d(2)] by (simp add: buf_ok_def c')
  have ne: "recvx c \<noteq> (recvx c + Suc i) mod ?d" if "i < qcount c - 1" for i
    using wrap_inj [OF d(2), of 0 "Suc i"] that d by simp
  have f: "recvx c' = (recvx c + 1) mod ?d" "qcount c' = qcount c - 1" "dataqsiz c' = ?d" "buf c' = (buf c)[recvx c := z]"
    using wrap_Suc [OF d(2)] by (simp_all add: c')
  have "contents c = map (\<lambda>i. buf c ! ((recvx c + i) mod ?d)) (0 # map Suc [0..<qcount c - 1])"
    using q by (simp add: contents_def map_Suc_upt upt_conv_Cons)
  also have "\<dots> = buf c ! recvx c # map (\<lambda>i. buf c ! ((recvx c + Suc i) mod ?d)) [0..<qcount c - 1]"
    using d by (simp add: comp_def)
  also have "map (\<lambda>i. buf c ! ((recvx c + Suc i) mod ?d)) [0..<qcount c - 1] = contents c'"
    unfolding contents_def f r using ne by (intro map_cong refl) (simp add: nth_list_update_neq)
  finally show "contents c = buf c ! recvx c # contents c'" .
qed

section \<open>Woken waiters\<close>

text \<open>Goroutines that have been woken but have not run yet. While one of them could make progress
  somebody else may still be queued: the counts say that for each waiting element (or free place)
  one waiter is on its way. The slack \<open>k\<close> is 1 while such a goroutine is executing.\<close>

definition woken_recv :: "'v world \<Rightarrow> gid set" where
  "woken_recv s = {g \<in> runnable s. \<exists>x ep. g_pc (gs s g) = RecvAsync x ep}"

definition woken_send :: "'v world \<Rightarrow> gid set" where
  "woken_send s = {g \<in> runnable s. \<exists>x. g_pc (gs s g) = SendAsync x}"

definition wakes :: "nat \<Rightarrow> nat \<Rightarrow> 'v world \<Rightarrow> bool" where
  "wakes kr ks s \<longleftrightarrow>
     (recvq (ch s) \<noteq> [] \<longrightarrow> qcount (ch s) \<le> card (woken_recv s) + kr) \<and>
     (sendq (ch s) \<noteq> [] \<longrightarrow> dataqsiz (ch s) - qcount (ch s) \<le> card (woken_send s) + ks)"

definition good :: "'v world \<Rightarrow> bool" where
  "good s \<longleftrightarrow> inv s \<and> wakes 0 0 s"

lemma finite_woken: "core s \<Longrightarrow> finite (woken_recv s) \<and> finite (woken_send s)"
  by (simp add: core_def sids_ok_def woken_recv_def woken_send_def)

lemma inv_core: "inv s \<Longrightarrow> core s" and inv_sids: "inv s \<Longrightarrow> sids_ok s"
  by (simp_all add: inv_def core_def)

lemma running_param: "core s \<Longrightarrow> running g s \<Longrightarrow> g_param (gs s g) = None"
proof -
  assume "core s" and r: "running g s"
  then have "gok s g" by (simp add: core_def)
  then show ?thesis using r by (simp add: running_def gok_def Let_def)
qed


lemma core_cong:
  assumes "core s" "gs s' = gs s" "runnable s' = runnable s" "sudogs s' = sudogs s" "sudogcache s' = sudogcache s"
    "next_sid s' = next_sid s" "dataqsiz (ch s') = dataqsiz (ch s)" "closed (ch s') = closed (ch s)"
    "recvq (ch s') = recvq (ch s)" "sendq (ch s') = sendq (ch s)"
  shows "core s'"
proof -
  have "gok s' g" for g
  proof (rule gok_cong [of s])
    show "gok s g" using assms(1) by (simp add: core_def)
  qed (simp_all add: assms(2-) held_def)
  moreover have "queues_ok s'" "sids_ok s'"
    using assms(1) unfolding core_def queues_ok_def sids_ok_def assms(2-) by blast+
  ultimately show ?thesis by (simp add: core_def)
qed

lemma waiter_facts:
  assumes i: "core s"
  shows "recvq (ch s) = x # xs \<Longrightarrow> dataqsiz (ch s) > 0 \<Longrightarrow>
      (\<exists>ep. g_pc (gs s (sg_g (sudogs s x))) = RecvAsync x ep) \<and> sg_elem (sudogs s x) = None \<and> g_param (gs s (sg_g (sudogs s x))) = None"
    "recvq (ch s) = x # xs \<Longrightarrow> dataqsiz (ch s) = 0 \<Longrightarrow> g_pc (gs s (sg_g (sudogs s x))) = RecvSync x (sg_elem (sudogs s x))"
    "sendq (ch s) = x # xs \<Longrightarrow> dataqsiz (ch s) > 0 \<Longrightarrow>
      g_pc (gs s (sg_g (sudogs s x))) = SendAsync x \<and> sg_elem (sudogs s x) = None \<and> g_param (gs s (sg_g (sudogs s x))) = None"
    "sendq (ch s) = x # xs \<Longrightarrow> dataqsiz (ch s) = 0 \<Longrightarrow>
      g_pc (gs s (sg_g (sudogs s x))) = SendSync x \<and> sg_elem (sudogs s x) = Some (sg_g (sudogs s x))"
proof -
  let ?r = "sg_g (sudogs s x)"
  have g: "gok s ?r" using i by (simp add: core_def)
  have 1: "g_pc (gs s ?r) = RecvSync x ep \<Longrightarrow> ?r \<notin> runnable s \<Longrightarrow> dataqsiz (ch s) = 0 \<and> sg_elem (sudogs s x) = ep" for ep
    using g by (simp add: gok_def Let_def)
  have 2: "g_pc (gs s ?r) = RecvAsync x ep \<Longrightarrow> dataqsiz (ch s) > 0 \<and> sg_elem (sudogs s x) = None \<and> g_param (gs s ?r) = None" for ep
    using g by (simp add: gok_def Let_def)
  have 3: "g_pc (gs s ?r) = SendSync x \<Longrightarrow> ?r \<notin> runnable s \<Longrightarrow> dataqsiz (ch s) = 0 \<and> sg_elem (sudogs s x) = Some ?r"
    using g by (simp add: gok_def Let_def)
  have 4: "g_pc (gs s ?r) = SendAsync x \<Longrightarrow> dataqsiz (ch s) > 0 \<and> sg_elem (sudogs s x) = None \<and> g_param (gs s ?r) = None"
    using g by (simp add: gok_def Let_def)
  show "(\<exists>ep. g_pc (gs s ?r) = RecvAsync x ep) \<and> sg_elem (sudogs s x) = None \<and> g_param (gs s ?r) = None"
    if "recvq (ch s) = x # xs" "dataqsiz (ch s) > 0"
    using head_waiter(1) [OF i that(1)] 1 2 that(2) by (metis less_irrefl)
  show "g_pc (gs s ?r) = RecvSync x (sg_elem (sudogs s x))" if "recvq (ch s) = x # xs" "dataqsiz (ch s) = 0"
    using head_waiter(1) [OF i that(1)] 1 2 that(2) by (metis less_irrefl)
  show "g_pc (gs s ?r) = SendAsync x \<and> sg_elem (sudogs s x) = None \<and> g_param (gs s ?r) = None"
    if "sendq (ch s) = x # xs" "dataqsiz (ch s) > 0"
    using head_waiter(2) [OF i that(1)] 3 4 that(2) by (metis less_irrefl)
  show "g_pc (gs s ?r) = SendSync x \<and> sg_elem (sudogs s x) = Some ?r" if "sendq (ch s) = x # xs" "dataqsiz (ch s) = 0"
    using head_waiter(2) [OF i that(1)] 3 4 that(2) by (metis less_irrefl)
qed

lemma goready_ok: "g \<notin> runnable s \<Longrightarrow> g_pc (gs s g) \<noteq> Running \<Longrightarrow> goready g s = Inr (s\<lparr>runnable := insert g (runnable s)\<rparr>)"
  by (simp add: goready_def)

lemma upd_same: "sg_elem (f x) = None \<Longrightarrow> f(x := (f x)\<lparr>sg_elem := None\<rparr>) = f"
  "g_param (h g) = None \<Longrightarrow> h(g := (h g)\<lparr>g_param := None\<rparr>) = h"
  by (auto simp: fun_eq_iff)

lemma card_woken_insert:
  assumes "core s" "r \<notin> runnable s" "gs s' = gs s" "runnable s' = insert r (runnable s)"
  shows "g_pc (gs s r) = RecvAsync x ep \<Longrightarrow> card (woken_recv s') = Suc (card (woken_recv s)) \<and> woken_send s' = woken_send s"
    "g_pc (gs s r) = SendAsync x \<Longrightarrow> card (woken_send s') = Suc (card (woken_send s)) \<and> woken_recv s' = woken_recv s"
proof -
  have f: "finite (woken_recv s)" "finite (woken_send s)" "r \<notin> woken_recv s" "r \<notin> woken_send s"
    using finite_woken [OF assms(1)] assms(2) by (auto simp: woken_recv_def woken_send_def)
  show "card (woken_recv s') = Suc (card (woken_recv s)) \<and> woken_send s' = woken_send s" if p: "g_pc (gs s r) = RecvAsync x ep"
  proof -
    have "woken_recv s' = insert r (woken_recv s)" "woken_send s' = woken_send s"
      using p by (auto simp: woken_recv_def woken_send_def assms)
    then show ?thesis using f by simp
  qed
  show "card (woken_send s') = Suc (card (woken_send s)) \<and> woken_recv s' = woken_recv s" if p: "g_pc (gs s r) = SendAsync x"
  proof -
    have "woken_send s' = insert r (woken_send s)" "woken_recv s' = woken_recv s"
      using p by (auto simp: woken_recv_def woken_send_def assms)
    then show ?thesis using f by simp
  qed
qed

lemma woken_cong: "gs s' = gs s \<Longrightarrow> runnable s' = runnable s \<Longrightarrow> woken_recv s' = woken_recv s \<and> woken_send s' = woken_send s"
  by (simp add: woken_recv_def woken_send_def)

section \<open>Sending\<close>

lemma chansend_write_good:
  assumes i: "inv s" and w: "wakes 0 1 s" and q: "qcount (ch s) < dataqsiz (ch s)" and nc: "\<not> closed (ch s)" and r: "running g s"
  shows "\<exists>s'. chansend_write g s = (Selected True, s') \<and> good s' \<and> running g s'"
proof -
  define c' where "c' = (ch s)\<lparr>buf := (buf (ch s))[sendx (ch s) := slots s g],
    sendx := (if sendx (ch s) + 1 = dataqsiz (ch s) then 0 else sendx (ch s) + 1), qcount := qcount (ch s) + 1\<rparr>"
  define s1 where "s1 = s\<lparr>ch := c', sent_log := sent_log s @ [(g, slots s g)]\<rparr>"
  have b: "buf_ok c'" "contents c' = contents (ch s) @ [slots s g]"
    using write_buf [OF _ q c'_def] i by (auto simp: inv_def)
  have c: "core s1" by (rule core_cong [OF inv_core [OF i]]) (simp_all add: s1_def c'_def)
  have l: "log_ok s1" using i b(2) by (simp add: log_ok_def inv_def s1_def)
  have d: "dataqsiz (ch s1) > 0" using q by (simp add: s1_def c'_def)
  have unf: "chansend_write g s = (case dequeue_recvq s1 of
      (Some sg, s) \<Rightarrow> ok_or (goready (sg_g (sudogs s sg)) s) (Selected True) s | (None, s) \<Rightarrow> (Selected True, s))"
    by (simp add: chansend_write_def Let_def set_ch_def s1_def c'_def cong: if_cong)
  have qs: "recvq (ch s1) = recvq (ch s)" "sendq (ch s1) = sendq (ch s)" "gs s1 = gs s" "runnable s1 = runnable s"
    "qcount (ch s1) = qcount (ch s) + 1" "dataqsiz (ch s1) = dataqsiz (ch s)" "closed (ch s1) = closed (ch s)"
    by (simp_all add: s1_def c'_def)
  have w1: "recvq (ch s) \<noteq> [] \<longrightarrow> qcount (ch s) \<le> card (woken_recv s1)"
    "sendq (ch s) \<noteq> [] \<longrightarrow> dataqsiz (ch s) - (qcount (ch s) + 1) \<le> card (woken_send s1)"
    using w woken_cong [of s1 s] qs by (auto simp: wakes_def)
  show ?thesis
  proof (cases "recvq (ch s)")
    case Nil
    then have "chansend_write g s = (Selected True, s1)"
      using qs by (simp add: unf dequeue_recvq_eq [OF c [unfolded core_def, THEN conjunct2, THEN conjunct2]])
    moreover have "good s1" using c l b(1) w1 nc Nil d qs
      by (simp add: good_def inv_def wakes_def closed_ok_def) (simp add: s1_def)
    ultimately show ?thesis using r qs by (simp add: running_def)
  next
    case (Cons x xs)
    define r1 where "r1 = sg_g (sudogs s1 x)"
    define s2 where "s2 = s1\<lparr>ch := (ch s1)\<lparr>recvq := xs\<rparr>, runnable := insert r1 (runnable s1)\<rparr>"
    have x: "recvq (ch s1) = x # xs" using Cons qs by simp
    obtain ep where p: "g_pc (gs s1 r1) = RecvAsync x ep" "sg_elem (sudogs s1 x) = None" "g_param (gs s1 r1) = None"
      using waiter_facts(1) [OF c x d] r1_def by blast
    have nr: "r1 \<notin> runnable s1" using head_waiter(1) [OF c x] r1_def by blast
    have "core s2" by (rule wake_recv [OF c x r1_def, where p = None]) (use d p in \<open>simp_all add: s2_def upd_same\<close>)
    moreover have "wakes 0 0 s2"
      using card_woken_insert(1) [OF c nr, of s2] p(1) w1 Cons qs by (simp add: s2_def wakes_def)
    moreover have "chansend_write g s = (Selected True, s2)"
      using nr p(1) x unfolding unf dequeue_recvq_eq [OF c [unfolded core_def, THEN conjunct2, THEN conjunct2]] r1_def
      by (simp add: goready_def ok_or_def s2_def set_ch_def r1_def)
    moreover have "running g s2" using r p(1) qs by (auto simp: running_def s2_def)
    moreover have "closed_ok s2" "buf_ok (ch s2)" "log_ok s2"
      using nc d qs b(1) l by (simp_all add: closed_ok_def s2_def buf_ok_def log_ok_def contents_def) (simp_all add: s1_def)
    ultimately show ?thesis by (simp add: good_def inv_def)
  qed
qed

text \<open>What every operation guarantees to its caller.\<close>

definition op_ok :: "gid \<Rightarrow> outcome \<times> 'v world \<Rightarrow> bool" where
  "op_ok g r \<longleftrightarrow> good (snd r) \<and> \<not> is_throw (fst r) \<and> (fst r \<noteq> Parked \<longrightarrow> running g (snd r))"

lemma op_okI: "good s \<Longrightarrow> \<not> is_throw out \<Longrightarrow> out \<noteq> Parked \<longrightarrow> running g s \<Longrightarrow> op_ok g (out, s)"
  by (simp add: op_ok_def)

lemma not_throw [simp]: "\<not> is_throw (Selected b)" "\<not> is_throw (Received a b)" "\<not> is_throw Parked" "\<not> is_throw Closed_ok"
  "\<not> is_throw (Failed (PanicMsg m))" "is_throw (Failed (Throw m))"
  by (auto simp: is_throw_def)

lemma woken_upd:
  "g \<notin> runnable s \<Longrightarrow> gs s' = (gs s)(g := r) \<Longrightarrow> runnable s' = runnable s \<Longrightarrow>
   woken_recv s' = woken_recv s \<and> woken_send s' = woken_send s"
  by (auto simp: woken_recv_def woken_send_def split: if_splits)

lemma data_cong:
  assumes "inv s" "qcount (ch s') = qcount (ch s)" "dataqsiz (ch s') = dataqsiz (ch s)" "buf (ch s') = buf (ch s)"
    "recvx (ch s') = recvx (ch s)" "sendx (ch s') = sendx (ch s)"
    "map snd (sent_log s') = map snd (sent_log s) @ l" "map snd (recv_log s') = map snd (recv_log s) @ l" "contents (ch s) = [] \<or> l = []"
  shows "buf_ok (ch s')" "log_ok s'"
proof -
  show "buf_ok (ch s')" using assms(1) unfolding inv_def buf_ok_def assms(2-6) by blast
  have "contents (ch s') = contents (ch s)" unfolding contents_def assms(2-6) ..
  then show "log_ok s'" using assms(1,9) unfolding inv_def log_ok_def assms(7,8) by auto
qed

lemma core_sids: "core s \<Longrightarrow> sids_ok s"
  by (simp add: core_def)

lemma sids_links: "sids_ok s \<Longrightarrow> sg_next (sudogs s x) = None \<and> sg_prev (sudogs s x) = None \<and> sg_waitlink (sudogs s x) = None"
  by (simp add: sids_ok_def)

lemma chansend_async_good:
  assumes i: "inv s" and w: "wakes 0 1 s" and d: "dataqsiz (ch s) > 0" and nc: "\<not> closed (ch s)" and r: "running g s"
  shows "op_ok g (chansend_async g block s)"
proof (cases "qcount (ch s) \<ge> dataqsiz (ch s)")
  case False
  then have "qcount (ch s) < dataqsiz (ch s)" by simp
  from chansend_write_good [OF i w this nc r] show ?thesis using False
    by (auto simp: chansend_async_def op_ok_def)
next
  case full: True
  have w0: "recvq (ch s) \<noteq> [] \<longrightarrow> qcount (ch s) \<le> card (woken_recv s)" using w by (simp add: wakes_def)
  show ?thesis
  proof (cases block)
    case False
    then have "chansend_async g block s = (Selected False, s)" using full by (simp add: chansend_async_def)
    moreover have "good s" using i w0 full by (simp add: good_def wakes_def)
    ultimately show ?thesis using r by (simp add: op_okI)
  next
    case True
    obtain x s1 where a: "acquireSudog s = Inr (x, s1)" and c1: "core s1" and f: "fresh s1 x" and sm: "same_but_sids s s1"
      using acquire_ok [OF inv_core [OF i]] .
    define s' where "s' = set_g g (\<lambda>r. r\<lparr>g_pc := SendAsync x\<rparr>) (set_ch (\<lambda>c. c\<lparr>sendq := lenqueue (sendq c) x\<rparr>)
      (set_sg x (\<lambda>r. r\<lparr>sg_g := g, sg_elem := None, sg_selectdone := None\<rparr>) s1))"
    have eq: "chansend_async g block s = (Parked, s')"
      using full True a by (simp add: chansend_async_def Let_def s'_def)
    have r1: "running g s1" using r sm by (simp add: running_def same_but_sids_def)
    have links: "links_nil ((sudogs s1 x)\<lparr>sg_g := g, sg_elem := None, sg_selectdone := None\<rparr>)"
      using sids_links [OF core_sids [OF c1]] by (simp add: links_nil_def)
    have p: "g_param (gs s1 g) = None" using running_param [OF c1 r1] .
    have gs': "gs s' = (gs s1)(g := (gs s1 g)\<lparr>g_pc := SendAsync x\<rparr>)" and run': "runnable s' = runnable s1"
      and ch': "ch s' = (ch s1)\<lparr>sendq := sendq (ch s1) @ [x]\<rparr>"
      by (simp_all add: s'_def set_defs)
    have d1: "dataqsiz (ch s1) > 0" "closed (ch s1) = closed (ch s)" using d sm by (simp_all add: same_but_sids_def)
    have "core s'"
      by (rule park_send [OF c1 f r1 _ _ links gs'])
        (use p d1 in \<open>simp_all add: s'_def set_defs\<close>)
    moreover have "woken_recv s' = woken_recv s"
      using woken_upd [OF _ gs' run'] r1 sm woken_cong [of s1 s] by (simp add: running_def same_but_sids_def)
    then have "wakes 0 0 s'" using w0 full ch' sm by (simp add: wakes_def same_but_sids_def)
    moreover have "closed_ok s'" using nc d ch' sm by (simp add: closed_ok_def same_but_sids_def)
    moreover have "buf_ok (ch s')" "log_ok s'"
      by (rule data_cong [OF i, where l = "[]"]; use sm in \<open>simp add: s'_def set_defs same_but_sids_def\<close>)+
    ultimately show ?thesis unfolding eq by (intro op_okI) (simp_all add: good_def inv_def)
  qed
qed

lemma sync_empty: "inv s \<Longrightarrow> dataqsiz (ch s) = 0 \<Longrightarrow> qcount (ch s) = 0 \<and> contents (ch s) = []"
  by (simp add: inv_def buf_ok_def contents_def)

lemma sync_wakes: "inv s \<Longrightarrow> dataqsiz (ch s) = 0 \<Longrightarrow> wakes kr ks s"
  using sync_empty [of s] by (simp add: wakes_def)

lemma closed_wakes: "inv s \<Longrightarrow> closed (ch s) \<Longrightarrow> wakes kr ks s"
  by (auto simp: wakes_def inv_def closed_ok_def)

lemma sync_handoff_recv:
  assumes i: "inv s" and d: "dataqsiz (ch s) = 0" and x: "recvq (ch s) = x # xs" and nc: "\<not> closed (ch s)" and r: "running g s"
    and r1: "r1 = sg_g (sudogs s x)"
    and s': "sudogs s' = (sudogs s)(x := (sudogs s x)\<lparr>sg_elem := None\<rparr>)" "gs s' = (gs s)(r1 := (gs s r1)\<lparr>g_param := Some x\<rparr>)"
      "runnable s' = insert r1 (runnable s)" "sudogcache s' = sudogcache s" "next_sid s' = next_sid s"
      "ch s' = (ch s)\<lparr>recvq := xs\<rparr>" "sent_log s' = sent_log s @ [(g1, v)]" "recv_log s' = recv_log s @ [(r2, v)]"
  shows "good s'" "running g s'"
proof -
  have c: "core s'"
    by (rule wake_recv [OF inv_core [OF i] x r1, where p = "Some x"]) (simp_all add: s' d)
  have "closed_ok s'" using i nc x by (simp add: inv_def closed_ok_def s' d)
  moreover have "buf_ok (ch s')" "log_ok s'"
    by (rule data_cong [OF i, where l = "[v]"]; use sync_empty [OF i d] in \<open>simp add: s'\<close>)+
  ultimately have "inv s'" using c by (simp add: inv_def)
  then show "good s'" using sync_wakes [of s'] d by (simp add: good_def s')
  show "running g s'" using r waiter_facts(2) [OF inv_core [OF i] x d] by (auto simp: running_def s' r1)
qed

lemma sync_handoff_send:
  assumes i: "inv s" and d: "dataqsiz (ch s) = 0" and x: "sendq (ch s) = x # xs" and nc: "\<not> closed (ch s)" and r: "running g s"
    and r1: "r1 = sg_g (sudogs s x)"
    and s': "sudogs s' = (sudogs s)(x := (sudogs s x)\<lparr>sg_elem := None\<rparr>)" "gs s' = (gs s)(r1 := (gs s r1)\<lparr>g_param := Some x\<rparr>)"
      "runnable s' = insert r1 (runnable s)" "sudogcache s' = sudogcache s" "next_sid s' = next_sid s"
      "ch s' = (ch s)\<lparr>sendq := xs\<rparr>" "sent_log s' = sent_log s @ [(g1, v)]" "recv_log s' = recv_log s @ [(r2, v)]"
  shows "good s'" "running g s'"
proof -
  have c: "core s'"
    by (rule wake_send [OF inv_core [OF i] x r1, where p = "Some x"]) (simp_all add: s' d)
  have "closed_ok s'" using i nc x by (simp add: inv_def closed_ok_def s' d)
  moreover have "buf_ok (ch s')" "log_ok s'"
    by (rule data_cong [OF i, where l = "[v]"]; use sync_empty [OF i d] in \<open>simp add: s'\<close>)+
  ultimately have "inv s'" using c by (simp add: inv_def)
  then show "good s'" using sync_wakes [of s'] d by (simp add: good_def s')
  show "running g s'" using r waiter_facts(4) [OF inv_core [OF i] x d] by (auto simp: running_def s' r1)
qed

lemma sync_park_send:
  assumes i: "inv s" and d: "dataqsiz (ch s) = 0" and nc: "\<not> closed (ch s)" and e: "recvq (ch s) = []" and r: "running g s"
    and a: "acquireSudog s = Inr (x, s1)" "core s1" "fresh s1 x" "same_but_sids s s1"
    and s': "sudogs s' = (sudogs s1)(x := r')" "sg_g r' = g" "links_nil r'" "sg_elem r' = Some g"
      "gs s' = (gs s1)(g := gr)" "g_param gr = None" "g_pc gr = SendSync x" "g_waiting gr = Some x"
      "runnable s' = runnable s1" "sudogcache s' = sudogcache s1" "next_sid s' = next_sid s1"
      "ch s' = (ch s1)\<lparr>sendq := sendq (ch s1) @ [x]\<rparr>" "sent_log s' = sent_log s1" "recv_log s' = recv_log s1"
  shows "good s'"
proof -
  have ch: "ch s1 = ch s" and sm: "runnable s1 = runnable s" "sent_log s1 = sent_log s" "recv_log s1 = recv_log s"
    using a(4) by (simp_all add: same_but_sids_def)
  have r1: "running g s1" using r a(4) by (simp add: running_def same_but_sids_def)
  have c: "core s'"
    by (rule park_send [OF a(2,3) r1 s'(1,2,3,5,6)]) (simp_all add: s' d ch)
  have "closed_ok s'" using nc e d by (simp add: closed_ok_def s' ch)
  moreover have "buf_ok (ch s')" "log_ok s'"
    by (rule data_cong [OF i, where l = "[]"]; simp add: s' ch sm)+
  ultimately have "inv s'" using c by (simp add: inv_def)
  then show "good s'" using sync_wakes [of s'] d by (simp add: good_def s' ch)
qed

lemma sync_park_recv:
  assumes i: "inv s" and d: "dataqsiz (ch s) = 0" and nc: "\<not> closed (ch s)" and e: "sendq (ch s) = []" and r: "running g s"
    and a: "acquireSudog s = Inr (x, s1)" "core s1" "fresh s1 x" "same_but_sids s s1"
    and s': "sudogs s' = (sudogs s1)(x := r')" "sg_g r' = g" "links_nil r'" "sg_elem r' = ep"
      "gs s' = (gs s1)(g := gr)" "g_param gr = None" "g_pc gr = RecvSync x ep" "g_waiting gr = Some x"
      "runnable s' = runnable s1" "sudogcache s' = sudogcache s1" "next_sid s' = next_sid s1"
      "ch s' = (ch s1)\<lparr>recvq := recvq (ch s1) @ [x]\<rparr>" "sent_log s' = sent_log s1" "recv_log s' = recv_log s1"
  shows "good s'"
proof -
  have ch: "ch s1 = ch s" and sm: "runnable s1 = runnable s" "sent_log s1 = sent_log s" "recv_log s1 = recv_log s"
    using a(4) by (simp_all add: same_but_sids_def)
  have r1: "running g s1" using r a(4) by (simp add: running_def same_but_sids_def)
  have c: "core s'"
    by (rule park_recv [OF a(2,3) r1 s'(1,2,3,5,6)]) (simp_all add: s' d ch)
  have "closed_ok s'" using nc e d by (simp add: closed_ok_def s' ch)
  moreover have "buf_ok (ch s')" "log_ok s'"
    by (rule data_cong [OF i, where l = "[]"]; simp add: s' ch sm)+
  ultimately have "inv s'" using c by (simp add: inv_def)
  then show "good s'" using sync_wakes [of s'] d by (simp add: good_def s' ch)
qed

lemma chansend_locked_good:
  assumes i: "inv s" and w: "wakes 0 1 s" and r: "running g s"
  shows "op_ok g (chansend_locked g block s)"
proof (cases "closed (ch s) \<or> dataqsiz (ch s) > 0")
  case True
  show ?thesis
  proof (cases "closed (ch s)")
    case True
    then show ?thesis using i closed_wakes [OF i] r by (simp add: chansend_locked_def op_ok_def good_def)
  next
    case False
    with True show ?thesis using chansend_async_good [OF i w _ False r] by (simp add: chansend_locked_def)
  qed
next
  case False
  then have d: "dataqsiz (ch s) = 0" and nc: "\<not> closed (ch s)" by auto
  note deq = dequeue_recvq_eq [OF inv_sids [OF i]]
  show ?thesis
  proof (cases "recvq (ch s)")
    case (Cons x xs)
    let ?r1 = "sg_g (sudogs s x)"
    have p: "g_pc (gs s ?r1) = RecvSync x (sg_elem (sudogs s x))" "?r1 \<notin> runnable s"
      using waiter_facts(2) [OF inv_core [OF i] Cons d] head_waiter(1) [OF inv_core [OF i] Cons] by blast+
    define s1 where "s1 = (case sg_elem (sudogs s x) of
        Some p \<Rightarrow> set_sg x (\<lambda>r. r\<lparr>sg_elem := None\<rparr>) (set_ch (\<lambda>c. c\<lparr>recvq := xs\<rparr>) s\<lparr>slots := (slots s)(p := slots s g)\<rparr>)
      | None \<Rightarrow> set_ch (\<lambda>c. c\<lparr>recvq := xs\<rparr>) s)"
    have s1: "sudogs s1 = (sudogs s)(x := (sudogs s x)\<lparr>sg_elem := None\<rparr>)" "gs s1 = gs s" "runnable s1 = runnable s"
      "sudogcache s1 = sudogcache s" "next_sid s1 = next_sid s" "ch s1 = (ch s)\<lparr>recvq := xs\<rparr>" "sent_log s1 = sent_log s" "recv_log s1 = recv_log s"
      by (auto simp: s1_def set_defs fun_eq_iff split: option.split)
    define s2 where "s2 = set_g ?r1 (\<lambda>r. r\<lparr>g_param := Some x\<rparr>) (s1\<lparr>sent_log := sent_log s1 @ [(g, slots s g)],
      recv_log := recv_log s1 @ [(?r1, slots s g)]\<rparr>)"
    define s' where "s' = s2\<lparr>runnable := insert ?r1 (runnable s2)\<rparr>"
    have "chansend_locked g block s = ok_or (goready ?r1 s2) (Selected True) s2"
      using d nc Cons by (simp add: chansend_locked_def deq Let_def s2_def s1_def set_ch_def cong: option.case_cong)
    moreover have "goready ?r1 s2 = Inr s'"
      using p unfolding s'_def by (intro goready_ok) (simp_all add: s2_def set_g_def s1)
    ultimately have "chansend_locked g block s = (Selected True, s')" by (simp add: ok_or_def)
    moreover have "good s'" "running g s'"
      by (rule sync_handoff_recv [OF i d Cons nc r refl]; simp add: s'_def s2_def set_g_def s1)+
    ultimately show ?thesis by (simp add: op_okI)
  next
    case Nil
    show ?thesis
    proof (cases block)
      case False
      then have "chansend_locked g block s = (Selected False, s)" using d nc Nil by (simp add: chansend_locked_def deq)
      then show ?thesis using i sync_wakes [OF i d] r by (simp add: op_ok_def good_def)
    next
      case True
      obtain x s1 where a: "acquireSudog s = Inr (x, s1)" "core s1" "fresh s1 x" "same_but_sids s s1"
        using acquire_ok [OF inv_core [OF i]] .
      define s' where "s' = set_g g (\<lambda>r. r\<lparr>g_pc := SendSync x\<rparr>) (set_ch (\<lambda>c. c\<lparr>sendq := lenqueue (sendq c) x\<rparr>)
        (set_g g (\<lambda>r. r\<lparr>g_waiting := Some x, g_param := None\<rparr>)
         (set_sg x (\<lambda>r. r\<lparr>sg_elem := Some g, sg_waitlink := None, sg_g := g, sg_selectdone := None\<rparr>) s1)))"
      have "chansend_locked g block s = (Parked, s')"
        using d nc Nil True a(1) by (simp add: chansend_locked_def deq Let_def s'_def)
      moreover have "good s'"
        by (rule sync_park_send [OF i d nc Nil r a, where gr = "(gs s1 g)\<lparr>g_waiting := Some x, g_param := None, g_pc := SendSync x\<rparr>" and
            r' = "(sudogs s1 x)\<lparr>sg_elem := Some g, sg_waitlink := None, sg_g := g, sg_selectdone := None\<rparr>"])
          (use sids_links [OF core_sids [OF a(2)]] in \<open>simp_all add: s'_def set_defs links_nil_def\<close>)
      ultimately show ?thesis by (simp add: op_okI)
    qed
  qed
qed


section \<open>Receiving\<close>

lemma store_same [simp]:
  "ch (store ep v s) = ch s" "sudogs (store ep v s) = sudogs s" "gs (store ep v s) = gs s" "runnable (store ep v s) = runnable s"
  "sudogcache (store ep v s) = sudogcache s" "next_sid (store ep v s) = next_sid s" "sent_log (store ep v s) = sent_log s"
  "recv_log (store ep v s) = recv_log s" "done_flags (store ep v s) = done_flags s"
  by (simp_all add: store_def split: option.split)

lemma store_ch: "store ep v (s\<lparr>ch := c\<rparr>) = (store ep v s)\<lparr>ch := c\<rparr>"
  by (simp add: store_def split: option.split)

lemma inv_store: "inv (store ep v s) = inv s"
proof -
  have "core (store ep v s) = core s" by (intro iffI; erule core_cong) simp_all
  then show ?thesis by (simp add: inv_def closed_ok_def log_ok_def)
qed

lemma wakes_store: "wakes kr ks (store ep v s) = wakes kr ks s"
  by (simp add: wakes_def woken_recv_def woken_send_def)

lemma running_store: "running g (store ep v s) = running g s"
  by (simp add: running_def)

lemma recvclosed_good: "inv s \<Longrightarrow> closed (ch s) \<Longrightarrow> running g s \<Longrightarrow> op_ok g (recvclosed ep s)"
  using closed_wakes [of s 0 0]
  by (simp add: recvclosed_def op_ok_def good_def inv_store wakes_store running_store)

lemma chanrecv_read_good:
  assumes i: "inv s" and w: "wakes 1 0 s" and q: "0 < qcount (ch s)" and r: "running g s"
  shows "\<exists>s'. chanrecv_read g ep s = (Received True True, s') \<and> good s' \<and> running g s'"
proof -
  define v where "v = buf (ch s) ! recvx (ch s)"
  define c' where "c' = (ch s)\<lparr>buf := (buf (ch s))[recvx (ch s) := elemzero (ch s)],
    recvx := (if recvx (ch s) + 1 = dataqsiz (ch s) then 0 else recvx (ch s) + 1), qcount := qcount (ch s) - 1\<rparr>"
  define s1 where "s1 = (store ep v s)\<lparr>ch := c', recv_log := recv_log s @ [(g, v)]\<rparr>"
  have b: "buf_ok c'" "contents (ch s) = v # contents c'"
    using read_buf [OF _ q c'_def] i by (auto simp: inv_def v_def)
  have qs: "recvq (ch s1) = recvq (ch s)" "sendq (ch s1) = sendq (ch s)" "gs s1 = gs s" "runnable s1 = runnable s"
    "qcount (ch s1) = qcount (ch s) - 1" "dataqsiz (ch s1) = dataqsiz (ch s)" "closed (ch s1) = closed (ch s)"
    by (simp_all add: s1_def c'_def)
  have c: "core s1" by (rule core_cong [OF inv_core [OF i]]) (simp_all add: s1_def c'_def)
  have l: "log_ok s1" using i b(2) by (simp add: log_ok_def inv_def s1_def)
  have d: "dataqsiz (ch s1) > 0" using q i qs by (simp add: inv_def buf_ok_def)
  have unf: "chanrecv_read g ep s = (case dequeue_sendq s1 of
      (Some sg, s) \<Rightarrow> ok_or (goready (sg_g (sudogs s sg)) s) (Received True True) s | (None, s) \<Rightarrow> (Received True True, s))"
    by (simp add: chanrecv_read_def Let_def set_ch_def s1_def c'_def v_def cong: if_cong)
  have w1: "recvq (ch s) \<noteq> [] \<longrightarrow> qcount (ch s) - 1 \<le> card (woken_recv s1)"
    "sendq (ch s) \<noteq> [] \<longrightarrow> dataqsiz (ch s) - qcount (ch s) \<le> card (woken_send s1)"
    using w woken_cong [of s1 s] qs by (auto simp: wakes_def)
  have co: "closed_ok s1" using i d qs by (simp add: inv_def closed_ok_def)
  show ?thesis
  proof (cases "sendq (ch s)")
    case Nil
    then have "chanrecv_read g ep s = (Received True True, s1)" using qs by (simp add: unf dequeue_sendq_eq [OF core_sids [OF c]])
    moreover have "wakes 0 0 s1" using w1 Nil qs by (simp add: wakes_def)
    then have "good s1" using c l b(1) co by (simp add: good_def inv_def) (simp add: s1_def)
    ultimately show ?thesis using r qs by (simp add: running_def)
  next
    case (Cons x xs)
    define r1 where "r1 = sg_g (sudogs s1 x)"
    define s2 where "s2 = s1\<lparr>ch := (ch s1)\<lparr>sendq := xs\<rparr>, runnable := insert r1 (runnable s1)\<rparr>"
    have x: "sendq (ch s1) = x # xs" using Cons qs by simp
    have p: "g_pc (gs s1 r1) = SendAsync x" "sg_elem (sudogs s1 x) = None" "g_param (gs s1 r1) = None"
      using waiter_facts(3) [OF c x d] r1_def by blast+
    have nr: "r1 \<notin> runnable s1" using head_waiter(2) [OF c x] r1_def by blast
    have "core s2" by (rule wake_send [OF c x r1_def, where p = None]) (use d p in \<open>simp_all add: s2_def upd_same\<close>)
    moreover have "wakes 0 0 s2"
      using card_woken_insert(2) [OF c nr, of s2] p(1) w1 Cons qs q by (simp add: s2_def wakes_def) linarith
    moreover have "chanrecv_read g ep s = (Received True True, s2)"
      using nr p(1) x unfolding unf dequeue_sendq_eq [OF core_sids [OF c]] r1_def
      by (simp add: goready_def ok_or_def s2_def set_ch_def r1_def)
    moreover have "running g s2" using r p(1) qs by (auto simp: running_def s2_def)
    moreover have "closed_ok s2" using co x d by (simp add: closed_ok_def s2_def)
    moreover have "buf_ok (ch s2)" "log_ok s2"
      using b(1) l by (simp_all add: s2_def buf_ok_def log_ok_def contents_def) (simp_all add: s1_def)
    ultimately show ?thesis by (simp add: good_def inv_def)
  qed
qed

lemma chanrecv_async_good:
  assumes i: "inv s" and w: "wakes 1 0 s" and d: "dataqsiz (ch s) > 0" and r: "running g s"
  shows "op_ok g (chanrecv_async g ep block s)"
proof (cases "qcount (ch s) \<le> 0")
  case False
  then have "0 < qcount (ch s)" by simp
  from chanrecv_read_good [OF i w this r] obtain s' where "chanrecv_read g ep s = (Received True True, s')" "good s'" "running g s'"
    by blast
  then show ?thesis using False by (simp add: chanrecv_async_def op_ok_def)
next
  case empty: True
  have w0: "sendq (ch s) \<noteq> [] \<longrightarrow> dataqsiz (ch s) \<le> card (woken_send s)" using w empty by (simp add: wakes_def)
  show ?thesis
  proof (cases "closed (ch s)")
    case True
    then show ?thesis using empty recvclosed_good [OF i True r] by (simp add: chanrecv_async_def)
  next
    case nc: False
    show ?thesis
    proof (cases block)
      case False
      then have "chanrecv_async g ep block s = (Received False False, s)" using empty nc by (simp add: chanrecv_async_def)
      moreover have "good s" using i w0 empty by (simp add: good_def wakes_def)
      ultimately show ?thesis using r by (simp add: op_okI)
    next
      case True
      obtain x s1 where a: "acquireSudog s = Inr (x, s1)" and c1: "core s1" and f: "fresh s1 x" and sm: "same_but_sids s s1"
        using acquire_ok [OF inv_core [OF i]] .
      define s' where "s' = set_g g (\<lambda>r. r\<lparr>g_pc := RecvAsync x ep\<rparr>) (set_ch (\<lambda>c. c\<lparr>recvq := lenqueue (recvq c) x\<rparr>)
        (set_sg x (\<lambda>r. r\<lparr>sg_elem := None, sg_g := g, sg_selectdone := None\<rparr>) s1))"
      have eq: "chanrecv_async g ep block s = (Parked, s')"
        using empty True nc a by (simp add: chanrecv_async_def Let_def s'_def)
      have r1: "running g s1" using r sm by (simp add: running_def same_but_sids_def)
      have links: "links_nil ((sudogs s1 x)\<lparr>sg_elem := None, sg_g := g, sg_selectdone := None\<rparr>)"
        using sids_links [OF core_sids [OF c1]] by (simp add: links_nil_def)
      have p: "g_param (gs s1 g) = None" using running_param [OF c1 r1] .
      have gs': "gs s' = (gs s1)(g := (gs s1 g)\<lparr>g_pc := RecvAsync x ep\<rparr>)" and run': "runnable s' = runnable s1"
        and ch': "ch s' = (ch s1)\<lparr>recvq := recvq (ch s1) @ [x]\<rparr>"
        by (simp_all add: s'_def set_defs)
      have d1: "dataqsiz (ch s1) > 0" "closed (ch s1) = closed (ch s)" using d sm by (simp_all add: same_but_sids_def)
      have "core s'"
        by (rule park_recv [OF c1 f r1 _ _ links gs', where ep = ep])
          (use p d1 in \<open>simp_all add: s'_def set_defs\<close>)
      moreover have "woken_send s' = woken_send s"
        using woken_upd [OF _ gs' run'] r1 sm woken_cong [of s1 s] by (simp add: running_def same_but_sids_def)
      then have "wakes 0 0 s'" using w0 empty ch' sm by (simp add: wakes_def same_but_sids_def)
      moreover have "closed_ok s'" using nc d ch' sm by (simp add: closed_ok_def same_but_sids_def)
      moreover have "buf_ok (ch s')" "log_ok s'"
        by (rule data_cong [OF i, where l = "[]"]; use sm in \<open>simp add: s'_def set_defs same_but_sids_def\<close>)+
      ultimately show ?thesis unfolding eq by (intro op_okI) (simp_all add: good_def inv_def)
    qed
  qed
qed

lemma chanrecv_locked_good:
  assumes i: "inv s" and w: "wakes 1 0 s" and r: "running g s"
  shows "op_ok g (chanrecv_locked g ep block s)"
proof (cases "dataqsiz (ch s) > 0")
  case True
  then show ?thesis using chanrecv_async_good [OF i w True r] by (simp add: chanrecv_locked_def)
next
  case False
  then have d: "dataqsiz (ch s) = 0" by simp
  show ?thesis
  proof (cases "closed (ch s)")
    case True
    then show ?thesis using d recvclosed_good [OF i True r] by (simp add: chanrecv_locked_def)
  next
    case nc: False
    note deq = dequeue_sendq_eq [OF inv_sids [OF i]]
    show ?thesis
    proof (cases "sendq (ch s)")
      case (Cons x xs)
      let ?r1 = "sg_g (sudogs s x)"
      have p: "g_pc (gs s ?r1) = SendSync x" "sg_elem (sudogs s x) = Some ?r1" "?r1 \<notin> runnable s"
        using waiter_facts(4) [OF inv_core [OF i] Cons d] head_waiter(2) [OF inv_core [OF i] Cons] by blast+
      define s1 where "s1 = set_sg x (\<lambda>r. r\<lparr>sg_elem := None\<rparr>) (store ep (slots s ?r1) (set_ch (\<lambda>c. c\<lparr>sendq := xs\<rparr>) s))"
      have s1: "sudogs s1 = (sudogs s)(x := (sudogs s x)\<lparr>sg_elem := None\<rparr>)" "gs s1 = gs s" "runnable s1 = runnable s"
        "sudogcache s1 = sudogcache s" "next_sid s1 = next_sid s" "ch s1 = (ch s)\<lparr>sendq := xs\<rparr>" "sent_log s1 = sent_log s" "recv_log s1 = recv_log s"
        by (simp_all add: s1_def set_defs)
      define s2 where "s2 = set_g ?r1 (\<lambda>r. r\<lparr>g_param := Some x\<rparr>) (s1\<lparr>sent_log := sent_log s1 @ [(?r1, slots s ?r1)],
        recv_log := recv_log s1 @ [(g, slots s ?r1)]\<rparr>)"
      define s' where "s' = s2\<lparr>runnable := insert ?r1 (runnable s2)\<rparr>"
      have "chanrecv_locked g ep block s = ok_or (goready ?r1 s2) (Received True True) s2"
        using d nc Cons p(2) by (simp add: chanrecv_locked_def deq Let_def s2_def s1_def set_ch_def)
      moreover have "goready ?r1 s2 = Inr s'"
        using p unfolding s'_def by (intro goready_ok) (simp_all add: s2_def set_g_def s1)
      ultimately have "chanrecv_locked g ep block s = (Received True True, s')" by (simp add: ok_or_def)
      moreover have "good s'" "running g s'"
        by (rule sync_handoff_send [OF i d Cons nc r refl]; simp add: s'_def s2_def set_g_def s1)+
      ultimately show ?thesis by (simp add: op_okI)
    next
      case Nil
      show ?thesis
      proof (cases block)
        case False
        then have "chanrecv_locked g ep block s = (Received False False, s)" using d nc Nil by (simp add: chanrecv_locked_def deq)
        then show ?thesis using i sync_wakes [OF i d] r by (simp add: op_ok_def good_def)
      next
        case True
        obtain x s1 where a: "acquireSudog s = Inr (x, s1)" "core s1" "fresh s1 x" "same_but_sids s s1"
          using acquire_ok [OF inv_core [OF i]] .
        define s' where "s' = set_g g (\<lambda>r. r\<lparr>g_pc := RecvSync x ep\<rparr>) (set_ch (\<lambda>c. c\<lparr>recvq := lenqueue (recvq c) x\<rparr>)
          (set_g g (\<lambda>r. r\<lparr>g_waiting := Some x, g_param := None\<rparr>)
           (set_sg x (\<lambda>r. r\<lparr>sg_elem := ep, sg_waitlink := None, sg_g := g, sg_selectdone := None\<rparr>) s1)))"
        have "chanrecv_locked g ep block s = (Parked, s')"
          using d nc Nil True a(1) by (simp add: chanrecv_locked_def deq Let_def s'_def)
        moreover have "good s'"
          by (rule sync_park_recv [OF i d nc Nil r a, where gr = "(gs s1 g)\<lparr>g_waiting := Some x, g_param := None, g_pc := RecvSync x ep\<rparr>" and
              r' = "(sudogs s1 x)\<lparr>sg_elem := ep, sg_waitlink := None, sg_g := g, sg_selectdone := None\<rparr>" and ep = ep])
            (use sids_links [OF core_sids [OF a(2)]] in \<open>simp_all add: s'_def set_defs links_nil_def\<close>)
        ultimately show ?thesis by (simp add: op_okI)
      qed
    qed
  qed
qed


section \<open>Continuing after a wake-up\<close>

lemma inv_of_core:
  assumes "inv s" "core s'" "ch s' = ch s" "sent_log s' = sent_log s" "recv_log s' = recv_log s"
  shows "inv s'"
  using assms(1,2) unfolding inv_def closed_ok_def log_ok_def assms(3-5) by blast

text \<open>What a goroutine finds when it has been woken.\<close>

lemma woken_facts:
  assumes "core s" "g \<in> runnable s"
  shows "g_pc (gs s g) = SendSync x \<Longrightarrow> dataqsiz (ch s) = 0 \<and> g_waiting (gs s g) = Some x \<and> sg_elem (sudogs s x) = None \<and>
      (g_param (gs s g) = Some x \<or> g_param (gs s g) = None \<and> closed (ch s))"
    "g_pc (gs s g) = RecvSync x ep \<Longrightarrow> dataqsiz (ch s) = 0 \<and> g_waiting (gs s g) = Some x \<and> sg_elem (sudogs s x) = None \<and>
      (g_param (gs s g) = Some x \<or> g_param (gs s g) = None \<and> closed (ch s))"
    "g_pc (gs s g) = SendAsync x \<Longrightarrow> dataqsiz (ch s) > 0 \<and> g_param (gs s g) = None \<and> sg_elem (sudogs s x) = None"
    "g_pc (gs s g) = RecvAsync x ep \<Longrightarrow> dataqsiz (ch s) > 0 \<and> g_param (gs s g) = None \<and> sg_elem (sudogs s x) = None"
    "g_pc (gs s g) \<noteq> Running \<and> g_pc (gs s g) \<noteq> Forever"
    "pc_sid (g_pc (gs s g)) = Some x \<Longrightarrow> held s g x \<and> sg_elem (sudogs s x) = None"
proof -
  have g: "gok s g" using assms(1) by (simp add: core_def)
  show "g_pc (gs s g) = SendSync x \<Longrightarrow> dataqsiz (ch s) = 0 \<and> g_waiting (gs s g) = Some x \<and> sg_elem (sudogs s x) = None \<and>
      (g_param (gs s g) = Some x \<or> g_param (gs s g) = None \<and> closed (ch s))"
    "g_pc (gs s g) = RecvSync x ep \<Longrightarrow> dataqsiz (ch s) = 0 \<and> g_waiting (gs s g) = Some x \<and> sg_elem (sudogs s x) = None \<and>
      (g_param (gs s g) = Some x \<or> g_param (gs s g) = None \<and> closed (ch s))"
    "g_pc (gs s g) = SendAsync x \<Longrightarrow> dataqsiz (ch s) > 0 \<and> g_param (gs s g) = None \<and> sg_elem (sudogs s x) = None"
    "g_pc (gs s g) = RecvAsync x ep \<Longrightarrow> dataqsiz (ch s) > 0 \<and> g_param (gs s g) = None \<and> sg_elem (sudogs s x) = None"
    "g_pc (gs s g) \<noteq> Running \<and> g_pc (gs s g) \<noteq> Forever"
    using g assms(2) by (auto simp: gok_def Let_def)
  show "held s g x \<and> sg_elem (sudogs s x) = None" if "pc_sid (g_pc (gs s g)) = Some x"
    using g assms(2) that by (cases "g_pc (gs s g)") (simp_all add: gok_def Let_def)
qed

lemma woken_not_queued:
  assumes "core s" "g \<in> runnable s" "y \<in> set (recvq (ch s)) \<or> y \<in> set (sendq (ch s))"
  shows "sg_g (sudogs s y) \<noteq> g"
proof
  assume e: "sg_g (sudogs s y) = g"
  have "(\<exists>ep. g_pc (gs s g) \<in> {RecvSync y ep, RecvAsync y ep}) \<and> y \<in> set (recvq (ch s)) \<or>
      g_pc (gs s g) \<in> {SendSync y, SendAsync y} \<and> y \<in> set (sendq (ch s))"
    using assms(1,3) e unfolding core_def queues_ok_def by blast
  moreover have "gok s g" using assms(1) by (simp add: core_def)
  ultimately show False using assms(2) by (auto simp: gok_def Let_def)
qed

lemma resumed_core:
  assumes c: "core s" and w: "g \<in> runnable s" and x: "pc_sid (g_pc (gs s g)) = Some x"
    and gs: "gs s' = (gs s)(g := gr)" "g_pc gr = Running" "g_param gr = None"
    and same: "runnable s' = runnable s - {g}" "sudogs s' = sudogs s" "sudogcache s' = sudogcache s" "next_sid s' = next_sid s" "ch s' = ch s"
  shows "core s'" "fresh s' x" "running g s'"
proof -
  have g: "\<And>g. gok s g" and q: "queues_ok s" and sd: "sids_ok s" using c by (auto simp: core_def)
  have "gok s' g'" for g'
  proof (cases "g' = g")
    case True
    then show ?thesis using gs same by (simp add: gok_def Let_def)
  next
    case False
    then show ?thesis by (intro gok_cong [OF g]) (simp_all add: gs same held_def)
  qed
  moreover have "queues_ok s'"
    using q woken_not_queued [OF c w] unfolding queues_ok_def same gs(1) by simp
  moreover have "sids_ok s'" using sd unfolding sids_ok_def same by simp
  ultimately show "core s'" by (simp add: core_def)
  have h: "held s g x" "sg_elem (sudogs s x) = None" using woken_facts(6) [OF c w x] by blast+
  have "pc_sid (g_pc (gs s' g')) \<noteq> Some x" for g'
  proof (cases "g' = g")
    case False
    have "held s g' x" if "pc_sid (g_pc (gs s g')) = Some x" using g [of g'] that by (simp add: gok_def Let_def)
    then show ?thesis using h(1) False by (auto simp: gs held_def)
  qed (simp add: gs)
  moreover have "x \<notin> set (recvq (ch s))" "x \<notin> set (sendq (ch s))"
    using woken_not_queued [OF c w, of x] h(1) by (auto simp: held_def)
  ultimately show "fresh s' x" using h by (simp add: fresh_def same held_def)
  show "running g s'" by (simp add: running_def gs same)
qed

lemma resumed_wakes:
  assumes c: "core s" and w: "g \<in> runnable s" and k: "wakes 0 0 s"
    and gs: "gs s' = (gs s)(g := gr)" "g_pc gr = Running" and same: "runnable s' = runnable s - {g}" "ch s' = ch s"
  shows "g_pc (gs s g) = RecvAsync x ep \<Longrightarrow> wakes 1 0 s'" "g_pc (gs s g) = SendAsync x \<Longrightarrow> wakes 0 1 s'"
proof -
  have f: "finite (woken_recv s)" "finite (woken_send s)" using finite_woken [OF c] by auto
  show "wakes 1 0 s'" if p: "g_pc (gs s g) = RecvAsync x ep"
  proof -
    have "woken_recv s' = woken_recv s - {g}" "woken_send s' = woken_send s" "g \<in> woken_recv s"
      using p w by (auto simp: woken_recv_def woken_send_def gs same)
    then have "card (woken_recv s) = Suc (card (woken_recv s'))" using card.remove [OF f(1)] by simp
    then show ?thesis using k \<open>woken_send s' = woken_send s\<close> by (simp add: wakes_def same)
  qed
  show "wakes 0 1 s'" if p: "g_pc (gs s g) = SendAsync x"
  proof -
    have "woken_send s' = woken_send s - {g}" "woken_recv s' = woken_recv s" "g \<in> woken_send s"
      using p w by (auto simp: woken_recv_def woken_send_def gs same)
    then have "card (woken_send s) = Suc (card (woken_send s'))" using card.remove [OF f(2)] by simp
    then show ?thesis using k \<open>woken_recv s' = woken_recv s\<close> by (simp add: wakes_def same)
  qed
qed

lemma release_inv:
  assumes "inv s" "fresh s x" "running g s"
  shows "\<exists>s'. releaseSudog g x s = Inr s' \<and> inv s' \<and> running g s' \<and> ch s' = ch s \<and> (\<forall>kr ks. wakes kr ks s' = wakes kr ks s)"
proof -
  obtain s' where r: "releaseSudog g x s = Inr s'" "core s'" "same_but_sids s s'"
    using release_ok [OF inv_core [OF assms(1)] assms(2) running_param [OF inv_core [OF assms(1)] assms(3)]] .
  then have "inv s'" by (intro inv_of_core [OF assms(1)]) (simp_all add: same_but_sids_def)
  moreover have "wakes kr ks s' = wakes kr ks s" for kr ks
    using r(3) by (simp add: wakes_def woken_recv_def woken_send_def same_but_sids_def)
  ultimately show ?thesis using r assms(3) by (simp add: same_but_sids_def running_def)
qed

lemma resume_good:
  assumes gd: "good s" and w: "g \<in> runnable s"
  shows "op_ok g (resume g s)"
proof -
  have i: "inv s" and k: "wakes 0 0 s" using gd by (auto simp: good_def)
  note c = inv_core [OF i]
  define s0 where "s0 = set_g g (\<lambda>r. r\<lparr>g_pc := Running\<rparr>) (wake g s)"
  define s1 where "s1 = set_g g (\<lambda>r. r\<lparr>g_pc := Running, g_waiting := None\<rparr>) (wake g s)"
  define s2 where "s2 = set_g g (\<lambda>r. r\<lparr>g_pc := Running, g_waiting := None, g_param := None\<rparr>) (wake g s)"
  have e: "set_g g (\<lambda>r. r\<lparr>g_waiting := None\<rparr>) s0 = s1" "set_g g (\<lambda>r. r\<lparr>g_param := None\<rparr>) s1 = s2"
    by (simp_all add: s0_def s1_def s2_def set_g_def)
  have f: "g_waiting (gs s0 g) = g_waiting (gs s g)" "g_param (gs s1 g) = g_param (gs s g)" "ch s0 = ch s" "ch s1 = ch s" "ch s2 = ch s"
    by (simp_all add: s0_def s1_def s2_def set_g_def wake_def)
  have same: "gs s0 = (gs s)(g := (gs s g)\<lparr>g_pc := Running\<rparr>)" "gs s1 = (gs s)(g := (gs s g)\<lparr>g_pc := Running, g_waiting := None\<rparr>)"
    "gs s2 = (gs s)(g := (gs s g)\<lparr>g_pc := Running, g_waiting := None, g_param := None\<rparr>)"
    "runnable s0 = runnable s - {g}" "runnable s1 = runnable s - {g}" "runnable s2 = runnable s - {g}"
    by (simp_all add: s0_def s1_def s2_def set_g_def wake_def)
  have R2: "inv s2 \<and> fresh s2 x \<and> running g s2" if "pc_sid (g_pc (gs s g)) = Some x" for x
    using resumed_core [OF c w that same(3) _ _ same(6)] inv_of_core [OF i, of s2]
    by (simp add: s2_def set_g_def wake_def)
  have R1: "inv s1 \<and> running g s1" if "pc_sid (g_pc (gs s g)) = Some x" "g_param (gs s g) = None" for x
    using resumed_core [OF c w that(1) same(2) _ _ same(5)] that(2) inv_of_core [OF i, of s1]
    by (simp add: s1_def set_g_def wake_def)
  have R0: "inv s0 \<and> fresh s0 x \<and> running g s0" if "pc_sid (g_pc (gs s g)) = Some x" "g_param (gs s g) = None" for x
    using resumed_core [OF c w that(1) same(1) _ _ same(4)] that(2) inv_of_core [OF i, of s0]
    by (simp add: s0_def set_g_def wake_def)
  show ?thesis
  proof (cases "g_pc (gs s g)")
    case (SendSync x)
    note F = woken_facts(1) [OF c w SendSync]
    show ?thesis
    proof (cases "g_param (gs s g)")
      case None
      then have "resume g s = (Failed (PanicMsg ''send on closed channel''), s1)"
        using F SendSync f e by (simp add: resume_def Let_def s0_def [symmetric] chansend_sync_woken_def)
      then show ?thesis using R1 [of x] SendSync None F closed_wakes [of s1] f by (simp add: op_ok_def good_def)
    next
      case (Some y)
      obtain s3 where 3: "releaseSudog g x s2 = Inr s3" "inv s3" "running g s3" "ch s3 = ch s2"
        using R2 [of x] SendSync release_inv [of s2 x g] by fastforce
      have "resume g s = (Selected True, s3)"
        using F SendSync Some f e 3(1) by (simp add: resume_def Let_def s0_def [symmetric] chansend_sync_woken_def ok_or_def)
      then show ?thesis using 3 F f sync_wakes [of s3] by (simp add: op_ok_def good_def)
    qed
  next
    case (RecvSync x ep)
    note F = woken_facts(2) [OF c w RecvSync]
    obtain s3 where 3: "releaseSudog g x s2 = Inr s3" "inv s3" "running g s3" "ch s3 = ch s2"
      using R2 [of x] RecvSync release_inv [of s2 x g] by fastforce
    have eq: "resume g s = (if g_param (gs s g) \<noteq> None then (Received True True, s3)
        else if \<not> closed (ch s3) then (Failed (Throw ''chanrecv: spurious wakeup''), s3) else recvclosed ep s3)"
      using F RecvSync f e 3(1) by (simp add: resume_def Let_def s0_def [symmetric] chanrecv_sync_woken_def)
    show ?thesis
    proof (cases "g_param (gs s g)")
      case None
      then have "closed (ch s3)" using F 3 f by simp
      then show ?thesis using eq None recvclosed_good [OF 3(2) _ 3(3)] by simp
    next
      case (Some y)
      then show ?thesis using eq 3 F f sync_wakes [of s3] by (simp add: op_ok_def good_def)
    qed
  next
    case (SendAsync x)
    note F = woken_facts(3) [OF c w SendAsync]
    obtain s3 where 3: "releaseSudog g x s0 = Inr s3" "inv s3" "running g s3" "ch s3 = ch s0" "wakes 0 1 s3 = wakes 0 1 s0"
      using R0 [of x] SendAsync F release_inv [of s0 x g] by fastforce
    have w3: "wakes 0 1 s3" using resumed_wakes(2) [OF c w k same(1) _ same(4) f(3) SendAsync] 3(5) by simp
    have eq: "resume g s = (if closed (ch s3) then (Failed (PanicMsg ''send on closed channel''), s3) else chansend_async g True s3)"
      using SendAsync 3(1) by (simp add: resume_def Let_def s0_def [symmetric] chansend_async_woken_def)
    show ?thesis
    proof (cases "closed (ch s3)")
      case True
      then show ?thesis using eq 3 closed_wakes [OF 3(2) True] by (simp add: op_ok_def good_def)
    next
      case False
      then show ?thesis using eq chansend_async_good [OF 3(2) w3 _ False 3(3)] F 3(4) f by simp
    qed
  next
    case (RecvAsync x ep)
    note F = woken_facts(4) [OF c w RecvAsync]
    obtain s3 where 3: "releaseSudog g x s0 = Inr s3" "inv s3" "running g s3" "ch s3 = ch s0" "wakes 1 0 s3 = wakes 1 0 s0"
      using R0 [of x] RecvAsync F release_inv [of s0 x g] by fastforce
    have w3: "wakes 1 0 s3" using resumed_wakes(1) [OF c w k same(1) _ same(4) f(3) RecvAsync] 3(5) by simp
    have "resume g s = chanrecv_async g ep True s3"
      using RecvAsync 3(1) by (simp add: resume_def Let_def s0_def [symmetric] chanrecv_async_woken_def)
    then show ?thesis using chanrecv_async_good [OF 3(2) w3 _ 3(3)] F 3(4) f by simp
  qed (use woken_facts(5) [OF c w] in simp_all)
qed


section \<open>Closing\<close>

definition woke_all :: "sid set \<Rightarrow> 'v world \<Rightarrow> 'v world \<Rightarrow> bool" where
  "woke_all X s s' \<longleftrightarrow> core s' \<and> runnable s' = runnable s \<union> (\<lambda>x. sg_g (sudogs s x)) ` X \<and>
     (\<forall>x. sg_g (sudogs s' x) = sg_g (sudogs s x)) \<and> (\<forall>g. g_pc (gs s' g) = g_pc (gs s g)) \<and>
     slots s' = slots s \<and> sent_log s' = sent_log s \<and> recv_log s' = recv_log s"

lemma release_waiter_eq:
  assumes "sg_g (sudogs s x) \<notin> runnable s" "g_pc (gs s (sg_g (sudogs s x))) \<noteq> Running"
  shows "release_waiter x s = Inr (s\<lparr>sudogs := (sudogs s)(x := (sudogs s x)\<lparr>sg_elem := None\<rparr>),
    gs := (gs s)(sg_g (sudogs s x) := (gs s (sg_g (sudogs s x)))\<lparr>g_param := None\<rparr>),
    runnable := insert (sg_g (sudogs s x)) (runnable s)\<rparr>)"
  using assms by (simp add: release_waiter_def Let_def set_defs goready_def)

lemma close_recvq_good:
  "core s \<Longrightarrow> closed (ch s) \<Longrightarrow>
   \<exists>s'. close_recvq s = Inr s' \<and> ch s' = (ch s)\<lparr>recvq := []\<rparr> \<and> woke_all (set (recvq (ch s))) s s'"
proof (induction "recvq (ch s)" arbitrary: s)
  case Nil
  then have "close_recvq s = Inr s" by (simp add: close_recvq.simps [of s] dequeue_recvq_eq [OF core_sids])
  then show ?case using Nil by (intro exI [of _ s]) (simp add: woke_all_def)
next
  case (Cons x xs)
  let ?r = "sg_g (sudogs s x)"
  have q: "recvq (ch s) = x # xs" using Cons by simp
  have w: "?r \<notin> runnable s" "g_pc (gs s ?r) \<noteq> Running" using head_waiter(1) [OF Cons.prems(1) q] by auto
  define s1 where "s1 = s\<lparr>ch := (ch s)\<lparr>recvq := xs\<rparr>, sudogs := (sudogs s)(x := (sudogs s x)\<lparr>sg_elem := None\<rparr>),
    gs := (gs s)(?r := (gs s ?r)\<lparr>g_param := None\<rparr>), runnable := insert ?r (runnable s)\<rparr>"
  have c: "core s1" by (rule wake_recv [OF Cons.prems(1) q refl, where p = None]) (simp_all add: s1_def Cons.prems(2))
  have q1: "recvq (ch s1) = xs" "closed (ch s1)" "ch s1 = (ch s)\<lparr>recvq := xs\<rparr>" using Cons.prems by (simp_all add: s1_def)
  obtain s' where IH: "close_recvq s1 = Inr s'" "ch s' = (ch s1)\<lparr>recvq := []\<rparr>" "woke_all (set (recvq (ch s1))) s1 s'"
    using Cons.hyps(1) [of s1] c q1 by auto
  have "release_waiter x (set_ch (\<lambda>c. c\<lparr>recvq := xs\<rparr>) s) = Inr s1"
    using release_waiter_eq [of "set_ch (\<lambda>c. c\<lparr>recvq := xs\<rparr>) s" x] w by (simp add: set_ch_def s1_def)
  then have "close_recvq s = Inr s'"
    using q IH(1) by (simp add: close_recvq.simps [of s] dequeue_recvq_eq [OF core_sids [OF Cons.prems(1)]])
  moreover have "ch s' = (ch s)\<lparr>recvq := []\<rparr>" using IH(2) q1 by simp
  moreover have "woke_all (set (recvq (ch s))) s s'"
    using IH(3) q q1 unfolding woke_all_def by (auto simp: s1_def)
  ultimately show ?case by blast
qed

lemma close_sendq_good:
  "core s \<Longrightarrow> closed (ch s) \<Longrightarrow>
   \<exists>s'. close_sendq s = Inr s' \<and> ch s' = (ch s)\<lparr>sendq := []\<rparr> \<and> woke_all (set (sendq (ch s))) s s'"
proof (induction "sendq (ch s)" arbitrary: s)
  case Nil
  then have "close_sendq s = Inr s" by (simp add: close_sendq.simps [of s] dequeue_sendq_eq [OF core_sids])
  then show ?case using Nil by (intro exI [of _ s]) (simp add: woke_all_def)
next
  case (Cons x xs)
  let ?r = "sg_g (sudogs s x)"
  have q: "sendq (ch s) = x # xs" using Cons by simp
  have w: "?r \<notin> runnable s" "g_pc (gs s ?r) \<noteq> Running" using head_waiter(2) [OF Cons.prems(1) q] by auto
  define s1 where "s1 = s\<lparr>ch := (ch s)\<lparr>sendq := xs\<rparr>, sudogs := (sudogs s)(x := (sudogs s x)\<lparr>sg_elem := None\<rparr>),
    gs := (gs s)(?r := (gs s ?r)\<lparr>g_param := None\<rparr>), runnable := insert ?r (runnable s)\<rparr>"
  have c: "core s1" by (rule wake_send [OF Cons.prems(1) q refl, where p = None]) (simp_all add: s1_def Cons.prems(2))
  have q1: "sendq (ch s1) = xs" "closed (ch s1)" "ch s1 = (ch s)\<lparr>sendq := xs\<rparr>" using Cons.prems by (simp_all add: s1_def)
  obtain s' where IH: "close_sendq s1 = Inr s'" "ch s' = (ch s1)\<lparr>sendq := []\<rparr>" "woke_all (set (sendq (ch s1))) s1 s'"
    using Cons.hyps(1) [of s1] c q1 by auto
  have "release_waiter x (set_ch (\<lambda>c. c\<lparr>sendq := xs\<rparr>) s) = Inr s1"
    using release_waiter_eq [of "set_ch (\<lambda>c. c\<lparr>sendq := xs\<rparr>) s" x] w by (simp add: set_ch_def s1_def)
  then have "close_sendq s = Inr s'"
    using q IH(1) by (simp add: close_sendq.simps [of s] dequeue_sendq_eq [OF core_sids [OF Cons.prems(1)]])
  moreover have "ch s' = (ch s)\<lparr>sendq := []\<rparr>" using IH(2) q1 by simp
  moreover have "woke_all (set (sendq (ch s))) s s'"
    using IH(3) q q1 unfolding woke_all_def by (auto simp: s1_def)
  ultimately show ?case by blast
qed

lemma closechan_open:
  assumes gd: "good s" and nc: "\<not> closed (ch s)"
  shows "\<exists>s'. closechan False s = (Closed_ok, s') \<and> good s' \<and> ch s' = (ch s)\<lparr>closed := True, recvq := [], sendq := []\<rparr> \<and>
    runnable s' = runnable s \<union> (\<lambda>x. sg_g (sudogs s x)) ` (set (recvq (ch s)) \<union> set (sendq (ch s))) \<and>
    (\<forall>g. running g s \<longrightarrow> running g s') \<and> slots s' = slots s"
proof -
  have i: "inv s" using gd by (simp add: good_def)
  note c = inv_core [OF i]
  define s0 where "s0 = set_ch (\<lambda>c. c\<lparr>closed := True\<rparr>) s"
  have "gok s0 g" for g
    by (rule gok_cong [of s]) (use c in \<open>simp_all add: core_def s0_def set_ch_def held_def\<close>)
  then have c0: "core s0" using c by (simp add: core_def queues_ok_def sids_ok_def s0_def set_ch_def)
  have ch0: "ch s0 = (ch s)\<lparr>closed := True\<rparr>" by (simp add: s0_def set_ch_def)
  obtain s1 where 1: "close_recvq s0 = Inr s1" "ch s1 = (ch s0)\<lparr>recvq := []\<rparr>" "woke_all (set (recvq (ch s0))) s0 s1"
    using close_recvq_good [OF c0] ch0 by auto
  have c1: "core s1" using 1(3) by (simp add: woke_all_def)
  obtain s2 where 2: "close_sendq s1 = Inr s2" "ch s2 = (ch s1)\<lparr>sendq := []\<rparr>" "woke_all (set (sendq (ch s1))) s1 s2"
    using close_sendq_good [OF c1] 1(2) ch0 by auto
  have ch2: "ch s2 = (ch s)\<lparr>closed := True, recvq := [], sendq := []\<rparr>" using 2(2) 1(2) ch0 by simp
  have sq: "sendq (ch s1) = sendq (ch s)" "recvq (ch s0) = recvq (ch s)" using 1(2) ch0 by simp_all
  have sm: "runnable s0 = runnable s" "sudogs s0 = sudogs s" "gs s0 = gs s" "slots s0 = slots s" "sent_log s0 = sent_log s" "recv_log s0 = recv_log s"
    by (simp_all add: s0_def set_ch_def)
  note W1 = 1(3) [unfolded woke_all_def sq sm] and W2 = 2(3) [unfolded woke_all_def sq]
  have run: "runnable s2 = runnable s \<union> (\<lambda>x. sg_g (sudogs s x)) ` (set (recvq (ch s)) \<union> set (sendq (ch s)))"
    using W1 W2 by auto
  have pcs: "g_pc (gs s2 g) = g_pc (gs s g)" for g using W1 W2 by simp
  have "inv s2"
  proof -
    have "closed_ok s2" by (simp add: closed_ok_def ch2)
    moreover have "buf_ok (ch s2)" "log_ok s2"
      by (rule data_cong [OF i, where l = "[]"]; use W1 W2 in \<open>simp add: ch2\<close>)+
    ultimately show ?thesis using W2 by (simp add: inv_def)
  qed
  then have "good s2" using closed_wakes [of s2] by (simp add: good_def ch2)
  moreover have "closechan False s = (Closed_ok, s2)"
    using nc 1(1) 2(1) by (simp add: closechan_def Let_def s0_def [symmetric] ok_or_def)
  moreover have "running g s2" if r: "running g s" for g
  proof -
    have "sg_g (sudogs s x) \<noteq> g" if "x \<in> set (recvq (ch s)) \<or> x \<in> set (sendq (ch s))" for x
      using queued_sid_held [OF c that] r by (auto simp: running_def)
    then show ?thesis using r pcs run by (auto simp: running_def)
  qed
  ultimately show ?thesis using ch2 run W1 W2 by (intro exI [of _ s2]) simp
qed

section \<open>Every run keeps the invariant\<close>

lemma good_slots: "good s \<Longrightarrow> good (s\<lparr>slots := m\<rparr>)"
proof -
  assume g: "good s"
  then have "core s" by (simp add: good_def inv_def)
  then have "core (s\<lparr>slots := m\<rparr>)" by (rule core_cong) simp_all
  then show ?thesis using g by (simp add: good_def inv_def closed_ok_def log_ok_def wakes_def woken_recv_def woken_send_def)
qed

lemma park_forever:
  assumes g: "good s" and r: "running g s"
  shows "good (set_g g (\<lambda>r. r\<lparr>g_pc := Forever\<rparr>) s)"
proof -
  let ?s = "set_g g (\<lambda>r. r\<lparr>g_pc := Forever\<rparr>) s"
  have i: "inv s" and c: "core s" using g by (simp_all add: good_def inv_def)
  have p: "g_param (gs s g) = None" using running_param [OF c r] .
  have gs: "gs ?s = (gs s)(g := (gs s g)\<lparr>g_pc := Forever\<rparr>)" by (simp add: set_g_def)
  have "gok ?s g'" for g'
  proof (cases "g' = g")
    case True
    then show ?thesis using r p by (simp add: gok_def Let_def set_g_def running_def)
  next
    case False
    have "gok s g'" using c by (simp add: core_def)
    then show ?thesis by (rule gok_cong) (use False in \<open>simp_all add: set_g_def held_def\<close>)
  qed
  moreover have "sg_g (sudogs s x) \<noteq> g" if "x \<in> set (recvq (ch s)) \<or> x \<in> set (sendq (ch s))" for x
    using queued_sid_held [OF c that] r by (auto simp: running_def)
  then have "queues_ok ?s" using c unfolding core_def queues_ok_def by (simp add: set_g_def)
  moreover have "sids_ok ?s" using c by (simp add: core_def sids_ok_def set_g_def)
  ultimately have "core ?s" by (simp add: core_def)
  moreover have "wakes 0 0 ?s"
    using woken_upd [of g s ?s, OF _ gs] r g by (simp add: wakes_def good_def running_def set_g_def)
  ultimately show ?thesis using inv_of_core [OF i, of ?s] by (simp add: good_def set_g_def)
qed

lemma wakes_mono: "wakes 0 0 s \<Longrightarrow> wakes kr ks s"
  by (auto simp: wakes_def)

lemma chansend_good: "good s \<Longrightarrow> running g s \<Longrightarrow> op_ok g (chansend isnil g block s)"
  using chansend_locked_good [of s g block] park_forever [of s g] wakes_mono [of s 0 1]
  by (auto simp: chansend_once good_def op_ok_def)

lemma chanrecv_good: "good s \<Longrightarrow> running g s \<Longrightarrow> op_ok g (chanrecv isnil g ep block s)"
  using chanrecv_locked_good [of s g ep block] park_forever [of s g] wakes_mono [of s 1 0]
  by (auto simp: chanrecv_once good_def op_ok_def)

lemma closechan_good: "good s \<Longrightarrow> running g s \<Longrightarrow> op_ok g (closechan isnil s)"
proof (cases "isnil \<or> closed (ch s)")
  case False
  assume "good s" "running g s"
  with closechan_open [of s] False show ?thesis by (auto simp: op_ok_def)
qed (auto simp: closechan_def op_ok_def)

lemma step_good:
  assumes "good s" "chan_step s out s'"
  shows "good s'"
  using assms(2)
proof (cases rule: chan_step.cases)
  case (send_locked g)
  then show ?thesis using chansend_locked_good [of s g False] assms(1) wakes_mono [of s] by (simp add: good_def op_ok_def)
next
  case (recv_locked g ep)
  then show ?thesis using chanrecv_locked_good [of s g ep False] assms(1) wakes_mono [of s] by (simp add: good_def op_ok_def)
next
  case (send g isnil block)
  then show ?thesis using chansend_good [OF assms(1), of g isnil block] by (simp add: op_ok_def)
next
  case (recv g ep isnil block)
  then show ?thesis using chanrecv_good [OF assms(1), of g isnil ep block] by (simp add: op_ok_def)
next
  case (close g isnil)
  then show ?thesis using closechan_good [OF assms(1), of g isnil] by (simp add: op_ok_def)
next
  case (resume g)
  then show ?thesis using resume_good [OF assms(1), of g] by (simp add: op_ok_def)
next
  case (assign g v)
  then show ?thesis using good_slots [OF assms(1)] by simp
qed

definition empty_chan :: "'v hchan \<Rightarrow> bool" where
  "empty_chan c \<longleftrightarrow> qcount c = 0 \<and> length (buf c) = dataqsiz c \<and> \<not> closed c \<and> sendx c = 0 \<and> recvx c = 0 \<and> recvq c = [] \<and> sendq c = []"

lemma makechan_empty: "makechan pb mm hs es al z n = Inr c \<Longrightarrow> empty_chan c \<and> int (dataqsiz c) = n"
  by (auto simp: makechan_def empty_chan_def split: if_splits)

lemma init_good: "empty_chan c \<Longrightarrow> good (init_world c m)"
  by (simp add: good_def inv_def core_def gok_def Let_def queues_ok_def sids_ok_def closed_ok_def buf_ok_def log_ok_def
      contents_def wakes_def init_world_def empty_chan_def new_sudog_def)

lemma reach_good: "chan_reach c m s \<Longrightarrow> empty_chan c \<Longrightarrow> good s"
  by (induction rule: chan_reach.induct) (auto intro: init_good step_good)


section \<open>Effects of the operations\<close>

lemma dequeue_effects:
  "dequeue_recvq s = (r, s') \<Longrightarrow> slots s' = slots s \<and> sent_log s' = sent_log s \<and> recv_log s' = recv_log s \<and> gs s' = gs s"
  "dequeue_sendq s = (r, s') \<Longrightarrow> slots s' = slots s \<and> sent_log s' = sent_log s \<and> recv_log s' = recv_log s \<and> gs s' = gs s"
  by (auto simp: dequeue_recvq_def dequeue_sendq_def set_ch_def split: prod.splits)

lemma goready_effects:
  "goready g s = Inr s' \<Longrightarrow> slots s' = slots s \<and> sent_log s' = sent_log s \<and> recv_log s' = recv_log s"
  by (auto simp: goready_def split: if_splits)

lemma chansend_write_effect:
  "chansend_write g s = (Selected True, s') \<Longrightarrow> sent_log s' = sent_log s @ [(g, slots s g)] \<and> recv_log s' = recv_log s"
  unfolding chansend_write_def Let_def ok_or_def
  by (auto split: prod.splits option.splits sum.splits dest!: dequeue_effects goready_effects simp: set_ch_def)

lemma chanrecv_read_effect:
  "chanrecv_read g ep s = (Received True True, s') \<Longrightarrow>
   recv_log s' = recv_log s @ [(g, buf (ch s) ! recvx (ch s))] \<and> sent_log s' = sent_log s \<and>
   slots s' = slots (store ep (buf (ch s) ! recvx (ch s)) s)"
  unfolding chanrecv_read_def Let_def ok_or_def
  by (auto split: prod.splits option.splits sum.splits dest!: dequeue_effects goready_effects simp: set_ch_def store_def)

lemma chansend_effect:
  assumes "chansend False g block s = (out, s')"
  shows "out = Selected True \<Longrightarrow> (\<exists>l. sent_log s' = sent_log s @ [(g, slots s g)] \<and> recv_log s' = recv_log s @ l)"
proof -
  assume "out = Selected True"
  then have l: "chansend_locked g block s = (Selected True, s')" using assms by (auto simp: chansend_once split: if_splits)
  show ?thesis
  proof (cases "dataqsiz (ch s) = 0")
    case True
    then show ?thesis using l unfolding chansend_locked_def Let_def ok_or_def
      by (auto split: if_splits prod.splits option.splits sum.splits dest!: dequeue_effects goready_effects simp: set_defs)
  next
    case False
    then have "chansend_write g s = (Selected True, s')"
      using l by (auto simp: chansend_locked_def chansend_async_def Let_def split: if_splits sum.splits)
    then show ?thesis using chansend_write_effect [of g s s'] by simp
  qed
qed

lemma chanrecv_effect:
  assumes "chanrecv False g ep block s = (Received True True, s')"
  shows "\<exists>v l. recv_log s' = recv_log s @ [(g, v)] \<and> sent_log s' = sent_log s @ l \<and> slots s' = slots (store ep v s)"
proof -
  have l: "chanrecv_locked g ep block s = (Received True True, s')" using assms by (auto simp: chanrecv_once split: if_splits)
  show ?thesis
  proof (cases "dataqsiz (ch s) = 0")
    case True
    then show ?thesis using l unfolding chanrecv_locked_def Let_def ok_or_def recvclosed_def
      by (auto split: if_splits prod.splits option.splits sum.splits dest!: dequeue_effects goready_effects simp: set_defs store_def)
  next
    case False
    then have "chanrecv_read g ep s = (Received True True, s')"
      using l by (auto simp: chanrecv_locked_def chanrecv_async_def recvclosed_def Let_def split: if_splits sum.splits)
    then show ?thesis using chanrecv_read_effect [of g ep s s'] by auto
  qed
qed

lemma chansend_fast_locked: "inv s \<Longrightarrow> chansend_fast s s \<Longrightarrow> chansend_locked g False s = (Selected False, s)"
  using dequeue_recvq_eq [OF inv_sids, of s] by (auto simp: chansend_fast_def chansend_locked_def chansend_async_def)

lemma chanrecv_fast_locked: "inv s \<Longrightarrow> chanrecv_fast s s \<Longrightarrow> chanrecv_locked g ep False s = (Received False False, s)"
  using dequeue_sendq_eq [OF inv_sids, of s] by (auto simp: chanrecv_fast_def chanrecv_locked_def chanrecv_async_def)

lemma nonblocking_effect:
  assumes i: "inv s"
  shows "fst (chansend_locked g False s) \<noteq> Parked" "chansend_locked g False s = (Selected False, s') \<Longrightarrow> s' = s"
    "fst (chanrecv_locked g ep False s) \<noteq> Parked" "chanrecv_locked g ep False s = (Received False b, s') \<Longrightarrow> s' = s"
proof -
  note d = dequeue_recvq_eq [OF inv_sids [OF i]] dequeue_sendq_eq [OF inv_sids [OF i]]
  have w: "fst (chansend_write g s) \<noteq> Parked" "fst (chansend_write g s) \<noteq> Selected False"
    "fst (chanrecv_read g ep s) \<noteq> Parked" "fst (chanrecv_read g ep s) \<noteq> Received False b" for b
    unfolding chansend_write_def chanrecv_read_def Let_def ok_or_def
    by (auto split: prod.splits option.splits sum.splits)
  show "fst (chansend_locked g False s) \<noteq> Parked" "fst (chanrecv_locked g ep False s) \<noteq> Parked"
    using w unfolding chansend_locked_def chanrecv_locked_def chansend_async_def chanrecv_async_def recvclosed_def Let_def ok_or_def d
    by (auto split: list.splits sum.splits)
  show "s' = s" if "chansend_locked g False s = (Selected False, s')"
    using that w unfolding chansend_locked_def chansend_async_def Let_def ok_or_def d
    by (auto split: list.splits sum.splits if_splits)
  show "s' = s" if "chanrecv_locked g ep False s = (Received False b, s')"
    using that w unfolding chanrecv_locked_def chanrecv_async_def recvclosed_def Let_def ok_or_def d
    by (auto split: list.splits sum.splits if_splits)
qed

text \<open>The capacity never changes, and only \<open>closechan\<close> changes \<open>closed\<close>.\<close>

definition same_shape :: "'v world \<Rightarrow> 'v world \<Rightarrow> bool" where
  "same_shape s s' \<longleftrightarrow> dataqsiz (ch s') = dataqsiz (ch s) \<and> closed (ch s') = closed (ch s)"

lemma shape_pieces:
  "dequeue_recvq s = (r, s') \<Longrightarrow> same_shape s s'"
  "dequeue_sendq s = (r, s') \<Longrightarrow> same_shape s s'"
  "goready g s = Inr s' \<Longrightarrow> ch s' = ch s" "releaseSudog g x s = Inr s' \<Longrightarrow> ch s' = ch s"
  "acquireSudog s = Inr (x, s') \<Longrightarrow> ch s' = ch s"
  by (auto simp: same_shape_def dequeue_recvq_def dequeue_sendq_def goready_def releaseSudog_def acquireSudog_def set_defs Let_def
      split: prod.splits if_splits list.splits)

lemma shape_write: "chansend_write g s = (out, s') \<Longrightarrow> same_shape s s'"
  unfolding chansend_write_def Let_def ok_or_def
  by (auto split: prod.splits option.splits sum.splits dest!: shape_pieces simp: set_ch_def same_shape_def)

lemma shape_read: "chanrecv_read g ep s = (out, s') \<Longrightarrow> same_shape s s'"
  unfolding chanrecv_read_def Let_def ok_or_def
  by (auto split: prod.splits option.splits sum.splits dest!: shape_pieces simp: set_ch_def same_shape_def)

lemma shape_async:
  "chansend_async g block s = (out, s') \<Longrightarrow> same_shape s s'"
  "chanrecv_async g ep block s = (out, s') \<Longrightarrow> same_shape s s'"
  unfolding chansend_async_def chanrecv_async_def Let_def recvclosed_def
  by (auto split: if_splits prod.splits sum.splits dest!: shape_pieces shape_write shape_read simp: set_defs same_shape_def)

lemma shape_locked:
  "chansend_locked g block s = (out, s') \<Longrightarrow> same_shape s s'"
  "chanrecv_locked g ep block s = (out, s') \<Longrightarrow> same_shape s s'"
proof -
  show "same_shape s s'" if "chansend_locked g block s = (out, s')"
    using that unfolding chansend_locked_def Let_def ok_or_def
    by (auto split: if_splits prod.splits sum.splits option.splits dest!: shape_pieces shape_async simp: set_defs same_shape_def)
  show "same_shape s s'" if "chanrecv_locked g ep block s = (out, s')"
    using that unfolding chanrecv_locked_def Let_def ok_or_def recvclosed_def
    by (auto split: if_splits prod.splits sum.splits option.splits dest!: shape_pieces shape_async simp: set_defs same_shape_def)
qed

lemma shape_resume: "resume g s = (out, s') \<Longrightarrow> same_shape s s'"
  unfolding resume_def Let_def chansend_sync_woken_def chansend_async_woken_def chanrecv_sync_woken_def
    chanrecv_async_woken_def recvclosed_def ok_or_def
  by (auto split: pc.splits if_splits sum.splits dest!: shape_pieces shape_async simp: set_defs wake_def same_shape_def)

lemma shape_step:
  assumes "good s" "chan_step s out s'"
  shows "same_shape s s' \<or> \<not> closed (ch s) \<and> closechan False s = (Closed_ok, s')"
  using assms(2)
proof (cases rule: chan_step.cases)
  case (close g isnil)
  then show ?thesis
    using closechan_open [OF assms(1)] by (cases isnil; cases "closed (ch s)") (auto simp: closechan_def same_shape_def)
next
  case (send_locked g)
  then show ?thesis using shape_locked(1) by blast
next
  case (recv_locked g ep)
  then show ?thesis using shape_locked(2) by blast
next
  case (resume g)
  then show ?thesis using shape_resume by blast
qed (auto simp: chansend_once chanrecv_once set_g_def same_shape_def split: if_splits dest!: shape_locked)

lemma step_dataqsiz: "good s \<Longrightarrow> chan_step s out s' \<Longrightarrow> dataqsiz (ch s') = dataqsiz (ch s)"
  using shape_step [of s out s'] closechan_open [of s] by (auto simp: same_shape_def)

lemma reach_dataqsiz: "chan_reach c m s \<Longrightarrow> empty_chan c \<Longrightarrow> dataqsiz (ch s) = dataqsiz c"
proof (induction rule: chan_reach.induct)
  case (step s out s')
  then show ?case using step_dataqsiz [OF reach_good [OF step(1,4)] step(2)] by simp
qed (simp add: init_world_def)

text \<open>Nothing is sent on a closed channel, and a closed channel stays closed.\<close>

lemma qcount_pieces:
  "dequeue_sendq s = (r, s') \<Longrightarrow> qcount (ch s') = qcount (ch s)" "store ep v s = s' \<Longrightarrow> ch s' = ch s"
  by (auto simp: dequeue_sendq_def set_ch_def store_def split: prod.splits option.splits)

lemma qcount_read: "chanrecv_read g ep s = (out, s') \<Longrightarrow> qcount (ch s') \<le> qcount (ch s)"
  unfolding chanrecv_read_def Let_def ok_or_def
  by (auto split: prod.splits option.splits sum.splits dest!: qcount_pieces(1) shape_pieces(3) simp: set_ch_def)

lemma qcount_async: "chanrecv_async g ep block s = (out, s') \<Longrightarrow> qcount (ch s') \<le> qcount (ch s)"
  unfolding chanrecv_async_def Let_def recvclosed_def
  by (auto split: if_splits prod.splits sum.splits dest!: shape_pieces(5) qcount_read simp: set_defs)

lemma qcount_locked: "chanrecv_locked g ep block s = (out, s') \<Longrightarrow> qcount (ch s') \<le> qcount (ch s)"
  unfolding chanrecv_locked_def Let_def ok_or_def recvclosed_def
  by (auto split: if_splits prod.splits sum.splits option.splits dest!: qcount_pieces(1) shape_pieces(3,5) qcount_async simp: set_defs)

lemma qcount_resume: "closed (ch s) \<Longrightarrow> resume g s = (out, s') \<Longrightarrow> qcount (ch s') \<le> qcount (ch s)"
  unfolding resume_def Let_def chansend_sync_woken_def chansend_async_woken_def chanrecv_sync_woken_def
    chanrecv_async_woken_def recvclosed_def ok_or_def
  by (auto split: pc.splits if_splits sum.splits dest!: shape_pieces(4) qcount_async simp: set_defs wake_def)

lemma closed_step:
  assumes "good s" "chan_step s out s'" "closed (ch s)"
  shows "closed (ch s') \<and> qcount (ch s') \<le> qcount (ch s)"
proof -
  have "qcount (ch s') \<le> qcount (ch s)"
    using assms(2)
  proof (cases rule: chan_step.cases)
    case (resume g)
    then show ?thesis using qcount_resume [OF assms(3)] by blast
  qed (use assms(3) in \<open>auto simp: chansend_once chanrecv_once chansend_locked_def closechan_def set_g_def
      split: if_splits dest!: qcount_locked\<close>)
  then show ?thesis using shape_step [OF assms(1,2)] assms(3) by (simp add: same_shape_def)
qed

lemma runs_good: "chan_runs s s' \<Longrightarrow> good s \<Longrightarrow> good s' \<and> dataqsiz (ch s') = dataqsiz (ch s)"
  by (induction rule: chan_runs.induct) (auto intro: step_good dest: step_dataqsiz)

lemma runs_closed: "chan_runs s s' \<Longrightarrow> good s \<Longrightarrow> closed (ch s) \<Longrightarrow> closed (ch s') \<and> qcount (ch s') \<le> qcount (ch s)"
proof (induction rule: chan_runs.induct)
  case (go_on s s' out s'')
  then show ?case using closed_step [of s' out s''] runs_good [OF go_on(1)] by fastforce
qed simp

text \<open>The moment of the close in a run that ends with a closed channel.\<close>

lemma runs_closing:
  assumes "chan_runs s s'" "good s" "\<not> closed (ch s)" "closed (ch s')"
  shows "\<exists>t t'. chan_runs s t \<and> chan_runs t s' \<and> chan_runs t' s' \<and> \<not> closed (ch t) \<and> closechan False t = (Closed_ok, t')"
  using assms
proof (induction rule: chan_runs.induct)
  case (go_on s s' out s'')
  show ?case
  proof (cases "closed (ch s')")
    case True
    then show ?thesis using go_on(3) [OF go_on(4,5)] go_on(2) by (blast intro: chan_runs.go_on)
  next
    case False
    then have "closechan False s' = (Closed_ok, s'')"
      using shape_step [OF _ go_on(2)] runs_good [OF go_on(1,4)] go_on(6) by (auto simp: same_shape_def)
    then show ?thesis using False go_on(1,2) by (blast intro: chan_runs.intros)
  qed
qed simp

text \<open>What a test without the lock tells of the states between its two reads.\<close>

lemma chanrecv_fast_moment:
  assumes "good s1" "chan_runs s1 s2" "chanrecv_fast s1 s2"
  shows "chanrecv_locked g ep False s1 = (Received False False, s1)"
proof -
  have "\<not> closed (ch s1)" using runs_closed [OF assms(2,1)] assms(3) by (auto simp: chanrecv_fast_def)
  then have "chanrecv_fast s1 s1" using assms(3) by (simp add: chanrecv_fast_def)
  then show ?thesis using chanrecv_fast_locked assms(1) by (auto simp: good_def)
qed

lemma chansend_fast_moment:
  assumes g: "good s1" and r: "chan_runs s1 s2" and f: "chansend_fast s1 s2"
  shows "(\<exists>t. chan_runs s1 t \<and> chan_runs t s2 \<and> chansend_locked g False t = (Selected False, t)) \<or>
    dataqsiz (ch s1) = 0 \<and> (\<exists>t t'. chan_runs s1 t \<and> chan_runs t' s2 \<and> recvq (ch t) \<noteq> [] \<and> closechan False t = (Closed_ok, t'))"
proof (cases "closed (ch s2)")
  case False
  then have "chansend_fast s2 s2" using f by (simp add: chansend_fast_def)
  then have "chansend_locked g False s2 = (Selected False, s2)"
    using chansend_fast_locked runs_good [OF r g] by (auto simp: good_def)
  then show ?thesis using r by (blast intro: chan_runs.stay)
next
  case True
  then obtain t t' where t: "chan_runs s1 t" "chan_runs t s2" "chan_runs t' s2" "\<not> closed (ch t)" "closechan False t = (Closed_ok, t')"
    using runs_closing [OF r g] f by (auto simp: chansend_fast_def)
  have gt: "good t" using runs_good [OF t(1) g] by simp
  have gt': "good t'" and ch': "ch t' = (ch t)\<lparr>closed := True, recvq := [], sendq := []\<rparr>"
    using closechan_open [OF gt t(4)] t(5) by auto
  have d: "dataqsiz (ch t) = dataqsiz (ch s2)" "dataqsiz (ch t) = dataqsiz (ch s1)"
    using runs_good [OF t(2) gt] runs_good [OF t(1) g] by simp_all
  have q: "qcount (ch s2) \<le> qcount (ch t)" using runs_closed [OF t(3) gt'] ch' by simp
  have i: "inv t" and "qcount (ch t) \<le> dataqsiz (ch t)" using gt by (simp_all add: good_def inv_def buf_ok_def)
  show ?thesis
  proof (cases "dataqsiz (ch t) = 0 \<and> recvq (ch t) \<noteq> []")
    case True
    then show ?thesis using t(1,3,5) d by auto
  next
    case False
    then have "chansend_fast t t"
      using f d q \<open>qcount (ch t) \<le> dataqsiz (ch t)\<close> t(4) by (auto simp: chansend_fast_def)
    then have "chansend_locked g False t = (Selected False, t)" by (rule chansend_fast_locked [OF i])
    then show ?thesis using t(1,2) by blast
  qed
qed

text \<open>A sender that meets a waiting receiver does not fail.\<close>

lemma chansend_meets:
  assumes "good s" "\<not> closed (ch s)" "dataqsiz (ch s) = 0" "recvq (ch s) \<noteq> []"
  shows "fst (chansend_locked g b s) = Selected True"
proof -
  have i: "inv s" and c: "core s" using assms(1) by (simp_all add: good_def inv_def)
  obtain x xs where x: "recvq (ch s) = x # xs" using assms(4) by (cases "recvq (ch s)") auto
  obtain ep where "g_pc (gs s (sg_g (sudogs s x))) = RecvSync x ep" "sg_g (sudogs s x) \<notin> runnable s"
    using waiter_facts(2) [OF c x assms(3)] head_waiter(1) [OF c x] by auto
  then show ?thesis using assms(2,3) x
    by (simp add: chansend_locked_def dequeue_recvq_eq [OF inv_sids [OF i]] Let_def set_defs ok_or_def goready_def split: option.split)
qed

section \<open>The properties\<close>

text \<open>C1: Channels are first in, first out, and lose and duplicate nothing: in every run of any number
  of goroutines on a channel from \<open>makechan\<close>, the values sent so far are, in order, the values
  received so far followed by the contents of the buffer, which never holds more than its capacity.\<close>

theorem chan_fifo:
  assumes "makechan ptrbits maxMem hchanSize esize ealign z n = Inr c" "chan_reach c m s"
  shows "map snd (sent_log s) = map snd (recv_log s) @ contents (ch s) \<and>
    length (contents (ch s)) = qcount (ch s) \<and> int (qcount (ch s)) \<le> n"
proof -
  have e: "empty_chan c" and d: "int (dataqsiz c) = n" using makechan_empty [OF assms(1)] by auto
  have "inv s" using reach_good [OF assms(2) e] by (simp add: good_def)
  then show ?thesis using reach_dataqsiz [OF assms(2) e] d
    by (auto simp: inv_def log_ok_def buf_ok_def contents_def)
qed

text \<open>The witness: one value sent on a buffered channel.\<close>

definition demo_chan :: "nat hchan" where
  "demo_chan = \<lparr>qcount = 0, dataqsiz = 1, buf = [0], closed = False, elemzero = 0, sendx = 0, recvx = 0, recvq = [], sendq = []\<rparr>"

lemma demo_make: "makechan 64 (2 ^ 37) 96 8 8 0 1 = Inr demo_chan"
  by (simp add: makechan_def maxAlign_def demo_chan_def)

definition demo_sent :: "nat world" where
  "demo_sent = snd (chansend False 5 True (init_world demo_chan (\<lambda>_. 7)))"

lemma demo_sent_eq:
  "chansend False 5 True (init_world demo_chan (\<lambda>_. 7)) = (Selected True, demo_sent)"
  "recv_log demo_sent = []" "sent_log demo_sent = [(5, 7)]" "ch demo_sent = demo_chan\<lparr>buf := [7], qcount := 1\<rparr>"
  "gs demo_sent = (\<lambda>_. \<lparr>g_pc = Running, g_param = None, g_waiting = None\<rparr>)" "runnable demo_sent = {}"
  by (simp_all add: demo_sent_def chansend_once chansend_locked_def chansend_async_def chansend_write_def init_world_def
      demo_chan_def dequeue_recvq_def set_ch_def Let_def)

lemma demo_reach: "chan_reach demo_chan (\<lambda>_. 7) demo_sent"
proof (rule chan_reach.step [OF chan_reach.start])
  show "chan_step (init_world demo_chan (\<lambda>_. 7)) (Selected True) demo_sent"
    by (rule chan_step.send [OF _ demo_sent_eq(1)]) (simp_all add: running_def init_world_def)
qed

theorem chan_fifo_witness: "[7] = [] @ contents (ch demo_sent)"
  using chan_fifo [OF demo_make demo_reach] demo_sent_eq by simp

text \<open>No \<open>throw\<close> of the operations after \<open>makechan\<close> is reachable: no goroutine finds its waiting list
  corrupted or wakes up for nothing, no sudog is released with an element, and no parameter is left
  behind. The tests of a sudog's links and of \<open>selectdone\<close> say nothing here, where queues are lists;
  that \<open>dequeue\<close> clears the links is a theorem of \<open>Go_Waitq\<close>. The \<open>throw\<close>s of \<open>makechan\<close> depend on the
  element type alone.\<close>

theorem chan_no_throw:
  assumes "makechan ptrbits maxMem hchanSize esize ealign z n = Inr c" "chan_reach c m s"
  shows "(running g s \<longrightarrow> \<not> is_throw (fst (chansend isnil g block s)) \<and> \<not> is_throw (fst (chanrecv isnil g ep block s)) \<and>
      \<not> is_throw (fst (closechan isnil s))) \<and>
    (g \<in> runnable s \<longrightarrow> \<not> is_throw (fst (resume g s)))"
proof -
  have "good s" using reach_good [OF assms(2)] makechan_empty [OF assms(1)] by blast
  then show ?thesis using chansend_good chanrecv_good closechan_good resume_good unfolding op_ok_def by blast
qed

theorem chan_no_throw_witness: "\<not> is_throw (fst (chanrecv False 3 (Some 3) True demo_sent))"
  using chan_no_throw [OF demo_make demo_reach, of 3 False True "Some 3"] demo_sent_eq by (simp add: running_def)

text \<open>C14: No wake-up is lost. A parked goroutine that has not been made runnable is in the queue it
  waits on; if a receiver is queued while the buffer holds elements, some other receiver has been
  woken and not run yet, and likewise for senders and free places; senders and receivers never wait
  at the same time on an unbuffered channel; and nobody waits on a closed channel.\<close>

theorem chan_no_lost_wakeup:
  assumes "makechan ptrbits maxMem hchanSize esize ealign z n = Inr c" "chan_reach c m s"
  shows "(pc_sid (g_pc (gs s g)) = Some x \<and> g \<notin> runnable s \<longrightarrow> x \<in> set (recvq (ch s)) \<union> set (sendq (ch s))) \<and>
    (recvq (ch s) \<noteq> [] \<and> 0 < qcount (ch s) \<longrightarrow> woken_recv s \<noteq> {}) \<and>
    (sendq (ch s) \<noteq> [] \<and> qcount (ch s) < dataqsiz (ch s) \<longrightarrow> woken_send s \<noteq> {}) \<and>
    (dataqsiz (ch s) = 0 \<longrightarrow> recvq (ch s) = [] \<or> sendq (ch s) = []) \<and>
    (closed (ch s) \<longrightarrow> recvq (ch s) = [] \<and> sendq (ch s) = [])"
proof -
  have g: "good s" using reach_good [OF assms(2)] makechan_empty [OF assms(1)] by blast
  then have "gok s g" by (simp add: good_def inv_def core_def)
  then have "pc_sid (g_pc (gs s g)) = Some x \<and> g \<notin> runnable s \<longrightarrow> x \<in> set (recvq (ch s)) \<union> set (sendq (ch s))"
    by (cases "g_pc (gs s g)") (auto simp: gok_def Let_def)
  moreover have "wakes 0 0 s" "closed_ok s" using g by (simp_all add: good_def inv_def)
  ultimately show ?thesis unfolding wakes_def closed_ok_def by auto
qed

definition demo_waiting :: "nat world" where
  "demo_waiting = snd (chanrecv False 4 None True (init_world (demo_chan\<lparr>dataqsiz := 0, buf := []\<rparr>) (\<lambda>_. 7)))"

lemma demo_waiting_eq:
  "chanrecv False 4 None True (init_world (demo_chan\<lparr>dataqsiz := 0, buf := []\<rparr>) (\<lambda>_. 7)) = (Parked, demo_waiting)"
  "g_pc (gs demo_waiting 4) = RecvSync 0 None" "runnable demo_waiting = {}" "recvq (ch demo_waiting) = [0]"
  "sendq (ch demo_waiting) = []" "dataqsiz (ch demo_waiting) = 0"
  by (simp_all add: demo_waiting_def chanrecv_once chanrecv_locked_def init_world_def acquireSudog_def
      demo_chan_def dequeue_sendq_def set_defs Let_def)

lemma demo_make0: "makechan 64 (2 ^ 37) 96 8 8 0 0 = Inr (demo_chan\<lparr>dataqsiz := 0, buf := []\<rparr>)"
  by (simp add: makechan_def maxAlign_def demo_chan_def)

lemma demo_waiting_reach: "chan_reach (demo_chan\<lparr>dataqsiz := 0, buf := []\<rparr>) (\<lambda>_. 7) demo_waiting"
proof (rule chan_reach.step [OF chan_reach.start])
  show "chan_step (init_world (demo_chan\<lparr>dataqsiz := 0, buf := []\<rparr>) (\<lambda>_. 7)) Parked demo_waiting"
    by (rule chan_step.recv [OF _ _ demo_waiting_eq(1)]) (simp_all add: running_def init_world_def)
qed

theorem chan_no_lost_wakeup_witness: "0 \<in> set (recvq (ch demo_waiting)) \<union> set (sendq (ch demo_waiting))"
  using chan_no_lost_wakeup [OF demo_make0 demo_waiting_reach, of 4 0] demo_waiting_eq(2,3) by simp

text \<open>C15: What \<open>close\<close> means. Closing an open channel succeeds and makes every waiting sender and
  receiver runnable; a second close, closing nil and sending on a closed channel panic; a receive on
  a closed channel first drains the buffer and then returns at once, with the zero value and
  \<open>received\<close> false.\<close>

theorem close_semantics:
  assumes "makechan ptrbits maxMem hchanSize esize ealign z n = Inr c" "chan_reach c m s"
  shows "(\<not> closed (ch s) \<longrightarrow> (\<exists>s'. closechan False s = (Closed_ok, s') \<and> closed (ch s') \<and> recvq (ch s') = [] \<and> sendq (ch s') = [] \<and>
      runnable s' = runnable s \<union> (\<lambda>x. sg_g (sudogs s x)) ` (set (recvq (ch s)) \<union> set (sendq (ch s))) \<and>
      contents (ch s') = contents (ch s))) \<and>
    (closed (ch s) \<longrightarrow>
      closechan False s = (Failed (PanicMsg ''close of closed channel''), s) \<and>
      chansend False g block s = (Failed (PanicMsg ''send on closed channel''), s) \<and>
      (qcount (ch s) = 0 \<longrightarrow> chanrecv False g ep block s = (Received True False, store ep (elemzero (ch s)) s)) \<and>
      (0 < qcount (ch s) \<and> running g s \<longrightarrow> (\<exists>s'. chanrecv False g ep block s = (Received True True, s') \<and>
         contents (ch s) = buf (ch s) ! recvx (ch s) # contents (ch s') \<and> slots s' = slots (store ep (buf (ch s) ! recvx (ch s)) s)))) \<and>
    closechan True s = (Failed (PanicMsg ''close of nil channel''), s)"
proof -
  have e: "empty_chan c" using makechan_empty [OF assms(1)] by blast
  have g: "good s" using reach_good [OF assms(2) e] .
  then have i: "inv s" and b: "buf_ok (ch s)" by (simp_all add: good_def inv_def)
  have "\<exists>s'. closechan False s = (Closed_ok, s') \<and> closed (ch s') \<and> recvq (ch s') = [] \<and> sendq (ch s') = [] \<and>
      runnable s' = runnable s \<union> (\<lambda>x. sg_g (sudogs s x)) ` (set (recvq (ch s)) \<union> set (sendq (ch s))) \<and>
      contents (ch s') = contents (ch s)" if "\<not> closed (ch s)"
    using closechan_open [OF g that] by (auto simp: contents_def)
  moreover have "\<exists>s'. chanrecv False g ep block s = (Received True True, s') \<and>
      contents (ch s) = buf (ch s) ! recvx (ch s) # contents (ch s') \<and> slots s' = slots (store ep (buf (ch s) ! recvx (ch s)) s)"
    if cl: "closed (ch s)" and q: "0 < qcount (ch s)" and r: "running g s"
  proof -
    have d: "0 < dataqsiz (ch s)" using q b by (simp add: buf_ok_def)
    then have "chanrecv False g ep block s = chanrecv_read g ep s"
      using q cl by (simp add: chanrecv_once chanrecv_fast_def chanrecv_locked_def chanrecv_async_def)
    moreover obtain s' where s': "chanrecv_read g ep s = (Received True True, s')" "good s'"
      using chanrecv_read_good [OF i _ q r] g wakes_mono [of s 1 0] by (auto simp: good_def)
    moreover have "log_ok s'" "log_ok s" using s'(2) i by (simp_all add: good_def inv_def)
    then have "contents (ch s) = buf (ch s) ! recvx (ch s) # contents (ch s')"
      using chanrecv_read_effect [OF s'(1)] by (simp add: log_ok_def)
    ultimately show ?thesis using chanrecv_read_effect [OF s'(1)] by auto
  qed
  moreover have "chanrecv False g ep block s = (Received True False, store ep (elemzero (ch s)) s)"
    if "closed (ch s)" "qcount (ch s) = 0"
    using that by (simp add: chanrecv_once chanrecv_fast_def chanrecv_locked_def chanrecv_async_def recvclosed_def)
  ultimately show ?thesis by (auto simp: closechan_def chansend_once chansend_fast_def chansend_locked_def)
qed

theorem close_semantics_witness: "\<exists>s'. closechan False demo_waiting = (Closed_ok, s') \<and> runnable s' = {4}"
proof -
  have "\<not> closed (ch demo_waiting)" "sg_g (sudogs demo_waiting 0) = 4"
    by (simp_all add: demo_waiting_def chanrecv_once chanrecv_locked_def init_world_def acquireSudog_def
      demo_chan_def dequeue_sendq_def set_defs Let_def)
  with close_semantics [OF demo_make0 demo_waiting_reach, of 0 False None] demo_waiting_eq(3-5) show ?thesis by auto
qed

text \<open>C16: Non-blocking operations, with other goroutines running between the two reads of the test made
  without the lock (states \<open>s1\<close> and \<open>s2\<close>) and before the locked part (state \<open>s\<close>). They never park, and
  one that reports failure changes nothing. A receive does what the locked code does at \<open>s\<close>, or fails
  where the locked code fails at some moment from \<open>s1\<close> to \<open>s2\<close>. So does a send, except where the channel
  is unbuffered and a \<open>close\<close> between the reads found receivers waiting: then it fails although at no
  moment the locked code does, which before the close succeeds and after it panics (the comment in
  \<open>chansend\<close> says that there is always such a moment). Uninterrupted, each is its locked code.\<close>

theorem nonblocking_correct:
  assumes "makechan ptrbits maxMem hchanSize esize ealign z n = Inr c" "chan_reach c m s1" "chan_runs s1 s2" "chan_runs s2 s"
  shows "(chanrecv_at False g ep False s1 s2 s = chanrecv_locked g ep False s \<or>
      chanrecv_at False g ep False s1 s2 s = (Received False False, s) \<and>
      (\<exists>t. chan_runs s1 t \<and> chan_runs t s2 \<and> chanrecv_locked g ep False t = (Received False False, t))) \<and>
    (chansend_at False g False s1 s2 s = chansend_locked g False s \<or>
      chansend_at False g False s1 s2 s = (Selected False, s) \<and>
      ((\<exists>t. chan_runs s1 t \<and> chan_runs t s2 \<and> chansend_locked g False t = (Selected False, t)) \<or>
       n = 0 \<and> (\<exists>t t'. chan_runs s1 t \<and> chan_runs t' s2 \<and> recvq (ch t) \<noteq> [] \<and> closechan False t = (Closed_ok, t')))) \<and>
    (n = 0 \<and> \<not> closed (ch s1) \<and> recvq (ch s1) \<noteq> [] \<and> closechan False s1 = (Closed_ok, s2) \<longrightarrow>
      chansend_at False g False s1 s2 s = (Selected False, s) \<and> fst (chansend_locked g False s1) = Selected True \<and>
      chansend_locked g False s2 = (Failed (PanicMsg ''send on closed channel''), s2)) \<and>
    fst (chansend_at isnil g False s1 s2 s) \<noteq> Parked \<and> fst (chanrecv_at isnil g ep False s1 s2 s) \<noteq> Parked \<and>
    (chansend_at isnil g False s1 s2 s = (Selected False, s') \<longrightarrow> s' = s) \<and>
    (chanrecv_at isnil g ep False s1 s2 s = (Received False b, s') \<longrightarrow> s' = s) \<and>
    selectnbsend False g s = chansend_locked g False s \<and> selectnbrecv False g ep s = chanrecv_locked g ep False s"
proof -
  have e: "empty_chan c" "int (dataqsiz c) = n" using makechan_empty [OF assms(1)] by auto
  have g1: "good s1" using reach_good [OF assms(2) e(1)] .
  have g2: "good s2" using runs_good [OF assms(3) g1] by simp
  have i: "inv s" using runs_good [OF assms(4) g2] by (simp add: good_def)
  have n: "n = 0 \<longleftrightarrow> dataqsiz (ch s1) = 0" using reach_dataqsiz [OF assms(2) e(1)] e(2) by auto
  note effects = nonblocking_effect [OF i]
  have race: "chansend_fast s1 s2 \<and> fst (chansend_locked g False s1) = Selected True \<and>
      chansend_locked g False s2 = (Failed (PanicMsg ''send on closed channel''), s2)"
    if "n = 0" "\<not> closed (ch s1)" "recvq (ch s1) \<noteq> []" "closechan False s1 = (Closed_ok, s2)"
    using closechan_open [OF g1 that(2)] chansend_meets [OF g1 that(2) _ that(3)] that n
    by (auto simp: chansend_fast_def chansend_locked_def)
  have uninterrupted: "selectnbsend False g s = chansend_locked g False s"
    "selectnbrecv False g ep s = chanrecv_locked g ep False s"
    using chansend_fast_locked [OF i, of g] chanrecv_fast_locked [OF i, of g ep]
    by (simp_all add: selectnbsend_def selectnbrecv_def chansend_once chanrecv_once)
  have rcv: "chanrecv_at False g ep False s1 s2 s = chanrecv_locked g ep False s \<or>
      chanrecv_at False g ep False s1 s2 s = (Received False False, s) \<and>
      (\<exists>t. chan_runs s1 t \<and> chan_runs t s2 \<and> chanrecv_locked g ep False t = (Received False False, t))"
    using chanrecv_fast_moment [OF g1 assms(3)] assms(3) chan_runs.stay [of s1] by (auto simp: chanrecv_at_def)
  have snd: "chansend_at False g False s1 s2 s = chansend_locked g False s \<or>
      chansend_at False g False s1 s2 s = (Selected False, s) \<and>
      ((\<exists>t. chan_runs s1 t \<and> chan_runs t s2 \<and> chansend_locked g False t = (Selected False, t)) \<or>
       n = 0 \<and> (\<exists>t t'. chan_runs s1 t \<and> chan_runs t' s2 \<and> recvq (ch t) \<noteq> [] \<and> closechan False t = (Closed_ok, t')))"
    using chansend_fast_moment [OF g1 assms(3), of g] n by (auto simp: chansend_at_def)
  have "fst (chansend_at isnil g False s1 s2 s) \<noteq> Parked" "fst (chanrecv_at isnil g ep False s1 s2 s) \<noteq> Parked"
    "chansend_at isnil g False s1 s2 s = (Selected False, s') \<longrightarrow> s' = s"
    "chanrecv_at isnil g ep False s1 s2 s = (Received False b, s') \<longrightarrow> s' = s"
    using effects by (auto simp: chansend_at_def chanrecv_at_def)
  moreover have "chansend_at False g False s1 s2 s = (Selected False, s)" if "chansend_fast s1 s2"
    using that by (simp add: chansend_at_def)
  ultimately show ?thesis using rcv snd uninterrupted race by blast
qed

text \<open>The witness: a close that releases a waiting receiver between the two reads of a send.\<close>

definition demo_closed :: "nat world" where
  "demo_closed = snd (closechan False demo_waiting)"

lemma demo_closed_eq: "closechan False demo_waiting = (Closed_ok, demo_closed)"
  and demo_waiting_open: "\<not> closed (ch demo_waiting)"
  and demo_closed_runs: "chan_runs demo_waiting demo_closed"
proof -
  have w: "demo_waiting = snd (chanrecv False 4 None True (init_world (demo_chan\<lparr>dataqsiz := 0, buf := []\<rparr>) (\<lambda>_. 7)))"
    by (rule demo_waiting_def)
  have o: "\<not> closed (ch demo_waiting)" and r: "running 9 demo_waiting"
    by (simp_all add: w chanrecv_once chanrecv_locked_def init_world_def acquireSudog_def demo_chan_def dequeue_sendq_def
        set_defs Let_def running_def)
  have "good demo_waiting" using reach_good [OF demo_waiting_reach] makechan_empty [OF demo_make0] by blast
  then show c: "closechan False demo_waiting = (Closed_ok, demo_closed)"
    using closechan_open [OF _ o] by (auto simp: demo_closed_def)
  show "\<not> closed (ch demo_waiting)" by (rule o)
  show "chan_runs demo_waiting demo_closed"
    by (rule chan_runs.go_on [OF chan_runs.stay chan_step.close [OF r c]]) simp
qed

theorem nonblocking_correct_witness:
  "chansend_at False 9 False demo_waiting demo_closed demo_closed = (Selected False, demo_closed) \<and>
   fst (chansend_locked 9 False demo_waiting) = Selected True"
  using nonblocking_correct [OF demo_make0 demo_waiting_reach demo_closed_runs chan_runs.stay, of 9]
    demo_closed_eq demo_waiting_open demo_waiting_eq(4) by simp

text \<open>Delivery. A send that returns logs the sender's own value as sent; a receive that returns
  with \<open>received\<close> true logs the value that it has stored in its destination; and a send that finds a
  receiver waiting on an unbuffered channel stores the value in that receiver's destination, marks it
  as served and makes it runnable, after which the receiver returns with \<open>received\<close> true.\<close>

theorem delivery:
  assumes "makechan ptrbits maxMem hchanSize esize ealign z n = Inr c" "chan_reach c m s"
  shows "(chansend False g block s = (Selected True, s1) \<longrightarrow> (\<exists>l. sent_log s1 = sent_log s @ [(g, slots s g)] \<and> recv_log s1 = recv_log s @ l)) \<and>
    (chanrecv False g (Some g) block s = (Received True True, s1) \<longrightarrow>
       (\<exists>l. recv_log s1 = recv_log s @ [(g, slots s1 g)] \<and> sent_log s1 = sent_log s @ l)) \<and>
    (running g s \<and> \<not> closed (ch s) \<and> dataqsiz (ch s) = 0 \<and> recvq (ch s) = x # xs \<and> sg_elem (sudogs s x) = Some p \<longrightarrow>
       (\<exists>s2 s3. chansend False g block s = (Selected True, s2) \<and> slots s2 p = slots s g \<and> sg_g (sudogs s x) \<in> runnable s2 \<and>
          resume (sg_g (sudogs s x)) s2 = (Received True True, s3)))"
proof -
  have g: "good s" using reach_good [OF assms(2)] makechan_empty [OF assms(1)] by blast
  then have i: "inv s" and c: "core s" by (simp_all add: good_def inv_def)
  have "\<exists>s2 s3. chansend False g block s = (Selected True, s2) \<and> slots s2 p = slots s g \<and> sg_g (sudogs s x) \<in> runnable s2 \<and>
      resume (sg_g (sudogs s x)) s2 = (Received True True, s3)"
    if r: "running g s" and nc: "\<not> closed (ch s)" and d: "dataqsiz (ch s) = 0" and x: "recvq (ch s) = x # xs" and p: "sg_elem (sudogs s x) = Some p"
  proof -
    let ?r = "sg_g (sudogs s x)"
    have w: "g_pc (gs s ?r) = RecvSync x (Some p)" "?r \<notin> runnable s"
      using waiter_facts(2) [OF c x d] head_waiter(1) [OF c x] p by auto
    define s2 where "s2 = snd (chansend False g block s)"
    have 2: "chansend False g block s = (Selected True, s2)" "slots s2 p = slots s g" "?r \<in> runnable s2"
      "g_pc (gs s2 ?r) = RecvSync x (Some p)" "g_param (gs s2 ?r) = Some x"
      using nc d x p w unfolding s2_def
      by (simp_all add: chansend_once chansend_fast_def chansend_locked_def dequeue_recvq_eq [OF inv_sids [OF i]] Let_def set_defs ok_or_def goready_def)
    have "op_ok g (Selected True, s2)" using chansend_good [OF g r, of False block] 2(1) by simp
    then have g2: "good s2" by (simp add: op_ok_def)
    then have c2: "core s2" by (simp add: good_def inv_def)
    have "\<not> is_throw (fst (resume ?r s2))" using resume_good [OF g2 2(3)] by (simp add: op_ok_def)
    then have "fst (resume ?r s2) = Received True True"
      using 2(4,5) by (auto simp: resume_def Let_def chanrecv_sync_woken_def set_g_def wake_def split: sum.splits if_splits)
        (auto simp: releaseSudog_def Let_def split: if_splits)
    then show ?thesis using 2(1-3) by (metis prod.collapse)
  qed
  then show ?thesis using chansend_effect [of g block s _ s1] chanrecv_effect [of g "Some g" block s s1]
    by (auto simp: store_def)
qed

lemma init_world_logs: "sent_log (init_world c m) = []" "recv_log (init_world c m) = []" "slots (init_world c m) = m"
  by (simp_all add: init_world_def)

theorem delivery_witness: "sent_log demo_sent = [(5, 7)]"
  using delivery [OF demo_make chan_reach.start, of 5 True "\<lambda>_. 7" demo_sent] demo_sent_eq(1)
  by (auto simp: init_world_logs)


end
