(* ===== verification/Go_Slices.thy ===== *)
theory Go_Slices
  imports Go_Prelude
begin

text \<open>
  Slices that are filled from the front: reads and writes with Go's bounds check, and \<open>over out dst\<close>,
  the slice \<open>dst\<close> whose first elements have been overwritten by \<open>out\<close>, which is the state of the
  loops of the encoders.
\<close>

definition load_at :: "'a list \<Rightarrow> nat \<Rightarrow> panic + 'a" where
  "load_at a i = (if i < length a then Inr (a ! i) else Inl IndexOutOfRange)"

definition store_at :: "'a list \<Rightarrow> nat \<Rightarrow> 'a \<Rightarrow> panic + 'a list" where
  "store_at a i v = (if i < length a then Inr (a[i := v]) else Inl IndexOutOfRange)"

definition over :: "'a list \<Rightarrow> 'a list \<Rightarrow> 'a list" where
  "over out dst = out @ drop (length out) dst"

lemma over_Nil [simp]: "over [] dst = dst"
  by (simp add: over_def)

lemma length_over [simp]: "length out \<le> length dst \<Longrightarrow> length (over out dst) = length dst"
  by (simp add: over_def)

lemma take_over [simp]: "take (length out) (over out dst) = out"
  by (simp add: over_def)

lemma over_full: "length out = length dst \<Longrightarrow> over out dst = out"
  by (simp add: over_def)

lemma over_update:
  assumes "length out < length dst"
  shows "(over out dst)[length out := v] = over (out @ [v]) dst"
proof -
  have "drop (length out) dst = dst ! length out # drop (Suc (length out)) dst"
    using assms by (simp add: Cons_nth_drop_Suc)
  then show ?thesis by (simp add: over_def)
qed

lemma store_over:
  "length out < length dst \<Longrightarrow> k = length out \<Longrightarrow> store_at (over out dst) k v = Inr (over (out @ [v]) dst)"
  by (simp add: store_at_def over_update)

lemma store_over_out: "length out = length dst \<Longrightarrow> store_at (over out dst) (length out) v = Inl IndexOutOfRange"
  by (simp add: store_at_def)

end
