(* ===== verification/Go_Heap.thy ===== *)
theory Go_Heap
  imports Go_Sort Go_Slices "HOL-Library.Signed_Division"
begin

text \<open>
  Package container/heap (src/container/heap/heap.go): binary heaps over any collection with the
  methods of \<open>heap.Interface\<close>. The methods take any \<open>int\<close> as an index and may panic; the contract,
  the locale \<open>heap_interface\<close>, speaks of indices in range only and gives the contract of \<open>sort.Interface\<close>.
  The queue of ready actions of the go command (src/cmd/go/build.go) is the client in this tree; it meets the contract.

  \<open>down\<close> keeps its index in a machine word, because the code tests for the overflow of \<open>2*i+1\<close>.
  \<open>Pop\<close> and \<open>Remove\<close> do not test for an empty heap: they hand the index \<open>-1\<close> to the methods of the collection.
\<close>

declare bindE_cong [fundef_cong]

section \<open>heap.Interface and the operations\<close>

record ('s, 'a) heap_data =
  HLen :: "'s \<Rightarrow> nat"
  HLess :: "'s \<Rightarrow> int \<Rightarrow> int \<Rightarrow> panic + bool"
  HSwap :: "'s \<Rightarrow> int \<Rightarrow> int \<Rightarrow> panic + 's"
  HPush :: "'s \<Rightarrow> 'a \<Rightarrow> panic + 's"
  HPop :: "'s \<Rightarrow> panic + 's \<times> 'a"

type_synonym goint = "64 word"

lemma half_smaller: "(j - 1) sdiv 2 \<noteq> j \<Longrightarrow> j \<noteq> 0 \<and> \<bar>(j - 1) sdiv 2\<bar> < \<bar>j\<bar>" for j :: int
  by (cases "j \<le> 0") (auto simp: signed_divide_int_def sgn_if split: if_splits)

function up :: "('s, 'a) heap_data \<Rightarrow> int \<Rightarrow> 's \<Rightarrow> panic + 's" where
  "up H j s =
     (let i = (j - 1) sdiv 2 in
      if i = j then Inr s
      else bindE (HLess H s j i) (\<lambda>less.
        if \<not> less then Inr s
        else bindE (HSwap H s i j) (\<lambda>s. up H i s)))"
  by pat_completeness auto
termination
  by (relation "measure (\<lambda>(H, j, s). nat \<bar>j\<bar>)") (simp_all add: half_smaller)

lemma sint_succ:
  fixes j n :: goint
  assumes "sint j < sint n"
  shows "sint (j + 1) = sint j + 1"
proof -
  have "sint j + 1 < 2 ^ 63" using assms sint_lt [of n] by simp
  moreover have "- (2 ^ 63) \<le> sint j + 1" using sint_greater_eq [of j] by simp
  ultimately show ?thesis by (simp add: sint_word_ariths signed_take_bit_int_eq_self)
qed

lemma sint_of_nat_small: "k < 2 ^ 63 \<Longrightarrow> sint (of_nat k :: goint) = int k"
  by (simp add: signed_of_nat signed_take_bit_int_eq_self)

lemma sint_double_plus_one:
  fixes i :: goint
  assumes "0 \<le> sint i"
  shows "if 2 * sint i + 1 < 2 ^ 63 then sint (2 * i + 1) = 2 * sint i + 1 else sint (2 * i + 1) < 0"
proof -
  let ?k = "sint i"
  have k: "?k < 2 ^ 63" using sint_lt [of i] by simp
  have e: "sint (2 * i + 1) = signed_take_bit 63 (2 * ?k + 1)"
    using signed_take_bit_add [of 63 "2 * ?k" 1] by (simp add: sint_word_ariths)
  show ?thesis
  proof (cases "2 * ?k + 1 < 2 ^ 63")
    case True
    then show ?thesis unfolding e using assms by (simp add: signed_take_bit_int_eq_self)
  next
    case False
    have "signed_take_bit 63 (2 * ?k + 1) = 2 * ?k + 1 - 2 ^ 64"
    proof -
      have "(2 * ?k + 1 + 2 ^ 63) mod 2 ^ 64 = (2 * ?k + 1 + 2 ^ 63 - 2 ^ 64) mod 2 ^ 64"
        by (rule minus_mod_self2 [symmetric])
      also have "\<dots> = 2 * ?k + 1 + 2 ^ 63 - 2 ^ 64"
        by (rule mod_pos_pos_trivial) (use k False in simp_all)
      finally show ?thesis by (simp add: signed_take_bit_eq_take_bit_shift take_bit_eq_mod)
    qed
    then show ?thesis unfolding e using k False by simp
  qed
qed

function down :: "('s, 'a) heap_data \<Rightarrow> goint \<Rightarrow> goint \<Rightarrow> 's \<Rightarrow> panic + 's" where
  "down H i n s =
     (let j1 = 2 * i + 1 in
      if sint j1 \<ge> sint n \<or> sint j1 < 0 then Inr s
      else let j2 = j1 + 1 in
        bindE (if sint j2 < sint n then bindE (HLess H s (sint j1) (sint j2)) (\<lambda>less. Inr (if \<not> less then j2 else j1))
               else Inr j1) (\<lambda>j.
        bindE (HLess H s (sint j) (sint i)) (\<lambda>less.
        if \<not> less then Inr s
        else bindE (HSwap H s (sint i) (sint j)) (\<lambda>s. down H j n s))))"
  by pat_completeness auto

termination
proof (relation "measure (\<lambda>(H, i, n, s). if 0 \<le> sint i then nat (sint n - sint i) else Suc (nat (sint n)))",
    goal_cases)
  case (2 H i n s j1 j2 j less s')
  have j: "j = j1 \<or> j = j1 + 1 \<and> sint (j1 + 1) < sint n"
    using 2 by (auto split: if_splits elim: bindE.elims)
  have j1: "0 \<le> sint j1" "sint j1 < sint n" using 2 by auto
  then have "sint j1 \<le> sint j" "sint j < sint n" using j sint_succ [of j1 n] by auto
  moreover have "sint i < sint j1" if "0 \<le> sint i"
    using sint_double_plus_one [OF that] j1 2(1) that by (auto split: if_splits)
  ultimately show ?case using j1 by (auto split: if_splits)
qed simp

declare up.simps [simp del] down.simps [simp del]

text \<open>Init: the loop over \<open>i\<close> from \<open>n/2 - 1\<close> down to \<open>0\<close>.\<close>

fun Init_loop :: "('s, 'a) heap_data \<Rightarrow> nat \<Rightarrow> nat \<Rightarrow> 's \<Rightarrow> panic + 's" where
  "Init_loop H n 0 s = Inr s"
| "Init_loop H n (Suc i) s = bindE (down H (of_nat i) (of_nat n) s) (\<lambda>s. Init_loop H n i s)"

definition Init :: "('s, 'a) heap_data \<Rightarrow> 's \<Rightarrow> panic + 's" where
  "Init H s = (let n = HLen H s in Init_loop H n (n div 2) s)"

definition Push :: "('s, 'a) heap_data \<Rightarrow> 's \<Rightarrow> 'a \<Rightarrow> panic + 's" where
  "Push H s x = bindE (HPush H s x) (\<lambda>s. up H (int (HLen H s) - 1) s)"

definition Pop :: "('s, 'a) heap_data \<Rightarrow> 's \<Rightarrow> panic + 's \<times> 'a" where
  "Pop H s =
     (let n = int (HLen H s) - 1 in
      bindE (HSwap H s 0 n) (\<lambda>s.
      bindE (down H 0 (of_int n) s) (\<lambda>s.
      HPop H s)))"

definition Remove :: "('s, 'a) heap_data \<Rightarrow> 's \<Rightarrow> int \<Rightarrow> panic + 's \<times> 'a" where
  "Remove H s i =
     (let n = int (HLen H s) - 1 in
      bindE (if n \<noteq> i
             then bindE (HSwap H s i n) (\<lambda>s. bindE (down H (of_int i) (of_int n) s) (\<lambda>s. up H i s))
             else Inr s) (\<lambda>s.
      HPop H s))"

definition Fix :: "('s, 'a) heap_data \<Rightarrow> 's \<Rightarrow> int \<Rightarrow> panic + 's" where
  "Fix H s i = bindE (down H (of_int i) (of_nat (HLen H s)) s) (\<lambda>s. up H i s)"

text \<open>The queue of ready actions in the go command; a lower priority number runs first. The rest
  of an action is its payload.\<close>

record 'p action =
  payload :: 'p
  priority :: int

definition action_at :: "'p action list \<Rightarrow> int \<Rightarrow> panic + 'p action" where
  "action_at q i = (if 0 \<le> i \<and> i < int (length q) then Inr (q ! nat i) else Inl IndexOutOfRange)"

definition actionQueue :: "('p action list, 'p action) heap_data" where
  "actionQueue = \<lparr>HLen = length,
     HLess = (\<lambda>q i j. bindE (action_at q i) (\<lambda>x. bindE (action_at q j) (\<lambda>y. Inr (priority x < priority y)))),
     HSwap = (\<lambda>q i j. bindE (action_at q j) (\<lambda>y. bindE (action_at q i) (\<lambda>x. Inr (q[nat i := y, nat j := x])))),
     HPush = (\<lambda>q x. Inr (q @ [x])),
     HPop = (\<lambda>q. let n = int (length q) - 1 in bindE (action_at q n) (\<lambda>x. Inr (take (nat n) q, x)))\<rparr>"

definition queue_push :: "'p action list \<Rightarrow> 'p action \<Rightarrow> panic + 'p action list" where
  "queue_push q a = Push actionQueue q a"

definition queue_pop :: "'p action list \<Rightarrow> panic + 'p action list \<times> 'p action" where
  "queue_pop q = Pop actionQueue q"

section \<open>The loops on methods that return\<close>

text \<open>With indices in range no method panics. These are the loops over such total methods, those of \<open>sorter H\<close>;
  \<open>up_sift\<close> and \<open>down_sift\<close> below show that the code runs like them.\<close>

definition sorter :: "('s, 'a) heap_data \<Rightarrow> 's sort_data" where
  "sorter H = \<lparr>Len = HLen H,
     Less = (\<lambda>s i j. case HLess H s (int i) (int j) of Inl _ \<Rightarrow> False | Inr b \<Rightarrow> b),
     Swap = (\<lambda>s i j. case HSwap H s (int i) (int j) of Inl _ \<Rightarrow> s | Inr s' \<Rightarrow> s')\<rparr>"

function sift_up :: "'s sort_data \<Rightarrow> nat \<Rightarrow> 's \<Rightarrow> 's" where
  "sift_up D j s =
     (let i = (j - 1) div 2 in
      if i = j \<or> \<not> Less D s j i then s
      else sift_up D i (Swap D s i j))"
  by pat_completeness auto
termination
  by (relation "measure (\<lambda>(D, j, s). j)") auto

function sift_down :: "'s sort_data \<Rightarrow> nat \<Rightarrow> nat \<Rightarrow> 's \<Rightarrow> 's" where
  "sift_down D i n s =
     (let j1 = 2 * i + 1 in
      if j1 \<ge> n then s
      else let j = (if j1 + 1 < n \<and> \<not> Less D s j1 (j1 + 1) then j1 + 1 else j1) in
           if \<not> Less D s j i then s
           else sift_down D j n (Swap D s i j))"
  by pat_completeness auto
termination
  by (relation "measure (\<lambda>(D, i, n, s). n - i)") auto

fun sift_all :: "'s sort_data \<Rightarrow> nat \<Rightarrow> nat \<Rightarrow> 's \<Rightarrow> 's" where
  "sift_all D n 0 s = s"
| "sift_all D n (Suc i) s = sift_all D n i (sift_down D i n s)"

declare sift_up.simps [simp del] sift_down.simps [simp del]

section \<open>Heap order\<close>

definition par :: "nat \<Rightarrow> nat" where
  "par k = (k - 1) div 2"

lemma par_less: "par k \<noteq> k \<Longrightarrow> par k < k"
  unfolding par_def by linarith

lemma par_less_trans: "0 < k \<Longrightarrow> k < n \<Longrightarrow> par k < n"
  unfolding par_def by linarith

lemma par_le: "par k \<le> k"
  unfolding par_def by linarith

lemma par_neq [simp]: "0 < k \<Longrightarrow> par k \<noteq> k" "0 < k \<Longrightarrow> k \<noteq> par k" "0 < k \<Longrightarrow> \<not> k \<le> par k"
  unfolding par_def by linarith+

lemma par_pos_less [simp]: "0 < k \<Longrightarrow> par k < k"
  unfolding par_def by linarith

definition heap_at :: "('a \<Rightarrow> 'a \<Rightarrow> bool) \<Rightarrow> 'a list \<Rightarrow> nat \<Rightarrow> bool" where
  "heap_at lt xs k \<longleftrightarrow> \<not> lt (xs ! k) (xs ! (par k))"

definition heap_ord :: "('a \<Rightarrow> 'a \<Rightarrow> bool) \<Rightarrow> 'a list \<Rightarrow> nat \<Rightarrow> bool" where
  "heap_ord lt xs n \<longleftrightarrow> (\<forall>k. 0 < k \<and> k < n \<longrightarrow> heap_at lt xs k)"

text \<open>\<open>dom_at i\<close>: the children of \<open>i\<close> are not below the parent of \<open>i\<close>, whatever is stored at \<open>i\<close>.\<close>

definition dom_at :: "('a \<Rightarrow> 'a \<Rightarrow> bool) \<Rightarrow> 'a list \<Rightarrow> nat \<Rightarrow> nat \<Rightarrow> nat \<Rightarrow> bool" where
  "dom_at lt xs a n i \<longleftrightarrow>
     (0 < i \<and> a \<le> par i \<longrightarrow>
      (\<forall>k. 0 < k \<and> k < n \<and> par k = i \<longrightarrow> \<not> lt (xs ! k) (xs ! (par i))))"

text \<open>Heap order from \<open>a\<close> on, except for the pairs in which \<open>k\<close> satisfies \<open>P\<close>.\<close>

definition heap_except :: "('a \<Rightarrow> 'a \<Rightarrow> bool) \<Rightarrow> 'a list \<Rightarrow> nat \<Rightarrow> nat \<Rightarrow> (nat \<Rightarrow> bool) \<Rightarrow> bool" where
  "heap_except lt xs a n P \<longleftrightarrow>
     (\<forall>k. 0 < k \<and> k < n \<and> a \<le> par k \<and> \<not> P k \<longrightarrow> heap_at lt xs k)"

lemma heap_except_all: "heap_except lt xs 0 n (\<lambda>k. False) = heap_ord lt xs n"
  by (simp add: heap_except_def heap_ord_def)

lemma heap_exceptD:
  "heap_except lt xs a n P \<Longrightarrow> 0 < k \<Longrightarrow> k < n \<Longrightarrow> a \<le> par k \<Longrightarrow> \<not> P k \<Longrightarrow> heap_at lt xs k"
  by (simp add: heap_except_def)

locale heap_interface =
  fixes H :: "('s, 'a) heap_data" and view :: "'s \<Rightarrow> 'a list" and lt :: "'a \<Rightarrow> 'a \<Rightarrow> bool"
  assumes HLen_view: "HLen H s = length (view s)"
    and HLess_view: "i < length (view s) \<Longrightarrow> j < length (view s) \<Longrightarrow>
      HLess H s (int i) (int j) = Inr (lt (view s ! i) (view s ! j))"
    and HSwap_view: "i < length (view s) \<Longrightarrow> j < length (view s) \<Longrightarrow>
      \<exists>s'. HSwap H s (int i) (int j) = Inr s' \<and> view s' = swap (view s) i j"
    and HPush_view: "\<exists>s'. HPush H s x = Inr s' \<and> view s' = view s @ [x]"
    and HPop_view: "view s \<noteq> [] \<Longrightarrow> \<exists>s'. HPop H s = Inr (s', last (view s)) \<and> view s' = butlast (view s)"
    and below_asym: "lt x y \<Longrightarrow> \<not> lt y x"
    and below_negtrans: "\<not> lt x y \<Longrightarrow> \<not> lt y z \<Longrightarrow> \<not> lt x z"

sublocale heap_interface \<subseteq> sort_interface "sorter H" view lt
proof unfold_locales
  fix s i j assume "i < length (view s)" "j < length (view s)"
  then show "Less (sorter H) s i j = lt (view s ! i) (view s ! j)" "view (Swap (sorter H) s i j) = swap (view s) i j"
    using HLess_view HSwap_view [of i s j] by (auto simp: sorter_def)
next
  fix s show "Len (sorter H) s = length (view s)" by (simp add: sorter_def HLen_view)
next
  fix x y z
  show "lt x y \<Longrightarrow> \<not> lt y x" by (rule below_asym)
  show "\<not> lt x y \<Longrightarrow> \<not> lt y z \<Longrightarrow> \<not> lt x z" by (rule below_negtrans)
qed

context heap_interface
begin

lemma HLess_total: "i < length (view s) \<Longrightarrow> j < length (view s) \<Longrightarrow> HLess H s (int i) (int j) = Inr (Less (sorter H) s i j)"
  using HLess_view by (simp add: sorter_def)

lemma HSwap_total: "i < length (view s) \<Longrightarrow> j < length (view s) \<Longrightarrow> HSwap H s (int i) (int j) = Inr (Swap (sorter H) s i j)"
  using HSwap_view [of i s j] by (auto simp: sorter_def)

lemma length_Swap: "i < length (view s) \<Longrightarrow> j < length (view s) \<Longrightarrow> length (view (Swap (sorter H) s i j)) = length (view s)"
  by (simp add: Swap_view)

text \<open>The code runs like the total loops, on indices in range.\<close>

lemma up_sift: "j < length (view s) \<Longrightarrow> up H (int j) s = Inr (sift_up (sorter H) j s)"
proof (induction j arbitrary: s rule: less_induct)
  case (less j)
  have par: "(int j - 1) sdiv 2 = int ((j - 1) div 2)"
    by (cases "j \<le> 1") (auto simp: signed_divide_int_def zdiv_int of_nat_diff le_Suc_eq)
  show ?case
  proof (cases "(j - 1) div 2 = j")
    case True
    then show ?thesis unfolding up.simps [of H "int j"] sift_up.simps [of _ j] par Let_def by (simp only: simp_thms if_True)
  next
    case False
    then have i: "(j - 1) div 2 < j" by linarith
    then have il: "(j - 1) div 2 < length (view s)" using less.prems by linarith
    have up: "up H (int ((j - 1) div 2)) (Swap (sorter H) s ((j - 1) div 2) j) =
        Inr (sift_up (sorter H) ((j - 1) div 2) (Swap (sorter H) s ((j - 1) div 2) j))"
      by (rule less.IH [OF i]) (simp only: length_Swap [OF il less.prems] il)
    show ?thesis
      unfolding up.simps [of H "int j"] sift_up.simps [of _ j] par Let_def HLess_total [OF less.prems il]
        HSwap_total [OF il less.prems] bindE.simps up using False by simp
  qed
qed

lemma down_sift:
  "n < 2 ^ 63 \<Longrightarrow> n \<le> length (view s) \<Longrightarrow> i \<le> n \<Longrightarrow> down H (of_nat i) (of_nat n) s = Inr (sift_down (sorter H) i n s)"
proof (induction "n - i" arbitrary: i s rule: less_induct)
  case less
  define j1 where "j1 = 2 * i + 1"
  define j2 where "j2 = j1 + 1"
  have w1: "2 * of_nat i + 1 = (of_nat j1 :: goint)" and w2: "of_nat j1 + 1 = (of_nat j2 :: goint)"
    by (simp_all add: j1_def j2_def add.commute)
  have si: "sint (of_nat i :: goint) = int i" and sn: "sint (of_nat n :: goint) = int n"
    using less.prems by (simp_all add: sint_of_nat_small)
  show ?case
  proof (cases "j1 < n")
    case False
    have "sint (of_nat j1 :: goint) \<ge> int n \<or> sint (of_nat j1 :: goint) < 0"
    proof -
      have "int j1 = 2 * int i + 1" by (simp add: j1_def)
      then show ?thesis
        using sint_double_plus_one [of "of_nat i"] False unfolding w1 si by (auto split: if_splits)
    qed
    then show ?thesis using False
      unfolding down.simps [of H "of_nat i"] sift_down.simps [of _ i] w1 sn Let_def j1_def [symmetric] by auto
  next
    case True
    have s1: "sint (of_nat j1 :: goint) = int j1" "sint (of_nat j2 :: goint) = int j2"
      using True less.prems(1) sint_of_nat_small [of j1] sint_succ [of "of_nat j1" "of_nat n"] sn w2 j2_def
      by simp_all
    define j where "j = (if j2 < n \<and> \<not> Less (sorter H) s j1 j2 then j2 else j1)"
    have ir: "i < length (view s)" "j1 < length (view s)" "j2 < n \<Longrightarrow> j2 < length (view s)"
      using True less.prems j1_def j2_def by simp_all
    have j: "j < n" "j < length (view s)" "i < j" "sint (of_nat j :: goint) = int j"
      using True ir s1 less.prems(2) by (auto simp: j_def j1_def j2_def)
    have pick: "(if int j2 < int n
        then bindE (HLess H s (int j1) (int j2)) (\<lambda>less. Inr (if \<not> less then of_nat j2 else of_nat j1))
        else Inr (of_nat j1)) = (Inr (of_nat j) :: panic + goint)"
      using ir(2,3) by (simp add: j_def HLess_total)
    have rest: "down H (of_nat j) (of_nat n) (Swap (sorter H) s i j) = Inr (sift_down (sorter H) j n (Swap (sorter H) s i j))"
      by (rule less.hyps) (use j less.prems ir in \<open>simp_all add: length_Swap\<close>)
    have "down H (of_nat i) (of_nat n) s =
        (if \<not> Less (sorter H) s j i then Inr s else down H (of_nat j) (of_nat n) (Swap (sorter H) s i j))"
      unfolding down.simps [of H "of_nat i"] w1 sn Let_def w2 s1 pick bindE.simps si j(4)
        HLess_total [OF j(2) ir(1)] HSwap_total [OF ir(1) j(2)]
      using True by simp
    then show ?thesis
      using True rest unfolding sift_down.simps [of _ i] Let_def j1_def [symmetric] j2_def [symmetric] j_def [symmetric] by simp
  qed
qed

lemma smaller_child:
  assumes "j = r \<and> \<not> lt (xs ! l) (xs ! r) \<or> j = l \<and> lt (xs ! l) (xs ! r)" and "k = l \<or> k = r"
  shows "\<not> lt (xs ! k) (xs ! j)"
  using assms lt_irrefl by (auto dest: lt_asym)

text \<open>\<open>up\<close>: only the pair below \<open>j\<close> may be out of order.\<close>

lemma up_correct:
  assumes "j < n" "n \<le> length (view s)"
    and "heap_except lt (view s) 0 n (\<lambda>k. k = j)" and "dom_at lt (view s) 0 n j"
  shows "seg_perm (view s) (view (sift_up (sorter H) j s)) 0 n \<and> heap_ord lt (view (sift_up (sorter H) j s)) n"
  using assms
proof (induction j arbitrary: s rule: less_induct)
  case (less j)
  let ?i = "par j" and ?xs = "view s"
  have less_ij: "Less (sorter H) s j ?i = lt (?xs ! j) (?xs ! ?i)"
    using less.prems par_le [of j] by (intro Less_view) linarith+
  show ?case
  proof (cases "?i = j \<or> \<not> Less (sorter H) s j ?i")
    case True
    moreover have "j = 0" if "?i = j" using that par_pos_less [of j] by auto
    ultimately have "heap_at lt ?xs j \<or> j = 0" using less_ij unfolding heap_at_def by blast
    then have "heap_ord lt ?xs n"
      using less.prems(3) unfolding heap_ord_def heap_except_def by auto
    then show ?thesis using True by (subst (1 2) sift_up.simps) (auto simp: Let_def par_def)
  next
    case False
    let ?s = "Swap (sorter H) s ?i j" and ?ys = "view (Swap (sorter H) s ?i j)"
    have ij: "?i < j" using False par_less by blast
    have lt: "lt (?xs ! j) (?xs ! ?i)" using False less_ij by blast
    have ys: "?ys = swap ?xs ?i j" using less.prems ij by (intro Swap_view) linarith+
    have nth: "?ys ! k = (if k = ?i then ?xs ! j else if k = j then ?xs ! ?i else ?xs ! k)" for k
      unfolding ys using less.prems ij by (simp add: nth_swap)
    have step: "seg_perm ?xs ?ys 0 n" unfolding ys using less.prems ij by (intro seg_perm_swap) auto
    have up_eq: "sift_up (sorter H) j s = sift_up (sorter H) ?i ?s" using False by (subst sift_up.simps) (auto simp: Let_def par_def)
    have old: "\<not> lt (?xs ! k) (?xs ! (par k))" if "0 < k" "k < n" "k \<noteq> j" for k
      using heap_exceptD [OF less.prems(3)] that by (simp add: heap_at_def)
    have dom: "\<not> lt (?xs ! k) (?xs ! ?i)" if "0 < k" "k < n" "par k = j" for k
      using less.prems(4) that ij by (auto simp: dom_at_def)
    have hx: "heap_except lt ?ys 0 n (\<lambda>k. k = ?i)"
      unfolding heap_except_def heap_at_def
    proof (intro allI impI, elim conjE)
      fix k assume k: "0 < k" "k < n" "k \<noteq> ?i"
      consider "k = j" | "k \<noteq> j" "par k = j" | "k \<noteq> j" "par k = ?i"
        | "k \<noteq> j" "par k \<noteq> j" "par k \<noteq> ?i" by blast
      then show "\<not> lt (?ys ! k) (?ys ! (par k))"
      proof cases
        case 1 then show ?thesis using lt ij lt_asym by (simp add: nth)
      next
        case 2 then show ?thesis using dom [of k] k ij by (simp add: nth)
      next
        case 3
        then have "?ys ! k = ?xs ! k" "?ys ! par k = ?xs ! j" using k by (simp_all add: nth)
        moreover have "\<not> lt (?xs ! k) (?xs ! ?i)" using old [of k] k 3 by simp
        ultimately show ?thesis using lt_negtrans lt_asym [OF lt] by simp
      next
        case 4 then show ?thesis using old [of k] k by (simp add: nth)
      qed
    qed
    have dm: "dom_at lt ?ys 0 n ?i"
      unfolding dom_at_def
    proof (intro impI allI, elim conjE)
      fix k assume i: "0 < ?i" and k: "0 < k" "k < n" "par k = ?i"
      have p: "\<not> lt (?xs ! ?i) (?xs ! (par ?i))" using old [of ?i] i ij less.prems(1) by simp
      have nth_p: "?ys ! (par ?i) = ?xs ! (par ?i)" using par_pos_less [OF i] ij by (simp add: nth)
      show "\<not> lt (?ys ! k) (?ys ! (par ?i))"
      proof (cases "k = j")
        case True
        then have "?ys ! k = ?xs ! ?i" using ij by (simp add: nth)
        then show ?thesis using p nth_p by simp
      next
        case False
        then have "\<not> lt (?xs ! k) (?xs ! ?i)" using old [of k] k by simp
        moreover have "k \<noteq> ?i" using k par_pos_less [of k] by auto
        then have "?ys ! k = ?xs ! k" using False by (simp add: nth)
        ultimately show ?thesis using p nth_p lt_negtrans by simp
      qed
    qed
    have len: "n \<le> length ?ys" using less.prems(2) by (simp add: ys)
    have "?i < n" using ij less.prems(1) by simp
    from less.IH [OF ij this len hx dm] show ?thesis
      unfolding up_eq using step by (blast intro: seg_perm_trans)
  qed
qed

lemma down_correct:
  assumes "n \<le> length (view s)" "i \<le> n" "a \<le> i"
    and "heap_except lt (view s) a n (\<lambda>k. k = i \<or> par k = i)" and "dom_at lt (view s) a n i"
  shows "seg_perm (view s) (view (sift_down (sorter H) i n s)) 0 n \<and>
         heap_except lt (view (sift_down (sorter H) i n s)) a n
           (\<lambda>k. k = i \<and> \<not> heap_at lt (view s) i) \<and>
         dom_at lt (view (sift_down (sorter H) i n s)) a n i"
  using assms
proof (induction "n - i" arbitrary: i s rule: less_induct)
  case less
  let ?xs = "view s" and ?D = "\<lambda>i s. sift_down (sorter H) i n s"
  define j where "j = (if 2 * i + 1 + 1 < n \<and> \<not> Less (sorter H) s (2 * i + 1) (2 * i + 1 + 1)
                       then 2 * i + 1 + 1 else 2 * i + 1)"
  have child: "par k = i \<longleftrightarrow> k = 2 * i + 1 \<or> k = 2 * i + 2" if "0 < k" for k
    using that unfolding par_def by linarith
  have eq: "?D i s = (if 2 * i + 1 \<ge> n then s else if \<not> Less (sorter H) s j i then s
      else ?D j (Swap (sorter H) s i j))"
    unfolding j_def by (subst sift_down.simps) (simp add: Let_def)
  have jn: "j < n" "0 < j" "par j = i" "i < j" if "2 * i + 1 < n"
    using that child [of j] by (auto simp: j_def)
  have min: "\<not> lt (?xs ! k) (?xs ! j)" if "0 < k" "k < n" "par k = i" for k
  proof -
    have k: "k = 2 * i + 1 \<or> k = 2 * i + 1 + 1" "2 * i + 1 < n" using child [of k] that by auto
    show ?thesis
    proof (cases "2 * i + 1 + 1 < n")
      case True
      then have "Less (sorter H) s (2 * i + 1) (2 * i + 1 + 1) = lt (?xs ! (2 * i + 1)) (?xs ! (2 * i + 1 + 1))"
        using less.prems(1) by (intro Less_view) linarith+
      then have "j = 2 * i + 1 + 1 \<and> \<not> lt (?xs ! (2 * i + 1)) (?xs ! (2 * i + 1 + 1)) \<or>
          j = 2 * i + 1 \<and> lt (?xs ! (2 * i + 1)) (?xs ! (2 * i + 1 + 1))"
        using True by (simp add: j_def)
      from smaller_child [OF this k(1)] show ?thesis .
    next
      case False
      then have "k = j" using k that(2) by (auto simp: j_def)
      then show ?thesis using lt_irrefl by blast
    qed
  qed
  have Lij: "Less (sorter H) s j i = lt (?xs ! j) (?xs ! i)" if "2 * i + 1 < n"
    using jn [OF that] less.prems(1) by (simp add: Less_view)
  have old: "\<not> lt (?xs ! k) (?xs ! par k)" if "0 < k" "k < n" "a \<le> par k" "k \<noteq> i" "par k \<noteq> i" for k
    using heap_exceptD [OF less.prems(4)] that by (simp add: heap_at_def)
  consider (leaf) "n \<le> 2 * i + 1" | (stop) "2 * i + 1 < n" "\<not> Less (sorter H) s j i"
    | (swap) "2 * i + 1 < n" "Less (sorter H) s j i" by linarith
  then show ?case
  proof cases
    case leaf
    have "heap_except lt ?xs a n (\<lambda>k. k = i \<and> \<not> heap_at lt ?xs i)"
      unfolding heap_except_def
    proof (intro allI impI, elim conjE)
      fix k assume k: "0 < k" "k < n" "a \<le> par k" "\<not> (k = i \<and> \<not> heap_at lt ?xs i)"
      have "par k \<noteq> i" using child [OF k(1)] leaf k(2) by auto
      then show "heap_at lt ?xs k"
        using k old [of k] by (cases "k = i") (auto simp: heap_at_def)
    qed
    then show ?thesis using leaf less.prems(5) by (simp add: eq)
  next
    case stop
    have "heap_except lt ?xs a n (\<lambda>k. k = i \<and> \<not> heap_at lt ?xs i)"
      unfolding heap_except_def
    proof (intro allI impI, elim conjE)
      fix k assume k: "0 < k" "k < n" "a \<le> par k" "\<not> (k = i \<and> \<not> heap_at lt ?xs i)"
      consider "k = i" | "k \<noteq> i" "par k = i" | "k \<noteq> i" "par k \<noteq> i" by blast
      then show "heap_at lt ?xs k"
      proof cases
        case 2
        have "\<not> lt (?xs ! j) (?xs ! i)" using stop Lij by blast
        then show ?thesis using min [OF k(1,2) 2(2)] 2(2) lt_negtrans unfolding heap_at_def by blast
      qed (use k old [of k] in \<open>auto simp: heap_at_def\<close>)
    qed
    then show ?thesis using stop less.prems(5) by (simp add: eq)
  next
    case swap
    note j = jn [OF swap(1)]
    let ?s = "Swap (sorter H) s i j"
    let ?ys = "view ?s" and ?zs = "view (?D j ?s)"
    have lt: "lt (?xs ! j) (?xs ! i)" using swap Lij by blast
    have ys: "?ys = swap ?xs i j" using less.prems(1) j by (intro Swap_view) auto
    have nth: "?ys ! k = (if k = i then ?xs ! j else if k = j then ?xs ! i else ?xs ! k)" for k
      unfolding ys using less.prems(1) j by (simp add: nth_swap)
    have step: "seg_perm ?xs ?ys 0 n" unfolding ys using less.prems(1) j by (intro seg_perm_swap) auto
    have hx: "heap_except lt ?ys a n (\<lambda>k. k = j \<or> par k = j)"
      unfolding heap_except_def heap_at_def
    proof (intro allI impI, elim conjE)
      fix k assume k: "0 < k" "k < n" "a \<le> par k" "\<not> (k = j \<or> par k = j)"
      consider "k = i" | "k \<noteq> i" "par k = i" | "k \<noteq> i" "par k \<noteq> i" by blast
      then show "\<not> lt (?ys ! k) (?ys ! par k)"
      proof cases
        case 1
        then have "?ys ! k = ?xs ! j" "?ys ! par k = ?xs ! par i"
          using k par_pos_less [OF k(1)] by (auto simp: nth)
        then show ?thesis using less.prems(5) j k 1 unfolding dom_at_def by auto
      next
        case 2
        then show ?thesis using min [OF k(1,2)] k by (simp add: nth)
      next
        case 3
        then show ?thesis using old [OF k(1-3)] k by (simp add: nth)
      qed
    qed
    have dm: "dom_at lt ?ys a n j"
      unfolding dom_at_def j(3)
    proof (intro impI allI, elim conjE)
      fix k assume k: "0 < k" "k < n" "par k = j"
      then have "k \<noteq> i" "k \<noteq> j" using par_pos_less [OF k(1)] j(4) by auto
      then show "\<not> lt (?ys ! k) (?ys ! i)"
        using old [of k] k j less.prems(3) by (simp add: nth)
    qed
    have at_j: "heap_at lt ?ys j" using lt_asym [OF lt] j by (simp add: heap_at_def nth)
    have "n - j < n - i" "j \<le> n" "a \<le> j" "n \<le> length ?ys" using j less.prems(1,3) by (auto simp: ys)
    from less.hyps [OF this(1,4,2,3) hx dm] at_j
    have ih: "seg_perm ?ys ?zs 0 n" "heap_except lt ?zs a n (\<lambda>k. False)" by simp_all
    have "dom_at lt ?zs a n i"
      unfolding dom_at_def
    proof (intro impI allI, elim conjE)
      fix k assume i: "0 < i" "a \<le> par i" and k: "0 < k" "k < n" "par k = i"
      have "heap_at lt ?zs k" "heap_at lt ?zs i"
        using ih(2) i k less.prems(3) j unfolding heap_except_def by auto
      then show "\<not> lt (?zs ! k) (?zs ! par i)" using k lt_negtrans unfolding heap_at_def by blast
    qed
    moreover have "heap_except lt ?zs a n (\<lambda>k. k = i \<and> \<not> heap_at lt ?xs i)"
      using ih(2) unfolding heap_except_def by blast
    moreover have "seg_perm ?xs ?zs 0 n" using step ih(1) by (rule seg_perm_trans)
    moreover have "?D i s = ?D j ?s" using swap by (simp add: eq)
    ultimately show ?thesis by simp
  qed
qed

text \<open>The root is a least element.\<close>

lemma heap_min:
  assumes "heap_ord lt xs n" "k < n"
  shows "\<not> lt (xs ! k) (xs ! 0)"
  using assms(2)
proof (induction k rule: less_induct)
  case (less k)
  show ?case
  proof (cases "k = 0")
    case False
    then have "\<not> lt (xs ! par k) (xs ! 0)" "\<not> lt (xs ! k) (xs ! par k)"
      using less par_pos_less [of k] assms(1) by (auto simp: heap_ord_def heap_at_def)
    then show ?thesis using lt_negtrans by blast
  qed (simp add: lt_irrefl)
qed

lemma down_step_heap:
  assumes "n \<le> length (view s)" "i \<le> n"
    and "heap_except lt (view s) (Suc i) n (\<lambda>k. False)"
  shows "seg_perm (view s) (view (sift_down (sorter H) i n s)) 0 n \<and>
         heap_except lt (view (sift_down (sorter H) i n s)) i n (\<lambda>k. False)"
proof -
  have "heap_except lt (view s) i n (\<lambda>k. k = i \<or> par k = i)"
  proof -
    have "heap_at lt (view s) k" if "0 < k" "k < n" "i \<le> par k" "par k \<noteq> i" for k
      using heap_exceptD [OF assms(3), of k] that by simp
    then show ?thesis unfolding heap_except_def by blast
  qed
  moreover have "dom_at lt (view s) i n i"
    using par_neq(3) [of i] unfolding dom_at_def by blast
  ultimately have "seg_perm (view s) (view (sift_down (sorter H) i n s)) 0 n"
    "heap_except lt (view (sift_down (sorter H) i n s)) i n (\<lambda>k. k = i \<and> \<not> heap_at lt (view s) i)"
    using down_correct [OF assms(1,2) order_refl] by blast+
  moreover have "\<not> i \<le> par i" if "0 < i" using that par_less_trans [of i i] by simp
  ultimately show ?thesis unfolding heap_except_def by blast
qed

lemma sift_all_heap:
  assumes "n = length (view s)" "i \<le> n"
    and "heap_except lt (view s) i n (\<lambda>k. False)"
  shows "seg_perm (view s) (view (sift_all (sorter H) n i s)) 0 n \<and> heap_ord lt (view (sift_all (sorter H) n i s)) n"
  using assms
proof (induction i arbitrary: s)
  case 0
  then show ?case by (simp add: heap_except_all)
next
  case (Suc i)
  let ?s = "sift_down (sorter H) i n s"
  have d: "seg_perm (view s) (view ?s) 0 n" "heap_except lt (view ?s) i n (\<lambda>k. False)"
    using down_step_heap [of n s i] Suc.prems by simp_all
  have "n = length (view ?s)" using seg_perm_length [OF d(1)] Suc.prems(1) by simp
  from Suc.IH [OF this _ d(2)] Suc.prems(2) d(1) show ?case
    by (auto intro: seg_perm_trans)
qed

lemma length_sift_down: "n \<le> length (view s) \<Longrightarrow> i \<le> n \<Longrightarrow> length (view (sift_down (sorter H) i n s)) = length (view s)"
proof (induction "n - i" arbitrary: i s rule: less_induct)
  case less
  let ?j = "if 2 * i + 1 + 1 < n \<and> \<not> Less (sorter H) s (2 * i + 1) (2 * i + 1 + 1) then 2 * i + 1 + 1 else 2 * i + 1"
  show ?case
  proof (cases "2 * i + 1 < n \<and> Less (sorter H) s ?j i")
    case True
    have "?j < n" "i < ?j" using True by auto
    then have l: "length (view (Swap (sorter H) s i ?j)) = length (view s)" using less.prems by (intro length_Swap) simp_all
    have "length (view (sift_down (sorter H) ?j n (Swap (sorter H) s i ?j))) = length (view (Swap (sorter H) s i ?j))"
      by (rule less.hyps) (use \<open>?j < n\<close> \<open>i < ?j\<close> l less.prems in simp_all)
    moreover have "sift_down (sorter H) i n s = sift_down (sorter H) ?j n (Swap (sorter H) s i ?j)"
      using True by (subst sift_down.simps) (auto simp: Let_def)
    ultimately show ?thesis using l by simp
  next
    case False
    then have "sift_down (sorter H) i n s = s" by (subst sift_down.simps) (auto simp: Let_def)
    then show ?thesis by simp
  qed
qed

lemma Init_loop_sift:
  "n < 2 ^ 63 \<Longrightarrow> n = length (view s) \<Longrightarrow> i \<le> n \<Longrightarrow> Init_loop H n i s = Inr (sift_all (sorter H) n i s)"
proof (induction i arbitrary: s)
  case (Suc i)
  have "down H (of_nat i) (of_nat n) s = Inr (sift_down (sorter H) i n s)"
    by (rule down_sift) (use Suc.prems in simp_all)
  moreover have "length (view (sift_down (sorter H) i n s)) = length (view s)"
    by (rule length_sift_down) (use Suc.prems in simp_all)
  ultimately show ?case using Suc.IH [of "sift_down (sorter H) i n s"] Suc.prems by simp
qed simp

lemma Init_heap:
  assumes "length (view s) < 2 ^ 63"
  shows "\<exists>s'. Init H s = Inr s' \<and> mset (view s') = mset (view s) \<and> heap_ord lt (view s') (length (view s'))"
proof -
  let ?n = "length (view s)"
  have "heap_except lt (view s) (?n div 2) ?n (\<lambda>k. False)"
    unfolding heap_except_def par_def by auto
  from sift_all_heap [OF refl _ this]
  have a: "seg_perm (view s) (view (sift_all (sorter H) ?n (?n div 2) s)) 0 ?n"
    "heap_ord lt (view (sift_all (sorter H) ?n (?n div 2) s)) ?n" by simp_all
  have "Init H s = Inr (sift_all (sorter H) ?n (?n div 2) s)"
    using Init_loop_sift [OF assms refl, of "?n div 2"] by (simp add: Init_def Let_def HLen_view)
  then show ?thesis using a(2) seg_perm_length [OF a(1)] seg_perm_mset [OF a(1)] by simp
qed

lemma heap_append:
  assumes "heap_ord lt xs (length xs)"
  shows "heap_except lt (xs @ [x]) 0 (Suc (length xs)) (\<lambda>k. k = length xs)"
    and "dom_at lt (xs @ [x]) 0 (Suc (length xs)) (length xs)"
proof -
  show "heap_except lt (xs @ [x]) 0 (Suc (length xs)) (\<lambda>k. k = length xs)"
    unfolding heap_except_def heap_at_def
  proof (intro allI impI, elim conjE)
    fix k assume k: "0 < k" "k < Suc (length xs)" "k \<noteq> length xs"
    then have "par k < length xs" "k < length xs" using par_less_trans [of k "length xs"] by simp_all
    then show "\<not> lt ((xs @ [x]) ! k) ((xs @ [x]) ! par k)"
      using assms k by (simp add: nth_append heap_ord_def heap_at_def)
  qed
  have "k < Suc (length xs) \<Longrightarrow> 0 < k \<Longrightarrow> par k \<noteq> length xs" for k
    using par_less_trans [of k "length xs"] by (cases "k = length xs") auto
  then show "dom_at lt (xs @ [x]) 0 (Suc (length xs)) (length xs)"
    unfolding dom_at_def by blast
qed

lemma Push_heap:
  assumes "heap_ord lt (view s) (length (view s))"
  shows "\<exists>s'. Push H s x = Inr s' \<and> mset (view s') = mset (view s) + {#x#} \<and> heap_ord lt (view s') (length (view s'))"
proof -
  obtain t where t: "HPush H s x = Inr t" "view t = view s @ [x]" using HPush_view by blast
  have "Push H s x = up H (int (length (view s))) t" using t by (simp add: Push_def HLen_view)
  also have "\<dots> = Inr (sift_up (sorter H) (length (view s)) t)" by (rule up_sift) (simp add: t)
  finally have p: "Push H s x = Inr (sift_up (sorter H) (length (view s)) t)" .
  have u: "seg_perm (view t) (view (sift_up (sorter H) (length (view s)) t)) 0 (Suc (length (view s)))"
    "heap_ord lt (view (sift_up (sorter H) (length (view s)) t)) (Suc (length (view s)))"
    using up_correct [of "length (view s)" "Suc (length (view s))" t] heap_append [OF assms, of x] by (simp_all add: t(2))
  then show ?thesis using p seg_perm_length [OF u(1)] seg_perm_mset [OF u(1)] by (simp add: t(2))
qed

text \<open>Taking the last element off a collection that is a heap up to that element.\<close>

lemma HPop_heap:
  assumes "heap_ord lt (view s) n" "length (view s) = Suc n"
  shows "\<exists>s'. HPop H s = Inr (s', view s ! n) \<and> heap_ord lt (view s') n \<and> length (view s') = n \<and>
         add_mset (view s ! n) (mset (view s')) = mset (view s)"
proof -
  have ne: "view s \<noteq> []" using assms(2) by auto
  then have l: "last (view s) = view s ! n" using assms(2) by (simp add: last_conv_nth)
  obtain s' where s': "HPop H s = Inr (s', last (view s))" "view s' = butlast (view s)" using HPop_view [OF ne] by blast
  have "heap_ord lt (butlast (view s)) n"
    unfolding heap_ord_def heap_at_def
  proof (intro allI impI, elim conjE)
    fix k assume k: "0 < k" "k < n"
    then have "par k < n" using par_less_trans by blast
    then show "\<not> lt (butlast (view s) ! k) (butlast (view s) ! par k)"
      using assms k by (simp add: nth_butlast heap_ord_def heap_at_def)
  qed
  moreover have "add_mset (last (view s)) (mset (butlast (view s))) = mset (view s)"
    using ne by (metis append_butlast_last_id mset_append mset.simps add_mset_add_single)
  ultimately show ?thesis using assms(2) s' l by auto
qed

lemma dom_at_swapped:
  assumes "heap_ord lt xs (length xs)" "i < length xs" "n = length xs - 1"
    and "\<And>k. k < n \<Longrightarrow> k \<noteq> i \<Longrightarrow> ys ! k = xs ! k"
  shows "heap_except lt ys 0 n (\<lambda>k. k = i \<or> par k = i)" and "dom_at lt ys 0 n i"
proof -
  have ok: "\<not> lt (xs ! k) (xs ! par k)" if "0 < k" "k < length xs" for k
    using assms(1) that by (simp add: heap_ord_def heap_at_def)
  show "heap_except lt ys 0 n (\<lambda>k. k = i \<or> par k = i)"
    unfolding heap_except_def heap_at_def
  proof (intro allI impI, elim conjE)
    fix k assume k: "0 < k" "k < n" "\<not> (k = i \<or> par k = i)"
    then have "par k < n" using par_less_trans by blast
    then show "\<not> lt (ys ! k) (ys ! par k)" using k ok [of k] assms(3,4) by simp
  qed
  show "dom_at lt ys 0 n i"
    unfolding dom_at_def
  proof (intro impI allI, elim conjE)
    fix k assume i: "0 < i" and k: "0 < k" "k < n" "par k = i"
    have p: "par i < i" "i < k" using par_pos_less [OF i] par_pos_less [OF k(1)] k(3) by simp_all
    have "\<not> lt (xs ! k) (xs ! i)" "\<not> lt (xs ! i) (xs ! par i)"
      using ok [of k] ok [of i] i k assms(2,3) by simp_all
    then show "\<not> lt (ys ! k) (ys ! par i)" using p k assms(4) lt_negtrans by simp
  qed
qed

lemma Pop_heap:
  assumes "length (view s) < 2 ^ 63" "view s \<noteq> []" "heap_ord lt (view s) (length (view s))"
  shows "\<exists>s'. Pop H s = Inr (s', view s ! 0) \<and> heap_ord lt (view s') (length (view s')) \<and>
              add_mset (view s ! 0) (mset (view s')) = mset (view s)"
proof -
  define n where "n = length (view s) - 1"
  have n: "length (view s) = Suc n" "n < 2 ^ 63" using assms(1,2) by (auto simp: n_def)
  define t where "t = Swap (sorter H) s 0 n"
  define u where "u = sift_down (sorter H) 0 n t"
  have sw: "HSwap H s 0 (int n) = Inr t" using HSwap_total [of 0 s n] n(1) by (simp add: t_def)
  have dn: "down H 0 (of_nat n) t = Inr u"
    using down_sift [of n t 0] length_Swap [of 0 s n] n by (simp add: t_def u_def)
  have eq: "Pop H s = HPop H u"
    using n(1) sw dn by (simp add: Pop_def HLen_view Let_def)
  have t: "view t = swap (view s) 0 n" unfolding t_def using n by (intro Swap_view) simp_all
  have "heap_except lt (view t) 0 n (\<lambda>k. k = 0 \<or> par k = 0)" "dom_at lt (view t) 0 n 0"
    by (rule dom_at_swapped [OF assms(3)]; use n in \<open>simp add: t swap_simps\<close>)+
  from down_correct [OF _ _ _ this] n(1)
  have u: "seg_perm (view t) (view u) 0 n" "heap_except lt (view u) 0 n (\<lambda>k. k = 0 \<and> \<not> heap_at lt (view t) 0)"
    unfolding u_def t by simp_all
  have "heap_ord lt (view u) n" using u(2) unfolding heap_ord_def heap_except_def by simp
  moreover have lu: "length (view u) = Suc n" using seg_perm_length [OF u(1)] n(1) t by simp
  moreover have "view u ! n = view s ! 0"
    using seg_perm_outside [OF u(1), of n] n(1) by (simp add: t swap_simps)
  moreover have "mset (view u) = mset (view s)" using seg_perm_mset [OF u(1)] n(1) by (simp add: t)
  ultimately show ?thesis
    using HPop_heap [of u n] unfolding eq by metis
qed

lemma fix_heap:
  assumes "n \<le> length (view s)" "i < n"
    and "heap_except lt (view s) 0 n (\<lambda>k. k = i \<or> par k = i)" "dom_at lt (view s) 0 n i"
  shows "seg_perm (view s) (view (sift_up (sorter H) i (sift_down (sorter H) i n s))) 0 n \<and>
         heap_ord lt (view (sift_up (sorter H) i (sift_down (sorter H) i n s))) n"
proof -
  let ?t = "sift_down (sorter H) i n s"
  have t: "seg_perm (view s) (view ?t) 0 n"
    "heap_except lt (view ?t) 0 n (\<lambda>k. k = i \<and> \<not> heap_at lt (view s) i)" "dom_at lt (view ?t) 0 n i"
    using down_correct [OF assms(1) _ _ assms(3,4)] assms(2) by simp_all
  then have "heap_except lt (view ?t) 0 n (\<lambda>k. k = i)" unfolding heap_except_def by blast
  from up_correct [OF assms(2) _ this t(3)] assms(1) seg_perm_length [OF t(1)] t(1)
  show ?thesis by (auto intro: seg_perm_trans)
qed

lemma fix_code:
  assumes "n < 2 ^ 63" "n \<le> length (view s)" "i < n"
  shows "bindE (down H (of_nat i) (of_nat n) s) (\<lambda>s. up H (int i) s) = Inr (sift_up (sorter H) i (sift_down (sorter H) i n s))"
  using down_sift [OF assms(1,2), of i] up_sift [of i "sift_down (sorter H) i n s"] assms(2,3)
  by (simp add: length_sift_down)

lemma Remove_heap:
  assumes "length (view s) < 2 ^ 63" "i < length (view s)" "heap_ord lt (view s) (length (view s))"
  shows "\<exists>s'. Remove H s (int i) = Inr (s', view s ! i) \<and> heap_ord lt (view s') (length (view s')) \<and>
              add_mset (view s ! i) (mset (view s')) = mset (view s)"
proof -
  define n where "n = length (view s) - 1"
  have n: "length (view s) = Suc n" "n < 2 ^ 63" using assms(1,2) by (auto simp: n_def)
  define u where "u = (if n \<noteq> i then sift_up (sorter H) i (sift_down (sorter H) i n (Swap (sorter H) s i n)) else s)"
  have eq: "Remove H s (int i) = HPop H u"
  proof (cases "n = i")
    case True
    then show ?thesis using n(1) by (simp add: Remove_def HLen_view u_def Let_def)
  next
    case False
    then have i: "i < n" "i < length (view s)" "n < length (view s)" using assms(2) n(1) by simp_all
    have "bindE (down H (of_nat i) (of_nat n) (Swap (sorter H) s i n)) (\<lambda>s. up H (int i) s) = Inr u"
      using fix_code [OF n(2) _ i(1), of "Swap (sorter H) s i n"] length_Swap [OF i(2,3)] n(1) False by (simp add: u_def)
    then have p: "bindE (HSwap H s (int i) (int n)) (\<lambda>s. bindE (down H (of_nat i) (of_nat n) s) (\<lambda>s. up H (int i) s)) = Inr u"
      unfolding HSwap_total [OF i(2,3)] by simp
    have hn: "int (HLen H s) - 1 = int n" "int n \<noteq> int i" using n(1) False by (simp_all add: HLen_view)
    show ?thesis unfolding Remove_def Let_def hn(1) of_int_of_nat_eq if_P [OF hn(2)] p by simp
  qed
  have "heap_ord lt (view u) n \<and> length (view u) = Suc n \<and> view u ! n = view s ! i \<and>
      mset (view u) = mset (view s)"
  proof (cases "n = i")
    case True
    then have "u = s" by (simp add: u_def)
    then show ?thesis using True assms(3) n(1) by (simp add: heap_ord_def)
  next
    case False
    let ?t = "Swap (sorter H) s i n"
    have i: "i < n" using False assms(2) n(1) by simp
    have t: "view ?t = swap (view s) i n" using n i by (intro Swap_view) simp_all
    have "heap_except lt (view ?t) 0 n (\<lambda>k. k = i \<or> par k = i)" "dom_at lt (view ?t) 0 n i"
      by (rule dom_at_swapped [OF assms(3)]; use n i in \<open>simp add: t swap_simps\<close>)+
    from fix_heap [OF _ i this] n(1)
    have u: "seg_perm (view ?t) (view u) 0 n" "heap_ord lt (view u) n"
      using False unfolding u_def t by simp_all
    have "view u ! n = view s ! i"
      using seg_perm_outside [OF u(1), of n] n(1) i by (simp add: t swap_simps)
    then show ?thesis
      using u seg_perm_length [OF u(1)] seg_perm_mset [OF u(1)] n(1) i by (simp add: t)
  qed
  then show ?thesis using HPop_heap [of u n] unfolding eq by metis
qed

lemma Fix_heap:
  assumes "length (view s) < 2 ^ 63" "i < length (view s)" "view s = xs[i := x]"
    and "heap_ord lt xs (length xs)"
  shows "\<exists>s'. Fix H s (int i) = Inr s' \<and> mset (view s') = mset (view s) \<and> heap_ord lt (view s') (length (view s'))"
proof -
  let ?n = "length (view s)"
  have n: "length xs = ?n" using assms(3) by simp
  have same: "view s ! k = xs ! k" if "k \<noteq> i" for k using assms(3) that by simp
  have ok: "\<not> lt (xs ! k) (xs ! par k)" if "0 < k" "k < ?n" for k
    using assms(4) that n by (simp add: heap_ord_def heap_at_def)
  have "heap_except lt (view s) 0 ?n (\<lambda>k. k = i \<or> par k = i)"
    unfolding heap_except_def heap_at_def using same ok by auto
  moreover have "\<not> lt (view s ! k) (view s ! par i)" if "0 < i" "0 < k" "k < ?n" "par k = i" for k
  proof -
    have "par i \<noteq> i" "k \<noteq> i" using par_less_trans [of i i] par_less_trans [of k k] that by auto
    moreover have "\<not> lt (xs ! k) (xs ! i)" "\<not> lt (xs ! i) (xs ! par i)"
      using ok [of k] ok [of i] that assms(2) by auto
    ultimately show ?thesis using same lt_negtrans by simp
  qed
  then have "dom_at lt (view s) 0 ?n i" unfolding dom_at_def by blast
  ultimately have u: "seg_perm (view s) (view (sift_up (sorter H) i (sift_down (sorter H) i ?n s))) 0 ?n"
    "heap_ord lt (view (sift_up (sorter H) i (sift_down (sorter H) i ?n s))) ?n"
    using fix_heap [OF order_refl assms(2)] by blast+
  have "Fix H s (int i) = Inr (sift_up (sorter H) i (sift_down (sorter H) i ?n s))"
    unfolding Fix_def HLen_view of_int_of_nat_eq by (rule fix_code [OF assms(1) order_refl assms(2)])
  then show ?thesis using u(2) seg_perm_length [OF u(1)] seg_perm_mset [OF u(1)] by simp
qed

lemma Pop_empty:
  assumes "view s = []"
  shows "Pop H s = bindE (HSwap H s 0 (- 1)) (\<lambda>s. HPop H s)"
proof -
  have "down H 0 (- 1) t = Inr t" for t by (subst down.simps) simp
  then show ?thesis by (simp add: Pop_def HLen_view assms Let_def)
qed

lemma queue_ops:
  assumes "length (view s) < 2 ^ 63" and "heap_ord lt (view s) (length (view s))"
  shows "(\<exists>t. Push H s x = Inr t \<and> mset (view t) = mset (view s) + {#x#} \<and> heap_ord lt (view t) (length (view t))) \<and>
      (if view s = [] then Pop H s = bindE (HSwap H s 0 (- 1)) (\<lambda>s. HPop H s)
       else \<exists>t y. Pop H s = Inr (t, y) \<and> mset (view s) = mset (view t) + {#y#} \<and>
           heap_ord lt (view t) (length (view t)) \<and> (\<forall>z \<in> set (view s). \<not> lt z y))"
proof (rule conjI)
  show "\<exists>t. Push H s x = Inr t \<and> mset (view t) = mset (view s) + {#x#} \<and> heap_ord lt (view t) (length (view t))"
    by (rule Push_heap [OF assms(2)])
  show "if view s = [] then Pop H s = bindE (HSwap H s 0 (- 1)) (\<lambda>s. HPop H s)
       else \<exists>t y. Pop H s = Inr (t, y) \<and> mset (view s) = mset (view t) + {#y#} \<and>
           heap_ord lt (view t) (length (view t)) \<and> (\<forall>z \<in> set (view s). \<not> lt z y)"
  proof (cases "view s = []")
    case True
    then show ?thesis by (simp add: Pop_empty)
  next
    case False
    have "\<forall>z \<in> set (view s). \<not> lt z (view s ! 0)"
      using heap_min [OF assms(2)] by (auto simp: in_set_conv_nth)
    then show ?thesis using Pop_heap [OF assms(1) False assms(2)] False by auto
  qed
qed

end

section \<open>The action queue meets the contract\<close>

lemma nat_length_pred: "nat (int k - 1) = k - 1"
  by simp

interpretation actions: heap_interface actionQueue "\<lambda>q. q" "\<lambda>x y. priority x < priority y"
  by unfold_locales
    (auto simp: actionQueue_def action_at_def swap_def Let_def butlast_conv_take last_conv_nth nat_length_pred)

section \<open>Properties\<close>

text \<open>C19: a priority queue on every collection that meets the contract of \<open>heap.Interface\<close> and
  whose length is a Go \<open>int\<close>: \<open>Push\<close> adds its element and keeps the heap order; \<open>Pop\<close> takes out
  an element that no other is below and keeps the others and the order. On an empty heap \<open>Pop\<close> calls the
  collection's \<open>Swap\<close> with the indices 0 and -1 and then, if that returns, its \<open>Pop\<close>; the queue of actions panics there.\<close>

theorem heap_queue_correct:
  assumes "heap_interface H view lt" and "length (view s) < 2 ^ 63"
    and "heap_ord lt (view s) (length (view s))"
  shows "(\<exists>t. Push H s x = Inr t \<and> mset (view t) = mset (view s) + {#x#} \<and> heap_ord lt (view t) (length (view t))) \<and>
      (if view s = [] then Pop H s = bindE (HSwap H s 0 (- 1)) (\<lambda>s. HPop H s)
       else \<exists>t y. Pop H s = Inr (t, y) \<and> mset (view s) = mset (view t) + {#y#} \<and>
           heap_ord lt (view t) (length (view t)) \<and> (\<forall>z \<in> set (view s). \<not> lt z y)) \<and>
      queue_pop ([] :: nat action list) = Inl IndexOutOfRange"
proof -
  have "queue_pop ([] :: nat action list) = Inl IndexOutOfRange"
    unfolding queue_pop_def by (simp add: actions.Pop_empty) (simp add: actionQueue_def action_at_def)
  then show ?thesis using heap_interface.queue_ops [OF assms, of x] by blast
qed

definition demo_queue :: "nat action list" where
  "demo_queue = [\<lparr>payload = 7, priority = 1\<rparr>, \<lparr>payload = 8, priority = 3\<rparr>, \<lparr>payload = 9, priority = 2\<rparr>]"

lemma demo_queue_heap: "heap_ord (\<lambda>x y. priority x < priority y) demo_queue (length demo_queue)"
  unfolding heap_ord_def heap_at_def
proof (intro allI impI, elim conjE)
  fix k assume "0 < k" "k < length demo_queue"
  then have "k = 1 \<or> k = 2" by (auto simp: demo_queue_def)
  then show "\<not> priority (demo_queue ! k) < priority (demo_queue ! par k)"
    by (auto simp: demo_queue_def par_def)
qed

theorem heap_queue_correct_witness:
  "(\<exists>t. queue_push demo_queue \<lparr>payload = 5, priority = 0\<rparr> = Inr t \<and>
     mset t = mset demo_queue + {#\<lparr>payload = 5, priority = 0\<rparr>#}) \<and>
   (\<exists>q y. queue_pop demo_queue = Inr (q, y) \<and> mset demo_queue = mset q + {#y#})"
proof -
  have "length demo_queue < 2 ^ 63" "demo_queue \<noteq> []" by (simp_all add: demo_queue_def)
  then show ?thesis
    using heap_queue_correct [OF actions.heap_interface_axioms _ demo_queue_heap,
      of "\<lparr>payload = 5, priority = 0\<rparr>"]
    unfolding queue_push_def queue_pop_def by auto
qed

text \<open>C25: \<open>Init\<close> gives any collection the heap order; \<open>Remove\<close> takes out exactly the element at its
  index; \<open>Fix\<close> restores the order after the element at its index got any new value. All keep the
  other elements and, although \<open>down\<close> computes child indices in machine words, none is limited by
  their overflow. None of them panics on an index in range.\<close>

theorem heap_maintenance_correct:
  assumes "heap_interface H view lt" and "length (view s) < 2 ^ 63"
    and "i < length (view s)" and "heap_ord lt xs (length xs)"
  shows "(\<exists>t. Init H s = Inr t \<and> mset (view t) = mset (view s) \<and> heap_ord lt (view t) (length (view t))) \<and>
      (view s = xs \<longrightarrow>
        (\<exists>t. Remove H s (int i) = Inr (t, view s ! i) \<and> heap_ord lt (view t) (length (view t)) \<and>
              mset (view s) = mset (view t) + {#view s ! i#})) \<and>
      (view s = xs[i := x] \<longrightarrow>
        (\<exists>t. Fix H s (int i) = Inr t \<and> mset (view t) = mset (view s) \<and> heap_ord lt (view t) (length (view t))))"
  using heap_interface.Init_heap [OF assms(1,2)] heap_interface.Fix_heap [OF assms(1-3) _ assms(4)]
    heap_interface.Remove_heap [OF assms(1-3)] assms(4) by auto

theorem heap_maintenance_correct_witness:
  "(\<exists>q. Init actionQueue demo_queue = Inr q \<and> heap_ord (\<lambda>x y. priority x < priority y) q (length q)) \<and>
   (\<exists>q. Remove actionQueue demo_queue 1 = Inr (q, demo_queue ! 1) \<and>
        mset demo_queue = mset q + {#demo_queue ! 1#}) \<and>
   (\<exists>q. Fix actionQueue demo_queue 1 = Inr q \<and> mset q = mset demo_queue)"
proof -
  have "length demo_queue < 2 ^ 63" "1 < length demo_queue" "demo_queue[1 := demo_queue ! 1] = demo_queue"
    by (simp_all add: demo_queue_def)
  then show ?thesis
    using heap_maintenance_correct [OF actions.heap_interface_axioms _ _ demo_queue_heap,
      of demo_queue 1 "demo_queue ! 1"] by auto
qed

end
