(* ===== verification/Go_Links.thy ===== *)
theory Go_Links
  imports Go_Prelude
begin

text \<open>
  Doubly linked structures: \<open>chain nx pv ps\<close> says that neighbours in the sequence \<open>ps\<close> of addresses
  point at each other through the fields \<open>nx\<close> and \<open>pv\<close>. A ring is a chain that ends where it
  begins. The two lemmas at the end are the splices of container/list; container/ring joins chains.
\<close>

fun chain :: "('p \<Rightarrow> 'p option) \<Rightarrow> ('p \<Rightarrow> 'p option) \<Rightarrow> 'p list \<Rightarrow> bool" where
  "chain nx pv (p # q # r) \<longleftrightarrow> nx p = Some q \<and> pv q = Some p \<and> chain nx pv (q # r)"
| "chain nx pv _ \<longleftrightarrow> True"

lemma chain_join:
  "chain nx pv (xs @ ys) \<longleftrightarrow> chain nx pv xs \<and> chain nx pv ys \<and>
     (xs = [] \<or> ys = [] \<or> nx (last xs) = Some (hd ys) \<and> pv (hd ys) = Some (last xs))"
proof (induction xs)
  case (Cons x xs)
  then show ?case by (cases xs; cases ys) auto
qed simp

lemma chain_append:
  "chain nx pv (xs @ y # ys) \<longleftrightarrow> chain nx pv (xs @ [y]) \<and> chain nx pv (y # ys)"
  by (cases ys) (auto simp: chain_join)

lemma chain_cong:
  assumes "chain nx pv xs" "\<And>x. x \<in> set (butlast xs) \<Longrightarrow> nx' x = nx x"
    and "\<And>x. x \<in> set (tl xs) \<Longrightarrow> pv' x = pv x"
  shows "chain nx' pv' xs"
  using assms
proof (induction nx pv xs rule: chain.induct)
  case (1 nx pv p q r)
  then have "chain nx' pv' (q # r)" by (cases r) auto
  then show ?case using 1 by auto
qed auto

lemma set_tl_subset: "set (tl zs) \<subseteq> set zs"
  by (cases zs) auto

text \<open>The two splices; \<open>a\<close> and \<open>n\<close> are neighbours, possibly the same element of a ring.\<close>

definition joint :: "'p \<Rightarrow> 'p list \<Rightarrow> 'p \<Rightarrow> 'p \<Rightarrow> 'p list \<Rightarrow> bool" where
  "joint e P a n Q \<longleftrightarrow> distinct (P @ [a]) \<and> distinct (n # Q) \<and> e \<notin> set (P @ a # n # Q) \<and>
     n \<notin> set (tl (P @ [a])) \<and> a \<notin> set (butlast (n # Q))"

lemma chain_halves:
  assumes "chain nx pv (P @ [a])" "chain nx pv (n # Q)" and j: "joint e P a n Q"
    and "\<And>x. x \<noteq> a \<Longrightarrow> x \<noteq> e \<Longrightarrow> nx' x = nx x" and "\<And>x. x \<noteq> n \<Longrightarrow> x \<noteq> e \<Longrightarrow> pv' x = pv x"
  shows "chain nx' pv' (P @ [a]) \<and> chain nx' pv' (n # Q)"
proof -
  have e: "e \<notin> set (tl (P @ [a]))" "e \<notin> set (butlast (n # Q))"
    using j set_tl_subset [of "P @ [a]"] unfolding joint_def by (auto dest: in_set_butlastD split: if_splits)
  have "chain nx' pv' (P @ [a])"
    by (rule chain_cong [OF assms(1)]; rule assms(4,5)) (use j e in \<open>auto simp: joint_def\<close>)
  moreover have "chain nx' pv' (n # Q)"
    by (rule chain_cong [OF assms(2)]; rule assms(4,5)) (use j e in \<open>auto simp: joint_def\<close>)
  ultimately show ?thesis by blast
qed

lemma chain_insert:
  assumes "chain nx pv (P @ a # n # Q)" and j: "joint e P a n Q"
    and f: "\<And>x. nx' x = (if x = a then Some e else if x = e then Some n else nx x)"
      "\<And>x. pv' x = (if x = n then Some e else if x = e then Some a else pv x)"
  shows "chain nx' pv' (P @ a # e # n # Q)"
proof -
  have "chain nx pv (P @ [a])" "chain nx pv (n # Q)"
    using assms(1) chain_append [of nx pv P a "n # Q"] by auto
  then have "chain nx' pv' (P @ [a]) \<and> chain nx' pv' (n # Q)"
    by (rule chain_halves [OF _ _ j]) (simp_all add: f)
  moreover have "a \<noteq> e" "n \<noteq> e" using j by (auto simp: joint_def)
  ultimately show ?thesis using chain_append [of nx' pv' P a "e # n # Q"] by (simp add: f)
qed

lemma chain_remove:
  assumes "chain nx pv (P @ a # e # n # Q)" and j: "joint e P a n Q"
    and f: "\<And>x. x \<noteq> e \<Longrightarrow> nx' x = (if x = a then Some n else nx x)"
      "\<And>x. x \<noteq> e \<Longrightarrow> pv' x = (if x = n then Some a else pv x)"
  shows "chain nx' pv' (P @ a # n # Q)"
proof -
  have "chain nx pv (P @ [a])" "chain nx pv (n # Q)"
    using assms(1) chain_append [of nx pv P a "e # n # Q"] by auto
  then have "chain nx' pv' (P @ [a]) \<and> chain nx' pv' (n # Q)"
    by (rule chain_halves [OF _ _ j]) (simp_all add: f)
  moreover have "a \<noteq> e" "n \<noteq> e" using j by (auto simp: joint_def)
  ultimately show ?thesis using chain_append [of nx' pv' P a "n # Q"] by (simp add: f)
qed

end
