(* ===== verification/Go_List.thy ===== *)
theory Go_List
  imports Go_Links
begin

text \<open>
  Package container/list (src/container/list/list.go): doubly linked lists. A list is a ring of
  elements through the sentinel \<open>root\<close> of the list; the heap maps every element to its four fields,
  and each operation reads and writes the fields that the code does. \<open>Rep h A\<close> says that the heap
  \<open>h\<close> holds, for every list \<open>l\<close>, the elements \<open>A l\<close> in this order; each operation is proved to
  act on \<open>A\<close> as its documentation says, for any number of lists that exist at the same time.
  A list that was never used is its zero value, with nil links at the root.
\<close>

section \<open>Elements, lists and the operations\<close>

type_synonym lid = nat

text \<open>The address of an element: the \<open>root\<close> field of a list, or an element of its own.\<close>

datatype ptr = Root lid | Node nat

record 'v element =
  e_next :: "ptr option"
  e_prev :: "ptr option"
  e_list :: "lid option"
  e_Value :: 'v

record 'v lheap =
  el :: "ptr \<Rightarrow> 'v element"
  l_len :: "lid \<Rightarrow> int"
  brk :: nat

definition upd :: "ptr \<Rightarrow> ('v element \<Rightarrow> 'v element) \<Rightarrow> 'v lheap \<Rightarrow> 'v lheap" where
  "upd p f h = h\<lparr>el := (el h)(p := f (el h p))\<rparr>"

definition set_len :: "lid \<Rightarrow> int \<Rightarrow> 'v lheap \<Rightarrow> 'v lheap" where
  "set_len l n h = h\<lparr>l_len := (l_len h)(l := n)\<rparr>"

definition el_Next :: "'v lheap \<Rightarrow> ptr \<Rightarrow> ptr option" where
  "el_Next h e =
     (let p = e_next (el h e) in
      case e_list (el h e) of
        None \<Rightarrow> None
      | Some l \<Rightarrow> if p \<noteq> Some (Root l) then p else None)"

definition el_Prev :: "'v lheap \<Rightarrow> ptr \<Rightarrow> ptr option" where
  "el_Prev h e =
     (let p = e_prev (el h e) in
      case e_list (el h e) of
        None \<Rightarrow> None
      | Some l \<Rightarrow> if p \<noteq> Some (Root l) then p else None)"

definition list_Init :: "lid \<Rightarrow> 'v lheap \<Rightarrow> 'v lheap" where
  "list_Init l h =
     (let h = upd (Root l) (\<lambda>r. r\<lparr>e_next := Some (Root l)\<rparr>) h;
          h = upd (Root l) (\<lambda>r. r\<lparr>e_prev := Some (Root l)\<rparr>) h
      in set_len l 0 h)"

definition list_Len :: "lid \<Rightarrow> 'v lheap \<Rightarrow> int" where
  "list_Len l h = l_len h l"

definition Front :: "lid \<Rightarrow> 'v lheap \<Rightarrow> ptr option" where
  "Front l h = (if l_len h l = 0 then None else e_next (el h (Root l)))"

definition Back :: "lid \<Rightarrow> 'v lheap \<Rightarrow> ptr option" where
  "Back l h = (if l_len h l = 0 then None else e_prev (el h (Root l)))"

definition lazyInit :: "lid \<Rightarrow> 'v lheap \<Rightarrow> 'v lheap" where
  "lazyInit l h = (if e_next (el h (Root l)) = None then list_Init l h else h)"

definition list_insert :: "lid \<Rightarrow> ptr \<Rightarrow> ptr \<Rightarrow> 'v lheap \<Rightarrow> panic + 'v lheap" where
  "list_insert l e at h =
     (case e_next (el h at) of
        None \<Rightarrow> Inl NilPointer
      | Some n \<Rightarrow>
          let h = upd at (\<lambda>r. r\<lparr>e_next := Some e\<rparr>) h;
              h = upd e (\<lambda>r. r\<lparr>e_prev := Some at\<rparr>) h;
              h = upd e (\<lambda>r. r\<lparr>e_next := Some n\<rparr>) h;
              h = upd n (\<lambda>r. r\<lparr>e_prev := Some e\<rparr>) h;
              h = upd e (\<lambda>r. r\<lparr>e_list := Some l\<rparr>) h
          in Inr (set_len l (l_len h l + 1) h))"

text \<open>\<open>&Element{Value: v}\<close> is the next unused address.\<close>

definition new_element :: "'v \<Rightarrow> 'v lheap \<Rightarrow> ptr \<times> 'v lheap" where
  "new_element v h =
     (let e = Node (brk h) in
      (e, (upd e (\<lambda>_. \<lparr>e_next = None, e_prev = None, e_list = None, e_Value = v\<rparr>) h)\<lparr>brk := brk h + 1\<rparr>))"

definition insertValue :: "lid \<Rightarrow> 'v \<Rightarrow> ptr option \<Rightarrow> 'v lheap \<Rightarrow> panic + ptr \<times> 'v lheap" where
  "insertValue l v at h =
     (case at of
        None \<Rightarrow> Inl NilPointer
      | Some at \<Rightarrow>
          let (e, h) = new_element v h in bindE (list_insert l e at h) (\<lambda>h. Inr (e, h)))"

definition list_remove :: "lid \<Rightarrow> ptr \<Rightarrow> 'v lheap \<Rightarrow> panic + 'v lheap" where
  "list_remove l e h =
     (case e_prev (el h e) of
        None \<Rightarrow> Inl NilPointer
      | Some p \<Rightarrow>
          let h = upd p (\<lambda>r. r\<lparr>e_next := e_next (el h e)\<rparr>) h in
          case e_next (el h e) of
            None \<Rightarrow> Inl NilPointer
          | Some n \<Rightarrow>
              let h = upd n (\<lambda>r. r\<lparr>e_prev := e_prev (el h e)\<rparr>) h;
                  h = upd e (\<lambda>r. r\<lparr>e_next := None\<rparr>) h;
                  h = upd e (\<lambda>r. r\<lparr>e_prev := None\<rparr>) h;
                  h = upd e (\<lambda>r. r\<lparr>e_list := None\<rparr>) h
              in Inr (set_len l (l_len h l - 1) h))"

definition list_Remove :: "lid \<Rightarrow> ptr \<Rightarrow> 'v lheap \<Rightarrow> panic + 'v \<times> 'v lheap" where
  "list_Remove l e h =
     (if e_list (el h e) = Some l
      then bindE (list_remove l e h) (\<lambda>h. Inr (e_Value (el h e), h))
      else Inr (e_Value (el h e), h))"

definition PushFront :: "lid \<Rightarrow> 'v \<Rightarrow> 'v lheap \<Rightarrow> panic + ptr \<times> 'v lheap" where
  "PushFront l v h = (let h = lazyInit l h in insertValue l v (Some (Root l)) h)"

definition PushBack :: "lid \<Rightarrow> 'v \<Rightarrow> 'v lheap \<Rightarrow> panic + ptr \<times> 'v lheap" where
  "PushBack l v h = (let h = lazyInit l h in insertValue l v (e_prev (el h (Root l))) h)"

definition InsertBefore :: "lid \<Rightarrow> 'v \<Rightarrow> ptr \<Rightarrow> 'v lheap \<Rightarrow> panic + ptr option \<times> 'v lheap" where
  "InsertBefore l v mark h =
     (if e_list (el h mark) \<noteq> Some l then Inr (None, h)
      else bindE (insertValue l v (e_prev (el h mark)) h) (\<lambda>(e, h). Inr (Some e, h)))"

definition InsertAfter :: "lid \<Rightarrow> 'v \<Rightarrow> ptr \<Rightarrow> 'v lheap \<Rightarrow> panic + ptr option \<times> 'v lheap" where
  "InsertAfter l v mark h =
     (if e_list (el h mark) \<noteq> Some l then Inr (None, h)
      else bindE (insertValue l v (Some mark) h) (\<lambda>(e, h). Inr (Some e, h)))"

text \<open>In the calls \<open>l.insert(l.remove(e), mark.prev)\<close> the language leaves open whether the field is
  read before or after the call of \<open>remove\<close>; the compiler of this tree does the calls first.\<close>

definition insert_at :: "lid \<Rightarrow> ptr \<Rightarrow> ptr option \<Rightarrow> 'v lheap \<Rightarrow> panic + 'v lheap" where
  "insert_at l e at h = (case at of None \<Rightarrow> Inl NilPointer | Some at \<Rightarrow> list_insert l e at h)"

definition MoveToFront :: "lid \<Rightarrow> ptr \<Rightarrow> 'v lheap \<Rightarrow> panic + 'v lheap" where
  "MoveToFront l e h =
     (if e_list (el h e) \<noteq> Some l \<or> e_next (el h (Root l)) = Some e then Inr h
      else bindE (list_remove l e h) (\<lambda>h. insert_at l e (Some (Root l)) h))"

definition MoveToBack :: "lid \<Rightarrow> ptr \<Rightarrow> 'v lheap \<Rightarrow> panic + 'v lheap" where
  "MoveToBack l e h =
     (if e_list (el h e) \<noteq> Some l \<or> e_prev (el h (Root l)) = Some e then Inr h
      else bindE (list_remove l e h) (\<lambda>h. insert_at l e (e_prev (el h (Root l))) h))"

definition MoveBefore :: "lid \<Rightarrow> ptr \<Rightarrow> ptr \<Rightarrow> 'v lheap \<Rightarrow> panic + 'v lheap" where
  "MoveBefore l e mark h =
     (if e_list (el h e) \<noteq> Some l \<or> e = mark \<or> e_list (el h mark) \<noteq> Some l then Inr h
      else bindE (list_remove l e h) (\<lambda>h. insert_at l e (e_prev (el h mark)) h))"

definition MoveAfter :: "lid \<Rightarrow> ptr \<Rightarrow> ptr \<Rightarrow> 'v lheap \<Rightarrow> panic + 'v lheap" where
  "MoveAfter l e mark h =
     (if e_list (el h e) \<noteq> Some l \<or> e = mark \<or> e_list (el h mark) \<noteq> Some l then Inr h
      else bindE (list_remove l e h) (\<lambda>h. insert_at l e (Some mark) h))"

fun PushBackList_loop :: "lid \<Rightarrow> nat \<Rightarrow> ptr option \<Rightarrow> 'v lheap \<Rightarrow> panic + 'v lheap" where
  "PushBackList_loop l 0 e h = Inr h"
| "PushBackList_loop l (Suc i) None h = Inl NilPointer"
| "PushBackList_loop l (Suc i) (Some e) h =
     bindE (insertValue l (e_Value (el h e)) (e_prev (el h (Root l))) h)
       (\<lambda>(_, h). PushBackList_loop l i (el_Next h e) h)"

definition PushBackList :: "lid \<Rightarrow> lid \<Rightarrow> 'v lheap \<Rightarrow> panic + 'v lheap" where
  "PushBackList l other h =
     (let h = lazyInit l h in PushBackList_loop l (nat (list_Len other h)) (Front other h) h)"

fun PushFrontList_loop :: "lid \<Rightarrow> nat \<Rightarrow> ptr option \<Rightarrow> 'v lheap \<Rightarrow> panic + 'v lheap" where
  "PushFrontList_loop l 0 e h = Inr h"
| "PushFrontList_loop l (Suc i) None h = Inl NilPointer"
| "PushFrontList_loop l (Suc i) (Some e) h =
     bindE (insertValue l (e_Value (el h e)) (Some (Root l)) h)
       (\<lambda>(_, h). PushFrontList_loop l i (el_Prev h e) h)"

definition PushFrontList :: "lid \<Rightarrow> lid \<Rightarrow> 'v lheap \<Rightarrow> panic + 'v lheap" where
  "PushFrontList l other h =
     (let h = lazyInit l h in PushFrontList_loop l (nat (list_Len other h)) (Back other h) h)"

section \<open>The representation\<close>

definition ring_of :: "lid \<Rightarrow> nat list \<Rightarrow> ptr list" where
  "ring_of l xs = Root l # map Node xs @ [Root l]"

abbreviation lchain :: "(ptr \<Rightarrow> 'v element) \<Rightarrow> ptr list \<Rightarrow> bool" where
  "lchain f \<equiv> chain (\<lambda>p. e_next (f p)) (\<lambda>p. e_prev (f p))"

definition holds_list :: "'v lheap \<Rightarrow> lid \<Rightarrow> nat list \<Rightarrow> bool" where
  "holds_list h l xs \<longleftrightarrow>
     distinct xs \<and> l_len h l = int (length xs) \<and>
     (\<forall>x. e_list (el h (Node x)) = Some l \<longleftrightarrow> x \<in> set xs) \<and>
     (lchain (el h) (ring_of l xs) \<or> xs = [] \<and> e_next (el h (Root l)) = None)"

definition Rep :: "'v lheap \<Rightarrow> (lid \<Rightarrow> nat list) \<Rightarrow> bool" where
  "Rep h A \<longleftrightarrow>
     (\<forall>l. holds_list h l (A l) \<and> e_list (el h (Root l)) = None) \<and>
     (\<forall>x. brk h \<le> x \<longrightarrow> e_list (el h (Node x)) = None)"

text \<open>The neighbours of a position in a list.\<close>

definition before :: "lid \<Rightarrow> nat list \<Rightarrow> ptr" where
  "before l xs = last (Root l # map Node xs)"

definition after :: "lid \<Rightarrow> nat list \<Rightarrow> ptr" where
  "after l ys = hd (map Node ys @ [Root l])"

lemma ring_split:
  "ring_of l (xs @ ys) = butlast (Root l # map Node xs) @ before l xs # after l ys # tl (map Node ys @ [Root l])"
proof -
  have "butlast (Root l # map Node xs) @ [before l xs] = Root l # map Node xs"
    unfolding before_def by (rule append_butlast_last_id) simp
  moreover have "after l ys # tl (map Node ys @ [Root l]) = map Node ys @ [Root l]"
    unfolding after_def by (cases ys) auto
  ultimately show ?thesis
    unfolding ring_of_def by (metis append.assoc append_Cons append_Nil map_append)
qed

lemma ring_joint:
  assumes "distinct (xs @ ys)" "e \<notin> set (xs @ ys)"
  shows "joint (Node e) (butlast (Root l # map Node xs)) (before l xs) (after l ys) (tl (map Node ys @ [Root l]))"
proof -
  have 1: "butlast (Root l # map Node xs) @ [before l xs] = Root l # map Node xs"
    unfolding before_def by (rule append_butlast_last_id) simp
  have 2: "after l ys # tl (map Node ys @ [Root l]) = map Node ys @ [Root l]"
    unfolding after_def by (cases ys) auto
  have "joint (Node e) P a n Q" if "P @ [a] = Root l # map Node xs" "n # Q = map Node ys @ [Root l]" for P a n Q
  proof -
    have "set (P @ a # n # Q) = set (Root l # map Node xs) \<union> set (map Node ys @ [Root l])"
      using that by (metis append.assoc append_Cons append_Nil set_append)
    moreover have "n \<in> set (map Node ys @ [Root l])" "a \<in> set (Root l # map Node xs)"
      using that by (metis list.set_intros(1), metis in_set_conv_decomp)
    ultimately show ?thesis
      unfolding joint_def that using assms by (auto simp: distinct_map inj_on_def)
  qed
  from this [OF 1 2] show ?thesis .
qed

definition ready :: "'v lheap \<Rightarrow> lid \<Rightarrow> bool" where
  "ready h l \<longleftrightarrow> e_next (el h (Root l)) \<noteq> None"

lemma holds_list_chain:
  "holds_list h l xs \<Longrightarrow> ready h l \<Longrightarrow> lchain (el h) (ring_of l xs)"
  by (auto simp: holds_list_def ready_def)

lemma chain_ready: "lchain (el h) (ring_of l xs) \<Longrightarrow> ready h l"
  by (cases xs) (auto simp: ring_of_def ready_def)

lemma chain_neighbours:
  assumes "lchain f (ring_of l (xs @ ys))"
  shows "e_next (f (before l xs)) = Some (after l ys)" and "e_prev (f (after l ys)) = Some (before l xs)"
  using assms unfolding ring_split [of l xs ys]
  using chain_append [of "\<lambda>p. e_next (f p)" "\<lambda>p. e_prev (f p)" "butlast (Root l # map Node xs)" "before l xs" "after l ys # tl (map Node ys @ [Root l])"]
  by auto

lemma before_in_ring: "before l xs \<in> insert (Root l) (Node ` set xs)"
  unfolding before_def by (metis last_in_set list.distinct(1) list.simps(15) set_map)

lemma after_in_ring: "after l ys \<in> insert (Root l) (Node ` set ys)"
  unfolding after_def by (cases ys) auto

lemma holds_list_frame:
  assumes "holds_list h l xs" and "\<And>x. x \<in> insert (Root l) (Node ` set xs) \<Longrightarrow> el h' x = el h x"
    and "l_len h' l = l_len h l"
    and "\<And>x. e_list (el h' (Node x)) = Some l \<longleftrightarrow> e_list (el h (Node x)) = Some l"
  shows "holds_list h' l xs"
proof -
  have "lchain (el h') (ring_of l xs)" if "lchain (el h) (ring_of l xs)"
  proof (rule chain_cong [OF that])
    show "e_next (el h' x) = e_next (el h x)" if "x \<in> set (butlast (ring_of l xs))" for x
      using that by (subst assms(2)) (auto simp: ring_of_def butlast_append)
    show "e_prev (el h' x) = e_prev (el h x)" if "x \<in> set (tl (ring_of l xs))" for x
      using that by (subst assms(2)) (auto simp: ring_of_def)
  qed
  then show ?thesis using assms unfolding holds_list_def by auto
qed

lemma RepD:
  assumes "Rep h A"
  shows "holds_list h l (A l)" "e_list (el h (Root l)) = None" "distinct (A l)"
    "l_len h l = int (length (A l))" "e_list (el h (Node x)) = Some l \<longleftrightarrow> x \<in> set (A l)"
    "brk h \<le> x \<Longrightarrow> e_list (el h (Node x)) = None" "x \<in> set (A l) \<Longrightarrow> x < brk h"
proof -
  show "x < brk h" if "x \<in> set (A l)"
  proof (rule ccontr)
    assume "\<not> x < brk h"
    then have "e_list (el h (Node x)) = None" using assms by (simp add: Rep_def)
    moreover have "e_list (el h (Node x)) = Some l" using assms that by (auto simp: Rep_def holds_list_def)
    ultimately show False by simp
  qed
qed (use assms in \<open>auto simp: Rep_def holds_list_def\<close>)

lemma ring_disjoint:
  assumes "Rep h A" "l' \<noteq> l"
  shows "insert (Root l') (Node ` set (A l')) \<inter> insert (Root l) (Node ` set (A l)) = {}"
  using assms(2) by (auto simp flip: RepD(5) [OF assms(1)])

text \<open>\<open>insert\<close> after the position that splits the list into \<open>xs\<close> and \<open>ys\<close>.\<close>

lemma insert_Rep:
  assumes R: "Rep h A" and r: "ready h l" and A: "A l = xs @ ys"
    and k: "e_list (el h (Node k)) = None" "k < brk h"
  shows "\<exists>h'. list_insert l (Node k) (before l xs) h = Inr h' \<and> Rep h' (A(l := xs @ k # ys)) \<and>
              brk h' = brk h \<and> (\<forall>x. e_Value (el h' x) = e_Value (el h x)) \<and>
              (\<forall>l. ready h l \<longrightarrow> ready h' l)"
proof -
  let ?a = "before l xs" and ?n = "after l ys" and ?e = "Node k"
  have chain: "lchain (el h) (ring_of l (xs @ ys))"
    using holds_list_chain [OF RepD(1) [OF R] r] A by simp
  note nb = chain_neighbours [OF chain]
  have ke: "k \<notin> set (xs @ ys)" using k RepD(5) [OF R, of k l] A by auto
  have ne: "?a \<noteq> ?e" "?n \<noteq> ?e"
    using before_in_ring [of l xs] after_in_ring [of l ys] ke by auto
  define h' where "h' = set_len l (l_len h l + 1)
     (upd ?e (\<lambda>r. r\<lparr>e_list := Some l\<rparr>) (upd ?n (\<lambda>r. r\<lparr>e_prev := Some ?e\<rparr>)
       (upd ?e (\<lambda>r. r\<lparr>e_next := Some ?n\<rparr>) (upd ?e (\<lambda>r. r\<lparr>e_prev := Some ?a\<rparr>)
         (upd ?a (\<lambda>r. r\<lparr>e_next := Some ?e\<rparr>) h)))))"
  have eq: "list_insert l ?e ?a h = Inr h'"
    using nb by (simp add: list_insert_def h'_def Let_def upd_def set_len_def)
  have nxt: "e_next (el h' x) = (if x = ?a then Some ?e else if x = ?e then Some ?n else e_next (el h x))" for x
    using ne by (auto simp: h'_def upd_def set_len_def)
  have prv: "e_prev (el h' x) = (if x = ?n then Some ?e else if x = ?e then Some ?a else e_prev (el h x))" for x
    using ne by (auto simp: h'_def upd_def set_len_def)
  have lst: "e_list (el h' x) = (if x = ?e then Some l else e_list (el h x))" for x
    using ne by (auto simp: h'_def upd_def set_len_def)
  have oth: "e_Value (el h' x) = e_Value (el h x)" "x \<noteq> ?a \<Longrightarrow> x \<noteq> ?e \<Longrightarrow> x \<noteq> ?n \<Longrightarrow> el h' x = el h x"
    "l_len h' l' = (if l' = l then l_len h l + 1 else l_len h l')" "brk h' = brk h" for x l'
    by (auto simp: h'_def upd_def set_len_def)
  have "distinct (xs @ ys)" using RepD(3) [OF R, of l] A by simp
  note j = ring_joint [OF this ke, of l]
  have "lchain (el h') (ring_of l (xs @ k # ys))"
  proof -
    have "ring_of l (xs @ k # ys) = butlast (Root l # map Node xs) @ ?a # ?e # ?n # tl (map Node ys @ [Root l])"
      using ring_split [of l xs "k # ys"] unfolding after_def by (cases ys) auto
    then show ?thesis using chain_insert [OF chain [unfolded ring_split] j nxt prv] by simp
  qed
  then have "holds_list h' l (xs @ k # ys)"
    using R A ke RepD(4) [OF R, of l] RepD(5) [OF R, of _ l] \<open>distinct (xs @ ys)\<close>
    by (auto simp: holds_list_def lst oth)
  moreover have "holds_list h' l' (A l')" if "l' \<noteq> l" for l'
  proof (rule holds_list_frame [OF RepD(1) [OF R]])
    fix x assume "x \<in> insert (Root l') (Node ` set (A l'))"
    moreover have "Node k \<notin> insert (Root l') (Node ` set (A l'))" using k RepD(5) [OF R, of k l'] by auto
    moreover have "?a \<in> insert (Root l) (Node ` set (A l))" "?n \<in> insert (Root l) (Node ` set (A l))"
      using before_in_ring [of l xs] after_in_ring [of l ys] A by auto
    ultimately show "el h' x = el h x" using ring_disjoint [OF R that] by (intro oth(2)) blast+
  qed (use that k in \<open>auto simp: oth lst\<close>)
  ultimately have "Rep h' (A(l := xs @ k # ys))"
    using R k by (auto simp: Rep_def lst oth)
  moreover have "ready h l' \<Longrightarrow> ready h' l'" for l' by (simp add: ready_def nxt)
  ultimately show ?thesis using eq oth by blast
qed

lemma remove_Rep:
  assumes R: "Rep h A" and A: "A l = xs @ k # ys"
  shows "\<exists>h'. list_remove l (Node k) h = Inr h' \<and> Rep h' (A(l := xs @ ys)) \<and> brk h' = brk h \<and>
              e_list (el h' (Node k)) = None \<and> (\<forall>x. e_Value (el h' x) = e_Value (el h x)) \<and>
              (\<forall>l. ready h l \<longrightarrow> ready h' l)"
proof -
  let ?a = "before l xs" and ?n = "after l ys" and ?e = "Node k"
  have chain: "lchain (el h) (ring_of l (xs @ k # ys))"
    using RepD(1) [OF R, of l] A by (simp add: holds_list_def)
  have prv_e: "e_prev (el h ?e) = Some ?a"
    using chain_neighbours(2) [OF chain] by (simp add: after_def)
  have nxt_e: "e_next (el h ?e) = Some ?n"
    using chain_neighbours(1) [of "el h" l "xs @ [k]" ys] chain by (simp add: before_def)
  have "distinct (xs @ k # ys)" using RepD(3) [OF R, of l] A by simp
  then have d: "distinct (xs @ ys)" and ke: "k \<notin> set (xs @ ys)" by auto
  have ne: "?a \<noteq> ?e" "?n \<noteq> ?e"
    using before_in_ring [of l xs] after_in_ring [of l ys] ke by auto
  define h' where "h' = set_len l (l_len h l - 1)
     (upd ?e (\<lambda>r. r\<lparr>e_list := None\<rparr>) (upd ?e (\<lambda>r. r\<lparr>e_prev := None\<rparr>) (upd ?e (\<lambda>r. r\<lparr>e_next := None\<rparr>)
       (upd ?n (\<lambda>r. r\<lparr>e_prev := Some ?a\<rparr>) (upd ?a (\<lambda>r. r\<lparr>e_next := Some ?n\<rparr>) h)))))"
  have eq: "list_remove l ?e h = Inr h'"
    using prv_e nxt_e ne by (simp add: list_remove_def h'_def Let_def upd_def set_len_def)
  have nxt: "x \<noteq> ?e \<Longrightarrow> e_next (el h' x) = (if x = ?a then Some ?n else e_next (el h x))" for x
    using ne by (auto simp: h'_def upd_def set_len_def)
  have prv: "x \<noteq> ?e \<Longrightarrow> e_prev (el h' x) = (if x = ?n then Some ?a else e_prev (el h x))" for x
    using ne by (auto simp: h'_def upd_def set_len_def)
  have lst: "e_list (el h' x) = (if x = ?e then None else e_list (el h x))" for x
    using ne by (auto simp: h'_def upd_def set_len_def)
  have oth: "e_Value (el h' x) = e_Value (el h x)" "x \<noteq> ?a \<Longrightarrow> x \<noteq> ?e \<Longrightarrow> x \<noteq> ?n \<Longrightarrow> el h' x = el h x"
    "l_len h' l' = (if l' = l then l_len h l - 1 else l_len h l')" "brk h' = brk h" for x l'
    by (auto simp: h'_def upd_def set_len_def)
  note j = ring_joint [OF d ke, of l]
  have "lchain (el h') (ring_of l (xs @ ys))"
  proof -
    have "ring_of l (xs @ k # ys) = butlast (Root l # map Node xs) @ ?a # ?e # ?n # tl (map Node ys @ [Root l])"
      using ring_split [of l xs "k # ys"] unfolding after_def by (cases ys) auto
    with chain have "lchain (el h) (butlast (Root l # map Node xs) @ ?a # ?e # ?n # tl (map Node ys @ [Root l]))"
      by metis
    from chain_remove [OF this j nxt prv] show ?thesis unfolding ring_split .
  qed
  then have "holds_list h' l (xs @ ys)"
    using A ke RepD(4) [OF R, of l] RepD(5) [OF R, of _ l] d by (auto simp: holds_list_def lst oth)
  moreover have "holds_list h' l' (A l')" if "l' \<noteq> l" for l'
  proof (rule holds_list_frame [OF RepD(1) [OF R]])
    fix x assume "x \<in> insert (Root l') (Node ` set (A l'))"
    moreover have "{?a, ?n, ?e} \<subseteq> insert (Root l) (Node ` set (A l))"
      using before_in_ring [of l xs] after_in_ring [of l ys] A by auto
    ultimately show "el h' x = el h x" using ring_disjoint [OF R that] by (intro oth(2)) blast+
  next
    have "e_list (el h ?e) = Some l" using RepD(5) [OF R, of k l] A by simp
    then show "e_list (el h' (Node x)) = Some l' \<longleftrightarrow> e_list (el h (Node x)) = Some l'" for x
      using that by (auto simp: lst)
  qed (use that in \<open>auto simp: oth\<close>)
  ultimately have "Rep h' (A(l := xs @ ys))"
    using R by (auto simp: Rep_def lst oth)
  moreover have "ready h l' \<Longrightarrow> ready h' l'" for l' by (simp add: ready_def nxt)
  ultimately show ?thesis using eq oth lst by fastforce
qed

section \<open>The operations on the representation\<close>

text \<open>What every operation that allocates at most one element leaves alone.\<close>

definition same_vals :: "'v lheap \<Rightarrow> 'v lheap \<Rightarrow> bool" where
  "same_vals h h' \<longleftrightarrow> brk h \<le> brk h' \<and> (\<forall>k < brk h. e_Value (el h' (Node k)) = e_Value (el h (Node k))) \<and>
     (\<forall>l. ready h l \<longrightarrow> ready h' l)"

lemma same_vals_refl: "same_vals h h"
  by (simp add: same_vals_def)

lemma same_vals_trans: "same_vals h h1 \<Longrightarrow> same_vals h1 h2 \<Longrightarrow> same_vals h h2"
  by (auto simp: same_vals_def)

lemma same_valsD: "same_vals h h' \<Longrightarrow> k < brk h \<Longrightarrow> e_Value (el h' (Node k)) = e_Value (el h (Node k))"
  by (simp add: same_vals_def)

lemma same_vals_ready: "same_vals h h' \<Longrightarrow> ready h l \<Longrightarrow> ready h' l"
  by (simp add: same_vals_def)

lemma Init_empty_Rep:
  assumes "Rep h A" "A l = []"
  shows "Rep (list_Init l h) A \<and> ready (list_Init l h) l"
proof -
  let ?h = "list_Init l h"
  have el: "x \<noteq> Root l \<Longrightarrow> el ?h x = el h x" "e_next (el ?h (Root l)) = Some (Root l)"
    "e_prev (el ?h (Root l)) = Some (Root l)" "e_list (el ?h x) = e_list (el h x)"
    "l_len ?h l' = l_len h l'" "brk ?h = brk h" for x l'
    using RepD(4) [OF assms(1), of l] assms(2) by (auto simp: list_Init_def upd_def set_len_def Let_def)
  have "holds_list ?h l' (A l')" for l'
  proof (cases "l' = l")
    case True
    then show ?thesis
      using assms(2) RepD(1) [OF assms(1), of l] by (auto simp: holds_list_def el ring_of_def)
  next
    case False
    then show ?thesis by (intro holds_list_frame [OF RepD(1) [OF assms(1)]]) (auto simp: el)
  qed
  then show ?thesis using assms(1) by (simp add: Rep_def el ready_def)
qed

lemma lazyInit_Rep:
  assumes "Rep h A"
  shows "Rep (lazyInit l h) A \<and> ready (lazyInit l h) l \<and> same_vals h (lazyInit l h) \<and> brk (lazyInit l h) = brk h"
proof (cases "ready h l")
  case True
  then show ?thesis using assms by (auto simp: lazyInit_def ready_def same_vals_refl)
next
  case False
  then have "\<not> lchain (el h) (ring_of l (A l))" using chain_ready by blast
  then have e: "A l = []" "l_len h l = 0"
    using RepD(1) [OF assms, of l] by (auto simp: holds_list_def)
  let ?h = "list_Init l h"
  have eq: "lazyInit l h = ?h" using False by (simp add: lazyInit_def ready_def)
  have el: "x \<noteq> Root l \<Longrightarrow> el ?h x = el h x" "e_Value (el ?h x) = e_Value (el h x)" "brk ?h = brk h"
    "ready ?h l" for x
    by (auto simp: list_Init_def upd_def set_len_def Let_def ready_def)
  have "same_vals h ?h"
  proof -
    have "ready ?h l'" if "ready h l'" for l'
      using that el(4) el(1) [of "Root l'"] by (cases "l' = l") (simp_all add: ready_def)
    then show ?thesis by (simp add: same_vals_def el)
  qed
  then show ?thesis using eq el Init_empty_Rep [OF assms e(1)] by simp
qed

lemma new_element_Rep:
  assumes "Rep h A"
  shows "\<exists>h'. new_element v h = (Node (brk h), h') \<and> Rep h' A \<and> brk h' = brk h + 1 \<and>
    e_list (el h' (Node (brk h))) = None \<and> e_Value (el h' (Node (brk h))) = v \<and> same_vals h h'"
proof -
  define h' where "h' = snd (new_element v h)"
  have eq: "new_element v h = (Node (brk h), h')" by (simp add: new_element_def h'_def Let_def)
  have el: "x \<noteq> Node (brk h) \<Longrightarrow> el h' x = el h x" "e_list (el h' (Node (brk h))) = None"
    "e_Value (el h' (Node (brk h))) = v" "l_len h' l = l_len h l" "brk h' = brk h + 1" for x l
    by (auto simp: h'_def new_element_def upd_def Let_def)
  have none: "e_list (el h (Node (brk h))) = None" using RepD(6) [OF assms] by simp
  have "holds_list h' l (A l)" for l
  proof (rule holds_list_frame [OF RepD(1) [OF assms]])
    fix x assume "x \<in> insert (Root l) (Node ` set (A l))"
    then have "x \<noteq> Node (brk h)" using RepD(7) [OF assms] by auto
    then show "el h' x = el h x" by (rule el)
  next
    fix x show "e_list (el h' (Node x)) = Some l \<longleftrightarrow> e_list (el h (Node x)) = Some l"
      using none el(1) [of "Node x"] el(2) by (cases "x = brk h") auto
  qed (simp add: el)
  moreover have "e_list (el h' (Node x)) = None" if "brk h' \<le> x" for x
    using that RepD(6) [OF assms, of x] by (simp add: el)
  ultimately have "Rep h' A" using RepD(2) [OF assms] by (simp add: Rep_def el)
  then show ?thesis using eq el by (auto simp: same_vals_def ready_def)
qed

lemma insertValue_Rep:
  assumes "Rep h A" "ready h l" "A l = xs @ ys"
  shows "\<exists>h'. insertValue l v (Some (before l xs)) h = Inr (Node (brk h), h') \<and>
    Rep h' (A(l := xs @ brk h # ys)) \<and> brk h' = brk h + 1 \<and> e_Value (el h' (Node (brk h))) = v \<and> same_vals h h'"
proof -
  obtain h1 where h1: "new_element v h = (Node (brk h), h1)" "Rep h1 A" "brk h1 = brk h + 1"
    "e_list (el h1 (Node (brk h))) = None" "e_Value (el h1 (Node (brk h))) = v" "same_vals h h1"
    using new_element_Rep [OF assms(1)] by blast
  have "ready h1 l" using h1(6) assms(2) by (rule same_vals_ready)
  from insert_Rep [OF h1(2) this assms(3) h1(4)] h1(3)
  obtain h2 where h2: "list_insert l (Node (brk h)) (before l xs) h1 = Inr h2" "Rep h2 (A(l := xs @ brk h # ys))"
    "brk h2 = brk h1" "\<And>x. e_Value (el h2 x) = e_Value (el h1 x)" "\<And>l. ready h1 l \<Longrightarrow> ready h2 l"
    by auto
  have "same_vals h h2" using h1(6) h2(3-5) by (auto simp: same_vals_def)
  then show ?thesis using h1 h2 by (simp add: insertValue_def)
qed

lemma ready_prev_root:
  assumes "Rep h A" "ready h l"
  shows "e_prev (el h (Root l)) = Some (before l (A l))"
  using chain_neighbours(2) [of "el h" l "A l" "[]"] holds_list_chain [OF RepD(1) [OF assms(1)] assms(2)]
  by (simp add: after_def)

lemma ready_next_root:
  assumes "Rep h A" "ready h l"
  shows "e_next (el h (Root l)) = Some (after l (A l))"
  using chain_neighbours(1) [of "el h" l "[]" "A l"] holds_list_chain [OF RepD(1) [OF assms(1)] assms(2)]
  by (simp add: before_def)

lemma nonempty_ready: "Rep h A \<Longrightarrow> A l \<noteq> [] \<Longrightarrow> ready h l"
  using RepD(1) [of h A l] chain_ready by (auto simp: holds_list_def)

lemma node_links:
  assumes "Rep h A" "A l = xs @ k # ys"
  shows "e_list (el h (Node k)) = Some l" "e_prev (el h (Node k)) = Some (before l xs)"
    "e_next (el h (Node k)) = Some (after l ys)"
proof -
  have c: "lchain (el h) (ring_of l (xs @ k # ys))"
    using holds_list_chain [OF RepD(1) [OF assms(1)] nonempty_ready [OF assms(1)]] assms(2) by (metis append_is_Nil_conv list.distinct(1))
  show "e_prev (el h (Node k)) = Some (before l xs)"
    using chain_neighbours(2) [OF c] by (simp add: after_def)
  show "e_next (el h (Node k)) = Some (after l ys)"
    using chain_neighbours(1) [of "el h" l "xs @ [k]" ys] c by (simp add: before_def)
  show "e_list (el h (Node k)) = Some l" using RepD(5) [OF assms(1), of k l] assms(2) by simp
qed

lemma PushFront_Rep:
  assumes "Rep h A"
  shows "\<exists>h'. PushFront l v h = Inr (Node (brk h), h') \<and> Rep h' (A(l := brk h # A l)) \<and>
    brk h' = brk h + 1 \<and> e_Value (el h' (Node (brk h))) = v \<and> same_vals h h'"
  using lazyInit_Rep [OF assms, of l] insertValue_Rep [of "lazyInit l h" A l "[]" "A l" v]
  by (auto simp: PushFront_def before_def intro: same_vals_trans)

lemma PushBack_Rep:
  assumes "Rep h A"
  shows "\<exists>h'. PushBack l v h = Inr (Node (brk h), h') \<and> Rep h' (A(l := A l @ [brk h])) \<and>
    brk h' = brk h + 1 \<and> e_Value (el h' (Node (brk h))) = v \<and> same_vals h h'"
  using lazyInit_Rep [OF assms, of l] insertValue_Rep [of "lazyInit l h" A l "A l" "[]" v]
    ready_prev_root [of "lazyInit l h" A l]
  by (auto simp: PushBack_def intro: same_vals_trans)

lemma InsertBefore_Rep:
  assumes "Rep h A" "A l = xs @ m # ys"
  shows "\<exists>h'. InsertBefore l v (Node m) h = Inr (Some (Node (brk h)), h') \<and> Rep h' (A(l := xs @ brk h # m # ys)) \<and>
    brk h' = brk h + 1 \<and> e_Value (el h' (Node (brk h))) = v \<and> same_vals h h'"
  using node_links [OF assms] insertValue_Rep [OF assms(1) nonempty_ready [OF assms(1)], of l xs "m # ys" v] assms(2)
  by (auto simp: InsertBefore_def)

lemma InsertAfter_Rep:
  assumes "Rep h A" "A l = xs @ m # ys"
  shows "\<exists>h'. InsertAfter l v (Node m) h = Inr (Some (Node (brk h)), h') \<and> Rep h' (A(l := xs @ m # brk h # ys)) \<and>
    brk h' = brk h + 1 \<and> e_Value (el h' (Node (brk h))) = v \<and> same_vals h h'"
  using node_links [OF assms] insertValue_Rep [OF assms(1) nonempty_ready [OF assms(1)], of l "xs @ [m]" ys v] assms(2)
  by (auto simp: InsertAfter_def before_def)

lemma same_vals_links:
  assumes "brk h' = brk h" "\<And>x. e_Value (el h' x) = e_Value (el h x)" "\<And>l. ready h l \<Longrightarrow> ready h' l"
  shows "same_vals h h'"
  using assms by (simp add: same_vals_def)

lemma Remove_Rep:
  assumes "Rep h A" "A l = xs @ k # ys"
  shows "\<exists>h'. list_Remove l (Node k) h = Inr (e_Value (el h (Node k)), h') \<and> Rep h' (A(l := xs @ ys)) \<and>
    same_vals h h'"
  using remove_Rep [OF assms] node_links [OF assms] by (auto simp: list_Remove_def intro: same_vals_links)

text \<open>Taking \<open>k\<close> out and putting it back elsewhere.\<close>

lemma move_Rep:
  assumes "Rep h A" "A l = xs @ k # ys"
  shows "\<exists>h1. list_remove l (Node k) h = Inr h1 \<and> Rep h1 (A(l := xs @ ys)) \<and> ready h1 l \<and>
    (\<forall>us vs. xs @ ys = us @ vs \<longrightarrow>
      (\<exists>h'. list_insert l (Node k) (before l us) h1 = Inr h' \<and> Rep h' (A(l := us @ k # vs)) \<and> same_vals h h'))"
proof -
  obtain h1 where h1: "list_remove l (Node k) h = Inr h1" "Rep h1 (A(l := xs @ ys))" "brk h1 = brk h"
    "e_list (el h1 (Node k)) = None" "\<And>x. e_Value (el h1 x) = e_Value (el h x)" "\<And>l. ready h l \<Longrightarrow> ready h1 l"
    using remove_Rep [OF assms] by blast
  have r: "ready h1 l" using h1(6) nonempty_ready [OF assms(1)] assms(2) by simp
  have k: "k < brk h1" using RepD(7) [OF assms(1), of k l] assms(2) h1(3) by simp
  have "\<exists>h'. list_insert l (Node k) (before l us) h1 = Inr h' \<and> Rep h' (A(l := us @ k # vs)) \<and> same_vals h h'"
    if "xs @ ys = us @ vs" for us vs
    using insert_Rep [OF h1(2) r _ h1(4) k, of us vs] that h1(3,5,6)
    by (auto simp: same_vals_def)
  then show ?thesis using h1 r by blast
qed

lemma MoveToFront_Rep:
  assumes "Rep h A" "A l = xs @ k # ys"
  shows "\<exists>h'. MoveToFront l (Node k) h = Inr h' \<and> Rep h' (A(l := k # xs @ ys)) \<and> same_vals h h'"
proof (cases "xs = []")
  case True
  then have "e_next (el h (Root l)) = Some (Node k)"
    using ready_next_root [OF assms(1) nonempty_ready [OF assms(1)]] assms(2) by (simp add: after_def)
  then show ?thesis
    using True assms node_links [OF assms] by (auto simp: MoveToFront_def same_vals_refl fun_upd_idem)
next
  case False
  have "distinct (xs @ k # ys)" using RepD(3) [OF assms(1), of l] assms(2) by simp
  then have "e_next (el h (Root l)) \<noteq> Some (Node k)"
    using False ready_next_root [OF assms(1) nonempty_ready [OF assms(1)]] assms(2)
    by (cases xs) (auto simp: after_def)
  moreover obtain h1 where h1: "list_remove l (Node k) h = Inr h1"
    "\<And>us vs. xs @ ys = us @ vs \<Longrightarrow>
      \<exists>h'. list_insert l (Node k) (before l us) h1 = Inr h' \<and> Rep h' (A(l := us @ k # vs)) \<and> same_vals h h'"
    using move_Rep [OF assms] by blast
  ultimately show ?thesis
    using h1(2) [of "[]" "xs @ ys"] node_links [OF assms]
    by (auto simp: MoveToFront_def insert_at_def before_def)
qed

lemma MoveToBack_Rep:
  assumes "Rep h A" "A l = xs @ k # ys"
  shows "\<exists>h'. MoveToBack l (Node k) h = Inr h' \<and> Rep h' (A(l := xs @ ys @ [k])) \<and> same_vals h h'"
proof (cases "ys = []")
  case True
  then have "e_prev (el h (Root l)) = Some (Node k)"
    using ready_prev_root [OF assms(1) nonempty_ready [OF assms(1)]] assms(2) by (simp add: before_def)
  then show ?thesis
    using True assms node_links [OF assms] by (auto simp: MoveToBack_def same_vals_refl fun_upd_idem)
next
  case False
  have "distinct (xs @ k # ys)" using RepD(3) [OF assms(1), of l] assms(2) by simp
  then have "last ys \<noteq> k" using False by (metis distinct.simps(2) distinct_append last_in_set)
  then have "e_prev (el h (Root l)) \<noteq> Some (Node k)"
    using False ready_prev_root [OF assms(1) nonempty_ready [OF assms(1)]] assms(2)
    by (auto simp: before_def last_map)
  moreover obtain h1 where h1: "list_remove l (Node k) h = Inr h1" "Rep h1 (A(l := xs @ ys))" "ready h1 l"
    "\<And>us vs. xs @ ys = us @ vs \<Longrightarrow>
      \<exists>h'. list_insert l (Node k) (before l us) h1 = Inr h' \<and> Rep h' (A(l := us @ k # vs)) \<and> same_vals h h'"
    using move_Rep [OF assms] by blast
  moreover have "e_prev (el h1 (Root l)) = Some (before l (xs @ ys))"
    using ready_prev_root [OF h1(2,3)] by simp
  ultimately show ?thesis
    using h1(4) [of "xs @ ys" "[]"] node_links [OF assms] by (auto simp: MoveToBack_def insert_at_def)
qed

lemma MoveBefore_Rep:
  assumes "Rep h A" "A l = xs @ k # ys" "xs @ ys = us @ m # vs"
  shows "\<exists>h'. MoveBefore l (Node k) (Node m) h = Inr h' \<and> Rep h' (A(l := us @ k # m # vs)) \<and> same_vals h h'"
proof -
  have "distinct (xs @ k # ys)" using RepD(3) [OF assms(1), of l] assms(2) by simp
  moreover have "m \<in> set (xs @ ys)" using assms(3) by simp
  ultimately have m: "m \<noteq> k" "e_list (el h (Node m)) = Some l"
    using RepD(5) [OF assms(1), of m l] assms(2) by auto
  obtain h1 where h1: "list_remove l (Node k) h = Inr h1" "Rep h1 (A(l := xs @ ys))"
    "\<And>us vs. xs @ ys = us @ vs \<Longrightarrow>
      \<exists>h'. list_insert l (Node k) (before l us) h1 = Inr h' \<and> Rep h' (A(l := us @ k # vs)) \<and> same_vals h h'"
    using move_Rep [OF assms(1,2)] by blast
  moreover have "e_prev (el h1 (Node m)) = Some (before l us)"
    using node_links(2) [OF h1(2)] assms(3) by simp
  ultimately show ?thesis
    using h1(3) [OF assms(3)] node_links(1) [OF assms(1,2)] m by (auto simp: MoveBefore_def insert_at_def)
qed

lemma MoveAfter_Rep:
  assumes "Rep h A" "A l = xs @ k # ys" "xs @ ys = us @ m # vs"
  shows "\<exists>h'. MoveAfter l (Node k) (Node m) h = Inr h' \<and> Rep h' (A(l := us @ m # k # vs)) \<and> same_vals h h'"
proof -
  have "distinct (xs @ k # ys)" using RepD(3) [OF assms(1), of l] assms(2) by simp
  moreover have "m \<in> set (xs @ ys)" using assms(3) by simp
  ultimately have m: "m \<noteq> k" "e_list (el h (Node m)) = Some l"
    using RepD(5) [OF assms(1), of m l] assms(2) by auto
  obtain h1 where h1: "list_remove l (Node k) h = Inr h1"
    "\<And>us vs. xs @ ys = us @ vs \<Longrightarrow>
      \<exists>h'. list_insert l (Node k) (before l us) h1 = Inr h' \<and> Rep h' (A(l := us @ k # vs)) \<and> same_vals h h'"
    using move_Rep [OF assms(1,2)] by blast
  moreover have "before l (us @ [m]) = Node m" by (simp add: before_def)
  ultimately show ?thesis
    using h1(2) [of "us @ [m]" vs] assms(3) node_links(1) [OF assms(1,2)] m
    by (auto simp: MoveAfter_def insert_at_def)
qed

section \<open>Walking a list, and copying one\<close>

lemma el_Next_node:
  assumes "Rep h A" "A l = xs @ k # ys"
  shows "el_Next h (Node k) = (if ys = [] then None else Some (Node (hd ys)))"
  using node_links [OF assms] by (cases ys) (auto simp: el_Next_def after_def)

lemma el_Prev_node:
  assumes "Rep h A" "A l = xs @ k # ys"
  shows "el_Prev h (Node k) = (if xs = [] then None else Some (Node (last xs)))"
  using node_links [OF assms] by (auto simp: el_Prev_def before_def last_map)

lemma Front_node:
  assumes "Rep h A"
  shows "Front l h = (if A l = [] then None else Some (Node (hd (A l))))"
  using RepD(4) [OF assms, of l] ready_next_root [OF assms nonempty_ready [OF assms]]
  by (cases "A l") (auto simp: Front_def after_def)

lemma Back_node:
  assumes "Rep h A"
  shows "Back l h = (if A l = [] then None else Some (Node (last (A l))))"
  using RepD(4) [OF assms, of l] ready_prev_root [OF assms nonempty_ready [OF assms]]
  by (auto simp: Back_def before_def last_map)

definition values_of :: "'v lheap \<Rightarrow> nat list \<Rightarrow> 'v list" where
  "values_of h ks = map (\<lambda>k. e_Value (el h (Node k))) ks"

lemma values_of_same:
  "same_vals h h' \<Longrightarrow> (\<And>k. k \<in> set ks \<Longrightarrow> k < brk h) \<Longrightarrow> values_of h' ks = values_of h ks"
  by (simp add: values_of_def same_valsD)

lemma PushBackList_loop_Rep:
  assumes "Rep h A" "ready h l" "A other = ps @ qs @ rs" "qs = [] \<or> e = Some (Node (hd qs))"
  shows "\<exists>h' ns. PushBackList_loop l (length qs) e h = Inr h' \<and> Rep h' (A(l := A l @ ns)) \<and>
    values_of h' ns = values_of h qs \<and> same_vals h h'"
  using assms
proof (induction qs arbitrary: h A ps rs e)
  case Nil
  then show ?case by (intro exI [of _ h] exI [of _ "[]"]) (simp add: same_vals_refl values_of_def)
next
  case (Cons q qs)
  let ?b = "brk h"
  obtain h1 where h1: "insertValue l (e_Value (el h (Node q))) (Some (before l (A l))) h = Inr (Node ?b, h1)"
    "Rep h1 (A(l := A l @ [?b]))" "e_Value (el h1 (Node ?b)) = e_Value (el h (Node q))" "same_vals h h1"
    "brk h1 = ?b + 1"
    using insertValue_Rep [OF Cons.prems(1,2), of "A l" "[]"] by auto
  let ?A = "A(l := A l @ [?b])"
  define rs' where "rs' = (if other = l then rs @ [?b] else rs)"
  have other: "?A other = (ps @ [q]) @ qs @ rs'" using Cons.prems(3) by (auto simp: rs'_def)
  have next_q: "qs = [] \<or> el_Next h1 (Node q) = Some (Node (hd qs))"
    using el_Next_node [OF h1(2), of other ps q "qs @ rs'"] other by (cases "qs = []") auto
  obtain h2 ns where h2: "PushBackList_loop l (length qs) (el_Next h1 (Node q)) h1 = Inr h2"
    "Rep h2 (?A(l := ?A l @ ns))" "values_of h2 ns = values_of h1 qs" "same_vals h1 h2"
    using Cons.IH [OF h1(2) same_vals_ready [OF h1(4) Cons.prems(2)] other next_q] by blast
  have "k < brk h" if "k \<in> set (q # qs)" for k
    using RepD(7) [OF Cons.prems(1), of k other] Cons.prems(3) that by auto
  then have "values_of h1 qs = values_of h qs" by (intro values_of_same [OF h1(4)]) simp
  moreover have "e_Value (el h2 (Node ?b)) = e_Value (el h (Node q))"
    using same_valsD [OF h2(4), of ?b] h1(3,5) by simp
  ultimately have "values_of h2 (?b # ns) = values_of h (q # qs)" using h2(3) by (simp add: values_of_def)
  moreover have "PushBackList_loop l (length (q # qs)) e h = Inr h2"
    using Cons.prems(4) h1(1) h2(1) ready_prev_root [OF Cons.prems(1,2)] by simp
  moreover have "Rep h2 (A(l := A l @ ?b # ns))" using h2(2) by simp
  ultimately show ?case using same_vals_trans [OF h1(4) h2(4)] by blast
qed

lemma PushFrontList_loop_Rep:
  assumes "Rep h A" "ready h l" "A other = rs @ qs @ ps" "qs = [] \<or> e = Some (Node (last qs))"
  shows "\<exists>h' ns. PushFrontList_loop l (length qs) e h = Inr h' \<and> Rep h' (A(l := ns @ A l)) \<and>
    values_of h' ns = values_of h qs \<and> same_vals h h'"
  using assms
proof (induction qs arbitrary: h A ps rs e rule: rev_induct)
  case Nil
  then show ?case by (intro exI [of _ h] exI [of _ "[]"]) (simp add: same_vals_refl values_of_def)
next
  case (snoc q qs)
  let ?b = "brk h"
  obtain h1 where h1: "insertValue l (e_Value (el h (Node q))) (Some (Root l)) h = Inr (Node ?b, h1)"
    "Rep h1 (A(l := ?b # A l))" "e_Value (el h1 (Node ?b)) = e_Value (el h (Node q))" "same_vals h h1"
    "brk h1 = ?b + 1"
    using insertValue_Rep [OF snoc.prems(1,2), of "[]" "A l"] by (auto simp: before_def)
  let ?A = "A(l := ?b # A l)"
  define rs' where "rs' = (if other = l then ?b # rs else rs)"
  have other: "?A other = rs' @ qs @ (q # ps)" using snoc.prems(3) by (auto simp: rs'_def)
  have prev_q: "qs = [] \<or> el_Prev h1 (Node q) = Some (Node (last qs))"
    using el_Prev_node [OF h1(2), of other "rs' @ qs" q ps] other by (cases "qs = []") auto
  obtain h2 ns where h2: "PushFrontList_loop l (length qs) (el_Prev h1 (Node q)) h1 = Inr h2"
    "Rep h2 (?A(l := ns @ ?A l))" "values_of h2 ns = values_of h1 qs" "same_vals h1 h2"
    using snoc.IH [OF h1(2) same_vals_ready [OF h1(4) snoc.prems(2)] other prev_q] by blast
  have "k < brk h" if "k \<in> set (qs @ [q])" for k
    using RepD(7) [OF snoc.prems(1), of k other] snoc.prems(3) that by auto
  then have "values_of h1 qs = values_of h qs" by (intro values_of_same [OF h1(4)]) simp
  moreover have "e_Value (el h2 (Node ?b)) = e_Value (el h (Node q))"
    using same_valsD [OF h2(4), of ?b] h1(3,5) by simp
  ultimately have "values_of h2 (ns @ [?b]) = values_of h (qs @ [q])" using h2(3) by (simp add: values_of_def)
  moreover have "PushFrontList_loop l (length (qs @ [q])) e h = Inr h2"
    using snoc.prems(4) h1(1) h2(1) by simp
  moreover have "Rep h2 (A(l := (ns @ [?b]) @ A l))" using h2(2) by simp
  ultimately show ?case using same_vals_trans [OF h1(4) h2(4)] by blast
qed

lemma PushBackList_Rep:
  assumes "Rep h A"
  shows "\<exists>h' ns. PushBackList l other h = Inr h' \<and> Rep h' (A(l := A l @ ns)) \<and>
    values_of h' ns = values_of h (A other) \<and> same_vals h h'"
proof -
  let ?h = "lazyInit l h"
  have lz: "Rep ?h A" "ready ?h l" "same_vals h ?h" "brk ?h = brk h" using lazyInit_Rep [OF assms] by blast+
  have len: "nat (list_Len other ?h) = length (A other)" using RepD(4) [OF lz(1)] by (simp add: list_Len_def)
  have "A other = [] \<or> Front other ?h = Some (Node (hd (A other)))" using Front_node [OF lz(1)] by simp
  from PushBackList_loop_Rep [OF lz(1,2), of other "[]" "A other" "[]", OF _ this]
  obtain h' ns where h': "PushBackList_loop l (length (A other)) (Front other ?h) ?h = Inr h'"
    "Rep h' (A(l := A l @ ns))" "values_of h' ns = values_of ?h (A other)" "same_vals ?h h'" by auto
  have "values_of ?h (A other) = values_of h (A other)"
    using values_of_same [OF lz(3)] RepD(7) [OF assms] by blast
  then show ?thesis
    using h' len same_vals_trans [OF lz(3) h'(4)] unfolding PushBackList_def Let_def by auto
qed

lemma PushFrontList_Rep:
  assumes "Rep h A"
  shows "\<exists>h' ns. PushFrontList l other h = Inr h' \<and> Rep h' (A(l := ns @ A l)) \<and>
    values_of h' ns = values_of h (A other) \<and> same_vals h h'"
proof -
  let ?h = "lazyInit l h"
  have lz: "Rep ?h A" "ready ?h l" "same_vals h ?h" "brk ?h = brk h" using lazyInit_Rep [OF assms] by blast+
  have len: "nat (list_Len other ?h) = length (A other)" using RepD(4) [OF lz(1)] by (simp add: list_Len_def)
  have "A other = [] \<or> Back other ?h = Some (Node (last (A other)))" using Back_node [OF lz(1)] by simp
  from PushFrontList_loop_Rep [OF lz(1,2), of other "[]" "A other" "[]", OF _ this]
  obtain h' ns where h': "PushFrontList_loop l (length (A other)) (Back other ?h) ?h = Inr h'"
    "Rep h' (A(l := ns @ A l))" "values_of h' ns = values_of ?h (A other)" "same_vals ?h h'" by auto
  have "values_of ?h (A other) = values_of h (A other)"
    using values_of_same [OF lz(3)] RepD(7) [OF assms] by blast
  then show ?thesis
    using h' len same_vals_trans [OF lz(3) h'(4)] unfolding PushFrontList_def Let_def by auto
qed

text \<open>\<open>Init\<close> readies an empty list. On a list that has elements it leaves them marked as elements of
  the list: removing one of them afterwards makes the length negative.\<close>

lemma Init_keeps_members:
  assumes "Rep h A" "A l = xs @ k # ys"
  shows "\<exists>v h'. list_Remove l (Node k) (list_Init l h) = Inr (v, h') \<and> list_Len l h' = -1"
  using node_links [OF assms]
  by (auto simp: list_Remove_def list_remove_def list_Init_def list_Len_def upd_def set_len_def Let_def)

text \<open>A heap of lists that were never used.\<close>

definition zero_lists :: "'v \<Rightarrow> 'v lheap" where
  "zero_lists v = \<lparr>el = (\<lambda>_. \<lparr>e_next = None, e_prev = None, e_list = None, e_Value = v\<rparr>),
                   l_len = (\<lambda>_. 0), brk = 0\<rparr>"

lemma zero_lists_Rep: "Rep (zero_lists v) (\<lambda>_. [])"
  by (simp add: Rep_def holds_list_def zero_lists_def)

section \<open>Properties\<close>

text \<open>C20: the insertions refine insertion into a sequence: on a heap that holds the lists \<open>A\<close>, each
  returns the new element, which holds the value and stands where the operation says, in list \<open>l\<close>
  only; the elements of every list, and the values of the old elements, are otherwise unchanged.
  A mark that is no element of \<open>l\<close> changes nothing and gives nil.\<close>

theorem list_insertions_refine:
  assumes "Rep h A"
  shows "(\<exists>h'. PushFront l v h = Inr (Node (brk h), h') \<and> Rep h' (A(l := brk h # A l)) \<and>
            e_Value (el h' (Node (brk h))) = v \<and> same_vals h h') \<and>
    (\<exists>h'. PushBack l v h = Inr (Node (brk h), h') \<and> Rep h' (A(l := A l @ [brk h])) \<and>
            e_Value (el h' (Node (brk h))) = v \<and> same_vals h h') \<and>
    (\<forall>xs m ys. A l = xs @ m # ys \<longrightarrow>
      (\<exists>h'. InsertBefore l v (Node m) h = Inr (Some (Node (brk h)), h') \<and>
            Rep h' (A(l := xs @ brk h # m # ys)) \<and> e_Value (el h' (Node (brk h))) = v \<and> same_vals h h') \<and>
      (\<exists>h'. InsertAfter l v (Node m) h = Inr (Some (Node (brk h)), h') \<and>
            Rep h' (A(l := xs @ m # brk h # ys)) \<and> e_Value (el h' (Node (brk h))) = v \<and> same_vals h h')) \<and>
    (\<forall>m. m \<notin> set (A l) \<longrightarrow>
      InsertBefore l v (Node m) h = Inr (None, h) \<and> InsertAfter l v (Node m) h = Inr (None, h))"
proof (intro conjI allI impI)
  fix m assume "m \<notin> set (A l)"
  then have "e_list (el h (Node m)) \<noteq> Some l" using RepD(5) [OF assms] by simp
  then show "InsertBefore l v (Node m) h = Inr (None, h)" "InsertAfter l v (Node m) h = Inr (None, h)"
    by (simp_all add: InsertBefore_def InsertAfter_def)
qed (use PushFront_Rep [OF assms] PushBack_Rep [OF assms] InsertBefore_Rep [OF assms] InsertAfter_Rep [OF assms]
     in blast)+

theorem list_insertions_refine_witness:
  "\<exists>h'. PushFront 3 (7 :: nat) (zero_lists 7) = Inr (Node 0, h') \<and> Rep h' ((\<lambda>_. [])(3 := [0]))"
  using list_insertions_refine [OF zero_lists_Rep, of 3 7 7] by (auto simp: zero_lists_def)

text \<open>C21: \<open>Remove\<close> takes its element out and returns its value; the moves take an element out and
  put it where they say, next to a mark of the same list or at an end; an element of another list
  or of none is left alone by all of them, and so is every element when the mark is the element itself or
  is not in the list.\<close>

theorem list_moves_refine:
  assumes "Rep h A"
  shows "(\<forall>xs k ys. A l = xs @ k # ys \<longrightarrow>
      (\<exists>h'. list_Remove l (Node k) h = Inr (e_Value (el h (Node k)), h') \<and> Rep h' (A(l := xs @ ys)) \<and> same_vals h h') \<and>
      (\<exists>h'. MoveToFront l (Node k) h = Inr h' \<and> Rep h' (A(l := k # xs @ ys)) \<and> same_vals h h') \<and>
      (\<exists>h'. MoveToBack l (Node k) h = Inr h' \<and> Rep h' (A(l := xs @ ys @ [k])) \<and> same_vals h h') \<and>
      (\<forall>us m vs. xs @ ys = us @ m # vs \<longrightarrow>
        (\<exists>h'. MoveBefore l (Node k) (Node m) h = Inr h' \<and> Rep h' (A(l := us @ k # m # vs)) \<and> same_vals h h') \<and>
        (\<exists>h'. MoveAfter l (Node k) (Node m) h = Inr h' \<and> Rep h' (A(l := us @ m # k # vs)) \<and> same_vals h h'))) \<and>
    (\<forall>k m. k \<notin> set (A l) \<longrightarrow>
      list_Remove l (Node k) h = Inr (e_Value (el h (Node k)), h) \<and> MoveToFront l (Node k) h = Inr h \<and>
      MoveToBack l (Node k) h = Inr h \<and> MoveBefore l (Node k) m h = Inr h \<and> MoveAfter l (Node k) m h = Inr h) \<and>
    (\<forall>k m. m \<notin> set (A l) \<or> m = k \<longrightarrow>
      MoveBefore l (Node k) (Node m) h = Inr h \<and> MoveAfter l (Node k) (Node m) h = Inr h)"
proof (intro conjI)
  show "\<forall>k m. m \<notin> set (A l) \<or> m = k \<longrightarrow>
      MoveBefore l (Node k) (Node m) h = Inr h \<and> MoveAfter l (Node k) (Node m) h = Inr h"
    using RepD(5) [OF assms] by (auto simp: MoveBefore_def MoveAfter_def)
  show "\<forall>k m. k \<notin> set (A l) \<longrightarrow>
      list_Remove l (Node k) h = Inr (e_Value (el h (Node k)), h) \<and> MoveToFront l (Node k) h = Inr h \<and>
      MoveToBack l (Node k) h = Inr h \<and> MoveBefore l (Node k) m h = Inr h \<and> MoveAfter l (Node k) m h = Inr h"
    using RepD(5) [OF assms]
    by (simp add: list_Remove_def MoveToFront_def MoveToBack_def MoveBefore_def MoveAfter_def)
qed (intro allI impI conjI;
     rule Remove_Rep [OF assms] MoveToFront_Rep [OF assms] MoveToBack_Rep [OF assms]
       MoveBefore_Rep [OF assms] MoveAfter_Rep [OF assms]; assumption)

text \<open>The two-element list of the witness below.\<close>

definition two_lists :: "nat lheap" where
  "two_lists = (case PushBack 0 10 (zero_lists 0) of
     Inr (_, h) \<Rightarrow> (case PushBack 0 11 h of Inr (_, h) \<Rightarrow> h | Inl _ \<Rightarrow> h)
   | Inl _ \<Rightarrow> zero_lists 0)"

lemma two_lists_Rep: "Rep two_lists ((\<lambda>_. [])(0 := [0, 1]))"
proof -
  obtain h1 where h1: "PushBack 0 10 (zero_lists (0 :: nat)) = Inr (Node 0, h1)" "Rep h1 ((\<lambda>_. [])(0 := [0]))" "brk h1 = 1"
    using PushBack_Rep [OF zero_lists_Rep, of 0 "10 :: nat" 0] by (auto simp: zero_lists_def)
  obtain h2 where "PushBack 0 11 h1 = Inr (Node 1, h2)" "Rep h2 ((\<lambda>_. [])(0 := [0, 1]))"
    using PushBack_Rep [OF h1(2), of 0 "11 :: nat"] h1(3) by auto
  then show ?thesis using h1(1) by (simp add: two_lists_def)
qed

theorem list_moves_refine_witness:
  "\<exists>h'. MoveBefore 0 (Node 1) (Node 0) two_lists = Inr h' \<and> Rep h' ((\<lambda>_. [])(0 := [1, 0]))"
proof -
  have "((\<lambda>_. [])(0 := [0, 1])) 0 = [0] @ 1 # []" by simp
  note m = mp [OF spec [OF spec [OF spec [OF conjunct1 [OF list_moves_refine [OF two_lists_Rep]]]]] this]
  show ?thesis using conjunct2 [OF conjunct2 [OF conjunct2 [OF m]], rule_format, of "[]" 0 "[]"] by auto
qed

text \<open>Iterating from \<open>Front\<close> with \<open>Next\<close>, or from \<open>Back\<close> with \<open>Prev\<close>, visits the elements in
  order; \<open>Len\<close> counts them; \<open>PushBackList\<close> and \<open>PushFrontList\<close> add a copy of the values of the
  other list, which may be the same list.\<close>

theorem list_walk_and_copy:
  assumes "Rep h A"
  shows "list_Len l h = int (length (A l)) \<and>
    Front l h = (if A l = [] then None else Some (Node (hd (A l)))) \<and>
    Back l h = (if A l = [] then None else Some (Node (last (A l)))) \<and>
    (\<forall>xs k ys. A l = xs @ k # ys \<longrightarrow>
      el_Next h (Node k) = (if ys = [] then None else Some (Node (hd ys))) \<and>
      el_Prev h (Node k) = (if xs = [] then None else Some (Node (last xs)))) \<and>
    (\<exists>h' ns. PushBackList l other h = Inr h' \<and> Rep h' (A(l := A l @ ns)) \<and>
       values_of h' (A l @ ns) = values_of h (A l) @ values_of h (A other)) \<and>
    (\<exists>h' ns. PushFrontList l other h = Inr h' \<and> Rep h' (A(l := ns @ A l)) \<and>
       values_of h' (ns @ A l) = values_of h (A other) @ values_of h (A l))"
proof -
  have same: "values_of h' (A l) = values_of h (A l)" if "same_vals h h'" for h'
    using values_of_same [OF that] RepD(7) [OF assms] by blast
  have app: "values_of h' (xs @ ys) = values_of h' xs @ values_of h' ys" for h' :: "'a lheap" and xs ys
    by (simp add: values_of_def)
  have "\<exists>h' ns. PushBackList l other h = Inr h' \<and> Rep h' (A(l := A l @ ns)) \<and>
       values_of h' (A l @ ns) = values_of h (A l) @ values_of h (A other)"
    using PushBackList_Rep [OF assms, of l other] same by (metis app)
  moreover have "\<exists>h' ns. PushFrontList l other h = Inr h' \<and> Rep h' (A(l := ns @ A l)) \<and>
       values_of h' (ns @ A l) = values_of h (A other) @ values_of h (A l)"
    using PushFrontList_Rep [OF assms, of l other] same by (metis app)
  ultimately show ?thesis
    using RepD(4) [OF assms] Front_node [OF assms] Back_node [OF assms] el_Next_node [OF assms]
      el_Prev_node [OF assms] by (simp add: list_Len_def)
qed

theorem list_walk_and_copy_witness:
  "el_Next two_lists (Node 0) = Some (Node 1) \<and>
   (\<exists>h' ns. PushBackList 0 0 two_lists = Inr h' \<and> Rep h' ((\<lambda>_. [])(0 := [0, 1] @ ns)))"
proof -
  note w = list_walk_and_copy [OF two_lists_Rep, of 0 0]
  have "el_Next two_lists (Node 0) = Some (Node 1)"
    using conjunct1 [OF conjunct2 [OF conjunct2 [OF conjunct2 [OF w]]], rule_format, of "[]" 0 "[1]"] by simp
  then show ?thesis using w by auto
qed

end
