(* ===== verification/Go_Ring.thy ===== *)
theory Go_Ring
  imports Go_Links
begin

text \<open>
  Package container/ring (src/container/ring/ring.go): circular lists without a sentinel. A ring is
  reached through a pointer to any of its elements, and the zero value of an element is a ring of
  one element whose links are set at first use. \<open>is_ring h (r # xs)\<close> says that walking forward from
  \<open>r\<close> visits \<open>xs\<close> and comes back. The loops of \<open>Len\<close> and \<open>Do\<close> follow links until they return to
  their start; they are partial functions, proved to return on every ring.
\<close>

section \<open>Rings and the operations\<close>

type_synonym rid = nat

record 'v ring =
  r_next :: "rid option"
  r_prev :: "rid option"
  r_Value :: 'v

record 'v rheap =
  rg :: "rid \<Rightarrow> 'v ring"
  r_brk :: rid

definition set_rnext :: "rid \<Rightarrow> rid option \<Rightarrow> 'v rheap \<Rightarrow> 'v rheap" where
  "set_rnext r n h = h\<lparr>rg := (rg h)(r := (rg h r)\<lparr>r_next := n\<rparr>)\<rparr>"

definition set_rprev :: "rid \<Rightarrow> rid option \<Rightarrow> 'v rheap \<Rightarrow> 'v rheap" where
  "set_rprev r n h = h\<lparr>rg := (rg h)(r := (rg h r)\<lparr>r_prev := n\<rparr>)\<rparr>"

definition ring_init :: "rid \<Rightarrow> 'v rheap \<Rightarrow> rid \<times> 'v rheap" where
  "ring_init r h = (let h = set_rnext r (Some r) h; h = set_rprev r (Some r) h in (r, h))"

text \<open>Pointers read from a field are values of \<open>rid option\<close>; using nil is a panic.\<close>

definition deref :: "rid option \<Rightarrow> panic + rid" where
  "deref p = (case p of None \<Rightarrow> Inl NilPointer | Some r \<Rightarrow> Inr r)"

definition ring_Next :: "rid \<Rightarrow> 'v rheap \<Rightarrow> rid option \<times> 'v rheap" where
  "ring_Next r h =
     (if r_next (rg h r) = None then (let (r, h) = ring_init r h in (Some r, h))
      else (r_next (rg h r), h))"

definition ring_Prev :: "rid \<Rightarrow> 'v rheap \<Rightarrow> rid option \<times> 'v rheap" where
  "ring_Prev r h =
     (if r_next (rg h r) = None then (let (r, h) = ring_init r h in (Some r, h))
      else (r_prev (rg h r), h))"

fun go_back :: "nat \<Rightarrow> rid \<Rightarrow> 'v rheap \<Rightarrow> panic + rid" where
  "go_back 0 r h = Inr r"
| "go_back (Suc n) r h = bindE (deref (r_prev (rg h r))) (\<lambda>r. go_back n r h)"

fun go_forward :: "nat \<Rightarrow> rid \<Rightarrow> 'v rheap \<Rightarrow> panic + rid" where
  "go_forward 0 r h = Inr r"
| "go_forward (Suc n) r h = bindE (deref (r_next (rg h r))) (\<lambda>r. go_forward n r h)"

definition ring_Move :: "rid \<Rightarrow> int \<Rightarrow> 'v rheap \<Rightarrow> panic + rid \<times> 'v rheap" where
  "ring_Move r n h =
     (if r_next (rg h r) = None then Inr (ring_init r h)
      else bindE (if n < 0 then go_back (nat (- n)) r h
                  else if n > 0 then go_forward (nat n) r h
                  else Inr r)
             (\<lambda>r. Inr (r, h)))"

text \<open>\<open>&Ring{prev: p}\<close> and \<open>new(Ring)\<close> take the next unused address; \<open>nil_v\<close> is the nil value.\<close>

definition new_ring :: "'v \<Rightarrow> rid option \<Rightarrow> 'v rheap \<Rightarrow> rid \<times> 'v rheap" where
  "new_ring nil_v p h =
     (r_brk h, h\<lparr>rg := (rg h)(r_brk h := \<lparr>r_next = None, r_prev = p, r_Value = nil_v\<rparr>), r_brk := r_brk h + 1\<rparr>)"

fun New_loop :: "'v \<Rightarrow> nat \<Rightarrow> rid \<Rightarrow> 'v rheap \<Rightarrow> rid \<times> 'v rheap" where
  "New_loop nil_v 0 p h = (p, h)"
| "New_loop nil_v (Suc k) p h =
     (let (q, h) = new_ring nil_v (Some p) h;
          h = set_rnext p (Some q) h
      in New_loop nil_v k q h)"

definition ring_New :: "'v \<Rightarrow> int \<Rightarrow> 'v rheap \<Rightarrow> rid option \<times> 'v rheap" where
  "ring_New nil_v n h =
     (if n \<le> 0 then (None, h)
      else let (r, h) = new_ring nil_v None h;
               (p, h) = New_loop nil_v (nat (n - 1)) r h;
               h = set_rnext p (Some r) h;
               h = set_rprev r (Some p) h
           in (Some r, h))"

definition Link :: "rid \<Rightarrow> rid option \<Rightarrow> 'v rheap \<Rightarrow> panic + rid option \<times> 'v rheap" where
  "Link r s h =
     (let (n, h) = ring_Next r h in
      case s of
        None \<Rightarrow> Inr (n, h)
      | Some s \<Rightarrow>
          let (p, h) = ring_Prev s h;
              h = set_rnext r (Some s) h;
              h = set_rprev s (Some r) h
          in bindE (deref n) (\<lambda>n'.
               let h = set_rprev n' p h in
               bindE (deref p) (\<lambda>p'. Inr (n, set_rnext p' n h))))"

definition Unlink :: "rid \<Rightarrow> int \<Rightarrow> 'v rheap \<Rightarrow> panic + rid option \<times> 'v rheap" where
  "Unlink r n h =
     (if n \<le> 0 then Inr (None, h)
      else bindE (ring_Move r (n + 1) h) (\<lambda>(s, h). Link r (Some s) h))"

text \<open>The loops \<open>for p := r.Next(); p != r; p = p.next\<close> of \<open>Len\<close> and \<open>Do\<close>.\<close>

partial_function (option) Len_loop :: "rid \<Rightarrow> rid option \<Rightarrow> nat \<Rightarrow> 'v rheap \<Rightarrow> (panic + nat) option" where
  [code]: "Len_loop r p n h =
     (if p = Some r then Some (Inr n)
      else case p of
             None \<Rightarrow> Some (Inl NilPointer)
           | Some q \<Rightarrow> Len_loop r (r_next (rg h q)) (n + 1) h)"

definition ring_Len :: "rid option \<Rightarrow> 'v rheap \<Rightarrow> (panic + nat \<times> 'v rheap) option" where
  "ring_Len r h =
     (case r of
        None \<Rightarrow> Some (Inr (0, h))
      | Some r \<Rightarrow>
          let (p, h) = ring_Next r h in
          map_option (\<lambda>x. bindE x (\<lambda>n. Inr (n, h))) (Len_loop r p 1 h))"

partial_function (option) Do_loop ::
    "('v \<Rightarrow> 's \<Rightarrow> 's) \<Rightarrow> rid \<Rightarrow> rid option \<Rightarrow> 'v rheap \<Rightarrow> 's \<Rightarrow> (panic + 's) option" where
  [code]: "Do_loop f r p h s =
     (if p = Some r then Some (Inr s)
      else case p of
             None \<Rightarrow> Some (Inl NilPointer)
           | Some q \<Rightarrow> Do_loop f r (r_next (rg h q)) h (f (r_Value (rg h q)) s))"

definition ring_Do :: "('v \<Rightarrow> 's \<Rightarrow> 's) \<Rightarrow> rid option \<Rightarrow> 'v rheap \<Rightarrow> 's \<Rightarrow> (panic + 's \<times> 'v rheap) option" where
  "ring_Do f r h s =
     (case r of
        None \<Rightarrow> Some (Inr (s, h))
      | Some r \<Rightarrow>
          let s = f (r_Value (rg h r)) s;
              (p, h) = ring_Next r h
          in map_option (\<lambda>x. bindE x (\<lambda>s. Inr (s, h))) (Do_loop f r p h s))"

section \<open>Rings as sequences\<close>

abbreviation rchain :: "'v rheap \<Rightarrow> rid list \<Rightarrow> bool" where
  "rchain h \<equiv> chain (\<lambda>p. r_next (rg h p)) (\<lambda>p. r_prev (rg h p))"

definition linked :: "'v rheap \<Rightarrow> rid list \<Rightarrow> bool" where
  "linked h ps \<longleftrightarrow> ps \<noteq> [] \<and> distinct ps \<and> rchain h (ps @ [hd ps])"

text \<open>A ring, or an element that has its zero value.\<close>

definition is_ring :: "'v rheap \<Rightarrow> rid list \<Rightarrow> bool" where
  "is_ring h ps \<longleftrightarrow> linked h ps \<or> (\<exists>r. ps = [r] \<and> r_next (rg h r) = None)"

lemma is_ring_distinct: "is_ring h ps \<Longrightarrow> distinct ps \<and> ps \<noteq> []"
  by (auto simp: is_ring_def linked_def)

lemma linked_next:
  assumes "linked h (r # xs)"
  shows "r_next (rg h r) = Some (hd (xs @ [r]))"
  using assms by (cases xs) (auto simp: linked_def)

lemma linked_prev:
  assumes "linked h (r # xs)"
  shows "r_prev (rg h r) = Some (last (r # xs))"
  using assms chain_join [of "\<lambda>p. r_next (rg h p)" "\<lambda>p. r_prev (rg h p)" "r # xs" "[r]"]
  by (simp add: linked_def)

lemma linked_rotate:
  assumes "linked h (r # xs)"
  shows "linked h (xs @ [r])"
proof (cases xs)
  case (Cons x ys)
  have "rchain h ((r # x # ys) @ [r])" using assms Cons by (simp add: linked_def)
  then have "rchain h (x # ys @ [r])" "r_next (rg h r) = Some x" "r_prev (rg h x) = Some r" by simp_all
  then have "rchain h ((x # ys @ [r]) @ [x])" using chain_join [of _ _ "x # ys @ [r]" "[x]"] by simp
  then show ?thesis using assms Cons by (simp add: linked_def)
qed (use assms in simp)

lemma linked_rotate1: "linked h ps \<Longrightarrow> linked h (rotate n ps)"
proof (induction n)
  case (Suc n)
  then show ?case
    using linked_rotate [of h "hd (rotate n ps)" "tl (rotate n ps)"]
    by (cases "rotate n ps") (auto simp: linked_def)
qed simp

lemma linked_cong:
  assumes "linked h ps" "\<And>p. p \<in> set ps \<Longrightarrow> r_next (rg h' p) = r_next (rg h p) \<and> r_prev (rg h' p) = r_prev (rg h p)"
  shows "linked h' ps"
proof -
  have "rchain h' (ps @ [hd ps])"
    by (rule chain_cong [of "\<lambda>p. r_next (rg h p)" "\<lambda>p. r_prev (rg h p)"])
      (use assms in \<open>auto simp: linked_def dest!: set_tl_subset [THEN subsetD]\<close>)
  then show ?thesis using assms(1) by (simp add: linked_def)
qed

text \<open>Only the links of elements in \<open>S\<close> differ.\<close>

definition touched :: "rid set \<Rightarrow> 'v rheap \<Rightarrow> 'v rheap \<Rightarrow> bool" where
  "touched S h h' \<longleftrightarrow> r_brk h' = r_brk h \<and> (\<forall>p. r_Value (rg h' p) = r_Value (rg h p)) \<and>
     (\<forall>p. p \<notin> S \<longrightarrow> rg h' p = rg h p)"

lemma touched_refl: "touched S h h"
  by (simp add: touched_def)

lemma touched_trans: "touched S h h1 \<Longrightarrow> touched T h1 h2 \<Longrightarrow> touched (S \<union> T) h h2"
  by (auto simp: touched_def)

lemma touched_mono: "touched S h h1 \<Longrightarrow> S \<subseteq> T \<Longrightarrow> touched T h h1"
  by (auto simp: touched_def)

lemma touched_ring:
  assumes "touched S h h'" "is_ring h ps" "set ps \<inter> S = {}"
  shows "is_ring h' ps"
proof -
  have same: "rg h' p = rg h p" if "p \<in> set ps" for p using assms that by (auto simp: touched_def)
  show ?thesis
    using assms(2) unfolding is_ring_def
  proof (elim disjE exE conjE)
    assume "linked h ps"
    then have "linked h' ps" by (rule linked_cong) (simp add: same)
    then show "linked h' ps \<or> (\<exists>r. ps = [r] \<and> r_next (rg h' r) = None)" ..
  qed (use same in auto)
qed

lemma zero_init:
  assumes "is_ring h (r # xs)" "r_next (rg h r) = None"
  shows "xs = [] \<and> linked (snd (ring_init r h)) [r] \<and> touched {r} h (snd (ring_init r h)) \<and> fst (ring_init r h) = r"
  using assms linked_next [of h r xs]
  by (auto simp: is_ring_def ring_init_def set_rnext_def set_rprev_def linked_def touched_def Let_def)

lemma ring_Next_ring:
  assumes "is_ring h (r # xs)"
  shows "\<exists>h'. ring_Next r h = (Some (hd (xs @ [r])), h') \<and> linked h' (r # xs) \<and> touched {r} h h' \<and>
    (linked h (r # xs) \<longrightarrow> h' = h)"
proof (cases "r_next (rg h r) = None")
  case True
  then show ?thesis
    using zero_init [OF assms True] linked_next [of h r xs]
    by (auto simp: ring_Next_def split: prod.splits)
next
  case False
  then have "linked h (r # xs)" using assms by (auto simp: is_ring_def)
  then show ?thesis using False linked_next [of h r xs] by (auto simp: ring_Next_def touched_refl)
qed

lemma ring_Prev_ring:
  assumes "is_ring h (r # xs)"
  shows "\<exists>h'. ring_Prev r h = (Some (last (r # xs)), h') \<and> linked h' (r # xs) \<and> touched {r} h h' \<and>
    (linked h (r # xs) \<longrightarrow> h' = h)"
proof (cases "r_next (rg h r) = None")
  case True
  then show ?thesis
    using zero_init [OF assms True] linked_next [of h r xs]
    by (auto simp: ring_Prev_def split: prod.splits)
next
  case False
  then have "linked h (r # xs)" using assms by (auto simp: is_ring_def)
  then show ?thesis using False linked_prev [of h r xs] by (auto simp: ring_Prev_def touched_refl)
qed

section \<open>Move\<close>

text \<open>The element \<open>k\<close> steps from the start, counting around the ring in either direction.\<close>

definition ring_nth :: "rid list \<Rightarrow> int \<Rightarrow> rid" where
  "ring_nth ps k = ps ! nat (k mod int (length ps))"

lemma linked_nth:
  assumes "linked h ps" "i < length ps"
  shows "r_next (rg h (ps ! i)) = Some (ps ! (Suc i mod length ps)) \<and>
         r_prev (rg h (ps ! (Suc i mod length ps))) = Some (ps ! i)"
proof -
  have ne: "ps \<noteq> []" using assms by auto
  obtain r xs where rx: "rotate i ps = r # xs" using ne by (cases "rotate i ps") auto
  then have l: "linked h (r # xs)" "linked h (xs @ [r])"
    using linked_rotate1 [OF assms(1), of i] linked_rotate by auto
  have r: "r = ps ! i" using hd_rotate_conv_nth [OF ne, of i] rx assms(2) by simp
  have "rotate (Suc i) ps = xs @ [r]" using rx by simp
  then have n: "hd (xs @ [r]) = ps ! (Suc i mod length ps)" using hd_rotate_conv_nth [OF ne, of "Suc i"] by simp
  obtain y ys where ys: "xs @ [r] = y # ys" by (cases "xs @ [r]") auto
  then have "last (y # ys) = r" by (metis last_snoc)
  then show ?thesis using linked_next [OF l(1)] linked_prev [of h y ys] l(2) ys n r by simp
qed

lemma linked_ring_nth:
  assumes "linked h ps"
  shows "r_next (rg h (ring_nth ps k)) = Some (ring_nth ps (k + 1))"
    and "r_prev (rg h (ring_nth ps k)) = Some (ring_nth ps (k - 1))"
proof -
  let ?n = "int (length ps)"
  have pos: "0 < ?n" using assms by (simp add: linked_def)
  have nat_lt: "nat (m mod ?n) < length ps" for m using pos by (simp add: nat_less_iff)
  have suc: "Suc (nat (m mod ?n)) mod length ps = nat ((m + 1) mod ?n)" for m
  proof -
    have "int (Suc (nat (m mod ?n)) mod length ps) = (m mod ?n + 1) mod ?n"
      using pos by (simp add: zmod_int add.commute)
    then show ?thesis by (simp add: mod_add_left_eq)
  qed
  show "r_next (rg h (ring_nth ps k)) = Some (ring_nth ps (k + 1))"
    using linked_nth [OF assms nat_lt, of k] by (simp add: ring_nth_def suc)
  show "r_prev (rg h (ring_nth ps k)) = Some (ring_nth ps (k - 1))"
    using linked_nth [OF assms nat_lt, of "k - 1"] by (simp add: ring_nth_def suc)
qed

lemma go_forward_ring: "linked h ps \<Longrightarrow> go_forward n (ring_nth ps k) h = Inr (ring_nth ps (k + int n))"
  by (induction n arbitrary: k) (simp_all add: linked_ring_nth deref_def algebra_simps)

lemma go_back_ring: "linked h ps \<Longrightarrow> go_back n (ring_nth ps k) h = Inr (ring_nth ps (k - int n))"
  by (induction n arbitrary: k) (simp_all add: linked_ring_nth deref_def algebra_simps)

lemma ring_Move_ring:
  assumes "is_ring h (r # xs)"
  shows "\<exists>h'. ring_Move r n h = Inr (ring_nth (r # xs) n, h') \<and> linked h' (r # xs) \<and> touched {r} h h'"
proof (cases "r_next (rg h r) = None")
  case True
  then show ?thesis
    using zero_init [OF assms True] by (cases "ring_init r h") (auto simp: ring_Move_def ring_nth_def)
next
  case False
  then have l: "linked h (r # xs)" using assms by (auto simp: is_ring_def)
  have r: "r = ring_nth (r # xs) 0" by (simp add: ring_nth_def)
  have "go_back (nat (- n)) r h = Inr (ring_nth (r # xs) n)" if "n < 0"
    using go_back_ring [OF l, of "nat (- n)" 0] that r by simp
  moreover have "go_forward (nat n) r h = Inr (ring_nth (r # xs) n)" if "0 < n"
    using go_forward_ring [OF l, of "nat n" 0] that r by simp
  moreover have "n = 0 \<Longrightarrow> r = ring_nth (r # xs) n" using r by simp
  ultimately show ?thesis using False l by (cases n "0 :: int" rule: linorder_cases) (auto simp: ring_Move_def touched_refl)
qed

section \<open>Len and Do\<close>

lemma Len_loop_ring:
  assumes "rchain h (ys @ [r])" "r \<notin> set ys"
  shows "Len_loop r (Some (hd (ys @ [r]))) n h = Some (Inr (n + length ys))"
  using assms
proof (induction ys arbitrary: n)
  case (Cons y ys)
  then have "r_next (rg h y) = Some (hd (ys @ [r]))" "rchain h (ys @ [r])" by (cases ys; simp)+
  then show ?case using Cons by (subst Len_loop.simps) simp
qed (simp add: Len_loop.simps)

lemma Do_loop_ring:
  assumes "rchain h (ys @ [r])" "r \<notin> set ys"
  shows "Do_loop f r (Some (hd (ys @ [r]))) h s = Some (Inr (fold (\<lambda>p. f (r_Value (rg h p))) ys s))"
  using assms
proof (induction ys arbitrary: s)
  case (Cons y ys)
  then have "r_next (rg h y) = Some (hd (ys @ [r]))" "rchain h (ys @ [r])" by (cases ys; simp)+
  then show ?case using Cons by (subst Do_loop.simps) simp
qed (simp add: Do_loop.simps)

lemma linked_tail: "linked h (r # xs) \<Longrightarrow> rchain h (xs @ [r]) \<and> r \<notin> set xs"
  by (cases xs) (auto simp: linked_def)

lemma ring_Len_ring:
  assumes "is_ring h (r # xs)"
  shows "\<exists>h'. ring_Len (Some r) h = Some (Inr (length (r # xs), h')) \<and> linked h' (r # xs) \<and> touched {r} h h'"
proof -
  obtain h' where h': "ring_Next r h = (Some (hd (xs @ [r])), h')" "linked h' (r # xs)" "touched {r} h h'"
    using ring_Next_ring [OF assms] by blast
  then show ?thesis using linked_tail [OF h'(2)] Len_loop_ring [of h' xs r 1] by (simp add: ring_Len_def)
qed

lemma ring_Do_ring:
  assumes "is_ring h (r # xs)"
  shows "\<exists>h'. ring_Do f (Some r) h s = Some (Inr (fold f (map (\<lambda>p. r_Value (rg h p)) (r # xs)) s, h')) \<and>
    linked h' (r # xs) \<and> touched {r} h h'"
proof -
  obtain h' where h': "ring_Next r h = (Some (hd (xs @ [r])), h')" "linked h' (r # xs)" "touched {r} h h'"
    using ring_Next_ring [OF assms] by blast
  have "fold (\<lambda>p. f (r_Value (rg h' p))) xs s = fold f (map (\<lambda>p. r_Value (rg h p)) xs) s" for s
    using h'(3) by (simp add: fold_map comp_def touched_def)
  then show ?thesis
    using h' linked_tail [OF h'(2)] Do_loop_ring [of h' xs r f "f (r_Value (rg h r)) s"] by (simp add: ring_Do_def)
qed

section \<open>New\<close>

lemma rchain_cong:
  "rchain h ps \<Longrightarrow> (\<And>p. p \<in> set (butlast ps) \<Longrightarrow> r_next (rg h' p) = r_next (rg h p)) \<Longrightarrow>
   (\<And>p. p \<in> set (tl ps) \<Longrightarrow> r_prev (rg h' p) = r_prev (rg h p)) \<Longrightarrow> rchain h' ps"
  by (rule chain_cong)

lemma New_loop_ring:
  assumes "rchain h [b..<Suc p]" "b \<le> p" "r_brk h = Suc p" "\<forall>q \<in> {b..p}. r_Value (rg h q) = nil_v"
  shows "\<exists>h'. New_loop nil_v k p h = (p + k, h') \<and> rchain h' [b..<Suc (p + k)] \<and> r_brk h' = Suc (p + k) \<and>
    (\<forall>q \<in> {b..p + k}. r_Value (rg h' q) = nil_v) \<and> (\<forall>q. q < b \<longrightarrow> rg h' q = rg h q)"
  using assms
proof (induction k arbitrary: p h)
  case (Suc k)
  define h1 where "h1 = set_rnext p (Some (Suc p)) (snd (new_ring nil_v (Some p) h))"
  have h1: "q \<noteq> p \<Longrightarrow> q \<noteq> Suc p \<Longrightarrow> rg h1 q = rg h q" "r_next (rg h1 p) = Some (Suc p)"
    "r_prev (rg h1 p) = r_prev (rg h p)" "r_Value (rg h1 p) = r_Value (rg h p)"
    "r_prev (rg h1 (Suc p)) = Some p" "r_Value (rg h1 (Suc p)) = nil_v" "r_brk h1 = Suc (Suc p)" for q
    using Suc.prems(3) by (auto simp: h1_def set_rnext_def new_ring_def)
  have "rchain h1 [b..<Suc p]"
  proof (rule rchain_cong [OF Suc.prems(1)])
    show "r_next (rg h1 q) = r_next (rg h q)" if "q \<in> set (butlast [b..<Suc p])" for q
      using that Suc.prems(2) by (simp add: h1)
    show "r_prev (rg h1 q) = r_prev (rg h q)" if "q \<in> set (tl [b..<Suc p])" for q
    proof -
      have "q \<le> p" using that set_tl_subset [of "[b..<Suc p]"] by auto
      then show ?thesis using h1(1,3) by (cases "q = p") auto
    qed
  qed
  then have c: "rchain h1 [b..<Suc (Suc p)]"
    using Suc.prems(2) h1 by (simp add: chain_join hd_append)
  have v: "\<forall>q \<in> {b..Suc p}. r_Value (rg h1 q) = nil_v"
    using Suc.prems(4) h1 by (metis atLeastAtMost_iff le_SucE)
  have "b \<le> Suc p" using Suc.prems(2) by simp
  from Suc.IH [OF c this h1(7) v] obtain h' where
    "New_loop nil_v k (Suc p) h1 = (Suc p + k, h')" "rchain h' [b..<Suc (Suc p + k)]" "r_brk h' = Suc (Suc p + k)"
    "\<forall>q \<in> {b..Suc p + k}. r_Value (rg h' q) = nil_v" "\<forall>q. q < b \<longrightarrow> rg h' q = rg h1 q" by blast
  moreover have "New_loop nil_v (Suc k) p h = New_loop nil_v k (Suc p) h1"
    using Suc.prems(3) by (simp add: h1_def new_ring_def Let_def)
  ultimately show ?case using h1(1) Suc.prems(2) by auto
qed simp

lemma ring_New_ring:
  assumes "0 < n"
  shows "\<exists>h'. ring_New nil_v n h = (Some (r_brk h), h') \<and> linked h' [r_brk h..<r_brk h + nat n] \<and>
    (\<forall>q \<in> set [r_brk h..<r_brk h + nat n]. r_Value (rg h' q) = nil_v) \<and>
    r_brk h' = r_brk h + nat n \<and> (\<forall>q. q < r_brk h \<longrightarrow> rg h' q = rg h q)"
proof -
  let ?b = "r_brk h"
  define h1 where "h1 = snd (new_ring nil_v None h)"
  have h1: "new_ring nil_v None h = (?b, h1)" "r_brk h1 = Suc ?b" "r_Value (rg h1 ?b) = nil_v"
    "q < ?b \<Longrightarrow> rg h1 q = rg h q" for q
    by (auto simp: h1_def new_ring_def)
  define k where "k = nat (n - 1)"
  obtain h2 where h2: "New_loop nil_v k ?b h1 = (?b + k, h2)" "rchain h2 [?b..<Suc (?b + k)]" "r_brk h2 = Suc (?b + k)"
    "\<forall>q \<in> {?b..?b + k}. r_Value (rg h2 q) = nil_v" "\<forall>q. q < ?b \<longrightarrow> rg h2 q = rg h1 q"
    using New_loop_ring [of h1 ?b ?b nil_v k] h1 by auto
  define h3 where "h3 = set_rprev ?b (Some (?b + k)) (set_rnext (?b + k) (Some ?b) h2)"
  have eq: "ring_New nil_v n h = (Some ?b, h3)"
    using assms h1(1) h2(1) by (simp add: ring_New_def k_def h3_def)
  have h3: "r_next (rg h3 q) = (if q = ?b + k then Some ?b else r_next (rg h2 q))"
    "r_prev (rg h3 q) = (if q = ?b then Some (?b + k) else r_prev (rg h2 q))"
    "r_Value (rg h3 q) = r_Value (rg h2 q)" "r_brk h3 = r_brk h2" "q < ?b \<Longrightarrow> rg h3 q = rg h2 q" for q
    by (auto simp: h3_def set_rnext_def set_rprev_def)
  have len: "Suc (?b + k) = ?b + nat n" using assms by (simp add: k_def)
  have "rchain h3 [?b..<Suc (?b + k)]"
  proof (rule rchain_cong [OF h2(2)])
    have upt: "[?b..<Suc (?b + k)] = ?b # [Suc ?b..<Suc (?b + k)]" by (rule upt_conv_Cons) simp
    show "r_prev (rg h3 q) = r_prev (rg h2 q)" if "q \<in> set (tl [?b..<Suc (?b + k)])" for q
      using that unfolding upt by (auto simp: h3(2))
    show "r_next (rg h3 q) = r_next (rg h2 q)" if "q \<in> set (butlast [?b..<Suc (?b + k)])" for q
      using that by (simp add: h3(1))
  qed
  moreover have "hd [?b..<Suc (?b + k)] = ?b" "last [?b..<Suc (?b + k)] = ?b + k" by (simp_all add: hd_append)
  ultimately have "linked h3 [?b..<Suc (?b + k)]"
    unfolding linked_def by (subst chain_join) (auto simp: h3)
  moreover have "q \<in> {?b..?b + k}" if "q \<in> set [?b..<?b + nat n]" for q using that len by auto
  ultimately show ?thesis using eq h1(4) h2(3-5) h3(3-5) unfolding len by auto
qed

section \<open>Link and Unlink\<close>

lemma Link_fields:
  assumes "ring_Next r h = (Some n, h1)" "ring_Prev s h1 = (Some p, h2)"
  shows "\<exists>h'. Link r (Some s) h = Inr (Some n, h') \<and> r_brk h' = r_brk h2 \<and>
    (\<forall>q. r_next (rg h' q) = (if q = p then Some n else if q = r then Some s else r_next (rg h2 q))) \<and>
    (\<forall>q. r_prev (rg h' q) = (if q = n then Some p else if q = s then Some r else r_prev (rg h2 q))) \<and>
    (\<forall>q. r_Value (rg h' q) = r_Value (rg h2 q)) \<and> (\<forall>q. q \<notin> {p, r, n, s} \<longrightarrow> rg h' q = rg h2 q)"
proof -
  define h' where
    "h' = set_rnext p (Some n) (set_rprev n (Some p) (set_rprev s (Some r) (set_rnext r (Some s) h2)))"
  have "Link r (Some s) h = Inr (Some n, h')"
    using assms by (simp add: Link_def deref_def h'_def)
  then show ?thesis
    by (intro exI [of _ h'] conjI allI) (auto simp: h'_def set_rnext_def set_rprev_def)
qed

text \<open>Linking two rings inserts the second after \<open>r\<close>.\<close>

lemma Link_different:
  assumes "is_ring h (r # xs)" "is_ring h (s # ss)" "set (r # xs) \<inter> set (s # ss) = {}"
  shows "\<exists>h'. Link r (Some s) h = Inr (Some (hd (xs @ [r])), h') \<and> linked h' (r # s # ss @ xs) \<and>
    touched (set (r # xs) \<union> set (s # ss)) h h'"
proof -
  obtain h1 where h1: "ring_Next r h = (Some (hd (xs @ [r])), h1)" "linked h1 (r # xs)" "touched {r} h h1"
    using ring_Next_ring [OF assms(1)] by blast
  have "is_ring h1 (s # ss)" using touched_ring [OF h1(3) assms(2)] assms(3) by auto
  then obtain h2 where h2: "ring_Prev s h1 = (Some (last (s # ss)), h2)" "linked h2 (s # ss)" "touched {s} h1 h2"
    using ring_Prev_ring by blast
  have l2: "linked h2 (r # xs)"
    by (rule linked_cong [OF h1(2)]) (use h2(3) assms(3) in \<open>auto simp: touched_def\<close>)
  let ?n = "hd (xs @ [r])" and ?p = "last (s # ss)"
  obtain h' where h': "Link r (Some s) h = Inr (Some ?n, h')" "r_brk h' = r_brk h2"
    "\<And>q. r_next (rg h' q) = (if q = ?p then Some ?n else if q = r then Some s else r_next (rg h2 q))"
    "\<And>q. r_prev (rg h' q) = (if q = ?n then Some ?p else if q = s then Some r else r_prev (rg h2 q))"
    "\<And>q. r_Value (rg h' q) = r_Value (rg h2 q)" "\<And>q. q \<notin> {?p, r, ?n, s} \<Longrightarrow> rg h' q = rg h2 q"
    using Link_fields [OF h1(1) h2(1)] by blast
  have n: "?n \<in> set (r # xs)" by (cases xs) auto
  have p: "?p \<in> set (s # ss)" by (rule last_in_set) simp
  have d: "distinct (r # xs)" "distinct (s # ss)" using l2 h2(2) by (simp_all add: linked_def)
  have sr: "r \<noteq> ?p" "s \<noteq> ?n" "?n \<notin> set (s # ss)" "?p \<notin> set (r # xs)" using n p assms(3) by auto
  have "rchain h' (s # ss)"
  proof (rule rchain_cong)
    show "rchain h2 (s # ss)" using h2(2) chain_join [of _ _ "s # ss" "[s]"] by (simp add: linked_def)
    show "r_next (rg h' q) = r_next (rg h2 q)" if "q \<in> set (butlast (s # ss))" for q
    proof -
      have "q \<noteq> ?p" using that d(2) by (metis distinct_butlast last_in_set append_butlast_last_id distinct_append
            disjoint_iff list.distinct(1) list.set_intros(1))
      moreover have "q \<noteq> r" using in_set_butlastD [OF that] assms(3) by auto
      ultimately show ?thesis by (simp add: h')
    qed
    show "r_prev (rg h' q) = r_prev (rg h2 q)" if "q \<in> set (tl (s # ss))" for q
      using that d(2) sr(3) by (auto simp: h')
  qed
  moreover have "rchain h' (xs @ [r])"
  proof (rule rchain_cong)
    show "rchain h2 (xs @ [r])" using linked_tail [OF l2] by blast
    show "r_next (rg h' q) = r_next (rg h2 q)" if "q \<in> set (butlast (xs @ [r]))" for q
      using that d(1) sr(4) by (auto simp: h')
    show "r_prev (rg h' q) = r_prev (rg h2 q)" if "q \<in> set (tl (xs @ [r]))" for q
      using that d(1) assms(3) by (cases xs) (auto simp: h')
  qed
  moreover have "r_next (rg h' r) = Some s" "r_prev (rg h' s) = Some r" "r_next (rg h' ?p) = Some ?n" "r_prev (rg h' ?n) = Some ?p"
    using sr by (simp_all add: h')
  ultimately have "rchain h' ([r] @ (s # ss) @ (xs @ [r]))"
    unfolding chain_join by simp
  then have "linked h' (r # s # ss @ xs)" using d assms(3) by (auto simp: linked_def)
  moreover have "touched (set (r # xs) \<union> set (s # ss)) h h'"
  proof -
    have "touched (set (r # xs) \<union> set (s # ss)) h2 h'"
    proof -
      have "{?p, r, ?n, s} \<subseteq> set (r # xs) \<union> set (s # ss)"
        using n p by (simp only: insert_subset Un_iff list.set_intros(1) simp_thms empty_subsetI)
      then show ?thesis using h'(2,5,6) unfolding touched_def by blast
    qed
    from touched_trans [OF touched_trans [OF h1(3) h2(3)] this] show ?thesis
      by (rule touched_mono) auto
  qed
  ultimately show ?thesis using h'(1) by blast
qed

lemma linked_cut:
  assumes "rchain h xs" "xs \<noteq> []" "distinct xs"
    and "r_next (rg h' (last xs)) = Some (hd xs)" "r_prev (rg h' (hd xs)) = Some (last xs)"
    and "\<And>q. q \<in> set xs \<Longrightarrow> q \<noteq> last xs \<Longrightarrow> r_next (rg h' q) = r_next (rg h q)"
    and "\<And>q. q \<in> set xs \<Longrightarrow> q \<noteq> hd xs \<Longrightarrow> r_prev (rg h' q) = r_prev (rg h q)"
  shows "linked h' xs"
proof -
  have "rchain h' xs"
  proof (rule rchain_cong [OF assms(1)])
    show "r_next (rg h' q) = r_next (rg h q)" if "q \<in> set (butlast xs)" for q
    proof (rule assms(6))
      have "distinct (butlast xs @ [last xs])" using assms(2,3) by simp
      then show "q \<noteq> last xs" using that by auto
      show "q \<in> set xs" using that by (rule in_set_butlastD)
    qed
    show "r_prev (rg h' q) = r_prev (rg h q)" if "q \<in> set (tl xs)" for q
      by (rule assms(7); use that assms(2,3) in \<open>cases xs; auto\<close>)
  qed
  then show ?thesis using assms(2-5) by (simp add: linked_def chain_join)
qed

text \<open>Linking \<open>r\<close> with an element of its own ring takes out what lies between them.\<close>

lemma Link_same:
  assumes "is_ring h (r # xs @ s # ys)"
  shows "\<exists>h'. Link r (Some s) h = Inr (Some (hd (xs @ [s])), h') \<and> linked h' (r # s # ys) \<and>
    (xs = [] \<or> linked h' xs) \<and> touched (set (r # xs @ s # ys)) h h'"
proof -
  have "linked h (r # xs @ s # ys)" using assms by (auto simp: is_ring_def)
  then have n: "ring_Next r h = (Some (hd (xs @ [s])), h)"
    using ring_Next_ring [OF assms] by (cases xs) auto
  note l = \<open>linked h (r # xs @ s # ys)\<close>
  have "rotate (Suc (length xs)) ((r # xs) @ s # ys) = (s # ys) @ r # xs"
    using rotate_append [of "r # xs" "s # ys"] by simp
  then have ls: "linked h (s # ys @ r # xs)" using linked_rotate1 [OF l, of "Suc (length xs)"] by simp
  then have p: "ring_Prev s h = (Some (last (r # xs)), h)"
    using ring_Prev_ring [of h s "ys @ r # xs"] by (auto simp: is_ring_def)
  let ?n = "hd (xs @ [s])" and ?p = "last (r # xs)"
  obtain h' where h': "Link r (Some s) h = Inr (Some ?n, h')" "r_brk h' = r_brk h"
    "\<And>q. r_next (rg h' q) = (if q = ?p then Some ?n else if q = r then Some s else r_next (rg h q))"
    "\<And>q. r_prev (rg h' q) = (if q = ?n then Some ?p else if q = s then Some r else r_prev (rg h q))"
    "\<And>q. r_Value (rg h' q) = r_Value (rg h q)" "\<And>q. q \<notin> {?p, r, ?n, s} \<Longrightarrow> rg h' q = rg h q"
    using Link_fields [OF n p] by blast
  have d: "distinct (r # xs @ s # ys)" using l by (simp add: linked_def)
  have p_in: "?p \<in> set (r # xs)" by (rule last_in_set) simp
  have n_in: "?n \<in> set (xs @ [s])" by (rule hd_in_set) simp
  have "set (r # xs) \<inter> set (s # ys) = {}" using d by auto
  then have pn: "?p \<notin> set (s # ys)" using p_in by blast
  have c: "rchain h (s # ys @ [r])" "rchain h xs"
    using l chain_join [of "\<lambda>p. r_next (rg h p)" "\<lambda>p. r_prev (rg h p)" "r # xs" "s # ys @ [r]"]
      chain_join [of "\<lambda>p. r_next (rg h p)" "\<lambda>p. r_prev (rg h p)" "[r]" xs]
    by (auto simp: linked_def)
  have "rchain h' (s # ys @ [r])"
  proof (rule rchain_cong [OF c(1)])
    show "r_next (rg h' q) = r_next (rg h q)" if "q \<in> set (butlast (s # ys @ [r]))" for q
    proof -
      have "q \<in> set (s # ys)" using that by (auto simp: butlast_append split: if_splits)
      then have "q \<noteq> ?p" "q \<noteq> r" using pn d by auto
      then show ?thesis by (simp add: h'(3))
    qed
    show "r_prev (rg h' q) = r_prev (rg h q)" if "q \<in> set (tl (s # ys @ [r]))" for q
      using that d n_in by (auto simp: h')
  qed
  moreover have "r_next (rg h' r) = Some s" using d by (cases xs) (auto simp: h')
  moreover have "r_prev (rg h' s) = Some r" using d by (cases xs) (auto simp: h')
  ultimately have "linked h' (r # s # ys)" using d by (simp add: linked_def)
  moreover have "linked h' xs" if "xs \<noteq> []"
    by (rule linked_cut [OF c(2)]) (use that d in \<open>auto simp: h'\<close>)
  moreover have "touched (set (r # xs @ s # ys)) h h'"
  proof -
    have "{?p, r, ?n, s} \<subseteq> set (r # xs @ s # ys)" using n_in p_in by auto
    then show ?thesis using h'(2,5,6) unfolding touched_def by blast
  qed
  ultimately show ?thesis using h'(1) by blast
qed

text \<open>Linking \<open>r\<close> with itself leaves it alone and takes out the rest.\<close>

lemma Link_self:
  assumes "is_ring h (r # xs)"
  shows "\<exists>h'. Link r (Some r) h = Inr (Some (hd (xs @ [r])), h') \<and> linked h' [r] \<and>
    (xs = [] \<or> linked h' xs) \<and> touched (set (r # xs)) h h'"
proof -
  obtain h1 where h1: "ring_Next r h = (Some (hd (xs @ [r])), h1)" "linked h1 (r # xs)" "touched {r} h h1"
    using ring_Next_ring [OF assms] by blast
  have p: "ring_Prev r h1 = (Some (last (r # xs)), h1)"
    using ring_Prev_ring [of h1 r xs] h1(2) by (auto simp: is_ring_def)
  let ?n = "hd (xs @ [r])" and ?p = "last (r # xs)"
  obtain h' where h': "Link r (Some r) h = Inr (Some ?n, h')" "r_brk h' = r_brk h1"
    "\<And>q. r_next (rg h' q) = (if q = ?p then Some ?n else if q = r then Some r else r_next (rg h1 q))"
    "\<And>q. r_prev (rg h' q) = (if q = ?n then Some ?p else if q = r then Some r else r_prev (rg h1 q))"
    "\<And>q. r_Value (rg h' q) = r_Value (rg h1 q)" "\<And>q. q \<notin> {?p, r, ?n, r} \<Longrightarrow> rg h' q = rg h1 q"
    using Link_fields [OF h1(1) p] by blast
  have d: "distinct (r # xs)" using h1(2) by (simp add: linked_def)
  have "linked h' [r]" using d by (cases xs) (auto simp: linked_def h')
  moreover have "rchain h1 xs"
    using linked_tail [OF h1(2)] chain_join [of "\<lambda>p. r_next (rg h1 p)" "\<lambda>p. r_prev (rg h1 p)" xs "[r]"] by blast
  then have "linked h' xs" if "xs \<noteq> []"
    by (rule linked_cut) (use that d in \<open>auto simp: h'\<close>)
  moreover have "touched (set (r # xs)) h h'"
  proof -
    have "?n \<in> set (r # xs)" by (cases xs) auto
    moreover have "?p \<in> set (r # xs)" by (rule last_in_set) simp
    ultimately have "{?p, r, ?n, r} \<subseteq> set (r # xs)"
      by (simp only: insert_subset list.set_intros(1) simp_thms empty_subsetI)
    then have "touched (set (r # xs)) h1 h'" using h'(2,5,6) unfolding touched_def by blast
    from touched_trans [OF h1(3) this] show ?thesis by (rule touched_mono) auto
  qed
  ultimately show ?thesis using h'(1) by blast
qed

text \<open>\<open>Unlink\<close> moves \<open>n + 1\<close> elements ahead and links with what it finds there.\<close>

lemma Unlink_ring:
  assumes "is_ring h (r # xs)" "0 < n"
  shows "\<exists>h' q. Unlink r n h = Inr (Some q, h') \<and>
    (let k = nat (n mod int (length (r # xs))) in
     linked h' (r # drop k xs) \<and> (k = 0 \<or> linked h' (take k xs) \<and> q = hd (take k xs))) \<and>
    touched (set (r # xs)) h h'"
proof -
  let ?N = "int (length (r # xs))"
  define k where "k = nat (n mod ?N)"
  have pos: "0 < ?N" by simp
  have k: "int k = n mod ?N" unfolding k_def using pos by simp
  have kN: "k < length (r # xs)" using pos_mod_bound [OF pos, of n] k by linarith
  obtain h1 where h1: "ring_Move r (n + 1) h = Inr (ring_nth (r # xs) (n + 1), h1)" "linked h1 (r # xs)"
    "touched {r} h h1"
    using ring_Move_ring [OF assms(1)] by blast
  have idx: "(n + 1) mod ?N = (int k + 1) mod ?N" unfolding k by (simp only: mod_add_left_eq)
  have eq: "Unlink r n h = Link r (Some (ring_nth (r # xs) (n + 1))) h1"
    using assms(2) h1(1) by (simp add: Unlink_def)
  have tr: "touched (set (r # xs)) h h'" if "touched (set (r # xs)) h1 h'" for h'
    using touched_trans [OF h1(3) that] by (rule touched_mono) auto
  have ring1: "is_ring h1 (r # xs)" using h1(2) by (simp add: is_ring_def)
  show ?thesis
  proof (cases "k < length xs")
    case True
    have "int k + 1 < ?N" using True by simp
    then have "(int k + 1) mod ?N = int k + 1" by (intro mod_pos_pos_trivial) simp_all
    then have s: "ring_nth (r # xs) (n + 1) = xs ! k"
      unfolding ring_nth_def idx using True by (simp add: nat_add_distrib)
    have split: "xs = take k xs @ xs ! k # drop (Suc k) xs" using True by (rule id_take_nth_drop)
    then have "is_ring h1 (r # take k xs @ xs ! k # drop (Suc k) xs)" using ring1 by simp
    from Link_same [OF this] obtain h' where h': "Link r (Some (xs ! k)) h1 = Inr (Some (hd (take k xs @ [xs ! k])), h')"
      "linked h' (r # xs ! k # drop (Suc k) xs)" "take k xs = [] \<or> linked h' (take k xs)"
      "touched (set (r # xs)) h1 h'" using split by auto
    have "xs ! k # drop (Suc k) xs = drop k xs" using True by (simp add: Cons_nth_drop_Suc)
    then show ?thesis
      using h' eq s tr [OF h'(4)] True unfolding k_def [symmetric] Let_def
      by (cases "k = 0") (auto simp: hd_append)
  next
    case False
    then have kl: "k = length xs" using kN by simp
    have "int k + 1 = ?N" by (simp add: kl)
    then have "(int k + 1) mod ?N = 0" by (simp only: mod_self)
    then have s: "ring_nth (r # xs) (n + 1) = r" unfolding ring_nth_def idx by simp
    from Link_self [OF ring1] obtain h' where h': "Link r (Some r) h1 = Inr (Some (hd (xs @ [r])), h')"
      "linked h' [r]" "xs = [] \<or> linked h' xs" "touched (set (r # xs)) h1 h'" by blast
    then show ?thesis
      using eq s tr [OF h'(4)] kl unfolding k_def [symmetric] Let_def
      by (cases "xs = []") auto
  qed
qed

section \<open>Properties\<close>

text \<open>C22: on a ring, \<open>Next\<close> and \<open>Prev\<close> give the neighbours, \<open>Move(n)\<close> the element \<open>n mod Len\<close> steps
  away in either direction, \<open>Len\<close> returns the number of elements, and \<open>Do\<close> calls its function on the
  values in forward order; the loops of the last two return. The zero value of an element behaves as
  a ring of one element.\<close>

theorem ring_walk_correct:
  assumes "is_ring h (r # xs)"
  shows "fst (ring_Next r h) = Some (hd (xs @ [r])) \<and> fst (ring_Prev r h) = Some (last (r # xs)) \<and>
    (\<exists>h'. ring_Move r n h = Inr (ring_nth (r # xs) n, h') \<and> is_ring h' (r # xs)) \<and>
    (\<exists>h'. ring_Len (Some r) h = Some (Inr (length (r # xs), h')) \<and> is_ring h' (r # xs)) \<and>
    (\<exists>h'. ring_Do f (Some r) h s = Some (Inr (fold f (map (\<lambda>p. r_Value (rg h p)) (r # xs)) s, h')) \<and>
          is_ring h' (r # xs))"
proof -
  have "fst (ring_Next r h) = Some (hd (xs @ [r]))" using ring_Next_ring [OF assms] by auto
  moreover have "fst (ring_Prev r h) = Some (last (r # xs))" using ring_Prev_ring [OF assms] by auto
  ultimately show ?thesis
    using ring_Move_ring [OF assms, of n] ring_Len_ring [OF assms] ring_Do_ring [OF assms, of f s]
    unfolding is_ring_def by blast
qed

definition one_ring :: "nat rheap" where
  "one_ring = \<lparr>rg = (\<lambda>p. \<lparr>r_next = None, r_prev = None, r_Value = p\<rparr>), r_brk = 10\<rparr>"

lemma one_ring_zero: "is_ring one_ring [r]"
  by (simp add: one_ring_def is_ring_def)

theorem ring_walk_correct_witness:
  "fst (ring_Next 4 one_ring) = Some 4 \<and>
   (\<exists>h'. ring_Do (\<lambda>v s. s + v) (Some 4) one_ring 3 = Some (Inr (7, h')) \<and> is_ring h' [4])"
  using ring_walk_correct [OF one_ring_zero [of 4], of 0 "\<lambda>v s. s + v" 3] by (simp add: one_ring_def)

text \<open>\<open>New(n)\<close> makes a ring of \<open>n\<close> fresh elements; \<open>Link\<close> of two rings inserts the second after
  \<open>r\<close>, and within one ring takes out the elements in between, which form a ring of their own;
  \<open>Unlink(n)\<close> takes out the \<open>n mod Len\<close> elements after \<open>r\<close>; the results are the pointers that the
  documentation promises. Only elements of the rings named are touched.\<close>

theorem ring_surgery_correct:
  assumes "is_ring h (r # xs)" and "0 < n"
  shows "(\<exists>h'. ring_New v n h = (Some (r_brk h), h') \<and> is_ring h' [r_brk h..<r_brk h + nat n]) \<and>
    (\<forall>s ss. is_ring h (s # ss) \<and> set (r # xs) \<inter> set (s # ss) = {} \<longrightarrow>
      (\<exists>h'. Link r (Some s) h = Inr (Some (hd (xs @ [r])), h') \<and> is_ring h' (r # s # ss @ xs) \<and>
            touched (set (r # xs) \<union> set (s # ss)) h h')) \<and>
    (\<forall>us s vs. xs = us @ s # vs \<longrightarrow>
      (\<exists>h'. Link r (Some s) h = Inr (Some (hd (us @ [s])), h') \<and> is_ring h' (r # s # vs) \<and>
            (us = [] \<or> is_ring h' us) \<and> touched (set (r # xs)) h h')) \<and>
    (\<exists>h' q. Unlink r n h = Inr (Some q, h') \<and>
      (let k = nat (n mod int (length (r # xs))) in
       is_ring h' (r # drop k xs) \<and> (k = 0 \<or> is_ring h' (take k xs) \<and> q = hd (take k xs))) \<and>
      touched (set (r # xs)) h h')"
proof (intro conjI allI impI)
  show "\<exists>h'. ring_New v n h = (Some (r_brk h), h') \<and> is_ring h' [r_brk h..<r_brk h + nat n]"
    using ring_New_ring [OF assms(2), of v h] unfolding is_ring_def by blast
  show "\<exists>h' q. Unlink r n h = Inr (Some q, h') \<and>
      (let k = nat (n mod int (length (r # xs))) in
       is_ring h' (r # drop k xs) \<and> (k = 0 \<or> is_ring h' (take k xs) \<and> q = hd (take k xs))) \<and>
      touched (set (r # xs)) h h'"
    using Unlink_ring [OF assms] unfolding is_ring_def Let_def by blast
next
  fix s ss assume "is_ring h (s # ss) \<and> set (r # xs) \<inter> set (s # ss) = {}"
  then show "\<exists>h'. Link r (Some s) h = Inr (Some (hd (xs @ [r])), h') \<and> is_ring h' (r # s # ss @ xs) \<and>
            touched (set (r # xs) \<union> set (s # ss)) h h'"
    using Link_different [OF assms(1)] unfolding is_ring_def by blast
next
  fix us s vs assume "xs = us @ s # vs"
  then show "\<exists>h'. Link r (Some s) h = Inr (Some (hd (us @ [s])), h') \<and> is_ring h' (r # s # vs) \<and>
            (us = [] \<or> is_ring h' us) \<and> touched (set (r # xs)) h h'"
    using Link_same [of h r us s vs] assms(1) unfolding is_ring_def by blast
qed

theorem ring_surgery_correct_witness:
  "\<exists>h'. Link 4 (Some 5) one_ring = Inr (Some 4, h') \<and> is_ring h' [4, 5]"
proof -
  have "is_ring one_ring [5] \<and> set [4] \<inter> set [5 :: nat] = {}" by (simp add: one_ring_zero)
  then show ?thesis
    using ring_surgery_correct [OF one_ring_zero [of 4], of 1 0, THEN conjunct2, THEN conjunct1,
      rule_format, of 5 "[]"] by auto
qed

end
