(* ===== verification/Go_Threads.thy ===== *)
theory Go_Threads
  imports Go_Prelude
begin

text \<open>
  Goroutines that share memory: a state of the shared memory and one control state for each
  goroutine. \<open>nx a p m\<close> is the next step of a goroutine at \<open>p\<close>; \<open>None\<close> says that it is blocked. The
  label \<open>a\<close> is the choice that its client makes, where there is one. Steps interleave in any order;
  \<open>treach\<close> is what can be reached. Every step is one atomic operation of the code, and memory is
  sequentially consistent.
\<close>

inductive treach :: "('a \<Rightarrow> 'p \<Rightarrow> 'm \<Rightarrow> ('m \<times> 'p) option) \<Rightarrow> 'm \<Rightarrow> 'p list \<Rightarrow> 'm \<Rightarrow> 'p list \<Rightarrow> bool"
  for nx m0 ps0 where
  treach_start: "treach nx m0 ps0 m0 ps0"
| treach_step: "treach nx m0 ps0 m ps \<Longrightarrow> g < length ps \<Longrightarrow> nx a (ps ! g) m = Some (m', p') \<Longrightarrow>
    treach nx m0 ps0 m' (ps[g := p'])"

text \<open>The run of an explicit schedule, a list of choices and goroutines.\<close>

fun trun :: "('a \<Rightarrow> 'p \<Rightarrow> 'm \<Rightarrow> ('m \<times> 'p) option) \<Rightarrow> ('a \<times> nat) list \<Rightarrow> 'm \<Rightarrow> 'p list \<Rightarrow> ('m \<times> 'p list) option" where
  "trun nx [] m ps = Some (m, ps)"
| "trun nx ((a, g) # sch) m ps =
     (if g < length ps
      then case nx a (ps ! g) m of
             None \<Rightarrow> None
           | Some (m', p') \<Rightarrow> trun nx sch m' (ps[g := p'])
      else None)"

lemma treach_trans:
  assumes "treach nx m ps m2 ps2" and "treach nx m0 ps0 m ps"
  shows "treach nx m0 ps0 m2 ps2"
  using assms
proof (induction rule: treach.induct)
  case (treach_step m' ps' g a m'' p'')
  then show ?case using treach.treach_step by metis
qed

lemma trun_treach_from:
  "trun nx sch m ps = Some (m', ps') \<Longrightarrow> treach nx m0 ps0 m ps \<Longrightarrow> treach nx m0 ps0 m' ps'"
proof (induction nx sch m ps rule: trun.induct)
  case (2 nx a g sch m ps)
  then obtain m1 p1 where s: "g < length ps" "nx a (ps ! g) m = Some (m1, p1)"
    "trun nx sch m1 (ps[g := p1]) = Some (m', ps')"
    by (auto split: if_splits option.splits)
  from "2.IH" [OF s(1,2) refl s(3)] treach_step [OF "2.prems"(2) s(1,2)] show ?case by blast
qed auto

lemma trun_treach: "trun nx sch m0 ps0 = Some (m, ps) \<Longrightarrow> treach nx m0 ps0 m ps"
  by (erule trun_treach_from) (rule treach_start)

lemma treach_length: "treach nx m0 ps0 m ps \<Longrightarrow> length ps = length ps0"
  by (induction rule: treach.induct) simp_all

section \<open>Counting goroutines by control state\<close>

definition cnt :: "('p \<Rightarrow> bool) \<Rightarrow> 'p list \<Rightarrow> nat" where
  "cnt P ps = length (filter P ps)"

lemma cnt_Nil [simp]: "cnt P [] = 0"
  by (simp add: cnt_def)

lemma cnt_Cons [simp]: "cnt P (p # ps) = of_bool (P p) + cnt P ps"
  by (simp add: cnt_def)

lemma cnt_update:
  "g < length ps \<Longrightarrow> cnt P (ps[g := p]) + of_bool (P (ps ! g)) = cnt P ps + of_bool (P p)"
proof (induction ps arbitrary: g)
  case (Cons q ps)
  then show ?case by (cases g) auto
qed simp

lemma cnt_le: "cnt P ps \<le> length ps"
  by (simp add: cnt_def)

lemma cnt_pos: "g < length ps \<Longrightarrow> P (ps ! g) \<Longrightarrow> 0 < cnt P ps"
  by (auto simp: cnt_def filter_empty_conv)

lemma cnt_zero: "cnt P ps = 0 \<longleftrightarrow> (\<forall>p \<in> set ps. \<not> P p)"
  by (auto simp: cnt_def filter_empty_conv)

lemma cnt_replicate: "cnt P (replicate n p) = (if P p then n else 0)"
  by (simp add: cnt_def)

lemma cnt_disjoint: "(\<And>p. \<not> (P p \<and> Q p)) \<Longrightarrow> cnt P ps + cnt Q ps \<le> length ps"
  by (induction ps) (auto simp: of_bool_def)

lemma cnt_two:
  assumes "i < length ps" "j < length ps" "i \<noteq> j" "P (ps ! i)" "P (ps ! j)"
  shows "2 \<le> cnt P ps"
  using assms
proof (induction ps arbitrary: i j)
  case (Cons q ps)
  show ?case
  proof (cases i)
    case 0
    then obtain j' where "j = Suc j'" using Cons.prems(3) by (cases j) auto
    then have "0 < cnt P ps" using Cons.prems by (intro cnt_pos [of j']) auto
    then show ?thesis using 0 Cons.prems by simp
  next
    case (Suc i')
    show ?thesis
    proof (cases j)
      case 0
      have "0 < cnt P ps" using Suc Cons.prems by (intro cnt_pos [of i']) auto
      then show ?thesis using 0 Cons.prems by simp
    next
      case (Suc j')
      then have "2 \<le> cnt P ps" using \<open>i = Suc i'\<close> Cons.prems by (intro Cons.IH [of i' j']) auto
      then show ?thesis by simp
    qed
  qed
qed simp

lemma cnt_unique:
  assumes "cnt P ps \<le> 1" "x \<in> set ps" "y \<in> set ps" "P x" "P y"
  shows "x = y"
proof (rule ccontr)
  assume "x \<noteq> y"
  obtain i j where "i < length ps" "j < length ps" "ps ! i = x" "ps ! j = y"
    using assms(2,3) by (auto simp: in_set_conv_nth)
  then have "2 \<le> cnt P ps" using \<open>x \<noteq> y\<close> assms(4,5) by (intro cnt_two [of i _ j]) auto
  then show False using assms(1) by simp
qed

end
