(* ===== verification/Go_Mutex.thy ===== *)
theory Go_Mutex
  imports Go_Threads
begin

unbundle bit_operations_syntax

text \<open>
  sync.Mutex (src/sync/mutex.go): one word holds the locked bit, the woken bit and the number of
  waiters, and waiters sleep on a semaphore. Every atomic operation and every load of the code is
  one step of a goroutine; \<open>mpc\<close> names the points between them, with the values of the local
  variables that are still needed. A goroutine calls \<open>Unlock\<close> after its own \<open>Lock\<close> has returned: the
  documentation also allows a mutex to be unlocked by another goroutine than the one that locked it, which
  these runs do not have. \<open>runtime_Semacquire\<close> waits for a positive count and takes one,
  \<open>runtime_Semrelease\<close> adds one, as src/sync/runtime.go documents them.
\<close>

section \<open>The code\<close>

definition mutexLocked :: "32 word" where "mutexLocked = 1"
definition mutexWoken :: "32 word" where "mutexWoken = 2"
definition mutexWaiterShift :: nat where "mutexWaiterShift = 2"

record mutex =
  mstate :: "32 word"
  msema :: nat

datatype mpc =
    MIdle
  | MLoad bool              \<comment> \<open>in the loop of \<open>Lock\<close>, with \<open>awoke\<close>\<close>
  | MCas bool "32 word"     \<comment> \<open>\<open>old\<close> has been read\<close>
  | MSem                    \<comment> \<open>in \<open>runtime_Semacquire\<close>\<close>
  | MHold                   \<comment> \<open>\<open>Lock\<close> has returned\<close>
  | UTest "32 word"         \<comment> \<open>at the test in the loop of \<open>Unlock\<close>, with \<open>old\<close>\<close>
  | UCas "32 word"
  | UReload
  | USem
  | MPanic

text \<open>Lock.\<close>

definition Lock_fast :: "mutex \<Rightarrow> mutex \<times> mpc" where
  "Lock_fast m = (if mstate m = 0 then (m\<lparr>mstate := mutexLocked\<rparr>, MHold) else (m, MLoad False))"

definition Lock_load :: "bool \<Rightarrow> mutex \<Rightarrow> mutex \<times> mpc" where
  "Lock_load awoke m = (m, MCas awoke (mstate m))"

definition Lock_new :: "bool \<Rightarrow> 32 word \<Rightarrow> 32 word" where
  "Lock_new awoke old =
     (let new = old OR mutexLocked;
          new = (if old AND mutexLocked \<noteq> 0 then old + push_bit mutexWaiterShift 1 else new)
      in if awoke then new AND NOT mutexWoken else new)"

definition Lock_cas :: "bool \<Rightarrow> 32 word \<Rightarrow> mutex \<Rightarrow> mutex \<times> mpc" where
  "Lock_cas awoke old m =
     (if mstate m = old
      then (m\<lparr>mstate := Lock_new awoke old\<rparr>, if old AND mutexLocked = 0 then MHold else MSem)
      else (m, MLoad awoke))"

definition Semacquire :: "mutex \<Rightarrow> (mutex \<times> mpc) option" where
  "Semacquire m = (if 0 < msema m then Some (m\<lparr>msema := msema m - 1\<rparr>, MLoad True) else None)"

text \<open>Unlock.\<close>

definition Unlock_add :: "mutex \<Rightarrow> mutex \<times> mpc" where
  "Unlock_add m =
     (let new = mstate m - mutexLocked in
      (m\<lparr>mstate := new\<rparr>, if (new + mutexLocked) AND mutexLocked = 0 then MPanic else UTest new))"

definition Unlock_test :: "32 word \<Rightarrow> mutex \<Rightarrow> mutex \<times> mpc" where
  "Unlock_test old m =
     (m, if signed_drop_bit mutexWaiterShift old = 0 \<or> old AND (mutexLocked OR mutexWoken) \<noteq> 0
         then MIdle else UCas old)"

definition Unlock_cas :: "32 word \<Rightarrow> mutex \<Rightarrow> mutex \<times> mpc" where
  "Unlock_cas old m =
     (let new = (old - push_bit mutexWaiterShift 1) OR mutexWoken in
      if mstate m = old then (m\<lparr>mstate := new\<rparr>, USem) else (m, UReload))"

definition Unlock_reload :: "mutex \<Rightarrow> mutex \<times> mpc" where
  "Unlock_reload m = (m, UTest (mstate m))"

definition Semrelease :: "mutex \<Rightarrow> mutex \<times> mpc" where
  "Semrelease m = (m\<lparr>msema := msema m + 1\<rparr>, MIdle)"

text \<open>The next step of a goroutine. Idle goroutines call \<open>Lock\<close>, the holder calls \<open>Unlock\<close>.\<close>

fun mutex_next :: "unit \<Rightarrow> mpc \<Rightarrow> mutex \<Rightarrow> (mutex \<times> mpc) option" where
  "mutex_next _ MIdle m = Some (Lock_fast m)"
| "mutex_next _ (MLoad awoke) m = Some (Lock_load awoke m)"
| "mutex_next _ (MCas awoke old) m = Some (Lock_cas awoke old m)"
| "mutex_next _ MSem m = Semacquire m"
| "mutex_next _ MHold m = Some (Unlock_add m)"
| "mutex_next _ (UTest old) m = Some (Unlock_test old m)"
| "mutex_next _ (UCas old) m = Some (Unlock_cas old m)"
| "mutex_next _ UReload m = Some (Unlock_reload m)"
| "mutex_next _ USem m = Some (Semrelease m)"
| "mutex_next _ MPanic m = None"

definition zero_mutex :: mutex where
  "zero_mutex = \<lparr>mstate = 0, msema = 0\<rparr>"

abbreviation mutex_reach :: "nat \<Rightarrow> mutex \<Rightarrow> mpc list \<Rightarrow> bool" where
  "mutex_reach n \<equiv> treach mutex_next zero_mutex (replicate n MIdle)"

section \<open>The state word\<close>

definition pack :: "bool \<Rightarrow> bool \<Rightarrow> nat \<Rightarrow> 32 word" where
  "pack l k w = of_nat (of_bool l + 2 * (of_bool k + 2 * w))"

lemma bit_of_bool_double: "bit (of_bool b + 2 * (x :: nat)) n \<longleftrightarrow> (if n = 0 then b else bit x (n - 1))"
  by (cases n) (auto simp: bit_0 bit_Suc)

lemma pack_bit: "bit (pack l k w) n \<longleftrightarrow>
    n < 32 \<and> (if n = 0 then l else if n = 1 then k else bit w (n - 2))"
  unfolding pack_def
  by (simp only: bit_of_nat_iff possible_bit_word bit_of_bool_double) (auto simp: numeral_2_eq_2)

lemma flag_bits: "bit mutexLocked n \<longleftrightarrow> n = 0" "bit mutexWoken n \<longleftrightarrow> n = 1"
  by (auto simp: mutexLocked_def mutexWoken_def bit_simps)

lemma pack_or_locked: "pack l k w OR mutexLocked = pack True k w"
  by (rule bit_word_eqI) (auto simp: bit_simps pack_bit flag_bits)

lemma pack_not_woken: "pack l k w AND NOT mutexWoken = pack l False w"
  by (rule bit_word_eqI) (auto simp: bit_simps pack_bit flag_bits)

lemma pack_or_woken: "pack l k w OR mutexWoken = pack l True w"
  by (rule bit_word_eqI) (auto simp: bit_simps pack_bit flag_bits)

lemma pack_locked: "pack l k w AND mutexLocked = 0 \<longleftrightarrow> \<not> l"
proof -
  have "pack l k w AND mutexLocked = of_bool l"
    by (rule bit_word_eqI) (auto simp: bit_simps pack_bit flag_bits)
  then show ?thesis by simp
qed

lemma pack_flags: "pack l k w AND (mutexLocked OR mutexWoken) = 0 \<longleftrightarrow> \<not> l \<and> \<not> k"
proof -
  have "pack l k w AND (mutexLocked OR mutexWoken) = pack l k 0"
    by (rule bit_word_eqI) (auto simp: bit_simps pack_bit flag_bits)
  then show ?thesis by (auto simp: pack_def split: if_splits)
qed

lemma pack_add_waiter: "pack l k w + 2 ^ mutexWaiterShift = pack l k (Suc w)"
  by (simp add: pack_def mutexWaiterShift_def push_bit_eq_mult)

lemma pack_sub_waiter: "pack l k (Suc w) - 2 ^ mutexWaiterShift = pack l k w"
  by (simp add: pack_def mutexWaiterShift_def push_bit_eq_mult)

lemma pack_unlock: "pack True k w - mutexLocked = pack False k w" "pack False k w + mutexLocked = pack True k w"
  by (simp_all add: pack_def mutexLocked_def)

lemma high_bit: "w < 2 ^ 29 \<Longrightarrow> 29 \<le> n \<Longrightarrow> \<not> bit (w :: nat) n"
proof -
  assume "w < 2 ^ 29" "29 \<le> n"
  then have "w < 2 ^ n" using power_increasing [of 29 n "2 :: nat"] by linarith
  then show "\<not> bit w n" by (simp add: bit_iff_odd)
qed

lemma pack_waiters:
  assumes "w < 2 ^ 29"
  shows "signed_drop_bit mutexWaiterShift (pack l k w) = 0 \<longleftrightarrow> w = 0"
proof -
  have "signed_drop_bit mutexWaiterShift (pack l k w) = of_nat w"
    using high_bit [OF assms]
    by (intro bit_word_eqI) (auto simp: bit_simps pack_bit mutexWaiterShift_def)
  moreover have "(of_nat w :: 32 word) = 0 \<longleftrightarrow> w = 0"
    using assms
    by (auto simp: word_of_nat_eq_0_iff take_bit_nat_eq_self dest: dvd_imp_le)
  ultimately show ?thesis by simp
qed

lemma pack_nat_inject:
  "of_bool l + 2 * (of_bool k + 2 * w) = of_bool l' + 2 * (of_bool k' + 2 * (w' :: nat)) \<longleftrightarrow>
   l = l' \<and> k = k' \<and> w = w'"
  by (cases l; cases k; cases l'; cases k'; simp; presburger)

lemma pack_inject:
  assumes "w < 2 ^ 29" "w' < 2 ^ 29"
  shows "pack l k w = pack l' k' w' \<longleftrightarrow> l = l' \<and> k = k' \<and> w = w'"
proof -
  have u: "unat (pack l k w) = of_bool l + 2 * (of_bool k + 2 * w)" if "w < 2 ^ 29" for l k w
    unfolding pack_def using that
    by (simp only: unsigned_of_nat take_bit_nat_eq_self_iff) (auto simp: take_bit_nat_eq_self_iff)
  show ?thesis
    by (simp only: word_unat_eq_iff u [OF assms(1)] u [OF assms(2)] pack_nat_inject)
qed

section \<open>The invariant\<close>

text \<open>A token is the right of the woken bit: it passes from the unlocker through the semaphore to the
  waiter that wakes up. \<open>waking v\<close> are the unlockers that will yet look at the state \<open>v\<close>.\<close>

fun is_hold :: "mpc \<Rightarrow> bool" where
  "is_hold MHold = True"
| "is_hold _ = False"

fun is_tok :: "mpc \<Rightarrow> bool" where
  "is_tok (MLoad awoke) = awoke"
| "is_tok (MCas awoke old) = awoke"
| "is_tok USem = True"
| "is_tok _ = False"

fun is_usem :: "mpc \<Rightarrow> bool" where
  "is_usem USem = True"
| "is_usem _ = False"

fun is_sem :: "mpc \<Rightarrow> bool" where
  "is_sem MSem = True"
| "is_sem _ = False"

fun waking :: "32 word \<Rightarrow> mpc \<Rightarrow> bool" where
  "waking v (UTest old) = (old = v)"
| "waking v (UCas old) = (old = v)"
| "waking v UReload = True"
| "waking v _ = False"

text \<open>What the test of \<open>Unlock\<close> has established before the compare-and-swap.\<close>

fun is_bad :: "mpc \<Rightarrow> bool" where
  "is_bad (UCas old) =
     (signed_drop_bit mutexWaiterShift old = 0 \<or> old AND (mutexLocked OR mutexWoken) \<noteq> 0)"
| "is_bad MPanic = True"
| "is_bad _ = False"

definition mutex_inv :: "mutex \<Rightarrow> mpc list \<Rightarrow> bool" where
  "mutex_inv m ps \<longleftrightarrow>
     (\<exists>l k w. mstate m = pack l k w \<and> of_bool l = cnt is_hold ps \<and>
        of_bool k = cnt is_tok ps + msema m \<and> w + cnt is_usem ps + msema m = cnt is_sem ps \<and>
        (l \<or> k \<or> w = 0 \<or> 0 < cnt (waking (mstate m)) ps)) \<and>
     cnt is_bad ps = 0"

lemma mutex_invI:
  assumes "mstate m = pack l k w" "of_bool l = cnt is_hold ps" "of_bool k = cnt is_tok ps + msema m"
    "w + cnt is_usem ps + msema m = cnt is_sem ps" "l \<or> k \<or> w = 0 \<or> 0 < cnt (waking (mstate m)) ps"
    "cnt is_bad ps = 0"
  shows "mutex_inv m ps"
  using assms unfolding mutex_inv_def by blast

lemma zero_pack: "0 = pack False False 0"
  by (simp add: pack_def)

lemma mutex_inv_start: "mutex_inv zero_mutex (replicate n MIdle)"
  by (rule mutex_invI [of _ False False 0]) (simp_all add: zero_mutex_def zero_pack cnt_replicate)

text \<open>How each count changes when goroutine \<open>g\<close> moves from \<open>p\<close> to \<open>p'\<close>.\<close>

lemma mutex_counts:
  assumes "g < length ps"
  shows "cnt is_hold (ps[g := p']) + of_bool (is_hold (ps ! g)) = cnt is_hold ps + of_bool (is_hold p')"
    "cnt is_tok (ps[g := p']) + of_bool (is_tok (ps ! g)) = cnt is_tok ps + of_bool (is_tok p')"
    "cnt is_usem (ps[g := p']) + of_bool (is_usem (ps ! g)) = cnt is_usem ps + of_bool (is_usem p')"
    "cnt is_sem (ps[g := p']) + of_bool (is_sem (ps ! g)) = cnt is_sem ps + of_bool (is_sem p')"
    "cnt is_bad (ps[g := p']) + of_bool (is_bad (ps ! g)) = cnt is_bad ps + of_bool (is_bad p')"
    "cnt (waking v) (ps[g := p']) + of_bool (waking v (ps ! g)) = cnt (waking v) ps + of_bool (waking v p')"
  using cnt_update [OF assms] by blast+

lemma mutex_inv_step:
  assumes inv: "mutex_inv m ps" and g: "g < length ps" and n: "length ps < 2 ^ 29"
    and step: "mutex_next a (ps ! g) m = Some (m', p')"
  shows "mutex_inv m' (ps[g := p'])"
proof -
  obtain l k w where i: "mstate m = pack l k w" "of_bool l = cnt is_hold ps"
    "of_bool k = cnt is_tok ps + msema m" "w + cnt is_usem ps + msema m = cnt is_sem ps"
    "l \<or> k \<or> w = 0 \<or> 0 < cnt (waking (mstate m)) ps" "cnt is_bad ps = 0"
    using inv unfolding mutex_inv_def by blast
  have w: "w < 2 ^ 29" using i(4) cnt_le [of is_sem ps] n by simp
  note c = mutex_counts [OF g, where p' = p']
  show ?thesis
  proof (cases "ps ! g")
    case MIdle
    show ?thesis
    proof (cases "mstate m = 0")
      case True
      then have z: "\<not> l" "\<not> k" "w = 0"
        using pack_inject [of w 0 l k False False] w unfolding i(1) zero_pack by auto
      have "m' = m\<lparr>mstate := pack True False 0\<rparr>" "p' = MHold"
        using step MIdle True by (auto simp: Lock_fast_def mutexLocked_def pack_def)
      then show ?thesis
        using i z c MIdle by (intro mutex_invI [of _ True False 0]) simp_all
    next
      case False
      then have "m' = m" "p' = MLoad False" using step MIdle by (auto simp: Lock_fast_def)
      then show ?thesis using i c MIdle by (intro mutex_invI [of _ l k w]) simp_all
    qed
  next
    case (MLoad awoke)
    then have "m' = m" "p' = MCas awoke (mstate m)" using step by (auto simp: Lock_load_def)
    then show ?thesis using i c MLoad by (intro mutex_invI [of _ l k w]) simp_all
  next
    case (MCas awoke old)
    show ?thesis
    proof (cases "mstate m = old")
      case False
      then have "m' = m" "p' = MLoad awoke" using step MCas by (auto simp: Lock_cas_def)
      then show ?thesis using i c MCas by (intro mutex_invI [of _ l k w]) simp_all
    next
      case True
      define k' where "k' = (k \<and> \<not> awoke)"
      define w' where "w' = (if l then Suc w else w)"
      have new: "Lock_new awoke (pack l k w) = pack True k' w'"
        by (simp add: Lock_new_def Let_def pack_locked pack_add_waiter pack_or_locked pack_not_woken k'_def w'_def)
      have m': "m' = m\<lparr>mstate := pack True k' w'\<rparr>" "p' = (if l then MSem else MHold)"
        using step MCas True new i(1) by (auto simp: Lock_cas_def pack_locked)
      have k: "k" if awoke using that i(3) cnt_pos [OF g, of is_tok] MCas by (cases k) auto
      show ?thesis
        by (rule mutex_invI [of _ True k' w'])
          (use i c MCas m' k in \<open>auto simp: k'_def w'_def split: if_splits\<close>)
    qed
  next
    case MSem
    then have "m' = m\<lparr>msema := msema m - 1\<rparr>" "p' = MLoad True" "0 < msema m"
      using step by (auto simp: Semacquire_def split: if_splits)
    then show ?thesis using i c MSem by (intro mutex_invI [of _ l k w]) simp_all
  next
    case MHold
    then have l: "l" using i(2) cnt_pos [OF g, of is_hold] by (cases l) auto
    then have m': "m' = m\<lparr>mstate := pack False k w\<rparr>" "p' = UTest (pack False k w)"
      using step MHold i(1) by (auto simp: Unlock_add_def Let_def pack_unlock pack_locked)
    show ?thesis
      using i c(1-5) c(6) [where v = "pack False k w"] MHold m' l by (intro mutex_invI [of _ False k w]) auto
  next
    case (UTest old)
    have m': "m' = m" "p' = (if signed_drop_bit mutexWaiterShift old = 0 \<or>
        old AND (mutexLocked OR mutexWoken) \<noteq> 0 then MIdle else UCas old)"
      using step UTest by (auto simp: Unlock_test_def)
    have t: "p' = (if w = 0 \<or> l \<or> k then MIdle else UCas old)" if "old = mstate m"
      using m'(2) that i(1) pack_waiters [OF w] pack_flags by auto
    have "l \<or> k \<or> w = 0 \<or> 0 < cnt (waking (mstate m)) (ps[g := p'])"
    proof (cases "old = mstate m")
      case True
      then show ?thesis using i(5) t c(6) [where v = "mstate m"] UTest by auto
    next
      case False
      then show ?thesis using i(5) m'(2) c(6) [where v = "mstate m"] UTest by auto
    qed
    then show ?thesis using i c UTest m' by (intro mutex_invI [of _ l k w]) (auto split: if_splits)
  next
    case (UCas old)
    show ?thesis
    proof (cases "mstate m = old")
      case False
      then have "m' = m" "p' = UReload" using step UCas by (auto simp: Unlock_cas_def)
      then show ?thesis
        using i c(1-5) c(6) [where v = "mstate m"] UCas False by (intro mutex_invI [of _ l k w]) auto
    next
      case True
      have "\<not> is_bad (ps ! g)" using i(6) g by (simp add: cnt_zero)
      then have z: "\<not> l" "\<not> k" "w \<noteq> 0"
        using UCas True i(1) pack_waiters [OF w] pack_flags by auto
      then obtain w0 where w0: "w = Suc w0" by (cases w) auto
      have "m' = m\<lparr>mstate := pack False True w0\<rparr>" "p' = USem"
        using step UCas True i(1) z w0 by (auto simp: Unlock_cas_def Let_def pack_sub_waiter pack_or_woken)
      then show ?thesis using i c UCas z w0 by (intro mutex_invI [of _ False True w0]) simp_all
    qed
  next
    case UReload
    then have "m' = m" "p' = UTest (mstate m)" using step by (auto simp: Unlock_reload_def)
    then show ?thesis
      using i c(1-5) c(6) [where v = "mstate m"] UReload by (intro mutex_invI [of _ l k w]) auto
  next
    case USem
    then have "m' = m\<lparr>msema := msema m + 1\<rparr>" "p' = MIdle" using step by (auto simp: Semrelease_def)
    then show ?thesis using i c USem by (intro mutex_invI [of _ l k w]) simp_all
  next
    case MPanic
    then show ?thesis using step by simp
  qed
qed

lemma mutex_reach_inv:
  assumes "mutex_reach n m ps" "n < 2 ^ 29"
  shows "mutex_inv m ps"
  using assms(1)
proof (induction rule: treach.induct)
  case treach_start
  then show ?case by (rule mutex_inv_start)
next
  case (treach_step m ps g a m' p')
  have "length ps < 2 ^ 29" using treach_length [OF treach_step.hyps(1)] assms(2) by simp
  then show ?case using mutex_inv_step [OF treach_step.IH treach_step.hyps(2) _ treach_step.hyps(3)] by blast
qed

lemma mutex_inv_bounds:
  assumes "mutex_inv m ps"
  shows "cnt is_hold ps \<le> 1" "mstate m AND mutexLocked = 0 \<longleftrightarrow> cnt is_hold ps = 0" "MPanic \<notin> set ps"
proof -
  obtain l k w where i: "mstate m = pack l k w" "of_bool l = cnt is_hold ps" "cnt is_bad ps = 0"
    using assms unfolding mutex_inv_def by blast
  show "cnt is_hold ps \<le> 1" using i(2) by (cases l) auto
  show "mstate m AND mutexLocked = 0 \<longleftrightarrow> cnt is_hold ps = 0" using i by (cases l) (auto simp: pack_locked)
  show "MPanic \<notin> set ps" using i(3) by (auto simp: cnt_zero)
qed

section \<open>A mutex is a lock\<close>

text \<open>The abstract lock: who holds it. Goroutines are numbered by their place in the list.\<close>

definition lock_owner :: "mpc list \<Rightarrow> nat option" where
  "lock_owner ps = (if cnt is_hold ps = 0 then None else Some (LEAST g. g < length ps \<and> is_hold (ps ! g)))"

lemma lock_owner_Some:
  assumes "cnt is_hold ps \<le> 1"
  shows "lock_owner ps = Some g \<longleftrightarrow> g < length ps \<and> is_hold (ps ! g)"
proof
  assume g: "g < length ps \<and> is_hold (ps ! g)"
  have "h = g" if "h < length ps \<and> is_hold (ps ! h)" for h
  proof (rule ccontr)
    assume "h \<noteq> g"
    then have "2 \<le> cnt is_hold ps" using cnt_two [of h ps g is_hold] that g by simp
    then show False using assms by simp
  qed
  then have "\<And>h. h < length ps \<and> is_hold (ps ! h) \<Longrightarrow> g \<le> h" by simp
  with g have "(LEAST h. h < length ps \<and> is_hold (ps ! h)) = g" by (rule Least_equality)
  moreover have "0 < cnt is_hold ps" using g cnt_pos [of g ps is_hold] by blast
  ultimately show "lock_owner ps = Some g" unfolding lock_owner_def by simp
next
  assume o: "lock_owner ps = Some g"
  then have "0 < cnt is_hold ps" by (auto simp: lock_owner_def split: if_splits)
  then have "\<exists>h. h < length ps \<and> is_hold (ps ! h)" by (auto simp: cnt_def filter_empty_conv in_set_conv_nth)
  then show "g < length ps \<and> is_hold (ps ! g)"
    using o LeastI_ex [of "\<lambda>h. h < length ps \<and> is_hold (ps ! h)"] by (auto simp: lock_owner_def split: if_splits)
qed

lemma lock_owner_None: "lock_owner ps = None \<longleftrightarrow> cnt is_hold ps = 0"
  by (simp add: lock_owner_def)

lemma lock_owner_cong:
  assumes "length ps' = length ps" "\<And>h. h < length ps \<Longrightarrow> is_hold (ps' ! h) = is_hold (ps ! h)"
  shows "lock_owner ps' = lock_owner ps"
proof -
  have "map is_hold ps' = map is_hold ps" using assms by (intro nth_equalityI) auto
  then have "filter id (map is_hold ps') = filter id (map is_hold ps)" by simp
  then have "cnt is_hold ps' = cnt is_hold ps"
    by (metis cnt_def filter_map id_comp length_map)
  moreover have "(\<lambda>g. g < length ps' \<and> is_hold (ps' ! g)) = (\<lambda>g. g < length ps \<and> is_hold (ps ! g))"
    using assms by auto
  ultimately show ?thesis by (simp add: lock_owner_def)
qed

section \<open>Properties\<close>

text \<open>C23: mutual exclusion: whatever the interleaving of the atomic operations of any number of
  goroutines (fewer than \<open>2^29\<close>, the capacity of the waiter count), at most one has returned from
  \<open>Lock\<close> and not yet called \<open>Unlock\<close>; the locked bit tells whether one has; no \<open>Unlock\<close> of a
  holder panics, and an \<open>Unlock\<close> when there is none does.\<close>

theorem mutex_exclusion:
  assumes "mutex_reach n m ps" and "n < 2 ^ 29"
  shows "cnt is_hold ps \<le> 1 \<and> (mstate m AND mutexLocked = 0 \<longleftrightarrow> cnt is_hold ps = 0) \<and> MPanic \<notin> set ps \<and>
    (snd (Unlock_add m) = MPanic \<longleftrightarrow> cnt is_hold ps = 0)"
  using mutex_inv_bounds [OF mutex_reach_inv [OF assms]] by (simp add: Unlock_add_def Let_def)

text \<open>A run of two goroutines: the second finds the mutex locked and goes to sleep; the first
  unlocks and is about to wake it.\<close>

definition demo_sched :: "(unit \<times> nat) list" where
  "demo_sched = map (Pair ()) [0, 1, 1, 1, 0, 0, 0]"

lemma demo_mutex:
  "trun mutex_next demo_sched zero_mutex (replicate 2 MIdle) = Some (\<lparr>mstate = 2, msema = 0\<rparr>, [USem, MSem])"
  by (simp add: demo_sched_def zero_mutex_def numeral_2_eq_2 Lock_fast_def Lock_load_def Lock_cas_def Lock_new_def
      Unlock_add_def Unlock_test_def Unlock_cas_def mutexLocked_def mutexWoken_def mutexWaiterShift_def Let_def)

theorem mutex_exclusion_witness:
  "cnt is_hold [USem, MSem] \<le> 1 \<and> (2 AND mutexLocked = 0 \<longleftrightarrow> cnt is_hold [USem, MSem] = 0)"
  using mutex_exclusion [OF trun_treach [OF demo_mutex]] by simp

text \<open>C24: no wake-up is lost: as long as a goroutine sleeps in \<open>Lock\<close>, some goroutine that is not
  idle can take a step: the holder, one on its way through \<open>Lock\<close> or \<open>Unlock\<close>, or a sleeper whose
  semaphore has been released. So goroutines that all unlock what they lock never deadlock on a mutex.\<close>

theorem mutex_no_lost_wakeup:
  assumes "mutex_reach n m ps" and "n < 2 ^ 29" and "MSem \<in> set ps"
  shows "\<exists>p \<in> set ps. p \<noteq> MIdle \<and> mutex_next () p m \<noteq> None"
proof -
  obtain l k w where i: "of_bool l = cnt is_hold ps" "of_bool k = cnt is_tok ps + msema m"
    "w + cnt is_usem ps + msema m = cnt is_sem ps" "l \<or> k \<or> w = 0 \<or> 0 < cnt (waking (mstate m)) ps"
    using mutex_reach_inv [OF assms(1,2)] unfolding mutex_inv_def by blast
  have found: "\<exists>p \<in> set ps. P p" if "0 < cnt P ps" for P
    using that by (auto simp: cnt_def filter_empty_conv)
  have able: "mutex_next () p m \<noteq> None" "p \<noteq> MIdle"
    if "is_hold p \<or> is_tok p \<or> is_usem p \<or> waking (mstate m) p" for p
    using that by (cases p; simp)+
  show ?thesis
  proof (cases "0 < msema m")
    case True
    then show ?thesis using assms(3) by (intro bexI [of _ MSem]) (simp_all add: Semacquire_def)
  next
    case False
    have "0 < cnt is_sem ps" using assms(3) cnt_zero [of is_sem ps] by auto
    then have "0 < cnt is_hold ps \<or> 0 < cnt is_tok ps \<or> 0 < cnt is_usem ps \<or> 0 < cnt (waking (mstate m)) ps"
      using i False by (cases l; cases k) auto
    then obtain p where "p \<in> set ps" "is_hold p \<or> is_tok p \<or> is_usem p \<or> waking (mstate m) p"
      using found by blast
    then show ?thesis using able by blast
  qed
qed

theorem mutex_no_lost_wakeup_witness:
  "\<exists>p \<in> set [USem, MSem]. p \<noteq> MIdle \<and> mutex_next () p \<lparr>mstate = 2, msema = 0\<rparr> \<noteq> None"
  by (rule mutex_no_lost_wakeup [OF trun_treach [OF demo_mutex]]) simp_all

text \<open>Seen from outside, a mutex is an atomic lock whose owner is the goroutine that locked it last. Every step
  of every goroutine leaves the owner alone, or takes the free lock for the goroutine that moves, or frees the
  lock that this goroutine owns; that no other goroutine frees it is how \<open>mutex_next\<close> restricts the clients.\<close>

theorem mutex_refines_lock:
  assumes "mutex_reach n m ps" and "n < 2 ^ 29"
    and "g < n" and "mutex_next a (ps ! g) m = Some (m', p')"
  shows "(lock_owner (ps[g := p']) = lock_owner ps \<and> (p' = MHold \<longleftrightarrow> ps ! g = MHold)) \<or>
    (lock_owner ps = None \<and> lock_owner (ps[g := p']) = Some g \<and> p' = MHold) \<or>
    (lock_owner ps = Some g \<and> lock_owner (ps[g := p']) = None \<and> ps ! g = MHold)"
proof -
  let ?ps = "ps[g := p']"
  have g: "g < length ps" using treach_length [OF assms(1)] assms(3) by simp
  have r: "mutex_reach n m' ?ps" using assms(1) g assms(4) by (rule treach_step)
  have le: "cnt is_hold ps \<le> 1" "cnt is_hold ?ps \<le> 1"
    using mutex_inv_bounds(1) [OF mutex_reach_inv [OF assms(1,2)]] mutex_inv_bounds(1) [OF mutex_reach_inv [OF r assms(2)]] .
  have h: "is_hold p \<longleftrightarrow> p = MHold" for p by (cases p) auto
  have c: "cnt is_hold ?ps + of_bool (ps ! g = MHold) = cnt is_hold ps + of_bool (p' = MHold)"
    using mutex_counts(1) [OF g, of p'] by (simp add: h)
  have oS: "lock_owner ps = Some g \<longleftrightarrow> ps ! g = MHold" "lock_owner ?ps = Some g \<longleftrightarrow> p' = MHold"
    using lock_owner_Some [OF le(1)] lock_owner_Some [OF le(2)] g h by auto
  consider "p' = MHold \<longleftrightarrow> ps ! g = MHold" | "p' = MHold" "ps ! g \<noteq> MHold" | "p' \<noteq> MHold" "ps ! g = MHold" by blast
  then show ?thesis
  proof cases
    case 1
    have "lock_owner ?ps = lock_owner ps"
      by (rule lock_owner_cong) (use 1 g h in \<open>auto simp: nth_list_update\<close>)
    then show ?thesis using 1 by blast
  next
    case 2
    then have "lock_owner ps = None" using c le by (simp add: lock_owner_None)
    then show ?thesis using 2 oS by blast
  next
    case 3
    then have "lock_owner ?ps = None" using c le by (simp add: lock_owner_None)
    then show ?thesis using 3 oS by blast
  qed
qed

theorem mutex_refines_lock_witness:
  "lock_owner [MIdle, MSem] = lock_owner [USem, MSem]"
  using mutex_refines_lock [OF trun_treach [OF demo_mutex], of 0 "()"]
  by (auto simp: Semrelease_def lock_owner_def)

end
