(* ===== verification/Go_RWMutex.thy ===== *)
theory Go_RWMutex
  imports Go_Threads
begin

text \<open>
  sync.RWMutex (src/sync/rwmutex.go): readers count themselves in \<open>readerCount\<close>; a writer that holds
  the mutex \<open>w\<close> announces itself by subtracting \<open>rwmutexMaxReaders\<close> and waits until the readers that
  were active have counted \<open>readerWait\<close> down. Every atomic operation is a step. The mutex \<open>w\<close> is an
  atomic lock, which is what \<open>mutex_refines_lock\<close> of \<open>Go_Mutex\<close> proves of sync.Mutex; the semaphores
  are as src/sync/runtime.go documents them. The counters are 32 bit words.
\<close>

section \<open>The code\<close>

definition rwmutexMaxReaders :: "32 word" where
  "rwmutexMaxReaders = 1073741824"

record rwmutex =
  rw_w :: bool
  writerSem :: nat
  readerSem :: nat
  readerCount :: "32 word"
  readerWait :: "32 word"

datatype rwpc =
    RWIdle
  | RSem                    \<comment> \<open>RLock: in \<open>runtime_Semacquire(&rw.readerSem)\<close>\<close>
  | RHold                   \<comment> \<open>RLock has returned\<close>
  | RUWait                  \<comment> \<open>RUnlock: before the decrement of \<open>readerWait\<close>\<close>
  | RURel                   \<comment> \<open>RUnlock: before \<open>runtime_Semrelease(&rw.writerSem)\<close>\<close>
  | WLock                   \<comment> \<open>Lock: in \<open>rw.w.Lock()\<close>\<close>
  | WAnnounce               \<comment> \<open>Lock: before the addition to \<open>readerCount\<close>\<close>
  | WWait "32 word"         \<comment> \<open>Lock: before the addition of \<open>r\<close> to \<open>readerWait\<close>\<close>
  | WSem                    \<comment> \<open>Lock: in \<open>runtime_Semacquire(&rw.writerSem)\<close>\<close>
  | WHold                   \<comment> \<open>Lock has returned\<close>
  | WRel nat "32 word"      \<comment> \<open>Unlock: in the loop, with \<open>i\<close> and \<open>r\<close>\<close>
  | WUnlockW                \<comment> \<open>Unlock: before \<open>rw.w.Unlock()\<close>\<close>
  | RWPanic

definition RLock_add :: "rwmutex \<Rightarrow> rwmutex \<times> rwpc" where
  "RLock_add m =
     (let c = readerCount m + 1 in
      (m\<lparr>readerCount := c\<rparr>, if sint c < 0 then RSem else RHold))"

definition RLock_sem :: "rwmutex \<Rightarrow> (rwmutex \<times> rwpc) option" where
  "RLock_sem m = (if 0 < readerSem m then Some (m\<lparr>readerSem := readerSem m - 1\<rparr>, RHold) else None)"

definition RUnlock_add :: "rwmutex \<Rightarrow> rwmutex \<times> rwpc" where
  "RUnlock_add m =
     (let r = readerCount m - 1 in
      (m\<lparr>readerCount := r\<rparr>,
       if sint r < 0
       then if r + 1 = 0 \<or> r + 1 = - rwmutexMaxReaders then RWPanic else RUWait
       else RWIdle))"

definition RUnlock_wait :: "rwmutex \<Rightarrow> rwmutex \<times> rwpc" where
  "RUnlock_wait m =
     (let c = readerWait m - 1 in
      (m\<lparr>readerWait := c\<rparr>, if c = 0 then RURel else RWIdle))"

definition RUnlock_release :: "rwmutex \<Rightarrow> rwmutex \<times> rwpc" where
  "RUnlock_release m = (m\<lparr>writerSem := writerSem m + 1\<rparr>, RWIdle)"

definition WLock_w :: "rwmutex \<Rightarrow> (rwmutex \<times> rwpc) option" where
  "WLock_w m = (if rw_w m then None else Some (m\<lparr>rw_w := True\<rparr>, WAnnounce))"

definition WLock_announce :: "rwmutex \<Rightarrow> rwmutex \<times> rwpc" where
  "WLock_announce m =
     (let c = readerCount m - rwmutexMaxReaders;
          r = c + rwmutexMaxReaders
      in (m\<lparr>readerCount := c\<rparr>, if r \<noteq> 0 then WWait r else WHold))"

definition WLock_wait :: "32 word \<Rightarrow> rwmutex \<Rightarrow> rwmutex \<times> rwpc" where
  "WLock_wait r m =
     (let c = readerWait m + r in
      (m\<lparr>readerWait := c\<rparr>, if c \<noteq> 0 then WSem else WHold))"

definition WLock_sem :: "rwmutex \<Rightarrow> (rwmutex \<times> rwpc) option" where
  "WLock_sem m = (if 0 < writerSem m then Some (m\<lparr>writerSem := writerSem m - 1\<rparr>, WHold) else None)"

definition WUnlock_add :: "rwmutex \<Rightarrow> rwmutex \<times> rwpc" where
  "WUnlock_add m =
     (let r = readerCount m + rwmutexMaxReaders in
      (m\<lparr>readerCount := r\<rparr>, if sint r \<ge> sint rwmutexMaxReaders then RWPanic else WRel 0 r))"

definition WUnlock_release :: "nat \<Rightarrow> 32 word \<Rightarrow> rwmutex \<Rightarrow> rwmutex \<times> rwpc" where
  "WUnlock_release i r m =
     (if int i < sint r then (m\<lparr>readerSem := readerSem m + 1\<rparr>, WRel (i + 1) r) else (m, WUnlockW))"

definition WUnlock_w :: "rwmutex \<Rightarrow> rwmutex \<times> rwpc" where
  "WUnlock_w m = (m\<lparr>rw_w := False\<rparr>, RWIdle)"

text \<open>An idle goroutine becomes a reader or a writer, as its client chooses.\<close>

datatype rwcall = CallRLock | CallLock

fun rw_next :: "rwcall \<Rightarrow> rwpc \<Rightarrow> rwmutex \<Rightarrow> (rwmutex \<times> rwpc) option" where
  "rw_next CallRLock RWIdle m = Some (RLock_add m)"
| "rw_next CallLock RWIdle m = Some (m, WLock)"
| "rw_next _ RSem m = RLock_sem m"
| "rw_next _ RHold m = Some (RUnlock_add m)"
| "rw_next _ RUWait m = Some (RUnlock_wait m)"
| "rw_next _ RURel m = Some (RUnlock_release m)"
| "rw_next _ WLock m = WLock_w m"
| "rw_next _ WAnnounce m = Some (WLock_announce m)"
| "rw_next _ (WWait r) m = Some (WLock_wait r m)"
| "rw_next _ WSem m = WLock_sem m"
| "rw_next _ WHold m = Some (WUnlock_add m)"
| "rw_next _ (WRel i r) m = Some (WUnlock_release i r m)"
| "rw_next _ WUnlockW m = Some (WUnlock_w m)"
| "rw_next _ RWPanic m = None"

definition zero_rwmutex :: rwmutex where
  "zero_rwmutex = \<lparr>rw_w = False, writerSem = 0, readerSem = 0, readerCount = 0, readerWait = 0\<rparr>"

abbreviation rw_reach :: "nat \<Rightarrow> rwmutex \<Rightarrow> rwpc list \<Rightarrow> bool" where
  "rw_reach n \<equiv> treach rw_next zero_rwmutex (replicate n RWIdle)"

section \<open>The invariant\<close>

text \<open>Of the goroutines that hold \<open>w\<close> (there is at most one) the invariant distinguishes the phases:
  not announced, announced and adding to \<open>readerWait\<close>, waiting, holding, and letting readers go.\<close>

fun is_rhold :: "rwpc \<Rightarrow> bool" where
  "is_rhold RHold = True" | "is_rhold _ = False"
fun is_rsem :: "rwpc \<Rightarrow> bool" where
  "is_rsem RSem = True" | "is_rsem _ = False"
fun is_ruwait :: "rwpc \<Rightarrow> bool" where
  "is_ruwait RUWait = True" | "is_ruwait _ = False"
fun is_rurel :: "rwpc \<Rightarrow> bool" where
  "is_rurel RURel = True" | "is_rurel _ = False"
fun is_whold :: "rwpc \<Rightarrow> bool" where
  "is_whold WHold = True" | "is_whold _ = False"
fun is_rwpanic :: "rwpc \<Rightarrow> bool" where
  "is_rwpanic RWPanic = True" | "is_rwpanic _ = False"

fun has_w :: "rwpc \<Rightarrow> bool" where
  "has_w WAnnounce = True"
| "has_w (WWait r) = True"
| "has_w WSem = True"
| "has_w WHold = True"
| "has_w (WRel i r) = True"
| "has_w WUnlockW = True"
| "has_w _ = False"

text \<open>The phase that the owner of \<open>w\<close> demands of the counters: \<open>A\<close> active readers (holding, or with
  a permit of \<open>readerSem\<close>), \<open>B\<close> sleeping readers without a permit, \<open>D\<close> readers about to count
  down, \<open>L\<close> about to release the writer.\<close>

fun rw_phase :: "rwpc \<Rightarrow> rwmutex \<Rightarrow> int \<Rightarrow> int \<Rightarrow> nat \<Rightarrow> nat \<Rightarrow> bool" where
  "rw_phase (WWait r) m A B D L \<longleftrightarrow>
     sint (readerCount m) = A + B - 2 ^ 30 \<and> 0 \<le> B \<and> L = 0 \<and> writerSem m = 0 \<and>
     A + int D = sint r + sint (readerWait m) \<and> sint (readerWait m) \<le> 0 \<and> 0 < sint r \<and> sint r < 2 ^ 30"
| "rw_phase WSem m A B D L \<longleftrightarrow>
     sint (readerCount m) = A + B - 2 ^ 30 \<and> 0 \<le> B \<and> A + int D = sint (readerWait m) \<and>
     L + writerSem m = of_bool (sint (readerWait m) = 0)"
| "rw_phase WHold m A B D L \<longleftrightarrow>
     sint (readerCount m) = A + B - 2 ^ 30 \<and> 0 \<le> B \<and> A = 0 \<and> D = 0 \<and> L = 0 \<and> writerSem m = 0 \<and> sint (readerWait m) = 0"
| "rw_phase (WRel i r) m A B D L \<longleftrightarrow>
     sint (readerCount m) = A + B \<and> B = sint r - int i \<and> 0 \<le> B \<and> D = 0 \<and> L = 0 \<and> writerSem m = 0 \<and> sint (readerWait m) = 0"
| "rw_phase _ m A B D L \<longleftrightarrow>
     sint (readerCount m) = A + B \<and> B = 0 \<and> D = 0 \<and> L = 0 \<and> writerSem m = 0 \<and> sint (readerWait m) = 0"

definition rw_phase_of :: "rwpc \<Rightarrow> rwmutex \<Rightarrow> rwpc list \<Rightarrow> bool" where
  "rw_phase_of o' m ps \<longleftrightarrow>
     rw_phase o' m (int (cnt is_rhold ps) + int (readerSem m)) (int (cnt is_rsem ps) - int (readerSem m))
       (cnt is_ruwait ps) (cnt is_rurel ps)"

definition rw_inv :: "rwmutex \<Rightarrow> rwpc list \<Rightarrow> bool" where
  "rw_inv m ps \<longleftrightarrow>
     cnt is_rwpanic ps = 0 \<and> cnt has_w ps = of_bool (rw_w m) \<and>
     (\<exists>o'. (if rw_w m then o' \<in> set ps \<and> has_w o' else o' = RWIdle) \<and> rw_phase_of o' m ps)"

lemma rw_inv_start: "rw_inv zero_rwmutex (replicate n RWIdle)"
  by (simp add: rw_inv_def rw_phase_of_def zero_rwmutex_def cnt_replicate)

lemma sint32_add:
  "- (2 ^ 31) \<le> sint a + sint b \<Longrightarrow> sint a + sint b < 2 ^ 31 \<Longrightarrow> sint (a + b :: 32 word) = sint a + sint b"
  by (simp add: sint_word_ariths signed_take_bit_int_eq_self)

lemma sint32_sub:
  "- (2 ^ 31) \<le> sint a - sint b \<Longrightarrow> sint a - sint b < 2 ^ 31 \<Longrightarrow> sint (a - b :: 32 word) = sint a - sint b"
  by (simp add: sint_word_ariths signed_take_bit_int_eq_self)

lemma sint_maxReaders: "sint rwmutexMaxReaders = 2 ^ 30"
  by (simp add: rwmutexMaxReaders_def)

lemma sint32_zero: "(w :: 32 word) = 0 \<longleftrightarrow> sint w = 0"
  by (metis signed_0 signed_word_eqI)

lemma rw_update:
  assumes "g < length ps"
  shows "cnt is_rhold (ps[g := p']) + of_bool (is_rhold (ps ! g)) = cnt is_rhold ps + of_bool (is_rhold p')"
    "cnt is_rsem (ps[g := p']) + of_bool (is_rsem (ps ! g)) = cnt is_rsem ps + of_bool (is_rsem p')"
    "cnt is_ruwait (ps[g := p']) + of_bool (is_ruwait (ps ! g)) = cnt is_ruwait ps + of_bool (is_ruwait p')"
    "cnt is_rurel (ps[g := p']) + of_bool (is_rurel (ps ! g)) = cnt is_rurel ps + of_bool (is_rurel p')"
    "cnt is_rwpanic (ps[g := p']) + of_bool (is_rwpanic (ps ! g)) = cnt is_rwpanic ps + of_bool (is_rwpanic p')"
    "cnt has_w (ps[g := p']) + of_bool (has_w (ps ! g)) = cnt has_w ps + of_bool (has_w p')"
  using cnt_update [OF assms] by blast+

text \<open>A step of a goroutine that neither holds nor gets \<open>w\<close>: only the phase has to be kept.\<close>

lemma rw_inv_reader:
  assumes "rw_inv m ps" "g < length ps" "\<not> has_w (ps ! g)" "\<not> has_w p'" "\<not> is_rwpanic p'" "rw_w m' = rw_w m"
    and "\<And>o'. has_w o' \<or> o' = RWIdle \<Longrightarrow> rw_phase_of o' m ps \<Longrightarrow> rw_phase_of o' m' (ps[g := p'])"
  shows "rw_inv m' (ps[g := p'])"
proof -
  obtain o' where o': "if rw_w m then o' \<in> set ps \<and> has_w o' else o' = RWIdle" "rw_phase_of o' m ps"
    using assms(1) by (auto simp: rw_inv_def)
  have "o' \<in> set (ps[g := p'])" if w: "rw_w m"
  proof -
    obtain h where "h < length ps" "ps ! h = o'" "has_w o'" using o'(1) w by (auto simp: in_set_conv_nth)
    moreover then have "h \<noteq> g" using assms(3) by auto
    ultimately show ?thesis by (metis length_list_update nth_list_update_neq nth_mem)
  qed
  then have "if rw_w m' then o' \<in> set (ps[g := p']) \<and> has_w o' else o' = RWIdle"
    using o'(1) assms(6) by (auto split: if_splits)
  moreover have "rw_phase_of o' m' (ps[g := p'])" using assms(7) o' by (auto split: if_splits)
  moreover have "cnt is_rwpanic (ps[g := p']) = 0" "cnt has_w (ps[g := p']) = of_bool (rw_w m')"
    using rw_update(5,6) [OF assms(2), of p'] assms(1,3-6) by (simp_all add: rw_inv_def)
  ultimately show ?thesis unfolding rw_inv_def by blast
qed

text \<open>A step of the goroutine that holds \<open>w\<close>, or gets it: the phase becomes that of \<open>p'\<close>.\<close>

lemma rw_inv_writer:
  assumes "rw_inv m ps" "g < length ps" "has_w (ps ! g)" "has_w p'" "rw_w m' = rw_w m"
    and "rw_phase_of (ps ! g) m ps \<Longrightarrow> rw_phase_of p' m' (ps[g := p'])"
  shows "rw_inv m' (ps[g := p'])"
proof -
  have c: "cnt has_w ps = of_bool (rw_w m)" "cnt is_rwpanic ps = 0" using assms(1) by (auto simp: rw_inv_def)
  have w: "rw_w m" using cnt_pos [of g ps has_w] assms(2,3) c by (cases "rw_w m") auto
  obtain o' where o': "o' \<in> set ps" "has_w o'" "rw_phase_of o' m ps"
    using assms(1) w by (auto simp: rw_inv_def)
  obtain h where h: "h < length ps" "ps ! h = o'" using o'(1) by (auto simp: in_set_conv_nth)
  have "h = g"
  proof (rule ccontr)
    assume "h \<noteq> g"
    then have "2 \<le> cnt has_w ps" using cnt_two [of h ps g has_w] h o'(2) assms(2,3) by simp
    then show False using c w by simp
  qed
  then have "rw_phase_of p' m' (ps[g := p'])" using assms(6) h o'(3) by simp
  moreover have "p' \<in> set (ps[g := p'])" using assms(2) by (rule set_update_memI)
  moreover have "\<not> is_rwpanic p'" using assms(4) by (cases p') auto
  then have "cnt is_rwpanic (ps[g := p']) = 0" "cnt has_w (ps[g := p']) = of_bool (rw_w m')"
    using rw_update(5,6) [OF assms(2), of p'] c assms(3-5) by simp_all
  ultimately show ?thesis using w assms(4,5) unfolding rw_inv_def by auto
qed

text \<open>Bounds: fewer than \<open>2^30\<close> goroutines, so that no counter leaves its range.\<close>

lemma rw_bounds:
  assumes "length ps < 2 ^ 30"
  shows "cnt is_rhold ps + cnt is_rsem ps + cnt is_ruwait ps < 2 ^ 30"
proof -
  have "cnt is_rhold ps + cnt is_rsem ps + cnt is_ruwait ps \<le> length ps"
  proof (induction ps)
    case (Cons p ps)
    then show ?case by (cases p) auto
  qed simp
  then show ?thesis using assms by simp
qed

lemma rw_inv_get_w:
  assumes "rw_inv m ps" "g < length ps" "ps ! g = WLock" "\<not> rw_w m"
  shows "rw_inv (m\<lparr>rw_w := True\<rparr>) (ps[g := WAnnounce])"
proof -
  have "WAnnounce \<in> set (ps[g := WAnnounce])" using assms(2) by (rule set_update_memI)
  moreover have "rw_phase_of WAnnounce (m\<lparr>rw_w := True\<rparr>) (ps[g := WAnnounce])"
    using assms rw_update [OF assms(2), of WAnnounce] by (simp add: rw_inv_def rw_phase_of_def)
  ultimately show ?thesis
    using assms rw_update(5,6) [OF assms(2), of WAnnounce] by (auto simp: rw_inv_def)
qed

lemma rw_inv_put_w:
  assumes "rw_inv m ps" "g < length ps" "ps ! g = WUnlockW"
  shows "rw_inv (m\<lparr>rw_w := False\<rparr>) (ps[g := RWIdle])"
proof -
  have "rw_inv m (ps[g := WUnlockW])" using assms by (metis list_update_id)
  have c: "cnt has_w ps = of_bool (rw_w m)" "cnt is_rwpanic ps = 0" using assms(1) by (auto simp: rw_inv_def)
  have w: "rw_w m" using cnt_pos [of g ps has_w] assms(2,3) c by (cases "rw_w m") auto
  obtain o' where o': "o' \<in> set ps" "has_w o'" "rw_phase_of o' m ps"
    using assms(1) w by (auto simp: rw_inv_def)
  obtain h where h: "h < length ps" "ps ! h = o'" using o'(1) by (auto simp: in_set_conv_nth)
  have "h = g"
  proof (rule ccontr)
    assume "h \<noteq> g"
    then have "2 \<le> cnt has_w ps" using cnt_two [of h ps g has_w] h o'(2) assms(2,3) by simp
    then show False using c w by simp
  qed
  then have "rw_phase_of RWIdle (m\<lparr>rw_w := False\<rparr>) (ps[g := RWIdle])"
    using h o'(3) assms(3) rw_update [OF assms(2), of RWIdle] by (simp add: rw_phase_of_def)
  then show ?thesis
    using rw_update(5,6) [OF assms(2), of RWIdle] assms(3) c w by (auto simp: rw_inv_def)
qed

text \<open>In every phase the sum of the readers is what the counter shows, up to the announcement.\<close>

lemma rw_phase_count:
  assumes "rw_phase_of o' m ps"
  shows "sint (readerCount m) = int (cnt is_rhold ps) + int (cnt is_rsem ps) \<or>
         sint (readerCount m) = int (cnt is_rhold ps) + int (cnt is_rsem ps) - 2 ^ 30"
  using assms by (cases o') (auto simp: rw_phase_of_def)

lemma rw_inv_step:
  assumes inv: "rw_inv m ps" and g: "g < length ps" and n: "length ps < 2 ^ 30"
    and step: "rw_next a (ps ! g) m = Some (m', p')"
  shows "rw_inv m' (ps[g := p'])"
proof -
  note c = rw_update [OF g, where p' = p']
  note b = rw_bounds [OF n]
  have n': "length (ps[g := p']) < 2 ^ 30" using n by simp
  note b' = rw_bounds [OF n']
  obtain o' where o': "if rw_w m then o' \<in> set ps \<and> has_w o' else o' = RWIdle" "rw_phase_of o' m ps"
    using inv by (auto simp: rw_inv_def)
  let ?R = "int (cnt is_rhold ps) + int (cnt is_rsem ps)"
  have rc: "sint (readerCount m) = ?R \<or> sint (readerCount m) = ?R - 2 ^ 30"
    by (rule rw_phase_count [OF o'(2)])
  show ?thesis
  proof (cases "ps ! g")
    case RWIdle
    show ?thesis
    proof (cases a)
      case CallLock
      then have "m' = m" "p' = WLock" using step RWIdle by auto
      then show ?thesis using RWIdle c by (intro rw_inv_reader [OF inv g]) (simp_all add: rw_phase_of_def)
    next
      case CallRLock
      have rc': "sint (readerCount m + 1) = sint (readerCount m) + 1"
        using rc b by (subst sint32_add) auto
      then have m': "m' = m\<lparr>readerCount := readerCount m + 1\<rparr>"
        "p' = (if sint (readerCount m) + 1 < 0 then RSem else RHold)"
        using step RWIdle CallRLock by (auto simp: RLock_add_def Let_def)
      show ?thesis
      proof (rule rw_inv_reader [OF inv g])
        fix q assume "has_w q \<or> q = RWIdle" "rw_phase_of q m ps"
        then show "rw_phase_of q m' (ps[g := p'])"
          using m' rc' c b b' RWIdle by (cases q) (auto simp: rw_phase_of_def split: if_splits)
      qed (use m' RWIdle in auto)
    qed
  next
    case RSem
    then have m': "m' = m\<lparr>readerSem := readerSem m - 1\<rparr>" "p' = RHold" "0 < readerSem m"
      using step by (auto simp: RLock_sem_def split: if_splits)
    show ?thesis
    proof (rule rw_inv_reader [OF inv g])
      fix q assume "has_w q \<or> q = RWIdle" "rw_phase_of q m ps"
      then show "rw_phase_of q m' (ps[g := p'])"
        using m' c RSem by (cases q) (auto simp: rw_phase_of_def)
    qed (use m' RSem in auto)
  next
    case RHold
    have pos: "0 < cnt is_rhold ps" using cnt_pos [OF g, of is_rhold] RHold by simp
    have rc': "sint (readerCount m - 1) = sint (readerCount m) - 1"
      using rc b by (subst sint32_sub) auto
    have "readerCount m \<noteq> 0 \<and> readerCount m \<noteq> - rwmutexMaxReaders" if "sint (readerCount m) - 1 < 0"
    proof -
      have "sint (readerCount m) = ?R - 2 ^ 30" using rc that pos by linarith
      moreover have "sint (- rwmutexMaxReaders) = - (2 ^ 30)" by (simp add: rwmutexMaxReaders_def)
      ultimately show ?thesis using b pos by auto
    qed
    then have m': "m' = m\<lparr>readerCount := readerCount m - 1\<rparr>"
      "p' = (if sint (readerCount m) - 1 < 0 then RUWait else RWIdle)"
      using step RHold rc' by (auto simp: RUnlock_add_def Let_def)
    show ?thesis
    proof (rule rw_inv_reader [OF inv g])
      fix q assume "has_w q \<or> q = RWIdle" "rw_phase_of q m ps"
      then show "rw_phase_of q m' (ps[g := p'])"
        using m' rc' c b b' RHold pos by (cases q) (auto simp: rw_phase_of_def split: if_splits)
    qed (use m' RHold in auto)
  next
    case RUWait
    have pos: "0 < cnt is_ruwait ps" using cnt_pos [OF g, of is_ruwait] RUWait by simp
    have "- (2 ^ 30) < sint (readerWait m) \<and> sint (readerWait m) < 2 ^ 30"
      using o'(2) b pos by (cases o') (auto simp: rw_phase_of_def)
    then have rw': "sint (readerWait m - 1) = sint (readerWait m) - 1"
      by (subst sint32_sub) auto
    have m': "m' = m\<lparr>readerWait := readerWait m - 1\<rparr>"
      "p' = (if sint (readerWait m) - 1 = 0 then RURel else RWIdle)"
      using step RUWait rw' by (auto simp: RUnlock_wait_def Let_def sint32_zero)
    show ?thesis
    proof (rule rw_inv_reader [OF inv g])
      fix q assume "has_w q \<or> q = RWIdle" "rw_phase_of q m ps"
      then show "rw_phase_of q m' (ps[g := p'])"
        using m' rw' c RUWait pos by (cases q) (auto simp: rw_phase_of_def split: if_splits)
    qed (use m' RUWait in auto)
  next
    case RURel
    then have m': "m' = m\<lparr>writerSem := writerSem m + 1\<rparr>" "p' = RWIdle"
      using step by (auto simp: RUnlock_release_def)
    show ?thesis
    proof (rule rw_inv_reader [OF inv g])
      fix q assume "has_w q \<or> q = RWIdle" "rw_phase_of q m ps"
      then show "rw_phase_of q m' (ps[g := p'])"
        using m' c RURel by (cases q) (auto simp: rw_phase_of_def)
    qed (use m' RURel in auto)
  next
    case WLock
    then have "m' = m\<lparr>rw_w := True\<rparr>" "p' = WAnnounce" "\<not> rw_w m"
      using step by (auto simp: WLock_w_def split: if_splits)
    then show ?thesis using rw_inv_get_w [OF inv g WLock] by simp
  next
    case WUnlockW
    then have "m' = m\<lparr>rw_w := False\<rparr>" "p' = RWIdle" using step by (auto simp: WUnlock_w_def)
    then show ?thesis using rw_inv_put_w [OF inv g WUnlockW] by simp
  next
    case RWPanic
    then show ?thesis using step by simp
  next
    case WAnnounce
    have m': "m' = m\<lparr>readerCount := readerCount m - rwmutexMaxReaders\<rparr>"
      "p' = (if readerCount m \<noteq> 0 then WWait (readerCount m) else WHold)"
      using step WAnnounce by (auto simp: WLock_announce_def Let_def)
    show ?thesis
    proof (rule rw_inv_writer [OF inv g])
      assume ph: "rw_phase_of (ps ! g) m ps"
      then have "sint (readerCount m) = ?R" using WAnnounce by (simp add: rw_phase_of_def)
      then have "sint (readerCount m - rwmutexMaxReaders) = sint (readerCount m) - 2 ^ 30"
        using b by (subst sint32_sub) (auto simp: sint_maxReaders)
      then show "rw_phase_of p' m' (ps[g := p'])"
        using ph m' c b WAnnounce by (auto simp: rw_phase_of_def sint32_zero)
    qed (use m' WAnnounce in auto)
  next
    case (WWait r)
    show ?thesis
    proof (rule rw_inv_writer [OF inv g])
      assume ph: "rw_phase_of (ps ! g) m ps"
      then have "0 \<le> sint (readerWait m) + sint r" "sint (readerWait m) + sint r < 2 ^ 31"
        using WWait by (simp_all add: rw_phase_of_def)
      then have "sint (readerWait m + r) = sint (readerWait m) + sint r" by (subst sint32_add) auto
      moreover have "m' = m\<lparr>readerWait := readerWait m + r\<rparr>" "p' = (if readerWait m + r \<noteq> 0 then WSem else WHold)"
        using step WWait by (auto simp: WLock_wait_def Let_def)
      ultimately show "rw_phase_of p' m' (ps[g := p'])"
        using ph c WWait by (auto simp: rw_phase_of_def sint32_zero)
    qed (use step WWait in \<open>auto simp: WLock_wait_def Let_def\<close>)
  next
    case WSem
    then have m': "m' = m\<lparr>writerSem := writerSem m - 1\<rparr>" "p' = WHold" "0 < writerSem m"
      using step by (auto simp: WLock_sem_def split: if_splits)
    show ?thesis
    proof (rule rw_inv_writer [OF inv g])
      assume "rw_phase_of (ps ! g) m ps"
      then show "rw_phase_of p' m' (ps[g := p'])"
        using m' WSem c by (cases "sint (readerWait m) = 0") (auto simp: rw_phase_of_def)
    qed (use m' WSem in auto)
  next
    case WHold
    have o: "rw_phase_of WHold m ps"
    proof -
      have w: "rw_w m" using inv cnt_pos [OF g, of has_w] WHold by (cases "rw_w m") (auto simp: rw_inv_def)
      have "cnt has_w ps \<le> 1" using inv by (simp add: rw_inv_def)
      moreover have "WHold \<in> set ps" using g WHold by (metis nth_mem)
      ultimately have "o' = WHold" using o'(1) w by (intro cnt_unique [of has_w]) auto
      then show ?thesis using o'(2) by simp
    qed
    then have "sint (readerCount m + rwmutexMaxReaders) = sint (readerCount m) + 2 ^ 30"
      using b by (subst sint32_add) (auto simp: sint_maxReaders rw_phase_of_def)
    moreover then have "m' = m\<lparr>readerCount := readerCount m + rwmutexMaxReaders\<rparr>"
      "p' = WRel 0 (readerCount m + rwmutexMaxReaders)"
      using step WHold o b by (auto simp: WUnlock_add_def Let_def sint_maxReaders rw_phase_of_def split: if_splits)
    ultimately show ?thesis
      using WHold c by (intro rw_inv_writer [OF inv g]) (auto simp: rw_phase_of_def)
  next
    case (WRel i r)
    show ?thesis
      by (rule rw_inv_writer [OF inv g])
        (use step WRel c in \<open>auto simp: rw_phase_of_def WUnlock_release_def split: if_splits\<close>)
  qed
qed

lemma rw_reach_inv:
  assumes "rw_reach n m ps" "n < 2 ^ 30"
  shows "rw_inv m ps"
  using assms(1)
proof (induction rule: treach.induct)
  case treach_start
  then show ?case by (rule rw_inv_start)
next
  case (treach_step m ps g a m' p')
  have "length ps < 2 ^ 30" using treach_length [OF treach_step.hyps(1)] assms(2) by simp
  then show ?case using rw_inv_step [OF treach_step.IH treach_step.hyps(2) _ treach_step.hyps(3)] by blast
qed

lemma rw_owner:
  assumes "rw_inv m ps" "p \<in> set ps" "has_w p"
  shows "rw_phase_of p m ps" "cnt has_w ps = 1"
proof -
  have "0 < cnt has_w ps" using assms(2,3) cnt_zero [of has_w ps] by auto
  then have w: "rw_w m" "cnt has_w ps = 1" using assms(1) by (cases "rw_w m"; simp add: rw_inv_def)+
  then obtain o' where "o' \<in> set ps" "has_w o'" "rw_phase_of o' m ps" using assms(1) by (auto simp: rw_inv_def)
  then show "rw_phase_of p m ps" using cnt_unique [of has_w ps o' p] assms(2,3) w(2) by simp
  show "cnt has_w ps = 1" by (rule w(2))
qed

section \<open>Properties\<close>

text \<open>C26: reader-writer exclusion: in every interleaving of fewer than \<open>2^30\<close> goroutines, at most one
  goroutine is between \<open>Lock\<close> and \<open>Unlock\<close>, and while one is, no goroutine is between \<open>RLock\<close> and
  \<open>RUnlock\<close>; neither unlock panics in these runs.\<close>

theorem rwmutex_exclusion:
  assumes "rw_reach n m ps" and "n < 2 ^ 30"
  shows "cnt is_whold ps \<le> 1 \<and> (cnt is_whold ps = 0 \<or> cnt is_rhold ps = 0) \<and> RWPanic \<notin> set ps"
proof -
  note inv = rw_reach_inv [OF assms]
  have "cnt is_whold ps \<le> cnt has_w ps"
  proof (induction ps)
    case (Cons p ps)
    then show ?case by (cases p) auto
  qed simp
  moreover have "cnt has_w ps \<le> 1" using inv by (simp add: rw_inv_def)
  moreover have "cnt is_rhold ps = 0" if pos: "0 < cnt is_whold ps"
  proof -
    obtain p where "p \<in> set ps" "is_whold p" using pos cnt_zero [of is_whold ps] by auto
    then have "WHold \<in> set ps" by - (cases p, auto)
    then show ?thesis using rw_owner(1) [OF inv, of WHold] by (simp add: rw_phase_of_def)
  qed
  moreover have "RWPanic \<notin> set ps" using inv cnt_zero [of is_rwpanic ps] by (auto simp: rw_inv_def)
  ultimately show ?thesis by linarith
qed

text \<open>A reader is in, a writer has announced itself and waits, and a second reader has to wait too.\<close>

definition demo_rw_sched :: "(rwcall \<times> nat) list" where
  "demo_rw_sched = [(CallRLock, 0), (CallLock, 1), (CallLock, 1), (CallLock, 1), (CallLock, 1), (CallRLock, 2)]"

lemma demo_rw:
  "trun rw_next demo_rw_sched zero_rwmutex (replicate 3 RWIdle) =
     Some (\<lparr>rw_w = True, writerSem = 0, readerSem = 0, readerCount = 2 - rwmutexMaxReaders, readerWait = 1\<rparr>,
           [RHold, WSem, RSem])"
  by (simp add: demo_rw_sched_def zero_rwmutex_def numeral_3_eq_3 RLock_add_def WLock_w_def WLock_announce_def
      WLock_wait_def rwmutexMaxReaders_def Let_def)

theorem rwmutex_exclusion_witness:
  "cnt is_whold [RHold, WSem, RSem] \<le> 1 \<and> RWPanic \<notin> set [RHold, WSem, RSem]"
  using rwmutex_exclusion [OF trun_treach [OF demo_rw]] by simp

text \<open>C27: no reader and no writer is forgotten: as long as some goroutine sleeps in \<open>RLock\<close>, in \<open>Lock\<close>
  or on the mutex \<open>w\<close>, some goroutine that is not idle can take a step, so goroutines that all unlock
  what they lock never deadlock on a \<open>RWMutex\<close>.\<close>

theorem rwmutex_no_deadlock:
  assumes "rw_reach n m ps" and "n < 2 ^ 30" and "RSem \<in> set ps \<or> WSem \<in> set ps \<or> WLock \<in> set ps"
  shows "\<exists>p \<in> set ps. p \<noteq> RWIdle \<and> (\<forall>a. rw_next a p m \<noteq> None)"
proof (rule ccontr)
  assume neg: "\<not> ?thesis"
  note inv = rw_reach_inv [OF assms(1,2)]
  have stuck: "p = RWIdle \<or> p = RSem \<and> readerSem m = 0 \<or> p = WSem \<and> writerSem m = 0 \<or> p = WLock \<and> rw_w m"
    if "p \<in> set ps" for p
  proof -
    have "\<not> (\<forall>a. rw_next a p m \<noteq> None) \<or> p = RWIdle" using neg that by blast
    moreover have "p \<noteq> RWPanic" using inv that cnt_zero [of is_rwpanic ps] by (auto simp: rw_inv_def)
    ultimately show ?thesis by (cases p) (auto simp: RLock_sem_def WLock_sem_def WLock_w_def split: if_splits)
  qed
  have z: "cnt is_rhold ps = 0" "cnt is_ruwait ps = 0" "cnt is_rurel ps = 0"
    using stuck by (fastforce simp: cnt_zero)+
  show False
  proof (cases "\<exists>p \<in> set ps. has_w p")
    case True
    then obtain p where p: "p \<in> set ps" "has_w p" by blast
    then have "p = WSem" "writerSem m = 0" using stuck [OF p(1)] by auto
    then have ph: "rw_phase_of WSem m ps" using rw_owner(1) [OF inv p] by simp
    have "readerSem m = 0"
    proof (cases "RSem \<in> set ps")
      case True
      then show ?thesis using stuck by auto
    next
      case False
      have "\<not> is_rsem p" if "p \<in> set ps" for p using that False by - (cases p, auto)
      then have "cnt is_rsem ps = 0" by (simp add: cnt_zero)
      then show ?thesis using ph by (simp add: rw_phase_of_def)
    qed
    then show False using ph z \<open>writerSem m = 0\<close> by (simp add: rw_phase_of_def)
  next
    case False
    then have "cnt has_w ps = 0" by (simp add: cnt_zero)
    then have w: "\<not> rw_w m" using inv by (auto simp: rw_inv_def)
    then have "WLock \<notin> set ps" "WSem \<notin> set ps" using stuck False by fastforce+
    then have r: "RSem \<in> set ps" using assms(3) by blast
    then have "readerSem m = 0" using stuck by auto
    moreover have "rw_phase_of RWIdle m ps" using inv w by (auto simp: rw_inv_def)
    ultimately have "cnt is_rsem ps = 0" by (simp add: rw_phase_of_def)
    then show False using r by (auto simp: cnt_zero)
  qed
qed

theorem rwmutex_no_deadlock_witness:
  "\<exists>p \<in> set [RHold, WSem, RSem]. p \<noteq> RWIdle \<and>
     rw_next CallLock p \<lparr>rw_w = True, writerSem = 0, readerSem = 0, readerCount = 2 - rwmutexMaxReaders, readerWait = 1\<rparr> \<noteq> None"
  using rwmutex_no_deadlock [OF trun_treach [OF demo_rw]] by auto

end
