(* ===== verification/Go_Once.thy ===== *)
theory Go_Once
  imports Go_Threads
begin

text \<open>
  sync.Once (src/sync/once.go). The function \<open>f\<close> is the client's: it is entered, runs for a while,
  and returns or panics; the deferred store and the deferred unlock run in either case. The mutex is
  an atomic lock (\<open>mutex_refines_lock\<close>). \<open>calls\<close> and \<open>ended\<close> count the entries to and the exits
  from \<open>f\<close> and are not part of the code.
\<close>

section \<open>The code\<close>

record once =
  o_m :: bool
  o_done :: "32 word"
  calls :: nat
  ended :: nat

datatype opc =
    OIdle
  | OLock             \<comment> \<open>in \<open>o.m.Lock()\<close>\<close>
  | OTest             \<comment> \<open>at \<open>o.done == 0\<close>\<close>
  | OCall             \<comment> \<open>before \<open>f()\<close>\<close>
  | ORun              \<comment> \<open>in \<open>f\<close>\<close>
  | OStore bool       \<comment> \<open>before the deferred store, panicking or not\<close>
  | OUnlock bool      \<comment> \<open>before the deferred unlock\<close>
  | ORet              \<comment> \<open>\<open>Do\<close> has returned\<close>
  | OGone             \<comment> \<open>the panic of \<open>f\<close> has left \<open>Do\<close>\<close>

definition Do_fast :: "once \<Rightarrow> once \<times> opc" where
  "Do_fast m = (m, if o_done m = 1 then ORet else OLock)"

definition Do_lock :: "once \<Rightarrow> (once \<times> opc) option" where
  "Do_lock m = (if o_m m then None else Some (m\<lparr>o_m := True\<rparr>, OTest))"

definition Do_test :: "once \<Rightarrow> once \<times> opc" where
  "Do_test m = (m, if o_done m = 0 then OCall else OUnlock False)"

definition Do_call :: "once \<Rightarrow> once \<times> opc" where
  "Do_call m = (m\<lparr>calls := calls m + 1\<rparr>, ORun)"

definition Do_end :: "bool \<Rightarrow> once \<Rightarrow> once \<times> opc" where
  "Do_end panics m = (m\<lparr>ended := ended m + 1\<rparr>, OStore panics)"

definition Do_store :: "bool \<Rightarrow> once \<Rightarrow> once \<times> opc" where
  "Do_store panics m = (m\<lparr>o_done := 1\<rparr>, OUnlock panics)"

definition Do_unlock :: "bool \<Rightarrow> once \<Rightarrow> once \<times> opc" where
  "Do_unlock panics m = (m\<lparr>o_m := False\<rparr>, if panics then OGone else ORet)"

text \<open>The label says whether \<open>f\<close> panics, where it ends.\<close>

fun once_next :: "bool \<Rightarrow> opc \<Rightarrow> once \<Rightarrow> (once \<times> opc) option" where
  "once_next _ OIdle m = Some (Do_fast m)"
| "once_next _ OLock m = Do_lock m"
| "once_next _ OTest m = Some (Do_test m)"
| "once_next _ OCall m = Some (Do_call m)"
| "once_next panics ORun m = Some (Do_end panics m)"
| "once_next _ (OStore b) m = Some (Do_store b m)"
| "once_next _ (OUnlock b) m = Some (Do_unlock b m)"
| "once_next _ ORet m = Some (Do_fast m)"
| "once_next _ OGone m = None"

definition zero_once :: once where
  "zero_once = \<lparr>o_m = False, o_done = 0, calls = 0, ended = 0\<rparr>"

abbreviation once_reach :: "nat \<Rightarrow> once \<Rightarrow> opc list \<Rightarrow> bool" where
  "once_reach n \<equiv> treach once_next zero_once (replicate n OIdle)"

section \<open>The invariant\<close>

fun in_do :: "opc \<Rightarrow> bool" where
  "in_do OTest = True" | "in_do OCall = True" | "in_do ORun = True"
| "in_do (OStore b) = True" | "in_do (OUnlock b) = True" | "in_do _ = False"

fun before_f :: "opc \<Rightarrow> bool" where
  "before_f OCall = True" | "before_f _ = False"

fun in_f :: "opc \<Rightarrow> bool" where
  "in_f ORun = True" | "in_f _ = False"

fun storing :: "opc \<Rightarrow> bool" where
  "storing (OStore b) = True" | "storing _ = False"

fun late :: "opc \<Rightarrow> bool" where
  "late (OUnlock b) = True" | "late ORet = True" | "late _ = False"

definition once_inv :: "once \<Rightarrow> opc list \<Rightarrow> bool" where
  "once_inv m ps \<longleftrightarrow>
     cnt in_do ps = of_bool (o_m m) \<and> o_done m \<in> {0, 1} \<and>
     calls m = of_bool (o_done m = 1) + cnt storing ps + cnt in_f ps \<and>
     calls m = ended m + cnt in_f ps \<and>
     (o_done m = 1 \<longrightarrow> cnt before_f ps + cnt in_f ps + cnt storing ps = 0) \<and>
     (o_done m = 0 \<longrightarrow> cnt late ps = 0)"

lemma once_inv_start: "once_inv zero_once (replicate n OIdle)"
  by (simp add: once_inv_def zero_once_def cnt_replicate)

lemma once_counts:
  assumes "g < length ps"
  shows "cnt in_do (ps[g := p']) + of_bool (in_do (ps ! g)) = cnt in_do ps + of_bool (in_do p')"
    "cnt before_f (ps[g := p']) + of_bool (before_f (ps ! g)) = cnt before_f ps + of_bool (before_f p')"
    "cnt in_f (ps[g := p']) + of_bool (in_f (ps ! g)) = cnt in_f ps + of_bool (in_f p')"
    "cnt storing (ps[g := p']) + of_bool (storing (ps ! g)) = cnt storing ps + of_bool (storing p')"
    "cnt late (ps[g := p']) + of_bool (late (ps ! g)) = cnt late ps + of_bool (late p')"
  using cnt_update [OF assms] by blast+

text \<open>The states inside the lock exclude each other.\<close>

lemma in_do_split: "cnt before_f ps + cnt in_f ps + cnt storing ps \<le> cnt in_do ps"
proof (induction ps)
  case (Cons p ps)
  then show ?case by (cases p) auto
qed simp

lemma in_do_alone:
  assumes "once_inv m ps" "g < length ps" "in_do (ps ! g)"
  shows "o_m m" "cnt before_f ps + cnt in_f ps + cnt storing ps =
           of_bool (before_f (ps ! g)) + of_bool (in_f (ps ! g)) + of_bool (storing (ps ! g))"
proof -
  have c: "cnt in_do ps = of_bool (o_m m)" using assms(1) by (simp add: once_inv_def)
  then show "o_m m" using cnt_pos [of g ps in_do] assms(2,3) by (cases "o_m m") auto
  have "cnt in_do (ps[g := OIdle]) = 0"
    using once_counts(1) [OF assms(2), of OIdle] c \<open>o_m m\<close> assms(3) by simp
  then have "cnt before_f (ps[g := OIdle]) + cnt in_f (ps[g := OIdle]) + cnt storing (ps[g := OIdle]) = 0"
    using in_do_split [of "ps[g := OIdle]"] by simp
  then show "cnt before_f ps + cnt in_f ps + cnt storing ps =
           of_bool (before_f (ps ! g)) + of_bool (in_f (ps ! g)) + of_bool (storing (ps ! g))"
    using once_counts(2-4) [OF assms(2), of OIdle] by simp
qed

lemma once_inv_step:
  assumes inv: "once_inv m ps" and g: "g < length ps" and step: "once_next a (ps ! g) m = Some (m', p')"
  shows "once_inv m' (ps[g := p'])"
proof -
  note c = once_counts [OF g, of p']
  have i: "cnt in_do ps = of_bool (o_m m)" "o_done m = 0 \<or> o_done m = 1"
    "calls m = of_bool (o_done m = 1) + cnt storing ps + cnt in_f ps" "calls m = ended m + cnt in_f ps"
    "o_done m = 1 \<Longrightarrow> cnt before_f ps + cnt in_f ps + cnt storing ps = 0" "o_done m = 0 \<Longrightarrow> cnt late ps = 0"
    using inv by (auto simp: once_inv_def)
  have keep: "once_inv m' (ps[g := p'])" if "m' = m" "\<not> in_do (ps ! g)" "\<not> in_do p'"
    "late p' \<longrightarrow> o_done m = 1"
  proof -
    have "\<not> before_f (ps ! g)" "\<not> in_f (ps ! g)" "\<not> storing (ps ! g)" using that(2) by (cases "ps ! g"; simp)+
    moreover have "\<not> before_f p'" "\<not> in_f p'" "\<not> storing p'" using that(3) by (cases p'; simp)+
    ultimately show ?thesis using c i that unfolding once_inv_def by (cases "o_done m = 1") auto
  qed
  show ?thesis
  proof (cases "ps ! g")
    case OIdle
    then show ?thesis using step by (intro keep) (auto simp: Do_fast_def split: if_splits)
  next
    case OLock
    then have "m' = m\<lparr>o_m := True\<rparr>" "p' = OTest" "\<not> o_m m" using step by (auto simp: Do_lock_def split: if_splits)
    then show ?thesis using c i OLock unfolding once_inv_def by (cases "o_done m = 1") simp_all
  next
    case OTest
    note al = in_do_alone [OF inv g, unfolded OTest, simplified]
    have "m' = m" "p' = (if o_done m = 0 then OCall else OUnlock False)" using step OTest by (auto simp: Do_test_def)
    then show ?thesis using c i OTest al unfolding once_inv_def by (cases "o_done m = 1") simp_all
  next
    case OCall
    note al = in_do_alone [OF inv g, unfolded OCall, simplified]
    have "m' = m\<lparr>calls := calls m + 1\<rparr>" "p' = ORun" using step OCall by (auto simp: Do_call_def)
    then show ?thesis using c i OCall al unfolding once_inv_def by (cases "o_done m = 1") simp_all
  next
    case ORun
    note al = in_do_alone [OF inv g, unfolded ORun, simplified]
    have "m' = m\<lparr>ended := ended m + 1\<rparr>" "p' = OStore a" using step ORun by (auto simp: Do_end_def)
    then show ?thesis using c i ORun al unfolding once_inv_def by (cases "o_done m = 1") simp_all
  next
    case (OStore b)
    note al = in_do_alone [OF inv g, unfolded OStore, simplified]
    have "m' = m\<lparr>o_done := 1\<rparr>" "p' = OUnlock b" using step OStore by (auto simp: Do_store_def)
    then show ?thesis using c i OStore al unfolding once_inv_def by (cases "o_done m = 1") simp_all
  next
    case (OUnlock b)
    note al = in_do_alone [OF inv g, unfolded OUnlock, simplified]
    have "m' = m\<lparr>o_m := False\<rparr>" "p' = (if b then OGone else ORet)" using step OUnlock by (auto simp: Do_unlock_def)
    then show ?thesis using c i OUnlock al unfolding once_inv_def by (cases "o_done m = 1"; cases b) simp_all
  next
    case ORet
    then show ?thesis using step by (intro keep) (auto simp: Do_fast_def split: if_splits)
  next
    case OGone
    then show ?thesis using step by simp
  qed
qed

lemma once_reach_inv: "once_reach n m ps \<Longrightarrow> once_inv m ps"
  by (induction rule: treach.induct) (auto intro: once_inv_start once_inv_step)

section \<open>Properties\<close>

text \<open>C28: \<open>Do\<close> enters \<open>f\<close> at most once, whatever the number and the interleaving of the calls and
  whether \<open>f\<close> returns or panics; a call of \<open>Do\<close> that has returned finds \<open>f\<close> entered and left; and as
  long as a call waits for the mutex, another call is inside and can take a step.\<close>

theorem once_correct:
  assumes "once_reach n m ps"
  shows "calls m \<le> 1 \<and> (ORet \<notin> set ps \<or> calls m = 1 \<and> ended m = 1) \<and>
    (OLock \<notin> set ps \<or> (\<exists>p \<in> set ps. p \<noteq> OIdle \<and> p \<noteq> ORet \<and> once_next a p m \<noteq> None))"
proof (intro conjI)
  note inv = once_reach_inv [OF assms]
  have "cnt storing ps + cnt in_f ps \<le> 1" 
    using in_do_split [of ps] inv by (cases "o_m m") (auto simp: once_inv_def)
  then show "calls m \<le> 1" using inv by (auto simp: once_inv_def)
  have "calls m = 1 \<and> ended m = 1" if "ORet \<in> set ps"
  proof -
    have "cnt late ps \<noteq> 0" using bexI [of late ORet "set ps"] that by (simp add: cnt_zero)
    then show ?thesis using inv by (auto simp: once_inv_def)
  qed
  then show "ORet \<notin> set ps \<or> calls m = 1 \<and> ended m = 1" by blast
  have "\<exists>p \<in> set ps. p \<noteq> OIdle \<and> p \<noteq> ORet \<and> once_next a p m \<noteq> None" if l: "OLock \<in> set ps"
  proof (cases "o_m m")
    case False
    then show ?thesis using l by (intro bexI [of _ OLock]) (auto simp: Do_lock_def)
  next
    case True
    then have "cnt in_do ps \<noteq> 0" using inv by (simp add: once_inv_def)
    then obtain p where p: "p \<in> set ps" "in_do p" by (auto simp: cnt_zero)
    then have "p \<noteq> OIdle \<and> p \<noteq> ORet \<and> once_next a p m \<noteq> None" by - (cases p, auto)
    then show ?thesis using p(1) by blast
  qed
  then show "OLock \<notin> set ps \<or> (\<exists>p \<in> set ps. p \<noteq> OIdle \<and> p \<noteq> ORet \<and> once_next a p m \<noteq> None)" by blast
qed

lemma demo_once:
  "trun once_next (map (Pair True) [0, 1, 0, 0, 0, 0, 0, 0]) zero_once (replicate 2 OIdle) =
     Some (\<lparr>o_m = False, o_done = 1, calls = 1, ended = 1\<rparr>, [OGone, OLock])"
  by (simp add: zero_once_def numeral_2_eq_2 Do_fast_def Do_lock_def Do_test_def Do_call_def Do_end_def
      Do_store_def Do_unlock_def)

theorem once_correct_witness:
  "\<exists>p \<in> set [OGone, OLock]. once_next False p \<lparr>o_m = False, o_done = 1, calls = 1, ended = 1\<rparr> \<noteq> None"
  using once_correct [OF trun_treach [OF demo_once], of False] by auto

end
