(* ===== verification/Go_Utf16.thy ===== *)
theory Go_Utf16
  imports Go_Slices
begin

unbundle bit_operations_syntax

text \<open>
  Package unicode/utf16 (src/unicode/utf16/utf16.go). Runes are integers; the 16 bit units are words.
  \<open>Encode\<close> fills the array it has allocated through an index, and every store is bounds checked.
\<close>

section \<open>The code\<close>

definition replacementChar :: rune where "replacementChar = 0xFFFD"
definition maxRune16 :: rune where "maxRune16 = 0x10FFFF"
definition surr1 :: rune where "surr1 = 0xd800"
definition surr2 :: rune where "surr2 = 0xdc00"
definition surr3 :: rune where "surr3 = 0xe000"
definition surrSelf :: rune where "surrSelf = 0x10000"

definition IsSurrogate :: "rune \<Rightarrow> bool" where
  "IsSurrogate r \<longleftrightarrow> surr1 \<le> r \<and> r < surr3"

definition utf16_DecodeRune :: "rune \<Rightarrow> rune \<Rightarrow> rune" where
  "utf16_DecodeRune r1 r2 =
     (if surr1 \<le> r1 \<and> r1 < surr2 \<and> surr2 \<le> r2 \<and> r2 < surr3
      then (push_bit 10 (r1 - surr1) OR (r2 - surr2)) + 0x10000
      else replacementChar)"

definition utf16_EncodeRune :: "rune \<Rightarrow> rune \<times> rune" where
  "utf16_EncodeRune r =
     (if r < surrSelf \<or> r > maxRune16 \<or> IsSurrogate r then (replacementChar, replacementChar)
      else let r = r - surrSelf in
           (surr1 + (drop_bit 10 r AND 0x3ff), surr2 + (r AND 0x3ff)))"

definition encodedUnits :: "rune list \<Rightarrow> nat" where
  "encodedUnits s = fold (\<lambda>v n. if v \<ge> surrSelf then n + 1 else n) s (length s)"

fun utf16_Encode_loop :: "rune list \<Rightarrow> 16 word list \<Rightarrow> nat \<Rightarrow> panic + 16 word list \<times> nat" where
  "utf16_Encode_loop [] a n = Inr (a, n)"
| "utf16_Encode_loop (v # s) a n =
     (if v < 0 \<or> surr1 \<le> v \<and> v < surr3 \<or> v > maxRune16
      then bindE (store_at a n (word_of_int replacementChar)) (\<lambda>a. utf16_Encode_loop s a (n + 1))
      else if v < surrSelf
      then bindE (store_at a n (word_of_int v)) (\<lambda>a. utf16_Encode_loop s a (n + 1))
      else case utf16_EncodeRune v of (r1, r2) \<Rightarrow>
        bindE (store_at a n (word_of_int r1)) (\<lambda>a.
        bindE (store_at a (n + 1) (word_of_int r2)) (\<lambda>a. utf16_Encode_loop s a (n + 2))))"

definition utf16_Encode :: "rune list \<Rightarrow> panic + 16 word list" where
  "utf16_Encode s =
     bindE (utf16_Encode_loop s (replicate (encodedUnits s) 0) 0) (\<lambda>(a, n). Inr (take n a))"

function utf16_Decode_loop :: "16 word list \<Rightarrow> nat \<Rightarrow> rune list \<Rightarrow> nat \<Rightarrow> panic + rune list \<times> nat" where
  "utf16_Decode_loop s i a n =
     (if i < length s
      then let r = uint (s ! i) in
           if surr1 \<le> r \<and> r < surr2 \<and> i + 1 < length s \<and>
              surr2 \<le> uint (s ! (i + 1)) \<and> uint (s ! (i + 1)) < surr3
           then bindE (store_at a n (utf16_DecodeRune r (uint (s ! (i + 1)))))
                  (\<lambda>a. utf16_Decode_loop s (i + 2) a (n + 1))
           else if surr1 \<le> r \<and> r < surr3
           then bindE (store_at a n replacementChar) (\<lambda>a. utf16_Decode_loop s (i + 1) a (n + 1))
           else bindE (store_at a n r) (\<lambda>a. utf16_Decode_loop s (i + 1) a (n + 1))
      else Inr (a, n))"
  by pat_completeness auto
termination
  by (relation "measure (\<lambda>(s, i, a, n). length s - i)") auto

definition utf16_Decode :: "16 word list \<Rightarrow> panic + rune list" where
  "utf16_Decode s =
     bindE (utf16_Decode_loop s 0 (replicate (length s) 0) 0) (\<lambda>(a, n). Inr (take n a))"

declare utf16_Decode_loop.simps [simp del]

section \<open>One rune\<close>

definition valid_rune :: "rune \<Rightarrow> bool" where
  "valid_rune r \<longleftrightarrow> 0 \<le> r \<and> r \<le> maxRune16 \<and> \<not> IsSurrogate r"

text \<open>The units of a rune, and what decoding makes of a sequence of units.\<close>

definition units :: "rune \<Rightarrow> 16 word list" where
  "units r =
     (if \<not> valid_rune r then [word_of_int replacementChar]
      else if r < surrSelf then [word_of_int r]
      else [word_of_int (0xd800 + (r - 0x10000) div 0x400), word_of_int (0xdc00 + (r - 0x10000) mod 0x400)])"

function decode16 :: "16 word list \<Rightarrow> rune list" where
  "decode16 [] = []"
| "decode16 [u] = [if IsSurrogate (uint u) then replacementChar else uint u]"
| "decode16 (u # v # us) =
     (if surr1 \<le> uint u \<and> uint u < surr2 \<and> surr2 \<le> uint v \<and> uint v < surr3
      then ((uint u - surr1) * 0x400 + (uint v - surr2) + 0x10000) # decode16 us
      else (if IsSurrogate (uint u) then replacementChar else uint u) # decode16 (v # us))"
  by pat_completeness auto
termination
  by (relation "measure length") auto

lemmas surr_defs = surr1_def surr2_def surr3_def surrSelf_def replacementChar_def maxRune16_def

lemma EncodeRune_units:
  assumes "surrSelf \<le> r" "r \<le> maxRune16"
  shows "utf16_EncodeRune r = (0xd800 + (r - 0x10000) div 0x400, 0xdc00 + (r - 0x10000) mod 0x400)"
proof -
  have "drop_bit 10 (r - 0x10000) AND 0x3ff = (r - 0x10000) div 0x400"
  proof -
    have "(0x3ff :: int) = mask 10" by (simp add: mask_eq_exp_minus_1)
    then have "drop_bit 10 (r - 0x10000) AND 0x3ff = (r - 0x10000) div 2 ^ 10 mod 2 ^ 10"
      by (simp only: flip: take_bit_eq_mask) (simp add: take_bit_eq_mod drop_bit_eq_div)
    also have "\<dots> = (r - 0x10000) div 0x400" using assms by (simp add: surr_defs)
    finally show ?thesis .
  qed
  moreover have "(r - 0x10000) AND 0x3ff = (r - 0x10000) mod 0x400"
  proof -
    have "(0x3ff :: int) = mask 10" by (simp add: mask_eq_exp_minus_1)
    then show ?thesis by (simp only: flip: take_bit_eq_mask) (simp add: take_bit_eq_mod)
  qed
  ultimately show ?thesis using assms by (simp add: utf16_EncodeRune_def IsSurrogate_def surr_defs Let_def)
qed

lemma DecodeRune_value:
  assumes "surr1 \<le> r1" "r1 < surr2" "surr2 \<le> r2" "r2 < surr3"
  shows "utf16_DecodeRune r1 r2 = (r1 - surr1) * 0x400 + (r2 - surr2) + 0x10000"
proof -
  have "push_bit 10 (r1 - surr1) OR (r2 - surr2) = push_bit 10 (r1 - surr1) + (r2 - surr2)"
  proof (rule disjunctive_add [symmetric])
    fix n
    have "0 \<le> r2 - surr2" "r2 - surr2 < 2 ^ 10" using assms by (simp_all add: surr_defs)
    then have "take_bit 10 (r2 - surr2) = r2 - surr2" by (simp add: take_bit_int_eq_self)
    then have "bit (r2 - surr2) n \<Longrightarrow> n < 10" by (metis bit_take_bit_iff)
    then show "\<not> bit (push_bit 10 (r1 - surr1)) n \<or> \<not> bit (r2 - surr2) n"
      by (auto simp: bit_simps)
  qed
  then show ?thesis using assms by (simp add: utf16_DecodeRune_def push_bit_eq_mult)
qed

section \<open>Encode\<close>

lemma encodedUnits_length: "encodedUnits s = length s + length (filter (\<lambda>v. v \<ge> surrSelf) s)"
proof -
  have "fold (\<lambda>v n. if v \<ge> surrSelf then n + 1 else n) s k = k + length (filter (\<lambda>v. v \<ge> surrSelf) s)" for k
    by (induction s arbitrary: k) auto
  then show ?thesis by (simp add: encodedUnits_def)
qed

lemma Encode_step:
  assumes "length out + length (units v) \<le> length dst"
  shows "utf16_Encode_loop (v # s) (over out dst) (length out) =
     utf16_Encode_loop s (over (out @ units v) dst) (length (out @ units v))"
proof -
  consider (bad) "v < 0 \<or> surr1 \<le> v \<and> v < surr3 \<or> v > maxRune16"
    | (small) "\<not> (v < 0 \<or> surr1 \<le> v \<and> v < surr3 \<or> v > maxRune16)" "v < surrSelf"
    | (big) "\<not> (v < 0 \<or> surr1 \<le> v \<and> v < surr3 \<or> v > maxRune16)" "\<not> v < surrSelf"
    by blast
  then show ?thesis
  proof cases
    case bad
    then have u: "units v = [word_of_int replacementChar]"
      by (auto simp: units_def valid_rune_def IsSurrogate_def)
    have "length out < length dst" using assms u by simp
    then show ?thesis by (simp only: utf16_Encode_loop.simps if_P [OF bad] store_over u) simp
  next
    case small
    then have u: "units v = [word_of_int v]"
      by (auto simp: units_def valid_rune_def IsSurrogate_def)
    have "length out < length dst" using assms u by simp
    then show ?thesis
      by (simp only: utf16_Encode_loop.simps if_not_P [OF small(1)] if_P [OF small(2)] store_over u) simp
  next
    case big
    then have u: "units v =
        [word_of_int (0xd800 + (v - 0x10000) div 0x400), word_of_int (0xdc00 + (v - 0x10000) mod 0x400)]"
      by (auto simp: units_def valid_rune_def IsSurrogate_def)
    have "length out < length dst" "Suc (length out) < length dst" using assms u by simp_all
    moreover have "utf16_EncodeRune v = (0xd800 + (v - 0x10000) div 0x400, 0xdc00 + (v - 0x10000) mod 0x400)"
      using big by (intro EncodeRune_units) auto
    ultimately show ?thesis
      by (simp only: utf16_Encode_loop.simps if_not_P [OF big(1)] if_not_P [OF big(2)] store_over u prod.case)
        (simp add: store_over)
  qed
qed

lemma length_units: "length (units v) \<le> (if v \<ge> surrSelf then 2 else 1)"
  by (simp add: units_def)

lemma Encode_loop_over:
  assumes "length out + encodedUnits s \<le> length dst"
  shows "utf16_Encode_loop s (over out dst) (length out) =
     Inr (over (out @ concat (map units s)) dst, length (out @ concat (map units s)))"
  using assms
proof (induction s arbitrary: out)
  case (Cons v s)
  have len: "encodedUnits (v # s) = (if v \<ge> surrSelf then 2 else 1) + encodedUnits s"
    by (simp add: encodedUnits_length)
  then have room: "length out + length (units v) + encodedUnits s \<le> length dst"
    using Cons.prems length_units [of v] by linarith
  then have "utf16_Encode_loop (v # s) (over out dst) (length out) =
      utf16_Encode_loop s (over (out @ units v) dst) (length (out @ units v))"
    by (intro Encode_step) simp
  also have "\<dots> = Inr (over ((out @ units v) @ concat (map units s)) dst, length ((out @ units v) @ concat (map units s)))"
    using room by (intro Cons.IH) simp
  finally show ?case by simp
qed (simp add: encodedUnits_def)

lemma Encode_units: "utf16_Encode s = Inr (concat (map units s))"
proof -
  have "utf16_Encode_loop s (over [] (replicate (encodedUnits s) 0)) (length ([] :: 16 word list)) =
     Inr (over ([] @ concat (map units s)) (replicate (encodedUnits s) 0), length ([] @ concat (map units s)))"
    by (rule Encode_loop_over) simp
  then show ?thesis by (simp add: utf16_Encode_def)
qed

section \<open>Decode\<close>

lemma uint16_bounds: "0 \<le> uint (u :: 16 word)" "uint (u :: 16 word) < 0x10000"
  using unsigned_less [of u, where 'a = int] by simp_all

lemma Decode_loop_over:
  assumes "length out + (length s - i) \<le> length dst"
  shows "utf16_Decode_loop s i (over out dst) (length out) =
     Inr (over (out @ decode16 (drop i s)) dst, length (out @ decode16 (drop i s)))"
  using assms
proof (induction "length s - i" arbitrary: i out rule: less_induct)
  case less
  show ?case
  proof (cases "i < length s")
    case False
    then show ?thesis by (subst utf16_Decode_loop.simps) simp
  next
    case True
    then have d: "drop i s = s ! i # drop (Suc i) s" by (rule Cons_nth_drop_Suc [symmetric])
    have room: "length out < length dst" using less.prems True by simp
    have step: "utf16_Decode_loop s (Suc i) (over (out @ [x]) dst) (Suc (length out)) =
        Inr (over (out @ x # decode16 (drop (Suc i) s)) dst, length (out @ x # decode16 (drop (Suc i) s)))" for x
      using less.hyps [of "Suc i" "out @ [x]"] less.prems True by simp
    show ?thesis
    proof (cases "Suc i < length s")
      case False
      then have d1: "drop (Suc i) s = []" by simp
      have dec: "decode16 (drop i s) = [if IsSurrogate (uint (s ! i)) then replacementChar else uint (s ! i)]"
        by (simp add: d d1)
      show ?thesis
        unfolding dec using True False room step d1
        by (subst utf16_Decode_loop.simps) (auto simp: Let_def store_over IsSurrogate_def)
    next
      case True2: True
      then have d1: "drop (Suc i) s = s ! Suc i # drop (Suc (Suc i)) s" by (rule Cons_nth_drop_Suc [symmetric])
      have step2: "utf16_Decode_loop s (Suc (Suc i)) (over (out @ [x]) dst) (Suc (length out)) =
        Inr (over (out @ x # decode16 (drop (Suc (Suc i)) s)) dst, length (out @ x # decode16 (drop (Suc (Suc i)) s)))" for x
        using less.hyps [of "Suc (Suc i)" "out @ [x]"] less.prems True True2 by simp
      show ?thesis
      proof (cases "surr1 \<le> uint (s ! i) \<and> uint (s ! i) < surr2 \<and> surr2 \<le> uint (s ! Suc i) \<and> uint (s ! Suc i) < surr3")
        case pair: True
        have dec: "decode16 (drop i s) =
            utf16_DecodeRune (uint (s ! i)) (uint (s ! Suc i)) # decode16 (drop (Suc (Suc i)) s)"
          unfolding d d1 using pair DecodeRune_value by simp
        show ?thesis
          unfolding dec using True True2 room step2 pair
          by (subst utf16_Decode_loop.simps) (simp add: Let_def store_over)
      next
        case nopair: False
        have dec: "decode16 (drop i s) =
            (if IsSurrogate (uint (s ! i)) then replacementChar else uint (s ! i)) # decode16 (drop (Suc i) s)"
          unfolding d d1 using nopair by auto
        show ?thesis
          unfolding dec using True True2 room step nopair
          by (subst utf16_Decode_loop.simps) (auto simp: Let_def store_over IsSurrogate_def)
      qed
    qed
  qed
qed

lemma Decode_decode16: "utf16_Decode s = Inr (decode16 s)"
proof -
  have "utf16_Decode_loop s 0 (over [] (replicate (length s) 0)) (length ([] :: rune list)) =
     Inr (over ([] @ decode16 (drop 0 s)) (replicate (length s) 0), length ([] @ decode16 (drop 0 s)))"
    by (rule Decode_loop_over) simp
  then show ?thesis by (simp add: utf16_Decode_def)
qed

section \<open>Round trip\<close>

lemma uint_of_unit: "0 \<le> k \<Longrightarrow> k < 0x10000 \<Longrightarrow> uint (word_of_int k :: 16 word) = k"
  by (simp add: unsigned_of_int take_bit_int_eq_self)

lemma decode16_single:
  "\<not> IsSurrogate (uint u) \<Longrightarrow> decode16 (u # us) = uint u # decode16 us"
  by (cases us) (auto simp: IsSurrogate_def surr_defs)

lemma high_low:
  assumes "(0x10000 :: int) \<le> r" "r \<le> 0x10FFFF"
  shows "0 \<le> (r - 0x10000) div 0x400" "(r - 0x10000) div 0x400 < 0x400"
    "0 \<le> (r - 0x10000) mod 0x400" "(r - 0x10000) mod 0x400 < 0x400"
    "(r - 0x10000) div 0x400 * 0x400 + (r - 0x10000) mod 0x400 = r - 0x10000"
proof -
  have "(r - 0x10000) div 0x400 \<le> 0xFFFFF div 0x400" by (rule zdiv_mono1) (use assms in simp_all)
  then show "(r - 0x10000) div 0x400 < 0x400" by simp
  show "(r - 0x10000) div 0x400 * 0x400 + (r - 0x10000) mod 0x400 = r - 0x10000" by (rule div_mult_mod_eq)
qed (use assms in \<open>simp_all add: pos_imp_zdiv_nonneg_iff\<close>)

lemma decode16_units: "decode16 (units r @ us) = (if valid_rune r then r else replacementChar) # decode16 us"
proof -
  consider (bad) "\<not> valid_rune r" | (small) "valid_rune r" "r < surrSelf" | (big) "valid_rune r" "surrSelf \<le> r"
    by linarith
  then show ?thesis
  proof cases
    case bad
    then show ?thesis
      using decode16_single [of "word_of_int replacementChar" us] uint_of_unit [of replacementChar]
      by (simp add: units_def IsSurrogate_def surr_defs)
  next
    case small
    then have "uint (word_of_int r :: 16 word) = r"
      by (intro uint_of_unit) (auto simp: valid_rune_def surr_defs)
    then show ?thesis
      using small decode16_single [of "word_of_int r" us] by (simp add: units_def valid_rune_def)
  next
    case big
    define h where "h = (r - 0x10000) div 0x400"
    define l where "l = (r - 0x10000) mod 0x400"
    have b: "0 \<le> h" "h < 0x400" "0 \<le> l" "l < 0x400" and r: "h * 0x400 + l = r - 0x10000"
      using high_low [of r] big unfolding h_def l_def valid_rune_def surr_defs by blast+
    have "uint (word_of_int (0xd800 + h) :: 16 word) = 0xd800 + h" "uint (word_of_int (0xdc00 + l) :: 16 word) = 0xdc00 + l"
      using b by (intro uint_of_unit; simp)+
    moreover have "units r = [word_of_int (0xd800 + h), word_of_int (0xdc00 + l)]"
      using big by (simp add: units_def h_def l_def)
    ultimately show ?thesis using b r big(1) by (simp add: surr_defs)
  qed
qed

lemma decode16_all: "decode16 (concat (map units s)) = map (\<lambda>r. if valid_rune r then r else replacementChar) s"
  by (induction s) (simp_all add: decode16_units)

lemma unit_valid: "valid_rune (if IsSurrogate (uint (u :: 16 word)) then replacementChar else uint u)"
  using uint16_bounds [of u] by (simp add: valid_rune_def IsSurrogate_def surr_defs)

lemma pair_valid:
  "surr1 \<le> a \<Longrightarrow> a < surr2 \<Longrightarrow> surr2 \<le> b \<Longrightarrow> b < surr3 \<Longrightarrow> valid_rune ((a - surr1) * 0x400 + (b - surr2) + 0x10000)"
  by (simp add: valid_rune_def IsSurrogate_def surr_defs)

lemma decode16_valid: "list_all valid_rune (decode16 us)"
proof (induction us rule: decode16.induct)
  case (2 u)
  show ?case using unit_valid [of u] by simp
next
  case (3 u v us)
  show ?case
  proof (cases "surr1 \<le> uint u \<and> uint u < surr2 \<and> surr2 \<le> uint v \<and> uint v < surr3")
    case True
    then show ?thesis using 3(1) pair_valid [of "uint u" "uint v"] by simp
  next
    case False
    then show ?thesis using 3(2) unit_valid [of u] by (simp only: decode16.simps if_not_P list.pred_inject simp_thms)
  qed
qed simp

section \<open>Properties\<close>

text \<open>\<open>Encode\<close> never runs over the array that it sized in its first pass, and \<open>Decode\<close> gives
  back every rune that it encoded, with the replacement character for what is no Unicode code point.
  \<open>EncodeRune\<close> and \<open>DecodeRune\<close> are inverse to each other on surrogate pairs.\<close>

theorem utf16_roundtrip:
  "(\<exists>u. utf16_Encode s = Inr u \<and>
        utf16_Decode u = Inr (map (\<lambda>r. if valid_rune r then r else replacementChar) s)) \<and>
   (r < surrSelf \<or> maxRune16 < r \<or> (case utf16_EncodeRune r of (r1, r2) \<Rightarrow> utf16_DecodeRune r1 r2 = r)) \<and>
   (\<exists>t. utf16_Decode us = Inr t \<and> list_all valid_rune t)"
proof (intro conjI)
  show "\<exists>u. utf16_Encode s = Inr u \<and>
        utf16_Decode u = Inr (map (\<lambda>r. if valid_rune r then r else replacementChar) s)"
    by (simp add: Encode_units Decode_decode16 decode16_all)
  show "\<exists>t. utf16_Decode us = Inr t \<and> list_all valid_rune t"
    by (simp add: Decode_decode16 decode16_valid)
  have "case utf16_EncodeRune r of (r1, r2) \<Rightarrow> utf16_DecodeRune r1 r2 = r" if "surrSelf \<le> r" "r \<le> maxRune16"
  proof -
    define h where "h = (r - 0x10000) div 0x400"
    define l where "l = (r - 0x10000) mod 0x400"
    have b: "0 \<le> h" "h < 0x400" "0 \<le> l" "l < 0x400" and r: "h * 0x400 + l = r - 0x10000"
      using high_low [of r] that unfolding h_def l_def surr_defs by blast+
    then show ?thesis
      using EncodeRune_units [OF that] DecodeRune_value [of "0xd800 + h" "0xdc00 + l"]
      by (simp add: surr_defs flip: h_def l_def)
  qed
  then show "r < surrSelf \<or> maxRune16 < r \<or> (case utf16_EncodeRune r of (r1, r2) \<Rightarrow> utf16_DecodeRune r1 r2 = r)"
    by linarith
qed

end
