(* ===== verification/Go_Hex.thy ===== *)
theory Go_Hex
  imports Go_Slices
begin

unbundle bit_operations_syntax

text \<open>
  Package encoding/hex (src/encoding/hex/hex.go): encoding and decoding of byte slices. The
  destination is a slice of the caller, and every access is bounds checked.
\<close>

section \<open>The code\<close>

definition hextable :: "byte list" where
  "hextable = [48, 49, 50, 51, 52, 53, 54, 55, 56, 57, 97, 98, 99, 100, 101, 102]"

definition hex_EncodedLen :: "nat \<Rightarrow> nat" where
  "hex_EncodedLen n = n * 2"

fun hex_Encode_loop :: "byte list \<Rightarrow> nat \<Rightarrow> byte list \<Rightarrow> panic + byte list" where
  "hex_Encode_loop [] i dst = Inr dst"
| "hex_Encode_loop (v # src) i dst =
     bindE (load_at hextable (unat (drop_bit 4 v))) (\<lambda>h.
     bindE (store_at dst (i * 2) h) (\<lambda>dst.
     bindE (load_at hextable (unat (v AND 0x0f))) (\<lambda>l.
     bindE (store_at dst (i * 2 + 1) l) (\<lambda>dst. hex_Encode_loop src (i + 1) dst))))"

definition hex_Encode :: "byte list \<Rightarrow> byte list \<Rightarrow> panic + byte list \<times> nat" where
  "hex_Encode dst src = bindE (hex_Encode_loop src 0 dst) (\<lambda>dst. Inr (dst, length src * 2))"

datatype hex_error = ErrLength | InvalidByteError byte

definition hex_DecodedLen :: "nat \<Rightarrow> nat" where
  "hex_DecodedLen x = x div 2"

definition fromHexChar :: "byte \<Rightarrow> byte \<times> bool" where
  "fromHexChar c =
     (if 48 \<le> c \<and> c \<le> 57 then (c - 48, True)
      else if 97 \<le> c \<and> c \<le> 102 then (c - 97 + 10, True)
      else if 65 \<le> c \<and> c \<le> 70 then (c - 65 + 10, True)
      else (0, False))"

text \<open>The loop of \<open>Decode\<close> stops with an error, or with the destination filled.\<close>

function hex_Decode_loop :: "byte list \<Rightarrow> nat \<Rightarrow> byte list \<Rightarrow> panic + byte list \<times> hex_error option" where
  "hex_Decode_loop src i dst =
     (if i < length src div 2
      then let ca = src ! (i * 2); cb = src ! (i * 2 + 1); (a, ok) = fromHexChar ca in
           if \<not> ok then Inr (dst, Some (InvalidByteError ca))
           else let (b, ok) = fromHexChar cb in
                if \<not> ok then Inr (dst, Some (InvalidByteError cb))
                else bindE (store_at dst i (push_bit 4 a OR b)) (\<lambda>dst. hex_Decode_loop src (i + 1) dst)
      else Inr (dst, None))"
  by pat_completeness auto
termination
  by (relation "measure (\<lambda>(src, i, dst). length src div 2 - i)") auto

definition hex_Decode :: "byte list \<Rightarrow> byte list \<Rightarrow> panic + byte list \<times> nat \<times> hex_error option" where
  "hex_Decode dst src =
     (if length src mod 2 = 1 then Inr (dst, 0, Some ErrLength)
      else bindE (hex_Decode_loop src 0 dst) (\<lambda>(dst, e).
             case e of None \<Rightarrow> Inr (dst, length src div 2, None) | Some e \<Rightarrow> Inr (dst, 0, Some e)))"

definition hex_EncodeToString :: "byte list \<Rightarrow> panic + gostring" where
  "hex_EncodeToString src =
     bindE (hex_Encode (replicate (hex_EncodedLen (length src)) 0) src) (\<lambda>(dst, n). Inr dst)"

definition hex_DecodeString :: "gostring \<Rightarrow> panic + byte list option \<times> hex_error option" where
  "hex_DecodeString s =
     bindE (hex_Decode (replicate (hex_DecodedLen (length s)) 0) s) (\<lambda>(dst, n, e).
       case e of None \<Rightarrow> Inr (Some dst, None) | Some e \<Rightarrow> Inr (None, Some e))"

declare hex_Decode_loop.simps [simp del]

section \<open>Encoding\<close>

definition hexpair :: "byte \<Rightarrow> byte list" where
  "hexpair v = [hextable ! unat (drop_bit 4 v), hextable ! unat (v AND 0x0f)]"

lemma nibbles: "unat (drop_bit 4 (v :: byte)) = unat v div 16" "unat (v AND 0x0f :: byte) = unat v mod 16"
proof -
  show "unat (drop_bit 4 v) = unat v div 16" by (simp add: unat_div drop_bit_eq_div)
  have "(0x0f :: byte) = mask 4" by (simp add: mask_eq_exp_minus_1)
  then have "v AND 0x0f = take_bit 4 v" by (simp add: take_bit_eq_mask)
  then show "unat (v AND 0x0f) = unat v mod 16" by (simp add: take_bit_eq_mod unat_mod)
qed

lemma unat_byte: "unat (v :: byte) < 256"
  using unsigned_less [of v, where 'a = nat] by simp

lemma nibble_bounds: "unat (drop_bit 4 (v :: byte)) < 16" "unat (v AND 0x0f :: byte) < 16"
  using unat_byte [of v] by (simp_all add: nibbles)

lemma length_hextable: "length hextable = 16"
  by (simp add: hextable_def)

lemma load_hextable:
  "load_at hextable (unat (drop_bit 4 v)) = Inr (hexpair v ! 0)" "load_at hextable (unat (v AND 0x0f)) = Inr (hexpair v ! 1)"
  using nibble_bounds [of v] by (simp_all add: load_at_def length_hextable hexpair_def)

lemma hex_Encode_loop_over:
  assumes "length out = i * 2" "length out + length src * 2 \<le> length dst"
  shows "hex_Encode_loop src i (over out dst) = Inr (over (out @ concat (map hexpair src)) dst)"
  using assms
proof (induction src arbitrary: out i)
  case (Cons v src)
  have "hex_Encode_loop (v # src) i (over out dst) = hex_Encode_loop src (Suc i) (over (out @ hexpair v) dst)"
    using Cons.prems by (simp add: load_hextable store_over) (simp add: hexpair_def)
  also have "\<dots> = Inr (over ((out @ hexpair v) @ concat (map hexpair src)) dst)"
    using Cons.prems by (intro Cons.IH) (simp_all add: hexpair_def)
  finally show ?case by simp
qed simp

lemma hex_Encode_out:
  "length src * 2 \<le> length dst \<Longrightarrow> hex_Encode dst src = Inr (over (concat (map hexpair src)) dst, length src * 2)"
  using hex_Encode_loop_over [of "[]" 0 src dst] by (simp add: hex_Encode_def)

lemma length_hexpairs: "length (concat (map hexpair src)) = length src * 2"
  by (induction src) (simp_all add: hexpair_def)

lemma hex_EncodeToString_out: "hex_EncodeToString src = Inr (concat (map hexpair src))"
  by (simp add: hex_EncodeToString_def hex_EncodedLen_def hex_Encode_out over_full length_hexpairs)

section \<open>Decoding\<close>

fun hexdecode :: "byte list \<Rightarrow> byte list \<times> hex_error option" where
  "hexdecode (a # b # s) =
     (if \<not> snd (fromHexChar a) then ([], Some (InvalidByteError a))
      else if \<not> snd (fromHexChar b) then ([], Some (InvalidByteError b))
      else apfst (Cons (push_bit 4 (fst (fromHexChar a)) OR fst (fromHexChar b))) (hexdecode s))"
| "hexdecode _ = ([], None)"

lemma hex_Decode_loop_over:
  assumes "length out = i" "length src div 2 \<le> length dst"
  shows "hex_Decode_loop src i (over out dst) =
    Inr (over (out @ fst (hexdecode (drop (i * 2) src))) dst, snd (hexdecode (drop (i * 2) src)))"
  using assms
proof (induction "length src div 2 - i" arbitrary: i out rule: less_induct)
  case less
  show ?case
  proof (cases "i < length src div 2")
    case False
    then have "length (drop (i * 2) src) \<le> 1" by simp
    then have "hexdecode (drop (i * 2) src) = ([], None)"
      by (cases "drop (i * 2) src" rule: hexdecode.cases) auto
    then show ?thesis using False by (subst hex_Decode_loop.simps) simp
  next
    case True
    then have d: "drop (i * 2) src = src ! (i * 2) # src ! (i * 2 + 1) # drop (Suc i * 2) src"
      by (simp add: Cons_nth_drop_Suc)
    have ih: "hex_Decode_loop src (Suc i) (over (out @ [v]) dst) =
        Inr (over ((out @ [v]) @ fst (hexdecode (drop (Suc i * 2) src))) dst, snd (hexdecode (drop (Suc i * 2) src)))" for v
      using less.prems True by (intro less.hyps) auto
    show ?thesis
      using True less.prems ih unfolding d
      by (subst hex_Decode_loop.simps) (auto simp: Let_def store_over split: prod.splits)
  qed
qed

definition is_hex :: "byte \<Rightarrow> bool" where
  "is_hex c \<longleftrightarrow> 48 \<le> c \<and> c \<le> 57 \<or> 97 \<le> c \<and> c \<le> 102 \<or> 65 \<le> c \<and> c \<le> 70"

definition hex_lower :: "byte \<Rightarrow> byte" where
  "hex_lower c = (if 65 \<le> c \<and> c \<le> 70 then c + 32 else c)"

lemma byte_all:
  assumes "list_all (\<lambda>k. P (word_of_nat k :: byte)) [0..<256]"
  shows "P a"
proof -
  have "unat a \<in> set [0..<256]" using unat_byte [of a] by simp
  then have "P (word_of_nat (unat a))" using assms by (simp only: list_all_iff)
  then show ?thesis by simp
qed

lemma fromHexChar_hex:
  "snd (fromHexChar c) = is_hex c \<and> (is_hex c \<longrightarrow> fst (fromHexChar c) < 16 \<and>
     hextable ! unat (fst (fromHexChar c)) = hex_lower c)"
  by (rule byte_all [where a = c]) code_simp

lemma fromHexChar_table: "k < 16 \<Longrightarrow> fromHexChar (hextable ! k) = (word_of_nat k, True)"
proof -
  have "list_all (\<lambda>k. fromHexChar (hextable ! k) = (word_of_nat k, True)) [0..<16]" by code_simp
  then show "k < 16 \<Longrightarrow> ?thesis" by (simp only: list_all_iff) simp
qed

lemma nibble_join:
  assumes "x < (16 :: byte)" "y < (16 :: byte)"
  shows "drop_bit 4 (push_bit 4 x OR y) = x \<and> (push_bit 4 x OR y) AND 0x0f = y"
proof -
  let ?P = "\<lambda>x y :: byte. drop_bit 4 (push_bit 4 x OR y) = x \<and> (push_bit 4 x OR y) AND 0x0f = y"
  have "list_all (\<lambda>k. list_all (\<lambda>l. ?P (word_of_nat k) (word_of_nat l)) [0..<16]) [0..<16]" by code_simp
  moreover have "unat x \<in> set [0..<16]" "unat y \<in> set [0..<16]"
    using assms by (simp_all add: word_less_nat_alt)
  ultimately have "?P (word_of_nat (unat x)) (word_of_nat (unat y))" by (simp only: list_all_iff)
  then show ?thesis by simp
qed

lemma join_nibbles: "push_bit 4 (drop_bit 4 v) OR (v AND 0x0f) = (v :: byte)"
  by (rule byte_all [where a = v]) code_simp

lemma hexdecode_pair: "hexdecode (hexpair v @ s) = apfst (Cons v) (hexdecode s)"
proof -
  have "fromHexChar (hexpair v ! 0) = (drop_bit 4 v, True)" "fromHexChar (hexpair v ! 1) = (v AND 0x0f, True)"
    using fromHexChar_table nibble_bounds [of v] by (simp_all add: hexpair_def)
  then show ?thesis using join_nibbles [of v] by (simp add: hexpair_def)
qed

lemma hexdecode_pairs: "hexdecode (concat (map hexpair b)) = (b, None)"
  by (induction b) (simp_all add: hexdecode_pair)

lemma hexpair_decoded:
  assumes "is_hex a" "is_hex c"
  shows "hexpair (push_bit 4 (fst (fromHexChar a)) OR fst (fromHexChar c)) = [hex_lower a, hex_lower c]"
  using assms fromHexChar_hex [of a] fromHexChar_hex [of c]
    nibble_join [of "fst (fromHexChar a)" "fst (fromHexChar c)"] by (simp add: hexpair_def)

lemma hexdecode_ok:
  assumes "even (length s)"
  shows "snd (hexdecode s) = None \<longleftrightarrow> list_all is_hex s"
    and "list_all is_hex s \<Longrightarrow> concat (map hexpair (fst (hexdecode s))) = map hex_lower s"
    and "snd (hexdecode s) = Some e \<Longrightarrow> \<exists>us c vs. s = us @ c # vs \<and> list_all is_hex us \<and> \<not> is_hex c \<and> e = InvalidByteError c"
  using assms
proof (induction s rule: hexdecode.induct)
  case (1 a b s)
  {
    case 1
    then show ?case using "1.IH"(1) fromHexChar_hex by auto
  next
    case 2
    then show ?case using "1.IH"(2) fromHexChar_hex hexpair_decoded by auto
  next
    case 3
    consider "\<not> is_hex a" | "is_hex a" "\<not> is_hex b" | "is_hex a" "is_hex b" by blast
    then show ?case
    proof cases
      case 1
      then show ?thesis using 3 fromHexChar_hex [of a] by (intro exI [of _ "[]"]) auto
    next
      case 2
      then show ?thesis using 3 fromHexChar_hex [of a] fromHexChar_hex [of b] by (intro exI [of _ "[a]"]) auto
    next
      case ab: 3
      then have "snd (hexdecode s) = Some e" using 3 fromHexChar_hex by auto
      then obtain us c vs where "s = us @ c # vs" "list_all is_hex us" "\<not> is_hex c" "e = InvalidByteError c"
        using "1.IH"(3) ab fromHexChar_hex 3 by auto
      then show ?thesis using ab by (intro exI [of _ "a # b # us"]) auto
    qed
  }
qed auto

lemma length_hexdecode: "length (fst (hexdecode s)) \<le> length s div 2"
  by (induction s rule: hexdecode.induct) auto

lemma length_hexdecode_ok:
  "snd (hexdecode s) = None \<Longrightarrow> length (fst (hexdecode s)) = length s div 2"
  by (induction s rule: hexdecode.induct) (auto split: if_splits)

lemma hex_DecodeString_out:
  "hex_DecodeString s =
     Inr (if odd (length s) then (None, Some ErrLength)
          else case snd (hexdecode s) of
                 None \<Rightarrow> (Some (fst (hexdecode s)), None)
               | Some e \<Rightarrow> (None, Some e))"
proof -
  let ?dst = "replicate (length s div 2) (0 :: byte)"
  have "hex_Decode_loop s 0 ?dst = Inr (over (fst (hexdecode s)) ?dst, snd (hexdecode s))"
    using hex_Decode_loop_over [of "[]" 0 s ?dst] by simp
  moreover have "over (fst (hexdecode s)) ?dst = fst (hexdecode s)" if "snd (hexdecode s) = None"
    using that by (intro over_full) (simp add: length_hexdecode_ok)
  ultimately show ?thesis
    by (auto simp: hex_DecodeString_def hex_Decode_def hex_DecodedLen_def odd_iff_mod_2_eq_one split: option.splits)
qed

section \<open>Properties\<close>

text \<open>\<open>DecodeString\<close> gives back what \<open>EncodeToString\<close> encoded. It accepts exactly the strings of
  even length that consist of hexadecimal digits, and its result is then the bytes whose encoding is
  the string in lower case; otherwise the error is \<open>ErrLength\<close> or names the first byte that is no
  digit. No index leaves its slice.\<close>

theorem hex_roundtrip:
  "(\<exists>t. hex_EncodeToString b = Inr t \<and> length t = 2 * length b \<and> hex_DecodeString t = Inr (Some b, None)) \<and>
   (case hex_DecodeString s of
      Inl _ \<Rightarrow> False
    | Inr (Some d, None) \<Rightarrow> even (length s) \<and> list_all is_hex s \<and> hex_EncodeToString d = Inr (map hex_lower s)
    | Inr (None, Some ErrLength) \<Rightarrow> odd (length s)
    | Inr (None, Some (InvalidByteError c)) \<Rightarrow>
        even (length s) \<and> (\<exists>us vs. s = us @ c # vs \<and> list_all is_hex us \<and> \<not> is_hex c)
    | _ \<Rightarrow> False)"
proof (intro conjI)
  show "\<exists>t. hex_EncodeToString b = Inr t \<and> length t = 2 * length b \<and> hex_DecodeString t = Inr (Some b, None)"
    by (simp add: hex_EncodeToString_out hex_DecodeString_out hexdecode_pairs length_hexpairs)
  show "case hex_DecodeString s of
      Inl _ \<Rightarrow> False
    | Inr (Some d, None) \<Rightarrow> even (length s) \<and> list_all is_hex s \<and> hex_EncodeToString d = Inr (map hex_lower s)
    | Inr (None, Some ErrLength) \<Rightarrow> odd (length s)
    | Inr (None, Some (InvalidByteError c)) \<Rightarrow>
        even (length s) \<and> (\<exists>us vs. s = us @ c # vs \<and> list_all is_hex us \<and> \<not> is_hex c)
    | _ \<Rightarrow> False"
  proof (cases "odd (length s)")
    case True
    then show ?thesis by (simp add: hex_DecodeString_out)
  next
    case False
    then have ev: "even (length s)" by simp
    show ?thesis
    proof (cases "snd (hexdecode s)")
      case None
      then show ?thesis
        using ev hexdecode_ok(1,2) [OF ev] by (simp add: hex_DecodeString_out hex_EncodeToString_out)
    next
      case (Some e)
      then obtain us c vs where "s = us @ c # vs" "list_all is_hex us" "\<not> is_hex c" "e = InvalidByteError c"
        using hexdecode_ok(3) [OF ev Some] by blast
      then show ?thesis using Some ev by (auto simp: hex_DecodeString_out)
    qed
  qed
qed

end
