(* ===== verification/Go_Binary.thy ===== *)
theory Go_Binary
  imports Go_Slices
begin

unbundle bit_operations_syntax

text \<open>
  Package encoding/binary: the two byte orders (src/encoding/binary/binary.go) and the variable length
  integers (varint.go). The interface \<open>ByteOrder\<close> is a record of functions, and what its clients rely
  on is the locale \<open>byte_order\<close>, which both orders interpret. Reading or writing structured data by
  reflection is not modelled.
\<close>

section \<open>Byte orders\<close>

record ByteOrder =
  Uint16 :: "byte list \<Rightarrow> panic + 16 word"
  Uint32 :: "byte list \<Rightarrow> panic + 32 word"
  Uint64 :: "byte list \<Rightarrow> panic + 64 word"
  PutUint16 :: "byte list \<Rightarrow> 16 word \<Rightarrow> panic + byte list"
  PutUint32 :: "byte list \<Rightarrow> 32 word \<Rightarrow> panic + byte list"
  PutUint64 :: "byte list \<Rightarrow> 64 word \<Rightarrow> panic + byte list"

text \<open>An index into a slice that is too short is a panic, wherever it comes in the expression.\<close>

definition need :: "nat \<Rightarrow> byte list \<Rightarrow> 'a \<Rightarrow> panic + 'a" where
  "need n b x = (if n \<le> length b then Inr x else Inl IndexOutOfRange)"

definition le_Uint16 :: "byte list \<Rightarrow> panic + 16 word" where
  "le_Uint16 b = need 2 b (ucast (b ! 0) OR push_bit 8 (ucast (b ! 1)))"

definition le_PutUint16 :: "byte list \<Rightarrow> 16 word \<Rightarrow> panic + byte list" where
  "le_PutUint16 b v = need 2 b (b[0 := ucast v, 1 := ucast (drop_bit 8 v)])"

definition le_Uint32 :: "byte list \<Rightarrow> panic + 32 word" where
  "le_Uint32 b = need 4 b
     (ucast (b ! 0) OR push_bit 8 (ucast (b ! 1)) OR push_bit 16 (ucast (b ! 2)) OR push_bit 24 (ucast (b ! 3)))"

definition le_PutUint32 :: "byte list \<Rightarrow> 32 word \<Rightarrow> panic + byte list" where
  "le_PutUint32 b v = need 4 b
     (b[0 := ucast v, 1 := ucast (drop_bit 8 v), 2 := ucast (drop_bit 16 v), 3 := ucast (drop_bit 24 v)])"

definition le_Uint64 :: "byte list \<Rightarrow> panic + 64 word" where
  "le_Uint64 b = need 8 b
     (ucast (b ! 0) OR push_bit 8 (ucast (b ! 1)) OR push_bit 16 (ucast (b ! 2)) OR push_bit 24 (ucast (b ! 3)) OR
      push_bit 32 (ucast (b ! 4)) OR push_bit 40 (ucast (b ! 5)) OR push_bit 48 (ucast (b ! 6)) OR push_bit 56 (ucast (b ! 7)))"

definition le_PutUint64 :: "byte list \<Rightarrow> 64 word \<Rightarrow> panic + byte list" where
  "le_PutUint64 b v = need 8 b
     (b[0 := ucast v, 1 := ucast (drop_bit 8 v), 2 := ucast (drop_bit 16 v), 3 := ucast (drop_bit 24 v),
        4 := ucast (drop_bit 32 v), 5 := ucast (drop_bit 40 v), 6 := ucast (drop_bit 48 v), 7 := ucast (drop_bit 56 v)])"

definition littleEndian :: ByteOrder where
  "littleEndian = \<lparr>Uint16 = le_Uint16, Uint32 = le_Uint32, Uint64 = le_Uint64,
     PutUint16 = le_PutUint16, PutUint32 = le_PutUint32, PutUint64 = le_PutUint64\<rparr>"

definition be_Uint16 :: "byte list \<Rightarrow> panic + 16 word" where
  "be_Uint16 b = need 2 b (ucast (b ! 1) OR push_bit 8 (ucast (b ! 0)))"

definition be_PutUint16 :: "byte list \<Rightarrow> 16 word \<Rightarrow> panic + byte list" where
  "be_PutUint16 b v = need 2 b (b[0 := ucast (drop_bit 8 v), 1 := ucast v])"

definition be_Uint32 :: "byte list \<Rightarrow> panic + 32 word" where
  "be_Uint32 b = need 4 b
     (ucast (b ! 3) OR push_bit 8 (ucast (b ! 2)) OR push_bit 16 (ucast (b ! 1)) OR push_bit 24 (ucast (b ! 0)))"

definition be_PutUint32 :: "byte list \<Rightarrow> 32 word \<Rightarrow> panic + byte list" where
  "be_PutUint32 b v = need 4 b
     (b[0 := ucast (drop_bit 24 v), 1 := ucast (drop_bit 16 v), 2 := ucast (drop_bit 8 v), 3 := ucast v])"

definition be_Uint64 :: "byte list \<Rightarrow> panic + 64 word" where
  "be_Uint64 b = need 8 b
     (ucast (b ! 7) OR push_bit 8 (ucast (b ! 6)) OR push_bit 16 (ucast (b ! 5)) OR push_bit 24 (ucast (b ! 4)) OR
      push_bit 32 (ucast (b ! 3)) OR push_bit 40 (ucast (b ! 2)) OR push_bit 48 (ucast (b ! 1)) OR push_bit 56 (ucast (b ! 0)))"

definition be_PutUint64 :: "byte list \<Rightarrow> 64 word \<Rightarrow> panic + byte list" where
  "be_PutUint64 b v = need 8 b
     (b[0 := ucast (drop_bit 56 v), 1 := ucast (drop_bit 48 v), 2 := ucast (drop_bit 40 v), 3 := ucast (drop_bit 32 v),
        4 := ucast (drop_bit 24 v), 5 := ucast (drop_bit 16 v), 6 := ucast (drop_bit 8 v), 7 := ucast v])"

definition bigEndian :: ByteOrder where
  "bigEndian = \<lparr>Uint16 = be_Uint16, Uint32 = be_Uint32, Uint64 = be_Uint64,
     PutUint16 = be_PutUint16, PutUint32 = be_PutUint32, PutUint64 = be_PutUint64\<rparr>"

section \<open>Varints\<close>

definition MaxVarintLen64 :: nat where
  "MaxVarintLen64 = 10"

function PutUvarint_loop :: "byte list \<Rightarrow> 64 word \<Rightarrow> nat \<Rightarrow> panic + byte list \<times> nat" where
  "PutUvarint_loop buf x i =
     (if x \<ge> 0x80
      then bindE (store_at buf i (ucast x OR 0x80)) (\<lambda>buf. PutUvarint_loop buf (drop_bit 7 x) (i + 1))
      else bindE (store_at buf i (ucast x)) (\<lambda>buf. Inr (buf, i + 1)))"
  by pat_completeness auto
termination
proof (relation "measure (\<lambda>(buf, x, i). unat x)")
  fix buf :: "byte list" and x :: "64 word" and i :: nat and b
  assume "0x80 \<le> x"
  then have "128 \<le> unat x" by (simp add: word_le_nat_alt)
  then have "unat x div 128 < unat x" by simp
  then show "((b, drop_bit 7 x, i + 1), buf, x, i) \<in> measure (\<lambda>(buf, x, i). unat x)"
    by (simp add: unat_div drop_bit_eq_div)
qed simp

definition PutUvarint :: "byte list \<Rightarrow> 64 word \<Rightarrow> panic + byte list \<times> nat" where
  "PutUvarint buf x = PutUvarint_loop buf x 0"

text \<open>The second result of \<open>Uvarint\<close> is the number of bytes read, \<open>0\<close> when the buffer ends too
  early, and negative on overflow. Shifts by 64 or more give 0.\<close>

fun Uvarint_loop :: "byte list \<Rightarrow> nat \<Rightarrow> 64 word \<Rightarrow> nat \<Rightarrow> 64 word \<times> int" where
  "Uvarint_loop [] i x s = (0, 0)"
| "Uvarint_loop (b # buf) i x s =
     (if b < 0x80
      then if i > 9 \<or> i = 9 \<and> b > 1 then (0, - (int i + 1))
           else (x OR push_bit s (ucast b), int i + 1)
      else Uvarint_loop buf (i + 1) (x OR push_bit s (ucast (b AND 0x7f))) (s + 7))"

definition Uvarint :: "byte list \<Rightarrow> 64 word \<times> int" where
  "Uvarint buf = Uvarint_loop buf 0 0 0"

text \<open>Signed values: zig-zag.\<close>

definition PutVarint :: "byte list \<Rightarrow> 64 word \<Rightarrow> panic + byte list \<times> nat" where
  "PutVarint buf x =
     (let ux = push_bit 1 x; ux = (if sint x < 0 then NOT ux else ux) in PutUvarint buf ux)"

definition Varint :: "byte list \<Rightarrow> 64 word \<times> int" where
  "Varint buf =
     (let (ux, n) = Uvarint buf; x = drop_bit 1 ux; x = (if ux AND 1 \<noteq> 0 then NOT x else x) in (x, n))"

text \<open>The reader: \<open>rd\<close> is the method \<open>ReadByte\<close> of the \<open>io.ByteReader\<close>, with its state; its error is
  returned. The loop has no bound of its own, so the model takes fuel; a reader that never fails and
  always delivers bytes with the top bit set makes the code run forever.\<close>

datatype 'e varint_error = ReaderError 'e | Overflow

fun ReadUvarint_loop ::
    "('r \<Rightarrow> ('e + byte) \<times> 'r) \<Rightarrow> nat \<Rightarrow> 'r \<Rightarrow> nat \<Rightarrow> 64 word \<Rightarrow> nat \<Rightarrow> (64 word \<times> 'e varint_error option \<times> 'r) option" where
  "ReadUvarint_loop rd 0 r i x s = None"
| "ReadUvarint_loop rd (Suc k) r i x s =
     (case rd r of
        (Inl e, r) \<Rightarrow> Some (x, Some (ReaderError e), r)
      | (Inr b, r) \<Rightarrow>
          if b < 0x80
          then if i > 9 \<or> i = 9 \<and> b > 1 then Some (x, Some Overflow, r)
               else Some (x OR push_bit s (ucast b), None, r)
          else ReadUvarint_loop rd k r (i + 1) (x OR push_bit s (ucast (b AND 0x7f))) (s + 7))"

definition ReadUvarint :: "('r \<Rightarrow> ('e + byte) \<times> 'r) \<Rightarrow> nat \<Rightarrow> 'r \<Rightarrow> (64 word \<times> 'e varint_error option \<times> 'r) option" where
  "ReadUvarint rd fuel r = ReadUvarint_loop rd fuel r 0 0 0"

definition ReadVarint :: "('r \<Rightarrow> ('e + byte) \<times> 'r) \<Rightarrow> nat \<Rightarrow> 'r \<Rightarrow> (64 word \<times> 'e varint_error option \<times> 'r) option" where
  "ReadVarint rd fuel r =
     map_option (\<lambda>(ux, e, r).
       let x = drop_bit 1 ux; x = (if ux AND 1 \<noteq> 0 then NOT x else x) in (x, e, r))
       (ReadUvarint rd fuel r)"

declare PutUvarint_loop.simps [simp del]

section \<open>The contract of ByteOrder\<close>

locale byte_order =
  fixes D :: ByteOrder
  assumes put16: "2 \<le> length b \<Longrightarrow> \<exists>b'. PutUint16 D b v16 = Inr b' \<and> length b' = length b \<and>
      drop 2 b' = drop 2 b \<and> Uint16 D b' = Inr v16"
    and put32: "4 \<le> length b \<Longrightarrow> \<exists>b'. PutUint32 D b v32 = Inr b' \<and> length b' = length b \<and>
      drop 4 b' = drop 4 b \<and> Uint32 D b' = Inr v32"
    and put64: "8 \<le> length b \<Longrightarrow> \<exists>b'. PutUint64 D b v64 = Inr b' \<and> length b' = length b \<and>
      drop 8 b' = drop 8 b \<and> Uint64 D b' = Inr v64"
    and short16: "length b < 2 \<Longrightarrow> PutUint16 D b v16 = Inl IndexOutOfRange \<and> Uint16 D b = Inl IndexOutOfRange"
    and short32: "length b < 4 \<Longrightarrow> PutUint32 D b v32 = Inl IndexOutOfRange \<and> Uint32 D b = Inl IndexOutOfRange"
    and short64: "length b < 8 \<Longrightarrow> PutUint64 D b v64 = Inl IndexOutOfRange \<and> Uint64 D b = Inl IndexOutOfRange"

text \<open>Reassembling a word from its bytes.\<close>

lemma bytes16: "ucast (ucast v :: byte) OR push_bit 8 (ucast (ucast (drop_bit 8 v) :: byte)) = (v :: 16 word)"
  by (rule bit_word_eqI) (auto simp: bit_simps)

text \<open>One more byte on top of the low \<open>k\<close> bits.\<close>

lemma byte_on_top:
  fixes v :: "'a::len word"
  assumes "k + 8 \<le> LENGTH('a)"
  shows "take_bit k v OR push_bit k (ucast (ucast (drop_bit k v) :: byte)) = take_bit (k + 8) v"
proof (rule bit_word_eqI)
  fix n assume n: "n < LENGTH('a)"
  have "n - k < LENGTH('a) \<and> k + (n - k) = n" if "k \<le> n" using n that by simp
  then show "bit (take_bit k v OR push_bit k (ucast (ucast (drop_bit k v) :: byte))) n = bit (take_bit (k + 8) v) n"
    using n by (cases "n < k") (auto simp: bit_simps)
qed

lemma low_byte: "ucast (ucast (v :: 'a::len word) :: byte) = take_bit 8 v"
  by (rule bit_word_eqI) (auto simp: bit_simps)

lemma bytes32:
  "ucast (ucast v :: byte) OR push_bit 8 (ucast (ucast (drop_bit 8 v) :: byte)) OR
   push_bit 16 (ucast (ucast (drop_bit 16 v) :: byte)) OR push_bit 24 (ucast (ucast (drop_bit 24 v) :: byte)) =
   (v :: 32 word)"
  using byte_on_top [of 8 v] byte_on_top [of 16 v] byte_on_top [of 24 v]
  by (simp add: low_byte or.assoc [symmetric] take_bit_word_eq_self)

lemma bytes64:
  "ucast (ucast v :: byte) OR push_bit 8 (ucast (ucast (drop_bit 8 v) :: byte)) OR
   push_bit 16 (ucast (ucast (drop_bit 16 v) :: byte)) OR push_bit 24 (ucast (ucast (drop_bit 24 v) :: byte)) OR
   push_bit 32 (ucast (ucast (drop_bit 32 v) :: byte)) OR push_bit 40 (ucast (ucast (drop_bit 40 v) :: byte)) OR
   push_bit 48 (ucast (ucast (drop_bit 48 v) :: byte)) OR push_bit 56 (ucast (ucast (drop_bit 56 v) :: byte)) =
   (v :: 64 word)"
  using byte_on_top [of 8 v] byte_on_top [of 16 v] byte_on_top [of 24 v] byte_on_top [of 32 v]
    byte_on_top [of 40 v] byte_on_top [of 48 v] byte_on_top [of 56 v]
  by (simp add: low_byte or.assoc [symmetric] take_bit_word_eq_self)

text \<open>Big-endian reads the same bytes in the same order of significance, from the other end.\<close>

lemmas order_defs = littleEndian_def bigEndian_def need_def
  le_Uint16_def le_Uint32_def le_Uint64_def le_PutUint16_def le_PutUint32_def le_PutUint64_def
  be_Uint16_def be_Uint32_def be_Uint64_def be_PutUint16_def be_PutUint32_def be_PutUint64_def

lemma first_byte:
  "2 \<le> length b \<Longrightarrow> b[0 := x] ! 0 = x" "4 \<le> length b \<Longrightarrow> b[0 := x] ! 0 = x" "8 \<le> length b \<Longrightarrow> b[0 := x] ! 0 = x"
  by (rule nth_list_update_eq; linarith)+

interpretation le: byte_order littleEndian
  by unfold_locales (simp_all add: order_defs first_byte bytes16 bytes32 bytes64)

interpretation be: byte_order bigEndian
  by unfold_locales (simp_all add: order_defs first_byte bytes16 bytes32 bytes64)

section \<open>What the varint format denotes\<close>

text \<open>The number that a sequence of bytes stands for, seven bits each, and the number a Uvarint with
  \<open>n\<close> bits left becomes.\<close>

fun uval :: "byte list \<Rightarrow> nat" where
  "uval [] = 0"
| "uval (b # bs) = unat (b AND 0x7f) + 128 * uval bs"

fun uvarint :: "nat \<Rightarrow> byte list" where
  "uvarint x = (if x < 128 then [word_of_nat x] else word_of_nat (x mod 128 + 128) # uvarint (x div 128))"

declare uvarint.simps [simp del]

definition continued :: "byte list \<Rightarrow> byte list" where
  "continued buf = takeWhile (\<lambda>b. 0x80 \<le> b) buf"

definition complete :: "byte list \<Rightarrow> bool" where
  "complete bs \<longleftrightarrow> bs \<noteq> [] \<and> list_all (\<lambda>b. 0x80 \<le> b) (butlast bs) \<and> last bs < 0x80"

lemma complete_Cons: "complete (b # bs) \<longleftrightarrow> (if b < 0x80 then bs = [] else complete bs)"
  by (auto simp: complete_def not_less)

lemma low7: "unat (b AND 0x7f :: byte) = unat b mod 128"
proof -
  have "b AND 0x7f = take_bit 7 b" by (simp add: take_bit_eq_mask mask_eq_exp_minus_1)
  then show ?thesis by (simp add: unat_mod take_bit_eq_mod)
qed

lemma uvarint_complete: "complete (uvarint n)"
proof (induction n rule: uvarint.induct)
  case (1 x)
  have "128 \<le> x mod 128 + 128 \<and> x mod 128 + 128 < 256" by simp
  then have "\<not> word_of_nat (x mod 128 + 128) < (0x80 :: byte)"
    by (simp only: word_less_nat_alt unat_of_nat) simp
  moreover have "word_of_nat x < (0x80 :: byte)" if "x < 128"
    using that by (simp add: word_less_nat_alt unat_of_nat)
  ultimately show ?case using 1 by (subst uvarint.simps) (simp add: complete_Cons)
qed

lemma uval_uvarint: "uval (uvarint n) = n"
proof (induction n rule: uvarint.induct)
  case (1 x)
  have "(x mod 128 + 128) mod 256 = x mod 128 + 128" by simp
  then have "unat (word_of_nat (x mod 128 + 128) AND 0x7f :: byte) = x mod 128"
    by (simp only: low7 unat_of_nat) simp
  moreover have "unat (word_of_nat x AND 0x7f :: byte) = x" if "x < 128"
    using that by (simp add: low7 unat_of_nat)
  ultimately show ?case using 1 by (subst uvarint.simps) simp
qed

lemma length_uvarint: "n < 128 ^ k \<Longrightarrow> 0 < k \<Longrightarrow> length (uvarint n) \<le> k"
proof (induction k arbitrary: n)
  case (Suc k)
  show ?case
  proof (cases "n < 128")
    case False
    then have "n div 128 < 128 ^ k" and "0 < k"
      using Suc.prems by (auto simp: less_mult_imp_div_less mult.commute intro: Nat.gr0I)
    then show ?thesis using Suc.IH False by (subst uvarint.simps) simp
  qed (simp add: uvarint.simps [of n])
qed simp

lemma length_uvarint64: "length (uvarint (unat (x :: 64 word))) \<le> 10"
proof (rule length_uvarint)
  show "unat x < 128 ^ 10" using unsigned_less [of x, where 'a = nat] by simp
qed simp

section \<open>Encoding and decoding\<close>

lemma bit_80: "bit (0x80 :: int) n \<longleftrightarrow> n = 7"
  using bit_exp_iff [of 7 n, where 'a = int] by auto

lemma uvarint_byte:
  fixes x :: "64 word"
  shows "x < 0x80 \<longleftrightarrow> unat x < 128"
    and "ucast x OR (0x80 :: byte) = word_of_nat (unat x mod 128 + 128)"
    and "unat (drop_bit 7 x) = unat x div 128"
proof -
  show "x < 0x80 \<longleftrightarrow> unat x < 128" by (simp add: word_less_nat_alt)
  show "unat (drop_bit 7 x) = unat x div 128" by (simp add: unat_div drop_bit_eq_div)
  have "ucast x OR (0x80 :: byte) = take_bit 7 (ucast x) OR 0x80"
    by (rule bit_word_eqI) (auto simp: bit_simps bit_80)
  also have "take_bit 7 (ucast x) OR (0x80 :: byte) = take_bit 7 (ucast x) + 0x80"
    by (rule disjunctive_add [symmetric]) (auto simp: bit_simps bit_80)
  also have "\<dots> = word_of_nat (unat x mod 128 + 128)"
  proof -
    have "take_bit 7 (ucast x :: byte) = word_of_nat (unat x mod 128)"
      by (simp add: word_unat_eq_iff unsigned_take_bit_eq unsigned_ucast_eq unsigned_of_nat)
        (simp add: take_bit_eq_mod mod_mod_cancel)
    then show ?thesis by simp
  qed
  finally show "ucast x OR (0x80 :: byte) = word_of_nat (unat x mod 128 + 128)" .
qed

lemma PutUvarint_loop_over:
  "length out \<le> length buf \<Longrightarrow>
   PutUvarint_loop (over out buf) x (length out) =
     (let e = uvarint (unat x) in
      if length out + length e \<le> length buf then Inr (over (out @ e) buf, length out + length e)
      else Inl IndexOutOfRange)"
proof (induction "unat x" arbitrary: x out rule: uvarint.induct)
  case 1
  show ?case
  proof (cases "length out < length buf")
    case False
    then have "length out = length buf" using 1 by simp
    moreover have "uvarint (unat x) \<noteq> []" by (subst uvarint.simps) simp
    ultimately show ?thesis
      using store_over_out [OF \<open>length out = length buf\<close>]
      by (subst PutUvarint_loop.simps) (simp add: Let_def)
  next
    case lt: True
    show ?thesis
    proof (cases "x < 0x80")
      case True
      then have "\<not> 0x80 \<le> x" "unat x < 128" by (simp_all add: uvarint_byte(1) not_le)
      then show ?thesis using lt
        by (subst PutUvarint_loop.simps, subst uvarint.simps)
          (simp add: store_over Let_def Suc_le_eq)
    next
      case False
      let ?b = "word_of_nat (unat x mod 128 + 128) :: byte"
      have "\<not> unat x < 128" using False by (simp add: uvarint_byte)
      then have e: "uvarint (unat x) = ?b # uvarint (unat (drop_bit 7 x))"
        by (subst uvarint.simps) (simp add: uvarint_byte)
      have "PutUvarint_loop (over out buf) x (length out) =
          PutUvarint_loop (over (out @ [?b]) buf) (drop_bit 7 x) (length (out @ [?b]))"
        using False lt by (subst PutUvarint_loop.simps) (simp add: store_over uvarint_byte(2) not_less)
      also have "\<dots> = (let e = uvarint (unat (drop_bit 7 x)) in
          if length (out @ [?b]) + length e \<le> length buf
          then Inr (over ((out @ [?b]) @ e) buf, length (out @ [?b]) + length e) else Inl IndexOutOfRange)"
        using lt \<open>\<not> unat x < 128\<close> by (intro 1(1)) (simp_all add: uvarint_byte)
      finally show ?thesis by (simp add: e Let_def)
    qed
  qed
qed

lemma PutUvarint_out:
  "PutUvarint buf x =
     (let e = uvarint (unat x) in
      if length e \<le> length buf then Inr (over e buf, length e) else Inl IndexOutOfRange)"
  using PutUvarint_loop_over [of "[]" buf x] by (simp add: PutUvarint_def Let_def)

text \<open>Reading: the accumulated value occupies the low \<open>s\<close> bits.\<close>

lemma or_shifted:
  fixes x :: "64 word"
  assumes "unat x < 2 ^ s" and "unat x + 2 ^ s * c < 2 ^ 64" and "c = unat (b :: byte)"
  shows "unat (x OR push_bit s (ucast b)) = unat x + 2 ^ s * c"
proof -
  have "unat (push_bit s (ucast b :: 64 word)) = 2 ^ s * c"
  proof -
    have "unat (ucast b :: 64 word) = c"
      using assms(3) unsigned_less [of b, where 'a = nat] by (simp add: unsigned_ucast_eq take_bit_nat_eq_self_iff)
    then have "unat (push_bit s (ucast b :: 64 word)) = take_bit 64 (2 ^ s * c)"
      by (simp only: unsigned_push_bit_eq) (simp add: push_bit_eq_mult mult.commute)
    also have "\<dots> = 2 ^ s * c" using assms(2) by (simp only: take_bit_nat_eq_self_iff)
    finally show ?thesis .
  qed
  moreover have "x OR push_bit s (ucast b) = x + push_bit s (ucast b)"
  proof (rule disjunctive_add [symmetric])
    fix n
    have "\<not> bit x n" if "s \<le> n"
    proof -
      have "take_bit s (unat x) = unat x" using assms(1) by (simp add: take_bit_nat_eq_self_iff)
      then have "take_bit s x = x" by (simp add: word_unat_eq_iff unsigned_take_bit_eq)
      then have "bit x n \<longleftrightarrow> bit (take_bit s x) n" by simp
      then show ?thesis using that by (simp add: bit_simps)
    qed
    then show "\<not> bit x n \<or> \<not> bit (push_bit s (ucast b)) n" by (auto simp: bit_simps)
  qed
  ultimately show ?thesis using assms(2) by (simp add: unat_word_ariths)
qed

lemma Uvarint_loop_continued: "list_all (\<lambda>b. 0x80 \<le> b) buf \<Longrightarrow> Uvarint_loop buf i x s = (0, 0)"
  by (induction buf arbitrary: i x s) (auto simp: not_less)

lemma Uvarint_loop_long: "complete e \<Longrightarrow> 9 < i \<Longrightarrow> Uvarint_loop (e @ t) i x s = (0, - int (i + length e))"
  by (induction e arbitrary: i x s) (auto simp: complete_Cons complete_def [of "[]"] split: if_splits)

lemma low_total:
  assumes "unat (x :: 64 word) < 2 ^ (7 * i)" and "c < 128"
  shows "unat x + 2 ^ (7 * i) * c < 2 ^ (7 * Suc i)"
proof -
  have "2 ^ (7 * i) * c + 2 ^ (7 * i) \<le> (2 :: nat) ^ (7 * i) * 128" using assms(2) by simp
  also have "\<dots> = 2 ^ (7 * Suc i)" by (simp add: power_add)
  finally show ?thesis using assms(1) by linarith
qed

lemma low_fits: "unat (x :: 64 word) < 2 ^ (7 * i) \<Longrightarrow> c < 128 \<Longrightarrow> i \<le> 8 \<Longrightarrow> unat x + 2 ^ (7 * i) * c < 2 ^ 64"
proof -
  assume a: "unat x < 2 ^ (7 * i)" "c < 128" "i \<le> 8"
  have "(2 :: nat) ^ (7 * Suc i) \<le> 2 ^ 64" by (rule power_increasing) (use a in simp_all)
  then show ?thesis using low_total [OF a(1,2)] by linarith
qed

lemma Uvarint_loop_complete:
  "complete e \<Longrightarrow> i \<le> 9 \<Longrightarrow> unat x < 2 ^ (7 * i) \<Longrightarrow>
   Uvarint_loop (e @ t) i x (7 * i) =
     (if i + length e \<le> 10 \<and> unat x + 2 ^ (7 * i) * uval e < 2 ^ 64
      then (word_of_nat (unat x + 2 ^ (7 * i) * uval e), int (i + length e))
      else (0, - int (i + length e)))"
proof (induction e arbitrary: i x)
  case Nil
  then show ?case by (simp add: complete_def)
next
  case (Cons b e)
  define c where "c = unat (b AND 0x7f)"
  have c: "c < 128" by (simp add: c_def low7)
  show ?case
  proof (cases "b < 0x80")
    case b: True
    then have e: "e = []" using Cons.prems by (simp add: complete_Cons)
    have cb: "c = unat b" using b by (simp add: c_def low7 word_less_nat_alt)
    have fits: "(i > 9 \<or> i = 9 \<and> b > 1) \<longleftrightarrow> \<not> unat x + 2 ^ (7 * i) * c < 2 ^ 64"
    proof (cases "i = 9")
      case True
      have "b > 1 \<longleftrightarrow> 1 < c" by (simp add: cb word_less_nat_alt)
      then show ?thesis using True Cons.prems(3) by auto
    next
      case False
      then show ?thesis using low_fits [OF Cons.prems(3) c] Cons.prems(2) by simp
    qed
    have "x OR push_bit (7 * i) (ucast b) = word_of_nat (unat x + 2 ^ (7 * i) * c)"
      if "unat x + 2 ^ (7 * i) * c < 2 ^ 64"
      by (simp add: or_shifted [OF Cons.prems(3) that cb, symmetric])
    then show ?thesis using b fits Cons.prems(2) by (simp add: e c_def [symmetric])
  next
    case b: False
    then have e: "complete e" using Cons.prems by (simp add: complete_Cons)
    then have ne: "e \<noteq> []" by (simp add: complete_def)
    define x' where "x' = x OR push_bit (7 * i) (ucast (b AND 0x7f))"
    have step: "Uvarint_loop ((b # e) @ t) i x (7 * i) = Uvarint_loop (e @ t) (Suc i) x' (7 * Suc i)"
      using b by (simp add: x'_def add.commute)
    show ?thesis
    proof (cases "i = 9")
      case True
      then have "Uvarint_loop (e @ t) (Suc i) x' (7 * Suc i) = (0, - int (Suc i + length e))"
        by (intro Uvarint_loop_long [OF e]) simp
      moreover have "\<not> i + length (b # e) \<le> 10" using ne True by (cases e) simp_all
      ultimately show ?thesis unfolding step by simp
    next
      case False
      then have i: "i \<le> 8" using Cons.prems(2) by simp
      have ux: "unat x' = unat x + 2 ^ (7 * i) * c"
        unfolding x'_def by (rule or_shifted [OF Cons.prems(3) low_fits [OF Cons.prems(3) c i] c_def])
      then have "unat x' < 2 ^ (7 * Suc i)" using low_total [OF Cons.prems(3) c] by simp
      moreover have "unat x' + 2 ^ (7 * Suc i) * uval e = unat x + 2 ^ (7 * i) * uval (b # e)"
        by (simp add: ux c_def [symmetric] power_add algebra_simps)
      ultimately show ?thesis
        using Cons.IH [OF e, of "Suc i" x'] i by (simp only: step) simp
    qed
  qed
qed

lemma Uvarint_complete:
  "complete e \<Longrightarrow> Uvarint (e @ t) =
     (if length e \<le> 10 \<and> uval e < 2 ^ 64 then (word_of_nat (uval e), int (length e)) else (0, - int (length e)))"
  using Uvarint_loop_complete [of e 0 0 t] by (simp add: Uvarint_def)

lemma split_varint:
  "list_all (\<lambda>b. 0x80 \<le> b) buf \<or> (\<exists>e t. buf = e @ t \<and> complete e)"
proof (induction buf)
  case (Cons b buf)
  show ?case
  proof (cases "b < 0x80")
    case True
    then have "b # buf = [b] @ buf \<and> complete [b]" by (simp add: complete_def)
    then show ?thesis by blast
  next
    case False
    then show ?thesis using Cons.IH
    proof (elim disjE exE conjE)
      fix e t assume "buf = e @ t" "complete e"
      then have "b # buf = (b # e) @ t \<and> complete (b # e)" using False by (simp add: complete_Cons)
      then show ?thesis by blast
    qed (simp add: not_less)
  qed
qed simp

lemma Uvarint_uvarint: "Uvarint (uvarint (unat x) @ t) = (x, int (length (uvarint (unat x))))"
  using Uvarint_complete [OF uvarint_complete [of "unat x"], of t] length_uvarint64 [of x]
    unsigned_less [of x, where 'a = nat]
  by (simp add: uval_uvarint)

lemma zigzag_back:
  fixes x :: "64 word"
  defines "ux \<equiv> (if sint x < 0 then NOT (push_bit 1 x) else push_bit 1 x)"
  shows "(if ux AND 1 \<noteq> 0 then NOT (drop_bit 1 ux) else drop_bit 1 ux) = x"
proof -
  have s: "sint x < 0 \<longleftrightarrow> bit x 63" by (simp add: sint_uint signed_take_bit_negative_iff bit_uint_iff)
  have o: "ux AND 1 \<noteq> 0 \<longleftrightarrow> bit ux 0" by (simp add: bit_0 odd_iff_mod_2_eq_one and_one_eq)
  define p where "p = push_bit 1 x"
  have p: "bit p n \<longleftrightarrow> 1 \<le> n \<and> n < 64 \<and> bit x (n - 1)" for n
    unfolding p_def by (simp only: bit_push_bit_iff) auto
  have u: "ux = (if sint x < 0 then NOT p else p)" by (simp only: ux_def p_def)
  show ?thesis
  proof (rule bit_word_eqI)
    fix n assume "n < LENGTH(64)"
    then consider "n < 63" | "n = 63" by force
    then show "bit (if ux AND 1 \<noteq> 0 then NOT (drop_bit 1 ux) else drop_bit 1 ux) n = bit x n"
      unfolding o by cases (auto simp: u s p bit_simps)
  qed
qed

lemma Varint_PutVarint:
  "PutVarint buf x =
     (let e = uvarint (unat (if sint x < 0 then NOT (push_bit 1 x) else push_bit 1 x)) in
      if length e \<le> length buf then Inr (over e buf, length e) else Inl IndexOutOfRange)"
  by (simp only: PutVarint_def Let_def PutUvarint_out)

lemma Varint_uvarint:
  "Varint (uvarint (unat (if sint x < 0 then NOT (push_bit 1 x) else push_bit 1 x)) @ t) =
     (x, int (length (uvarint (unat (if sint x < 0 then NOT (push_bit 1 x) else push_bit 1 x)))))"
  by (simp only: Varint_def Uvarint_uvarint Let_def prod.case zigzag_back)

section \<open>Readers\<close>

text \<open>\<open>delivers rd r bs r'\<close>: from state \<open>r\<close> the reader gives the bytes \<open>bs\<close> and is then in \<open>r'\<close>.\<close>

fun delivers :: "('r \<Rightarrow> ('e + byte) \<times> 'r) \<Rightarrow> 'r \<Rightarrow> byte list \<Rightarrow> 'r \<Rightarrow> bool" where
  "delivers rd r [] r' \<longleftrightarrow> r' = r"
| "delivers rd r (b # bs) r' \<longleftrightarrow> (case rd r of (Inr c, r1) \<Rightarrow> c = b \<and> delivers rd r1 bs r' | _ \<Rightarrow> False)"

lemma delivers_Cons: "delivers rd r (b # bs) r' \<longleftrightarrow> (\<exists>r1. rd r = (Inr b, r1) \<and> delivers rd r1 bs r')"
  by (auto split: prod.splits sum.splits)

lemma ReadUvarint_loop_complete:
  "complete e \<Longrightarrow> delivers rd r e r' \<Longrightarrow> length e \<le> fuel \<Longrightarrow>
   \<exists>y. ReadUvarint_loop rd fuel r i x s =
     (case Uvarint_loop e i x s of
        (v, n) \<Rightarrow> if 0 < n then Some (v, None, r') else Some (y, Some Overflow, r'))"
proof (induction e arbitrary: fuel r i x s)
  case Nil
  then show ?case by (simp add: complete_def)
next
  case (Cons b e)
  obtain k where k: "fuel = Suc k" "length e \<le> k" using Cons.prems(3) by (cases fuel) auto
  obtain r1 where r1: "rd r = (Inr b, r1)" "delivers rd r1 e r'"
    using Cons.prems(2) unfolding delivers_Cons by blast
  show ?case
  proof (cases "b < 0x80")
    case True
    then have "e = []" using Cons.prems(1) by (simp add: complete_Cons)
    then show ?thesis using True r1 k by simp
  next
    case False
    then have "complete e" using Cons.prems(1) by (simp add: complete_Cons)
    from Cons.IH [OF this r1(2) k(2), of "i + 1" "x OR push_bit s (ucast (b AND 0x7f))" "s + 7"]
    show ?thesis using False r1 k by simp
  qed
qed

lemma ReadUvarint_loop_error:
  "list_all (\<lambda>b. 0x80 \<le> b) bs \<Longrightarrow> delivers rd r bs r1 \<Longrightarrow> rd r1 = (Inl err, r2) \<Longrightarrow> length bs < fuel \<Longrightarrow>
   \<exists>y. ReadUvarint_loop rd fuel r i x s = Some (y, Some (ReaderError err), r2)"
proof (induction bs arbitrary: fuel r i x s)
  case Nil
  then show ?case by (cases fuel) auto
next
  case (Cons b bs)
  obtain k where k: "fuel = Suc k" "length bs < k" using Cons.prems(4) by (cases fuel) auto
  obtain r3 where r3: "rd r = (Inr b, r3)" "delivers rd r3 bs r1"
    using Cons.prems(2) unfolding delivers_Cons by blast
  have "list_all (\<lambda>b. 0x80 \<le> b) bs" "\<not> b < 0x80" using Cons.prems(1) by (simp_all add: not_less)
  then show ?case using Cons.IH [OF _ r3(2) Cons.prems(3) k(2), of "i + 1" "x OR push_bit s (ucast (b AND 0x7f))" "s + 7"] r3(1) k(1)
    by simp
qed

section \<open>Properties\<close>

text \<open>Both byte orders give back the value that was put, into slices of at least its size, write
  only those bytes, and panic on shorter slices. The first byte of a big-endian value is its most
  significant one, the first byte of a little-endian value its least significant one.\<close>

theorem byte_orders_roundtrip:
  "D \<in> {littleEndian, bigEndian} \<Longrightarrow>
   (if 2 \<le> length b then (\<exists>b'. PutUint16 D b v16 = Inr b' \<and> length b' = length b \<and> drop 2 b' = drop 2 b \<and> Uint16 D b' = Inr v16)
    else PutUint16 D b v16 = Inl IndexOutOfRange \<and> Uint16 D b = Inl IndexOutOfRange) \<and>
   (if 4 \<le> length b then (\<exists>b'. PutUint32 D b v32 = Inr b' \<and> length b' = length b \<and> drop 4 b' = drop 4 b \<and> Uint32 D b' = Inr v32)
    else PutUint32 D b v32 = Inl IndexOutOfRange \<and> Uint32 D b = Inl IndexOutOfRange) \<and>
   (if 8 \<le> length b then (\<exists>b'. PutUint64 D b v64 = Inr b' \<and> length b' = length b \<and> drop 8 b' = drop 8 b \<and> Uint64 D b' = Inr v64)
    else PutUint64 D b v64 = Inl IndexOutOfRange \<and> Uint64 D b = Inl IndexOutOfRange) \<and>
   PutUint16 bigEndian (replicate 2 0) v16 = map_sum id rev (PutUint16 littleEndian (replicate 2 0) v16) \<and>
   PutUint32 bigEndian (replicate 4 0) v32 = map_sum id rev (PutUint32 littleEndian (replicate 4 0) v32) \<and>
   PutUint64 bigEndian (replicate 8 0) v64 = map_sum id rev (PutUint64 littleEndian (replicate 8 0) v64) \<and>
   map_sum id hd (PutUint64 littleEndian (replicate 8 0) v64) = Inr (ucast v64)"
proof -
  assume "D \<in> {littleEndian, bigEndian}"
  then have D: "byte_order D" using le.byte_order_axioms be.byte_order_axioms by blast
  show ?thesis
    using byte_order.put16 [OF D, of b v16] byte_order.put32 [OF D, of b v32] byte_order.put64 [OF D, of b v64]
      byte_order.short16 [OF D, of b v16] byte_order.short32 [OF D, of b v32] byte_order.short64 [OF D, of b v64]
    by (simp add: not_le order_defs numeral_eq_Suc)
qed

lemma byte_orders_roundtrip_witness:
  "\<exists>b'. PutUint16 bigEndian [1, 2, 3] 0xabcd = Inr b' \<and> length b' = 3 \<and> drop 2 b' = [3] \<and> Uint16 bigEndian b' = Inr 0xabcd"
  using byte_orders_roundtrip [of bigEndian "[1, 2, 3]" "0xabcd" 0 0] by (simp add: numeral_3_eq_3)

text \<open>C29: \<open>PutUvarint\<close> and \<open>PutVarint\<close> write at most \<open>MaxVarintLen64\<close> = 10 bytes, or panic when the
  slice is too short; \<open>Uvarint\<close> and \<open>Varint\<close> then give back the value and the number of bytes, whatever
  follows in the buffer.\<close>

theorem varint_roundtrip:
  "(case PutUvarint buf x of
      Inl p \<Rightarrow> p = IndexOutOfRange \<and> length buf < MaxVarintLen64
    | Inr (buf', n) \<Rightarrow> 0 < n \<and> n \<le> MaxVarintLen64 \<and> length buf' = length buf \<and> drop n buf' = drop n buf \<and>
        (\<forall>t. Uvarint (take n buf' @ t) = (x, int n))) \<and>
   (case PutVarint buf x of
      Inl p \<Rightarrow> p = IndexOutOfRange \<and> length buf < MaxVarintLen64
    | Inr (buf', n) \<Rightarrow> 0 < n \<and> n \<le> MaxVarintLen64 \<and> length buf' = length buf \<and> drop n buf' = drop n buf \<and>
        (\<forall>t. Varint (take n buf' @ t) = (x, int n)))"
proof -
  have "0 < length (uvarint n)" for n by (subst uvarint.simps) simp
  moreover have "drop (length e) (over e buf) = drop (length e) buf" for e by (simp add: over_def)
  moreover have "length buf < 10" if "length buf < length (uvarint (unat y))" for y :: "64 word"
    using that length_uvarint64 [of y] by linarith
  ultimately show ?thesis
    using length_uvarint64
    by (simp add: PutUvarint_out Varint_PutVarint Let_def Uvarint_uvarint Varint_uvarint MaxVarintLen64_def not_le
        del: push_bit_of_Suc_0)
qed

text \<open>C38: \<open>Uvarint\<close> on every buffer. Without a byte below 128 the result is \<open>(0, 0)\<close>; otherwise the
  encoding \<open>e\<close> ends at the first such byte, and it is read if it has at most ten bytes and its number is
  below \<open>2 ^ 64\<close>, and else is an overflow, with minus the number of bytes read. \<open>ReadUvarint\<close> agrees,
  consuming just \<open>e\<close>, and it returns the error of its reader.\<close>

theorem Uvarint_exact:
  "(list_all (\<lambda>b. 0x80 \<le> b) buf \<and> Uvarint buf = (0, 0) \<and>
      (delivers rd r buf r1 \<and> rd r1 = (Inl err, r2) \<and> length buf < fuel \<longrightarrow>
        (\<exists>y. ReadUvarint rd fuel r = Some (y, Some (ReaderError err), r2)))) \<or>
   (\<exists>e t. buf = e @ t \<and> complete e \<and>
      (if length e \<le> MaxVarintLen64 \<and> uval e < 2 ^ 64
       then Uvarint buf = (word_of_nat (uval e), int (length e)) \<and>
         (delivers rd r e r1 \<and> length e \<le> fuel \<longrightarrow> ReadUvarint rd fuel r = Some (word_of_nat (uval e), None, r1))
       else Uvarint buf = (0, - int (length e)) \<and>
         (delivers rd r e r1 \<and> length e \<le> fuel \<longrightarrow> (\<exists>y. ReadUvarint rd fuel r = Some (y, Some Overflow, r1)))))"
  using split_varint [of buf]
proof (elim disjE exE conjE)
  assume "list_all (\<lambda>b. 0x80 \<le> b) buf"
  then show ?thesis
    using Uvarint_loop_continued [of buf 0 0 0] ReadUvarint_loop_error [of buf rd r r1 err r2 fuel 0 0 0]
    by (auto simp: Uvarint_def ReadUvarint_def)
next
  fix e t assume e: "buf = e @ t" "complete e"
  then have "0 < length e" by (simp add: complete_def)
  then show ?thesis
    using e Uvarint_complete [OF e(2), of t] Uvarint_complete [OF e(2), of "[]"]
      ReadUvarint_loop_complete [OF e(2), of rd r r1 fuel 0 0 0]
    by (intro disjI2 exI [of _ e] exI [of _ t])
      (auto simp: Uvarint_def ReadUvarint_def MaxVarintLen64_def split: if_splits)
qed

lemma Uvarint_exact_witness:
  "Uvarint [0xac, 2, 7] = (300, 2) \<and>
   ReadUvarint (\<lambda>r. case r of [] \<Rightarrow> (Inl (), []) | b # r \<Rightarrow> (Inr b, r)) 3 [0xac, 2, 7] = Some (300, None, [7])"
proof -
  have "delivers (\<lambda>r. case r of [] \<Rightarrow> (Inl (), []) | b # r \<Rightarrow> (Inr b, r)) [0xac, 2, 7] [0xac, 2 :: byte] [7]" by simp
  moreover have only: "e = [0xac, 2]" if "[0xac, 2, 7] = e @ t" "complete e" for e t :: "byte list"
    using that by (cases e; cases "tl e") (auto simp: complete_Cons complete_def Cons_eq_append_conv split: if_splits)
  moreover have "uval [0xac, 2] = 300" by (simp add: low7)
  moreover have "\<not> list_all (\<lambda>b. 0x80 \<le> b) [0xac, 2, 7 :: byte]" by simp
  ultimately show ?thesis
    using Uvarint_exact [of "[0xac, 2, 7]" "\<lambda>r. case r of [] \<Rightarrow> (Inl (), []) | b # r \<Rightarrow> (Inr b, r)"
      "[0xac, 2, 7]" "[7]" "()" "[]" 3]
    by (elim disjE exE conjE) (blast, frule (1) only, simp add: MaxVarintLen64_def)
qed

end
