(* ===== verification/Go_Strings.thy ===== *)
theory Go_Strings
  imports Go_Runes Go_Slices "HOL-Library.Sublist"
begin

text \<open>
  Package strings (src/strings/strings.go): substring search with the rolling hash of Rabin and Karp
  (\<open>Index\<close>, \<open>LastIndex\<close>, \<open>Count\<close>), splitting, joining, replacing and repeating. Strings are byte lists;
  positions are \<open>nat\<close>, results that can be -1 are \<open>int\<close>. The hash is computed on 32-bit words, with
  their wrap-around. \<open>IndexByte\<close> is assembly; it is modelled by what strings_decl.go says of it.

  A slice expression \<open>s[a:b]\<close> whose bounds the surrounding conditions already check is \<open>seg s a b\<close>; the
  others are \<open>slice\<close>, which panics.
\<close>

section \<open>Slices and copy\<close>

definition slice :: "'a list \<Rightarrow> int \<Rightarrow> int \<Rightarrow> panic + 'a list" where
  "slice s a b = (if 0 \<le> a \<and> a \<le> b \<and> b \<le> int (length s) then Inr (seg s (nat a) (nat b)) else Inl SliceOutOfRange)"

text \<open>\<open>copy(t[w:], src)\<close>, with the number of elements copied.\<close>

definition copy_at :: "'a list \<Rightarrow> nat \<Rightarrow> 'a list \<Rightarrow> panic + 'a list \<times> nat" where
  "copy_at t w src =
     (if w \<le> length t
      then let n = min (length src) (length t - w) in Inr (take w t @ take n src @ drop (w + n) t, n)
      else Inl SliceOutOfRange)"

section \<open>The rolling hash\<close>

definition primeRK :: "32 word" where
  "primeRK = 16777619"

text \<open>\<open>for i := ...; i < n; i++ { h = h*primeRK + uint32(s[i]) }\<close>, and the same downwards to \<open>lo\<close>.\<close>

function hash_up :: "gostring \<Rightarrow> nat \<Rightarrow> nat \<Rightarrow> 32 word \<Rightarrow> 32 word" where
  "hash_up s n i h = (if i < n then hash_up s n (i + 1) (h * primeRK + ucast (s ! i)) else h)"
  by pat_completeness auto
termination by (relation "measure (\<lambda>(s, n, i, h). n - i)") auto

fun hash_down :: "gostring \<Rightarrow> nat \<Rightarrow> nat \<Rightarrow> 32 word \<Rightarrow> 32 word" where
  "hash_down s lo 0 h = h"
| "hash_down s lo (Suc i) h = (if lo \<le> i then hash_down s lo i (h * primeRK + ucast (s ! i)) else h)"

function pow_loop :: "nat \<Rightarrow> 32 word \<Rightarrow> 32 word \<Rightarrow> 32 word" where
  "pow_loop i pow sq = (if i > 0 then pow_loop (i div 2) (if i mod 2 \<noteq> 0 then pow * sq else pow) (sq * sq) else pow)"
  by pat_completeness auto
termination by (relation "measure (\<lambda>(i, pow, sq). i)") auto

definition hashStr :: "gostring \<Rightarrow> 32 word \<times> 32 word" where
  "hashStr sep = (hash_up sep (length sep) 0 0, pow_loop (length sep) 1 primeRK)"

definition hashStrRev :: "gostring \<Rightarrow> 32 word \<times> 32 word" where
  "hashStrRev sep = (hash_down sep 0 (length sep) 0, pow_loop (length sep) 1 primeRK)"

section \<open>Searching\<close>

fun IndexByte_from :: "gostring \<Rightarrow> byte \<Rightarrow> nat \<Rightarrow> int" where
  "IndexByte_from [] c i = - 1"
| "IndexByte_from (b # s) c i = (if b = c then int i else IndexByte_from s c (i + 1))"

definition IndexByte :: "gostring \<Rightarrow> byte \<Rightarrow> int" where
  "IndexByte s c = IndexByte_from s c 0"

function Index_loop :: "gostring \<Rightarrow> gostring \<Rightarrow> 32 word \<Rightarrow> 32 word \<Rightarrow> nat \<Rightarrow> 32 word \<Rightarrow> int" where
  "Index_loop s sep hashsep pow i h =
     (if i < length s then
        let n = length sep;
            h = h * primeRK;
            h = h + ucast (s ! i);
            h = h - pow * ucast (s ! (i - n));
            i = i + 1
        in if h = hashsep \<and> seg s (i - n) i = sep then int (i - n) else Index_loop s sep hashsep pow i h
      else - 1)"
  by pat_completeness auto
termination by (relation "measure (\<lambda>(s, sep, hashsep, pow, i, h). length s - i)") auto

definition Index :: "gostring \<Rightarrow> gostring \<Rightarrow> int" where
  "Index s sep =
     (let n = length sep in
      if n = 0 then 0
      else if n = 1 then IndexByte s (sep ! 0)
      else if n = length s then (if sep = s then 0 else - 1)
      else if n > length s then - 1
      else case hashStr sep of (hashsep, pow) \<Rightarrow>
        let h = hash_up s n 0 0 in
        if h = hashsep \<and> seg s 0 n = sep then 0 else Index_loop s sep hashsep pow n h)"

fun lastIndexByte :: "gostring \<Rightarrow> byte \<Rightarrow> nat \<Rightarrow> int" where
  "lastIndexByte s c 0 = - 1"
| "lastIndexByte s c (Suc i) = (if s ! i = c then int i else lastIndexByte s c i)"

fun LastIndex_loop :: "gostring \<Rightarrow> gostring \<Rightarrow> 32 word \<Rightarrow> 32 word \<Rightarrow> nat \<Rightarrow> 32 word \<Rightarrow> int" where
  "LastIndex_loop s sep hashsep pow 0 h = - 1"
| "LastIndex_loop s sep hashsep pow (Suc i) h =
     (let n = length sep;
          h = h * primeRK;
          h = h + ucast (s ! i);
          h = h - pow * ucast (s ! (i + n))
      in if h = hashsep \<and> seg s i (i + n) = sep then int i else LastIndex_loop s sep hashsep pow i h)"

definition LastIndex :: "gostring \<Rightarrow> gostring \<Rightarrow> int" where
  "LastIndex s sep =
     (let n = length sep in
      if n = 0 then int (length s)
      else if n = 1 then lastIndexByte s (sep ! 0) (length s)
      else if n = length s then (if sep = s then 0 else - 1)
      else if n > length s then - 1
      else case hashStrRev sep of (hashsep, pow) \<Rightarrow>
        let last = length s - n; h = hash_down s last (length s) 0 in
        if h = hashsep \<and> seg s last (length s) = sep then int last
        else LastIndex_loop s sep hashsep pow last h)"

fun countByte :: "gostring \<Rightarrow> byte \<Rightarrow> nat \<Rightarrow> nat" where
  "countByte [] c n = n"
| "countByte (b # s) c n = countByte s c (if b = c then n + 1 else n)"

function Count_loop :: "gostring \<Rightarrow> gostring \<Rightarrow> 32 word \<Rightarrow> 32 word \<Rightarrow> nat \<Rightarrow> 32 word \<Rightarrow> nat \<Rightarrow> nat \<Rightarrow> nat" where
  "Count_loop s sep hashsep pow i h lastmatch n =
     (if i < length s then
        let h = h * primeRK;
            h = h + ucast (s ! i);
            h = h - pow * ucast (s ! (i - length sep));
            i = i + 1
        in if h = hashsep \<and> lastmatch \<le> i - length sep \<and> seg s (i - length sep) i = sep
           then Count_loop s sep hashsep pow i h i (n + 1)
           else Count_loop s sep hashsep pow i h lastmatch n
      else n)"
  by pat_completeness auto
termination by (relation "measure (\<lambda>(s, sep, hashsep, pow, i, h, lastmatch, n). length s - i)") auto

definition Count :: "gostring \<Rightarrow> gostring \<Rightarrow> nat" where
  "Count s sep =
     (if length sep = 0 then RuneCountInString s + 1
      else if length sep = 1 then countByte s (sep ! 0) 0
      else if length sep > length s then 0
      else if length sep = length s then (if sep = s then 1 else 0)
      else case hashStr sep of (hashsep, pow) \<Rightarrow>
        let h = hash_up s (length sep) 0 0 in
        if h = hashsep \<and> seg s 0 (length sep) = sep
        then Count_loop s sep hashsep pow (length sep) h (length sep) 1
        else Count_loop s sep hashsep pow (length sep) h 0 0)"

definition Contains :: "gostring \<Rightarrow> gostring \<Rightarrow> bool" where
  "Contains s substr \<longleftrightarrow> Index s substr \<ge> 0"

section \<open>Prefixes and suffixes\<close>

definition HasPrefix :: "gostring \<Rightarrow> gostring \<Rightarrow> bool" where
  "HasPrefix s pre \<longleftrightarrow> length s \<ge> length pre \<and> seg s 0 (length pre) = pre"

definition HasSuffix :: "gostring \<Rightarrow> gostring \<Rightarrow> bool" where
  "HasSuffix s suf \<longleftrightarrow> length s \<ge> length suf \<and> seg s (length s - length suf) (length s) = suf"

definition TrimPrefix :: "gostring \<Rightarrow> gostring \<Rightarrow> gostring" where
  "TrimPrefix s pre = (if HasPrefix s pre then drop (length pre) s else s)"

definition TrimSuffix :: "gostring \<Rightarrow> gostring \<Rightarrow> gostring" where
  "TrimSuffix s suf = (if HasSuffix s suf then take (length s - length suf) s else s)"

section \<open>Splitting and joining\<close>

definition runeErrorString :: gostring where
  "runeErrorString = [0xEF, 0xBF, 0xBD]"

function explode_loop :: "gostring \<Rightarrow> nat \<Rightarrow> nat \<Rightarrow> nat \<Rightarrow> gostring list \<Rightarrow> panic + nat \<times> nat \<times> gostring list" where
  "explode_loop s n i cur a =
     (if i + 1 < n then
        case DecodeRuneInString (drop cur s) of (ch, size') \<Rightarrow>
          bindE (if ch = RuneError then Inr runeErrorString else slice s (int cur) (int (cur + size'))) (\<lambda>piece.
          bindE (store_at a i piece) (\<lambda>a.
          explode_loop s n (i + 1) (cur + size') a))
      else Inr (i, cur, a))"
  by pat_completeness auto
termination by (relation "measure (\<lambda>(s, n, i, cur, a). n - i)") auto

text \<open>\<open>make\<close> of a slice panics for a length above the limit of the element type (runtime/slice.go), \<open>_MaxMem\<close> divided
  by the size of an element. \<open>maxlen\<close> is this limit for slices of strings.\<close>

definition makeslice :: "nat \<Rightarrow> int \<Rightarrow> 'a \<Rightarrow> panic + 'a list" where
  "makeslice maxlen len zero =
     (if len < 0 \<or> len > int maxlen then Inl (PanicMsg ''makeslice: len out of range'')
      else Inr (replicate (nat len) zero))"

definition explode :: "nat \<Rightarrow> gostring \<Rightarrow> int \<Rightarrow> panic + gostring list" where
  "explode maxlen s n =
     (if n = 0 then Inr []
      else let l = RuneCountInString s;
               n = (if n \<le> 0 \<or> n > int l then l else nat n)
           in bindE (makeslice maxlen (int n) []) (\<lambda>a.
              bindE (explode_loop s n 0 0 a) (\<lambda>(i, cur, a).
              if cur < length s then store_at a i (drop cur s) else Inr a)))"

function genSplit_loop :: "gostring \<Rightarrow> gostring \<Rightarrow> nat \<Rightarrow> nat \<Rightarrow> nat \<Rightarrow> nat \<Rightarrow> gostring list \<Rightarrow> nat \<Rightarrow>
    panic + nat \<times> gostring list \<times> nat" where
  "genSplit_loop s sep sepSave n i start a na =
     (if i + length sep \<le> length s \<and> na + 1 < n then
        if s ! i = sep ! 0 \<and> (length sep = 1 \<or> seg s i (i + length sep) = sep) then
          bindE (slice s (int start) (int (i + sepSave))) (\<lambda>piece.
          bindE (store_at a na piece) (\<lambda>a.
          genSplit_loop s sep sepSave n (i + (length sep - 1) + 1) (i + length sep) a (na + 1)))
        else genSplit_loop s sep sepSave n (i + 1) start a na
      else Inr (start, a, na))"
  by pat_completeness auto
termination by (relation "measure (\<lambda>(s, sep, sepSave, n, i, start, a, na). Suc (length s) - i)") auto

definition genSplit :: "nat \<Rightarrow> gostring \<Rightarrow> gostring \<Rightarrow> nat \<Rightarrow> int \<Rightarrow> panic + gostring list" where
  "genSplit maxlen s sep sepSave n =
     (if n = 0 then Inr []
      else if sep = [] then explode maxlen s n
      else let n = (if n < 0 then Count s sep + 1 else nat n) in
        bindE (makeslice maxlen (int n) []) (\<lambda>a.
        bindE (genSplit_loop s sep sepSave n 0 0 a 0) (\<lambda>(start, a, na).
        bindE (slice s (int start) (int (length s))) (\<lambda>rest.
        bindE (store_at a na rest) (\<lambda>a.
        slice a 0 (int (na + 1)))))))"

definition SplitN :: "nat \<Rightarrow> gostring \<Rightarrow> gostring \<Rightarrow> int \<Rightarrow> panic + gostring list" where
  "SplitN maxlen s sep n = genSplit maxlen s sep 0 n"

definition SplitAfterN :: "nat \<Rightarrow> gostring \<Rightarrow> gostring \<Rightarrow> int \<Rightarrow> panic + gostring list" where
  "SplitAfterN maxlen s sep n = genSplit maxlen s sep (length sep) n"

definition Split :: "nat \<Rightarrow> gostring \<Rightarrow> gostring \<Rightarrow> panic + gostring list" where
  "Split maxlen s sep = genSplit maxlen s sep 0 (- 1)"

definition SplitAfter :: "nat \<Rightarrow> gostring \<Rightarrow> gostring \<Rightarrow> panic + gostring list" where
  "SplitAfter maxlen s sep = genSplit maxlen s sep (length sep) (- 1)"

fun Join_loop :: "gostring list \<Rightarrow> gostring \<Rightarrow> byte list \<Rightarrow> nat \<Rightarrow> panic + byte list \<times> nat" where
  "Join_loop [] sep b bp = Inr (b, bp)"
| "Join_loop (s # a) sep b bp =
     bindE (copy_at b bp sep) (\<lambda>(b, k). let bp = bp + k in
     bindE (copy_at b bp s) (\<lambda>(b, k). Join_loop a sep b (bp + k)))"

definition Join :: "gostring list \<Rightarrow> gostring \<Rightarrow> panic + gostring" where
  "Join a sep =
     (if length a = 0 then Inr []
      else if length a = 1 then Inr (a ! 0)
      else let n = length sep * (length a - 1);
               n = foldl (\<lambda>n s. n + length s) n a;
               b = replicate n 0
           in bindE (copy_at b 0 (a ! 0)) (\<lambda>(b, bp). bindE (Join_loop (tl a) sep b bp) (\<lambda>(b, bp). Inr b)))"

section \<open>Repeating and replacing\<close>

text \<open>The doubling loop of \<open>Repeat\<close> would not end with \<open>bp = 0\<close>, so it is a partial function.\<close>

partial_function (option) Repeat_loop :: "byte list \<Rightarrow> nat \<Rightarrow> (panic + byte list) option" where
  "Repeat_loop b bp =
     (if bp < length b
      then case copy_at b bp (take bp b) of
             Inl e \<Rightarrow> Some (Inl e)
           | Inr (b, k) \<Rightarrow> Repeat_loop b (bp * 2)
      else Some (Inr b))"

definition Repeat :: "gostring \<Rightarrow> int \<Rightarrow> (panic + gostring) option" where
  "Repeat s cnt =
     (if int (length s) * cnt < 0 then Some (Inl (PanicMsg ''makeslice: len out of range''))
      else let b = replicate (nat (int (length s) * cnt)) 0
           in case copy_at b 0 s of Inl e \<Rightarrow> Some (Inl e) | Inr (b, bp) \<Rightarrow> Repeat_loop b bp)"

function Replace_loop :: "gostring \<Rightarrow> gostring \<Rightarrow> gostring \<Rightarrow> nat \<Rightarrow> nat \<Rightarrow> nat \<Rightarrow> int \<Rightarrow> byte list \<Rightarrow>
    panic + nat \<times> int \<times> byte list" where
  "Replace_loop s old new n i w start t =
     (if i < n then
        bindE (if length old = 0
               then (if i > 0
                     then bindE (slice s start (int (length s))) (\<lambda>rest. Inr (start + int (snd (DecodeRuneInString rest))))
                     else Inr start)
               else bindE (slice s start (int (length s))) (\<lambda>rest. Inr (start + Index rest old))) (\<lambda>j.
        bindE (slice s start j) (\<lambda>piece.
        bindE (copy_at t w piece) (\<lambda>(t, k). let w = w + k in
        bindE (copy_at t w new) (\<lambda>(t, k). let w = w + k in
        Replace_loop s old new n (i + 1) w (j + int (length old)) t))))
      else Inr (w, start, t))"
  by pat_completeness auto
termination by (relation "measure (\<lambda>(s, old, new, n, i, w, start, t). n - i)") auto

definition Replace :: "gostring \<Rightarrow> gostring \<Rightarrow> gostring \<Rightarrow> int \<Rightarrow> panic + gostring" where
  "Replace s old new n =
     (if old = new \<or> n = 0 then Inr s
      else let m = Count s old in
        if m = 0 then Inr s
        else let n = (if n < 0 \<or> int m < n then m else nat n);
                 len = int (length s) + int n * (int (length new) - int (length old))
             in if len < 0 then Inl (PanicMsg ''makeslice: len out of range'')
                else bindE (Replace_loop s old new n 0 0 0 (replicate (nat len) 0)) (\<lambda>(w, start, t).
                     bindE (slice s start (int (length s))) (\<lambda>rest.
                     bindE (copy_at t w rest) (\<lambda>(t, k).
                     slice t 0 (int (w + k))))))"

declare hash_up.simps [simp del] pow_loop.simps [simp del] Index_loop.simps [simp del]
  Count_loop.simps [simp del] explode_loop.simps [simp del] genSplit_loop.simps [simp del]
  Replace_loop.simps [simp del]

section \<open>Segments\<close>

lemma length_seg [simp]: "length (seg s a b) = min (b - a) (length s - a)"
  by (simp add: seg_def)

lemma seg_empty [simp]: "b \<le> a \<Longrightarrow> seg s a b = []"
  by (simp add: seg_def)

lemma seg_Cons: "a < b \<Longrightarrow> a < length s \<Longrightarrow> seg s a b = s ! a # seg s (a + 1) b"
  by (simp add: seg_def Cons_nth_drop_Suc [symmetric] Suc_diff_le take_Cons')

lemma seg_snoc: "a \<le> b \<Longrightarrow> b < length s \<Longrightarrow> seg s a (b + 1) = seg s a b @ [s ! b]"
  by (simp add: seg_def Suc_diff_le take_Suc_conv_app_nth)

lemma seg_0 [simp]: "seg s 0 b = take b s"
  by (simp add: seg_def)

lemma seg_end [simp]: "seg s a (length s) = drop a s"
  by (simp add: seg_def)

lemma seg_append: "a \<le> b \<Longrightarrow> b \<le> c \<Longrightarrow> seg s a b @ seg s b c = seg s a c"
proof -
  assume "a \<le> b" "b \<le> c"
  then have "take (c - a) (drop a s) = take (b - a) (drop a s) @ take (c - b) (drop (b - a) (drop a s))"
    by (metis diff_add_inverse2 le_add_diff_inverse2 add.commute add_diff_cancel_left' take_add Nat.add_diff_assoc2 Nat.diff_add_assoc2)
  then show ?thesis using \<open>a \<le> b\<close> by (simp add: seg_def)
qed

text \<open>A window of \<open>s\<close> equals \<open>sep\<close> just when \<open>sep\<close> is a prefix of the rest of \<open>s\<close> there.\<close>

lemma window_prefix: "seg s k (k + length sep) = sep \<longleftrightarrow> prefix sep (drop k s)"
proof
  assume "seg s k (k + length sep) = sep"
  then have "take (length sep) (drop k s) = sep" by (simp add: seg_def)
  then show "prefix sep (drop k s)" by (metis take_is_prefix)
qed (auto simp: seg_def prefix_def)

section \<open>The rolling hash is a hash of the window\<close>

definition rk :: "32 word \<Rightarrow> byte list \<Rightarrow> 32 word" where
  "rk h xs = foldl (\<lambda>h b. h * primeRK + ucast b) h xs"

lemma rk_simps [simp]: "rk h [] = h" "rk h (b # xs) = rk (h * primeRK + ucast b) xs"
  "rk h (xs @ [b]) = rk h xs * primeRK + ucast b"
  by (simp_all add: rk_def)

lemma rk_start: "rk h xs = h * primeRK ^ length xs + rk 0 xs"
proof (induction xs arbitrary: h)
  case (Cons b xs)
  show ?case using Cons [of "h * primeRK + ucast b"] Cons [of "ucast b"] by (simp add: algebra_simps)
qed simp

lemma rk_roll: "rk 0 (b # xs) * primeRK + c - primeRK ^ Suc (length xs) * ucast b = rk 0 xs * primeRK + c"
  using rk_start [of "ucast b" xs] by (simp add: algebra_simps)

lemma hash_up_rk: "n \<le> length s \<Longrightarrow> hash_up s n i h = rk h (seg s i n)"
proof (induction s n i h rule: hash_up.induct)
  case (1 s n i h)
  then show ?case by (subst hash_up.simps) (simp add: seg_Cons)
qed

lemma hash_down_rk: "i \<le> length s \<Longrightarrow> hash_down s lo i h = rk h (rev (seg s lo i))"
  by (induction s lo i h rule: hash_down.induct) (simp_all add: seg_snoc [simplified])

lemma pow_loop_power: "pow_loop i pow sq = pow * sq ^ i"
proof (induction i pow sq rule: pow_loop.induct)
  case (1 i pow sq)
  have "sq ^ i = (sq * sq) ^ (i div 2) * sq ^ (i mod 2)"
    by (metis power2_eq_square power_add power_mult mult_div_mod_eq)
  then show ?case using 1 by (subst pow_loop.simps) (auto simp: algebra_simps mod2_eq_if)
qed

lemma hashStr_rk: "hashStr sep = (rk 0 sep, primeRK ^ length sep)"
  by (simp add: hashStr_def hash_up_rk pow_loop_power)

lemma hashStrRev_rk: "hashStrRev sep = (rk 0 (rev sep), primeRK ^ length sep)"
  by (simp add: hashStrRev_def hash_down_rk pow_loop_power)

lemma window_up:
  assumes "0 < n" "n \<le> i" "i < length s"
  shows "rk 0 (seg s (i - n) i) * primeRK + ucast (s ! i) - primeRK ^ n * ucast (s ! (i - n)) =
    rk 0 (seg s (i + 1 - n) (i + 1))"
proof -
  obtain m where n: "n = Suc m" using assms(1) by (cases n) auto
  have w: "seg s (i - n) i = s ! (i - n) # seg s (i - m) i"
    using assms seg_Cons [of "i - n" i s] by (simp add: n Suc_diff_Suc)
  have l: "length (seg s (i - m) i) = m" using assms n by simp
  have e: "seg s (i + 1 - n) (i + 1) = seg s (i - m) i @ [s ! i]"
    using assms by (simp add: n seg_snoc [simplified])
  show ?thesis unfolding w e using rk_roll [of "s ! (i - n)" "seg s (i - m) i" "ucast (s ! i)"] by (simp only: l n rk_simps)
qed

lemma window_down:
  assumes "0 < n" "i + n < length s"
  shows "rk 0 (rev (seg s (i + 1) (i + 1 + n))) * primeRK + ucast (s ! i) - primeRK ^ n * ucast (s ! (i + n)) =
    rk 0 (rev (seg s i (i + n)))"
proof -
  obtain m where n: "n = Suc m" using assms(1) by (cases n) auto
  have w: "rev (seg s (i + 1) (i + 1 + n)) = s ! (i + n) # rev (seg s (i + 1) (i + n))"
    using assms seg_snoc [of "i + 1" "i + n" s] by (simp add: n)
  have l: "length (rev (seg s (i + 1) (i + n))) = m" using assms n by simp
  have e: "rev (seg s i (i + n)) = rev (seg s (i + 1) (i + n)) @ [s ! i]"
    using assms seg_Cons [of i "i + n" s] by (simp add: n)
  show ?thesis unfolding w e
    using rk_roll [of "s ! (i + n)" "rev (seg s (i + 1) (i + n))" "ucast (s ! i)"] by (simp only: l rk_simps) (simp add: n)
qed

section \<open>Occurrences\<close>

fun find_sub :: "'a list \<Rightarrow> 'a list \<Rightarrow> nat option" where
  "find_sub sep [] = (if sep = [] then Some 0 else None)"
| "find_sub sep (x # xs) = (if prefix sep (x # xs) then Some 0 else map_option Suc (find_sub sep xs))"

lemma find_sub_prefix: "prefix sep s \<Longrightarrow> find_sub sep s = Some 0"
  by (cases s) auto

lemma find_sub_None: "find_sub sep s = None \<longleftrightarrow> (\<forall>k \<le> length s. \<not> prefix sep (drop k s))"
proof (induction s)
  case (Cons x s)
  have "(\<forall>k \<le> length (x # s). P k) \<longleftrightarrow> P 0 \<and> (\<forall>k \<le> length s. P (Suc k))" for P
    by (metis Suc_le_mono length_Cons not0_implies_Suc zero_le)
  then show ?case using Cons by simp
qed simp

lemma find_sub_Some:
  "find_sub sep s = Some i \<Longrightarrow> i \<le> length s \<and> prefix sep (drop i s) \<and> (\<forall>j < i. \<not> prefix sep (drop j s))"
proof (induction s arbitrary: i)
  case (Cons x s)
  show ?case
  proof (cases "prefix sep (x # s)")
    case False
    then obtain k where k: "i = Suc k" "find_sub sep s = Some k" using Cons.prems by auto
    have "\<not> prefix sep (drop j (x # s))" if "j < i" for j
      using that False Cons.IH [OF k(2)] k(1) by (cases j) auto
    then show ?thesis using Cons.IH [OF k(2)] k(1) by simp
  qed (use Cons.prems in auto)
qed (auto split: if_splits)

lemma prefix_drop_length: "prefix sep (drop k s) \<Longrightarrow> sep \<noteq> [] \<Longrightarrow> k + length sep \<le> length s"
  by (cases "k \<le> length s") (auto dest!: prefix_length_le)

lemma find_sub_bound: "find_sub sep s = Some i \<Longrightarrow> sep \<noteq> [] \<Longrightarrow> i + length sep \<le> length s"
  using find_sub_Some prefix_drop_length by blast

lemma find_sub_short: "length s < length sep \<Longrightarrow> find_sub sep s = None"
  by (auto simp: find_sub_None dest!: prefix_length_le)

lemma find_sub_drop:
  "k < length s \<Longrightarrow> find_sub sep (drop k s) =
     (if prefix sep (drop k s) then Some 0 else map_option Suc (find_sub sep (drop (k + 1) s)))"
  by (simp add: Cons_nth_drop_Suc [symmetric])

text \<open>The result of a search, as the code reports it.\<close>

definition found :: "nat \<Rightarrow> nat option \<Rightarrow> int" where
  "found k r = (case r of None \<Rightarrow> - 1 | Some j \<Rightarrow> int (k + j))"

lemma found_Suc: "found k (map_option Suc r) = found (k + 1) r"
  by (simp add: found_def split: option.splits)

lemma Index_loop_found:
  assumes "0 < n" "n = length sep"
  shows "n \<le> i \<Longrightarrow> i \<le> length s \<Longrightarrow> h = rk 0 (seg s (i - n) i) \<Longrightarrow>
    Index_loop s sep (rk 0 sep) (primeRK ^ n) i h = found (i + 1 - n) (find_sub sep (drop (i + 1 - n) s))"
proof (induction "length s - i" arbitrary: i h)
  case 0
  then show ?case using assms by (subst Index_loop.simps) (simp add: find_sub_short found_def)
next
  case (Suc d)
  define k where "k = i + 1 - n"
  have i: "i < length s" "k < length s" "k + n = i + 1"
    using Suc.hyps(2) Suc.prems assms(1) by (simp_all add: k_def)
  have w: "rk 0 (seg s (i - n) i) * primeRK + ucast (s ! i) - primeRK ^ n * ucast (s ! (i - n)) = rk 0 (seg s k (k + n))"
    using window_up [OF assms(1) Suc.prems(1) i(1)] i(3) by (simp add: k_def)
  have test: "(rk 0 (seg s k (k + n)) = rk 0 sep \<and> seg s k (k + n) = sep) \<longleftrightarrow> prefix sep (drop k s)"
    using window_prefix [of s k sep] assms(2) by auto
  have ends: "i + 1 - n = k" "seg s k (i + 1) = seg s k (k + n)" unfolding i(3) by (simp_all only: k_def)
  have step: "Index_loop s sep (rk 0 sep) (primeRK ^ n) i h =
      (if prefix sep (drop k s) then int k
       else Index_loop s sep (rk 0 sep) (primeRK ^ n) (i + 1) (rk 0 (seg s k (k + n))))"
    using i(1) by (subst Index_loop.simps) (simp only: Let_def Suc.prems(3) w assms(2) [symmetric] ends test if_True)
  have "Index_loop s sep (rk 0 sep) (primeRK ^ n) (i + 1) (rk 0 (seg s k (k + n))) =
      found (i + 1 + 1 - n) (find_sub sep (drop (i + 1 + 1 - n) s))"
    by (rule Suc.hyps(1)) (use Suc i in \<open>auto simp: k_def\<close>)
  moreover have "i + 1 + 1 - n = k + 1" using i(3) by simp
  ultimately show ?case
    unfolding step k_def [symmetric] find_sub_drop [OF i(2)] by (simp add: found_Suc) (simp add: found_def)
qed

lemma IndexByte_found: "IndexByte_from s c i = found i (find_sub [c] s)"
  by (induction s c i rule: IndexByte_from.induct) (auto simp: found_Suc, auto simp: found_def)

lemma prefix_same_length: "length sep = length s \<Longrightarrow> prefix sep s \<longleftrightarrow> sep = s"
  by (auto simp: prefix_def)

lemma find_sub_same_length:
  "length sep = length s \<Longrightarrow> sep \<noteq> [] \<Longrightarrow> find_sub sep s = (if sep = s then Some 0 else None)"
  by (cases s) (auto simp: prefix_same_length find_sub_short)

theorem Index_found: "Index s sep = found 0 (find_sub sep s)"
proof -
  consider "sep = []" | "length sep = 1" | "length sep > 1" "length sep = length s" | "length sep > 1" "length sep > length s"
    | "length sep > 1" "length sep < length s"
    by (metis One_nat_def length_0_conv less_one linorder_neqE_nat)
  then show ?thesis
  proof cases
    case 1
    then show ?thesis by (simp add: Index_def find_sub_prefix found_def)
  next
    case 2
    then obtain c where "sep = [c]" by (auto simp: length_Suc_conv)
    then show ?thesis by (simp add: Index_def IndexByte_def IndexByte_found)
  next
    case 3
    then show ?thesis by (auto simp: Index_def Let_def find_sub_same_length find_sub_prefix found_def)
  next
    case 4
    then show ?thesis by (auto simp: Index_def Let_def find_sub_short found_def)
  next
    case 5
    let ?n = "length sep"
    have t: "(rk 0 (take ?n s) = rk 0 sep \<and> take ?n s = sep) \<longleftrightarrow> prefix sep s"
      using window_prefix [of s 0 sep] by auto
    have "Index s sep = (if prefix sep s then 0 else Index_loop s sep (rk 0 sep) (primeRK ^ ?n) ?n (rk 0 (take ?n s)))"
      using 5 by (auto simp: Index_def Let_def hashStr_rk hash_up_rk t [symmetric])
    moreover have "Index_loop s sep (rk 0 sep) (primeRK ^ ?n) ?n (rk 0 (take ?n s)) = found 1 (find_sub sep (drop 1 s))"
      using 5 Index_loop_found [of ?n sep ?n s "rk 0 (take ?n s)"] by fastforce
    moreover have "find_sub sep s = (if prefix sep s then Some 0 else map_option Suc (find_sub sep (drop 1 s)))"
      using find_sub_drop [of 0 s sep] 5 by fastforce
    ultimately show ?thesis by (simp add: found_Suc) (simp add: found_def)
  qed
qed

text \<open>The last occurrence below position \<open>i\<close>, and \<open>LastIndex\<close>.\<close>

fun find_last :: "'a list \<Rightarrow> 'a list \<Rightarrow> nat \<Rightarrow> nat option" where
  "find_last sep s 0 = None"
| "find_last sep s (Suc i) = (if prefix sep (drop i s) then Some i else find_last sep s i)"

lemma find_last_None: "find_last sep s i = None \<longleftrightarrow> (\<forall>k < i. \<not> prefix sep (drop k s))"
  by (induction i) (auto simp: less_Suc_eq)

lemma find_last_Some:
  "find_last sep s i = Some k \<Longrightarrow> k < i \<and> prefix sep (drop k s) \<and> (\<forall>j. k < j \<and> j < i \<longrightarrow> \<not> prefix sep (drop j s))"
  by (induction i) (auto split: if_splits simp: less_Suc_eq)

lemma find_last_high: "sep \<noteq> [] \<Longrightarrow> find_last sep s (Suc (length s)) = find_last sep s (Suc (length s - length sep))"
proof -
  assume ne: "sep \<noteq> []"
  have "find_last sep s (Suc (length s - length sep) + d) = find_last sep s (Suc (length s - length sep))"
    if "d \<le> length sep" for d
    using that
  proof (induction d)
    case (Suc d)
    have "\<not> prefix sep (drop (Suc (length s - length sep) + d) s)"
      using ne by (auto dest!: prefix_drop_length)
    then show ?case using Suc by simp
  qed simp
  from this [of "length s - (length s - length sep)"] show ?thesis by simp
qed

lemma LastIndex_loop_found:
  assumes "0 < n" "n = length sep"
  shows "i + n \<le> length s \<Longrightarrow> h = rk 0 (rev (seg s i (i + n))) \<Longrightarrow>
    LastIndex_loop s sep (rk 0 (rev sep)) (primeRK ^ n) i h = found 0 (find_last sep s i)"
proof (induction i arbitrary: h)
  case (Suc i)
  have w: "h * primeRK + ucast (s ! i) - primeRK ^ n * ucast (s ! (i + n)) = rk 0 (rev (seg s i (i + n)))"
    using window_down [OF assms(1), of i s] Suc.prems by simp
  have test: "(rk 0 (rev (seg s i (i + n))) = rk 0 (rev sep) \<and> seg s i (i + n) = sep) \<longleftrightarrow> prefix sep (drop i s)"
    using window_prefix [of s i sep] assms(2) by auto
  have "LastIndex_loop s sep (rk 0 (rev sep)) (primeRK ^ n) (Suc i) h =
      (if prefix sep (drop i s) then int i
       else LastIndex_loop s sep (rk 0 (rev sep)) (primeRK ^ n) i (rk 0 (rev (seg s i (i + n)))))"
    by (simp only: LastIndex_loop.simps Let_def w assms(2) [symmetric] test)
  then show ?case using Suc.IH [OF _ refl] Suc.prems(1) by (simp add: found_def)
qed (simp add: found_def)

lemma lastIndexByte_found: "i \<le> length s \<Longrightarrow> lastIndexByte s c i = found 0 (find_last [c] s i)"
proof (induction i)
  case (Suc i)
  then have "drop i s = s ! i # drop (Suc i) s" by (simp add: Cons_nth_drop_Suc)
  then show ?case using Suc by (simp add: found_def)
qed (simp add: found_def)

theorem LastIndex_found: "LastIndex s sep = found 0 (find_last sep s (Suc (length s)))"
proof -
  consider "sep = []" | "length sep = 1" | "length sep > 1" "length sep = length s" | "length sep > 1" "length sep > length s"
    | "length sep > 1" "length sep < length s"
    by (metis One_nat_def length_0_conv less_one linorder_neqE_nat)
  then show ?thesis
  proof cases
    case 1
    then show ?thesis by (simp add: LastIndex_def found_def)
  next
    case 2
    then obtain c where "sep = [c]" by (auto simp: length_Suc_conv)
    then show ?thesis by (simp add: LastIndex_def lastIndexByte_found)
  next
    case 3
    then have "sep \<noteq> []" by auto
    from find_last_high [OF this, of s] show ?thesis
      using 3 by (auto simp: LastIndex_def Let_def found_def prefix_same_length)
  next
    case 4
    then have "find_last sep s (Suc (length s)) = None"
      by (auto simp: find_last_None dest!: prefix_drop_length)
    then show ?thesis using 4 by (auto simp: LastIndex_def Let_def found_def)
  next
    case 5
    let ?n = "length sep"
    let ?l = "length s - ?n"
    have "sep \<noteq> []" using 5 by auto
    note high = find_last_high [OF this, of s]
    have t: "(rk 0 (rev (drop ?l s)) = rk 0 (rev sep) \<and> drop ?l s = sep) \<longleftrightarrow> prefix sep (drop ?l s)"
      using prefix_same_length [of sep "drop ?l s"] 5 by auto
    have "LastIndex s sep = (if prefix sep (drop ?l s) then int ?l
        else LastIndex_loop s sep (rk 0 (rev sep)) (primeRK ^ ?n) ?l (rk 0 (rev (drop ?l s))))"
      using 5 by (simp add: LastIndex_def Let_def hashStrRev_rk hash_down_rk t [symmetric])
    moreover have "LastIndex_loop s sep (rk 0 (rev sep)) (primeRK ^ ?n) ?l (rk 0 (rev (drop ?l s))) = found 0 (find_last sep s ?l)"
      by (rule LastIndex_loop_found) (use 5 in auto)
    ultimately show ?thesis by (simp only: high) (simp add: found_def)
  qed
qed

section \<open>Counting\<close>

text \<open>The number of occurrences that do not overlap, taken from the left.\<close>

function occs :: "'a list \<Rightarrow> 'a list \<Rightarrow> nat" where
  "occs sep s =
     (if sep = [] then 0
      else case find_sub sep s of None \<Rightarrow> 0 | Some i \<Rightarrow> Suc (occs sep (drop (i + length sep) s)))"
  by pat_completeness auto
termination
proof (relation "measure (\<lambda>(sep, s). length s)", goal_cases)
  case (2 sep s i)
  then show ?case using find_sub_bound [of sep s i] by (cases s) auto
qed simp

declare occs.simps [simp del]

lemma occs_short: "length s < length sep \<Longrightarrow> occs sep s = 0"
  by (subst occs.simps) (simp add: find_sub_short)

lemma occs_Cons:
  assumes "sep \<noteq> []"
  shows "occs sep (x # xs) =
    (if prefix sep (x # xs) then Suc (occs sep (drop (length sep) (x # xs))) else occs sep xs)"
  using assms by (subst occs.simps, subst (2) occs.simps) (simp split: option.split)

lemma occs_drop:
  "sep \<noteq> [] \<Longrightarrow> k < length s \<Longrightarrow> occs sep (drop k s) =
     (if prefix sep (drop k s) then Suc (occs sep (drop (k + length sep) s)) else occs sep (drop (k + 1) s))"
  using occs_Cons [of sep "s ! k" "drop (Suc k) s"] by (simp add: Cons_nth_drop_Suc add.commute)

lemma Count_loop_occs:
  assumes "0 < m" "m = length sep"
  shows "m \<le> i \<Longrightarrow> i \<le> length s \<Longrightarrow> lastmatch \<le> i \<Longrightarrow> h = rk 0 (seg s (i - m) i) \<Longrightarrow>
    Count_loop s sep (rk 0 sep) (primeRK ^ m) i h lastmatch n = n + occs sep (drop (max lastmatch (i + 1 - m)) s)"
proof (induction "length s - i" arbitrary: i h lastmatch n)
  case 0
  have "length s - max lastmatch (i + 1 - m) \<le> length s - (i + 1 - m)" by simp
  moreover have "length s - (i + 1 - m) < m" using 0 assms(1) by linarith
  ultimately have "length (drop (max lastmatch (i + 1 - m)) s) < length sep"
    unfolding length_drop assms(2) [symmetric] by linarith
  then show ?case using 0 by (subst Count_loop.simps) (simp add: occs_short)
next
  case (Suc d)
  define k where "k = i + 1 - m"
  have i: "i < length s" "k < length s" "k + m = i + 1"
    using Suc.hyps(2) Suc.prems assms(1) by (simp_all add: k_def)
  have ends: "i + 1 - m = k" "seg s k (i + 1) = seg s k (k + m)" unfolding i(3) by (simp_all only: k_def)
  have w: "rk 0 (seg s (i - m) i) * primeRK + ucast (s ! i) - primeRK ^ m * ucast (s ! (i - m)) = rk 0 (seg s k (k + m))"
    using window_up [OF assms(1) Suc.prems(1) i(1)] i(3) by (simp add: k_def)
  have test: "(rk 0 (seg s k (k + m)) = rk 0 sep \<and> lastmatch \<le> k \<and> seg s k (k + m) = sep) \<longleftrightarrow>
      lastmatch \<le> k \<and> prefix sep (drop k s)"
    using window_prefix [of s k sep] assms(2) by auto
  let ?h = "rk 0 (seg s k (k + m))"
  have step: "Count_loop s sep (rk 0 sep) (primeRK ^ m) i h lastmatch n =
      (if lastmatch \<le> k \<and> prefix sep (drop k s)
       then Count_loop s sep (rk 0 sep) (primeRK ^ m) (i + 1) ?h (i + 1) (n + 1)
       else Count_loop s sep (rk 0 sep) (primeRK ^ m) (i + 1) ?h lastmatch n)"
    using i(1) by (subst Count_loop.simps) (simp only: Let_def Suc.prems(4) w assms(2) [symmetric] ends test if_True)
  have IH: "Count_loop s sep (rk 0 sep) (primeRK ^ m) (i + 1) ?h l n' = n' + occs sep (drop (max l (k + 1)) s)"
    if "l \<le> i + 1" for l n'
  proof -
    have "i + 1 + 1 - m = k + 1" "i + 1 - m = k" using i(3) by simp_all
    then show ?thesis
      using Suc.hyps(1) [of "i + 1" l ?h n'] Suc.hyps(2) Suc.prems(1) that i by simp
  qed
  have sep: "sep \<noteq> []" using assms by auto
  show ?case
  proof (cases "lastmatch \<le> k \<and> prefix sep (drop k s)")
    case True
    then have "Count_loop s sep (rk 0 sep) (primeRK ^ m) i h lastmatch n = n + 1 + occs sep (drop (max (i + 1) (k + 1)) s)"
      unfolding step using IH [of "i + 1" "n + 1"] by simp
    moreover have "max (i + 1) (k + 1) = k + length sep" using i(3) assms(1) unfolding assms(2) [symmetric] by linarith
    ultimately show ?thesis
      using True occs_drop [OF sep i(2)] unfolding ends(1) by (simp add: max_def)
  next
    case False
    then have "Count_loop s sep (rk 0 sep) (primeRK ^ m) i h lastmatch n = n + occs sep (drop (max lastmatch (k + 1)) s)"
      unfolding step if_not_P [OF False] by (intro IH) (use Suc.prems(3) in simp)
    moreover have "occs sep (drop (max lastmatch (k + 1)) s) = occs sep (drop (max lastmatch k) s)"
      using False occs_drop [OF sep i(2)] by (cases "lastmatch \<le> k") (auto simp: max_def le_Suc_eq)
    ultimately show ?thesis unfolding ends(1) by simp
  qed
qed

lemma countByte_occs: "countByte s c n = n + occs [c] s"
  by (induction s c n rule: countByte.induct) (simp_all add: occs_Cons occs_short)

theorem Count_occs: "sep \<noteq> [] \<Longrightarrow> Count s sep = occs sep s"
proof -
  assume sep: "sep \<noteq> []"
  consider "length sep = 1" | "length sep > 1" "length sep > length s" | "length sep > 1" "length sep = length s"
    | "length sep > 1" "length sep < length s"
    using sep by (metis One_nat_def length_0_conv less_one linorder_neqE_nat)
  then show ?thesis
  proof cases
    case 1
    then obtain c where "sep = [c]" by (auto simp: length_Suc_conv)
    then show ?thesis by (simp add: Count_def countByte_occs)
  next
    case 2
    then show ?thesis using sep by (simp add: Count_def occs_short)
  next
    case 3
    then show ?thesis using sep
      by (subst occs.simps) (auto simp: Count_def find_sub_same_length occs_short)
  next
    case 4
    let ?n = "length sep"
    have t: "(rk 0 (take ?n s) = rk 0 sep \<and> take ?n s = sep) \<longleftrightarrow> prefix sep s"
      using window_prefix [of s 0 sep] by auto
    have "Count s sep = (if prefix sep s then Count_loop s sep (rk 0 sep) (primeRK ^ ?n) ?n (rk 0 (take ?n s)) ?n 1
        else Count_loop s sep (rk 0 sep) (primeRK ^ ?n) ?n (rk 0 (take ?n s)) 0 0)"
      using 4 sep by (simp add: Count_def Let_def hashStr_rk hash_up_rk t [symmetric])
    moreover have "Count_loop s sep (rk 0 sep) (primeRK ^ ?n) ?n (rk 0 (take ?n s)) l c = c + occs sep (drop (max l 1) s)"
      if "l \<le> ?n" for l c
      using Count_loop_occs [of ?n sep ?n s l "rk 0 (take ?n s)" c] 4 that sep by simp
    moreover have "s \<noteq> []" using 4 by auto
    ultimately show ?thesis
      using occs_drop [OF sep, of 0 s] 4 by (simp add: max_def)
  qed
qed

text \<open>No other choice of occurrences that do not overlap is longer.\<close>

fun apart :: "gostring \<Rightarrow> gostring \<Rightarrow> nat \<Rightarrow> nat list \<Rightarrow> bool" where
  "apart sep s lo [] \<longleftrightarrow> True"
| "apart sep s lo (k # ks) \<longleftrightarrow> lo \<le> k \<and> prefix sep (drop k s) \<and> apart sep s (k + length sep) ks"

lemma apart_mono: "apart sep s lo ks \<Longrightarrow> lo' \<le> lo \<Longrightarrow> apart sep s lo' ks"
  by (cases ks) auto

lemma apart_le_occs: "sep \<noteq> [] \<Longrightarrow> apart sep s lo ks \<Longrightarrow> length ks \<le> occs sep (drop lo s)"
proof (induction ks arbitrary: lo)
  case (Cons k ks)
  then have k: "lo \<le> k" "prefix sep (drop k s)" and IH: "length ks \<le> occs sep (drop (k + length sep) s)" by auto
  have "prefix sep (drop (k - lo) (drop lo s))" using k by simp
  moreover have "k - lo \<le> length (drop lo s)" using prefix_drop_length [OF k(2) Cons.prems(1)] by simp
  ultimately have "find_sub sep (drop lo s) \<noteq> None" unfolding find_sub_None by blast
  then obtain i where i: "find_sub sep (drop lo s) = Some i" by blast
  have "i + lo \<le> k"
  proof (rule ccontr)
    assume "\<not> i + lo \<le> k"
    then have "k - lo < i" using k(1) by linarith
    then have "\<not> prefix sep (drop (k - lo) (drop lo s))" using find_sub_Some [OF i] by blast
    then show False using k by simp
  qed
  then have "apart sep s (i + lo + length sep) ks" using Cons.prems by (auto intro: apart_mono)
  then have "length ks \<le> occs sep (drop (i + lo + length sep) s)" by (rule Cons.IH [OF Cons.prems(1)])
  then show ?case
    using i Cons.prems(1) by (subst occs.simps) (simp add: add.commute add.left_commute)
qed simp

lemma occs_attained: "sep \<noteq> [] \<Longrightarrow> \<exists>ks. apart sep s lo ks \<and> length ks = occs sep (drop lo s)"
proof (induction "length s - lo" arbitrary: lo rule: less_induct)
  case less
  show ?case
  proof (cases "find_sub sep (drop lo s)")
    case None
    then show ?thesis by (subst occs.simps) (auto intro: exI [of _ "[]"])
  next
    case (Some i)
    have b: "i + length sep \<le> length s - lo" using find_sub_bound [OF Some less.prems] by simp
    then have "length s - (i + lo + length sep) < length s - lo" using less.prems by (cases sep) auto
    then obtain ks where "apart sep s (i + lo + length sep) ks" "length ks = occs sep (drop (i + lo + length sep) s)"
      using less.hyps less.prems by blast
    moreover have "prefix sep (drop (i + lo) s)" using find_sub_Some [OF Some] by simp
    ultimately have "apart sep s lo ((i + lo) # ks) \<and> length ((i + lo) # ks) = occs sep (drop lo s)"
      using Some less.prems by (subst occs.simps) (simp add: add.commute add.left_commute)
    then show ?thesis by blast
  qed
qed

section \<open>Splitting\<close>

text \<open>At most \<open>k\<close> cuts, each after \<open>save\<close> bytes of the separator.\<close>

fun cuts :: "nat \<Rightarrow> gostring \<Rightarrow> nat \<Rightarrow> gostring \<Rightarrow> gostring list" where
  "cuts save sep 0 s = [s]"
| "cuts save sep (Suc k) s =
     (case find_sub sep s of None \<Rightarrow> [s] | Some i \<Rightarrow> take (i + save) s # cuts save sep k (drop (i + length sep) s))"

lemma length_cuts: "sep \<noteq> [] \<Longrightarrow> length (cuts save sep k s) = Suc (min k (occs sep s))"
proof (induction k arbitrary: s)
  case (Suc k)
  then show ?case by (subst occs.simps) (simp split: option.split)
qed simp

lemma cuts_Nil: "cuts save sep k s \<noteq> []"
  by (cases k) (auto split: option.split)

lemma cuts_drop:
  assumes "i < length s" "\<not> prefix sep (drop i s)"
  shows "cuts save sep k (drop i s) = (s ! i # hd (cuts save sep k (drop (i + 1) s))) # tl (cuts save sep k (drop (i + 1) s))"
proof (cases k)
  case 0
  then show ?thesis using assms by (simp add: Cons_nth_drop_Suc)
next
  case (Suc j)
  have "find_sub sep (drop i s) = map_option Suc (find_sub sep (drop (i + 1) s))"
    using assms by (simp add: find_sub_drop)
  moreover have "drop i s = s ! i # drop (i + 1) s" using assms by (simp add: Cons_nth_drop_Suc)
  ultimately show ?thesis using Suc by (simp add: add.commute split: option.split)
qed

text \<open>The loop: \<open>out\<close> are the pieces stored, \<open>start\<close> the beginning of the current one.\<close>

lemma genSplit_loop_cuts:
  assumes "sep \<noteq> []" "save \<le> length sep"
  shows "start \<le> i \<Longrightarrow> i \<le> length s \<Longrightarrow> length a = n \<Longrightarrow> length out < n \<Longrightarrow>
    \<exists>st a' na. genSplit_loop s sep save n i start (over out a) (length out) = Inr (st, a', na) \<and>
      st \<le> length s \<and> na < length a' \<and>
      take na a' @ [drop st s] =
        out @ (seg s start i @ hd (cuts save sep (n - 1 - length out) (drop i s))) #
              tl (cuts save sep (n - 1 - length out) (drop i s))"
proof (induction "length s - i" arbitrary: i start out rule: less_induct)
  case less
  let ?k = "n - 1 - length out"
  let ?L = "genSplit_loop s sep save n i start (over out a) (length out)"
  show ?case
  proof (cases "i + length sep \<le> length s \<and> length out + 1 < n")
    case False
    have "cuts save sep ?k (drop i s) = [drop i s]"
    proof (cases "i + length sep \<le> length s")
      case True
      then have "?k = 0" using False less.prems by simp
      then show ?thesis by simp
    next
      case False
      then have "find_sub sep (drop i s) = None" using less.prems by (intro find_sub_short) simp
      then show ?thesis by (cases ?k) simp_all
    qed
    moreover have "?L = Inr (start, over out a, length out)"
      by (subst genSplit_loop.simps) (simp only: False if_False)
    moreover have "drop start s = seg s start i @ drop i s"
      using seg_append [of start i "length s" s] less.prems by simp
    ultimately show ?thesis using less.prems by simp
  next
    case True
    then have i: "i < length s" using assms(1) by (cases sep) auto
    obtain k where k: "?k = Suc k" "n - 1 - length (out @ [x]) = k" for x
      using True by (metis One_nat_def Suc_diff_Suc diff_Suc_eq_diff_pred length_append_singleton less_diff_conv add.commute plus_1_eq_Suc)
    have test: "(s ! i = sep ! 0 \<and> (length sep = 1 \<or> seg s i (i + length sep) = sep)) \<longleftrightarrow> prefix sep (drop i s)"
    proof -
      have "drop i s = s ! i # drop (i + 1) s" using i by (simp add: Cons_nth_drop_Suc)
      moreover obtain c sep' where "sep = c # sep'" using assms(1) by (cases sep) auto
      ultimately show ?thesis using window_prefix [of s i sep] by (cases sep') auto
    qed
    show ?thesis
    proof (cases "prefix sep (drop i s)")
      case match: True
      let ?p = "seg s start (i + save)"
      have next_i: "Suc (i + (length sep - Suc 0)) = i + length sep" using assms(1) by (cases sep) auto
      have "?L = genSplit_loop s sep save n (i + length sep) (i + length sep) (over (out @ [?p]) a) (length (out @ [?p]))"
        using True match test less.prems assms
        by (subst genSplit_loop.simps) (simp add: next_i slice_def store_over nat_add_distrib Suc_diff_le)
      moreover have "length s - (i + length sep) < length s - i" using i assms(1) by (cases sep) auto
      ultimately obtain st a' na where r: "?L = Inr (st, a', na)" "st \<le> length s" "na < length a'"
        "take na a' @ [drop st s] = (out @ [?p]) @
           (seg s (i + length sep) (i + length sep) @ hd (cuts save sep k (drop (i + length sep) s))) #
             tl (cuts save sep k (drop (i + length sep) s))"
        using less.hyps [of "i + length sep" "i + length sep" "out @ [?p]"] True less.prems k(2) by auto
      have "seg s start i @ take save (drop i s) = ?p"
        using seg_append [of start i "i + save" s] less.prems by (simp add: seg_def)
      then have "out @ (seg s start i @ hd (cuts save sep ?k (drop i s))) # tl (cuts save sep ?k (drop i s)) =
          out @ ?p # cuts save sep k (drop (i + length sep) s)"
        unfolding k(1) using match by (simp add: find_sub_prefix add.commute)
      then show ?thesis using r cuts_Nil [of save sep k] by (intro exI [of _ st] exI [of _ a'] exI [of _ na]) simp
    next
      case no: False
      have "?L = genSplit_loop s sep save n (i + 1) start (over out a) (length out)"
        by (subst genSplit_loop.simps) (simp only: True test no if_True if_False simp_thms)
      moreover have "length s - (i + 1) < length s - i" using i by simp
      ultimately obtain st a' na where r: "?L = Inr (st, a', na)" "st \<le> length s" "na < length a'"
        "take na a' @ [drop st s] = out @ (seg s start (i + 1) @ hd (cuts save sep ?k (drop (i + 1) s))) #
             tl (cuts save sep ?k (drop (i + 1) s))"
        using less.hyps [of "i + 1" start out] i less.prems by auto
      then show ?thesis
        using cuts_drop [OF i no, of save ?k] seg_snoc [OF less.prems(1) i]
        by (intro exI [of _ st] exI [of _ a'] exI [of _ na]) simp
    qed
  qed
qed

lemma genSplit_cuts:
  assumes "sep \<noteq> []" "save \<le> length sep" "n \<noteq> 0" "(if n < 0 then Count s sep + 1 else nat n) \<le> maxlen"
  shows "genSplit maxlen s sep save n = Inr (cuts save sep (if n < 0 then occs sep s else nat n - 1) s)"
proof -
  let ?n = "if n < 0 then Count s sep + 1 else nat n"
  have n: "0 < ?n" "?n - 1 = (if n < 0 then occs sep s else nat n - 1)"
    using assms Count_occs [OF assms(1)] by auto
  have "\<exists>st a' na. genSplit_loop s sep save ?n 0 0 (over [] (replicate ?n [])) (length ([] :: gostring list)) = Inr (st, a', na) \<and>
      st \<le> length s \<and> na < length a' \<and>
      take na a' @ [drop st s] =
        [] @ (seg s 0 0 @ hd (cuts save sep (?n - 1 - length ([] :: gostring list)) (drop 0 s))) #
              tl (cuts save sep (?n - 1 - length ([] :: gostring list)) (drop 0 s))"
    by (rule genSplit_loop_cuts [OF assms(1,2)]) (use n in simp_all)
  then obtain st a' na where r: "genSplit_loop s sep save ?n 0 0 (replicate ?n []) 0 = Inr (st, a', na)"
    "st \<le> length s" "na < length a'" "take na a' @ [drop st s] = cuts save sep (?n - 1) s"
    using cuts_Nil [of save sep "?n - 1" s] by auto
  have "take (na + 1) (a'[na := drop st s]) = take na a' @ [drop st s]"
    using r(3) by (simp add: take_Suc_conv_app_nth)
  then show ?thesis
    unfolding n(2) [symmetric] r(4) [symmetric] using assms r(1-3)
    by (simp add: genSplit_def makeslice_def Let_def slice_def store_at_def nat_add_distrib del: of_nat_Suc of_nat_add)
qed

text \<open>What the pieces are: joined by the separator they give the string back, and every piece but the
  last ends at the first occurrence.\<close>

fun joined :: "gostring \<Rightarrow> gostring list \<Rightarrow> gostring" where
  "joined sep [] = []"
| "joined sep [p] = p"
| "joined sep (p # q # ps) = p @ sep @ joined sep (q # ps)"

lemma joined_Cons: "ps \<noteq> [] \<Longrightarrow> joined sep (p # ps) = p @ sep @ joined sep ps"
  by (cases ps) auto

lemma cut_at: "find_sub sep s = Some i \<Longrightarrow> take i s @ sep @ drop (i + length sep) s = s"
proof -
  assume "find_sub sep s = Some i"
  then have "drop i s = sep @ drop (length sep) (drop i s)"
    using find_sub_Some by (metis prefix_def append_eq_conv_conj)
  then show ?thesis by (metis append_take_drop_id drop_drop add.commute)
qed

lemma joined_cuts: "joined sep (cuts 0 sep k s) = s"
  by (induction k arbitrary: s) (auto simp: joined_Cons cuts_Nil cut_at split: option.split)

lemma concat_cuts: "concat (cuts (length sep) sep k s) = s"
proof (induction k arbitrary: s)
  case (Suc k)
  have "take (i + length sep) s = take i s @ sep" if "find_sub sep s = Some i" for i
    using that by (metis find_sub_Some prefix_def append_eq_conv_conj take_add)
  then show ?case using Suc by (auto simp: cut_at split: option.split)
qed simp

lemma cuts_pieces: "sep \<noteq> [] \<Longrightarrow> p \<in> set (butlast (cuts 0 sep k s)) \<Longrightarrow> find_sub sep p = None"
proof (induction k arbitrary: s)
  case (Suc k)
  show ?case
  proof (cases "find_sub sep s")
    case None
    then show ?thesis using Suc.prems by simp
  next
    case (Some i)
    then consider "p = take i s" | "p \<in> set (butlast (cuts 0 sep k (drop (i + length sep) s)))"
      using Suc.prems cuts_Nil by (auto split: if_splits)
    then show ?thesis
    proof cases
      case 1
      have "\<not> prefix sep (drop j (take i s))" for j
      proof
        assume p: "prefix sep (drop j (take i s))"
        then have "j + length sep \<le> i" using prefix_drop_length [OF p Suc.prems(1)] by simp
        moreover have "prefix sep (drop j s)"
          using p by (metis drop_take take_is_prefix prefix_order.trans)
        ultimately show False using find_sub_Some [OF Some] Suc.prems(1) by (cases sep) auto
      qed
      then show ?thesis using 1 by (simp add: find_sub_None)
    next
      case 2
      then show ?thesis using Suc by blast
    qed
  qed
qed simp

lemma cuts_last: "sep \<noteq> [] \<Longrightarrow> occs sep s \<le> k \<Longrightarrow> find_sub sep (last (cuts 0 sep k s)) = None"
proof (induction k arbitrary: s)
  case 0
  then show ?case by (subst (asm) occs.simps) (simp split: option.splits)
next
  case (Suc k)
  show ?case
  proof (cases "find_sub sep s")
    case (Some i)
    then have "occs sep (drop (i + length sep) s) \<le> k"
      using Suc.prems by (subst (asm) occs.simps) simp
    then show ?thesis using Suc Some cuts_Nil by simp
  qed simp
qed

section \<open>Joining, repeating, replacing\<close>

lemma copy_over:
  "length out + length src \<le> length b \<Longrightarrow> w = length out \<Longrightarrow> copy_at (over out b) w src = Inr (over (out @ src) b, length src)"
  by (simp add: copy_at_def over_def Let_def add.commute)

lemma Join_loop_over:
  "length out + length (concat (map (\<lambda>p. sep @ p) a)) \<le> length b \<Longrightarrow> w = length out \<Longrightarrow>
   \<exists>n. Join_loop a sep (over out b) w = Inr (over (out @ concat (map (\<lambda>p. sep @ p) a)) b, n)"
proof (induction a arbitrary: out w)
  case (Cons p a)
  then show ?case
    using copy_over [of out sep b w] copy_over [of "out @ sep" p b "w + length sep"]
      Cons.IH [of "out @ sep @ p" "w + length sep + length p"] by simp
qed simp

lemma joined_concat: "joined sep (p # a) = p @ concat (map (\<lambda>p. sep @ p) a)"
  by (induction a arbitrary: p) (simp_all add: joined_Cons)

lemma total_length: "foldl (\<lambda>n s. n + length s) n a = n + length (concat a)"
  by (induction a arbitrary: n) simp_all

lemma length_separated: "length (concat (map (\<lambda>p. sep @ p) a)) = length sep * length a + length (concat a)"
  by (induction a) simp_all

theorem Join_joined: "Join a sep = Inr (joined sep a)"
proof (cases a)
  case (Cons p ps)
  show ?thesis
  proof (cases ps)
    case Nil
    then show ?thesis using Cons by (simp add: Join_def)
  next
    case (Cons q qs)
    let ?n = "foldl (\<lambda>n s. n + length s) (length sep * (length a - 1)) a"
    let ?b = "replicate ?n (0 :: byte)"
    have n: "length p + length (concat (map (\<lambda>p. sep @ p) ps)) = ?n"
      by (simp add: total_length length_separated \<open>a = p # ps\<close>)
    have "copy_at (over [] ?b) 0 p = Inr (over ([] @ p) ?b, length p)"
      by (rule copy_over) (use n in simp_all)
    moreover obtain m where "Join_loop ps sep (over p ?b) (length p) = Inr (over (p @ concat (map (\<lambda>p. sep @ p) ps)) ?b, m)"
      using Join_loop_over [of p sep ps ?b "length p"] n by auto
    moreover have "over (p @ concat (map (\<lambda>p. sep @ p) ps)) ?b = joined sep a"
      by (subst over_full) (use n in \<open>simp_all add: joined_concat \<open>a = p # ps\<close>\<close>)
    moreover have "Join a sep = bindE (copy_at ?b 0 p) (\<lambda>(b, bp). bindE (Join_loop ps sep b bp) (\<lambda>(b, bp). Inr b))"
      using Cons \<open>a = p # ps\<close> by (simp add: Join_def Let_def)
    ultimately show ?thesis by (simp only: over_Nil append_Nil bindE.simps prod.case)
  qed
qed (simp add: Join_def)

text \<open>\<open>Repeat\<close>: after copying \<open>bp\<close> bytes the buffer starts with whole copies of \<open>s\<close>.\<close>

lemma take_copies:
  assumes "m \<le> k"
  shows "take (m * length s) (concat (replicate k s)) = concat (replicate m s)"
proof -
  obtain d where "k = m + d" using assms le_iff_add by blast
  moreover have "length (concat (replicate m s)) = m * length s" by (induction m) simp_all
  ultimately show ?thesis by (simp add: replicate_add)
qed

lemma length_copies [simp]: "length (concat (replicate k s)) = k * length s"
  by (induction k) simp_all

lemma Repeat_loop_copies:
  "s \<noteq> [] \<Longrightarrow> 0 < j \<Longrightarrow> length b = k * length s \<Longrightarrow>
   take (j * length s) b = take (j * length s) (concat (replicate k s)) \<Longrightarrow>
   Repeat_loop b (j * length s) = Some (Inr (concat (replicate k s)))"
proof (induction "k - j" arbitrary: j b rule: less_induct)
  case less
  have l: "0 < length s" using less.prems by simp
  show ?case
  proof (cases "j < k")
    case False
    then have "j * length s \<ge> length b" using less.prems by simp
    then show ?thesis using less.prems by (subst Repeat_loop.simps) simp
  next
    case True
    then have lt: "j * length s < length b" using less.prems l by simp
    let ?r = "concat (replicate k s)"
    let ?m = "min j (k - j)"
    have src: "take (j * length s) b = concat (replicate j s)"
      using less.prems(4) take_copies [of j k s] True by simp
    have m: "min (j * length s) (k * length s - j * length s) = ?m * length s"
      using nat_mult_min_left [of j "k - j" "length s"] by (simp add: diff_mult_distrib)
    have pre: "take (?m * length s) (take (j * length s) b) = concat (replicate ?m s)"
      unfolding src by (rule take_copies) simp
    let ?b = "take (j * length s) b @ concat (replicate ?m s) @ drop (j * length s + ?m * length s) b"
    have "copy_at b (j * length s) (take (j * length s) b) = Inr (?b, ?m * length s)"
      using lt less.prems(3) m pre by (simp add: copy_at_def Let_def)
    then have step: "Repeat_loop b (j * length s) = Repeat_loop ?b (2 * j * length s)"
      using lt by (subst Repeat_loop.simps) (simp add: mult.commute mult.left_commute)
    have two: "take (j * length s) b @ concat (replicate ?m s) = concat (replicate (j + ?m) s)"
      by (simp add: src replicate_add)
    have "(j + ?m) * length s \<le> k * length s" using True by (intro mult_le_mono1) simp
    then have len: "length ?b = k * length s"
      unfolding length_append src length_copies length_drop less.prems(3) add_mult_distrib by linarith
    have front: "?b = concat (replicate (j + ?m) s) @ drop (j * length s + ?m * length s) b"
      by (simp only: two [symmetric] append_assoc)
    have "take (2 * j * length s) ?b = take (2 * j * length s) ?r"
    proof (cases "j \<le> k - j")
      case True
      then have "j + ?m = 2 * j" "2 * j \<le> k" by simp_all
      then show ?thesis unfolding front using take_copies [of "2 * j" k s] by (simp add: mult_2)
    next
      case False
      then have e: "j + ?m = k" using True by simp
      then have "j * length s + ?m * length s = k * length s" by (simp only: add_mult_distrib [symmetric])
      then have "?b = ?r" unfolding front e using less.prems(3) by simp
      then show ?thesis by simp
    qed
    then show ?thesis
      unfolding step using less.hyps [of "2 * j" ?b] less.prems(1,2) True len by simp
  qed
qed

theorem Repeat_copies: "0 \<le> c \<Longrightarrow> Repeat s c = Some (Inr (concat (replicate (nat c) s)))"
proof -
  assume c: "0 \<le> c"
  have n: "nat (int (length s) * c) = nat c * length s" using c by (simp add: nat_mult_distrib)
  let ?b = "replicate (nat c * length s) (0 :: byte)"
  show ?thesis
  proof (cases "s = [] \<or> c = 0")
    case True
    then have "concat (replicate (nat c) s) = []" by auto
    then show ?thesis using True c by (auto simp: Repeat_def Let_def copy_at_def Repeat_loop.simps)
  next
    case False
    then have k: "1 \<le> nat c" "s \<noteq> []" using c by auto
    then have le: "length s \<le> nat c * length s" by simp
    have "copy_at ?b 0 s = Inr (s @ drop (length s) ?b, length s)"
      using le by (simp add: copy_at_def Let_def)
    moreover have "Repeat_loop (s @ drop (length s) ?b) (1 * length s) = Some (Inr (concat (replicate (nat c) s)))"
      by (rule Repeat_loop_copies) (use k le take_copies [of 1 "nat c" s] in simp_all)
    ultimately show ?thesis using c by (simp add: Repeat_def Let_def n not_less)
  qed
qed

text \<open>\<open>Replace\<close> with a nonempty \<open>old\<close>: \<open>n\<close> pieces are followed by \<open>new\<close>.\<close>

lemma Replace_loop_cuts:
  assumes "old \<noteq> []"
  shows "i \<le> n \<Longrightarrow> st \<le> length s \<Longrightarrow> n - i \<le> occs old (drop st s) \<Longrightarrow>
    length out + length (joined new (cuts 0 old (n - i) (drop st s))) \<le> length b \<Longrightarrow>
    \<exists>out' st'. Replace_loop s old new n i (length out) (int st) (over out b) = Inr (length out', int st', over out' b) \<and>
      st' \<le> length s \<and> out' @ drop st' s = out @ joined new (cuts 0 old (n - i) (drop st s))"
proof (induction "n - i" arbitrary: i st out)
  case 0
  then show ?case by (subst Replace_loop.simps) simp
next
  case (Suc d)
  have d: "n - i = Suc d" "d = n - (i + 1)" "i < n" using Suc.hyps(2) by simp_all
  have "occs old (drop st s) \<noteq> 0" using Suc.prems d by simp
  then obtain j where j: "find_sub old (drop st s) = Some j"
    using assms by (subst (asm) occs.simps) (auto split: option.splits)
  have b: "st + j + length old \<le> length s" using find_sub_bound [OF j assms] Suc.prems by simp
  let ?p = "take j (drop st s)"
  let ?st = "st + j + length old"
  let ?rest = "cuts 0 old d (drop ?st s)"
  have cut: "joined new (cuts 0 old (n - i) (drop st s)) = ?p @ new @ joined new ?rest"
    using j cuts_Nil by (simp add: d(1) joined_Cons add.commute add.left_commute)
  have lp: "length ?p = j" using b by simp
  have "seg s st (st + j) = ?p" by (simp add: seg_def)
  then have sl: "slice s (int st) (int (length s)) = Inr (drop st s)" "slice s (int st) (int st + int j) = Inr ?p"
    using Suc.prems(2) b by (simp_all add: slice_def nat_add_distrib)
  have fits: "length out + (j + (length new + length (joined new ?rest))) \<le> length b"
    using Suc.prems(4) unfolding cut length_append lp .
  have "Replace_loop s old new n i (length out) (int st) (over out b) =
      Replace_loop s old new n (i + 1) (length (out @ ?p @ new)) (int ?st) (over (out @ ?p @ new) b)"
    using assms d(3) sl fits copy_over [of out ?p b "length out"] copy_over [of "out @ ?p" new b "length out + j"] lp
    by (subst Replace_loop.simps) (simp add: Index_found found_def j Let_def add.assoc)
  moreover have "\<exists>out' st'. Replace_loop s old new n (i + 1) (length (out @ ?p @ new)) (int ?st) (over (out @ ?p @ new) b) =
        Inr (length out', int st', over out' b) \<and>
      st' \<le> length s \<and> out' @ drop st' s = (out @ ?p @ new) @ joined new (cuts 0 old (n - (i + 1)) (drop ?st s))"
  proof (rule Suc.hyps(1))
    show "n - (i + 1) \<le> occs old (drop ?st s)"
      using Suc.prems(3) j assms unfolding d(2) [symmetric]
      by (subst (asm) occs.simps) (simp add: d(1) add.commute add.left_commute)
  qed (use d b fits lp in \<open>simp_all add: d(2) [symmetric]\<close>)
  ultimately show ?case unfolding cut d(2) [symmetric] by simp
qed

lemma length_joined_cuts:
  "old \<noteq> [] \<Longrightarrow> k \<le> occs old s \<Longrightarrow>
   int (length (joined new (cuts 0 old k s))) = int (length s) + int k * (int (length new) - int (length old))"
proof (induction k arbitrary: s)
  case (Suc k)
  then obtain j where j: "find_sub old s = Some j" "k \<le> occs old (drop (j + length old) s)"
    by (subst (asm) (2) occs.simps) (auto split: option.splits)
  have b: "j + length old \<le> length s" using find_sub_bound [OF j(1) Suc.prems(1)] .
  then have "int (length (drop (j + length old) s)) = int (length s) - int j - int (length old)"
    by (simp add: of_nat_diff)
  then show ?case
    using Suc.IH [OF Suc.prems(1) j(2)] j(1) b cuts_Nil by (simp add: joined_Cons algebra_simps)
qed simp

theorem Replace_nonempty:
  assumes "old \<noteq> []"
  shows "Replace s old new n =
    Inr (joined new (cuts 0 old (if n < 0 then occs old s else min (nat n) (occs old s)) s))"
proof (cases "old = new \<or> n = 0")
  case True
  then show ?thesis using joined_cuts [of old _ s] by (auto simp: Replace_def)
next
  case False
  define k where "k = (if n < 0 then occs old s else min (nat n) (occs old s))"
  have km: "(if n < 0 \<or> int (occs old s) < n then occs old s else nat n) = k"
    using False by (auto simp: min_def k_def)
  have k: "k \<le> occs old s" by (simp add: k_def)
  show ?thesis
  proof (cases "occs old s = 0")
    case True
    then show ?thesis using False Count_occs [OF assms, of s] by (simp add: Replace_def Let_def)
  next
    case pos: False
    let ?r = "joined new (cuts 0 old k s)"
    let ?b = "replicate (length ?r) (0 :: byte)"
    have len: "int (length s) + int k * (int (length new) - int (length old)) = int (length ?r)"
      by (rule length_joined_cuts [OF assms k, symmetric])
    obtain out st where r: "Replace_loop s old new k 0 0 0 ?b = Inr (length out, int st, over out ?b)"
      "st \<le> length s" "out @ drop st s = ?r"
      using Replace_loop_cuts [OF assms, of 0 k 0 s "[]" new ?b] k by auto
    have l: "length out + length (drop st s) = length ?r" unfolding r(3) [symmetric] by simp
    have c: "copy_at (over out ?b) (length out) (drop st s) = Inr (over (out @ drop st s) ?b, length (drop st s))"
      by (rule copy_over) (simp_all only: l length_replicate order_refl)
    have o: "over (out @ drop st s) ?b = ?r" by (subst over_full) (simp_all only: r(3) length_replicate)
    have sl: "slice s (int st) (int (length s)) = Inr (drop st s)" using r(2) by (simp add: slice_def)
    have "slice ?r 0 (int (length out + length (drop st s))) = Inr ?r" unfolding l by (simp add: slice_def)
    then show ?thesis
      unfolding Replace_def Let_def Count_occs [OF assms] km len k_def [symmetric]
      using False pos by (simp add: r(1) sl c o)
  qed
qed

section \<open>The empty separator\<close>

text \<open>The piece that \<open>explode\<close> stores for a rune before the last piece.\<close>

definition mended :: "rune \<times> gostring \<Rightarrow> gostring" where
  "mended x = (if fst x = RuneError then runeErrorString else snd x)"

lemma runes_ne: "runes p \<noteq> [] \<longleftrightarrow> p \<noteq> []"
  by (cases "p = []") (simp_all add: runes_step)

lemma DecodeRune_le:
  assumes "p \<noteq> []"
  shows "snd (DecodeRune p) \<le> length p"
  using assms
proof (cases rule: DecodeRune_cases)
  case bad
  then show ?thesis using assms by (cases p) auto
next
  case (good r)
  then show ?thesis by (metis length_take min.cobounded1 snd_conv)
qed

lemma explode_loop_runes:
  "i < n \<Longrightarrow> n - i \<le> length (runes (drop cur s)) \<Longrightarrow> cur \<le> length s \<Longrightarrow> length a = n \<Longrightarrow> length out = i \<Longrightarrow>
   \<exists>cur'. explode_loop s n i cur (over out a) =
       Inr (n - 1, cur', over (out @ map mended (take (n - 1 - i) (runes (drop cur s)))) a) \<and>
     cur' < length s \<and> drop cur' s = concat (map snd (drop (n - 1 - i) (runes (drop cur s))))"
proof (induction "n - i" arbitrary: i cur out rule: less_induct)
  case less
  let ?p = "drop cur s"
  have "runes ?p \<noteq> []" using less.prems(1,2) by auto
  then have p: "?p \<noteq> []" by (simp add: runes_ne)
  show ?case
  proof (cases "i + 1 < n")
    case False
    then have "n = i + 1" using less.prems by simp
    then show ?thesis using p by (subst explode_loop.simps) (simp add: runes_concat)
  next
    case True
    define k where "k = snd (DecodeRune ?p)"
    have k: "0 < k" "cur + k \<le> length s"
      using DecodeRune_size [OF p] DecodeRune_le [OF p] less.prems(3) by (auto simp: k_def)
    have r: "runes ?p = (fst (DecodeRune ?p), take k ?p) # runes (drop (cur + k) s)"
      using runes_step [OF p] by (simp add: k_def add.commute)
    let ?x = "mended (fst (DecodeRune ?p), take k ?p)"
    have "seg s cur (cur + k) = take k ?p" by (simp add: seg_def)
    then have sl: "slice s (int cur) (int cur + int k) = Inr (take k ?p)"
      using k by (simp add: slice_def nat_add_distrib)
    have "explode_loop s n i cur (over out a) = explode_loop s n (i + 1) (cur + k) (over (out @ [?x]) a)"
      using True less.prems sl
      by (subst explode_loop.simps) (auto simp: DecodeRuneInString_eq k_def mended_def store_over split: prod.split)
    moreover have "\<exists>cur'. explode_loop s n (i + 1) (cur + k) (over (out @ [?x]) a) =
        Inr (n - 1, cur', over ((out @ [?x]) @ map mended (take (n - 1 - (i + 1)) (runes (drop (cur + k) s)))) a) \<and>
        cur' < length s \<and> drop cur' s = concat (map snd (drop (n - 1 - (i + 1)) (runes (drop (cur + k) s))))"
      using True less.prems k r by (intro less.hyps) auto
    moreover have "n - 1 - i = Suc (n - 1 - (i + 1))" using True by simp
    ultimately show ?thesis by (simp add: r)
  qed
qed

theorem explode_runes:
  "(if n < 0 then length (runes s) else min (nat n) (length (runes s))) \<le> maxlen \<Longrightarrow> explode maxlen s n =
    Inr (if n = 0 \<or> s = [] then []
     else let k = (if n < 0 then length (runes s) else min (nat n) (length (runes s))) - 1
          in map mended (take k (runes s)) @ [concat (map snd (drop k (runes s)))])"
proof (cases "n = 0 \<or> s = []")
  case True
  then show ?thesis by (auto simp: explode_def makeslice_def RuneCountInString_def RuneCountInString_loop_runes Let_def explode_loop.simps)
next
  case False
  assume max: "(if n < 0 then length (runes s) else min (nat n) (length (runes s))) \<le> maxlen"
  let ?l = "length (runes s)"
  define m where "m = (if n < 0 then ?l else min (nat n) ?l)"
  have cnt: "RuneCountInString s = ?l" by (simp add: RuneCountInString_def RuneCountInString_loop_runes)
  have m: "(if n \<le> 0 \<or> n > int ?l then ?l else nat n) = m" using False by (auto simp: m_def min_def)
  have b: "0 < m" "m \<le> ?l" using False runes_ne [of s] by (auto simp: m_def)
  obtain cur where r: "explode_loop s m 0 0 (replicate m []) =
      Inr (m - 1, cur, over (map mended (take (m - 1) (runes s))) (replicate m []))"
    "cur < length s" "drop cur s = concat (map snd (drop (m - 1) (runes s)))"
    using explode_loop_runes [of 0 m 0 s "replicate m []" "[]"] b by auto
  let ?out = "map mended (take (m - 1) (runes s))"
  have o: "length ?out = m - 1" "length (?out @ [drop cur s]) = m" using b by simp_all
  have "store_at (over ?out (replicate m [])) (m - 1) (drop cur s) = Inr (over (?out @ [drop cur s]) (replicate m []))"
    by (rule store_over) (use o b in simp_all)
  also have "over (?out @ [drop cur s]) (replicate m []) = ?out @ [drop cur s]"
    by (rule over_full) (simp only: o length_replicate)
  finally show ?thesis
    using False r max by (simp add: explode_def makeslice_def Let_def cnt m m_def [symmetric])
qed

lemma Replace_loop_runes:
  "0 < i \<Longrightarrow> i \<le> n \<Longrightarrow> st \<le> length s \<Longrightarrow> n - i \<le> length (runes (drop st s)) \<Longrightarrow>
   length out + length (concat (map (\<lambda>x. snd x @ new) (take (n - i) (runes (drop st s))))) \<le> length b \<Longrightarrow>
   \<exists>out' st'. Replace_loop s [] new n i (length out) (int st) (over out b) = Inr (length out', int st', over out' b) \<and>
     st' \<le> length s \<and> out' = out @ concat (map (\<lambda>x. snd x @ new) (take (n - i) (runes (drop st s)))) \<and>
     drop st' s = concat (map snd (drop (n - i) (runes (drop st s))))"
proof (induction "n - i" arbitrary: i st out)
  case 0
  then show ?case by (subst Replace_loop.simps) (simp add: runes_concat)
next
  case (Suc d)
  let ?p = "drop st s"
  have d: "n - i = Suc d" "d = n - (i + 1)" "i < n" using Suc.hyps(2) by simp_all
  have "runes ?p \<noteq> []" using Suc.prems(4) d by auto
  then have p: "?p \<noteq> []" by (simp add: runes_ne)
  define k where "k = snd (DecodeRune ?p)"
  have k: "st + k \<le> length s" using DecodeRune_le [OF p] Suc.prems(3) by (simp add: k_def)
  have r: "runes ?p = (fst (DecodeRune ?p), take k ?p) # runes (drop (st + k) s)"
    using runes_step [OF p] by (simp add: k_def add.commute)
  let ?x = "take k ?p"
  have lx: "length ?x = k" using k by simp
  have "seg s st (st + k) = ?x" by (simp add: seg_def)
  then have sl: "slice s (int st) (int (length s)) = Inr ?p" "slice s (int st) (int st + int k) = Inr ?x"
    using Suc.prems(3) k by (simp_all add: slice_def nat_add_distrib)
  let ?rest = "concat (map (\<lambda>x. snd x @ new) (take d (runes (drop (st + k) s))))"
  have fits: "length out + (length ?x + (length new + length ?rest)) \<le> length b"
    using Suc.prems(5) by (simp only: d(1) r take_Suc_Cons list.map concat.simps snd_conv length_append add.assoc)
  have "Replace_loop s [] new n i (length out) (int st) (over out b) =
      Replace_loop s [] new n (i + 1) (length (out @ ?x @ new)) (int (st + k)) (over (out @ ?x @ new) b)"
    using d(3) sl Suc.prems(1) fits copy_over [of out ?x b "length out"] copy_over [of "out @ ?x" new b "length out + length ?x"]
    by (subst Replace_loop.simps) (simp add: Let_def DecodeRuneInString_eq k_def [symmetric] add.assoc)
  moreover have "\<exists>out' st'. Replace_loop s [] new n (i + 1) (length (out @ ?x @ new)) (int (st + k)) (over (out @ ?x @ new) b) =
        Inr (length out', int st', over out' b) \<and>
      st' \<le> length s \<and>
      out' = (out @ ?x @ new) @ concat (map (\<lambda>x. snd x @ new) (take (n - (i + 1)) (runes (drop (st + k) s)))) \<and>
      drop st' s = concat (map snd (drop (n - (i + 1)) (runes (drop (st + k) s))))"
  proof (rule Suc.hyps(1))
    show "n - (i + 1) \<le> length (runes (drop (st + k) s))"
      using Suc.prems(4) unfolding r d(2) [symmetric] d(1) by simp
  qed (use d k fits in \<open>simp_all add: d(2) [symmetric]\<close>)
  ultimately show ?case unfolding d(2) [symmetric] by (simp add: r d(1))
qed

theorem Replace_empty:
  assumes "new \<noteq> []" "n \<noteq> 0"
  shows "Replace s [] new n =
    (let k = (if n < 0 then length (runes s) else min (nat n - 1) (length (runes s)))
     in Inr (new @ concat (map (\<lambda>x. snd x @ new) (take k (runes s))) @ concat (map snd (drop k (runes s)))))"
proof -
  let ?l = "length (runes s)"
  define k where "k = (if n < 0 then ?l else min (nat n - 1) ?l)"
  have cnt: "Count s [] = Suc ?l" by (simp add: Count_def RuneCountInString_def RuneCountInString_loop_runes)
  have km: "(if n < 0 \<or> int (Suc ?l) < n then Suc ?l else nat n) = Suc k"
    using assms(2) by (auto simp: k_def min_def)
  have kl: "k \<le> ?l" by (simp add: k_def)
  let ?mid = "concat (map (\<lambda>x. snd x @ new) (take k (runes s)))"
  let ?tl = "concat (map snd (drop k (runes s)))"
  let ?r = "new @ ?mid @ ?tl"
  let ?b = "replicate (length ?r) (0 :: byte)"
  have "length (concat (map (\<lambda>x. snd x @ new) xs)) = length (concat (map snd xs)) + length xs * length new"
    for xs :: "(rune \<times> gostring) list" by (induction xs) simp_all
  then have "length ?mid + length ?tl = length (concat (map snd (take k (runes s) @ drop k (runes s)))) + k * length new"
    using kl by (simp del: append_take_drop_id add: min_def)
  then have len: "int (length s) + int (Suc k) * (int (length new) - int (length ([] :: gostring))) = int (length ?r)"
    by (simp add: runes_concat algebra_simps)
  have "seg s 0 0 = []" by simp
  then have first: "Replace_loop s [] new (Suc k) 0 0 0 ?b = Replace_loop s [] new (Suc k) 1 (length new) 0 (over new ?b)"
    using copy_over [of "[]" "[]" ?b 0] copy_over [of "[]" new ?b 0]
    by (subst Replace_loop.simps) (simp add: Let_def slice_def)
  obtain st where r: "Replace_loop s [] new (Suc k) 1 (length new) 0 (over new ?b) =
      Inr (length (new @ ?mid), int st, over (new @ ?mid) ?b)" "st \<le> length s" "drop st s = ?tl"
    using Replace_loop_runes [of 1 "Suc k" 0 s new new ?b] kl by auto
  have c: "copy_at (over (new @ ?mid) ?b) (length (new @ ?mid)) ?tl = Inr (over ((new @ ?mid) @ ?tl) ?b, length ?tl)"
    by (rule copy_over) simp_all
  have o: "over ((new @ ?mid) @ ?tl) ?b = ?r" by (subst over_full) simp_all
  have sl: "slice s (int st) (int (length s)) = Inr ?tl" using r(2,3) by (simp add: slice_def)
  have "slice ?r 0 (int (length (new @ ?mid) + length ?tl)) = Inr ?r" by (simp add: slice_def)
  then show ?thesis
    unfolding Replace_def Let_def cnt km len k_def [symmetric]
    using assms by (simp add: first r(1) [unfolded One_nat_def] sl c o del: length_append append_assoc length_concat)
qed

section \<open>Properties\<close>

lemma cuts_after:
  "cuts (length sep) sep k s = map (\<lambda>p. p @ sep) (butlast (cuts 0 sep k s)) @ [last (cuts 0 sep k s)]"
proof (induction k arbitrary: s)
  case (Suc k)
  have "take (i + length sep) s = take i s @ sep" if "find_sub sep s = Some i" for i
    using that by (metis find_sub_Some prefix_def append_eq_conv_conj take_add)
  then show ?case using Suc cuts_Nil by (auto split: option.split)
qed simp

lemma encoded_RuneError: "encodedBytes RuneError = runeErrorString"
  by code_simp

lemma mended_valid: "valid_piece x \<Longrightarrow> mended x = snd x"
  by (auto simp: valid_piece_def mended_def encoded_RuneError)

lemma concat_mended: "list_all valid_piece xs \<Longrightarrow> concat (map mended xs) = concat (map snd xs)"
  by (induction xs) (simp_all add: mended_valid)

lemma Contains_find: "Contains s sep \<longleftrightarrow> find_sub sep s \<noteq> None"
  by (auto simp: Contains_def Index_found found_def split: option.splits)

lemma Contains_sublist: "Contains s sep \<longleftrightarrow> sublist sep s"
proof
  assume "Contains s sep"
  then obtain i where "find_sub sep s = Some i" by (auto simp: Contains_find)
  then have "prefix sep (drop i s)" using find_sub_Some by blast
  then show "sublist sep s" by (metis append_take_drop_id prefix_def sublist_appendI)
next
  assume "sublist sep s"
  then obtain us vs where "s = us @ sep @ vs" by (auto simp: sublist_def)
  then have "length us \<le> length s \<and> prefix sep (drop (length us) s)" by simp
  then have "find_sub sep s \<noteq> None" unfolding find_sub_None by blast
  then show "Contains s sep" by (simp add: Contains_find)
qed

text \<open>C30: \<open>Index\<close> is the first position at which \<open>sep\<close> occurs and \<open>LastIndex\<close> the last one, or -1 when
  there is none: the rolling hash, which wraps around, misses no occurrence, and a collision of hashes
  reports none. \<open>Contains\<close> holds for the contiguous substrings.\<close>

theorem strings_search:
  "((Index s sep = - 1 \<and> (\<forall>k. k \<le> length s \<longrightarrow> \<not> prefix sep (drop k s))) \<or>
    (\<exists>k. Index s sep = int k \<and> k \<le> length s \<and> prefix sep (drop k s) \<and> (\<forall>j. j < k \<longrightarrow> \<not> prefix sep (drop j s)))) \<and>
   ((LastIndex s sep = - 1 \<and> (\<forall>k. k \<le> length s \<longrightarrow> \<not> prefix sep (drop k s))) \<or>
    (\<exists>k. LastIndex s sep = int k \<and> k \<le> length s \<and> prefix sep (drop k s) \<and>
       (\<forall>j. k < j \<and> j \<le> length s \<longrightarrow> \<not> prefix sep (drop j s)))) \<and>
   (Contains s sep \<longleftrightarrow> sublist sep s)"
proof (intro conjI)
  show "(Index s sep = - 1 \<and> (\<forall>k. k \<le> length s \<longrightarrow> \<not> prefix sep (drop k s))) \<or>
    (\<exists>k. Index s sep = int k \<and> k \<le> length s \<and> prefix sep (drop k s) \<and> (\<forall>j. j < k \<longrightarrow> \<not> prefix sep (drop j s)))"
    using find_sub_None [of sep s] find_sub_Some [of sep s]
    by (cases "find_sub sep s") (simp_all add: Index_found found_def)
  show "(LastIndex s sep = - 1 \<and> (\<forall>k. k \<le> length s \<longrightarrow> \<not> prefix sep (drop k s))) \<or>
    (\<exists>k. LastIndex s sep = int k \<and> k \<le> length s \<and> prefix sep (drop k s) \<and>
       (\<forall>j. k < j \<and> j \<le> length s \<longrightarrow> \<not> prefix sep (drop j s)))"
    using find_last_None [of sep s "Suc (length s)"] find_last_Some [of sep s "Suc (length s)"]
    by (cases "find_last sep s (Suc (length s))") (simp_all add: LastIndex_found found_def less_Suc_eq_le del: find_last.simps)
qed (rule Contains_sublist)

lemma strings_search_witness:
  "Index [1, 2, 3, 2, 3] [2, 3] = 1 \<and> LastIndex [1, 2, 3, 2, 3] [2, 3] = 3 \<and> \<not> Contains [1, 2, 3] [3, 2]"
proof -
  have "Index [1, 2, 3, 2, 3] [2, 3] = 1" by (simp add: Index_found found_def)
  moreover have "LastIndex [1, 2, 3, 2, 3] [2, 3] = 3" by (simp add: LastIndex_found found_def numeral_eq_Suc)
  moreover have "\<not> Contains [1, 2, 3] [3, 2]"
    using strings_search [of "[1, 2, 3]" "[3, 2]"] by (simp add: Index_found found_def Contains_def)
  ultimately show ?thesis by blast
qed

text \<open>\<open>Count\<close> is the largest number of occurrences of a nonempty \<open>sep\<close> that do not overlap, and one
  more than the number of runes for an empty one.\<close>

theorem Count_maximal:
  "(sep \<noteq> [] \<longrightarrow> (\<exists>ks. apart sep s 0 ks \<and> length ks = Count s sep) \<and>
     (\<forall>ks. apart sep s 0 ks \<longrightarrow> length ks \<le> Count s sep)) \<and>
   Count s [] = length (runes s) + 1"
  using occs_attained [of sep s 0] apart_le_occs [of sep s 0]
  by (auto simp: Count_occs) (simp add: Count_def RuneCountInString_def RuneCountInString_loop_runes)

lemma Count_maximal_witness: "Count [1, 1, 1, 1, 1] [1, 1] = 2 \<and> 2 \<le> Count [1, 1, 1, 1, 1] [1, 1]"
  using Count_maximal [of "[1, 1]" "[1, 1, 1, 1, 1]", THEN conjunct1, rule_format, THEN conjunct2, rule_format, of "[0, 2]"]
  by (simp add: Count_occs occs_Cons occs_short)

lemma if_both: "(c \<Longrightarrow> P) \<Longrightarrow> (\<not> c \<Longrightarrow> Q) \<Longrightarrow> if c then P else Q"
  by simp

lemma genSplit_over:
  assumes "sep \<noteq> []" "n \<noteq> 0" "\<not> (if n < 0 then Count s sep + 1 else nat n) \<le> maxlen"
  shows "genSplit maxlen s sep save n = Inl (PanicMsg ''makeslice: len out of range'')"
  using assms by (auto simp: genSplit_def makeslice_def Let_def)

lemma explode_over:
  assumes "n \<noteq> 0" "\<not> (if n < 0 then length (runes s) else min (nat n) (length (runes s))) \<le> maxlen"
  shows "explode maxlen s n = Inl (PanicMsg ''makeslice: len out of range'')"
proof -
  have cnt: "RuneCountInString s = length (runes s)" by (simp add: RuneCountInString_def RuneCountInString_loop_runes)
  have "(if n \<le> 0 \<or> n > int (length (runes s)) then length (runes s) else nat n) =
      (if n < 0 then length (runes s) else min (nat n) (length (runes s)))"
    using assms(1) by (auto simp: min_def)
  then show ?thesis using assms unfolding explode_def makeslice_def cnt Let_def by simp
qed

text \<open>C31: with a nonempty separator, \<open>SplitN\<close> cuts at the first occurrences: the pieces joined by the
  separator give the string back, there are as many as \<open>n\<close> and \<open>Count\<close> allow, only the unsplit
  remainder can contain the separator, and \<open>SplitAfterN\<close> leaves the separators on the pieces. With an
  empty separator the pieces of a valid string concatenate to it; an invalid byte is replaced, but not
  in the last piece. No index leaves its slice. The only panic is that of \<open>make\<close> when the slots asked for exceed
  the length \<open>maxlen\<close> that a slice can have; with a nonempty separator these are all of \<open>n\<close>, however few the
  pieces are.\<close>

theorem split_join:
  "SplitN maxlen s sep 0 = Inr [] \<and>
   (n \<noteq> 0 \<and> sep \<noteq> [] \<longrightarrow>
     (if (if n < 0 then Count s sep + 1 else nat n) \<le> maxlen
      then \<exists>ps. SplitN maxlen s sep n = Inr ps \<and> Join ps sep = Inr s \<and>
        length ps = (if n < 0 then Count s sep + 1 else min (nat n) (Count s sep + 1)) \<and>
        (\<forall>p. p \<in> set (butlast ps) \<longrightarrow> \<not> Contains p sep) \<and>
        (n < 0 \<or> int (Count s sep) < n \<longrightarrow> \<not> Contains (last ps) sep) \<and>
        SplitAfterN maxlen s sep n = Inr (map (\<lambda>p. p @ sep) (butlast ps) @ [last ps])
      else SplitN maxlen s sep n = Inl (PanicMsg ''makeslice: len out of range'') \<and>
        SplitAfterN maxlen s sep n = Inl (PanicMsg ''makeslice: len out of range''))) \<and>
   (n \<noteq> 0 \<and> s \<noteq> [] \<longrightarrow>
     (let k = (if n < 0 then RuneCountInString s else min (nat n) (RuneCountInString s))
      in if k \<le> maxlen
      then \<exists>ps. SplitN maxlen s [] n = Inr ps \<and> length ps = k \<and> (ValidString s \<longrightarrow> concat ps = s)
      else SplitN maxlen s [] n = Inl (PanicMsg ''makeslice: len out of range''))) \<and>
   SplitN 2 [0xff, 0x41] [] (- 1) = Inr [runeErrorString, [0x41]] \<and> SplitN 1 [0xff] [] (- 1) = Inr [[0xff]]"
proof (intro conjI impI)
  show "SplitN maxlen s sep 0 = Inr []" by (simp add: SplitN_def genSplit_def)
next
  assume n: "n \<noteq> 0 \<and> sep \<noteq> []"
  let ?k = "if n < 0 then occs sep s else nat n - 1"
  let ?ps = "cuts 0 sep ?k s"
  have fits: "\<exists>ps. SplitN maxlen s sep n = Inr ps \<and> Join ps sep = Inr s \<and>
        length ps = (if n < 0 then Count s sep + 1 else min (nat n) (Count s sep + 1)) \<and>
        (\<forall>p. p \<in> set (butlast ps) \<longrightarrow> \<not> Contains p sep) \<and>
        (n < 0 \<or> int (Count s sep) < n \<longrightarrow> \<not> Contains (last ps) sep) \<and>
        SplitAfterN maxlen s sep n = Inr (map (\<lambda>p. p @ sep) (butlast ps) @ [last ps])"
    if f: "(if n < 0 then Count s sep + 1 else nat n) \<le> maxlen"
  proof -
    have cut: "SplitN maxlen s sep n = Inr ?ps" "SplitAfterN maxlen s sep n = Inr (cuts (length sep) sep ?k s)"
      using n genSplit_cuts [OF _ _ _ f] by (simp_all add: SplitN_def SplitAfterN_def)
    have "find_sub sep (last ?ps) = None" if "n < 0 \<or> int (occs sep s) < n"
      by (rule cuts_last) (use that n in auto)
    then show ?thesis
      using n cuts_pieces [of sep _ ?k s]
      by (intro exI [of _ ?ps])
        (auto simp: cut Join_joined joined_cuts length_cuts Count_occs Contains_find cuts_after [of sep ?k s])
  qed
  have over: "SplitN maxlen s sep n = Inl (PanicMsg ''makeslice: len out of range'') \<and>
        SplitAfterN maxlen s sep n = Inl (PanicMsg ''makeslice: len out of range'')"
    if f: "\<not> (if n < 0 then Count s sep + 1 else nat n) \<le> maxlen"
    using n genSplit_over [OF _ _ f] by (simp add: SplitN_def SplitAfterN_def)
  show "if (if n < 0 then Count s sep + 1 else nat n) \<le> maxlen
      then \<exists>ps. SplitN maxlen s sep n = Inr ps \<and> Join ps sep = Inr s \<and>
        length ps = (if n < 0 then Count s sep + 1 else min (nat n) (Count s sep + 1)) \<and>
        (\<forall>p. p \<in> set (butlast ps) \<longrightarrow> \<not> Contains p sep) \<and>
        (n < 0 \<or> int (Count s sep) < n \<longrightarrow> \<not> Contains (last ps) sep) \<and>
        SplitAfterN maxlen s sep n = Inr (map (\<lambda>p. p @ sep) (butlast ps) @ [last ps])
      else SplitN maxlen s sep n = Inl (PanicMsg ''makeslice: len out of range'') \<and>
        SplitAfterN maxlen s sep n = Inl (PanicMsg ''makeslice: len out of range'')"
    using if_both [OF fits over] .
next
  assume n: "n \<noteq> 0 \<and> s \<noteq> []"
  let ?c = "if n < 0 then length (runes s) else min (nat n) (length (runes s))"
  let ?ps = "map mended (take (?c - 1) (runes s)) @ [concat (map snd (drop (?c - 1) (runes s)))]"
  have cnt: "RuneCountInString s = length (runes s)" by (simp add: RuneCountInString_def RuneCountInString_loop_runes)
  have fits: "\<exists>ps. SplitN maxlen s [] n = Inr ps \<and> length ps = ?c \<and> (ValidString s \<longrightarrow> concat ps = s)" if f: "?c \<le> maxlen"
  proof -
    have "SplitN maxlen s [] n = Inr ?ps" using n explode_runes [OF f] by (simp add: SplitN_def genSplit_def Let_def)
    moreover have "0 < length (runes s)" using n runes_ne by simp
    moreover have "concat ?ps = s" if "ValidString s"
    proof -
      have "list_all valid_piece (runes s)"
        using that by (simp add: ValidString_def ValidString_loop_runes)
      then have "list_all valid_piece (take (?c - 1) (runes s))" by (auto simp: list_all_iff dest: in_set_takeD)
      then have "concat ?ps = concat (map snd (take (?c - 1) (runes s) @ drop (?c - 1) (runes s)))"
        by (simp add: concat_mended del: append_take_drop_id)
      then show ?thesis by (simp add: runes_concat)
    qed
    ultimately show ?thesis using n by (intro exI [of _ ?ps]) auto
  qed
  have over: "SplitN maxlen s [] n = Inl (PanicMsg ''makeslice: len out of range'')" if f: "\<not> ?c \<le> maxlen"
    using n explode_over [OF _ f] by (simp add: SplitN_def genSplit_def)
  show "let k = (if n < 0 then RuneCountInString s else min (nat n) (RuneCountInString s))
      in if k \<le> maxlen
      then \<exists>ps. SplitN maxlen s [] n = Inr ps \<and> length ps = k \<and> (ValidString s \<longrightarrow> concat ps = s)
      else SplitN maxlen s [] n = Inl (PanicMsg ''makeslice: len out of range'')"
    unfolding cnt Let_def using if_both [OF fits over] .
next
  show "SplitN 2 [0xff, 0x41] [] (- 1) = Inr [runeErrorString, [0x41]]" by code_simp
  show "SplitN 1 [0xff] [] (- 1) = Inr [[0xff]]" by code_simp
qed

lemma split_join_witness:
  "(\<exists>ps. SplitN 3 [1, 2, 2, 3, 2, 2] [2, 2] (- 1) = Inr ps \<and> Join ps [2, 2] = Inr [1, 2, 2, 3, 2, 2] \<and> length ps = 3) \<and>
   SplitN (2 ^ 27) [1, 2, 2, 3, 2, 2] [2, 2] (2 ^ 31 - 1) = Inl (PanicMsg ''makeslice: len out of range'')"
proof (intro conjI)
  show "\<exists>ps. SplitN 3 [1, 2, 2, 3, 2, 2] [2, 2] (- 1) = Inr ps \<and> Join ps [2, 2] = Inr [1, 2, 2, 3, 2, 2] \<and> length ps = 3"
    using split_join [of 3 "[1, 2, 2, 3, 2, 2]" "[2, 2]" "- 1", THEN conjunct2, THEN conjunct1]
    by (auto simp: Count_occs occs_Cons occs_short)
  show "SplitN (2 ^ 27) [1, 2, 2, 3, 2, 2] [2, 2] (2 ^ 31 - 1) = Inl (PanicMsg ''makeslice: len out of range'')"
    using split_join [of "2 ^ 27" "[1, 2, 2, 3, 2, 2]" "[2, 2]" "2 ^ 31 - 1", THEN conjunct2, THEN conjunct1] by simp
qed

text \<open>\<open>Replace\<close> of a nonempty string is to split at its first \<open>n\<close> occurrences and to join with the
  new one; an empty string is replaced before the string and after each of its first runes. \<open>Repeat\<close>
  returns, although its loop doubles a counter, and gives the copies, or panics on a negative count.
  The buffers have just the size that is needed.\<close>

theorem replace_repeat:
  "(old \<noteq> [] \<and> (if n < 0 then Count s old + 1 else nat n + 1) \<le> maxlen \<longrightarrow>
     (\<exists>ps. SplitN maxlen s old (if n < 0 then - 1 else n + 1) = Inr ps \<and> Replace s old new n = Join ps new)) \<and>
   (new \<noteq> [] \<and> n \<noteq> 0 \<longrightarrow>
     (let k = (if n < 0 then RuneCountInString s else min (nat n - 1) (RuneCountInString s))
      in Replace s [] new n = Inr (new @ concat (map (\<lambda>x. snd x @ new) (take k (runes s))) @ concat (map snd (drop k (runes s)))))) \<and>
   Repeat s n = (if 0 \<le> n \<or> s = [] then Some (Inr (concat (replicate (nat n) s)))
     else Some (Inl (PanicMsg ''makeslice: len out of range'')))"
proof (intro conjI impI)
  assume o: "old \<noteq> [] \<and> (if n < 0 then Count s old + 1 else nat n + 1) \<le> maxlen"
  then have old: "old \<noteq> []" ..
  have cut: "genSplit maxlen s old 0 (if n < 0 then - 1 else n + 1) = Inr (cuts 0 old (if n < 0 then occs old s else nat n) s)"
    using genSplit_cuts [OF old, of 0 "if n < 0 then - 1 else n + 1" s maxlen] o by (auto simp: nat_add_distrib)
  have same: "cuts 0 old (min k (occs old s)) s = cuts 0 old k s" for k
    using old
  proof (induction k arbitrary: s)
    case (Suc k)
    then show ?case by (cases "find_sub old s"; subst occs.simps) simp_all
  qed simp
  show "\<exists>ps. SplitN maxlen s old (if n < 0 then - 1 else n + 1) = Inr ps \<and> Replace s old new n = Join ps new"
    using old by (auto simp: SplitN_def cut Replace_nonempty Join_joined same nat_add_distrib)
next
  assume "new \<noteq> [] \<and> n \<noteq> 0"
  then show "let k = (if n < 0 then RuneCountInString s else min (nat n - 1) (RuneCountInString s))
      in Replace s [] new n = Inr (new @ concat (map (\<lambda>x. snd x @ new) (take k (runes s))) @ concat (map snd (drop k (runes s))))"
    using Replace_empty [of new n s] by (simp add: RuneCountInString_def RuneCountInString_loop_runes Let_def)
next
  show "Repeat s n = (if 0 \<le> n \<or> s = [] then Some (Inr (concat (replicate (nat n) s)))
     else Some (Inl (PanicMsg ''makeslice: len out of range'')))"
  proof (cases "0 \<le> n")
    case True
    then show ?thesis by (simp add: Repeat_copies)
  next
    case False
    then show ?thesis
      by (auto simp: Repeat_def Let_def copy_at_def Repeat_loop.simps mult_less_0_iff)
  qed
qed

lemma replace_repeat_witness:
  "\<exists>ps. SplitN 9 [1, 7, 2, 7, 3] [7] 2 = Inr ps \<and> Replace [1, 7, 2, 7, 3] [7] [8, 9] 1 = Join ps [8, 9]"
  using replace_repeat [of "[7]" 1 "[1, 7, 2, 7, 3]" 9 "[8, 9]", THEN conjunct1] by simp

end
