(* ===== verification/Go_Path.thy ===== *)
theory Go_Path
  imports Go_Strings
begin

text \<open>
  Package path (src/path/path.go): the lexical operations on slash-separated paths. \<open>Clean\<close> writes into
  a \<open>lazybuf\<close>, which allocates only when its output differs from its input; the model keeps its three
  fields, and its index and slice operations can panic.
\<close>

abbreviation slash :: byte where "slash \<equiv> 0x2f"
abbreviation dot :: byte where "dot \<equiv> 0x2e"

lemma dot_slash: "(dot = slash) = False" "(slash = dot) = False"
  by simp_all

section \<open>The lazy buffer\<close>

record lazybuf =
  lb_s :: gostring
  lb_buf :: "byte list option"
  lb_w :: nat

definition lb_index :: "lazybuf \<Rightarrow> nat \<Rightarrow> panic + byte" where
  "lb_index b i = (case lb_buf b of Some a \<Rightarrow> load_at a i | None \<Rightarrow> load_at (lb_s b) i)"

definition lb_write :: "lazybuf \<Rightarrow> byte list \<Rightarrow> byte \<Rightarrow> panic + lazybuf" where
  "lb_write b a c = bindE (store_at a (lb_w b) c) (\<lambda>a. Inr (b\<lparr>lb_buf := Some a, lb_w := lb_w b + 1\<rparr>))"

definition lb_append :: "lazybuf \<Rightarrow> byte \<Rightarrow> panic + lazybuf" where
  "lb_append b c =
     (case lb_buf b of
        None \<Rightarrow>
          if lb_w b < length (lb_s b) \<and> lb_s b ! lb_w b = c then Inr (b\<lparr>lb_w := lb_w b + 1\<rparr>)
          else bindE (slice (lb_s b) 0 (int (lb_w b))) (\<lambda>p.
               bindE (copy_at (replicate (length (lb_s b)) 0) 0 p) (\<lambda>(a, _). lb_write b a c))
      | Some a \<Rightarrow> lb_write b a c)"

definition lb_string :: "lazybuf \<Rightarrow> panic + gostring" where
  "lb_string b = (case lb_buf b of None \<Rightarrow> slice (lb_s b) 0 (int (lb_w b)) | Some a \<Rightarrow> slice a 0 (int (lb_w b)))"

section \<open>Clean\<close>

declare bindE_cong [fundef_cong]

text \<open>\<open>for out.w > dotdot && out.index(out.w) != '/' { out.w-- }\<close>\<close>

function backtrack :: "lazybuf \<Rightarrow> nat \<Rightarrow> panic + lazybuf" where
  "backtrack out dotdot =
     (if lb_w out > dotdot
      then bindE (lb_index out (lb_w out)) (\<lambda>c.
           if c \<noteq> slash then backtrack (out\<lparr>lb_w := lb_w out - 1\<rparr>) dotdot else Inr out)
      else Inr out)"
  by pat_completeness auto
termination by (relation "measure (\<lambda>(out, dotdot). lb_w out)") auto

text \<open>\<open>for ; r < n && path[r] != '/'; r++ { out.append(path[r]) }\<close>\<close>

function copy_elem :: "gostring \<Rightarrow> nat \<Rightarrow> lazybuf \<Rightarrow> panic + nat \<times> lazybuf" where
  "copy_elem path r out =
     (if r < length path \<and> path ! r \<noteq> slash
      then bindE (lb_append out (path ! r)) (\<lambda>out. copy_elem path (r + 1) out)
      else Inr (r, out))"
  by pat_completeness auto
termination by (relation "measure (\<lambda>(path, r, out). length path - r)") auto

declare backtrack.simps [simp del] copy_elem.simps [simp del]

lemma copy_elem_mono: "copy_elem path r out = Inr (r', out') \<Longrightarrow> r \<le> r'"
proof (induction path r out rule: copy_elem.induct)
  case (1 path r out)
  show ?case
  proof (cases "r < length path \<and> path ! r \<noteq> slash")
    case True
    then obtain o1 where "lb_append out (path ! r) = Inr o1" "copy_elem path (r + 1) o1 = Inr (r', out')"
      using 1(2) by (subst (asm) copy_elem.simps) auto
    then show ?thesis using 1(1) [of o1] True by simp
  next
    case False
    then show ?thesis using 1(2) by (subst (asm) copy_elem.simps) auto
  qed
qed

lemma copy_elem_progress:
  "copy_elem path r out = Inr (r', out') \<Longrightarrow> r < length path \<Longrightarrow> path ! r \<noteq> slash \<Longrightarrow> r < r'"
  by (subst (asm) copy_elem.simps) (auto dest!: copy_elem_mono)

function Clean_loop :: "gostring \<Rightarrow> bool \<Rightarrow> nat \<Rightarrow> nat \<Rightarrow> lazybuf \<Rightarrow> panic + lazybuf" where
  "Clean_loop path rooted r dotdot out =
     (let n = length path in
      if r < n then
        if path ! r = slash then Clean_loop path rooted (r + 1) dotdot out
        else if path ! r = dot \<and> (r + 1 = n \<or> path ! (r + 1) = slash) then Clean_loop path rooted (r + 1) dotdot out
        else if path ! r = dot \<and> path ! (r + 1) = dot \<and> (r + 2 = n \<or> path ! (r + 2) = slash) then
          if lb_w out > dotdot then
            bindE (backtrack (out\<lparr>lb_w := lb_w out - 1\<rparr>) dotdot) (\<lambda>out. Clean_loop path rooted (r + 2) dotdot out)
          else if \<not> rooted then
            bindE (if lb_w out > 0 then lb_append out slash else Inr out) (\<lambda>out.
            bindE (lb_append out dot) (\<lambda>out.
            bindE (lb_append out dot) (\<lambda>out.
            Clean_loop path rooted (r + 2) (lb_w out) out)))
          else Clean_loop path rooted (r + 2) dotdot out
        else
          bindE (if rooted \<and> lb_w out \<noteq> 1 \<or> \<not> rooted \<and> lb_w out \<noteq> 0 then lb_append out slash else Inr out) (\<lambda>out.
          bindE (copy_elem path r out) (\<lambda>(r, out). Clean_loop path rooted r dotdot out))
      else Inr out)"
  by pat_completeness auto
termination
  by (relation "measure (\<lambda>(path, rooted, r, dotdot, out). length path - r)") (auto dest!: copy_elem_progress)

declare Clean_loop.simps [simp del]

definition Clean :: "gostring \<Rightarrow> panic + gostring" where
  "Clean path =
     (if path = [] then Inr [dot]
      else let rooted = (path ! 0 = slash);
               out = \<lparr>lb_s = path, lb_buf = None, lb_w = 0\<rparr>
           in bindE (if rooted then lb_append out slash else Inr out) (\<lambda>out.
              bindE (Clean_loop path rooted (if rooted then 1 else 0) (if rooted then 1 else 0) out) (\<lambda>out.
              if lb_w out = 0 then Inr [dot] else lb_string out)))"

section \<open>The other operations\<close>

definition path_Split :: "gostring \<Rightarrow> panic + gostring \<times> gostring" where
  "path_Split path =
     (let i = LastIndex path [slash] in
      bindE (slice path 0 (i + 1)) (\<lambda>dir. bindE (slice path (i + 1) (int (length path))) (\<lambda>file. Inr (dir, file))))"

fun path_Join :: "gostring list \<Rightarrow> panic + gostring" where
  "path_Join [] = Inr []"
| "path_Join (e # elem) = (if e \<noteq> [] then bindE (Join (e # elem) [slash]) Clean else path_Join elem)"

fun Ext_loop :: "gostring \<Rightarrow> nat \<Rightarrow> gostring" where
  "Ext_loop path 0 = []"
| "Ext_loop path (Suc i) =
     (if path ! i \<noteq> slash then (if path ! i = dot then drop i path else Ext_loop path i) else [])"

definition Ext :: "gostring \<Rightarrow> gostring" where
  "Ext path = Ext_loop path (length path)"

function Base_strip :: "gostring \<Rightarrow> gostring" where
  "Base_strip path =
     (if length path > 0 \<and> path ! (length path - 1) = slash then Base_strip (take (length path - 1) path) else path)"
  by pat_completeness auto
termination by (relation "measure length") auto

definition Base :: "gostring \<Rightarrow> panic + gostring" where
  "Base path =
     (if path = [] then Inr [dot]
      else let path = Base_strip path; i = LastIndex path [slash] in
        bindE (if i \<ge> 0 then slice path (i + 1) (int (length path)) else Inr path) (\<lambda>path.
        if path = [] then Inr [slash] else Inr path))"

definition IsAbs :: "gostring \<Rightarrow> bool" where
  "IsAbs path \<longleftrightarrow> length path > 0 \<and> path ! 0 = slash"

definition Dir :: "gostring \<Rightarrow> panic + gostring" where
  "Dir path = bindE (path_Split path) (\<lambda>(dir, _). Clean dir)"

declare Base_strip.simps [simp del]

section \<open>What Clean computes\<close>

text \<open>The elements of a path, without empty ones and \<open>.\<close>; the stack that resolves \<open>..\<close>; the path
  that a stack stands for.\<close>

abbreviation dotdot_elem :: gostring where "dotdot_elem \<equiv> [dot, dot]"

function elements :: "gostring \<Rightarrow> gostring list" where
  "elements p =
     (if p = [] then []
      else if hd p = slash then elements (tl p)
      else (if takeWhile (\<lambda>c. c \<noteq> slash) p = [dot] then [] else [takeWhile (\<lambda>c. c \<noteq> slash) p]) @
        elements (dropWhile (\<lambda>c. c \<noteq> slash) p))"
  by pat_completeness auto
termination
proof (relation "measure length", goal_cases)
  case (3 p)
  then show ?case using length_dropWhile_le [of "\<lambda>c. c \<noteq> slash" "tl p"] by (cases p) auto
qed auto

declare elements.simps [simp del]

definition push_elem :: "bool \<Rightarrow> gostring list \<Rightarrow> gostring \<Rightarrow> gostring list" where
  "push_elem rooted es e =
     (if e = dotdot_elem
      then if es = [] then (if rooted then [] else [e])
           else if last es = dotdot_elem then es @ [e] else butlast es
      else es @ [e])"

definition resolve :: "bool \<Rightarrow> gostring list \<Rightarrow> gostring list \<Rightarrow> gostring list" where
  "resolve rooted es new = foldl (push_elem rooted) es new"

definition render :: "bool \<Rightarrow> gostring list \<Rightarrow> gostring" where
  "render rooted es = (if rooted then [slash] else []) @ joined [slash] es"

definition clean_path :: "gostring \<Rightarrow> gostring" where
  "clean_path p =
     (let t = render (IsAbs p) (resolve (IsAbs p) [] (elements p)) in if t = [] then [dot] else t)"

lemma resolve_simps [simp]: "resolve rooted es [] = es"
  "resolve rooted es (e # new) = resolve rooted (push_elem rooted es e) new"
  by (simp_all add: resolve_def)

lemma elements_Nil [simp]: "elements [] = []"
  by (simp add: elements.simps)

lemma elements_slash [simp]: "elements (slash # p) = elements p"
  by (subst elements.simps) simp

lemma elements_elem:
  "c \<noteq> slash \<Longrightarrow> elements (c # p) =
     (let e = takeWhile (\<lambda>c. c \<noteq> slash) (c # p) in
      (if e = [dot] then [] else [e]) @ elements (dropWhile (\<lambda>c. c \<noteq> slash) (c # p)))"
  by (subst elements.simps) (simp add: Let_def)

lemma joined_snoc: "joined sep (es @ [e]) = joined sep es @ (if es = [] then [] else sep) @ e"
  by (induction sep es rule: joined.induct) simp_all

lemma render_snoc: "render rooted (es @ [e]) = render rooted es @ (if es = [] then [] else [slash]) @ e"
  by (simp add: render_def joined_snoc)

lemma render_Nil: "render rooted [] = (if rooted then [slash] else [])"
  by (simp add: render_def)

section \<open>The buffer as text\<close>

definition lb_data :: "lazybuf \<Rightarrow> byte list" where
  "lb_data b = (case lb_buf b of None \<Rightarrow> lb_s b | Some a \<Rightarrow> a)"

lemma lb_data_w [simp]: "lb_data (b\<lparr>lb_w := w\<rparr>) = lb_data b"
  by (simp add: lb_data_def split: option.split)

definition lb_text :: "lazybuf \<Rightarrow> byte list" where
  "lb_text b = take (lb_w b) (lb_data b)"

definition lb_ok :: "gostring \<Rightarrow> lazybuf \<Rightarrow> bool" where
  "lb_ok path b \<longleftrightarrow> lb_s b = path \<and> length (lb_data b) = length path \<and> lb_w b \<le> length path"

lemma length_lb_text: "lb_ok path b \<Longrightarrow> length (lb_text b) = lb_w b"
  by (simp add: lb_ok_def lb_text_def)

lemma lb_write_text:
  assumes "length a = n" "lb_w b < n"
  shows "\<exists>b'. lb_write b a c = Inr b' \<and> lb_s b' = lb_s b \<and> lb_w b' = lb_w b + 1 \<and> length (lb_data b') = n \<and>
    lb_text b' = take (lb_w b) a @ [c]"
  using assms by (simp add: lb_write_def store_at_def lb_text_def lb_data_def take_Suc_conv_app_nth)

lemma lb_append_text:
  assumes ok: "lb_ok path b" and w: "lb_w b < length path"
  shows "\<exists>b'. lb_append b c = Inr b' \<and> lb_ok path b' \<and> lb_text b' = lb_text b @ [c]"
proof (cases "lb_buf b")
  case None
  then have s: "lb_s b = path" "lb_data b = path" using ok by (simp_all add: lb_ok_def lb_data_def)
  show ?thesis
  proof (cases "path ! lb_w b = c")
    case True
    then show ?thesis
      using None s w by (simp add: lb_append_def lb_ok_def lb_text_def lb_data_def take_Suc_conv_app_nth)
  next
    case False
    let ?a = "take (lb_w b) path @ drop (lb_w b) (replicate (length path) 0)"
    have "copy_at (replicate (length path) 0) 0 (take (lb_w b) path) = Inr (?a, lb_w b)"
      using w by (simp add: copy_at_def Let_def min_def)
    moreover have "slice path 0 (int (lb_w b)) = Inr (take (lb_w b) path)" using w by (simp add: slice_def)
    ultimately have "lb_append b c = lb_write b ?a c"
      using None s False by (simp add: lb_append_def)
    then show ?thesis
      using lb_write_text [of ?a "length path" b c] w s by (auto simp: lb_ok_def lb_text_def)
  qed
next
  case (Some a)
  then have "lb_append b c = lb_write b a c" "lb_data b = a" by (simp_all add: lb_append_def lb_data_def)
  then show ?thesis
    using lb_write_text [of a "length path" b c] w ok by (auto simp: lb_ok_def lb_text_def)
qed

lemma lb_string_text: "lb_ok path b \<Longrightarrow> lb_string b = Inr (lb_text b)"
  by (auto simp: lb_ok_def lb_string_def lb_text_def lb_data_def slice_def split: option.splits)

lemma lb_index_data: "lb_ok path b \<Longrightarrow> i < length path \<Longrightarrow> lb_index b i = Inr (lb_data b ! i)"
  by (auto simp: lb_ok_def lb_index_def lb_data_def load_at_def split: option.splits)

lemma backtrack_to:
  "lb_ok path b \<Longrightarrow> dd \<le> k \<Longrightarrow> k \<le> lb_w b \<Longrightarrow> lb_w b < length path \<Longrightarrow>
   k = dd \<or> lb_data b ! k = slash \<Longrightarrow> (\<And>j. k < j \<Longrightarrow> j \<le> lb_w b \<Longrightarrow> lb_data b ! j \<noteq> slash) \<Longrightarrow>
   backtrack b dd = Inr (b\<lparr>lb_w := k\<rparr>)"
proof (induction "lb_w b" arbitrary: b)
  case 0
  then show ?case by (subst backtrack.simps) simp
next
  case (Suc w)
  have i: "lb_index b (Suc w) = Inr (lb_data b ! Suc w)"
    using lb_index_data [OF Suc.prems(1)] Suc.prems(4) Suc.hyps(2) by simp
  show ?case
  proof (cases "k = Suc w")
    case True
    then have "lb_w b = k" using Suc.hyps(2) by simp
    then show ?thesis
      using True i Suc.hyps(2) Suc.prems(5) by (subst backtrack.simps) auto
  next
    case False
    let ?b = "b\<lparr>lb_w := w\<rparr>"
    have d: "lb_data ?b = lb_data b" by simp
    have k: "k < Suc w" using False Suc.prems(3) Suc.hyps(2) by simp
    then have "lb_data b ! Suc w \<noteq> slash" using Suc.prems(6) Suc.hyps(2) by simp
    then have "backtrack b dd = backtrack ?b dd"
      using i k Suc.hyps(2) [symmetric] Suc.prems(2) by (subst backtrack.simps) simp
    also have "\<dots> = Inr (?b\<lparr>lb_w := k\<rparr>)"
      by (rule Suc.hyps(1)) (use k Suc.prems Suc.hyps(2) d in \<open>auto simp: lb_ok_def\<close>)
    finally show ?thesis by simp
  qed
qed

lemma copy_elem_text:
  "lb_ok path b \<Longrightarrow> r \<le> length path \<Longrightarrow> lb_w b \<le> r \<Longrightarrow>
   \<exists>b'. copy_elem path r b = Inr (r + length (takeWhile (\<lambda>c. c \<noteq> slash) (drop r path)), b') \<and> lb_ok path b' \<and>
     lb_text b' = lb_text b @ takeWhile (\<lambda>c. c \<noteq> slash) (drop r path)"
proof (induction "length path - r" arbitrary: r b)
  case 0
  then show ?case by (subst copy_elem.simps) simp
next
  case (Suc d)
  then have r: "r < length path" by simp
  then have dr: "drop r path = path ! r # drop (r + 1) path" by (simp add: Cons_nth_drop_Suc)
  show ?case
  proof (cases "path ! r = slash")
    case True
    then show ?thesis using Suc.prems(1) r dr by (subst copy_elem.simps) simp
  next
    case False
    obtain b1 where b1: "lb_append b (path ! r) = Inr b1" "lb_ok path b1" "lb_text b1 = lb_text b @ [path ! r]"
      using lb_append_text [OF Suc.prems(1), of "path ! r"] r Suc.prems(3) by auto
    have d: "d = length path - (r + 1)" using Suc.hyps(2) by simp
    have "lb_w b1 \<le> r + 1"
      using length_lb_text [OF b1(2)] length_lb_text [OF Suc.prems(1)] b1(3) Suc.prems(3) by simp
    then obtain b' where "copy_elem path (r + 1) b1 = Inr (r + 1 + length (takeWhile (\<lambda>c. c \<noteq> slash) (drop (r + 1) path)), b')"
      "lb_ok path b'" "lb_text b' = lb_text b1 @ takeWhile (\<lambda>c. c \<noteq> slash) (drop (r + 1) path)"
      using Suc.hyps(1) [of "r + 1" b1] d b1(2) r by auto
    then show ?thesis using False r b1 dr by (subst copy_elem.simps) simp
  qed
qed

text \<open>The state of the loop at position \<open>r\<close>: \<open>dds\<close> are the leading \<open>..\<close> elements, which stay, and
  \<open>es\<close> the elements that can still be taken back. There is room for a slash before a new element.\<close>

definition plain_elem :: "gostring \<Rightarrow> bool" where
  "plain_elem e \<longleftrightarrow> e \<noteq> [] \<and> e \<noteq> dotdot_elem \<and> slash \<notin> set e"

definition clean_inv :: "gostring \<Rightarrow> bool \<Rightarrow> nat \<Rightarrow> nat \<Rightarrow> nat \<Rightarrow> gostring list \<Rightarrow> lazybuf \<Rightarrow> bool" where
  "clean_inv path rooted r dd k es out \<longleftrightarrow>
     lb_ok path out \<and> r \<le> length path \<and> (rooted \<longrightarrow> k = 0) \<and> list_all plain_elem es \<and>
     lb_text out = render rooted (replicate k dotdot_elem @ es) \<and>
     dd = length (render rooted (replicate k dotdot_elem)) \<and>
     lb_w out \<le> r \<and> (r = length path \<or> path ! r = slash \<or> lb_w out < r \<or> k = 0 \<and> es = [])"

lemma length_joined_pos: "es \<noteq> [] \<Longrightarrow> list_all (\<lambda>e. e \<noteq> []) es \<Longrightarrow> 0 < length (joined sep es)"
  by (cases es; cases "tl es") (auto simp: joined_Cons)

lemma render_longer:
  assumes "list_all plain_elem es" "es \<noteq> []"
  shows "length (render rooted (replicate k dotdot_elem)) < length (render rooted (replicate k dotdot_elem @ es))"
  using assms
proof (induction es rule: rev_induct)
  case (snoc e es)
  have e: "e \<noteq> []" using snoc.prems(1) by (simp add: plain_elem_def)
  have "length (render rooted (replicate k dotdot_elem)) \<le> length (render rooted (replicate k dotdot_elem @ es))"
    using snoc by (cases "es = []") (auto simp: less_imp_le)
  then show ?case using e by (simp add: render_snoc append_assoc [symmetric] del: append_assoc)
qed simp

lemma render_empty: "list_all plain_elem es \<Longrightarrow> length (render rooted (replicate k dotdot_elem @ es)) =
    (if rooted then 1 else 0) \<longleftrightarrow> k = 0 \<and> es = []"
proof -
  assume "list_all plain_elem es"
  then have "list_all (\<lambda>e. e \<noteq> []) (replicate k dotdot_elem @ es)"
    by (auto simp: list_all_iff plain_elem_def)
  note pos = length_joined_pos [OF _ this, of "[slash]"]
  show ?thesis
  proof (cases "k = 0 \<and> es = []")
    case False
    then have "joined [slash] (replicate k dotdot_elem @ es) \<noteq> []" using pos by auto
    then show ?thesis using False by (simp add: render_def)
  qed (simp add: render_def)
qed

text \<open>Taking back the last element.\<close>

lemma take_back:
  assumes inv: "clean_inv path rooted r dd k (es @ [e]) out"
  shows "\<exists>out'. backtrack (out\<lparr>lb_w := lb_w out - 1\<rparr>) dd = Inr out' \<and> lb_ok path out' \<and>
    lb_text out' = render rooted (replicate k dotdot_elem @ es) \<and> lb_w out' \<le> lb_w out"
proof -
  let ?L = "replicate k dotdot_elem @ es"
  let ?m = "length (render rooted ?L)"
  let ?sep = "if ?L = [] then [] else [slash]"
  have ok: "lb_ok path out" and pe: "plain_elem e" "list_all plain_elem es" and t: "lb_text out = render rooted ?L @ ?sep @ e"
    using inv by (simp_all add: clean_inv_def render_snoc append_assoc [symmetric] del: append_assoc)
  have e: "0 < length e" "slash \<notin> set e" using pe by (simp_all add: plain_elem_def)
  have w: "lb_w out = ?m + length ?sep + length e" using length_lb_text [OF ok] by (simp add: t del: append_assoc)
  have data: "take (lb_w out) (lb_data out) = render rooted ?L @ ?sep @ e" using t by (simp add: lb_text_def)
  have at: "lb_data out ! j = (render rooted ?L @ ?sep @ e) ! j" if "j < lb_w out" for j
    using data that by (metis nth_take)
  let ?b = "out\<lparr>lb_w := lb_w out - 1\<rparr>"
  have d: "lb_data ?b = lb_data out" by simp
  have "backtrack ?b dd = Inr (?b\<lparr>lb_w := ?m\<rparr>)"
  proof (rule backtrack_to)
    show "lb_ok path ?b" using ok by (auto simp: lb_ok_def)
    show "dd \<le> ?m"
      using inv render_longer [OF pe(2), of rooted k] by (cases "es = []") (auto simp: clean_inv_def)
    have "lb_w ?b = lb_w out - 1" by simp
    then show "?m \<le> lb_w ?b" using w e(1) by linarith
    have "lb_w out \<le> length path" using ok by (simp add: lb_ok_def)
    then show "lb_w ?b < length path" using w e(1) \<open>lb_w ?b = lb_w out - 1\<close> by linarith
    show "?m = dd \<or> lb_data ?b ! ?m = slash"
    proof (cases "?L = []")
      case True
      then show ?thesis using inv by (auto simp: clean_inv_def)
    next
      case False
      then have "?sep = [slash]" by (rule if_not_P)
      then show ?thesis using at [of ?m] w by (simp only: d nth_append) simp
    qed
    fix j assume j: "?m < j" "j \<le> lb_w ?b"
    then have "j - ?m - length ?sep < length e" "?m + length ?sep \<le> j" using w e(1) by (auto split: if_splits)
    then have "lb_data out ! j = e ! (j - ?m - length ?sep)"
      using at [of j] w by (auto simp: nth_append split: if_splits)
    then show "lb_data ?b ! j \<noteq> slash" using e(2) \<open>j - ?m - length ?sep < length e\<close> nth_mem by (metis d)
  qed
  moreover have "lb_ok path (?b\<lparr>lb_w := ?m\<rparr>)" using ok w by (auto simp: lb_ok_def)
  moreover have "lb_text (?b\<lparr>lb_w := ?m\<rparr>) = render rooted ?L"
  proof -
    have "take ?m (take (lb_w out) (lb_data out)) = render rooted ?L" unfolding data by simp
    then show ?thesis using w by (simp add: lb_text_def min_def)
  qed
  ultimately show ?thesis using w by auto
qed

text \<open>One turn of the loop, for each kind of element.\<close>

lemma clean_inv_w:
  assumes "clean_inv path rooted r dd k es out"
  shows "lb_w out = length (render rooted (replicate k dotdot_elem @ es))"
    and "lb_w out = (if rooted then 1 else 0) \<longleftrightarrow> k = 0 \<and> es = []"
    and "lb_w out > dd \<longleftrightarrow> es \<noteq> []"
proof -
  have a: "lb_ok path out" "list_all plain_elem es" "lb_text out = render rooted (replicate k dotdot_elem @ es)"
    "dd = length (render rooted (replicate k dotdot_elem))"
    using assms by (simp_all add: clean_inv_def)
  show w: "lb_w out = length (render rooted (replicate k dotdot_elem @ es))"
    using length_lb_text [OF a(1)] a(3) by simp
  show "lb_w out = (if rooted then 1 else 0) \<longleftrightarrow> k = 0 \<and> es = []"
    unfolding w by (rule render_empty [OF a(2)])
  show "lb_w out > dd \<longleftrightarrow> es \<noteq> []"
    using render_longer [OF a(2), of rooted k] unfolding w a(4) by (cases "es = []") simp_all
qed

lemma step_skip:
  assumes "clean_inv path rooted r dd k es out" "r < r'" "r' \<le> length path"
  shows "clean_inv path rooted r' dd k es out"
  using assms by (auto simp: clean_inv_def)

lemma step_back:
  assumes "clean_inv path rooted r dd k (es @ [e]) out" "r + 2 \<le> length path"
  shows "\<exists>out'. backtrack (out\<lparr>lb_w := lb_w out - 1\<rparr>) dd = Inr out' \<and> clean_inv path rooted (r + 2) dd k es out'"
  using take_back [OF assms(1)] assms by (auto simp: clean_inv_def intro: le_SucI)

lemma slash_room:
  assumes "clean_inv path rooted r dd k es out" "r < length path" "path ! r \<noteq> slash"
  shows "\<exists>o1. (if \<not> (k = 0 \<and> es = []) then lb_append out slash else Inr out) = Inr o1 \<and> lb_ok path o1 \<and>
    lb_text o1 = render rooted (replicate k dotdot_elem @ es) @ (if k = 0 \<and> es = [] then [] else [slash]) \<and> lb_w o1 \<le> r"
proof (cases "k = 0 \<and> es = []")
  case True
  then show ?thesis using assms by (auto simp: clean_inv_def)
next
  case False
  then have ok: "lb_ok path out" and w: "lb_w out < r" and t: "lb_text out = render rooted (replicate k dotdot_elem @ es)"
    using assms by (auto simp: clean_inv_def)
  obtain o1 where o1: "lb_append out slash = Inr o1" "lb_ok path o1" "lb_text o1 = lb_text out @ [slash]"
    using lb_append_text [OF ok, of slash] w assms(2) by auto
  then have "lb_w o1 = lb_w out + 1" using length_lb_text [OF ok] length_lb_text [OF o1(2)] by simp
  then show ?thesis using False o1 w t by simp
qed

lemma step_dotdot:
  assumes inv: "clean_inv path False r dd k [] out" and r: "r + 2 \<le> length path" "path ! r = dot"
    and bnd: "r + 2 = length path \<or> path ! (r + 2) = slash"
  shows "\<exists>o1 o2 o3. (if lb_w out > 0 then lb_append out slash else Inr out) = Inr o1 \<and> lb_append o1 dot = Inr o2 \<and>
    lb_append o2 dot = Inr o3 \<and> clean_inv path False (r + 2) (lb_w o3) (Suc k) [] o3"
proof -
  have "lb_w out > 0 \<longleftrightarrow> \<not> (k = 0 \<and> [] = ([] :: gostring list))" using clean_inv_w(2) [OF inv] by auto
  then obtain o1 where o1: "(if lb_w out > 0 then lb_append out slash else Inr out) = Inr o1" "lb_ok path o1"
    "lb_text o1 = render False (replicate k dotdot_elem) @ (if k = 0 then [] else [slash])" "lb_w o1 \<le> r"
    using slash_room [OF inv] r by (auto simp: if_distrib)
  obtain o2 where o2: "lb_append o1 dot = Inr o2" "lb_ok path o2" "lb_text o2 = lb_text o1 @ [dot]"
    using lb_append_text [OF o1(2), of dot] o1(4) r by auto
  have w2: "lb_w o2 = lb_w o1 + 1" using length_lb_text [OF o1(2)] length_lb_text [OF o2(2)] o2(3) by simp
  obtain o3 where o3: "lb_append o2 dot = Inr o3" "lb_ok path o3" "lb_text o3 = lb_text o2 @ [dot]"
    using lb_append_text [OF o2(2), of dot] w2 o1(4) r by auto
  have w3: "lb_w o3 = lb_w o2 + 1" using length_lb_text [OF o2(2)] length_lb_text [OF o3(2)] o3(3) by simp
  have "lb_text o3 = render False (replicate k dotdot_elem @ [dotdot_elem])"
    unfolding render_snoc using o1(3) o2(3) o3(3) by simp
  also have "replicate k dotdot_elem @ [dotdot_elem] = replicate (Suc k) dotdot_elem"
    by (simp add: replicate_append_same)
  finally have t: "lb_text o3 = render False (replicate (Suc k) dotdot_elem)" .
  then have "clean_inv path False (r + 2) (lb_w o3) (Suc k) [] o3"
    using o3(2) r bnd w2 w3 o1(4) length_lb_text [OF o3(2)] by (auto simp: clean_inv_def)
  then show ?thesis using o1(1) o2(1) o3(1) by blast
qed

lemma step_elem:
  assumes inv: "clean_inv path rooted r dd k es out" and r: "r < length path" "path ! r \<noteq> slash"
    and e: "takeWhile (\<lambda>c. c \<noteq> slash) (drop r path) = e" "e \<noteq> dotdot_elem"
  shows "\<exists>o1 o2. (if rooted \<and> lb_w out \<noteq> 1 \<or> \<not> rooted \<and> lb_w out \<noteq> 0 then lb_append out slash else Inr out) = Inr o1 \<and>
    copy_elem path r o1 = Inr (r + length e, o2) \<and> clean_inv path rooted (r + length e) dd k (es @ [e]) o2"
proof -
  have c: "(rooted \<and> lb_w out \<noteq> 1 \<or> \<not> rooted \<and> lb_w out \<noteq> 0) \<longleftrightarrow> \<not> (k = 0 \<and> es = [])"
    using clean_inv_w(2) [OF inv] by (cases rooted) simp_all
  obtain o1 where o1: "(if \<not> (k = 0 \<and> es = []) then lb_append out slash else Inr out) = Inr o1" "lb_ok path o1"
    "lb_text o1 = render rooted (replicate k dotdot_elem @ es) @ (if k = 0 \<and> es = [] then [] else [slash])" "lb_w o1 \<le> r"
    using slash_room [OF inv r] by blast
  obtain o2 where o2: "copy_elem path r o1 = Inr (r + length e, o2)" "lb_ok path o2" "lb_text o2 = lb_text o1 @ e"
    using copy_elem_text [OF o1(2) _ o1(4)] r e by auto
  have "drop r path = path ! r # drop (Suc r) path" using r by (simp add: Cons_nth_drop_Suc)
  then have ne: "e \<noteq> []" using e(1) r(2) by auto
  have plain: "plain_elem e" using e ne by (auto simp: plain_elem_def dest: set_takeWhileD)
  have le: "length e \<le> length path - r" using e(1) length_takeWhile_le [of _ "drop r path"] by auto
  have after: "path ! (r + length e) = slash" if "r + length e < length path"
    using nth_length_takeWhile [of "\<lambda>c. c \<noteq> slash" "drop r path"] that e(1) by simp
  have "lb_w o2 = lb_w o1 + length e" using length_lb_text [OF o1(2)] length_lb_text [OF o2(2)] o2(3) by simp
  moreover have "lb_text o2 = render rooted (replicate k dotdot_elem @ (es @ [e]))"
    using o1(3) o2(3) by (simp add: render_snoc append_assoc [symmetric] del: append_assoc)
  ultimately have "clean_inv path rooted (r + length e) dd k (es @ [e]) o2"
    using inv o2(2) plain le r after o1(4) by (auto simp: clean_inv_def)
  then show ?thesis unfolding c using o1(1) o2(1) by blast
qed

text \<open>The loop resolves the remaining elements.\<close>

lemma elements_at:
  assumes "r < length path" "path ! r \<noteq> slash" "takeWhile (\<lambda>c. c \<noteq> slash) (drop r path) = e"
  shows "elements (drop r path) = (if e = [dot] then [] else [e]) @ elements (drop (r + length e) path)"
proof -
  have "drop r path = path ! r # drop (Suc r) path" using assms(1) by (simp add: Cons_nth_drop_Suc)
  moreover have "dropWhile (\<lambda>c. c \<noteq> slash) (drop r path) = drop (r + length e) path"
    using assms(3) dropWhile_eq_drop [of "\<lambda>c. c \<noteq> slash" "drop r path"] by (simp add: add.commute)
  ultimately show ?thesis
    using elements_elem [OF assms(2), of "drop (Suc r) path"] assms(3) by (simp add: Let_def)
qed

lemma takeWhile_at:
  assumes "r < length path" "path ! r = dot"
  shows "takeWhile (\<lambda>c. c \<noteq> slash) (drop r path) = [dot] \<longleftrightarrow> r + 1 = length path \<or> path ! (r + 1) = slash"
    and "\<not> (r + 1 = length path \<or> path ! (r + 1) = slash) \<Longrightarrow>
      takeWhile (\<lambda>c. c \<noteq> slash) (drop r path) = dotdot_elem \<longleftrightarrow>
        path ! (r + 1) = dot \<and> (r + 2 = length path \<or> path ! (r + 2) = slash)"
proof -
  have r0: "drop r path = path ! r # drop (r + 1) path" using assms(1) by (simp add: Cons_nth_drop_Suc)
  have r1: "drop (r + 1) path = path ! (r + 1) # drop (r + 2) path" if "r + 1 < length path"
    using that by (simp add: Cons_nth_drop_Suc)
  have r2: "drop (r + 2) path = path ! (r + 2) # drop (r + 3) path" if "r + 2 < length path"
    using that by (simp add: Cons_nth_drop_Suc numeral_eq_Suc)
  show "takeWhile (\<lambda>c. c \<noteq> slash) (drop r path) = [dot] \<longleftrightarrow> r + 1 = length path \<or> path ! (r + 1) = slash"
    using assms r0 r1 by (cases "r + 1 < length path") (auto split: if_splits)
  assume n: "\<not> (r + 1 = length path \<or> path ! (r + 1) = slash)"
  then have "r + 1 < length path" using assms(1) by simp
  then show "takeWhile (\<lambda>c. c \<noteq> slash) (drop r path) = dotdot_elem \<longleftrightarrow>
        path ! (r + 1) = dot \<and> (r + 2 = length path \<or> path ! (r + 2) = slash)"
    using assms n r0 r1 r2 by (cases "r + 2 < length path") (auto split: if_splits)
qed

lemma push_back: "plain_elem e \<Longrightarrow> push_elem rooted (xs @ es @ [e]) dotdot_elem = xs @ es"
  by (simp add: push_elem_def plain_elem_def butlast_append)

lemma Clean_loop_resolves:
  "clean_inv path rooted r dd k es out \<Longrightarrow>
   \<exists>out'. Clean_loop path rooted r dd out = Inr out' \<and> lb_ok path out' \<and>
     lb_text out' = render rooted (resolve rooted (replicate k dotdot_elem @ es) (elements (drop r path)))"
proof (induction "length path - r" arbitrary: r dd k es out rule: less_induct)
  case less
  note inv = less.prems
  have rl: "r \<le> length path" using inv by (simp add: clean_inv_def)
  show ?case
  proof (cases "r < length path")
    case False
    then show ?thesis using inv rl by (subst Clean_loop.simps) (auto simp: clean_inv_def)
  next
    case r: True
    let ?e = "takeWhile (\<lambda>c. c \<noteq> slash) (drop r path)"
    consider (sl) "path ! r = slash" | (one) "path ! r = dot" "r + 1 = length path \<or> path ! (r + 1) = slash"
      | (two) "path ! r = dot" "\<not> (r + 1 = length path \<or> path ! (r + 1) = slash)"
          "path ! (r + 1) = dot" "r + 2 = length path \<or> path ! (r + 2) = slash"
      | (el) "path ! r \<noteq> slash" "\<not> (path ! r = dot \<and> (r + 1 = length path \<or> path ! (r + 1) = slash))"
          "\<not> (path ! r = dot \<and> path ! (r + 1) = dot \<and> (r + 2 = length path \<or> path ! (r + 2) = slash))"
      by blast
    then show ?thesis
    proof cases
      case sl
      then have "elements (drop r path) = elements (drop (r + 1) path)"
        using r by (metis elements_slash Cons_nth_drop_Suc Suc_eq_plus1)
      moreover have "Clean_loop path rooted r dd out = Clean_loop path rooted (r + 1) dd out"
        using r sl by (subst Clean_loop.simps) simp
      ultimately show ?thesis
        using less.hyps [of "r + 1" dd k es out] step_skip [OF inv, of "r + 1"] r by simp
    next
      case one
      have "?e = [dot]" using takeWhile_at(1) [OF r one(1)] one(2) by blast
      then have "elements (drop r path) = elements (drop (r + 1) path)" using elements_at [OF r, of "[dot]"] one(1) by simp
      moreover have "Clean_loop path rooted r dd out = Clean_loop path rooted (r + 1) dd out"
        using r one by (subst Clean_loop.simps) (simp only: Let_def if_True simp_thms dot_slash if_False)
      ultimately show ?thesis
        using less.hyps [of "r + 1" dd k es out] step_skip [OF inv, of "r + 1"] r by simp
    next
      case two
      have e: "?e = dotdot_elem" using takeWhile_at(2) [OF r two(1,2)] two(3,4) by blast
      have r2: "r + 2 \<le> length path" using two(2) r by simp
      have els: "elements (drop r path) = dotdot_elem # elements (drop (r + 2) path)"
        using elements_at [OF r, of dotdot_elem] e two(1) by simp
      have loop: "Clean_loop path rooted r dd out =
          (if lb_w out > dd then
            bindE (backtrack (out\<lparr>lb_w := lb_w out - 1\<rparr>) dd) (\<lambda>out. Clean_loop path rooted (r + 2) dd out)
          else if \<not> rooted then
            bindE (if lb_w out > 0 then lb_append out slash else Inr out) (\<lambda>out.
            bindE (lb_append out dot) (\<lambda>out.
            bindE (lb_append out dot) (\<lambda>out.
            Clean_loop path rooted (r + 2) (lb_w out) out)))
          else Clean_loop path rooted (r + 2) dd out)"
        using r two by (subst Clean_loop.simps) (simp only: Let_def if_True simp_thms dot_slash if_False)
      note IH = less.hyps [of "r + 2"]
      show ?thesis
      proof (cases es rule: rev_cases)
        case (snoc es' e)
        then obtain o1 where o1: "backtrack (out\<lparr>lb_w := lb_w out - 1\<rparr>) dd = Inr o1" "clean_inv path rooted (r + 2) dd k es' o1"
          using step_back [of path rooted r dd k es' e out] inv r2 by blast
        have "plain_elem e" using inv snoc by (simp add: clean_inv_def)
        moreover have "lb_w out > dd" using clean_inv_w(3) [OF inv] snoc by simp
        ultimately show ?thesis
          using IH [OF _ o1(2)] r o1(1) unfolding loop els snoc by (simp add: push_back)
      next
        case Nil
        then have le: "\<not> lb_w out > dd" using clean_inv_w(3) [OF inv] by simp
        show ?thesis
        proof (cases rooted)
          case True
          then have "k = 0" using inv by (simp add: clean_inv_def)
          moreover have "clean_inv path rooted (r + 2) dd k es out" by (rule step_skip [OF inv _ r2]) simp
          ultimately show ?thesis
            using IH [of dd k es out] r le True Nil unfolding loop els by (simp add: push_elem_def)
        next
          case False
          obtain o1 o2 o3 where o: "(if lb_w out > 0 then lb_append out slash else Inr out) = Inr o1"
            "lb_append o1 dot = Inr o2" "lb_append o2 dot = Inr o3" "clean_inv path False (r + 2) (lb_w o3) (Suc k) [] o3"
            using step_dotdot [of path r dd k out] inv Nil False r2 two(1,4) by auto
          have "push_elem False (replicate k dotdot_elem) dotdot_elem = replicate (Suc k) dotdot_elem"
            by (cases k) (simp_all add: push_elem_def replicate_append_same)
          then show ?thesis
            using IH [of "lb_w o3" "Suc k" "[]" o3] r le False Nil o unfolding loop els
            by (simp del: replicate_Suc)
        qed
      qed
    next
      case el
      have e: "?e \<noteq> [dot]" "?e \<noteq> dotdot_elem"
      proof -
        have "?e = [] \<or> hd ?e = path ! r" using r by (simp add: Cons_nth_drop_Suc [symmetric])
        then have "path ! r = dot" if "?e = [dot] \<or> ?e = dotdot_elem" using that by auto
        then show "?e \<noteq> [dot]" "?e \<noteq> dotdot_elem" using takeWhile_at [OF r] el by blast+
      qed
      obtain o1 o2 where o: "(if rooted \<and> lb_w out \<noteq> 1 \<or> \<not> rooted \<and> lb_w out \<noteq> 0 then lb_append out slash else Inr out) = Inr o1"
        "copy_elem path r o1 = Inr (r + length ?e, o2)" "clean_inv path rooted (r + length ?e) dd k (es @ [?e]) o2"
        using step_elem [OF inv r el(1) refl e(2)] by blast
      have loop: "Clean_loop path rooted r dd out = Clean_loop path rooted (r + length ?e) dd o2"
        using r el o by (subst Clean_loop.simps) (simp only: Let_def if_True if_False bindE.simps prod.case)
      have "0 < length ?e" using r el(1) by (simp add: Cons_nth_drop_Suc [symmetric])
      then have "length path - (r + length ?e) < length path - r" using r by linarith
      from less.hyps [OF this o(3)] show ?thesis
        unfolding loop elements_at [OF r el(1) refl] using e by (simp add: push_elem_def)
    qed
  qed
qed

theorem Clean_resolves: "Clean path = Inr (clean_path path)"
proof (cases "path = []")
  case True
  then show ?thesis by (simp add: Clean_def clean_path_def IsAbs_def render_Nil)
next
  case False
  let ?rooted = "path ! 0 = slash"
  let ?b0 = "\<lparr>lb_s = path, lb_buf = None, lb_w = 0\<rparr>"
  let ?d = "if ?rooted then 1 else 0"
  have abs: "IsAbs path = ?rooted" using False by (simp add: IsAbs_def)
  have ok: "lb_ok path ?b0" "lb_text ?b0 = []" by (simp_all add: lb_ok_def lb_data_def lb_text_def)
  obtain b1 where b1: "(if ?rooted then lb_append ?b0 slash else Inr ?b0) = Inr b1" "lb_ok path b1" "lb_text b1 = render ?rooted []"
    using lb_append_text [OF ok(1), of slash] ok False by (cases ?rooted) (auto simp: render_Nil)
  have w1: "lb_w b1 = ?d" using length_lb_text [OF b1(2)] b1(3) by (simp add: render_Nil split: if_splits)
  have "clean_inv path ?rooted ?d ?d 0 [] b1"
    using b1(2,3) w1 False by (auto simp: clean_inv_def Suc_le_eq render_Nil)
  then obtain out where out: "Clean_loop path ?rooted ?d ?d b1 = Inr out" "lb_ok path out"
    "lb_text out = render ?rooted (resolve ?rooted [] (elements (drop ?d path)))"
    using Clean_loop_resolves [of path ?rooted ?d ?d 0 "[]" b1] by auto
  have "elements (drop ?d path) = elements path"
    using False by (cases path) auto
  then have t: "lb_text out = render (IsAbs path) (resolve (IsAbs path) [] (elements path))" using out(3) abs by simp
  have "(lb_w out = 0) = (lb_text out = [])" using length_lb_text [OF out(2)] by (metis length_0_conv)
  moreover have "Clean path = bindE (Clean_loop path ?rooted ?d ?d b1) (\<lambda>out. if lb_w out = 0 then Inr [dot] else lb_string out)"
    unfolding Clean_def Let_def if_not_P [OF False] b1(1) by (simp only: bindE.simps)
  ultimately show ?thesis
    using lb_string_text [OF out(2)] out(1) t by (simp add: clean_path_def Let_def)
qed

section \<open>Normal forms\<close>

definition good_elem :: "gostring \<Rightarrow> bool" where
  "good_elem e \<longleftrightarrow> e \<noteq> [] \<and> e \<noteq> [dot] \<and> slash \<notin> set e"

definition normal :: "bool \<Rightarrow> gostring list \<Rightarrow> bool" where
  "normal rooted es \<longleftrightarrow> list_all good_elem es \<and>
     (\<exists>k es'. es = replicate k dotdot_elem @ es' \<and> (rooted \<longrightarrow> k = 0) \<and> dotdot_elem \<notin> set es')"

lemma good_dotdot: "good_elem dotdot_elem"
  by (simp add: good_elem_def)

lemma elements_good: "list_all good_elem (elements p)"
proof (induction p rule: elements.induct)
  case (1 p)
  show ?case
  proof (cases p)
    case (Cons c q)
    show ?thesis
    proof (cases "c = slash")
      case False
      have "slash \<notin> set (takeWhile (\<lambda>c. c \<noteq> slash) p)" by (auto dest: set_takeWhileD)
      then show ?thesis
        using 1(2) Cons False by (auto simp: elements_elem Let_def good_elem_def)
    qed (use 1(1) Cons in simp)
  qed simp
qed

lemma push_normal:
  assumes "normal rooted es" "good_elem e"
  shows "normal rooted (push_elem rooted es e)"
proof -
  obtain k es' where es: "es = replicate k dotdot_elem @ es'" "rooted \<longrightarrow> k = 0" "dotdot_elem \<notin> set es'" "list_all good_elem es"
    using assms(1) unfolding normal_def by blast
  show ?thesis
  proof (cases "e = dotdot_elem")
    case e: True
    show ?thesis
    proof (cases es' rule: rev_cases)
      case Nil
      show ?thesis
      proof (cases rooted)
        case True
        then show ?thesis using es Nil e by (simp add: push_elem_def normal_def)
      next
        case False
        have "push_elem rooted es e = replicate (Suc k) dotdot_elem @ []"
          using False e es(1) Nil by (cases k) (simp_all add: push_elem_def replicate_append_same)
        moreover have "list_all good_elem (push_elem rooted es e)"
          unfolding calculation by (simp add: good_dotdot list_all_iff)
        ultimately show ?thesis
          using False unfolding normal_def by (intro conjI exI [of _ "Suc k"] exI [of _ "[]"]) simp_all
      qed
    next
      case (snoc ys y)
      then have "push_elem rooted es e = replicate k dotdot_elem @ ys"
        using e es(1,3) by (auto simp: push_elem_def butlast_append)
      then show ?thesis using es snoc by (auto simp: normal_def)
    qed
  next
    case False
    then have "push_elem rooted es e = replicate k dotdot_elem @ (es' @ [e])" by (simp add: push_elem_def es(1))
    moreover have "dotdot_elem \<notin> set (es' @ [e])" "list_all good_elem (push_elem rooted es e)"
      using False es(3,4) assms(2) by (auto simp: push_elem_def)
    ultimately show ?thesis using es(2) unfolding normal_def by blast
  qed
qed

lemma resolve_normal: "list_all good_elem new \<Longrightarrow> normal rooted es \<Longrightarrow> normal rooted (resolve rooted es new)"
  by (induction new arbitrary: es) (auto intro: push_normal)

lemma resolve_append: "resolve rooted es (xs @ ys) = resolve rooted (resolve rooted es xs) ys"
  by (simp add: resolve_def)

lemma resolve_plain: "dotdot_elem \<notin> set xs \<Longrightarrow> resolve rooted es xs = es @ xs"
  by (induction xs arbitrary: es) (auto simp: push_elem_def)

lemma resolve_dotdots: "resolve False (replicate j dotdot_elem) (replicate k dotdot_elem) = replicate (j + k) dotdot_elem"
proof (induction k arbitrary: j)
  case (Suc k)
  have "push_elem False (replicate j dotdot_elem) dotdot_elem = replicate (Suc j) dotdot_elem"
    by (cases j) (simp_all add: push_elem_def replicate_append_same)
  then show ?case using Suc [of "Suc j"] by simp
qed simp

lemma normal_resolve: "normal rooted es \<Longrightarrow> resolve rooted [] es = es"
proof -
  assume "normal rooted es"
  then obtain k es' where es: "es = replicate k dotdot_elem @ es'" "rooted \<longrightarrow> k = 0" "dotdot_elem \<notin> set es'"
    by (auto simp: normal_def)
  have "resolve rooted [] (replicate k dotdot_elem) = replicate k dotdot_elem"
    using resolve_dotdots [of 0 k] es(2) by (cases rooted) auto
  then show ?thesis using es(1,3) by (simp add: resolve_append resolve_plain)
qed

lemma elements_append:
  assumes "slash \<notin> set e" "e \<noteq> []" "q = [] \<or> hd q = slash"
  shows "elements (e @ q) = (if e = [dot] then [] else [e]) @ elements q"
proof -
  have "takeWhile (\<lambda>c. c \<noteq> slash) (e @ q) = e" "dropWhile (\<lambda>c. c \<noteq> slash) (e @ q) = q"
    using assms by (cases q; auto simp: takeWhile_append dropWhile_append)+
  moreover obtain c e' where "e = c # e'" "c \<noteq> slash" using assms(1,2) by (cases e) auto
  ultimately show ?thesis using elements_elem [of c "e' @ q"] by (simp add: Let_def)
qed

lemma elements_joined: "list_all good_elem es \<Longrightarrow> elements (joined [slash] es) = es"
proof (induction "[slash]" es rule: joined.induct)
  case (2 e)
  then show ?case using elements_append [of e "[]"] by (simp add: good_elem_def)
next
  case (3 e f es)
  then show ?case
    using elements_append [of e "[slash] @ joined [slash] (f # es)"] by (auto simp: good_elem_def)
qed simp

lemma elements_render: "list_all good_elem es \<Longrightarrow> elements (render rooted es) = es"
  by (simp add: render_def elements_joined)

lemma IsAbs_render: "list_all good_elem es \<Longrightarrow> IsAbs (render rooted es) = rooted"
proof (cases es)
  case (Cons e es')
  assume "list_all good_elem es"
  then have "e \<noteq> []" "e ! 0 \<noteq> slash" using Cons by (cases e; auto simp: good_elem_def)+
  then show ?thesis using Cons by (cases es') (auto simp: IsAbs_def render_def nth_append)
qed (simp add: IsAbs_def render_def)

lemma clean_path_normal:
  defines "es \<equiv> \<lambda>p. resolve (IsAbs p) [] (elements p)"
  shows "normal (IsAbs p) (es p)" and "IsAbs (clean_path p) = IsAbs p" and "elements (clean_path p) = es p"
    and "clean_path (clean_path p) = clean_path p"
proof -
  have "normal (IsAbs p) []" by (auto simp: normal_def)
  then show n: "normal (IsAbs p) (es p)" unfolding es_def by (intro resolve_normal elements_good)
  then have g: "list_all good_elem (es p)" by (simp add: normal_def)
  show a: "IsAbs (clean_path p) = IsAbs p"
    using IsAbs_render [OF g, of "IsAbs p"] by (auto simp: clean_path_def es_def Let_def IsAbs_def)
  have e: "elements [dot] = []" using elements_append [of "[dot]" "[]"] by simp
  show el: "elements (clean_path p) = es p"
    using elements_render [OF g, of "IsAbs p"] e by (auto simp: clean_path_def es_def Let_def)
  have "resolve (IsAbs p) [] (es p) = es p" by (rule normal_resolve [OF n])
  then show "clean_path (clean_path p) = clean_path p"
    using a el by (simp add: clean_path_def [of "clean_path p"]) (simp add: clean_path_def es_def)
qed

section \<open>Splitting off the last element\<close>

lemma prefix_single: "prefix [c] (drop k s) \<longleftrightarrow> k < length s \<and> s ! k = c"
proof (cases "k < length s")
  case True
  then have "drop k s = s ! k # drop (Suc k) s" by (simp add: Cons_nth_drop_Suc)
  then show ?thesis using True by auto
qed simp

lemma LastIndex_slash:
  "(LastIndex p [slash] = - 1 \<and> slash \<notin> set p) \<or>
   (\<exists>k < length p. LastIndex p [slash] = int k \<and> p ! k = slash \<and> slash \<notin> set (drop (Suc k) p))"
proof (cases "find_last [slash] p (Suc (length p))")
  case None
  then have "slash \<notin> set p" by (auto simp: find_last_None prefix_single in_set_conv_nth)
  then show ?thesis using None by (simp add: LastIndex_found found_def)
next
  case (Some k)
  have "k < length p" "p ! k = slash" "\<forall>j. k < j \<and> j < length p \<longrightarrow> p ! j \<noteq> slash"
    using find_last_Some [OF Some] by (auto simp: prefix_single)
  moreover from this have "slash \<notin> set (drop (Suc k) p)" by (auto simp: in_set_conv_nth)
  ultimately show ?thesis using Some by (auto simp: LastIndex_found found_def)
qed

lemma path_Split_parts:
  "\<exists>dir file. path_Split p = Inr (dir, file) \<and> p = dir @ file \<and> slash \<notin> set file \<and> (dir = [] \<or> last dir = slash)"
  using LastIndex_slash [of p]
proof (elim disjE exE conjE)
  fix k
  assume k: "k < length p" "LastIndex p [slash] = int k" "p ! k = slash" "slash \<notin> set (drop (Suc k) p)"
  then have "path_Split p = Inr (take (Suc k) p, drop (Suc k) p)"
    by (simp add: path_Split_def Let_def slice_def nat_add_distrib)
  moreover have "last (take (Suc k) p) = slash" using k by (simp add: take_Suc_conv_app_nth)
  ultimately show ?thesis using k by auto
qed (simp add: path_Split_def Let_def slice_def)

lemma Base_strip_slashes:
  "\<exists>n. p = Base_strip p @ replicate n slash \<and> (Base_strip p = [] \<or> last (Base_strip p) \<noteq> slash)"
proof (induction p rule: rev_induct)
  case Nil
  then show ?case by (simp add: Base_strip.simps)
next
  case (snoc c p)
  show ?case
  proof (cases "c = slash")
    case True
    then have "Base_strip (p @ [c]) = Base_strip p" by (subst Base_strip.simps) simp
    moreover obtain n where "p = Base_strip p @ replicate n slash" "Base_strip p = [] \<or> last (Base_strip p) \<noteq> slash"
      using snoc.IH by blast
    then have "p @ [c] = Base_strip p @ replicate (Suc n) slash"
      using True by (metis append_assoc replicate_append_same replicate_Suc)
    ultimately show ?thesis using snoc.IH by metis
  next
    case False
    then have "Base_strip (p @ [c]) = p @ [c]" by (subst Base_strip.simps) simp
    then show ?thesis using False by (intro exI [of _ 0]) simp
  qed
qed

lemma Ext_loop_last:
  "i \<le> length p \<Longrightarrow> slash \<notin> set (drop i p) \<Longrightarrow> dot \<notin> set (drop i p) \<Longrightarrow>
   (\<exists>r. p = r @ Ext_loop p i) \<and>
   (if Ext_loop p i = [] then \<forall>file dir. p = dir @ file \<and> slash \<notin> set file \<longrightarrow> dot \<notin> set file
    else hd (Ext_loop p i) = dot \<and> slash \<notin> set (tl (Ext_loop p i)) \<and> dot \<notin> set (tl (Ext_loop p i)))"
proof (induction i)
  case 0
  then have "dot \<notin> set p" by simp
  then show ?case by auto
next
  case (Suc i)
  have d: "drop i p = p ! i # drop (Suc i) p" using Suc.prems(1) by (simp add: Cons_nth_drop_Suc)
  consider "p ! i = slash" | "p ! i = dot" | "p ! i \<noteq> slash" "p ! i \<noteq> dot" by blast
  then show ?case
  proof cases
    case 1
    have "dot \<notin> set f" if "p = dir @ f" "slash \<notin> set f" for dir f
    proof -
      have "i < length dir"
      proof (rule ccontr)
        assume "\<not> i < length dir"
        then have "f ! (i - length dir) = slash" "i - length dir < length f"
          using 1 that(1) Suc.prems(1) by (auto simp: nth_append)
        then show False using that(2) nth_mem by metis
      qed
      then have "f = drop (length dir - Suc i) (drop (Suc i) p)" using that(1) by simp
      then show ?thesis using Suc.prems(3) in_set_dropD by metis
    qed
    then show ?thesis using 1 by auto
  next
    case 2
    have "p = take i p @ drop i p" by simp
    then show ?thesis using 2 d Suc.prems by (auto intro!: exI [of _ "take i p"])
  next
    case 3
    then have "Ext_loop p (Suc i) = Ext_loop p i" by simp
    moreover have "i \<le> length p" "slash \<notin> set (drop i p)" "dot \<notin> set (drop i p)" using Suc.prems 3 d by auto
    ultimately show ?thesis using Suc.IH by metis
  qed
qed

section \<open>Joining\<close>

lemma elements_join2: "elements (p @ slash # q) = elements p @ elements q"
proof (induction p rule: elements.induct)
  case (1 p)
  show ?case
  proof (cases p)
    case (Cons c r)
    show ?thesis
    proof (cases "c = slash")
      case True
      then show ?thesis using 1(1) Cons by simp
    next
      case False
      let ?P = "\<lambda>c. c \<noteq> slash"
      have "takeWhile ?P (p @ slash # q) = takeWhile ?P p" "dropWhile ?P (p @ slash # q) = dropWhile ?P p @ slash # q"
        by (induction p) auto
      then show ?thesis
        using 1(2) Cons False elements_elem [OF False, of r] elements_elem [OF False, of "r @ slash # q"] by (simp add: Let_def)
    qed
  qed simp
qed

lemma elements_joined_all: "elements (joined [slash] ps) = concat (map elements ps)"
  by (induction "[slash]" ps rule: joined.induct) (simp_all add: elements_join2)

lemma path_Join_first:
  "path_Join es = (case dropWhile (\<lambda>e. e = []) es of [] \<Rightarrow> Inr [] | fs \<Rightarrow> Inr (clean_path (joined [slash] fs)))"
  by (induction es) (simp_all add: Join_joined Clean_resolves)

lemma drop_empty_elements: "concat (map elements (dropWhile (\<lambda>e. e = []) es)) = concat (map elements es)"
  by (induction es) simp_all

lemma filter_empty_elements: "concat (map elements (filter (\<lambda>e. e \<noteq> []) es)) = concat (map elements es)"
  by (induction es) simp_all

lemma IsAbs_joined: "e \<noteq> [] \<Longrightarrow> IsAbs (joined sep (e # es)) = IsAbs e"
  by (cases es) (auto simp: IsAbs_def nth_append)

lemma path_Join_elements:
  "if \<forall>e. e \<in> set es \<longrightarrow> e = [] then path_Join es = Inr []
   else \<exists>q a. path_Join es = Inr q \<and> path_Join (filter (\<lambda>e. e \<noteq> []) es) = Inr q \<and>
      elements q = resolve a [] (concat (map elements es)) \<and> IsAbs q = a"
proof (cases "dropWhile (\<lambda>e. e = []) es")
  case Nil
  then have all: "\<forall>e. e \<in> set es \<longrightarrow> e = []" by (simp add: dropWhile_eq_Nil_conv)
  show ?thesis by (subst if_P [OF all]) (simp only: path_Join_first Nil list.case)
next
  case (Cons f fs)
  then have f: "f \<noteq> []" using hd_dropWhile [of "\<lambda>e. e = []" es] by simp
  have "f \<in> set es" using Cons set_dropWhileD [of f "\<lambda>e. e = []" es] by simp
  then have ex: "\<not> (\<forall>e. e \<in> set es \<longrightarrow> e = [])" using f by blast
  have "filter (\<lambda>e. e \<noteq> []) es = filter (\<lambda>e. e \<noteq> []) (dropWhile (\<lambda>e. e = []) es)" by (induction es) simp_all
  then have flt: "filter (\<lambda>e. e \<noteq> []) es = f # filter (\<lambda>e. e \<noteq> []) fs" using Cons f by simp
  let ?a = "IsAbs f" and ?els = "concat (map elements es)"
  have els: "elements (joined [slash] (f # fs)) = ?els" "elements (joined [slash] (f # filter (\<lambda>e. e \<noteq> []) fs)) = ?els"
    unfolding elements_joined_all using drop_empty_elements [of es] filter_empty_elements [of es]
    by (simp_all only: Cons flt)
  have same: "clean_path (joined [slash] (f # filter (\<lambda>e. e \<noteq> []) fs)) = clean_path (joined [slash] (f # fs))"
    unfolding clean_path_def IsAbs_joined [OF f] els ..
  have "path_Join (f # filter (\<lambda>e. e \<noteq> []) fs) = Inr (clean_path (joined [slash] (f # fs)))"
    using f by (simp add: path_Join_first same del: joined.simps)
  moreover have "path_Join es = Inr (clean_path (joined [slash] (f # fs)))"
    using Cons by (simp add: path_Join_first)
  moreover have "elements (clean_path (joined [slash] (f # fs))) = resolve ?a [] ?els"
    unfolding clean_path_normal(3) IsAbs_joined [OF f] els(1) ..
  moreover have "IsAbs (clean_path (joined [slash] (f # fs))) = ?a"
    unfolding clean_path_normal(2) IsAbs_joined [OF f] ..
  ultimately show ?thesis using ex flt by auto
qed

lemma Base_last:
  "\<exists>b r n. Base p = Inr b \<and> b \<noteq> [] \<and>
    (if p = [] then b = [dot] else if set p = {slash} then b = [slash]
     else slash \<notin> set b \<and> p = r @ b @ replicate n slash \<and> (r = [] \<or> last r = slash))"
proof (cases "p = []")
  case True
  then show ?thesis by (simp add: Base_def)
next
  case ne: False
  let ?q = "Base_strip p"
  obtain n where n: "p = ?q @ replicate n slash" "?q = [] \<or> last ?q \<noteq> slash"
    using Base_strip_slashes [of p] by blast
  obtain b where b: "bindE (if LastIndex ?q [slash] \<ge> 0 then slice ?q (LastIndex ?q [slash] + 1) (int (length ?q)) else Inr ?q) Inr = Inr b"
    "\<exists>r. ?q = r @ b \<and> (r = [] \<or> last r = slash)" "slash \<notin> set b"
    using LastIndex_slash [of ?q]
  proof (elim disjE exE conjE)
    fix k
    assume k: "k < length ?q" "LastIndex ?q [slash] = int k" "?q ! k = slash" "slash \<notin> set (drop (Suc k) ?q)"
    have "last (take (Suc k) ?q) = slash" using k by (simp add: take_Suc_conv_app_nth)
    then show thesis
      using k by (intro that [of "drop (Suc k) ?q"]) (auto simp: slice_def nat_add_distrib intro!: exI [of _ "take (Suc k) ?q"])
  qed (auto intro!: that)
  have base: "Base p = (if b = [] then Inr [slash] else Inr b)"
    using ne b(1) by (auto simp: Base_def Let_def)
  show ?thesis
  proof (cases "?q = []")
    case True
    then have "set p = {slash}" "b = []" using n(1) ne b(2) by (auto simp: set_replicate_conv_if split: if_splits)
    then show ?thesis using base ne by simp
  next
    case False
    then have l: "last ?q \<noteq> slash" "last ?q \<in> set ?q" using n(2) by auto
    then have "set p \<noteq> {slash}" using n(1) by (metis UnCI set_append singletonD)
    moreover have "b \<noteq> []" using b(2) False l(1) by auto
    ultimately show ?thesis using base ne b(2,3) n(1) by (metis append_assoc)
  qed
qed

section \<open>Properties\<close>

text \<open>C33: \<open>Clean\<close> returns on every path, without a panic of the lazy buffer, the path whose elements are
  those of its argument with \<open>.\<close> and empty elements dropped and every \<open>..\<close> resolved against the element
  before it. Only a relative path keeps \<open>..\<close> elements, and only in front; the result is absolute just
  when the argument is; and cleaning it again changes nothing.\<close>

theorem Clean_correct:
  "\<exists>q. Clean p = Inr q \<and> q \<noteq> [] \<and> Clean q = Inr q \<and> IsAbs q = IsAbs p \<and>
     elements q = resolve (IsAbs p) [] (elements p) \<and> normal (IsAbs p) (elements q) \<and>
     q = (if elements q = [] \<and> \<not> IsAbs p then [dot] else render (IsAbs p) (elements q))"
proof -
  have g: "list_all good_elem (resolve (IsAbs p) [] (elements p))" using clean_path_normal(1) by (simp add: normal_def)
  have "render (IsAbs p) es = [] \<longleftrightarrow> es = [] \<and> \<not> IsAbs p" if "list_all good_elem es" for es
    using that length_joined_pos [of es "[slash]"] by (auto simp: render_def good_elem_def list_all_iff)
  from this [OF g] show ?thesis
    using clean_path_normal [of p] by (auto simp: Clean_resolves) (auto simp: clean_path_def Let_def)
qed

text \<open>\<open>Split\<close> cuts after the last slash, \<open>Base\<close> is the last element without trailing slashes, \<open>Ext\<close>
  the suffix from the last dot of the last element, \<open>Dir\<close> the cleaned rest. \<open>Join\<close> ignores empty strings,
  and its elements are those of all its arguments, resolved.\<close>

theorem path_operations:
  "(\<exists>dir file. path_Split p = Inr (dir, file) \<and> p = dir @ file \<and> slash \<notin> set file \<and>
      (dir = [] \<or> last dir = slash) \<and> Dir p = Clean dir) \<and>
   (\<exists>b r n. Base p = Inr b \<and> b \<noteq> [] \<and>
      (if p = [] then b = [dot] else if set p = {slash} then b = [slash]
       else slash \<notin> set b \<and> p = r @ b @ replicate n slash \<and> (r = [] \<or> last r = slash))) \<and>
   ((\<exists>r. p = r @ Ext p) \<and>
    (if Ext p = [] then \<forall>file dir. p = dir @ file \<and> slash \<notin> set file \<longrightarrow> dot \<notin> set file
     else hd (Ext p) = dot \<and> slash \<notin> set (tl (Ext p)) \<and> dot \<notin> set (tl (Ext p)))) \<and>
   (if \<forall>e. e \<in> set es \<longrightarrow> e = [] then path_Join es = Inr []
    else \<exists>q a. path_Join es = Inr q \<and> path_Join (filter (\<lambda>e. e \<noteq> []) es) = Inr q \<and>
      elements q = resolve a [] (concat (map elements es)) \<and> IsAbs q = a)"
proof (intro conjI)
  show "\<exists>dir file. path_Split p = Inr (dir, file) \<and> p = dir @ file \<and> slash \<notin> set file \<and>
      (dir = [] \<or> last dir = slash) \<and> Dir p = Clean dir"
    using path_Split_parts [of p] by (auto simp: Dir_def)
  show "\<exists>b r n. Base p = Inr b \<and> b \<noteq> [] \<and>
      (if p = [] then b = [dot] else if set p = {slash} then b = [slash]
       else slash \<notin> set b \<and> p = r @ b @ replicate n slash \<and> (r = [] \<or> last r = slash))"
    by (rule Base_last)
  have ext: "(\<exists>r. p = r @ Ext p) \<and>
    (if Ext p = [] then \<forall>file dir. p = dir @ file \<and> slash \<notin> set file \<longrightarrow> dot \<notin> set file
     else hd (Ext p) = dot \<and> slash \<notin> set (tl (Ext p)) \<and> dot \<notin> set (tl (Ext p)))"
    unfolding Ext_def by (rule Ext_loop_last) simp_all
  show "\<exists>r. p = r @ Ext p" by (rule conjunct1 [OF ext])
  show "if Ext p = [] then \<forall>file dir. p = dir @ file \<and> slash \<notin> set file \<longrightarrow> dot \<notin> set file
     else hd (Ext p) = dot \<and> slash \<notin> set (tl (Ext p)) \<and> dot \<notin> set (tl (Ext p))"
    by (rule conjunct2 [OF ext])
  show "if \<forall>e. e \<in> set es \<longrightarrow> e = [] then path_Join es = Inr []
    else \<exists>q a. path_Join es = Inr q \<and> path_Join (filter (\<lambda>e. e \<noteq> []) es) = Inr q \<and>
      elements q = resolve a [] (concat (map elements es)) \<and> IsAbs q = a"
    by (rule path_Join_elements)
qed

lemma path_operations_witness:
  "path_Join [[0x61], [], [0x62, 0x2e, 0x63]] = Inr [0x61, slash, 0x62, 0x2e, 0x63] \<and>
   Ext [0x61, slash, 0x62, 0x2e, 0x63] = [0x2e, 0x63] \<and>
   (\<exists>dir file. path_Split [0x61, slash, 0x62] = Inr (dir, file) \<and> [0x61, slash, 0x62] = dir @ file \<and> Dir [0x61, slash, 0x62] = Clean dir)"
proof (intro conjI)
  show "path_Join [[0x61], [], [0x62, 0x2e, 0x63]] = Inr [0x61, slash, 0x62, 0x2e, 0x63]"
    by code_simp
  show "Ext [0x61, slash, 0x62, 0x2e, 0x63] = [0x2e, 0x63]" by code_simp
  show "\<exists>dir file. path_Split [0x61, slash, 0x62] = Inr (dir, file) \<and> [0x61, slash, 0x62] = dir @ file \<and>
      Dir [0x61, slash, 0x62] = Clean dir"
    using path_operations [of "[0x61, slash, 0x62]" "[]", THEN conjunct1] by blast
qed

text \<open>\<open>Dir\<close> of \<open>/a/../b\<close> ends in a slash although the path is not slashes followed by other bytes.\<close>

lemma Dir_ends_in_slash: "Dir [slash, 0x61, slash, dot, dot, slash, 0x62] = Inr [slash]"
  by code_simp

end
