(* ===== verification/Go_Strconv.thy ===== *)
theory Go_Strconv
  imports Go_Slices
begin

unbundle bit_operations_syntax

text \<open>
  Package strconv: integers in a base from 2 to 36 (src/strconv/itoa.go, atoi.go). Both widths of
  \<open>uintptr\<close> and \<open>int\<close> are covered: \<open>maxptr\<close> is \<open>^uintptr(0)\<close> as a 64-bit word, and \<open>intSize\<close> is 32 or
  64. The digit buffer is an array filled from its end, with Go's bounds checks.
\<close>

lemma unat_drop_bit: "unat (drop_bit s (u :: 64 word)) = unat u div 2 ^ s"
  using unsigned_less [of u, where 'a = nat]
  by (simp only: unsigned_drop_bit_eq) (simp add: drop_bit_eq_div take_bit_nat_eq_self)

section \<open>Formatting\<close>

definition digits :: "byte list" where
  "digits = map (\<lambda>c. of_nat (of_char c)) ''0123456789abcdefghijklmnopqrstuvwxyz''"

text \<open>\<open>i--; a[i] = c\<close>\<close>

definition put_down :: "byte list \<Rightarrow> nat \<Rightarrow> byte \<Rightarrow> panic + byte list \<times> nat" where
  "put_down a i c = (if i = 0 then Inl IndexOutOfRange else bindE (store_at a (i - 1) c) (\<lambda>a. Inr (a, i - 1)))"

text \<open>The part for a 32-bit \<open>uintptr\<close>: nine digits at a time.\<close>

fun nine_loop :: "nat \<Rightarrow> 64 word \<Rightarrow> byte list \<Rightarrow> nat \<Rightarrow> panic + byte list \<times> nat" where
  "nine_loop 0 us a i = Inr (a, i)"
| "nine_loop (Suc j) us a i =
     (let qs = us div 10 in
      bindE (put_down a i (ucast (us - qs * 10 + 0x30))) (\<lambda>(a, i). nine_loop j qs a i))"

function wide_loop :: "64 word \<Rightarrow> 64 word \<Rightarrow> byte list \<Rightarrow> nat \<Rightarrow> panic + 64 word \<times> byte list \<times> nat" where
  "wide_loop maxptr u a i =
     (if u > maxptr
      then let q = u div 1000000000; us = (u - q * 1000000000) AND maxptr in
           bindE (nine_loop 9 us a i) (\<lambda>(a, i). wide_loop maxptr q a i)
      else Inr (u, a, i))"
  by pat_completeness auto
termination
proof (relation "measure (\<lambda>(maxptr, u, a, i). unat u)", goal_cases)
  case (2 maxptr u a i q us)
  then have "0 < unat u" by (simp add: word_less_nat_alt)
  then show ?case using 2 by (simp add: unat_div)
qed simp

function ten_loop :: "64 word \<Rightarrow> byte list \<Rightarrow> nat \<Rightarrow> panic + 64 word \<times> byte list \<times> nat" where
  "ten_loop us a i =
     (if us \<ge> 10
      then let q = us div 10 in
           bindE (put_down a i (ucast (us - q * 10 + 0x30))) (\<lambda>(a, i). ten_loop q a i)
      else Inr (us, a, i))"
  by pat_completeness auto
termination
proof (relation "measure (\<lambda>(us, a, i). unat us)", goal_cases)
  case (2 us a i q)
  then have "10 \<le> unat us" by (simp add: word_le_nat_alt)
  then show ?case using 2 by (simp add: unat_div)
qed simp

definition shifts :: "nat \<Rightarrow> nat" where
  "shifts base = (if base = 2 then 1 else if base = 4 then 2 else if base = 8 then 3
     else if base = 16 then 4 else if base = 32 then 5 else 0)"

text \<open>The loops for powers of two and for other bases. On entry \<open>0 < s\<close> and \<open>1 < b\<close>, which the
  definitions repeat so that they terminate.\<close>

function shift_loop :: "64 word \<Rightarrow> nat \<Rightarrow> 64 word \<Rightarrow> 64 word \<Rightarrow> byte list \<Rightarrow> nat \<Rightarrow> panic + 64 word \<times> byte list \<times> nat" where
  "shift_loop b s m u a i =
     (if u \<ge> b \<and> 0 < s \<and> 1 < b
      then bindE (load_at digits (unat (u AND m))) (\<lambda>c.
           bindE (put_down a i c) (\<lambda>(a, i). shift_loop b s m (drop_bit s u) a i))
      else Inr (u, a, i))"
  by pat_completeness auto
termination
proof (relation "measure (\<lambda>(b, s, m, u, a, i). unat u)", goal_cases)
  case (2 b s m u a i c)
  then have "1 < unat b" "unat b \<le> unat u" by (simp_all add: word_le_nat_alt word_less_nat_alt)
  moreover have "1 < (2 :: nat) ^ s" using 2 by (intro one_less_power) simp_all
  ultimately show ?case by (simp only: in_measure prod.case unat_drop_bit) simp
qed simp

function div_loop :: "64 word \<Rightarrow> 64 word \<Rightarrow> byte list \<Rightarrow> nat \<Rightarrow> panic + 64 word \<times> byte list \<times> nat" where
  "div_loop b u a i =
     (if u \<ge> b \<and> 1 < b
      then let q = u div b in
           bindE (load_at digits (unat (u - q * b))) (\<lambda>c.
           bindE (put_down a i c) (\<lambda>(a, i). div_loop b q a i))
      else Inr (u, a, i))"
  by pat_completeness auto
termination
proof (relation "measure (\<lambda>(b, u, a, i). unat u)", goal_cases)
  case (2 b u a i q c)
  then have "1 < unat b" "unat b \<le> unat u" by (simp_all add: word_le_nat_alt word_less_nat_alt)
  then show ?case using 2 by (simp add: unat_div)
qed simp

definition formatBits :: "64 word \<Rightarrow> byte list \<Rightarrow> 64 word \<Rightarrow> int \<Rightarrow> bool \<Rightarrow> bool \<Rightarrow> panic + byte list \<times> gostring" where
  "formatBits maxptr dst u base neg app =
     (if base < 2 \<or> base > int (length digits) then Inl (PanicMsg ''strconv: illegal AppendInt/FormatInt base'')
      else
        let a = replicate (64 + 1) 0; i = length a;
            u = (if neg then - u else u)
        in bindE
          (if base = 10 then
             bindE (if drop_bit 32 maxptr = 0 then wide_loop maxptr u a i else Inr (u, a, i)) (\<lambda>(u, a, i).
             bindE (ten_loop (u AND maxptr) a i) (\<lambda>(us, a, i).
             put_down a i (ucast (us + 0x30))))
           else if shifts (nat base) > 0 then
             (let s = shifts (nat base); b = word_of_int base; m = (b AND maxptr) - 1 in
              bindE (shift_loop b s m u a i) (\<lambda>(u, a, i).
              bindE (load_at digits (unat (u AND maxptr))) (\<lambda>c. put_down a i c)))
           else
             (let b = word_of_int base in
              bindE (div_loop b u a i) (\<lambda>(u, a, i).
              bindE (load_at digits (unat (u AND maxptr))) (\<lambda>c. put_down a i c))))
          (\<lambda>(a, i).
          bindE (if neg then put_down a i 0x2d else Inr (a, i)) (\<lambda>(a, i).
          if app then Inr (dst @ drop i a, []) else Inr ([], drop i a))))"

definition FormatUint :: "64 word \<Rightarrow> 64 word \<Rightarrow> int \<Rightarrow> panic + gostring" where
  "FormatUint maxptr i base = bindE (formatBits maxptr [] i base False False) (\<lambda>(_, s). Inr s)"

definition FormatInt :: "64 word \<Rightarrow> 64 word \<Rightarrow> int \<Rightarrow> panic + gostring" where
  "FormatInt maxptr i base = bindE (formatBits maxptr [] i base (sint i < 0) False) (\<lambda>(_, s). Inr s)"

definition Itoa :: "64 word \<Rightarrow> 64 word \<Rightarrow> panic + gostring" where
  "Itoa maxptr i = FormatInt maxptr i 10"

definition AppendInt :: "64 word \<Rightarrow> byte list \<Rightarrow> 64 word \<Rightarrow> int \<Rightarrow> panic + byte list" where
  "AppendInt maxptr dst i base = bindE (formatBits maxptr dst i base (sint i < 0) True) (\<lambda>(d, _). Inr d)"

definition AppendUint :: "64 word \<Rightarrow> byte list \<Rightarrow> 64 word \<Rightarrow> int \<Rightarrow> panic + byte list" where
  "AppendUint maxptr dst i base = bindE (formatBits maxptr dst i base False True) (\<lambda>(d, _). Inr d)"

section \<open>Parsing\<close>

datatype num_err = ErrRange | ErrSyntax | ErrBase int

record NumError =
  ne_Func :: string
  ne_Num :: gostring
  ne_Err :: num_err

definition syntaxError :: "string \<Rightarrow> gostring \<Rightarrow> NumError" where
  "syntaxError fn str = \<lparr>ne_Func = fn, ne_Num = str, ne_Err = ErrSyntax\<rparr>"

definition rangeError :: "string \<Rightarrow> gostring \<Rightarrow> NumError" where
  "rangeError fn str = \<lparr>ne_Func = fn, ne_Num = str, ne_Err = ErrRange\<rparr>"

definition maxUint64 :: "64 word" where
  "maxUint64 = 0xffffffffffffffff"

text \<open>\<open>1 << uint(k)\<close> as a \<open>uint64\<close>: a negative count becomes a large one.\<close>

definition shl1 :: "int \<Rightarrow> 64 word" where
  "shl1 k = (if 0 \<le> k then push_bit (nat k) 1 else 0)"

text \<open>The value of a digit, without the check against the base.\<close>

definition digit_val :: "byte \<Rightarrow> byte option" where
  "digit_val d =
     (if 0x30 \<le> d \<and> d \<le> 0x39 then Some (d - 0x30)
      else if 0x61 \<le> d \<and> d \<le> 0x7a then Some (d - 0x61 + 10)
      else if 0x41 \<le> d \<and> d \<le> 0x5a then Some (d - 0x41 + 10)
      else None)"

fun ParseUint_loop :: "gostring \<Rightarrow> int \<Rightarrow> 64 word \<Rightarrow> 64 word \<Rightarrow> 64 word \<Rightarrow> 64 word \<times> num_err option" where
  "ParseUint_loop [] base cutoff maxVal n = (n, None)"
| "ParseUint_loop (d # s) base cutoff maxVal n =
     (case digit_val d of
        None \<Rightarrow> (0, Some ErrSyntax)
      | Some v \<Rightarrow>
          if v \<ge> word_of_int base then (0, Some ErrSyntax)
          else if n \<ge> cutoff then (maxUint64, Some ErrRange)
          else let n = n * word_of_int base; n1 = n + ucast v in
            if n1 < n \<or> n1 > maxVal then (maxUint64, Some ErrRange)
            else ParseUint_loop s base cutoff maxVal n1)"

definition ParseUint :: "nat \<Rightarrow> gostring \<Rightarrow> int \<Rightarrow> int \<Rightarrow> 64 word \<times> NumError option" where
  "ParseUint intSize s base bitSize =
     (let bitSize = (if bitSize = 0 then int intSize else bitSize);
          start =
            (if length s < 1 then Inl ErrSyntax
             else if 2 \<le> base \<and> base \<le> 36 then Inr (base, 0)
             else if base = 0 then
               (if s ! 0 = 0x30 \<and> length s > 1 \<and> (s ! 1 = 0x78 \<or> s ! 1 = 0x58)
                then (if length s < 3 then Inl ErrSyntax else Inr (16, 2))
                else if s ! 0 = 0x30 then Inr (8, 1)
                else Inr (10, 0))
             else Inl (ErrBase base));
          res =
            (case start of
               Inl e \<Rightarrow> (0, Some e)
             | Inr (base, i) \<Rightarrow>
                 let cutoff = (if base = 10 then maxUint64 div 10 + 1
                               else if base = 16 then maxUint64 div 16 + 1
                               else maxUint64 div word_of_int base + 1);
                     maxVal = shl1 bitSize - 1
                 in ParseUint_loop (drop i s) base cutoff maxVal 0)
      in case res of
           (n, None) \<Rightarrow> (n, None)
         | (n, Some e) \<Rightarrow> (n, Some \<lparr>ne_Func = ''ParseUint'', ne_Num = s, ne_Err = e\<rparr>))"

definition ParseInt :: "nat \<Rightarrow> gostring \<Rightarrow> int \<Rightarrow> int \<Rightarrow> 64 word \<times> NumError option" where
  "ParseInt intSize s base bitSize =
     (let fnParseInt = ''ParseInt'';
          bitSize = (if bitSize = 0 then int intSize else bitSize)
      in if length s = 0 then (0, Some (syntaxError fnParseInt s))
      else
        let s0 = s;
            neg = (s ! 0 = 0x2d);
            s = (if s ! 0 = 0x2b then drop 1 s else if s ! 0 = 0x2d then drop 1 s else s)
        in case ParseUint intSize s base bitSize of
             (un, err) \<Rightarrow>
               if (case err of Some e \<Rightarrow> ne_Err e \<noteq> ErrRange | None \<Rightarrow> False)
               then (0, map_option (\<lambda>e. e\<lparr>ne_Func := fnParseInt, ne_Num := s0\<rparr>) err)
               else
                 let cutoff = shl1 (bitSize - 1) in
                 if \<not> neg \<and> un \<ge> cutoff then (cutoff - 1, Some (rangeError fnParseInt s0))
                 else if neg \<and> un > cutoff then (- cutoff, Some (rangeError fnParseInt s0))
                 else let n = un; n = (if neg then - n else n) in (n, None))"

definition Atoi :: "nat \<Rightarrow> gostring \<Rightarrow> 64 word \<times> NumError option" where
  "Atoi intSize s =
     (case ParseInt intSize s 10 0 of (i64, err) \<Rightarrow> (signed_take_bit (intSize - 1) i64, err))"

declare wide_loop.simps [simp del] ten_loop.simps [simp del] shift_loop.simps [simp del] div_loop.simps [simp del]

section \<open>What the digits are\<close>

fun show_base :: "nat \<Rightarrow> nat \<Rightarrow> byte list" where
  "show_base b n = (if n < b \<or> b < 2 then [digits ! n] else show_base b (n div b) @ [digits ! (n mod b)])"

declare show_base.simps [simp del]

lemma length_digits: "length digits = 36"
  by (simp add: digits_def)

lemma show_base_small: "n < b \<Longrightarrow> show_base b n = [digits ! n]"
  by (subst show_base.simps) simp

lemma show_base_step: "2 \<le> b \<Longrightarrow> b \<le> n \<Longrightarrow> show_base b n = show_base b (n div b) @ [digits ! (n mod b)]"
  by (subst show_base.simps) simp

lemma length_show_base: "2 \<le> b \<Longrightarrow> n < b ^ k \<Longrightarrow> 0 < k \<Longrightarrow> length (show_base b n) \<le> k"
proof (induction k arbitrary: n)
  case (Suc k)
  show ?case
  proof (cases "n < b")
    case False
    then have "n div b < b ^ k" "0 < k"
      using Suc.prems by (auto simp: less_mult_imp_div_less mult.commute intro: Nat.gr0I)
    then show ?thesis using Suc.IH Suc.prems(1) False by (simp add: show_base_step not_less)
  qed (simp add: show_base_small)
qed simp

lemma length_show_word: "2 \<le> b \<Longrightarrow> length (show_base b (unat (u :: 64 word))) \<le> 64"
proof (rule length_show_base)
  assume b: "2 \<le> b"
  have "unat u < 2 ^ 64" using unsigned_less [of u, where 'a = nat] by simp
  also have "(2 :: nat) ^ 64 \<le> b ^ 64" by (rule power_mono) (use b in simp_all)
  finally show "unat u < b ^ 64" .
qed simp_all

text \<open>The buffer with the text \<open>t\<close> at its end.\<close>

definition holds :: "byte list \<Rightarrow> nat \<Rightarrow> byte list \<Rightarrow> bool" where
  "holds a i t \<longleftrightarrow> length a = 65 \<and> i \<le> 65 \<and> drop i a = t"

lemma holds_length: "holds a i t \<Longrightarrow> i + length t = 65"
  by (auto simp: holds_def)

lemma put_down_holds:
  assumes "holds a i t" "length t < 65"
  shows "\<exists>a'. put_down a i c = Inr (a', i - 1) \<and> holds a' (i - 1) (c # t)"
proof -
  have i: "0 < i" "i \<le> 65" "length a = 65" "drop i a = t"
    using assms holds_length [OF assms(1)] by (auto simp: holds_def)
  have "drop (i - 1) (a[i - 1 := c]) = c # drop i a"
    using i by (simp add: Cons_nth_drop_Suc [symmetric])
  then show ?thesis using i by (simp add: put_down_def store_at_def holds_def)
qed

lemma load_digits: "k < 36 \<Longrightarrow> load_at digits k = Inr (digits ! k)"
  by (simp add: load_at_def length_digits)

lemma unat_sub_mult: "unat (u - u div b * b) = unat (u :: 64 word) mod unat b"
proof -
  have "u - u div b * b = u mod b" by (simp add: minus_div_mult_eq_mod)
  then show ?thesis by (simp add: unat_mod)
qed

lemma ascii_digit: "k < 10 \<Longrightarrow> word_of_nat (k + 48) = digits ! k"
proof -
  have "list_all (\<lambda>k. word_of_nat (k + 48) = digits ! k) [0..<10]" by code_simp
  moreover assume "k < 10"
  ultimately show ?thesis by (simp add: list_all_iff)
qed

lemma ten_digit: "ucast (us - us div 10 * 10 + 0x30 :: 64 word) = digits ! (unat us mod 10)"
proof -
  have k: "unat (us - us div 10 * 10) = unat us mod 10" using unat_sub_mult [of us 10] by simp
  let ?w = "us - us div 10 * 10"
  have "unat ?w + 48 < 2 ^ 64" unfolding k by simp
  then have "unat (?w + 0x30) = unat us mod 10 + 48" unfolding k [symmetric] by (simp add: unat_word_ariths)
  then have "unat (ucast (?w + 0x30) :: byte) = unat (word_of_nat (unat us mod 10 + 48) :: byte)"
    by (simp only: unsigned_ucast_eq unsigned_of_nat of_nat_id)
  then have "(ucast (?w + 0x30) :: byte) = word_of_nat (unat us mod 10 + 48)" by (simp only: word_unat_eq_iff)
  also have "\<dots> = digits ! (unat us mod 10)" by (rule ascii_digit) simp
  finally show ?thesis .
qed

text \<open>The three digit loops.\<close>

lemma div_loop_shows:
  assumes b: "2 \<le> unat b" "unat b \<le> 36"
  shows "holds a i t \<Longrightarrow> length (show_base (unat b) (unat u)) + length t \<le> 65 \<Longrightarrow>
    \<exists>u' a' i' t'. div_loop b u a i = Inr (u', a', i') \<and> holds a' i' t' \<and> unat u' < unat b \<and>
      digits ! unat u' # t' = show_base (unat b) (unat u) @ t"
proof (induction "unat u" arbitrary: u a i t rule: less_induct)
  case less
  show ?case
  proof (cases "b \<le> u")
    case False
    then have "unat u < unat b" by (simp add: word_le_nat_alt not_le)
    then show ?thesis using False less.prems by (subst div_loop.simps) (simp add: show_base_small)
  next
    case True
    then have le: "unat b \<le> unat u" by (simp add: word_le_nat_alt)
    have b1: "1 < b" using b by (simp add: word_less_nat_alt)
    let ?c = "digits ! (unat u mod unat b)"
    have s: "show_base (unat b) (unat u) = show_base (unat b) (unat (u div b)) @ [?c]"
      using show_base_step [OF b(1) le] by (simp add: unat_div)
    have "unat u mod unat b < unat b" using b by simp
    then have "unat (u - u div b * b) < 36" unfolding unat_sub_mult using b by linarith
    then have l: "load_at digits (unat (u - u div b * b)) = Inr ?c" by (simp add: load_digits unat_sub_mult)
    have "length t < 65" using less.prems(2) by (simp add: s)
    then obtain a1 where a1: "put_down a i ?c = Inr (a1, i - 1)" "holds a1 (i - 1) (?c # t)"
      using put_down_holds [OF less.prems(1)] by blast
    have "unat (u div b) < unat u" using b le by (simp add: unat_div)
    from less.hyps [OF this a1(2)] show ?thesis
      using True b1 l a1(1) less.prems(2) by (subst div_loop.simps) (simp add: Let_def s)
  qed
qed

lemma shift_loop_shows:
  assumes s: "0 < s" "s \<le> 5" and b: "unat b = 2 ^ s" and m: "\<And>u. unat (u AND m) = unat u mod 2 ^ s"
  shows "holds a i t \<Longrightarrow> length (show_base (2 ^ s) (unat u)) + length t \<le> 65 \<Longrightarrow>
    \<exists>u' a' i' t'. shift_loop b s m u a i = Inr (u', a', i') \<and> holds a' i' t' \<and> unat u' < 2 ^ s \<and>
      digits ! unat u' # t' = show_base (2 ^ s) (unat u) @ t"
proof (induction "unat u" arbitrary: u a i t rule: less_induct)
  case less
  have p: "2 \<le> (2 :: nat) ^ s" "(2 :: nat) ^ s \<le> 32"
    using power_increasing [of 1 s "2 :: nat"] power_increasing [of s 5 "2 :: nat"] s by simp_all
  show ?case
  proof (cases "b \<le> u")
    case False
    then have "unat u < 2 ^ s" using b by (simp add: word_le_nat_alt not_le)
    then show ?thesis using False less.prems by (subst shift_loop.simps) (simp add: show_base_small)
  next
    case True
    then have le: "2 ^ s \<le> unat u" using b by (simp add: word_le_nat_alt)
    have b1: "1 < b" using b p by (simp add: word_less_nat_alt)
    have d: "unat (drop_bit s u) = unat u div 2 ^ s" by (rule unat_drop_bit)
    let ?c = "digits ! (unat u mod 2 ^ s)"
    have sh: "show_base (2 ^ s) (unat u) = show_base (2 ^ s) (unat (drop_bit s u)) @ [?c]"
      using show_base_step [OF p(1) le] by (simp only: d)
    have "unat u mod 2 ^ s < 2 ^ s" by simp
    then have "unat (u AND m) < 36" unfolding m using p by linarith
    then have l: "load_at digits (unat (u AND m)) = Inr ?c" by (simp add: load_digits m)
    have "length t < 65" using less.prems(2) by (simp add: sh)
    then obtain a1 where a1: "put_down a i ?c = Inr (a1, i - 1)" "holds a1 (i - 1) (?c # t)"
      using put_down_holds [OF less.prems(1)] by blast
    have "unat (drop_bit s u) < unat u" unfolding d using p le by (intro div_less_dividend) simp_all
    from less.hyps [OF this a1(2)] show ?thesis
      using True b1 l a1(1) less.prems(2) s(1) by (subst shift_loop.simps) (simp add: sh)
  qed
qed

lemma ten_loop_shows:
  "holds a i t \<Longrightarrow> length (show_base 10 (unat u)) + length t \<le> 65 \<Longrightarrow>
    \<exists>u' a' i' t'. ten_loop u a i = Inr (u', a', i') \<and> holds a' i' t' \<and> unat u' < 10 \<and>
      digits ! unat u' # t' = show_base 10 (unat u) @ t"
proof (induction "unat u" arbitrary: u a i t rule: less_induct)
  case less
  show ?case
  proof (cases "10 \<le> u")
    case False
    then have "unat u < 10" by (simp add: word_le_nat_alt not_le)
    then show ?thesis using False less.prems by (subst ten_loop.simps) (simp add: show_base_small)
  next
    case True
    then have le: "10 \<le> unat u" by (simp add: word_le_nat_alt)
    let ?c = "digits ! (unat u mod 10)"
    have s: "show_base 10 (unat u) = show_base 10 (unat (u div 10)) @ [?c]"
      using show_base_step [OF _ le] by (simp add: unat_div)
    have "length t < 65" using less.prems(2) by (simp add: s)
    then obtain a1 where a1: "put_down a i ?c = Inr (a1, i - 1)" "holds a1 (i - 1) (?c # t)"
      using put_down_holds [OF less.prems(1)] by blast
    have "unat (u div 10) < unat u" using le by (simp add: unat_div)
    from less.hyps [OF this a1(2)] show ?thesis
      using True a1(1) less.prems(2) by (subst ten_loop.simps) (simp add: Let_def s ten_digit)
  qed
qed

text \<open>Nine digits at a time.\<close>

fun padded :: "nat \<Rightarrow> nat \<Rightarrow> byte list" where
  "padded 0 n = []"
| "padded (Suc j) n = padded j (n div 10) @ [digits ! (n mod 10)]"

lemma length_padded [simp]: "length (padded j n) = j"
  by (induction j arbitrary: n) simp_all

lemma mod_div_10: "(n mod (10 * m)) div 10 = (n div 10) mod (m :: nat)"
  by (simp add: mod_mult2_eq)

lemma padded_mod: "padded j (n mod 10 ^ j) = padded j n"
proof (induction j arbitrary: n)
  case (Suc j)
  have "n mod (10 * 10 ^ j) mod 10 = n mod 10" by (simp add: mod_mult2_eq)
  then show ?case using Suc by (simp add: mod_div_10)
qed simp

lemma show_base_padded: "10 ^ j \<le> n \<Longrightarrow> show_base 10 n = show_base 10 (n div 10 ^ j) @ padded j n"
proof (induction j arbitrary: n)
  case (Suc j)
  have "10 ^ j \<le> n div 10" using Suc.prems by (simp add: less_eq_div_iff_mult_less_eq mult.commute)
  moreover have "1 \<le> (10 :: nat) ^ j" by simp
  then have "10 \<le> n" using Suc.prems unfolding power_Suc by linarith
  ultimately show ?case using Suc.IH [of "n div 10"] show_base_step [of 10 n] by (simp add: div_mult2_eq)
qed simp

lemma nine_loop_padded:
  "holds a i t \<Longrightarrow> j + length t \<le> 65 \<Longrightarrow>
   \<exists>a' i'. nine_loop j us a i = Inr (a', i') \<and> holds a' i' (padded j (unat us) @ t)"
proof (induction j arbitrary: us a i t)
  case (Suc j)
  let ?c = "digits ! (unat us mod 10)"
  obtain a1 where a1: "put_down a i ?c = Inr (a1, i - 1)" "holds a1 (i - 1) (?c # t)"
    using put_down_holds [OF Suc.prems(1)] Suc.prems(2) by auto
  then show ?case using Suc.IH [OF a1(2), of "us div 10"] Suc.prems(2) by (simp add: Let_def ten_digit unat_div)
qed auto

lemma wide_loop_shows:
  assumes m: "1000000000 \<le> unat maxptr" "\<And>u :: 64 word. unat u \<le> unat maxptr \<Longrightarrow> u AND maxptr = u"
  shows "holds a i t \<Longrightarrow> length (show_base 10 (unat u)) + length t \<le> 65 \<Longrightarrow>
    \<exists>u' a' i' t'. wide_loop maxptr u a i = Inr (u', a', i') \<and> holds a' i' t' \<and> unat u' \<le> unat maxptr \<and>
      show_base 10 (unat u') @ t' = show_base 10 (unat u) @ t"
proof (induction "unat u" arbitrary: u a i t rule: less_induct)
  case less
  show ?case
  proof (cases "u > maxptr")
    case False
    then show ?thesis using less.prems by (subst wide_loop.simps) (auto simp: word_less_nat_alt not_less)
  next
    case True
    then have big: "10 ^ 9 \<le> unat u" using m(1) by (simp add: word_less_nat_alt)
    let ?q = "u div 1000000000"
    let ?us = "u - ?q * 1000000000"
    have r: "unat ?us = unat u mod 10 ^ 9" using unat_sub_mult [of u 1000000000] by simp
    have "unat u mod 10 ^ 9 < 1000000000" by simp
    then have "?us AND maxptr = ?us" using m(1) r by (intro m(2)) linarith
    have q: "unat ?q = unat u div 10 ^ 9" by (simp add: unat_div)
    have p: "padded 9 (unat ?us) = padded 9 (unat u)" unfolding r by (rule padded_mod)
    have s: "show_base 10 (unat u) = show_base 10 (unat ?q) @ padded 9 (unat u)"
      unfolding q by (rule show_base_padded [OF big])
    have "9 + length t \<le> 65" using less.prems(2) unfolding s by simp
    then obtain a1 i1 where a1: "nine_loop 9 ?us a i = Inr (a1, i1)" "holds a1 i1 (padded 9 (unat u) @ t)"
      using nine_loop_padded [OF less.prems(1), of 9 ?us] unfolding p by auto
    have "unat ?q < unat u" unfolding q using big by (intro div_less_dividend) simp_all
    from less.hyps [OF this a1(2)] show ?thesis
      using True a1(1) \<open>?us AND maxptr = ?us\<close> less.prems(2) by (subst wide_loop.simps) (simp add: Let_def s)
  qed
qed

section \<open>Formatting is exact\<close>

definition maxptrs :: "64 word set" where
  "maxptrs = {0xffffffff, 0xffffffffffffffff}"

lemma maxptr_mask:
  assumes "maxptr \<in> maxptrs"
  shows "1000000000 \<le> unat maxptr" "unat u \<le> unat maxptr \<Longrightarrow> u AND maxptr = u"
    "drop_bit 32 maxptr \<noteq> 0 \<Longrightarrow> unat (v :: 64 word) \<le> unat maxptr"
proof -
  have c: "maxptr = 0xffffffff \<or> maxptr = 0xffffffffffffffff" using assms by (simp add: maxptrs_def)
  then show "1000000000 \<le> unat maxptr" by auto
  have m: "(0xffffffff :: 64 word) = mask 32" "(0xffffffffffffffff :: 64 word) = mask 64"
    by (simp_all add: mask_eq_exp_minus_1)
  show "u AND maxptr = u" if "unat u \<le> unat maxptr"
  proof -
    have "take_bit 32 (unat u) = unat u" if "unat u \<le> 0xffffffff"
      using that by (intro take_bit_nat_eq_self) simp
    then have "take_bit 32 u = u" if "unat u \<le> 0xffffffff"
      using that by (simp add: word_unat_eq_iff unsigned_take_bit_eq)
    moreover have "unat (mask 32 :: 64 word) = 0xffffffff" by (simp add: m(1) [symmetric])
    moreover have "take_bit 64 u = u" by (rule take_bit_word_eq_self) simp
    ultimately show ?thesis using c that by (elim disjE) (simp_all only: m take_bit_eq_mask [symmetric] order_refl)
  qed
  have "unat v \<le> 0xffffffffffffffff" using unsigned_less [of v, where 'a = nat] by simp
  moreover have "drop_bit 32 (0xffffffff :: 64 word) = 0" by simp
  ultimately show "drop_bit 32 maxptr \<noteq> 0 \<Longrightarrow> unat v \<le> unat maxptr" using c by auto
qed

text \<open>The last digit of each branch.\<close>

lemma last_digit:
  assumes "holds a i t" "length (show_base b n) \<le> 64" "digits ! d # t = show_base b n"
  shows "\<exists>a' i'. put_down a i (digits ! d) = Inr (a', i') \<and> holds a' i' (show_base b n)"
proof -
  have "length t < 65" using assms(2) unfolding assms(3) [symmetric] by simp
  then show ?thesis using put_down_holds [OF assms(1), of "digits ! d"] assms(3) by auto
qed

definition digit_part :: "64 word \<Rightarrow> 64 word \<Rightarrow> int \<Rightarrow> byte list \<Rightarrow> nat \<Rightarrow> panic + byte list \<times> nat" where
  "digit_part maxptr u base a i =
     (if base = 10 then
        bindE (if drop_bit 32 maxptr = 0 then wide_loop maxptr u a i else Inr (u, a, i)) (\<lambda>(u, a, i).
        bindE (ten_loop (u AND maxptr) a i) (\<lambda>(us, a, i).
        put_down a i (ucast (us + 0x30))))
      else if shifts (nat base) > 0 then
        (let s = shifts (nat base); b = word_of_int base; m = (b AND maxptr) - 1 in
         bindE (shift_loop b s m u a i) (\<lambda>(u, a, i).
         bindE (load_at digits (unat (u AND maxptr))) (\<lambda>c. put_down a i c)))
      else
        (let b = word_of_int base in
         bindE (div_loop b u a i) (\<lambda>(u, a, i).
         bindE (load_at digits (unat (u AND maxptr))) (\<lambda>c. put_down a i c))))"

lemma last_ten: "unat u < 10 \<Longrightarrow> ucast (u + 0x30 :: 64 word) = digits ! unat u"
proof -
  assume u: "unat u < 10"
  then have "u div 10 = 0" by (simp add: word_unat_eq_iff unat_div)
  then show ?thesis using ten_digit [of u] u by simp
qed

lemma pow2_mask:
  assumes "maxptr \<in> maxptrs" "0 < s" "s \<le> 5"
  shows "unat (word_of_int (2 ^ s) :: 64 word) = 2 ^ s"
    and "unat (u AND ((word_of_int (2 ^ s) AND maxptr) - 1) :: 64 word) = unat u mod 2 ^ s"
proof -
  have le: "(2 :: nat) ^ s \<le> 2 ^ 5" by (rule power_increasing) (use assms(3) in simp_all)
  have w: "(word_of_int (2 ^ s) :: 64 word) = 2 ^ s" by (simp add: of_int_power)
  have "unat ((2 :: 64 word) ^ s) = 2 ^ s" 
  proof -
    have "(2 :: 64 word) ^ s = word_of_nat (2 ^ s)" by simp
    then show ?thesis using le assms(3) by (simp only: unsigned_of_nat) (simp add: take_bit_nat_eq_self)
  qed
  then show u: "unat (word_of_int (2 ^ s) :: 64 word) = 2 ^ s" by (simp only: w)
  have "2 ^ s \<le> unat maxptr" using le maxptr_mask(1) [OF assms(1)] by simp
  then have "word_of_int (2 ^ s) AND maxptr = word_of_int (2 ^ s)" by (intro maxptr_mask(2) [OF assms(1)]) (simp only: u)
  then have "(word_of_int (2 ^ s) AND maxptr) - 1 = (mask s :: 64 word)" by (simp only: w mask_eq_exp_minus_1)
  then have "u AND ((word_of_int (2 ^ s) AND maxptr) - 1) = take_bit s u" by (simp only: take_bit_eq_mask)
  then show "unat (u AND ((word_of_int (2 ^ s) AND maxptr) - 1)) = unat u mod 2 ^ s"
    by (simp only: unsigned_take_bit_eq) (simp only: take_bit_eq_mod)
qed

lemma shifts_power: "0 < shifts b \<Longrightarrow> b = 2 ^ shifts b \<and> shifts b \<le> 5"
  by (auto simp: shifts_def split: if_splits)

lemma digit_part_shows:
  assumes m: "maxptr \<in> maxptrs" and base: "2 \<le> base" "base \<le> 36" and h: "holds a i []"
  shows "\<exists>a' i'. digit_part maxptr u base a i = Inr (a', i') \<and> holds a' i' (show_base (nat base) (unat u))"
proof -
  let ?b = "nat base"
  have b: "2 \<le> ?b" "?b \<le> 36" using base by auto
  note len = length_show_word [OF b(1), of u]
  then have fits: "length (show_base ?b (unat u)) + length ([] :: byte list) \<le> 65" by simp
  have small: "u' AND maxptr = u'" if "unat u' < 36" for u'
    using that maxptr_mask(1) [OF m] by (intro maxptr_mask(2) [OF m]) simp
  show ?thesis
  proof (cases "base = 10")
    case True
    then have b10: "?b = 10" by simp
    obtain u1 a1 i1 t1 where w: "(if drop_bit 32 maxptr = 0 then wide_loop maxptr u a i else Inr (u, a, i)) = Inr (u1, a1, i1)"
      "holds a1 i1 t1" "unat u1 \<le> unat maxptr" "show_base 10 (unat u1) @ t1 = show_base 10 (unat u)"
    proof (cases "drop_bit 32 maxptr = 0")
      case True
      then show thesis
        using wide_loop_shows [of maxptr a i "[]" u] maxptr_mask(1,2) [OF m] h fits that unfolding b10 by auto
    next
      case False
      then show thesis using that [of u a i "[]"] h maxptr_mask(3) [OF m] by simp
    qed
    have "length (show_base 10 (unat u1)) + length t1 = length (show_base 10 (unat u))"
      unfolding w(4) [symmetric] by simp
    then have "length (show_base 10 (unat u1)) + length t1 \<le> 65" using len b10 by simp
    from ten_loop_shows [OF w(2) this] obtain u2 a2 i2 t2 where
      t: "ten_loop u1 a1 i1 = Inr (u2, a2, i2)" "holds a2 i2 t2" "unat u2 < 10"
      "digits ! unat u2 # t2 = show_base 10 (unat u)"
      unfolding w(4) by blast
    have "\<exists>a' i'. put_down a2 i2 (digits ! unat u2) = Inr (a', i') \<and> holds a' i' (show_base 10 (unat u))"
      by (rule last_digit [OF t(2) _ t(4)]) (use len b10 in simp)
    then show ?thesis
      using True w(1) t(1,3) maxptr_mask(2) [OF m w(3)] by (simp add: digit_part_def last_ten)
  next
    case False
    show ?thesis
    proof (cases "shifts ?b > 0")
      case True
      let ?s = "shifts ?b"
      have s: "?b = 2 ^ ?s" "?s \<le> 5" using shifts_power [OF True] by auto
      then have bi: "base = 2 ^ ?s" using base by (metis int_nat_eq of_nat_numeral of_nat_power order_trans zero_le_numeral)
      obtain u2 a2 i2 t2 where
        t: "shift_loop (word_of_int base) ?s ((word_of_int base AND maxptr) - 1) u a i = Inr (u2, a2, i2)" "holds a2 i2 t2"
        "unat u2 < ?b" "digits ! unat u2 # t2 = show_base ?b (unat u)"
        using shift_loop_shows [OF True s(2) pow2_mask(1) [OF m True s(2)] pow2_mask(2) [OF m True s(2)] h, of u] fits
        unfolding bi [symmetric] s(1) [symmetric] by auto
      have u2: "unat u2 < 36" using t(3) b(2) by linarith
      show ?thesis
        using False True t(1) small [OF u2] load_digits [OF u2] last_digit [OF t(2) len t(4)]
        by (simp add: digit_part_def Let_def)
    next
      case gen: False
      have ub: "unat (word_of_int base :: 64 word) = ?b"
        using base by (simp add: unsigned_of_int take_bit_int_eq_self nat_eq_iff)
      obtain u2 a2 i2 t2 where
        t: "div_loop (word_of_int base) u a i = Inr (u2, a2, i2)" "holds a2 i2 t2"
        "unat u2 < ?b" "digits ! unat u2 # t2 = show_base ?b (unat u)"
        using div_loop_shows [of "word_of_int base" a i "[]" u] b h fits unfolding ub by auto
      have u2: "unat u2 < 36" using t(3) b(2) by linarith
      show ?thesis
        using False gen t(1) small [OF u2] load_digits [OF u2] last_digit [OF t(2) len t(4)]
        by (simp add: digit_part_def Let_def)
    qed
  qed
qed

theorem formatBits_shows:
  assumes "maxptr \<in> maxptrs" "2 \<le> base" "base \<le> 36"
  shows "formatBits maxptr dst u base neg app =
    (let t = (if neg then [0x2d] else []) @ show_base (nat base) (unat (if neg then - u else u))
     in Inr (if app then (dst @ t, []) else ([], t)))"
proof -
  let ?a = "replicate (64 + 1) (0 :: byte)"
  let ?v = "if neg then - u else u"
  let ?t = "show_base (nat base) (unat ?v)"
  have "holds ?a (length ?a) []" by (simp add: holds_def)
  then obtain a i where a: "digit_part maxptr ?v base ?a (length ?a) = Inr (a, i)" "holds a i ?t"
    using digit_part_shows [OF assms] by blast
  have "length ?t \<le> 64" using assms(2) by (intro length_show_word) simp
  then obtain a' i' where a': "(if neg then put_down a i 0x2d else Inr (a, i)) = Inr (a', i')"
    "holds a' i' ((if neg then [0x2d] else []) @ ?t)"
    using put_down_holds [OF a(2), of "0x2d"] a(2) by (cases neg) auto
  have "formatBits maxptr dst u base neg app =
      bindE (digit_part maxptr ?v base ?a (length ?a)) (\<lambda>(a, i).
      bindE (if neg then put_down a i 0x2d else Inr (a, i)) (\<lambda>(a, i).
      if app then Inr (dst @ drop i a, []) else Inr ([], drop i a)))"
    using assms(2,3) by (simp only: formatBits_def digit_part_def Let_def length_digits of_nat_numeral not_less) simp
  also have "\<dots> = (if app then Inr (dst @ drop i' a', []) else Inr ([], drop i' a'))"
    by (simp only: a(1) a'(1) bindE.simps prod.case)
  also have "drop i' a' = (if neg then [0x2d] else []) @ ?t" using a'(2) by (simp add: holds_def)
  finally show ?thesis by (simp add: Let_def)
qed

section \<open>Parsing is exact\<close>

text \<open>The same loop on unbounded numbers, with the largest value \<open>M\<close>.\<close>

fun reads :: "nat \<Rightarrow> nat \<Rightarrow> nat \<Rightarrow> gostring \<Rightarrow> num_err + nat" where
  "reads b M n [] = Inr n"
| "reads b M n (d # s) =
     (case digit_val d of
        None \<Rightarrow> Inl ErrSyntax
      | Some v \<Rightarrow> if b \<le> unat v then Inl ErrSyntax
                 else if M < n * b + unat v then Inl ErrRange
                 else reads b M (n * b + unat v) s)"

fun outcome :: "num_err + nat \<Rightarrow> 64 word \<times> num_err option" where
  "outcome (Inr n) = (word_of_nat n, None)"
| "outcome (Inl e) = (if e = ErrRange then maxUint64 else 0, Some e)"

lemma unat_max: "unat maxUint64 = 2 ^ 64 - 1"
  by (simp add: maxUint64_def)

lemma unat_bound: "unat (n :: 64 word) \<le> 2 ^ 64 - 1"
  using unsigned_less [of n, where 'a = nat] by simp

lemma overflow_checks:
  fixes n maxVal :: "64 word" and v :: byte
  assumes b: "unat b64 = b" "2 \<le> b"
  defines "n1 \<equiv> n * b64 + ucast v"
  shows "maxUint64 div b64 + 1 \<le> n \<Longrightarrow> unat maxVal < unat n * b + unat v"
    and "\<not> maxUint64 div b64 + 1 \<le> n \<Longrightarrow>
      (n1 < n * b64 \<or> n1 > maxVal) \<longleftrightarrow> unat maxVal < unat n * b + unat v"
    and "\<not> maxUint64 div b64 + 1 \<le> n \<Longrightarrow> \<not> (n1 < n * b64 \<or> n1 > maxVal) \<Longrightarrow> unat n1 = unat n * b + unat v"
proof -
  let ?q = "(2 ^ 64 - 1) div b"
  have "?q < 2 ^ 64 - 1" using b(2) by (intro div_less_dividend) simp_all
  moreover have "unat (maxUint64 div b64) = ?q" by (simp only: unat_div unat_max b(1))
  ultimately have c: "unat (maxUint64 div b64 + 1) = ?q + 1"
    by (simp add: unat_word_ariths)
  have "?q * b + (2 ^ 64 - 1) mod b = 2 ^ 64 - 1" by (rule div_mult_mod_eq)
  moreover have "(2 ^ 64 - 1) mod b < b" by (rule mod_less_divisor) (use b(2) in simp)
  ultimately have q: "?q * b \<le> 2 ^ 64 - 1" "2 ^ 64 - 1 < (?q + 1) * b" unfolding add_mult_distrib by linarith+
  note M = unat_bound [of maxVal]
  show "unat maxVal < unat n * b + unat v" if "maxUint64 div b64 + 1 \<le> n"
  proof -
    have "?q + 1 \<le> unat n" using that c by (simp add: word_le_nat_alt)
    then have "(?q + 1) * b \<le> unat n * b" by (rule mult_le_mono1)
    then show ?thesis using q(2) M by linarith
  qed
  assume lt: "\<not> maxUint64 div b64 + 1 \<le> n"
  then have "unat n \<le> ?q" using c by (simp add: word_le_nat_alt not_le)
  then have "unat n * b \<le> ?q * b" by (rule mult_le_mono1)
  then have nb: "unat n * b \<le> 2 ^ 64 - 1" using q(1) by linarith
  then have u: "unat (n * b64) = unat n * b" by (simp add: unat_word_ariths b(1))
  have v: "unat (ucast v :: 64 word) = unat v" "unat v < 256"
    using unsigned_less [of v, where 'a = nat] by (simp_all add: unsigned_ucast_eq take_bit_nat_eq_self_iff)
  have n1: "unat n1 = (unat n * b + unat v) mod 2 ^ 64" by (simp add: n1_def unat_word_ariths v(1) u [symmetric])
  show iff: "(n1 < n * b64 \<or> n1 > maxVal) \<longleftrightarrow> unat maxVal < unat n * b + unat v"
  proof (cases "unat n * b + unat v < 2 ^ 64")
    case True
    then show ?thesis using n1 by (simp add: word_less_nat_alt u)
  next
    case False
    then have "unat n1 = unat n * b + unat v - 2 ^ 64"
      using n1 nb v(2) by (simp add: mod_if)
    then have "n1 < n * b64" using nb v(2) False by (simp add: word_less_nat_alt u)
    moreover have "(2 :: nat) ^ 64 - 1 < 2 ^ 64" by simp
    then have "unat maxVal < unat n * b + unat v" using False M by linarith
    ultimately show ?thesis by blast
  qed
  show "unat n1 = unat n * b + unat v" if "\<not> (n1 < n * b64 \<or> n1 > maxVal)"
  proof -
    have "unat n * b + unat v \<le> unat maxVal" using that iff by linarith
    then show ?thesis using n1 M by simp
  qed
qed

lemma ParseUint_loop_reads:
  assumes base: "2 \<le> base" "base \<le> 36"
  shows "ParseUint_loop s base (maxUint64 div word_of_int base + 1) maxVal n =
    outcome (reads (nat base) (unat maxVal) (unat n) s)"
proof (induction s arbitrary: n)
  case (Cons d s)
  let ?b = "nat base" and ?b64 = "word_of_int base :: 64 word"
  have b: "unat ?b64 = ?b" "2 \<le> ?b" "unat (word_of_int base :: byte) = ?b"
    using base by (simp_all add: unsigned_of_int take_bit_int_eq_self nat_eq_iff)
  show ?case
  proof (cases "digit_val d")
    case (Some v)
    note ovf = overflow_checks [OF b(1,2), where n = n and v = v]
    have v: "word_of_int base \<le> v \<longleftrightarrow> ?b \<le> unat v" by (simp only: word_le_nat_alt b(3))
    consider "?b \<le> unat v" | "\<not> ?b \<le> unat v" "maxUint64 div ?b64 + 1 \<le> n"
      | "\<not> ?b \<le> unat v" "\<not> maxUint64 div ?b64 + 1 \<le> n" by blast
    then show ?thesis
    proof cases
      case 1
      then show ?thesis using Some v by simp
    next
      case 2
      then show ?thesis using Some v ovf(1) [where maxVal = maxVal] by simp
    next
      case 3
      let ?n1 = "n * ?b64 + ucast v"
      show ?thesis
      proof (cases "?n1 < n * ?b64 \<or> ?n1 > maxVal")
        case True
        then have "unat maxVal < unat n * ?b + unat v" using ovf(2) [OF 3(2), where maxVal = maxVal] by blast
        then show ?thesis
          using Some 3 True by (simp only: ParseUint_loop.simps option.case v if_False if_True Let_def reads.simps outcome.simps simp_thms)
      next
        case False
        then have "\<not> unat maxVal < unat n * ?b + unat v" "unat ?n1 = unat n * ?b + unat v"
          using ovf(2,3) [OF 3(2), where maxVal = maxVal] by blast+
        then show ?thesis
          using Some 3 False Cons.IH [of ?n1]
          by (simp only: ParseUint_loop.simps option.case v if_False Let_def reads.simps)
      qed
    qed
  qed simp
qed simp

text \<open>Strings of valid digits and their value.\<close>

definition valid_digits :: "nat \<Rightarrow> gostring \<Rightarrow> bool" where
  "valid_digits b s \<longleftrightarrow> list_all (\<lambda>d. case digit_val d of Some v \<Rightarrow> unat v < b | None \<Rightarrow> False) s"

definition digits_value :: "nat \<Rightarrow> nat \<Rightarrow> gostring \<Rightarrow> nat" where
  "digits_value b n s = foldl (\<lambda>n d. n * b + unat (the (digit_val d))) n s"

lemma digits_value_simps [simp]: "digits_value b n [] = n"
  "digits_value b n (d # s) = digits_value b (n * b + unat (the (digit_val d))) s"
  "digits_value b n (s @ [d]) = digits_value b n s * b + unat (the (digit_val d))"
  by (simp_all add: digits_value_def)

lemma digits_value_ge: "1 \<le> b \<Longrightarrow> n \<le> digits_value b n s"
proof (induction s arbitrary: n)
  case (Cons d s)
  have "n * 1 \<le> n * b" using Cons.prems by (rule mult_le_mono2)
  also have "n * b \<le> n * b + unat (the (digit_val d))" by simp
  also have "\<dots> \<le> digits_value b (n * b + unat (the (digit_val d))) s" by (rule Cons.IH [OF Cons.prems])
  finally show ?case by simp
qed simp

lemma reads_valid:
  "1 \<le> b \<Longrightarrow> valid_digits b s \<Longrightarrow> n \<le> M \<Longrightarrow>
   reads b M n s = (if digits_value b n s \<le> M then Inr (digits_value b n s) else Inl ErrRange)"
proof (induction s arbitrary: n)
  case (Cons d s)
  then obtain v where v: "digit_val d = Some v" "unat v < b" "valid_digits b s"
    by (auto simp: valid_digits_def split: option.splits)
  show ?case
    using Cons.IH [OF Cons.prems(1) v(3), of "n * b + unat v"] v digits_value_ge [OF Cons.prems(1), of "n * b + unat v" s] by auto
qed simp

lemma reads_invalid:
  "\<not> valid_digits b s \<Longrightarrow> \<exists>e. reads b M n s = Inl e \<and> e \<in> {ErrSyntax, ErrRange}"
  by (induction s arbitrary: n) (auto simp: valid_digits_def split: option.splits)

lemma digit_val_digits: "k < 36 \<Longrightarrow> digit_val (digits ! k) = Some (word_of_nat k)"
proof -
  have "list_all (\<lambda>k. digit_val (digits ! k) = Some (word_of_nat k)) [0..<36]" by code_simp
  moreover assume "k < 36"
  ultimately show ?thesis by (simp add: list_all_iff)
qed

lemma show_base_value: "2 \<le> b \<Longrightarrow> b \<le> 36 \<Longrightarrow> valid_digits b (show_base b n) \<and> digits_value b 0 (show_base b n) = n"
proof (induction b n rule: show_base.induct)
  case (1 b n)
  have d: "digit_val (digits ! k) = Some (word_of_nat k) \<and> unat (word_of_nat k :: byte) = k" if "k < b" for k
    using that 1(3) by (simp add: digit_val_digits unsigned_of_nat take_bit_nat_eq_self)
  show ?case
  proof (cases "n < b")
    case True
    then show ?thesis using d by (simp add: show_base_small valid_digits_def)
  next
    case False
    have "n mod b < b" using 1(2) by simp
    then show ?thesis
      using False d [of "n mod b"] 1 by (simp add: show_base_step valid_digits_def)
  qed
qed

lemma show_base_ne: "show_base b n \<noteq> []"
  by (subst show_base.simps) simp

lemma shl1_limits:
  assumes "1 \<le> w" "w \<le> 64"
  shows "unat (shl1 w - 1) = 2 ^ nat w - 1" and "unat (shl1 (w - 1)) = 2 ^ (nat w - 1)"
proof -
  have p: "(2 :: nat) ^ (nat w - 1) < 2 ^ 64" by (rule power_strict_increasing) (use assms in simp_all)
  have s1: "shl1 (w - 1) = word_of_nat (2 ^ (nat w - 1))" using assms by (simp add: shl1_def nat_diff_distrib push_bit_eq_mult)
  show "unat (shl1 (w - 1)) = 2 ^ (nat w - 1)" unfolding s1 using p assms(2) by (simp only: unsigned_of_nat) (simp add: take_bit_nat_eq_self)
  have "shl1 w - 1 = (mask (nat w) :: 64 word)" using assms by (simp add: shl1_def mask_eq_exp_minus_1 push_bit_eq_mult)
  then have "unat (shl1 w - 1) = take_bit (nat w) (mask 64)"
    by (simp only: take_bit_minus_one_eq_mask [symmetric] unsigned_take_bit_eq) (simp add: unsigned_minus_1_eq_mask)
  also have "\<dots> = mask (min 64 (nat w))" by (simp add: take_bit_of_mask min.commute)
  also have "min 64 (nat w) = nat w" using assms by simp
  finally show "unat (shl1 w - 1) = 2 ^ nat w - 1" by (simp add: mask_eq_exp_minus_1)
qed

lemma ParseUint_reads:
  assumes "2 \<le> base" "base \<le> 36" "1 \<le> w" "w \<le> 64" "s \<noteq> []"
  shows "ParseUint sz s base w =
    (case outcome (reads (nat base) (2 ^ nat w - 1) 0 s) of
       (n, None) \<Rightarrow> (n, None)
     | (n, Some e) \<Rightarrow> (n, Some \<lparr>ne_Func = ''ParseUint'', ne_Num = s, ne_Err = e\<rparr>))"
proof -
  have "maxUint64 div word_of_int base + 1 =
      (if base = 10 then maxUint64 div 10 + 1 else if base = 16 then maxUint64 div 16 + 1 else maxUint64 div word_of_int base + 1)"
    by simp
  moreover have "\<not> length s < 1" "w \<noteq> 0" using assms by (simp_all add: Suc_le_eq)
  ultimately show ?thesis
    using assms(1,2) ParseUint_loop_reads [OF assms(1,2), of s "shl1 w - 1" 0] shl1_limits(1) [OF assms(3,4)]
    by (simp add: ParseUint_def Let_def)
qed

lemma ParseUint_valid:
  assumes "2 \<le> base" "base \<le> 36" "1 \<le> w" "w \<le> 64" "s \<noteq> []" "valid_digits (nat base) s"
  shows "ParseUint sz s base w =
    (if digits_value (nat base) 0 s < 2 ^ nat w then (word_of_nat (digits_value (nat base) 0 s), None)
     else (maxUint64, Some (rangeError ''ParseUint'' s)))"
proof -
  have "digits_value (nat base) 0 s \<le> 2 ^ nat w - 1 \<longleftrightarrow> digits_value (nat base) 0 s < 2 ^ nat w"
    using one_le_power [of "2 :: nat" "nat w"] by (simp add: le_diff_conv2 less_eq_Suc_le [symmetric])
  then show ?thesis
    using ParseUint_reads [OF assms(1-5), of sz] reads_valid [of "nat base" s 0 "2 ^ nat w - 1"] assms(1,6)
    by (simp add: rangeError_def)
qed

text \<open>The text of a number: an optional sign and digits.\<close>

definition signed_text :: "byte list \<Rightarrow> bool \<Rightarrow> bool" where
  "signed_text sg neg \<longleftrightarrow> sg = [0x2d] \<and> neg \<or> (sg = [] \<or> sg = [0x2b]) \<and> \<not> neg"

lemma valid_no_sign: "valid_digits b (d # s) \<Longrightarrow> d \<noteq> 0x2d \<and> d \<noteq> 0x2b"
  by (auto simp: valid_digits_def digit_val_def)

lemma ParseInt_unsigned:
  assumes "signed_text sg neg" "ds \<noteq> []" "valid_digits (nat base) ds" "w \<noteq> 0"
  shows "ParseInt sz (sg @ ds) base w =
    (case ParseUint sz ds base w of
       (un, err) \<Rightarrow>
         if (case err of Some e \<Rightarrow> ne_Err e \<noteq> ErrRange | None \<Rightarrow> False)
         then (0, map_option (\<lambda>e. e\<lparr>ne_Func := ''ParseInt'', ne_Num := sg @ ds\<rparr>) err)
         else if \<not> neg \<and> un \<ge> shl1 (w - 1) then (shl1 (w - 1) - 1, Some (rangeError ''ParseInt'' (sg @ ds)))
         else if neg \<and> un > shl1 (w - 1) then (- shl1 (w - 1), Some (rangeError ''ParseInt'' (sg @ ds)))
         else (if neg then - un else un, None))"
proof -
  obtain d r where ds: "ds = d # r" using assms(2) by (cases ds) auto
  have d: "d \<noteq> 0x2d" "d \<noteq> 0x2b" using valid_no_sign [of "nat base" d r] assms(3) ds by auto
  obtain un err where "ParseUint sz (d # r) base w = (un, err)" by fastforce
  then show ?thesis
    using assms(1,4) d unfolding signed_text_def ds
    by (elim disjE conjE) (simp_all add: ParseInt_def Let_def)
qed

lemma ParseInt_valid:
  assumes "2 \<le> base" "base \<le> 36" "1 \<le> w" "w \<le> 64" "signed_text sg neg" "ds \<noteq> []" "valid_digits (nat base) ds"
  shows "ParseInt sz (sg @ ds) base w =
    (let v = digits_value (nat base) 0 ds; lim = 2 ^ (nat w - 1) in
     if neg then (if v \<le> lim then (- word_of_nat v, None) else (- word_of_nat lim, Some (rangeError ''ParseInt'' (sg @ ds))))
     else (if v < lim then (word_of_nat v, None) else (word_of_nat lim - 1, Some (rangeError ''ParseInt'' (sg @ ds)))))"
proof -
  let ?v = "digits_value (nat base) 0 ds" and ?lim = "2 ^ (nat w - 1) :: nat"
  have c: "unat (shl1 (w - 1)) = ?lim" by (rule shl1_limits(2) [OF assms(3,4)])
  have le63: "?lim \<le> 2 ^ 63" by (rule power_increasing) (use assms in simp_all)
  then have "take_bit 64 ?lim = ?lim" by (intro take_bit_nat_eq_self) simp
  then have "unat (word_of_nat ?lim :: 64 word) = ?lim" by (simp only: unsigned_of_nat len_num0 len_bit0 len_num1) simp
  then have cw: "shl1 (w - 1) = word_of_nat ?lim" using c by (simp only: word_unat_eq_iff)
  have two: "(2 :: nat) ^ nat w = 2 * ?lim" using assms(3) by (cases "nat w") auto
  from le63 have lim: "?lim < 2 ^ 64 - 1" "0 < ?lim" by simp_all
  note pu = ParseUint_valid [OF assms(1-4,6,7), of sz]
  have w: "w \<noteq> 0" using assms(3) by simp
  note pint = ParseInt_unsigned [OF assms(5-7) w, where sz = sz]
  show ?thesis
  proof (cases "?v < 2 ^ nat w")
    case True
    then have "?v < 2 ^ 64" using two le63 by simp
    then have u: "unat (word_of_nat ?v :: 64 word) = ?v" by (simp add: unsigned_of_nat take_bit_nat_eq_self)
    have cmp: "shl1 (w - 1) \<le> word_of_nat ?v \<longleftrightarrow> \<not> ?v < ?lim" "shl1 (w - 1) < word_of_nat ?v \<longleftrightarrow> \<not> ?v \<le> ?lim"
      unfolding word_le_nat_alt word_less_nat_alt c u by auto
    show ?thesis
      unfolding pint pu if_P [OF True] prod.case option.case if_False cmp Let_def unfolding cw by (cases neg) simp_all
  next
    case False
    then have over: "\<not> ?v < ?lim" "\<not> ?v \<le> ?lim" using two lim by linarith+
    have cmp: "(shl1 (w - 1) \<le> maxUint64) = True" "(shl1 (w - 1) < maxUint64) = True"
      using lim(1) less_imp_le [OF lim(1)] unfolding word_le_nat_alt word_less_nat_alt c unat_max by blast+
    show ?thesis
      unfolding pint pu if_not_P [OF False] prod.case option.case rangeError_def NumError.select_convs simp_thms if_False cmp Let_def
        if_not_P [OF over(1)] if_not_P [OF over(2)] unfolding cw by (cases neg) simp_all
  qed
qed

section \<open>Properties\<close>

lemma sint_range: "- (2 ^ 63) \<le> sint i" "sint i < 2 ^ 63" for i :: "64 word"
  using sint_ge [of i] sint_lt [of i] by simp_all

lemma unat_abs: "unat (if sint i < 0 then - i else i) = nat \<bar>sint i\<bar>" for i :: "64 word"
proof -
  have k: "unat (word_of_int k :: 64 word) = nat k" if "0 \<le> k" "k \<le> 2 ^ 63" for k
    using that by (simp add: unsigned_of_int take_bit_int_eq_self)
  have "i = word_of_int (sint i)" "- i = word_of_int (- sint i)" by simp_all
  then show ?thesis using k [of "sint i"] k [of "- sint i"] sint_range [of i] by auto
qed

lemma FormatInt_text:
  assumes "maxptr \<in> maxptrs" "2 \<le> base" "base \<le> 36"
  shows "FormatInt maxptr i base =
    Inr ((if sint i < 0 then [0x2d] else []) @ show_base (nat base) (nat \<bar>sint i\<bar>))"
proof -
  have "unat (if sint i < 0 then - i else i) = nat \<bar>sint i\<bar>" by (rule unat_abs)
  then show ?thesis by (simp add: FormatInt_def formatBits_shows [OF assms] Let_def)
qed

text \<open>C34: for every base from 2 to 36 and both widths of \<open>uintptr\<close>, \<open>FormatInt\<close> and \<open>FormatUint\<close> stay
  inside their buffer of 65 bytes, give the sign and the digits of the number, and are undone by
  \<open>ParseInt\<close> and \<open>ParseUint\<close>; \<open>AppendInt\<close> and \<open>AppendUint\<close> append the same text.\<close>

theorem format_parse_roundtrip:
  assumes "maxptr \<in> maxptrs" "2 \<le> base" "base \<le> 36"
  shows "(\<exists>t. FormatInt maxptr i base = Inr t \<and> length t \<le> 65 \<and> ParseInt sz t base 64 = (i, None) \<and>
      t = (if sint i < 0 then [0x2d] else []) @ show_base (nat base) (nat \<bar>sint i\<bar>) \<and>
      AppendInt maxptr dst i base = Inr (dst @ t)) \<and>
    (\<exists>t. FormatUint maxptr i base = Inr t \<and> length t \<le> 64 \<and> ParseUint sz t base 64 = (i, None) \<and>
      t = show_base (nat base) (unat i) \<and> AppendUint maxptr dst i base = Inr (dst @ t))"
proof (intro conjI)
  let ?b = "nat base" and ?neg = "sint i < 0"
  have b: "2 \<le> ?b" "?b \<le> 36" using assms by auto
  let ?sg = "if ?neg then [0x2d] else [] :: byte list" and ?ds = "show_base ?b (nat \<bar>sint i\<bar>)"
  have w64: "(1 :: int) \<le> 64" "(64 :: int) \<le> 64" by simp_all
  have len: "length (show_base ?b (unat u)) \<le> 64" for u :: "64 word" by (rule length_show_word [OF b(1)])
  note val = show_base_value [OF b, of "nat \<bar>sint i\<bar>"] and uval = show_base_value [OF b, of "unat i"]
  have "signed_text ?sg ?neg" by (simp add: signed_text_def)
  note parse = ParseInt_valid [OF assms(2,3) w64 this show_base_ne conjunct1 [OF val], of sz]
  have undo: "(if ?neg then - word_of_nat (nat \<bar>sint i\<bar>) else word_of_nat (nat \<bar>sint i\<bar>)) = i"
    by (simp add: unat_abs [symmetric])
  have "nat \<bar>sint i\<bar> \<le> 2 ^ (nat 64 - 1)" "\<not> ?neg \<Longrightarrow> nat \<bar>sint i\<bar> < 2 ^ (nat 64 - 1)"
    using sint_range [of i] by (simp_all add: nat_le_iff nat_less_iff)
  then have "ParseInt sz (?sg @ ?ds) base 64 = (i, None)"
    unfolding parse Let_def conjunct2 [OF val] using undo by auto
  moreover have "AppendInt maxptr dst i base = Inr (dst @ ?sg @ ?ds)"
    by (simp add: AppendInt_def formatBits_shows [OF assms] Let_def unat_abs [symmetric])
  moreover have "length ?sg \<le> 1" by simp
  then have "length (?sg @ ?ds) \<le> 65"
    using len [of "if ?neg then - i else i"] unfolding unat_abs length_append by linarith
  ultimately show "\<exists>t. FormatInt maxptr i base = Inr t \<and> length t \<le> 65 \<and> ParseInt sz t base 64 = (i, None) \<and>
      t = (if ?neg then [0x2d] else []) @ show_base (nat base) (nat \<bar>sint i\<bar>) \<and>
      AppendInt maxptr dst i base = Inr (dst @ t)"
    by (intro exI [of _ "?sg @ ?ds"] conjI) (simp_all only: FormatInt_text [OF assms])
  have "ParseUint sz (show_base ?b (unat i)) base 64 = (i, None)"
    using ParseUint_valid [OF assms(2,3) w64 show_base_ne conjunct1 [OF uval], of sz] conjunct2 [OF uval]
      unsigned_less [of i, where 'a = nat] by simp
  then show "\<exists>t. FormatUint maxptr i base = Inr t \<and> length t \<le> 64 \<and> ParseUint sz t base 64 = (i, None) \<and>
      t = show_base (nat base) (unat i) \<and> AppendUint maxptr dst i base = Inr (dst @ t)"
    using len [of i] by (simp add: FormatUint_def AppendUint_def formatBits_shows [OF assms] Let_def)
qed

lemma format_parse_roundtrip_witness:
  "\<exists>t. FormatInt 0xffffffff (- 129) 16 = Inr t \<and> ParseInt 32 t 16 64 = (- 129, None)"
  using format_parse_roundtrip [of "0xffffffff" 16 "- 129" 32 "[]"] by (auto simp: maxptrs_def)

section \<open>The numbers that texts denote\<close>

text \<open>Digits as the documentation has them, small or capital, place values, and the base that a prefix
  implies. \<open>read_text\<close> is the number, or the error that a reader from the left meets first: the digits
  before the first byte that is no digit already exceed the range, or the text is empty or not all digits.\<close>

definition numerals :: "byte list" where
  "numerals = map of_char ''0123456789abcdefghijklmnopqrstuvwxyz''"

definition capitals :: "byte list" where
  "capitals = map of_char ''0123456789ABCDEFGHIJKLMNOPQRSTUVWXYZ''"

definition digit_of :: "byte \<Rightarrow> nat option" where
  "digit_of d = find (\<lambda>k. numerals ! k = d \<or> capitals ! k = d) [0..<36]"

definition is_digit :: "nat \<Rightarrow> byte \<Rightarrow> bool" where
  "is_digit b d \<longleftrightarrow> (case digit_of d of None \<Rightarrow> False | Some k \<Rightarrow> k < b)"

definition number :: "nat \<Rightarrow> gostring \<Rightarrow> nat" where
  "number b ds = (\<Sum>i < length ds. the (digit_of (ds ! i)) * b ^ (length ds - 1 - i))"

definition read_text :: "nat \<Rightarrow> nat \<Rightarrow> gostring \<Rightarrow> num_err + nat" where
  "read_text b w ds =
     (let p = takeWhile (is_digit b) ds in
      if 2 ^ w \<le> number b p then Inl ErrRange
      else if ds \<noteq> [] \<and> p = ds then Inr (number b ds)
      else Inl ErrSyntax)"

definition split_sign :: "gostring \<Rightarrow> bool \<times> gostring" where
  "split_sign s =
     (if take 1 s = [of_char CHR ''-''] then (True, drop 1 s)
      else if take 1 s = [of_char CHR ''+''] then (False, drop 1 s)
      else (False, s))"

definition split_base :: "int \<Rightarrow> gostring \<Rightarrow> nat \<times> gostring" where
  "split_base base s =
     (if base \<noteq> 0 then (nat base, s)
      else if take 2 s = map of_char ''0x'' \<or> take 2 s = map of_char ''0X'' then (16, drop 2 s)
      else if take 1 s = map of_char ''0'' then (8, s)
      else (10, s))"

lemma digit_of_Some: "digit_of d = Some k \<Longrightarrow> digit_val d = Some (word_of_nat k) \<and> k < 36"
proof -
  have "list_all (\<lambda>k. digit_val (numerals ! k) = Some (word_of_nat k) \<and> digit_val (capitals ! k) = Some (word_of_nat k)) [0..<36]"
    by code_simp
  then show "digit_of d = Some k \<Longrightarrow> ?thesis"
    by (auto simp: digit_of_def find_Some_iff list_all_iff)
qed

lemma digit_of_ex: "digit_of d = None \<Longrightarrow> digit_val d = None"
proof (rule ccontr)
  assume n: "digit_of d = None" "digit_val d \<noteq> None"
  have "list_all (\<lambda>k. numerals ! k = word_of_nat (if k < 10 then k + 48 else k + 87) \<and>
      capitals ! k = word_of_nat (if k < 10 then k + 48 else k + 55)) [0..<36]" by code_simp
  then have t: "d \<noteq> word_of_nat (if k < 10 then k + 48 else k + 87) \<and> d \<noteq> word_of_nat (if k < 10 then k + 48 else k + 55)"
    if "k < 36" for k
    using n(1) that by (auto simp: digit_of_def find_None_iff list_all_iff)
  have "48 \<le> unat d \<and> unat d < 58 \<or> 97 \<le> unat d \<and> unat d < 123 \<or> 65 \<le> unat d \<and> unat d < 91"
    using n(2) by (auto simp: digit_val_def word_le_nat_alt split: if_splits)
  then obtain k where "k < 36" "unat d = (if k < 10 then k + 48 else k + 87) \<or> unat d = (if k < 10 then k + 48 else k + 55)"
  proof (elim disjE conjE)
    assume "48 \<le> unat d" "unat d < 58" then show thesis by (intro that [of "unat d - 48"]) auto
  next
    assume "97 \<le> unat d" "unat d < 123" then show thesis by (intro that [of "unat d - 87"]) auto
  next
    assume "65 \<le> unat d" "unat d < 91" then show thesis by (intro that [of "unat d - 55"]) auto
  qed
  moreover have "d = word_of_nat (unat d)" by simp
  ultimately show False using t [of k] by metis
qed

lemma digit_of_val: "digit_of d = map_option unat (digit_val d)"
proof (cases "digit_of d")
  case None
  then show ?thesis using digit_of_ex [OF None] by simp
next
  case (Some k)
  then show ?thesis using digit_of_Some [OF Some] by (simp add: unsigned_of_nat take_bit_nat_eq_self)
qed

lemma is_digit_val: "is_digit b d \<longleftrightarrow> (case digit_val d of Some v \<Rightarrow> unat v < b | None \<Rightarrow> False)"
  by (simp add: is_digit_def digit_of_val split: option.split)

lemma valid_is_digit: "valid_digits b s \<longleftrightarrow> (\<forall>d \<in> set s. is_digit b d)"
  by (simp add: valid_digits_def is_digit_val list_all_iff)

lemma number_snoc: "number b (ds @ [d]) = number b ds * b + the (digit_of d)"
proof -
  have "(\<Sum>i < length ds. the (digit_of ((ds @ [d]) ! i)) * b ^ (length ds - i)) =
      (\<Sum>i < length ds. the (digit_of (ds ! i)) * b ^ (length ds - 1 - i) * b)"
  proof (rule sum.cong [OF refl])
    fix i assume "i \<in> {..<length ds}"
    then have "i < length ds" "length ds - i = Suc (length ds - 1 - i)" by auto
    then show "the (digit_of ((ds @ [d]) ! i)) * b ^ (length ds - i) =
        the (digit_of (ds ! i)) * b ^ (length ds - 1 - i) * b"
      by (simp add: nth_append)
  qed
  then show ?thesis by (simp add: number_def sum_distrib_right)
qed

lemma number_value: "valid_digits b ds \<Longrightarrow> number b ds = digits_value b 0 ds"
proof (induction ds rule: rev_induct)
  case Nil
  show ?case by (simp add: number_def)
next
  case (snoc d ds)
  then have "valid_digits b ds" "is_digit b d" by (simp_all add: valid_is_digit)
  then show ?case
    using snoc.IH by (auto simp: number_snoc digit_of_val is_digit_val split: option.splits)
qed

lemma reads_prefix:
  "1 \<le> b \<Longrightarrow> n \<le> M \<Longrightarrow>
   reads b M n s =
     (let p = takeWhile (is_digit b) s in
      if M < digits_value b n p then Inl ErrRange else if p = s then Inr (digits_value b n s) else Inl ErrSyntax)"
proof (induction s arbitrary: n)
  case (Cons d s)
  show ?case
  proof (cases "is_digit b d")
    case True
    then obtain v where v: "digit_val d = Some v" "unat v < b" by (auto simp: is_digit_val split: option.splits)
    show ?thesis
      using Cons.IH [OF Cons.prems(1), of "n * b + unat v"] v True
        digits_value_ge [OF Cons.prems(1), of "n * b + unat v" "takeWhile (is_digit b) s"]
      by (auto simp: Let_def)
  next
    case False
    then show ?thesis using Cons.prems by (auto simp: is_digit_val Let_def split: option.splits)
  qed
qed (simp add: Let_def)

lemma reads_text:
  assumes "1 \<le> b" "ds \<noteq> []"
  shows "reads b (2 ^ w - 1) 0 ds = read_text b w ds"
proof -
  let ?p = "takeWhile (is_digit b) ds"
  have "valid_digits b ?p" by (auto simp: valid_is_digit dest: set_takeWhileD)
  note n = number_value [OF this]
  have "2 ^ w - 1 < k \<longleftrightarrow> 2 ^ w \<le> k" for k :: nat using one_le_power [of "2 :: nat" w] by linarith
  note r = reads_prefix [OF assms(1), of 0 "2 ^ w - 1" ds, OF le0, unfolded this n [symmetric] Let_def]
  show ?thesis
  proof (cases "?p = ds")
    case True
    then show ?thesis using r n assms(2) unfolding read_text_def Let_def True by simp
  next
    case False
    then show ?thesis using r unfolding read_text_def Let_def using False by auto
  qed
qed

lemma read_text_zero: "1 \<le> b \<Longrightarrow> outcome (reads b (2 ^ w - 1) 0 s) = outcome (read_text b w (0x30 # s))"
proof -
  assume b: "1 \<le> b"
  have "digit_val 0x30 = Some 0" by code_simp
  then show ?thesis using b by (simp add: reads_text [OF b, symmetric])
qed

text \<open>\<open>ParseUint\<close> for every text, and \<open>ParseInt\<close> by the sign.\<close>

definition uint_result :: "gostring \<Rightarrow> num_err + nat \<Rightarrow> 64 word \<times> NumError option" where
  "uint_result s r =
     (case r of Inr v \<Rightarrow> (word_of_nat v, None)
      | Inl e \<Rightarrow> (if e = ErrRange then maxUint64 else 0, Some \<lparr>ne_Func = ''ParseUint'', ne_Num = s, ne_Err = e\<rparr>))"

lemma uint_result_outcome:
  "uint_result s r = (case outcome r of (n, None) \<Rightarrow> (n, None)
     | (n, Some e) \<Rightarrow> (n, Some \<lparr>ne_Func = ''ParseUint'', ne_Num = s, ne_Err = e\<rparr>))"
  by (cases r) (simp_all add: uint_result_def)

lemma ParseUint_based:
  assumes "2 \<le> base" "base \<le> 36" "1 \<le> w" "w \<le> 64"
  shows "ParseUint sz s base w = uint_result s (read_text (nat base) (nat w) s)"
proof (cases "s = []")
  case True
  then show ?thesis by (simp add: ParseUint_def Let_def uint_result_def read_text_def number_def)
next
  case False
  have "1 \<le> nat base" using assms(1) by simp
  then show ?thesis
    using ParseUint_reads [OF assms False, of sz] reads_text [OF _ False] by (simp add: uint_result_outcome)
qed

lemma ParseUint_prefixed:
  assumes "1 \<le> w" "w \<le> 64"
  shows "ParseUint sz s 0 w = (case split_base 0 s of (b, ds) \<Rightarrow> uint_result s (read_text b (nat w) ds))"
proof -
  have w: "w \<noteq> 0" using assms(1) by simp
  have r: "(case ParseUint_loop t b (maxUint64 div word_of_int b + 1) (shl1 w - 1) 0 of
        (n, None) \<Rightarrow> (n, None)
      | (n, Some e) \<Rightarrow> (n, Some \<lparr>ne_Func = ''ParseUint'', ne_Num = s, ne_Err = e\<rparr>)) =
      uint_result s (reads (nat b) (2 ^ nat w - 1) 0 t)" if "2 \<le> b" "b \<le> 36" for t b
    using ParseUint_loop_reads [OF that, of t "shl1 w - 1" 0] shl1_limits(1) [OF assms] by (simp add: uint_result_outcome)
  have z: "uint_result s (reads 8 (2 ^ nat w - 1) 0 t) = uint_result s (read_text 8 (nat w) (0x30 # t))" for t
    unfolding uint_result_outcome using read_text_zero [of 8 "nat w" t] by simp
  have c: "map of_char ''0x'' = [0x30, 0x78 :: byte]" "map of_char ''0X'' = [0x30, 0x58 :: byte]" "map of_char ''0'' = [0x30 :: byte]"
    by code_simp+
  have e: "reads b (2 ^ k - 1) 0 t = read_text b k t" if "2 \<le> b" "t \<noteq> []" for b k t using reads_text [OF _ that(2)] that(1) by simp
  show ?thesis
  proof (cases s)
    case Nil
    then show ?thesis by (simp add: ParseUint_def Let_def split_base_def uint_result_def read_text_def number_def)
  next
    case (Cons x t)
    show ?thesis
    proof (cases "x = 0x30")
      case False
      then show ?thesis
        using Cons w r [of 10 s] e [of 10 s] by (simp add: ParseUint_def Let_def split_base_def c)
    next
      case x: True
      show ?thesis
      proof (cases t)
        case Nil
        then show ?thesis using Cons x w r [of 8 "[]"] z [of "[]"] by (simp add: ParseUint_def Let_def split_base_def c)
      next
        case t: (Cons y u)
        show ?thesis
        proof (cases "y = 0x78 \<or> y = 0x58")
          case True
          then have sb: "split_base 0 s = (16, u)" using Cons x t by (auto simp: split_base_def c)
          show ?thesis
          proof (cases u)
            case Nil
            then show ?thesis using sb Cons x t True
              by (auto simp: ParseUint_def Let_def uint_result_def read_text_def number_def)
          next
            case (Cons v u')
            then show ?thesis using sb \<open>s = x # t\<close> x t True w r [of 16 u] e [of 16 u] by (auto simp: ParseUint_def Let_def)
          qed
        next
          case False
          then show ?thesis using Cons x t w r [of 8 t] z [of t] by (auto simp: ParseUint_def Let_def split_base_def c)
        qed
      qed
    qed
  qed
qed

lemma ParseUint_text:
  assumes "base = 0 \<or> 2 \<le> base \<and> base \<le> 36" "1 \<le> w" "w \<le> 64"
  shows "ParseUint sz s base w = (case split_base base s of (b, ds) \<Rightarrow> uint_result s (read_text b (nat w) ds))"
proof (cases "base = 0")
  case True
  then show ?thesis using ParseUint_prefixed [OF assms(2,3)] by simp
next
  case False
  then show ?thesis using ParseUint_based [of base w] assms by (simp add: split_base_def)
qed

text \<open>The signed number and the bound on its side.\<close>

definition signed_value :: "bool \<Rightarrow> nat \<Rightarrow> int" where
  "signed_value neg v = (if neg then - int v else int v)"

definition int_bound :: "bool \<Rightarrow> nat \<Rightarrow> int" where
  "int_bound neg w = (if neg then - (2 ^ (w - 1)) else 2 ^ (w - 1) - 1)"

definition int_result :: "gostring \<Rightarrow> bool \<Rightarrow> nat \<Rightarrow> num_err + nat \<Rightarrow> 64 word \<times> NumError option" where
  "int_result s neg w r =
     (case r of
        Inl ErrRange \<Rightarrow> (word_of_int (int_bound neg w), Some (rangeError ''ParseInt'' s))
      | Inl e \<Rightarrow> (0, Some \<lparr>ne_Func = ''ParseInt'', ne_Num = s, ne_Err = e\<rparr>)
      | Inr v \<Rightarrow>
          if - (2 ^ (w - 1)) \<le> signed_value neg v \<and> signed_value neg v < 2 ^ (w - 1) then (word_of_int (signed_value neg v), None)
          else (word_of_int (int_bound neg w), Some (rangeError ''ParseInt'' s)))"

lemma read_text_bound: "read_text b w ds = Inr v \<Longrightarrow> v < 2 ^ w"
proof -
  assume r: "read_text b w ds = Inr v"
  then have "takeWhile (is_digit b) ds = ds" "\<not> 2 ^ w \<le> number b (takeWhile (is_digit b) ds)" "v = number b ds"
    unfolding read_text_def Let_def by (metis Inl_Inr_False Inr_inject)+
  then show ?thesis by (metis not_le)
qed

lemma neg_split:
  "split_sign (x # t) = (x = 0x2d, if x = 0x2b then t else if x = 0x2d then t else x # t)"
  by (simp add: split_sign_def)

lemma ParseInt_split:
  assumes "s \<noteq> []" "w \<noteq> 0" "split_sign s = (neg, t)"
  shows "ParseInt sz s base w =
      (case ParseUint sz t base w of (un, err) \<Rightarrow>
         if (case err of Some e \<Rightarrow> ne_Err e \<noteq> ErrRange | None \<Rightarrow> False)
         then (0, map_option (\<lambda>e. e\<lparr>ne_Func := ''ParseInt'', ne_Num := s\<rparr>) err)
         else if \<not> neg \<and> un \<ge> shl1 (w - 1) then (shl1 (w - 1) - 1, Some (rangeError ''ParseInt'' s))
         else if neg \<and> un > shl1 (w - 1) then (- shl1 (w - 1), Some (rangeError ''ParseInt'' s))
         else (if neg then - un else un, None))"
proof (cases s)
  case (Cons x r)
  then have n: "neg = (x = 0x2d)" "t = (if x = 0x2b then r else if x = 0x2d then r else x # r)"
    using assms(3) neg_split [of x r] by simp_all
  show ?thesis unfolding n Cons ParseInt_def Let_def nth_Cons_0 using assms(2) by simp
qed (use assms(1) in simp)

lemma ParseInt_text:
  assumes "base = 0 \<or> 2 \<le> base \<and> base \<le> 36" "1 \<le> w" "w \<le> 64"
  shows "ParseInt sz s base w =
    (case split_sign s of (neg, t) \<Rightarrow> case split_base base t of (b, ds) \<Rightarrow>
       int_result s neg (nat w) (read_text b (nat w) ds))"
proof -
  obtain neg t where n: "split_sign s = (neg, t)" by fastforce
  obtain b ds where d: "split_base base t = (b, ds)" by fastforce
  let ?r = "read_text b (nat w) ds" and ?lim = "2 ^ (nat w - 1) :: nat"
  note pu = ParseUint_text [OF assms, of sz t, unfolded d prod.case]
  have w: "w \<noteq> 0" using assms(2) by simp
  have c: "unat (shl1 (w - 1)) = ?lim" by (rule shl1_limits(2) [OF assms(2,3)])
  have cw: "shl1 (w - 1) = word_of_int (2 ^ (nat w - 1))"
    using arg_cong [OF c, of "word_of_nat :: nat \<Rightarrow> 64 word"] by (simp add: of_nat_power)
  have two: "(2 :: nat) ^ nat w = 2 * ?lim" using assms(2) by (cases "nat w") auto
  have le63: "?lim \<le> 2 ^ 63" by (rule power_increasing) (use assms in simp_all)
  show ?thesis
  proof (cases "s = []")
    case True
    then have "\<not> neg" "t = []" using n by (simp_all add: split_sign_def)
    moreover have "read_text b (nat w) [] = Inl ErrSyntax" by (simp add: read_text_def number_def)
    moreover have "ds = []" using d \<open>t = []\<close> by (auto simp: split_base_def split: if_splits)
    ultimately show ?thesis using True n d by (simp add: ParseInt_def Let_def int_result_def syntaxError_def)
  next
    case False
    note code = ParseInt_split [OF False w n, of sz base, unfolded pu]
    show ?thesis
    proof (cases ?r)
      case (Inl e)
      have over: "\<not> maxUint64 < shl1 (w - 1)" "shl1 (w - 1) < maxUint64"
        using le63 unfolding word_less_nat_alt c unat_max by simp_all
      show ?thesis
      proof (cases "e = ErrRange")
        case True
        then show ?thesis unfolding code n d prod.case Inl uint_result_def int_result_def int_bound_def
          using over by (simp add: cw not_less)
      next
        case False
        then show ?thesis unfolding code n d prod.case Inl uint_result_def int_result_def
          by (cases e) simp_all
      qed
    next
      case (Inr v)
      have v: "v < 2 * ?lim" using read_text_bound [OF Inr] unfolding two .
      then have "v < 2 ^ 64" using le63 by simp
      then have u: "unat (word_of_nat v :: 64 word) = v" by (simp add: unsigned_of_nat take_bit_nat_eq_self)
      have cmp: "shl1 (w - 1) \<le> word_of_nat v \<longleftrightarrow> \<not> v < ?lim" "shl1 (w - 1) < word_of_nat v \<longleftrightarrow> \<not> v \<le> ?lim"
        unfolding word_le_nat_alt word_less_nat_alt c u by auto
      have il: "int v < 2 ^ (nat w - 1) \<longleftrightarrow> v < ?lim" "int v \<le> 2 ^ (nat w - 1) \<longleftrightarrow> v \<le> ?lim" 
        by (metis of_nat_less_iff of_nat_numeral of_nat_power) (metis of_nat_le_iff of_nat_numeral of_nat_power)
      have "0 \<le> int v" "(0 :: int) < 2 ^ (nat w - 1)" by simp_all
      then have sg: "- int v < 2 ^ (nat w - 1)" "- (2 ^ (nat w - 1)) \<le> int v" by linarith+
      show ?thesis unfolding code n d prod.case Inr uint_result_def int_result_def int_bound_def signed_value_def sum.case option.case if_False cmp
        using il sg by (cases neg) (auto simp: cw)
    qed
  qed
qed

text \<open>C35: what \<open>ParseUint\<close> and \<open>ParseInt\<close> return for every text, for the bases 0 and 2 to 36 and sizes from
  1 to 64 bits. \<open>ParseUint\<close> gives the number that the text denotes when it fits. Otherwise it gives \<open>2 ^ 64 - 1\<close> with
  \<open>ErrRange\<close> when the digits before the first byte that is no digit are too large, and 0 with \<open>ErrSyntax\<close> for
  every other text. \<open>ParseInt\<close> takes one sign off, gives the signed number when it fits, the bound on its side with
  \<open>ErrRange\<close> when it does not, and 0 with \<open>ErrSyntax\<close> for a text that is empty, only a sign or not all
  digits. Its errors carry the whole text. A byte that is no digit is not seen behind an overflow.\<close>

theorem parse_exact:
  assumes "base = 0 \<or> 2 \<le> base \<and> base \<le> 36" "1 \<le> w" "w \<le> 64"
  shows "ParseUint sz s base w =
      (case split_base base s of (b, ds) \<Rightarrow>
         case read_text b (nat w) ds of
           Inr v \<Rightarrow> (word_of_nat v, None)
         | Inl e \<Rightarrow> (if e = ErrRange then maxUint64 else 0, Some \<lparr>ne_Func = ''ParseUint'', ne_Num = s, ne_Err = e\<rparr>)) \<and>
    ParseInt sz s base w =
      (case split_sign s of (neg, t) \<Rightarrow> case split_base base t of (b, ds) \<Rightarrow>
         int_result s neg (nat w) (read_text b (nat w) ds)) \<and>
    ParseInt 64 (map of_char ''12x'') 10 64 = (0, Some (syntaxError ''ParseInt'' (map of_char ''12x''))) \<and>
    ParseUint 64 (replicate 20 0x39 @ [0x78]) 10 64 = (maxUint64, Some (rangeError ''ParseUint'' (replicate 20 0x39 @ [0x78])))"
proof (intro conjI)
  show "ParseInt 64 (map of_char ''12x'') 10 64 = (0, Some (syntaxError ''ParseInt'' (map of_char ''12x'')))" by code_simp
  show "ParseUint 64 (replicate 20 0x39 @ [0x78]) 10 64 = (maxUint64, Some (rangeError ''ParseUint'' (replicate 20 0x39 @ [0x78])))"
    by code_simp
qed (use ParseUint_text [OF assms, of sz s] ParseInt_text [OF assms, of sz s] in \<open>simp_all add: uint_result_def\<close>)

lemma parse_exact_witness:
  "ParseInt 64 (map of_char ''-0xfF'') 0 8 = (- 128, Some (rangeError ''ParseInt'' (map of_char ''-0xfF''))) \<and>
   ParseUint 64 (map of_char ''fF'') 16 8 = (255, None)"
proof -
  let ?f = "of_char CHR ''f'' :: byte" and ?F = "of_char CHR ''F'' :: byte"
  have c: "?f = 0x66" "?F = 0x46" "map of_char ''-0xfF'' = [0x2d, 0x30, 0x78, 0x66, 0x46 :: byte]" "map of_char ''0x'' = [0x30, 0x78 :: byte]"
    "of_char CHR ''-'' = (0x2d :: byte)"
    by code_simp+
  have "digit_of 0x66 = Some 15" "digit_of 0x46 = Some 15" unfolding digit_of_val by code_simp+
  then have n: "number 16 [0x66, 0x46] = 255" "takeWhile (is_digit 16) [0x66, 0x46] = [0x66, 0x46]"
    by (simp_all add: number_def is_digit_def)
  have "split_sign [0x2d, 0x30, 0x78, 0x66, 0x46] = (True, [0x30, 0x78, 0x66, 0x46])"
    "split_base 0 [0x30, 0x78, 0x66, 0x46] = (16, [0x66, 0x46])" "split_base 16 [0x66, 0x46] = (16, [0x66, 0x46])"
    by (simp_all add: split_sign_def split_base_def c)
  then show ?thesis
    using parse_exact [of 0 8 64 "[0x2d, 0x30, 0x78, 0x66, 0x46]"] parse_exact [of 16 8 64 "[0x66, 0x46]"] n
    by (simp add: read_text_def int_result_def signed_value_def int_bound_def c del: of_char_of)
qed

end
