(* ===== verification/Go_Json.thy ===== *)
theory Go_Json
  imports Go_Prelude
begin

text \<open>
  The scanner of package encoding/json (src/encoding/json/scanner.go), a push-down automaton fed one
  byte at a time, and the functions \<open>checkValid\<close> and \<open>nextValue\<close> that are driven by it. A state of the
  automaton is a function value in the code and a constructor of \<open>sfun\<close> here; \<open>step\<close> calls it. Every
  slice operation on the stack can panic in the model. The specification is the grammar of JSON
  texts; a scanner state stands for the language of the inputs it still accepts, and each step is
  shown to take the derivative of that language.
\<close>

section \<open>The scanner\<close>

datatype opcode = scanContinue | scanBeginLiteral | scanBeginObject | scanObjectKey | scanObjectValue
  | scanEndObject | scanBeginArray | scanArrayValue | scanEndArray | scanSkipSpace | scanEnd | scanError

datatype pstate = parseObjectKey | parseObjectValue | parseArrayValue

datatype sfun = BeginValueOrEmpty | BeginValue | BeginStringOrEmpty | BeginString | EndValue | EndTop
  | InString | InStringEsc | InStringEscU | InStringEscU1 | InStringEscU12 | InStringEscU123
  | Neg | State1 | State0 | Dot | Dot0 | StE | ESign | E0
  | StT | Tr | Tru | StF | Fa | Fal | Fals | StN | Nu | Nul | StError | Redo

text \<open>The message of a syntax error: an offending character with its context, or the end of the input.\<close>

datatype json_msg = InvalidChar int string | UnexpectedEnd

record SyntaxError =
  se_msg :: json_msg
  se_Offset :: nat

record scanner =
  sc_step :: sfun
  endTop :: bool
  parseState :: "pstate list"
  sc_err :: "SyntaxError option"
  redo :: bool
  redoCode :: opcode
  redoState :: sfun
  sc_bytes :: nat

type_synonym scanned = "panic + scanner \<times> opcode"

definition reset :: "scanner \<Rightarrow> scanner" where
  "reset s = s\<lparr>sc_step := BeginValue, parseState := [], sc_err := None, redo := False, endTop := False\<rparr>"

definition pushParseState :: "scanner \<Rightarrow> pstate \<Rightarrow> scanner" where
  "pushParseState s p = s\<lparr>parseState := parseState s @ [p]\<rparr>"

definition popParseState :: "scanner \<Rightarrow> panic + scanner" where
  "popParseState s =
     (if parseState s = [] then Inl SliceOutOfRange
      else (let ps = butlast (parseState s); s = s\<lparr>parseState := ps, redo := False\<rparr> in
        Inr (if length ps = 0 then s\<lparr>sc_step := EndTop, endTop := True\<rparr> else s\<lparr>sc_step := EndValue\<rparr>)))"

text \<open>\<open>s.parseState[n-1] = p\<close>.\<close>

definition set_top :: "scanner \<Rightarrow> pstate \<Rightarrow> panic + scanner" where
  "set_top s p =
     (let n = length (parseState s) in
      if n = 0 then Inl IndexOutOfRange else Inr (s\<lparr>parseState := (parseState s)[n - 1 := p]\<rparr>))"

definition sc_error :: "scanner \<Rightarrow> int \<Rightarrow> string \<Rightarrow> scanned" where
  "sc_error s c context =
     Inr (s\<lparr>sc_step := StError, sc_err := Some \<lparr>se_msg = InvalidChar c context, se_Offset = sc_bytes s\<rparr>\<rparr>, scanError)"

abbreviation goto_with :: "scanner \<Rightarrow> sfun \<Rightarrow> opcode \<Rightarrow> scanned" where
  "goto_with s q v \<equiv> Inr (s\<lparr>sc_step := q\<rparr>, v)"

definition isSpace :: "int \<Rightarrow> bool" where
  "isSpace c \<longleftrightarrow> c = 0x20 \<or> c = 0x09 \<or> c = 0x0d \<or> c = 0x0a"

definition is_digit :: "int \<Rightarrow> bool" where
  "is_digit c \<longleftrightarrow> 0x30 \<le> c \<and> c \<le> 0x39"

definition is_hexdigit :: "int \<Rightarrow> bool" where
  "is_hexdigit c \<longleftrightarrow> 0x30 \<le> c \<and> c \<le> 0x39 \<or> 0x61 \<le> c \<and> c \<le> 0x66 \<or> 0x41 \<le> c \<and> c \<le> 0x46"

subsection \<open>States\<close>

definition stateEndTop :: "scanner \<Rightarrow> int \<Rightarrow> scanned" where
  "stateEndTop s c =
     (if c \<noteq> 0x20 \<and> c \<noteq> 0x09 \<and> c \<noteq> 0x0d \<and> c \<noteq> 0x0a
      then bindE (sc_error s c ''after top-level value'') (\<lambda>(s, v). Inr (s, scanEnd))
      else Inr (s, scanEnd))"

definition stateEndValue :: "scanner \<Rightarrow> int \<Rightarrow> scanned" where
  "stateEndValue s c =
     (let n = length (parseState s) in
      if n = 0 then stateEndTop (s\<lparr>sc_step := EndTop, endTop := True\<rparr>) c
      else if c \<le> 0x20 \<and> isSpace c then goto_with s EndValue scanSkipSpace
      else (case parseState s ! (n - 1) of
        parseObjectKey \<Rightarrow>
          if c = 0x3a then bindE (set_top s parseObjectValue) (\<lambda>s. goto_with s BeginValue scanObjectKey)
          else sc_error s c ''after object key''
      | parseObjectValue \<Rightarrow>
          if c = 0x2c then bindE (set_top s parseObjectKey) (\<lambda>s. goto_with s BeginString scanObjectValue)
          else if c = 0x7d then bindE (popParseState s) (\<lambda>s. Inr (s, scanEndObject))
          else sc_error s c ''after object key:value pair''
      | parseArrayValue \<Rightarrow>
          if c = 0x2c then goto_with s BeginValue scanArrayValue
          else if c = 0x5d then bindE (popParseState s) (\<lambda>s. Inr (s, scanEndArray))
          else sc_error s c ''after array element''))"

definition stateBeginValue :: "scanner \<Rightarrow> int \<Rightarrow> scanned" where
  "stateBeginValue s c =
     (if c \<le> 0x20 \<and> isSpace c then Inr (s, scanSkipSpace)
      else if c = 0x7b then
        Inr (pushParseState (s\<lparr>sc_step := BeginStringOrEmpty\<rparr>) parseObjectKey, scanBeginObject)
      else if c = 0x5b then
        Inr (pushParseState (s\<lparr>sc_step := BeginValueOrEmpty\<rparr>) parseArrayValue, scanBeginArray)
      else if c = 0x22 then goto_with s InString scanBeginLiteral
      else if c = 0x2d then goto_with s Neg scanBeginLiteral
      else if c = 0x30 then goto_with s State0 scanBeginLiteral
      else if c = 0x74 then goto_with s StT scanBeginLiteral
      else if c = 0x66 then goto_with s StF scanBeginLiteral
      else if c = 0x6e then goto_with s StN scanBeginLiteral
      else if 0x31 \<le> c \<and> c \<le> 0x39 then goto_with s State1 scanBeginLiteral
      else sc_error s c ''looking for beginning of value'')"

definition stateBeginValueOrEmpty :: "scanner \<Rightarrow> int \<Rightarrow> scanned" where
  "stateBeginValueOrEmpty s c =
     (if c \<le> 0x20 \<and> isSpace c then Inr (s, scanSkipSpace)
      else if c = 0x5d then stateEndValue s c
      else stateBeginValue s c)"

definition stateBeginString :: "scanner \<Rightarrow> int \<Rightarrow> scanned" where
  "stateBeginString s c =
     (if c \<le> 0x20 \<and> isSpace c then Inr (s, scanSkipSpace)
      else if c = 0x22 then goto_with s InString scanBeginLiteral
      else sc_error s c ''looking for beginning of object key string'')"

definition stateBeginStringOrEmpty :: "scanner \<Rightarrow> int \<Rightarrow> scanned" where
  "stateBeginStringOrEmpty s c =
     (if c \<le> 0x20 \<and> isSpace c then Inr (s, scanSkipSpace)
      else if c = 0x7d then bindE (set_top s parseObjectValue) (\<lambda>s. stateEndValue s c)
      else stateBeginString s c)"

definition stateInString :: "scanner \<Rightarrow> int \<Rightarrow> scanned" where
  "stateInString s c =
     (if c = 0x22 then goto_with s EndValue scanContinue
      else if c = 0x5c then goto_with s InStringEsc scanContinue
      else if c < 0x20 then sc_error s c ''in string literal''
      else Inr (s, scanContinue))"

definition stateInStringEsc :: "scanner \<Rightarrow> int \<Rightarrow> scanned" where
  "stateInStringEsc s c =
     (if c \<in> {0x62, 0x66, 0x6e, 0x72, 0x74, 0x5c, 0x2f, 0x22} then goto_with s InString scanContinue
      else if c = 0x75 then goto_with s InStringEscU scanContinue
      else sc_error s c ''in string escape code'')"

definition hex_context :: string where
  "hex_context = ''in '' @ [CHR 0x5c] @ ''u hexadecimal character escape''"

definition stateInStringEscU :: "scanner \<Rightarrow> int \<Rightarrow> scanned" where
  "stateInStringEscU s c =
     (if is_hexdigit c then goto_with s InStringEscU1 scanContinue
      else sc_error s c hex_context)"

definition stateInStringEscU1 :: "scanner \<Rightarrow> int \<Rightarrow> scanned" where
  "stateInStringEscU1 s c =
     (if is_hexdigit c then goto_with s InStringEscU12 scanContinue
      else sc_error s c hex_context)"

definition stateInStringEscU12 :: "scanner \<Rightarrow> int \<Rightarrow> scanned" where
  "stateInStringEscU12 s c =
     (if is_hexdigit c then goto_with s InStringEscU123 scanContinue
      else sc_error s c hex_context)"

definition stateInStringEscU123 :: "scanner \<Rightarrow> int \<Rightarrow> scanned" where
  "stateInStringEscU123 s c =
     (if is_hexdigit c then goto_with s InString scanContinue
      else sc_error s c hex_context)"

definition stateNeg :: "scanner \<Rightarrow> int \<Rightarrow> scanned" where
  "stateNeg s c =
     (if c = 0x30 then goto_with s State0 scanContinue
      else if 0x31 \<le> c \<and> c \<le> 0x39 then goto_with s State1 scanContinue
      else sc_error s c ''in numeric literal'')"

definition state0 :: "scanner \<Rightarrow> int \<Rightarrow> scanned" where
  "state0 s c =
     (if c = 0x2e then goto_with s Dot scanContinue
      else if c = 0x65 \<or> c = 0x45 then goto_with s StE scanContinue
      else stateEndValue s c)"

definition state1 :: "scanner \<Rightarrow> int \<Rightarrow> scanned" where
  "state1 s c =
     (if is_digit c then goto_with s State1 scanContinue
      else state0 s c)"

definition stateDot :: "scanner \<Rightarrow> int \<Rightarrow> scanned" where
  "stateDot s c =
     (if is_digit c then goto_with s Dot0 scanContinue
      else sc_error s c ''after decimal point in numeric literal'')"

definition stateDot0 :: "scanner \<Rightarrow> int \<Rightarrow> scanned" where
  "stateDot0 s c =
     (if is_digit c then goto_with s Dot0 scanContinue
      else if c = 0x65 \<or> c = 0x45 then goto_with s StE scanContinue
      else stateEndValue s c)"

definition stateESign :: "scanner \<Rightarrow> int \<Rightarrow> scanned" where
  "stateESign s c =
     (if is_digit c then goto_with s E0 scanContinue
      else sc_error s c ''in exponent of numeric literal'')"

definition stateE :: "scanner \<Rightarrow> int \<Rightarrow> scanned" where
  "stateE s c =
     (if c = 0x2b then goto_with s ESign scanContinue
      else if c = 0x2d then goto_with s ESign scanContinue
      else stateESign s c)"

definition stateE0 :: "scanner \<Rightarrow> int \<Rightarrow> scanned" where
  "stateE0 s c =
     (if is_digit c then goto_with s E0 scanContinue
      else stateEndValue s c)"

definition stateT :: "scanner \<Rightarrow> int \<Rightarrow> scanned" where
  "stateT s c =
     (if c = 0x72 then goto_with s Tr scanContinue
      else sc_error s c (''in literal true (expecting '' @ [CHR 0x27, CHR 0x72, CHR 0x27] @ '')''))"

definition stateTr :: "scanner \<Rightarrow> int \<Rightarrow> scanned" where
  "stateTr s c =
     (if c = 0x75 then goto_with s Tru scanContinue
      else sc_error s c (''in literal true (expecting '' @ [CHR 0x27, CHR 0x75, CHR 0x27] @ '')''))"

definition stateTru :: "scanner \<Rightarrow> int \<Rightarrow> scanned" where
  "stateTru s c =
     (if c = 0x65 then goto_with s EndValue scanContinue
      else sc_error s c (''in literal true (expecting '' @ [CHR 0x27, CHR 0x65, CHR 0x27] @ '')''))"

definition stateF :: "scanner \<Rightarrow> int \<Rightarrow> scanned" where
  "stateF s c =
     (if c = 0x61 then goto_with s Fa scanContinue
      else sc_error s c (''in literal false (expecting '' @ [CHR 0x27, CHR 0x61, CHR 0x27] @ '')''))"

definition stateFa :: "scanner \<Rightarrow> int \<Rightarrow> scanned" where
  "stateFa s c =
     (if c = 0x6c then goto_with s Fal scanContinue
      else sc_error s c (''in literal false (expecting '' @ [CHR 0x27, CHR 0x6c, CHR 0x27] @ '')''))"

definition stateFal :: "scanner \<Rightarrow> int \<Rightarrow> scanned" where
  "stateFal s c =
     (if c = 0x73 then goto_with s Fals scanContinue
      else sc_error s c (''in literal false (expecting '' @ [CHR 0x27, CHR 0x73, CHR 0x27] @ '')''))"

definition stateFals :: "scanner \<Rightarrow> int \<Rightarrow> scanned" where
  "stateFals s c =
     (if c = 0x65 then goto_with s EndValue scanContinue
      else sc_error s c (''in literal false (expecting '' @ [CHR 0x27, CHR 0x65, CHR 0x27] @ '')''))"

definition stateN :: "scanner \<Rightarrow> int \<Rightarrow> scanned" where
  "stateN s c =
     (if c = 0x75 then goto_with s Nu scanContinue
      else sc_error s c (''in literal null (expecting '' @ [CHR 0x27, CHR 0x75, CHR 0x27] @ '')''))"

definition stateNu :: "scanner \<Rightarrow> int \<Rightarrow> scanned" where
  "stateNu s c =
     (if c = 0x6c then goto_with s Nul scanContinue
      else sc_error s c (''in literal null (expecting '' @ [CHR 0x27, CHR 0x6c, CHR 0x27] @ '')''))"

definition stateNul :: "scanner \<Rightarrow> int \<Rightarrow> scanned" where
  "stateNul s c =
     (if c = 0x6c then goto_with s EndValue scanContinue
      else sc_error s c (''in literal null (expecting '' @ [CHR 0x27, CHR 0x6c, CHR 0x27] @ '')''))"

definition stateError :: "scanner \<Rightarrow> int \<Rightarrow> scanned" where
  "stateError s c = Inr (s, scanError)"

text \<open>One byte of undo: the next step returns the recorded code and restores the state.\<close>

definition undo :: "scanner \<Rightarrow> opcode \<Rightarrow> panic + scanner" where
  "undo s scanCode =
     (if redo s then Inl (PanicMsg ''json: invalid use of scanner'')
      else Inr (s\<lparr>redoCode := scanCode, redoState := sc_step s, sc_step := Redo, redo := True\<rparr>))"

definition stateRedo :: "scanner \<Rightarrow> int \<Rightarrow> scanned" where
  "stateRedo s c = Inr (s\<lparr>redo := False, sc_step := redoState s\<rparr>, redoCode s)"

text \<open>\<open>s.step(s, c)\<close>: the call through the function value.\<close>

fun call :: "sfun \<Rightarrow> scanner \<Rightarrow> int \<Rightarrow> scanned" where
  "call BeginValueOrEmpty = stateBeginValueOrEmpty"
| "call BeginValue = stateBeginValue"
| "call BeginStringOrEmpty = stateBeginStringOrEmpty"
| "call BeginString = stateBeginString"
| "call EndValue = stateEndValue"
| "call EndTop = stateEndTop"
| "call InString = stateInString"
| "call InStringEsc = stateInStringEsc"
| "call InStringEscU = stateInStringEscU"
| "call InStringEscU1 = stateInStringEscU1"
| "call InStringEscU12 = stateInStringEscU12"
| "call InStringEscU123 = stateInStringEscU123"
| "call Neg = stateNeg"
| "call State1 = state1"
| "call State0 = state0"
| "call Dot = stateDot"
| "call Dot0 = stateDot0"
| "call StE = stateE"
| "call ESign = stateESign"
| "call E0 = stateE0"
| "call StT = stateT"
| "call Tr = stateTr"
| "call Tru = stateTru"
| "call StF = stateF"
| "call Fa = stateFa"
| "call Fal = stateFal"
| "call Fals = stateFals"
| "call StN = stateN"
| "call Nu = stateNu"
| "call Nul = stateNul"
| "call StError = stateError"
| "call Redo = stateRedo"

definition step :: "scanner \<Rightarrow> int \<Rightarrow> scanned" where
  "step s c = call (sc_step s) s c"

definition eof :: "scanner \<Rightarrow> scanned" where
  "eof s =
     (if sc_err s \<noteq> None then Inr (s, scanError)
      else if endTop s then Inr (s, scanEnd)
      else bindE (step s 0x20) (\<lambda>(s, _).
        if endTop s then Inr (s, scanEnd)
        else Inr (if sc_err s = None then s\<lparr>sc_err := Some \<lparr>se_msg = UnexpectedEnd, se_Offset = sc_bytes s\<rparr>\<rparr> else s,
          scanError)))"

section \<open>Checking and splitting\<close>

fun checkValid_loop :: "byte list \<Rightarrow> scanner \<Rightarrow> panic + SyntaxError option" where
  "checkValid_loop [] s = bindE (eof s) (\<lambda>(s, v). Inr (if v = scanError then sc_err s else None))"
| "checkValid_loop (c # data) s =
     bindE (step (s\<lparr>sc_bytes := sc_bytes s + 1\<rparr>) (uint c)) (\<lambda>(s, v).
       if v = scanError then Inr (sc_err s) else checkValid_loop data s)"

definition checkValid :: "byte list \<Rightarrow> scanner \<Rightarrow> panic + SyntaxError option" where
  "checkValid data scan = checkValid_loop data (reset scan)"

text \<open>The result is the value with the rest, or an error; \<open>i\<close> is the position of the next byte.\<close>

fun nextValue_loop :: "byte list \<Rightarrow> nat \<Rightarrow> byte list \<Rightarrow> scanner \<Rightarrow> panic + SyntaxError option + byte list \<times> byte list" where
  "nextValue_loop data i [] s =
     bindE (eof s) (\<lambda>(s, v). Inr (if v = scanError then Inl (sc_err s) else Inr (data, [])))"
| "nextValue_loop data i (c # cs) s =
     bindE (step s (uint c)) (\<lambda>(s, v).
       if v = scanError then Inr (Inl (sc_err s))
       else if v = scanEnd then Inr (Inr (take i data, drop i data))
       else nextValue_loop data (i + 1) cs s)"

definition nextValue :: "byte list \<Rightarrow> scanner \<Rightarrow> panic + SyntaxError option + byte list \<times> byte list" where
  "nextValue data scan = nextValue_loop data 0 data (reset scan)"

section \<open>The grammar\<close>

text \<open>Languages are sets of lists of characters. \<open>lit x A\<close>: the character \<open>x\<close> before a word of \<open>A\<close>.\<close>

type_synonym lang = "int list set"

definition lit :: "int \<Rightarrow> lang \<Rightarrow> lang" where
  "lit x A = {x # w | w. w \<in> A}"

definition cat :: "lang \<Rightarrow> lang \<Rightarrow> lang" where
  "cat A B = {u @ v | u v. u \<in> A \<and> v \<in> B}"

abbreviation eps :: lang where "eps \<equiv> {[]}"

definition spaces :: lang where
  "spaces = {w. \<forall>c\<in>set w. isSpace c}"

definition digs :: lang where
  "digs = {w. \<forall>c\<in>set w. is_digit c}"

definition digs1 :: lang where
  "digs1 = {d # w | d w. is_digit d \<and> w \<in> digs}"

definition frac_part :: lang where
  "frac_part = eps \<union> lit 0x2e digs1"

definition signed_digs :: lang where
  "signed_digs = digs1 \<union> lit 0x2b digs1 \<union> lit 0x2d digs1"

definition exp_part :: lang where
  "exp_part = eps \<union> lit 0x65 signed_digs \<union> lit 0x45 signed_digs"

definition int_part :: lang where
  "int_part = {[0x30]} \<union> {d # w | d w. 0x31 \<le> d \<and> d \<le> 0x39 \<and> w \<in> digs}"

definition jnumber :: lang where
  "jnumber = cat (eps \<union> {[0x2d]}) (cat int_part (cat frac_part exp_part))"

definition is_escape :: "int \<Rightarrow> bool" where
  "is_escape c \<longleftrightarrow> c \<in> {0x62, 0x66, 0x6e, 0x72, 0x74, 0x5c, 0x2f, 0x22}"

text \<open>The rest of a string after its opening quote.\<close>

inductive_set str_rest :: lang where
  close: "[0x22] \<in> str_rest"
| plain: "0x20 \<le> c \<Longrightarrow> c \<noteq> 0x22 \<Longrightarrow> c \<noteq> 0x5c \<Longrightarrow> w \<in> str_rest \<Longrightarrow> c # w \<in> str_rest"
| escaped: "is_escape c \<Longrightarrow> w \<in> str_rest \<Longrightarrow> 0x5c # c # w \<in> str_rest"
| unicode: "is_hexdigit a \<Longrightarrow> is_hexdigit b \<Longrightarrow> is_hexdigit c \<Longrightarrow> is_hexdigit d \<Longrightarrow> w \<in> str_rest \<Longrightarrow>
    0x5c # 0x75 # a # b # c # d # w \<in> str_rest"

abbreviation jstring :: lang where "jstring \<equiv> lit 0x22 str_rest"

text \<open>Values, the members of an object and the elements of an array.\<close>

inductive_set jvalue :: lang and members :: lang and elements :: lang where
  v_string: "w \<in> jstring \<Longrightarrow> w \<in> jvalue"
| v_number: "w \<in> jnumber \<Longrightarrow> w \<in> jvalue"
| v_true: "[0x74, 0x72, 0x75, 0x65] \<in> jvalue"
| v_false: "[0x66, 0x61, 0x6c, 0x73, 0x65] \<in> jvalue"
| v_null: "[0x6e, 0x75, 0x6c, 0x6c] \<in> jvalue"
| v_empty_object: "s \<in> spaces \<Longrightarrow> 0x7b # s @ [0x7d] \<in> jvalue"
| v_object: "m \<in> members \<Longrightarrow> 0x7b # m @ [0x7d] \<in> jvalue"
| v_empty_array: "s \<in> spaces \<Longrightarrow> 0x5b # s @ [0x5d] \<in> jvalue"
| v_array: "e \<in> elements \<Longrightarrow> 0x5b # e @ [0x5d] \<in> jvalue"
| m_one: "s1 \<in> spaces \<Longrightarrow> k \<in> jstring \<Longrightarrow> s2 \<in> spaces \<Longrightarrow> s3 \<in> spaces \<Longrightarrow> v \<in> jvalue \<Longrightarrow> s4 \<in> spaces \<Longrightarrow>
    s1 @ k @ s2 @ 0x3a # s3 @ v @ s4 \<in> members"
| m_more: "s1 \<in> spaces \<Longrightarrow> k \<in> jstring \<Longrightarrow> s2 \<in> spaces \<Longrightarrow> s3 \<in> spaces \<Longrightarrow> v \<in> jvalue \<Longrightarrow> s4 \<in> spaces \<Longrightarrow>
    m \<in> members \<Longrightarrow> s1 @ k @ s2 @ 0x3a # s3 @ v @ s4 @ 0x2c # m \<in> members"
| e_one: "s1 \<in> spaces \<Longrightarrow> v \<in> jvalue \<Longrightarrow> s2 \<in> spaces \<Longrightarrow> s1 @ v @ s2 \<in> elements"
| e_more: "s1 \<in> spaces \<Longrightarrow> v \<in> jvalue \<Longrightarrow> s2 \<in> spaces \<Longrightarrow> e \<in> elements \<Longrightarrow> s1 @ v @ s2 @ 0x2c # e \<in> elements"

text \<open>A JSON text: a value between white space.\<close>

definition json_text :: "byte list \<Rightarrow> bool" where
  "json_text data \<longleftrightarrow> map uint data \<in> cat spaces (cat jvalue spaces)"

subsection \<open>First characters\<close>

named_theorems heads \<open>the words of a language that begin with a given character\<close>

lemma cat_assoc: "cat (cat A B) C = cat A (cat B C)"
  unfolding cat_def by auto (metis append.assoc)+

lemma cat_Un: "cat (A \<union> B) C = cat A C \<union> cat B C" "cat A (B \<union> C) = cat A B \<union> cat A C"
  by (auto simp: cat_def)

lemma cat_eps [simp]: "cat eps A = A" "cat A eps = A"
  by (auto simp: cat_def)

lemma cat_lit [simp]: "cat (lit x A) B = lit x (cat A B)"
proof (intro set_eqI iffI)
  fix w assume "w \<in> lit x (cat A B)"
  then obtain u v where "w = (x # u) @ v" "u \<in> A" "v \<in> B" by (auto simp: cat_def lit_def)
  then show "w \<in> cat (lit x A) B" unfolding cat_def lit_def by blast
next
  fix w assume "w \<in> cat (lit x A) B"
  then obtain u v where w: "w = x # u @ v" and uv: "u \<in> A" "v \<in> B" by (auto simp: cat_def lit_def)
  have "u @ v \<in> cat A B" using uv unfolding cat_def by blast
  then show "w \<in> lit x (cat A B)" unfolding w lit_def by blast
qed

lemma lit_Un: "lit x (A \<union> B) = lit x A \<union> lit x B"
  by (auto simp: lit_def)

lemma Nil_cat [simp]: "[] \<in> cat A B \<longleftrightarrow> [] \<in> A \<and> [] \<in> B"
  by (auto simp: cat_def)

lemma lit_heads [simp, heads]: "c # w \<in> lit x A \<longleftrightarrow> c = x \<and> w \<in> A" "[] \<notin> lit x A"
  by (auto simp: lit_def)

lemma cat_heads: "c # w \<in> cat A B \<longleftrightarrow> (\<exists>u. c # u \<in> A \<and> w \<in> cat {u} B) \<or> [] \<in> A \<and> c # w \<in> B"
  by (auto simp: cat_def Cons_eq_append_conv)

lemma catI: "u \<in> A \<Longrightarrow> v \<in> B \<Longrightarrow> u @ v \<in> cat A B"
  by (auto simp: cat_def)

lemma catE: "w \<in> cat A B \<Longrightarrow> (\<And>u v. w = u @ v \<Longrightarrow> u \<in> A \<Longrightarrow> v \<in> B \<Longrightarrow> P) \<Longrightarrow> P"
  by (auto simp: cat_def)

lemma spaces_Nil [simp]: "[] \<in> spaces" "[] \<in> digs"
  by (simp_all add: spaces_def digs_def)

lemma star_heads:
  assumes "L = {w. \<forall>c\<in>set w. P c}"
  shows "c # w \<in> cat L A \<longleftrightarrow> P c \<and> w \<in> cat L A \<or> c # w \<in> A"
  unfolding cat_heads assms by (auto simp: cat_def)

lemma spaces_heads [heads]: "c # w \<in> cat spaces A \<longleftrightarrow> isSpace c \<and> w \<in> cat spaces A \<or> c # w \<in> A"
  by (rule star_heads [OF spaces_def])

lemma digs_heads [heads]: "c # w \<in> cat digs A \<longleftrightarrow> is_digit c \<and> w \<in> cat digs A \<or> c # w \<in> A"
  by (rule star_heads [OF digs_def])

lemma cat_quotient:
  assumes "\<And>u. c # u \<in> A \<longleftrightarrow> P \<and> u \<in> A'" "[] \<notin> A"
  shows "c # w \<in> cat A B \<longleftrightarrow> P \<and> w \<in> cat A' B"
  unfolding cat_heads assms(1) using assms(2) by (auto simp: cat_def)

lemma Nil_digs1 [simp]: "[] \<notin> digs1" by (simp add: digs1_def)

lemma digs1_heads [heads]: "c # w \<in> cat digs1 A \<longleftrightarrow> is_digit c \<and> w \<in> cat digs A"
  by (rule cat_quotient) (auto simp: digs1_def)

lemma frac_heads [heads]: "c # w \<in> cat frac_part A \<longleftrightarrow> c = 0x2e \<and> w \<in> cat digs1 A \<or> c # w \<in> A"
  unfolding frac_part_def cat_Un by (simp only: cat_eps) auto

lemma exp_heads [heads]:
  "c # w \<in> cat exp_part A \<longleftrightarrow> (c = 0x65 \<or> c = 0x45) \<and> w \<in> cat signed_digs A \<or> c # w \<in> A"
  unfolding exp_part_def cat_Un by (simp only: cat_eps) auto

lemma signed_digs_heads [heads]:
  "c # w \<in> cat signed_digs A \<longleftrightarrow> (c = 0x2b \<or> c = 0x2d) \<and> w \<in> cat digs1 A \<or> c # w \<in> cat digs1 A"
  by (auto simp: signed_digs_def cat_Un)

lemma Nil_parts [simp]: "[] \<in> frac_part" "[] \<in> exp_part" "[] \<notin> signed_digs" "[] \<notin> int_part"
  by (simp_all add: frac_part_def exp_part_def signed_digs_def int_part_def)

lemma int_heads [heads]:
  "c # w \<in> cat int_part A \<longleftrightarrow> c = 0x30 \<and> w \<in> A \<or> 0x31 \<le> c \<and> c \<le> 0x39 \<and> w \<in> cat digs A"
proof -
  have "c # w \<in> cat {d # w | d w. 0x31 \<le> d \<and> d \<le> 0x39 \<and> w \<in> digs} A \<longleftrightarrow>
      (0x31 \<le> c \<and> c \<le> 0x39) \<and> w \<in> cat digs A"
    by (rule cat_quotient) auto
  moreover have "cat {[0x30]} A = lit 0x30 A" by (auto simp: cat_def lit_def)
  ultimately show ?thesis unfolding int_part_def cat_Un by auto
qed

lemma str_rest_Nil [simp]: "[] \<notin> str_rest"
  by (auto elim: str_rest.cases)

text \<open>The languages of the states inside a string.\<close>

primrec hexes :: "nat \<Rightarrow> lang" where
  "hexes 0 = str_rest"
| "hexes (Suc n) = {c # w | c w. is_hexdigit c \<and> w \<in> hexes n}"

definition esc_rest :: lang where
  "esc_rest = {c # w | c w. is_escape c \<and> w \<in> str_rest} \<union> lit 0x75 (hexes 4)"

lemma esc_rest_iff: "0x5c # w \<in> str_rest \<longleftrightarrow> w \<in> esc_rest"
proof
  assume "0x5c # w \<in> str_rest"
  then show "w \<in> esc_rest"
    by (cases rule: str_rest.cases) (auto simp: esc_rest_def numeral_eq_Suc)
next
  assume "w \<in> esc_rest"
  then show "0x5c # w \<in> str_rest"
    by (auto simp: esc_rest_def numeral_eq_Suc lit_def intro: str_rest.intros)
qed

lemma str_heads [heads]:
  "c # w \<in> cat str_rest A \<longleftrightarrow> c = 0x22 \<and> w \<in> A \<or> c = 0x5c \<and> w \<in> cat esc_rest A \<or>
     0x20 \<le> c \<and> c \<noteq> 0x22 \<and> c \<noteq> 0x5c \<and> w \<in> cat str_rest A"
proof -
  consider "c = 0x22" | "c = 0x5c" | "c \<noteq> 0x22" "c \<noteq> 0x5c" by blast
  then show ?thesis
  proof cases
    case 1
    have "c # u \<in> str_rest \<longleftrightarrow> True \<and> u \<in> eps" for u
      using 1 by (auto intro: str_rest.intros elim: str_rest.cases)
    from cat_quotient [OF this str_rest_Nil] show ?thesis using 1 by simp
  next
    case 2
    have "c # u \<in> str_rest \<longleftrightarrow> True \<and> u \<in> esc_rest" for u unfolding 2 esc_rest_iff by simp
    from cat_quotient [OF this str_rest_Nil] show ?thesis using 2 by simp
  next
    case 3
    have "c # u \<in> str_rest \<longleftrightarrow> 0x20 \<le> c \<and> u \<in> str_rest" for u
      using 3 by (auto intro: str_rest.intros elim: str_rest.cases)
    from cat_quotient [OF this str_rest_Nil] show ?thesis using 3 by simp
  qed
qed

lemma hexes_heads [heads]: "c # w \<in> cat (hexes (Suc n)) A \<longleftrightarrow> is_hexdigit c \<and> w \<in> cat (hexes n) A"
  by (rule cat_quotient) auto

lemma Nil_hexes [simp]: "[] \<notin> hexes n"
  by (cases n) auto

lemma esc_heads [heads]:
  "c # w \<in> cat esc_rest A \<longleftrightarrow> is_escape c \<and> w \<in> cat str_rest A \<or> c = 0x75 \<and> w \<in> cat (hexes 4) A"
proof -
  have "c # w \<in> cat {c # w | c w. is_escape c \<and> w \<in> str_rest} A \<longleftrightarrow> is_escape c \<and> w \<in> cat str_rest A"
    by (rule cat_quotient) auto
  then show ?thesis unfolding esc_rest_def cat_Un by auto
qed

lemma Nil_esc_rest [simp]: "[] \<notin> esc_rest"
  by (auto simp: esc_rest_def)

text \<open>Values, members and elements, unfolded once.\<close>

lemma jvalue_eq:
  "jvalue = jstring \<union> jnumber \<union> lit 0x74 (lit 0x72 (lit 0x75 (lit 0x65 eps))) \<union>
     lit 0x66 (lit 0x61 (lit 0x6c (lit 0x73 (lit 0x65 eps)))) \<union> lit 0x6e (lit 0x75 (lit 0x6c (lit 0x6c eps))) \<union>
     lit 0x7b (cat spaces (lit 0x7d eps)) \<union> lit 0x7b (cat members (lit 0x7d eps)) \<union>
     lit 0x5b (cat spaces (lit 0x5d eps)) \<union> lit 0x5b (cat elements (lit 0x5d eps))"
  (is "_ = ?R")
proof (intro set_eqI iffI)
  fix w assume "w \<in> jvalue"
  then show "w \<in> ?R" by (cases rule: jvalue.cases) (auto intro: catI)
next
  fix w assume "w \<in> ?R"
  then show "w \<in> jvalue"
    by (elim UnE) (auto simp: lit_def cat_def intro: jvalue_members_elements.intros)
qed

lemma elements_eq: "elements = cat spaces (cat jvalue (cat spaces (eps \<union> lit 0x2c elements)))" (is "_ = ?R")
proof (intro set_eqI iffI)
  fix w assume "w \<in> elements"
  then show "w \<in> ?R"
  proof (cases rule: elements.cases)
    case (e_one s1 v s2)
    have "s1 @ v @ s2 @ [] \<in> ?R" by (intro catI e_one) simp
    then show ?thesis using e_one by simp
  next
    case (e_more s1 v s2 e)
    have "s1 @ v @ s2 @ 0x2c # e \<in> ?R" by (intro catI e_more) (simp add: e_more lit_def)
    then show ?thesis using e_more by simp
  qed
next
  fix w assume "w \<in> ?R"
  then obtain s1 v s2 t where "w = s1 @ v @ s2 @ t" "s1 \<in> spaces" "v \<in> jvalue" "s2 \<in> spaces"
    "t \<in> eps \<union> lit 0x2c elements"
    by (elim catE) auto
  then show "w \<in> elements"
    by (auto simp: lit_def intro: jvalue_members_elements.intros)
qed

lemma members_eq:
  "members = cat spaces (cat jstring (cat spaces (lit 0x3a (cat spaces (cat jvalue (cat spaces (eps \<union> lit 0x2c members)))))))"
  (is "_ = ?R")
proof (intro set_eqI iffI)
  fix w assume "w \<in> members"
  then show "w \<in> ?R"
  proof (cases rule: members.cases)
    case (m_one s1 k s2 s3 v s4)
    have "s3 @ v @ s4 @ [] \<in> cat spaces (cat jvalue (cat spaces (eps \<union> lit 0x2c members)))" by (intro catI m_one) simp
    then have "s1 @ k @ s2 @ 0x3a # (s3 @ v @ s4 @ []) \<in> ?R" by (intro catI m_one) (simp add: lit_def)
    then show ?thesis using m_one by simp
  next
    case (m_more s1 k s2 s3 v s4 m)
    have "s3 @ v @ s4 @ 0x2c # m \<in> cat spaces (cat jvalue (cat spaces (eps \<union> lit 0x2c members)))"
      by (intro catI m_more) (simp add: m_more lit_def)
    then have "s1 @ k @ s2 @ 0x3a # (s3 @ v @ s4 @ 0x2c # m) \<in> ?R" by (intro catI m_more) (simp add: lit_def)
    then show ?thesis using m_more by simp
  qed
next
  fix w assume "w \<in> ?R"
  then obtain s1 k s2 z where z: "w = s1 @ k @ s2 @ z" "s1 \<in> spaces" "k \<in> jstring" "s2 \<in> spaces"
      "z \<in> lit 0x3a (cat spaces (cat jvalue (cat spaces (eps \<union> lit 0x2c members))))"
    by (elim catE) blast
  then obtain y where y: "y \<in> cat spaces (cat jvalue (cat spaces (eps \<union> lit 0x2c members)))" and "z = 0x3a # y"
    by (auto simp: lit_def)
  with z have w: "w = s1 @ k @ s2 @ 0x3a # y" "s1 \<in> spaces" "k \<in> jstring" "s2 \<in> spaces" by simp_all
  from y obtain s3 v s4 t where "y = s3 @ v @ s4 @ t" "s3 \<in> spaces" "v \<in> jvalue" "s4 \<in> spaces"
    "t \<in> eps \<union> lit 0x2c members"
    by (elim catE) auto
  then show "w \<in> members"
    using w by (auto simp: lit_def intro: jvalue_members_elements.intros)
qed

lemma jnumber_eq: "cat jnumber A = lit 0x2d (cat int_part (cat frac_part (cat exp_part A))) \<union>
    cat int_part (cat frac_part (cat exp_part A))"
proof -
  have "{[0x2d]} = lit 0x2d eps" by (auto simp: lit_def)
  then show ?thesis unfolding jnumber_def cat_assoc cat_Un by auto
qed

text \<open>The languages after an opening brace and bracket.\<close>

definition object_rest :: lang where
  "object_rest = cat spaces (lit 0x7d eps) \<union> cat members (lit 0x7d eps)"

definition array_rest :: lang where
  "array_rest = cat spaces (lit 0x5d eps) \<union> cat elements (lit 0x5d eps)"

lemma value_heads [heads]:
  "c # w \<in> cat jvalue A \<longleftrightarrow>
     c = 0x22 \<and> w \<in> cat str_rest A \<or> c = 0x2d \<and> w \<in> cat int_part (cat frac_part (cat exp_part A)) \<or>
     c = 0x30 \<and> w \<in> cat frac_part (cat exp_part A) \<or>
     0x31 \<le> c \<and> c \<le> 0x39 \<and> w \<in> cat digs (cat frac_part (cat exp_part A)) \<or>
     c = 0x74 \<and> w \<in> lit 0x72 (lit 0x75 (lit 0x65 A)) \<or> c = 0x66 \<and> w \<in> lit 0x61 (lit 0x6c (lit 0x73 (lit 0x65 A))) \<or>
     c = 0x6e \<and> w \<in> lit 0x75 (lit 0x6c (lit 0x6c A)) \<or> c = 0x7b \<and> w \<in> cat object_rest A \<or>
     c = 0x5b \<and> w \<in> cat array_rest A"
  unfolding jvalue_eq cat_Un cat_lit cat_eps jnumber_eq Un_iff lit_heads int_heads object_rest_def array_rest_def by auto

lemma Nil_jvalue [simp]: "[] \<notin> jvalue" "[] \<notin> members" "[] \<notin> elements"
proof -
  show v: "[] \<notin> jvalue" unfolding jvalue_eq by (auto simp: jnumber_def)
  show "[] \<notin> members" "[] \<notin> elements" by (subst members_eq, simp) (subst elements_eq, simp add: v)
qed


section \<open>The language of a scanner\<close>

text \<open>\<open>kont st\<close>: what may follow a complete value inside the composites of the stack \<open>st\<close>, innermost first.\<close>

primrec kont :: "pstate list \<Rightarrow> lang" where
  "kont [] = spaces"
| "kont (p # st) = (case p of
      parseArrayValue \<Rightarrow> cat spaces (lit 0x2c (cat elements (lit 0x5d (kont st))) \<union> lit 0x5d (kont st))
    | parseObjectValue \<Rightarrow> cat spaces (lit 0x2c (cat members (lit 0x7d (kont st))) \<union> lit 0x7d (kont st))
    | parseObjectKey \<Rightarrow> cat spaces (lit 0x3a (cat spaces (cat jvalue
        (cat spaces (lit 0x2c (cat members (lit 0x7d (kont st))) \<union> lit 0x7d (kont st)))))))"

fun state_lang :: "sfun \<Rightarrow> pstate list \<Rightarrow> lang" where
  "state_lang EndTop st = kont st"
| "state_lang EndValue st = kont st"
| "state_lang BeginValue st = cat spaces (cat jvalue (kont st))"
| "state_lang BeginValueOrEmpty st = cat spaces (lit 0x5d (kont (tl st))) \<union> cat spaces (cat jvalue (kont st))"
| "state_lang BeginString st = cat spaces (cat jstring (kont st))"
| "state_lang BeginStringOrEmpty st = cat spaces (lit 0x7d (kont (tl st))) \<union> cat spaces (cat jstring (kont st))"
| "state_lang InString st = cat str_rest (kont st)"
| "state_lang InStringEsc st = cat esc_rest (kont st)"
| "state_lang InStringEscU st = cat (hexes 4) (kont st)"
| "state_lang InStringEscU1 st = cat (hexes 3) (kont st)"
| "state_lang InStringEscU12 st = cat (hexes 2) (kont st)"
| "state_lang InStringEscU123 st = cat (hexes 1) (kont st)"
| "state_lang Neg st = cat int_part (cat frac_part (cat exp_part (kont st)))"
| "state_lang State1 st = cat digs (cat frac_part (cat exp_part (kont st)))"
| "state_lang State0 st = cat frac_part (cat exp_part (kont st))"
| "state_lang Dot st = cat digs1 (cat exp_part (kont st))"
| "state_lang Dot0 st = cat digs (cat exp_part (kont st))"
| "state_lang StE st = cat signed_digs (kont st)"
| "state_lang ESign st = cat digs1 (kont st)"
| "state_lang E0 st = cat digs (kont st)"
| "state_lang StT st = lit 0x72 (lit 0x75 (lit 0x65 (kont st)))"
| "state_lang Tr st = lit 0x75 (lit 0x65 (kont st))"
| "state_lang Tru st = lit 0x65 (kont st)"
| "state_lang StF st = lit 0x61 (lit 0x6c (lit 0x73 (lit 0x65 (kont st))))"
| "state_lang Fa st = lit 0x6c (lit 0x73 (lit 0x65 (kont st)))"
| "state_lang Fal st = lit 0x73 (lit 0x65 (kont st))"
| "state_lang Fals st = lit 0x65 (kont st)"
| "state_lang StN st = lit 0x75 (lit 0x6c (lit 0x6c (kont st)))"
| "state_lang Nu st = lit 0x6c (lit 0x6c (kont st))"
| "state_lang Nul st = lit 0x6c (kont st)"
| "state_lang StError st = {}"
| "state_lang Redo st = {}"

definition slang :: "scanner \<Rightarrow> lang" where
  "slang s = (if sc_err s = None then state_lang (sc_step s) (rev (parseState s)) else {})"

text \<open>The invariant of the states between two calls.\<close>

definition good :: "scanner \<Rightarrow> bool" where
  "good s \<longleftrightarrow> (if sc_err s \<noteq> None then sc_step s = StError
     else (endTop s \<longleftrightarrow> sc_step s = EndTop) \<and> (sc_step s = EndTop \<longrightarrow> parseState s = []) \<and>
       (sc_step s = BeginValueOrEmpty \<longrightarrow> (\<exists>ps. parseState s = ps @ [parseArrayValue])) \<and>
       (sc_step s \<in> {BeginString, BeginStringOrEmpty} \<longrightarrow> (\<exists>ps. parseState s = ps @ [parseObjectKey])) \<and>
       sc_step s \<noteq> StError \<and> sc_step s \<noteq> Redo)"

text \<open>\<open>leads s c K r\<close>: the result \<open>r\<close> of a step on \<open>c\<close> accepts the words of \<open>K\<close> behind \<open>c\<close>; an error is
  recorded exactly when it is reported, or delayed behind the end.\<close>

definition leads :: "scanner \<Rightarrow> int \<Rightarrow> lang \<Rightarrow> scanned \<Rightarrow> bool" where
  "leads s c K r \<longleftrightarrow> (\<exists>s' v. r = Inr (s', v) \<and> good s' \<and> (\<forall>w. c # w \<in> K \<longleftrightarrow> w \<in> slang s') \<and> sc_bytes s' = sc_bytes s \<and>
     (v = scanError \<longrightarrow> sc_err s' \<noteq> None) \<and> (sc_err s' \<noteq> None \<longrightarrow> v = scanError \<or> v = scanEnd) \<and>
     (sc_err s' \<noteq> None \<longrightarrow> endTop s' \<longrightarrow> endTop s \<or> \<not> isSpace c) \<and>
     (\<forall>e. sc_err s' = Some e \<longrightarrow> (\<exists>m. e = \<lparr>se_msg = InvalidChar c m, se_Offset = sc_bytes s\<rparr>)))"

lemma elements_kont: "cat elements (lit 0x5d (kont st)) = cat spaces (cat jvalue (kont (parseArrayValue # st)))"
proof -
  have "cat elements A = cat spaces (cat jvalue (cat spaces (A \<union> lit 0x2c (cat elements A))))" for A
    by (subst (1) elements_eq) (simp only: cat_assoc cat_Un cat_eps cat_lit)
  then show ?thesis by (simp add: Un_commute)
qed

lemma members_kont: "cat members (lit 0x7d (kont st)) = cat spaces (cat jstring (kont (parseObjectKey # st)))"
proof -
  have "cat members A = cat spaces (cat jstring (cat spaces (lit 0x3a (cat spaces (cat jvalue
      (cat spaces (A \<union> lit 0x2c (cat members A))))))))" for A
    by (subst (1) members_eq) (simp only: cat_assoc cat_Un cat_eps cat_lit)
  then show ?thesis by (simp add: Un_commute)
qed

lemma kont_Arr: "kont (parseArrayValue # st) =
    cat spaces (lit 0x2c (cat spaces (cat jvalue (kont (parseArrayValue # st)))) \<union> lit 0x5d (kont st))"
  by (subst (1) kont.simps) (simp only: elements_kont pstate.case)

lemma kont_ObjV: "kont (parseObjectValue # st) =
    cat spaces (lit 0x2c (cat spaces (cat jstring (kont (parseObjectKey # st)))) \<union> lit 0x7d (kont st))"
  by (subst (1) kont.simps) (simp only: members_kont pstate.case)

lemma kont_ObjK: "kont (parseObjectKey # st) =
    cat spaces (lit 0x3a (cat spaces (cat jvalue (kont (parseObjectValue # st)))))"
  by simp

declare kont.simps(2) [simp del]

lemma kont_heads [heads]:
  "c # w \<in> kont [] \<longleftrightarrow> isSpace c \<and> w \<in> kont []"
  "c # w \<in> kont (parseArrayValue # st) \<longleftrightarrow> isSpace c \<and> w \<in> kont (parseArrayValue # st) \<or>
     c = 0x2c \<and> w \<in> cat spaces (cat jvalue (kont (parseArrayValue # st))) \<or> c = 0x5d \<and> w \<in> kont st"
  "c # w \<in> kont (parseObjectValue # st) \<longleftrightarrow> isSpace c \<and> w \<in> kont (parseObjectValue # st) \<or>
     c = 0x2c \<and> w \<in> cat spaces (cat jstring (kont (parseObjectKey # st))) \<or> c = 0x7d \<and> w \<in> kont st"
  "c # w \<in> kont (parseObjectKey # st) \<longleftrightarrow> isSpace c \<and> w \<in> kont (parseObjectKey # st) \<or>
     c = 0x3a \<and> w \<in> cat spaces (cat jvalue (kont (parseObjectValue # st)))"
proof -
  show "c # w \<in> kont [] \<longleftrightarrow> isSpace c \<and> w \<in> kont []" by (simp add: spaces_def)
  have h: "K = cat spaces B \<Longrightarrow> c # w \<in> K \<longleftrightarrow> isSpace c \<and> w \<in> K \<or> c # w \<in> B" for K B
    using spaces_heads by simp
  from h [OF kont_Arr] show "c # w \<in> kont (parseArrayValue # st) \<longleftrightarrow> isSpace c \<and> w \<in> kont (parseArrayValue # st) \<or>
      c = 0x2c \<and> w \<in> cat spaces (cat jvalue (kont (parseArrayValue # st))) \<or> c = 0x5d \<and> w \<in> kont st"
    by simp
  from h [OF kont_ObjV] show "c # w \<in> kont (parseObjectValue # st) \<longleftrightarrow> isSpace c \<and> w \<in> kont (parseObjectValue # st) \<or>
      c = 0x2c \<and> w \<in> cat spaces (cat jstring (kont (parseObjectKey # st))) \<or> c = 0x7d \<and> w \<in> kont st"
    by simp
  from h [OF kont_ObjK] show "c # w \<in> kont (parseObjectKey # st) \<longleftrightarrow> isSpace c \<and> w \<in> kont (parseObjectKey # st) \<or>
      c = 0x3a \<and> w \<in> cat spaces (cat jvalue (kont (parseObjectValue # st)))"
    by simp
qed

lemma kont_first: "c # w \<in> kont st \<Longrightarrow> isSpace c \<or> c \<in> {0x2c, 0x3a, 0x7d, 0x5d}"
proof (cases st)
  case (Cons p r)
  then show "c # w \<in> kont st \<Longrightarrow> ?thesis" by (cases p) (auto simp: kont_heads)
qed (simp add: spaces_def)

lemma Nil_kont [simp]: "[] \<in> kont st \<longleftrightarrow> st = []"
proof (cases st)
  case (Cons p r)
  then show ?thesis by (cases p) (auto simp: kont.simps(2))
qed simp

text \<open>The language behind an opening bracket.\<close>

lemma object_rest_kont: "cat object_rest (kont st) = state_lang BeginStringOrEmpty (parseObjectKey # st)"
proof -
  have "cat (cat members (lit 0x7d eps)) (kont st) = cat members (lit 0x7d (kont st))" by (simp only: cat_assoc cat_lit cat_eps)
  then show ?thesis by (simp only: object_rest_def cat_Un members_kont) (simp add: cat_assoc)
qed

lemma array_rest_kont: "cat array_rest (kont st) = state_lang BeginValueOrEmpty (parseArrayValue # st)"
proof -
  have "cat (cat elements (lit 0x5d eps)) (kont st) = cat elements (lit 0x5d (kont st))" by (simp only: cat_assoc cat_lit cat_eps)
  then show ?thesis by (simp only: array_rest_def cat_Un elements_kont) (simp add: cat_assoc)
qed

section \<open>One step\<close>

lemma leads_error:
  assumes "sc_err s = None" "\<And>w. c # w \<notin> K"
  shows "leads s c K (sc_error s c m)"
  using assms by (simp add: leads_def sc_error_def good_def slang_def)

lemma leads_move:
  assumes "sc_err s' = None" "good s'" "sc_bytes s' = sc_bytes s" "v \<noteq> scanError"
    "\<And>w. c # w \<in> K \<longleftrightarrow> w \<in> state_lang (sc_step s') (rev (parseState s'))"
  shows "leads s c K (Inr (s', v))"
  using assms by (simp add: leads_def slang_def)

text \<open>A value has just ended: \<open>c\<close> continues the enclosing composite.\<close>

lemma endvalue_leads:
  assumes "sc_err s = None" "\<not> endTop s"
  shows "leads s c (kont (rev (parseState s))) (stateEndValue s c)"
proof (cases "parseState s" rule: rev_cases)
  case Nil
  show ?thesis
  proof (cases "isSpace c")
    case True
    then show ?thesis using Nil assms
      by (auto simp: stateEndValue_def stateEndTop_def isSpace_def leads_def good_def slang_def spaces_def)
  next
    case False
    then show ?thesis using Nil assms
      by (auto simp: stateEndValue_def stateEndTop_def isSpace_def leads_def good_def slang_def spaces_def sc_error_def)
  qed
next
  case (snoc ps p)
  have pop: "popParseState s = Inr s' \<Longrightarrow> sc_err s' = None \<and> good s' \<and> sc_bytes s' = sc_bytes s \<and>
      state_lang (sc_step s') (rev (parseState s')) = kont (rev ps)" for s'
    using snoc assms by (auto simp: popParseState_def good_def Let_def split: if_splits)
  have pops: "\<exists>s'. popParseState s = Inr s'" using snoc by (simp add: popParseState_def Let_def)
  show ?thesis
  proof (cases "isSpace c")
    case True
    then have "c \<le> 0x20 \<and> c \<notin> {0x2c, 0x3a, 0x7d, 0x5d}" by (auto simp: isSpace_def)
    with True show ?thesis using snoc assms
      by (cases p) (auto simp: stateEndValue_def kont_heads good_def intro!: leads_move)
  next
    case False
    show ?thesis
    proof (cases p)
      case parseObjectKey
      then show ?thesis using False snoc assms
        by (auto simp: stateEndValue_def set_top_def kont_heads good_def intro!: leads_move leads_error)
    next
      case parseObjectValue
      then show ?thesis using False snoc assms pop pops
        by (auto simp: stateEndValue_def set_top_def kont_heads good_def intro!: leads_move leads_error)
    next
      case parseArrayValue
      then show ?thesis using False snoc assms pop pops
        by (auto simp: stateEndValue_def kont_heads good_def intro!: leads_move leads_error)
    qed
  qed
qed


lemma not_kont:
  "is_digit c \<Longrightarrow> c # w \<notin> kont st" "c = 0x2e \<Longrightarrow> c # w \<notin> kont st" "c = 0x65 \<or> c = 0x45 \<Longrightarrow> c # w \<notin> kont st"
  using kont_first [of c w st] by (auto simp: is_digit_def isSpace_def)

text \<open>Whether a step is due to a value that has ended, or to the state itself.\<close>

lemma leads_cong: "leads s c K r \<Longrightarrow> (\<And>w. c # w \<in> K' \<longleftrightarrow> c # w \<in> K) \<Longrightarrow> leads s c K' r"
  by (simp add: leads_def)

lemma number_leads:
  assumes "sc_err s = None" "\<not> endTop s" "sc_step s \<in> {State0, State1, Dot0, E0}"
  shows "leads s c (state_lang (sc_step s) (rev (parseState s))) (call (sc_step s) s c)"
proof -
  note [simp] = assms(1,2)
  have moved: "q \<in> {State1, Dot, Dot0, StE, E0} \<Longrightarrow> good (s\<lparr>sc_step := q\<rparr>)" for q by (auto simp: good_def)
  have end_value: "(\<And>w. c # w \<in> K \<longleftrightarrow> c # w \<in> kont (rev (parseState s))) \<Longrightarrow> leads s c K (stateEndValue s c)" for K
    by (rule leads_cong [OF endvalue_leads]) simp_all
  have c0: "leads s c (cat frac_part (cat exp_part (kont (rev (parseState s))))) (state0 s c)"
    using not_kont [of c] moved
    by (auto simp: state0_def heads intro!: leads_move end_value)
  consider "sc_step s = State0" | "sc_step s = State1" | "sc_step s = Dot0" | "sc_step s = E0" using assms(3) by blast
  then show ?thesis
  proof cases
    case 1
    then show ?thesis using c0 by simp
  next
    case 2
    show ?thesis
    proof (cases "is_digit c")
      case True
      then have "c \<noteq> 0x2e" "\<not> (c = 0x65 \<or> c = 0x45)" by (auto simp: is_digit_def)
      then show ?thesis using 2 True not_kont(1) [OF True] moved by (auto simp: state1_def heads intro!: leads_move)
    next
      case False
      have "leads s c (cat digs (cat frac_part (cat exp_part (kont (rev (parseState s)))))) (state0 s c)"
        by (rule leads_cong [OF c0]) (simp add: digs_heads False)
      then show ?thesis using 2 False by (simp add: state1_def)
    qed
  next
    case 3
    have "is_digit c \<Longrightarrow> \<not> (c = 0x65 \<or> c = 0x45)" by (auto simp: is_digit_def)
    then show ?thesis
      using 3 not_kont [of c] moved by (auto simp: stateDot0_def heads intro!: leads_move end_value)
  next
    case 4
    then show ?thesis using not_kont(1) [of c] moved by (auto simp: stateE0_def heads intro!: leads_move end_value)
  qed
qed

lemmas state_defs = stateBeginValue_def stateBeginString_def stateInString_def stateInStringEsc_def stateInStringEscU_def
  stateInStringEscU1_def stateInStringEscU12_def stateInStringEscU123_def stateNeg_def stateDot_def stateE_def
  stateESign_def stateT_def stateTr_def stateTru_def stateF_def stateFa_def stateFal_def stateFals_def stateN_def
  stateNu_def stateNul_def

text \<open>The states that look at \<open>c\<close> only.\<close>

lemma simple_leads:
  assumes "sc_err s = None" "\<not> endTop s"
    and "sc_step s \<in> {InString, InStringEsc, Neg, Dot, StE, ESign, StT, Tr, Tru, StF, Fa, Fal, Fals, StN, Nu, Nul}"
  shows "leads s c (state_lang (sc_step s) (rev (parseState s))) (call (sc_step s) s c)"
proof -
  note [simp] = assms(1,2)
  have moved: "q \<notin> {EndTop, BeginValueOrEmpty, BeginString, BeginStringOrEmpty, StError, Redo} \<Longrightarrow> good (s\<lparr>sc_step := q\<rparr>)"
    and stays: "sc_step s \<notin> {EndTop, BeginValueOrEmpty, BeginString, BeginStringOrEmpty, StError, Redo} \<Longrightarrow> good s" for q
    by (auto simp: good_def)
  from assms(3) show ?thesis
    by (elim insertE emptyE)
      (auto simp: state_defs heads is_escape_def is_digit_def moved stays intro!: leads_move leads_error)
qed

lemma hex_leads:
  assumes "sc_err s = None" "\<not> endTop s" "sc_step s \<in> {InStringEscU, InStringEscU1, InStringEscU12, InStringEscU123}"
  shows "leads s c (state_lang (sc_step s) (rev (parseState s))) (call (sc_step s) s c)"
proof -
  note [simp] = assms(1,2)
  have moved: "q \<notin> {EndTop, BeginValueOrEmpty, BeginString, BeginStringOrEmpty, StError, Redo} \<Longrightarrow> good (s\<lparr>sc_step := q\<rparr>)" for q
    by (auto simp: good_def)
  have hx: "c # w \<in> cat (hexes 4) A \<longleftrightarrow> is_hexdigit c \<and> w \<in> cat (hexes 3) A"
    "c # w \<in> cat (hexes 3) A \<longleftrightarrow> is_hexdigit c \<and> w \<in> cat (hexes 2) A"
    "c # w \<in> cat (hexes 2) A \<longleftrightarrow> is_hexdigit c \<and> w \<in> cat (hexes 1) A"
    "c # w \<in> cat (hexes 1) A \<longleftrightarrow> is_hexdigit c \<and> w \<in> cat str_rest A" for w A
    using hexes_heads [of c w 3 A] hexes_heads [of c w 2 A] hexes_heads [of c w 1 A] hexes_heads [of c w 0 A]
    by (simp_all add: numeral_eq_Suc del: hexes.simps(2))
  from assms(3) show ?thesis
    by (elim insertE emptyE) (auto simp: state_defs hx simp del: hexes.simps One_nat_def intro!: leads_move leads_error moved)
qed


lemma isSpace_small: "isSpace c \<Longrightarrow> c \<le> 0x20"
  by (auto simp: isSpace_def)

text \<open>The states before a value, a key or a closing bracket: \<open>leads_or\<close> adds the language of the bracket.\<close>

lemma beginvalue_leads:
  assumes "sc_err s = None" "good s" "\<not> endTop s" and c: "\<not> isSpace c"
  shows "leads s c (cat spaces (cat jvalue (kont (rev (parseState s))))) (stateBeginValue s c)"
proof -
  let ?K = "cat jvalue (kont (rev (parseState s)))"
  note [simp] = assms(1-3)
  have moved: "q \<in> {InString, Neg, State0, State1, StT, StF, StN} \<Longrightarrow> good (s\<lparr>sc_step := q\<rparr>)" for q
    using assms by (auto simp: good_def)
  have obj: "leads s 0x7b ?K (Inr (pushParseState (s\<lparr>sc_step := BeginStringOrEmpty\<rparr>) parseObjectKey, scanBeginObject))"
    by (rule leads_move) (simp_all add: pushParseState_def good_def value_heads object_rest_kont del: state_lang.simps)
  have arr: "leads s 0x5b ?K (Inr (pushParseState (s\<lparr>sc_step := BeginValueOrEmpty\<rparr>) parseArrayValue, scanBeginArray))"
    by (rule leads_move) (simp_all add: pushParseState_def good_def value_heads array_rest_kont del: state_lang.simps)
  have "leads s c ?K (stateBeginValue s c)"
    using c unfolding stateBeginValue_def
    by (auto simp: value_heads obj arr intro!: leads_move leads_error moved)
  then show ?thesis by (rule leads_cong) (simp add: heads c)
qed

lemma begin_leads:
  assumes "sc_err s = None" "good s" "sc_step s \<in> {BeginValue, BeginValueOrEmpty, BeginString, BeginStringOrEmpty}"
  shows "leads s c (state_lang (sc_step s) (rev (parseState s))) (call (sc_step s) s c)"
proof -
  have [simp]: "\<not> endTop s" using assms by (auto simp: good_def)
  note [simp] = assms(1,2)
  show ?thesis
  proof (cases "isSpace c")
    case True
    then have "c \<le> 0x20 \<and> c \<notin> {0x5d, 0x7d, 0x22}" "\<And>w A. c # w \<notin> cat jvalue A"
      by (auto simp: isSpace_def heads)
    with True assms(3) show ?thesis
      by (elim insertE emptyE) (auto simp: state_defs stateBeginValueOrEmpty_def stateBeginStringOrEmpty_def heads intro!: leads_move)
  next
    case False
    then have val: "leads s c (cat spaces (cat jvalue (kont (rev (parseState s))))) (stateBeginValue s c)"
      by (intro beginvalue_leads) simp_all
    have str: "leads s c (cat spaces (cat jstring (kont (rev (parseState s))))) (stateBeginString s c)"
      using False by (auto simp: stateBeginString_def heads good_def intro!: leads_move leads_error)
    from assms(3) consider "sc_step s = BeginValue" | "sc_step s = BeginString" | (arr) "sc_step s = BeginValueOrEmpty"
      | (obj) "sc_step s = BeginStringOrEmpty" by blast
    then show ?thesis
    proof cases
      case arr
      then obtain ps where ps: "parseState s = ps @ [parseArrayValue]" using assms(2) by (auto simp: good_def)
      show ?thesis
      proof (cases "c = 0x5d")
        case True
        have "leads s c (state_lang (sc_step s) (rev (parseState s))) (stateEndValue s c)"
          by (rule leads_cong [OF endvalue_leads]) (simp_all add: arr ps heads True isSpace_def)
        then show ?thesis using True by (simp add: arr stateBeginValueOrEmpty_def isSpace_def)
      next
        case n: False
        have "leads s c (state_lang (sc_step s) (rev (parseState s))) (stateBeginValue s c)"
          by (rule leads_cong [OF val]) (simp add: arr heads n False)
        then show ?thesis using False n by (simp add: arr stateBeginValueOrEmpty_def)
      qed
    next
      case obj
      then obtain ps where ps: "parseState s = ps @ [parseObjectKey]" using assms(2) by (auto simp: good_def)
      let ?s = "s\<lparr>parseState := ps @ [parseObjectValue]\<rparr>"
      show ?thesis
      proof (cases "c = 0x7d")
        case True
        have "leads ?s c (kont (rev (parseState ?s))) (stateEndValue ?s c)" by (rule endvalue_leads) simp_all
        then have "leads s c (kont (parseObjectValue # rev ps)) (stateEndValue ?s c)" by (simp add: leads_def)
        then have "leads s c (state_lang (sc_step s) (rev (parseState s))) (stateEndValue ?s c)"
          by (rule leads_cong) (simp add: obj ps heads True isSpace_def)
        then show ?thesis using True ps by (simp add: obj stateBeginStringOrEmpty_def isSpace_def set_top_def)
      next
        case n: False
        have "leads s c (state_lang (sc_step s) (rev (parseState s))) (stateBeginString s c)"
          by (rule leads_cong [OF str]) (simp add: obj heads n False)
        then show ?thesis using False n by (simp add: obj stateBeginStringOrEmpty_def)
      qed
    qed (use val str in simp_all)
  qed
qed

lemma endtop_leads:
  assumes "sc_err s = None" "good s" "sc_step s = EndTop"
  shows "leads s c (state_lang (sc_step s) (rev (parseState s))) (call (sc_step s) s c)"
proof -
  have [simp]: "endTop s" "parseState s = []" using assms by (auto simp: good_def)
  show ?thesis using assms
    by (auto simp: stateEndTop_def leads_def sc_error_def good_def slang_def spaces_def isSpace_def)
qed

lemma step_leads:
  assumes "good s" "sc_err s = None"
  shows "leads s c (slang s) (step s c)"
proof -
  have e: "endTop s \<longleftrightarrow> sc_step s = EndTop" and ne: "sc_step s \<noteq> StError" "sc_step s \<noteq> Redo"
    using assms by (auto simp: good_def)
  have "leads s c (state_lang (sc_step s) (rev (parseState s))) (call (sc_step s) s c)"
    using assms e ne number_leads [of s c] simple_leads [of s c] hex_leads [of s c] begin_leads [of s c] endtop_leads [of s c]
      endvalue_leads [of s c]
    by (cases "sc_step s") simp_all
  then show ?thesis using assms by (simp add: slang_def step_def)
qed


section \<open>Runs\<close>

lemma good_bytes [simp]: "good (s\<lparr>sc_bytes := n\<rparr>) = good s" "slang (s\<lparr>sc_bytes := n\<rparr>) = slang s"
  by (simp_all add: good_def slang_def)

text \<open>The words of a state that the end of the input completes.\<close>

lemma complete_iff: "good s \<Longrightarrow> sc_err s = None \<Longrightarrow>
    [] \<in> slang s \<longleftrightarrow> parseState s = [] \<and> sc_step s \<in> {EndTop, EndValue, State1, State0, Dot0, E0}"
  by (cases "sc_step s") (auto simp: slang_def)

lemma space_complete: "good s \<Longrightarrow> [0x20] \<in> slang s \<longleftrightarrow> [] \<in> slang s"
proof (cases "sc_err s")
  case None
  have k: "[0x20] \<in> kont st \<longleftrightarrow> st = []" for st :: "pstate list"
  proof (cases st)
    case (Cons p r)
    then show ?thesis by (cases p) (auto simp: kont_heads)
  qed (simp add: spaces_def isSpace_def)
  have h4: "[0x20] \<notin> cat (hexes n) A" "[0x20] \<notin> cat jvalue A" for n A
  proof -
    show "[0x20] \<notin> cat jvalue A" by (simp add: value_heads)
    show "[0x20] \<notin> cat (hexes n) A"
    proof (cases n)
      case (Suc m)
      then show ?thesis by (simp add: hexes_heads is_hexdigit_def del: hexes.simps)
    qed (simp add: str_heads)
  qed
  assume "good s"
  with None show ?thesis
    by (cases "sc_step s")
      (auto simp: slang_def heads k h4 is_digit_def is_escape_def simp del: hexes.simps One_nat_def)
qed (simp add: slang_def)

lemma eof_correct:
  assumes "good s" "sc_err s = None"
  shows "\<exists>s' v. eof s = Inr (s', v) \<and> (if [] \<in> slang s then v = scanEnd else v = scanError \<and>
    (\<exists>e. sc_err s' = Some e \<and> se_Offset e = sc_bytes s))"
proof (cases "endTop s")
  case True
  then have "[] \<in> slang s" using assms by (auto simp: good_def slang_def)
  then show ?thesis using True assms by (simp add: eof_def)
next
  case False
  obtain s' v where s': "step s 0x20 = Inr (s', v)" "good s'" "\<And>w. 0x20 # w \<in> slang s \<longleftrightarrow> w \<in> slang s'"
      "sc_bytes s' = sc_bytes s" "sc_err s' \<noteq> None \<Longrightarrow> \<not> endTop s'"
      "\<And>e. sc_err s' = Some e \<Longrightarrow> se_Offset e = sc_bytes s"
    using step_leads [OF assms, of "0x20"] False by (fastforce simp: leads_def isSpace_def)
  have iff: "[] \<in> slang s \<longleftrightarrow> [] \<in> slang s'" using s'(3) [of "[]"] space_complete [OF assms(1)] by simp
  show ?thesis
  proof (cases "endTop s'")
    case True
    with s'(5) have none: "sc_err s' = None" by blast
    with s'(2) True have "sc_step s' = EndTop" "parseState s' = []" by (simp_all add: good_def)
    with none have "[] \<in> slang s'" by (simp add: slang_def)
    then show ?thesis using True iff False assms s'(1) by (simp add: eof_def)
  next
    case n: False
    have "[] \<notin> slang s"
    proof
      assume "[] \<in> slang s"
      then have "parseState s = []" "sc_step s \<in> {EndValue, State1, State0, Dot0, E0}"
        using complete_iff [OF assms] False assms by (auto simp: good_def)
      then have "endTop s'" using s'(1)
        by (auto simp: step_def stateEndTop_def stateEndValue_def state1_def state0_def stateDot0_def stateE0_def is_digit_def)
      with n show False by simp
    qed
    then show ?thesis using n False assms s' by (cases "sc_err s'") (auto simp: eof_def)
  qed
qed

lemma step_stuck: "good s \<Longrightarrow> sc_err s \<noteq> None \<Longrightarrow> step s c = Inr (s, scanError)"
  by (auto simp: good_def step_def stateError_def split: if_splits)

lemma loop_stuck: "good s \<Longrightarrow> sc_err s = Some e \<Longrightarrow> checkValid_loop data s = Inr (Some e)"
  by (cases data) (simp_all add: eof_def step_stuck)

text \<open>Every state that is no error state can be completed.\<close>

definition has :: "lang \<Rightarrow> bool" where
  "has A \<longleftrightarrow> (\<exists>w. map uint (w :: byte list) \<in> A)"

lemma has_cat [simp]: "has A \<Longrightarrow> has B \<Longrightarrow> has (cat A B)"
  unfolding has_def by (metis catI map_append)

lemma has_lit [simp]: "has A \<Longrightarrow> 0 \<le> x \<Longrightarrow> x < 256 \<Longrightarrow> has (lit x A)"
proof -
  assume "has A" "0 \<le> x" "x < 256"
  then obtain w where w: "map uint (w :: byte list) \<in> A" by (auto simp: has_def)
  have "uint (word_of_int x :: byte) = x" using \<open>0 \<le> x\<close> \<open>x < 256\<close> by (simp add: uint_word_of_int)
  with w have "map uint (word_of_int x # w) \<in> lit x A" by simp
  then show ?thesis unfolding has_def by blast
qed

lemma has_Un [simp]: "has A \<or> has B \<Longrightarrow> has (A \<union> B)"
  by (auto simp: has_def)

lemma has_eps [simp]: "[] \<in> A \<Longrightarrow> has A"
  by (auto simp: has_def intro: exI [of _ "[]"])

lemma has_word: "map uint (w :: byte list) \<in> A \<Longrightarrow> has A"
  by (auto simp: has_def)

lemma has_parts [simp]: "has str_rest" "has esc_rest" "has (hexes n)" "has digs1" "has signed_digs" "has int_part" "has jvalue"
proof -
  show s: "has str_rest" by (rule has_word [of "[0x22]"]) (simp add: str_rest.close)
  show "has esc_rest" by (rule has_word [of "[0x6e, 0x22]"]) (simp add: esc_rest_def is_escape_def str_rest.close)
  have "map uint (replicate n (0x30 :: byte) @ [0x22]) \<in> hexes n"
    by (induction n) (simp_all add: str_rest.close is_hexdigit_def)
  then show "has (hexes n)" by (rule has_word)
  have "[0x30] \<in> digs1" by (simp add: digs1_def is_digit_def)
  then show "has digs1" by (intro has_word [of "[0x30]"]) simp
  then show "has signed_digs" by (simp add: signed_digs_def)
  show "has int_part" by (rule has_word [of "[0x30]"]) (simp add: int_part_def)
  show "has jvalue" by (rule has_word [of "[0x22, 0x22]"]) (simp add: jvalue_eq str_rest.close)
qed

lemma has_kont [simp]: "has (kont st)"
proof (induction st)
  case (Cons p st)
  have v: "has (kont (parseObjectValue # st))" by (subst kont_ObjV) (simp add: Cons)
  then show ?case
  proof (cases p)
    case parseArrayValue
    then show ?thesis by (subst parseArrayValue, subst kont_Arr) (simp add: Cons)
  qed (simp_all add: kont_ObjK)
qed simp

lemma slang_has: "good s \<Longrightarrow> sc_err s = None \<Longrightarrow> has (slang s)"
  by (cases "sc_step s") (auto simp: slang_def good_def simp del: hexes.simps One_nat_def)


definition viable :: "byte list \<Rightarrow> bool" where
  "viable u \<longleftrightarrow> (\<exists>w. json_text (u @ w))"

definition rejects :: "lang \<Rightarrow> byte list \<Rightarrow> nat \<Rightarrow> SyntaxError \<Rightarrow> bool" where
  "rejects L data n e \<longleftrightarrow> map uint data \<notin> L \<and> (\<exists>k. se_Offset e = n + k \<and>
     (k = length data \<and> has {w. map uint data @ w \<in> L} \<or>
      (\<exists>m. se_msg e = InvalidChar (uint (data ! (k - 1))) m) \<and> 0 < k \<and> k \<le> length data \<and>
      has {w. map uint (take (k - 1) data) @ w \<in> L} \<and> \<not> has {w. map uint (take k data) @ w \<in> L}))"

lemma rejects_Cons:
  assumes "rejects L' data (Suc n) e" "\<And>w. uint c # w \<in> L \<longleftrightarrow> w \<in> L'"
  shows "rejects L (c # data) n e"
proof -
  have sh: "{w. map uint (c # u) @ w \<in> L} = {w. map uint u @ w \<in> L'}" for u :: "byte list" using assms(2) by simp
  obtain k where k: "se_Offset e = Suc n + k" "map uint data \<notin> L'"
      "k = length data \<and> has {w. map uint data @ w \<in> L'} \<or>
       (\<exists>m. se_msg e = InvalidChar (uint (data ! (k - 1))) m) \<and> 0 < k \<and> k \<le> length data \<and>
       has {w. map uint (take (k - 1) data) @ w \<in> L'} \<and> \<not> has {w. map uint (take k data) @ w \<in> L'}"
    using assms(1) unfolding rejects_def by blast
  have "take (Suc k - 1) (c # data) = c # take (k - 1) data" "(c # data) ! (Suc k - 1) = data ! (k - 1)" if "0 < k"
    using that by (simp_all add: take_Cons' nth_Cons')
  then have "Suc k = length (c # data) \<and> has {w. map uint (c # data) @ w \<in> L} \<or>
      (\<exists>m. se_msg e = InvalidChar (uint ((c # data) ! (Suc k - 1))) m) \<and> 0 < Suc k \<and> Suc k \<le> length (c # data) \<and>
      has {w. map uint (take (Suc k - 1) (c # data)) @ w \<in> L} \<and> \<not> has {w. map uint (take (Suc k) (c # data)) @ w \<in> L}"
    using k(3) assms(2) unfolding take_Suc_Cons sh by auto
  then show ?thesis using k(1,2) assms(2) unfolding rejects_def by (intro conjI exI [of _ "Suc k"]) simp_all
qed

lemma loop_correct:
  assumes "good s" "sc_err s = None"
  shows "\<exists>r. checkValid_loop data s = Inr r \<and>
    (case r of None \<Rightarrow> map uint data \<in> slang s | Some e \<Rightarrow> rejects (slang s) data (sc_bytes s) e)"
  using assms
proof (induction data arbitrary: s)
  case Nil
  obtain s' v where "eof s = Inr (s', v)" "if [] \<in> slang s then v = scanEnd else v = scanError \<and>
      (\<exists>e. sc_err s' = Some e \<and> se_Offset e = sc_bytes s)"
    using eof_correct [OF Nil] by blast
  then show ?case using slang_has [OF Nil] by (cases "[] \<in> slang s") (auto simp: rejects_def)
next
  case (Cons c data)
  let ?s = "s\<lparr>sc_bytes := sc_bytes s + 1\<rparr>"
  have "leads ?s (uint c) (slang s) (step ?s (uint c))" using step_leads [of ?s "uint c"] Cons.prems by simp
  then obtain s' v where s': "step ?s (uint c) = Inr (s', v)" "good s'" "\<And>w. uint c # w \<in> slang s \<longleftrightarrow> w \<in> slang s'"
      "sc_bytes s' = Suc (sc_bytes s)" "v = scanError \<longrightarrow> sc_err s' \<noteq> None"
      "\<forall>e. sc_err s' = Some e \<longrightarrow> (\<exists>m. e = \<lparr>se_msg = InvalidChar (uint c) m, se_Offset = Suc (sc_bytes s)\<rparr>)"
    by (auto simp: leads_def)
  show ?case
  proof (cases "sc_err s'")
    case (Some e)
    obtain m where m: "e = \<lparr>se_msg = InvalidChar (uint c) m, se_Offset = Suc (sc_bytes s)\<rparr>" using s'(6) Some by blast
    have loop: "checkValid_loop (c # data) s = Inr (Some e)" using s'(1) Some loop_stuck [OF s'(2) Some] by simp
    have empty: "uint c # w \<notin> slang s" for w using s'(3) Some by (simp add: slang_def)
    have "has {w. w \<in> slang s}" using slang_has [OF Cons.prems] by simp
    then have "rejects (slang s) (c # data) (sc_bytes s) e"
      unfolding rejects_def m using empty by (intro conjI exI [of _ 1]) (simp_all add: has_def)
    then show ?thesis unfolding loop by simp
  next
    case None
    then have eq: "checkValid_loop (c # data) s = checkValid_loop data s'" using s'(1,5) by auto
    obtain r where "checkValid_loop data s' = Inr r"
      "case r of None \<Rightarrow> map uint data \<in> slang s' | Some e \<Rightarrow> rejects (slang s') data (sc_bytes s') e"
      using Cons.IH [OF s'(2) None] by blast
    then show ?thesis using s'(3) rejects_Cons [OF _ s'(3)] unfolding s'(4) eq by (cases r) auto
  qed
qed

lemma slang_reset: "good (reset s)" "slang (reset s) = cat spaces (cat jvalue spaces)" "sc_err (reset s) = None"
    "sc_bytes (reset s) = sc_bytes s"
  by (simp_all add: reset_def good_def slang_def)

lemma has_viable: "has {w. map uint u @ w \<in> cat spaces (cat jvalue spaces)} \<longleftrightarrow> viable u"
  by (auto simp: has_def viable_def json_text_def)

text \<open>C10: \<open>checkValid\<close> accepts exactly the JSON texts, and never panics. An error of \<open>checkValid\<close> carries the number of bytes
  read, after the first byte behind which no JSON text is possible, or at the end of an input that
  is the beginning of a JSON text but is none.\<close>

theorem checkValid_exact:
  "\<exists>r. checkValid data scan = Inr r \<and> (case r of None \<Rightarrow> json_text data
    | Some e \<Rightarrow> \<not> json_text data \<and> (\<exists>k. se_Offset e = sc_bytes scan + k \<and>
        (k = length data \<and> viable data \<or>
         (\<exists>m. se_msg e = InvalidChar (uint (data ! (k - 1))) m) \<and> 0 < k \<and> k \<le> length data \<and>
         viable (take (k - 1) data) \<and> \<not> viable (take k data))))"
  using loop_correct [OF slang_reset(1,3), of data scan]
  unfolding checkValid_def slang_reset has_viable json_text_def rejects_def .


section \<open>Splitting off a value\<close>

definition json_lang :: lang where
  "json_lang = cat spaces (cat jvalue spaces)"

definition spaced_value :: lang where
  "spaced_value = cat spaces jvalue"

lemma spaced_value_sub: "w \<in> spaced_value \<Longrightarrow> w \<in> json_lang"
  unfolding spaced_value_def json_lang_def cat_assoc [symmetric] using catI [of w "cat spaces jvalue" "[]" spaces] by simp

lemma json_lang_split: "w \<in> json_lang \<Longrightarrow> \<exists>x y. w = x @ y \<and> x \<in> spaced_value \<and> y \<in> spaces"
  unfolding spaced_value_def json_lang_def cat_assoc [symmetric] by (erule catE) blast

text \<open>A value does not end in a space.\<close>

definition digit_last :: "lang \<Rightarrow> bool" where
  "digit_last A \<longleftrightarrow> (\<forall>w\<in>A. w = [] \<or> is_digit (last w))"

lemma digit_last_rules [intro]:
  "digit_last A \<Longrightarrow> digit_last B \<Longrightarrow> digit_last (cat A B)"
  "digit_last A \<Longrightarrow> digit_last B \<Longrightarrow> digit_last (A \<union> B)"
  "digit_last A \<Longrightarrow> [] \<notin> A \<Longrightarrow> digit_last (lit x A)"
  "digit_last eps"
proof -
  show "digit_last (cat A B)" if "digit_last A" "digit_last B"
    unfolding digit_last_def
  proof
    fix w assume "w \<in> cat A B"
    then obtain u v where "w = u @ v" "u \<in> A" "v \<in> B" by (auto simp: cat_def)
    then show "w = [] \<or> is_digit (last w)" using that by (cases "v = []") (auto simp: digit_last_def)
  qed
  show "digit_last (lit x A)" if "digit_last A" "[] \<notin> A"
    unfolding digit_last_def
  proof
    fix w assume "w \<in> lit x A"
    then obtain u where "w = x # u" "u \<in> A" unfolding lit_def by blast
    moreover from this have "u \<noteq> []" using that(2) by blast
    ultimately show "w = [] \<or> is_digit (last w)" using that(1) unfolding digit_last_def by auto
  qed
qed (auto simp: digit_last_def)

lemma digs_last: "digit_last digs" "digit_last digs1"
proof -
  have digs1_sub: "digs1 \<subseteq> digs" by (auto simp: digs1_def digs_def)
  show d: "digit_last digs" unfolding digit_last_def digs_def by (blast dest: last_in_set)
  show "digit_last digs1" using d digs1_sub unfolding digit_last_def by blast
qed

lemma jnumber_last: "w \<in> jnumber \<Longrightarrow> w \<noteq> [] \<and> is_digit (last w)"
proof -
  assume w: "w \<in> jnumber"
  have i: "digit_last int_part" using digs_last(1) by (auto simp: digit_last_def int_part_def is_digit_def)
  have f: "digit_last frac_part" unfolding frac_part_def by (intro digit_last_rules digs_last) simp
  have "digit_last signed_digs" unfolding signed_digs_def by (intro digit_last_rules digs_last) simp_all
  then have "digit_last exp_part" unfolding exp_part_def by (intro digit_last_rules) simp_all
  with i f have d: "digit_last (cat int_part (cat frac_part exp_part))" by blast
  obtain u v where uv: "w = u @ v" "v \<in> cat int_part (cat frac_part exp_part)"
    using w unfolding jnumber_def by (rule catE) blast
  then have "v \<noteq> []" by auto
  with d uv show ?thesis by (auto simp: digit_last_def)
qed

lemma str_rest_last: "w \<in> str_rest \<Longrightarrow> last w = 0x22"
  by (induction rule: str_rest.induct) auto

lemma spaced_value_last: "w \<in> spaced_value \<Longrightarrow> w \<noteq> [] \<and> \<not> isSpace (last w)"
proof -
  assume "w \<in> spaced_value"
  then obtain u v where uv: "w = u @ v" "v \<in> jvalue" by (auto simp: spaced_value_def cat_def)
  have "v \<noteq> [] \<and> \<not> isSpace (last v)"
    using uv(2)
  proof (cases rule: jvalue.cases)
    case v_string
    then obtain r where v: "v = 0x22 # r" "r \<in> str_rest" unfolding lit_def by blast
    then have "r \<noteq> []" by auto
    with v str_rest_last [of r] show ?thesis by (simp add: isSpace_def)
  next
    case v_number
    then show ?thesis using jnumber_last [of v] by (auto simp: is_digit_def isSpace_def)
  qed (simp_all add: isSpace_def)
  then show ?thesis using uv(1) by simp
qed

text \<open>The step that reports the end of the value.\<close>

lemma complete_step:
  assumes "good s" "sc_err s = None" "[] \<in> slang s"
  shows "\<exists>s' v. step s c = Inr (s', v) \<and>
    (v = scanEnd \<and> (isSpace c \<or> sc_err s' \<noteq> None) \<or> v = scanContinue \<and> \<not> isSpace c)"
proof -
  have ps: "parseState s = []" and "sc_step s \<in> {EndTop, EndValue, State1, State0, Dot0, E0}"
    using complete_iff [OF assms(1,2)] assms(3) by auto
  from this(2) show ?thesis using ps
    by (elim insertE emptyE) (auto simp: step_def stateEndTop_def stateEndValue_def state1_def state0_def stateDot0_def
        stateE0_def is_digit_def isSpace_def sc_error_def)
qed

lemma scanEnd_complete:
  assumes "good s" "sc_err s = None" "step s c = Inr (s', scanEnd)"
  shows "[] \<in> slang s"
proof -
  have ev: "parseState s = []" if "stateEndValue s c = Inr (s', scanEnd)"
    using that by (auto simp: stateEndValue_def sc_error_def Let_def split: if_splits pstate.splits)
  have c0: "parseState s = []" if "state0 s c = Inr (s', scanEnd)"
    using that ev by (auto simp: state0_def split: if_splits)
  show ?thesis
  proof (cases "sc_step s")
    case BeginValueOrEmpty
    then obtain ps where "parseState s = ps @ [parseArrayValue]" using assms by (auto simp: good_def)
    then show ?thesis using assms(3) ev BeginValueOrEmpty
      by (auto simp: step_def stateBeginValueOrEmpty_def stateBeginValue_def sc_error_def split: if_splits)
  next
    case BeginStringOrEmpty
    then obtain ps where ps: "parseState s = ps @ [parseObjectKey]" using assms by (auto simp: good_def)
    have "stateEndValue (s\<lparr>parseState := ps @ [parseObjectValue]\<rparr>) c \<noteq> Inr (s', scanEnd)"
      by (auto simp: stateEndValue_def sc_error_def Let_def split: if_splits)
    then show ?thesis using assms(3) BeginStringOrEmpty ps
      by (auto simp: step_def stateBeginStringOrEmpty_def stateBeginString_def sc_error_def set_top_def split: if_splits)
  qed (use assms ev c0 in \<open>auto simp: complete_iff good_def step_def state_defs state1_def stateDot0_def stateE0_def sc_error_def
      split: if_splits\<close>)
qed

lemma complete_spaces:
  assumes "good s" "sc_err s = None" "[] \<in> slang s" "isSpace c" "c # w \<in> slang s"
  shows "\<forall>x\<in>set w. isSpace x"
proof -
  have ps: "parseState s = []" and st: "sc_step s \<in> {EndTop, EndValue, State1, State0, Dot0, E0}"
    using complete_iff [OF assms(1,2)] assms(3) by auto
  have "\<not> is_digit c" "c \<notin> {0x2e, 0x65, 0x45}" using assms(4) by (auto simp: is_digit_def isSpace_def)
  with st ps assms(2,5) have "c # w \<in> spaces"
    by (elim insertE emptyE) (auto simp: slang_def heads)
  then show ?thesis by (simp add: spaces_def)
qed


text \<open>The end of a value at \<open>v\<close> before \<open>rest\<close>: no longer value begins with \<open>v\<close> and the next byte.\<close>

definition value_end :: "byte list \<Rightarrow> byte list \<Rightarrow> bool" where
  "value_end v rest \<longleftrightarrow> map uint v \<in> spaced_value \<and>
     (rest = [] \<or> (\<forall>w. map uint (v @ [hd rest]) @ w \<notin> spaced_value))"

lemma no_end_here:
  assumes "good s" "sc_err s = None" "slang s = {w. map uint v @ w \<in> json_lang}"
    and "step s (uint c) = Inr (s', b)" "b \<noteq> scanEnd" "map uint v \<in> spaced_value"
  shows "\<not> value_end v (c # rest)"
proof -
  have "[] \<in> slang s" using spaced_value_sub [OF assms(6)] assms(3) by simp
  from complete_step [OF assms(1,2) this, of "uint c"]
  have b: "b = scanContinue" "\<not> isSpace (uint c)" using assms(4,5) by auto
  obtain "good s'" "sc_err s' = None" "\<And>w. uint c # w \<in> slang s \<longleftrightarrow> w \<in> slang s'"
    using step_leads [OF assms(1,2), of "uint c"] assms(4) b by (auto simp: leads_def)
  then obtain w where "uint c # w \<in> slang s" using slang_has [of s'] by (auto simp: has_def)
  then have "map uint v @ uint c # w \<in> json_lang" using assms(3) by simp
  then obtain x y where xy: "map uint v @ uint c # w = x @ y" "x \<in> spaced_value" "y \<in> spaces"
    using json_lang_split by blast
  have "length v < length x"
  proof (rule ccontr)
    assume "\<not> length v < length x"
    then have "uint c \<in> set y" using xy(1)
      by (metis append_eq_append_conv_if in_set_conv_decomp length_map linorder_not_less)
    with xy(3) b(2) show False by (auto simp: spaces_def)
  qed
  then have "take (Suc (length v)) x = map uint v @ [uint c]"
    using xy(1) by (metis (no_types, lifting) Suc_leI append_Cons append_Nil append_assoc append_eq_conv_conj diff_is_0_eq
        length_append_singleton length_map take_0 take_append append_Nil2)
  then have "map uint (v @ [c]) @ drop (Suc (length v)) x \<in> spaced_value" using xy(2) by (metis append_take_drop_id list.simps(8,9) map_append)
  then show ?thesis unfolding value_end_def by auto
qed


lemma end_here:
  assumes "good s" "sc_err s = None" "slang s = {w. map uint v @ w \<in> json_lang}"
    and "step s (uint c) = Inr (s', scanEnd)" "[] \<in> slang s \<Longrightarrow> map uint v \<in> spaced_value"
  shows "value_end v (c # rest)"
proof -
  have nil: "[] \<in> slang s" by (rule scanEnd_complete [OF assms(1,2,4)])
  have "map uint (v @ [c]) @ w \<notin> spaced_value" for w
  proof
    assume V: "map uint (v @ [c]) @ w \<in> spaced_value"
    then have cw: "uint c # w \<in> slang s" using spaced_value_sub assms(3) by force
    from complete_step [OF assms(1,2) nil, of "uint c"] assms(4)
    have "isSpace (uint c) \<or> sc_err s' \<noteq> None" by auto
    then show False
    proof
      assume sp: "isSpace (uint c)"
      then have "\<forall>x\<in>set w. isSpace x" by (rule complete_spaces [OF assms(1,2) nil _ cw])
      then have "isSpace (last (map uint (v @ [c]) @ w))" using sp by (cases "w = []") auto
      with spaced_value_last [OF V] show False by blast
    next
      assume "sc_err s' \<noteq> None"
      then have "slang s' = {}" by (auto simp: slang_def)
      with cw step_leads [OF assms(1,2), of "uint c"] assms(4) show False by (auto simp: leads_def)
    qed
  qed
  then show ?thesis using assms(5) [OF nil] by (simp add: value_end_def)
qed

definition splits :: "byte list \<Rightarrow> nat \<Rightarrow> SyntaxError option + byte list \<times> byte list \<Rightarrow> bool" where
  "splits data i r \<longleftrightarrow> (case r of
      Inl e \<Rightarrow> e \<noteq> None \<and> (\<forall>v rest. data = v @ rest \<longrightarrow> i \<le> length v \<longrightarrow> \<not> value_end v rest)
    | Inr (v, rest) \<Rightarrow> data = v @ rest \<and> value_end v rest)"

lemma nextValue_loop_correct:
  assumes "good s" "sc_err s = None" "slang s = {w. map uint (take i data) @ w \<in> json_lang}"
    and "[] \<in> slang s \<Longrightarrow> map uint (take i data) \<in> spaced_value" "cs = drop i data" "i \<le> length data"
  shows "\<exists>r. nextValue_loop data i cs s = Inr r \<and> splits data i r"
  using assms
proof (induction data i cs s rule: nextValue_loop.induct)
  case (1 data i s)
  then have i: "i = length data" by simp
  obtain s' v where e: "eof s = Inr (s', v)" "if [] \<in> slang s then v = scanEnd else v = scanError \<and>
      (\<exists>e. sc_err s' = Some e \<and> se_Offset e = sc_bytes s)"
    using eof_correct [OF 1(1,2)] by blast
  show ?case
  proof (cases "[] \<in> slang s")
    case True
    then show ?thesis using e 1(4) i by (simp add: splits_def value_end_def)
  next
    case False
    then have "map uint data \<notin> json_lang" using 1(3) i by simp
    then have "map uint data \<notin> spaced_value" using spaced_value_sub by blast
    then show ?thesis using e False i by (auto simp: splits_def value_end_def)
  qed
next
  case (2 data i c cs s)
  have i: "i < length data" "data ! i = c" "cs = drop (Suc i) data"
    using 2(6,7) by (metis drop_all linorder_not_less list.distinct(1), metis Cons_nth_drop_Suc drop_all linorder_not_less list.distinct(1) list.sel(1),
        metis drop_Suc list.sel(3) tl_drop)
  then have tk: "take (Suc i) data = take i data @ [c]" by (simp add: take_Suc_conv_app_nth)
  have dt: "data = take i data @ c # cs" using 2(6) by (metis append_take_drop_id)
  obtain s' v where s': "step s (uint c) = Inr (s', v)" "good s'" "\<And>w. uint c # w \<in> slang s \<longleftrightarrow> w \<in> slang s'"
      "v = scanError \<Longrightarrow> sc_err s' \<noteq> None" "sc_err s' \<noteq> None \<Longrightarrow> v = scanError \<or> v = scanEnd"
    using step_leads [OF 2(2,3), of "uint c"] by (auto simp: leads_def)
  have sl: "slang s' = {w. map uint (take (i + 1) data) @ w \<in> json_lang}"
    using s'(3) 2(4) tk by auto
  have here: "\<not> value_end u rest" if "v \<noteq> scanEnd" "data = u @ rest" "length u = i" for u rest
  proof -
    have u: "u = take i data" "rest = c # cs" using that dt by (simp_all add: append_eq_conv_conj)
    show ?thesis
    proof (cases "map uint u \<in> spaced_value")
      case True
      then show ?thesis using no_end_here [OF 2(2,3) _ s'(1) that(1)] 2(4) u by simp
    qed (simp add: value_end_def)
  qed
  consider (err) "v = scanError" | (fin) "v = scanEnd" | (go) "v \<noteq> scanError" "v \<noteq> scanEnd" by blast
  then show ?case
  proof cases
    case err
    then have "slang s' = {}" using s'(4) by (auto simp: slang_def)
    then have no: "map uint (take (i + 1) data) @ w \<notin> spaced_value" for w using sl spaced_value_sub by blast
    have "\<not> value_end u rest" if "data = u @ rest" "i \<le> length u" for u rest
    proof (cases "length u = i")
      case False
      then have "take (i + 1) u = take (i + 1) data" using that by simp
      then have "map uint u \<notin> spaced_value" using no [of "map uint (drop (i + 1) u)"] by (metis append_take_drop_id map_append)
      then show ?thesis by (simp add: value_end_def)
    qed (use here err that in auto)
    moreover obtain e where "sc_err s' = Some e" using s'(4) err by blast
    ultimately show ?thesis using s'(1) err by (simp add: splits_def)
  next
    case fin
    have "value_end (take i data) (c # cs)"
      by (rule end_here [OF 2(2,3,4)]) (use s'(1) fin 2(5) in auto)
    moreover have loop: "nextValue_loop data i (c # cs) s = Inr (Inr (take i data, drop i data))"
      using s'(1) fin by simp
    ultimately show ?thesis unfolding loop splits_def using 2(6) by simp
  next
    case go
    then have none: "sc_err s' = None" using s'(5) by blast
    have "map uint (take (i + 1) data) \<in> spaced_value" if nil: "[] \<in> slang s'"
    proof -
      have "map uint (take (i + 1) data) \<in> json_lang" using sl nil by simp
      then obtain x y where xy: "map uint (take (i + 1) data) = x @ y" "x \<in> spaced_value" "y \<in> spaces"
        using json_lang_split by blast
      have "y = []"
      proof (rule ccontr)
        assume y: "y \<noteq> []"
        then obtain ys z where y': "y = ys @ [z]" by (meson rev_exhaust)
        have "map uint (take i data) @ [uint c] = (x @ ys) @ [z]" using xy(1) tk y' by simp
        then have eq: "map uint (take i data) = x @ ys" "z = uint c" by (simp_all only: append1_eq_conv)
        have sp: "isSpace (uint c)" "ys \<in> spaces" using xy(3) y' eq(2) by (simp_all add: spaces_def)
        have "map uint (take i data) \<in> json_lang" unfolding eq(1)
          using xy(2) sp(2) catI [of x "cat spaces jvalue" ys spaces] by (simp add: json_lang_def spaced_value_def cat_assoc)
        then have "[] \<in> slang s" using 2(4) by simp
        from complete_step [OF 2(2,3) this, of "uint c"] s'(1) go sp show False by auto
      qed
      with xy show ?thesis by simp
    qed
    then obtain r where r: "nextValue_loop data (i + 1) cs s' = Inr r" "splits data (i + 1) r"
      using 2(1) [OF go s'(2) none sl _ i(3) [unfolded Suc_eq_plus1]] i by auto
    have "splits data i r"
    proof (cases r)
      case (Inl e)
      then have e: "e \<noteq> None" and later: "\<And>u rest. data = u @ rest \<Longrightarrow> i < length u \<Longrightarrow> \<not> value_end u rest"
        using r(2) by (auto simp: splits_def)
      have "\<not> value_end u rest" if "data = u @ rest" "i \<le> length u" for u rest
        using here [OF go(2) that(1)] later [OF that(1)] that(2) by (cases "length u = i") auto
      then show ?thesis using e Inl by (simp add: splits_def)
    next
      case (Inr p)
      then show ?thesis using r(2) by (simp add: splits_def)
    qed
    then show ?thesis using r(1) s'(1) go by simp
  qed
qed

text \<open>\<open>nextValue\<close> never panics. It splits the data behind the first value: the value begins with the
  white space before it and cannot be continued by the next byte. It fails exactly when the data
  has no such prefix.\<close>

theorem nextValue_exact:
  "\<exists>r. nextValue data scan = Inr r \<and> (case r of
      Inl e \<Rightarrow> e \<noteq> None \<and> (\<nexists>v rest. data = v @ rest \<and> value_end v rest)
    | Inr (v, rest) \<Rightarrow> data = v @ rest \<and> value_end v rest)"
proof -
  have "[] \<notin> slang (reset scan)" unfolding slang_reset by simp
  then obtain r where "nextValue_loop data 0 data (reset scan) = Inr r" "splits data 0 r"
    using nextValue_loop_correct [OF slang_reset(1,3), of scan 0 data data] by (auto simp: slang_reset(2) json_lang_def)
  then show ?thesis by (auto simp: nextValue_def splits_def split: sum.splits)
qed

end
