(* ===== verification/Go_Indent.thy ===== *)
theory Go_Indent
  imports Go_Json
begin

unbundle bit_operations_syntax

text \<open>
  \<open>Compact\<close> and \<open>Indent\<close> of package encoding/json (src/encoding/json/indent.go), which copy a text and
  let the scanner tell white space from the rest. The specification of the first removes the white
  space outside strings with an automaton of three states and then escapes characters.
\<close>

section \<open>Compact and Indent\<close>

text \<open>The buffer \<open>dst\<close> is the list of its bytes. \<open>start\<close> is the position after the last byte of \<open>src\<close>
  that has been dealt with.\<close>

definition hex_chars :: "byte list" where
  "hex_chars = [0x30, 0x31, 0x32, 0x33, 0x34, 0x35, 0x36, 0x37, 0x38, 0x39, 0x61, 0x62, 0x63, 0x64, 0x65, 0x66]"

definition hex_digit :: "byte \<Rightarrow> byte" where
  "hex_digit n = hex_chars ! unat n"

definition write_from :: "byte list \<Rightarrow> nat \<Rightarrow> nat \<Rightarrow> byte list \<Rightarrow> byte list" where
  "write_from src start i dst = (if start < i then dst @ take (i - start) (drop start src) else dst)"

definition is_line_sep :: "byte list \<Rightarrow> nat \<Rightarrow> bool" where
  "is_line_sep src i \<longleftrightarrow> src ! i = 0xe2 \<and> i + 2 < length src \<and> src ! (i + 1) = 0x80 \<and> src ! (i + 2) AND NOT 1 = 0xa8"

definition escape_html :: "bool \<Rightarrow> byte list \<Rightarrow> nat \<Rightarrow> nat \<times> byte list \<Rightarrow> nat \<times> byte list" where
  "escape_html escape src i = (\<lambda>(start, dst).
     let c = src ! i in
     if escape \<and> (c = 0x3c \<or> c = 0x3e \<or> c = 0x26)
     then (i + 1, write_from src start i dst @ [0x5c, 0x75, 0x30, 0x30] @ [hex_digit (drop_bit 4 c)] @ [hex_digit (c AND 0xf)])
     else (start, dst))"

definition escape_sep :: "byte list \<Rightarrow> nat \<Rightarrow> nat \<times> byte list \<Rightarrow> nat \<times> byte list" where
  "escape_sep src i = (\<lambda>(start, dst).
     if is_line_sep src i
     then (i + 3, write_from src start i dst @ [0x5c, 0x75, 0x32, 0x30, 0x32] @ [hex_digit (src ! (i + 2) AND 0xf)])
     else (start, dst))"

function compact_loop :: "byte list \<Rightarrow> bool \<Rightarrow> nat \<Rightarrow> scanner \<Rightarrow> nat \<Rightarrow> byte list \<Rightarrow> panic + scanner \<times> nat \<times> byte list" where
  "compact_loop src escape i s start dst =
     (if length src \<le> i then Inr (s, start, dst)
      else (case escape_sep src i (escape_html escape src i (start, dst)) of (start, dst) \<Rightarrow>
        bindE (step s (uint (src ! i))) (\<lambda>(s, v).
          if v = scanError then Inr (s, start, dst)
          else if v = scanSkipSpace \<or> v = scanEnd
          then compact_loop src escape (i + 1) s (i + 1) (write_from src start i dst)
          else compact_loop src escape (i + 1) s start dst)))"
  by pat_completeness auto

termination
  by (relation "measure (\<lambda>(src, _, i, _). length src - i)") auto

text \<open>\<open>var scan scanner\<close>: the zero value.\<close>

definition zero_scanner :: scanner where
  "zero_scanner = \<lparr>sc_step = BeginValue, endTop = False, parseState = [], sc_err = None, redo = False, redoCode = scanContinue,
     redoState = BeginValue, sc_bytes = 0\<rparr>"

definition compact :: "byte list \<Rightarrow> byte list \<Rightarrow> bool \<Rightarrow> panic + byte list \<times> SyntaxError option" where
  "compact dst src escape =
     bindE (compact_loop src escape 0 (reset zero_scanner) 0 dst) (\<lambda>(s, start, out).
       bindE (eof s) (\<lambda>(s, v).
         Inr (if v = scanError then (take (length dst) out, sc_err s)
              else (write_from src start (length src) out, None))))"

definition Compact :: "byte list \<Rightarrow> byte list \<Rightarrow> panic + byte list \<times> SyntaxError option" where
  "Compact dst src = compact dst src False"

definition newline :: "byte list \<Rightarrow> byte list \<Rightarrow> byte list \<Rightarrow> int \<Rightarrow> byte list" where
  "newline dst prefix indent depth = dst @ [0x0a] @ prefix @ concat (replicate (nat depth) indent)"

fun Indent_loop :: "byte list \<Rightarrow> byte list \<Rightarrow> byte list \<Rightarrow> scanner \<Rightarrow> bool \<Rightarrow> int \<Rightarrow> byte list \<Rightarrow> panic + scanner \<times> byte list" where
  "Indent_loop prefix indent [] s needIndent depth dst = Inr (s, dst)"
| "Indent_loop prefix indent (c # cs) s needIndent depth dst =
     bindE (step (s\<lparr>sc_bytes := sc_bytes s + 1\<rparr>) (uint c)) (\<lambda>(s, v).
       if v = scanSkipSpace then Indent_loop prefix indent cs s needIndent depth dst
       else if v = scanError then Inr (s, dst)
       else (case (if needIndent \<and> v \<noteq> scanEndObject \<and> v \<noteq> scanEndArray
                   then (False, depth + 1, newline dst prefix indent (depth + 1)) else (needIndent, depth, dst)) of
         (needIndent, depth, dst) \<Rightarrow>
           if v = scanContinue then Indent_loop prefix indent cs s needIndent depth (dst @ [c])
           else if c = 0x7b \<or> c = 0x5b then Indent_loop prefix indent cs s True depth (dst @ [c])
           else if c = 0x2c then Indent_loop prefix indent cs s needIndent depth (newline (dst @ [c]) prefix indent depth)
           else if c = 0x3a then Indent_loop prefix indent cs s needIndent depth (dst @ [c] @ [0x20])
           else if c = 0x7d \<or> c = 0x5d
           then (if needIndent then Indent_loop prefix indent cs s False depth (dst @ [c])
                 else Indent_loop prefix indent cs s needIndent (depth - 1) (newline dst prefix indent (depth - 1) @ [c]))
           else Indent_loop prefix indent cs s needIndent depth (dst @ [c])))"

definition Indent :: "byte list \<Rightarrow> byte list \<Rightarrow> byte list \<Rightarrow> byte list \<Rightarrow> panic + byte list \<times> SyntaxError option" where
  "Indent dst src prefix indent =
     bindE (Indent_loop prefix indent src (reset zero_scanner) False 0 dst) (\<lambda>(s, out).
       bindE (eof s) (\<lambda>(s, v).
         Inr (if v = scanError then (take (length dst) out, sc_err s) else (out, None))))"

section \<open>Specification\<close>

datatype mode = Out | Str | Esc

fun next_mode :: "mode \<Rightarrow> int \<Rightarrow> mode" where
  "next_mode Out c = (if c = 0x22 then Str else Out)"
| "next_mode Str c = (if c = 0x22 then Out else if c = 0x5c then Esc else Str)"
| "next_mode Esc c = Str"

fun strip :: "mode \<Rightarrow> byte list \<Rightarrow> byte list" where
  "strip m [] = []"
| "strip m (c # cs) =
     (if m = Out \<and> isSpace (uint c) then strip m cs else c # strip (next_mode m (uint c)) cs)"

definition is_html :: "byte \<Rightarrow> bool" where
  "is_html c \<longleftrightarrow> c = 0x3c \<or> c = 0x3e \<or> c = 0x26"

definition html_text :: "byte \<Rightarrow> byte list" where
  "html_text c = [0x5c, 0x75, 0x30, 0x30, hex_digit (drop_bit 4 c), hex_digit (c AND 0xf)]"

definition sep_text :: "byte \<Rightarrow> byte list" where
  "sep_text c = [0x5c, 0x75, 0x32, 0x30, 0x32, hex_digit (c AND 0xf)]"

text \<open>The line separators U+2028 and U+2029 begin with 0xe2 0x80.\<close>

definition starts_sep :: "byte list \<Rightarrow> bool" where
  "starts_sep w \<longleftrightarrow> (\<exists>x r. w = 0xe2 # 0x80 # x # r \<and> x AND NOT 1 = 0xa8)"

function escapes :: "bool \<Rightarrow> byte list \<Rightarrow> byte list" where
  "escapes b w =
     (case w of [] \<Rightarrow> []
      | c # r \<Rightarrow> if starts_sep w then sep_text (w ! 2) @ escapes b (drop 3 w)
         else if b \<and> is_html c then html_text c @ escapes b r else c # escapes b r)"
  by pat_completeness auto

termination
  by (relation "measure (\<lambda>(b, w). length w)") auto

declare escapes.simps [simp del]

section \<open>The scanner and the modes\<close>

fun mode_of :: "sfun \<Rightarrow> mode" where
  "mode_of InString = Str"
| "mode_of InStringEscU = Str"
| "mode_of InStringEscU1 = Str"
| "mode_of InStringEscU12 = Str"
| "mode_of InStringEscU123 = Str"
| "mode_of InStringEsc = Esc"
| "mode_of q = Out"

abbreviation smode :: "scanner \<Rightarrow> mode" where
  "smode s \<equiv> mode_of (sc_step s)"

text \<open>What a step without an error tells about the byte.\<close>

definition classified :: "scanner \<Rightarrow> int \<Rightarrow> scanner \<Rightarrow> opcode \<Rightarrow> bool" where
  "classified s c s' v \<longleftrightarrow>
     (if smode s = Out \<and> isSpace c then (v = scanSkipSpace \<or> v = scanEnd) \<and> smode s' = Out
      else v \<noteq> scanSkipSpace \<and> v \<noteq> scanEnd \<and> v \<noteq> scanError \<and> smode s' = next_mode (smode s) c)"

lemma endvalue_classified:
  assumes "sc_err s = None" "stateEndValue s c = Inr (s', v)" "sc_err s' = None" "c \<noteq> 0x22" "smode s = Out"
  shows "classified s c s' v"
  using assms
  by (auto simp: classified_def stateEndValue_def stateEndTop_def sc_error_def popParseState_def set_top_def isSpace_def Let_def
      split: if_splits pstate.splits)


lemma strip_keep: "\<not> (m = Out \<and> isSpace (uint c)) \<Longrightarrow> strip m (c # w) = c # strip (next_mode m (uint c)) w"
  by (simp only: strip.simps if_False)

lemma classified_keep: "classified s c s' v \<Longrightarrow> \<not> (smode s = Out \<and> isSpace c) \<Longrightarrow> smode s' = next_mode (smode s) c"
  unfolding classified_def by (simp only: if_False)

text \<open>A step in or before a string, without an error.\<close>

lemma step_classified:
  assumes "good s" "sc_err s = None" "step s c = Inr (s', v)" "sc_err s' = None"
  shows "classified s c s' v"
proof -
  have ev: "stateEndValue s c = Inr (s', v) \<Longrightarrow> c \<noteq> 0x22 \<Longrightarrow> smode s = Out \<Longrightarrow> classified s c s' v"
    using endvalue_classified assms by blast
  have q: "stateEndValue s 0x22 \<noteq> Inr (s', v)"
    using assms(4) by (auto simp: stateEndValue_def stateEndTop_def sc_error_def isSpace_def Let_def split: if_splits pstate.splits)
  have c0: "state0 s c = Inr (s', v) \<Longrightarrow> smode s = Out \<Longrightarrow> classified s c s' v"
    using ev q by (cases "c = 0x22") (auto simp: state0_def classified_def isSpace_def split: if_splits)
  have b: "stateBeginValue s c = Inr (s', v) \<Longrightarrow> smode s = Out \<Longrightarrow> classified s c s' v"
    using assms(4) by (auto simp: stateBeginValue_def classified_def isSpace_def pushParseState_def sc_error_def split: if_splits)
  have k: "stateBeginString s c = Inr (s', v) \<Longrightarrow> smode s = Out \<Longrightarrow> classified s c s' v"
    using assms(4) by (auto simp: stateBeginString_def classified_def isSpace_def sc_error_def split: if_splits)
  note st = assms(3) [unfolded step_def]
  have ne: "sc_step s \<noteq> StError" "sc_step s \<noteq> Redo" using assms(1,2) by (auto simp: good_def)
  show ?thesis
  proof (cases "sc_step s")
    case BeginValueOrEmpty
    then show ?thesis using st b ev assms(4)
      by (auto simp: stateBeginValueOrEmpty_def classified_def isSpace_def split: if_splits)
  next
    case BeginStringOrEmpty
    let ?s = "s\<lparr>parseState := (parseState s)[length (parseState s) - 1 := parseObjectValue]\<rparr>"
    have "classified s c s' v" if "stateEndValue ?s c = Inr (s', v)" "c = 0x7d"
      using endvalue_classified [OF _ that(1)] that(2) assms BeginStringOrEmpty by (simp add: classified_def)
    then show ?thesis using st k assms(4) BeginStringOrEmpty
      by (auto simp: stateBeginStringOrEmpty_def set_top_def classified_def isSpace_def Let_def split: if_splits)
  next
    case EndTop
    then show ?thesis using st assms(4)
      by (auto simp: stateEndTop_def sc_error_def classified_def isSpace_def split: if_splits)
  next
    case EndValue
    then show ?thesis using st ev q by (cases "c = 0x22") auto
  next
    case State1
    then show ?thesis using st c0
      by (auto simp: state1_def is_digit_def classified_def isSpace_def split: if_splits)
  next
    case Dot0
    then show ?thesis using st ev q
      by (cases "c = 0x22") (auto simp: stateDot0_def is_digit_def classified_def isSpace_def split: if_splits)
  next
    case E0
    then show ?thesis using st ev q
      by (cases "c = 0x22") (auto simp: stateE0_def is_digit_def classified_def isSpace_def split: if_splits)
  next
    case BeginValue
    then show ?thesis using st b by simp
  next
    case BeginString
    then show ?thesis using st k by simp
  next
    case State0
    then show ?thesis using st c0 by simp
  qed (use st assms(4) ne in \<open>auto simp: state_defs sc_error_def classified_def isSpace_def is_digit_def is_hexdigit_def
      split: if_splits\<close>)
qed


text \<open>Bytes that only the inside of a string accepts.\<close>

lemma inside_only:
  assumes "good s" "c # w \<in> slang s" "0x80 \<le> c \<or> c \<in> {0x3c, 0x3e, 0x26}"
  shows "sc_step s = InString"
proof -
  have err: "sc_err s = None" using assms(2) by (auto simp: slang_def split: if_splits)
  have k: "c # w \<notin> kont st" for st using kont_first [of c w st] assms(3) by (auto simp: isSpace_def)
  have p: "\<not> isSpace c" "\<not> is_digit c" "\<not> is_hexdigit c" "\<not> is_escape c" "c \<noteq> 0x22" "c \<noteq> 0x75"
    using assms(3) by (auto simp: isSpace_def is_digit_def is_hexdigit_def is_escape_def)
  have h: "c # w \<notin> cat (hexes (Suc n)) A" for n A by (simp add: hexes_heads p del: hexes.simps)
  have h': "c # w \<notin> cat (hexes 4) A" "c # w \<notin> cat (hexes 3) A" "c # w \<notin> cat (hexes 2) A" "c # w \<notin> cat (hexes 1) A" for A
    using h [of 3] h [of 2] h [of 1] h [of 0] by (simp_all add: numeral_eq_Suc del: hexes.simps)
  have v: "c # w \<notin> cat jvalue A" "c # w \<notin> cat int_part A" for A using assms(3) by (auto simp: value_heads int_heads)
  have "c \<notin> {0x2e, 0x65, 0x45, 0x2b, 0x2d, 0x72, 0x61, 0x6c, 0x73, 0x5d, 0x7d}" using assms(3) by auto
  with err k p h' v assms(1,2) show ?thesis
    by (cases "sc_step s")
      (auto simp: slang_def spaces_heads digs_heads digs1_heads frac_heads exp_heads signed_digs_heads esc_heads
        simp del: hexes.simps One_nat_def)
qed

lemma instring_step:
  assumes "sc_step s = InString" "c \<noteq> 0x22" "c \<noteq> 0x5c" "0x20 \<le> c"
  shows "step s c = Inr (s, scanContinue)"
  using assms by (simp add: step_def stateInString_def)

lemma write_from_take: "write_from src start i dst = dst @ take (i - start) (drop start src)"
  by (simp add: write_from_def)

lemma starts_sep_strip: "starts_sep (c # strip Str w) \<longleftrightarrow> starts_sep (c # w)"
proof
  assume "starts_sep (c # w)"
  then obtain x r where "c = 0xe2" "w = 0x80 # x # r" "x AND NOT 1 = 0xa8" by (auto simp: starts_sep_def)
  then show "starts_sep (c # strip Str w)" by (simp add: starts_sep_def)
next
  assume "starts_sep (c # strip Str w)"
  then obtain x r where *: "c = 0xe2" "strip Str w = 0x80 # x # r" "x AND NOT 1 = 0xa8" by (auto simp: starts_sep_def)
  obtain w' where w: "w = 0x80 # w'" using *(2) by (cases w) auto
  with *(2) obtain w'' where "w' = x # w''" by (cases w') auto
  with * w show "starts_sep (c # w)" by (simp add: starts_sep_def)
qed

lemma is_line_sep_drop: "i < length src \<Longrightarrow> is_line_sep src i \<longleftrightarrow> starts_sep (drop i src)"
proof -
  assume i: "i < length src"
  have "starts_sep w \<longleftrightarrow> 2 < length w \<and> w ! 0 = 0xe2 \<and> w ! 1 = 0x80 \<and> w ! 2 AND NOT 1 = 0xa8" for w
  proof (cases w)
    case (Cons a u)
    then show ?thesis by (cases u; cases "tl u") (auto simp: starts_sep_def)
  qed (simp add: starts_sep_def)
  from this [of "drop i src"] show ?thesis using i by (auto simp: is_line_sep_def)
qed

lemma sep_tail: "(x :: byte) AND NOT 1 = 0xa8 \<Longrightarrow> x = 0xa8 \<or> x = 0xa9"
proof -
  assume a: "x AND NOT 1 = 0xa8"
  have "x = (x AND NOT 1) OR (x AND 1)" by (metis (no_types) and.commute bit.conj_disj_distrib bit.disj_cancel_right and.right_neutral or.commute)
  moreover have "x AND 1 = 0 \<or> x AND 1 = 1"
    by (cases "even x") (simp_all add: and_one_eq even_iff_mod_2_eq_zero odd_iff_mod_2_eq_one)
  ultimately show ?thesis using a by auto
qed


subsection \<open>The loop of compact\<close>

lemma escapes_Nil [simp]: "escapes b [] = []"
  by (simp add: escapes.simps)

lemma escapes_sep: "starts_sep w \<Longrightarrow> escapes b w = sep_text (w ! 2) @ escapes b (drop 3 w)"
  by (subst escapes.simps) (auto simp: starts_sep_def)

lemma escapes_html: "is_html c \<Longrightarrow> escapes True (c # w) = html_text c @ escapes True w"
  by (subst escapes.simps) (auto simp: starts_sep_def is_html_def)

lemma escapes_plain: "\<not> starts_sep (c # w) \<Longrightarrow> \<not> (b \<and> is_html c) \<Longrightarrow> escapes b (c # w) = c # escapes b w"
  by (subst escapes.simps) auto

text \<open>What is still to be written at position \<open>i\<close>.\<close>

definition pending :: "byte list \<Rightarrow> bool \<Rightarrow> nat \<Rightarrow> scanner \<Rightarrow> nat \<Rightarrow> byte list" where
  "pending src b i s start =
     (if start \<le> i then take (i - start) (drop start src) @ escapes b (strip (smode s) (drop i src))
      else escapes b (strip Str (drop start src)))"

definition ahead :: "byte list \<Rightarrow> nat \<Rightarrow> scanner \<Rightarrow> nat \<Rightarrow> bool" where
  "ahead src i s start \<longleftrightarrow> i < start \<longrightarrow> sc_step s = InString \<and> start \<le> length src \<and>
     (\<forall>k. i \<le> k \<longrightarrow> k < start \<longrightarrow> src ! k \<in> {0x80, 0xa8, 0xa9})"

text \<open>One turn: the bytes written and the new \<open>start\<close>, before the step of the scanner.\<close>

lemma compact_turn:
  assumes "good s" "sc_err s = None" "map uint (drop i src) \<in> slang s" "i < length src" "ahead src i s start"
    and "escape_sep src i (escape_html b src i (start, dst)) = (start1, dst1)"
    and "step s (uint (src ! i)) = Inr (s', v)" "sc_err s' = None"
  shows "if v = scanSkipSpace \<or> v = scanEnd
    then ahead src (i + 1) s' (i + 1) \<and>
      write_from src start1 i dst1 @ pending src b (i + 1) s' (i + 1) = dst @ pending src b i s start
    else ahead src (i + 1) s' start1 \<and> dst1 @ pending src b (i + 1) s' start1 = dst @ pending src b i s start"
proof -
  let ?c = "src ! i" and ?r = "drop (Suc i) src"
  have dr: "drop i src = ?c # ?r" using assms(4) by (simp add: Cons_nth_drop_Suc)
  have lang: "uint ?c # map uint ?r \<in> slang s" using assms(3) dr by simp
  note cl = step_classified [OF assms(1,2,7,8)]
  have stay: "s' = s \<and> v = scanContinue" if "sc_step s = InString" "?c \<notin> {0x22, 0x5c}" "0x20 \<le> uint ?c"
    using instring_step [OF that(1), of "uint ?c"] that(2,3) assms(7) by (simp add: word_uint_eq_iff)
  consider (skip) "i < start" | (sep) "start \<le> i" "starts_sep (drop i src)" | (html) "start \<le> i" "b" "is_html ?c"
    | (plain) "start \<le> i" "\<not> starts_sep (drop i src)" "\<not> (b \<and> is_html ?c)" by linarith
  then show ?thesis
  proof cases
    case skip
    with assms(5) have s: "sc_step s = InString" "start \<le> length src" and c: "?c \<in> {0x80, 0xa8, 0xa9}"
      by (auto simp: ahead_def)
    have "\<not> is_html ?c" "\<not> is_line_sep src i" "0x20 \<le> uint ?c" "?c \<notin> {0x22, 0x5c}"
      using c by (auto simp: is_html_def is_line_sep_def)
    then have eq: "start1 = start" "dst1 = dst" "s' = s" "v = scanContinue"
      using assms(6) stay s(1) by (auto simp: escape_sep_def escape_html_def is_html_def Let_def)
    show ?thesis using eq s assms(5) skip by (cases "start = Suc i") (auto simp: pending_def ahead_def)
  next
    case sep
    then obtain x r where xr: "drop i src = 0xe2 # 0x80 # x # r" "x AND NOT 1 = 0xa8" by (auto simp: starts_sep_def)
    then have c: "?c = 0xe2" "?r = 0x80 # x # r" using dr by simp_all
    have x: "x \<in> {0xa8, 0xa9}" using sep_tail [OF xr(2)] by simp
    have s: "sc_step s = InString" using inside_only [OF assms(1) lang] c(1) by simp
    have eq1: "s' = s" "v = scanContinue" using stay [OF s] c(1) by simp_all
    have len: "i + 3 \<le> length src" using arg_cong [OF xr(1), of length] by simp
    have nth: "src ! (i + 2) = x" "drop (i + 3) src = r" "src ! Suc i = 0x80"
      using arg_cong [OF xr(1), of "\<lambda>w. w ! 2"] arg_cong [OF xr(1), of "drop 3"] arg_cong [OF xr(1), of "\<lambda>w. w ! 1"] len
      by (simp_all add: add.commute)
    have "is_line_sep src i" using sep(2) is_line_sep_drop assms(4) by blast
    then have eq2: "start1 = i + 3" "dst1 = dst @ take (i - start) (drop start src) @ sep_text x"
      using assms(6) c(1) nth(1) by (auto simp: escape_sep_def escape_html_def sep_text_def write_from_take)
    have k: "k = Suc i \<or> k = i + 2" if "Suc i \<le> k" "k < i + 3" for k using that by arith
    have str: "strip Str (drop i src) = 0xe2 # 0x80 # x # strip Str r" using xr(1) x by auto
    have "escapes b (strip Str (drop i src)) = sep_text x @ escapes b (strip Str r)"
      unfolding str using xr(2) by (subst escapes_sep) (auto simp: starts_sep_def)
    then show ?thesis using eq1 eq2 nth x s len sep(1) k
      by (auto simp: pending_def ahead_def)
  next
    case html
    have s: "sc_step s = InString" using inside_only [OF assms(1) lang] html(3) by (auto simp: is_html_def)
    have eq1: "s' = s" "v = scanContinue" using stay [OF s] html(3) by (auto simp: is_html_def)
    have "\<not> is_line_sep src i" using html(3) by (auto simp: is_line_sep_def is_html_def)
    then have eq2: "start1 = i + 1" "dst1 = dst @ take (i - start) (drop start src) @ html_text ?c"
      using assms(6) html by (auto simp: escape_sep_def escape_html_def html_text_def write_from_take is_html_def Let_def)
    have "strip Str (drop i src) = ?c # strip Str ?r" using html(3) dr by (auto simp: is_html_def)
    then show ?thesis using eq1 eq2 s html assms(4) escapes_html [OF html(3)]
      by (auto simp: pending_def ahead_def)
  next
    case plain
    have "\<not> is_line_sep src i" using plain is_line_sep_drop assms(4) by blast
    then have eq: "start1 = start" "dst1 = dst"
      using assms(6) plain by (auto simp: escape_sep_def escape_html_def is_html_def Let_def)
    have tk: "take (Suc i - start) (drop start src) = take (i - start) (drop start src) @ [?c]"
      using plain(1) assms(4) by (simp add: Suc_diff_le take_Suc_conv_app_nth)
    show ?thesis
    proof (cases "smode s = Out \<and> isSpace (uint ?c)")
      case True
      then have "v = scanSkipSpace \<or> v = scanEnd" "smode s' = Out" using cl by (auto simp: classified_def)
      then show ?thesis using eq True dr plain(1) by (auto simp: pending_def ahead_def write_from_take)
    next
      case False
      then have v: "v \<noteq> scanSkipSpace" "v \<noteq> scanEnd" "smode s' = next_mode (smode s) (uint ?c)"
        using cl by (auto simp: classified_def)
      have "\<not> starts_sep (?c # strip (smode s') ?r)"
      proof
        assume ss: "starts_sep (?c # strip (smode s') ?r)"
        then have "?c = 0xe2" by (simp add: starts_sep_def)
        moreover from this have "sc_step s = InString" using inside_only [OF assms(1) lang] by simp
        ultimately have "smode s' = Str" using v(3) by simp
        with ss plain(2) show False by (simp add: starts_sep_strip dr)
      qed
      then have ns: "\<not> starts_sep (?c # strip (smode s') ?r)" .
      have st: "strip (smode s) (drop i src) = ?c # strip (smode s') ?r"
        unfolding dr strip.simps v(3) using False by (simp only: if_False)
      have "escapes b (strip (smode s) (drop i src)) = ?c # escapes b (strip (smode s') ?r)"
        unfolding st by (rule escapes_plain [OF ns plain(3)])
      then show ?thesis using eq v tk plain(1) by (auto simp: pending_def ahead_def)
    qed
  qed
qed


lemma step_in_lang:
  assumes "good s" "sc_err s = None" "c # w \<in> slang s"
  obtains s' v where "step s c = Inr (s', v)" "good s'" "sc_err s' = None" "w \<in> slang s'" "sc_bytes s' = sc_bytes s"
    "\<And>w. c # w \<in> slang s \<longleftrightarrow> w \<in> slang s'" "v \<noteq> scanError"
proof -
  obtain s' v where s': "step s c = Inr (s', v)" "good s'" "\<And>w. c # w \<in> slang s \<longleftrightarrow> w \<in> slang s'"
      "sc_bytes s' = sc_bytes s" "v = scanError \<Longrightarrow> sc_err s' \<noteq> None"
    using step_leads [OF assms(1,2), of c] by (auto simp: leads_def)
  moreover have "w \<in> slang s'" using s'(3) assms(3) by simp
  moreover from this have "sc_err s' = None" by (auto simp: slang_def split: if_splits)
  moreover from this have "v \<noteq> scanError" using s'(5) by blast
  ultimately show thesis using that by blast
qed

declare compact_loop.simps [simp del]

lemma compact_loop_valid:
  assumes "good s" "sc_err s = None" "map uint (drop i src) \<in> slang s" "i \<le> length src" "ahead src i s start"
  shows "\<exists>s' start' dst'. compact_loop src b i s start dst = Inr (s', start', dst') \<and> good s' \<and> sc_err s' = None \<and>
    [] \<in> slang s' \<and> write_from src start' (length src) dst' = dst @ pending src b i s start"
  using assms
proof (induction src b i s start dst rule: compact_loop.induct)
  case (1 src b i s start dst)
  show ?case
  proof (cases "i < length src")
    case False
    then have i: "i = length src" using "1.prems"(4) by simp
    have "\<not> i < start" using "1.prems"(5) i by (auto simp: ahead_def)
    then show ?thesis using "1.prems"(1-4) i
      by (subst compact_loop.simps) (simp add: pending_def write_from_take)
  next
    case True
    have next_in: "uint (src ! i) # map uint (drop (Suc i) src) \<in> slang s"
      using "1.prems"(3) True by (metis Cons_nth_drop_Suc list.simps(9))
    obtain s' v where s': "step s (uint (src ! i)) = Inr (s', v)" "good s'" "sc_err s' = None"
        "map uint (drop (Suc i) src) \<in> slang s'" "v \<noteq> scanError"
      using step_in_lang [OF "1.prems"(1,2) next_in] by blast
    obtain start1 dst1 where e: "escape_sep src i (escape_html b src i (start, dst)) = (start1, dst1)"
      by (meson surj_pair)
    note turn = compact_turn [OF "1.prems"(1-3) True "1.prems"(5) e s'(1,3)]
    have i: "\<not> length src \<le> i" using True by simp
    have loop: "compact_loop src b i s start dst = (if v = scanSkipSpace \<or> v = scanEnd
        then compact_loop src b (i + 1) s' (i + 1) (write_from src start1 i dst1)
        else compact_loop src b (i + 1) s' start1 dst1)"
      using i s'(5) by (subst compact_loop.simps) (simp add: e s'(1))
    have L: "map uint (drop (i + 1) src) \<in> slang s'" "i + 1 \<le> length src" using s'(4) True by simp_all
    show ?thesis
    proof (cases "v = scanSkipSpace \<or> v = scanEnd")
      case t: True
      then show ?thesis
        using turn "1.IH"(1) [OF i e [symmetric] s'(5) t s'(2,3) L] unfolding loop by (auto split: if_splits)
    next
      case t: False
      then show ?thesis
        using turn "1.IH"(2) [OF i e [symmetric] s'(5) t s'(2,3) L] unfolding loop by (auto split: if_splits)
    qed
  qed
qed


text \<open>A text that is not accepted: the scan ends with an error, whose offset is the count of bytes that
  the scanner already had.\<close>

definition offs :: "scanner \<Rightarrow> bool" where
  "offs s \<longleftrightarrow> (\<forall>e. sc_err s = Some e \<longrightarrow> se_Offset e = sc_bytes s)"

lemma step_any:
  assumes "good s" "offs s"
  shows "\<exists>s' v. step s c = Inr (s', v) \<and> good s' \<and> offs s' \<and> sc_bytes s' = sc_bytes s \<and>
    (\<forall>w. c # w \<in> slang s \<longleftrightarrow> w \<in> slang s') \<and> (v = scanError \<longrightarrow> slang s' = {})"
proof (cases "sc_err s")
  case None
  then show ?thesis using step_leads [OF assms(1), of c] by (fastforce simp: leads_def offs_def slang_def)
next
  case (Some e)
  then show ?thesis using assms step_stuck [OF assms(1), of c] by (auto simp: slang_def)
qed

lemma eof_reject:
  assumes "good s" "offs s" "[] \<notin> slang s"
  shows "\<exists>s' e. eof s = Inr (s', scanError) \<and> sc_err s' = Some e \<and> se_Offset e = sc_bytes s"
proof (cases "sc_err s")
  case None
  then show ?thesis using eof_correct [OF assms(1) None] assms(3) by auto
next
  case (Some e)
  then show ?thesis using assms(2) by (simp add: eof_def offs_def)
qed

lemma compact_loop_invalid:
  assumes "good s" "offs s" "map uint (drop i src) \<notin> slang s" "i \<le> length src"
  shows "\<exists>s' start' out. compact_loop src b i s start dst = Inr (s', start', dst @ out) \<and> good s' \<and> offs s' \<and>
    sc_bytes s' = sc_bytes s \<and> [] \<notin> slang s'"
  using assms
proof (induction src b i s start dst rule: compact_loop.induct)
  case (1 src b i s start dst)
  show ?case
  proof (cases "i < length src")
    case False
    then show ?thesis using "1.prems" by (subst compact_loop.simps) simp
  next
    case True
    have dr: "map uint (drop i src) = uint (src ! i) # map uint (drop (Suc i) src)"
      using True by (metis Cons_nth_drop_Suc list.simps(9))
    obtain s' v where s': "step s (uint (src ! i)) = Inr (s', v)" "good s'" "offs s'" "sc_bytes s' = sc_bytes s"
        "\<And>w. uint (src ! i) # w \<in> slang s \<longleftrightarrow> w \<in> slang s'" "v = scanError \<Longrightarrow> slang s' = {}"
      using step_any [OF "1.prems"(1,2), of "uint (src ! i)"] by auto
    obtain start1 dst1 where e: "escape_sep src i (escape_html b src i (start, dst)) = (start1, dst1)"
      by (meson surj_pair)
    then obtain o1 where o1: "dst1 = dst @ o1"
      by (auto simp: escape_sep_def escape_html_def write_from_take Let_def split: if_splits)
    have i: "\<not> length src \<le> i" using True by simp
    have loop: "compact_loop src b i s start dst = (if v = scanError then Inr (s', start1, dst1)
        else if v = scanSkipSpace \<or> v = scanEnd
        then compact_loop src b (i + 1) s' (i + 1) (write_from src start1 i dst1)
        else compact_loop src b (i + 1) s' start1 dst1)"
      using i by (subst compact_loop.simps) (simp add: e s'(1))
    have L: "map uint (drop (i + 1) src) \<notin> slang s'" "i + 1 \<le> length src"
      using "1.prems"(3) dr s'(5) True by auto
    consider "v = scanError" | (sp) "v \<noteq> scanError" "v = scanSkipSpace \<or> v = scanEnd"
      | (cont) "v \<noteq> scanError" "\<not> (v = scanSkipSpace \<or> v = scanEnd)" by blast
    then show ?thesis
    proof cases
      case sp
      show ?thesis using "1.IH"(1) [OF i e [symmetric] sp s'(2,3) L] sp s'(4)
        unfolding loop o1 write_from_take by auto
    next
      case cont
      show ?thesis using "1.IH"(2) [OF i e [symmetric] cont s'(2,3) L] cont s'(4) unfolding loop o1 by auto
    qed (use s' o1 loop in auto)
  qed
qed

subsection \<open>The output is a text\<close>

lemma cat_skip: "[] \<in> A \<Longrightarrow> w \<in> B \<Longrightarrow> w \<in> cat A B"
  using catI [of "[]" A w B] by simp

text \<open>A space that the scanner skips can be left out.\<close>

lemma space_sub:
  assumes "good s" "sc_err s = None" "step s c = Inr (s', v)" "sc_err s' = None" "isSpace c" "smode s = Out"
  shows "slang s' \<subseteq> slang s"
proof -
  have nd: "\<not> is_digit c" "c \<noteq> 0x2e" "c \<noteq> 0x65" "c \<noteq> 0x45" "c \<le> 0x20" using assms(5) by (auto simp: isSpace_def is_digit_def)
  have ev: "slang s' \<subseteq> kont (rev (parseState s))" if "stateEndValue s c = Inr (s', v)"
    using that assms(4,5) nd by (auto simp: stateEndValue_def stateEndTop_def slang_def sc_error_def Let_def split: if_splits)
  have up: "kont (rev (parseState s)) \<subseteq> slang s" if "sc_step s \<in> {EndValue, State0, State1, Dot0, E0}"
    using that assms(2) by (auto simp: slang_def intro!: cat_skip)
  note st = assms(3) [unfolded step_def]
  consider (beg) "sc_step s \<in> {BeginValue, BeginValueOrEmpty, BeginString, BeginStringOrEmpty}" | (top) "sc_step s = EndTop"
    | (val) "sc_step s \<in> {EndValue, State0, State1, Dot0, E0}"
    | (rest) "sc_step s \<in> {Neg, Dot, StE, ESign, StT, Tr, Tru, StF, Fa, Fal, Fals, StN, Nu, Nul, StError, Redo}"
    using assms(6) by (cases "sc_step s") auto
  then show ?thesis
  proof cases
    case beg
    then show ?thesis using st assms(5) nd
      by (auto simp: stateBeginValue_def stateBeginValueOrEmpty_def stateBeginString_def stateBeginStringOrEmpty_def)
  next
    case top
    then show ?thesis using st assms(5) nd by (auto simp: stateEndTop_def sc_error_def isSpace_def)
  next
    case val
    then have "stateEndValue s c = Inr (s', v)"
      using st nd by (auto simp: state0_def state1_def stateDot0_def stateE0_def)
    then show ?thesis using ev up [OF val] by blast
  next
    case rest
    moreover have "sc_step s \<noteq> StError" "sc_step s \<noteq> Redo" using assms(1,2) by (auto simp: good_def)
    ultimately show ?thesis using st assms(4) nd
      by (elim insertE emptyE) (auto simp: state_defs sc_error_def is_digit_def split: if_splits)
  qed
qed

lemma strip_lang:
  "good s \<Longrightarrow> sc_err s = None \<Longrightarrow> map uint w \<in> slang s \<Longrightarrow> map uint (strip (smode s) w) \<in> slang s"
proof (induction w arbitrary: s)
  case (Cons c w)
  have cw: "uint c # map uint w \<in> slang s" using Cons.prems(3) by simp
  obtain s' v where s': "step s (uint c) = Inr (s', v)" "good s'" "sc_err s' = None" "map uint w \<in> slang s'"
      "\<And>w. uint c # w \<in> slang s \<longleftrightarrow> w \<in> slang s'"
    using step_in_lang [OF Cons.prems(1,2) cw] by blast
  note cl = step_classified [OF Cons.prems(1,2) s'(1,3)]
  note IH = Cons.IH [OF s'(2-4)]
  show ?case
  proof (cases "smode s = Out \<and> isSpace (uint c)")
    case True
    then have "smode s' = Out" using cl by (simp add: classified_def)
    then show ?thesis using True IH space_sub [OF Cons.prems(1,2) s'(1,3)] by auto
  next
    case False
    have "strip (smode s) (c # w) = c # strip (smode s') w" using strip_keep [OF False] classified_keep [OF cl False] by simp
    then show ?thesis using IH s'(5) by simp
  qed
qed simp


text \<open>Escaping inside strings keeps a text a text.\<close>

lemma instring_lang:
  assumes "sc_step s = InString" "sc_err s = None"
  shows "c \<noteq> 0x22 \<Longrightarrow> c \<noteq> 0x5c \<Longrightarrow> 0x20 \<le> c \<Longrightarrow> c # w \<in> slang s \<longleftrightarrow> w \<in> slang s"
    and "is_hexdigit h1 \<Longrightarrow> is_hexdigit h2 \<Longrightarrow> is_hexdigit h3 \<Longrightarrow> is_hexdigit h4 \<Longrightarrow>
      0x5c # 0x75 # h1 # h2 # h3 # h4 # w \<in> slang s \<longleftrightarrow> w \<in> slang s"
proof -
  show "c \<noteq> 0x22 \<Longrightarrow> c \<noteq> 0x5c \<Longrightarrow> 0x20 \<le> c \<Longrightarrow> c # w \<in> slang s \<longleftrightarrow> w \<in> slang s"
    using assms by (simp add: slang_def str_heads)
  have "h1 # h2 # h3 # h4 # w \<in> cat (hexes (Suc (Suc (Suc (Suc 0))))) A \<longleftrightarrow> w \<in> cat str_rest A"
    if "is_hexdigit h1" "is_hexdigit h2" "is_hexdigit h3" "is_hexdigit h4" for A
    using that by (simp add: hexes_heads del: hexes.simps(2))
  then show "is_hexdigit h1 \<Longrightarrow> is_hexdigit h2 \<Longrightarrow> is_hexdigit h3 \<Longrightarrow> is_hexdigit h4 \<Longrightarrow>
      0x5c # 0x75 # h1 # h2 # h3 # h4 # w \<in> slang s \<longleftrightarrow> w \<in> slang s"
    using assms by (simp add: slang_def str_heads esc_heads is_escape_def numeral_eq_Suc del: hexes.simps(2))
qed

lemma hex_chars_hex: "n < 16 \<Longrightarrow> is_hexdigit (uint (hex_chars ! n))"
proof -
  have "\<forall>x \<in> set hex_chars. is_hexdigit (uint x)" by (simp add: hex_chars_def is_hexdigit_def)
  moreover have "length hex_chars = 16" by (simp add: hex_chars_def)
  ultimately show "n < 16 \<Longrightarrow> ?thesis" using nth_mem [of n hex_chars] by simp
qed

lemma hex_digit_hex: "is_hexdigit (uint (hex_digit (c AND 0xf)))" "is_hexdigit (uint (hex_digit (drop_bit 4 c)))"
proof -
  have "unat (c AND 0xf) < 16"
    using word_and_le1 [of c "0xf"] by (simp add: word_le_nat_alt)
  then show "is_hexdigit (uint (hex_digit (c AND 0xf)))" unfolding hex_digit_def by (rule hex_chars_hex)
  have "unat (drop_bit 4 c) < 16" using unsigned_less [of c, where 'a = nat] by (simp add: drop_bit_eq_div unat_div)
  then show "is_hexdigit (uint (hex_digit (drop_bit 4 c)))" unfolding hex_digit_def by (rule hex_chars_hex)
qed

lemma escapes_lang:
  "good s \<Longrightarrow> sc_err s = None \<Longrightarrow> map uint w \<in> slang s \<Longrightarrow> map uint (escapes b w) \<in> slang s"
proof (induction "length w" arbitrary: s w rule: less_induct)
  case less
  show ?case
  proof (cases w)
    case (Cons c r)
    have cw: "uint c # map uint r \<in> slang s" using less.prems(3) Cons by simp
    consider (sep) "starts_sep w" | (html) "b" "is_html c" "\<not> starts_sep w" | (plain) "\<not> starts_sep w" "\<not> (b \<and> is_html c)" by blast
    then show ?thesis
    proof cases
      case sep
      then obtain x t where w: "w = 0xe2 # 0x80 # x # t" "x AND NOT 1 = 0xa8" by (auto simp: starts_sep_def)
      have x: "x \<in> {0xa8, 0xa9}" using sep_tail [OF w(2)] by simp
      have s: "sc_step s = InString" using inside_only [OF less.prems(1) cw] Cons w by simp
      note il = instring_lang [OF s less.prems(2)]
      have "map uint t \<in> slang s" using less.prems(3) w(1) x il(1) by auto
      then have "map uint (escapes b t) \<in> slang s" using less.hyps [of t] less.prems w(1) by simp
      moreover have "escapes b w = sep_text x @ escapes b t" using escapes_sep [OF sep, of b] w(1) by simp
      ultimately show ?thesis using il(2) [of "0x32" "0x30" "0x32"] hex_digit_hex
        by (simp add: sep_text_def is_hexdigit_def)
    next
      case html
      have s: "sc_step s = InString" using inside_only [OF less.prems(1) cw] html(2) by (auto simp: is_html_def)
      note il = instring_lang [OF s less.prems(2)]
      have "map uint r \<in> slang s" using cw html(2) il(1) by (auto simp: is_html_def)
      then have "map uint (escapes b r) \<in> slang s" using less.hyps [of r] less.prems Cons by simp
      then show ?thesis using il(2) [of "0x30" "0x30"] hex_digit_hex escapes_html [OF html(2)] html(1) Cons
        by (simp add: html_text_def is_hexdigit_def)
    next
      case plain
      obtain s' v where s': "good s'" "sc_err s' = None" "map uint r \<in> slang s'"
          "\<And>w. uint c # w \<in> slang s \<longleftrightarrow> w \<in> slang s'"
        using step_in_lang [OF less.prems(1,2) cw] by blast
      have "map uint (escapes b r) \<in> slang s'" using less.hyps [of r] s' Cons by simp
      then show ?thesis using s'(4) escapes_plain [OF plain(1) [unfolded Cons] plain(2)] Cons by simp
    qed
  qed (use less.prems in simp)
qed

lemma compact_valid:
  assumes "json_text src"
  shows "compact dst src escape = Inr (dst @ escapes escape (strip Out src), None)"
proof -
  let ?s = "reset zero_scanner"
  note s = slang_reset(1,3) [of zero_scanner]
  have m: "smode ?s = Out" by (simp add: reset_def)
  have L: "map uint (drop 0 src) \<in> slang ?s" using assms by (simp add: slang_reset json_text_def)
  obtain s' start' dst' where c: "compact_loop src escape 0 ?s 0 dst = Inr (s', start', dst')" "good s'" "sc_err s' = None"
      "[] \<in> slang s'" "write_from src start' (length src) dst' = dst @ pending src escape 0 ?s 0"
    using compact_loop_valid [OF s L, of 0 escape dst] by (auto simp: ahead_def)
  obtain s2 where "eof s' = Inr (s2, scanEnd)" using eof_correct [OF c(2,3)] c(4) by auto
  then show ?thesis using c by (simp add: compact_def pending_def m)
qed

text \<open>C11: \<open>Compact\<close> never panics. For a JSON text it appends the text without the white space outside
  strings and, in strings, with U+2028 and U+2029 escaped, and \<open>&\<close>, \<open><\<close> and \<open>>\<close> too when \<open>escape\<close> is
  set; the result is a JSON text again. For anything else it leaves the buffer as it was and returns an error,
  whose offset is 0 whatever the number of bytes read.\<close>

theorem compact_correct:
  "if json_text src
   then (let out = escapes escape (strip Out src) in
     compact dst src escape = Inr (dst @ out, None) \<and> json_text out)
   else (\<exists>e. compact dst src escape = Inr (dst, Some e) \<and> se_Offset e = 0)"
proof (cases "json_text src")
  case True
  let ?s = "reset zero_scanner"
  have m: "smode ?s = Out" by (simp add: reset_def)
  have "map uint src \<in> slang ?s" using True by (simp add: slang_reset json_text_def)
  then have "map uint (strip Out src) \<in> slang ?s" using strip_lang [OF slang_reset(1,3)] m by metis
  then have "json_text (escapes escape (strip Out src))"
    using escapes_lang [OF slang_reset(1,3)] by (simp add: slang_reset json_text_def)
  then show ?thesis using True compact_valid [OF True] by (simp add: Let_def)
next
  case False
  let ?s = "reset zero_scanner"
  have L: "map uint (drop 0 src) \<notin> slang ?s" using False by (simp add: slang_reset json_text_def)
  have o: "offs ?s" by (simp add: offs_def slang_reset)
  obtain s' start' out where c: "compact_loop src escape 0 ?s 0 dst = Inr (s', start', dst @ out)" "good s'" "offs s'"
      "sc_bytes s' = sc_bytes ?s" "[] \<notin> slang s'"
    using compact_loop_invalid [OF slang_reset(1) o L, of escape 0 dst] by auto
  obtain s2 e where "eof s' = Inr (s2, scanError)" "sc_err s2 = Some e" "se_Offset e = sc_bytes s'"
    using eof_reject [OF c(2,3,5)] by blast
  then show ?thesis using False c by (simp add: compact_def slang_reset(4) zero_scanner_def)
qed


section \<open>Indent\<close>

text \<open>What the loop of \<open>Indent\<close> uses of a step.\<close>

definition opened :: "scanner \<Rightarrow> bool" where
  "opened s \<longleftrightarrow> sc_step s \<in> {BeginValueOrEmpty, BeginStringOrEmpty}"

definition front :: "scanner \<Rightarrow> bool" where
  "front s \<longleftrightarrow> sc_step s \<in> {BeginValue, BeginString, BeginValueOrEmpty, BeginStringOrEmpty}"

definition layout_ok :: "scanner \<Rightarrow> int \<Rightarrow> scanner \<Rightarrow> opcode \<Rightarrow> bool" where
  "layout_ok s c s' v \<longleftrightarrow>
     (v = scanSkipSpace \<longrightarrow> (opened s' \<longleftrightarrow> opened s)) \<and>
     (v \<noteq> scanSkipSpace \<longrightarrow> (opened s' \<longleftrightarrow> v \<noteq> scanContinue \<and> (c = 0x7b \<or> c = 0x5b))) \<and>
     (v = scanContinue \<longrightarrow> \<not> opened s) \<and>
     (v \<noteq> scanContinue \<and> (c = 0x2c \<or> c = 0x3a) \<longrightarrow> front s') \<and>
     (v = scanEndObject \<or> v = scanEndArray \<longleftrightarrow> v \<noteq> scanContinue \<and> (c = 0x7d \<or> c = 0x5d)) \<and>
     (v \<noteq> scanContinue \<longrightarrow> smode s = Out)"

lemma endvalue_layout:
  assumes "stateEndValue s c = Inr (s', v)" "sc_err s = None" "sc_err s' = None" "smode s = Out"
  shows "v \<noteq> scanContinue \<and> (opened s' \<longleftrightarrow> False) \<and> c \<noteq> 0x7b \<and> c \<noteq> 0x5b \<and> (c = 0x2c \<or> c = 0x3a \<longrightarrow> front s') \<and>
    (v = scanEndObject \<or> v = scanEndArray \<longleftrightarrow> c = 0x7d \<or> c = 0x5d)"
  using assms
  by (auto simp: stateEndValue_def stateEndTop_def sc_error_def popParseState_def set_top_def isSpace_def Let_def
      opened_def front_def split: if_splits pstate.splits)


lemma step_layout:
  assumes "good s" "sc_err s = None" "step s c = Inr (s', v)" "sc_err s' = None"
  shows "layout_ok s c s' v"
proof -
  have ne: "sc_step s \<noteq> StError" "sc_step s \<noteq> Redo" using assms(1,2) by (auto simp: good_def)
  note st = assms(3) [unfolded step_def]
  have ev: "layout_ok s c s' v" if "stateEndValue s c = Inr (s', v)" "sc_step s \<in> {EndValue, State0, State1, Dot0, E0}"
  proof -
    have "smode s = Out" "\<not> opened s" using that(2) by (auto simp: opened_def)
    with endvalue_layout [OF that(1) assms(2,4)] show ?thesis by (simp add: layout_ok_def)
  qed
  have bv: "stateBeginValue s c = Inr (s', v) \<Longrightarrow> smode s = Out \<Longrightarrow> layout_ok s c s' v"
    using assms(4) by (auto simp: stateBeginValue_def layout_ok_def opened_def front_def isSpace_def pushParseState_def sc_error_def
        split: if_splits)
  have bs: "stateBeginString s c = Inr (s', v) \<Longrightarrow> smode s = Out \<Longrightarrow> layout_ok s c s' v"
    using assms(4) by (auto simp: stateBeginString_def layout_ok_def opened_def front_def isSpace_def sc_error_def split: if_splits)
  have c0: "state0 s c = Inr (s', v) \<Longrightarrow> sc_step s \<in> {State0, State1} \<Longrightarrow> layout_ok s c s' v"
    using ev by (auto simp: state0_def layout_ok_def opened_def split: if_splits)
  show ?thesis
  proof (cases "sc_step s")
    case BeginValueOrEmpty
    have "layout_ok s c s' v" if "stateEndValue s c = Inr (s', v)" "c = 0x5d"
      using endvalue_layout [OF that(1) assms(2,4)] that BeginValueOrEmpty by (auto simp: layout_ok_def stateEndValue_def isSpace_def
          stateEndTop_def sc_error_def split: if_splits)
    then show ?thesis using st bv BeginValueOrEmpty
      by (auto simp: stateBeginValueOrEmpty_def layout_ok_def isSpace_def split: if_splits)
  next
    case BeginStringOrEmpty
    let ?s = "s\<lparr>parseState := (parseState s)[length (parseState s) - 1 := parseObjectValue]\<rparr>"
    have "layout_ok s c s' v" if "stateEndValue ?s c = Inr (s', v)" "c = 0x7d"
      using endvalue_layout [OF that(1)] that assms(2,4) BeginStringOrEmpty by (auto simp: layout_ok_def stateEndValue_def isSpace_def
          stateEndTop_def sc_error_def split: if_splits)
    then show ?thesis using st bs BeginStringOrEmpty
      by (auto simp: stateBeginStringOrEmpty_def set_top_def layout_ok_def isSpace_def Let_def split: if_splits)
  next
    case EndTop
    then show ?thesis using st assms(4)
      by (auto simp: stateEndTop_def sc_error_def layout_ok_def opened_def front_def split: if_splits)
  next
    case Dot0
    then show ?thesis using st ev by (auto simp: stateDot0_def layout_ok_def opened_def split: if_splits)
  next
    case E0
    then show ?thesis using st ev by (auto simp: stateE0_def layout_ok_def opened_def split: if_splits)
  next
    case State1
    then show ?thesis using st c0 by (auto simp: state1_def layout_ok_def opened_def split: if_splits)
  next
    case EndValue
    then show ?thesis using st ev by simp
  next
    case State0
    then show ?thesis using st c0 by simp
  next
    case BeginValue
    then show ?thesis using st bv by simp
  next
    case BeginString
    then show ?thesis using st bs by simp
  qed (use st assms(4) ne in \<open>auto simp: state_defs sc_error_def layout_ok_def opened_def split: if_splits\<close>)
qed


abbreviation blank :: "byte list \<Rightarrow> bool" where
  "blank w \<equiv> map uint w \<in> spaces"

lemma newline_blank: "blank prefix \<Longrightarrow> blank indent \<Longrightarrow> \<exists>w. newline dst prefix indent depth = dst @ w \<and> blank w"
  by (rule exI [of _ "[0x0a] @ prefix @ concat (replicate (nat depth) indent)"])
    (auto simp: newline_def spaces_def isSpace_def)

lemma blank_front: "blank w \<Longrightarrow> v \<in> cat spaces A \<Longrightarrow> map uint w @ v \<in> cat spaces A"
proof -
  assume "blank w" "v \<in> cat spaces A"
  then obtain x y where xy: "v = x @ y" "x \<in> spaces" "y \<in> A" by (auto simp: cat_def)
  have "map uint w @ x \<in> spaces" using \<open>blank w\<close> xy(2) by (auto simp: spaces_def)
  from catI [OF this xy(3)] show ?thesis by (simp add: xy(1))
qed

lemma blank_kont: "blank w \<Longrightarrow> v \<in> kont st \<Longrightarrow> map uint w @ v \<in> kont st"
proof -
  assume w: "blank w" "v \<in> kont st"
  have "\<exists>A. kont st = cat spaces A"
  proof (cases st)
    case (Cons p r)
    then show ?thesis by (cases p) (auto simp: kont.simps(2))
  qed (auto intro: exI [of _ eps])
  then show ?thesis using blank_front [OF w(1)] w(2) by auto
qed

lemma blank_before:
  assumes "blank w" "u \<in> slang s" "front s"
  shows "map uint w @ u \<in> slang s"
  using assms(2,3) blank_front [OF assms(1)] by (auto simp: slang_def front_def split: if_splits)

lemma blank_close:
  assumes "good s" "blank w" "c # u \<in> slang s" "\<not> opened s" "smode s = Out" "c = 0x7d \<or> c = 0x5d"
  shows "map uint w @ c # u \<in> slang s"
proof -
  have err: "sc_err s = None" using assms(3) by (auto simp: slang_def split: if_splits)
  have c: "\<not> is_digit c" "\<not> isSpace c" "c \<notin> {0x22, 0x2e, 0x65, 0x45, 0x2b, 0x2d, 0x72, 0x75, 0x61, 0x6c, 0x73, 0x65}"
      "\<And>x A. c # x \<notin> cat jvalue A" "\<And>x A. c # x \<notin> cat int_part A"
      "\<And>x. c # x \<notin> spaces"
    using assms(6) by (auto simp: is_digit_def isSpace_def value_heads int_heads spaces_def)
  have "sc_step s \<in> {EndValue, State0, State1, Dot0, E0} \<and> c # u \<in> kont (rev (parseState s))"
    using assms(1,3-5) err c
    by (cases "sc_step s") (auto simp: slang_def opened_def good_def spaces_heads digs_heads digs1_heads frac_heads exp_heads
        signed_digs_heads)
  then show ?thesis using blank_kont [OF assms(2)] err by (auto simp: slang_def intro!: cat_skip)
qed

lemma strip_blank: "blank w \<Longrightarrow> strip Out (w @ v) = strip Out v"
  by (induction w) (auto simp: spaces_def)

text \<open>One turn of the loop: the byte, with white space before or behind it where the scanner skips it.\<close>

lemma Indent_turn:
  assumes "blank prefix" "blank indent" "need = opened s"
    and st: "step (s\<lparr>sc_bytes := sc_bytes s + 1\<rparr>) (uint c) = Inr (s', v)" and v: "v \<noteq> scanSkipSpace" "v \<noteq> scanError"
    and lay: "layout_ok s (uint c) s' v"
  shows "\<exists>pre post depth'.
     Indent_loop prefix indent (c # cs) s need depth dst = Indent_loop prefix indent cs s' (opened s') depth' (dst @ pre @ [c] @ post) \<and>
     blank pre \<and> blank post \<and>
     (pre = [] \<or> opened s \<or> v \<noteq> scanContinue \<and> \<not> opened s \<and> (uint c = 0x7d \<or> uint c = 0x5d)) \<and>
     (post = [] \<or> front s' \<and> v \<noteq> scanContinue \<and> (uint c = 0x2c \<or> uint c = 0x3a))"
proof -
  have nl: "\<exists>w. newline d prefix indent n = d @ w \<and> blank w" for d n by (rule newline_blank [OF assms(1,2)])
  have cc: "uint c = 0x7b \<longleftrightarrow> c = 0x7b" "uint c = 0x5b \<longleftrightarrow> c = 0x5b" "uint c = 0x2c \<longleftrightarrow> c = 0x2c" "uint c = 0x3a \<longleftrightarrow> c = 0x3a"
      "uint c = 0x7d \<longleftrightarrow> c = 0x7d" "uint c = 0x5d \<longleftrightarrow> c = 0x5d"
    by (simp_all add: word_uint_eq_iff)
  note l = lay [unfolded layout_ok_def cc]
  define pre where "pre = (if need \<and> v \<noteq> scanEndObject \<and> v \<noteq> scanEndArray then newline [] prefix indent (depth + 1)
    else if v \<noteq> scanContinue \<and> (c = 0x7d \<or> c = 0x5d) \<and> \<not> need then newline [] prefix indent (depth - 1) else [])"
  define d1 where "d1 = (if need \<and> v \<noteq> scanEndObject \<and> v \<noteq> scanEndArray then depth + 1 else depth)"
  define post where "post = (if v \<noteq> scanContinue \<and> c = 0x2c then newline [] prefix indent d1
    else if v \<noteq> scanContinue \<and> c = 0x3a then [0x20] else [])"
  define d2 where "d2 = (if v \<noteq> scanContinue \<and> (c = 0x7d \<or> c = 0x5d) \<and> \<not> need then d1 - 1 else d1)"
  have blanks: "blank pre" "blank post"
    using nl [of "[]"] by (auto simp: pre_def post_def spaces_def isSpace_def)
  have need: "v = scanContinue \<Longrightarrow> \<not> need" using l assms(3) by blast
  have e: "v = scanEndObject \<or> v = scanEndArray \<longleftrightarrow> v \<noteq> scanContinue \<and> (c = 0x7d \<or> c = 0x5d)"
    and o: "opened s' \<longleftrightarrow> v \<noteq> scanContinue \<and> (c = 0x7b \<or> c = 0x5b)" using l v by blast+
  have ed: "need \<and> v \<noteq> scanEndObject \<and> v \<noteq> scanEndArray \<longleftrightarrow> need \<and> \<not> (v \<noteq> scanContinue \<and> (c = 0x7d \<or> c = 0x5d))"
    using e by blast
  have loop: "Indent_loop prefix indent (c # cs) s need depth dst =
      (case (if need \<and> v \<noteq> scanEndObject \<and> v \<noteq> scanEndArray
         then (False, depth + 1, newline dst prefix indent (depth + 1)) else (need, depth, dst)) of
       (needIndent, depth, dst) \<Rightarrow>
         if v = scanContinue then Indent_loop prefix indent cs s' needIndent depth (dst @ [c])
         else if c = 0x7b \<or> c = 0x5b then Indent_loop prefix indent cs s' True depth (dst @ [c])
         else if c = 0x2c then Indent_loop prefix indent cs s' needIndent depth (newline (dst @ [c]) prefix indent depth)
         else if c = 0x3a then Indent_loop prefix indent cs s' needIndent depth (dst @ [c] @ [0x20])
         else if c = 0x7d \<or> c = 0x5d
         then (if needIndent then Indent_loop prefix indent cs s' False depth (dst @ [c])
               else Indent_loop prefix indent cs s' needIndent (depth - 1) (newline dst prefix indent (depth - 1) @ [c]))
         else Indent_loop prefix indent cs s' needIndent depth (dst @ [c]))"
    unfolding Indent_loop.simps st bindE.simps prod.case using v by (simp only: if_False)
  have "Indent_loop prefix indent (c # cs) s need depth dst = Indent_loop prefix indent cs s' (opened s') d2 (dst @ pre @ [c] @ post)"
  proof (cases "v = scanContinue")
    case True
    then show ?thesis using need o unfolding loop pre_def post_def d1_def d2_def by simp
  next
    case False
    consider "c = 0x7b \<or> c = 0x5b" | "c = 0x2c" | "c = 0x3a" | "c = 0x7d \<or> c = 0x5d"
      | "c \<notin> {0x7b, 0x5b, 0x2c, 0x3a, 0x7d, 0x5d}" by blast
    then show ?thesis using False o
      unfolding loop pre_def post_def d1_def d2_def ed
      by cases (auto simp: newline_def)
  qed
  moreover have "pre = [] \<or> opened s \<or> v \<noteq> scanContinue \<and> \<not> opened s \<and> (c = 0x7d \<or> c = 0x5d)"
    using assms(3) by (cases need) (simp_all add: pre_def)
  moreover have "v \<noteq> scanContinue \<Longrightarrow> c = 0x2c \<or> c = 0x3a \<Longrightarrow> front s'" using l by blast
  then have "post = [] \<or> front s' \<and> v \<noteq> scanContinue \<and> (c = 0x2c \<or> c = 0x3a)" by (simp add: post_def)
  ultimately show ?thesis unfolding cc using blanks by blast
qed


lemma Indent_loop_valid:
  assumes "blank prefix" "blank indent" "good s" "sc_err s = None" "map uint cs \<in> slang s" "need = opened s"
  shows "\<exists>s' out. Indent_loop prefix indent cs s need depth dst = Inr (s', dst @ out) \<and> good s' \<and> sc_err s' = None \<and>
    [] \<in> slang s' \<and> map uint out \<in> slang s \<and> strip (smode s) out = strip (smode s) cs"
  using assms(3-6)
proof (induction cs arbitrary: s need depth dst)
  case (Cons c cs)
  let ?s = "s\<lparr>sc_bytes := sc_bytes s + 1\<rparr>"
  have in0: "good ?s" "sc_err ?s = None" "uint c # map uint cs \<in> slang ?s" using Cons.prems by simp_all
  obtain s' v where s': "step ?s (uint c) = Inr (s', v)" "good s'" "sc_err s' = None" "map uint cs \<in> slang s'"
      "\<And>w. uint c # w \<in> slang ?s \<longleftrightarrow> w \<in> slang s'" "v \<noteq> scanError"
    using step_in_lang [OF in0] by blast
  have lang: "uint c # w \<in> slang s \<longleftrightarrow> w \<in> slang s'" for w using s'(5) by simp
  have cl: "classified s (uint c) s' v" using step_classified [OF in0(1,2) s'(1,3)] by (simp add: classified_def)
  have lay: "layout_ok s (uint c) s' v" using step_layout [OF in0(1,2) s'(1,3)] by (simp add: layout_ok_def opened_def)
  show ?case
  proof (cases "v = scanSkipSpace")
    case True
    have m: "smode s = Out \<and> isSpace (uint c)" using cl True by (auto simp: classified_def split: if_splits)
    with cl have m': "smode s' = Out" by (simp add: classified_def)
    have "need = opened s'" using lay True Cons.prems(4) by (simp add: layout_ok_def)
    from Cons.IH [OF s'(2-4) this] obtain s2 out where out: "Indent_loop prefix indent cs s' need depth dst = Inr (s2, dst @ out)"
        "good s2" "sc_err s2 = None" "[] \<in> slang s2" "map uint out \<in> slang s'" "strip (smode s') out = strip (smode s') cs"
      by blast
    have "map uint out \<in> slang s" using space_sub [OF in0(1,2) s'(1,3)] m out(5) by auto
    then show ?thesis using out m m' s'(1) True by simp
  next
    case False
    obtain pre post d where t: "Indent_loop prefix indent (c # cs) s need depth dst =
        Indent_loop prefix indent cs s' (opened s') d (dst @ pre @ [c] @ post)"
      and bl: "blank pre" "blank post"
      and pre: "pre = [] \<or> opened s \<or> v \<noteq> scanContinue \<and> \<not> opened s \<and> (uint c = 0x7d \<or> uint c = 0x5d)"
      and post: "post = [] \<or> front s' \<and> v \<noteq> scanContinue \<and> (uint c = 0x2c \<or> uint c = 0x3a)"
      using Indent_turn [OF assms(1,2) Cons.prems(4) s'(1) False s'(6) lay] by blast
    obtain s2 out where out: "Indent_loop prefix indent cs s' (opened s') d (dst @ pre @ [c] @ post) =
        Inr (s2, (dst @ pre @ [c] @ post) @ out)"
        "good s2" "sc_err s2 = None" "[] \<in> slang s2" "map uint out \<in> slang s'" "strip (smode s') out = strip (smode s') cs"
      using Cons.IH [OF s'(2-4) refl] by blast
    have out_m: "v \<noteq> scanContinue \<Longrightarrow> smode s = Out" "opened s \<Longrightarrow> smode s = Out"
      using lay by (auto simp: layout_ok_def opened_def)
    have post_in: "map uint (post @ out) \<in> slang s'"
      using post blank_before [OF bl(2) out(5)] out(5) by auto
    have strip_post: "strip (smode s') (post @ out) = strip (smode s') out"
    proof (cases "post = []")
      case False
      with post have "front s'" by blast
      then have "smode s' = Out" by (auto simp: front_def)
      then show ?thesis using strip_blank [OF bl(2)] by simp
    qed simp
    have c_in: "map uint (c # post @ out) \<in> slang s" using post_in lang by simp
    have "map uint (pre @ c # post @ out) \<in> slang s"
    proof -
      consider "pre = []" | "opened s" | "\<not> opened s" "v \<noteq> scanContinue" "uint c = 0x7d \<or> uint c = 0x5d" using pre by blast
      then show ?thesis
      proof cases
        case 2
        then have "front s" by (auto simp: opened_def front_def)
        then show ?thesis using blank_before [OF bl(1) c_in] by simp
      next
        case 3
        then show ?thesis using blank_close [OF Cons.prems(1) bl(1), of "uint c"] c_in out_m by simp
      qed (use c_in in simp)
    qed
    moreover have "strip (smode s) (pre @ c # post @ out) = strip (smode s) (c # cs)"
    proof -
      have "strip (smode s) (pre @ c # post @ out) = strip (smode s) (c # post @ out)"
        using pre out_m strip_blank [OF bl(1)] by (cases "pre = []") auto
      also have "\<dots> = strip (smode s) (c # cs)"
      proof (cases "smode s = Out \<and> isSpace (uint c)")
        case True
        then have "smode s' = Out" using cl by (simp add: classified_def)
        then show ?thesis using True strip_post out(6) by simp
      next
        case False
        then show ?thesis
          using strip_keep [OF False] classified_keep [OF cl False] strip_post out(6) by simp
      qed
      finally show ?thesis .
    qed
    ultimately show ?thesis using out unfolding t by (intro exI [of _ s2] exI [of _ "pre @ c # post @ out"]) simp
  qed
qed simp


definition stuck_behind :: "byte list \<Rightarrow> panic + scanner \<times> byte list \<Rightarrow> bool" where
  "stuck_behind dst r \<longleftrightarrow> (\<exists>s' out. r = Inr (s', dst @ out) \<and> good s' \<and> [] \<notin> slang s')"

lemma Indent_loop_invalid:
  assumes "good s" "map uint cs \<notin> slang s"
  shows "stuck_behind dst (Indent_loop prefix indent cs s need depth dst)"
  using assms
proof (induction cs arbitrary: s need depth dst)
  case (Cons c cs)
  let ?s = "s\<lparr>sc_bytes := sc_bytes s + 1\<rparr>"
  have "\<exists>s' v. step ?s (uint c) = Inr (s', v) \<and> good s' \<and> (uint c # map uint cs \<in> slang s \<longleftrightarrow> map uint cs \<in> slang s') \<and>
      (v = scanError \<longrightarrow> slang s' = {})"
  proof (cases "sc_err ?s")
    case None
    then show ?thesis using step_leads [of ?s "uint c"] Cons.prems(1) by (fastforce simp: leads_def slang_def)
  next
    case (Some e)
    then show ?thesis using step_stuck [of ?s "uint c"] Cons.prems(1) by (auto simp: slang_def)
  qed
  then obtain s' v where s': "step ?s (uint c) = Inr (s', v)" "good s'" "map uint cs \<notin> slang s'" "v = scanError \<Longrightarrow> [] \<notin> slang s'"
    using Cons.prems(2) by auto
  have IH: "stuck_behind dst (Indent_loop prefix indent cs s' need depth (dst @ o1))" for need depth o1
    using Cons.IH [OF s'(2,3), of "dst @ o1" need depth] by (auto simp: stuck_behind_def)
  have IH0: "stuck_behind dst (Indent_loop prefix indent cs s' need depth dst)" for need depth
    using IH [of need depth "[]"] by simp
  show ?case
  proof (cases "v = scanError")
    case True
    then show ?thesis using s' by (auto simp: stuck_behind_def)
  next
    case False
    then show ?thesis
      unfolding Indent_loop.simps s'(1) bindE.simps prod.case by (simp add: IH IH0 newline_def)
  qed
qed (auto simp: stuck_behind_def)

text \<open>C12: \<open>Indent\<close> never panics. For a JSON text, with a prefix and an indentation of white space, it appends
  a JSON text that differs from its source in white space outside strings only, so that \<open>compact\<close>
  gives the same for both. For anything else it leaves the buffer as it was and returns an error. It
  does not drop the white space at the end: the output can end in a newline.\<close>

theorem Indent_correct:
  assumes "blank prefix" "blank indent"
  shows "(if json_text src
     then (\<exists>out. Indent dst src prefix indent = Inr (dst @ out, None) \<and> json_text out \<and>
       strip Out out = strip Out src \<and> compact dst out escape = compact dst src escape)
     else (\<exists>e. Indent dst src prefix indent = Inr (dst, Some e))) \<and>
   Indent [] [0x7b, 0x7d, 0x0a] prefix indent = Inr ([0x7b, 0x7d, 0x0a], None)"
proof
  let ?s = "reset zero_scanner"
  note s = slang_reset(1,3) [of zero_scanner]
  have m: "smode ?s = Out" "\<not> opened ?s" by (simp_all add: reset_def opened_def)
  show "if json_text src
     then (\<exists>out. Indent dst src prefix indent = Inr (dst @ out, None) \<and> json_text out \<and>
       strip Out out = strip Out src \<and> compact dst out escape = compact dst src escape)
     else (\<exists>e. Indent dst src prefix indent = Inr (dst, Some e))"
  proof (cases "json_text src")
    case True
    then have L: "map uint src \<in> slang ?s" by (simp add: slang_reset json_text_def)
    obtain s' out where o: "Indent_loop prefix indent src ?s False 0 dst = Inr (s', dst @ out)" "good s'" "sc_err s' = None"
        "[] \<in> slang s'" "map uint out \<in> slang ?s" "strip Out out = strip Out src"
      using Indent_loop_valid [OF assms s L, of False 0 dst] m by auto
    obtain s2 where "eof s' = Inr (s2, scanEnd)" using eof_correct [OF o(2,3)] o(4) by auto
    then have "Indent dst src prefix indent = Inr (dst @ out, None)" using o(1) by (simp add: Indent_def)
    moreover have j: "json_text out" using o(5) by (simp add: slang_reset json_text_def)
    moreover have "compact dst out escape = compact dst src escape"
      using compact_valid [OF True] compact_valid [OF j] o(6) by simp
    ultimately show ?thesis using True o(6) by auto
  next
    case False
    then have "stuck_behind dst (Indent_loop prefix indent src ?s False 0 dst)"
      by (intro Indent_loop_invalid) (simp_all add: slang_reset json_text_def)
    then obtain s' out where o: "Indent_loop prefix indent src ?s False 0 dst = Inr (s', dst @ out)" "good s'" "[] \<notin> slang s'"
      by (auto simp: stuck_behind_def)
    have "\<exists>s2 e. eof s' = Inr (s2, scanError) \<and> sc_err s2 = Some e"
    proof (cases "sc_err s'")
      case None
      then show ?thesis using eof_correct [OF o(2) None] o(3) by auto
    qed (simp add: eof_def)
    then show ?thesis using False o(1) by (auto simp: Indent_def)
  qed
  show "Indent [] [0x7b, 0x7d, 0x0a] prefix indent = Inr ([0x7b, 0x7d, 0x0a], None)"
    by (simp add: Indent_def reset_def step_def stateBeginValue_def isSpace_def pushParseState_def stateBeginStringOrEmpty_def
        set_top_def stateEndValue_def popParseState_def stateEndTop_def eof_def)
qed

lemma Indent_correct_witness:
  "Indent [] [0x5b, 0x31, 0x5d] [] [0x20] = Inr ([0x5b, 0x0a, 0x20, 0x31, 0x0a, 0x5d], None) \<and>
   json_text [0x5b, 0x0a, 0x20, 0x31, 0x0a, 0x5d]"
proof -
  have i: "Indent [] [0x5b, 0x31, 0x5d] [] [0x20] = Inr ([0x5b, 0x0a, 0x20, 0x31, 0x0a, 0x5d], None)"
    by code_simp
  have b: "blank []" "blank [0x20]" by (simp_all add: spaces_def isSpace_def)
  show ?thesis using i Indent_correct [OF b, of "[0x5b, 0x31, 0x5d]" "[]"]
    by (cases "json_text [0x5b, 0x31, 0x5d]") auto
qed

end
