(* ===== verification/Go_Arith.thy ===== *)
theory Go_Arith
  imports Go_Prelude
begin

unbundle bit_operations_syntax

text \<open>
  Package math/big, arith.go: operations on single words and on vectors of words, in the portable
  versions (\<open>addVV_g\<close> and so on) that stand for the assembly of each platform. The model has 64-bit
  words. A vector operation gets the length of its result \<open>z\<close> and the operands, and returns the new
  contents of \<open>z\<close> and the carry; each loop reads index \<open>i\<close> of the operands before it writes index
  \<open>i\<close> of \<open>z\<close>, so \<open>z\<close> may be one of them.
\<close>

type_synonym Word = "64 word"

section \<open>Words\<close>

definition W2_mask :: Word where
  "W2_mask = mask 32"

definition addWW :: "Word \<Rightarrow> Word \<Rightarrow> Word \<Rightarrow> Word \<times> Word" where
  "addWW x y c =
     (let yc = y + c; z0 = x + yc in (if z0 < x \<or> yc < y then 1 else 0, z0))"

definition subWW :: "Word \<Rightarrow> Word \<Rightarrow> Word \<Rightarrow> Word \<times> Word" where
  "subWW x y c =
     (let yc = y + c; z0 = x - yc in (if z0 > x \<or> yc < y then 1 else 0, z0))"

definition mulWW :: "Word \<Rightarrow> Word \<Rightarrow> Word \<times> Word" where
  "mulWW x y =
     (let x0 = x AND W2_mask; x1 = drop_bit 32 x; y0 = y AND W2_mask; y1 = drop_bit 32 y;
          w0 = x0 * y0;
          t = x1 * y0 + drop_bit 32 w0;
          w1 = t AND W2_mask;
          w2 = drop_bit 32 t;
          w1 = w1 + x0 * y1;
          z1 = x1 * y1 + w2 + drop_bit 32 w1;
          z0 = x * y
      in (z1, z0))"

definition mulAddWWW :: "Word \<Rightarrow> Word \<Rightarrow> Word \<Rightarrow> Word \<times> Word" where
  "mulAddWWW x y c =
     (case mulWW x y of (z1, zz0) \<Rightarrow> let z0 = zz0 + c in (if z0 < zz0 then z1 + 1 else z1, z0))"

function bitLen_loop :: "Word \<Rightarrow> int \<Rightarrow> Word \<times> int" where
  "bitLen_loop x n = (if x \<ge> 0x8000 then bitLen_loop (drop_bit 16 x) (n + 16) else (x, n))"
  by pat_completeness auto

termination
  by (relation "measure (\<lambda>(x, n). unat x)") (auto simp: word_le_nat_alt drop_bit_eq_div unat_div)

definition bitLen :: "Word \<Rightarrow> int" where
  "bitLen x =
     (case bitLen_loop x 0 of (x, n) \<Rightarrow>
      case (if x \<ge> 0x80 then (drop_bit 8 x, n + 8) else (x, n)) of (x, n) \<Rightarrow>
      case (if x \<ge> 0x8 then (drop_bit 4 x, n + 4) else (x, n)) of (x, n) \<Rightarrow>
      case (if x \<ge> 0x2 then (drop_bit 2 x, n + 2) else (x, n)) of (x, n) \<Rightarrow>
      if x \<ge> 0x1 then n + 1 else n)"

definition log2 :: "Word \<Rightarrow> int" where
  "log2 x = bitLen x - 1"

definition leadingZeros :: "Word \<Rightarrow> nat" where
  "leadingZeros x = nat (64 - bitLen x)"

text \<open>The two correction loops of \<open>divWW\<close>: \<open>q\<close> is decremented while it is too large. \<open>un\<close> is the next
  half word of the dividend.\<close>

function divWW_correct :: "Word \<Rightarrow> Word \<Rightarrow> Word \<Rightarrow> Word \<Rightarrow> Word \<Rightarrow> Word" where
  "divWW_correct q rhat vn1 vn0 un =
     (if q \<ge> 0x100000000 \<or> q * vn0 > 0x100000000 * rhat + un
      then (let q' = q - 1; rhat' = rhat + vn1 in
        if rhat' \<ge> 0x100000000 then q' else divWW_correct q' rhat' vn1 vn0 un)
      else q)"
  by pat_completeness auto

termination
proof (relation "measure (\<lambda>(q, _). unat q)", goal_cases)
  case (2 q rhat vn1 vn0 un q' r')
  then have "q \<noteq> 0" by auto
  then show ?case using 2 by (simp add: unat_minus_one unat_gt_0)
qed simp

definition divWW :: "Word \<Rightarrow> Word \<Rightarrow> Word \<Rightarrow> Word \<times> Word" where
  "divWW u1 u0 v =
     (if u1 \<ge> v then (- 1, - 1)
      else let s = leadingZeros v; v = push_bit s v;
          vn1 = drop_bit 32 v; vn0 = v AND W2_mask;
          un32 = push_bit s u1 OR drop_bit (64 - s) u0;
          un10 = push_bit s u0;
          un1 = drop_bit 32 un10; un0 = un10 AND W2_mask;
          q1 = un32 div vn1;
          rhat = un32 - q1 * vn1;
          q1 = divWW_correct q1 rhat vn1 vn0 un1;
          un21 = un32 * 0x100000000 + un1 - q1 * v;
          q0 = un21 div vn1;
          rhat = un21 - q0 * vn1;
          q0 = divWW_correct q0 rhat vn1 vn0 un0
        in (q1 * 0x100000000 + q0, drop_bit s (un21 * 0x100000000 + un0 - q0 * v)))"

section \<open>Words are digits\<close>

definition base :: nat where
  "base = 2 ^ 64"

lemma unat_base [simp]: "unat (x :: Word) < base"
  using unsigned_less [of x, where 'a = nat] by (simp add: base_def)

lemma base_pos [simp]: "0 < base" "base \<noteq> 0" "Suc 0 < base"
  by (simp_all add: base_def)

lemma base_big: "2 \<le> base"
  by (simp add: base_def)

lemma base_half: "base = 2 ^ 32 * 2 ^ 32"
  by (simp add: base_def)

lemma unat_plus_base: "unat (x + y :: Word) = (unat x + unat y) mod base"
  by (simp add: unat_word_ariths base_def)

lemma unat_times_base: "unat (x * y :: Word) = (unat x * unat y) mod base"
  by (simp add: unat_word_ariths base_def)

lemma unat_plus_small: "unat x + unat y < base \<Longrightarrow> unat (x + y :: Word) = unat x + unat y"
  by (simp add: unat_plus_base)

lemma unat_plus_carry: "\<not> unat x + unat y < base \<Longrightarrow> unat (x + y :: Word) = unat x + unat y - base"
proof -
  assume "\<not> unat x + unat y < base"
  moreover have "unat x + unat y - base < base" using unat_base [of x] unat_base [of y] by linarith
  ultimately show ?thesis by (simp add: unat_plus_base le_mod_geq)
qed

lemma unat_drop: "unat (drop_bit k x :: Word) = unat x div 2 ^ k"
proof -
  have "unat (drop_bit k x) = drop_bit k (take_bit 64 (unat x))" by (simp only: unsigned_drop_bit_eq len_num0 len_bit0 len_num1) simp
  moreover have "take_bit 64 (unat x) = unat x" using unsigned_less [of x, where 'a = nat] by (simp add: take_bit_nat_eq_self)
  ultimately show ?thesis by (simp only: drop_bit_eq_div)
qed

lemma unat_times_small: "unat x * unat y < base \<Longrightarrow> unat (x * y :: Word) = unat x * unat y"
  by (simp add: unat_times_base)

lemma unat_minus_le: "y \<le> x \<Longrightarrow> unat (x - y :: Word) = unat x - unat y"
  by (simp add: unat_sub)

text \<open>Subtraction undoes addition modulo the base.\<close>

lemma unat_minus_base: "unat (x - y :: Word) + unat y = unat x + (if unat x < unat y then base else 0)"
proof (cases "unat x < unat y")
  case True
  have "(x - y) + y = x" by simp
  then have "(unat (x - y) + unat y) mod base = unat x" by (metis unat_plus_base)
  then have m: "(unat (x - y) + unat y) mod base = unat x" .
  have "\<not> unat (x - y) + unat y < base" using m True by auto
  then have "base \<le> unat (x - y) + unat y" "unat (x - y) + unat y - base < base"
    using unat_base [of "x - y"] unat_base [of y] by linarith+
  then show ?thesis using m True by (simp add: le_mod_geq)
next
  case False
  then show ?thesis by (simp add: unat_sub word_le_nat_alt)
qed

lemma drop32: "unat (drop_bit 32 (x :: Word)) = unat x div 2 ^ 32"
  by (simp add: drop_bit_eq_div unat_div)

lemma mask32: "unat (x AND W2_mask) = unat x mod 2 ^ 32"
proof -
  have "x AND W2_mask = take_bit 32 x" by (simp add: W2_mask_def take_bit_eq_mask)
  then have "unat (x AND W2_mask) = take_bit 32 (unat x)" by (simp only: unsigned_take_bit_eq)
  then show ?thesis by (simp only: take_bit_eq_mod)
qed

lemma half_lt [simp]: "unat (drop_bit 32 (x :: Word)) < 2 ^ 32" "unat (x AND W2_mask) < 2 ^ 32"
  using unat_base [of x] unfolding drop32 mask32 base_half by (simp_all add: less_mult_imp_div_less)

lemma halves: "unat x = unat (drop_bit 32 x) * 2 ^ 32 + unat (x AND W2_mask)"
  unfolding drop32 mask32 by simp

subsection \<open>Sums and products\<close>

lemma addWW_correct:
  assumes "addWW x y c = (z1, z0)" "unat c \<le> 1"
  shows "unat z1 * base + unat z0 = unat x + unat y + unat c" "unat z1 \<le> 1"
proof -
  define yc where "yc = y + c"
  have z: "z0 = x + yc" "z1 = (if z0 < x \<or> yc < y then 1 else 0)" using assms(1) by (auto simp: addWW_def Let_def yc_def)
  have yc: "unat yc = (unat y + unat c) mod base" by (simp add: yc_def unat_plus_base)
  have z0: "unat z0 = (unat x + unat yc) mod base" by (simp add: z unat_plus_base)
  show "unat z1 \<le> 1" by (simp add: z(2))
  show "unat z1 * base + unat z0 = unat x + unat y + unat c"
  proof (cases "unat y + unat c < base")
    case True
    then have yc: "unat yc = unat y + unat c" using yc by simp
    then have "\<not> yc < y" by (simp add: word_less_nat_alt)
    show ?thesis
    proof (cases "unat x + unat yc < base")
      case t: True
      then have "unat z0 = unat x + unat yc" using z0 by simp
      then show ?thesis using \<open>\<not> yc < y\<close> yc z(2) by (simp add: word_less_nat_alt)
    next
      case f: False
      then have "unat z0 = unat x + unat yc - base" using z0 unat_base [of x] unat_base [of yc] by (simp add: le_mod_geq)
      moreover from this have "unat z0 < unat x" using f unat_base [of yc] by linarith
      then have "z1 = 1" using z(2) by (simp add: word_less_nat_alt)
      ultimately show ?thesis using yc f by simp
    qed
  next
    case False
    then have e: "unat y + unat c = base" using assms(2) unat_base [of y] by linarith
    then have "unat yc = 0" and z0x: "unat z0 = unat x" using yc z0 by simp_all
    moreover have "0 < unat y" using e assms(2) base_big by linarith
    ultimately have "yc < y" "unat yc = 0" by (simp_all add: word_less_nat_alt)
    then show ?thesis using z(2) e z0x by simp
  qed
qed

lemma subWW_correct:
  assumes "subWW x y c = (z1, z0)" "unat c \<le> 1"
  shows "unat z0 + unat y + unat c = unat x + unat z1 * base" "unat z1 \<le> 1"
proof -
  define yc where "yc = y + c"
  have z: "z0 = x - yc" "z1 = (if z0 > x \<or> yc < y then 1 else 0)" using assms(1) by (auto simp: subWW_def Let_def yc_def)
  have yc: "unat yc = (unat y + unat c) mod base" by (simp add: yc_def unat_plus_base)
  note z0 = unat_minus_base [of x yc, folded z(1)]
  show "unat z1 \<le> 1" by (simp add: z(2))
  show "unat z0 + unat y + unat c = unat x + unat z1 * base"
  proof (cases "unat y + unat c < base")
    case True
    then have yc: "unat yc = unat y + unat c" using yc by simp
    then have n: "\<not> yc < y" by (simp add: word_less_nat_alt)
    have "unat x < unat z0" if "unat x < unat yc" using z0 unat_base [of yc] unfolding if_P [OF that] by linarith
    moreover have "\<not> unat x < unat z0" if "\<not> unat x < unat yc" using z0 unfolding if_not_P [OF that] by linarith
    ultimately have "unat x < unat z0 \<longleftrightarrow> unat x < unat yc" by blast
    then have "x < z0 \<longleftrightarrow> unat x < unat yc" by (simp add: word_less_nat_alt)
    then show ?thesis using z0 z(2) n yc by auto
  next
    case False
    then have e: "unat y + unat c = base" using assms(2) unat_base [of y] by linarith
    then have "unat yc = 0" using yc by simp
    moreover have "0 < unat y" using e assms(2) base_big by linarith
    ultimately have "yc < y" "unat yc = 0" by (simp_all add: word_less_nat_alt)
    then show ?thesis using z0 z(2) e by simp
  qed
qed


text \<open>The product of two words from the products of their halves.\<close>

lemma half_product:
  fixes x0 x1 y0 y1 :: nat
  assumes "x0 < H" "x1 < H" "y0 < H" "y1 < H" "1 < H"
  shows "x1 * y0 + x0 * y0 div H < H * H" "(x1 * y0 + x0 * y0 div H) mod H + x0 * y1 < H * H"
    and "(x1 * y1 + (x1 * y0 + x0 * y0 div H) div H + ((x1 * y0 + x0 * y0 div H) mod H + x0 * y1) div H) =
      ((x1 * H + x0) * (y1 * H + y0)) div (H * H)"
proof -
  let ?w0 = "x0 * y0" and ?t = "x1 * y0 + x0 * y0 div H"
  let ?w1 = "?t mod H + x0 * y1"
  have H: "0 < H" using assms(5) by simp
  have le: "a * b \<le> (H - 1) * (H - 1)" if "a < H" "b < H" for a b using that by (intro mult_le_mono) simp_all
  have sq: "(H - 1) * (H - 1) + (H - 1) < H * H" using assms(5) by (cases H) auto
  have "?w0 < H * H" using assms(1,3) by (simp add: mult_strict_mono)
  then have "?w0 div H < H" by (simp add: less_mult_imp_div_less)
  then show t: "?t < H * H" using le [OF assms(2,3)] sq by linarith
  have "?t mod H < H" using H by simp
  then show "?w1 < H * H" using le [OF assms(1,4)] sq by linarith
  have "(x1 * H + x0) * (y1 * H + y0) = x1 * y1 * (H * H) + (x1 * y0) * H + x0 * y1 * H + ?w0" by (simp add: algebra_simps)
  also have "\<dots> = x1 * y1 * (H * H) + (x1 * y0) * H + x0 * y1 * H + (?w0 div H * H + ?w0 mod H)" by simp
  also have "\<dots> = x1 * y1 * (H * H) + ?t * H + x0 * y1 * H + ?w0 mod H" by (simp only: distrib_right add.assoc add.left_commute add.commute)
  also have "\<dots> = x1 * y1 * (H * H) + (?t div H * H + ?t mod H) * H + x0 * y1 * H + ?w0 mod H" by (simp only: div_mult_mod_eq)
  also have "\<dots> = x1 * y1 * (H * H) + ?t div H * (H * H) + ?w1 * H + ?w0 mod H"
    by (simp only: distrib_right mult.assoc add.assoc add.left_commute add.commute)
  also have "\<dots> = x1 * y1 * (H * H) + ?t div H * (H * H) + (?w1 div H * H + ?w1 mod H) * H + ?w0 mod H"
    by (simp only: div_mult_mod_eq)
  also have "\<dots> = (x1 * y1 + ?t div H + ?w1 div H) * (H * H) + (?w1 mod H * H + ?w0 mod H)"
    by (simp only: distrib_right mult.assoc add.assoc add.left_commute add.commute)
  finally have e: "(x1 * H + x0) * (y1 * H + y0) =
      (x1 * y1 + ?t div H + ?w1 div H) * (H * H) + (?w1 mod H * H + ?w0 mod H)" .
  have m: "?w1 mod H < H" "?w0 mod H < H" using H by simp_all
  then have "?w1 mod H \<le> H - 1" by linarith
  then have "?w1 mod H * H + ?w0 mod H < (H - 1) * H + H" using m(2) by (meson add_le_less_mono mult_le_mono1)
  also have "\<dots> = H * H" using assms(5) by (cases H) auto
  finally show "x1 * y1 + ?t div H + ?w1 div H = ((x1 * H + x0) * (y1 * H + y0)) div (H * H)"
    unfolding e using H by simp
qed

lemma mulWW_correct:
  assumes "mulWW x y = (z1, z0)"
  shows "unat z1 * base + unat z0 = unat x * unat y"
proof -
  let ?H = "2 ^ 32 :: nat"
  define x0 x1 y0 y1 where d: "x0 = unat (x AND W2_mask)" "x1 = unat (drop_bit 32 x)" "y0 = unat (y AND W2_mask)" "y1 = unat (drop_bit 32 y)"
  have b: "x0 < ?H" "x1 < ?H" "y0 < ?H" "y1 < ?H" "1 < ?H" using half_lt by (simp_all only: d) simp
  note p = half_product [OF b]
  have sq: "a * c < base" if "a < ?H" "c < ?H" for a c unfolding base_half using that by (intro mult_strict_mono) simp_all
  have x: "unat x = x1 * ?H + x0" "unat y = y1 * ?H + y0" unfolding d by (rule halves)+
  define w0 where "w0 = (x AND W2_mask) * (y AND W2_mask)"
  have w0: "unat w0 = x0 * y0" using sq [OF b(1,3)] by (simp add: w0_def d unat_times_small)
  define t where "t = drop_bit 32 x * (y AND W2_mask) + drop_bit 32 w0"
  have "unat (drop_bit 32 x * (y AND W2_mask)) = x1 * y0" using sq [OF b(2,3)] by (simp add: d unat_times_small)
  then have t: "unat t = x1 * y0 + x0 * y0 div ?H"
    unfolding t_def using p(1) w0 by (subst unat_plus_small) (simp_all add: drop32 base_half)
  define w1 where "w1 = (t AND W2_mask) + (x AND W2_mask) * drop_bit 32 y"
  have "unat ((x AND W2_mask) * drop_bit 32 y) = x0 * y1" using sq [OF b(1,4)] by (simp add: d unat_times_small)
  then have w1: "unat w1 = unat t mod ?H + x0 * y1"
    unfolding w1_def using p(2) t by (subst unat_plus_small) (simp_all add: mask32 base_half)
  define h where "h = drop_bit 32 x * drop_bit 32 y + drop_bit 32 t + drop_bit 32 w1"
  have hp: "unat x * unat y div base < base"
    using unat_base [of x] unat_base [of y] by (intro less_mult_imp_div_less mult_strict_mono) simp_all
  have hsum: "x1 * y1 + unat t div ?H + unat w1 div ?H = unat x * unat y div base"
    unfolding w1 t x base_half by (rule p(3))
  have "unat (drop_bit 32 x * drop_bit 32 y) = x1 * y1" using sq [OF b(2,4)] by (simp add: d unat_times_small)
  then have "unat (drop_bit 32 x * drop_bit 32 y + drop_bit 32 t) = x1 * y1 + unat t div ?H"
    using hp hsum by (subst unat_plus_small) (simp_all add: drop32)
  then have h: "unat h = unat x * unat y div base"
    unfolding h_def using hp hsum by (subst unat_plus_small) (simp_all add: drop32)
  have "z1 = h" "z0 = x * y" using assms by (simp_all add: mulWW_def Let_def h_def w1_def t_def w0_def)
  then show ?thesis using h by (simp add: unat_times_base)
qed


lemma mulAddWWW_correct:
  assumes "mulAddWWW x y c = (z1, z0)"
  shows "unat z1 * base + unat z0 = unat x * unat y + unat c"
proof -
  obtain h l where hl: "mulWW x y = (h, l)" by (meson surj_pair)
  note m = mulWW_correct [OF hl]
  have z: "z0 = l + c" "z1 = (if z0 < l then h + 1 else h)" using assms hl by (auto simp: mulAddWWW_def Let_def)
  show ?thesis
  proof (cases "unat l + unat c < base")
    case True
    then have "unat z0 = unat l + unat c" by (simp add: z unat_plus_small)
    moreover from this have "\<not> z0 < l" by (simp add: word_less_nat_alt)
    ultimately show ?thesis using m z(2) by simp
  next
    case False
    then have z0: "unat z0 = unat l + unat c - base" by (simp add: z unat_plus_carry)
    then have "unat z0 < unat l" using False unat_base [of c] by linarith
    then have z1: "z1 = h + 1" using z(2) by (simp add: word_less_nat_alt)
    have "unat x * unat y \<le> (base - 1) * (base - 1)" using unat_base [of x] unat_base [of y] by (intro mult_le_mono) linarith+
    moreover obtain n where n: "base = Suc n" "1 \<le> n" using base_big by (cases base) auto
    have "(base - 1) * (base - 1) + base < base * base" unfolding n(1) using n(2) by simp
    ultimately have "unat h * base + base < base * base" using m by linarith
    then have "(unat h + 1) * base < base * base" by simp
    then have "unat h + 1 < base" using base_pos(1) mult_less_cancel2 by blast
    then have "unat z1 = unat h + 1" using z1 by (simp add: unat_plus_small)
    then show ?thesis using m z0 False by simp
  qed
qed

subsection \<open>Bit lengths\<close>

fun blen :: "nat \<Rightarrow> nat" where
  "blen n = (if n = 0 then 0 else Suc (blen (n div 2)))"

declare blen.simps [simp del]

lemma blen_0 [simp]: "blen 0 = 0"
  by (simp add: blen.simps)

lemma blen_less: "n < 2 ^ blen n"
proof (induction n rule: less_induct)
  case (less n)
  show ?case
  proof (cases "n = 0")
    case False
    then have "n div 2 < 2 ^ blen (n div 2)" using less by simp
    then show ?thesis using False by (subst blen.simps) simp
  qed simp
qed

lemma blen_ge: "n \<noteq> 0 \<Longrightarrow> 2 ^ (blen n - 1) \<le> n"
proof (induction n rule: less_induct)
  case (less n)
  show ?case
  proof (cases "n div 2 = 0")
    case True
    then show ?thesis using less.prems by (subst blen.simps) simp
  next
    case False
    then have "2 ^ (blen (n div 2) - 1) \<le> n div 2" using less by simp
    moreover have "blen (n div 2) = Suc (blen (n div 2) - 1)" using False by (subst blen.simps) (simp add: blen.simps)
    ultimately have "2 ^ blen (n div 2) \<le> 2 * (n div 2)" by (metis mult_le_mono2 power_Suc)
    also have "\<dots> \<le> n" by simp
    finally show ?thesis using less.prems by (subst blen.simps) simp
  qed
qed

lemma blen_shift: "2 ^ k \<le> n \<Longrightarrow> blen n = Suc k + blen (n div 2 ^ Suc k)"
proof (induction k arbitrary: n)
  case 0
  then show ?case by (subst blen.simps) simp
next
  case (Suc k)
  then have "2 ^ k \<le> n div 2" by simp
  from Suc.IH [OF this] have "blen (n div 2) = Suc k + blen (n div 2 ^ Suc (Suc k))"
    unfolding power_Suc [of 2 "Suc k"] div_mult2_eq .
  moreover have "n \<noteq> 0" using Suc.prems by (metis le_zero_eq power_not_zero zero_neq_numeral)
  ultimately show ?case by (subst blen.simps) simp
qed

lemma drop_bit_blen: "2 ^ k \<le> unat x \<Longrightarrow> blen (unat (x :: Word)) = Suc k + blen (unat (drop_bit (Suc k) x))"
  using blen_shift [of k "unat x"] by (simp only: unat_drop)

lemma bitLen_loop_blen:
  "bitLen_loop x n = (y, m) \<Longrightarrow> m + int (blen (unat y)) = n + int (blen (unat x)) \<and> unat y < 2 ^ 15"
proof (induction x n rule: bitLen_loop.induct)
  case (1 x n)
  show ?case
  proof (cases "0x8000 \<le> x")
    case True
    then have "bitLen_loop (drop_bit 16 x) (n + 16) = (y, m)" using 1(2) by (subst (asm) bitLen_loop.simps) simp
    from 1(1) [OF True this] show ?thesis using drop_bit_blen [of 15 x] True by (simp add: word_le_nat_alt)
  next
    case False
    then have "y = x" "m = n" using 1(2) by (subst (asm) bitLen_loop.simps, simp)+
    then show ?thesis using False by (simp add: word_le_nat_alt)
  qed
qed

lemma bitLen_blen: "bitLen x = int (blen (unat x))"
proof -
  have less: "unat (drop_bit k w) < 2 ^ m" if "unat w < 2 ^ (k + m)" for k m and w :: Word
    using that unfolding unat_drop by (intro less_mult_imp_div_less) (simp only: power_add mult.commute)
  obtain a n where a: "bitLen_loop x 0 = (a, n)" by (meson surj_pair)
  note la = bitLen_loop_blen [OF a]
  obtain b m where b: "(if a \<ge> 0x80 then (drop_bit 8 a, n + 8) else (a, n)) = (b, m)" by (meson surj_pair)
  have lb: "m + int (blen (unat b)) = int (blen (unat x))" "unat b < 2 ^ 7"
    using b la drop_bit_blen [of 7 a] less [of a 8 7] by (auto simp: word_le_nat_alt split: if_splits)
  obtain c k where c: "(if b \<ge> 0x8 then (drop_bit 4 b, m + 4) else (b, m)) = (c, k)" by (meson surj_pair)
  have lc: "k + int (blen (unat c)) = int (blen (unat x))" "unat c < 2 ^ 3"
    using c lb drop_bit_blen [of 3 b] less [of b 4 3] by (auto simp: word_le_nat_alt split: if_splits)
  obtain d l where d: "(if c \<ge> 0x2 then (drop_bit 2 c, k + 2) else (c, k)) = (d, l)" by (meson surj_pair)
  have ld: "l + int (blen (unat d)) = int (blen (unat x))" "unat d < 2 ^ 1"
    using d lc drop_bit_blen [of 1 c, unfolded One_nat_def, folded numeral_2_eq_2] less [of c 2 1] by (auto simp: word_le_nat_alt split: if_splits)
  have "blen (unat d) = (if d \<ge> 1 then 1 else 0)"
    using ld(2) by (auto simp: word_le_nat_alt less_Suc_eq blen.simps)
  then show ?thesis using ld(1) a b c d by (simp add: bitLen_def split: if_splits)
qed

text \<open>Shifting out the leading zeros leaves the top bit.\<close>

lemma blen_word: "blen (unat (x :: Word)) \<le> 64"
proof (rule ccontr)
  assume "\<not> blen (unat x) \<le> 64"
  moreover from this have "unat x \<noteq> 0" by (cases "unat x = 0") auto
  then have "2 ^ (blen (unat x) - 1) \<le> unat x" by (rule blen_ge)
  moreover have "(2::nat) ^ 64 \<le> 2 ^ (blen (unat x) - 1)" using calculation(1) by (intro power_increasing) simp_all
  ultimately show False using unat_base [of x] by (simp add: base_def)
qed

lemma leadingZeros_shift:
  assumes "v \<noteq> 0"
  shows "leadingZeros v < 64" "unat v * 2 ^ leadingZeros v < base" "2 ^ 63 \<le> unat v * 2 ^ leadingZeros v"
proof -
  let ?b = "blen (unat v)"
  have lz: "leadingZeros v = 64 - ?b" using blen_word [of v] by (simp add: leadingZeros_def bitLen_blen)
  have n: "unat v \<noteq> 0" using assms by (simp add: unat_eq_zero)
  then have b: "0 < ?b" by (cases "unat v") (auto simp: blen.simps)
  then show "leadingZeros v < 64" using lz by simp
  have "unat v * 2 ^ (64 - ?b) < 2 ^ ?b * 2 ^ (64 - ?b)" using blen_less [of "unat v"] by simp
  also have "\<dots> = base" unfolding base_def power_add [symmetric] using blen_word [of v] by simp
  finally show "unat v * 2 ^ leadingZeros v < base" using lz by simp
  have "2 ^ (?b - 1) * 2 ^ (64 - ?b) \<le> unat v * 2 ^ (64 - ?b)" using blen_ge [OF n] by (rule mult_le_mono1)
  moreover have "(2::nat) ^ (?b - 1) * 2 ^ (64 - ?b) = 2 ^ 63" unfolding power_add [symmetric] using blen_word [of v] b by simp
  ultimately show "2 ^ 63 \<le> unat v * 2 ^ leadingZeros v" unfolding lz by linarith
qed


subsection \<open>Division of two words by one\<close>

text \<open>The correction loop finds the exact quotient of three half words by two: \<open>q\<close> is at least the
  quotient, \<open>rhat\<close> belongs to \<open>q\<close>, and the test compares \<open>q v\<close> with the dividend without overflow.\<close>

abbreviation H :: nat where "H \<equiv> 0x100000000"

lemma base_num: "base = 18446744073709551616"
  by (simp add: base_def)

lemma H_base: "H * H = base"
  by (simp add: base_def)

declare divWW_correct.simps [simp del]

lemma divWW_correct_exact:
  assumes "unat q * unat vn1 + unat rhat = u" "unat rhat < H" "unat q \<le> H + 1" "(u * H + unat un) div (unat vn1 * H + unat vn0) \<le> unat q"
    and "unat vn0 < H" "unat un < H" "0 < unat vn1" "u < unat vn1 * H + unat vn0" "unat vn1 < H"
  shows "unat (divWW_correct q rhat vn1 vn0 un) = (u * H + unat un) div (unat vn1 * H + unat vn0)"
  using assms
proof (induction q rhat vn1 vn0 un rule: divWW_correct.induct)
  case (1 q rhat vn1 vn0 un)
  let ?v = "unat vn1 * H + unat vn0" and ?u = "u * H + unat un"
  have qb: "unat q * unat vn0 < base"
  proof -
    have "unat q * unat vn0 \<le> (H + 1) * (H - 1)" using "1.prems"(3,5) by (intro mult_le_mono) linarith+
    then show ?thesis by (simp add: base_def)
  qed
  have qv: "unat (q * vn0) = unat q * unat vn0" using qb by (simp add: unat_times_small)
  have cH: "unat (0x100000000 :: Word) = H" by simp
  have rb: "unat rhat * H + unat un < base" using "1.prems"(2,6) unfolding base_num by linarith
  then have rs: "unat (0x100000000 * rhat) = H * unat rhat"
    by (subst unat_times_small) (simp_all add: mult.commute)
  then have rv: "unat (0x100000000 * rhat + un) = H * unat rhat + unat un"
    using rb by (subst unat_plus_small) (simp_all add: mult.commute)
  have test: "q * vn0 > 0x100000000 * rhat + un \<longleftrightarrow> ?u < unat q * ?v"
  proof -
    have "unat q * ?v = (unat q * unat vn1) * H + unat q * unat vn0" by (simp add: algebra_simps)
    moreover have "?u = (unat q * unat vn1) * H + (H * unat rhat + unat un)"
      using "1.prems"(1) by (simp add: algebra_simps flip: "1.prems"(1))
    ultimately show ?thesis unfolding word_less_nat_alt qv rv by linarith
  qed
  have vpos: "0 < ?v" using "1.prems"(7) by simp
  have small: "?u div ?v < H"
  proof -
    have "?u < (u + 1) * H" using "1.prems"(6) by simp
    also have "\<dots> \<le> ?v * H" using "1.prems"(8) by (intro mult_le_mono1) linarith
    finally show ?thesis by (simp add: less_mult_imp_div_less mult.commute)
  qed
  show ?case
  proof (cases "q \<ge> 0x100000000 \<or> q * vn0 > 0x100000000 * rhat + un")
    case False
    then have "unat q * ?v \<le> ?u" using test by linarith
    then have "unat q \<le> ?u div ?v" using vpos by (simp add: less_eq_div_iff_mult_less_eq)
    then show ?thesis using False "1.prems"(4) by (subst divWW_correct.simps) simp
  next
    case True
    have lt: "?u div ?v < unat q"
    proof -
      from True consider "H \<le> unat q" | "?u < unat q * ?v" using test by (auto simp: word_le_nat_alt)
      then show ?thesis
      proof cases
        case 2
        then show ?thesis using vpos by (simp add: less_mult_imp_div_less)
      qed (use small in linarith)
    qed
    then have q0: "q \<noteq> 0" by (auto simp: unat_eq_zero)
    have q1: "unat (q - 1) = unat q - 1" using q0 by (simp add: unat_minus_one)
    have r1: "unat (rhat + vn1) = unat rhat + unat vn1" using "1.prems"(2,9) by (intro unat_plus_small) (simp add: base_def)
    have eq: "unat (q - 1) * unat vn1 + unat (rhat + vn1) = u"
      using "1.prems"(1) lt unfolding q1 r1 by (simp add: diff_mult_distrib)
    have le: "?u div ?v \<le> unat (q - 1)" using lt q1 by linarith
    show ?thesis
    proof (cases "rhat + vn1 \<ge> 0x100000000")
      case t: True
      have "unat (q - 1) * ?v = (unat (q - 1) * unat vn1) * H + unat (q - 1) * unat vn0" by (simp add: algebra_simps)
      also have "unat (q - 1) * unat vn0 \<le> H * (H - 1)" using "1.prems"(3,5) q1 by (intro mult_le_mono) linarith+
      also have "H * (H - 1) \<le> unat (rhat + vn1) * H" using t by (simp add: word_le_nat_alt)
      also have "(unat (q - 1) * unat vn1) * H + unat (rhat + vn1) * H = u * H" using eq by (simp flip: distrib_right)
      finally have "unat (q - 1) * ?v \<le> ?u" by simp
      then have "unat (q - 1) \<le> ?u div ?v" using vpos by (simp add: less_eq_div_iff_mult_less_eq)
      then show ?thesis using True t le by (subst divWW_correct.simps) simp
    next
      case f: False
      have "unat (divWW_correct (q - 1) (rhat + vn1) vn1 vn0 un) = ?u div ?v"
        using "1.IH" [OF True refl refl f eq _ _ le "1.prems"(5-9)] f "1.prems"(3) q1 by (simp add: word_le_nat_alt)
      then show ?thesis using True f by (subst divWW_correct.simps) simp
    qed
  qed
qed


lemma half_div:
  assumes "2 ^ 63 \<le> unat v" "unat u < unat v" "unat un < H"
  shows "unat (divWW_correct (u div drop_bit 32 v) (u - u div drop_bit 32 v * drop_bit 32 v) (drop_bit 32 v) (v AND W2_mask) un) =
    (unat u * H + unat un) div unat v"
proof -
  let ?v1 = "drop_bit 32 v" and ?v0 = "v AND W2_mask"
  have v: "unat v = unat ?v1 * H + unat ?v0" using halves [of v] by simp
  have v0: "unat ?v0 < H" and v1: "unat ?v1 < H" using half_lt [of v] by simp_all
  have big: "2 ^ 31 \<le> unat ?v1" using assms(1) unfolding drop32 by simp
  have pos: "0 < unat ?v1" using big by (cases "unat ?v1") simp_all
  have q: "unat (u div ?v1) = unat u div unat ?v1" by (rule unat_div)
  have qm: "unat u div unat ?v1 * unat ?v1 \<le> unat u" by simp
  then have qv: "unat (u div ?v1 * ?v1) = unat u div unat ?v1 * unat ?v1"
    using unat_base [of u] unfolding q [symmetric] by (intro unat_times_small) linarith
  then have r: "unat (u - u div ?v1 * ?v1) = unat u mod unat ?v1"
    using qm by (subst unat_minus_le) (simp_all add: word_le_nat_alt minus_div_mult_eq_mod)
  have "unat u < (H + 2) * unat ?v1" using assms(2) v v0 big by (simp add: algebra_simps)
  then have qs: "unat u div unat ?v1 \<le> H + 1" by (simp add: less_mult_imp_div_less less_Suc_eq_le [symmetric])
  have est: "(unat u * H + unat un) div unat v \<le> unat u div unat ?v1"
  proof -
    have "(unat u * H + unat un) div unat v \<le> (unat u * H + unat un) div (unat ?v1 * H)"
      using v pos by (intro div_le_mono2) simp_all
    also have "\<dots> = (unat u * H + unat un) div H div unat ?v1"
      by (simp only: mult.commute [of _ H] div_mult2_eq)
    also have "(unat u * H + unat un) div H = unat u" using assms(3) by simp
    finally show ?thesis .
  qed
  show ?thesis
    using divWW_correct_exact [of "u div ?v1" ?v1 "u - u div ?v1 * ?v1" "unat u" un ?v0]
      q r qs est v0 v1 assms(2,3) pos mod_less_divisor [OF pos, of "unat u"] unfolding v by simp
qed

lemma word_diff_nat: "n \<le> m \<Longrightarrow> m - n < base \<Longrightarrow> unat (word_of_nat m - word_of_nat n :: Word) = m - n"
proof -
  assume "n \<le> m" "m - n < base"
  then have "word_of_nat m - word_of_nat n = (word_of_nat (m - n) :: Word)" by simp
  then show ?thesis using \<open>m - n < base\<close> by (simp add: base_def unsigned_of_nat take_bit_nat_eq_self)
qed

text \<open>The remainder that the code computes with wrap-around.\<close>

lemma half_rem:
  assumes "unat (q :: Word) = (unat u * H + unat un) div unat v" "v \<noteq> 0"
  shows "unat (u * 0x100000000 + un - q * v) = (unat u * H + unat un) mod unat v"
proof -
  have "u * 0x100000000 + un - q * v =
      (word_of_nat (unat u * H + unat un) - word_of_nat (unat q * unat v) :: Word)" by simp
  moreover have "unat q * unat v \<le> unat u * H + unat un" unfolding assms(1) by simp
  moreover have "unat u * H + unat un - unat q * unat v = (unat u * H + unat un) mod unat v"
    unfolding assms(1) by (rule minus_div_mult_eq_mod)
  moreover have "(unat u * H + unat un) mod unat v < base"
    using assms(2) unat_base [of v] by (intro less_trans [OF mod_less_divisor unat_base]) (simp add: unat_gt_0)
  ultimately show ?thesis using word_diff_nat by metis
qed

lemma push_unat: "unat (push_bit s x :: Word) = unat x * 2 ^ s mod base"
  unfolding unsigned_push_bit_eq unfolding take_bit_eq_mod push_bit_eq_mult base_def by simp

text \<open>Shifting a number of two words to the left.\<close>

lemma shift_join:
  assumes "s < 64" "unat u1 * 2 ^ s + 2 ^ s \<le> base"
  shows "unat (push_bit s u1 OR drop_bit (64 - s) u0 :: Word) * base + unat (push_bit s u0) = (unat u1 * base + unat u0) * 2 ^ s"
    and "unat (push_bit s u1 OR drop_bit (64 - s) u0) = unat u1 * 2 ^ s + unat u0 div 2 ^ (64 - s)"
    and "unat u0 div 2 ^ (64 - s) < 2 ^ s"
proof -
  have bs: "base = 2 ^ (64 - s) * 2 ^ s" using assms(1) unfolding base_def power_add [symmetric] by simp
  show d: "unat u0 div 2 ^ (64 - s) < 2 ^ s" using unat_base [of u0] unfolding bs by (simp add: less_mult_imp_div_less mult.commute)
  have "0 < (2 :: nat) ^ s" by simp
  then have "unat u1 * 2 ^ s < base" using assms(2) by linarith
  then have p: "unat (push_bit s u1) = unat u1 * 2 ^ s" unfolding push_unat by (rule mod_less)
  have "push_bit s u1 + drop_bit (64 - s) u0 = push_bit s u1 OR drop_bit (64 - s) u0"
  proof (rule disjunctive_add)
    fix n
    show "\<not> bit (push_bit s u1) n \<or> \<not> bit (drop_bit (64 - s) u0) n"
      using assms(1) by (auto simp: bit_push_bit_iff bit_drop_bit_eq dest: bit_imp_le_length)
  qed
  then show e: "unat (push_bit s u1 OR drop_bit (64 - s) u0) = unat u1 * 2 ^ s + unat u0 div 2 ^ (64 - s)"
    using p d assms(2) unat_drop [of "64 - s" u0] by (metis (no_types, lifting) add_less_le_mono linorder_not_less nat_add_left_cancel_less order_less_le_trans unat_plus_small)
  have "unat u0 * 2 ^ s div base = unat u0 div 2 ^ (64 - s)" unfolding bs by simp
  then have "unat u0 div 2 ^ (64 - s) * base + unat u0 * 2 ^ s mod base = unat u0 * 2 ^ s" by (metis div_mult_mod_eq)
  then show "unat (push_bit s u1 OR drop_bit (64 - s) u0 :: Word) * base + unat (push_bit s u0) = (unat u1 * base + unat u0) * 2 ^ s"
    unfolding e push_unat by (simp add: algebra_simps)
qed


lemma two_digits:
  fixes U v :: nat
  assumes "q1 = (u * h + a) div v" "r1 = (u * h + a) mod v" "q0 = (r1 * h + b) div v" "0 < v"
  shows "(u * (h * h) + a * h + b) div v = q1 * h + q0" "(u * (h * h) + a * h + b) mod v = (r1 * h + b) mod v"
proof -
  have "u * h + a = q1 * v + r1" unfolding assms(1,2) by simp
  then have "u * (h * h) + a * h + b = (q1 * v + r1) * h + b" by (metis (no_types, lifting) distrib_right mult.assoc)
  then have e: "u * (h * h) + a * h + b = (r1 * h + b) + v * (q1 * h)" by (simp add: algebra_simps)
  show "(u * (h * h) + a * h + b) div v = q1 * h + q0" unfolding e assms(3) using assms(4) by simp
  show "(u * (h * h) + a * h + b) mod v = (r1 * h + b) mod v" unfolding e by simp
qed

lemma divWW_div:
  assumes "divWW u1 u0 v = (q, r)" "u1 < v"
  shows "unat q = (unat u1 * base + unat u0) div unat v" "unat r = (unat u1 * base + unat u0) mod unat v"
proof -
  have v0: "v \<noteq> 0" using assms(2) by auto
  define s where "s = leadingZeros v"
  have s: "s < 64" "unat v * 2 ^ s < base" "2 ^ 63 \<le> unat v * 2 ^ s"
    unfolding s_def by (rule leadingZeros_shift [OF v0])+
  define w where "w = push_bit s v"
  have w: "unat w = unat v * 2 ^ s" unfolding w_def push_unat by (rule mod_less [OF s(2)])
  have le: "unat u1 + 1 \<le> unat v" using assms(2) by (simp add: word_less_nat_alt)
  then have "(unat u1 + 1) * 2 ^ s \<le> unat v * 2 ^ s" by (rule mult_le_mono1)
  then have fits: "unat u1 * 2 ^ s + 2 ^ s \<le> unat w" unfolding w by simp
  then have fits': "unat u1 * 2 ^ s + 2 ^ s \<le> base" using s(2) w by linarith
  define a where "a = push_bit s u1 OR drop_bit (64 - s) u0"
  define b where "b = push_bit s u0"
  note j = shift_join [OF s(1) fits', of u0, folded a_def b_def]
  have aw: "unat a < unat w" using j(2,3) fits by linarith
  have big: "2 ^ 63 \<le> unat w" using s(3) w by simp
  have w0: "w \<noteq> 0" using big by (metis power_not_zero unat_0 le_zero_eq zero_neq_numeral)
  define b1 b0 where "b1 = drop_bit 32 b" and "b0 = b AND W2_mask"
  have b: "unat b = unat b1 * H + unat b0" "unat b1 < H" "unat b0 < H"
    using halves [of b] half_lt [of b] by (simp_all add: b1_def b0_def)
  define q1 where "q1 = divWW_correct (a div drop_bit 32 w) (a - a div drop_bit 32 w * drop_bit 32 w) (drop_bit 32 w) (w AND W2_mask) b1"
  have q1: "unat q1 = (unat a * H + unat b1) div unat w" unfolding q1_def by (rule half_div [OF big aw b(2)])
  define c where "c = a * 0x100000000 + b1 - q1 * w"
  have c: "unat c = (unat a * H + unat b1) mod unat w" unfolding c_def by (rule half_rem [OF q1 w0])
  have cw: "unat c < unat w" unfolding c using w0 by (simp add: unat_gt_0)
  define q0 where "q0 = divWW_correct (c div drop_bit 32 w) (c - c div drop_bit 32 w * drop_bit 32 w) (drop_bit 32 w) (w AND W2_mask) b0"
  have q0: "unat q0 = (unat c * H + unat b0) div unat w" unfolding q0_def by (rule half_div [OF big cw b(3)])
  have res: "q = q1 * 0x100000000 + q0" "r = drop_bit s (c * 0x100000000 + b0 - q0 * w)"
    using assms unfolding divWW_def Let_def s_def [symmetric] w_def [symmetric] a_def [symmetric] b_def [symmetric]
      b1_def [symmetric] b0_def [symmetric] q1_def [symmetric] c_def [symmetric] q0_def [symmetric]
    by (simp_all add: not_le [symmetric])
  note td = two_digits [OF q1 c q0, unfolded H_base] 
  have U: "unat a * base + unat b1 * H + unat b0 = (unat u1 * base + unat u0) * 2 ^ s" using j(1) b(1) by simp
  have wpos: "0 < unat w" using w0 by (simp add: unat_gt_0)
  have lt: "x div unat w < H" if "x < unat w * H" for x using that by (simp add: less_mult_imp_div_less mult.commute)
  have "unat a * H + unat b1 < (unat a + 1) * H" "(unat a + 1) * H \<le> unat w * H"
    using b(2) aw by (simp, intro mult_le_mono1, linarith)
  then have q1H: "unat q1 < H" unfolding q1 by (intro lt) linarith
  have "unat c * H + unat b0 < (unat c + 1) * H" "(unat c + 1) * H \<le> unat w * H"
    using b(3) cw by (simp, intro mult_le_mono1, linarith)
  then have q0H: "unat q0 < H" unfolding q0 by (intro lt) linarith
  have "unat (q1 * 0x100000000) = unat q1 * H" using q1H by (subst unat_times_small) (simp_all add: base_num)
  then have "unat q = unat q1 * H + unat q0"
    unfolding res(1) using q1H q0H by (subst unat_plus_small) (simp_all add: base_num)
  also have "\<dots> = (unat u1 * base + unat u0) * 2 ^ s div (unat v * 2 ^ s)" using td(1) wpos unfolding U w by simp
  finally show "unat q = (unat u1 * base + unat u0) div unat v" by simp
  have "unat (c * 0x100000000 + b0 - q0 * w) = (unat u1 * base + unat u0) * 2 ^ s mod (unat v * 2 ^ s)"
    using half_rem [OF q0 w0] td(2) wpos unfolding U w by simp
  also have "\<dots> = (unat u1 * base + unat u0) mod unat v * 2 ^ s" by (simp only: mult_mod_left)
  finally show "unat r = (unat u1 * base + unat u0) mod unat v" unfolding res(2) unat_drop by simp
qed


section \<open>Vectors\<close>

fun addVV_loop :: "Word list \<Rightarrow> Word list \<Rightarrow> Word \<Rightarrow> panic + Word list \<times> Word" where
  "addVV_loop [] y c = Inr ([], c)"
| "addVV_loop (xi # x) [] c = Inl IndexOutOfRange"
| "addVV_loop (xi # x) (yi # y) c =
     (let zi = xi + yi + c;
          c = drop_bit 63 (xi AND yi OR (xi OR yi) AND NOT zi)
      in bindE (addVV_loop x y c) (\<lambda>(z, c). Inr (zi # z, c)))"

definition addVV :: "nat \<Rightarrow> Word list \<Rightarrow> Word list \<Rightarrow> panic + Word list \<times> Word" where
  "addVV n x y = (if length x < n then Inl SliceOutOfRange else addVV_loop (take n x) y 0)"

fun subVV_loop :: "Word list \<Rightarrow> Word list \<Rightarrow> Word \<Rightarrow> panic + Word list \<times> Word" where
  "subVV_loop [] y c = Inr ([], c)"
| "subVV_loop (xi # x) [] c = Inl IndexOutOfRange"
| "subVV_loop (xi # x) (yi # y) c =
     (let zi = xi - yi - c;
          c = drop_bit 63 (yi AND NOT xi OR (yi OR NOT xi) AND zi)
      in bindE (subVV_loop x y c) (\<lambda>(z, c). Inr (zi # z, c)))"

definition subVV :: "nat \<Rightarrow> Word list \<Rightarrow> Word list \<Rightarrow> panic + Word list \<times> Word" where
  "subVV n x y = (if length x < n then Inl SliceOutOfRange else subVV_loop (take n x) y 0)"

fun addVW_loop :: "Word list \<Rightarrow> Word \<Rightarrow> Word list \<times> Word" where
  "addVW_loop [] c = ([], c)"
| "addVW_loop (xi # x) c =
     (let zi = xi + c; c = drop_bit 63 (xi AND NOT zi) in
      case addVW_loop x c of (z, c) \<Rightarrow> (zi # z, c))"

definition addVW :: "nat \<Rightarrow> Word list \<Rightarrow> Word \<Rightarrow> panic + Word list \<times> Word" where
  "addVW n x y = (if length x < n then Inl SliceOutOfRange else Inr (addVW_loop (take n x) y))"

fun subVW_loop :: "Word list \<Rightarrow> Word \<Rightarrow> Word list \<times> Word" where
  "subVW_loop [] c = ([], c)"
| "subVW_loop (xi # x) c =
     (let zi = xi - c; c = drop_bit 63 (zi AND NOT xi) in
      case subVW_loop x c of (z, c) \<Rightarrow> (zi # z, c))"

definition subVW :: "nat \<Rightarrow> Word list \<Rightarrow> Word \<Rightarrow> panic + Word list \<times> Word" where
  "subVW n x y = (if length x < n then Inl SliceOutOfRange else Inr (subVW_loop (take n x) y))"

text \<open>The shifts carry the previous word along; the left shift goes from the top down.\<close>

fun shlVU_loop :: "Word list \<Rightarrow> nat \<Rightarrow> nat \<Rightarrow> Word \<Rightarrow> Word list \<Rightarrow> Word list" where
  "shlVU_loop x s 0 w1 z = z[0 := push_bit s w1]"
| "shlVU_loop x s (Suc i) w1 z =
     (let w = w1; w1 = x ! i in
      shlVU_loop x s i w1 (z[Suc i := push_bit s w OR drop_bit (64 - s) w1]))"

definition shlVU :: "Word list \<Rightarrow> Word list \<Rightarrow> nat \<Rightarrow> panic + Word list \<times> Word" where
  "shlVU z x s =
     (let n = length z in
      if n = 0 then Inr (z, 0)
      else if length x < n then Inl IndexOutOfRange
      else let w1 = x ! (n - 1) in Inr (shlVU_loop x s (n - 1) w1 z, drop_bit (64 - s) w1))"

function shrVU_loop :: "Word list \<Rightarrow> nat \<Rightarrow> nat \<Rightarrow> nat \<Rightarrow> Word \<Rightarrow> Word list \<Rightarrow> Word list" where
  "shrVU_loop x s n i w1 z =
     (if i < n - 1
      then (let w = w1; w1 = x ! (i + 1) in
        shrVU_loop x s n (i + 1) w1 (z[i := drop_bit s w OR push_bit (64 - s) w1]))
      else z[n - 1 := drop_bit s w1])"
  by pat_completeness auto

termination
  by (relation "measure (\<lambda>(x, s, n, i, w1, z). n - i)") auto

definition shrVU :: "Word list \<Rightarrow> Word list \<Rightarrow> nat \<Rightarrow> panic + Word list \<times> Word" where
  "shrVU z x s =
     (let n = length z in
      if n = 0 then Inr (z, 0)
      else if length x < n then Inl IndexOutOfRange
      else let w1 = x ! 0 in Inr (shrVU_loop x s n 0 w1 z, push_bit (64 - s) w1))"

fun mulAddVWW :: "nat \<Rightarrow> Word list \<Rightarrow> Word \<Rightarrow> Word \<Rightarrow> panic + Word list \<times> Word" where
  "mulAddVWW 0 x y c = Inr ([], c)"
| "mulAddVWW (Suc n) [] y c = Inl IndexOutOfRange"
| "mulAddVWW (Suc n) (xi # x) y c =
     (case mulAddWWW xi y c of (c, zi) \<Rightarrow> bindE (mulAddVWW n x y c) (\<lambda>(z, c). Inr (zi # z, c)))"

fun addMulVVW_loop :: "Word list \<Rightarrow> Word list \<Rightarrow> Word \<Rightarrow> Word \<Rightarrow> panic + Word list \<times> Word" where
  "addMulVVW_loop [] x y c = Inr ([], c)"
| "addMulVVW_loop (zi # z) [] y c = Inl IndexOutOfRange"
| "addMulVVW_loop (zi # z) (xi # x) y c =
     (case mulAddWWW xi y zi of (z1, z0) \<Rightarrow>
      case addWW z0 c 0 of (c, zi) \<Rightarrow>
      let c = c + z1 in bindE (addMulVVW_loop z x y c) (\<lambda>(z, c). Inr (zi # z, c)))"

definition addMulVVW :: "Word list \<Rightarrow> Word list \<Rightarrow> Word \<Rightarrow> panic + Word list \<times> Word" where
  "addMulVVW z x y = addMulVVW_loop z x y 0"

fun divWVW_loop :: "Word list \<Rightarrow> Word \<Rightarrow> nat \<Rightarrow> Word \<Rightarrow> Word list \<Rightarrow> Word list \<times> Word" where
  "divWVW_loop x y 0 r z = (z, r)"
| "divWVW_loop x y (Suc i) r z = (case divWW r (x ! i) y of (q, r) \<Rightarrow> divWVW_loop x y i r (z[i := q]))"

definition divWVW :: "Word list \<Rightarrow> Word \<Rightarrow> Word list \<Rightarrow> Word \<Rightarrow> panic + Word list \<times> Word" where
  "divWVW z xn x y = (if length x < length z then Inl IndexOutOfRange else Inr (divWVW_loop x y (length z) xn z))"

section \<open>Vectors are numbers\<close>

fun val :: "Word list \<Rightarrow> nat" where
  "val [] = 0"
| "val (x # xs) = unat x + base * val xs"

lemma val_append: "val (xs @ ys) = val xs + base ^ length xs * val ys"
  by (induction xs) (simp_all add: algebra_simps)

lemma val_less: "val xs < base ^ length xs"
proof (induction xs)
  case (Cons x xs)
  have "unat x + base * val xs < base + base * val xs" using unat_base [of x] by simp
  also have "\<dots> = base * Suc (val xs)" by simp
  also have "\<dots> \<le> base * base ^ length xs" using Cons by (intro mult_le_mono2) simp
  finally show ?case by simp
qed simp

lemma val_replicate [simp]: "val (replicate n 0) = 0"
  by (induction n) simp_all

lemma val_split: "val x = val (take n x) + base ^ min n (length x) * val (drop n x)"
  using val_append [of "take n x" "drop n x"] by (simp add: min.commute)

text \<open>The carry from the top bits of the operands and the result.\<close>

lemma top_bit: "bit x 63 \<longleftrightarrow> 2 ^ 63 \<le> unat (x :: Word)"
proof -
  have "bit (unat x) 63 \<longleftrightarrow> bit x 63" by (simp add: bit_unsigned_iff)
  then have "bit x 63 \<longleftrightarrow> odd (unat x div 2 ^ 63)" unfolding bit_iff_odd [of "unat x"] by blast
  moreover have "unat x div 2 ^ 63 < 2" using unat_base [of x] unfolding base_def by (intro less_mult_imp_div_less) simp
  moreover have "2 ^ 63 \<le> unat x \<longleftrightarrow> unat x div 2 ^ 63 \<noteq> 0" by (simp add: div_eq_0_iff not_less)
  ultimately show ?thesis by (cases "unat x div 2 ^ 63 = 0") (auto simp: less_2_cases_iff)
qed

lemma drop63: "unat (drop_bit 63 e :: Word) = (if bit e 63 then 1 else 0)"
proof -
  have "unat e div 2 ^ 63 < 2" using unat_base [of e] unfolding base_def by (intro less_mult_imp_div_less) simp
  moreover have "2 ^ 63 \<le> unat e \<longleftrightarrow> unat e div 2 ^ 63 \<noteq> 0" by (simp add: div_eq_0_iff not_less)
  ultimately show ?thesis unfolding unat_drop top_bit by (cases "unat e div 2 ^ 63 = 0") (auto simp: less_2_cases_iff)
qed

lemma carry_add:
  assumes "unat c \<le> 1" "z = x + y + (c :: Word)"
  shows "unat z + base * unat (drop_bit 63 (x AND y OR (x OR y) AND NOT z)) = unat x + unat y + unat c"
proof -
  let ?t = "2 ^ 63 :: nat"
  have b: "base = ?t + ?t" by (simp add: base_def)
  have "unat z = (unat x + unat y + unat c) mod base" unfolding assms(2) unat_plus_base by (simp add: mod_simps)
  then obtain k where k: "unat x + unat y + unat c = unat z + base * k" by (metis mod_mult_div_eq)
  have "unat x + unat y + unat c < 2 * base" using unat_base [of x] unat_base [of y] assms(1) by linarith
  then have "base * k < base * 2" using k by linarith
  then have "k = 0 \<or> k = 1" by auto
  moreover have "k = 1 \<longleftrightarrow> (?t \<le> unat x \<and> ?t \<le> unat y) \<or> ((?t \<le> unat x \<or> ?t \<le> unat y) \<and> \<not> ?t \<le> unat z)"
    using k unat_base [of x] unat_base [of y] unat_base [of z] assms(1) calculation unfolding b by auto
  moreover have "bit (x AND y OR (x OR y) AND NOT z) 63 \<longleftrightarrow> bit x 63 \<and> bit y 63 \<or> (bit x 63 \<or> bit y 63) \<and> \<not> bit z 63"
    by (simp add: bit_and_iff bit_or_iff bit_not_iff)
  ultimately show ?thesis unfolding drop63 k top_bit [of x] top_bit [of y] top_bit [of z] by auto
qed

lemma carry_sub:
  assumes "unat c \<le> 1" "z = x - y - (c :: Word)"
  shows "unat z + unat y + unat c = unat x + base * unat (drop_bit 63 (y AND NOT x OR (y OR NOT x) AND z))"
proof -
  let ?t = "2 ^ 63 :: nat"
  have b: "base = ?t + ?t" by (simp add: base_def)
  have x: "x = z + y + c" using assms(2) by simp
  have "unat x = (unat z + unat y + unat c) mod base" unfolding x unat_plus_base by (simp add: mod_simps)
  then obtain k where k: "unat z + unat y + unat c = unat x + base * k" by (metis mod_mult_div_eq)
  have "unat z + unat y + unat c < 2 * base" using unat_base [of z] unat_base [of y] assms(1) by linarith
  then have "base * k < base * 2" using k by linarith
  then have "k = 0 \<or> k = 1" by auto
  moreover have "k = 1 \<longleftrightarrow> (?t \<le> unat y \<and> \<not> ?t \<le> unat x) \<or> ((?t \<le> unat y \<or> \<not> ?t \<le> unat x) \<and> ?t \<le> unat z)"
    using k unat_base [of x] unat_base [of y] unat_base [of z] assms(1) calculation unfolding b by auto
  moreover have "bit (y AND NOT x OR (y OR NOT x) AND z) 63 \<longleftrightarrow> bit y 63 \<and> \<not> bit x 63 \<or> (bit y 63 \<or> \<not> bit x 63) \<and> bit z 63"
    by (simp add: bit_and_iff bit_or_iff bit_not_iff)
  ultimately show ?thesis unfolding drop63 k top_bit [of x] top_bit [of y] top_bit [of z] by auto
qed

lemma carry_le [simp]: "unat (drop_bit 63 (e :: Word)) \<le> 1"
  by (simp add: drop63)

lemma addVV_loop_correct:
  "length x \<le> length y \<Longrightarrow> unat c \<le> 1 \<Longrightarrow> \<exists>z c'. addVV_loop x y c = Inr (z, c') \<and> length z = length x \<and> unat c' \<le> 1 \<and>
    val z + base ^ length x * unat c' = val x + val (take (length x) y) + unat c"
proof (induction x y c rule: addVV_loop.induct)
  case (3 xi x yi y c)
  define zi where "zi = xi + yi + c"
  define d where "d = drop_bit 63 (xi AND yi OR (xi OR yi) AND NOT zi)"
  have zi: "unat zi + base * unat d = unat xi + unat yi + unat c" unfolding d_def by (rule carry_add [OF 3(3) zi_def])
  have d: "unat d \<le> 1" unfolding d_def by (rule carry_le)
  obtain z c' where z: "addVV_loop x y d = Inr (z, c')" "length z = length x" "unat c' \<le> 1"
      "val z + base ^ length x * unat c' = val x + val (take (length x) y) + unat d"
    using 3(1) [OF zi_def d_def [unfolded zi_def, folded zi_def]] 3(2) d by auto
  have eq: "addVV_loop (xi # x) (yi # y) c = Inr (zi # z, c')"
    unfolding addVV_loop.simps Let_def zi_def [symmetric] d_def [symmetric] z(1) by simp
  have "base * (val z + base ^ length x * unat c') = base * (val x + val (take (length x) y) + unat d)" unfolding z(4) ..
  then have "val (zi # z) + base ^ length (xi # x) * unat c' = val (xi # x) + val (take (length (xi # x)) (yi # y)) + unat c"
    using zi by (simp add: algebra_simps)
  then show ?case unfolding eq using z(2,3) by (intro exI conjI) (rule refl, simp_all)
qed simp_all

lemma subVV_loop_correct:
  "length x \<le> length y \<Longrightarrow> unat c \<le> 1 \<Longrightarrow> \<exists>z c'. subVV_loop x y c = Inr (z, c') \<and> length z = length x \<and> unat c' \<le> 1 \<and>
    val z + val (take (length x) y) + unat c = val x + base ^ length x * unat c'"
proof (induction x y c rule: subVV_loop.induct)
  case (3 xi x yi y c)
  define zi where "zi = xi - yi - c"
  define d where "d = drop_bit 63 (yi AND NOT xi OR (yi OR NOT xi) AND zi)"
  have zi: "unat zi + unat yi + unat c = unat xi + base * unat d" unfolding d_def by (rule carry_sub [OF 3(3) zi_def])
  have d: "unat d \<le> 1" unfolding d_def by (rule carry_le)
  obtain z c' where z: "subVV_loop x y d = Inr (z, c')" "length z = length x" "unat c' \<le> 1"
      "val z + val (take (length x) y) + unat d = val x + base ^ length x * unat c'"
    using 3(1) [OF zi_def d_def [unfolded zi_def, folded zi_def]] 3(2) d by auto
  have eq: "subVV_loop (xi # x) (yi # y) c = Inr (zi # z, c')"
    unfolding subVV_loop.simps Let_def zi_def [symmetric] d_def [symmetric] z(1) by simp
  have "base * (val z + val (take (length x) y) + unat d) = base * (val x + base ^ length x * unat c')" unfolding z(4) ..
  then have "val (zi # z) + val (take (length (xi # x)) (yi # y)) + unat c = val (xi # x) + base ^ length (xi # x) * unat c'"
    using zi by (simp add: algebra_simps)
  then show ?case unfolding eq using z(2,3) by (intro exI conjI) (rule refl, simp_all)
qed simp_all


lemma addVV_correct:
  assumes "n \<le> length x" "n \<le> length y"
  shows "\<exists>z c. addVV n x y = Inr (z, c) \<and> length z = n \<and> unat c \<le> 1 \<and>
    val z + base ^ n * unat c = val (take n x) + val (take n y)"
  using addVV_loop_correct [of "take n x" y 0] assms by (auto simp: addVV_def)

lemma subVV_correct:
  assumes "n \<le> length x" "n \<le> length y"
  shows "\<exists>z c. subVV n x y = Inr (z, c) \<and> length z = n \<and> unat c \<le> 1 \<and>
    val z + val (take n y) = val (take n x) + base ^ n * unat c"
  using subVV_loop_correct [of "take n x" y 0] assms by (auto simp: subVV_def)

lemma addVW_loop_correct:
  "unat c \<le> 1 \<Longrightarrow> \<exists>z c'. addVW_loop x c = (z, c') \<and> length z = length x \<and> unat c' \<le> 1 \<and>
    val z + base ^ length x * unat c' = val x + unat c"
proof (induction x c rule: addVW_loop.induct)
  case (2 xi x c)
  define zi where "zi = xi + c"
  define d where "d = drop_bit 63 (xi AND NOT zi)"
  have zi: "unat zi + base * unat d = unat xi + unat c" using carry_add [OF 2(2), of zi xi 0] by (simp add: d_def zi_def)
  have d: "unat d \<le> 1" unfolding d_def by (rule carry_le)
  obtain z c' where z: "addVW_loop x d = (z, c')" "length z = length x" "unat c' \<le> 1"
      "val z + base ^ length x * unat c' = val x + unat d"
    using 2(1) [OF zi_def d_def [unfolded zi_def, folded zi_def] d] by blast
  have eq: "addVW_loop (xi # x) c = (zi # z, c')"
    unfolding addVW_loop.simps Let_def zi_def [symmetric] d_def [symmetric] z(1) by simp
  have "base * (val z + base ^ length x * unat c') = base * (val x + unat d)" unfolding z(4) ..
  then have "val (zi # z) + base ^ length (xi # x) * unat c' = val (xi # x) + unat c"
    using zi by (simp add: algebra_simps)
  then show ?case unfolding eq using z(2,3) by (intro exI conjI) (rule refl, simp_all)
qed simp

lemma subVW_loop_correct:
  "unat c \<le> 1 \<Longrightarrow> \<exists>z c'. subVW_loop x c = (z, c') \<and> length z = length x \<and> unat c' \<le> 1 \<and>
    val z + unat c = val x + base ^ length x * unat c'"
proof (induction x c rule: subVW_loop.induct)
  case (2 xi x c)
  define zi where "zi = xi - c"
  define d where "d = drop_bit 63 (zi AND NOT xi)"
  have zi: "unat zi + unat c = unat xi + base * unat d"
    using carry_sub [OF 2(2), of zi xi 0] by (simp add: d_def zi_def and.commute)
  have d: "unat d \<le> 1" unfolding d_def by (rule carry_le)
  obtain z c' where z: "subVW_loop x d = (z, c')" "length z = length x" "unat c' \<le> 1"
      "val z + unat d = val x + base ^ length x * unat c'"
    using 2(1) [OF zi_def d_def [unfolded zi_def, folded zi_def] d] by blast
  have eq: "subVW_loop (xi # x) c = (zi # z, c')"
    unfolding subVW_loop.simps Let_def zi_def [symmetric] d_def [symmetric] z(1) by simp
  have "base * (val z + unat d) = base * (val x + base ^ length x * unat c')" unfolding z(4) ..
  then have "val (zi # z) + unat c = val (xi # x) + base ^ length (xi # x) * unat c'"
    using zi by (simp add: algebra_simps)
  then show ?case unfolding eq using z(2,3) by (intro exI conjI) (rule refl, simp_all)
qed simp

lemma addVW_correct:
  assumes "n \<le> length x" "unat c \<le> 1"
  shows "\<exists>z c'. addVW n x c = Inr (z, c') \<and> length z = n \<and> unat c' \<le> 1 \<and> val z + base ^ n * unat c' = val (take n x) + unat c"
  using addVW_loop_correct [OF assms(2), of "take n x"] assms(1) by (auto simp: addVW_def)

lemma subVW_correct:
  assumes "n \<le> length x" "unat c \<le> 1"
  shows "\<exists>z c'. subVW n x c = Inr (z, c') \<and> length z = n \<and> unat c' \<le> 1 \<and> val z + unat c = val (take n x) + base ^ n * unat c'"
  using subVW_loop_correct [OF assms(2), of "take n x"] assms(1) by (auto simp: subVW_def)

lemma mulAddVWW_correct:
  "n \<le> length x \<Longrightarrow> \<exists>z c. mulAddVWW n x y r = Inr (z, c) \<and> length z = n \<and>
    val z + base ^ n * unat c = val (take n x) * unat y + unat r"
proof (induction n x y r rule: mulAddVWW.induct)
  case (3 n xi x y r)
  obtain d zi where d: "mulAddWWW xi y r = (d, zi)" by (meson surj_pair)
  note m = mulAddWWW_correct [OF d]
  obtain z c where z: "mulAddVWW n x y d = Inr (z, c)" "length z = n"
      "val z + base ^ n * unat c = val (take n x) * unat y + unat d"
    using 3(1) [OF d [symmetric]] 3(2) by auto
  have "base * (val z + base ^ n * unat c) = base * (val (take n x) * unat y + unat d)" unfolding z(3) ..
  then have "val (zi # z) + base ^ Suc n * unat c = val (take (Suc n) (xi # x)) * unat y + unat r"
    using m by (simp add: algebra_simps)
  then show ?case using z(1,2) d by simp
qed simp_all

lemma addMulVVW_loop_correct:
  "length z \<le> length x \<Longrightarrow> \<exists>w d. addMulVVW_loop z x y c = Inr (w, d) \<and> length w = length z \<and>
    val w + base ^ length z * unat d = val z + val (take (length z) x) * unat y + unat c"
proof (induction z x y c rule: addMulVVW_loop.induct)
  case (3 zi z xi x y c)
  obtain z1 z0 where m: "mulAddWWW xi y zi = (z1, z0)" by (meson surj_pair)
  obtain c1 w0 where a: "addWW z0 c 0 = (c1, w0)" by (meson surj_pair)
  have e: "unat z1 * base + unat z0 = unat xi * unat y + unat zi" by (rule mulAddWWW_correct [OF m])
  have f: "unat c1 * base + unat w0 = unat z0 + unat c" using addWW_correct(1) [OF a] by simp
  define d where "d = c1 + z1"
  have tot: "(unat c1 + unat z1) * base + unat w0 = unat xi * unat y + unat zi + unat c" using e f by (simp add: algebra_simps)
  have "unat xi * unat y \<le> (base - 1) * (base - 1)" using unat_base [of xi] unat_base [of y] by (intro mult_le_mono) linarith+
  moreover have "(base - 1) * (base - 1) + (base - 1) + (base - 1) < base * base"
  proof -
    obtain n where n: "base = Suc n" using base_big by (cases base) auto
    show ?thesis unfolding n by simp
  qed
  ultimately have "(unat c1 + unat z1) * base < base * base"
    using tot unat_base [of zi] unat_base [of c] by linarith
  then have "unat c1 + unat z1 < base" using base_pos(1) mult_less_cancel2 by blast
  then have d: "unat d = unat c1 + unat z1" by (simp add: d_def unat_plus_small)
  obtain w d' where w: "addMulVVW_loop z x y d = Inr (w, d')" "length w = length z"
      "val w + base ^ length z * unat d' = val z + val (take (length z) x) * unat y + unat d"
    using 3(1) [OF m [symmetric] a [symmetric] d_def] 3(2) by auto
  have "base * (val w + base ^ length z * unat d') = base * (val z + val (take (length z) x) * unat y + unat d)" unfolding w(3) ..
  then have "val (w0 # w) + base ^ length (zi # z) * unat d' =
      val (zi # z) + val (take (length (zi # z)) (xi # x)) * unat y + unat c"
    using tot d by (simp add: algebra_simps)
  moreover have "addMulVVW_loop (zi # z) (xi # x) y c = Inr (w0 # w, d')"
    using w(1) m a by (simp add: d_def Let_def)
  ultimately show ?case using w(2) by (intro exI conjI) (assumption, simp_all)
qed simp_all

lemma addMulVVW_correct:
  "length z \<le> length x \<Longrightarrow> \<exists>w d. addMulVVW z x y = Inr (w, d) \<and> length w = length z \<and>
    val w + base ^ length z * unat d = val z + val (take (length z) x) * unat y"
  using addMulVVW_loop_correct [of z x y 0] by (simp add: addMulVVW_def)

lemma divWVW_loop_correct:
  "r < y \<Longrightarrow> n \<le> length z \<Longrightarrow> n \<le> length x \<Longrightarrow> \<exists>q r'. divWVW_loop x y n r z = (q @ drop n z, r') \<and> length q = n \<and> r' < y \<and>
    val q * unat y + unat r' = unat r * base ^ n + val (take n x)"
proof (induction n arbitrary: r z)
  case (Suc n)
  obtain d r1 where d: "divWW r (x ! n) y = (d, r1)" by (meson surj_pair)
  note dv = divWW_div [OF d Suc.prems(1)]
  have y: "0 < unat y" using Suc.prems(1) by (simp add: word_less_nat_alt)
  then have r1: "r1 < y" using dv(2) by (simp add: word_less_nat_alt)
  have e: "unat d * unat y + unat r1 = unat r * base + unat (x ! n)" unfolding dv by simp
  obtain q r' where q: "divWVW_loop x y n r1 (z[n := d]) = (q @ drop n (z[n := d]), r')" "length q = n" "r' < y"
      "val q * unat y + unat r' = unat r1 * base ^ n + val (take n x)"
    using Suc.IH [OF r1, of "z[n := d]"] Suc.prems by auto
  have dz: "drop n (z[n := d]) = d # drop (Suc n) z" using Suc.prems(2) by (simp add: drop_update_swap list_eq_iff_nth_eq Cons_nth_drop_Suc [symmetric])
  have tx: "take (Suc n) x = take n x @ [x ! n]" using Suc.prems(3) by (simp add: take_Suc_conv_app_nth)
  have "val (q @ [d]) * unat y + unat r' = val q * unat y + base ^ n * (unat d * unat y) + unat r'"
    using q(2) by (simp add: val_append algebra_simps)
  also have "\<dots> = unat r1 * base ^ n + val (take n x) + base ^ n * (unat d * unat y)" using q(4) by simp
  also have "\<dots> = base ^ n * (unat d * unat y + unat r1) + val (take n x)" by (simp add: algebra_simps)
  also have "\<dots> = unat r * base ^ Suc n + val (take (Suc n) x)"
    unfolding e tx val_append using Suc.prems(3) by (simp add: algebra_simps)
  finally show ?case using q(1-3) d dz by (intro exI [of _ "q @ [d]"] exI [of _ r']) simp
qed simp


lemma divWVW_correct:
  assumes "length x = length z" "xn < y"
  shows "\<exists>q r. divWVW z xn x y = Inr (q, r) \<and> length q = length z \<and> r < y \<and>
    val q * unat y + unat r = unat xn * base ^ length z + val x"
  using divWVW_loop_correct [OF assms(2), of "length z" z x] assms(1) by (auto simp: divWVW_def)

subsection \<open>Shifts\<close>

lemma shl_digit:
  assumes "s < 64"
  shows "unat (push_bit s w OR drop_bit (64 - s) u :: Word) + base * (unat w div 2 ^ (64 - s)) = unat w * 2 ^ s + unat u div 2 ^ (64 - s)"
    and "unat (push_bit s w :: Word) + base * (unat w div 2 ^ (64 - s)) = unat w * 2 ^ s"
proof -
  have bs: "base = 2 ^ (64 - s) * 2 ^ s" using assms unfolding base_def power_add [symmetric] by simp
  have "unat w * 2 ^ s div base = unat w div 2 ^ (64 - s)" unfolding bs by simp
  then show e: "unat (push_bit s w :: Word) + base * (unat w div 2 ^ (64 - s)) = unat w * 2 ^ s"
    unfolding push_unat by (metis mod_mult_div_eq)
  have d: "unat u div 2 ^ (64 - s) < 2 ^ s" using unat_base [of u] unfolding bs by (simp add: less_mult_imp_div_less mult.commute)
  have "push_bit s w + drop_bit (64 - s) u = push_bit s w OR drop_bit (64 - s) u"
  proof (rule disjunctive_add)
    fix n
    show "\<not> bit (push_bit s w) n \<or> \<not> bit (drop_bit (64 - s) u) n"
      using assms by (auto simp: bit_push_bit_iff bit_drop_bit_eq dest: bit_imp_le_length)
  qed
  moreover have "unat (push_bit s w) + unat (drop_bit (64 - s) u) < base"
  proof -
    have "2 ^ s dvd base" unfolding bs by simp
    then have "2 ^ s dvd unat (push_bit s w :: Word)" unfolding push_unat by (simp add: dvd_mod)
    then obtain k where k: "unat (push_bit s w :: Word) = 2 ^ s * k" ..
    then have "2 ^ s * k < 2 ^ s * 2 ^ (64 - s)" using unat_base [of "push_bit s w"] unfolding bs by (simp add: mult.commute)
    then have "k + 1 \<le> 2 ^ (64 - s)" by simp
    then have "2 ^ s * (k + 1) \<le> base" unfolding bs by (subst mult.commute [of "2 ^ (64 - s)"]) (rule mult_le_mono2)
    then show ?thesis using d k unfolding unat_drop by simp
  qed
  ultimately have "unat (push_bit s w OR drop_bit (64 - s) u) = unat (push_bit s w) + unat u div 2 ^ (64 - s)"
    by (metis unat_drop unat_plus_small)
  then show "unat (push_bit s w OR drop_bit (64 - s) u :: Word) + base * (unat w div 2 ^ (64 - s)) = unat w * 2 ^ s + unat u div 2 ^ (64 - s)"
    using e by simp
qed

lemma shlVU_loop_correct:
  "s < 64 \<Longrightarrow> i < length x \<Longrightarrow> i < length z \<Longrightarrow> w1 = x ! i \<Longrightarrow>
   \<exists>w. shlVU_loop x s i w1 z = w @ drop (Suc i) z \<and> length w = Suc i \<and>
     val w + base ^ Suc i * (unat w1 div 2 ^ (64 - s)) = val (take (Suc i) x) * 2 ^ s"
proof (induction i arbitrary: w1 z)
  case 0
  then have "take (Suc 0) x = [w1]" by (cases x) simp_all
  moreover have "z[0 := push_bit s w1] = [push_bit s w1] @ drop (Suc 0) z" using 0 by (cases z) simp_all
  ultimately show ?case using shl_digit(2) [OF 0(1), of w1]
    by (intro exI [of _ "[push_bit s w1]"]) simp
next
  case (Suc i)
  define u where "u = x ! i"
  define d where "d = push_bit s w1 OR drop_bit (64 - s) u"
  obtain w where w: "shlVU_loop x s i u (z[Suc i := d]) = w @ drop (Suc i) (z[Suc i := d])" "length w = Suc i"
      "val w + base ^ Suc i * (unat u div 2 ^ (64 - s)) = val (take (Suc i) x) * 2 ^ s"
    using Suc.IH [OF Suc.prems(1), of "z[Suc i := d]" u] Suc.prems u_def by auto
  have dz: "drop (Suc i) (z[Suc i := d]) = d # drop (Suc (Suc i)) z"
    using Suc.prems(3) by (simp add: list_eq_iff_nth_eq Cons_nth_drop_Suc [symmetric])
  have tx: "take (Suc (Suc i)) x = take (Suc i) x @ [w1]" using Suc.prems(2,4) by (simp add: take_Suc_conv_app_nth)
  have dg: "unat d + base * (unat w1 div 2 ^ (64 - s)) = unat w1 * 2 ^ s + unat u div 2 ^ (64 - s)"
    unfolding d_def by (rule shl_digit(1) [OF Suc.prems(1)])
  have "val (w @ [d]) + base ^ Suc (Suc i) * (unat w1 div 2 ^ (64 - s)) =
      val w + base ^ Suc i * (unat d + base * (unat w1 div 2 ^ (64 - s)))"
    using w(2) by (simp add: val_append algebra_simps)
  also have "\<dots> = val w + base ^ Suc i * (unat u div 2 ^ (64 - s)) + base ^ Suc i * (unat w1 * 2 ^ s)"
    unfolding dg by (simp add: algebra_simps)
  also have "\<dots> = val (take (Suc (Suc i)) x) * 2 ^ s"
    unfolding w(3) tx val_append using Suc.prems(2) by (simp add: algebra_simps)
  finally have "val (w @ [d]) + base ^ Suc (Suc i) * (unat w1 div 2 ^ (64 - s)) = val (take (Suc (Suc i)) x) * 2 ^ s" .
  moreover have "shlVU_loop x s (Suc i) w1 z = (w @ [d]) @ drop (Suc (Suc i)) z"
    using w(1) dz by (simp add: u_def [symmetric] d_def [symmetric] Let_def)
  ultimately show ?case using w(2) by (intro exI [of _ "w @ [d]"]) simp
qed

lemma shlVU_correct:
  assumes "length x = length z" "s < 64"
  shows "\<exists>w c. shlVU z x s = Inr (w, c) \<and> length w = length z \<and> val w + base ^ length z * unat c = val x * 2 ^ s"
proof (cases "length z")
  case 0
  then show ?thesis using assms(1) by (simp add: shlVU_def)
next
  case (Suc i)
  then show ?thesis using shlVU_loop_correct [OF assms(2), of i x z "x ! i"] assms(1)
    by (auto simp: shlVU_def unat_drop Let_def)
qed

lemma shr_digit:
  assumes "s < 64"
  shows "unat (drop_bit s w OR push_bit (64 - s) u :: Word) * 2 ^ s + unat w mod 2 ^ s = unat w + base * (unat u mod 2 ^ s)"
proof -
  have bs: "base = 2 ^ (64 - s) * 2 ^ s" using assms unfolding base_def power_add [symmetric] by simp
  have p: "unat (push_bit (64 - s) u :: Word) = 2 ^ (64 - s) * (unat u mod 2 ^ s)"
    unfolding push_unat bs by (metis mult.commute mult_mod_right)
  have d: "unat w div 2 ^ s < 2 ^ (64 - s)" using unat_base [of w] unfolding bs by (simp add: less_mult_imp_div_less mult.commute)
  have "drop_bit s w + push_bit (64 - s) u = drop_bit s w OR push_bit (64 - s) u"
  proof (rule disjunctive_add)
    fix n
    show "\<not> bit (drop_bit s w) n \<or> \<not> bit (push_bit (64 - s) u) n"
      using assms by (auto simp: bit_push_bit_iff bit_drop_bit_eq dest: bit_imp_le_length)
  qed
  moreover have "unat (drop_bit s w) + unat (push_bit (64 - s) u) < base"
  proof -
    have "2 ^ (64 - s) * (unat u mod 2 ^ s + 1) \<le> 2 ^ (64 - s) * 2 ^ s" by (intro mult_le_mono2) (simp add: Suc_leI)
    then show ?thesis unfolding p unat_drop bs using d by simp
  qed
  ultimately have e: "unat (drop_bit s w OR push_bit (64 - s) u) = unat w div 2 ^ s + 2 ^ (64 - s) * (unat u mod 2 ^ s)"
    by (metis unat_drop p unat_plus_small)
  show ?thesis unfolding e bs by (simp add: algebra_simps)
qed

declare shrVU_loop.simps [simp del]

lemma shrVU_loop_correct:
  "s < 64 \<Longrightarrow> i < n \<Longrightarrow> n = length z \<Longrightarrow> n \<le> length x \<Longrightarrow> w1 = x ! i \<Longrightarrow>
   \<exists>w. shrVU_loop x s n i w1 z = take i z @ w \<and> length w = n - i \<and>
     val w * 2 ^ s + unat w1 mod 2 ^ s = val (drop i (take n x))"
proof (induction x s n i w1 z rule: shrVU_loop.induct)
  case (1 x s n i w1 z)
  show ?case
  proof (cases "i < n - 1")
    case True
    define u where "u = x ! (i + 1)"
    define d where "d = drop_bit s w1 OR push_bit (64 - s) u"
    obtain w where w: "shrVU_loop x s n (i + 1) u (z[i := d]) = take (i + 1) (z[i := d]) @ w" "length w = n - (i + 1)"
        "val w * 2 ^ s + unat u mod 2 ^ s = val (drop (i + 1) (take n x))"
      using "1.IH" [OF True refl u_def] "1.prems" True unfolding u_def d_def by fastforce
    have tz: "take (i + 1) (z[i := d]) = take i z @ [d]" using "1.prems"(2,3) by (simp add: take_Suc_conv_app_nth)
    have dx: "drop i (take n x) = w1 # drop (i + 1) (take n x)"
      using "1.prems"(2,4,5) by (simp add: Cons_nth_drop_Suc [symmetric])
    have dg: "unat d * 2 ^ s + unat w1 mod 2 ^ s = unat w1 + base * (unat u mod 2 ^ s)"
      unfolding d_def by (rule shr_digit [OF "1.prems"(1)])
    have "val (d # w) * 2 ^ s + unat w1 mod 2 ^ s = (unat d * 2 ^ s + unat w1 mod 2 ^ s) + base * (val w * 2 ^ s)"
      by (simp add: algebra_simps)
    also have "\<dots> = unat w1 + base * (val w * 2 ^ s + unat u mod 2 ^ s)" unfolding dg by (simp add: algebra_simps)
    also have "\<dots> = val (drop i (take n x))" unfolding w(3) dx by simp
    finally have "val (d # w) * 2 ^ s + unat w1 mod 2 ^ s = val (drop i (take n x))" .
    moreover have "shrVU_loop x s n i w1 z = take i z @ d # w"
      using True w(1) tz by (subst shrVU_loop.simps) (simp add: u_def d_def Let_def)
    ultimately show ?thesis using w(2) True by (intro exI [of _ "d # w"]) simp
  next
    case False
    then have i: "i = n - 1" using "1.prems"(2) by simp
    have "drop i (take n x) = [w1]" using "1.prems"(2,4,5) i by (simp add: Cons_nth_drop_Suc [symmetric])
    moreover have "shrVU_loop x s n i w1 z = take i z @ [drop_bit s w1]"
    proof -
      have "z[i := drop_bit s w1] = take i z @ drop_bit s w1 # drop (Suc i) z"
        using "1.prems"(2,3) by (intro upd_conv_take_nth_drop) simp
      moreover have "drop (Suc i) z = []" using "1.prems"(2,3) i by simp
      ultimately show ?thesis using False i by (subst shrVU_loop.simps) simp
    qed
    moreover have "val [drop_bit s w1] * 2 ^ s + unat w1 mod 2 ^ s = val [w1]"
      using div_mult_mod_eq [of "unat w1" "2 ^ s"] by (simp only: val.simps unat_drop) simp
    ultimately show ?thesis using "1.prems"(2) i by (intro exI [of _ "[drop_bit s w1]"]) simp
  qed
qed

lemma shrVU_correct:
  assumes "length z \<le> length x" "s < 64"
  shows "\<exists>w c. shrVU z x s = Inr (w, c) \<and> length w = length z \<and> val w = val (take (length z) x) div 2 ^ s"
proof (cases "length z = 0")
  case False
  obtain w where w: "shrVU_loop x s (length z) 0 (x ! 0) z = take 0 z @ w" "length w = length z - 0"
      "val w * 2 ^ s + unat (x ! 0) mod 2 ^ s = val (drop 0 (take (length z) x))"
    using shrVU_loop_correct [OF assms(2), of 0 "length z" z x "x ! 0"] assms(1) False by auto
  have "val w = (val w * 2 ^ s + unat (x ! 0) mod 2 ^ s) div 2 ^ s" by simp
  then show ?thesis using w False assms(1) by (auto simp: shrVU_def)
qed (simp add: shrVU_def)

section \<open>The vector operations\<close>

text \<open>C40: The vector primitives are exact: with the carry they return, which is at most one word (one unit
  for additions and subtractions), the destination holds the sum, the difference, the multiple, the shift or the
  quotient of the numbers that the operands represent, for vectors of any length; none of them panics or
  changes the length of the destination.\<close>

theorem word_vectors_exact:
  assumes "length x = length z" "length y = length z" "unat c \<le> 1" "s < 64" "r < d"
  shows "(\<exists>w e. addVV (length z) x y = Inr (w, e) \<and> length w = length z \<and> unat e \<le> 1 \<and>
      val w + base ^ length z * unat e = val x + val y) \<and>
    (\<exists>w e. subVV (length z) x y = Inr (w, e) \<and> length w = length z \<and> unat e \<le> 1 \<and>
      val w + val y = val x + base ^ length z * unat e) \<and>
    (\<exists>w e. addVW (length z) x c = Inr (w, e) \<and> length w = length z \<and> unat e \<le> 1 \<and>
      val w + base ^ length z * unat e = val x + unat c) \<and>
    (\<exists>w e. subVW (length z) x c = Inr (w, e) \<and> length w = length z \<and> unat e \<le> 1 \<and>
      val w + unat c = val x + base ^ length z * unat e) \<and>
    (\<exists>w e. mulAddVWW (length z) x d r = Inr (w, e) \<and> length w = length z \<and>
      val w + base ^ length z * unat e = val x * unat d + unat r) \<and>
    (\<exists>w e. addMulVVW z x d = Inr (w, e) \<and> length w = length z \<and>
      val w + base ^ length z * unat e = val z + val x * unat d) \<and>
    (\<exists>w e. divWVW z r x d = Inr (w, e) \<and> length w = length z \<and> e < d \<and>
      val w * unat d + unat e = unat r * base ^ length z + val x) \<and>
    (\<exists>w e. shlVU z x s = Inr (w, e) \<and> length w = length z \<and>
      val w + base ^ length z * unat e = val x * 2 ^ s) \<and>
    (\<exists>w e. shrVU z x s = Inr (w, e) \<and> length w = length z \<and> val w = val x div 2 ^ s)"
  using addVV_correct [of "length z" x y] subVV_correct [of "length z" x y] addVW_correct [of "length z" x c]
    subVW_correct [of "length z" x c] mulAddVWW_correct [of "length z" x d r] addMulVVW_correct [of z x d]
    divWVW_correct [of x z r d] shlVU_correct [of x z s] shrVU_correct [of z x s] assms
  by simp

lemma word_vectors_exact_witness:
  "\<exists>w e. addVV 2 [-1, 5] [1, 7] = Inr (w, e) \<and> unat e \<le> 1 \<and> val w + base ^ 2 * unat e = val [-1, 5] + val [1, 7]"
proof -
  have "length [-1, 5 :: Word] = length [0, 0 :: Word]" "length [1, 7 :: Word] = length [0, 0 :: Word]"
    "unat (1 :: Word) \<le> 1" "3 < (64 :: nat)" "(2 :: Word) < 10" by simp_all
  from conjunct1 [OF word_vectors_exact [OF this]]
  obtain w e where "addVV (length [0, 0 :: Word]) [-1, 5] [1, 7] = Inr (w, e)" "unat e \<le> 1"
    "val w + base ^ length [0, 0 :: Word] * unat e = val [-1, 5] + val [1, 7]" by blast
  moreover have "length [0, 0 :: Word] = 2" by simp
  ultimately show ?thesis by metis
qed

end
