(* ===== verification/Go_Nat.thy ===== *)
theory Go_Nat
  imports Go_Arith
begin

unbundle bit_operations_syntax

text \<open>
  Package math/big, nat.go: natural numbers as normalised vectors of words, least significant word
  first. An operation \<open>z.op(x, y)\<close> returns a new vector; that it may reuse the memory of \<open>z\<close> is not
  modelled: every word of \<open>z.make(n)\<close> is written before it is read, or cleared first.
\<close>

type_synonym natural = "Word list"

section \<open>Construction and comparison\<close>

definition clear :: "natural \<Rightarrow> natural" where
  "clear z = replicate (length z) 0"

primrec norm_loop :: "natural \<Rightarrow> nat \<Rightarrow> nat" where
  "norm_loop z 0 = 0"
| "norm_loop z (Suc i) = (if z ! i = 0 then norm_loop z i else Suc i)"

definition norm :: "natural \<Rightarrow> natural" where
  "norm z = take (norm_loop z (length z)) z"

definition setWord :: "Word \<Rightarrow> natural" where
  "setWord x = (if x = 0 then [] else [x])"

text \<open>A uint64 is one word here: the conversion to \<open>Word\<close> and back is the identity.\<close>

definition setUint64 :: "64 word \<Rightarrow> natural" where
  "setUint64 x = setWord x"

definition natOne :: natural where
  "natOne = [1]"

definition natTwo :: natural where
  "natTwo = [2]"

primrec cmp_loop :: "natural \<Rightarrow> natural \<Rightarrow> nat \<Rightarrow> nat" where
  "cmp_loop x y 0 = 0"
| "cmp_loop x y (Suc i) = (if x ! Suc i = y ! Suc i then cmp_loop x y i else Suc i)"

definition nat_cmp :: "natural \<Rightarrow> natural \<Rightarrow> int" where
  "nat_cmp x y =
     (let m = length x; n = length y in
      if m \<noteq> n \<or> m = 0 then (if m < n then -1 else if m > n then 1 else 0)
      else let i = cmp_loop x y (m - 1) in
        if x ! i < y ! i then -1 else if x ! i > y ! i then 1 else 0)"

section \<open>Sum, difference, product with a word\<close>

function nat_add :: "natural \<Rightarrow> natural \<Rightarrow> panic + natural" where
  "nat_add x y =
     (let m = length x; n = length y in
      if m < n then nat_add y x
      else if m = 0 then Inr []
      else if n = 0 then Inr x
      else bindE (addVV n x y) (\<lambda>(z, c).
        bindE (if m > n then addVW (m - n) (drop n x) c else Inr ([], c)) (\<lambda>(z', c).
          Inr (norm (z @ z' @ [c])))))"
  by pat_completeness auto

termination
  by (relation "measure (\<lambda>(x, y). if length x < length y then 1 else 0)") auto

definition nat_sub :: "natural \<Rightarrow> natural \<Rightarrow> panic + natural" where
  "nat_sub x y =
     (let m = length x; n = length y in
      if m < n then Inl (PanicMsg ''underflow'')
      else if m = 0 then Inr []
      else if n = 0 then Inr x
      else bindE (subVV n x y) (\<lambda>(z, c).
        bindE (if m > n then subVW (m - n) (drop n x) c else Inr ([], c)) (\<lambda>(z', c).
          if c \<noteq> 0 then Inl (PanicMsg ''underflow'') else Inr (norm (z @ z')))))"

definition nat_mulAddWW :: "natural \<Rightarrow> Word \<Rightarrow> Word \<Rightarrow> panic + natural" where
  "nat_mulAddWW x y r =
     (let m = length x in
      if m = 0 \<or> y = 0 then Inr (setWord r)
      else bindE (mulAddVWW m x y r) (\<lambda>(z, c). Inr (norm (z @ [c]))))"

section \<open>Shifts and bits\<close>

definition nat_shl :: "natural \<Rightarrow> nat \<Rightarrow> panic + natural" where
  "nat_shl x s =
     (let m = length x in
      if m = 0 then Inr []
      else let n = m + s div 64 in
        bindE (shlVU (replicate m 0) x (s mod 64)) (\<lambda>(z, c). Inr (norm (replicate (n - m) 0 @ z @ [c]))))"

definition nat_shr :: "natural \<Rightarrow> nat \<Rightarrow> panic + natural" where
  "nat_shr x s =
     (let m = length x in
      if m \<le> s div 64 then Inr []
      else let n = m - s div 64 in
        bindE (shrVU (replicate n 0) (drop (m - n) x) (s mod 64)) (\<lambda>(z, c). Inr (norm z)))"

definition nat_bitLen :: "natural \<Rightarrow> int" where
  "nat_bitLen x = (if length x \<noteq> 0 then int (length x - 1) * 64 + bitLen (x ! (length x - 1)) else 0)"

definition nat_setBit :: "natural \<Rightarrow> nat \<Rightarrow> nat \<Rightarrow> panic + natural" where
  "nat_setBit x i b =
     (let j = i div 64; m = push_bit (i mod 64) 1; n = length x in
      if b = 0 then (if j \<ge> n then Inr x else Inr (norm (x[j := (x ! j) AND NOT m])))
      else if b = 1 then
        (let z = (if j \<ge> n then x @ replicate (j + 1 - n) 0 else x) in Inr (z[j := (z ! j) OR m]))
      else Inl (PanicMsg ''set bit is not 0 or 1''))"

definition nat_bit :: "natural \<Rightarrow> nat \<Rightarrow> nat" where
  "nat_bit x i = (let j = i div 64 in if j \<ge> length x then 0 else unat (drop_bit (i mod 64) (x ! j) AND 1))"

definition nat_sticky :: "natural \<Rightarrow> nat \<Rightarrow> nat" where
  "nat_sticky x i =
     (let j = i div 64 in
      if j \<ge> length x then (if length x = 0 then 0 else 1)
      else if \<exists>w \<in> set (take j x). w \<noteq> 0 then 1
      else if push_bit (64 - i mod 64) (x ! j) \<noteq> 0 then 1
      else 0)"

definition nat_and :: "natural \<Rightarrow> natural \<Rightarrow> natural" where
  "nat_and x y =
     (let m = length x; n = length y; m = (if m > n then n else m) in
      norm (map2 (\<lambda>xi yi. xi AND yi) (take m x) (take m y)))"

definition nat_andNot :: "natural \<Rightarrow> natural \<Rightarrow> natural" where
  "nat_andNot x y =
     (let m = length x; n = length y; n = (if n > m then m else n) in
      norm (map2 (\<lambda>xi yi. xi AND NOT yi) (take n x) (take n y) @ drop n x))"

definition nat_or :: "natural \<Rightarrow> natural \<Rightarrow> natural" where
  "nat_or x y =
     (let m = length x; n = length y; s = x;
          (n, s) = (if m < n then (m, y) else (n, s)) in
      norm (map2 (\<lambda>xi yi. xi OR yi) (take n x) (take n y) @ drop n s))"

definition nat_xor :: "natural \<Rightarrow> natural \<Rightarrow> natural" where
  "nat_xor x y =
     (let m = length x; n = length y; s = x;
          (n, s) = (if m < n then (m, y) else (n, s)) in
      norm (map2 (\<lambda>xi yi. xi XOR yi) (take n x) (take n y) @ drop n s))"

definition deBruijn64 :: Word where
  "deBruijn64 = 0x03f79d71b4ca8b09"

definition deBruijn64Lookup :: "nat list" where
  "deBruijn64Lookup =
     [0, 1, 56, 2, 57, 49, 28, 3, 61, 58, 42, 50, 38, 29, 17, 4,
      62, 47, 59, 36, 45, 43, 51, 22, 53, 39, 33, 30, 24, 18, 12, 5,
      63, 55, 48, 27, 60, 41, 37, 16, 46, 35, 44, 21, 52, 32, 23, 11,
      54, 26, 40, 15, 34, 20, 31, 10, 25, 14, 19, 9, 13, 8, 7, 6]"

definition trailingZeroBits :: "Word \<Rightarrow> nat" where
  "trailingZeroBits x = deBruijn64Lookup ! unat (drop_bit 58 ((x AND - x) * deBruijn64))"

fun nat_tzb_loop :: "natural \<Rightarrow> nat \<Rightarrow> panic + nat" where
  "nat_tzb_loop [] i = Inl IndexOutOfRange"
| "nat_tzb_loop (w # x) i = (if w = 0 then nat_tzb_loop x (i + 1) else Inr (i * 64 + trailingZeroBits w))"

definition nat_trailingZeroBits :: "natural \<Rightarrow> panic + nat" where
  "nat_trailingZeroBits x = (if length x = 0 then Inr 0 else nat_tzb_loop x 0)"

definition modW :: "natural \<Rightarrow> Word \<Rightarrow> panic + Word" where
  "modW x d = bindE (divWVW (replicate (length x) 0) 0 x d) (\<lambda>(q, r). Inr r)"

section \<open>Normalised vectors are natural numbers\<close>

text \<open>\<open>digits n\<close> is the one normalised vector with value \<open>n\<close>; every operation is specified by it.\<close>

definition normal :: "natural \<Rightarrow> bool" where
  "normal x \<longleftrightarrow> x = [] \<or> last x \<noteq> 0"

function digits :: "nat \<Rightarrow> natural" where
  "digits n = (if n = 0 then [] else word_of_nat n # digits (n div base))"
  by pat_completeness auto

termination
  by (relation "measure id") (auto intro: div_less_dividend)

declare digits.simps [simp del] nat_add.simps [simp del]

lemma digits_0 [simp]: "digits 0 = []"
  by (subst digits.simps) simp

lemma val_digits [simp]: "val (digits n) = n"
proof (induction n rule: digits.induct)
  case (1 n)
  have u: "unat (word_of_nat n :: Word) = n mod base"
    by (simp add: unat_of_nat base_def)
  show ?case
  proof (cases "n = 0")
    case False
    then have "val (digits n) = n mod base + base * (n div base)"
      using 1 [OF False] by (subst digits.simps) (simp add: u)
    then show ?thesis by simp
  qed simp
qed

lemma digits_eq_Nil [simp]: "digits n = [] \<longleftrightarrow> n = 0"
  by (subst digits.simps) simp

lemma normal_digits [simp]: "normal (digits n)"
proof (induction n rule: digits.induct)
  case (1 n)
  show ?case
  proof (cases "n = 0")
    case False
    show ?thesis
    proof (cases "n div base = 0")
      case True
      then have "n < base" by (simp add: div_eq_0_iff)
      then have "word_of_nat n \<noteq> (0 :: Word)"
        using False unat_of_nat [of n, where 'a = 64] by (auto simp: base_def)
      then show ?thesis using False True by (subst digits.simps) (simp add: normal_def)
    next
      case d: False
      then have "last (digits (n div base)) \<noteq> 0" using 1 [OF False] by (simp add: normal_def)
      then show ?thesis using False d by (subst digits.simps) (simp add: normal_def)
    qed
  qed (simp add: normal_def)
qed

lemma normal_Cons: "normal (a # x) \<Longrightarrow> normal x"
  by (cases x) (auto simp: normal_def)

lemma val_zero: "normal x \<Longrightarrow> val x = 0 \<Longrightarrow> x = []"
proof (induction x)
  case (Cons a x)
  have "val x = 0" using Cons.prems(2) by simp
  then have "x = []" by (rule Cons.IH [OF normal_Cons [OF Cons.prems(1)]])
  then show ?case using Cons.prems by (simp add: normal_def unat_eq_0)
qed simp

lemma digits_val: "normal x \<Longrightarrow> digits (val x) = x"
proof (induction x)
  case (Cons a x)
  have n0: "val (a # x) \<noteq> 0" using val_zero [OF Cons.prems] by blast
  have "unat (word_of_nat (val (a # x)) :: Word) = val (a # x) mod base" by (simp add: unat_of_nat base_def del: val.simps)
  also have "\<dots> = unat a" by simp
  finally have "word_of_nat (val (a # x)) = a" by (rule iffD2 [OF word_unat_eq_iff])
  moreover have "val (a # x) div base = val x" using unat_base [of a] by (simp add: div_add1_eq)
  ultimately show ?case using n0 Cons.IH [OF normal_Cons [OF Cons.prems]] by (subst digits.simps) simp
qed simp

lemma norm_loop_le: "norm_loop z i \<le> i"
  by (induction i) auto

lemma norm_append: "norm (x @ [w]) = (if w = 0 then norm x else x @ [w])"
proof -
  have l: "norm_loop (x @ [w]) i = norm_loop x i" if "i \<le> length x" for i
    using that by (induction i) (auto simp: nth_append)
  show ?thesis unfolding norm_def using l [OF order_refl] norm_loop_le [of x "length x"] by (auto simp: nth_append)
qed

lemma norm_Nil [simp]: "norm [] = []"
  by (simp add: norm_def)

lemma val_norm [simp]: "val (norm z) = val z"
proof (induction z rule: rev_induct)
  case (snoc w z)
  then show ?case by (simp add: norm_append val_append)
qed simp

lemma normal_norm [simp]: "normal (norm z)"
proof (induction z rule: rev_induct)
  case (snoc w z)
  then show ?case by (simp add: norm_append) (simp add: normal_def)
qed (simp add: normal_def)

lemma norm_digits: "norm z = digits (val z)"
  using digits_val [OF normal_norm, of z] by simp

lemma length_norm: "length (norm z) \<le> length z"
  by (simp add: norm_def)

lemma val_inj: "normal x \<Longrightarrow> normal y \<Longrightarrow> val x = val y \<Longrightarrow> x = y"
  by (metis digits_val)

section \<open>Sums, differences and comparison are exact\<close>

lemma val_singleton [simp]: "val [w] = unat w"
  by simp

lemma setWord_digits: "setWord w = digits (unat w)"
proof -
  have "normal (setWord w)" "val (setWord w) = unat w" by (simp_all add: setWord_def normal_def)
  then show ?thesis using digits_val by metis
qed

lemma digits_unfold: "val z = n \<Longrightarrow> norm z = digits n"
  by (simp add: norm_digits)

lemma val_take_all [simp]: "length x \<le> n \<Longrightarrow> val (take n x) = val x"
  by simp

lemma val_upper: "val x div base ^ length x = 0"
  using val_less by simp

lemma nat_add_ge:
  assumes "length y \<le> length x" "normal x" "normal y"
  shows "nat_add x y = Inr (digits (val x + val y))"
proof (cases "length y = 0")
  case True
  then show ?thesis using assms by (simp add: digits_val Let_def nat_add.simps)
next
  case False
  define m n where "m = length x" and "n = length y"
  have mn: "n \<le> m" "n \<noteq> 0" using assms(1) False by (auto simp: m_def n_def)
  obtain z c where z: "addVV n x y = Inr (z, c)" "length z = n" "unat c \<le> 1"
      "val z + base ^ n * unat c = val (take n x) + val (take n y)"
    using addVV_correct [of n x y] mn by (auto simp: m_def n_def)
  have vy: "val (take n y) = val y" by (simp add: n_def)
  have vx: "val x = val (take n x) + base ^ n * val (drop n x)"
    using val_split [of x n] mn by (simp add: m_def min_absorb1)
  show ?thesis
  proof (cases "n < m")
    case True
    obtain z' c' where z': "addVW (m - n) (drop n x) c = Inr (z', c')" "length z' = m - n"
        "val z' + base ^ (m - n) * unat c' = val (take (m - n) (drop n x)) + unat c"
      using addVW_correct [of "m - n" "drop n x" c] z(3) by (auto simp: m_def n_def)
    have td: "take (m - n) (drop n x) = drop n x" by (simp add: m_def)
    have "val (z @ z' @ [c']) = val z + base ^ n * (val z' + base ^ (m - n) * unat c')"
      by (simp add: val_append z(2) z'(2))
    also have "\<dots> = (val z + base ^ n * unat c) + base ^ n * val (drop n x)"
      unfolding z'(3) td by (simp add: algebra_simps)
    also have "\<dots> = val x + val y" unfolding z(4) vy vx by simp
    finally have v: "norm (z @ z' @ [c']) = digits (val x + val y)" by (rule digits_unfold)
    show ?thesis using mn True z(1) z'(1) v
      by (subst nat_add.simps) (simp add: m_def [symmetric] n_def [symmetric] Let_def)
  next
    case nm: False
    then have "take n x = x" using mn by (simp add: m_def)
    then have "val (z @ [c]) = val x + val y" using z(2,4) vy by (simp add: val_append)
    then have v: "norm (z @ [c]) = digits (val x + val y)" by (rule digits_unfold)
    have "m = n" using nm mn by simp
    then show ?thesis using mn z(1) v
      by (subst nat_add.simps) (simp add: m_def [symmetric] n_def [symmetric] Let_def)
  qed
qed

lemma nat_add_digits:
  assumes "normal x" "normal y"
  shows "nat_add x y = Inr (digits (val x + val y))"
proof (cases "length x < length y")
  case True
  then have "nat_add x y = nat_add y x" by (subst nat_add.simps) (simp only: Let_def if_True)
  then show ?thesis using nat_add_ge [of x y] assms True by (simp add: add.commute)
next
  case False
  then show ?thesis using nat_add_ge [of y x] assms by simp
qed

lemma val_lower: "normal x \<Longrightarrow> x \<noteq> [] \<Longrightarrow> base ^ (length x - 1) \<le> val x"
proof (induction x rule: rev_induct)
  case (snoc w x)
  then have "unat w \<noteq> 0" by (simp add: normal_def unat_eq_0)
  then have "base ^ length x * 1 \<le> base ^ length x * unat w" by (intro mult_le_mono2) simp
  then show ?case by (simp add: val_append trans_le_add2 del: mult_le_cancel1)
qed simp

lemma val_shorter: "normal y \<Longrightarrow> length x < length y \<Longrightarrow> val x < val y"
proof -
  assume a: "normal y" "length x < length y"
  have "val x < base ^ length x" by (rule val_less)
  also have "\<dots> \<le> base ^ (length y - 1)" using a(2) by (intro power_increasing) (auto simp: Suc_leI)
  also have "\<dots> \<le> val y" using val_lower a by fastforce
  finally show ?thesis .
qed

lemma nat_sub_digits:
  assumes "normal x" "normal y"
  shows "nat_sub x y = (if val x < val y then Inl (PanicMsg ''underflow'') else Inr (digits (val x - val y)))"
proof -
  define m n where "m = length x" and "n = length y"
  consider "m < n" | "m = 0" "n = 0" | "n = 0" "m \<noteq> 0" | "n \<noteq> 0" "n \<le> m" by linarith
  then show ?thesis
  proof cases
    case 1
    then show ?thesis using val_shorter [OF assms(2), of x] by (simp add: nat_sub_def m_def n_def)
  next
    case 2
    then show ?thesis by (simp add: nat_sub_def m_def n_def)
  next
    case 3
    then show ?thesis using assms(1) by (simp add: nat_sub_def m_def n_def digits_val)
  next
    case 4
    obtain z c where z: "subVV n x y = Inr (z, c)" "length z = n" "unat c \<le> 1"
        "val z + val (take n y) = val (take n x) + base ^ n * unat c"
      using subVV_correct [of n x y] 4 by (auto simp: m_def n_def)
    have vy: "val (take n y) = val y" by (simp add: n_def)
    have vx: "val x = val (take n x) + base ^ n * val (drop n x)"
      using val_split [of x n] 4 by (simp add: m_def min_absorb1)
    obtain z' c' where z': "(if m > n then subVW (m - n) (drop n x) c else Inr ([], c)) = Inr (z', c')" "length z' = m - n"
        "val z' + unat c = val (drop n x) + base ^ (m - n) * unat c'"
    proof (cases "n < m")
      case True
      then show ?thesis using subVW_correct [of "m - n" "drop n x" c] z(3) that by (auto simp: m_def n_def)
    next
      case False
      then show ?thesis using that [of "[]" c] 4 by (simp add: m_def)
    qed
    have le: "base ^ n * (val z' + unat c) = base ^ n * (val (drop n x) + base ^ (m - n) * unat c')" unfolding z'(3) ..
    have bm: "base ^ m = base ^ n * base ^ (m - n)" using 4 by (simp flip: power_add)
    have e: "val (z @ z') + val y = val x + base ^ m * unat c'"
      using le z(4) unfolding vy vx val_append z(2) bm by (simp add: algebra_simps)
    have lz: "val (z @ z') < base ^ m" using val_less [of "z @ z'"] z(2) z'(2) 4 by simp
    have eq: "nat_sub x y = (if c' \<noteq> 0 then Inl (PanicMsg ''underflow'') else Inr (norm (z @ z')))"
      using 4 z(1) z'(1) by (simp add: nat_sub_def m_def [symmetric] n_def [symmetric] Let_def)
    show ?thesis
    proof (cases "c' = 0")
      case True
      then have "val (z @ z') = val x - val y" "val y \<le> val x" using e by simp_all
      then show ?thesis using True by (simp add: eq digits_unfold)
    next
      case False
      then have "1 \<le> unat c'" by (metis unat_eq_0 less_one not_le)
      then have "base ^ m * 1 \<le> base ^ m * unat c'" by (rule mult_le_mono2)
      then have "val x < val y" using e lz by linarith
      then show ?thesis using False by (simp add: eq)
    qed
  qed
qed

lemma cmp_loop_spec:
  "i < length x \<Longrightarrow> cmp_loop x y i \<le> i \<and>
   (\<forall>j. cmp_loop x y i < j \<longrightarrow> j \<le> i \<longrightarrow> x ! j = y ! j) \<and>
   (cmp_loop x y i = 0 \<or> x ! cmp_loop x y i \<noteq> y ! cmp_loop x y i)"
  by (induction i) (auto simp: le_Suc_eq)

lemma val_top_less:
  assumes "length x = length y" "i < length x" "drop (Suc i) x = drop (Suc i) y" "x ! i < y ! i"
  shows "val x < val y"
proof -
  have d: "val z = val (take i z) + base ^ i * (unat (z ! i) + base * val (drop (Suc i) z))"
    if "i < length z" for z
    using val_split [of z i] that by (simp add: Cons_nth_drop_Suc [symmetric] min_absorb1)
  have "unat (x ! i) + 1 \<le> unat (y ! i)" using assms(4) by (simp add: word_less_nat_alt)
  then have "base ^ i * (unat (x ! i) + 1) \<le> base ^ i * unat (y ! i)" by (rule mult_le_mono2)
  moreover have "val (take i x) < base ^ i" using val_less [of "take i x"] assms(2) by (simp add: min_absorb1)
  ultimately show ?thesis using d [of x] d [of y] assms(1,2,3) by (simp add: algebra_simps)
qed

lemma nat_cmp_val:
  assumes "normal x" "normal y"
  shows "nat_cmp x y = (if val x < val y then -1 else if val x > val y then 1 else 0)"
proof (cases "length x = length y \<and> x \<noteq> []")
  case False
  then show ?thesis using val_shorter [OF assms(2), of x] val_shorter [OF assms(1), of y]
    by (auto simp: nat_cmp_def Let_def)
next
  case True
  define i where "i = cmp_loop x y (length x - 1)"
  have "length x \<noteq> 0" using True by blast
  then have l: "length x - 1 < length x" "\<And>j. j < length x \<Longrightarrow> j \<le> length x - 1" by linarith+
  note c = cmp_loop_spec [OF l(1), of y, folded i_def]
  have i: "i < length x" "\<And>j. i < j \<Longrightarrow> j < length x \<Longrightarrow> x ! j = y ! j" "i = 0 \<or> x ! i \<noteq> y ! i"
    using c l by (simp_all del: One_nat_def)
  have d: "drop (Suc i) x = drop (Suc i) y"
    using True i(2) by (intro nth_equalityI) auto
  have eq: "nat_cmp x y = (if x ! i < y ! i then -1 else if x ! i > y ! i then 1 else 0)"
  proof -
    have "(length x \<noteq> length y \<or> length x = 0) = False" using True by blast
    then show ?thesis unfolding nat_cmp_def Let_def i_def by (simp only: if_False)
  qed
  consider "x ! i < y ! i" | "y ! i < x ! i" | "x ! i = y ! i" by (meson linorder_cases)
  then show ?thesis
  proof cases
    case 1
    then show ?thesis using val_top_less [of x y i] True i(1) d by (simp add: eq)
  next
    case 2
    then show ?thesis using val_top_less [of y x i] True i(1) d by (simp add: eq not_less_iff_gr_or_eq)
  next
    case 3
    then have "i = 0" using i(3) by simp
    then have "x = y" using 3 d True i(1)
      by (metis Cons_nth_drop_Suc drop0)
    moreover have "nat_cmp x y = 0" unfolding eq using 3 by simp
    ultimately show ?thesis by simp
  qed
qed

lemma nat_mulAddWW_digits:
  assumes "normal x"
  shows "nat_mulAddWW x y r = Inr (digits (val x * unat y + unat r))"
proof (cases "x = [] \<or> y = 0")
  case True
  then show ?thesis by (auto simp: nat_mulAddWW_def setWord_digits)
next
  case False
  obtain z c where z: "mulAddVWW (length x) x y r = Inr (z, c)" "length z = length x"
      "val z + base ^ length x * unat c = val x * unat y + unat r"
    using mulAddVWW_correct [OF order_refl, of x y r] by auto
  then have "val (z @ [c]) = val x * unat y + unat r" by (simp add: val_append)
  then show ?thesis using False z(1) by (simp add: nat_mulAddWW_def digits_unfold)
qed

section \<open>Shifts are exact\<close>

lemma base_pow: "base ^ k = 2 ^ (64 * k)"
  by (simp add: base_def power_mult)

lemma val_zeros_append [simp]: "val (replicate k 0 @ z) = base ^ k * val z"
  by (simp add: val_append)

lemma nat_shl_digits: "nat_shl x s = Inr (digits (val x * 2 ^ s))"
proof (cases "length x = 0")
  case False
  obtain z c where z: "shlVU (replicate (length x) 0) x (s mod 64) = Inr (z, c)" "length z = length x"
      "val z + base ^ length x * unat c = val x * 2 ^ (s mod 64)"
    using shlVU_correct [of x "replicate (length x) 0" "s mod 64"] by auto
  have p: "(2 :: nat) ^ s = base ^ (s div 64) * 2 ^ (s mod 64)"
    unfolding base_pow by (simp flip: power_add)
  have "val (replicate (s div 64) 0 @ z @ [c]) = base ^ (s div 64) * (val z + base ^ length x * unat c)"
    by (simp add: val_append z(2))
  also have "\<dots> = val x * 2 ^ s" unfolding z(3) p by simp
  finally show ?thesis using False z(1) by (simp add: nat_shl_def digits_unfold Let_def)
qed (simp add: nat_shl_def)

lemma val_drop: "val (drop k x) = val x div base ^ k"
proof (cases "k \<le> length x")
  case True
  then have "val (take k x) < base ^ k" using val_less [of "take k x"] by (simp add: min_absorb2)
  then show ?thesis using val_split [of x k] True by (simp add: min_absorb1)
next
  case False
  have "val x < base ^ length x" by (rule val_less)
  also have "\<dots> \<le> base ^ k" using False by (intro power_increasing) (auto simp: Suc_leI)
  finally show ?thesis using False by simp
qed

lemma nat_shr_digits: "nat_shr x s = Inr (digits (val x div 2 ^ s))"
proof -
  define k where "k = s div 64"
  have p: "(2 :: nat) ^ s = base ^ k * 2 ^ (s mod 64)"
    unfolding base_pow k_def by (simp flip: power_add)
  have v: "val x div 2 ^ s = val (drop k x) div 2 ^ (s mod 64)"
    unfolding p val_drop by (simp add: div_mult2_eq)
  show ?thesis
  proof (cases "length x \<le> k")
    case True
    then show ?thesis unfolding v by (simp add: nat_shr_def k_def)
  next
    case False
    define n where "n = length x - k"
    have d: "length x - n = k" "length (drop k x) = n" using False by (simp_all add: n_def)
    obtain z c where z: "shrVU (replicate n 0) (drop k x) (s mod 64) = Inr (z, c)"
        "val z = val (take n (drop k x)) div 2 ^ (s mod 64)"
      using shrVU_correct [of "replicate n 0" "drop k x" "s mod 64"] d by auto
    have "val z = val x div 2 ^ s" using z(2) d(2) unfolding v by simp
    then show ?thesis using False z(1) d(1)
      by (simp add: nat_shr_def digits_unfold k_def [symmetric] n_def [symmetric] Let_def)
  qed
qed

section \<open>Bits\<close>

lemma bit_val: "bit (val x) i \<longleftrightarrow> i div 64 < length x \<and> bit (x ! (i div 64)) (i mod 64)"
proof (induction x arbitrary: i)
  case (Cons w x)
  have t: "take_bit 64 (val (w # x)) = unat w"
    using unat_base [of w] by (simp add: take_bit_eq_mod base_num)
  have d: "drop_bit 64 (val (w # x)) = val x"
    using unat_base [of w] by (simp add: drop_bit_eq_div base_num)
  show ?case
  proof (cases "i < 64")
    case True
    then have "bit (val (w # x)) i = bit (take_bit 64 (val (w # x))) i" by (simp add: bit_take_bit_iff del: val.simps)
    then show ?thesis using True unfolding t by (simp add: bit_unsigned_iff)
  next
    case False
    then have "bit (val (w # x)) i = bit (drop_bit 64 (val (w # x))) (i - 64)" by (simp add: bit_drop_bit_eq del: val.simps)
    moreover have "i div 64 = Suc ((i - 64) div 64)" "i mod 64 = (i - 64) mod 64"
      using False by (simp_all add: le_div_geq le_mod_geq)
    ultimately show ?thesis unfolding d using Cons.IH by simp
  qed
qed simp

lemma nat_bitLen_val:
  assumes "normal x"
  shows "nat_bitLen x = int (blen (val x))"
proof (cases x rule: rev_cases)
  case (snoc y w)
  then have w: "unat w \<noteq> 0" using assms by (simp add: normal_def unat_eq_0)
  have v: "val x = val y + 2 ^ (64 * length y) * unat w" "val y < 2 ^ (64 * length y)"
    using val_less [of y] by (simp_all add: snoc val_append base_pow)
  have vd: "val x div 2 ^ (64 * length y) = unat w" using v by simp
  have "blen (val x) = 64 * length y + blen (unat w)"
  proof (cases "length y = 0")
    case False
    define k where "k = 64 * length y - 1"
    have k: "Suc k = 64 * length y" using False by (simp add: k_def)
    have "2 ^ k \<le> (2 :: nat) ^ (64 * length y) * 1" unfolding k [symmetric] by simp
    also have "\<dots> \<le> 2 ^ (64 * length y) * unat w" using w by (intro mult_le_mono2) simp
    finally have "2 ^ k \<le> val x" using v(1) by linarith
    from blen_shift [OF this] show ?thesis unfolding k vd .
  qed (use v in simp)
  then show ?thesis by (simp add: nat_bitLen_def snoc bitLen_blen)
qed (simp add: nat_bitLen_def)

lemma nat_bit_val: "nat_bit x i = (if bit (val x) i then 1 else 0)"
proof -
  have "drop_bit k w AND 1 = (if bit w k then 1 else 0)" for w :: Word and k
    by (simp add: and_one_eq bit_iff_odd_drop_bit odd_iff_mod_2_eq_one)
  then show ?thesis by (auto simp: nat_bit_def bit_val Let_def)
qed

lemma nat_and_digits: "nat_and x y = digits (val x AND val y)"
proof -
  define m where "m = min (length x) (length y)"
  have "val (map2 (\<lambda>xi yi. xi AND yi) (take m x) (take m y)) = val x AND val y"
    by (rule bit_eqI) (auto simp: bit_val bit_and_iff m_def)
  moreover have "nat_and x y = norm (map2 (\<lambda>xi yi. xi AND yi) (take m x) (take m y))"
    unfolding nat_and_def Let_def m_def by (cases "length x > length y") (simp_all add: min_def)
  ultimately show ?thesis by (simp add: digits_unfold)
qed

lemma nat_andNot_digits: "nat_andNot x y = digits (val x - (val x AND val y))"
proof -
  define n where "n = min (length x) (length y)"
  define z where "z = map2 (\<lambda>xi yi. xi AND NOT yi) (take n x) (take n y) @ drop n x"
  have l: "length z = length x" by (simp add: z_def n_def)
  have n: "z ! i = (if i < length y then x ! i AND NOT (y ! i) else x ! i)" if "i < length x" for i
    using that by (auto simp: z_def n_def nth_append)
  have "val z + (val x AND val y) = val z OR (val x AND val y)"
    by (rule disjunctive_add) (auto simp: bit_val bit_and_iff bit_not_iff l n split: if_splits)
  also have "\<dots> = val x"
    by (rule bit_eqI) (auto simp: bit_val bit_and_iff bit_or_iff bit_not_iff l n split: if_splits)
  finally have "val z = val x - (val x AND val y)" by simp
  moreover have "nat_andNot x y = norm z"
    unfolding nat_andNot_def Let_def z_def n_def by (cases "length y > length x") (simp_all add: min_def)
  ultimately show ?thesis by (simp add: digits_unfold)
qed

lemma nat_or_digits: "nat_or x y = digits (val x OR val y)"
proof -
  define n s where "n = min (length x) (length y)" and "s = (if length x < length y then y else x)"
  define z where "z = map2 (\<lambda>xi yi. xi OR yi) (take n x) (take n y) @ drop n s"
  have l: "length z = max (length x) (length y)" by (simp add: z_def n_def s_def)
  have n: "z ! i = (if i < length x then if i < length y then x ! i OR y ! i else x ! i else y ! i)" if "i < length z" for i
    using that unfolding l by (auto simp: z_def n_def s_def nth_append)
  have "val z = val x OR val y"
    by (rule bit_eqI) (use l in \<open>auto simp: bit_val bit_or_iff n split: if_splits\<close>)
  moreover have "nat_or x y = norm z"
    unfolding nat_or_def Let_def z_def n_def s_def by (cases "length x < length y") (simp_all add: min_def)
  ultimately show ?thesis by (simp add: digits_unfold)
qed

lemma nat_xor_digits: "nat_xor x y = digits (val x XOR val y)"
proof -
  define n s where "n = min (length x) (length y)" and "s = (if length x < length y then y else x)"
  define z where "z = map2 (\<lambda>xi yi. xi XOR yi) (take n x) (take n y) @ drop n s"
  have l: "length z = max (length x) (length y)" by (simp add: z_def n_def s_def)
  have n: "z ! i = (if i < length x then if i < length y then x ! i XOR y ! i else x ! i else y ! i)" if "i < length z" for i
    using that unfolding l by (auto simp: z_def n_def s_def nth_append)
  have "val z = val x XOR val y"
    by (rule bit_eqI) (use l in \<open>auto simp: bit_val bit_xor_iff n split: if_splits\<close>)
  moreover have "nat_xor x y = norm z"
    unfolding nat_xor_def Let_def z_def n_def s_def by (cases "length x < length y") (simp_all add: min_def)
  ultimately show ?thesis by (simp add: digits_unfold)
qed

lemma bit_push_1: "bit (push_bit k 1 :: Word) i \<longleftrightarrow> i = k \<and> k < 64"
  by (auto simp: bit_exp_iff)

lemma div_mod_64: "(i :: nat) div 64 = j div 64 \<Longrightarrow> i mod 64 = j mod 64 \<Longrightarrow> i = j"
  by (metis div_mult_mod_eq)

lemma nat_setBit_digits:
  assumes "normal x"
  shows "nat_setBit x i 0 = Inr (digits (unset_bit i (val x)))"
    "nat_setBit x i 1 = Inr (digits (Bit_Operations.set_bit i (val x)))"
proof -
  define j where "j = i div 64"
  define m :: Word where "m = push_bit (i mod 64) 1"
  have mb: "bit m k \<longleftrightarrow> k = i mod 64" for k unfolding m_def bit_push_1 by auto
  show "nat_setBit x i 0 = Inr (digits (unset_bit i (val x)))"
  proof (cases "length x \<le> j")
    case True
    then have "unset_bit i (val x) = val x"
      by (intro bit_eqI) (auto simp: bit_unset_bit_iff bit_val j_def)
    then show ?thesis using True assms by (simp add: nat_setBit_def j_def digits_val Let_def)
  next
    case False
    have "val (x[j := (x ! j) AND NOT m]) = unset_bit i (val x)"
      using False by (intro bit_eqI)
        (auto simp: bit_unset_bit_iff bit_val nth_list_update bit_and_iff bit_not_iff mb j_def dest: div_mod_64)
    then show ?thesis using False
      unfolding nat_setBit_def Let_def j_def [symmetric] m_def [symmetric] by (simp add: digits_unfold)
  qed
  define z where "z = (if j \<ge> length x then x @ replicate (j + 1 - length x) 0 else x)"
  have lz: "length z = max (length x) (j + 1)" "j < length z" by (simp_all add: z_def)
  have nz: "z ! k = (if k < length x then x ! k else 0)" if "k < length x \<or> k \<le> i div 64" for k
    using that lz(1) by (auto simp: z_def nth_append j_def)
  define w where "w = z[j := (z ! j) OR m]"
  have "val w = Bit_Operations.set_bit i (val x)"
    by (intro bit_eqI) (use lz in \<open>auto simp: w_def bit_set_bit_iff bit_val nth_list_update bit_or_iff mb nz j_def less_max_iff_disj less_Suc_eq_le split: if_splits dest: div_mod_64\<close>)
  moreover have "normal w"
  proof -
    have wl: "length w = length z" by (simp add: w_def)
    then have wn: "w \<noteq> []" using lz(2) by (metis length_0_conv not_less_zero)
    have lw: "last w = w ! (length z - 1)" unfolding last_conv_nth [OF wn] wl ..
    show ?thesis
    proof (cases "length z = j + 1")
      case True
      then have "bit (last w) (i mod 64)" using lz lw by (simp add: w_def bit_or_iff mb)
      then show ?thesis by (auto simp: normal_def)
    next
      case False
      then have "z = x" "j < length x - 1" using lz by (auto simp: z_def)
      moreover from this have "x \<noteq> []" by auto
      ultimately have "last w = last x" "x \<noteq> []" using lw by (auto simp: w_def last_conv_nth)
      then show ?thesis using assms by (simp add: normal_def)
    qed
  qed
  ultimately have "w = digits (Bit_Operations.set_bit i (val x))" using digits_val by metis
  then show "nat_setBit x i 1 = Inr (digits (Bit_Operations.set_bit i (val x)))"
    unfolding nat_setBit_def Let_def j_def [symmetric] m_def [symmetric] z_def [symmetric] w_def [symmetric] by simp
qed

lemma val_nonzero: "val x \<noteq> 0 \<longleftrightarrow> (\<exists>w \<in> set x. w \<noteq> 0)"
  by (induction x) (auto simp: unat_eq_0)

lemma nat_sticky_val:
  assumes "normal x"
  shows "nat_sticky x i = (if 2 ^ i dvd val x then 0 else 1)"
proof -
  define j where "j = i div 64"
  have dv: "2 ^ i dvd val x \<longleftrightarrow> (\<forall>k < i. \<not> bit (val x) k)"
    unfolding dvd_eq_mod_eq_0 take_bit_eq_mod [symmetric] bit_eq_iff by (auto simp: bit_take_bit_iff)
  consider "x = []" | "x \<noteq> []" "length x \<le> j" | "j < length x" by fastforce
  then show ?thesis
  proof cases
    case 2
    then have "val x \<noteq> 0" using val_zero [OF assms] by blast
    moreover have "val x < 2 ^ i"
    proof -
      have "val x < 2 ^ (64 * length x)" using val_less [of x] by (simp add: base_pow)
      also have "\<dots> \<le> 2 ^ i" using 2(2) unfolding j_def by (intro power_increasing) auto
      finally show ?thesis .
    qed
    ultimately have "\<not> 2 ^ i dvd val x" by (simp add: nat_dvd_not_less)
    then show ?thesis using 2 by (simp add: nat_sticky_def j_def)
  next
    case 3
    have low: "(\<exists>w \<in> set (take j x). w \<noteq> 0) \<longleftrightarrow> (\<exists>k < 64 * j. bit (val x) k)"
    proof -
      have "(\<exists>k < 64 * j. bit (val x) k) \<longleftrightarrow> val (take j x) \<noteq> 0"
      proof -
        have "val (take j x) = take_bit (64 * j) (val x)"
          using 3 val_split [of x j] val_less [of "take j x"]
          by (simp add: take_bit_eq_mod base_pow min_absorb1 min_absorb2)
        then show ?thesis by (auto simp: bit_eq_iff bit_take_bit_iff)
      qed
      moreover have "val (take j x) \<noteq> 0 \<longleftrightarrow> (\<exists>w \<in> set (take j x). w \<noteq> 0)"
        by (rule val_nonzero)
      ultimately show ?thesis by simp
    qed
    have high: "push_bit (64 - i mod 64) (x ! j) \<noteq> 0 \<longleftrightarrow> (\<exists>k < i mod 64. bit (x ! j) k)"
    proof
      assume "push_bit (64 - i mod 64) (x ! j) \<noteq> 0"
      then obtain k where "bit (push_bit (64 - i mod 64) (x ! j)) k" using bit_eq_iff [of "push_bit (64 - i mod 64) (x ! j)" 0] by auto
      then have "64 - i mod 64 \<le> k" "k < 64" "bit (x ! j) (k - (64 - i mod 64))"
        by (auto simp: bit_push_bit_iff dest: bit_imp_le_length)
      then show "\<exists>k < i mod 64. bit (x ! j) k" by (intro exI [of _ "k - (64 - i mod 64)"]) auto
    next
      assume "\<exists>k < i mod 64. bit (x ! j) k"
      then obtain k where "k < i mod 64" "bit (x ! j) k" by blast
      moreover from this have "k + (64 - i mod 64) < 64" using mod_less_divisor [of 64 i] by linarith
      ultimately have "bit (push_bit (64 - i mod 64) (x ! j)) (k + (64 - i mod 64))"
        by (simp add: bit_push_bit_iff del: less_diff_conv2 Nat.add_diff_assoc)
      then show "push_bit (64 - i mod 64) (x ! j) \<noteq> 0" by auto
    qed
    have i: "i = 64 * j + i mod 64" by (simp add: j_def)
    have b: "bit (val x) (64 * j + k) \<longleftrightarrow> bit (x ! j) k" if "k < i mod 64" for k
      using that mod_less_divisor [of 64 i] 3 by (simp add: bit_val)
    have "(\<exists>k < i. bit (val x) k) \<longleftrightarrow> (\<exists>k < 64 * j. bit (val x) k) \<or> (\<exists>k < i mod 64. bit (x ! j) k)"
    proof
      assume "\<exists>k < i. bit (val x) k"
      then obtain k where k: "k < i" "bit (val x) k" by blast
      show "(\<exists>k < 64 * j. bit (val x) k) \<or> (\<exists>k < i mod 64. bit (x ! j) k)"
      proof (cases "k < 64 * j")
        case False
        then have "k = 64 * j + (k - 64 * j)" "k - 64 * j < i mod 64" using k(1) i by linarith+
        then show ?thesis using k(2) b [of "k - 64 * j"] by metis
      qed (use k in blast)
    next
      assume "(\<exists>k < 64 * j. bit (val x) k) \<or> (\<exists>k < i mod 64. bit (x ! j) k)"
      then consider k where "k < 64 * j" "bit (val x) k" | k where "k < i mod 64" "bit (x ! j) k" by blast
      then show "\<exists>k < i. bit (val x) k"
      proof cases
        case 1
        then show ?thesis using i by (intro exI [of _ k]) linarith
      next
        case 2
        then show ?thesis using i b [of k] by (intro exI [of _ "64 * j + k"]) (metis nat_add_left_cancel_less)
      qed
    qed
    then show ?thesis using 3 low high by (auto simp: nat_sticky_def j_def [symmetric] Let_def dv)
  qed (simp add: nat_sticky_def)
qed

subsection \<open>Trailing zeros: the de Bruijn table\<close>

lemma lowest_bit:
  assumes "bit w k" "\<And>j. j < k \<Longrightarrow> \<not> bit w j"
  shows "w AND - w = (push_bit k 1 :: Word)"
proof -
  define u where "u = w AND NOT (push_bit k 1)"
  have k: "k < 64" using assms(1) by (auto dest: bit_imp_le_length)
  have "w = u OR push_bit k 1" using assms(1) k
    by (intro bit_word_eqI) (auto simp: u_def bit_or_iff bit_and_iff bit_not_iff bit_push_1 simp del: push_bit_of_1)
  also have "\<dots> = u + push_bit k 1"
    by (rule disjunctive_add [symmetric]) (auto simp: u_def bit_and_iff bit_not_iff bit_push_1 simp del: push_bit_of_1)
  finally have "w - 1 = u + mask k" by (simp add: mask_eq_exp_minus_1)
  also have "\<dots> = u OR mask k"
    by (rule disjunctive_add) (use assms(2) in \<open>auto simp: u_def bit_and_iff bit_mask_iff\<close>)
  finally have "- w = NOT (u OR mask k)" by (simp add: minus_eq_not_minus_1)
  then show ?thesis using assms k
    by (intro bit_word_eqI)
      (auto simp: u_def bit_or_iff bit_and_iff bit_not_iff bit_mask_iff bit_push_1 simp del: push_bit_of_1)
qed

lemma all_below: "list_all P [0..<n] \<Longrightarrow> k < n \<Longrightarrow> P k"
  by (simp add: list_all_iff)

lemma deBruijn_table: "list_all (\<lambda>k. deBruijn64Lookup ! unat (drop_bit 58 (push_bit k 1 * deBruijn64)) = k) [0..<64]"
  by code_simp

lemma trailingZeroBits_lowest:
  assumes "bit w k" "\<And>j. j < k \<Longrightarrow> \<not> bit w j"
  shows "trailingZeroBits w = k"
proof -
  have "k < 64" using assms(1) by (auto dest: bit_imp_le_length)
  then have "deBruijn64Lookup ! unat (drop_bit 58 (push_bit k 1 * deBruijn64)) = k"
    by (rule all_below [OF deBruijn_table])
  then show ?thesis unfolding trailingZeroBits_def by (simp only: lowest_bit [OF assms])
qed

lemma nat_tzb_loop_correct:
  "val x \<noteq> 0 \<Longrightarrow> \<exists>k. nat_tzb_loop x i = Inr (64 * i + k) \<and> bit (val x) k \<and> (\<forall>j < k. \<not> bit (val x) j)"
proof (induction x i rule: nat_tzb_loop.induct)
  case (2 w x i)
  have d: "bit (val (w # x)) (64 + k) = bit (val x) k" for k
  proof -
    have "(64 + k) div 64 = Suc (k div 64)" by simp
    then show ?thesis by (simp only: bit_val) simp
  qed
  have l: "bit (val (w # x)) k = bit w k" if "k < 64" for k
    using that by (simp add: bit_val del: val.simps)
  show ?case
  proof (cases "w = 0")
    case True
    then have "val x \<noteq> 0" using "2.prems" by simp
    then obtain k where k: "nat_tzb_loop x (i + 1) = Inr (64 * (i + 1) + k)" "bit (val x) k" "\<forall>j < k. \<not> bit (val x) j"
      using "2.IH" [OF True] by blast
    have "\<not> bit (val (w # x)) j" if "j < 64 + k" for j
    proof (cases "j < 64")
      case False
      then have "j = 64 + (j - 64)" "j - 64 < k" using that by auto
      then show ?thesis using k(3) d [of "j - 64"] by metis
    next
      case True
      show ?thesis unfolding l [OF True] using \<open>w = 0\<close> by simp
    qed
    then show ?thesis using True k(1,2) d [of k] by (intro exI [of _ "64 + k"]) (simp del: val.simps)
  next
    case False
    define k where "k = (LEAST k. bit w k)"
    obtain k0 where "bit w k0" using False bit_eq_iff [of w 0] by auto
    then have k: "bit w k" "\<And>j. j < k \<Longrightarrow> \<not> bit w j"
      unfolding k_def by (rule LeastI, use not_less_Least in blast)
    have "k < 64" using k(1) by (auto dest: bit_imp_le_length)
    then have "bit (val (w # x)) k" "\<forall>j < k. \<not> bit (val (w # x)) j" using k l by auto
    moreover have "nat_tzb_loop (w # x) i = Inr (64 * i + k)"
      using False trailingZeroBits_lowest [OF k] by simp
    ultimately show ?thesis by blast
  qed
qed simp

lemma nat_trailingZeroBits_val:
  assumes "normal x" "x \<noteq> []"
  shows "\<exists>k. nat_trailingZeroBits x = Inr k \<and> 2 ^ k dvd val x \<and> odd (val x div 2 ^ k)"
proof -
  have "val x \<noteq> 0" using val_zero [OF assms(1)] assms(2) by blast
  then obtain k where "nat_tzb_loop x 0 = Inr (64 * 0 + k)" "bit (val x) k" "\<forall>j < k. \<not> bit (val x) j"
    using nat_tzb_loop_correct by blast
  moreover from this(3) have "2 ^ k dvd val x"
    unfolding dvd_eq_mod_eq_0 take_bit_eq_mod [symmetric] bit_eq_iff by (auto simp: bit_take_bit_iff)
  ultimately show ?thesis using assms(2) by (auto simp: nat_trailingZeroBits_def bit_iff_odd)
qed

lemma modW_val:
  assumes "d \<noteq> 0"
  shows "modW x d = Inr (word_of_nat (val x mod unat d))"
proof -
  obtain q r where q: "divWVW (replicate (length x) 0) 0 x d = Inr (q, r)" "r < d"
      "val q * unat d + unat r = unat (0 :: Word) * base ^ length x + val x"
    using divWVW_correct [of x "replicate (length x) 0" 0 d] assms by (auto simp: word_gt_0)
  have e: "val x = unat r + val q * unat d" using q(3) by simp
  have "unat r = val x mod unat d" unfolding e using q(2) by (simp add: word_less_nat_alt)
  then have "r = word_of_nat (val x mod unat d)" by (metis of_nat_unat ucast_id)
  then show ?thesis using q(1) by (simp add: modW_def)
qed

section \<open>Arithmetic on naturals\<close>

text \<open>On normalised operands the operations of \<open>nat\<close> are the operations on natural numbers, and their
  results are normalised: comparison, sum, difference (with the panic on underflow, never a wrong value),
  multiplication by a word plus a word, shifts by any number of bits, remainder by a word.\<close>

theorem natural_arithmetic_exact:
  assumes "normal x" "normal y" "w \<noteq> 0"
  shows "nat_cmp x y = (if val x < val y then -1 else if val x > val y then 1 else 0) \<and>
    nat_add x y = Inr (digits (val x + val y)) \<and>
    nat_sub x y = (if val x < val y then Inl (PanicMsg ''underflow'') else Inr (digits (val x - val y))) \<and>
    nat_mulAddWW x w r = Inr (digits (val x * unat w + unat r)) \<and>
    nat_shl x s = Inr (digits (val x * 2 ^ s)) \<and>
    nat_shr x s = Inr (digits (val x div 2 ^ s)) \<and>
    modW x w = Inr (word_of_nat (val x mod unat w))"
  using assms by (simp add: nat_cmp_val nat_add_digits nat_sub_digits nat_mulAddWW_digits nat_shl_digits
      nat_shr_digits modW_val)

lemma natural_arithmetic_exact_witness:
  "nat_cmp [3] [0, 1] = -1 \<and> nat_sub [3] [0, 1] = Inl (PanicMsg ''underflow'') \<and> nat_add [3] [0, 1] = Inr [3, 1]"
proof -
  have "normal [3 :: Word]" "normal [0, 1 :: Word]" "(1 :: Word) \<noteq> 0" by (simp_all add: normal_def)
  note e = natural_arithmetic_exact [OF this]
  have "val [3] + val [0, 1] = val [3, 1 :: Word]" by simp
  moreover have "digits (val [3, 1 :: Word]) = [3, 1]" by (rule digits_val) (simp add: normal_def)
  moreover have "val [3 :: Word] < val [0, 1 :: Word]" by (simp add: base_num)
  ultimately show ?thesis using e by (simp del: val.simps)
qed

end
