(* ===== verification/Go_NatBytes.thy ===== *)
theory Go_NatBytes
  imports Go_Nat
begin

unbundle bit_operations_syntax

text \<open>
  Package math/big, nat.go: conversion of a natural number to and from big-endian bytes. Buffers are
  lists; an index outside of one is a panic.
\<close>

section \<open>bytes and setBytes\<close>

fun bytes_word :: "nat \<Rightarrow> Word \<Rightarrow> nat \<Rightarrow> byte list \<Rightarrow> panic + nat \<times> byte list" where
  "bytes_word 0 d i buf = Inr (i, buf)"
| "bytes_word (Suc j) d 0 buf = Inl IndexOutOfRange"
| "bytes_word (Suc j) d (Suc i) buf = bytes_word j (drop_bit 8 d) i (buf[i := ucast d])"

fun bytes_loop :: "natural \<Rightarrow> nat \<Rightarrow> byte list \<Rightarrow> panic + nat \<times> byte list" where
  "bytes_loop [] i buf = Inr (i, buf)"
| "bytes_loop (d # z) i buf = bindE (bytes_word 8 d i buf) (\<lambda>(i, buf). bytes_loop z i buf)"

function skip_zeros :: "byte list \<Rightarrow> nat \<Rightarrow> nat" where
  "skip_zeros buf i = (if i < length buf \<and> buf ! i = 0 then skip_zeros buf (i + 1) else i)"
  by pat_completeness auto

termination
  by (relation "measure (\<lambda>(buf, i). length buf - i)") auto

definition nat_bytes :: "natural \<Rightarrow> byte list \<Rightarrow> panic + nat \<times> byte list" where
  "nat_bytes z buf = bindE (bytes_loop z (length buf) buf) (\<lambda>(i, buf). Inr (skip_zeros buf i, buf))"

fun setBytes_loop :: "byte list \<Rightarrow> nat \<Rightarrow> nat \<Rightarrow> Word \<Rightarrow> nat \<Rightarrow> natural \<Rightarrow> panic + Word \<times> nat \<times> natural" where
  "setBytes_loop buf 0 s d k z = Inr (d, k, z)"
| "setBytes_loop buf (Suc i) s d k z =
     (let d = d OR push_bit s (ucast (buf ! i)); s = s + 8 in
      if s = 64
      then (if k < length z then setBytes_loop buf i 0 0 (k + 1) (z[k := d]) else Inl IndexOutOfRange)
      else setBytes_loop buf i s d k z)"

definition nat_setBytes :: "byte list \<Rightarrow> panic + natural" where
  "nat_setBytes buf =
     (let z = replicate ((length buf + 8 - 1) div 8) 0 in
      bindE (setBytes_loop buf (length buf) 0 0 0 z) (\<lambda>(d, k, z).
        Inr (norm (if k < length z then z[k := d] else z))))"

section \<open>Both agree with the big-endian value\<close>

definition be_val :: "byte list \<Rightarrow> nat" where
  "be_val bs = foldl (\<lambda>n b. n * 256 + unat b) 0 bs"

lemma be_val_Nil [simp]: "be_val [] = 0"
  by (simp add: be_val_def)

lemma be_val_snoc: "be_val (bs @ [b]) = be_val bs * 256 + unat b"
  by (simp add: be_val_def)

lemma be_val_Cons: "be_val (b # bs) = unat b * 256 ^ length bs + be_val bs"
proof (induction bs rule: rev_induct)
  case Nil
  then show ?case using be_val_snoc [of "[]" b] by simp
next
  case (snoc a bs)
  then show ?case using be_val_snoc [of "b # bs" a] by (simp add: be_val_snoc algebra_simps)
qed

lemma be_val_drop:
  "i < length buf \<Longrightarrow> be_val (drop i buf) = unat (buf ! i) * 256 ^ (length buf - Suc i) + be_val (drop (Suc i) buf)"
  by (simp add: Cons_nth_drop_Suc [symmetric] be_val_Cons)

lemma bytes_word_correct:
  "j \<le> i \<Longrightarrow> i \<le> length buf \<Longrightarrow> \<exists>b. bytes_word j d i buf = Inr (i - j, b) \<and> length b = length buf \<and>
     drop i b = drop i buf \<and> take (i - j) b = take (i - j) buf \<and>
     be_val (drop (i - j) b) = be_val (drop i buf) + 256 ^ (length buf - i) * (unat d mod 2 ^ (8 * j))"
proof (induction j d i buf rule: bytes_word.induct)
  case (3 j d i buf)
  define buf1 where "buf1 = buf[i := ucast d]"
  have l: "i < length buf" "j \<le> i" "length buf1 = length buf" using "3.prems" by (simp_all add: buf1_def)
  obtain b where b: "bytes_word j (drop_bit 8 d) i buf1 = Inr (i - j, b)" "length b = length buf"
      "drop i b = drop i buf1" "take (i - j) b = take (i - j) buf1"
      "be_val (drop (i - j) b) = be_val (drop i buf1) + 256 ^ (length buf - i) * (unat (drop_bit 8 d) mod 2 ^ (8 * j))"
    using "3.IH" l unfolding buf1_def by fastforce
  have u: "unat (ucast d :: byte) = unat d mod 256"
    by (simp add: unsigned_ucast_eq take_bit_eq_mod)
  have e: "be_val (drop i buf1) = (unat d mod 256) * 256 ^ (length buf - Suc i) + be_val (drop (Suc i) buf)"
    using be_val_drop [of i buf1] l by (simp add: buf1_def u)
  have p: "(256 :: nat) ^ (length buf - i) = 256 * 256 ^ (length buf - Suc i)"
    using l by (simp flip: power_Suc add: Suc_diff_Suc)
  have m: "unat d mod 2 ^ (8 * Suc j) = unat d mod 256 + 256 * (unat (drop_bit 8 d) mod 2 ^ (8 * j))"
    using mod_mult2_eq [of "unat d" 256 "2 ^ (8 * j)"] unfolding unat_drop by (simp add: power_add)
  have d: "drop (Suc i) b = drop (Suc i) buf"
  proof -
    have "drop 1 (drop i b) = drop 1 (drop i buf1)" unfolding b(3) ..
    then show ?thesis by (simp add: buf1_def)
  qed
  have "be_val (drop (i - j) b) = be_val (drop (Suc i) buf) + 256 ^ (length buf - Suc i) * (unat d mod 2 ^ (8 * Suc j))"
    unfolding b(5) e p m by (simp add: algebra_simps)
  moreover have "bytes_word (Suc j) d (Suc i) buf = Inr (Suc i - Suc j, b)" using b(1) by (simp add: buf1_def)
  moreover have "take (Suc i - Suc j) b = take (Suc i - Suc j) buf" using b(4) by (simp add: buf1_def)
  ultimately show ?case using b(2) d by (intro exI [of _ b]) simp
qed auto

lemma bytes_loop_correct:
  "8 * length z \<le> i \<Longrightarrow> i \<le> length buf \<Longrightarrow> \<exists>b. bytes_loop z i buf = Inr (i - 8 * length z, b) \<and> length b = length buf \<and>
     take (i - 8 * length z) b = take (i - 8 * length z) buf \<and>
     be_val (drop (i - 8 * length z) b) = be_val (drop i buf) + 256 ^ (length buf - i) * val z"
proof (induction z i buf rule: bytes_loop.induct)
  case (2 d z i buf)
  have pr: "8 \<le> i" "8 * length z \<le> i - 8" "i \<le> length buf" using "2.prems" by auto
  obtain b where b: "bytes_word 8 d i buf = Inr (i - 8, b)" "length b = length buf"
      "take (i - 8) b = take (i - 8) buf"
      "be_val (drop (i - 8) b) = be_val (drop i buf) + 256 ^ (length buf - i) * (unat d mod 2 ^ (8 * 8))"
    using bytes_word_correct [OF pr(1,3), of d] by blast
  have ub: "unat d mod 2 ^ (8 * 8) = unat d" using unat_base [of d] by (simp add: base_num)
  define i' where "i' = i - 8 - 8 * length z"
  obtain b' where b': "bytes_loop z (i - 8) b = Inr (i', b')" "length b' = length b"
      "take i' b' = take i' b"
      "be_val (drop i' b') = be_val (drop (i - 8) b) + 256 ^ (length b - (i - 8)) * val z"
    using "2.IH" [OF pr(2), of b] pr b(2) unfolding i'_def by fastforce
  have p: "(256 :: nat) ^ (length buf - (i - 8)) = 256 ^ (length buf - i) * base"
  proof -
    have "length buf - (i - 8) = (length buf - i) + 8" using pr by auto
    then show ?thesis by (simp only: power_add) (simp add: base_num)
  qed
  have "be_val (drop i' b') = be_val (drop i buf) + 256 ^ (length buf - i) * val (d # z)"
    unfolding b'(4) b(2,4) p ub by (simp add: algebra_simps)
  moreover have "i - 8 * length (d # z) = i'" by (simp add: i'_def)
  moreover have "take i' b' = take i' buf"
  proof -
    have "take i' b = take i' (take (i - 8) b)" by (simp add: i'_def min_def)
    also have "\<dots> = take i' buf" unfolding b(3) by (simp add: i'_def min_def)
    finally show ?thesis using b'(3) by simp
  qed
  ultimately show ?case using b(1,2) b'(1,2) by (intro exI [of _ b']) simp
qed simp

declare skip_zeros.simps [simp del]

lemma skip_zeros_correct:
  "i \<le> length buf \<Longrightarrow> i \<le> skip_zeros buf i \<and> skip_zeros buf i \<le> length buf \<and>
   be_val (drop (skip_zeros buf i) buf) = be_val (drop i buf) \<and>
   (skip_zeros buf i < length buf \<longrightarrow> buf ! skip_zeros buf i \<noteq> 0)"
proof (induction buf i rule: skip_zeros.induct)
  case (1 buf i)
  show ?case
  proof (cases "i < length buf \<and> buf ! i = 0")
    case True
    then have "skip_zeros buf i = skip_zeros buf (i + 1)" by (subst skip_zeros.simps) simp
    moreover have "be_val (drop i buf) = be_val (drop (i + 1) buf)" using True by (simp add: be_val_drop)
    ultimately show ?thesis using "1.IH" [OF True] True by simp
  next
    case False
    then have "skip_zeros buf i = i" by (subst skip_zeros.simps) auto
    then show ?thesis using False "1.prems" by auto
  qed
qed

lemma byte_le: "unat (b :: byte) + 1 \<le> 256"
proof -
  have "unat b < 256" using unsigned_less [of b] by simp
  then show ?thesis by simp
qed

lemma setBytes_step:
  assumes "s + 8 \<le> 64" "unat d < 2 ^ s"
  shows "unat (d OR push_bit s (ucast (b :: byte)) :: Word) = unat d + unat b * 2 ^ s"
proof -
  have b: "unat b < 256" using unsigned_less [of b] by simp
  have "unat b * 2 ^ s < 256 * 2 ^ s" using b by simp
  moreover have "256 * 2 ^ s \<le> (2 ^ 64 :: nat)" using power_increasing [of "s + 8" 64 "2 :: nat"] assms(1) by (simp add: power_add mult.commute)
  ultimately have p: "unat (push_bit s (ucast b) :: Word) = unat b * 2 ^ s"
  proof -
    have "unat (ucast b :: Word) = unat b" by (simp add: unsigned_ucast_eq take_bit_eq_mod) (use b in \<open>intro mod_less, linarith\<close>)
    then show ?thesis unfolding push_unat base_def
      by (simp only:) (rule mod_less [OF less_le_trans [OF \<open>unat b * 2 ^ s < 256 * 2 ^ s\<close> \<open>256 * 2 ^ s \<le> 2 ^ 64\<close>]])
  qed
  have "d + push_bit s (ucast b) = d OR push_bit s (ucast b)"
  proof (rule disjunctive_add)
    fix n
    have "bit d n \<Longrightarrow> n < s"
      using assms(2) bit_take_bit_iff [of s "unat d" n] by (simp add: bit_unsigned_iff take_bit_nat_eq_self)
    then show "\<not> bit d n \<or> \<not> bit (push_bit s (ucast b)) n" by (auto simp: bit_push_bit_iff)
  qed
  moreover have "unat d + unat b * 2 ^ s < base"
  proof -
    have "unat d + unat b * 2 ^ s < (1 + unat b) * 2 ^ s" using assms(2) by simp
    also have "\<dots> \<le> 256 * 2 ^ s" using b by (intro mult_le_mono1) simp
    also have "\<dots> \<le> 2 ^ 64" using power_increasing [of "s + 8" 64 "2 :: nat"] assms(1) by (simp add: power_add mult.commute)
    finally show ?thesis by (simp add: base_def)
  qed
  ultimately show ?thesis using unat_plus_small [of d "push_bit s (ucast b)"] p by simp
qed

lemma setBytes_loop_correct:
  "i \<le> length buf \<Longrightarrow> length buf - i = 8 * k + t \<Longrightarrow> s = 8 * t \<Longrightarrow> t < 8 \<Longrightarrow> unat d < 2 ^ s \<Longrightarrow>
   length z = (length buf + 7) div 8 \<Longrightarrow> val (take k z) + base ^ k * unat d = be_val (drop i buf) \<Longrightarrow>
   \<exists>d' k' z'. setBytes_loop buf i s d k z = Inr (d', k', z') \<and> length z' = length z \<and>
     k' = length buf div 8 \<and> val (take k' z') + base ^ k' * unat d' = be_val buf \<and> (length buf mod 8 = 0 \<longrightarrow> d' = 0)"
proof (induction buf i s d k z arbitrary: t rule: setBytes_loop.induct)
  case (1 buf s d k z)
  then have "k = length buf div 8" "t = length buf mod 8" by auto
  then show ?case using 1 by (auto simp: unat_eq_0)
next
  case (2 buf i s d k z)
  define d1 where "d1 = d OR push_bit s (ucast (buf ! i))"
  have i: "i < length buf" "length buf - i = 8 * k + Suc t" using "2.prems"(1,2) by auto
  have s: "s + 8 \<le> 64" "s + 8 = 8 * Suc t" using "2.prems"(3,4) by auto
  have d1: "unat d1 = unat d + unat (buf ! i) * 2 ^ s"
    unfolding d1_def by (rule setBytes_step [OF s(1) "2.prems"(5)])
  have p: "base ^ k * 2 ^ s = 256 ^ (length buf - Suc i)"
  proof -
    have "length buf - Suc i = 8 * k + t" using i by auto
    moreover have "(256 :: nat) ^ m = 2 ^ (8 * m)" for m by (simp add: power_mult)
    moreover have "64 * k + 8 * t = 8 * (8 * k + t)" by simp
    ultimately show ?thesis unfolding base_pow "2.prems"(3) by (simp only: power_add [symmetric])
  qed
  have v: "val (take k z) + base ^ k * unat d1 = be_val (drop i buf)"
    using "2.prems"(7) unfolding be_val_drop [OF i(1)] p [symmetric] d1 by (simp add: algebra_simps)
  show ?case
  proof (cases "s + 8 = 64")
    case True
    then have t: "t = 7" using s by simp
    have k: "k < length z" using i t "2.prems"(6) by auto
    have "take (k + 1) (z[k := d1]) = take k z @ [d1]" using k by (simp add: take_Suc_conv_app_nth)
    then have "val (take (k + 1) (z[k := d1])) + base ^ (k + 1) * unat (0 :: Word) = be_val (drop i buf)"
      using v k by (simp add: val_append)
    moreover have "length buf - i = 8 * (k + 1) + 0" using i t by simp
    ultimately obtain d' k' z' where "setBytes_loop buf i 0 0 (k + 1) (z[k := d1]) = Inr (d', k', z')"
        "length z' = length (z[k := d1])" "k' = length buf div 8" "val (take k' z') + base ^ k' * unat d' = be_val buf"
        "length buf mod 8 = 0 \<longrightarrow> d' = 0"
      using "2.IH"(1) [OF d1_def refl True k, of 0] "2.prems"(6) i(1) by auto
    moreover have "setBytes_loop buf (Suc i) s d k z = setBytes_loop buf i 0 0 (k + 1) (z[k := d1])"
      using k unfolding setBytes_loop.simps Let_def d1_def True by (simp only: if_True refl)
    ultimately show ?thesis by simp
  next
    case False
    then have t: "Suc t < 8" using s by auto
    have "unat d1 < 2 ^ (s + 8)"
    proof -
      have "unat d1 < (1 + unat (buf ! i)) * 2 ^ s" unfolding d1 using "2.prems"(5) by simp
      also have "\<dots> \<le> 256 * 2 ^ s" using byte_le [of "buf ! i"] by (intro mult_le_mono1) simp
      finally show ?thesis by (simp add: power_add)
    qed
    then obtain d' k' z' where "setBytes_loop buf i (s + 8) d1 k z = Inr (d', k', z')"
        "length z' = length z" "k' = length buf div 8" "val (take k' z') + base ^ k' * unat d' = be_val buf"
        "length buf mod 8 = 0 \<longrightarrow> d' = 0"
      using "2.IH"(2) [OF d1_def refl False _ i(2) s(2) t] "2.prems"(6) i(1) v by auto
    moreover have "setBytes_loop buf (Suc i) s d k z = setBytes_loop buf i (s + 8) d1 k z"
      using False unfolding setBytes_loop.simps Let_def d1_def by (simp only: if_False)
    ultimately show ?thesis by simp
  qed
qed

lemma ceil8: "\<not> L div 8 < (L + 7) div 8 \<Longrightarrow> L mod 8 = 0 \<and> (L + 7) div 8 = L div 8" for L :: nat
proof -
  assume a: "\<not> L div 8 < (L + 7) div 8"
  have l: "L = 8 * (L div 8) + L mod 8" by simp
  have "L mod 8 = 0"
  proof (rule ccontr)
    assume "L mod 8 \<noteq> 0"
    then have "1 \<le> L mod 8" by simp
    then have "8 * (L div 8 + 1) \<le> L + 7" using l by (simp only: distrib_left)
    then have "L div 8 + 1 \<le> (L + 7) div 8" by (simp add: less_eq_div_iff_mult_less_eq)
    then show False using a by simp
  qed
  moreover have "(L + 7) div 8 \<le> L div 8" using a by simp
  moreover have "L div 8 \<le> (L + 7) div 8" by (rule div_le_mono) simp
  ultimately show ?thesis by simp
qed

lemma nat_setBytes_digits: "nat_setBytes buf = Inr (digits (be_val buf))"
proof -
  define n where "n = (length buf + 7) div 8"
  obtain d k z where z: "setBytes_loop buf (length buf) 0 0 0 (replicate n 0) = Inr (d, k, z)"
      "length z = n" "k = length buf div 8" "val (take k z) + base ^ k * unat d = be_val buf"
      "length buf mod 8 = 0 \<longrightarrow> d = 0"
    using setBytes_loop_correct [of "length buf" buf 0 0 0 0 "replicate n 0"] by (auto simp: n_def)
  have "val (if k < length z then z[k := d] else z) = be_val buf"
  proof (cases "k < length z")
    case True
    then have "length z = Suc k" unfolding z(2,3) n_def by presburger
    then have "z[k := d] = take k z @ [d]" by (simp add: upd_conv_take_nth_drop)
    then show ?thesis using True z(4) by (simp add: val_append)
  next
    case False
    then have "length buf mod 8 = 0" "length z = k" using ceil8 [of "length buf"] unfolding z(2,3) n_def by blast+
    then show ?thesis using z(4,5) by simp
  qed
  then have "norm (if k < length z then z[k := d] else z) = digits (be_val buf)" by (rule digits_unfold)
  moreover have "(length buf + 8 - 1) div 8 = n" by (simp add: n_def)
  ultimately show ?thesis using z(1) unfolding nat_setBytes_def Let_def by (simp only: bindE.simps prod.case)
qed

lemma nat_bytes_be:
  assumes "8 * length z \<le> length buf"
  shows "\<exists>i b. nat_bytes z buf = Inr (i, b) \<and> length b = length buf \<and> i \<le> length buf \<and>
    length buf - 8 * length z \<le> i \<and> be_val (drop i b) = val z \<and>
    (i < length buf \<longrightarrow> b ! i \<noteq> 0) \<and> take (length buf - 8 * length z) b = take (length buf - 8 * length z) buf"
proof -
  define i0 where "i0 = length buf - 8 * length z"
  obtain b where b: "bytes_loop z (length buf) buf = Inr (i0, b)" "length b = length buf"
      "take i0 b = take i0 buf" "be_val (drop i0 b) = val z"
    using bytes_loop_correct [OF assms order_refl] by (auto simp: i0_def)
  have "i0 \<le> length b" using b(2) by (simp add: i0_def)
  from skip_zeros_correct [OF this] show ?thesis
    using b by (intro exI [of _ "skip_zeros b i0"] exI [of _ b]) (simp add: nat_bytes_def i0_def [symmetric])
qed

text \<open>\<open>bytes\<close> writes the big-endian representation without leading zeros at the end of a buffer
  that is long enough and leaves the rest alone; \<open>setBytes\<close> reads any bytes as a big-endian number
  into normalised words, and reads back what \<open>bytes\<close> wrote.\<close>

theorem bytes_roundtrip:
  assumes "normal z" "8 * length z \<le> length buf"
  shows "(\<exists>i b. nat_bytes z buf = Inr (i, b) \<and> length b = length buf \<and> be_val (drop i b) = val z \<and>
      (i < length buf \<longrightarrow> b ! i \<noteq> 0) \<and> take (length buf - 8 * length z) b = take (length buf - 8 * length z) buf \<and>
      nat_setBytes (drop i b) = Inr z) \<and>
    (\<exists>w. nat_setBytes bs = Inr w \<and> normal w \<and> val w = be_val bs)"
  using nat_bytes_be [OF assms(2)] digits_val [OF assms(1)] nat_setBytes_digits by fastforce

lemma bytes_roundtrip_witness:
  "nat_setBytes [0, 1, 2] = Inr [258] \<and>
   (\<exists>i b. nat_bytes [258] (replicate 9 7) = Inr (i, b) \<and> length b = 9 \<and> nat_setBytes (drop i b) = Inr [258])"
proof -
  have "normal [258 :: Word]" by (simp add: normal_def)
  moreover have "nat_setBytes [0, 1, 2] = Inr [258]" by code_simp
  ultimately show ?thesis using bytes_roundtrip [of "[258]" "replicate 9 7"] by fastforce
qed

end
