(* ===== verification/Go_NatMul.thy ===== *)
theory Go_NatMul
  imports Go_Nat
begin

unbundle bit_operations_syntax

text \<open>
  Package math/big, nat.go: products of natural numbers, by the school method, by Karatsuba's method in
  place inside one vector \<open>z\<close>, and for operands of different lengths by cutting them into pieces. A
  function that writes into \<open>z\<close> returns the whole of \<open>z\<close>; a slice \<open>z[i:]\<close> that is passed on is
  \<open>drop i z\<close>, and the caller puts the result back behind \<open>take i z\<close>. Slices are bounded by the length.
\<close>

section \<open>The code\<close>

declare bindE_cong [fundef_cong]

definition put :: "natural \<Rightarrow> nat \<Rightarrow> natural \<Rightarrow> natural" where
  "put z i w = take i z @ w @ drop (i + length w) z"

fun basicMul_loop :: "natural \<Rightarrow> natural \<Rightarrow> natural \<Rightarrow> nat \<Rightarrow> panic + natural" where
  "basicMul_loop z x [] i = Inr z"
| "basicMul_loop z x (d # y) i =
     (if d \<noteq> 0
      then bindE (addMulVVW (take (length x) (drop i z)) x d) (\<lambda>(w, c).
        basicMul_loop ((put z i w)[length x + i := c]) x y (i + 1))
      else basicMul_loop z x y (i + 1))"

definition basicMul :: "natural \<Rightarrow> natural \<Rightarrow> natural \<Rightarrow> panic + natural" where
  "basicMul z x y =
     (let n = length x + length y in
      if length z < n then Inl SliceOutOfRange
      else basicMul_loop (clear (take n z) @ drop n z) x y 0)"

definition karatsubaAdd :: "natural \<Rightarrow> natural \<Rightarrow> nat \<Rightarrow> panic + natural" where
  "karatsubaAdd z x n =
     (if length z < n then Inl SliceOutOfRange
      else bindE (addVV n z x) (\<lambda>(w, c).
        let z = put z 0 w in
        if c \<noteq> 0 then bindE (addVW (n div 2) (drop n z) c) (\<lambda>(w, c). Inr (put z n w)) else Inr z))"

definition karatsubaSub :: "natural \<Rightarrow> natural \<Rightarrow> nat \<Rightarrow> panic + natural" where
  "karatsubaSub z x n =
     (if length z < n then Inl SliceOutOfRange
      else bindE (subVV n z x) (\<lambda>(w, c).
        let z = put z 0 w in
        if c \<noteq> 0 then bindE (subVW (n div 2) (drop n z) c) (\<lambda>(w, c). Inr (put z n w)) else Inr z))"

definition karatsubaThreshold :: nat where
  "karatsubaThreshold = 40"

text \<open>\<open>xd\<close> and \<open>yd\<close>: the difference or its negative, and the sign.\<close>

definition karatsuba_diff :: "nat \<Rightarrow> natural \<Rightarrow> natural \<Rightarrow> int \<Rightarrow> panic + natural \<times> int" where
  "karatsuba_diff n2 a b s =
     bindE (subVV n2 a b) (\<lambda>(d, c).
       if c \<noteq> 0 then bindE (subVV n2 b a) (\<lambda>(d, c). Inr (d, - s)) else Inr (d, s))"

text \<open>The last part: the partial products in \<open>z\<close> are added up.\<close>

definition karatsuba_sum :: "natural \<Rightarrow> nat \<Rightarrow> int \<Rightarrow> panic + natural" where
  "karatsuba_sum z n s =
     (let n2 = n div 2;
          z = put z (4 * n) (take (min (length z - 4 * n) (2 * n)) z) in
      bindE (karatsubaAdd (drop n2 z) (drop (4 * n) z) n) (\<lambda>w.
      let z = take n2 z @ w in
      bindE (karatsubaAdd (drop n2 z) (drop n (drop (4 * n) z)) n) (\<lambda>w.
      let z = take n2 z @ w in
      bindE (if s > 0 then karatsubaAdd (drop n2 z) (drop (3 * n) z) n
             else karatsubaSub (drop n2 z) (drop (3 * n) z) n) (\<lambda>w.
      Inr (take n2 z @ w)))))"

lemma subVV_loop_length: "subVV_loop x y c = Inr (z, c') \<Longrightarrow> length z = length x"
  by (induction x y c arbitrary: z c' rule: subVV_loop.induct) (auto simp: Let_def)

lemma karatsuba_diff_length: "karatsuba_diff n a b s = Inr (d, s') \<Longrightarrow> length d = n"
  by (auto simp: karatsuba_diff_def subVV_def split: if_splits dest!: subVV_loop_length)

function karatsuba :: "natural \<Rightarrow> natural \<Rightarrow> natural \<Rightarrow> panic + natural" where
  "karatsuba z x y =
     (let n = length y in
      if odd n \<or> n < karatsubaThreshold \<or> n < 2 then basicMul z x y
      else if length x < n div 2 then Inl SliceOutOfRange
      else let n2 = n div 2;
               x1 = drop n2 x; x0 = take n2 x;
               y1 = drop n2 y; y0 = take n2 y in
        bindE (karatsuba z x0 y0) (\<lambda>z.
        bindE (karatsuba (drop n z) x1 y1) (\<lambda>w.
        let z = take n z @ w in
        bindE (karatsuba_diff n2 x1 x0 1) (\<lambda>(xd, s).
        let z = put z (2 * n) xd in
        bindE (karatsuba_diff n2 y0 y1 s) (\<lambda>(yd, s).
        let z = put z (2 * n + n2) yd in
        bindE (karatsuba (drop (3 * n) z) xd yd) (\<lambda>p.
        karatsuba_sum (take (3 * n) z @ p) n s))))))"
  by pat_completeness auto

termination
  by (relation "measure (\<lambda>(z, x, y). length y)") (auto dest!: karatsuba_diff_length)

definition addAt :: "natural \<Rightarrow> natural \<Rightarrow> nat \<Rightarrow> panic + natural" where
  "addAt z x i =
     (let n = length x in
      if n > 0 then
        (if length z < i + n then Inl SliceOutOfRange
         else bindE (addVV n (drop i z) x) (\<lambda>(w, c).
           let z = put z i w in
           if c \<noteq> 0 then
             (let j = i + n in
              if j < length z then bindE (addVW (length z - j) (drop j z) c) (\<lambda>(w, c). Inr (put z j w))
              else Inr z)
           else Inr z))
      else Inr z)"

function karatsubaLen_loop :: "nat \<Rightarrow> nat \<Rightarrow> nat" where
  "karatsubaLen_loop n i =
     (if n > karatsubaThreshold then karatsubaLen_loop (n div 2) (i + 1) else n * 2 ^ i)"
  by pat_completeness auto

termination
  by (relation "measure (\<lambda>(n, i). n)") auto

definition karatsubaLen :: "nat \<Rightarrow> nat" where
  "karatsubaLen n = karatsubaLen_loop n 0"

declare karatsuba.simps [simp del] karatsubaLen_loop.simps [simp del]

lemma karatsubaLen_loop_le: "karatsubaLen_loop n i \<le> n * 2 ^ i"
proof (induction n i rule: karatsubaLen_loop.induct)
  case (1 n i)
  show ?case
  proof (cases "n > karatsubaThreshold")
    case True
    have "karatsubaLen_loop n i \<le> n div 2 * 2 ^ (i + 1)"
      using "1.IH" [OF True] True by (subst karatsubaLen_loop.simps) simp
    also have "\<dots> = (n div 2 * 2) * 2 ^ i" by simp
    also have "\<dots> \<le> n * 2 ^ i" by (intro mult_le_mono1) simp
    finally show ?thesis .
  qed (simp add: karatsubaLen_loop.simps)
qed

lemma karatsubaLen_le: "karatsubaLen n \<le> n"
  using karatsubaLen_loop_le [of n 0] by (simp add: karatsubaLen_def)

lemma karatsubaLen_loop_pos: "0 < n \<Longrightarrow> 0 < karatsubaLen_loop n i"
proof (induction n i rule: karatsubaLen_loop.induct)
  case (1 n i)
  show ?case
  proof (cases "n > karatsubaThreshold")
    case True
    then have "0 < n div 2" by (simp add: karatsubaThreshold_def)
    then show ?thesis using "1.IH" [OF True] True by (subst karatsubaLen_loop.simps) simp
  qed (use "1.prems" in \<open>simp add: karatsubaLen_loop.simps\<close>)
qed

lemma karatsubaLen_pos: "0 < n \<Longrightarrow> 0 < karatsubaLen n"
  by (simp add: karatsubaLen_def karatsubaLen_loop_pos)

lemma length_norm_take: "length (norm (take k x)) \<le> k"
  using length_norm [of "take k x"] by simp

text \<open>
  The product of operands of any length. The loop over the pieces \<open>x[i:i+k]\<close> calls \<open>mul\<close> again; its
  step \<open>k\<close> is never 0 in a call of \<open>mul\<close> (\<open>karatsubaLen_pos\<close>), so that the test \<open>0 < k\<close>, which
  makes it a total function, adds nothing.
\<close>

function nat_mul :: "natural \<Rightarrow> natural \<Rightarrow> panic + natural"
  and nat_mul_loop :: "natural \<Rightarrow> natural \<Rightarrow> natural \<Rightarrow> nat \<Rightarrow> nat \<Rightarrow> natural \<Rightarrow> panic + natural" where
  "nat_mul x y =
     (let m = length x; n = length y in
      if m < n then nat_mul y x
      else if m = 0 \<or> n = 0 then Inr []
      else if n = 1 then nat_mulAddWW x (y ! 0) 0
      else if n < karatsubaThreshold then bindE (basicMul (replicate (m + n) 0) x y) (\<lambda>z. Inr (norm z))
      else let k = karatsubaLen n; x0 = take k x; y0 = take k y in
        bindE (karatsuba (replicate (max (6 * k) (m + n)) 0) x0 y0) (\<lambda>z.
        let z = take (m + n) z; z = take (2 * k) z @ clear (drop (2 * k) z) in
        bindE
          (if k < n \<or> m \<noteq> n
           then (let x0 = norm x0; y1 = drop k y in
             bindE (nat_mul x0 y1) (\<lambda>t.
             bindE (addAt z t k) (\<lambda>z.
             let y0 = norm y0 in nat_mul_loop x y0 y1 k k z)))
           else Inr z) (\<lambda>z.
        Inr (norm z))))"
| "nat_mul_loop x y0 y1 k i z =
     (if i < length x \<and> 0 < k
      then (let xi = norm (take k (drop i x)) in
        bindE (nat_mul xi y0) (\<lambda>t.
        bindE (addAt z t i) (\<lambda>z.
        bindE (nat_mul xi y1) (\<lambda>t.
        bindE (addAt z t (i + k)) (\<lambda>z.
        nat_mul_loop x y0 y1 k (i + k) z)))))
      else Inr z)"
  by pat_completeness auto

termination
proof (relation "inv_image (less_than <*lex*> less_than <*lex*> less_than)
    (\<lambda>a. case a of Inl (x, y) \<Rightarrow> (length x + length y, (if length x < length y then 1 else 0 :: nat), 0)
       | Inr (x, y0, y1, k, i, z) \<Rightarrow> (k + max (length y0) (length y1), 2, length x - i))", goal_cases)
  case (3 x y m n k x0 y0)
  then have "length (norm x0) \<le> k" "k \<le> n" using length_norm_take karatsubaLen_le by simp_all
  then show ?case using 3 by auto
next
  case (4 x y m n k x0 y0)
  then have "length (norm y0) \<le> k" "k \<le> n" using length_norm_take karatsubaLen_le by simp_all
  then show ?case using 4 by auto
next
  case (5 x y0 y1 k i z xi)
  then have "length xi \<le> k" using length_norm_take by simp
  then show ?case by auto
next
  case (6 x y0 y1 k i z xi)
  then have "length xi \<le> k" using length_norm_take by simp
  then show ?case by auto
qed auto

declare nat_mul.simps [simp del] nat_mul_loop.simps [simp del]

section \<open>The school method\<close>

lemma put_append: "length a = i \<Longrightarrow> length b = length w \<Longrightarrow> put (a @ b @ r) i w = a @ w @ r"
  by (simp add: put_def)

lemma basicMul_loop_correct:
  "length a = i + length x \<Longrightarrow> \<exists>w. basicMul_loop (a @ replicate (length y) 0 @ r) x y i = Inr (w @ r) \<and>
     length w = i + length x + length y \<and> val w = val a + base ^ i * val x * val y"
proof (induction y arbitrary: a i)
  case (Cons d y)
  show ?case
  proof (cases "d = 0")
    case True
    have "\<exists>w. basicMul_loop ((a @ [0]) @ replicate (length y) 0 @ r) x y (i + 1) = Inr (w @ r) \<and>
        length w = (i + 1) + length x + length y \<and> val w = val (a @ [0]) + base ^ (i + 1) * val x * val y"
      using Cons.prems by (intro Cons.IH) simp
    then show ?thesis using True by (simp add: val_append algebra_simps)
  next
    case False
    define a1 a2 where "a1 = take i a" and "a2 = drop i a"
    have a: "a = a1 @ a2" "length a1 = i" "length a2 = length x"
      using Cons.prems by (simp_all add: a1_def a2_def)
    obtain w c where w: "addMulVVW a2 x d = Inr (w, c)" "length w = length x"
        "val w + base ^ length x * unat c = val a2 + val x * unat d"
      using addMulVVW_correct [of a2 x d] a(3) by auto
    define a' where "a' = a1 @ w @ [c]"
    have "length a' = (i + 1) + length x" by (simp add: a'_def a(2) w(2))
    then obtain v where v: "basicMul_loop (a' @ replicate (length y) 0 @ r) x y (i + 1) = Inr (v @ r)"
        "length v = (i + 1) + length x + length y" "val v = val a' + base ^ (i + 1) * val x * val y"
      using Cons.IH by blast
    have z: "a @ replicate (length (d # y)) 0 @ r = a1 @ a2 @ 0 # replicate (length y) 0 @ r" by (simp add: a(1))
    have "(put (a1 @ a2 @ 0 # replicate (length y) 0 @ r) i w) = a1 @ w @ 0 # replicate (length y) 0 @ r"
      using a w(2) by (intro put_append) simp_all
    moreover have "(a1 @ w @ 0 # replicate (length y) 0 @ r)[length x + i := c] = a' @ replicate (length y) 0 @ r"
      using a(2) w(2) by (simp add: a'_def list_update_append)
    moreover have "take (length x) (drop i (a1 @ a2 @ 0 # replicate (length y) 0 @ r)) = a2" using a by simp
    ultimately have "basicMul_loop (a @ replicate (length (d # y)) 0 @ r) x (d # y) i = Inr (v @ r)"
      unfolding z using False w(1) v(1) by simp
    moreover have "val a' = val a + base ^ i * (val x * unat d)"
    proof -
      have "val a' = val a1 + base ^ i * (val w + base ^ length x * unat c)"
        by (simp add: a'_def val_append a(2) w(2))
      then show ?thesis unfolding w(3) by (simp add: a(1) val_append a(2) algebra_simps)
    qed
    ultimately show ?thesis using v(2,3) by (intro exI [of _ v]) (simp add: algebra_simps)
  qed
qed simp

lemma basicMul_correct:
  assumes "length x + length y \<le> length z"
  shows "\<exists>w. basicMul z x y = Inr (w @ drop (length x + length y) z) \<and> length w = length x + length y \<and> val w = val x * val y"
proof -
  define r where "r = drop (length x + length y) z"
  have "clear (take (length x + length y) z) @ r = replicate (length x) 0 @ replicate (length y) 0 @ r"
    using assms by (simp add: clear_def replicate_add min_absorb2)
  moreover obtain w where "basicMul_loop (replicate (length x) 0 @ replicate (length y) 0 @ r) x y 0 = Inr (w @ r)"
      "length w = 0 + length x + length y" "val w = val (replicate (length x) 0) + base ^ 0 * val x * val y"
    using basicMul_loop_correct [of "replicate (length x) 0" 0 x y r] by auto
  ultimately show ?thesis using assms by (intro exI [of _ w]) (simp add: basicMul_def r_def [symmetric] Let_def)
qed

section \<open>Karatsuba's method\<close>

lemma wrap_int: "v < B \<Longrightarrow> int v + int B * k = a \<Longrightarrow> int v = a mod int B"
  by (metis mod_mult_self2 mod_pos_pos_trivial of_nat_0_le_iff of_nat_less_iff)

lemma karatsubaAdd_correct:
  assumes "length a = n + n div 2" "n \<le> length x"
  shows "\<exists>a'. karatsubaAdd (a @ r) x n = Inr (a' @ r) \<and> length a' = length a \<and>
    int (val a') = (int (val a) + int (val (take n x))) mod int (base ^ length a)"
proof -
  define a1 a2 where "a1 = take n a" and "a2 = drop n a"
  have a: "a = a1 @ a2" "length a1 = n" "length a2 = n div 2"
    using assms(1) by (simp_all add: a1_def a2_def)
  obtain w c where w: "addVV n (a @ r) x = Inr (w, c)" "length w = n" "unat c \<le> 1"
      "val w + base ^ n * unat c = val a1 + val (take n x)"
    using addVV_correct [of n "a @ r" x] assms a by auto
  have p: "put (a @ r) 0 w = w @ a2 @ r" unfolding a(1) using put_append [of "[]" 0 a1 w "a2 @ r"] a(2) w(2) by simp
  have ba: "base ^ length a = base ^ n * base ^ (n div 2)" by (simp add: assms(1) power_add)
  show ?thesis
  proof (cases "c = 0")
    case True
    have v: "val (w @ a2) = val a + val (take n x)"
      using w(4) True by (simp add: a(1,2) val_append w(2))
    have l: "val (w @ a2) < base ^ length a" using val_less [of "w @ a2"] by (simp add: assms(1) w(2) a(3))
    have "int (val (w @ a2)) = (int (val a) + int (val (take n x))) mod int (base ^ length a)"
      using v by (intro wrap_int [OF l, of 0]) simp
    then show ?thesis using True w(1,2) p a assms(1)
      by (intro exI [of _ "w @ a2"]) (simp add: karatsubaAdd_def)
  next
    case False
    obtain u d where u: "addVW (n div 2) (a2 @ r) c = Inr (u, d)" "length u = n div 2"
        "val u + base ^ (n div 2) * unat d = val a2 + unat c"
      using addVW_correct [of "n div 2" "a2 @ r" c] a(3) w(3) by auto
    have q: "put (w @ a2 @ r) n u = (w @ u) @ r" using put_append [of w n a2 u r] w(2) u(2) a(3) by simp
    have "val (w @ u) + base ^ length a * unat d = val w + base ^ n * (val u + base ^ (n div 2) * unat d)"
      by (simp add: val_append w(2) ba algebra_simps)
    also have "\<dots> = (val w + base ^ n * unat c) + base ^ n * val a2" unfolding u(3) by (simp add: algebra_simps)
    also have "\<dots> = val a + val (take n x)" unfolding w(4) by (simp add: a(1,2) val_append)
    finally have v: "val (w @ u) + base ^ length a * unat d = val a + val (take n x)" .
    have l: "val (w @ u) < base ^ length a" using val_less [of "w @ u"] by (simp add: assms(1) w(2) u(2))
    have vi: "int (val (w @ u)) + int (base ^ length a) * int (unat d) = int (val a) + int (val (take n x))"
      using v by (simp only: of_nat_add [symmetric] of_nat_mult [symmetric])
    have "int (val (w @ u)) = (int (val a) + int (val (take n x))) mod int (base ^ length a)"
      by (rule wrap_int [OF l vi])
    then show ?thesis using False w(1,2) p u(1,2) q a assms(1)
      by (intro exI [of _ "w @ u"]) (simp add: karatsubaAdd_def)
  qed
qed

lemma karatsubaSub_correct:
  assumes "length a = n + n div 2" "n \<le> length x"
  shows "\<exists>a'. karatsubaSub (a @ r) x n = Inr (a' @ r) \<and> length a' = length a \<and>
    int (val a') = (int (val a) - int (val (take n x))) mod int (base ^ length a)"
proof -
  define a1 a2 where "a1 = take n a" and "a2 = drop n a"
  have a: "a = a1 @ a2" "length a1 = n" "length a2 = n div 2"
    using assms(1) by (simp_all add: a1_def a2_def)
  obtain w c where w: "subVV n (a @ r) x = Inr (w, c)" "length w = n" "unat c \<le> 1"
      "val w + val (take n x) = val a1 + base ^ n * unat c"
    using subVV_correct [of n "a @ r" x] assms a by auto
  have p: "put (a @ r) 0 w = w @ a2 @ r" unfolding a(1) using put_append [of "[]" 0 a1 w "a2 @ r"] a(2) w(2) by simp
  have ba: "base ^ length a = base ^ n * base ^ (n div 2)" by (simp add: assms(1) power_add)
  show ?thesis
  proof (cases "c = 0")
    case True
    have v: "val (w @ a2) + val (take n x) = val a"
      using w(4) True by (simp add: a(1,2) val_append w(2))
    have l: "val (w @ a2) < base ^ length a" using val_less [of "w @ a2"] by (simp add: assms(1) w(2) a(3))
    have "int (val (w @ a2)) = (int (val a) - int (val (take n x))) mod int (base ^ length a)"
      using v by (intro wrap_int [OF l, of 0]) simp
    then show ?thesis using True w(1,2) p a assms(1)
      by (intro exI [of _ "w @ a2"]) (simp add: karatsubaSub_def)
  next
    case False
    have va: "val a = val a1 + base ^ n * val a2" by (simp add: a(1,2) val_append)
    obtain u d where u: "subVW (n div 2) (a2 @ r) c = Inr (u, d)" "length u = n div 2"
        "val u + unat c = val a2 + base ^ (n div 2) * unat d"
      using subVW_correct [of "n div 2" "a2 @ r" c] a(3) w(3) by auto
    have q: "put (w @ a2 @ r) n u = (w @ u) @ r" using put_append [of w n a2 u r] w(2) u(2) a(3) by simp
    have "val (w @ u) + val (take n x) + base ^ n * unat c = (val w + val (take n x)) + base ^ n * (val u + unat c)"
      by (simp add: val_append w(2) algebra_simps)
    also have "\<dots> = val a + base ^ length a * unat d + base ^ n * unat c"
      unfolding u(3) w(4) ba va by (simp add: algebra_simps)
    finally have v: "val (w @ u) + val (take n x) = val a + base ^ length a * unat d" by simp
    have l: "val (w @ u) < base ^ length a" using val_less [of "w @ u"] by (simp add: assms(1) w(2) u(2))
    have "int (val (w @ u)) + int (val (take n x)) = int (val a) + int (base ^ length a) * int (unat d)"
      using v by (simp only: of_nat_add [symmetric] of_nat_mult [symmetric])
    then have vi: "int (val (w @ u)) + int (base ^ length a) * (- int (unat d)) = int (val a) - int (val (take n x))"
      by simp
    have "int (val (w @ u)) = (int (val a) - int (val (take n x))) mod int (base ^ length a)"
      by (rule wrap_int [OF l vi])
    then show ?thesis using False w(1,2) p u(1,2) q a assms(1)
      by (intro exI [of _ "w @ u"]) (simp add: karatsubaSub_def)
  qed
qed

lemma karatsuba_diff_correct:
  assumes "length a = n" "length b = n" "s = 1 \<or> s = -1"
  shows "\<exists>d s'. karatsuba_diff n a b s = Inr (d, s') \<and> length d = n \<and> (s' = 1 \<or> s' = -1) \<and>
    int (val d) * s' = s * (int (val a) - int (val b))"
proof -
  have sub: "\<exists>d c. subVV n a b = Inr (d, c) \<and> length d = n \<and>
      (if val b \<le> val a then c = 0 \<and> int (val d) = int (val a) - int (val b) else c \<noteq> 0)"
    if "length a = n" "length b = n" for a b
  proof -
    note ln = that
    obtain d c where d: "subVV n a b = Inr (d, c)" "length d = n" "unat c \<le> 1"
        "val d + val b = val a + base ^ n * unat c"
      using subVV_correct [of n a b] ln by auto
    have l: "val d < base ^ n" using val_less [of d] d(2) by simp
    show ?thesis
    proof (cases "c = 0")
      case True
      then have "val d + val b = val a" using d(4) by simp
      then have "val b \<le> val a" "int (val d) = int (val a) - int (val b)" by linarith+
      then show ?thesis using True d(1,2) by auto
    next
      case False
      then have "unat c = 1" using d(3) by (metis le_antisym less_one not_le unat_eq_0)
      then have "\<not> val b \<le> val a" using d(4) l by simp
      then show ?thesis using False d(1,2) by auto
    qed
  qed
  show ?thesis
  proof (cases "val b \<le> val a")
    case True
    then obtain d where "subVV n a b = Inr (d, 0)" "length d = n" "int (val d) = int (val a) - int (val b)"
      using sub [OF assms(1,2)] by auto
    then show ?thesis using assms(3) by (intro exI [of _ d] exI [of _ s]) (simp add: karatsuba_diff_def)
  next
    case False
    then obtain d c where 1: "subVV n a b = Inr (d, c)" "c \<noteq> 0" using sub [OF assms(1,2)] by auto
    obtain e where "subVV n b a = Inr (e, 0)" "length e = n" "int (val e) = int (val b) - int (val a)"
      using sub [OF assms(2,1)] False by auto
    then show ?thesis using 1 assms(3)
      by (intro exI [of _ e] exI [of _ "- s"]) (auto simp: karatsuba_diff_def algebra_simps)
  qed
qed

text \<open>The four parts of \<open>z\<close> that the last phase uses: the low digits, the sum, and the copies.\<close>

lemma karatsuba_sum_correct:
  assumes z: "z = lo @ a @ m @ p @ r" "length lo = n div 2" "length a = n + n div 2" "length m = n" "length p = n"
      "2 * n \<le> length r" and n: "even n" and s: "s = 1 \<or> s = -1"
  shows "\<exists>w. karatsuba_sum z n s = Inr w \<and> length w = length z \<and> take (n div 2) w = lo \<and>
    int (val (take (n + n div 2) (drop (n div 2) w))) =
      (int (val a) + int (val (take n (lo @ a))) + int (val (drop n (lo @ a))) + s * int (val p)) mod int (base ^ length a)"
proof -
  define n2 where "n2 = n div 2"
  have n2: "n = n2 + n2" using n by (auto simp: n2_def)
  define c r' where "c = take (2 * n) z" and "r' = drop (2 * n) r"
  have c: "c = lo @ a" "length c = 2 * n" using z n2 by (simp_all add: c_def n2_def [symmetric])
  have l: "length z = 4 * n + length r" using z n2 by (simp add: n2_def [symmetric])
  have mn: "min (length z - 4 * n) (2 * n) = 2 * n" using l z(6) by simp
  have "r = take (2 * n) r @ r'" "length (take (2 * n) r) = 2 * n" using z(6) by (simp_all add: r'_def min_absorb2)
  then have "put ((lo @ a @ m @ p) @ take (2 * n) r @ r') (4 * n) c = (lo @ a @ m @ p) @ c @ r'"
    using z(2-5) n2 c(2) by (intro put_append) (simp_all add: n2_def [symmetric])
  then have z0: "put z (4 * n) (take (min (length z - 4 * n) (2 * n)) z) = lo @ a @ m @ p @ c @ r'"
    unfolding mn c_def [symmetric] using \<open>r = take (2 * n) r @ r'\<close> by (simp add: z(1))
  have d: "drop n2 (lo @ x @ m @ p @ c @ r') = x @ m @ p @ c @ r'"
      "take n2 (lo @ x @ m @ p @ c @ r') = lo"
      "drop (4 * n) (lo @ x @ m @ p @ c @ r') = c @ r'"
      "drop (3 * n) (lo @ x @ m @ p @ c @ r') = p @ c @ r'" if "length x = length a" for x
    using that z(2-5) n2 by (simp_all add: n2_def [symmetric])
  define B where "B = int (base ^ length a)"
  have la: "length x = n + n div 2" if "length x = length a" for x using that z(3) by simp
  obtain a1 where a1: "karatsubaAdd (a @ m @ p @ c @ r') (c @ r') n = Inr (a1 @ m @ p @ c @ r')" "length a1 = length a"
      "int (val a1) = (int (val a) + int (val (take n c))) mod B"
    using karatsubaAdd_correct [of a n "c @ r'" "m @ p @ c @ r'"] z(3) c(2) by (auto simp: B_def)
  obtain a2 where a2: "karatsubaAdd (a1 @ m @ p @ c @ r') (drop n (c @ r')) n = Inr (a2 @ m @ p @ c @ r')" "length a2 = length a"
      "int (val a2) = (int (val a1) + int (val (drop n c))) mod B"
    using karatsubaAdd_correct [of a1 n "drop n (c @ r')" "m @ p @ c @ r'"] la [OF a1(2)] a1(2) c(2) by (auto simp: B_def)
  define K where "K = (if s > 0 then karatsubaAdd else karatsubaSub)"
  have K: "(if s > 0 then karatsubaAdd x y n else karatsubaSub x y n) = K x y n" for x y by (simp add: K_def)
  obtain a3 where a3: "K (a2 @ m @ p @ c @ r') (p @ c @ r') n = Inr (a3 @ m @ p @ c @ r')" "length a3 = length a"
      "int (val a3) = (int (val a2) + s * int (val p)) mod B"
    using karatsubaAdd_correct [of a2 n "p @ c @ r'" "m @ p @ c @ r'"] karatsubaSub_correct [of a2 n "p @ c @ r'" "m @ p @ c @ r'"]
      la [OF a2(2)] a2(2) z(5) s unfolding K_def by (auto simp: B_def)
  have "karatsuba_sum z n s = Inr (lo @ a3 @ m @ p @ c @ r')"
    unfolding karatsuba_sum_def Let_def n2_def [symmetric] z0 K
    by (simp only: d [OF refl] d [OF a1(2)] d [OF a2(2)] a1(1) a2(1) a3(1) bindE.simps)
  moreover have "int (val a3) = (int (val a) + int (val (take n c)) + int (val (drop n c)) + s * int (val p)) mod B"
    unfolding a3(3) a2(3) a1(3) by (simp add: mod_simps)
  ultimately show ?thesis unfolding c(1) B_def
    using z(2,3) a3(2) l c(2) z(4,5,6) n2
    by (intro exI [of _ "lo @ a3 @ m @ p @ (lo @ a) @ r'"]) (simp add: r'_def n2_def [symmetric])
qed

lemma karatsuba_identity:
  fixes x0 x1 y0 y1 b p :: int
  assumes "p * s = (x1 - x0) * (y0 - y1)" "s = 1 \<or> s = -1"
  shows "x0 * y0 + x1 * y1 + s * p = x1 * y0 + x0 * y1"
  using assms by (auto simp: algebra_simps)

lemma karatsuba_value:
  fixes x0 x1 y0 y1 p lo a :: int
  assumes b: "0 < b" and lo: "0 \<le> lo" "0 \<le> a" and z: "lo + b * a = x0 * y0 + b * b * (x1 * y1)" and q: "p * s = (x1 - x0) * (y0 - y1)" "s = 1 \<or> s = -1"
    and pos: "0 \<le> x0" "0 \<le> x1" "0 \<le> y0" "0 \<le> y1" and lt: "x0 < b" "x1 < b" "y0 < b" "y1 < b"
  shows "lo + b * ((a + x0 * y0 + x1 * y1 + s * p) mod (b * b * b)) = (x0 + b * x1) * (y0 + b * y1)"
proof -
  define t where "t = a + x0 * y0 + x1 * y1 + s * p"
  have t: "t = a + (x1 * y0 + x0 * y1)" using karatsuba_identity [OF q] unfolding t_def by linarith
  have v: "lo + b * t = (x0 + b * x1) * (y0 + b * y1)"
    unfolding t using z by (simp add: algebra_simps)
  have "0 \<le> t" unfolding t using lo(2) pos by simp
  have "x0 + b * x1 < b * b" "y0 + b * y1 < b * b"
  proof -
    have "b * (x1 + 1) \<le> b * b" "b * (y1 + 1) \<le> b * b" using lt b by (simp_all add: mult_left_mono)
    then show "x0 + b * x1 < b * b" "y0 + b * y1 < b * b" using lt by (simp_all add: algebra_simps)
  qed
  moreover have "0 \<le> x0 + b * x1" "0 \<le> y0 + b * y1" using pos b by simp_all
  ultimately have "(x0 + b * x1) * (y0 + b * y1) < (b * b) * (b * b)" by (intro mult_strict_mono') simp_all
  then have "b * t < b * (b * b * b)" using v lo(1) by (simp add: algebra_simps)
  then have "t < b * b * b" using b by simp
  then show ?thesis using v \<open>0 \<le> t\<close> unfolding t_def [symmetric] by simp
qed

lemma karatsuba_step:
  assumes n: "even n" and lx: "length x = n" and ly: "length y = n" and lz: "6 * n \<le> length z"
    and IH0: "\<exists>w. karatsuba z (take (n div 2) x) (take (n div 2) y) = Inr w \<and> length w = length z \<and>
      val (take n w) = val (take (n div 2) x) * val (take (n div 2) y)"
    and IH: "\<And>z x y. length x = n div 2 \<Longrightarrow> length y = n div 2 \<Longrightarrow> 3 * n \<le> length z \<Longrightarrow>
      \<exists>w. karatsuba z x y = Inr w \<and> length w = length z \<and> val (take n w) = val x * val y"
    and big: "\<not> (odd n \<or> n < karatsubaThreshold \<or> n < 2)"
  shows "\<exists>w. karatsuba z x y = Inr w \<and> length w = length z \<and> val (take (2 * n) w) = val x * val y"
proof -
  define n2 where "n2 = n div 2"
  have n2: "n = n2 + n2" using n by (auto simp: n2_def)
  define x0 x1 y0 y1 where "x0 = take n2 x" and "x1 = drop n2 x" and "y0 = take n2 y" and "y1 = drop n2 y"
  have len: "length x0 = n2" "length x1 = n2" "length y0 = n2" "length y1 = n2"
    using lx ly n2 by (simp_all add: x0_def x1_def y0_def y1_def)
  obtain z1 where z1: "karatsuba z x0 y0 = Inr z1" "length z1 = length z" "val (take n z1) = val x0 * val y0"
    using IH0 by (auto simp: n2_def x0_def y0_def)
  obtain w where w: "karatsuba (drop n z1) x1 y1 = Inr w" "length w = length (drop n z1)" "val (take n w) = val x1 * val y1"
  proof -
    have "3 * n \<le> length (drop n z1)" using lz z1(2) by simp
    then show thesis using IH [of x1 y1 "drop n z1"] len that by (auto simp: n2_def)
  qed
  define lo a where "lo = take n2 z1" and "a = drop n2 (take n z1) @ take n w"
  define m0 m1 where "m0 = take n2 (drop n w)" and "m1 = take n2 (drop (n + n2) w)"
  define r where "r = drop (2 * n) w"
  have z2: "take n z1 @ w = lo @ a @ m0 @ m1 @ r"
  proof -
    have "take n z1 = lo @ drop n2 (take n z1)" unfolding lo_def
      by (metis append_take_drop_id le_add1 min.absorb1 n2 take_take)
    moreover have "w = take n w @ m0 @ m1 @ r"
      unfolding m0_def m1_def r_def using n2
      by (metis (no_types, lifting) append_take_drop_id drop_drop add.assoc add.commute mult_2)
    ultimately show ?thesis by (simp add: a_def)
  qed
  have lw: "length w = length z - n" using w(2) z1(2) by simp
  have la: "length lo = n2" "length a = n + n2" "length m0 = n2" "length m1 = n2" "4 * n - n \<le> length r"
    using lz lw z1(2) n2 by (simp_all add: lo_def a_def m0_def m1_def r_def)
  have oa: "lo @ a = take n z1 @ take n w"
    unfolding a_def lo_def by (metis append_assoc append_take_drop_id le_add1 min.absorb1 n2 take_take)
  obtain xd s where xd: "karatsuba_diff n2 x1 x0 1 = Inr (xd, s)" "length xd = n2" "s = 1 \<or> s = -1"
      "int (val xd) * s = 1 * (int (val x1) - int (val x0))"
    using karatsuba_diff_correct [OF len(2,1), of 1] by auto
  obtain yd s' where yd: "karatsuba_diff n2 y0 y1 s = Inr (yd, s')" "length yd = n2" "s' = 1 \<or> s' = -1"
      "int (val yd) * s' = s * (int (val y0) - int (val y1))"
    using karatsuba_diff_correct [OF len(3,4) xd(3)] by auto
  have z3: "put (lo @ a @ m0 @ m1 @ r) (2 * n) xd = lo @ a @ xd @ m1 @ r"
    using put_append [of "lo @ a" "2 * n" m0 xd "m1 @ r"] la xd(2) n2 by simp
  have z4: "put (lo @ a @ xd @ m1 @ r) (2 * n + n2) yd = lo @ a @ xd @ yd @ r"
    using put_append [of "lo @ a @ xd" "2 * n + n2" m1 yd r] la xd(2) yd(2) n2 by simp
  have z5: "drop (3 * n) (lo @ a @ xd @ yd @ r) = r" "take (3 * n) (lo @ a @ xd @ yd @ r) = lo @ a @ xd @ yd"
    using la xd(2) yd(2) n2 by simp_all
  obtain q where q: "karatsuba r xd yd = Inr q" "length q = length r" "val (take n q) = val xd * val yd"
    using IH [of xd yd r] xd(2) yd(2) la(5) by (auto simp: n2_def)
  define p r' where "p = take n q" and "r' = drop n q"
  have q': "(lo @ a @ xd @ yd) @ q = lo @ a @ (xd @ yd) @ p @ r'" by (simp add: p_def r'_def)
  have lr: "length p = n" "2 * n \<le> length r'" "length (xd @ yd) = n" "length a = n + n div 2" "length lo = n div 2"
    using la q(2) xd(2) yd(2) n2 by (simp_all add: p_def r'_def)
  obtain v where v: "karatsuba_sum (lo @ a @ (xd @ yd) @ p @ r') n s' = Inr v"
      "length v = length (lo @ a @ (xd @ yd) @ p @ r')" "take (n div 2) v = lo"
      "int (val (take (n + n div 2) (drop (n div 2) v))) =
        (int (val a) + int (val (take n (lo @ a))) + int (val (drop n (lo @ a))) + s' * int (val p)) mod int (base ^ length a)"
    using karatsuba_sum_correct [OF refl lr(5,4,3,1,2) n yd(3)] by blast
  have res: "karatsuba z x y = Inr v"
    by (subst karatsuba.simps)
      (simp only: Let_def ly big if_False n2_def [symmetric] lx x0_def [symmetric] x1_def [symmetric] y0_def [symmetric]
        y1_def [symmetric] z1(1) w(1) bindE.simps z2 xd(1) yd(1) prod.case z3 z4 z5 q(1) q' v(1), simp add: n2)
  have b: "base ^ n = base ^ n2 * base ^ n2" "base ^ length a = base ^ n2 * base ^ n2 * base ^ n2"
    using la(2) n2 by (simp_all flip: power_add)
  have tk: "take n (lo @ a) = take n z1" "drop n (lo @ a) = take n w" unfolding oa using z1(2) lz by simp_all
  have "take (2 * n) v = lo @ take (n + n div 2) (drop (n div 2) v)"
  proof -
    have "2 * n = n div 2 + (n + n div 2)" using n by auto
    then show ?thesis using v(3) by (metis take_add)
  qed
  then have "int (val (take (2 * n) v)) = int (val lo) + int (base ^ n2) * int (val (take (n + n div 2) (drop (n div 2) v)))"
    by (simp add: val_append la(1))
  also have "\<dots> = int (val lo) + int (base ^ n2) *
      ((int (val a) + int (val x0) * int (val y0) + int (val x1) * int (val y1) + s' * int (val p)) mod
        (int (base ^ n2) * int (base ^ n2) * int (base ^ n2)))"
    unfolding v(4) tk z1(3) w(3) b(2) by simp
  also have "\<dots> = (int (val x0) + int (base ^ n2) * int (val x1)) * (int (val y0) + int (base ^ n2) * int (val y1))"
  proof (rule karatsuba_value)
    have "val (lo @ a) = val x0 * val y0 + base ^ n * (val x1 * val y1)"
      unfolding oa using z1(2,3) w(3) lz by (simp add: val_append min_absorb2)
    then have "val lo + base ^ n2 * val a = val x0 * val y0 + base ^ n2 * base ^ n2 * (val x1 * val y1)"
      unfolding b(1) by (simp add: val_append la(1))
    then show "int (val lo) + int (base ^ n2) * int (val a) =
        int (val x0) * int (val y0) + int (base ^ n2) * int (base ^ n2) * (int (val x1) * int (val y1))"
      by (simp only: of_nat_add [symmetric] of_nat_mult [symmetric])
    have "int (val p) * s' = int (val xd) * (int (val yd) * s')" using q(3) by (simp add: p_def)
    also have "\<dots> = (int (val xd) * s) * (int (val y0) - int (val y1))" unfolding yd(4) by simp
    finally show "int (val p) * s' = (int (val x1) - int (val x0)) * (int (val y0) - int (val y1))"
      unfolding xd(4) by simp
  qed (use yd(3) val_less [of x0] val_less [of x1] val_less [of y0] val_less [of y1] len in \<open>simp_all flip: of_nat_power\<close>)
  also have "\<dots> = int (val x * val y)"
  proof -
    have "val x = val x0 + base ^ n2 * val x1" "val y = val y0 + base ^ n2 * val y1"
      using val_split [of x n2] val_split [of y n2] lx ly n2 by (simp_all add: x0_def x1_def y0_def y1_def min_absorb1)
    then show ?thesis by simp
  qed
  finally have "val (take (2 * n) v) = val x * val y" by (simp only: of_nat_eq_iff)
  moreover have "length v = length z"
    using v(2) la q(2) xd(2) yd(2) n2 lz lw by (simp add: p_def r'_def r_def)
  ultimately show ?thesis using res by blast
qed

lemma karatsuba_correct:
  "length x = length y \<Longrightarrow> 6 * length y \<le> length z \<Longrightarrow> \<exists>w. karatsuba z x y = Inr w \<and> length w = length z \<and>
     val (take (2 * length y) w) = val x * val y"
proof (induction "length y" arbitrary: z x y rule: less_induct)
  case less
  define n where "n = length y"
  show ?case
  proof (cases "odd n \<or> n < karatsubaThreshold \<or> n < 2")
    case True
    obtain w where w: "basicMul z x y = Inr (w @ drop (length x + length y) z)" "length w = length x + length y" "val w = val x * val y"
      using basicMul_correct [of x y z] less.prems by auto
    moreover have "karatsuba z x y = basicMul z x y"
      using True by (subst karatsuba.simps) (simp add: n_def [symmetric] Let_def)
    ultimately show ?thesis using less.prems by (intro exI [of _ "w @ drop (length x + length y) z"]) simp
  next
    case False
    have d: "2 * (n div 2) = n" "n div 2 < length y" using False by (auto simp: n_def)
    have IH: "\<exists>w. karatsuba z x y = Inr w \<and> length w = length z \<and> val (take n w) = val x * val y"
      if "length x = n div 2" "length y = n div 2" "3 * n \<le> length z" for z x y
      using less.hyps [of y x z] that d by simp
    show ?thesis unfolding n_def [symmetric]
      using False less.prems d by (intro karatsuba_step IH) (simp_all add: n_def)
  qed
qed

section \<open>Products of any length\<close>

lemma addAt_correct:
  assumes "normal x" "val z + base ^ i * val x < base ^ length z"
  shows "\<exists>w. addAt z x i = Inr w \<and> length w = length z \<and> val w = val z + base ^ i * val x"
proof (cases "length x = 0")
  case False
  define n where "n = length x"
  have n: "0 < n" "x \<noteq> []" using False by (auto simp: n_def)
  have "base ^ (i + (n - 1)) \<le> base ^ i * val x"
    using val_lower [OF assms(1) n(2)] by (simp add: power_add n_def)
  also have "\<dots> < base ^ length z" using assms(2) by simp
  finally have "i + (n - 1) < length z" by (rule power_less_imp_less_exp [OF base_pos(3) [folded One_nat_def]])
  then have len: "i + n \<le> length z" using n by simp
  define z1 z2 z3 where "z1 = take i z" and "z2 = take n (drop i z)" and "z3 = drop (i + n) z"
  have z: "z = z1 @ z2 @ z3" unfolding z1_def z2_def z3_def by (metis append_take_drop_id drop_drop add.commute)
  have l: "length z1 = i" "length z2 = n" "length z = i + n + length z3" using len by (simp_all add: z1_def z2_def z3_def)
  obtain w c where w: "addVV n (z2 @ z3) x = Inr (w, c)" "length w = n" "unat c \<le> 1"
      "val w + base ^ n * unat c = val z2 + val x"
    using addVV_correct [of n "z2 @ z3" x] l by (auto simp: n_def)
  have p: "put z i w = z1 @ w @ z3" unfolding z using l w(2) by (intro put_append) simp_all
  have d: "drop i z = z2 @ z3" unfolding z using l by simp
  have vz: "val z = val z1 + base ^ i * (val z2 + base ^ n * val z3)" unfolding z by (simp add: val_append l)
  show ?thesis
  proof (cases "c = 0")
    case True
    have "val (z1 @ w @ z3) = val z1 + base ^ i * ((val w + base ^ n * unat c) + base ^ n * val z3)"
      using True by (simp add: val_append l w(2))
    also have "\<dots> = val z + base ^ i * val x" unfolding w(4) vz by (simp add: algebra_simps)
    finally show ?thesis using True n len w(1,2) d p l
      by (intro exI [of _ "z1 @ w @ z3"]) (simp add: addAt_def n_def [symmetric] Let_def)
  next
    case False
    have c: "unat c = 1" using False w(3) by (metis le_antisym less_one not_le unat_eq_0)
    have jl: "i + n < length z"
    proof (rule ccontr)
      assume "\<not> i + n < length z"
      then have z3: "z3 = []" "length z = i + n" using l by auto
      have "base ^ length z = base ^ i * (base ^ n * unat c)" by (simp add: z3 power_add c)
      also have "\<dots> \<le> base ^ i * (val z2 + val x)" unfolding w(4) [symmetric] by (intro mult_le_mono2) simp
      also have "\<dots> \<le> val z + base ^ i * val x" unfolding vz by (simp add: z3(1) algebra_simps)
      finally show False using assms(2) by simp
    qed
    obtain u e where u: "addVW (length z3) z3 c = Inr (u, e)" "length u = length z3"
        "val u + base ^ length z3 * unat e = val z3 + unat c"
      using addVW_correct [of "length z3" z3 c] c by auto
    have q: "put (z1 @ w @ z3) (i + n) u = z1 @ w @ u"
      using put_append [of "z1 @ w" "i + n" z3 u "[]"] l w(2) u(2) by simp
    have dz: "drop (i + n) (z1 @ w @ z3) = z3" "length (z1 @ w @ z3) - (i + n) = length z3" using l w(2) by simp_all
    have "val (z1 @ w @ u) + base ^ length z * unat e =
        val z1 + base ^ i * (val w + base ^ n * (val u + base ^ length z3 * unat e))"
      by (simp add: val_append l(1,3) w(2) power_add algebra_simps)
    also have "\<dots> = val z1 + base ^ i * ((val w + base ^ n * unat c) + base ^ n * val z3)"
      unfolding u(3) by (simp add: algebra_simps)
    also have "\<dots> = val z + base ^ i * val x" unfolding w(4) vz by (simp add: algebra_simps)
    finally have v: "val (z1 @ w @ u) + base ^ length z * unat e = val z + base ^ i * val x" .
    have "unat e = 0"
    proof (rule ccontr)
      assume "unat e \<noteq> 0"
      then have "base ^ length z * 1 \<le> base ^ length z * unat e" by (intro mult_le_mono2) simp
      then show False using v assms(2) by linarith
    qed
    then have "val (z1 @ w @ u) = val z + base ^ i * val x" using v by simp
    moreover have "addAt z x i = Inr (z1 @ w @ u)"
    proof -
      have "z3 \<noteq> []" using jl l by auto
      then show ?thesis
        using False n(1) len u(1) w(1) l w(2) q by (simp add: addAt_def n_def [symmetric] Let_def d p)
    qed
    ultimately show ?thesis using l w(2) u(2) by (intro exI [of _ "z1 @ w @ u"]) simp
  qed
qed (use assms in \<open>simp add: addAt_def\<close>)

definition MP :: "natural \<Rightarrow> natural \<Rightarrow> bool" where
  "MP x y \<longleftrightarrow> (normal x \<longrightarrow> normal y \<longrightarrow> nat_mul x y = Inr (digits (val x * val y)))"

definition MQ :: "natural \<Rightarrow> natural \<Rightarrow> natural \<Rightarrow> nat \<Rightarrow> nat \<Rightarrow> natural \<Rightarrow> bool" where
  "MQ x y0 y1 k i z \<longleftrightarrow> (normal y0 \<longrightarrow> normal y1 \<longrightarrow> 0 < k \<longrightarrow>
     val z + base ^ i * val (drop i x) * (val y0 + base ^ k * val y1) < base ^ length z \<longrightarrow>
     (\<exists>w. nat_mul_loop x y0 y1 k i z = Inr w \<and> length w = length z \<and>
       val w = val z + base ^ i * val (drop i x) * (val y0 + base ^ k * val y1)))"

lemma nat_mul_loop_step:
  assumes IH1: "\<And>xi. xi = norm (take k (drop i x)) \<Longrightarrow> MP xi y0"
    and IH2: "\<And>xi t z1. xi = norm (take k (drop i x)) \<Longrightarrow> nat_mul xi y0 = Inr t \<Longrightarrow> addAt z t i = Inr z1 \<Longrightarrow> MP xi y1"
    and IH3: "\<And>xi t z1 t' z2. xi = norm (take k (drop i x)) \<Longrightarrow> nat_mul xi y0 = Inr t \<Longrightarrow> addAt z t i = Inr z1 \<Longrightarrow>
      nat_mul xi y1 = Inr t' \<Longrightarrow> addAt z1 t' (i + k) = Inr z2 \<Longrightarrow> MQ x y0 y1 k (i + k) z2"
    and i: "i < length x"
  shows "MQ x y0 y1 k i z"
  unfolding MQ_def
proof (intro impI)
  assume y: "normal y0" "normal y1" and k: "0 < k"
    and b: "val z + base ^ i * val (drop i x) * (val y0 + base ^ k * val y1) < base ^ length z"
  define xi where "xi = norm (take k (drop i x))"
  define X where "X = val (drop (i + k) x)"
  have nx: "normal xi" by (simp add: xi_def)
  have vx: "val (drop i x) = val xi + base ^ k * X"
  proof (cases "k \<le> length (drop i x)")
    case True
    then show ?thesis using val_split [of "drop i x" k] by (simp add: xi_def X_def min_absorb1 add.commute)
  qed (simp add: xi_def X_def)
  define V where "V = base ^ i * val (drop i x) * (val y0 + base ^ k * val y1)"
  have V: "V = base ^ i * (val xi * val y0) + base ^ (i + k) * (val xi * val y1)
      + base ^ (i + k) * X * (val y0 + base ^ k * val y1)"
    unfolding V_def vx power_add by (simp only: distrib_left distrib_right ac_simps)
  have b': "val z + V < base ^ length z" using b unfolding V_def .
  have t0: "nat_mul xi y0 = Inr (digits (val xi * val y0))"
    using IH1 [OF xi_def] nx y by (simp add: MP_def)
  obtain z1 where z1: "addAt z (digits (val xi * val y0)) i = Inr z1" "length z1 = length z"
      "val z1 = val z + base ^ i * (val xi * val y0)"
    using addAt_correct [of "digits (val xi * val y0)" z i] b' unfolding V by auto
  have "nat_mul xi y1 = Inr (digits (val xi * val y1))"
    using IH2 [OF xi_def t0 z1(1)] nx y by (simp add: MP_def)
  note t = t0 this
  obtain z2 where z2: "addAt z1 (digits (val xi * val y1)) (i + k) = Inr z2" "length z2 = length z1"
      "val z2 = val z1 + base ^ (i + k) * (val xi * val y1)"
    using addAt_correct [of "digits (val xi * val y1)" z1 "i + k"] b' unfolding V z1(2,3) by auto
  have v2: "val z2 + base ^ (i + k) * X * (val y0 + base ^ k * val y1) = val z + V"
    unfolding V z2(3) z1(3) by simp
  obtain w where "nat_mul_loop x y0 y1 k (i + k) z2 = Inr w" "length w = length z2" "val w = val z + V"
    using IH3 [OF xi_def t(1) z1(1) t(2) z2(1)] y k b' z1(2) z2(2) unfolding MQ_def X_def [symmetric] v2 by auto
  moreover have "nat_mul_loop x y0 y1 k i z = nat_mul_loop x y0 y1 k (i + k) z2"
    by (subst nat_mul_loop.simps) (simp add: i k xi_def [symmetric] t z1(1) z2(1) Let_def)
  ultimately show "\<exists>w. nat_mul_loop x y0 y1 k i z = Inr w \<and> length w = length z \<and>
      val w = val z + base ^ i * val (drop i x) * (val y0 + base ^ k * val y1)"
    using z1(2) z2(2) unfolding V_def [symmetric] by simp
qed

lemma normal_drop: "normal y \<Longrightarrow> normal (drop k y)"
  by (auto simp: normal_def)

lemma nat_mul_big:
  fixes x y :: natural
  defines "m \<equiv> length x" and "n \<equiv> length y"
  defines "k \<equiv> karatsubaLen n"
  assumes mn: "n \<le> m" "karatsubaThreshold \<le> n" and xy: "normal x" "normal y"
    and P: "k < n \<or> m \<noteq> n \<Longrightarrow> MP (norm (take k x)) (drop k y)"
    and Q: "\<And>w t z. k < n \<or> m \<noteq> n \<Longrightarrow> karatsuba (replicate (max (6 * k) (m + n)) 0) (take k x) (take k y) = Inr w \<Longrightarrow>
      nat_mul (norm (take k x)) (drop k y) = Inr t \<Longrightarrow>
      addAt (take (2 * k) (take (m + n) w) @ clear (drop (2 * k) (take (m + n) w))) t k = Inr z \<Longrightarrow>
      MQ x (norm (take k y)) (drop k y) k k z"
  shows "nat_mul x y = Inr (digits (val x * val y))"
proof -
  have n: "0 < n" "n \<noteq> 1" "\<not> m < n" "\<not> n < karatsubaThreshold" "\<not> (m = 0 \<or> n = 0)"
    using mn by (auto simp: karatsubaThreshold_def)
  have k: "0 < k" "k \<le> n" using karatsubaLen_pos [OF n(1)] karatsubaLen_le [of n] by (simp_all add: k_def)
  define x0 y0 where "x0 = take k x" and "y0 = take k y"
  have l0: "length x0 = k" "length y0 = k" using k mn(1) by (simp_all add: x0_def y0_def m_def n_def)
  obtain w where w: "karatsuba (replicate (max (6 * k) (m + n)) 0) x0 y0 = Inr w" "length w = max (6 * k) (m + n)"
      "val (take (2 * k) w) = val x0 * val y0"
    using karatsuba_correct [of x0 y0 "replicate (max (6 * k) (m + n)) 0"] l0 by auto
  define z where "z = take (2 * k) (take (m + n) w) @ clear (drop (2 * k) (take (m + n) w))"
  have kk: "2 * k \<le> m + n" using k mn by simp
  have z: "length z = m + n" "val z = val x0 * val y0"
    using w(2,3) kk by (simp_all add: z_def clear_def val_append min_absorb1)
  have vy: "val y = val y0 + base ^ k * val (drop k y)" "val x = val x0 + base ^ k * val (drop k x)"
    using val_split [of y k] val_split [of x k] k mn by (simp_all add: y0_def x0_def m_def n_def min_absorb1)
  have bound: "val x * val y < base ^ (m + n)"
    unfolding power_add m_def n_def by (intro mult_strict_mono' val_less) simp_all
  have eq: "nat_mul x y = bindE (if k < n \<or> m \<noteq> n
      then bindE (nat_mul (norm x0) (drop k y)) (\<lambda>t. bindE (addAt z t k) (\<lambda>z. nat_mul_loop x (norm y0) (drop k y) k k z))
      else Inr z) (\<lambda>z. Inr (norm z))"
    by (subst nat_mul.simps)
      (simp only: Let_def m_def [symmetric] n_def [symmetric] k_def [symmetric] n(2-5) if_False x0_def [symmetric] y0_def [symmetric]
        w(1) bindE.simps z_def [symmetric])
  show ?thesis
  proof (cases "k < n \<or> m \<noteq> n")
    case True
    have t: "nat_mul (norm x0) (drop k y) = Inr (digits (val x0 * val (drop k y)))"
      using P [OF True] normal_drop [OF xy(2)] by (simp add: MP_def x0_def [symmetric])
    define Y1 X1 where "Y1 = val (drop k y)" and "X1 = val (drop k x)"
    have p: "val x * val y = (val x0 * val y0 + base ^ k * (val x0 * Y1)) + base ^ k * X1 * (val y0 + base ^ k * Y1)"
      unfolding vy Y1_def [symmetric] X1_def [symmetric] by (simp only: distrib_left distrib_right ac_simps)
    obtain z1 where z1: "addAt z (digits (val x0 * Y1)) k = Inr z1" "length z1 = length z"
        "val z1 = val z + base ^ k * (val x0 * Y1)"
      using addAt_correct [of "digits (val x0 * Y1)" z k] bound unfolding z p by auto
    have "MQ x (norm y0) (drop k y) k k z1"
      unfolding y0_def
      by (rule Q [OF True, of w "digits (val x0 * Y1)"]) (use w(1) t z1(1) in \<open>simp_all only: x0_def y0_def z_def Y1_def\<close>)
    moreover have "val z1 + base ^ k * X1 * (val y0 + base ^ k * Y1) = val x * val y"
      unfolding z1(3) z(2) p ..
    ultimately obtain v where v: "nat_mul_loop x (norm y0) (drop k y) k k z1 = Inr v" "val v = val x * val y"
      using bound k(1) normal_drop [OF xy(2), of k] unfolding MQ_def z1(2) z(1) Y1_def [symmetric] X1_def [symmetric] by auto
    show ?thesis unfolding eq using True t z1(1) v by (simp add: Y1_def digits_unfold)
  next
    case False
    then have "x0 = x" "y0 = y" using k by (auto simp: x0_def y0_def m_def n_def)
    then show ?thesis unfolding eq using False z(2) by (simp add: digits_unfold)
  qed
qed

lemma nat_mul_small:
  assumes "length y \<le> length x" "length y < karatsubaThreshold" "normal x" "normal y"
  shows "nat_mul x y = Inr (digits (val x * val y))"
proof -
  consider "y = []" | w where "y = [w]" "x \<noteq> []" | "1 < length y"
  proof (cases y)
    case (Cons w y')
    then show ?thesis using assms(1) that by (cases y'; cases x) auto
  qed (use that in auto)
  then show ?thesis
  proof cases
    case 1
    then show ?thesis by (subst nat_mul.simps) (simp add: Let_def)
  next
    case 2
    then show ?thesis using assms(1) nat_mulAddWW_digits [OF assms(3), of w 0]
      by (subst nat_mul.simps) (simp add: Let_def)
  next
    case 3
    obtain w where "basicMul (replicate (length x + length y) 0) x y = Inr w" "val w = val x * val y"
      using basicMul_correct [of x y "replicate (length x + length y) 0"] by auto
    then show ?thesis using assms 3
      by (subst nat_mul.simps) (auto simp: Let_def digits_unfold)
  qed
qed

lemma nat_mul_MP_MQ: "MP x y" "MQ x' y0 y1 k i z"
proof (induction x y and x' y0 y1 k i z rule: nat_mul_nat_mul_loop.induct)
  case (1 x y)
  show ?case
    unfolding MP_def
  proof (intro impI)
    assume xy: "normal x" "normal y"
    consider "length x < length y" | "length y \<le> length x" "length y < karatsubaThreshold"
      | "length y \<le> length x" "karatsubaThreshold \<le> length y" by linarith
    then show "nat_mul x y = Inr (digits (val x * val y))"
    proof cases
      case a: 1
      have "nat_mul x y = nat_mul y x" using a by (subst nat_mul.simps) (simp only: Let_def if_True)
      then show ?thesis using "1.IH"(1) [OF refl refl a] xy by (simp add: MP_def mult.commute)
    next
      case 2
      then show ?thesis using nat_mul_small xy by blast
    next
      case 3
      then have n: "\<not> length x < length y" "\<not> (length x = 0 \<or> length y = 0)" "length y \<noteq> 1" "\<not> length y < karatsubaThreshold"
        by (auto simp: karatsubaThreshold_def)
      define k where "k = karatsubaLen (length y)"
      obtain w where w: "karatsuba (replicate (max (6 * k) (length x + length y)) 0) (take k x) (take k y) = Inr w"
        using karatsuba_correct [of "take k x" "take k y" "replicate (max (6 * k) (length x + length y)) 0"]
          3(1) karatsubaLen_le [of "length y"] by (auto simp: k_def min_absorb2)
      show ?thesis
        by (rule nat_mul_big [OF 3 xy])
          (blast intro: "1.IH"(2) [OF refl refl n(1-4) refl refl refl w [unfolded k_def] refl refl _ refl refl]
             "1.IH"(3) [OF refl refl n(1-4) refl refl refl _ refl refl _ refl refl _ _ refl])+
    qed
  qed
next
  case (2 x y0 y1 k i z)
  show ?case
  proof (cases "i < length x \<and> 0 < k")
    case True
    show ?thesis
    proof (rule nat_mul_loop_step)
      show "MP xi y0" if "xi = norm (take k (drop i x))" for xi using "2.IH"(1) [OF True that] .
      show "i < length x" using True by simp
      show "MP xi y1" if "xi = norm (take k (drop i x))" "nat_mul xi y0 = Inr t" "addAt z t i = Inr z1" for xi t z1
        using "2.IH"(2) [OF True that] .
      show "MQ x y0 y1 k (i + k) z2" if "xi = norm (take k (drop i x))" "nat_mul xi y0 = Inr t" "addAt z t i = Inr z1"
          "nat_mul xi y1 = Inr t'" "addAt z1 t' (i + k) = Inr z2" for xi t z1 t' z2
        using "2.IH"(3) [OF True that] .
    qed
  next
    case False
    then have "val (drop i x) = 0 \<or> \<not> 0 < k" by auto
    then show ?thesis using False by (subst MQ_def, subst nat_mul_loop.simps) auto
  qed
qed

lemma nat_mul_digits:
  assumes "normal x" "normal y"
  shows "nat_mul x y = Inr (digits (val x * val y))"
  using nat_mul_MP_MQ(1) [of x y] assms by (simp add: MP_def)

section \<open>Products of a range\<close>

text \<open>
  \<open>mulRange\<close> halves the range \<open>[a, b]\<close> at \<open>(a + b) / 2\<close>, where the sum wraps around at 64 bits: a call
  need not return, so that it is a partial function.
\<close>

partial_function (option) nat_mulRange :: "64 word \<Rightarrow> 64 word \<Rightarrow> (panic + natural) option" where
  "nat_mulRange a b =
     (if a = 0 then Some (Inr (setUint64 0))
      else if a > b then Some (Inr (setUint64 1))
      else if a = b then Some (Inr (setUint64 a))
      else if a + 1 = b then Some (nat_mul (setUint64 a) (setUint64 b))
      else let m = (a + b) div 2 in
        Option.bind (nat_mulRange a m) (\<lambda>l. Option.bind (nat_mulRange (m + 1) b) (\<lambda>r.
          Some (bindE l (\<lambda>l. bindE r (\<lambda>r. nat_mul l r))))))"

lemma nat_mulRange_prod:
  "unat b \<le> 2 ^ 63 \<Longrightarrow> nat_mulRange a b = Some (Inr (digits (\<Prod> {unat a..unat b})))"
proof (induction "unat b - unat a" arbitrary: a b rule: less_induct)
  case less
  consider "a = 0" | "a \<noteq> 0" "b < a" | "a \<noteq> 0" "a = b" | "a \<noteq> 0" "a < b" "a + 1 = b" | "a \<noteq> 0" "a < b" "a + 1 \<noteq> b"
    by fastforce
  then show ?case
  proof cases
    case 1
    have z: "\<Prod> {unat a..unat b} = 0" by (rule prod_zero) (use 1 in auto)
    have "nat_mulRange a b = Some (Inr [])"
      using 1 by (subst nat_mulRange.simps) (simp add: setUint64_def setWord_def)
    then show ?thesis unfolding z by simp
  next
    case 2
    then have "\<Prod> {unat a..unat b} = 1" by (simp add: word_less_nat_alt)
    then show ?thesis using 2 by (subst nat_mulRange.simps) (simp add: setUint64_def setWord_digits)
  next
    case 3
    then show ?thesis by (subst nat_mulRange.simps) (simp add: setUint64_def setWord_digits)
  next
    case 4
    have "unat b = Suc (unat a)"
      using 4(2,3) less.prems unat_plus_small [of a 1] by (simp add: base_num word_less_nat_alt)
    then have "{unat a..unat b} = {unat a, unat b}" "unat a \<noteq> unat b" by auto
    then have "\<Prod> {unat a..unat b} = unat a * unat b" by simp
    moreover have "nat_mul (setUint64 a) (setUint64 b) = Inr (digits (unat a * unat b))"
      using nat_mul_digits [of "setUint64 a" "setUint64 b"] by (simp add: setUint64_def setWord_digits)
    moreover have "nat_mulRange a b = Some (nat_mul (setUint64 a) (setUint64 b))"
      using 4 by (subst nat_mulRange.simps) auto
    ultimately show ?thesis by simp
  next
    case 5
    define m where "m = (a + b) div 2"
    have lt: "unat a < unat b" using 5(2) by (simp add: word_less_nat_alt)
    have ab: "unat (a + b) = unat a + unat b" by (rule unat_plus_small) (use lt less.prems in \<open>simp add: base_num\<close>)
    have um: "unat m = (unat a + unat b) div 2" unfolding m_def by (simp add: unat_div ab)
    have bb: "unat b < base" by simp
    have m1: "unat a \<le> unat m" "unat m < unat b" "unat (m + 1) = unat m + 1"
    proof -
      show "unat a \<le> unat m" "unat m < unat b" unfolding um using lt by auto
      then show "unat (m + 1) = unat m + 1" using unat_plus_small [of m 1] bb by simp
    qed
    have n1: "unat b \<noteq> unat a + 1"
    proof
      assume "unat b = unat a + 1"
      then have "unat (a + 1) = unat b" using unat_plus_small [of a 1] bb by simp
      then show False using 5(3) by (simp add: word_unat_eq_iff)
    qed
    have "nat_mulRange a m = Some (Inr (digits (\<Prod> {unat a..unat m})))"
      using less.hyps [of m a] m1 less.prems by simp
    moreover have "nat_mulRange (m + 1) b = Some (Inr (digits (\<Prod> {unat m + 1..unat b})))"
      using less.hyps [of b "m + 1"] m1 lt less.prems by simp
    moreover have "\<Prod> {unat a..unat m} * \<Prod> {unat m + 1..unat b} = \<Prod> {unat a..unat b}"
    proof -
      have "{unat a..unat b} = {unat a..unat m} \<union> {unat m + 1..unat b}" using m1 by auto
      then show ?thesis by (simp add: prod.union_disjoint [symmetric] ivl_disj_int)
    qed
    moreover have "a \<noteq> b" "\<not> b < a" using 5(2) by auto
    ultimately show ?thesis using 5 nat_mul_digits
      by (subst nat_mulRange.simps) (simp add: m_def [symmetric] Let_def)
  qed
qed

section \<open>Properties\<close>

text \<open>C5: The product is exact for operands of any length: the school method, Karatsuba's method in place
  and the cutting of long operands all compute the normalised product, no slice or index is out of
  range, and Karatsuba's method needs no more than the six-fold space its comment asks for.\<close>

theorem mul_exact:
  assumes "normal x" "normal y" "length a = length b" "6 * length b \<le> length z"
  shows "nat_mul x y = Inr (digits (val x * val y)) \<and>
    (\<exists>w. karatsuba z a b = Inr w \<and> length w = length z \<and> val (take (2 * length b) w) = val a * val b)"
  using nat_mul_digits [OF assms(1,2)] karatsuba_correct [OF assms(3,4)] by blast

lemma mul_exact_witness:
  "nat_mul [3, 1] [5, 2] = Inr [15, 11, 2] \<and> (\<exists>w. karatsuba (replicate 300 7) (replicate 50 1) (replicate 50 2) = Inr w \<and>
     val (take 100 w) = val (replicate 50 1) * val (replicate 50 2))"
proof -
  have "normal [3, 1 :: Word]" "normal [5, 2 :: Word]" by (simp_all add: normal_def)
  note m = mul_exact [OF this, of "replicate 50 1" "replicate 50 2" "replicate 300 7"]
  have "val [3, 1] * val [5, 2] = val [15, 11, 2 :: Word]" by (simp add: base_num)
  moreover have "digits (val [15, 11, 2 :: Word]) = [15, 11, 2]" by (rule digits_val) (simp add: normal_def)
  ultimately show ?thesis using m by (auto simp del: val.simps)
qed

text \<open>\<open>mulRange\<close> returns the product of the range whenever its upper end is at most \<open>2^63\<close>, which
  the exported \<open>MulRange\<close> on int64 guarantees.\<close>

theorem mulRange_exact:
  assumes "unat b \<le> 2 ^ 63"
  shows "nat_mulRange a b = Some (Inr (digits (\<Prod> {unat a..unat b})))"
  using assms by (rule nat_mulRange_prod)

lemma mulRange_exact_witness: "nat_mulRange 5 9 = Some (Inr (digits 15120))"
proof -
  have "{5..9 :: nat} = {5, 6, 7, 8, 9}" by auto
  then have "\<Prod> {5..9 :: nat} = 15120" by simp
  then show ?thesis using mulRange_exact [of 9 5] by simp
qed

end
