(* ===== verification/Go_NatDiv.thy ===== *)
theory Go_NatDiv
  imports Go_NatMul
begin

unbundle bit_operations_syntax

text \<open>
  Package math/big, nat.go: division of natural numbers, by a word and by Knuth's Algorithm D, and the
  powers built on it. A quotient digit is estimated from the two leading words of the divisor and
  three words of the dividend; the estimate is at most one too large, and then corrected.
\<close>

section \<open>The code\<close>

definition nat_divW :: "natural \<Rightarrow> Word \<Rightarrow> panic + natural \<times> Word" where
  "nat_divW x y =
     (let m = length x in
      if y = 0 then Inl (PanicMsg ''division by zero'')
      else if y = 1 then Inr (x, 0)
      else if m = 0 then Inr ([], 0)
      else bindE (divWVW (replicate m 0) 0 x y) (\<lambda>(z, r). Inr (norm z, r)))"

definition greaterThan :: "Word \<Rightarrow> Word \<Rightarrow> Word \<Rightarrow> Word \<Rightarrow> bool" where
  "greaterThan x1 x2 y1 y2 \<longleftrightarrow> x1 > y1 \<or> x1 = y1 \<and> x2 > y2"

lemma mulWW_0: "mulWW 0 y = (0, 0)"
  by (simp add: mulWW_def Let_def)

lemma qhat_decreases: "(x1, x2) = mulWW qhat v2 \<Longrightarrow> greaterThan x1 x2 r u \<Longrightarrow> unat (qhat - 1) < unat qhat"
  by (cases "qhat = 0") (auto simp: mulWW_0 greaterThan_def measure_unat)

text \<open>The correction of the estimate: the loop of step D3, and its choice of the first estimate.\<close>

function qhat_loop :: "Word \<Rightarrow> Word \<Rightarrow> Word \<Rightarrow> Word \<Rightarrow> Word \<Rightarrow> Word" where
  "qhat_loop qhat rhat v1 v2 u2 =
     (case mulWW qhat v2 of (x1, x2) \<Rightarrow>
      if greaterThan x1 x2 rhat u2
      then (let qhat = qhat - 1; prevRhat = rhat; rhat = rhat + v1 in
        if rhat < prevRhat then qhat else qhat_loop qhat rhat v1 v2 u2)
      else qhat)"
  by pat_completeness auto

termination
  by (relation "measure (\<lambda>(qhat, rhat, v1, v2, u2). unat qhat)") (auto intro: qhat_decreases)

declare qhat_loop.simps [simp del]

definition div_qhat :: "natural \<Rightarrow> natural \<Rightarrow> nat \<Rightarrow> Word" where
  "div_qhat u v j =
     (let n = length v in
      if u ! (j + n) \<noteq> v ! (n - 1)
      then (case divWW (u ! (j + n)) (u ! (j + n - 1)) (v ! (n - 1)) of (qhat, rhat) \<Rightarrow>
        qhat_loop qhat rhat (v ! (n - 1)) (v ! (n - 2)) (u ! (j + n - 2)))
      else - 1)"

text \<open>Steps D3 and D4 for one quotient digit.\<close>

definition div_step :: "natural \<Rightarrow> natural \<Rightarrow> nat \<Rightarrow> panic + natural \<times> Word" where
  "div_step u v j =
     (let n = length v; qhat = div_qhat u v j in
      bindE (mulAddVWW n v qhat 0) (\<lambda>(w, c).
      let qhatv = w @ [c] in
      bindE (subVV (length qhatv) (drop j u) qhatv) (\<lambda>(t, c).
      let u = put u j t in
      if c \<noteq> 0 then
        bindE (addVV n (drop j u) v) (\<lambda>(t, c).
        let u = put u j t; u = u[j + n := u ! (j + n) + c] in Inr (u, qhat - 1))
      else Inr (u, qhat))))"

fun divLarge_loop :: "nat \<Rightarrow> natural \<Rightarrow> natural \<Rightarrow> natural \<Rightarrow> panic + natural \<times> natural" where
  "divLarge_loop 0 u q v = Inr (u, q)"
| "divLarge_loop (Suc j) u q v = bindE (div_step u v j) (\<lambda>(u, qhat). divLarge_loop j u (q[j := qhat]) v)"

definition nat_divLarge :: "natural \<Rightarrow> natural \<Rightarrow> panic + natural \<times> natural" where
  "nat_divLarge uIn v =
     (let n = length v; m = length uIn - n;
          q = replicate (m + 1) 0;
          u = replicate (length uIn + 1) 0;
          shift = leadingZeros (v ! (n - 1)) in
      bindE (if shift > 0 then bindE (shlVU (replicate n 0) v shift) (\<lambda>(v1, c). Inr v1) else Inr v) (\<lambda>v.
      bindE (shlVU (take (length uIn) u) uIn shift) (\<lambda>(w, c).
      let u = w @ [c] in
      bindE (divLarge_loop (m + 1) u q v) (\<lambda>(u, q).
      bindE (shrVU u u shift) (\<lambda>(u, c). Inr (norm q, norm u))))))"

definition nat_div :: "natural \<Rightarrow> natural \<Rightarrow> panic + natural \<times> natural" where
  "nat_div u v =
     (if length v = 0 then Inl (PanicMsg ''division by zero'')
      else if nat_cmp u v < 0 then Inr ([], u)
      else if length v = 1 then bindE (nat_divW u (v ! 0)) (\<lambda>(q, r2). Inr (q, setWord r2))
      else nat_divLarge u v)"

section \<open>Division by a word\<close>

lemma nat_divW_digits:
  assumes "normal x" "y \<noteq> 0"
  shows "nat_divW x y = Inr (digits (val x div unat y), word_of_nat (val x mod unat y))"
proof -
  consider "y = 1" | "y \<noteq> 1" "x = []" | "y \<noteq> 1" "x \<noteq> []" by blast
  then show ?thesis
  proof cases
    case 1
    then show ?thesis using digits_val [OF assms(1)] by (simp add: nat_divW_def)
  next
    case 2
    then show ?thesis using assms(2) by (simp add: nat_divW_def)
  next
    case 3
    obtain q r where q: "divWVW (replicate (length x) 0) 0 x y = Inr (q, r)" "r < y"
        "val q * unat y + unat r = unat (0 :: Word) * base ^ length x + val x"
      using divWVW_correct [of x "replicate (length x) 0" 0 y] assms(2) by (auto simp: word_gt_0)
    have e: "val x = unat r + val q * unat y" using q(3) by simp
    have "unat r < unat y" using q(2) by (simp add: word_less_nat_alt)
    then have v: "val x div unat y = val q" "val x mod unat y = unat r" unfolding e by simp_all
    show ?thesis unfolding v using 3 assms(2) q(1) by (simp add: nat_divW_def digits_unfold)
  qed
qed

section \<open>The estimate of a quotient digit\<close>

lemma greaterThan_nat: "greaterThan x1 x2 y1 y2 \<longleftrightarrow> unat y1 * base + unat y2 < unat x1 * base + unat x2"
proof (cases "x1 = y1")
  case False
  have l: "unat a * base + unat b < unat c * base + unat d" if "a < c" for a b c d :: Word
  proof -
    have "(unat a + 1) * base \<le> unat c * base" using that by (intro mult_le_mono1) (simp add: word_less_nat_alt)
    then have "unat a * base + base \<le> unat c * base" by (simp add: algebra_simps)
    then show ?thesis using unat_base [of b] by linarith
  qed
  show ?thesis using l [of x1 y1 x2 y2] l [of y1 x1 y2 x2] False unfolding greaterThan_def
    by (metis less_not_sym linorder_neqE)
qed (simp add: greaterThan_def word_less_nat_alt)

lemma qhat_loop_correct:
  "unat qhat * unat v1 + unat rhat = N \<Longrightarrow> v1 \<noteq> 0 \<Longrightarrow>
   \<exists>Q R. unat (qhat_loop qhat rhat v1 v2 u2) = Q \<and> Q * unat v1 + R = N \<and> Q * unat v2 \<le> R * base + unat u2 \<and>
     (\<forall>q. q * (unat v1 * base + unat v2) \<le> N * base + unat u2 \<longrightarrow> q \<le> unat qhat \<longrightarrow> q \<le> Q)"
proof (induction qhat rhat v1 v2 u2 rule: qhat_loop.induct)
  case (1 qhat rhat v1 v2 u2)
  obtain x1 x2 where x: "mulWW qhat v2 = (x1, x2)" by fastforce
  have gt: "greaterThan x1 x2 rhat u2 \<longleftrightarrow> unat rhat * base + unat u2 < unat qhat * unat v2"
    unfolding greaterThan_nat mulWW_correct [OF x] ..
  show ?case
  proof (cases "greaterThan x1 x2 rhat u2")
    case False
    then have "qhat_loop qhat rhat v1 v2 u2 = qhat" by (subst qhat_loop.simps) (simp add: x)
    then show ?thesis using False gt "1.prems"(1) by (intro exI [of _ "unat qhat"] exI [of _ "unat rhat"]) auto
  next
    case True
    then have g: "unat rhat * base + unat u2 < unat qhat * unat v2" using gt by simp
    then have q0: "0 < unat qhat" by (cases "unat qhat") auto
    then have q1: "unat (qhat - 1) = unat qhat - 1" by (simp add: unat_minus_le word_le_nat_alt)
    have N: "unat (qhat - 1) * unat v1 + (unat rhat + unat v1) = N"
      using "1.prems"(1) q0 unfolding q1 by (cases "unat qhat") auto
    have low: "q \<le> unat (qhat - 1)"
      if "q * (unat v1 * base + unat v2) \<le> N * base + unat u2" "q \<le> unat qhat" for q
    proof (rule ccontr)
      assume "\<not> q \<le> unat (qhat - 1)"
      then have q: "q = unat qhat" using that(2) q1 by simp
      have "unat qhat * (unat v1 * base + unat v2) = (N - unat rhat) * base + unat qhat * unat v2"
        unfolding "1.prems"(1) [symmetric] by (simp add: algebra_simps)
      also have "\<dots> > (N - unat rhat) * base + (unat rhat * base + unat u2)" using g by simp
      finally have "N * base + unat u2 < unat qhat * (unat v1 * base + unat v2)"
        unfolding "1.prems"(1) [symmetric] by (simp add: algebra_simps)
      then show False using that(1) q by simp
    qed
    show ?thesis
    proof (cases "rhat + v1 < rhat")
      case ov: True
      then have "base \<le> unat rhat + unat v1"
        using unat_plus_small [of rhat v1] by (fastforce simp: word_less_nat_alt)
      then have "base * base \<le> (unat rhat + unat v1) * base" by (intro mult_le_mono1)
      moreover have "unat (qhat - 1) * unat v2 \<le> base * base" by (intro mult_le_mono) (simp_all add: less_imp_le)
      moreover have "qhat_loop qhat rhat v1 v2 u2 = qhat - 1"
        using True ov by (subst qhat_loop.simps) (simp add: x Let_def)
      moreover from calculation have "unat (qhat - 1) * unat v2 \<le> (unat rhat + unat v1) * base + unat u2" by linarith
      ultimately show ?thesis using N low
        by (intro exI [of _ "unat (qhat - 1)"] exI [of _ "unat rhat + unat v1"] conjI allI impI) (simp_all only:)
    next
      case nov: False
      have s: "unat (rhat + v1) = unat rhat + unat v1"
      proof (rule unat_plus_small, rule ccontr)
        assume "\<not> unat rhat + unat v1 < base"
        then have "unat (rhat + v1) = unat rhat + unat v1 - base" by (rule unat_plus_carry)
        then have "unat (rhat + v1) < unat rhat"
          using unat_base [of v1] \<open>\<not> unat rhat + unat v1 < base\<close> by linarith
        then have "rhat + v1 < rhat" by (simp add: word_less_nat_alt)
        then show False using nov by simp
      qed
      have e: "qhat_loop qhat rhat v1 v2 u2 = qhat_loop (qhat - 1) (rhat + v1) v1 v2 u2"
        using True nov by (subst qhat_loop.simps) (simp add: x Let_def)
      show ?thesis unfolding e
        using "1.IH" [OF x [symmetric] True refl refl refl nov] N "1.prems"(2) low unfolding s by blast
    qed
  qed
qed

text \<open>Knuth's bound, in numbers: the estimate is the quotient or one more.\<close>

lemma knuth_bound:
  fixes b v1 v2 vl ul u0 u1 u2 B Q R :: nat
  defines "V \<equiv> (v1 * b + v2) * B + vl" and "U \<equiv> ((u0 * b + u1) * b + u2) * B + ul"
  assumes "vl < B" "ul < B" "0 < v1" "Q < b" "Q * v1 + R = u0 * b + u1" "Q * v2 \<le> R * b + u2"
    and up: "\<And>q. q * (v1 * b + v2) \<le> (u0 * b + u1) * b + u2 \<Longrightarrow> q \<le> Q"
  shows "U div V \<le> Q" "Q \<le> U div V + 1"
proof -
  define W where "W = (u0 * b + u1) * b + u2"
  have "0 < v1 * b" using assms(5,6) by simp
  then have Vp: "0 < V" unfolding V_def using assms(3) by simp
  have "(U div V) * ((v1 * b + v2) * B) \<le> (U div V) * V" unfolding V_def by (intro mult_le_mono2) simp
  also have "\<dots> \<le> U" by simp
  also have "U < (W + 1) * B" unfolding U_def W_def using assms(4) by simp
  finally have "(U div V) * (v1 * b + v2) * B < (W + 1) * B" by (simp only: mult.assoc)
  then have "(U div V) * (v1 * b + v2) < W + 1" by (simp only: mult_less_cancel2)
  then show "U div V \<le> Q" using up [of "U div V"] unfolding W_def by simp
  have "Q * (v1 * b + v2) = (Q * v1) * b + Q * v2" by (simp add: algebra_simps)
  also have "\<dots> \<le> (Q * v1 + R) * b + u2" using assms(8) by (simp add: algebra_simps)
  finally have QW: "Q * (v1 * b + v2) \<le> W" unfolding W_def assms(7) .
  have "Q * V \<le> Q * ((v1 * b + v2) * B) + Q * B"
    unfolding V_def using assms(3) by (simp add: distrib_left)
  also have "\<dots> \<le> W * B + V"
  proof -
    have "Q * (v1 * b + v2) * B \<le> W * B" using QW by (rule mult_le_mono1)
    moreover have "Q * B \<le> (v1 * b + v2) * B"
    proof (rule mult_le_mono1)
      have "b \<le> v1 * b" using assms(5) by simp
      then show "Q \<le> v1 * b + v2" using assms(6) by linarith
    qed
    ultimately show ?thesis unfolding V_def mult.assoc [symmetric] by linarith
  qed
  also have "\<dots> \<le> U + V" unfolding U_def W_def by simp
  finally have "Q * V \<le> U + V" .
  then have "(Q - 1) * V \<le> U" by (cases Q) auto
  then have "Q - 1 \<le> U div V" using Vp by (simp add: less_eq_div_iff_mult_less_eq)
  then show "Q \<le> U div V + 1" by simp
qed

lemma knuth_top:
  fixes b v1 v2 vl ul u1 u2 B :: nat
  defines "V \<equiv> (v1 * b + v2) * B + vl" and "U \<equiv> ((v1 * b + u1) * b + u2) * B + ul"
  assumes "vl < B" "v2 < b" "b \<le> 2 * v1" "0 < b" "U < b * V"
  shows "U div V \<le> b - 1" "b - 1 \<le> U div V + 1"
proof -
  have Vp: "0 < V" using assms(7) by (cases "V = 0") auto
  have "U div V < b" using assms(7) by (simp add: less_mult_imp_div_less)
  then show "U div V \<le> b - 1" by simp
  have "(v2 + 1) * B \<le> b * B" using assms(4) by (intro mult_le_mono1) simp
  then have Vb: "V \<le> (v1 + 1) * b * B" unfolding V_def using assms(3) by (simp add: algebra_simps)
  have "(b - 2) * V \<le> (b - 2) * ((v1 + 1) * b * B)" using Vb by (rule mult_le_mono2)
  also have "\<dots> = ((b - 2) * (v1 + 1)) * (b * B)" by (simp only: mult.assoc)
  also have "\<dots> \<le> (v1 * b) * (b * B)"
  proof (rule mult_le_mono1)
    have "int (b - 2) * int (v1 + 1) \<le> int v1 * int b"
    proof (cases "2 \<le> b")
      case True
      then have "int (b - 2) = int b - 2" by simp
      then show ?thesis using assms(5) by (simp add: algebra_simps)
    qed simp
    then show "(b - 2) * (v1 + 1) \<le> v1 * b" by (simp only: of_nat_mult [symmetric] of_nat_le_iff)
  qed
  also have "\<dots> \<le> U" unfolding U_def by (simp add: algebra_simps)
  finally have "b - 2 \<le> U div V" using Vp by (simp add: less_eq_div_iff_mult_less_eq)
  then show "b - 1 \<le> U div V + 1" by simp
qed

section \<open>One quotient digit\<close>

lemma last_two:
  assumes "length v = n" "2 \<le> n"
  shows "val v = (unat (v ! (n - 1)) * base + unat (v ! (n - 2))) * base ^ (n - 2) + val (take (n - 2) v)"
    "val (take (n - 2) v) < base ^ (n - 2)"
proof -
  have "drop (n - 2) v = [v ! (n - 2), v ! (n - 1)]"
    using assms Cons_nth_drop_Suc [of "n - 2" v] Cons_nth_drop_Suc [of "n - 1" v]
    by (simp add: Suc_diff_le numeral_2_eq_2 Suc_diff_Suc)
  then have "val (drop (n - 2) v) = unat (v ! (n - 1)) * base + unat (v ! (n - 2))" by simp
  then show "val v = (unat (v ! (n - 1)) * base + unat (v ! (n - 2))) * base ^ (n - 2) + val (take (n - 2) v)"
    using val_split [of v "n - 2"] assms by (simp add: min_absorb1)
  show "val (take (n - 2) v) < base ^ (n - 2)" using val_less [of "take (n - 2) v"] assms by (simp add: min_absorb1)
qed

lemma unat_all_ones: "unat (- 1 :: Word) = base - 1"
  by (simp add: unsigned_minus_1_eq_mask mask_eq_exp_minus_1 base_num)

lemma div_qhat_correct:
  assumes n: "length v = n" "2 \<le> n" and top: "2 ^ 63 \<le> unat (v ! (n - 1))"
    and t: "length t = n + 1" "take (n + 1) (drop j u) = t" "j + n < length u"
    and lt: "val t < base * val v"
  shows "val t div val v \<le> unat (div_qhat u v j)" "unat (div_qhat u v j) \<le> val t div val v + 1"
proof -
  define u0 u1 u2 v1 v2 where "u0 = t ! n" and "u1 = t ! (n - 1)" and "u2 = t ! (n - 2)"
    and "v1 = v ! (n - 1)" and "v2 = v ! (n - 2)"
  have nth: "u ! (j + i) = t ! i" if "i \<le> n" for i using t that by auto
  have us: "u ! (j + n) = u0" "u ! (j + n - 1) = u1" "u ! (j + n - 2) = u2"
    using nth [of n] nth [of "n - 1"] nth [of "n - 2"] n(2) by (simp_all add: u0_def u1_def u2_def)
  define B where "B = base ^ (n - 2)"
  define vl ul where "vl = val (take (n - 2) v)" and "ul = val (take (n - 2) t)"
  have V: "val v = (unat v1 * base + unat v2) * B + vl" "vl < B"
    using last_two [OF n] by (simp_all add: B_def vl_def v1_def v2_def)
  have bb: "base ^ (n - 1) = base * B" using n(2) unfolding B_def by (simp flip: power_Suc add: Suc_diff_le numeral_2_eq_2 Suc_diff_Suc)
  have U: "val t = ((unat u0 * base + unat u1) * base + unat u2) * B + ul" "ul < B"
  proof -
    have s: "val t = (unat u0 * base + unat u1) * base ^ (n - 1) + val (take (n - 1) t)"
      using last_two(1) [of t "n + 1"] t(1) n(2) by (simp add: u0_def u1_def)
    have "drop (n - 2) (take (n - 1) t) = [u2]"
      using t(1) n(2) by (simp add: u2_def list_eq_iff_nth_eq)
    moreover have "take (n - 2) (take (n - 1) t) = take (n - 2) t" using n(2) by (simp add: min_absorb1)
    moreover have "min (n - 2) (length (take (n - 1) t)) = n - 2" using t(1) n(2) by simp
    ultimately have "val (take (n - 1) t) = ul + B * unat u2"
      using val_split [of "take (n - 1) t" "n - 2"] by (simp only: val_singleton ul_def B_def)
    then show "val t = ((unat u0 * base + unat u1) * base + unat u2) * B + ul" unfolding s bb by (simp add: algebra_simps)
    show "ul < B" using val_less [of "take (n - 2) t"] t(1) unfolding ul_def B_def by (simp add: min_absorb1)
  qed
  have v1: "2 ^ 63 \<le> unat v1" "base \<le> 2 * unat v1" "v1 \<noteq> 0" using top by (auto simp: v1_def base_num)
  have u0: "unat u0 \<le> unat v1"
  proof (rule ccontr)
    assume "\<not> unat u0 \<le> unat v1"
    then have "(unat v1 + 1) * (base * base * B) \<le> unat u0 * (base * base * B)" by (intro mult_le_mono1) simp
    also have "\<dots> \<le> val t" unfolding U(1) by (simp add: algebra_simps)
    also have "\<dots> < base * val v" by (rule lt)
    also have "\<dots> < base * ((unat v1 * base + unat v2 + 1) * B)"
      unfolding V(1) using V(2) by (intro mult_strict_left_mono) simp_all
    also have "\<dots> \<le> base * ((unat v1 * base + base) * B)"
      using unat_base [of v2] by (intro mult_le_mono2 mult_le_mono1) linarith
    also have "\<dots> = (unat v1 + 1) * (base * base * B)" by (simp only: distrib_right distrib_left ac_simps)
    finally show False by simp
  qed
  show "val t div val v \<le> unat (div_qhat u v j)" "unat (div_qhat u v j) \<le> val t div val v + 1"
  proof -
    consider "u0 = v1" | "u0 < v1" using u0 by (metis le_neq_implies_less word_less_nat_alt word_unat_eq_iff)
    then have "val t div val v \<le> unat (div_qhat u v j) \<and> unat (div_qhat u v j) \<le> val t div val v + 1"
    proof cases
      case 1
      have d: "unat (div_qhat u v j) = base - 1"
        using 1 us n by (simp add: div_qhat_def v1_def unat_all_ones)
      show ?thesis unfolding d
        using knuth_top [OF V(2) unat_base [of v2] v1(2), of "unat u1" "unat u2" ul] lt unfolding V(1) U(1) 1 by simp
    next
      case 2
      obtain qh rh where q: "divWW u0 u1 v1 = (qh, rh)" by fastforce
      have qr: "unat qh = (unat u0 * base + unat u1) div unat v1" "unat rh = (unat u0 * base + unat u1) mod unat v1"
        using divWW_div [OF q 2] by simp_all
      have e: "unat qh * unat v1 + unat rh = unat u0 * base + unat u1" unfolding qr by simp
      obtain Q R where Q: "unat (qhat_loop qh rh v1 v2 u2) = Q" "Q * unat v1 + R = unat u0 * base + unat u1"
          "Q * unat v2 \<le> R * base + unat u2"
          "\<forall>q. q * (unat v1 * base + unat v2) \<le> (unat u0 * base + unat u1) * base + unat u2 \<longrightarrow> q \<le> unat qh \<longrightarrow> q \<le> Q"
        using qhat_loop_correct [OF e v1(3), of v2 u2] by blast
      have dq: "div_qhat u v j = qhat_loop qh rh v1 v2 u2"
        using 2 less_imp_neq [OF 2] q unfolding div_qhat_def Let_def n(1) us v1_def [symmetric] v2_def [symmetric] by simp
      have Qb: "Q < base" unfolding Q(1) [symmetric] by simp
      have up: "q \<le> Q" if "q * (unat v1 * base + unat v2) \<le> (unat u0 * base + unat u1) * base + unat u2" for q
      proof -
        have "q * unat v1 * base \<le> q * (unat v1 * base + unat v2)" by (simp add: algebra_simps)
        also have "\<dots> < (unat u0 * base + unat u1 + 1) * base" using that unat_base [of u2] by (simp only: distrib_right)
        finally have "q * unat v1 < unat u0 * base + unat u1 + 1" by (simp only: mult_less_cancel2)
        then have "q \<le> unat qh" unfolding qr using v1(1) by (simp add: less_eq_div_iff_mult_less_eq)
        then show ?thesis using Q(4) that by blast
      qed
      show ?thesis unfolding dq Q(1) V(1) U(1)
        using knuth_bound [OF V(2) U(2) _ Qb Q(2,3) up] v1(1) by simp
    qed
    then show "val t div val v \<le> unat (div_qhat u v j)" "unat (div_qhat u v j) \<le> val t div val v + 1" by simp_all
  qed
qed

lemma div_step_correct:
  assumes n: "length v = n" "2 \<le> n" and top: "2 ^ 63 \<le> unat (v ! (n - 1))"
    and u: "j + n < length u" "val (drop j u) < base * val v"
  shows "\<exists>u'. div_step u v j = Inr (u', word_of_nat (val (drop j u) div val v)) \<and> length u' = length u \<and>
    take j u' = take j u \<and> val (drop j u') = val (drop j u) mod val v \<and> val (drop j u) div val v < base"
proof -
  define a t r where "a = take j u" and "t = take (n + 1) (drop j u)" and "r = drop (n + 1) (drop j u)"
  have ua: "u = a @ t @ r" unfolding a_def t_def r_def by (simp only: append_take_drop_id)
  have l: "length a = j" "length t = n + 1" "length u = j + (n + 1) + length r"
    using u(1) by (simp_all add: a_def t_def r_def)
  have dj: "drop j u = t @ r" unfolding ua using l(1) by simp
  have Vb: "val v < base ^ n" using val_less [of v] n by simp
  have "val t + base ^ (n + 1) * val r < base * val v" using u(2) unfolding dj by (simp add: val_append l(2))
  moreover have "base * val v < base ^ (n + 1)" using Vb by simp
  ultimately have "base ^ (n + 1) * val r < base ^ (n + 1) * 1" by linarith
  then have r0: "val r = 0" by (simp only: mult_less_cancel1) simp
  have U: "val (drop j u) = val t" unfolding dj by (simp add: val_append r0)
  have lt: "val t < base * val v" using u(2) U by simp
  have Vp: "0 < val v" using lt by (cases "val v = 0") auto
  define qh where "qh = div_qhat u v j"
  have q: "val t div val v \<le> unat qh" "unat qh \<le> val t div val v + 1"
    using div_qhat_correct [OF n top l(2) t_def [symmetric] u(1) lt] by (simp_all add: qh_def)
  have qb: "val t div val v < base" using q(1) unat_base [of qh] by linarith
  obtain w c where w: "mulAddVWW n v qh 0 = Inr (w, c)" "length w = n" "val w + base ^ n * unat c = val v * unat qh"
    using mulAddVWW_correct [of n v qh 0] n by auto
  have vw: "val (w @ [c]) = val v * unat qh" using w(2,3) by (simp add: val_append)
  obtain s d where s: "subVV (n + 1) (t @ r) (w @ [c]) = Inr (s, d)" "length s = n + 1" "unat d \<le> 1"
      "val s + val v * unat qh = val t + base ^ (n + 1) * unat d"
    using subVV_correct [of "n + 1" "t @ r" "w @ [c]"] l w(2) vw by auto
  have p: "put u j s = a @ s @ r" unfolding ua using l s(2) by (intro put_append) simp_all
  have ls: "val s < base ^ (n + 1)" using val_less [of s] s(2) by simp
  have mt: "val t mod val v + val v * (val t div val v) = val t" by simp
  show ?thesis
  proof (cases "d = 0")
    case True
    have "val v * unat qh \<le> val t" using s(4) True by simp
    then have "unat qh \<le> val t div val v" using Vp by (simp add: less_eq_div_iff_mult_less_eq mult.commute)
    then have qq: "unat qh = val t div val v" using q by simp
    then have "val s + val v * (val t div val v) = val t" using s(4) True by simp
    then have "val s = val t mod val v" using mt by linarith
    moreover have "qh = word_of_nat (val t div val v)" using qq by (metis of_nat_unat ucast_id)
    moreover have "div_step u v j = Inr (a @ s @ r, qh)"
      using True w(1,2) s(1) p n(1) by (simp add: div_step_def Let_def qh_def [symmetric] dj)
    ultimately show ?thesis using l s(2) qb unfolding U
      by (intro exI [of _ "a @ s @ r"]) (simp add: ua val_append r0)
  next
    case False
    have d1: "unat d = 1" using False s(3) by (metis le_antisym less_one not_le unat_eq_0)
    have "val t < val v * unat qh" using s(4) ls unfolding d1 by linarith
    then have qq: "unat qh = val t div val v + 1"
    proof -
      have "val t div val v < unat qh" using \<open>val t < val v * unat qh\<close> by (simp add: div_less_iff_less_mult [OF Vp] mult.commute)
      then show ?thesis using q(2) by simp
    qed
    obtain s1 s2 where s12: "s = s1 @ [s2]" "length s1 = n" using s(2) by (metis Suc_eq_plus1 length_Suc_conv_rev)
    obtain e f where e: "addVV n (s1 @ s2 # r) v = Inr (e, f)" "length e = n" "unat f \<le> 1"
        "val e + base ^ n * unat f = val s1 + val v"
      using addVV_correct [of n "s1 @ s2 # r" v] n s12(2) by auto
    have pe: "put (a @ s1 @ s2 # r) j e = a @ e @ s2 # r" using l(1) s12(2) e(2) by (intro put_append) simp_all
    have upd: "(a @ e @ s2 # r)[j + n := (a @ e @ s2 # r) ! (j + n) + f] = a @ e @ (s2 + f) # r"
      using l(1) e(2) by (simp add: nth_append list_update_append)
    have st: "div_step u v j = Inr (a @ e @ (s2 + f) # r, qh - 1)"
      using False w(1,2) s(1) p n(1) e(1) pe upd l(1) by (simp add: div_step_def Let_def qh_def [symmetric] dj s12(1))
    define X where "X = val (e @ [s2 + f])"
    have Xb: "X < base ^ (n + 1)" using val_less [of "e @ [s2 + f]"] e(2) by (simp add: X_def)
    have es: "val e + base ^ n * unat f + base ^ n * unat s2 = val t mod val v + base ^ (n + 1)"
    proof -
      have "val s = val s1 + base ^ n * unat s2" by (simp add: s12 val_append)
      then have "val s1 + base ^ n * unat s2 + val v * (val t div val v) + val v = val t + base ^ (n + 1)"
        using s(4) unfolding d1 qq by (simp add: algebra_simps)
      then show ?thesis using e(4) mt by linarith
    qed
    define g :: nat where "g = (if unat s2 + unat f < base then 0 else 1)"
    have "unat s2 + unat f = unat (s2 + f) + base * g"
      using unat_plus_small [of s2 f] unat_plus_carry [of s2 f] by (auto simp: g_def)
    then have "base ^ n * (unat s2 + unat f) = base ^ n * (unat (s2 + f) + base * g)" by (simp only:)
    then have "base ^ n * (unat s2 + unat f) = base ^ n * unat (s2 + f) + base ^ (n + 1) * g"
      by (simp only: distrib_left power_add power_one_right mult.assoc)
    then have XX: "X + base ^ (n + 1) * g = val t mod val v + base ^ (n + 1)"
      using es e(2) by (simp add: X_def val_append distrib_left)
    have "g = 1" using XX Xb by (cases "unat s2 + unat f < base") (auto simp: g_def)
    then have X: "X = val t mod val v" using XX by simp
    have "unat (qh - 1) = val t div val v" using qq by (simp add: unat_minus_le word_le_nat_alt)
    then have "qh - 1 = word_of_nat (val t div val v)" by (metis of_nat_unat ucast_id)
    moreover have "val (drop j (a @ e @ (s2 + f) # r)) = X"
    proof -
      have "drop j (a @ e @ (s2 + f) # r) = (e @ [s2 + f]) @ r" using l(1) by simp
      then show ?thesis unfolding X_def by (simp add: val_append r0)
    qed
    ultimately show ?thesis using st l s12 e(2) qb X s(2) unfolding U
      by (intro exI [of _ "a @ e @ (s2 + f) # r"]) (simp add: ua)
  qed
qed

section \<open>Algorithm D\<close>

lemma divLarge_loop_correct:
  assumes n: "length v = n" "2 \<le> n" and top: "2 ^ 63 \<le> unat (v ! (n - 1))"
  shows "j + n \<le> length u \<Longrightarrow> j \<le> length q \<Longrightarrow> val (drop j u) < val v \<Longrightarrow>
    \<exists>u' q'. divLarge_loop j u q v = Inr (u', q') \<and> length u' = length u \<and> length q' = length q \<and> drop j q' = drop j q \<and>
      val u' < val v \<and> val u = val (take j q') * val v + val u'"
proof (induction j arbitrary: u q)
  case 0
  then show ?case by simp
next
  case (Suc j)
  have Vp: "0 < val v" using Suc.prems(3) by simp
  have jl: "j + n < length u" "j < length u" using Suc.prems(1) by auto
  have "val (drop j u) = unat (u ! j) + base * val (drop (Suc j) u)"
    using jl(2) by (simp add: Cons_nth_drop_Suc [symmetric])
  moreover have "base * (val (drop (Suc j) u) + 1) \<le> base * val v" using Suc.prems(3) by (intro mult_le_mono2) simp
  ultimately have lt: "val (drop j u) < base * val v" using unat_base [of "u ! j"] by (simp only: distrib_left)
  define qh where "qh = val (drop j u) div val v"
  obtain u1 where u1: "div_step u v j = Inr (u1, word_of_nat qh)" "length u1 = length u" "take j u1 = take j u"
      "val (drop j u1) = val (drop j u) mod val v" "qh < base"
    using div_step_correct [OF n top jl(1) lt] by (auto simp: qh_def)
  define q1 where "q1 = q[j := word_of_nat qh]"
  have IHp: "j + n \<le> length u1" "j \<le> length q1" "val (drop j u1) < val v"
    using Suc.prems u1 Vp by (simp_all add: q1_def)
  obtain u' q' where r: "divLarge_loop j u1 q1 v = Inr (u', q')" "length u' = length u1" "length q' = length q1"
      "drop j q' = drop j q1" "val u' < val v" "val u1 = val (take j q') * val v + val u'"
    using Suc.IH [OF IHp] by blast
  have jq: "j < length q" "j < length q'" using Suc.prems(2) r(3) by (simp_all add: q1_def)
  have "q' ! j = drop j q' ! 0" using jq by simp
  also have "\<dots> = word_of_nat qh" unfolding r(4) using jq(1) by (simp add: q1_def)
  finally have tq: "take (Suc j) q' = take j q' @ [word_of_nat qh]" using jq(2) by (simp add: take_Suc_conv_app_nth)
  have dq: "drop (Suc j) q' = drop (Suc j) q"
  proof -
    have "drop 1 (drop j q') = drop 1 (drop j q1)" unfolding r(4) ..
    then show ?thesis by (simp add: q1_def)
  qed
  have uq: "unat (word_of_nat qh :: Word) = qh" using u1(5) by (simp add: unat_of_nat base_def)
  have sp: "val x = val (take j x) + base ^ j * val (drop j x)" if "j \<le> length x" for x
    using val_split [of x j] that by (simp add: min_absorb1)
  have "val u = val (take j u) + base ^ j * (qh * val v + val (drop j u1))"
    using sp [of u] jl(2) unfolding u1(4) qh_def by simp
  also have "\<dots> = val u1 + base ^ j * qh * val v"
    using sp [of u1] jl(2) u1(2,3) by (simp add: algebra_simps)
  also have "\<dots> = val (take (Suc j) q') * val v + val u'"
    unfolding r(6) tq using jq(2) by (simp add: val_append uq algebra_simps)
  finally show ?case using r u1(1,2) dq by (auto simp: q1_def)
qed

lemma nat_divLarge_digits:
  assumes u: "length v \<le> length u" and v: "normal v" "2 \<le> length v"
  shows "nat_divLarge u v = Inr (digits (val u div val v), digits (val u mod val v))"
proof -
  define n m where "n = length v" and "m = length u - n"
  have n: "2 \<le> n" "n \<le> length u" "length u = m + n" using u v(2) by (auto simp: n_def m_def)
  define s where "s = leadingZeros (v ! (n - 1))"
  have "v \<noteq> []" using v(2) by auto
  then have vt: "v ! (n - 1) \<noteq> 0" using v(1) by (simp add: normal_def last_conv_nth n_def)
  have s: "s < 64" "unat (v ! (n - 1)) * 2 ^ s < base" "2 ^ 63 \<le> unat (v ! (n - 1)) * 2 ^ s"
    using leadingZeros_shift [OF vt] by (simp_all add: s_def)
  have vs: "val v = val (take (n - 1) v) + base ^ (n - 1) * unat (v ! (n - 1))" "val (take (n - 1) v) < base ^ (n - 1)"
  proof -
    have "drop (n - 1) v = [v ! (n - 1)]" using n(1) by (simp add: n_def list_eq_iff_nth_eq)
    then show "val v = val (take (n - 1) v) + base ^ (n - 1) * unat (v ! (n - 1))"
      using val_split [of v "n - 1"] by (simp add: n_def min_absorb1)
    show "val (take (n - 1) v) < base ^ (n - 1)" using val_less [of "take (n - 1) v"] by (simp add: n_def min_absorb1)
  qed
  have bn: "base ^ n = base ^ (n - 1) * base" using n(1) by (simp flip: power_Suc2)
  have vb: "val v * 2 ^ s < base ^ n"
  proof -
    have "val v * 2 ^ s < (base ^ (n - 1) * (1 + unat (v ! (n - 1)))) * 2 ^ s" using vs by simp
    also have "\<dots> \<le> base ^ n"
    proof -
      have "base = 2 ^ (64 - s) * 2 ^ s" using s(1) unfolding base_def power_add [symmetric] by simp
      then have "unat (v ! (n - 1)) * 2 ^ s < 2 ^ (64 - s) * 2 ^ s" using s(2) by simp
      then have "unat (v ! (n - 1)) < 2 ^ (64 - s)" by (simp only: mult_less_cancel2)
      then have "(1 + unat (v ! (n - 1))) * 2 ^ s \<le> 2 ^ (64 - s) * 2 ^ s" by (intro mult_le_mono1) simp
      also have "\<dots> = base" using \<open>base = 2 ^ (64 - s) * 2 ^ s\<close> ..
      finally show ?thesis unfolding bn mult.assoc by (rule mult_le_mono2)
    qed
    finally show ?thesis .
  qed
  obtain v1 where v1: "(if s > 0 then bindE (shlVU (replicate n 0) v s) (\<lambda>(v1, c). Inr v1) else Inr v) = Inr v1"
      "length v1 = n" "val v1 = val v * 2 ^ s"
  proof (cases "s > 0")
    case True
    obtain w c where w: "shlVU (replicate n 0) v s = Inr (w, c)" "length w = n" "val w + base ^ n * unat c = val v * 2 ^ s"
      using shlVU_correct [of v "replicate n 0" s] s(1) by (auto simp: n_def)
    have "unat c = 0"
    proof (rule ccontr)
      assume "unat c \<noteq> 0"
      then have "base ^ n * 1 \<le> base ^ n * unat c" by (intro mult_le_mono2) simp
      then show False using w(3) vb by linarith
    qed
    then show thesis using that [of w] w True by simp
  qed (use that [of v] in \<open>simp add: n_def\<close>)
  obtain w c where w: "shlVU (replicate (length u) 0) u s = Inr (w, c)" "length w = length u"
      "val w + base ^ length u * unat c = val u * 2 ^ s"
    using shlVU_correct [of u "replicate (length u) 0" s] s(1) by auto
  define us where "us = w @ [c]"
  have us: "length us = m + 1 + n" "val us = val u * 2 ^ s" using w(2,3) n(3) by (simp_all add: us_def val_append)
  have top: "2 ^ 63 \<le> unat (v1 ! (n - 1))"
  proof -
    have "base ^ (n - 1) * (unat (v ! (n - 1)) * 2 ^ s) \<le> val v1" unfolding v1(3) vs(1) by (simp add: algebra_simps)
    also have "val v1 = val (take (n - 1) v1) + base ^ (n - 1) * unat (v1 ! (n - 1))"
    proof -
      have "drop (n - 1) v1 = [v1 ! (n - 1)]" using n(1) v1(2) by (simp add: list_eq_iff_nth_eq)
      then show ?thesis using val_split [of v1 "n - 1"] v1(2) by (simp add: min_absorb1)
    qed
    also have "\<dots> < base ^ (n - 1) * (unat (v1 ! (n - 1)) + 1)"
      using val_less [of "take (n - 1) v1"] v1(2) by (simp add: min_absorb1)
    finally have "unat (v ! (n - 1)) * 2 ^ s < unat (v1 ! (n - 1)) + 1" by (simp only: mult_less_cancel1)
    then show ?thesis using s(3) by linarith
  qed
  have start: "val (drop (m + 1) us) < val v1"
  proof -
    have "val us < base ^ (m + n) * 2 ^ s" unfolding us(2) using val_less [of u] n(3) by simp
    also have "\<dots> = base ^ (m + 1) * (base ^ (n - 1) * 2 ^ s)"
    proof -
      have "m + n = (m + 1) + (n - 1)" using n(1) by simp
      then show ?thesis by (simp only: power_add mult.assoc)
    qed
    finally have "val (drop (m + 1) us) < base ^ (n - 1) * 2 ^ s"
      unfolding val_drop by (simp add: less_mult_imp_div_less mult.commute)
    also have "\<dots> \<le> val v1"
    proof -
      have "base ^ (n - 1) * 1 \<le> base ^ (n - 1) * unat (v ! (n - 1))" using vt by (intro mult_le_mono2) (simp add: Suc_le_eq unat_gt_0)
      then have "base ^ (n - 1) \<le> val v" using vs(1) by linarith
      then show ?thesis unfolding v1(3) by (rule mult_le_mono1)
    qed
    finally show ?thesis .
  qed
  obtain u' q' where r: "divLarge_loop (m + 1) us (replicate (m + 1) 0) v1 = Inr (u', q')" "length u' = length us"
      "length q' = m + 1" "val u' < val v1" "val us = val (take (m + 1) q') * val v1 + val u'"
    using divLarge_loop_correct [OF v1(2) n(1) top, of "m + 1" us "replicate (m + 1) 0"] us(1) start by auto
  obtain x y where x: "shrVU u' u' s = Inr (x, y)" "length x = length u'" "val x = val u' div 2 ^ s"
    using shrVU_correct [OF order_refl s(1), of u'] by auto
  have e: "val u * 2 ^ s = (val q' * val v) * 2 ^ s + val u'" using r(3,5) us(2) v1(3) by (simp add: algebra_simps)
  have "2 ^ s dvd (val q' * val v) * 2 ^ s + val u'" unfolding e [symmetric] by simp
  then have "2 ^ s dvd val u'" by (simp only: dvd_add_right_iff dvd_triv_right)
  then obtain k where k: "val u' = 2 ^ s * k" ..
  have "val u * 2 ^ s = (val q' * val v + k) * 2 ^ s" using e unfolding k by (simp add: algebra_simps)
  then have uk: "val u = val q' * val v + k" by simp
  have "k < val v" using r(4) unfolding k v1(3) by (simp add: mult.commute)
  then have res: "val u div val v = val q'" "val u mod val v = k" unfolding uk by simp_all
  have "nat_divLarge u v = Inr (norm q', norm x)"
  proof -
    have "take (length u) (replicate (length u + 1) 0) = (replicate (length u) 0 :: natural)" by (simp only: take_replicate) simp
    then show ?thesis
      unfolding nat_divLarge_def Let_def n_def [symmetric] m_def [symmetric] s_def [symmetric]
      by (simp only: v1(1) w(1) us_def [symmetric] r(1) x(1) bindE.simps prod.case)
  qed
  moreover have "val x = k" using x(3) unfolding k by simp
  ultimately show ?thesis by (simp add: norm_digits res)
qed

lemma nat_div_digits:
  assumes "normal u" "normal v" "v \<noteq> []"
  shows "nat_div u v = Inr (digits (val u div val v), digits (val u mod val v))"
proof -
  consider "val u < val v" | "val v \<le> val u" "length v = 1" | "val v \<le> val u" "2 \<le> length v"
    using assms(3) by (cases v; cases "tl v") (auto, linarith+)
  then show ?thesis
  proof cases
    case 1
    then show ?thesis using assms by (simp add: nat_div_def nat_cmp_val digits_val)
  next
    case 2
    then obtain w where w: "v = [w]" by (cases v) auto
    then have "w \<noteq> 0" using assms(2) by (simp add: normal_def)
    moreover have "unat (word_of_nat (val u mod unat w) :: Word) = val u mod unat w"
    proof -
      have "val u mod unat w < unat w" using \<open>w \<noteq> 0\<close> by (simp add: unat_gt_0)
      then have "val u mod unat w < base" using unat_base [of w] by linarith
      then show ?thesis by (simp add: unat_of_nat base_def)
    qed
    ultimately show ?thesis using 2 assms w nat_divW_digits [OF assms(1), of w]
      by (simp add: nat_div_def nat_cmp_val setWord_digits)
  next
    case 3
    have "length v \<le> length u" using val_shorter [OF assms(2), of u] 3 by (metis leD not_le_imp_less)
    then show ?thesis using 3 assms nat_divLarge_digits [of v u] by (simp add: nat_div_def nat_cmp_val)
  qed
qed

section \<open>Division\<close>

text \<open>C6: \<open>div\<close> returns the quotient and the remainder of the two numbers, for operands of any length (one
  word, or Knuth's algorithm D with its estimate, correction and add-back steps), and panics on a zero divisor
  only.\<close>

theorem div_exact:
  assumes "normal u" "normal v"
  shows "nat_div u v = (if v = [] then Inl (PanicMsg ''division by zero'')
    else Inr (digits (val u div val v), digits (val u mod val v)))"
  using nat_div_digits [OF assms] by (simp add: nat_div_def)

lemma div_exact_witness:
  "nat_div [7, 0, 1] [0, 1] = Inr ([0, 1], [7]) \<and> nat_div [7] [] = Inl (PanicMsg ''division by zero'')"
proof -
  have n: "normal [7, 0, 1 :: Word]" "normal [0, 1 :: Word]" "normal [7 :: Word]" "normal ([] :: Word list)"
    by (simp_all add: normal_def)
  have "val [7, 0, 1 :: Word] div val [0, 1 :: Word] = val [0, 1 :: Word]" "val [7, 0, 1 :: Word] mod val [0, 1 :: Word] = val [7 :: Word]"
    by (simp_all add: base_num)
  then have "nat_div [7, 0, 1] [0, 1] = Inr (digits (val [0, 1]), digits (val [7]))"
    using div_exact [OF n(1,2)] by (simp del: val.simps)
  then show ?thesis using div_exact [OF n(3,4)] unfolding digits_val [OF n(2)] digits_val [OF n(3)] by (simp del: val.simps)
qed

end
