(* ===== verification/Go_NatExp.thy ===== *)
theory Go_NatExp
  imports Go_NatDiv
begin

unbundle bit_operations_syntax

text \<open>
  Package math/big, nat.go: powers, by the bits of the exponent (\<open>expNN\<close>) or by windows of four bits
  (\<open>expNNWindowed\<close>), reduced modulo \<open>m\<close> unless \<open>m\<close> is empty. The variables \<open>zz\<close>, \<open>r\<close> and \<open>q\<close> that the
  code exchanges with \<open>z\<close> only save allocations and are left out.
\<close>

section \<open>The code\<close>

definition top_mask :: Word where
  "top_mask = push_bit 63 1"

fun expNN_bits :: "nat \<Rightarrow> Word \<Rightarrow> natural \<Rightarrow> natural \<Rightarrow> natural \<Rightarrow> panic + natural" where
  "expNN_bits 0 v z x m = Inr z"
| "expNN_bits (Suc k) v z x m =
     bindE (nat_mul z z) (\<lambda>z.
     bindE (if v AND top_mask \<noteq> 0 then nat_mul z x else Inr z) (\<lambda>z.
     bindE (if length m \<noteq> 0 then bindE (nat_div z m) (\<lambda>(q, z). Inr z) else Inr z) (\<lambda>z.
     expNN_bits k (push_bit 1 v) z x m)))"

fun expNN_words :: "nat \<Rightarrow> natural \<Rightarrow> natural \<Rightarrow> natural \<Rightarrow> natural \<Rightarrow> panic + natural" where
  "expNN_words 0 y z x m = Inr z"
| "expNN_words (Suc i) y z x m = bindE (expNN_bits 64 (y ! i) z x m) (\<lambda>z. expNN_words i y z x m)"

definition mulmod :: "natural \<Rightarrow> natural \<Rightarrow> natural \<Rightarrow> panic + natural" where
  "mulmod a b m = bindE (nat_mul a b) (\<lambda>z. bindE (nat_div z m) (\<lambda>(q, r). Inr r))"

text \<open>\<open>powers[i]\<close> for \<open>i\<close> up to 15, two per round.\<close>

function exp_powers :: "natural list \<Rightarrow> nat \<Rightarrow> natural \<Rightarrow> natural \<Rightarrow> panic + natural list" where
  "exp_powers powers i x m =
     (if i < 16
      then bindE (mulmod (powers ! (i div 2)) (powers ! (i div 2)) m) (\<lambda>p.
        bindE (mulmod p x m) (\<lambda>p1. exp_powers (powers[i := p, i + 1 := p1]) (i + 2) x m))
      else Inr powers)"
  by pat_completeness auto

termination
  by (relation "measure (\<lambda>(powers, i, x, m). 16 - i)") auto

function exp_window_word :: "nat \<Rightarrow> bool \<Rightarrow> Word \<Rightarrow> natural \<Rightarrow> natural list \<Rightarrow> natural \<Rightarrow> panic + natural" where
  "exp_window_word j first yi z powers m =
     (if j < 64
      then
        bindE
          (if \<not> first \<or> j \<noteq> 0
           then bindE (mulmod z z m) (\<lambda>z. bindE (mulmod z z m) (\<lambda>z. bindE (mulmod z z m) (\<lambda>z. mulmod z z m)))
           else Inr z) (\<lambda>z.
        bindE (mulmod z (powers ! unat (drop_bit 60 yi)) m) (\<lambda>z.
        exp_window_word (j + 4) first (push_bit 4 yi) z powers m))
      else Inr z)"
  by pat_completeness auto

termination
  by (relation "measure (\<lambda>(j, first, yi, z, powers, m). 64 - j)") auto

declare exp_powers.simps [simp del] exp_window_word.simps [simp del]

fun exp_window_words :: "nat \<Rightarrow> natural \<Rightarrow> natural \<Rightarrow> natural list \<Rightarrow> natural \<Rightarrow> panic + natural" where
  "exp_window_words 0 y z powers m = Inr z"
| "exp_window_words (Suc i) y z powers m =
     bindE (exp_window_word 0 (i = length y - 1) (y ! i) z powers m) (\<lambda>z. exp_window_words i y z powers m)"

definition nat_expNNWindowed :: "natural \<Rightarrow> natural \<Rightarrow> natural \<Rightarrow> panic + natural" where
  "nat_expNNWindowed x y m =
     bindE (exp_powers ((replicate 16 [])[0 := natOne, 1 := x]) 2 x m) (\<lambda>powers.
     bindE (exp_window_words (length y) y (setWord 1) powers m) (\<lambda>z. Inr (norm z)))"

definition expNN_loops :: "natural \<Rightarrow> natural \<Rightarrow> natural \<Rightarrow> panic + natural" where
  "expNN_loops x y m =
     (let z = x in
      if length x > 1 \<and> length y > 1 \<and> length m > 0 then nat_expNNWindowed x y m
      else let v = y ! (length y - 1);
               shift = leadingZeros v + 1;
               v = push_bit shift v;
               w = 64 - shift in
        bindE (expNN_bits w v z x m) (\<lambda>z.
        bindE (expNN_words (length y - 1) y z x m) (\<lambda>z. Inr (norm z))))"

text \<open>Whose words the receiver's slice shares: \<open>expNN\<close> drops the slice when it is that of the base or of the
  exponent, but not when it is that of the modulus, and the words it stores there overwrite those of the
  modulus when the capacity is large enough. \<open>stored\<close> gives the words of the modulus after a store.\<close>

datatype storage = Separate | With_x | With_y | With_m nat

fun stored :: "storage \<Rightarrow> natural \<Rightarrow> natural \<Rightarrow> natural" where
  "stored (With_m c) w m = (if length w \<le> c then take (length m) (w @ drop (length w) m) else m)"
| "stored _ w m = m"

fun reused :: "storage \<Rightarrow> natural \<Rightarrow> natural \<Rightarrow> bool" where
  "reused (With_m c) x m = (length m \<noteq> 0 \<and> 0 < length x \<and> length x \<le> c)"
| "reused _ x m = False"

text \<open>The result, and the words of \<open>m\<close> that the caller still holds. \<open>None\<close> stands for the runs that square and
  reduce while \<open>z\<close> takes turns with \<open>zz\<close>, \<open>q\<close> and \<open>r\<close> in the memory of the modulus: each product overwrites the
  modulus again, and the model does not follow them.\<close>

definition nat_expNN :: "storage \<Rightarrow> natural \<Rightarrow> natural \<Rightarrow> natural \<Rightarrow> panic + (natural \<times> natural) option" where
  "nat_expNN z x y m =
     (let z = (if z = With_x \<or> z = With_y then Separate else z) in
      if length m = 1 \<and> m ! 0 = 1 then Inr (Some (setWord 0, m))
      else if length y = 0 then Inr (Some (setWord 1, stored z (setWord 1) m))
      else
        let shared = reused z x m; m = stored z x m in
        if shared \<and> y \<noteq> [1] then Inr None
        else bindE (expNN_loops x y m) (\<lambda>z. Inr (Some (z, m))))"

section \<open>Powers by bits\<close>

text \<open>\<open>red m n\<close>: the value of \<open>n\<close> modulo \<open>m\<close>, with no modulus when \<open>m\<close> is empty.\<close>

definition red :: "natural \<Rightarrow> nat \<Rightarrow> nat" where
  "red m n = (if m = [] then n else n mod val m)"

lemma red_mult: "red m (red m a * red m b) = red m (a * b)"
  by (simp add: red_def mod_mult_eq)

lemma red_red [simp]: "red m (red m a) = red m a"
  by (simp add: red_def)

lemma red_pow: "red m (red m a ^ k) = red m (a ^ k)"
  by (simp add: red_def power_mod)

lemma red_mult_left: "red m (red m a * b) = red m (a * b)"
  by (simp add: red_def mod_mult_left_eq)

lemma red_mult_right: "red m (a * red m b) = red m (a * b)"
  by (simp add: red_def mod_mult_right_eq)

lemma top_mask_test: "v AND top_mask \<noteq> 0 \<longleftrightarrow> bit v 63"
proof -
  have "bit (v AND top_mask) k \<longleftrightarrow> k = 63 \<and> bit v 63" for k
    unfolding top_mask_def bit_and_iff bit_push_1 by auto
  then show ?thesis by (metis bit_0_eq bit_eqI bot_apply bot_bool_def)
qed

lemma top_bits_shift:
  assumes "k < 64"
  shows "unat v div 2 ^ (64 - Suc k) = (if bit v 63 then 2 ^ k else 0) + unat (push_bit 1 v :: Word) div 2 ^ (64 - k)"
proof -
  define b :: nat where "b = (if bit v 63 then 1 else 0)"
  define r where "r = unat v mod 2 ^ 63"
  have v: "unat v = 2 ^ 63 * b + r"
  proof -
    have "unat v = 2 ^ 63 * (unat v div 2 ^ 63) + r" by (simp add: r_def)
    moreover have "unat v div 2 ^ 63 = b"
      using drop63 [of v] unfolding unat_drop b_def by simp
    ultimately show ?thesis by simp
  qed
  have r: "r < 2 ^ 63" by (simp add: r_def)
  have p: "unat (push_bit 1 v :: Word) = 2 * r"
  proof -
    have "unat (push_bit 1 v :: Word) = (base * b + 2 * r) mod base" unfolding push_unat v by (simp add: base_num algebra_simps)
    also have "\<dots> = 2 * r" using r by (simp add: base_num)
    finally show ?thesis .
  qed
  have e: "64 - k = Suc (64 - Suc k)" "63 = k + (64 - Suc k)" using assms by simp_all
  have "unat v div 2 ^ (64 - Suc k) = (2 ^ k * b * 2 ^ (64 - Suc k) + r) div 2 ^ (64 - Suc k)"
    unfolding v by (subst e(2)) (simp add: power_add ac_simps)
  also have "\<dots> = 2 ^ k * b + r div 2 ^ (64 - Suc k)" by simp
  also have "r div 2 ^ (64 - Suc k) = unat (push_bit 1 v :: Word) div 2 ^ (64 - k)"
    unfolding p e(1) by simp
  finally show ?thesis by (simp add: b_def)
qed

lemma nat_mul_value: "normal x \<Longrightarrow> normal y \<Longrightarrow> \<exists>z. nat_mul x y = Inr z \<and> normal z \<and> val z = val x * val y"
  by (simp add: nat_mul_digits)

lemma reduce_value:
  assumes "normal z" "normal m"
  shows "\<exists>w. (if length m \<noteq> 0 then bindE (nat_div z m) (\<lambda>(q, z). Inr z) else Inr z) = Inr w \<and> normal w \<and> val w = red m (val z)"
  using nat_div_digits [OF assms] assms(1) by (auto simp: red_def)

lemma expNN_bits_correct:
  assumes m: "normal m" and x: "normal x"
  shows "k \<le> 64 \<Longrightarrow> normal z \<Longrightarrow> \<exists>w. expNN_bits k v z x m = Inr w \<and> normal w \<and>
     red m (val w) = red m (val z ^ (2 ^ k) * val x ^ (unat v div 2 ^ (64 - k))) \<and> (0 < k \<longrightarrow> red m (val w) = val w) \<and> (k = 0 \<longrightarrow> w = z)"
proof (induction k arbitrary: v z)
  case 0
  have "unat v div 2 ^ 64 = 0" using unat_base [of v] by (simp add: base_num)
  then show ?case using 0 by simp
next
  case (Suc k)
  obtain z1 where z1: "nat_mul z z = Inr z1" "normal z1" "val z1 = val z * val z" using nat_mul_value Suc.prems(2) by blast
  define e :: nat where "e = (if bit v 63 then 1 else 0)"
  obtain z2 where z2: "(if v AND top_mask \<noteq> 0 then nat_mul z1 x else Inr z1) = Inr z2" "normal z2" "val z2 = val z * val z * val x ^ e"
  proof (cases "bit v 63")
    case True
    then show thesis using nat_mul_value [OF z1(2) x] z1(3) that by (auto simp: top_mask_test e_def)
  qed (use z1 that in \<open>auto simp: top_mask_test e_def\<close>)
  obtain z3 where z3: "(if length m \<noteq> 0 then bindE (nat_div z2 m) (\<lambda>(q, z). Inr z) else Inr z2) = Inr z3" "normal z3"
      "val z3 = red m (val z * val z * val x ^ e)"
    using reduce_value [OF z2(2) m] z2(3) by auto
  obtain w where w: "expNN_bits k (push_bit 1 v) z3 x m = Inr w" "normal w"
      "red m (val w) = red m (val z3 ^ (2 ^ k) * val x ^ (unat (push_bit 1 v :: Word) div 2 ^ (64 - k)))"
      "0 < k \<longrightarrow> red m (val w) = val w" "k = 0 \<longrightarrow> w = z3"
    using Suc.IH [of z3 "push_bit 1 v"] Suc.prems z3(2) by auto
  have r: "expNN_bits (Suc k) v z x m = Inr w" using z1(1) z2(1) z3(1) w(1) by simp
  have "red m (val w) = red m (red m (val z3 ^ (2 ^ k)) * val x ^ (unat (push_bit 1 v :: Word) div 2 ^ (64 - k)))"
    unfolding w(3) by (simp add: red_mult_left)
  also have "\<dots> = red m ((val z * val z * val x ^ e) ^ (2 ^ k) * val x ^ (unat (push_bit 1 v :: Word) div 2 ^ (64 - k)))"
    unfolding z3(3) red_pow by (simp add: red_mult_left)
  also have "(val z * val z * val x ^ e) ^ (2 ^ k) * val x ^ (unat (push_bit 1 v :: Word) div 2 ^ (64 - k)) =
      val z ^ (2 ^ Suc k) * val x ^ (unat v div 2 ^ (64 - Suc k))"
  proof -
    have "(val z * val z) ^ (2 ^ k) = val z ^ (2 ^ Suc k)" by (simp add: power_mult power2_eq_square)
    moreover have "(val x ^ e) ^ (2 ^ k) = val x ^ (if bit v 63 then 2 ^ k else 0)" by (simp add: e_def)
    ultimately show ?thesis using Suc.prems(1) top_bits_shift [of k v] by (simp add: power_mult_distrib power_add)
  qed
  finally have "red m (val w) = red m (val z ^ (2 ^ Suc k) * val x ^ (unat v div 2 ^ (64 - Suc k)))" .
  moreover have "red m (val w) = val w" using w(4,5) z3(3) by (cases "k = 0") auto
  ultimately show ?case using r w(2) by blast
qed

lemma power_word_step:
  fixes z x :: nat
  assumes "b = a + base ^ i * u"
  shows "(z ^ base * x ^ u) ^ (base ^ i) * x ^ a = z ^ (base ^ Suc i) * x ^ b"
  unfolding assms power_mult_distrib power_mult [symmetric] power_add power_Suc by (simp add: ac_simps)

lemma expNN_words_correct:
  assumes m: "normal m" and x: "normal x"
  shows "i \<le> length y \<Longrightarrow> normal z \<Longrightarrow> \<exists>w. expNN_words i y z x m = Inr w \<and> normal w \<and>
     red m (val w) = red m (val z ^ (base ^ i) * val x ^ val (take i y)) \<and> (0 < i \<longrightarrow> red m (val w) = val w) \<and> (i = 0 \<longrightarrow> w = z)"
proof (induction i arbitrary: z)
  case (Suc i)
  obtain z1 where z1: "expNN_bits 64 (y ! i) z x m = Inr z1" "normal z1"
      "red m (val z1) = red m (val z ^ (2 ^ 64) * val x ^ (unat (y ! i) div 2 ^ (64 - 64)))" "red m (val z1) = val z1"
    using expNN_bits_correct [OF m x order_refl Suc.prems(2), of "y ! i"] by auto
  obtain w where w: "expNN_words i y z1 x m = Inr w" "normal w"
      "red m (val w) = red m (val z1 ^ (base ^ i) * val x ^ val (take i y))" "0 < i \<longrightarrow> red m (val w) = val w" "i = 0 \<longrightarrow> w = z1"
    using Suc.IH [OF _ z1(2)] Suc.prems(1) by auto
  have t: "val (take (Suc i) y) = val (take i y) + base ^ i * unat (y ! i)"
    using Suc.prems(1) by (simp add: take_Suc_conv_app_nth val_append)
  have "red m (val w) = red m (red m (red m (val z1) ^ (base ^ i)) * val x ^ val (take i y))"
    unfolding w(3) red_pow red_mult_left ..
  also have "\<dots> = red m ((val z ^ base * val x ^ unat (y ! i)) ^ (base ^ i) * val x ^ val (take i y))"
    unfolding z1(3) red_pow red_mult_left by (simp add: base_def)
  also have "(val z ^ base * val x ^ unat (y ! i)) ^ (base ^ i) * val x ^ val (take i y) =
      val z ^ (base ^ Suc i) * val x ^ val (take (Suc i) y)"
    by (rule power_word_step [OF t])
  finally have "red m (val w) = red m (val z ^ (base ^ Suc i) * val x ^ val (take (Suc i) y))" .
  moreover have "red m (val w) = val w" using w(4,5) z1(4) by (cases "i = 0") auto
  ultimately show ?case using z1(1) w(1,2) by simp
qed simp

section \<open>Powers by windows\<close>

lemma mulmod_value:
  assumes "normal a" "normal b" "normal m" "m \<noteq> []"
  shows "\<exists>z. mulmod a b m = Inr z \<and> normal z \<and> val z = red m (val a * val b)"
  using nat_div_digits [OF normal_digits assms(3,4), of "val a * val b"] assms
  by (simp add: mulmod_def nat_mul_digits red_def)

text \<open>The table holds the powers of \<open>x\<close> below \<open>i\<close>, up to the modulus.\<close>

definition powers_ok :: "natural list \<Rightarrow> nat \<Rightarrow> natural \<Rightarrow> natural \<Rightarrow> bool" where
  "powers_ok powers i x m \<longleftrightarrow> length powers = 16 \<and>
     (\<forall>j < i. normal (powers ! j) \<and> red m (val (powers ! j)) = red m (val x ^ j))"

lemma exp_powers_step:
  assumes m: "normal m" "m \<noteq> []" and x: "normal x" and ok: "powers_ok powers i x m" and i: "even i" "2 \<le> i" "i < 16"
  shows "\<exists>p p1. mulmod (powers ! (i div 2)) (powers ! (i div 2)) m = Inr p \<and> mulmod p x m = Inr p1 \<and>
    powers_ok (powers[i := p, i + 1 := p1]) (i + 2) x m"
proof -
  have i2: "i div 2 < i" "i div 2 + i div 2 = i" "i + 1 < 16" using i by presburger+
  have h: "normal (powers ! (i div 2))" "red m (val (powers ! (i div 2))) = red m (val x ^ (i div 2))"
    using ok i2(1) by (simp_all add: powers_ok_def)
  obtain p where p: "mulmod (powers ! (i div 2)) (powers ! (i div 2)) m = Inr p" "normal p"
      "val p = red m (val (powers ! (i div 2)) * val (powers ! (i div 2)))"
    using mulmod_value [OF h(1) h(1) m] by blast
  obtain p1 where p1: "mulmod p x m = Inr p1" "normal p1" "val p1 = red m (val p * val x)"
    using mulmod_value [OF p(2) x m] by blast
  have vp: "red m (val p) = red m (val x ^ i)"
  proof -
    have "red m (val p) = red m (red m (val (powers ! (i div 2))) * red m (val (powers ! (i div 2))))"
      unfolding p(3) red_mult by simp
    also have "\<dots> = red m (val x ^ (i div 2 + i div 2))" unfolding h(2) red_mult power_add ..
    finally show ?thesis unfolding i2(2) .
  qed
  have vp1: "red m (val p1) = red m (val x ^ (i + 1))"
  proof -
    have "red m (val p1) = red m (red m (val p) * val x)" unfolding p1(3) red_mult_left by simp
    also have "\<dots> = red m (val x ^ (i + 1))" unfolding vp red_mult_left by (simp add: mult.commute)
    finally show ?thesis .
  qed
  have l: "length powers = 16" using ok by (simp add: powers_ok_def)
  have "powers_ok (powers[i := p, i + 1 := p1]) (i + 2) x m"
    unfolding powers_ok_def
  proof (intro conjI allI impI)
    fix j
    assume "j < i + 2"
    then consider "j < i" | "j = i" | "j = i + 1" by linarith
    then have "normal (powers[i := p, i + 1 := p1] ! j) \<and> red m (val (powers[i := p, i + 1 := p1] ! j)) = red m (val x ^ j)"
    proof cases
      case 1
      then show ?thesis using ok by (simp add: powers_ok_def)
    qed (use l i2(3) vp vp1 p(2) p1(2) in simp_all)
    then show "normal (powers[i := p, i + 1 := p1] ! j)" "red m (val (powers[i := p, i + 1 := p1] ! j)) = red m (val x ^ j)"
      by simp_all
  qed (simp add: l)
  then show ?thesis using p(1) p1(1) by blast
qed

lemma exp_powers_correct:
  assumes m: "normal m" "m \<noteq> []" and x: "normal x"
  shows "even i \<Longrightarrow> 2 \<le> i \<Longrightarrow> i \<le> 16 \<Longrightarrow> powers_ok powers i x m \<Longrightarrow> \<exists>p. exp_powers powers i x m = Inr p \<and> powers_ok p 16 x m"
proof (induction "16 - i" arbitrary: i powers rule: less_induct)
  case less
  show ?case
  proof (cases "i < 16")
    case True
    obtain p p1 where p: "mulmod (powers ! (i div 2)) (powers ! (i div 2)) m = Inr p" "mulmod p x m = Inr p1"
        "powers_ok (powers[i := p, i + 1 := p1]) (i + 2) x m"
      using exp_powers_step [OF m x less.prems(4,1,2) True] by blast
    have "i + 2 \<le> 16" using less.prems(1) True by presburger
    then obtain q where "exp_powers (powers[i := p, i + 1 := p1]) (i + 2) x m = Inr q" "powers_ok q 16 x m"
    proof -
      have "16 - (i + 2) < 16 - i" "even (i + 2)" "2 \<le> i + 2" using True less.prems(1) by simp_all
      then show thesis using less.hyps [OF _ _ _ \<open>i + 2 \<le> 16\<close> p(3)] that by blast
    qed
    then show ?thesis using True p(1,2) by (subst exp_powers.simps) simp
  next
    case False
    then show ?thesis using less.prems by (subst exp_powers.simps) simp
  qed
qed

lemma window_bits:
  assumes "j \<le> 60"
  shows "unat yi div 2 ^ j = (unat yi div 2 ^ 60) * 2 ^ (60 - j) + unat (push_bit 4 yi :: Word) div 2 ^ (j + 4)"
proof -
  define d r where "d = unat yi div 2 ^ 60" and "r = unat yi mod 2 ^ 60"
  have y: "unat yi = d * 2 ^ 60 + r" by (simp add: d_def r_def)
  have p: "unat (push_bit 4 yi :: Word) = 16 * r"
  proof -
    have "r < 2 ^ 60" by (simp add: r_def)
    moreover have "unat (push_bit 4 yi :: Word) = (base * d + 16 * r) mod base"
      unfolding push_unat y by (simp add: base_num algebra_simps)
    ultimately show ?thesis by (simp add: base_num)
  qed
  have "(2 :: nat) ^ 60 = 2 ^ (60 - j) * 2 ^ j" using assms by (simp flip: power_add)
  then have "unat yi = (d * 2 ^ (60 - j)) * 2 ^ j + r" unfolding y by (simp only: mult.assoc)
  then have "unat yi div 2 ^ j = d * 2 ^ (60 - j) + r div 2 ^ j" by simp
  also have "r div 2 ^ j = unat (push_bit 4 yi :: Word) div 2 ^ (j + 4)"
    unfolding p by (simp add: power_add)
  finally show ?thesis unfolding d_def .
qed

lemma sqmod4_value:
  assumes "normal z" "normal m" "m \<noteq> []"
  shows "\<exists>w. bindE (mulmod z z m) (\<lambda>z. bindE (mulmod z z m) (\<lambda>z. bindE (mulmod z z m) (\<lambda>z. mulmod z z m))) = Inr w \<and>
    normal w \<and> red m (val w) = red m (val z ^ 16)"
proof -
  have sq: "\<exists>w. mulmod a a m = Inr w \<and> normal w \<and> red m (val w) = red m (n ^ (2 * k))"
    if "normal a" "red m (val a) = red m (n ^ k)" for a n k
  proof -
    note a = that
    obtain w where w: "mulmod a a m = Inr w" "normal w" "val w = red m (val a * val a)"
      using mulmod_value [OF a(1) a(1) assms(2,3)] by blast
    have "red m (val w) = red m (red m (val a) * red m (val a))" unfolding w(3) red_mult by simp
    also have "\<dots> = red m (n ^ (2 * k))" unfolding a(2) red_mult by (simp add: mult_2 power_add)
    finally show ?thesis using w(1,2) by blast
  qed
  obtain a where a: "mulmod z z m = Inr a" "normal a" "red m (val a) = red m (val z ^ 2)"
    using sq [OF assms(1), of "val z" 1] by auto
  obtain b where b: "mulmod a a m = Inr b" "normal b" "red m (val b) = red m (val z ^ 4)"
    using sq [OF a(2,3)] by auto
  obtain c where c: "mulmod b b m = Inr c" "normal c" "red m (val c) = red m (val z ^ 8)"
    using sq [OF b(2,3)] by auto
  obtain d where "mulmod c c m = Inr d" "normal d" "red m (val d) = red m (val z ^ 16)"
    using sq [OF c(2,3)] by auto
  then show ?thesis using a(1) b(1) c(1) by simp
qed

lemma exp_window_word_correct:
  assumes m: "normal m" "m \<noteq> []" and ok: "powers_ok powers 16 x m"
  shows "4 dvd j \<Longrightarrow> j \<le> 64 \<Longrightarrow> normal z \<Longrightarrow> (first \<and> j = 0 \<longrightarrow> val z = 1) \<Longrightarrow>
    \<exists>w. exp_window_word j first yi z powers m = Inr w \<and> normal w \<and>
      red m (val w) = red m (val z ^ (2 ^ (64 - j)) * val x ^ (unat yi div 2 ^ j)) \<and>
      (j < 64 \<longrightarrow> red m (val w) = val w) \<and> (\<not> j < 64 \<longrightarrow> w = z)"
proof (induction "64 - j" arbitrary: j yi z rule: less_induct)
  case less
  show ?case
  proof (cases "j < 64")
    case False
    then have "j = 64" using less.prems(2) by simp
    moreover have "unat yi div 2 ^ 64 = 0" using unat_base [of yi] by (simp add: base_num)
    ultimately show ?thesis using less.prems by (subst exp_window_word.simps) simp
  next
    case True
    then have j: "j \<le> 60" "j + 4 \<le> 64" "4 dvd j + 4" using less.prems(1) by presburger+
    obtain z1 where z1: "(if \<not> first \<or> j \<noteq> 0
          then bindE (mulmod z z m) (\<lambda>z. bindE (mulmod z z m) (\<lambda>z. bindE (mulmod z z m) (\<lambda>z. mulmod z z m)))
          else Inr z) = Inr z1" "normal z1" "red m (val z1) = red m (val z ^ 16)"
    proof (cases "first \<and> j = 0")
      case True
      then show thesis using that [of z] less.prems(3,4) by simp
    next
      case False
      then show thesis using sqmod4_value [OF less.prems(3) m] that by auto
    qed
    define d where "d = unat yi div 2 ^ 60"
    have du: "unat (drop_bit 60 yi) = d" unfolding d_def by (rule unat_drop)
    have d16: "d < 16" unfolding d_def using unat_base [of yi] by (simp add: base_num less_mult_imp_div_less)
    have pd: "normal (powers ! d)" "red m (val (powers ! d)) = red m (val x ^ d)"
      using ok d16 by (simp_all add: powers_ok_def)
    obtain z2 where z2: "mulmod z1 (powers ! d) m = Inr z2" "normal z2" "val z2 = red m (val z1 * val (powers ! d))"
      using mulmod_value [OF z1(2) pd(1) m] by blast
    have v2: "red m (val z2) = red m (val z ^ 16 * val x ^ d)"
    proof -
      have "red m (val z2) = red m (red m (val z1) * red m (val (powers ! d)))" unfolding z2(3) red_mult by simp
      then show ?thesis unfolding z1(3) pd(2) red_mult .
    qed
    obtain w where w: "exp_window_word (j + 4) first (push_bit 4 yi) z2 powers m = Inr w" "normal w"
        "red m (val w) = red m (val z2 ^ (2 ^ (64 - (j + 4))) * val x ^ (unat (push_bit 4 yi :: Word) div 2 ^ (j + 4)))"
        "j + 4 < 64 \<longrightarrow> red m (val w) = val w" "\<not> j + 4 < 64 \<longrightarrow> w = z2"
    proof -
      have "64 - (j + 4) < 64 - j" "first \<and> j + 4 = 0 \<longrightarrow> val z2 = 1" using j(1) by simp_all
      then show thesis using less.hyps [OF _ j(3,2) z2(2)] that by blast
    qed
    have "red m (val w) = red m (red m (red m (val z2) ^ (2 ^ (60 - j))) * val x ^ (unat (push_bit 4 yi :: Word) div 2 ^ (j + 4)))"
      unfolding w(3) red_pow red_mult_left by simp
    also have "\<dots> = red m ((val z ^ 16 * val x ^ d) ^ (2 ^ (60 - j)) * val x ^ (unat (push_bit 4 yi :: Word) div 2 ^ (j + 4)))"
      unfolding v2 red_pow red_mult_left ..
    also have "(val z ^ 16 * val x ^ d) ^ (2 ^ (60 - j)) * val x ^ (unat (push_bit 4 yi :: Word) div 2 ^ (j + 4)) =
        val z ^ (2 ^ (64 - j)) * val x ^ (unat yi div 2 ^ j)"
    proof -
      have "16 * 2 ^ (60 - j) = (2 :: nat) ^ (64 - j)"
      proof -
        have "64 - j = 4 + (60 - j)" using j(1) by simp
        then show ?thesis by (simp only: power_add) simp
      qed
      then have "(val z ^ 16) ^ (2 ^ (60 - j)) = val z ^ (2 ^ (64 - j))" by (simp flip: power_mult)
      then show ?thesis
        unfolding window_bits [OF j(1), of yi] d_def [symmetric] power_mult_distrib power_add [of "val x"] power_mult
        by (simp only: mult.assoc)
    qed
    finally have "red m (val w) = red m (val z ^ (2 ^ (64 - j)) * val x ^ (unat yi div 2 ^ j))" .
    moreover have "red m (val w) = val w" using w(4,5) z2(3) by (cases "j + 4 < 64") auto
    moreover have "exp_window_word j first yi z powers m = Inr w"
      by (subst exp_window_word.simps) (simp only: True if_True z1(1) bindE.simps du z2(1) w(1))
    ultimately show ?thesis using w(2) True by blast
  qed
qed

lemma exp_window_words_correct:
  assumes m: "normal m" "m \<noteq> []" and ok: "powers_ok powers 16 x m"
  shows "i \<le> length y \<Longrightarrow> normal z \<Longrightarrow> (i = length y \<longrightarrow> val z = 1) \<Longrightarrow>
    \<exists>w. exp_window_words i y z powers m = Inr w \<and> normal w \<and>
      red m (val w) = red m (val z ^ (base ^ i) * val x ^ val (take i y)) \<and> (0 < i \<longrightarrow> red m (val w) = val w) \<and> (i = 0 \<longrightarrow> w = z)"
proof (induction i arbitrary: z)
  case (Suc i)
  obtain z1 where z1: "exp_window_word 0 (i = length y - 1) (y ! i) z powers m = Inr z1" "normal z1"
      "red m (val z1) = red m (val z ^ (2 ^ (64 - 0)) * val x ^ (unat (y ! i) div 2 ^ 0))" "red m (val z1) = val z1"
    using exp_window_word_correct [OF m ok, of 0 z "i = length y - 1" "y ! i"] Suc.prems by auto
  obtain w where w: "exp_window_words i y z1 powers m = Inr w" "normal w"
      "red m (val w) = red m (val z1 ^ (base ^ i) * val x ^ val (take i y))" "0 < i \<longrightarrow> red m (val w) = val w" "i = 0 \<longrightarrow> w = z1"
    using Suc.IH [OF _ z1(2)] Suc.prems(1) by auto
  have t: "val (take (Suc i) y) = val (take i y) + base ^ i * unat (y ! i)"
    using Suc.prems(1) by (simp add: take_Suc_conv_app_nth val_append)
  have "red m (val w) = red m (red m (red m (val z1) ^ (base ^ i)) * val x ^ val (take i y))"
    unfolding w(3) red_pow red_mult_left ..
  also have "\<dots> = red m ((val z ^ base * val x ^ unat (y ! i)) ^ (base ^ i) * val x ^ val (take i y))"
    unfolding z1(3) red_pow red_mult_left by (simp add: base_def)
  also have "(val z ^ base * val x ^ unat (y ! i)) ^ (base ^ i) * val x ^ val (take i y) =
      val z ^ (base ^ Suc i) * val x ^ val (take (Suc i) y)"
    by (rule power_word_step [OF t])
  finally have "red m (val w) = red m (val z ^ (base ^ Suc i) * val x ^ val (take (Suc i) y))" .
  moreover have "red m (val w) = val w" using w(4,5) z1(4) by (cases "i = 0") auto
  ultimately show ?case using z1(1) w(1,2) by simp
qed simp

section \<open>expNN\<close>

lemma nat_expNNWindowed_value:
  assumes "normal x" "normal y" "y \<noteq> []" "normal m" "m \<noteq> []"
  shows "nat_expNNWindowed x y m = Inr (digits (red m (val x ^ val y)))"
proof -
  have "powers_ok ((replicate 16 [])[0 := natOne, 1 := x]) 2 x m"
  proof -
    have "normal natOne" "val natOne = 1" by (simp_all add: natOne_def normal_def)
    then show ?thesis using assms(1) by (auto simp: powers_ok_def less_2_cases_iff)
  qed
  then obtain p where p: "exp_powers ((replicate 16 [])[0 := natOne, 1 := x]) 2 x m = Inr p" "powers_ok p 16 x m"
    using exp_powers_correct [OF assms(4,5,1), of 2] by auto
  have one: "normal (setWord 1)" "val (setWord 1) = 1" by (simp_all add: setWord_digits)
  obtain w where w: "exp_window_words (length y) y (setWord 1) p m = Inr w" "normal w"
      "red m (val w) = red m (val (setWord 1) ^ (base ^ length y) * val x ^ val (take (length y) y))"
      "0 < length y \<longrightarrow> red m (val w) = val w"
    using exp_window_words_correct [OF assms(4,5) p(2) order_refl one(1), of y] one(2) by auto
  have "val w = red m (val x ^ val y)" using w(3,4) assms(3) one(2) by simp
  then show ?thesis using p(1) w(1) by (simp add: nat_expNNWindowed_def digits_unfold)
qed

lemma expNN_loops_value:
  assumes "normal x" "normal y" "normal m" "y \<noteq> []"
  shows "expNN_loops x y m = Inr (if val y = 1 then x else digits (red m (val x ^ val y)))"
proof (cases "length x > 1 \<and> length y > 1 \<and> length m > 0")
  case True
  have "1 < val y"
  proof -
    have "base ^ 1 \<le> base ^ (length y - 1)" using True by (intro power_increasing) (auto simp: Suc_leI)
    also have "\<dots> \<le> val y" by (rule val_lower [OF assms(2,4)])
    finally show ?thesis using base_big by simp
  qed
  moreover have "m \<noteq> []" using True by auto
  then have "nat_expNNWindowed x y m = Inr (digits (red m (val x ^ val y)))"
    using nat_expNNWindowed_value [OF assms(1,2,4,3)] by simp
  moreover have "expNN_loops x y m = nat_expNNWindowed x y m"
    unfolding expNN_loops_def Let_def using True by simp
  ultimately show ?thesis by simp
next
  case False
  define n where "n = length y - 1"
  have y: "y = take n y @ [y ! n]" "n < length y" "length y = Suc n"
    using assms(4) by (simp_all add: n_def take_Suc_conv_app_nth [symmetric])
  define v where "v = y ! n"
  have v0: "v \<noteq> 0" using assms(2) assms(4) by (simp add: v_def normal_def last_conv_nth n_def)
  define lz where "lz = leadingZeros v"
  have lz: "lz < 64" "unat v * 2 ^ lz < base" "2 ^ 63 \<le> unat v * 2 ^ lz"
    using leadingZeros_shift [OF v0] by (simp_all add: lz_def)
  define w where "w = 64 - (lz + 1)"
  have lw: "lz + w = 63" using lz(1) by (simp add: w_def)
  have b63: "(2 :: nat) ^ 63 = 2 ^ w * 2 ^ lz" unfolding lw [symmetric] by (simp add: power_add)
  have vw: "2 ^ w \<le> unat v" "unat v < 2 * 2 ^ w"
  proof -
    show "2 ^ w \<le> unat v" using lz(3) unfolding b63 by simp
    have "base = 2 * (2 ^ w * 2 ^ lz)" unfolding b63 [symmetric] by (simp add: base_num)
    then have "unat v * 2 ^ lz < (2 * 2 ^ w) * 2 ^ lz" using lz(2) by (simp only: mult.assoc)
    then show "unat v < 2 * 2 ^ w" by (simp only: mult_less_cancel2)
  qed
  have sh: "unat (push_bit (lz + 1) v :: Word) div 2 ^ (64 - w) = unat v - 2 ^ w"
  proof -
    have "64 - w = lz + 1" using lw by simp
    have "base = 2 ^ w * 2 ^ (lz + 1)" using lw by (simp add: base_def flip: power_add)
    then have "unat (push_bit (lz + 1) v :: Word) = (unat v mod 2 ^ w) * 2 ^ (lz + 1)"
      unfolding push_unat by (simp only: mult_mod_left)
    moreover have "unat v mod 2 ^ w = unat v - 2 ^ w" using vw by (simp add: le_mod_geq)
    ultimately show ?thesis unfolding \<open>64 - w = lz + 1\<close> by simp
  qed
  obtain z1 where z1: "expNN_bits w (push_bit (lz + 1) v) x x m = Inr z1" "normal z1"
      "red m (val z1) = red m (val x ^ (2 ^ w) * val x ^ (unat v - 2 ^ w))" "0 < w \<longrightarrow> red m (val z1) = val z1" "w = 0 \<longrightarrow> z1 = x"
    using expNN_bits_correct [OF assms(3,1), of w x "push_bit (lz + 1) v"] assms(1) lw unfolding sh by auto
  have z1v: "red m (val z1) = red m (val x ^ unat v)" unfolding z1(3) using vw(1) by (simp flip: power_add)
  obtain z2 where z2: "expNN_words n y z1 x m = Inr z2" "normal z2"
      "red m (val z2) = red m (val z1 ^ (base ^ n) * val x ^ val (take n y))" "0 < n \<longrightarrow> red m (val z2) = val z2" "n = 0 \<longrightarrow> z2 = z1"
    using expNN_words_correct [OF assms(3,1), of n y z1] z1(2) y(2) by auto
  have vy: "val y = val (take n y) + base ^ n * unat v" by (subst y(1)) (simp add: val_append v_def y(3))
  have "red m (val z2) = red m (red m (red m (val z1) ^ (base ^ n)) * val x ^ val (take n y))"
    unfolding z2(3) red_pow red_mult_left ..
  also have "\<dots> = red m ((val x ^ unat v) ^ (base ^ n) * val x ^ val (take n y))" unfolding z1v red_pow red_mult_left ..
  also have "(val x ^ unat v) ^ (base ^ n) * val x ^ val (take n y) = val x ^ val y"
    unfolding vy power_mult [symmetric] power_add [symmetric] by (simp add: ac_simps)
  finally have res: "red m (val z2) = red m (val x ^ val y)" .
  have eq: "expNN_loops x y m = Inr (norm z2)"
  proof -
    have "length y - 1 = n" "y ! (length y - 1) = v" by (simp_all add: n_def v_def)
    moreover have "length y \<noteq> 0" using assms(4) by simp
    ultimately show ?thesis
      unfolding expNN_loops_def Let_def using False
      by (simp only: if_False lz_def [symmetric] w_def [symmetric] z1(1) z2(1) bindE.simps)
  qed
  show ?thesis
  proof (cases "val y = 1")
    case True
    have "n = 0"
    proof (rule ccontr)
      assume "n \<noteq> 0"
      then have "base ^ 1 \<le> base ^ n" by (intro power_increasing) (auto simp: Suc_leI)
      also have "\<dots> \<le> val y" using val_lower [OF assms(2) assms(4)] by (simp add: n_def)
      finally show False using True base_big by simp
    qed
    moreover have "w = 0"
    proof (rule ccontr)
      assume "w \<noteq> 0"
      then have "2 ^ 1 \<le> (2 :: nat) ^ w" by (intro power_increasing) auto
      then have "2 \<le> unat v" using vw(1) by simp
      then show False using True vy \<open>n = 0\<close> by simp
    qed
    ultimately have "z2 = x" using z1(5) z2(5) by simp
    then show ?thesis using True eq digits_val [OF assms(1)] by (simp add: norm_digits)
  next
    case False
    have "red m (val z2) = val z2"
    proof (cases "n = 0")
      case True
      then have "unat v \<noteq> 1" using False vy by simp
      then have "0 < w" using vw by (cases "w = 0") auto
      then show ?thesis using z1(4) z2(5) True by simp
    qed (use z2(4) in simp)
    then show ?thesis using False eq res by (simp add: digits_unfold)
  qed
qed

lemma length_one: "normal m \<Longrightarrow> length m = 1 \<and> m ! 0 = 1 \<longleftrightarrow> val m = 1"
proof
  assume "normal m" "val m = 1"
  then have "m = digits 1" using digits_val [of m] by simp
  moreover have "digits 1 = [1]" by (subst digits.simps) (simp add: div_less base_num)
  ultimately show "length m = 1 \<and> m ! 0 = 1" by simp
qed (auto simp: length_Suc_conv)

text \<open>What \<open>expNN\<close> returns when the modulus keeps its words while they are needed.\<close>

lemma nat_expNN_value:
  assumes "normal x" "normal y" "normal m" "\<not> reused z x m \<or> val m = 1 \<or> y = []"
  shows "\<exists>m'. nat_expNN z x y m = Inr (Some (if val y = 1 \<and> val m \<noteq> 1 then x else digits (red m (val x ^ val y)), m')) \<and>
    (y \<noteq> [] \<longrightarrow> m' = m)"
proof -
  define s where "s = (if z = With_x \<or> z = With_y then Separate else z)"
  have r: "reused s x m = reused z x m" by (cases z) (simp_all add: s_def)
  note len1 = length_one [OF assms(3)]
  have one: "digits 1 = setWord 1" by (simp add: setWord_digits)
  consider "val m = 1" | "val m \<noteq> 1" "y = []" | "val m \<noteq> 1" "y \<noteq> []" by blast
  then show ?thesis
  proof cases
    case 1
    then have "m \<noteq> []" by auto
    then have "red m (val x ^ val y) = 0" using 1 by (simp add: red_def)
    moreover have "nat_expNN z x y m = Inr (Some (setWord 0, m))" unfolding nat_expNN_def Let_def len1 using 1 by simp
    ultimately show ?thesis using 1 by (simp add: setWord_digits)
  next
    case 2
    have "red m 1 = 1"
    proof (cases "m = []")
      case False
      then have "val m \<noteq> 0" using val_zero [OF assms(3)] by blast
      then show ?thesis using 2(1) by (simp add: red_def)
    qed (simp add: red_def)
    moreover have "nat_expNN z x y m = Inr (Some (setWord 1, stored s (setWord 1) m))"
      unfolding nat_expNN_def Let_def len1 s_def using 2 by simp
    ultimately show ?thesis using 2 one by simp
  next
    case 3
    then have n: "\<not> reused s x m" using assms(4) r by simp
    then have st: "stored s x m = m" by (cases s) auto
    have "nat_expNN z x y m = bindE (expNN_loops x y m) (\<lambda>z. Inr (Some (z, m)))"
      unfolding nat_expNN_def Let_def len1 s_def [symmetric] st using 3 n by simp
    then show ?thesis unfolding expNN_loops_value [OF assms(1-3) 3(2)] using 3 by simp
  qed
qed

end
