(* ===== verification/Go_Int.thy ===== *)
theory Go_Int
  imports Go_NatExp Go_NatBytes "HOL-Library.Signed_Division"
begin

unbundle bit_operations_syntax

text \<open>
  Package math/big, int.go: signed integers as a sign and a magnitude, over the natural numbers of
  nat.go. A method \<open>z.Op(x, y)\<close> is a function of the values of \<open>x\<close> and \<open>y\<close> that returns the new
  value of \<open>z\<close>; where the code reads an operand after it has written \<open>z\<close>, the model has the possible
  aliases as an argument (\<open>binaryGCD\<close>).
\<close>

text \<open>The type \<open>Int\<close> of the code is called \<open>BigInt\<close>, its field \<open>abs\<close> is called \<open>mag\<close>.\<close>

record BigInt =
  neg :: bool
  mag :: natural

section \<open>Sign, sum, difference, product\<close>

definition intOne :: BigInt where
  "intOne = \<lparr>neg = False, mag = natOne\<rparr>"

definition Int_Sign :: "BigInt \<Rightarrow> int" where
  "Int_Sign x = (if length (mag x) = 0 then 0 else if neg x then -1 else 1)"

definition Int_SetInt64 :: "64 word \<Rightarrow> BigInt" where
  "Int_SetInt64 x =
     (let (ng, x) = (if sint x < 0 then (True, - x) else (False, x)) in \<lparr>neg = ng, mag = setUint64 x\<rparr>)"

definition Int_SetUint64 :: "64 word \<Rightarrow> BigInt" where
  "Int_SetUint64 x = \<lparr>neg = False, mag = setUint64 x\<rparr>"

definition Int_SetBits :: "natural \<Rightarrow> BigInt" where
  "Int_SetBits a = \<lparr>neg = False, mag = norm a\<rparr>"

definition Int_Abs :: "BigInt \<Rightarrow> BigInt" where
  "Int_Abs x = x\<lparr>neg := False\<rparr>"

definition Int_Neg :: "BigInt \<Rightarrow> BigInt" where
  "Int_Neg x = x\<lparr>neg := 0 < length (mag x) \<and> \<not> neg x\<rparr>"

text \<open>The last lines of most methods: 0 has no sign.\<close>

definition signed :: "bool \<Rightarrow> natural \<Rightarrow> BigInt" where
  "signed s z = \<lparr>neg = 0 < length z \<and> s, mag = z\<rparr>"

definition Int_Add :: "BigInt \<Rightarrow> BigInt \<Rightarrow> panic + BigInt" where
  "Int_Add x y =
     (if neg x = neg y then bindE (nat_add (mag x) (mag y)) (\<lambda>z. Inr (signed (neg x) z))
      else if nat_cmp (mag x) (mag y) \<ge> 0 then bindE (nat_sub (mag x) (mag y)) (\<lambda>z. Inr (signed (neg x) z))
      else bindE (nat_sub (mag y) (mag x)) (\<lambda>z. Inr (signed (\<not> neg x) z)))"

definition Int_Sub :: "BigInt \<Rightarrow> BigInt \<Rightarrow> panic + BigInt" where
  "Int_Sub x y =
     (if neg x \<noteq> neg y then bindE (nat_add (mag x) (mag y)) (\<lambda>z. Inr (signed (neg x) z))
      else if nat_cmp (mag x) (mag y) \<ge> 0 then bindE (nat_sub (mag x) (mag y)) (\<lambda>z. Inr (signed (neg x) z))
      else bindE (nat_sub (mag y) (mag x)) (\<lambda>z. Inr (signed (\<not> neg x) z)))"

definition Int_Mul :: "BigInt \<Rightarrow> BigInt \<Rightarrow> panic + BigInt" where
  "Int_Mul x y = bindE (nat_mul (mag x) (mag y)) (\<lambda>z. Inr (signed (neg x \<noteq> neg y) z))"

definition Int_MulRange :: "64 word \<Rightarrow> 64 word \<Rightarrow> (panic + BigInt) option" where
  "Int_MulRange a b =
     (if sint a > sint b then Some (Inr (Int_SetInt64 1))
      else if sint a \<le> 0 \<and> sint b \<ge> 0 then Some (Inr (Int_SetInt64 0))
      else let (ng, a, b) = (if sint a < 0 then ((b - a) AND 1 = 0, - b, - a) else (False, a, b)) in
        map_option (\<lambda>r. bindE r (\<lambda>z. Inr \<lparr>neg = ng, mag = z\<rparr>)) (nat_mulRange a b))"

section \<open>Division\<close>

definition Int_Quo :: "BigInt \<Rightarrow> BigInt \<Rightarrow> panic + BigInt" where
  "Int_Quo x y = bindE (nat_div (mag x) (mag y)) (\<lambda>(q, r). Inr (signed (neg x \<noteq> neg y) q))"

definition Int_Rem :: "BigInt \<Rightarrow> BigInt \<Rightarrow> panic + BigInt" where
  "Int_Rem x y = bindE (nat_div (mag x) (mag y)) (\<lambda>(q, r). Inr (signed (neg x) r))"

definition Int_QuoRem :: "BigInt \<Rightarrow> BigInt \<Rightarrow> panic + BigInt \<times> BigInt" where
  "Int_QuoRem x y =
     bindE (nat_div (mag x) (mag y)) (\<lambda>(q, r). Inr (signed (neg x \<noteq> neg y) q, signed (neg x) r))"

definition Int_Div :: "BigInt \<Rightarrow> BigInt \<Rightarrow> panic + BigInt" where
  "Int_Div x y =
     bindE (Int_QuoRem x y) (\<lambda>(z, r).
       if neg r then (if neg y then Int_Add z intOne else Int_Sub z intOne) else Inr z)"

definition Int_Mod :: "BigInt \<Rightarrow> BigInt \<Rightarrow> panic + BigInt" where
  "Int_Mod x y =
     bindE (Int_QuoRem x y) (\<lambda>(q, z).
       if neg z then (if neg y then Int_Sub z y else Int_Add z y) else Inr z)"

text \<open>\<open>DivMod\<close> saves \<open>y\<close> when it is the receiver, but not when it is the argument \<open>m\<close>: then \<open>y0\<close> is the remainder.\<close>

definition Int_DivMod :: "bool \<Rightarrow> BigInt \<Rightarrow> BigInt \<Rightarrow> panic + BigInt \<times> BigInt" where
  "Int_DivMod m_is_y x y =
     bindE (Int_QuoRem x y) (\<lambda>(z, m).
       let y0 = (if m_is_y then m else y) in
       if neg m then
         (if neg y0 then bindE (Int_Add z intOne) (\<lambda>z. bindE (Int_Sub m y0) (\<lambda>m. Inr (z, m)))
          else bindE (Int_Sub z intOne) (\<lambda>z. bindE (Int_Add m y0) (\<lambda>m. Inr (z, m))))
       else Inr (z, m))"

definition Int_Binomial :: "64 word \<Rightarrow> 64 word \<Rightarrow> (panic + BigInt) option" where
  "Int_Binomial n k =
     Option.bind (Int_MulRange (n - k + 1) n) (\<lambda>a. Option.bind (Int_MulRange 1 k) (\<lambda>b.
       Some (bindE a (\<lambda>a. bindE b (\<lambda>b. Int_Quo a b)))))"

section \<open>Comparison and conversion\<close>

definition Int_Cmp :: "BigInt \<Rightarrow> BigInt \<Rightarrow> int" where
  "Int_Cmp x y =
     (if neg x = neg y then (let r = nat_cmp (mag x) (mag y) in if neg x then - r else r)
      else if neg x then -1 else 1)"

definition low64 :: "natural \<Rightarrow> 64 word" where
  "low64 z = (if length z = 0 then 0 else z ! 0)"

definition Int_Int64 :: "BigInt \<Rightarrow> 64 word" where
  "Int_Int64 x = (let v = low64 (mag x) in if neg x then - v else v)"

definition Int_Uint64 :: "BigInt \<Rightarrow> 64 word" where
  "Int_Uint64 x = low64 (mag x)"

definition Int_SetBytes :: "byte list \<Rightarrow> panic + BigInt" where
  "Int_SetBytes buf = bindE (nat_setBytes buf) (\<lambda>z. Inr \<lparr>neg = False, mag = z\<rparr>)"

definition Int_Bytes :: "BigInt \<Rightarrow> panic + byte list" where
  "Int_Bytes x = bindE (nat_bytes (mag x) (replicate (length (mag x) * 8) 0)) (\<lambda>(i, buf). Inr (drop i buf))"

definition Int_BitLen :: "BigInt \<Rightarrow> int" where
  "Int_BitLen x = nat_bitLen (mag x)"

section \<open>Integers in normal form\<close>

definition ival :: "BigInt \<Rightarrow> int" where
  "ival x = (if neg x then - int (val (mag x)) else int (val (mag x)))"

definition Int_wf :: "BigInt \<Rightarrow> bool" where
  "Int_wf x \<longleftrightarrow> normal (mag x) \<and> (neg x \<longrightarrow> mag x \<noteq> [])"

text \<open>The one representation of an integer.\<close>

definition Int_of :: "int \<Rightarrow> BigInt" where
  "Int_of a = \<lparr>neg = a < 0, mag = digits (nat \<bar>a\<bar>)\<rparr>"

lemma Int_of_sel [simp]: "neg (Int_of a) = (a < 0)" "mag (Int_of a) = digits (nat \<bar>a\<bar>)"
  by (simp_all add: Int_of_def)

lemma ival_of [simp]: "ival (Int_of a) = a"
  by (simp add: ival_def)

lemma wf_of [simp]: "Int_wf (Int_of a)"
  by (simp add: Int_wf_def)

lemma Int_of_ival: "Int_wf x \<Longrightarrow> Int_of (ival x) = x"
proof -
  assume "Int_wf x"
  then have x: "normal (mag x)" "neg x \<Longrightarrow> mag x \<noteq> []" by (auto simp: Int_wf_def)
  have "0 < val (mag x)" if "neg x" using val_zero [OF x(1)] x(2) [OF that] by blast
  then show ?thesis using digits_val [OF x(1)] by (cases x) (auto simp: Int_of_def ival_def)
qed

lemma signed_of: "signed s (digits n) = Int_of (if s then - int n else int n)"
  by (simp add: signed_def Int_of_def)

lemma ival_zero: "mag x = [] \<Longrightarrow> ival x = 0"
  by (simp add: ival_def)

lemma intOne_of: "intOne = Int_of 1"
proof -
  have "digits 1 = [1]" by (subst digits.simps) (simp add: base_num)
  then show ?thesis by (simp add: intOne_def Int_of_def natOne_def)
qed

section \<open>The arithmetic is exact\<close>

lemma Int_Sign_of: "Int_Sign (Int_of a) = sgn a"
  by (simp add: Int_Sign_def)

lemma Int_Add_val:
  assumes "normal (mag x)" "normal (mag y)"
  shows "Int_Add x y = Inr (Int_of (ival x + ival y))"
  using assms
  by (auto simp: Int_Add_def nat_add_digits nat_sub_digits nat_cmp_val signed_of ival_def intro!: arg_cong [of _ _ Int_of])

lemma Int_Sub_val:
  assumes "normal (mag x)" "normal (mag y)"
  shows "Int_Sub x y = Inr (Int_of (ival x - ival y))"
  using assms
  by (auto simp: Int_Sub_def nat_add_digits nat_sub_digits nat_cmp_val signed_of ival_def intro!: arg_cong [of _ _ Int_of])

lemma Int_Mul_val:
  assumes "normal (mag x)" "normal (mag y)"
  shows "Int_Mul x y = Inr (Int_of (ival x * ival y))"
  using assms by (auto simp: Int_Mul_def nat_mul_digits signed_of ival_def)

lemma Int_Add_of [simp]: "Int_Add (Int_of a) (Int_of b) = Inr (Int_of (a + b))"
  and Int_Sub_of [simp]: "Int_Sub (Int_of a) (Int_of b) = Inr (Int_of (a - b))"
  and Int_Mul_of [simp]: "Int_Mul (Int_of a) (Int_of b) = Inr (Int_of (a * b))"
  by (simp_all add: Int_Add_val Int_Sub_val Int_Mul_val)

lemma Int_Neg_of [simp]: "Int_Neg (Int_of a) = Int_of (- a)"
  by (auto simp: Int_Neg_def Int_of_def)

lemma Int_Abs_of [simp]: "Int_Abs (Int_of a) = Int_of \<bar>a\<bar>"
  by (simp add: Int_Abs_def Int_of_def)

lemma Int_Cmp_of: "Int_Cmp (Int_of a) (Int_of b) = (if a < b then -1 else if a > b then 1 else 0)"
  by (auto simp: Int_Cmp_def nat_cmp_val Let_def)

lemma Int_QuoRem_of:
  "Int_QuoRem (Int_of a) (Int_of b) =
     (if b = 0 then Inl (PanicMsg ''division by zero'') else Inr (Int_of (a sdiv b), Int_of (a smod b)))"
proof (cases "b = 0")
  case True
  then show ?thesis by (simp add: Int_QuoRem_def nat_div_def)
next
  case False
  define P R where "P = nat \<bar>a\<bar> div nat \<bar>b\<bar>" and "R = nat \<bar>a\<bar> mod nat \<bar>b\<bar>"
  have d: "int P = \<bar>a\<bar> div \<bar>b\<bar>" "int R = \<bar>a\<bar> mod \<bar>b\<bar>"
    by (simp_all add: P_def R_def zdiv_int zmod_int)
  have "nat_div (digits (nat \<bar>a\<bar>)) (digits (nat \<bar>b\<bar>)) = Inr (digits P, digits R)"
    using False nat_div_digits [of "digits (nat \<bar>a\<bar>)" "digits (nat \<bar>b\<bar>)"] by (simp add: P_def R_def)
  then have "Int_QuoRem (Int_of a) (Int_of b) =
      Inr (Int_of (if (a < 0) \<noteq> (b < 0) then - (\<bar>a\<bar> div \<bar>b\<bar>) else \<bar>a\<bar> div \<bar>b\<bar>), Int_of (if a < 0 then - (\<bar>a\<bar> mod \<bar>b\<bar>) else \<bar>a\<bar> mod \<bar>b\<bar>))"
    by (simp add: Int_QuoRem_def signed_of d)
  moreover have "(if (a < 0) \<noteq> (b < 0) then - (\<bar>a\<bar> div \<bar>b\<bar>) else \<bar>a\<bar> div \<bar>b\<bar>) = a sdiv b"
    using False by (auto simp: signed_divide_int_def sgn_if)
  moreover have "(if a < 0 then - (\<bar>a\<bar> mod \<bar>b\<bar>) else \<bar>a\<bar> mod \<bar>b\<bar>) = a smod b"
    by (auto simp: signed_modulo_int_def sgn_if)
  ultimately show ?thesis using False by simp
qed

lemma Int_Quo_QuoRem: "Int_Quo x y = bindE (Int_QuoRem x y) (\<lambda>(q, r). Inr q)"
  by (cases "nat_div (mag x) (mag y)") (auto simp: Int_Quo_def Int_QuoRem_def)

lemma Int_Rem_QuoRem: "Int_Rem x y = bindE (Int_QuoRem x y) (\<lambda>(q, r). Inr r)"
  by (cases "nat_div (mag x) (mag y)") (auto simp: Int_Rem_def Int_QuoRem_def)

lemma euclid:
  fixes a b :: int
  assumes "b \<noteq> 0"
  shows "a mod \<bar>b\<bar> = (if a smod b < 0 then a smod b + \<bar>b\<bar> else a smod b)"
    "sgn b * (a div \<bar>b\<bar>) = (if a smod b < 0 then a sdiv b - sgn b else a sdiv b)"
proof -
  have e: "a sdiv b * b + a smod b = a" by (rule sdiv_mult_smod_eq)
  have r: "\<bar>a smod b\<bar> < \<bar>b\<bar>"
    using assms by (simp add: signed_modulo_int_def abs_mult sgn_if)
  define m where "m = (if a smod b < 0 then a smod b + \<bar>b\<bar> else a smod b)"
  define q where "q = (if a smod b < 0 then a sdiv b - sgn b else a sdiv b)"
  have m: "0 \<le> m" "m < \<bar>b\<bar>" using r by (auto simp: m_def)
  have "q * b + m = a" using e by (auto simp: q_def m_def sgn_if algebra_simps)
  then have "(sgn b * q) * \<bar>b\<bar> + m = a" using assms by (simp add: sgn_if abs_if split: if_splits)
  then have "a mod \<bar>b\<bar> = m" "a div \<bar>b\<bar> = sgn b * q" using m
    by (metis mod_mult_self3 mod_pos_pos_trivial, metis add.commute assms div_mult_self1 div_pos_pos_trivial abs_eq_0 add.left_neutral)
  then show "a mod \<bar>b\<bar> = (if a smod b < 0 then a smod b + \<bar>b\<bar> else a smod b)"
    "sgn b * (a div \<bar>b\<bar>) = (if a smod b < 0 then a sdiv b - sgn b else a sdiv b)"
    unfolding m_def q_def using assms by (simp_all add: sgn_if split: if_splits)
qed

lemma Int_DivMod_overwritten:
  "b \<noteq> 0 \<Longrightarrow> Int_DivMod True (Int_of a) (Int_of b) =
     (if a smod b < 0 then Inr (Int_of (a sdiv b + 1), Int_of 0) else Inr (Int_of (a sdiv b), Int_of (a smod b)))"
  by (simp add: Int_DivMod_def Int_QuoRem_of intOne_of)

lemma Int_DivMod_of:
  "b \<noteq> 0 \<Longrightarrow> Int_DivMod False (Int_of a) (Int_of b) = Inr (Int_of (sgn b * (a div \<bar>b\<bar>)), Int_of (a mod \<bar>b\<bar>))"
  using euclid [of b a] by (auto simp: Int_DivMod_def Int_QuoRem_of intOne_of sgn_if)

lemma Int_Div_of: "b \<noteq> 0 \<Longrightarrow> Int_Div (Int_of a) (Int_of b) = Inr (Int_of (sgn b * (a div \<bar>b\<bar>)))"
  using euclid(2) [of b a] by (auto simp: Int_Div_def Int_QuoRem_of intOne_of sgn_if)

lemma Int_Mod_of: "b \<noteq> 0 \<Longrightarrow> Int_Mod (Int_of a) (Int_of b) = Inr (Int_of (a mod \<bar>b\<bar>))"
  using euclid(1) [of b a] by (auto simp: Int_Mod_def Int_QuoRem_of)

lemma Int_division_panics:
  "Int_QuoRem (Int_of a) (Int_of 0) = Inl (PanicMsg ''division by zero'')"
  "Int_DivMod k (Int_of a) (Int_of 0) = Inl (PanicMsg ''division by zero'')"
  "Int_Div (Int_of a) (Int_of 0) = Inl (PanicMsg ''division by zero'')"
  "Int_Mod (Int_of a) (Int_of 0) = Inl (PanicMsg ''division by zero'')"
  by (simp_all add: Int_DivMod_def Int_Div_def Int_Mod_def Int_QuoRem_of)

section \<open>Conversions\<close>

lemma sint_cases: "sint (x :: 64 word) = (if 2 ^ 63 \<le> unat x then int (unat x) - 2 ^ 64 else int (unat x))"
proof -
  have "sint x = take_bit 64 (uint x) - 2 ^ 64 * of_bool (bit (uint x) 63)"
    by (simp add: sint_uint signed_take_bit_eq_take_bit_minus)
  moreover have "take_bit 64 (uint x) = int (unat x)"
  proof -
    have "take_bit 64 (unat x) = unat x" using unat_base [of x] by (intro take_bit_nat_eq_self) (simp add: base_def)
    then have "take_bit 64 (int (unat x)) = int (unat x)" by (metis of_nat_take_bit)
    then show ?thesis by simp
  qed
  moreover have "bit (uint x) 63 \<longleftrightarrow> 2 ^ 63 \<le> unat x" using top_bit [of x] by (simp add: bit_unsigned_iff)
  ultimately show ?thesis by simp
qed

lemma unat_neg: "x \<noteq> 0 \<Longrightarrow> unat (- x :: 64 word) = 2 ^ 64 - unat x"
proof -
  assume x: "x \<noteq> 0"
  have "unat (- x) = (2 ^ 64 - unat x) mod 2 ^ 64" using unat_minus_base [of 0 x] x unat_base [of x]
    by (simp add: base_def unat_gt_0)
  then show ?thesis using x by (simp add: unat_gt_0)
qed

lemma unat_range: "int (unat (x :: 64 word)) < 2 ^ 64"
proof -
  have "unat x < 2 ^ 64" using unat_base [of x] by (simp add: base_def)
  then have "int (unat x) < int (2 ^ 64)" by (simp only: of_nat_less_iff)
  then show ?thesis by (simp only: of_nat_power of_nat_numeral)
qed

lemma sint_top: "2 ^ 63 \<le> unat (x :: 64 word) \<longleftrightarrow> 2 ^ 63 \<le> int (unat x)"
proof -
  have "int (2 ^ 63) \<le> int (unat x) \<longleftrightarrow> 2 ^ 63 \<le> unat x" by (simp only: of_nat_le_iff)
  then show ?thesis by (simp only: of_nat_power of_nat_numeral)
qed

lemma sint_bounds: "- (2 ^ 63) \<le> sint (x :: 64 word)" "sint x < 2 ^ 63"
  using unat_range [of x] unfolding sint_cases sint_top by (simp_all del: of_nat_unat)

lemma unat_neg_sint: "sint (x :: 64 word) < 0 \<Longrightarrow> int (unat (- x)) = - sint x"
proof -
  assume a: "sint x < 0"
  then have h: "2 ^ 63 \<le> unat x" by (rule contrapos_pp) (simp add: sint_cases)
  have "x \<noteq> 0" using a by auto
  then have "unat (- x) + unat x = 2 ^ 64" using unat_neg [of x] unat_base [of x] by (simp add: base_def)
  then have "int (unat (- x)) + int (unat x) = int (2 ^ 64)" by (simp only: of_nat_add [symmetric])
  then have "int (unat (- x)) + int (unat x) = 2 ^ 64" by (simp only: of_nat_power of_nat_numeral)
  then show ?thesis using h unfolding sint_cases by (simp del: of_nat_unat)
qed

lemma unat_pos_sint: "0 \<le> sint (x :: 64 word) \<Longrightarrow> int (unat x) = sint x"
  using unat_range [of x] unfolding sint_cases by (simp del: of_nat_unat split: if_splits)

lemma Int_SetInt64_of: "Int_SetInt64 x = Int_of (sint x)"
proof (cases "sint x < 0")
  case True
  then have "nat \<bar>sint x\<bar> = unat (- x)" using unat_neg_sint [of x] by linarith
  then show ?thesis using True by (simp add: Int_SetInt64_def Int_of_def setUint64_def setWord_digits)
next
  case False
  then have "nat \<bar>sint x\<bar> = unat x" using unat_pos_sint [of x] by linarith
  then show ?thesis using False by (simp add: Int_SetInt64_def Int_of_def setUint64_def setWord_digits)
qed

lemma Int_SetUint64_of: "Int_SetUint64 x = Int_of (int (unat x))"
  by (simp add: Int_SetUint64_def Int_of_def setUint64_def setWord_digits)

lemma low64_digits: "low64 (digits n) = word_of_nat n"
  by (cases "n = 0") (auto simp: low64_def digits.simps [of n])

text \<open>Every value that fits is read back.\<close>

lemma Int_Int64_of: "Int_Int64 (Int_of a) = word_of_int a"
  by (cases "a < 0") (simp_all add: Int_Int64_def low64_digits)

lemma Int_Uint64_of: "0 \<le> a \<Longrightarrow> Int_Uint64 (Int_of a) = word_of_int a"
  by (simp add: Int_Uint64_def low64_digits)

lemma Int_SetBytes_of: "Int_SetBytes buf = Inr (Int_of (int (be_val buf)))"
  by (simp add: Int_SetBytes_def nat_setBytes_digits Int_of_def)

lemma Int_Bytes_of:
  "\<exists>b. Int_Bytes (Int_of a) = Inr b \<and> int (be_val b) = \<bar>a\<bar> \<and> (b \<noteq> [] \<longrightarrow> hd b \<noteq> 0)"
proof -
  define z where "z = digits (nat \<bar>a\<bar>)"
  obtain i b where b: "nat_bytes z (replicate (length z * 8) 0) = Inr (i, b)" "length b = length z * 8" "be_val (drop i b) = val z"
      "i < length z * 8 \<longrightarrow> b ! i \<noteq> 0"
    using nat_bytes_be [of z "replicate (length z * 8) 0"] by auto
  have "Int_Bytes (Int_of a) = Inr (drop i b)" using b(1) by (simp add: Int_Bytes_def z_def)
  moreover have "drop i b \<noteq> [] \<longrightarrow> hd (drop i b) \<noteq> 0" using b(2,4) by (auto simp: hd_drop_conv_nth)
  ultimately show ?thesis using b(3) by (auto simp: z_def)
qed

lemma Int_BitLen_of: "Int_BitLen (Int_of a) = int (blen (nat \<bar>a\<bar>))"
  by (simp add: Int_BitLen_def nat_bitLen_val)

section \<open>Products of ranges and binomial coefficients\<close>

lemma prod_int_range: "int (\<Prod> {m..n}) = \<Prod> {int m..int n}"
proof -
  have "\<Prod> {int m..int n} = \<Prod> (int ` {m..n})" by (simp add: image_int_atLeastAtMost)
  also have "\<dots> = (\<Prod>i\<in>{m..n}. int i)" by (subst prod.reindex) simp_all
  finally show ?thesis by simp
qed

lemma prod_neg_range:
  fixes a b :: int
  assumes "a \<le> b"
  shows "\<Prod> {a..b} = (if even (b - a) then - \<Prod> {- b..- a} else \<Prod> {- b..- a})"
proof -
  have "{a..b} = uminus ` {- b..- a}" by simp
  then have "\<Prod> {a..b} = (\<Prod>i\<in>{- b..- a}. - i)" by (simp only:) (subst prod.reindex, simp_all)
  also have "\<dots> = (- 1) ^ card {- b..- a} * \<Prod> {- b..- a}" by (simp only: prod_uminus)
  also have "card {- b..- a} = Suc (nat (b - a))" using assms by simp
  finally show ?thesis using assms by (simp add: even_nat_iff)
qed

lemma Int_MulRange_of: "Int_MulRange a b = Some (Inr (Int_of (\<Prod> {sint a..sint b})))"
proof -
  consider "sint b < sint a" | "sint a \<le> sint b" "sint a \<le> 0" "0 \<le> sint b"
    | "sint a \<le> sint b" "sint b < 0" | "sint a \<le> sint b" "0 < sint a" by linarith
  then show ?thesis
  proof cases
    case 1
    then show ?thesis by (simp add: Int_MulRange_def Int_SetInt64_of)
  next
    case 2
    then have z: "\<Prod> {sint a..sint b} = 0" by (intro prod_zero) auto
    show ?thesis unfolding z using 2 by (simp add: Int_MulRange_def Int_SetInt64_of)
  next
    case 3
    have ab: "int (unat (- a)) = - sint a" "int (unat (- b)) = - sint b" using 3 unat_neg_sint by simp_all
    have "int (unat (- a)) \<le> int (2 ^ 63)" using sint_bounds(1) [of a] ab(1) by simp
    then have l: "unat (- a) \<le> 2 ^ 63" by (simp only: of_nat_le_iff)
    have r: "nat_mulRange (- b) (- a) = Some (Inr (digits (\<Prod> {unat (- b)..unat (- a)})))" by (rule nat_mulRange_prod [OF l])
    define P where "P = \<Prod> {unat (- b)..unat (- a)}"
    have P: "int P = \<Prod> {- sint b..- sint a}" unfolding P_def prod_int_range ab ..
    have "0 < unat (- b)" using ab(2) 3(2) by linarith
    then have "0 < P" unfolding P_def by (intro prod_pos) auto
    have "(b - a) AND 1 = 0 \<longleftrightarrow> even (sint b - sint a)"
    proof -
      have "(b - a) AND 1 = 0 \<longleftrightarrow> even (b - a)" by (simp add: and_one_eq even_iff_mod_2_eq_zero)
      also have "\<dots> \<longleftrightarrow> \<not> bit (word_of_int (sint b - sint a) :: 64 word) 0" by (simp add: bit_0)
      also have "\<dots> \<longleftrightarrow> even (sint b - sint a)" by (simp only: bit_word_of_int_iff) (simp add: bit_0)
      finally show ?thesis .
    qed
    then have "\<Prod> {sint a..sint b} = (if (b - a) AND 1 = 0 then - int P else int P)"
      using prod_neg_range [OF 3(1)] unfolding P by simp
    then show ?thesis using 3 r \<open>0 < P\<close> by (simp add: Int_MulRange_def P_def [symmetric] Int_of_def)
  next
    case 4
    have ab: "int (unat a) = sint a" "int (unat b) = sint b" using 4 unat_pos_sint by simp_all
    have "int (unat b) \<le> int (2 ^ 63)" using sint_bounds(2) [of b] ab(2) by simp
    then have l: "unat b \<le> 2 ^ 63" by (simp only: of_nat_le_iff)
    have "int (\<Prod> {unat a..unat b}) = \<Prod> {sint a..sint b}" unfolding prod_int_range ab ..
    moreover have "0 \<le> int (\<Prod> {unat a..unat b})" by (rule of_nat_0_le_iff)
    ultimately have "nat \<bar>\<Prod> {sint a..sint b}\<bar> = \<Prod> {unat a..unat b}" "\<not> \<Prod> {sint a..sint b} < 0" by linarith+
    then show ?thesis using 4 nat_mulRange_prod [OF l, of a] by (simp add: Int_MulRange_def Int_of_def)
  qed
qed

lemma sdiv_cancel: "0 < f \<Longrightarrow> int (c * f) sdiv int f = int c"
  by (cases "c = 0") (simp_all add: signed_divide_int_def)

lemma Int_Binomial_of:
  assumes "0 \<le> sint k" "sint k \<le> sint n" "0 < sint k \<or> sint n < 2 ^ 63 - 1"
  shows "Int_Binomial n k = Some (Inr (Int_of (int (nat (sint n) choose nat (sint k)))))"
proof -
  define N K where "N = nat (sint n)" and "K = nat (sint k)"
  have NK: "sint n = int N" "sint k = int K" "K \<le> N" using assms by (simp_all add: N_def K_def)
  have s: "sint (n - k + 1) = int (N - K + 1)"
  proof -
    have "n - k + 1 = word_of_int (sint n - sint k + 1)" by simp
    also have "\<dots> = word_of_nat (N - K + 1)" using NK by (simp add: of_nat_diff)
    finally have w: "n - k + 1 = word_of_nat (N - K + 1)" .
    have "int N < 2 ^ 63" using sint_bounds(2) [of n] NK(1) by simp
    then have "int (N - K + 1) < int (2 ^ 63)" using NK assms(3) by auto
    then have l: "N - K + 1 < 2 ^ 63" by (simp only: of_nat_less_iff)
    have "unat (n - k + 1) = N - K + 1" unfolding w by (simp only: unat_of_nat) (use l in simp)
    then show ?thesis using l by (simp add: sint_cases del: of_nat_unat)
  qed
  have "\<Prod> {sint (n - k + 1)..int N} = int (\<Prod> {N - K + 1..N})" unfolding s prod_int_range ..
  moreover have f: "\<Prod> {1..int K} = int (fact K)"
    using prod_int_range [of 1 K] by (simp add: fact_prod)
  moreover have "\<Prod> {N - K + 1..N} = (N choose K) * fact K"
  proof -
    have "\<Prod> {N - K + 1..N} = fact N div fact (N - K)" using fact_div_fact [of "N - K" N] by simp
    also have "fact N = ((N choose K) * fact K) * fact (N - K)"
      using binomial_fact_lemma [OF NK(3)] by (simp only: ac_simps)
    also have "((N choose K) * fact K) * fact (N - K) div fact (N - K) = (N choose K) * fact K"
      by (rule nonzero_mult_div_cancel_right) (rule fact_nonzero)
    finally show ?thesis .
  qed
  ultimately have "\<Prod> {sint (n - k + 1)..int N} = int ((N choose K) * fact K)" by (simp only:)
  then have q: "\<Prod> {sint (n - k + 1)..int N} sdiv \<Prod> {1..int K} = int (N choose K)"
    unfolding f by (simp only:) (rule sdiv_cancel, simp)
  have "\<Prod> {1..int K} \<noteq> 0" unfolding f by simp
  then show ?thesis
    unfolding Int_Binomial_def Int_MulRange_of
    using q NK by (simp add: Int_Quo_QuoRem Int_QuoRem_of)
qed

section \<open>Arithmetic\<close>

text \<open>C36: On well-formed integers of any size the operations of \<open>Int\<close> are those on the integers: sum,
  difference, product, negation, absolute value, sign and comparison; \<open>QuoRem\<close> truncates, \<open>DivMod\<close> is Euclidean
  with a remainder in \<open>0 ..< |y|\<close>, unless its argument \<open>m\<close> is \<open>y\<close> itself, where a negative remainder gives the
  quotient towards zero plus one and the remainder 0; both divisions panic on zero and on nothing else; \<open>Int64\<close> wraps around.\<close>

theorem Int_arithmetic_exact:
  assumes "Int_wf x" "Int_wf y"
  shows "Int_Add x y = Inr (Int_of (ival x + ival y)) \<and>
    Int_Sub x y = Inr (Int_of (ival x - ival y)) \<and>
    Int_Mul x y = Inr (Int_of (ival x * ival y)) \<and>
    Int_Neg x = Int_of (- ival x) \<and> Int_Abs x = Int_of \<bar>ival x\<bar> \<and> Int_Sign x = sgn (ival x) \<and>
    Int_Cmp x y = (if ival x < ival y then -1 else if ival x > ival y then 1 else 0) \<and>
    Int_QuoRem x y = (if ival y = 0 then Inl (PanicMsg ''division by zero'')
      else Inr (Int_of (ival x sdiv ival y), Int_of (ival x smod ival y))) \<and>
    Int_DivMod False x y = (if ival y = 0 then Inl (PanicMsg ''division by zero'')
      else Inr (Int_of (sgn (ival y) * (ival x div \<bar>ival y\<bar>)), Int_of (ival x mod \<bar>ival y\<bar>))) \<and>
    Int_DivMod True x y = (if ival y = 0 then Inl (PanicMsg ''division by zero'')
      else if ival x smod ival y < 0 then Inr (Int_of (ival x sdiv ival y + 1), Int_of 0)
      else Inr (Int_of (ival x sdiv ival y), Int_of (ival x smod ival y))) \<and>
    Int_Int64 x = word_of_int (ival x) \<and> Int_SetInt64 n = Int_of (sint n)"
proof -
  obtain a b where "x = Int_of a" "y = Int_of b" using Int_of_ival [OF assms(1)] Int_of_ival [OF assms(2)] by metis
  then show ?thesis
    by (simp add: Int_Sign_of Int_Cmp_of Int_QuoRem_of Int_DivMod_of Int_DivMod_overwritten Int_division_panics Int_Int64_of Int_SetInt64_of)
qed

lemma Int_arithmetic_exact_witness:
  "Int_QuoRem \<lparr>neg = True, mag = [7]\<rparr> \<lparr>neg = False, mag = [2]\<rparr> = Inr (Int_of (- 3), Int_of (- 1)) \<and>
   Int_DivMod False \<lparr>neg = True, mag = [7]\<rparr> \<lparr>neg = False, mag = [2]\<rparr> = Inr (Int_of (- 4), Int_of 1) \<and>
   Int_DivMod True \<lparr>neg = True, mag = [7]\<rparr> \<lparr>neg = False, mag = [2]\<rparr> = Inr (Int_of (- 2), Int_of 0)"
proof -
  have "Int_wf \<lparr>neg = True, mag = [7]\<rparr>" "Int_wf \<lparr>neg = False, mag = [2]\<rparr>" by (simp_all add: Int_wf_def normal_def)
  note e = Int_arithmetic_exact [OF this]
  have "ival \<lparr>neg = True, mag = [7]\<rparr> = - 7" "ival \<lparr>neg = False, mag = [2]\<rparr> = 2" by (simp_all add: ival_def)
  then show ?thesis using e by (simp add: signed_divide_int_def signed_modulo_int_def)
qed

end
