(* ===== verification/Go_IntBits.thy ===== *)
theory Go_IntBits
  imports Go_Int
begin

unbundle bit_operations_syntax

text \<open>
  Package math/big, int.go: shifts and bit operations on signed integers in two's complement, powers,
  and the Gob encoding. A negative number \<open>-x\<close> is the complement of \<open>x - 1\<close>.
\<close>

section \<open>Shifts and bits\<close>

definition Int_Lsh :: "BigInt \<Rightarrow> nat \<Rightarrow> panic + BigInt" where
  "Int_Lsh x n = bindE (nat_shl (mag x) n) (\<lambda>z. Inr \<lparr>neg = neg x, mag = z\<rparr>)"

definition Int_Rsh :: "BigInt \<Rightarrow> nat \<Rightarrow> panic + BigInt" where
  "Int_Rsh x n =
     (if neg x then
        bindE (nat_sub (mag x) natOne) (\<lambda>t. bindE (nat_shr t n) (\<lambda>t. bindE (nat_add t natOne) (\<lambda>z.
          Inr \<lparr>neg = True, mag = z\<rparr>)))
      else bindE (nat_shr (mag x) n) (\<lambda>z. Inr \<lparr>neg = False, mag = z\<rparr>))"

definition Int_Bit :: "BigInt \<Rightarrow> int \<Rightarrow> panic + nat" where
  "Int_Bit x i =
     (if i = 0 then (if length (mag x) > 0 then Inr (unat (mag x ! 0 AND 1)) else Inr 0)
      else if i < 0 then Inl (PanicMsg ''negative bit index'')
      else if neg x then bindE (nat_sub (mag x) natOne) (\<lambda>t. Inr (nat_bit t (nat i) XOR 1))
      else Inr (nat_bit (mag x) (nat i)))"

definition Int_SetBit :: "BigInt \<Rightarrow> int \<Rightarrow> nat \<Rightarrow> panic + BigInt" where
  "Int_SetBit x i b =
     (if i < 0 then Inl (PanicMsg ''negative bit index'')
      else if neg x then
        bindE (nat_sub (mag x) natOne) (\<lambda>t. bindE (nat_setBit t (nat i) (b XOR 1)) (\<lambda>t. bindE (nat_add t natOne) (\<lambda>z.
          Inr \<lparr>neg = 0 < length z, mag = z\<rparr>)))
      else bindE (nat_setBit (mag x) (nat i) b) (\<lambda>z. Inr \<lparr>neg = False, mag = z\<rparr>))"

definition Int_And :: "BigInt \<Rightarrow> BigInt \<Rightarrow> panic + BigInt" where
  "Int_And x y =
     (if neg x = neg y then
        (if neg x then
           bindE (nat_sub (mag x) natOne) (\<lambda>x1. bindE (nat_sub (mag y) natOne) (\<lambda>y1.
           bindE (nat_add (nat_or x1 y1) natOne) (\<lambda>z. Inr \<lparr>neg = True, mag = z\<rparr>)))
         else Inr \<lparr>neg = False, mag = nat_and (mag x) (mag y)\<rparr>)
      else let (x, y) = (if neg x then (y, x) else (x, y)) in
        bindE (nat_sub (mag y) natOne) (\<lambda>y1. Inr \<lparr>neg = False, mag = nat_andNot (mag x) y1\<rparr>))"

definition Int_AndNot :: "BigInt \<Rightarrow> BigInt \<Rightarrow> panic + BigInt" where
  "Int_AndNot x y =
     (if neg x = neg y then
        (if neg x then
           bindE (nat_sub (mag x) natOne) (\<lambda>x1. bindE (nat_sub (mag y) natOne) (\<lambda>y1.
           Inr \<lparr>neg = False, mag = nat_andNot y1 x1\<rparr>))
         else Inr \<lparr>neg = False, mag = nat_andNot (mag x) (mag y)\<rparr>)
      else if neg x then
        bindE (nat_sub (mag x) natOne) (\<lambda>x1.
        bindE (nat_add (nat_or x1 (mag y)) natOne) (\<lambda>z. Inr \<lparr>neg = True, mag = z\<rparr>))
      else bindE (nat_sub (mag y) natOne) (\<lambda>y1. Inr \<lparr>neg = False, mag = nat_and (mag x) y1\<rparr>))"

definition Int_Or :: "BigInt \<Rightarrow> BigInt \<Rightarrow> panic + BigInt" where
  "Int_Or x y =
     (if neg x = neg y then
        (if neg x then
           bindE (nat_sub (mag x) natOne) (\<lambda>x1. bindE (nat_sub (mag y) natOne) (\<lambda>y1.
           bindE (nat_add (nat_and x1 y1) natOne) (\<lambda>z. Inr \<lparr>neg = True, mag = z\<rparr>)))
         else Inr \<lparr>neg = False, mag = nat_or (mag x) (mag y)\<rparr>)
      else let (x, y) = (if neg x then (y, x) else (x, y)) in
        bindE (nat_sub (mag y) natOne) (\<lambda>y1.
        bindE (nat_add (nat_andNot y1 (mag x)) natOne) (\<lambda>z. Inr \<lparr>neg = True, mag = z\<rparr>)))"

definition Int_Xor :: "BigInt \<Rightarrow> BigInt \<Rightarrow> panic + BigInt" where
  "Int_Xor x y =
     (if neg x = neg y then
        (if neg x then
           bindE (nat_sub (mag x) natOne) (\<lambda>x1. bindE (nat_sub (mag y) natOne) (\<lambda>y1.
           Inr \<lparr>neg = False, mag = nat_xor x1 y1\<rparr>))
         else Inr \<lparr>neg = False, mag = nat_xor (mag x) (mag y)\<rparr>)
      else let (x, y) = (if neg x then (y, x) else (x, y)) in
        bindE (nat_sub (mag y) natOne) (\<lambda>y1.
        bindE (nat_add (nat_xor (mag x) y1) natOne) (\<lambda>z. Inr \<lparr>neg = True, mag = z\<rparr>)))"

definition Int_Not :: "BigInt \<Rightarrow> panic + BigInt" where
  "Int_Not x =
     (if neg x then bindE (nat_sub (mag x) natOne) (\<lambda>z. Inr \<lparr>neg = False, mag = z\<rparr>)
      else bindE (nat_add (mag x) natOne) (\<lambda>z. Inr \<lparr>neg = True, mag = z\<rparr>))"

section \<open>Powers\<close>

text \<open>\<open>z\<close> tells with which argument the receiver shares its words; \<open>None\<close> as for \<open>expNN\<close>.\<close>

definition Int_Exp :: "storage \<Rightarrow> BigInt \<Rightarrow> BigInt \<Rightarrow> BigInt option \<Rightarrow> panic + BigInt option" where
  "Int_Exp z x y m =
     (let yWords = (if neg y then [] else mag y);
          mWords = (case m of None \<Rightarrow> [] | Some m \<Rightarrow> mag m) in
      bindE (nat_expNN z (mag x) yWords mWords) (\<lambda>r. case r of None \<Rightarrow> Inr None | Some (z, mWords) \<Rightarrow>
      let ng = (length z > 0 \<and> neg x \<and> length yWords > 0 \<and> yWords ! 0 AND 1 = 1) in
      if ng \<and> length mWords > 0 then bindE (nat_sub mWords z) (\<lambda>z. Inr (Some \<lparr>neg = False, mag = z\<rparr>))
      else Inr (Some \<lparr>neg = ng, mag = z\<rparr>)))"

section \<open>Gob\<close>

datatype gob_error = VersionNotSupported byte

definition intGobVersion :: byte where
  "intGobVersion = 1"

definition Int_GobEncode :: "BigInt option \<Rightarrow> panic + byte list" where
  "Int_GobEncode x =
     (case x of None \<Rightarrow> Inr []
      | Some x \<Rightarrow>
        bindE (nat_bytes (mag x) (replicate (1 + length (mag x) * 8) 0)) (\<lambda>(i, buf).
        if i = 0 then Inl IndexOutOfRange
        else let i = i - 1; b = push_bit 1 intGobVersion; b = (if neg x then b OR 1 else b) in
          Inr (drop i (buf[i := b]))))"

definition Int_GobDecode :: "byte list \<Rightarrow> panic + gob_error + BigInt" where
  "Int_GobDecode buf =
     (if length buf = 0 then Inr (Inr \<lparr>neg = False, mag = []\<rparr>)
      else let b = buf ! 0 in
        if drop_bit 1 b \<noteq> intGobVersion then Inr (Inl (VersionNotSupported (drop_bit 1 b)))
        else bindE (nat_setBytes (drop 1 buf)) (\<lambda>z. Inr (Inr \<lparr>neg = b AND 1 \<noteq> 0, mag = z\<rparr>)))"

section \<open>Two's complement\<close>

lemma natOne_digits: "natOne = digits 1"
proof -
  have "digits 1 = [1]" by (subst digits.simps) (simp add: base_num)
  then show ?thesis by (simp add: natOne_def)
qed

lemma neg_not: "a < 0 \<Longrightarrow> a = NOT (int (nat (NOT a)))" for a :: int
  by simp

lemma sub_one: "a < 0 \<Longrightarrow> nat_sub (digits (nat (- a))) natOne = Inr (digits (nat (NOT a)))"
proof -
  assume a: "a < 0"
  then have "1 \<le> nat (- a)" "nat (- a) - 1 = nat (NOT a)" by (simp_all add: not_int_def)
  then show ?thesis unfolding natOne_digits by (simp add: nat_sub_digits)
qed

lemma add_one: "nat_add (digits n) natOne = Inr (digits (n + 1))"
  unfolding natOne_digits by (simp add: nat_add_digits)

lemma Int_of_pos: "\<lparr>neg = False, mag = digits n\<rparr> = Int_of (int n)"
  by (simp add: Int_of_def)

lemma Int_of_not: "\<lparr>neg = True, mag = digits (n + 1)\<rparr> = Int_of (NOT (int n))"
  by (simp add: Int_of_def not_int_def nat_add_distrib)

lemma and_not_nat: "int (x - (x AND y)) = int x AND NOT (int y)" for x y :: nat
proof -
  have "(int x AND NOT (int y)) + (int x AND int y) = (int x AND NOT (int y)) OR (int x AND int y)"
    by (rule disjunctive_add) (auto simp: bit_and_iff bit_not_iff)
  also have "\<dots> = int x" by (rule bit_eqI) (auto simp: bit_and_iff bit_or_iff bit_not_iff)
  finally have e: "(int x AND NOT (int y)) = int x - int (x AND y)" by (simp add: of_nat_and_eq)
  have "int (x AND y) \<le> int x" by (simp add: of_nat_and_eq)
  then have "x AND y \<le> x" by simp
  then show ?thesis unfolding e by (simp add: of_nat_diff)
qed

lemma and_not_nat': "int (x - (y AND x)) = int x AND NOT (int y)" for x y :: nat
  using and_not_nat [of x y] by (simp add: and.commute)

section \<open>The operations on two's complement\<close>

lemma Int_Lsh_of: "Int_Lsh (Int_of a) n = Inr (Int_of (a * 2 ^ n))"
proof -
  have "nat \<bar>a * 2 ^ n\<bar> = nat \<bar>a\<bar> * 2 ^ n" by (simp add: abs_mult nat_mult_distrib nat_power_eq)
  then show ?thesis by (simp add: Int_Lsh_def nat_shl_digits Int_of_def mult_less_0_iff)
qed

lemma not_div: "NOT (NOT a div 2 ^ n) = a div 2 ^ n" for a :: int
  unfolding drop_bit_eq_div [symmetric] by (rule bit_eqI) (simp add: bit_not_iff bit_drop_bit_eq)

lemma Int_Rsh_of: "Int_Rsh (Int_of a) n = Inr (Int_of (a div 2 ^ n))"
proof (cases "a < 0")
  case True
  have "int (nat (NOT a) div 2 ^ n) = NOT a div 2 ^ n" using True by (simp add: zdiv_int)
  then show ?thesis using True
    by (simp add: Int_Rsh_def sub_one nat_shr_digits add_one Int_of_not [simplified] not_div)
next
  case False
  then have "int (nat a div 2 ^ n) = a div 2 ^ n" by (simp add: zdiv_int)
  then show ?thesis using False by (simp add: Int_Rsh_def nat_shr_digits Int_of_pos)
qed

lemma bit_nat: "0 \<le> a \<Longrightarrow> bit (nat a) k \<longleftrightarrow> bit a k" for a :: int
  by (metis bit_of_nat_iff_bit nat_0_le)

lemma Int_Bit_of: "0 \<le> i \<Longrightarrow> Int_Bit (Int_of a) i = Inr (if bit a (nat i) then 1 else 0)"
proof -
  assume i: "0 \<le> i"
  consider "i = 0" "a = 0" | "i = 0" "a \<noteq> 0" | "0 < i" "a < 0" | "0 < i" "0 \<le> a" using i by linarith
  then show ?thesis
  proof cases
    case 1
    then show ?thesis by (simp add: Int_Bit_def)
  next
    case 2
    have "unat (digits (nat \<bar>a\<bar>) ! 0 AND 1) = nat_bit (digits (nat \<bar>a\<bar>)) 0"
      using 2 by (simp add: nat_bit_def Let_def)
    also have "\<dots> = (if bit (nat \<bar>a\<bar>) 0 then 1 else 0)" by (simp add: nat_bit_val)
    also have "bit (nat \<bar>a\<bar>) 0 \<longleftrightarrow> bit a 0" by (simp add: bit_0 even_nat_iff)
    finally show ?thesis using 2 by (simp add: Int_Bit_def)
  next
    case 3
    then have "bit (nat (NOT a)) (nat i) \<longleftrightarrow> \<not> bit a (nat i)" by (simp add: bit_nat bit_not_iff)
    then show ?thesis using 3 by (simp add: Int_Bit_def sub_one nat_bit_val)
  next
    case 4
    then show ?thesis by (simp add: Int_Bit_def nat_bit_val bit_nat)
  qed
qed

lemma Int_SetBit_of:
  assumes "0 \<le> i"
  shows "Int_SetBit (Int_of a) i 0 = Inr (Int_of (unset_bit (nat i) a))"
    "Int_SetBit (Int_of a) i 1 = Inr (Int_of (Bit_Operations.set_bit (nat i) a))"
proof -
  have n: "int (unset_bit k (nat (NOT a))) = unset_bit k (NOT a)" "int (Bit_Operations.set_bit k (nat (NOT a))) = Bit_Operations.set_bit k (NOT a)"
    if "a < 0" for k using that by (simp_all add: of_nat_unset_bit_eq of_nat_set_bit_eq)
  have p: "int (unset_bit k (nat a)) = unset_bit k a" "int (Bit_Operations.set_bit k (nat a)) = Bit_Operations.set_bit k a"
    if "\<not> a < 0" for k using that by (simp_all add: of_nat_unset_bit_eq of_nat_set_bit_eq)
  have c: "NOT (unset_bit k (NOT a)) = Bit_Operations.set_bit k a" "NOT (Bit_Operations.set_bit k (NOT a)) = unset_bit k a" for k
    by (rule bit_eqI, auto simp: bit_not_iff bit_unset_bit_iff bit_set_bit_iff)+
  have f: "\<lparr>neg = 0 < length (digits (n + 1)), mag = digits (n + 1)\<rparr> = Int_of (NOT (int n))" for n
    using Int_of_not [of n] by simp
  show "Int_SetBit (Int_of a) i 0 = Inr (Int_of (unset_bit (nat i) a))"
    using assms nat_setBit_digits [OF normal_digits]
    by (cases "a < 0") (simp_all add: Int_SetBit_def sub_one add_one f [simplified] n c Int_of_pos p)
  show "Int_SetBit (Int_of a) i 1 = Inr (Int_of (Bit_Operations.set_bit (nat i) a))"
    using assms nat_setBit_digits [OF normal_digits]
    by (cases "a < 0") (simp_all add: Int_SetBit_def sub_one add_one f [simplified] n c Int_of_pos p)
qed

lemma Int_Not_of: "Int_Not (Int_of a) = Inr (Int_of (NOT a))"
  by (cases "a < 0") (simp_all add: Int_Not_def sub_one add_one Int_of_pos Int_of_not [simplified])

lemma Int_And_of: "Int_And (Int_of a) (Int_of b) = Inr (Int_of (a AND b))"
  by (cases "a < 0"; cases "b < 0")
    (simp_all add: Int_And_def sub_one add_one nat_or_digits nat_and_digits nat_andNot_digits Int_of_pos Int_of_not [simplified]
      and_not_nat of_nat_or_eq of_nat_and_eq and.commute)

lemma Int_Or_of: "Int_Or (Int_of a) (Int_of b) = Inr (Int_of (a OR b))"
  by (cases "a < 0"; cases "b < 0")
    (simp_all add: Int_Or_def sub_one add_one nat_or_digits nat_and_digits nat_andNot_digits Int_of_pos Int_of_not [simplified]
      and_not_nat of_nat_or_eq of_nat_and_eq or.commute)

lemma Int_AndNot_of: "Int_AndNot (Int_of a) (Int_of b) = Inr (Int_of (a AND NOT b))"
  by (cases "a < 0"; cases "b < 0")
    (simp_all add: Int_AndNot_def sub_one add_one nat_or_digits nat_and_digits nat_andNot_digits Int_of_pos Int_of_not [simplified]
      and_not_nat and_not_nat' of_nat_or_eq of_nat_and_eq and.commute)

lemma Int_Xor_of: "Int_Xor (Int_of a) (Int_of b) = Inr (Int_of (a XOR b))"
  by (cases "a < 0"; cases "b < 0")
    (simp_all add: Int_Xor_def sub_one add_one nat_xor_digits Int_of_pos Int_of_not [simplified] of_nat_xor_eq xor.commute)

section \<open>Powers\<close>

lemma digits_odd: "0 < n \<Longrightarrow> digits n ! 0 AND 1 = 1 \<longleftrightarrow> odd n"
proof -
  assume "0 < n"
  then have "digits n ! 0 = word_of_nat n" by (subst digits.simps) simp
  moreover have "odd (word_of_nat n :: Word) \<longleftrightarrow> odd n"
  proof -
    have "bit (word_of_int (int n) :: Word) 0 \<longleftrightarrow> odd n" by (simp only: bit_word_of_int_iff) (simp add: bit_0)
    then show ?thesis by (simp add: bit_0)
  qed
  ultimately show ?thesis by (simp only: and_one_eq odd_iff_mod_2_eq_one [symmetric])
qed

text \<open>The exponent and the modulus that the code uses; modulus 0 stands for no modulus.\<close>

definition exp_of :: "int \<Rightarrow> nat" where
  "exp_of b = (if b < 0 then 0 else nat b)"

definition modulus_of :: "int option \<Rightarrow> nat" where
  "modulus_of m = (case m of None \<Rightarrow> 0 | Some c \<Rightarrow> nat \<bar>c\<bar>)"

text \<open>\<open>Exp\<close> with the exponent 1 does not reduce: this is what it does then.\<close>

definition exp_one :: "int \<Rightarrow> nat \<Rightarrow> panic + BigInt" where
  "exp_one a M =
     (if 0 \<le> a then Inr (Int_of a)
      else if nat \<bar>a\<bar> \<le> M then Inr (Int_of (int M + a))
      else Inl (PanicMsg ''underflow''))"

lemma neg_power_mod:
  fixes a :: int
  assumes "0 < M"
  shows "a ^ n mod int M = (let r = nat \<bar>a\<bar> ^ n mod M in if a < 0 \<and> odd n \<and> 0 < r then int (M - r) else int r)"
proof -
  define r where "r = nat \<bar>a\<bar> ^ n mod M"
  have r: "r < M" using assms by (simp add: r_def)
  have p: "\<bar>a\<bar> ^ n mod int M = int r" by (simp add: r_def zmod_int)
  show ?thesis
  proof (cases "a < 0 \<and> odd n")
    case True
    then have "a ^ n = - (\<bar>a\<bar> ^ n)" by (simp add: power_minus_odd abs_if)
    then have "a ^ n mod int M = (if int r = 0 then 0 else int M - int r)"
      by (simp add: zmod_zminus1_eq_if p)
    then show ?thesis using True r unfolding r_def [symmetric] Let_def by (auto simp: of_nat_diff)
  next
    case False
    then have "a ^ n = \<bar>a\<bar> ^ n" by (metis abs_of_nonneg linorder_not_less power_even_abs)
    then show ?thesis using False p unfolding r_def [symmetric] Let_def by auto
  qed
qed

text \<open>The modulus keeps its words while they are needed.\<close>

definition modulus_kept :: "storage \<Rightarrow> int \<Rightarrow> int \<Rightarrow> nat \<Rightarrow> bool" where
  "modulus_kept z a b M \<longleftrightarrow>
     (case z of With_m c \<Rightarrow> M \<le> 1 \<or> b \<le> 0 \<or> a = 0 \<or> c < length (digits (nat \<bar>a\<bar>)) | _ \<Rightarrow> True)"

lemma modulus_kept_reused:
  "modulus_kept z a b M \<Longrightarrow> \<not> reused z (digits (nat \<bar>a\<bar>)) (digits M) \<or> val (digits M) = 1 \<or> digits (exp_of b) = []"
  by (cases z) (auto simp: modulus_kept_def exp_of_def le_Suc_eq)

lemma Int_Exp_of:
  assumes "modulus_kept z a b (modulus_of m)"
  shows "Int_Exp z (Int_of a) (Int_of b) (map_option Int_of m) =
     (if modulus_of m = 0 then Inr (Some (Int_of (a ^ exp_of b)))
      else if exp_of b = 1 \<and> modulus_of m \<noteq> 1 then bindE (exp_one a (modulus_of m)) (\<lambda>r. Inr (Some r))
      else Inr (Some (Int_of (a ^ exp_of b mod int (modulus_of m)))))"
proof -
  define n M where "n = exp_of b" and "M = modulus_of m"
  have y: "(if neg (Int_of b) then [] else mag (Int_of b)) = digits n" by (simp add: n_def exp_of_def)
  have md: "(case map_option Int_of m of None \<Rightarrow> [] | Some m \<Rightarrow> mag m) = digits M"
    by (simp add: M_def modulus_of_def split: option.splits)
  define w where "w = (if n = 1 \<and> M \<noteq> 1 then digits (nat \<bar>a\<bar>) else digits (red (digits M) (nat \<bar>a\<bar> ^ n)))"
  obtain m' where e: "nat_expNN z (mag (Int_of a)) (digits n) (digits M) = Inr (Some (w, m'))" "n \<noteq> 0 \<Longrightarrow> m' = digits M"
    using nat_expNN_value [of "digits (nat \<bar>a\<bar>)" "digits n" "digits M" z]
      modulus_kept_reused [OF assms] by (auto simp: w_def n_def M_def)
  define ng where "ng = (length w > 0 \<and> a < 0 \<and> odd n)"
  have ngn: "(length w > 0 \<and> neg (Int_of a) \<and> length (digits n) > 0 \<and> digits n ! 0 AND 1 = 1) = ng"
    by (cases "n = 0") (auto simp: ng_def digits_odd)
  have ms: "ng \<Longrightarrow> m' = digits M" using e(2) by (cases "n = 0") (simp_all add: ng_def)
  have "Int_Exp z (Int_of a) (Int_of b) (map_option Int_of m) =
      (if ng \<and> length m' > 0 then bindE (nat_sub m' w) (\<lambda>z. Inr (Some \<lparr>neg = False, mag = z\<rparr>)) else Inr (Some \<lparr>neg = ng, mag = w\<rparr>))"
    unfolding Int_Exp_def Let_def y md e(1) bindE.simps option.case prod.case ngn ..
  then have eq: "Int_Exp z (Int_of a) (Int_of b) (map_option Int_of m) = bindE
      (if ng \<and> M \<noteq> 0 then bindE (nat_sub (digits M) w) (\<lambda>z. Inr \<lparr>neg = False, mag = z\<rparr>) else Inr \<lparr>neg = ng, mag = w\<rparr>)
      (\<lambda>r. Inr (Some r))"
    using ms by (cases "nat_sub (digits M) w") auto
  consider "M = 0" | "M \<noteq> 0" "n = 1 \<and> M \<noteq> 1" | "M \<noteq> 0" "\<not> (n = 1 \<and> M \<noteq> 1)" by blast
  then have "(if ng \<and> M \<noteq> 0 then bindE (nat_sub (digits M) w) (\<lambda>z. Inr \<lparr>neg = False, mag = z\<rparr>) else Inr \<lparr>neg = ng, mag = w\<rparr>) =
     (if M = 0 then Inr (Int_of (a ^ n)) else if n = 1 \<and> M \<noteq> 1 then exp_one a M else Inr (Int_of (a ^ n mod int M)))"
  proof cases
    case 1
    then have z: "w = digits (nat \<bar>a ^ n\<bar>)"
      by (cases "n = 1") (simp_all add: w_def red_def power_abs nat_power_eq)
    have "ng = (a ^ n < 0)" unfolding ng_def z by (auto simp: power_less_zero_eq)
    then show ?thesis using 1 z by (simp add: Int_of_def)
  next
    case 2
    then have z: "w = digits (nat \<bar>a\<bar>)" "ng = (a < 0)" by (auto simp: w_def ng_def)
    show ?thesis
    proof (cases "a < 0")
      case True
      have "int (M - nat \<bar>a\<bar>) = int M + a" if "nat \<bar>a\<bar> \<le> M" using that True by (simp add: of_nat_diff)
      then show ?thesis using 2 z True
        by (auto simp: nat_sub_digits exp_one_def Int_of_pos not_less)
    next
      case False
      then show ?thesis using 2 z by (simp add: exp_one_def Int_of_def)
    qed
  next
    case 3
    define r where "r = nat \<bar>a\<bar> ^ n mod M"
    have z: "w = digits r" using 3 by (auto simp: w_def red_def r_def)
    have r: "r < M" using 3(1) by (simp add: r_def)
    have m: "a ^ n mod int M = (if a < 0 \<and> odd n \<and> 0 < r then int (M - r) else int r)"
      using neg_power_mod [of M a n] 3(1) by (simp add: r_def Let_def)
    show ?thesis unfolding m using 3 z r
      by (auto simp: ng_def nat_sub_digits Int_of_pos)
  qed
  then show ?thesis unfolding eq by (simp add: n_def M_def)
qed

section \<open>Gob\<close>

lemma Int_GobEncode_of:
  "\<exists>b. Int_GobEncode (Some (Int_of a)) = Inr b \<and> b \<noteq> [] \<and> Int_GobDecode b = Inr (Inr (Int_of a))"
proof -
  define z where "z = digits (nat \<bar>a\<bar>)"
  obtain i buf where b: "nat_bytes z (replicate (1 + length z * 8) 0) = Inr (i, buf)" "length buf = 1 + length z * 8"
      "i \<le> length buf" "1 \<le> i" "be_val (drop i buf) = val z"
    using nat_bytes_be [of z "replicate (1 + length z * 8) 0"] by auto
  define h :: byte where "h = (if a < 0 then push_bit 1 intGobVersion OR 1 else push_bit 1 intGobVersion)"
  have h: "drop_bit 1 h = intGobVersion" "h AND 1 \<noteq> 0 \<longleftrightarrow> a < 0" by (simp_all add: h_def intGobVersion_def)
  obtain k where k: "i = Suc k" using b(4) by (cases i) auto
  have d: "drop k (buf[k := h]) = h # drop i buf" using b(3) k by (simp add: Cons_nth_drop_Suc [symmetric])
  have hh: "(if neg (Int_of a) then push_bit 1 intGobVersion OR 1 else push_bit 1 intGobVersion) = h" by (simp add: h_def)
  have "mag (Int_of a) = z" "i \<noteq> 0" "i - 1 = k" using k by (simp_all add: z_def)
  then have "Int_GobEncode (Some (Int_of a)) = Inr (h # drop i buf)"
    unfolding Int_GobEncode_def Let_def hh by (simp only: option.case b(1) bindE.simps prod.case if_False hh d)
  moreover have "Int_GobDecode (h # drop i buf) = Inr (Inr (Int_of a))"
    using h b(5) by (simp add: Int_GobDecode_def nat_setBytes_digits z_def Int_of_def)
  ultimately show ?thesis by blast
qed

section \<open>The operations on well-formed integers\<close>

text \<open>C37: \<open>Lsh\<close>, \<open>Rsh\<close>, \<open>And\<close>, \<open>AndNot\<close>, \<open>Or\<close>, \<open>Xor\<close>, \<open>Not\<close>, \<open>Bit\<close> and \<open>SetBit\<close>, which work on sign and magnitude,
  are the bit operations on the infinite two's complement of the integers, negative ones included, and never
  panic for a bit index that is not negative.\<close>

theorem Int_bits_exact:
  assumes "Int_wf x" "Int_wf y" "0 \<le> i"
  shows "Int_Lsh x n = Inr (Int_of (push_bit n (ival x))) \<and> Int_Rsh x n = Inr (Int_of (drop_bit n (ival x))) \<and>
    Int_And x y = Inr (Int_of (ival x AND ival y)) \<and> Int_AndNot x y = Inr (Int_of (ival x AND NOT (ival y))) \<and>
    Int_Or x y = Inr (Int_of (ival x OR ival y)) \<and> Int_Xor x y = Inr (Int_of (ival x XOR ival y)) \<and>
    Int_Not x = Inr (Int_of (NOT (ival x))) \<and> Int_Bit x i = Inr (if bit (ival x) (nat i) then 1 else 0) \<and>
    Int_SetBit x i 1 = Inr (Int_of (Bit_Operations.set_bit (nat i) (ival x))) \<and>
    Int_SetBit x i 0 = Inr (Int_of (unset_bit (nat i) (ival x)))"
proof -
  obtain a b where "x = Int_of a" "y = Int_of b" using Int_of_ival [OF assms(1)] Int_of_ival [OF assms(2)] by metis
  then show ?thesis using assms(3)
    by (simp add: Int_Lsh_of Int_Rsh_of Int_And_of Int_AndNot_of Int_Or_of Int_Xor_of Int_Not_of Int_Bit_of Int_SetBit_of
        push_bit_eq_mult drop_bit_eq_div del: One_nat_def)
qed

lemma Int_bits_exact_witness:
  "Int_And \<lparr>neg = True, mag = [6]\<rparr> \<lparr>neg = False, mag = [12]\<rparr> = Inr (Int_of 8) \<and>
   Int_Rsh \<lparr>neg = True, mag = [6]\<rparr> 2 = Inr (Int_of (- 2))"
proof -
  have "Int_wf \<lparr>neg = True, mag = [6]\<rparr>" "Int_wf \<lparr>neg = False, mag = [12]\<rparr>" "0 \<le> (0 :: int)"
    by (simp_all add: Int_wf_def normal_def)
  note e = Int_bits_exact [OF this]
  have "ival \<lparr>neg = True, mag = [6]\<rparr> = - 6" "ival \<lparr>neg = False, mag = [12]\<rparr> = 12" by (simp_all add: ival_def)
  then show ?thesis using e by (simp add: drop_bit_eq_div)
qed

text \<open>C7: \<open>Exp\<close> returns \<open>x ^ y mod |m|\<close>, or \<open>x ^ y\<close> when there is no modulus or it is zero, with the
  exponent 0 for a negative \<open>y\<close>, through squaring over the bits of the exponent or through the table of 4-bit
  windows, also when the receiver is \<open>x\<close> or \<open>y\<close>. When the receiver is \<open>m\<close> this holds while \<open>|m|\<close> is at most 1,
  \<open>y\<close> is not positive, \<open>x\<close> is 0, or \<open>x\<close> has more words than the receiver has room for. The other exception is the
  exponent 1 with a modulus above 1, which returns \<open>x\<close> unreduced, or panics when \<open>x\<close> is negative and larger than
  the modulus.\<close>

theorem Int_Exp_exact:
  assumes "Int_wf x" "Int_wf y" "modulus_kept z (ival x) (ival y) (modulus_of m)"
  shows "Int_Exp z x y (map_option Int_of m) =
     (if modulus_of m = 0 then Inr (Some (Int_of (ival x ^ exp_of (ival y))))
      else if exp_of (ival y) = 1 \<and> modulus_of m \<noteq> 1 then bindE (exp_one (ival x) (modulus_of m)) (\<lambda>r. Inr (Some r))
      else Inr (Some (Int_of (ival x ^ exp_of (ival y) mod int (modulus_of m)))))"
  using Int_Exp_of [OF assms(3)] unfolding Int_of_ival [OF assms(1)] Int_of_ival [OF assms(2)] .

lemma Int_Exp_exact_witness:
  "Int_Exp With_x \<lparr>neg = True, mag = [3]\<rparr> \<lparr>neg = False, mag = [5]\<rparr> (Some (Int_of 7)) = Inr (Some (Int_of 2)) \<and>
   Int_Exp Separate \<lparr>neg = True, mag = [9]\<rparr> \<lparr>neg = False, mag = [1]\<rparr> (Some (Int_of 7)) = Inl (PanicMsg ''underflow'')"
proof -
  have w: "Int_wf \<lparr>neg = True, mag = [3]\<rparr>" "Int_wf \<lparr>neg = False, mag = [5]\<rparr>" "Int_wf \<lparr>neg = True, mag = [9]\<rparr>"
    "Int_wf \<lparr>neg = False, mag = [1]\<rparr>" by (simp_all add: Int_wf_def normal_def)
  have k: "modulus_kept With_x a b M" "modulus_kept Separate a b M" for a b M by (simp_all add: modulus_kept_def)
  have "ival \<lparr>neg = True, mag = [3]\<rparr> = - 3" "ival \<lparr>neg = False, mag = [5]\<rparr> = 5" "ival \<lparr>neg = True, mag = [9]\<rparr> = - 9"
    "ival \<lparr>neg = False, mag = [1]\<rparr> = 1" by (simp_all add: ival_def)
  then show ?thesis using Int_Exp_exact [OF w(1,2) k(1), of "Some 7"] Int_Exp_exact [OF w(3,4) k(2), of "Some 7"]
    by (simp add: modulus_of_def exp_of_def exp_one_def)
qed

text \<open>C39: \<open>GobEncode\<close> never panics and writes bytes that \<open>GobDecode\<close> turns back into the integer, and the
  decoder returns, for every sequence of bytes, a zero, the sign and the magnitude in big-endian bytes, or the
  version error, without a panic.\<close>

theorem gob_roundtrip:
  assumes "Int_wf x"
  shows "(\<exists>buf. Int_GobEncode (Some x) = Inr buf \<and> Int_GobDecode buf = Inr (Inr x)) \<and>
    Int_GobDecode [] = Inr (Inr (Int_of 0)) \<and>
    Int_GobDecode (b # bs) =
      (if drop_bit 1 b \<noteq> intGobVersion then Inr (Inl (VersionNotSupported (drop_bit 1 b)))
       else Inr (Inr \<lparr>neg = odd b, mag = digits (be_val bs)\<rparr>))"
proof -
  have o: "(b AND 1 \<noteq> 0) = odd b" by (simp add: and_one_eq odd_iff_mod_2_eq_one)
  have r: "\<exists>buf. Int_GobEncode (Some x) = Inr buf \<and> Int_GobDecode buf = Inr (Inr x)"
    using Int_GobEncode_of [of "ival x"] unfolding Int_of_ival [OF assms] by blast
  have "Int_GobDecode [] = Inr (Inr (Int_of 0))" by (simp add: Int_GobDecode_def Int_of_def)
  moreover have "Int_GobDecode (b # bs) =
      (if drop_bit 1 b \<noteq> intGobVersion then Inr (Inl (VersionNotSupported (drop_bit 1 b)))
       else Inr (Inr \<lparr>neg = odd b, mag = digits (be_val bs)\<rparr>))"
    unfolding Int_GobDecode_def Let_def by (simp only: nth_Cons_0 drop_Suc_Cons drop0 One_nat_def nat_setBytes_digits bindE.simps o [symmetric] list.size) simp
  ultimately show ?thesis using r by blast
qed

lemma gob_roundtrip_witness:
  "(\<exists>buf. Int_GobEncode (Some \<lparr>neg = True, mag = [258]\<rparr>) = Inr buf \<and> Int_GobDecode buf = Inr (Inr \<lparr>neg = True, mag = [258]\<rparr>)) \<and>
   Int_GobDecode [9, 1] = Inr (Inl (VersionNotSupported 4))"
proof -
  have "Int_wf \<lparr>neg = True, mag = [258]\<rparr>" by (simp add: Int_wf_def normal_def)
  from gob_roundtrip [OF this, of 9 "[1]"] show ?thesis by (simp add: intGobVersion_def drop_bit_eq_div)
qed

end
