(* ===== verification/Go_IntGcd.thy ===== *)
theory Go_IntGcd
  imports Go_IntBits
begin

unbundle bit_operations_syntax

text \<open>
  Package math/big, int.go: greatest common divisors, by Euclid's algorithm with the two cofactors or by
  Knuth's binary algorithm, and inverses modulo \<open>n\<close>. The loops are partial functions: that they end is
  proved, not built in. \<open>binaryGCD\<close> writes \<open>z\<close> before it has read both operands, and \<open>ModInverse\<close> before it reads \<open>n\<close> again; which operand
  \<open>z\<close> is is an argument of the model. The results of \<open>GCD\<close> are stored in the order \<open>x\<close>, \<open>y\<close>, \<open>z\<close>.
\<close>

section \<open>The code\<close>

fun bindO :: "'e + 'a \<Rightarrow> ('a \<Rightarrow> ('e + 'b) option) \<Rightarrow> ('e + 'b) option" where
  "bindO (Inl e) k = Some (Inl e)"
| "bindO (Inr x) k = k x"

lemma bindO_mono [partial_function_mono]:
  assumes "\<And>x. mono_option (\<lambda>f. k f x)"
  shows "mono_option (\<lambda>f. bindO m (k f))"
  using assms by (cases m) (simp_all add: monotone_def flat_ord_def)

definition gcd_body :: "BigInt \<Rightarrow> BigInt \<Rightarrow> BigInt \<Rightarrow> BigInt \<Rightarrow> BigInt \<Rightarrow> BigInt \<Rightarrow> panic + BigInt \<times> BigInt \<times> BigInt" where
  "gcd_body A B X Y lastX lastY =
     bindE (Int_QuoRem A B) (\<lambda>(q, r).
     bindE (Int_Mul X q) (\<lambda>X. bindE (Int_Add (X\<lparr>neg := \<not> neg X\<rparr>) lastX) (\<lambda>X.
     bindE (Int_Mul Y q) (\<lambda>Y. bindE (Int_Add (Y\<lparr>neg := \<not> neg Y\<rparr>) lastY) (\<lambda>Y.
     Inr (r, X, Y))))))"

partial_function (option) gcd_loop ::
    "BigInt \<Rightarrow> BigInt \<Rightarrow> BigInt \<Rightarrow> BigInt \<Rightarrow> BigInt \<Rightarrow> BigInt \<Rightarrow> (panic + BigInt \<times> BigInt \<times> BigInt) option" where
  "gcd_loop A B X Y lastX lastY =
     (if length (mag B) > 0
      then bindO (gcd_body A B X Y lastX lastY) (\<lambda>(r, X', Y'). gcd_loop B r X' Y' X Y)
      else Some (Inr (A, lastX, lastY)))"

text \<open>Which operand the receiver \<open>z\<close> of \<open>binaryGCD\<close> is.\<close>

datatype receiver = Fresh | Is_a | Is_b

definition binaryGCD_start :: "receiver \<Rightarrow> BigInt \<Rightarrow> BigInt \<Rightarrow> panic + BigInt \<times> BigInt" where
  "binaryGCD_start z a b =
     (if length (mag a) > length (mag b)
      then (let u = b; a = (if z = Is_a then u else a) in bindE (Int_Rem a b) (\<lambda>v. Inr (u, v)))
      else if length (mag a) < length (mag b)
      then (let u = a; b = (if z = Is_b then u else b) in bindE (Int_Rem b a) (\<lambda>v. Inr (u, v)))
      else (let u = a; b = (if z = Is_b then u else b) in Inr (u, b)))"

definition binaryGCD_body :: "BigInt \<Rightarrow> BigInt \<Rightarrow> BigInt \<Rightarrow> panic + BigInt \<times> BigInt \<times> BigInt" where
  "binaryGCD_body u v t =
     bindE (nat_trailingZeroBits (mag t)) (\<lambda>k.
     bindE (Int_Rsh t k) (\<lambda>t.
     let (u, v) = (if neg t then (u, t\<lparr>neg := 0 < length (mag t) \<and> \<not> neg t\<rparr>) else (t, v)) in
     bindE (Int_Sub u v) (\<lambda>t. Inr (u, v, t))))"

partial_function (option) binaryGCD_loop :: "BigInt \<Rightarrow> BigInt \<Rightarrow> BigInt \<Rightarrow> (panic + BigInt) option" where
  "binaryGCD_loop u v t =
     (if length (mag t) > 0
      then bindO (binaryGCD_body u v t) (\<lambda>(u, v, t). binaryGCD_loop u v t)
      else Some (Inr u))"

definition binaryGCD :: "receiver \<Rightarrow> BigInt \<Rightarrow> BigInt \<Rightarrow> (panic + BigInt) option" where
  "binaryGCD z a b =
     bindO (binaryGCD_start z a b) (\<lambda>(u, v).
     if length (mag v) = 0 then Some (Inr u)
     else
       bindO (nat_trailingZeroBits (mag u)) (\<lambda>k.
       bindO (nat_trailingZeroBits (mag v)) (\<lambda>vk.
       let k = (if vk < k then vk else k) in
       bindO (Int_Rsh u k) (\<lambda>u.
       bindO (Int_Rsh v k) (\<lambda>v.
       map_option (\<lambda>r. bindE r (\<lambda>u. Int_Lsh u k))
         (binaryGCD_loop u v (if mag u ! 0 AND 1 \<noteq> 0 then Int_Neg v else u)))))))"

definition Int_GCD :: "bool \<Rightarrow> bool \<Rightarrow> receiver \<Rightarrow> BigInt \<Rightarrow> BigInt \<Rightarrow> (panic + BigInt \<times> BigInt option \<times> BigInt option) option" where
  "Int_GCD x y z a b =
     (if Int_Sign a \<le> 0 \<or> Int_Sign b \<le> 0
      then Some (Inr (Int_SetInt64 0, if x then Some (Int_SetInt64 0) else None, if y then Some (Int_SetInt64 0) else None))
      else if \<not> x \<and> \<not> y then map_option (\<lambda>r. bindE r (\<lambda>z. Inr (z, None, None))) (binaryGCD z a b)
      else map_option (\<lambda>r. bindE r (\<lambda>(A, lastX, lastY).
          Inr (A, if x then Some lastX else None, if y then Some lastY else None)))
        (gcd_loop a b \<lparr>neg = False, mag = []\<rparr> (Int_SetInt64 1) (Int_SetInt64 1) \<lparr>neg = False, mag = []\<rparr>))"

text \<open>\<open>GCD\<close> has stored the cofactor in the receiver before \<open>n\<close> is read again; \<open>z_is_n\<close> tells whether they are one.\<close>

definition Int_ModInverse :: "bool \<Rightarrow> BigInt \<Rightarrow> BigInt \<Rightarrow> (panic + BigInt) option" where
  "Int_ModInverse z_is_n g n =
     map_option (\<lambda>r. bindE r (\<lambda>(d, x, y).
       let z = the x; n = (if z_is_n then z else n) in if neg z then Int_Add z n else Inr z)) (Int_GCD True False Fresh g n)"

section \<open>Euclid's algorithm\<close>

lemma new_of: "\<lparr>neg = False, mag = []\<rparr> = Int_of 0"
  by (simp add: Int_of_def)

lemma flip_val: "normal (mag x) \<Longrightarrow> Int_Add (x\<lparr>neg := \<not> neg x\<rparr>) (Int_of b) = Inr (Int_of (b - ival x))"
proof -
  assume n: "normal (mag x)"
  have "ival (x\<lparr>neg := \<not> neg x\<rparr>) + ival (Int_of b) = b - ival x" by (simp add: ival_def [of x] ival_def [of "x\<lparr>neg := \<not> neg x\<rparr>"])
  then show ?thesis using Int_Add_val [of "x\<lparr>neg := \<not> neg x\<rparr>" "Int_of b"] n by simp
qed

lemma flip_of: "Int_Add ((Int_of a)\<lparr>neg := \<not> a < 0\<rparr>) (Int_of b) = Inr (Int_of (b - a))"
  using flip_val [of "Int_of a" b] by simp

lemma gcd_body_of:
  "b \<noteq> 0 \<Longrightarrow> gcd_body (Int_of a) (Int_of b) (Int_of x) (Int_of y) (Int_of lx) (Int_of ly) =
     Inr (Int_of (a smod b), Int_of (lx - x * (a sdiv b)), Int_of (ly - y * (a sdiv b)))"
  by (simp add: gcd_body_def Int_QuoRem_of flip_of)

lemma gcd_loop_of:
  fixes a0 b0 :: int
  shows "0 \<le> b \<Longrightarrow> 0 \<le> a \<Longrightarrow> a = a0 * lx + b0 * ly \<Longrightarrow> b = a0 * x + b0 * y \<Longrightarrow>
    \<exists>u v. gcd_loop (Int_of a) (Int_of b) (Int_of x) (Int_of y) (Int_of lx) (Int_of ly) =
        Some (Inr (Int_of (gcd a b), Int_of u, Int_of v)) \<and> gcd a b = a0 * u + b0 * v"
proof (induction "nat b" arbitrary: a b x y lx ly rule: less_induct)
  case less
  show ?case
  proof (cases "b = 0")
    case True
    then show ?thesis using less.prems by (subst gcd_loop.simps) auto
  next
    case False
    then have b: "0 < b" using less.prems(1) by simp
    have m: "a smod b = a mod b" "a sdiv b = a div b"
      using less.prems(2) b by (simp_all add: signed_modulo_int_def signed_divide_int_def sgn_if)
    define q where "q = a div b"
    have r: "a mod b = a0 * (lx - x * q) + b0 * (ly - y * q)"
    proof -
      have "a mod b = a - q * b" unfolding q_def by (simp add: minus_div_mult_eq_mod)
      then show ?thesis unfolding less.prems(3) by (subst (asm) (2) less.prems(4)) (simp add: algebra_simps)
    qed
    have "nat (a mod b) < nat b" "0 \<le> a mod b" using b by simp_all
    from less.hyps [OF this(1) this(2) less.prems(1,4) r]
    obtain u v where uv: "gcd_loop (Int_of b) (Int_of (a mod b)) (Int_of (lx - x * q)) (Int_of (ly - y * q)) (Int_of x) (Int_of y) =
        Some (Inr (Int_of (gcd b (a mod b)), Int_of u, Int_of v))" "gcd b (a mod b) = a0 * u + b0 * v" by blast
    have "gcd b (a mod b) = gcd a b" by (metis gcd.commute gcd_red_int)
    then show ?thesis using uv False b
      by (intro exI [of _ u] exI [of _ v], subst gcd_loop.simps) (simp add: gcd_body_of m q_def [symmetric])
  qed
qed

lemma Int_SetInt64_const: "Int_SetInt64 0 = Int_of 0" "Int_SetInt64 1 = Int_of 1"
  by (simp_all add: Int_SetInt64_of)

lemma Int_GCD_extended:
  assumes "0 < a" "0 < b" "x \<or> y"
  shows "\<exists>u v. Int_GCD x y z (Int_of a) (Int_of b) =
      Some (Inr (Int_of (gcd a b), if x then Some (Int_of u) else None, if y then Some (Int_of v) else None)) \<and>
    gcd a b = a * u + b * v"
proof -
  obtain u v where uv: "gcd_loop (Int_of a) (Int_of b) (Int_of 0) (Int_of 1) (Int_of 1) (Int_of 0) =
        Some (Inr (Int_of (gcd a b), Int_of u, Int_of v))" and g: "gcd a b = a * u + b * v"
    using gcd_loop_of [of b a a 1 b 0 0 1] assms by auto
  have "Int_GCD x y z (Int_of a) (Int_of b) =
      Some (Inr (Int_of (gcd a b), if x then Some (Int_of u) else None, if y then Some (Int_of v) else None))"
    using assms uv by (cases x; cases y) (simp_all add: Int_GCD_def Int_Sign_of new_of Int_SetInt64_const)
  then show ?thesis using g by blast
qed

lemma Int_ModInverse_of:
  assumes "0 < g" "0 < n" "gcd g n = 1"
  shows "\<exists>w. (g * w) mod n = 1 mod n \<and>
    Int_ModInverse False (Int_of g) (Int_of n) = Some (Inr (Int_of (if w < 0 then w + n else w))) \<and>
    Int_ModInverse True (Int_of g) (Int_of n) = Some (Inr (Int_of (if w < 0 then w + w else w)))"
proof -
  obtain u v where uv: "Int_GCD True False Fresh (Int_of g) (Int_of n) = Some (Inr (Int_of 1, Some (Int_of u), None))"
      "1 = g * u + n * v"
    using Int_GCD_extended [OF assms(1,2), of True False Fresh] assms(3) by auto
  have "g * u = 1 + n * (- v)" using uv(2) by (simp add: algebra_simps)
  then have "(g * u) mod n = 1 mod n" by (simp only: mod_mult_self2)
  moreover have "Int_ModInverse False (Int_of g) (Int_of n) = Some (Inr (Int_of (if u < 0 then u + n else u)))"
    "Int_ModInverse True (Int_of g) (Int_of n) = Some (Inr (Int_of (if u < 0 then u + u else u)))"
    using uv(1) by (simp_all add: Int_ModInverse_def)
  ultimately show ?thesis by blast
qed

text \<open>An inverse modulo 7 that is stored over the modulus.\<close>

lemma Int_ModInverse_overwritten: "Int_ModInverse True (Int_of 3) (Int_of 7) = Some (Inr (Int_of (- 4)))"
proof -
  have "gcd_loop (Int_of 3) (Int_of 7) (Int_of 0) (Int_of 1) (Int_of 1) (Int_of 0) =
      Some (Inr (Int_of 1, Int_of (- 2), Int_of 1))"
    by (subst gcd_loop.simps, simp add: gcd_body_of signed_divide_int_def signed_modulo_int_def)+
  then show ?thesis by (simp add: Int_ModInverse_def Int_GCD_def Int_Sign_of new_of Int_SetInt64_const)
qed

section \<open>The binary algorithm\<close>

lemma tzb_of:
  assumes "c \<noteq> 0"
  shows "\<exists>k w. nat_trailingZeroBits (digits (nat \<bar>c\<bar>)) = Inr k \<and> c = w * 2 ^ k \<and> odd w"
proof -
  obtain k where k: "nat_trailingZeroBits (digits (nat \<bar>c\<bar>)) = Inr k" "2 ^ k dvd nat \<bar>c\<bar>" "odd (nat \<bar>c\<bar> div 2 ^ k)"
    using nat_trailingZeroBits_val [of "digits (nat \<bar>c\<bar>)"] assms by auto
  define m where "m = nat \<bar>c\<bar> div 2 ^ k"
  have "nat \<bar>c\<bar> = m * 2 ^ k" using k(2) by (simp add: m_def)
  then have "\<bar>c\<bar> = int m * 2 ^ k" by (metis abs_ge_zero nat_0_le of_nat_mult of_nat_numeral of_nat_power)
  then have "c = (sgn c * int m) * 2 ^ k" by (metis mult.assoc sgn_mult_abs)
  moreover have "odd (sgn c * int m)" using k(3) assms by (simp add: m_def sgn_if)
  ultimately show ?thesis using k(1) by blast
qed

lemma gcd_odd_factor: "odd v \<Longrightarrow> gcd (w * 2 ^ k) v = gcd w v" for v w :: int
proof -
  assume "odd v"
  then have "coprime v (2 ^ k)" by simp
  then show ?thesis by (simp add: gcd_mult_left_right_cancel)
qed

lemma binaryGCD_body_of:
  assumes "c \<noteq> 0"
  shows "\<exists>w k. c = w * 2 ^ k \<and> odd w \<and> binaryGCD_body (Int_of u) (Int_of v) (Int_of c) =
    (if c < 0 then Inr (Int_of u, Int_of (- w), Int_of (u + w)) else Inr (Int_of w, Int_of v, Int_of (w - v)))"
proof -
  obtain k w where k: "nat_trailingZeroBits (digits (nat \<bar>c\<bar>)) = Inr k" "c = w * 2 ^ k" "odd w"
    using tzb_of [OF assms] by blast
  have "c div 2 ^ k = w" using k(2) by simp
  then have r: "Int_Rsh (Int_of c) k = Inr (Int_of w)" by (simp add: Int_Rsh_of)
  have s: "w < 0 \<longleftrightarrow> c < 0" unfolding k(2) by (simp add: mult_less_0_iff)
  have n: "(Int_of w)\<lparr>neg := 0 < length (mag (Int_of w)) \<and> \<not> neg (Int_of w)\<rparr> = Int_of (- w)"
    using Int_Neg_of [of w] by (simp only: Int_Neg_def)
  have "binaryGCD_body (Int_of u) (Int_of v) (Int_of c) =
      (let (u, v) = (if neg (Int_of w) then (Int_of u, Int_of (- w)) else (Int_of w, Int_of v)) in
       bindE (Int_Sub u v) (\<lambda>t. Inr (u, v, t)))"
    unfolding binaryGCD_body_def Int_of_sel(2) [of c] k(1) bindE.simps r n ..
  then have "binaryGCD_body (Int_of u) (Int_of v) (Int_of c) =
      (if c < 0 then Inr (Int_of u, Int_of (- w), Int_of (u + w)) else Inr (Int_of w, Int_of v, Int_of (w - v)))"
    using s by simp
  then show ?thesis using k(2,3) by blast
qed

lemma binaryGCD_loop_of:
  "0 < u \<Longrightarrow> 0 < v \<Longrightarrow> odd u \<Longrightarrow> odd v \<Longrightarrow>
   binaryGCD_loop (Int_of u) (Int_of v) (Int_of (u - v)) = Some (Inr (Int_of (gcd u v)))"
proof (induction "nat (u + v)" arbitrary: u v rule: less_induct)
  case less
  define c where "c = u - v"
  show ?case
  proof (cases "c = 0")
    case True
    then show ?thesis using less.prems by (subst binaryGCD_loop.simps) (simp add: c_def)
  next
    case False
    then obtain w k where w: "c = w * 2 ^ k" "odd w" "binaryGCD_body (Int_of u) (Int_of v) (Int_of c) =
        (if c < 0 then Inr (Int_of u, Int_of (- w), Int_of (u + w)) else Inr (Int_of w, Int_of v, Int_of (w - v)))"
      using binaryGCD_body_of by blast
    have st: "binaryGCD_loop (Int_of u) (Int_of v) (Int_of c) =
        bindO (binaryGCD_body (Int_of u) (Int_of v) (Int_of c)) (\<lambda>(u, v, t). binaryGCD_loop u v t)"
      using False by (subst binaryGCD_loop.simps) simp
    show ?thesis
    proof (cases "c < 0")
      case True
      then have "w < 0" unfolding w(1) by (simp add: mult_less_0_iff)
      then have "c \<le> w" unfolding w(1) by simp
      have g: "gcd u (- w) = gcd u v"
      proof -
        have "gcd u v = gcd (v - u) u" by (metis gcd.commute gcd_diff1)
        also have "v - u = (- w) * 2 ^ k" using w(1) by (simp add: c_def)
        also have "gcd ((- w) * 2 ^ k) u = gcd (- w) u" by (rule gcd_odd_factor [OF less.prems(3)])
        finally show ?thesis by (simp add: gcd.commute)
      qed
      have "nat (u + - w) < nat (u + v)" using \<open>c \<le> w\<close> less.prems by (simp add: c_def)
      then have "binaryGCD_loop (Int_of u) (Int_of (- w)) (Int_of (u - - w)) = Some (Inr (Int_of (gcd u (- w))))"
        using \<open>w < 0\<close> w(2) less.prems by (intro less.hyps) simp_all
      then show ?thesis using st w(3) True g unfolding c_def by simp
    next
      case nn: False
      then have "0 < w" using False unfolding w(1) by (simp add: mult_less_0_iff)
      then have "w \<le> c" unfolding w(1) by simp
      have g: "gcd w v = gcd u v"
      proof -
        have "gcd u v = gcd (u - v) v" by (metis gcd_diff1)
        also have "u - v = w * 2 ^ k" using w(1) by (simp add: c_def)
        also have "gcd (w * 2 ^ k) v = gcd w v" by (rule gcd_odd_factor [OF less.prems(4)])
        finally show ?thesis by simp
      qed
      have "nat (w + v) < nat (u + v)" using \<open>w \<le> c\<close> less.prems by (simp add: c_def)
      then have "binaryGCD_loop (Int_of w) (Int_of v) (Int_of (w - v)) = Some (Inr (Int_of (gcd w v)))"
        using \<open>0 < w\<close> w(2) less.prems by (intro less.hyps) simp_all
      then show ?thesis using st w(3) nn g unfolding c_def by simp
    qed
  qed
qed

text \<open>The first pass: \<open>t\<close> is \<open>-v\<close> when \<open>u\<close> is odd, else \<open>u\<close>.\<close>

lemma binaryGCD_first:
  assumes "0 < u" "0 < v" "odd u \<or> odd v"
  shows "binaryGCD_loop (Int_of u) (Int_of v) (if odd u then Int_of (- v) else Int_of u) = Some (Inr (Int_of (gcd u v)))"
proof -
  define c where "c = (if odd u then - v else u)"
  have c: "c \<noteq> 0" "c < 0 \<longleftrightarrow> odd u" using assms by (auto simp: c_def)
  obtain w k where w: "c = w * 2 ^ k" "odd w" "binaryGCD_body (Int_of u) (Int_of v) (Int_of c) =
        (if c < 0 then Inr (Int_of u, Int_of (- w), Int_of (u + w)) else Inr (Int_of w, Int_of v, Int_of (w - v)))"
    using binaryGCD_body_of [OF c(1)] by blast
  have st: "binaryGCD_loop (Int_of u) (Int_of v) (Int_of c) =
      bindO (binaryGCD_body (Int_of u) (Int_of v) (Int_of c)) (\<lambda>(u, v, t). binaryGCD_loop u v t)"
    using c(1) by (subst binaryGCD_loop.simps) simp
  have "binaryGCD_loop (Int_of u) (Int_of v) (Int_of c) = Some (Inr (Int_of (gcd u v)))"
  proof (cases "odd u")
    case True
    then have "w * 2 ^ k < 0" using c(2) w(1) by simp
    then have "w < 0" by (simp add: mult_less_0_iff)
    have "v = (- w) * 2 ^ k" using w(1) True by (simp add: c_def)
    then have "gcd u v = gcd u (- w)" using gcd_odd_factor [OF True, of "- w" k] by (simp add: gcd.commute)
    then show ?thesis
      using st w(3) c(2) True binaryGCD_loop_of [of u "- w"] \<open>w < 0\<close> w(2) assms(1) by simp
  next
    case False
    then have v: "odd v" using assms(3) by simp
    have "0 < w * 2 ^ k" using False w(1) assms(1) by (simp add: c_def)
    then have "0 < w" by (simp add: zero_less_mult_iff)
    have "u = w * 2 ^ k" using w(1) False by (simp add: c_def)
    then have "gcd u v = gcd w v" using gcd_odd_factor [OF v, of w k] by simp
    then show ?thesis
      using st w(3) c(2) False binaryGCD_loop_of [of w v] \<open>0 < w\<close> w(2) v assms(2) by simp
  qed
  then show ?thesis by (cases "odd u") (simp_all add: c_def)
qed

lemma word_odd: "(x :: Word) AND 1 \<noteq> 0 \<longleftrightarrow> x AND 1 = 1"
  by (simp add: and_one_eq)

lemma binaryGCD_after:
  assumes "0 < u" "0 \<le> v" "binaryGCD_start z a b = Inr (Int_of u, Int_of v)"
  shows "binaryGCD z a b = Some (Inr (Int_of (gcd u v)))"
proof (cases "v = 0")
  case True
  then show ?thesis using assms by (simp add: binaryGCD_def)
next
  case False
  then have "0 < v" "u \<noteq> 0" using assms by simp_all
  obtain ku wu where u: "nat_trailingZeroBits (digits (nat \<bar>u\<bar>)) = Inr ku" "u = wu * 2 ^ ku" "odd wu"
    using tzb_of [OF \<open>u \<noteq> 0\<close>] by blast
  obtain kv wv where v: "nat_trailingZeroBits (digits (nat \<bar>v\<bar>)) = Inr kv" "v = wv * 2 ^ kv" "odd wv"
    using tzb_of [OF False] by blast
  define k where "k = (if kv < ku then kv else ku)"
  define u' v' where "u' = wu * 2 ^ (ku - k)" and "v' = wv * 2 ^ (kv - k)"
  have e: "u = u' * 2 ^ k" "v = v' * 2 ^ k"
    unfolding u'_def v'_def mult.assoc power_add [symmetric] using u(2) v(2) by (simp_all add: k_def)
  then have r: "Int_Rsh (Int_of u) k = Inr (Int_of u')" "Int_Rsh (Int_of v) k = Inr (Int_of v')"
    by (simp_all add: Int_Rsh_of)
  have p: "0 < u'" "0 < v'" using assms(1) \<open>0 < v\<close> unfolding e by (simp_all add: zero_less_mult_iff)
  have o: "odd u' \<or> odd v'" using u(3) v(3) by (simp add: u'_def v'_def k_def)
  have t: "(if mag (Int_of u') ! 0 AND 1 \<noteq> 0 then Int_Neg (Int_of v') else Int_of u') =
      (if odd u' then Int_of (- v') else Int_of u')"
  proof -
    have "digits (nat \<bar>u'\<bar>) ! 0 AND 1 = 1 \<longleftrightarrow> odd (nat \<bar>u'\<bar>)" using p(1) by (intro digits_odd) simp
    also have "\<dots> \<longleftrightarrow> odd u'" using p(1) by (simp add: even_nat_iff)
    finally show ?thesis unfolding word_odd Int_of_sel(2) by simp
  qed
  have "gcd u v = gcd u' v' * 2 ^ k"
    unfolding e using gcd_mult_distrib_int [of "2 ^ k" u' v'] by (simp add: mult.commute)
  moreover have "binaryGCD z a b =
      map_option (\<lambda>r. bindE r (\<lambda>u. Int_Lsh u k))
        (binaryGCD_loop (Int_of u') (Int_of v') (if odd u' then Int_of (- v') else Int_of u'))"
    unfolding binaryGCD_def assms(3) bindO.simps prod.case Int_of_sel(2) u(1) v(1) Let_def k_def [symmetric] r
      t [unfolded Int_of_sel(2)] using False by simp
  ultimately show ?thesis unfolding binaryGCD_first [OF p o] by (simp add: Int_Lsh_of)
qed

lemma rem_pos: "0 < a \<Longrightarrow> 0 < b \<Longrightarrow> Int_Rem (Int_of a) (Int_of b) = Inr (Int_of (a mod b))"
  by (simp add: Int_Rem_QuoRem Int_QuoRem_of signed_modulo_int_def signed_divide_int_def minus_div_mult_eq_mod)

abbreviation words :: "int \<Rightarrow> nat" where "words a \<equiv> length (digits (nat a))"

text \<open>
  What the algorithm returns. Where the receiver is the longer operand, or the second of two operands of one
  length, the first copy overwrites it, the remainder is zero, and the other operand comes back.
\<close>

lemma binaryGCD_of:
  assumes "0 < a" "0 < b"
  shows "binaryGCD z (Int_of a) (Int_of b) = Some (Inr (Int_of
    (if z = Is_a \<and> words b < words a then b else if z = Is_b \<and> words a \<le> words b then a else gcd a b)))"
proof -
  consider (al) "words b < words a" | (bl) "words a < words b" | (eq) "words a = words b" by linarith
  then show ?thesis
  proof cases
    case al
    have "binaryGCD_start z (Int_of a) (Int_of b) = Inr (Int_of b, Int_of (if z = Is_a then 0 else a mod b))"
      using al assms by (simp add: binaryGCD_start_def rem_pos Let_def)
    then have "binaryGCD z (Int_of a) (Int_of b) = Some (Inr (Int_of (gcd b (if z = Is_a then 0 else a mod b))))"
      using assms by (intro binaryGCD_after) simp_all
    moreover have "gcd b (a mod b) = gcd a b" by (metis gcd.commute gcd_red_int)
    ultimately show ?thesis using al assms by (cases z) simp_all
  next
    case bl
    have "binaryGCD_start z (Int_of a) (Int_of b) = Inr (Int_of a, Int_of (if z = Is_b then 0 else b mod a))"
      using bl assms by (simp add: binaryGCD_start_def rem_pos Let_def)
    then have "binaryGCD z (Int_of a) (Int_of b) = Some (Inr (Int_of (gcd a (if z = Is_b then 0 else b mod a))))"
      using assms by (intro binaryGCD_after) simp_all
    moreover have "gcd a (b mod a) = gcd a b" by (metis gcd.commute gcd_red_int)
    ultimately show ?thesis using bl assms by (cases z) simp_all
  next
    case eq
    have "binaryGCD_start z (Int_of a) (Int_of b) = Inr (Int_of a, Int_of (if z = Is_b then a else b))"
      using eq assms by (simp add: binaryGCD_start_def Let_def)
    then have "binaryGCD z (Int_of a) (Int_of b) = Some (Inr (Int_of (gcd a (if z = Is_b then a else b))))"
      using assms by (intro binaryGCD_after) simp_all
    then show ?thesis using eq assms by (cases z) simp_all
  qed
qed

section \<open>What GCD and ModInverse return\<close>

lemma Int_GCD_nonpositive:
  "a \<le> 0 \<or> b \<le> 0 \<Longrightarrow> Int_GCD cx cy z (Int_of a) (Int_of b) =
     Some (Inr (Int_of 0, if cx then Some (Int_of 0) else None, if cy then Some (Int_of 0) else None))"
  unfolding Int_GCD_def Int_Sign_of Int_SetInt64_const by (auto simp: sgn_if)

text \<open>C8: For positive operands \<open>GCD\<close> returns: with a cofactor asked for, the greatest common divisor and
  cofactors with \<open>a * u + b * v = gcd a b\<close>, through Euclid's algorithm; without, the same number through the
  binary algorithm, unless the receiver is the longer operand or the second of two operands of one length, in
  which case the other operand comes back. It always returns. For operands that are not positive all results are
  zero. For positive \<open>g\<close> and \<open>n\<close> without a common factor \<open>ModInverse\<close> returns an inverse of \<open>g\<close> modulo \<open>n\<close>, unless
  its receiver is \<open>n\<close> and the cofactor is negative: then twice the cofactor comes back, as for 3 and 7. It returns 0
  when one of them is not positive.\<close>

theorem GCD_exact:
  assumes "Int_wf x" "Int_wf y"
  shows "\<exists>u v w. Int_GCD cx cy z x y = Some (Inr
      (if ival x \<le> 0 \<or> ival y \<le> 0
       then (Int_of 0, if cx then Some (Int_of 0) else None, if cy then Some (Int_of 0) else None)
       else if cx \<or> cy
       then (Int_of (gcd (ival x) (ival y)), if cx then Some (Int_of u) else None, if cy then Some (Int_of v) else None)
       else (if z = Is_a \<and> length (mag y) < length (mag x) then y
             else if z = Is_b \<and> length (mag x) \<le> length (mag y) then x
             else Int_of (gcd (ival x) (ival y)), None, None))) \<and>
    gcd (ival x) (ival y) = ival x * u + ival y * v \<and>
    (0 < ival x \<longrightarrow> 0 < ival y \<longrightarrow> coprime (ival x) (ival y) \<longrightarrow>
       (ival x * w) mod ival y = 1 mod ival y \<and>
       Int_ModInverse False x y = Some (Inr (Int_of (if w < 0 then w + ival y else w))) \<and>
       Int_ModInverse True x y = Some (Inr (Int_of (if w < 0 then w + w else w)))) \<and>
    (ival x \<le> 0 \<or> ival y \<le> 0 \<longrightarrow> Int_ModInverse z_is_n x y = Some (Inr (Int_of 0))) \<and>
    Int_ModInverse True (Int_of 3) (Int_of 7) = Some (Inr (Int_of (- 4)))"
proof -
  obtain a b where xy: "x = Int_of a" "y = Int_of b" using Int_of_ival [OF assms(1)] Int_of_ival [OF assms(2)] by metis
  obtain w where w: "0 < a \<Longrightarrow> 0 < b \<Longrightarrow> coprime a b \<Longrightarrow> (a * w) mod b = 1 mod b \<and>
      Int_ModInverse False x y = Some (Inr (Int_of (if w < 0 then w + b else w))) \<and>
      Int_ModInverse True x y = Some (Inr (Int_of (if w < 0 then w + w else w)))"
    using Int_ModInverse_of [of a b] unfolding xy by (metis coprime_imp_gcd_eq_1)
  have m: "Int_ModInverse z_is_n x y = Some (Inr (Int_of 0))" if "a \<le> 0 \<or> b \<le> 0"
    using Int_GCD_nonpositive [OF that] unfolding xy by (simp add: Int_ModInverse_def)
  note o = Int_ModInverse_overwritten
  consider (np) "a \<le> 0 \<or> b \<le> 0" | (ext) "0 < a" "0 < b" "cx \<or> cy" | (bin) "0 < a" "0 < b" "\<not> cx" "\<not> cy" by linarith
  then show ?thesis
  proof cases
    case np
    obtain u v where "a * u + b * v = gcd a b" using bezout_int [of a b] by (metis mult.commute)
    moreover note Int_GCD_nonpositive [OF np, of cx cy z]
    ultimately show ?thesis using np w m by (intro exI [of _ u] exI [of _ v] exI [of _ w]) (auto simp: xy o)
  next
    case ext
    then obtain u v where "Int_GCD cx cy z x y =
        Some (Inr (Int_of (gcd a b), if cx then Some (Int_of u) else None, if cy then Some (Int_of v) else None))"
      "gcd a b = a * u + b * v" using Int_GCD_extended [of a b cx cy z] unfolding xy by blast
    then show ?thesis using ext w by (intro exI [of _ u] exI [of _ v] exI [of _ w]) (auto simp: xy o)
  next
    case bin
    obtain u v where "a * u + b * v = gcd a b" using bezout_int [of a b] by (metis mult.commute)
    moreover have "Int_GCD cx cy z x y = Some (Inr (Int_of
        (if z = Is_a \<and> words b < words a then b else if z = Is_b \<and> words a \<le> words b then a else gcd a b), None, None))"
      using bin unfolding xy by (simp add: Int_GCD_def Int_Sign_of binaryGCD_of)
    ultimately show ?thesis using bin w by (intro exI [of _ u] exI [of _ v] exI [of _ w]) (auto simp: xy o)
  qed
qed

lemma GCD_exact_witness:
  "Int_GCD False False Fresh (Int_of 12) (Int_of 18) = Some (Inr (Int_of 6, None, None)) \<and>
   Int_GCD False False Is_b (Int_of 12) (Int_of 18) = Some (Inr (Int_of 12, None, None)) \<and>
   Int_GCD True True Fresh (Int_of (- 1)) (Int_of 5) = Some (Inr (Int_of 0, Some (Int_of 0), Some (Int_of 0)))"
proof -
  have "length (digits 12) = 1" "length (digits 18) = 1" by (simp_all add: digits.simps [of 12] digits.simps [of 18] base_num)
  then show ?thesis
    using GCD_exact [OF wf_of wf_of, of False False Fresh 12 18] GCD_exact [OF wf_of wf_of, of False False Is_b 12 18]
      GCD_exact [OF wf_of wf_of, of True True Fresh "- 1" 5] by (simp add: gcd_non_0_int)
qed

end
