(* ===== verification/Go_Rat.thy ===== *)
theory Go_Rat
  imports Go_IntGcd Go_Binary Complex_Main
begin

unbundle bit_operations_syntax

text \<open>
  Package math/big, rat.go: rational numbers as a numerator with a sign and a denominator, whose sign is
  ignored and whose empty magnitude stands for 1. The receiver \<open>z\<close> is an argument where its old denominator
  sign survives the operation. An operation returns the new value of the receiver; the conversions to and from floating
  point and text are not modelled. \<open>GobEncode\<close> stores the length of the numerator through the byte order of
  encoding/binary.
\<close>

section \<open>The code\<close>

record Rat =
  rat_a :: BigInt
  rat_b :: BigInt

definition Rat_norm :: "Rat \<Rightarrow> (panic + Rat) option" where
  "Rat_norm z =
     (let a = rat_a z; b = rat_b z in
      if length (mag a) = 0 then Some (Inr \<lparr>rat_a = a\<lparr>neg := False\<rparr>, rat_b = b\<lparr>mag := []\<rparr>\<rparr>)
      else if length (mag b) = 0 then Some (Inr z)
      else if nat_cmp (mag b) natOne = 0 then Some (Inr (z\<lparr>rat_b := b\<lparr>mag := []\<rparr>\<rparr>))
      else let sg = neg a; a = a\<lparr>neg := False\<rparr>; b = b\<lparr>neg := False\<rparr> in
        Option.bind (binaryGCD Fresh a b) (\<lambda>r. bindO r (\<lambda>f.
        if Int_Cmp f intOne \<noteq> 0 then
          bindO (nat_div (mag a) (mag f)) (\<lambda>(qa, _).
          bindO (nat_div (mag b) (mag f)) (\<lambda>(qb, _).
          let b = b\<lparr>mag := qb\<rparr>; b = (if nat_cmp (mag b) natOne = 0 then b\<lparr>mag := []\<rparr> else b) in
          Some (Inr \<lparr>rat_a = a\<lparr>mag := qa, neg := sg\<rparr>, rat_b = b\<rparr>)))
        else Some (Inr \<lparr>rat_a = a\<lparr>neg := sg\<rparr>, rat_b = b\<rparr>))))"

definition mulDenom :: "natural \<Rightarrow> natural \<Rightarrow> panic + natural" where
  "mulDenom x y = (if length x = 0 then Inr y else if length y = 0 then Inr x else nat_mul x y)"

definition scaleDenom :: "BigInt \<Rightarrow> natural \<Rightarrow> panic + BigInt" where
  "scaleDenom x f =
     (if length f = 0 then Inr x
      else bindE (nat_mul (mag x) f) (\<lambda>z. Inr \<lparr>neg = neg x, mag = z\<rparr>))"

definition Rat_SetFrac :: "Rat \<Rightarrow> BigInt \<Rightarrow> BigInt \<Rightarrow> (panic + Rat) option" where
  "Rat_SetFrac z a b =
     (if length (mag b) = 0 then Some (Inl (PanicMsg ''division by zero''))
      else Rat_norm \<lparr>rat_a = \<lparr>neg = (neg a \<noteq> neg b), mag = mag a\<rparr>, rat_b = (rat_b z)\<lparr>mag := mag b\<rparr>\<rparr>)"

definition Rat_SetFrac64 :: "Rat \<Rightarrow> 64 word \<Rightarrow> 64 word \<Rightarrow> (panic + Rat) option" where
  "Rat_SetFrac64 z a b =
     (let x = Int_SetInt64 a in
      if b = 0 then Some (Inl (PanicMsg ''division by zero''))
      else let (b, x) = (if b <s 0 then (- b, x\<lparr>neg := \<not> neg x\<rparr>) else (b, x)) in
        Rat_norm \<lparr>rat_a = x, rat_b = (rat_b z)\<lparr>mag := setUint64 b\<rparr>\<rparr>)"

definition NewRat :: "64 word \<Rightarrow> 64 word \<Rightarrow> (panic + Rat) option" where
  "NewRat a b = Rat_SetFrac64 \<lparr>rat_a = \<lparr>neg = False, mag = []\<rparr>, rat_b = \<lparr>neg = False, mag = []\<rparr>\<rparr> a b"

definition Rat_SetInt :: "Rat \<Rightarrow> BigInt \<Rightarrow> Rat" where
  "Rat_SetInt z x = \<lparr>rat_a = x, rat_b = (rat_b z)\<lparr>mag := []\<rparr>\<rparr>"

definition Rat_SetInt64 :: "Rat \<Rightarrow> 64 word \<Rightarrow> Rat" where
  "Rat_SetInt64 z x = \<lparr>rat_a = Int_SetInt64 x, rat_b = (rat_b z)\<lparr>mag := []\<rparr>\<rparr>"

definition Rat_Abs :: "Rat \<Rightarrow> Rat" where
  "Rat_Abs x = x\<lparr>rat_a := (rat_a x)\<lparr>neg := False\<rparr>\<rparr>"

definition Rat_Neg :: "Rat \<Rightarrow> Rat" where
  "Rat_Neg x = x\<lparr>rat_a := (rat_a x)\<lparr>neg := 0 < length (mag (rat_a x)) \<and> \<not> neg (rat_a x)\<rparr>\<rparr>"

definition Rat_Inv :: "Rat \<Rightarrow> panic + Rat" where
  "Rat_Inv x =
     (if length (mag (rat_a x)) = 0 then Inl (PanicMsg ''division by zero'')
      else let a = mag (rat_b x); a = (if length a = 0 then natOne else a);
               b = mag (rat_a x); b = (if nat_cmp b natOne = 0 then [] else b) in
        Inr \<lparr>rat_a = (rat_a x)\<lparr>mag := a\<rparr>, rat_b = (rat_b x)\<lparr>mag := b\<rparr>\<rparr>)"

definition Rat_Sign :: "Rat \<Rightarrow> int" where
  "Rat_Sign x = Int_Sign (rat_a x)"

definition Rat_IsInt :: "Rat \<Rightarrow> bool" where
  "Rat_IsInt x \<longleftrightarrow> length (mag (rat_b x)) = 0 \<or> nat_cmp (mag (rat_b x)) natOne = 0"

definition Rat_Num :: "Rat \<Rightarrow> BigInt" where
  "Rat_Num x = rat_a x"

text \<open>\<open>Denom\<close> materializes the denominator in \<open>x\<close> and returns it.\<close>

definition Rat_Denom :: "Rat \<Rightarrow> BigInt \<times> Rat" where
  "Rat_Denom x =
     (let b = (rat_b x)\<lparr>neg := False\<rparr>; b = (if length (mag b) = 0 then b\<lparr>mag := natOne\<rparr> else b) in
      (b, x\<lparr>rat_b := b\<rparr>))"

definition Rat_Cmp :: "Rat \<Rightarrow> Rat \<Rightarrow> panic + int" where
  "Rat_Cmp x y =
     bindE (scaleDenom (rat_a x) (mag (rat_b y))) (\<lambda>a1.
     bindE (scaleDenom (rat_a y) (mag (rat_b x))) (\<lambda>a2. Inr (Int_Cmp a1 a2)))"

definition Rat_Add :: "Rat \<Rightarrow> Rat \<Rightarrow> Rat \<Rightarrow> (panic + Rat) option" where
  "Rat_Add z x y =
     bindO (scaleDenom (rat_a x) (mag (rat_b y))) (\<lambda>a1.
     bindO (scaleDenom (rat_a y) (mag (rat_b x))) (\<lambda>a2.
     bindO (Int_Add a1 a2) (\<lambda>a.
     bindO (mulDenom (mag (rat_b x)) (mag (rat_b y))) (\<lambda>d.
     Rat_norm \<lparr>rat_a = a, rat_b = (rat_b z)\<lparr>mag := d\<rparr>\<rparr>))))"

definition Rat_Sub :: "Rat \<Rightarrow> Rat \<Rightarrow> Rat \<Rightarrow> (panic + Rat) option" where
  "Rat_Sub z x y =
     bindO (scaleDenom (rat_a x) (mag (rat_b y))) (\<lambda>a1.
     bindO (scaleDenom (rat_a y) (mag (rat_b x))) (\<lambda>a2.
     bindO (Int_Sub a1 a2) (\<lambda>a.
     bindO (mulDenom (mag (rat_b x)) (mag (rat_b y))) (\<lambda>d.
     Rat_norm \<lparr>rat_a = a, rat_b = (rat_b z)\<lparr>mag := d\<rparr>\<rparr>))))"

definition Rat_Mul :: "Rat \<Rightarrow> Rat \<Rightarrow> Rat \<Rightarrow> (panic + Rat) option" where
  "Rat_Mul z x y =
     bindO (Int_Mul (rat_a x) (rat_a y)) (\<lambda>a.
     bindO (mulDenom (mag (rat_b x)) (mag (rat_b y))) (\<lambda>d.
     Rat_norm \<lparr>rat_a = a, rat_b = (rat_b z)\<lparr>mag := d\<rparr>\<rparr>))"

definition Rat_Quo :: "Rat \<Rightarrow> Rat \<Rightarrow> Rat \<Rightarrow> (panic + Rat) option" where
  "Rat_Quo z x y =
     (if length (mag (rat_a y)) = 0 then Some (Inl (PanicMsg ''division by zero''))
      else bindO (scaleDenom (rat_a x) (mag (rat_b y))) (\<lambda>a.
        bindO (scaleDenom (rat_a y) (mag (rat_b x))) (\<lambda>b.
        Rat_norm \<lparr>rat_a = \<lparr>neg = (neg a \<noteq> neg b), mag = mag a\<rparr>, rat_b = (rat_b z)\<lparr>mag := mag b\<rparr>\<rparr>)))"

section \<open>Gob\<close>

datatype rat_gob_error = RatVersionNotSupported byte | NumeratorTooLarge

definition ratGobVersion :: byte where
  "ratGobVersion = 1"

definition Rat_GobEncode :: "Rat option \<Rightarrow> panic + rat_gob_error + byte list" where
  "Rat_GobEncode x =
     (case x of None \<Rightarrow> Inr (Inr [])
      | Some x \<Rightarrow>
        bindE (nat_bytes (mag (rat_b x)) (replicate (1 + 4 + (length (mag (rat_a x)) + length (mag (rat_b x))) * 8) 0)) (\<lambda>(i, buf).
        bindE (nat_bytes (mag (rat_a x)) (take i buf)) (\<lambda>(j, front).
        let buf = front @ drop i buf; n = i - j in
        if unat (word_of_nat n :: 32 word) \<noteq> n then Inr (Inl NumeratorTooLarge)
        else if j < 4 then Inl SliceOutOfRange
        else bindE (PutUint32 bigEndian (take 4 (drop (j - 4) buf)) (word_of_nat n)) (\<lambda>s.
          let buf = take (j - 4) buf @ s @ drop j buf in
          if j < 5 then Inl IndexOutOfRange
          else let j = j - 5; b = push_bit 1 ratGobVersion; b = (if neg (rat_a x) then b OR 1 else b) in
            Inr (Inr (drop j (buf[j := b])))))))"

text \<open>The end of the numerator is computed in 32 bits.\<close>

definition Rat_GobDecode :: "Rat \<Rightarrow> byte list \<Rightarrow> panic + rat_gob_error + Rat" where
  "Rat_GobDecode z buf =
     (if length buf = 0 then Inr (Inr \<lparr>rat_a = \<lparr>neg = False, mag = []\<rparr>, rat_b = \<lparr>neg = False, mag = []\<rparr>\<rparr>)
      else let b = buf ! 0 in
        if drop_bit 1 b \<noteq> ratGobVersion then Inr (Inl (RatVersionNotSupported (drop_bit 1 b)))
        else if length buf < 5 then Inl SliceOutOfRange
        else bindE (Uint32 bigEndian (take 4 (drop 1 buf))) (\<lambda>n.
          let i = unat (5 + n) in
          if i < 5 \<or> length buf < i then Inl SliceOutOfRange
          else bindE (nat_setBytes (drop 5 (take i buf))) (\<lambda>a.
            bindE (nat_setBytes (drop i buf)) (\<lambda>d.
            Inr (Inr \<lparr>rat_a = \<lparr>neg = b AND 1 \<noteq> 0, mag = a\<rparr>, rat_b = (rat_b z)\<lparr>mag := d\<rparr>\<rparr>)))))"

section \<open>The rational number of a value\<close>

definition rat_den :: "Rat \<Rightarrow> nat" where
  "rat_den x = (if mag (rat_b x) = [] then 1 else val (mag (rat_b x)))"

definition rval :: "Rat \<Rightarrow> rat" where
  "rval x = of_int (ival (rat_a x)) / of_nat (rat_den x)"

text \<open>Lowest terms; \<open>Denom\<close> leaves the denominator 1 written out, the other operations leave it empty.\<close>

definition rat_ok :: "Rat \<Rightarrow> bool" where
  "rat_ok x \<longleftrightarrow> Int_wf (rat_a x) \<and> normal (mag (rat_b x)) \<and> coprime (ival (rat_a x)) (int (rat_den x))"

definition rat_wf :: "Rat \<Rightarrow> bool" where
  "rat_wf x \<longleftrightarrow> Int_wf (rat_a x) \<and> normal (mag (rat_b x)) \<and> mag (rat_b x) \<noteq> [1] \<and>
     coprime (ival (rat_a x)) (int (rat_den x))"

lemma rat_wf_ok: "rat_wf x \<longleftrightarrow> rat_ok x \<and> mag (rat_b x) \<noteq> [1]"
  by (auto simp: rat_wf_def rat_ok_def)

lemma rat_den_pos: "normal (mag (rat_b x)) \<Longrightarrow> 0 < rat_den x"
  using val_zero [of "mag (rat_b x)"] by (auto simp: rat_den_def intro: gr0I)

lemma cmp_one: "normal x \<Longrightarrow> nat_cmp x natOne = 0 \<longleftrightarrow> x = [1]"
proof -
  assume n: "normal x"
  have "nat_cmp x natOne = 0 \<longleftrightarrow> val x = val natOne"
    using nat_cmp_val [of x natOne] n by (simp add: natOne_digits)
  also have "\<dots> \<longleftrightarrow> x = natOne" using val_inj [OF n, of natOne] by (auto simp: natOne_digits)
  finally show ?thesis by (simp add: natOne_def)
qed

lemma digits_one: "digits n = [1] \<longleftrightarrow> n = 1"
  by (metis natOne_def natOne_digits val_digits)

lemma nat_gcd_int: "gcd (int A) (int B) = int (gcd A B)"
  by simp

lemma Rat_norm_default:
  assumes a: "normal (mag (rat_a z))" "mag (rat_a z) \<noteq> []" and b: "normal (mag (rat_b z))" "mag (rat_b z) \<noteq> []" "mag (rat_b z) \<noteq> [1]"
  defines "A \<equiv> val (mag (rat_a z))" and "B \<equiv> val (mag (rat_b z))"
  shows "Rat_norm z = Some (Inr \<lparr>rat_a = \<lparr>neg = neg (rat_a z), mag = digits (A div gcd A B)\<rparr>,
    rat_b = \<lparr>neg = False, mag = (if B div gcd A B = 1 then [] else digits (B div gcd A B))\<rparr>\<rparr>)"
proof -
  have m: "mag (rat_a z) = digits A" "mag (rat_b z) = digits B" using digits_val a(1) b(1) by (simp_all add: A_def B_def)
  have p: "0 < A" "0 < B" "B \<noteq> 1" using a(2) b(2,3) unfolding m by (simp_all add: digits_one)
  define f where "f = gcd A B"
  have f: "0 < f" using p by (simp add: f_def)
  have pos: "(rat_a z)\<lparr>neg := False\<rparr> = Int_of (int A)" "(rat_b z)\<lparr>neg := False\<rparr> = Int_of (int B)"
    using m by (simp_all add: Int_of_def)
  have g: "binaryGCD Fresh (Int_of (int A)) (Int_of (int B)) = Some (Inr (Int_of (int f)))"
    using binaryGCD_of [of "int A" "int B" Fresh] p by (simp add: f_def)
  have c: "Int_Cmp (Int_of (int f)) intOne \<noteq> 0 \<longleftrightarrow> f \<noteq> 1" by (simp add: intOne_of Int_Cmp_of)
  have e: "Rat_norm z =
      (if f \<noteq> 1 then
          bindO (nat_div (digits A) (digits f)) (\<lambda>(qa, _).
          bindO (nat_div (digits B) (digits f)) (\<lambda>(qb, _).
          let b = (Int_of (int B))\<lparr>mag := qb\<rparr>; b = (if nat_cmp (mag b) natOne = 0 then b\<lparr>mag := []\<rparr> else b) in
          Some (Inr \<lparr>rat_a = (Int_of (int A))\<lparr>mag := qa, neg := neg (rat_a z)\<rparr>, rat_b = b\<rparr>)))
        else Some (Inr \<lparr>rat_a = (Int_of (int A))\<lparr>neg := neg (rat_a z)\<rparr>, rat_b = Int_of (int B)\<rparr>))"
    unfolding Rat_norm_def Let_def pos g using a(2) b(1,2,3) by (simp add: cmp_one c)
  show ?thesis
  proof (cases "f = 1")
    case True
    then show ?thesis unfolding e using p unfolding f_def [symmetric] by (simp add: Int_of_def)
  next
    case False
    have d: "nat_div (digits A) (digits f) = Inr (digits (A div f), digits (A mod f))"
      "nat_div (digits B) (digits f) = Inr (digits (B div f), digits (B mod f))"
      using nat_div_digits [of "digits A" "digits f"] nat_div_digits [of "digits B" "digits f"] f by simp_all
    have o: "nat_cmp (digits (B div f)) natOne = 0 \<longleftrightarrow> B div f = 1" by (simp add: cmp_one digits_one)
    show ?thesis unfolding e d bindO.simps prod.case f_def [symmetric] using False o by (simp add: Int_of_def Let_def)
  qed
qed

lemma ratio_gcd:
  fixes A B :: nat
  assumes "0 < B"
  shows "(of_nat (A div gcd A B) / of_nat (B div gcd A B) :: rat) = of_nat A / of_nat B"
proof -
  define f where "f = gcd A B"
  have f: "A = (A div f) * f" "B = (B div f) * f" "0 < f" using assms by (simp_all add: f_def)
  have "(of_nat A / of_nat B :: rat) = (of_nat (A div f) * of_nat f) / (of_nat (B div f) * of_nat f)"
    using f(1,2) by (metis of_nat_mult)
  also have "\<dots> = of_nat (A div f) / of_nat (B div f)" using f(3) by simp
  finally show ?thesis by (simp add: f_def)
qed

lemma sgn_ratio: "of_int (if s then - int n else int n) = (if s then - 1 else 1) * (of_nat n :: rat)"
  by simp

text \<open>Normalisation keeps the number and establishes lowest terms; the sign may come with a zero.\<close>

lemma Rat_norm_of:
  assumes "normal (mag (rat_a z))" "normal (mag (rat_b z))"
  shows "\<exists>w. Rat_norm z = Some (Inr w) \<and> rat_wf w \<and> rval w = rval z"
proof -
  consider (zero) "mag (rat_a z) = []" | (whole) "mag (rat_a z) \<noteq> []" "mag (rat_b z) = [] \<or> mag (rat_b z) = [1]"
    | (frac) "mag (rat_a z) \<noteq> []" "mag (rat_b z) \<noteq> []" "mag (rat_b z) \<noteq> [1]" by blast
  then show ?thesis
  proof cases
    case zero
    define w where "w = \<lparr>rat_a = (rat_a z)\<lparr>neg := False\<rparr>, rat_b = (rat_b z)\<lparr>mag := []\<rparr>\<rparr>"
    have "Rat_norm z = Some (Inr w)" using zero by (simp add: Rat_norm_def w_def)
    moreover have "rat_wf w" using zero by (simp add: w_def rat_wf_def Int_wf_def rat_den_def ival_def normal_def)
    moreover have "rval w = rval z" using zero by (simp add: w_def rval_def ival_def)
    ultimately show ?thesis by blast
  next
    case whole
    define w where "w = \<lparr>rat_a = rat_a z, rat_b = (rat_b z)\<lparr>mag := []\<rparr>\<rparr>"
    have "Rat_norm z = Some (Inr w)" using whole assms(2) by (auto simp: Rat_norm_def w_def cmp_one)
    moreover have "rat_wf w" using whole(1) assms(1) by (simp add: w_def rat_wf_def Int_wf_def rat_den_def normal_def)
    moreover have "rval w = rval z" using whole by (auto simp: w_def rval_def rat_den_def)
    ultimately show ?thesis by blast
  next
    case frac
    define A B where "A = val (mag (rat_a z))" and "B = val (mag (rat_b z))"
    have p: "A \<noteq> 0" "B \<noteq> 0" using val_zero assms frac unfolding A_def B_def by blast+
    define A' B' where "A' = A div gcd A B" and "B' = B div gcd A B"
    define w where "w = \<lparr>rat_a = \<lparr>neg = neg (rat_a z), mag = digits A'\<rparr>,
      rat_b = \<lparr>neg = False, mag = (if B' = 1 then [] else digits B')\<rparr>\<rparr>"
    have n: "Rat_norm z = Some (Inr w)"
      using Rat_norm_default [OF assms(1) frac(1) assms(2) frac(2,3)] by (simp add: w_def A'_def B'_def A_def B_def)
    have "gcd A B dvd A" "gcd A B dvd B" by simp_all
    then have p': "A' \<noteq> 0" "B' \<noteq> 0" using p unfolding A'_def B'_def by (metis dvd_div_eq_0_iff)+
    have d: "rat_den w = B'" using p' by (simp add: w_def rat_den_def)
    have i: "ival (rat_a w) = (if neg (rat_a z) then - int A' else int A')" by (simp add: w_def ival_def)
    have "coprime A' B'" unfolding A'_def B'_def using p by (intro div_gcd_coprime) simp
    then have "coprime (ival (rat_a w)) (int (rat_den w))" unfolding d i by simp
    then have wf: "rat_wf w" using p' by (simp add: w_def rat_wf_def Int_wf_def digits_one normal_def [of "[]"])
    have "rval w = (if neg (rat_a z) then - 1 else 1) * (of_nat A' / of_nat B')"
      unfolding rval_def d i sgn_ratio by simp
    also have "of_nat A' / of_nat B' = (of_nat A / of_nat B :: rat)"
      unfolding A'_def B'_def using p by (intro ratio_gcd) simp
    also have "(if neg (rat_a z) then - 1 else 1) * (of_nat A / of_nat B) = rval z"
      unfolding rval_def ival_def sgn_ratio using frac by (simp add: rat_den_def A_def B_def)
    finally show ?thesis using n wf by blast
  qed
qed

section \<open>The operations\<close>

definition dval :: "natural \<Rightarrow> nat" where
  "dval d = (if d = [] then 1 else val d)"

lemma rat_den_dval: "rat_den x = dval (mag (rat_b x))"
  by (simp add: rat_den_def dval_def)

lemma dval_pos: "normal d \<Longrightarrow> 0 < dval d"
  using val_zero [of d] by (auto simp: dval_def intro: gr0I)

lemma mulDenom_value:
  "normal x \<Longrightarrow> normal y \<Longrightarrow> \<exists>d. mulDenom x y = Inr d \<and> normal d \<and> dval d = dval x * dval y"
  using val_zero [of x] val_zero [of y] by (auto simp: mulDenom_def nat_mul_digits dval_def)

lemma scaleDenom_of: "normal f \<Longrightarrow> scaleDenom (Int_of a) f = Inr (Int_of (a * int (dval f)))"
proof -
  assume f: "normal f"
  have "\<lparr>neg = a < 0, mag = digits (nat \<bar>a\<bar> * val f)\<rparr> = Int_of (a * int (val f))" if "f \<noteq> []"
  proof -
    have "0 < int (val f)" using val_zero [OF f] that by (auto intro: gr0I)
    then show ?thesis by (simp add: Int_of_def abs_mult nat_mult_distrib mult_less_0_iff)
  qed
  then show ?thesis using f by (simp add: scaleDenom_def nat_mul_digits dval_def)
qed

lemma rval_frac: "rval \<lparr>rat_a = Int_of n, rat_b = \<lparr>neg = s, mag = d\<rparr>\<rparr> = of_int n / of_nat (dval d)"
  by (simp add: rval_def rat_den_dval)

lemma Rat_norm_frac:
  "normal d \<Longrightarrow> \<exists>w. Rat_norm \<lparr>rat_a = Int_of n, rat_b = b\<lparr>mag := d\<rparr>\<rparr> = Some (Inr w) \<and> rat_wf w \<and> rval w = of_int n / of_nat (dval d)"
  using Rat_norm_of [of "\<lparr>rat_a = Int_of n, rat_b = b\<lparr>mag := d\<rparr>\<rparr>"] by (simp add: rval_def rat_den_dval)

text \<open>The parts of a number in lowest terms.\<close>

lemma rat_parts:
  assumes "rat_ok x"
  obtains a d where "rat_a x = Int_of a" "mag (rat_b x) = d" "normal d" "0 < dval d" "rval x = of_int a / of_nat (dval d)"
    "coprime a (int (dval d))"
proof
  have w: "Int_wf (rat_a x)" "normal (mag (rat_b x))" using assms by (simp_all add: rat_ok_def)
  show "rat_a x = Int_of (ival (rat_a x))" using Int_of_ival [OF w(1)] by simp
  show "mag (rat_b x) = mag (rat_b x)" ..
  show "normal (mag (rat_b x))" "0 < dval (mag (rat_b x))" using w(2) dval_pos by blast+
  show "rval x = of_int (ival (rat_a x)) / of_nat (dval (mag (rat_b x)))" by (simp add: rval_def rat_den_dval)
  show "coprime (ival (rat_a x)) (int (dval (mag (rat_b x))))"
    using assms by (simp_all add: rat_ok_def rat_den_dval)
qed

lemma of_nat_nonzero: "0 < n \<Longrightarrow> (of_nat n :: rat) \<noteq> 0"
  by simp

lemma Rat_sums_of:
  assumes "rat_ok x" "rat_ok y"
  shows "\<exists>w. Rat_Add z x y = Some (Inr w) \<and> rat_wf w \<and> rval w = rval x + rval y"
    "\<exists>w. Rat_Sub z x y = Some (Inr w) \<and> rat_wf w \<and> rval w = rval x - rval y"
    "\<exists>w. Rat_Mul z x y = Some (Inr w) \<and> rat_wf w \<and> rval w = rval x * rval y"
    "Rat_Cmp x y = Inr (if rval x < rval y then -1 else if rval x > rval y then 1 else 0)"
proof -
  obtain a c where x: "rat_a x = Int_of a" "mag (rat_b x) = c" "normal c" "0 < dval c" "rval x = of_int a / of_nat (dval c)"
    using rat_parts [OF assms(1)] by metis
  obtain b d where y: "rat_a y = Int_of b" "mag (rat_b y) = d" "normal d" "0 < dval d" "rval y = of_int b / of_nat (dval d)"
    using rat_parts [OF assms(2)] by metis
  obtain e where e: "mulDenom c d = Inr e" "normal e" "dval e = dval c * dval d" using mulDenom_value [OF x(3) y(3)] by blast
  define p q where "p = int (dval c)" and "q = int (dval d)"
  have r: "(of_nat (dval c) :: rat) = of_int p" "(of_nat (dval d) :: rat) = of_int q" "(of_nat (dval e) :: rat) = of_int p * of_int q"
    by (simp_all add: p_def q_def e(3))
  have pq: "0 < p" "0 < q" using x(4) y(4) by (simp_all add: p_def q_def)
  have s: "scaleDenom (Int_of a) d = Inr (Int_of (a * q))" "scaleDenom (Int_of b) c = Inr (Int_of (b * p))"
    using scaleDenom_of x(3) y(3) by (simp_all add: p_def q_def)
  note norm = Rat_norm_frac [OF e(2), of _ "rat_b z"]
  show "\<exists>w. Rat_Add z x y = Some (Inr w) \<and> rat_wf w \<and> rval w = rval x + rval y"
  proof -
    have "Rat_Add z x y = Rat_norm \<lparr>rat_a = Int_of (a * q + b * p), rat_b = (rat_b z)\<lparr>mag := e\<rparr>\<rparr>"
      by (simp add: Rat_Add_def x y s e(1))
    moreover have "(of_int (a * q + b * p) / of_nat (dval e) :: rat) = rval x + rval y"
      unfolding x(5) y(5) r using pq by (simp add: field_simps)
    ultimately show ?thesis using norm [of "a * q + b * p"] by simp
  qed
  show "\<exists>w. Rat_Sub z x y = Some (Inr w) \<and> rat_wf w \<and> rval w = rval x - rval y"
  proof -
    have "Rat_Sub z x y = Rat_norm \<lparr>rat_a = Int_of (a * q - b * p), rat_b = (rat_b z)\<lparr>mag := e\<rparr>\<rparr>"
      by (simp add: Rat_Sub_def x y s e(1))
    moreover have "(of_int (a * q - b * p) / of_nat (dval e) :: rat) = rval x - rval y"
      unfolding x(5) y(5) r using pq by (simp add: field_simps)
    ultimately show ?thesis using norm [of "a * q - b * p"] by simp
  qed
  show "\<exists>w. Rat_Mul z x y = Some (Inr w) \<and> rat_wf w \<and> rval w = rval x * rval y"
  proof -
    have "Rat_Mul z x y = Rat_norm \<lparr>rat_a = Int_of (a * b), rat_b = (rat_b z)\<lparr>mag := e\<rparr>\<rparr>"
      by (simp add: Rat_Mul_def x y e(1))
    moreover have "(of_int (a * b) / of_nat (dval e) :: rat) = rval x * rval y"
      unfolding x(5) y(5) r using pq by simp
    ultimately show ?thesis using norm [of "a * b"] by simp
  qed
  show "Rat_Cmp x y = Inr (if rval x < rval y then -1 else if rval x > rval y then 1 else 0)"
  proof -
    have "rval x < rval y \<longleftrightarrow> (of_int (a * q) :: rat) < of_int (b * p)"
      unfolding x(5) y(5) r using pq by (simp add: divide_less_eq less_divide_eq field_simps)
    moreover have "rval y < rval x \<longleftrightarrow> (of_int (b * p) :: rat) < of_int (a * q)"
      unfolding x(5) y(5) r using pq by (simp add: divide_less_eq less_divide_eq field_simps)
    ultimately show ?thesis
      unfolding Rat_Cmp_def x(1,2) y(1,2) s bindE.simps Int_Cmp_of of_int_less_iff by simp
  qed
qed

text \<open>Signed quotients of magnitudes.\<close>

lemma signed_quotient:
  fixes u v :: int
  assumes "v \<noteq> 0"
  shows "of_int (if (u < 0) \<noteq> (v < 0) then - \<bar>u\<bar> else \<bar>u\<bar>) / (of_int \<bar>v\<bar> :: rat) = of_int u / of_int v"
proof -
  define U V :: rat where "U = of_int u" and "V = of_int v"
  have "u < 0 \<longleftrightarrow> U < 0" "v < 0 \<longleftrightarrow> V < 0" by (simp_all add: U_def V_def)
  moreover have "of_int \<bar>u\<bar> = \<bar>U\<bar>" "of_int \<bar>v\<bar> = \<bar>V\<bar>" by (simp_all add: U_def V_def)
  moreover have "(if (U < 0) \<noteq> (V < 0) then - \<bar>U\<bar> else \<bar>U\<bar>) / \<bar>V\<bar> = U / V"
    by (cases "U < 0"; cases "V < 0") simp_all
  ultimately show ?thesis unfolding U_def [symmetric] V_def [symmetric] by (simp only: if_distrib [of of_int] of_int_minus)
qed

lemma Rat_norm_quotient:
  assumes "v \<noteq> 0"
  shows "\<exists>w. Rat_norm \<lparr>rat_a = \<lparr>neg = ((u < 0) \<noteq> (v < 0)), mag = digits (nat \<bar>u\<bar>)\<rparr>, rat_b = b\<lparr>mag := digits (nat \<bar>v\<bar>)\<rparr>\<rparr> = Some (Inr w) \<and>
    rat_wf w \<and> rval w = of_int u / of_int v"
proof -
  define z where "z = \<lparr>rat_a = \<lparr>neg = ((u < 0) \<noteq> (v < 0)), mag = digits (nat \<bar>u\<bar>)\<rparr>, rat_b = b\<lparr>mag := digits (nat \<bar>v\<bar>)\<rparr>\<rparr>"
  have i: "ival (rat_a z) = (if (u < 0) \<noteq> (v < 0) then - \<bar>u\<bar> else \<bar>u\<bar>)" by (simp add: z_def ival_def)
  have d: "rat_den z = nat \<bar>v\<bar>" using assms by (simp add: z_def rat_den_def)
  have e: "(of_nat (nat \<bar>v\<bar>) :: rat) = of_int \<bar>v\<bar>" by simp
  have "rval z = of_int u / of_int v" unfolding rval_def i d e by (rule signed_quotient [OF assms])
  then show ?thesis using Rat_norm_of [of z] unfolding z_def by simp
qed

lemma Rat_Quo_of:
  assumes "rat_ok x" "rat_ok y" "rval y \<noteq> 0"
  shows "\<exists>w. Rat_Quo z x y = Some (Inr w) \<and> rat_wf w \<and> rval w = rval x / rval y"
proof -
  obtain a c where x: "rat_a x = Int_of a" "mag (rat_b x) = c" "normal c" "0 < dval c" "rval x = of_int a / of_nat (dval c)"
    using rat_parts [OF assms(1)] by metis
  obtain b d where y: "rat_a y = Int_of b" "mag (rat_b y) = d" "normal d" "0 < dval d" "rval y = of_int b / of_nat (dval d)"
    using rat_parts [OF assms(2)] by metis
  define p q where "p = int (dval c)" and "q = int (dval d)"
  have r: "(of_nat (dval c) :: rat) = of_int p" "(of_nat (dval d) :: rat) = of_int q" by (simp_all add: p_def q_def)
  have pq: "0 < p" "0 < q" "b \<noteq> 0" using x(4) y(4) assms(3) by (auto simp: p_def q_def y(5))
  have s: "scaleDenom (Int_of a) d = Inr (Int_of (a * q))" "scaleDenom (Int_of b) c = Inr (Int_of (b * p))"
    using scaleDenom_of x(3) y(3) by (simp_all add: p_def q_def)
  have "Rat_Quo z x y = Rat_norm \<lparr>rat_a = \<lparr>neg = ((a * q < 0) \<noteq> (b * p < 0)), mag = digits (nat \<bar>a * q\<bar>)\<rparr>,
      rat_b = (rat_b z)\<lparr>mag := digits (nat \<bar>b * p\<bar>)\<rparr>\<rparr>"
    unfolding Rat_Quo_def x(1,2) y(1,2) s bindO.simps Int_of_sel using pq(3) by simp
  moreover have "(of_int (a * q) / of_int (b * p) :: rat) = rval x / rval y"
    unfolding x(5) y(5) r using pq by simp
  ultimately show ?thesis using Rat_norm_quotient [of "b * p" "a * q" "rat_b z"] pq by simp
qed

lemma Rat_SetFrac_of:
  assumes "Int_wf a" "Int_wf b" "ival b \<noteq> 0"
  shows "\<exists>w. Rat_SetFrac z a b = Some (Inr w) \<and> rat_wf w \<and> rval w = of_int (ival a) / of_int (ival b)"
proof -
  define u v where "u = ival a" and "v = ival b"
  have ab: "a = Int_of u" "b = Int_of v" using Int_of_ival assms by (simp_all add: u_def v_def)
  have v: "v \<noteq> 0" using assms(3) by (simp add: v_def)
  have "Rat_SetFrac z a b = Rat_norm \<lparr>rat_a = \<lparr>neg = ((u < 0) \<noteq> (v < 0)), mag = digits (nat \<bar>u\<bar>)\<rparr>,
      rat_b = (rat_b z)\<lparr>mag := digits (nat \<bar>v\<bar>)\<rparr>\<rparr>"
    unfolding Rat_SetFrac_def ab Int_of_sel using v by simp
  then show ?thesis using Rat_norm_quotient [OF v, of u "rat_b z"] by (simp add: u_def v_def)
qed

lemma Rat_SetFrac64_of:
  assumes "b \<noteq> 0"
  shows "\<exists>w. Rat_SetFrac64 z a b = Some (Inr w) \<and> rat_wf w \<and> rval w = of_int (sint a) / of_int (sint b)"
proof -
  define u v where "u = sint a" and "v = sint b"
  have v: "v \<noteq> 0" using assms by (simp add: v_def signed_eq_0_iff)
  have x: "Int_SetInt64 a = Int_of u" by (simp add: Int_SetInt64_of u_def)
  have "Rat_SetFrac64 z a b = Rat_norm \<lparr>rat_a = \<lparr>neg = ((u < 0) \<noteq> (v < 0)), mag = digits (nat \<bar>u\<bar>)\<rparr>,
      rat_b = (rat_b z)\<lparr>mag := digits (nat \<bar>v\<bar>)\<rparr>\<rparr>"
  proof (cases "sint b < 0")
    case True
    then have "unat (- b) = nat \<bar>v\<bar>" using unat_neg_sint [of b] unfolding v_def by linarith
    then show ?thesis unfolding Rat_SetFrac64_def x Let_def using True assms
      by (simp add: word_sless_alt v_def setUint64_def setWord_digits Int_of_def)
  next
    case False
    then have "unat b = nat \<bar>v\<bar>" using unat_pos_sint [of b] unfolding v_def by linarith
    then show ?thesis unfolding Rat_SetFrac64_def x Let_def using False assms
      by (simp add: word_sless_alt v_def setUint64_def setWord_digits Int_of_def)
  qed
  then show ?thesis using Rat_norm_quotient [OF v, of u "rat_b z"] by (simp add: u_def v_def)
qed

lemma Rat_SetInt_of:
  "Int_wf x \<Longrightarrow> rat_wf (Rat_SetInt z x) \<and> rval (Rat_SetInt z x) = of_int (ival x)"
  by (simp add: Rat_SetInt_def rat_wf_def rval_def rat_den_def normal_def)

lemma ival_flip: "Int_wf x \<Longrightarrow> ival (x\<lparr>neg := 0 < length (mag x) \<and> \<not> neg x\<rparr>) = - ival x"
  by (auto simp: ival_def Int_wf_def)

lemma Rat_Neg_of: "rat_ok x \<Longrightarrow> rat_ok (Rat_Neg x) \<and> rval (Rat_Neg x) = - rval x"
  using ival_flip [of "rat_a x"] by (auto simp: Rat_Neg_def rat_ok_def rval_def rat_den_def Int_wf_def)

lemma Rat_Abs_of: "rat_ok x \<Longrightarrow> rat_ok (Rat_Abs x) \<and> rval (Rat_Abs x) = \<bar>rval x\<bar>"
proof -
  assume x: "rat_ok x"
  have "ival ((rat_a x)\<lparr>neg := False\<rparr>) = \<bar>ival (rat_a x)\<bar>" by (simp add: ival_def)
  then show ?thesis using x by (simp add: Rat_Abs_def rat_ok_def rval_def rat_den_dval Int_wf_def)
qed

lemma Rat_sign_wf: "rat_wf x \<Longrightarrow> rat_wf (Rat_Neg x) \<and> rat_wf (Rat_Abs x)"
  using Rat_Neg_of [of x] Rat_Abs_of [of x] by (simp add: rat_wf_ok) (simp add: Rat_Neg_def Rat_Abs_def)

lemma Rat_Denom_of:
  "rat_ok x \<Longrightarrow> fst (Rat_Denom x) = Int_of (int (rat_den x)) \<and> rat_ok (snd (Rat_Denom x)) \<and> rval (snd (Rat_Denom x)) = rval x"
  by (auto simp: Rat_Denom_def Let_def rat_ok_def rval_def rat_den_def Int_of_def natOne_digits digits_val)

lemma ival_as_mag: "ival x = (if neg x then - 1 else 1) * int (val (mag x))"
  by (simp add: ival_def)

lemma Rat_Inv_of:
  assumes "rat_ok x" "rval x \<noteq> 0"
  shows "\<exists>w. Rat_Inv x = Inr w \<and> rat_wf w \<and> rval w = 1 / rval x"
proof -
  define n d where "n = mag (rat_a x)" and "d = mag (rat_b x)"
  have w: "normal n" "normal d" "coprime (val n) (dval d)"
    using assms(1) by (auto simp: rat_ok_def Int_wf_def n_def d_def rat_den_dval ival_as_mag split: if_splits)
  have n0: "n \<noteq> []" using assms(2) by (auto simp: rval_def ival_zero n_def)
  then have nz: "val n \<noteq> 0" using val_zero [OF w(1)] by blast
  define a b where "a = (if d = [] then natOne else d)" and "b = (if n = [1] then [] else n)"
  define y where "y = \<lparr>rat_a = (rat_a x)\<lparr>mag := a\<rparr>, rat_b = (rat_b x)\<lparr>mag := b\<rparr>\<rparr>"
  have i: "Rat_Inv x = Inr y"
    using n0 by (simp add: Rat_Inv_def cmp_one [OF w(1)] y_def a_def b_def n_def [symmetric] d_def [symmetric] Let_def)
  have ab: "normal a" "a \<noteq> []" "val a = dval d" "normal b" "b \<noteq> [1]" "dval b = val n"
    using w n0 by (auto simp: a_def b_def natOne_def dval_def normal_def)
  have "coprime (ival (rat_a y)) (int (rat_den y))"
    using w(3) ab(3,6) by (simp add: y_def rat_den_dval ival_as_mag coprime_commute)
  then have "rat_wf y" using ab by (simp add: rat_wf_def Int_wf_def y_def)
  moreover have "rval y = 1 / rval x"
    using ab(3,6) nz dval_pos [OF w(2)] by (simp add: rval_def rat_den_dval ival_as_mag y_def n_def d_def)
  ultimately show ?thesis using i by blast
qed

text \<open>A number has one representation, up to the sign of the denominator that nothing reads.\<close>

lemma dval_inj: "normal c \<Longrightarrow> normal d \<Longrightarrow> c \<noteq> [1] \<Longrightarrow> d \<noteq> [1] \<Longrightarrow> dval c = dval d \<Longrightarrow> c = d"
  by (metis digits_0 digits_one digits_val dval_def val_digits)

lemma Rat_unique:
  assumes "rat_wf x" "rat_wf y" "rval x = rval y"
  shows "rat_a x = rat_a y \<and> mag (rat_b x) = mag (rat_b y)"
proof -
  obtain a c where x: "rat_a x = Int_of a" "mag (rat_b x) = c" "normal c" "0 < dval c" "rval x = of_int a / of_nat (dval c)"
      "coprime a (int (dval c))" "c \<noteq> [1]"
    using rat_parts [of x] assms(1) unfolding rat_wf_ok by metis
  obtain b d where y: "rat_a y = Int_of b" "mag (rat_b y) = d" "normal d" "0 < dval d" "rval y = of_int b / of_nat (dval d)"
      "coprime b (int (dval d))" "d \<noteq> [1]"
    using rat_parts [of y] assms(2) unfolding rat_wf_ok by metis
  define p q where "p = int (dval c)" and "q = int (dval d)"
  have pq: "0 < p" "0 < q" using x(4) y(4) by (simp_all add: p_def q_def)
  have "(of_int (a * q) :: rat) = of_int (b * p)"
    using assms(3) pq unfolding x(5) y(5) by (simp add: p_def q_def field_simps)
  then have e: "a * q = b * p" by (simp only: of_int_eq_iff)
  have "p dvd q" using x(6) e by (metis coprime_commute coprime_dvd_mult_right_iff dvd_triv_right p_def)
  moreover have "q dvd p" using y(6) e by (metis coprime_commute coprime_dvd_mult_right_iff dvd_triv_right q_def)
  ultimately have "p = q" using pq by (simp add: zdvd_antisym_nonneg)
  then have "c = d" "a = b" using e pq dval_inj [OF x(3) y(3) x(7) y(7)] by (simp_all add: p_def q_def)
  then show ?thesis using x y by simp
qed

lemma Rat_IsInt_of: "rat_ok x \<Longrightarrow> Rat_IsInt x \<longleftrightarrow> rval x \<in> \<int>"
proof
  assume w: "rat_ok x"
  then show "Rat_IsInt x \<Longrightarrow> rval x \<in> \<int>"
    by (auto simp: Rat_IsInt_def rat_ok_def cmp_one rval_def rat_den_def)
  assume "rval x \<in> \<int>"
  then obtain i where i: "rval x = of_int i" by (auto elim: Ints_cases)
  show "Rat_IsInt x"
  proof (cases "mag (rat_b x) = [1]")
    case True
    then show ?thesis by (simp add: Rat_IsInt_def cmp_one normal_def)
  next
    case False
    then have "mag (rat_b x) = mag (rat_b (Rat_SetInt x (Int_of i)))"
      using Rat_unique [of x "Rat_SetInt x (Int_of i)"] Rat_SetInt_of [of "Int_of i" x] w i by (simp add: rat_wf_ok)
    then show ?thesis by (simp add: Rat_SetInt_def Rat_IsInt_def)
  qed
qed

lemma Rat_Sign_of: "rat_ok x \<Longrightarrow> of_int (Rat_Sign x) = sgn (rval x)"
  by (erule rat_parts) (simp add: Rat_Sign_def Int_Sign_of sgn_if zero_less_divide_iff)

section \<open>Gob round trip\<close>

lemma Rat_GobDecode_parts:
  assumes "drop_bit 1 h = ratGobVersion" "length s = 4" "Uint32 bigEndian s = Inr (word_of_nat (length F))" "length F + 5 < 2 ^ 32"
  shows "Rat_GobDecode z (h # s @ F @ D) =
    Inr (Inr \<lparr>rat_a = \<lparr>neg = h AND 1 \<noteq> 0, mag = digits (be_val F)\<rparr>, rat_b = (rat_b z)\<lparr>mag := digits (be_val D)\<rparr>\<rparr>)"
proof -
  have u: "unat (5 + word_of_nat (length F) :: 32 word) = 5 + length F"
  proof -
    have "(5 + word_of_nat (length F) :: 32 word) = word_of_nat (5 + length F)" by simp
    moreover have "unat (word_of_nat (5 + length F) :: 32 word) = 5 + length F"
      using assms(4) by (simp only: unat_of_nat) simp
    ultimately show ?thesis by simp
  qed
  have l: "\<not> length (h # s @ F @ D) < 5" "\<not> (5 + length F < 5 \<or> length (h # s @ F @ D) < 5 + length F)"
    "length (h # s @ F @ D) \<noteq> 0" using assms(2) by simp_all
  have d: "take 4 (drop 1 (h # s @ F @ D)) = s" "drop 5 (take (5 + length F) (h # s @ F @ D)) = F"
    "drop (5 + length F) (h # s @ F @ D) = D" "(h # s @ F @ D) ! 0 = h"
    using assms(2) by (simp_all add: numeral_eq_Suc)
  show ?thesis
    unfolding Rat_GobDecode_def Let_def d assms(1,3) bindE.simps u nat_setBytes_digits
    by (simp only: l if_False simp_thms)
qed

lemma Rat_GobEncode_of:
  assumes "Int_wf (rat_a x)" "normal (mag (rat_b x))" "8 * length (mag (rat_a x)) + 5 < 2 ^ 32"
  shows "\<exists>buf. Rat_GobEncode (Some x) = Inr (Inr buf) \<and>
    Rat_GobDecode z buf = Inr (Inr \<lparr>rat_a = rat_a x, rat_b = (rat_b z)\<lparr>mag := mag (rat_b x)\<rparr>\<rparr>)"
proof -
  define A B where "A = mag (rat_a x)" and "B = mag (rat_b x)"
  define L where "L = 1 + 4 + (length A + length B) * 8"
  obtain i b where b: "nat_bytes B (replicate L 0) = Inr (i, b)" "length b = L" "i \<le> L" "L - 8 * length B \<le> i"
      "be_val (drop i b) = val B"
    using nat_bytes_be [of B "replicate L 0"] by (auto simp: L_def)
  have i: "5 + 8 * length A \<le> i" using b(4) by (simp add: L_def)
  obtain j f where f: "nat_bytes A (take i b) = Inr (j, f)" "length f = i" "j \<le> i" "i - 8 * length A \<le> j" "be_val (drop j f) = val A"
    using nat_bytes_be [of A "take i b"] b(2,3) i by auto
  have j: "5 \<le> j" using f(4) i by simp
  define n where "n = i - j"
  have n: "n + 5 < 2 ^ 32" using f(3,4) i assms(3) unfolding n_def A_def by linarith
  then have un: "unat (word_of_nat n :: 32 word) = n" by (simp only: unat_of_nat) simp
  define g where "g = f @ drop i b"
  have lg: "length g = L" using b(2,3) f(2) by (simp add: g_def)
  have jL: "j \<le> L" using f(3) b(3) by simp
  obtain s where s: "PutUint32 bigEndian (take 4 (drop (j - 4) g)) (word_of_nat n) = Inr s" "length s = 4"
      "Uint32 bigEndian s = Inr (word_of_nat n)"
    using be.put32 [of "take 4 (drop (j - 4) g)" "word_of_nat n"] lg j jL by auto
  define h where "h = (if neg (rat_a x) then push_bit 1 ratGobVersion OR 1 else push_bit 1 ratGobVersion)"
  have h: "drop_bit 1 h = ratGobVersion" "h AND 1 \<noteq> 0 \<longleftrightarrow> neg (rat_a x)" by (simp_all add: h_def ratGobVersion_def)
  define g' where "g' = take (j - 4) g @ s @ drop j g"
  have dg: "drop (j - 5) (g'[j - 5 := h]) = h # s @ drop j f @ drop i b"
  proof -
    have "j - 4 = Suc (j - 5)" "j - 5 < length g" using j lg jL by simp_all
    then have "take (j - 4) g = take (j - 5) g @ [g ! (j - 5)]" by (simp add: take_Suc_conv_app_nth)
    moreover have "length (take (j - 5) g) = j - 5" using lg jL by simp
    moreover have "drop j g = drop j f @ drop i b" using f(2,3) by (simp add: g_def)
    ultimately show ?thesis unfolding g'_def by (simp add: list_update_append)
  qed
  have "Rat_GobEncode (Some x) = Inr (Inr (drop (j - 5) (g'[j - 5 := h])))"
  proof -
    have lj: "\<not> j < 4" "\<not> j < 5" using j by simp_all
    show ?thesis
      unfolding Rat_GobEncode_def Let_def option.case A_def [symmetric] B_def [symmetric] L_def [symmetric] b(1) bindE.simps prod.case f(1)
        g_def [symmetric] n_def [symmetric] un
      by (simp only: lj if_False simp_thms s(1) bindE.simps g'_def [symmetric] h_def [symmetric])
  qed
  moreover have "Rat_GobDecode z (h # s @ drop j f @ drop i b) =
      Inr (Inr \<lparr>rat_a = rat_a x, rat_b = (rat_b z)\<lparr>mag := mag (rat_b x)\<rparr>\<rparr>)"
  proof -
    have "length (drop j f) = n" using f(2) by (simp add: n_def)
    then have "Rat_GobDecode z (h # s @ drop j f @ drop i b) =
        Inr (Inr \<lparr>rat_a = \<lparr>neg = neg (rat_a x), mag = digits (val A)\<rparr>, rat_b = (rat_b z)\<lparr>mag := digits (val B)\<rparr>\<rparr>)"
      using Rat_GobDecode_parts [OF h(1) s(2), of "drop j f" z "drop i b"] s(3) n h(2) f(5) b(5) by simp
    then show ?thesis using assms(1,2) by (simp add: digits_val A_def B_def Int_wf_def)
  qed
  ultimately show ?thesis unfolding dg by blast
qed

lemma Rat_GobDecode_short:
  "length bs < 4 \<Longrightarrow> drop_bit 1 b = ratGobVersion \<Longrightarrow> Rat_GobDecode z (b # bs) = Inl SliceOutOfRange"
  by (simp add: Rat_GobDecode_def)

section \<open>What the operations promise\<close>

text \<open>C9: The operations of \<open>Rat\<close> are those of the field of rational numbers: constructors, sum, difference, product,
  quotient, negation, inverse, absolute value, comparison, sign, integrality and denominator are exact, also on numbers
  whose denominator 1 \<open>Denom\<close> has written out; results of the arithmetic are in lowest terms with one representation
  per number, divisions panic on zero only, and every operation returns.\<close>

theorem Rat_field_exact:
  assumes "rat_ok x" "rat_ok y" "Int_wf p" "Int_wf q"
  shows "(\<exists>w. Rat_Add z x y = Some (Inr w) \<and> rat_wf w \<and> rval w = rval x + rval y) \<and>
    (\<exists>w. Rat_Sub z x y = Some (Inr w) \<and> rat_wf w \<and> rval w = rval x - rval y) \<and>
    (\<exists>w. Rat_Mul z x y = Some (Inr w) \<and> rat_wf w \<and> rval w = rval x * rval y) \<and>
    (if rval y = 0 then Rat_Quo z x y = Some (Inl (PanicMsg ''division by zero'')) \<and> Rat_Inv y = Inl (PanicMsg ''division by zero'')
     else (\<exists>w. Rat_Quo z x y = Some (Inr w) \<and> rat_wf w \<and> rval w = rval x / rval y) \<and>
       (\<exists>w. Rat_Inv y = Inr w \<and> rat_wf w \<and> rval w = 1 / rval y)) \<and>
    (if ival q = 0 then Rat_SetFrac z p q = Some (Inl (PanicMsg ''division by zero''))
     else \<exists>w. Rat_SetFrac z p q = Some (Inr w) \<and> rat_wf w \<and> rval w = of_int (ival p) / of_int (ival q)) \<and>
    rat_ok (Rat_Neg x) \<and> rval (Rat_Neg x) = - rval x \<and> rat_ok (Rat_Abs x) \<and> rval (Rat_Abs x) = \<bar>rval x\<bar> \<and>
    (rat_wf x \<longrightarrow> rat_wf (Rat_Neg x) \<and> rat_wf (Rat_Abs x)) \<and>
    fst (Rat_Denom x) = Int_of (int (rat_den x)) \<and> rat_ok (snd (Rat_Denom x)) \<and> rval (snd (Rat_Denom x)) = rval x \<and>
    Rat_Cmp x y = Inr (if rval x < rval y then -1 else if rval x > rval y then 1 else 0) \<and>
    of_int (Rat_Sign x) = sgn (rval x) \<and> Rat_IsInt x = (rval x \<in> \<int>) \<and>
    (rat_wf x \<longrightarrow> rat_wf y \<longrightarrow> (rval x = rval y \<longleftrightarrow> rat_a x = rat_a y \<and> mag (rat_b x) = mag (rat_b y)))"
proof -
  have "rval y = 0 \<longleftrightarrow> mag (rat_a y) = []"
    using assms(2) val_zero [of "mag (rat_a y)"] rat_den_pos [of y] by (auto simp: rval_def rat_ok_def Int_wf_def ival_def)
  then have "rval y = 0 \<Longrightarrow> Rat_Quo z x y = Some (Inl (PanicMsg ''division by zero'')) \<and> Rat_Inv y = Inl (PanicMsg ''division by zero'')"
    by (simp add: Rat_Quo_def Rat_Inv_def)
  moreover have "ival q = 0 \<Longrightarrow> Rat_SetFrac z p q = Some (Inl (PanicMsg ''division by zero''))"
    using Int_of_ival [OF assms(4)] by (auto simp: Rat_SetFrac_def Int_of_def dest: sym)
  moreover have "rat_wf x \<longrightarrow> rat_wf y \<longrightarrow> (rval x = rval y \<longleftrightarrow> rat_a x = rat_a y \<and> mag (rat_b x) = mag (rat_b y))"
    using Rat_unique [of x y] by (auto simp: rval_def rat_den_def)
  moreover have "rat_wf x \<longrightarrow> rat_wf (Rat_Neg x) \<and> rat_wf (Rat_Abs x)" using Rat_sign_wf by blast
  ultimately show ?thesis
    using Rat_sums_of [OF assms(1,2)] Rat_Quo_of [OF assms(1,2)] Rat_Inv_of [OF assms(2)] Rat_SetFrac_of [OF assms(3,4)] Rat_Denom_of [OF assms(1)]
      Rat_Neg_of [OF assms(1)] Rat_Abs_of [OF assms(1)] Rat_Sign_of [OF assms(1)] Rat_IsInt_of [OF assms(1)] by (cases "rval y = 0"; cases "ival q = 0") simp_all
qed

lemma Rat_field_exact_witness:
  "\<exists>w. Rat_SetFrac \<lparr>rat_a = Int_of 0, rat_b = Int_of 0\<rparr> (Int_of 6) (Int_of (- 4)) = Some (Inr w) \<and> rat_wf w \<and> rval w = - 3 / 2"
proof -
  have "rat_ok \<lparr>rat_a = Int_of 0, rat_b = Int_of 0\<rparr>" by (simp add: rat_ok_def rat_den_def normal_def)
  from Rat_field_exact [OF this this wf_of wf_of, of "\<lparr>rat_a = Int_of 0, rat_b = Int_of 0\<rparr>" "- 4" 6]
  show ?thesis by simp
qed

text \<open>\<open>Rat.GobDecode\<close> inverts \<open>Rat.GobEncode\<close> for numerators whose length in bytes fits 32 bits with the header, and
  the encoder never panics for them; a non-empty input of fewer than five bytes with the right version is not
  rejected but makes the decoder panic.\<close>

theorem Rat_gob_roundtrip:
  assumes "rat_wf x" "8 * length (mag (rat_a x)) + 5 < 2 ^ 32"
  shows "(\<exists>buf. Rat_GobEncode (Some x) = Inr (Inr buf) \<and>
      Rat_GobDecode z buf = Inr (Inr \<lparr>rat_a = rat_a x, rat_b = (rat_b z)\<lparr>mag := mag (rat_b x)\<rparr>\<rparr>)) \<and>
    Rat_GobDecode z [2] = Inl SliceOutOfRange"
  using Rat_GobEncode_of assms Rat_GobDecode_short [of "[]" 2 z] by (simp add: rat_wf_def ratGobVersion_def drop_bit_eq_div)

lemma Rat_gob_roundtrip_witness:
  "\<exists>buf. Rat_GobEncode (Some \<lparr>rat_a = \<lparr>neg = True, mag = [3]\<rparr>, rat_b = \<lparr>neg = False, mag = [2]\<rparr>\<rparr>) = Inr (Inr buf) \<and>
     Rat_GobDecode \<lparr>rat_a = Int_of 0, rat_b = \<lparr>neg = False, mag = []\<rparr>\<rparr> buf =
       Inr (Inr \<lparr>rat_a = \<lparr>neg = True, mag = [3]\<rparr>, rat_b = \<lparr>neg = False, mag = [2]\<rparr>\<rparr>)"
proof -
  have "coprime (- 3 :: int) 2" by simp
  then have "rat_wf \<lparr>rat_a = \<lparr>neg = True, mag = [3]\<rparr>, rat_b = \<lparr>neg = False, mag = [2]\<rparr>\<rparr>"
    by (simp add: rat_wf_def Int_wf_def normal_def rat_den_def ival_def)
  from Rat_gob_roundtrip [OF this, of "\<lparr>rat_a = Int_of 0, rat_b = \<lparr>neg = False, mag = []\<rparr>\<rparr>"] show ?thesis by simp
qed

end
