(* ===== verification/Go_Match.thy ===== *)
theory Go_Match
  imports Go_Path
begin

text \<open>
  Package path, match.go: matching of names against shell patterns. The pattern is cut at its stars into chunks,
  and a chunk behind a star is committed to its first match. The second half states the documented
  grammar as a relation (\<open>pattern\<close>) and what a pattern with given terms matches (\<open>matches\<close>), and relates the two;
  \<open>parse\<close>, which shares \<open>getEsc\<close> with the code, is only used inside the proofs.
\<close>

abbreviation c_star :: byte where "c_star \<equiv> 0x2a"
abbreviation c_quest :: byte where "c_quest \<equiv> 0x3f"
abbreviation c_open :: byte where "c_open \<equiv> 0x5b"
abbreviation c_esc :: byte where "c_esc \<equiv> 0x5c"
abbreviation c_close :: byte where "c_close \<equiv> 0x5d"
abbreviation c_hat :: byte where "c_hat \<equiv> 0x5e"
abbreviation c_dash :: byte where "c_dash \<equiv> 0x2d"

section \<open>The code\<close>

datatype match_error = ErrBadPattern

fun skip_stars :: "gostring \<Rightarrow> bool \<Rightarrow> bool \<times> gostring" where
  "skip_stars [] star = (star, [])"
| "skip_stars (c # p) star = (if c = c_star then skip_stars p True else (star, c # p))"

function scan_loop :: "gostring \<Rightarrow> nat \<Rightarrow> bool \<Rightarrow> nat" where
  "scan_loop p i inrange =
     (if i < length p then
        (if p ! i = c_esc then scan_loop p ((if i + 1 < length p then i + 1 else i) + 1) inrange
         else if p ! i = c_open then scan_loop p (i + 1) True
         else if p ! i = c_close then scan_loop p (i + 1) False
         else if p ! i = c_star \<and> \<not> inrange then i
         else scan_loop p (i + 1) inrange)
      else i)"
  by pat_completeness auto

termination
  by (relation "measure (\<lambda>(p, i, inrange). length p - i)") auto

declare scan_loop.simps [simp del]

definition scanChunk :: "gostring \<Rightarrow> bool \<times> gostring \<times> gostring" where
  "scanChunk pattern =
     (case skip_stars pattern False of (star, pattern) \<Rightarrow>
      let i = scan_loop pattern 0 False in (star, take i pattern, drop i pattern))"

definition getEsc :: "gostring \<Rightarrow> rune \<times> gostring \<times> match_error option" where
  "getEsc chunk =
     (if length chunk = 0 \<or> chunk ! 0 = c_dash \<or> chunk ! 0 = c_close then (0, [], Some ErrBadPattern)
      else let chunk' = (if chunk ! 0 = c_esc then drop 1 chunk else chunk) in
        if chunk ! 0 = c_esc \<and> length chunk' = 0 then (0, [], Some ErrBadPattern)
        else case DecodeRuneInString chunk' of (r, n) \<Rightarrow>
          let err = (if r = RuneError \<and> n = 1 then Some ErrBadPattern else None);
              nchunk = drop n chunk';
              err = (if length nchunk = 0 then Some ErrBadPattern else err)
          in (r, nchunk, err))"

lemma getEsc_shorter: "getEsc p = (r, q, None) \<Longrightarrow> length q < length p \<and> q \<noteq> []"
  by (auto simp: getEsc_def Let_def DecodeRuneInString_eq split: if_splits prod.splits
      dest: DecodeRune_size [of p] DecodeRune_size [of "drop 1 p"])

lemma hi_shorter:
  "(if chunk1 ! 0 = c_dash then getEsc (drop 1 chunk1) else (lo, chunk1, None)) = (hi, chunk2, None) \<Longrightarrow>
    length chunk2 \<le> length chunk1"
proof (cases "chunk1 ! 0 = c_dash")
  case True
  moreover assume "(if chunk1 ! 0 = c_dash then getEsc (drop 1 chunk1) else (lo, chunk1, None)) = (hi, chunk2, None)"
  ultimately have "length chunk2 < length (drop 1 chunk1)" using getEsc_shorter [of "drop 1 chunk1" hi chunk2] by simp
  then show ?thesis by simp
qed simp

text \<open>The loop over the ranges of a class: the rest of the chunk, whether a range contains \<open>r\<close>, the error.\<close>

function class_loop :: "rune \<Rightarrow> gostring \<Rightarrow> bool \<Rightarrow> nat \<Rightarrow> panic + gostring \<times> bool \<times> match_error option" where
  "class_loop r chunk match nrange =
     (if length chunk > 0 \<and> chunk ! 0 = c_close \<and> nrange > 0 then Inr (drop 1 chunk, match, None)
      else case getEsc chunk of (lo, chunk1, err) \<Rightarrow>
        if err \<noteq> None then Inr (chunk1, match, err)
        else if length chunk1 = 0 then Inl IndexOutOfRange
        else case (if chunk1 ! 0 = c_dash then getEsc (drop 1 chunk1) else (lo, chunk1, None)) of (hi, chunk2, err) \<Rightarrow>
          if err \<noteq> None then Inr (chunk2, match, err)
          else class_loop r chunk2 (if lo \<le> r \<and> r \<le> hi then True else match) (nrange + 1))"
  by pat_completeness auto

termination
proof (relation "measure (\<lambda>(r, chunk, match, nrange). length chunk)", goal_cases)
  case (2 r chunk match nrange lo x chunk1 err hi y chunk2 err2)
  then have e: "getEsc chunk = (lo, chunk1, None)"
    "(if chunk1 ! 0 = c_dash then getEsc (drop 1 chunk1) else (lo, chunk1, None)) = (hi, chunk2, None)" by simp_all
  have "length chunk1 < length chunk" using getEsc_shorter [OF e(1)] by simp
  moreover have "length chunk2 \<le> length chunk1"
    by (rule hi_shorter [OF e(2)])
  ultimately show ?case by simp
qed simp

declare class_loop.simps [simp del]

definition class_body :: "rune \<Rightarrow> gostring \<Rightarrow> panic + gostring \<times> bool \<times> match_error option" where
  "class_body r chunk =
     (let (notNegated, chunk) = (if length chunk > 0 \<and> chunk ! 0 = c_hat then (False, drop 1 chunk) else (True, chunk)) in
      bindE (class_loop r chunk False 0) (\<lambda>(chunk, match, err). Inr (chunk, match = notNegated, err)))"

lemma class_loop_shorter: "class_loop r p m n = Inr (q, m', None) \<Longrightarrow> length q < length p"
proof (induction r p m n rule: class_loop.induct)
  case (1 r p m n)
  show ?case
  proof (cases "length p > 0 \<and> p ! 0 = c_close \<and> n > 0")
    case True
    then show ?thesis using "1.prems" by (subst (asm) class_loop.simps) auto
  next
    case False
    obtain lo p1 e1 where g: "getEsc p = (lo, p1, e1)" by (cases "getEsc p")
    obtain hi p2 e2 where h: "(if p1 ! 0 = c_dash then getEsc (drop 1 p1) else (lo, p1, None)) = (hi, p2, e2)"
      using prod_cases3 by blast
    have e: "e1 = None" "p1 \<noteq> []" "e2 = None"
      and c: "class_loop r p2 (if lo \<le> r \<and> r \<le> hi then True else m) (n + 1) = Inr (q, m', None)"
      using "1.prems" False g h by (auto simp: class_loop.simps [of r p] split: if_splits)
    have "length q < length p2"
      by (rule "1.IH" [OF False g [symmetric] refl _ _ h [symmetric] refl _ c]) (use e in simp_all)
    moreover have "length p2 \<le> length p1"
      using h e(3) hi_shorter by blast
    moreover have "length p1 < length p" using getEsc_shorter g e(1) by blast
    ultimately show ?thesis by simp
  qed
qed

lemma class_body_shorter: "class_body r p = Inr (q, b, None) \<Longrightarrow> length q < length p"
  by (auto simp: class_body_def Let_def dest!: class_loop_shorter split: if_splits)

function matchChunk :: "gostring \<Rightarrow> gostring \<Rightarrow> panic + gostring \<times> bool \<times> match_error option" where
  "matchChunk chunk s =
     (if length chunk > 0
      then
        if length s = 0 then Inr ([], False, None)
        else if chunk ! 0 = c_open then
          (case DecodeRuneInString s of (r, n) \<Rightarrow>
            let s = drop n s in
            bindE (class_body r (drop 1 chunk)) (\<lambda>(chunk, ok, err).
            if err \<noteq> None then Inr ([], False, err)
            else if \<not> ok then Inr ([], False, None)
            else matchChunk chunk s))
        else if chunk ! 0 = c_quest then
          (if s ! 0 = slash then Inr ([], False, None)
           else matchChunk (drop 1 chunk) (drop (snd (DecodeRuneInString s)) s))
        else
          let esc = chunk ! 0 = c_esc; chunk = (if esc then drop 1 chunk else chunk) in
          if esc \<and> length chunk = 0 then Inr ([], False, Some ErrBadPattern)
          else if chunk ! 0 \<noteq> s ! 0 then Inr ([], False, None)
          else matchChunk (drop 1 chunk) (drop 1 s)
      else Inr (s, True, None))"
  by pat_completeness auto

termination
  by (relation "measure (\<lambda>(chunk, s). length chunk)") (auto dest!: class_body_shorter)

text \<open>The loop that skips bytes of the name behind a star, up to a slash.\<close>

function star_loop :: "gostring \<Rightarrow> gostring \<Rightarrow> bool \<Rightarrow> nat \<Rightarrow> panic + match_error + gostring option" where
  "star_loop chunk name final i =
     (if i < length name \<and> name ! i \<noteq> slash
      then bindE (matchChunk chunk (drop (i + 1) name)) (\<lambda>(t, ok, err).
        if ok then
          (if final \<and> length t > 0 then star_loop chunk name final (i + 1) else Inr (Inr (Some t)))
        else case err of Some e \<Rightarrow> Inr (Inl e) | None \<Rightarrow> star_loop chunk name final (i + 1))
      else Inr (Inr None))"
  by pat_completeness auto

termination
  by (relation "measure (\<lambda>(chunk, name, final, i). length name - i)") auto

declare matchChunk.simps [simp del] star_loop.simps [simp del]

lemma skip_stars_shorter: "skip_stars p s = (t, q) \<Longrightarrow> length q \<le> length p \<and> (q \<noteq> [] \<longrightarrow> hd q \<noteq> c_star)"
  by (induction p s rule: skip_stars.induct) (auto split: if_splits)

text \<open>The length of a chunk, by recursion on the pattern.\<close>

fun chunk_len :: "bool \<Rightarrow> gostring \<Rightarrow> nat" where
  "chunk_len r [] = 0"
| "chunk_len r (c # p) =
     (if c = c_esc then (case p of [] \<Rightarrow> 1 | d # p' \<Rightarrow> 2 + chunk_len r p')
      else if c = c_open then 1 + chunk_len True p
      else if c = c_close then 1 + chunk_len False p
      else if c = c_star \<and> \<not> r then 0
      else 1 + chunk_len r p)"

lemma scan_loop_len: "scan_loop p i r = (if i < length p then i + chunk_len r (drop i p) else i)"
proof (induction p i r rule: scan_loop.induct)
  case (1 p i r)
  show ?case
  proof (cases "i < length p")
    case True
    then have d: "drop i p = p ! i # drop (i + 1) p" by (simp add: Cons_nth_drop_Suc)
    show ?thesis
    proof (cases "p ! i = c_esc")
      case esc: True
      show ?thesis
      proof (cases "i + 1 < length p")
        case l: True
        then have "drop (i + 1) p = p ! (i + 1) # drop (i + 2) p" by (simp add: Cons_nth_drop_Suc)
        then show ?thesis using "1.IH"(1) [OF True esc] esc d l by (subst scan_loop.simps) auto
      next
        case False
        then show ?thesis using "1.IH"(1) [OF True esc] esc d True by (subst scan_loop.simps) simp
      qed
    next
      case False
      show ?thesis using "1.IH"(2-4) [OF True False] False d True by (subst scan_loop.simps) auto
    qed
  qed (subst scan_loop.simps, simp)
qed

lemma chunk_len_le: "chunk_len r p \<le> length p"
  by (induction r p rule: chunk_len.induct) (auto split: list.splits)

lemma scan_loop_pos: "p \<noteq> [] \<Longrightarrow> hd p \<noteq> c_star \<Longrightarrow> 0 < scan_loop p 0 False"
  by (cases p) (auto simp: scan_loop_len split: list.splits)

lemma scanChunk_shorter: "p \<noteq> [] \<Longrightarrow> scanChunk p = (star, chunk, rest) \<Longrightarrow> length rest < length p"
proof -
  assume p: "p \<noteq> []" and s: "scanChunk p = (star, chunk, rest)"
  obtain t q where q: "skip_stars p False = (t, q)" by (cases "skip_stars p False")
  have r: "rest = drop (scan_loop q 0 False) q" using s q by (simp add: scanChunk_def Let_def)
  have l: "length q \<le> length p" "q \<noteq> [] \<Longrightarrow> hd q \<noteq> c_star" using skip_stars_shorter [OF q] by auto
  show ?thesis
  proof (cases "q = []")
    case True
    then show ?thesis using r p by simp
  next
    case False
    then have "0 < scan_loop q 0 False" using scan_loop_pos l(2) by blast
    then have "length rest < length q" using False unfolding r length_drop by simp
    then show ?thesis using l(1) by simp
  qed
qed

function Match :: "gostring \<Rightarrow> gostring \<Rightarrow> panic + bool \<times> match_error option" where
  "Match pattern name =
     (if length pattern > 0
      then case scanChunk pattern of (star, chunk, pattern') \<Rightarrow>
        if star \<and> length chunk = 0 then Inr (Index name [slash] < 0, None)
        else bindE (matchChunk chunk name) (\<lambda>(t, ok, err).
          if ok \<and> (length t = 0 \<or> length pattern' > 0) then Match pattern' t
          else if err \<noteq> None then Inr (False, err)
          else if star then
            bindE (star_loop chunk name (length pattern' = 0) 0) (\<lambda>r.
              case r of Inl e \<Rightarrow> Inr (False, Some e)
              | Inr (Some t) \<Rightarrow> Match pattern' t
              | Inr None \<Rightarrow> Inr (False, None))
          else Inr (False, None))
      else Inr (length name = 0, None))"
  by pat_completeness auto

termination
  by (relation "measure (\<lambda>(pattern, name). length pattern)") (auto intro!: scanChunk_shorter [OF _ sym])

declare Match.simps [simp del]

section \<open>What a pattern means\<close>

text \<open>What the terms of a pattern are: stars and operators for single characters. \<open>Class b rs\<close> accepts the runes
  inside the ranges when \<open>b\<close>, else those outside. A star matches bytes other than a slash.\<close>

datatype glob_op = Any | Class bool "(rune \<times> rune) list" | Lit byte
datatype glob_term = Star | Op glob_op

fun in_ranges :: "rune \<Rightarrow> (rune \<times> rune) list \<Rightarrow> bool" where
  "in_ranges r [] = False"
| "in_ranges r ((lo, hi) # rs) = (lo \<le> r \<and> r \<le> hi \<or> in_ranges r rs)"

fun op_step :: "glob_op \<Rightarrow> gostring \<Rightarrow> gostring option" where
  "op_step p [] = None"
| "op_step (Lit c) (b # s) = (if b = c then Some s else None)"
| "op_step Any (b # s) = (if b = slash then None else Some (drop (snd (DecodeRune (b # s))) (b # s)))"
| "op_step (Class pos rs) (b # s) =
     (if in_ranges (fst (DecodeRune (b # s))) rs = pos then Some (drop (snd (DecodeRune (b # s))) (b # s)) else None)"

fun run :: "glob_op list \<Rightarrow> gostring \<Rightarrow> gostring option" where
  "run [] s = Some s"
| "run (p # ps) s = (case op_step p s of None \<Rightarrow> None | Some t \<Rightarrow> run ps t)"

fun matches :: "glob_term list \<Rightarrow> gostring \<Rightarrow> bool" where
  "matches [] s = (s = [])"
| "matches (Star # ts) s = (\<exists>k \<le> length s. slash \<notin> set (take k s) \<and> matches ts (drop k s))"
| "matches (Op p # ts) s = (case op_step p s of None \<Rightarrow> False | Some t \<Rightarrow> matches ts t)"

text \<open>The ranges of a class up to its closing bracket; \<open>n\<close> counts them, since a class is not empty.\<close>

function parse_ranges :: "gostring \<Rightarrow> nat \<Rightarrow> ((rune \<times> rune) list \<times> gostring) option" where
  "parse_ranges p n =
     (if p \<noteq> [] \<and> p ! 0 = c_close \<and> n > 0 then Some ([], drop 1 p)
      else case getEsc p of (lo, p1, e) \<Rightarrow>
        if e \<noteq> None then None
        else case (if p1 ! 0 = c_dash then getEsc (drop 1 p1) else (lo, p1, None)) of (hi, p2, e) \<Rightarrow>
          if e \<noteq> None then None
          else map_option (\<lambda>(rs, q). ((lo, hi) # rs, q)) (parse_ranges p2 (n + 1)))"
  by pat_completeness auto

termination
proof (relation "measure (\<lambda>(p, n). length p)", goal_cases)
  case (2 p n lo x p1 err hi y p2 err2)
  then have e: "getEsc p = (lo, p1, None)" "(if p1 ! 0 = c_dash then getEsc (drop 1 p1) else (lo, p1, None)) = (hi, p2, None)"
    by simp_all
  then show ?case using getEsc_shorter [OF e(1)] hi_shorter [OF e(2)] by simp
qed simp

declare parse_ranges.simps [simp del]

lemma parse_ranges_shorter: "parse_ranges p n = Some (rs, q) \<Longrightarrow> length q < length p"
proof (induction p n arbitrary: rs rule: parse_ranges.induct)
  case (1 p n)
  show ?case
  proof (cases "p \<noteq> [] \<and> p ! 0 = c_close \<and> n > 0")
    case True
    then show ?thesis using "1.prems" by (subst (asm) parse_ranges.simps) auto
  next
    case False
    obtain lo p1 e1 where g: "getEsc p = (lo, p1, e1)" by (cases "getEsc p")
    obtain hi p2 e2 where h: "(if p1 ! 0 = c_dash then getEsc (drop 1 p1) else (lo, p1, None)) = (hi, p2, e2)"
      using prod_cases3 by blast
    have e: "e1 = None" "e2 = None" using "1.prems" False g h by (auto simp: parse_ranges.simps [of p] split: if_splits)
    obtain rs' where c: "parse_ranges p2 (n + 1) = Some (rs', q)"
      using "1.prems" False g h e by (auto simp: parse_ranges.simps [of p])
    have "length q < length p2"
      by (rule "1.IH" [OF False g [symmetric] refl _ h [symmetric] refl _ c]) (use e in simp_all)
    moreover have "length p2 \<le> length p1" using h e hi_shorter by blast
    moreover have "length p1 < length p" using g e getEsc_shorter by blast
    ultimately show ?thesis by simp
  qed
qed

definition parse_class :: "gostring \<Rightarrow> (glob_op \<times> gostring) option" where
  "parse_class p =
     (let (pos, p) = (if p \<noteq> [] \<and> p ! 0 = c_hat then (False, drop 1 p) else (True, p)) in
      map_option (\<lambda>(rs, q). (Class pos rs, q)) (parse_ranges p 0))"

lemma parse_class_shorter: "parse_class p = Some (c, q) \<Longrightarrow> length q < length p"
  by (auto simp: parse_class_def Let_def dest!: parse_ranges_shorter split: if_splits)

text \<open>\<open>st\<close> is what an unescaped star stands for: \<open>Star\<close> in a pattern, itself in a chunk.\<close>

function parse_as :: "glob_term \<Rightarrow> gostring \<Rightarrow> glob_term list option" where
  "parse_as st [] = Some []"
| "parse_as st (c # p) =
     (if c = c_star then map_option ((#) st) (parse_as st p)
      else if c = c_open then
        (case parse_class p of None \<Rightarrow> None | Some (cl, q) \<Rightarrow> map_option ((#) (Op cl)) (parse_as st q))
      else if c = c_quest then map_option ((#) (Op Any)) (parse_as st p)
      else if c = c_esc then (case p of [] \<Rightarrow> None | d # q \<Rightarrow> map_option ((#) (Op (Lit d))) (parse_as st q))
      else map_option ((#) (Op (Lit c))) (parse_as st p))"
  by pat_completeness auto

termination
  by (relation "measure (\<lambda>(st, p). length p)") (auto dest!: parse_class_shorter)

abbreviation parse :: "gostring \<Rightarrow> glob_term list option" where
  "parse \<equiv> parse_as Star"

abbreviation parse_chunk :: "gostring \<Rightarrow> glob_term list option" where
  "parse_chunk \<equiv> parse_as (Op (Lit c_star))"

lemma parse_chunk_ops: "parse_chunk c = Some ts \<Longrightarrow> \<exists>ps. ts = map Op ps"
proof -
  have "parse_chunk c = Some ts \<Longrightarrow> list_all (\<lambda>t. t \<noteq> Star) ts"
  proof (induction "Op (Lit c_star)" c arbitrary: ts rule: parse_as.induct)
    case (2 c p)
    show ?case
    proof (cases "c = c_open")
      case True
      then show ?thesis using "2.prems" "2.hyps"(2) by (auto split: option.splits)
    next
      case False
      then show ?thesis using "2.prems" "2.hyps"(1,3,4,5) by (auto split: if_splits list.splits)
    qed
  qed simp
  moreover have "list_all (\<lambda>t. t \<noteq> Star) us \<Longrightarrow> \<exists>ps. us = map Op ps" for us
  proof (induction us)
    case (Cons u us)
    then obtain p ps where "u = Op p" "us = map Op ps" by (cases u) auto
    then have "u # us = map Op (p # ps)" by simp
    then show ?case by (rule exI)
  qed simp
  ultimately show "parse_chunk c = Some ts \<Longrightarrow> \<exists>ps. ts = map Op ps" by blast
qed

section \<open>Chunks\<close>

lemma class_loop_parse:
  "case parse_ranges p n of Some (rs, q) \<Rightarrow> class_loop r p m n = Inr (q, m \<or> in_ranges r rs, None)
   | None \<Rightarrow> \<exists>q m' e. class_loop r p m n = Inr (q, m', Some e)"
proof (induction r p m n rule: class_loop.induct)
  case (1 r p m n)
  show ?case
  proof (cases "length p > 0 \<and> p ! 0 = c_close \<and> n > 0")
    case True
    then show ?thesis by (simp add: parse_ranges.simps [of p] class_loop.simps [of r p])
  next
    case False
    obtain lo p1 e1 where g: "getEsc p = (lo, p1, e1)" by (cases "getEsc p")
    show ?thesis
    proof (cases e1)
      case (Some e)
      then show ?thesis using False g by (simp add: parse_ranges.simps [of p] class_loop.simps [of r p])
    next
      case None
      then have p1: "p1 \<noteq> []" using g getEsc_shorter by blast
      obtain hi p2 e2 where h: "(if p1 ! 0 = c_dash then getEsc (drop 1 p1) else (lo, p1, None)) = (hi, p2, e2)"
        using prod_cases3 by blast
      show ?thesis
      proof (cases e2)
        case (Some e)
        then show ?thesis using False g h p1 None
          by (simp add: parse_ranges.simps [of p] class_loop.simps [of r p])
      next
        case n2: None
        have ih: "case parse_ranges p2 (n + 1) of
            Some (rs, q) \<Rightarrow> class_loop r p2 (if lo \<le> r \<and> r \<le> hi then True else m) (n + 1) =
              Inr (q, (if lo \<le> r \<and> r \<le> hi then True else m) \<or> in_ranges r rs, None)
          | None \<Rightarrow> \<exists>q m' e. class_loop r p2 (if lo \<le> r \<and> r \<le> hi then True else m) (n + 1) = Inr (q, m', Some e)"
          by (rule "1.IH" [OF False g [symmetric] refl _ _ h [symmetric] refl]) (use None n2 p1 in simp_all)
        have c: "class_loop r p m n = class_loop r p2 (if lo \<le> r \<and> r \<le> hi then True else m) (n + 1)"
          using False g h p1 None n2 by (subst class_loop.simps) auto
        have q: "parse_ranges p n = map_option (\<lambda>(rs, q). ((lo, hi) # rs, q)) (parse_ranges p2 (n + 1))"
          using False g h None n2 by (subst parse_ranges.simps) auto
        show ?thesis
        proof (cases "parse_ranges p2 (n + 1)")
          case None
          then show ?thesis using ih unfolding c q by simp
        next
          case (Some x)
          then show ?thesis using ih unfolding c q by (cases x) auto
        qed
      qed
    qed
  qed
qed

lemma class_body_parse:
  "case parse_class p of
     Some (cl, q) \<Rightarrow> \<exists>pos rs. cl = Class pos rs \<and> class_body r p = Inr (q, in_ranges r rs = pos, None)
   | None \<Rightarrow> \<exists>q b e. class_body r p = Inr (q, b, Some e)"
proof -
  obtain pos p' where p: "(if p \<noteq> [] \<and> p ! 0 = c_hat then (False, drop 1 p) else (True, p)) = (pos, p')"
    using prod.exhaust by blast
  have b: "class_body r p = bindE (class_loop r p' False 0) (\<lambda>(chunk, match, err). Inr (chunk, match = pos, err))"
    using p by (auto simp: class_body_def split: if_splits)
  have c: "parse_class p = map_option (\<lambda>(rs, q). (Class pos rs, q)) (parse_ranges p' 0)"
    unfolding parse_class_def p by simp
  show ?thesis unfolding b c using class_loop_parse [where p = p' and n = 0 and r = r and m = False] by (cases "parse_ranges p' 0") auto
qed

text \<open>What \<open>matchChunk\<close> returns for a chunk and a name: it runs the operators of a chunk that parses, and
  never matches another one.\<close>

definition chunk_result :: "glob_term list option \<Rightarrow> gostring \<Rightarrow> panic + gostring \<times> bool \<times> match_error option \<Rightarrow> bool" where
  "chunk_result P s r \<longleftrightarrow>
     (case P of
        Some ts \<Rightarrow> (\<exists>ps. ts = map Op ps \<and> r = (case run ps s of Some t \<Rightarrow> Inr (t, True, None) | None \<Rightarrow> Inr ([], False, None)))
      | None \<Rightarrow> \<exists>e. r = Inr ([], False, e))"

lemma chunk_result_fail:
  "P = Some ts \<Longrightarrow> ts = Op p # map Op ps \<Longrightarrow> op_step p s = None \<Longrightarrow> chunk_result P s (Inr ([], False, None))"
  by (auto simp: chunk_result_def intro!: exI [of _ "p # ps"])

lemma chunk_result_None: "chunk_result None s (Inr ([], False, e))"
  by (simp add: chunk_result_def)

lemma chunk_result_stop:
  assumes "\<And>ts. parse_chunk q = Some ts \<Longrightarrow> op_step p s = None"
  shows "chunk_result (map_option ((#) (Op p)) (parse_chunk q)) s (Inr ([], False, None))"
  using assms parse_chunk_ops [of q] by (cases "parse_chunk q") (auto simp: chunk_result_None intro: chunk_result_fail)

lemma chunk_result_step:
  assumes "op_step p s = Some t" "chunk_result (parse_chunk q) t r"
  shows "chunk_result (map_option ((#) (Op p)) (parse_chunk q)) s r"
proof (cases "parse_chunk q")
  case None
  then show ?thesis using assms(2) by (simp add: chunk_result_def)
next
  case (Some ts)
  then obtain ps where "ts = map Op ps" "r = (case run ps t of Some t \<Rightarrow> Inr (t, True, None) | None \<Rightarrow> Inr ([], False, None))"
    using assms(2) by (auto simp: chunk_result_def)
  then show ?thesis using Some assms(1) by (auto simp: chunk_result_def intro!: exI [of _ "p # ps"])
qed

lemma matchChunk_empty: "c \<noteq> [] \<Longrightarrow> chunk_result (parse_chunk c) [] (Inr ([], False, None))"
proof (cases "parse_chunk c")
  case (Some ts)
  assume "c \<noteq> []"
  then have "ts \<noteq> []" using Some by (cases c) (auto split: if_splits option.splits list.splits)
  then obtain p ps where "ts = Op p # map Op ps" using parse_chunk_ops [OF Some] by (auto simp: neq_Nil_conv)
  then show ?thesis using Some by (auto intro: chunk_result_fail)
qed (simp add: chunk_result_None)

lemma matchChunk_run: "chunk_result (parse_chunk c) s (matchChunk c s)"
proof (induction c s rule: matchChunk.induct)
  case (1 c s)
  show ?case
  proof (cases "c = []")
    case True
    then show ?thesis using matchChunk.simps [of "[]" s] by (simp add: chunk_result_def)
  next
    case c0: False
    then obtain a q where c: "c = a # q" by (cases c) auto
    show ?thesis
    proof (cases "s = []")
      case True
      then show ?thesis using matchChunk_empty [OF c0] c0 by (simp add: matchChunk.simps [of c])
    next
      case s0: False
      then obtain b u where s: "s = b # u" by (cases s) auto
      have pre: "length c > 0" "\<not> length s = 0" using c0 s0 by simp_all
      consider (cl) "a = c_open" | (any) "a = c_quest" | (esc) "a = c_esc" | (lit) "a \<noteq> c_open" "a \<noteq> c_quest" "a \<noteq> c_esc" by blast
      then show ?thesis
      proof cases
        case cl
        define r n where "r = fst (DecodeRune s)" and "n = snd (DecodeRune s)"
        have d: "DecodeRuneInString s = (r, n)" by (simp add: DecodeRuneInString_eq r_def n_def)
        have m: "matchChunk c s = bindE (class_body r q) (\<lambda>(chunk, ok, err).
            if err \<noteq> None then Inr ([], False, err) else if \<not> ok then Inr ([], False, None) else matchChunk chunk (drop n s))"
          using cl c pre d by (subst matchChunk.simps) simp
        show ?thesis
        proof (cases "parse_class q")
          case None
          then obtain q' b' e where "class_body r q = Inr (q', b', Some e)" using class_body_parse [where p = q and r = r] by auto
          then show ?thesis unfolding m using None cl c by (simp add: chunk_result_None)
        next
          case (Some x)
          obtain k q' where x: "x = (k, q')" by (cases x)
          then obtain pos rs where k: "k = Class pos rs" "class_body r q = Inr (q', in_ranges r rs = pos, None)"
            using class_body_parse [where p = q and r = r] Some by auto
          have p: "parse_chunk c = map_option ((#) (Op k)) (parse_chunk q')" using cl c Some x by simp
          have st: "op_step k s = (if in_ranges r rs = pos then Some (drop n s) else None)"
            using k(1) s by (simp add: r_def n_def)
          show ?thesis
          proof (cases "in_ranges r rs = pos")
            case True
            have "chunk_result (parse_chunk q') (drop n s) (matchChunk q' (drop n s))"
              by (rule "1.IH"(1) [OF pre _ d [symmetric] refl, of "(q', True, None)" q' "(True, None)"])
                (use c cl k(2) True in simp_all)
            then show ?thesis unfolding p m k(2) using st True by (simp add: chunk_result_step)
          next
            case False
            then show ?thesis unfolding p m k(2) using st by (simp add: chunk_result_stop)
          qed
        qed
      next
        case any
        show ?thesis
        proof (cases "b = slash")
          case True
          then show ?thesis using any c s chunk_result_stop [of q Any s] by (subst matchChunk.simps) simp
        next
          case False
          have ih: "chunk_result (parse_chunk (drop 1 c)) (drop (snd (DecodeRuneInString s)) s)
              (matchChunk (drop 1 c) (drop (snd (DecodeRuneInString s)) s))"
            by (rule "1.IH"(2) [OF pre]) (use any c s False in simp_all)
          have "op_step Any s = Some (drop (snd (DecodeRuneInString s)) s)" using False s by (simp add: DecodeRuneInString_eq)
          from chunk_result_step [OF this, of q] ih show ?thesis
            using any c s False by (subst matchChunk.simps) simp
        qed
      next
        case esc
        show ?thesis
        proof (cases q)
          case Nil
          then show ?thesis using esc c s by (subst matchChunk.simps) (simp add: chunk_result_None Let_def)
        next
          case (Cons d q')
          show ?thesis
          proof (cases "d = b")
            case True
            have "chunk_result (parse_chunk (drop 1 (if c ! 0 = c_esc then drop 1 c else c))) (drop 1 s)
                (matchChunk (drop 1 (if c ! 0 = c_esc then drop 1 c else c)) (drop 1 s))"
              by (rule "1.IH"(3) [OF pre _ _ refl refl]) (use esc c s Cons True in simp_all)
            then show ?thesis using chunk_result_step [of "Lit d" s u q'] esc c s Cons True
              by (subst matchChunk.simps) (simp add: Let_def)
          next
            case False
            then show ?thesis using chunk_result_stop [of q' "Lit d" s] esc c s Cons
              by (subst matchChunk.simps) (simp add: Let_def)
          qed
        qed
      next
        case lit
        have p: "parse_chunk c = map_option ((#) (Op (Lit a))) (parse_chunk q)"
          using lit c by (cases "a = c_star") simp_all
        show ?thesis
        proof (cases "a = b")
          case True
          have "chunk_result (parse_chunk (drop 1 (if c ! 0 = c_esc then drop 1 c else c))) (drop 1 s)
              (matchChunk (drop 1 (if c ! 0 = c_esc then drop 1 c else c)) (drop 1 s))"
            by (rule "1.IH"(3) [OF pre _ _ refl refl]) (use lit c s True in simp_all)
          then show ?thesis unfolding p using chunk_result_step [of "Lit a" s u q] lit c s True
            by (subst matchChunk.simps) (simp add: Let_def)
        next
          case False
          then show ?thesis unfolding p using chunk_result_stop [of q "Lit a" s] lit c s
            by (subst matchChunk.simps) (simp add: Let_def)
        qed
      qed
    qed
  qed
qed

section \<open>Cutting the pattern\<close>

lemma chunk_len_star: "chunk_len r p < length p \<Longrightarrow> p ! chunk_len r p = c_star"
proof (induction r p rule: chunk_len.induct)
  case (2 r c p)
  show ?case
  proof (cases "c = c_esc")
    case True
    then show ?thesis using 2 by (cases p) simp_all
  next
    case False
    then show ?thesis using 2 by (cases "c = c_open"; cases "c = c_close"; cases "c = c_star \<and> \<not> r") (simp_all, blast?)
  qed
qed simp

lemma chunk_len_pos: "p \<noteq> [] \<Longrightarrow> 0 < chunk_len True p"
  by (cases p) (auto split: list.splits)

lemma chunk_len_high:
  "(\<And>b. b \<in> set a \<Longrightarrow> \<not> b < RuneSelf) \<Longrightarrow> chunk_len r (a @ q) = length a + chunk_len r q"
proof (induction a)
  case (Cons b a)
  have "\<not> b < RuneSelf" using Cons.prems by simp
  then have "b \<noteq> c_esc" "b \<noteq> c_open" "b \<noteq> c_close" "b \<noteq> c_star" by (auto simp: RuneSelf_def)
  then show ?case using Cons by simp
qed simp

text \<open>A rune is decoded in the same way from a text that is cut in front of an ASCII byte.\<close>

lemma encoded_high:
  assumes "ValidRune r" "length (encodedBytes r) \<noteq> 1" "b \<in> set (encodedBytes r)"
  shows "\<not> b < RuneSelf"
proof -
  have "0x80 \<le> uint b"
    using assms(1)
  proof (cases rule: encodedBytes_cases)
    case one
    then show ?thesis using assms(2) by simp
  next
    case (two x y)
    have "0 \<le> r div 64" "0 \<le> r mod 64" using two(1) by (simp_all add: pos_imp_zdiv_nonneg_iff)
    moreover have "b = x \<or> b = y" using assms(3) two(3) by simp
    ultimately show ?thesis using two(4,5) by (elim disjE) simp_all
  next
    case (three x y z)
    have "0 \<le> r div 4096" "0 \<le> r div 64 mod 64" "0 \<le> r mod 64" using three(1) by (simp_all add: pos_imp_zdiv_nonneg_iff)
    moreover have "b = x \<or> b = y \<or> b = z" using assms(3) three(4) by simp
    ultimately show ?thesis using three(5,6,7) by (elim disjE) simp_all
  next
    case (four x y z w)
    have "0 \<le> r div 262144" "0 \<le> r div 4096 mod 64" "0 \<le> r div 64 mod 64" "0 \<le> r mod 64"
      using four(1) by (simp_all add: pos_imp_zdiv_nonneg_iff)
    then have "0x80 \<le> uint x" "0x80 \<le> uint y" "0x80 \<le> uint z" "0x80 \<le> uint w" using four(4,5,6,7) by linarith+
    moreover have "b = x \<or> b = y \<or> b = z \<or> b = w" using assms(3) unfolding four(3) by simp
    ultimately show ?thesis by blast
  qed
  then show ?thesis by (simp add: byte_cmp)
qed

lemma encoded_tail: "ValidRune r \<Longrightarrow> 0 < i \<Longrightarrow> i < length (encodedBytes r) \<Longrightarrow> \<not> encodedBytes r ! i < RuneSelf"
  by (rule encoded_high) auto

lemma DecodeRune_cut:
  assumes "p \<noteq> []" "0 < k" "k \<le> length p" "k < length p \<Longrightarrow> p ! k < RuneSelf"
  shows "DecodeRune (take k p) = DecodeRune p"
proof -
  have t: "take k p \<noteq> []" using assms(1,2) by simp
  from assms(1) show ?thesis
  proof (cases rule: DecodeRune_cases)
    case (good r)
    define l where "l = length (encodedBytes r)"
    have l: "l \<le> length p" using good(3) unfolding l_def by (metis length_take min.cobounded1)
    have "l \<le> k"
    proof (rule ccontr)
      assume "\<not> l \<le> k"
      then have k: "k < l" "k < length p" using l by simp_all
      have "p ! k = encodedBytes r ! k" using good(3) k by (metis l_def nth_take)
      then show False using encoded_tail [OF good(1) assms(2)] k assms(4) by (simp add: l_def)
    qed
    then have "take k p = encodedBytes r @ drop l (take k p)"
      using good(3) by (metis append_take_drop_id l_def min.absorb1 take_take)
    then show ?thesis using DecodeRune_encodedBytes [OF good(1)] good(2) by metis
  next
    case bad
    from t show ?thesis
    proof (cases rule: DecodeRune_cases)
      case (good r)
      have "take (length (encodedBytes r)) p = encodedBytes r"
        using good(3) by (metis length_take min.commute nat_le_linear take_all take_take min.absorb1 min.absorb2)
      then have "DecodeRune p = (r, length (encodedBytes r))"
        using DecodeRune_encodedBytes [OF good(1)] by (metis append_take_drop_id)
      then show ?thesis using good(2) by simp
    qed (use bad in simp)
  qed
qed

text \<open>Inside a class, the length of the chunk passes over a rune.\<close>

lemma chunk_len_rune:
  assumes "p \<noteq> []" "hd p \<noteq> c_close" "hd p \<noteq> c_esc" "DecodeRune p = (r, n)" "\<not> (r = RuneError \<and> n = 1)"
  shows "0 < n \<and> n \<le> length p \<and> chunk_len True p = n + chunk_len True (drop n p)"
  using assms(1)
proof (cases rule: DecodeRune_cases)
  case bad
  then show ?thesis using assms(4,5) by simp
next
  case (good r')
  then have r: "ValidRune r" "n = length (encodedBytes r)" "take n p = encodedBytes r" using assms(4) by simp_all
  have p: "p = encodedBytes r @ drop n p" using r(3) by (metis append_take_drop_id)
  have n: "0 < n" "n \<le> length p" using encodedBytes_bounds [of r] r(2,3) by (auto, metis length_take min.cobounded1)
  show ?thesis
  proof (cases "n = 1")
    case True
    then obtain b where "p = b # drop 1 p" using assms(1) by (cases p) auto
    moreover have "chunk_len True (b # drop 1 p) = 1 + chunk_len True (drop 1 p)" if "b \<noteq> c_close" "b \<noteq> c_esc"
      using that by simp
    ultimately show ?thesis using assms(2,3) n True by (metis list.sel(1))
  next
    case False
    have "\<not> b < RuneSelf" if "b \<in> set (encodedBytes r)" for b
      using encoded_high [OF r(1) _ that] False r(2) by simp
    then have "chunk_len True (encodedBytes r @ drop n p) = n + chunk_len True (drop n p)"
      unfolding r(2) by (rule chunk_len_high) 
    then show ?thesis using p n by simp
  qed
qed

text \<open>Cutting inside a class does not change what a character of the class is.\<close>

abbreviation clip :: "gostring \<Rightarrow> gostring" where
  "clip p \<equiv> take (chunk_len True p) p"

lemma cut_nth: "p \<noteq> [] \<Longrightarrow> clip p \<noteq> [] \<and> clip p ! 0 = p ! 0"
  using chunk_len_pos [of p] by (cases p) auto

lemma cut_star: "chunk_len True p < length p \<Longrightarrow> p ! chunk_len True p < RuneSelf"
  using chunk_len_star [of True p] by (simp add: RuneSelf_def)

lemma getEsc_ok:
  assumes "getEsc p = (lo, q, None)"
  shows "\<exists>m. 0 < m \<and> m \<le> length p \<and> q = drop m p \<and> chunk_len True p = m + chunk_len True q \<and> getEsc (clip p) = (lo, clip q, None)"
proof -
  define e where "e = (p ! 0 = c_esc)"
  define p' where "p' = (if e then drop 1 p else p)"
  obtain r n where r: "DecodeRune p' = (r, n)" by (cases "DecodeRune p'")
  have p: "p \<noteq> []" "p ! 0 \<noteq> c_dash" "p ! 0 \<noteq> c_close" "p' \<noteq> []" "lo = r" "q = drop n p'" "q \<noteq> []" "\<not> (r = RuneError \<and> n = 1)"
    using assms r by (auto simp: getEsc_def e_def p'_def Let_def DecodeRuneInString_eq split: if_splits)
  have h: "0 < n \<and> n \<le> length p' \<and> chunk_len True p = (if e then 1 else 0) + n + chunk_len True q"
  proof (cases e)
    case False
    then show ?thesis using chunk_len_rune [of p r n] p r by (simp add: p'_def e_def hd_conv_nth)
  next
    case True
    obtain d u where d: "p' = d # u" using p(4) by (cases p') auto
    have pp: "p = c_esc # d # u" using True d p(1) by (cases p) (auto simp: e_def p'_def)
    show ?thesis
    proof (cases "n = 1")
      case n: True
      then show ?thesis using True p(6) d pp by simp
    next
      case False
      from p(4) have "\<not> d < RuneSelf"
      proof (cases rule: DecodeRune_cases)
        case (good r')
        then have "length (encodedBytes r') \<noteq> 1" "d \<in> set (encodedBytes r')"
          using r False d encodedBytes_bounds [of r'] by (auto, metis hd_in_set encodedBytes_ne hd_take list.sel(1) zero_less_iff_neq_zero length_greater_0_conv)
        then show ?thesis using encoded_high good(1) by blast
      qed (use r p(8) in simp)
      then have "d \<noteq> c_esc" "d \<noteq> c_open" "d \<noteq> c_close" "d \<noteq> c_star" by (auto simp: RuneSelf_def)
      moreover from this have "0 < n \<and> n \<le> length p' \<and> chunk_len True p' = n + chunk_len True q"
        using chunk_len_rune [OF p(4) _ _ r p(8)] d p(6) by simp
      ultimately show ?thesis using True d pp by simp
    qed
  qed
  define m where "m = (if e then 1 else 0) + n"
  define k where "k = n + chunk_len True q"
  have q: "q = drop m p" using p(6) by (simp add: m_def p'_def)
  have kp: "chunk_len True p = (if e then 1 else 0) + k" using h by (simp add: k_def)
  have c': "(if e then drop 1 (clip p) else clip p) = take k p'"
    using kp by (simp add: p'_def drop_take)
  have kl: "k \<le> length p'" using chunk_len_le [of True p] kp p(1) by (auto simp: p'_def)
  have "k < length p' \<Longrightarrow> p' ! k < RuneSelf" using cut_star [of p] kp by (auto simp: p'_def split: if_splits)
  then have dec: "DecodeRune (take k p') = (r, n)"
    using DecodeRune_cut [OF p(4) _ kl] h r by (simp add: k_def)
  have nq: "drop n (take k p') = clip q" "clip q \<noteq> []" using p(6) cut_nth [OF p(7)] by (simp_all add: k_def drop_take)
  have t: "take k p' \<noteq> []" using h p(4) by (simp add: k_def)
  have g: "getEsc (clip p) = (if e \<and> length (take k p') = 0 then (0, [], Some ErrBadPattern)
      else case DecodeRuneInString (take k p') of (r, n) \<Rightarrow>
        let err = (if r = RuneError \<and> n = 1 then Some ErrBadPattern else None);
            nchunk = drop n (take k p'); err = (if length nchunk = 0 then Some ErrBadPattern else err) in (r, nchunk, err))"
    using cut_nth [OF p(1)] p(2,3) unfolding getEsc_def Let_def c' [symmetric] e_def by (auto simp: min_def)
  have "getEsc (clip p) = (lo, clip q, None)"
    unfolding g DecodeRuneInString_eq dec Let_def prod.case nq(1) using t nq(2) p(5,8) by simp
  moreover have "0 < m" "m \<le> length p" "chunk_len True p = m + chunk_len True q"
    using h p(1) by (auto simp: m_def p'_def)
  ultimately show ?thesis using q by blast
qed

lemma getEsc_bad:
  assumes "getEsc p = (lo, q, Some x)"
  shows "\<exists>lo q x. getEsc (clip p) = (lo, q, Some x)"
proof (cases "p = [] \<or> p ! 0 = c_dash \<or> p ! 0 = c_close")
  case True
  then show ?thesis using cut_nth [of p] by (cases "p = []") (auto simp: getEsc_def)
next
  case False
  define e where "e = (p ! 0 = c_esc)"
  define p' where "p' = (if e then drop 1 p else p)"
  obtain r n where r: "DecodeRune p' = (r, n)" by (cases "DecodeRune p'")
  define k where "k = chunk_len True p - (if e then 1 else 0)"
  have c': "(if e then drop 1 (clip p) else clip p) = take k p'" by (simp add: p'_def k_def drop_take)
  have g: "getEsc (clip p) = (if e \<and> length (take k p') = 0 then (0, [], Some ErrBadPattern)
      else case DecodeRuneInString (take k p') of (r, n) \<Rightarrow>
        let err = (if r = RuneError \<and> n = 1 then Some ErrBadPattern else None);
            nchunk = drop n (take k p'); err = (if length nchunk = 0 then Some ErrBadPattern else err) in (r, nchunk, err))"
    using cut_nth [of p] False unfolding getEsc_def Let_def c' [symmetric] e_def by (auto simp: min_def)
  show ?thesis
  proof (cases "p' = []")
    case True
    then have e using False by (auto simp: p'_def split: if_splits)
    then show ?thesis unfolding g using True by simp
  next
    case ne: False
    have b: "r = RuneError \<and> n = 1 \<or> drop n p' = []"
      using assms False ne r by (auto simp: getEsc_def e_def p'_def Let_def DecodeRuneInString_eq split: if_splits)
    have k0: "0 < k"
    proof (cases e)
      case True
      then obtain d u where "p = c_esc # d # u" using ne False by (cases p; cases "drop 1 p") (auto simp: e_def p'_def)
      then show ?thesis using True by (simp add: k_def)
    qed (use chunk_len_pos [of p] False in \<open>simp add: k_def\<close>)
    have kp: "chunk_len True p = (if e then 1 else 0) + k" using k0 by (auto simp: k_def)
    have kl: "k \<le> length p'" using chunk_len_le [of True p] kp False by (auto simp: p'_def)
    have "k < length p' \<Longrightarrow> p' ! k < RuneSelf" using cut_star [of p] kp by (auto simp: p'_def split: if_splits)
    then have dec: "DecodeRune (take k p') = (r, n)" using DecodeRune_cut [OF ne k0 kl] r by simp
    show ?thesis unfolding g DecodeRuneInString_eq dec Let_def prod.case using b by (auto simp: drop_take)
  qed
qed

lemma clip_ranges:
  "case parse_ranges p n of
     Some (rs, q) \<Rightarrow> \<exists>m \<le> length p. q = drop m p \<and> chunk_len True p = m + chunk_len False q \<and>
       parse_ranges (clip p) n = Some (rs, take (chunk_len False q) q)
   | None \<Rightarrow> parse_ranges (clip p) n = None"
proof (induction p n rule: parse_ranges.induct)
  case (1 p n)
  show ?case
  proof (cases "p \<noteq> [] \<and> p ! 0 = c_close \<and> n > 0")
    case True
    then obtain u where p: "p = c_close # u" by (cases p) auto
    have "parse_ranges p n = Some ([], u)" "parse_ranges (clip p) n = Some ([], take (chunk_len False u) u)"
      using True p by (simp_all add: parse_ranges.simps [of _ n])
    then show ?thesis using p by (auto intro!: exI [of _ 1])
  next
    case False
    have F: "\<not> (clip p \<noteq> [] \<and> clip p ! 0 = c_close \<and> n > 0)" using False cut_nth [of p] by (cases "p = []") auto
    obtain lo p1 e1 where g: "getEsc p = (lo, p1, e1)" by (cases "getEsc p")
    show ?thesis
    proof (cases e1)
      case (Some x)
      then obtain lo' q' x' where "getEsc (clip p) = (lo', q', Some x')" using getEsc_bad g by blast
      then have "parse_ranges p n = None" "parse_ranges (clip p) n = None"
        using False F g Some by (subst parse_ranges.simps; auto)+
      then show ?thesis by simp
    next
      case None
      obtain m1 where m1: "m1 \<le> length p" "p1 = drop m1 p" "chunk_len True p = m1 + chunk_len True p1" "getEsc (clip p) = (lo, clip p1, None)"
        using getEsc_ok g None by blast
      have n1: "p1 \<noteq> []" using getEsc_shorter g None by blast
      obtain hi p2 e2 where h: "(if p1 ! 0 = c_dash then getEsc (drop 1 p1) else (lo, p1, None)) = (hi, p2, e2)"
        using prod_cases3 by blast
      have q: "parse_ranges p n = (if e2 \<noteq> None then None else map_option (\<lambda>(rs, q). ((lo, hi) # rs, q)) (parse_ranges p2 (n + 1)))"
        using False g h None by (subst parse_ranges.simps) auto
      have q': "parse_ranges (clip p) n = (case (if p1 ! 0 = c_dash then getEsc (drop 1 (clip p1)) else (lo, clip p1, None)) of (hi, p2, e) \<Rightarrow>
          if e \<noteq> None then None else map_option (\<lambda>(rs, q). ((lo, hi) # rs, q)) (parse_ranges p2 (n + 1)))"
        using F m1(4) cut_nth [OF n1] by (subst parse_ranges.simps) auto
      have dash: "drop 1 (clip p1) = clip (drop 1 p1)" "chunk_len True p1 = 1 + chunk_len True (drop 1 p1)" if "p1 ! 0 = c_dash"
        using that n1 by (cases p1; simp)+
      show ?thesis
      proof (cases e2)
        case (Some x)
        then have d: "p1 ! 0 = c_dash" "getEsc (drop 1 p1) = (hi, p2, Some x)" using h by (auto split: if_splits)
        then obtain lo' q' x' where "getEsc (clip (drop 1 p1)) = (lo', q', Some x')" using getEsc_bad by blast
        then have "parse_ranges (clip p) n = None" unfolding q' using d(1) dash by simp
        then show ?thesis using q Some by simp
      next
        case n2: None
        have "\<exists>m2 \<le> length p1. p2 = drop m2 p1 \<and> chunk_len True p1 = m2 + chunk_len True p2 \<and>
          (if p1 ! 0 = c_dash then getEsc (drop 1 (clip p1)) else (lo, clip p1, None)) = (hi, clip p2, None)"
        proof (cases "p1 ! 0 = c_dash")
          case True
          then have "getEsc (drop 1 p1) = (hi, p2, None)" using h n2 by simp
          from getEsc_ok [OF this] obtain m where "m \<le> length (drop 1 p1)" "p2 = drop m (drop 1 p1)"
            "chunk_len True (drop 1 p1) = m + chunk_len True p2" "getEsc (clip (drop 1 p1)) = (hi, clip p2, None)" by blast
          then show ?thesis using True dash n1 by (intro exI [of _ "1 + m"]) (cases p1; simp)
        next
          case False
          then show ?thesis using h n2 by auto
        qed
        then obtain m2 where m2: "m2 \<le> length p1" "p2 = drop m2 p1" "chunk_len True p1 = m2 + chunk_len True p2"
          "(if p1 ! 0 = c_dash then getEsc (drop 1 (clip p1)) else (lo, clip p1, None)) = (hi, clip p2, None)" by blast
        have ih: "case parse_ranges p2 (n + 1) of
           Some (rs, q) \<Rightarrow> \<exists>m \<le> length p2. q = drop m p2 \<and> chunk_len True p2 = m + chunk_len False q \<and>
             parse_ranges (clip p2) (n + 1) = Some (rs, take (chunk_len False q) q)
         | None \<Rightarrow> parse_ranges (clip p2) (n + 1) = None"
          by (rule "1.IH" [OF False g [symmetric] refl _ h [symmetric] refl]) (use None n2 in simp_all)
        show ?thesis
        proof (cases "parse_ranges p2 (n + 1)")
          case None
          then show ?thesis using ih q q' n2 m2(4) by simp
        next
          case (Some x)
          obtain rs u where x: "x = (rs, u)" by (cases x)
          obtain m where m: "m \<le> length p2" "u = drop m p2" "chunk_len True p2 = m + chunk_len False u"
            "parse_ranges (clip p2) (n + 1) = Some (rs, take (chunk_len False u) u)"
            using ih Some x by auto
          have "parse_ranges p n = Some ((lo, hi) # rs, u)" "parse_ranges (clip p) n = Some ((lo, hi) # rs, take (chunk_len False u) u)"
            using q q' n2 m2(4) Some x m(4) by simp_all
          moreover have "m1 + m2 + m \<le> length p" "u = drop (m1 + m2 + m) p" "chunk_len True p = (m1 + m2 + m) + chunk_len False u"
            using m1 m2 m by (simp_all add: add.commute)
          ultimately show ?thesis by auto
        qed
      qed
    qed
  qed
qed

lemma clip_class:
  "case parse_class p of
     Some (k, q) \<Rightarrow> \<exists>m \<le> length p. q = drop m p \<and> chunk_len True p = m + chunk_len False q \<and>
       parse_class (clip p) = Some (k, take (chunk_len False q) q)
   | None \<Rightarrow> parse_class (clip p) = None"
proof (cases "p \<noteq> [] \<and> p ! 0 = c_hat")
  case True
  then obtain u where p: "p = c_hat # u" by (cases p) auto
  then have "parse_class p = map_option (\<lambda>(rs, q). (Class False rs, q)) (parse_ranges u 0)"
    "parse_class (clip p) = map_option (\<lambda>(rs, q). (Class False rs, q)) (parse_ranges (clip u) 0)"
    by (simp_all add: parse_class_def)
  then show ?thesis using clip_ranges [where p = u and n = 0] p
    by (cases "parse_ranges u 0") (auto intro: exI [of _ "Suc _"])
next
  case False
  then have "\<not> (clip p \<noteq> [] \<and> clip p ! 0 = c_hat)" using cut_nth [of p] by (cases "p = []") auto
  then have "parse_class (clip p) = map_option (\<lambda>(rs, q). (Class True rs, q)) (parse_ranges (clip p) 0)"
    unfolding parse_class_def by auto
  moreover have "parse_class p = map_option (\<lambda>(rs, q). (Class True rs, q)) (parse_ranges p 0)"
    using False unfolding parse_class_def by auto
  ultimately show ?thesis using clip_ranges [where p = p and n = 0] by (cases "parse_ranges p 0") auto
qed

text \<open>A pattern is its first chunk and the rest.\<close>

definition join_parse :: "glob_term list option \<Rightarrow> glob_term list option \<Rightarrow> glob_term list option" where
  "join_parse P Q = (case P of None \<Rightarrow> None | Some ts \<Rightarrow> map_option ((@) ts) Q)"

lemma join_parse_Cons: "map_option ((#) t) (join_parse P Q) = join_parse (map_option ((#) t) P) Q"
  by (cases P; cases Q) (simp_all add: join_parse_def)

lemma join_parse_simps [simp]: "join_parse None Q = None" "join_parse (Some []) Q = Q"
  by (cases Q; simp add: join_parse_def)+

lemma parse_cut: "parse p = join_parse (parse_chunk (take (chunk_len False p) p)) (parse (drop (chunk_len False p) p))"
proof (induction "length p" arbitrary: p rule: less_induct)
  case less
  show ?case
  proof (cases p)
    case Nil
    then show ?thesis by simp
  next
    case (Cons c u)
    have ih: "parse q = join_parse (parse_chunk (take (chunk_len False q) q)) (parse (drop (chunk_len False q) q))"
      if "length q \<le> length u" for q
      using less.hyps [of q] that Cons by simp
    consider (star) "c = c_star" | (cl) "c = c_open" | (esc) "c = c_esc" | (any) "c = c_quest"
      | (lit) "c \<noteq> c_star" "c \<noteq> c_open" "c \<noteq> c_esc" "c \<noteq> c_quest" by blast
    then show ?thesis
    proof cases
      case star
      then show ?thesis using Cons by simp
    next
      case cl
      then have k: "chunk_len False p = 1 + chunk_len True u" using Cons by simp
      show ?thesis
      proof (cases "parse_class u")
        case None
        then have "parse_class (clip u) = None" using clip_class [where p = u] by simp
        then show ?thesis using None cl Cons k by simp
      next
        case (Some x)
        obtain g q where x: "x = (g, q)" by (cases x)
        obtain m where m: "m \<le> length u" "q = drop m u" "chunk_len True u = m + chunk_len False q"
          "parse_class (clip u) = Some (g, take (chunk_len False q) q)"
          using clip_class [where p = u] Some x by auto
        have "parse p = map_option ((#) (Op g)) (parse q)" using cl Cons Some x by simp
        moreover have "parse_chunk (take (chunk_len False p) p) = map_option ((#) (Op g)) (parse_chunk (take (chunk_len False q) q))"
          using cl Cons k m(4) by simp
        moreover have "drop (chunk_len False p) p = drop (chunk_len False q) q"
          using Cons k m(2,3) by (simp add: add.commute)
        moreover have "length q \<le> length u" using m(2) by simp
        ultimately show ?thesis using ih [of q] join_parse_Cons by metis
      qed
    next
      case esc
      show ?thesis
      proof (cases u)
        case Nil
        then show ?thesis using esc Cons by simp
      next
        case (Cons d v)
        then show ?thesis using esc \<open>p = c # u\<close> ih [of v] by (simp add: join_parse_Cons)
      qed
    next
      case any
      then show ?thesis using Cons ih [of u] by (simp add: join_parse_Cons)
    next
      case lit
      then have "chunk_len False p = 1 + chunk_len False u" using Cons by simp
      then show ?thesis using lit Cons ih [of u] by (simp add: join_parse_Cons)
    qed
  qed
qed

lemma skip_stars_parse:
  "skip_stars p st = (t, q) \<Longrightarrow> \<exists>k. parse p = map_option ((@) (replicate k Star)) (parse q) \<and> (t \<longleftrightarrow> st \<or> 0 < k)"
proof (induction p st rule: skip_stars.induct)
  case (2 c p st)
  show ?case
  proof (cases "c = c_star")
    case True
    then obtain k where k: "parse p = map_option ((@) (replicate k Star)) (parse q)" "t" using 2 by auto
    have "parse (c # p) = map_option ((@) (replicate (Suc k) Star)) (parse q)"
      using True k(1) by (cases "parse q") simp_all
    then show ?thesis using k(2) by blast
  next
    case False
    then show ?thesis using "2.prems" by (intro exI [of _ 0]) (simp add: option.map_id [unfolded id_def])
  qed
qed (auto intro!: exI [of _ 0])

text \<open>The parts of \<open>scanChunk\<close>.\<close>

lemma scanChunk_parse:
  assumes "scanChunk p = (star, c, rest)"
  shows "\<exists>k. parse p = map_option ((@) (replicate k Star)) (join_parse (parse_chunk c) (parse rest)) \<and> (star \<longleftrightarrow> 0 < k)"
    "rest \<noteq> [] \<Longrightarrow> hd rest = c_star" "c = [] \<Longrightarrow> rest = []"
proof -
  obtain t q where q: "skip_stars p False = (t, q)" by (cases "skip_stars p False")
  have l: "scan_loop q 0 False = chunk_len False q" by (simp add: scan_loop_len)
  have s: "star = t" "c = take (chunk_len False q) q" "rest = drop (chunk_len False q) q"
    using assms q by (simp_all add: scanChunk_def Let_def l)
  show "\<exists>k. parse p = map_option ((@) (replicate k Star)) (join_parse (parse_chunk c) (parse rest)) \<and> (star \<longleftrightarrow> 0 < k)"
    using skip_stars_parse [OF q] parse_cut [of q] unfolding s by auto
  show "rest \<noteq> [] \<Longrightarrow> hd rest = c_star"
    unfolding s using chunk_len_star [of False q] by (simp add: hd_drop_conv_nth)
  show "c = [] \<Longrightarrow> rest = []"
  proof -
    assume "c = []"
    moreover have "0 < chunk_len False q" if "q \<noteq> []"
      using scan_loop_pos [OF that] skip_stars_shorter [OF q] that l by simp
    ultimately show "rest = []" unfolding s by (cases "q = []") auto
  qed
qed

section \<open>Runs and stars\<close>

lemma matches_ops: "matches (map Op ps @ ts) s = (case run ps s of None \<Rightarrow> False | Some t \<Rightarrow> matches ts t)"
  by (induction ps arbitrary: s) (simp_all split: option.splits)

lemma star_matchesI: "k \<le> length s \<Longrightarrow> slash \<notin> set (take k s) \<Longrightarrow> matches ts (drop k s) \<Longrightarrow> matches (Star # ts) s"
  by auto

lemma star_extend:
  assumes "k \<le> length s" "slash \<notin> set (take k s)" "matches (Star # ts) (drop k s)"
  shows "matches (Star # ts) s"
proof -
  obtain j where j: "j \<le> length (drop k s)" "slash \<notin> set (take j (drop k s))" "matches ts (drop j (drop k s))"
    using assms(3) by auto
  have "take (k + j) s = take k s @ take j (drop k s)" by (rule take_add)
  then have "slash \<notin> set (take (k + j) s)" using assms(2) j(2) by simp
  then show ?thesis using j assms(1) by (intro star_matchesI [of "k + j"]) (simp_all add: add.commute)
qed

lemma stars_match: "0 < k \<Longrightarrow> matches (replicate k Star @ ts) s = matches (Star # ts) s"
proof (induction k arbitrary: s)
  case (Suc k)
  show ?case
  proof (cases "k = 0")
    case False
    then have "matches (replicate (Suc k) Star @ ts) s = matches (Star # Star # ts) s" using Suc.IH by simp
    also have "\<dots> = matches (Star # ts) s"
    proof
      assume "matches (Star # Star # ts) s"
      then obtain k where "k \<le> length s" "slash \<notin> set (take k s)" "matches (Star # ts) (drop k s)"
        unfolding matches.simps(2) [of "Star # ts"] by blast
      then show "matches (Star # ts) s" by (rule star_extend)
    next
      assume "matches (Star # ts) s"
      then have "matches (Star # ts) (drop 0 s)" unfolding drop0 .
      then show "matches (Star # Star # ts) s" by (rule star_matchesI [rotated 2]) simp_all
    qed
    finally show ?thesis .
  qed (simp del: matches.simps)
qed simp

lemma Index_slash: "Index s [slash] < 0 \<longleftrightarrow> slash \<notin> set s"
proof -
  have "IndexByte_from s c i < 0 \<longleftrightarrow> c \<notin> set s" for c i by (induction s c i rule: IndexByte_from.induct) auto
  then show ?thesis by (simp add: Index_def IndexByte_def)
qed

lemma trailing_star: "matches [Star] s \<longleftrightarrow> slash \<notin> set s"
  by (auto intro: exI [of _ "length s"])

text \<open>\<open>hit\<close>: the chunk matches behind \<open>k\<close> skipped bytes, and uses up the name if it is the last.\<close>

definition hit :: "glob_op list \<Rightarrow> bool \<Rightarrow> gostring \<Rightarrow> nat \<Rightarrow> gostring \<Rightarrow> bool" where
  "hit ps final s k t \<longleftrightarrow> k \<le> length s \<and> slash \<notin> set (take k s) \<and> run ps (drop k s) = Some t \<and> (final \<longrightarrow> t = [])"

lemma star_loop_ops:
  assumes c: "parse_chunk c = Some (map Op ps)"
  shows "slash \<notin> set (take i s) \<Longrightarrow> i \<le> length s \<Longrightarrow>
    (\<exists>k t. i < k \<and> hit ps final s k t \<and> (\<forall>j u. i < j \<and> j < k \<longrightarrow> \<not> hit ps final s j u) \<and> star_loop c s final i = Inr (Inr (Some t))) \<or>
    (\<forall>j u. i < j \<longrightarrow> \<not> hit ps final s j u) \<and> star_loop c s final i = Inr (Inr None)"
proof (induction "length s - i" arbitrary: i)
  case 0
  then have "i = length s" by simp
  then have "\<forall>j u. i < j \<longrightarrow> \<not> hit ps final s j u" by (simp add: hit_def)
  moreover have "star_loop c s final i = Inr (Inr None)" using 0 by (subst star_loop.simps) simp
  ultimately show ?case by blast
next
  case (Suc d)
  then have i: "i < length s" by simp
  have tk: "take (Suc i) s = take i s @ [s ! i]" using i by (rule take_Suc_conv_app_nth)
  show ?case
  proof (cases "s ! i = slash")
    case True
    have "slash \<in> set (take j s)" if "i < j" for j
    proof -
      have "take (Suc i) s = take (Suc i) (take j s)" using that by (simp add: take_take min_def)
      then show ?thesis using tk True by (metis in_set_conv_decomp in_set_takeD)
    qed
    then have "\<forall>j u. i < j \<longrightarrow> \<not> hit ps final s j u" unfolding hit_def by blast
    moreover have "star_loop c s final i = Inr (Inr None)" using True by (subst star_loop.simps) simp
    ultimately show ?thesis by blast
  next
    case False
    have ns: "slash \<notin> set (take (Suc i) s)" using tk Suc.prems(1) False by simp
    have r: "matchChunk c (drop (Suc i) s) =
        (case run ps (drop (Suc i) s) of Some t \<Rightarrow> Inr (t, True, None) | None \<Rightarrow> Inr ([], False, None))"
      using matchChunk_run [of c "drop (Suc i) s"] c by (auto simp: chunk_result_def inj_map_eq_map inj_on_def)
    have next_i: "d = length s - Suc i" using Suc.hyps(2) by simp
    note ih = Suc.hyps(1) [OF next_i ns Suc_leI [OF i]]
    show ?thesis
    proof (cases "\<exists>t. hit ps final s (Suc i) t")
      case True
      then obtain t where t: "hit ps final s (Suc i) t" by blast
      then have "star_loop c s final i = Inr (Inr (Some t))"
        using i False r by (subst star_loop.simps) (auto simp: hit_def)
      then show ?thesis using t by (intro disjI1 exI [of _ "Suc i"] exI [of _ t]) auto
    next
      case nh: False
      then have e: "star_loop c s final i = star_loop c s final (Suc i)"
        using i False r ns by (subst star_loop.simps) (auto simp: hit_def split: option.splits)
      have lift: "i < j \<Longrightarrow> hit ps final s j u \<Longrightarrow> Suc i < j" for j u
        using nh by (metis Suc_lessI)
      from ih show ?thesis
      proof
        assume "\<exists>k t. Suc i < k \<and> hit ps final s k t \<and> (\<forall>j u. Suc i < j \<and> j < k \<longrightarrow> \<not> hit ps final s j u) \<and>
          star_loop c s final (Suc i) = Inr (Inr (Some t))"
        then obtain k t where k: "Suc i < k" "hit ps final s k t" "\<forall>j u. Suc i < j \<and> j < k \<longrightarrow> \<not> hit ps final s j u"
          "star_loop c s final (Suc i) = Inr (Inr (Some t))" by blast
        have "\<forall>j u. i < j \<and> j < k \<longrightarrow> \<not> hit ps final s j u" using k(3) lift by blast
        then show ?thesis using k e by (intro disjI1 exI [of _ k] exI [of _ t]) simp
      next
        assume a: "(\<forall>j u. Suc i < j \<longrightarrow> \<not> hit ps final s j u) \<and> star_loop c s final (Suc i) = Inr (Inr None)"
        then have "\<forall>j u. i < j \<longrightarrow> \<not> hit ps final s j u" using lift by blast
        then show ?thesis using a e by simp
      qed
    qed
  qed
qed

lemma star_loop_bad:
  assumes "parse_chunk c = None"
  shows "star_loop c s final i = Inr (Inr None) \<or> (\<exists>e. star_loop c s final i = Inr (Inl e))"
proof (induction "length s - i" arbitrary: i)
  case 0
  then show ?case by (subst (1) star_loop.simps) simp
next
  case (Suc d)
  obtain e where e: "matchChunk c (drop (i + 1) s) = Inr ([], False, e)"
    using matchChunk_run [of c "drop (i + 1) s"] assms by (auto simp: chunk_result_def)
  show ?case
  proof (cases "s ! i = slash \<or> e \<noteq> None")
    case True
    then have "star_loop c s final i = Inr (Inr None) \<or> (\<exists>e. star_loop c s final i = Inr (Inl e))"
      using e by (subst (1 2) star_loop.simps) auto
    then show ?thesis .
  next
    case False
    have "d = length s - Suc i" and il: "i < length s" using Suc.hyps(2) by simp_all
    moreover have "star_loop c s final i = star_loop c s final (Suc i)"
      using False e il by (subst star_loop.simps) simp
    ultimately show ?thesis using Suc.hyps(1) [of "Suc i"] by simp
  qed
qed

section \<open>Soundness\<close>

lemma run_chunk:
  "parse_chunk c = Some (map Op ps) \<Longrightarrow>
    matchChunk c s = (case run ps s of Some t \<Rightarrow> Inr (t, True, None) | None \<Rightarrow> Inr ([], False, None))"
  using matchChunk_run [of c s] by (auto simp: chunk_result_def inj_map_eq_map inj_on_def)

lemma bad_chunk: "parse_chunk c = None \<Longrightarrow> \<exists>e. matchChunk c s = Inr ([], False, e)"
  using matchChunk_run [of c s] by (auto simp: chunk_result_def)

text \<open>One round of the loop, for a chunk that parses and for one that does not.\<close>

lemma Match_bad:
  assumes "p \<noteq> []" "scanChunk p = (star, c, rest)" "parse_chunk c = None"
  shows "\<exists>e. Match p s = Inr (False, e)"
proof -
  have c: "c \<noteq> []" using assms(3) by auto
  obtain e where e: "matchChunk c s = Inr ([], False, e)" using bad_chunk [OF assms(3)] by blast
  have m: "Match p s = (if e \<noteq> None then Inr (False, e) else if star then
      bindE (star_loop c s (length rest = 0) 0) (\<lambda>r. case r of Inl e \<Rightarrow> Inr (False, Some e)
        | Inr (Some t) \<Rightarrow> Match rest t | Inr None \<Rightarrow> Inr (False, None)) else Inr (False, None))"
    using assms(1,2) c e by (subst Match.simps) simp
  show ?thesis unfolding m using star_loop_bad [OF assms(3), of s "length rest = 0" 0] by auto
qed

lemma Match_chunk:
  assumes "p \<noteq> []" "scanChunk p = (star, c, rest)" "parse_chunk c = Some (map Op ps)" "c \<noteq> []"
  shows "(\<exists>t. run ps s = Some t \<and> (rest = [] \<longrightarrow> t = []) \<and> Match p s = Match rest t) \<or>
    (\<not> (\<exists>t. hit ps (rest = []) s 0 t)) \<and>
      (star \<and> (\<exists>k t. hit ps (rest = []) s k t \<and> (\<forall>j u. j < k \<longrightarrow> \<not> hit ps (rest = []) s j u) \<and> Match p s = Match rest t) \<or>
       (star \<longrightarrow> (\<forall>j u. \<not> hit ps (rest = []) s j u)) \<and> Match p s = Inr (False, None))"
proof (cases "\<exists>t. run ps s = Some t \<and> (rest = [] \<longrightarrow> t = [])")
  case True
  then obtain t where t: "run ps s = Some t" "rest = [] \<longrightarrow> t = []" by blast
  then have "Match p s = Match rest t" using assms run_chunk [OF assms(3), of s] by (subst Match.simps) auto
  then show ?thesis using t by blast
next
  case False
  then have h: "\<not> (\<exists>t. hit ps (rest = []) s 0 t)" by (auto simp: hit_def)
  have m: "Match p s = (if star then
      bindE (star_loop c s (rest = []) 0) (\<lambda>r. case r of Inl e \<Rightarrow> Inr (False, Some e)
        | Inr (Some t) \<Rightarrow> Match rest t | Inr None \<Rightarrow> Inr (False, None)) else Inr (False, None))"
    using assms run_chunk [OF assms(3), of s] False by (subst Match.simps) (auto split: option.splits)
  show ?thesis
  proof (cases star)
    case True
    have z: "\<not> hit ps (rest = []) s j u" if "j = 0" for j u using h that by blast
    have "(\<exists>k t. 0 < k \<and> hit ps (rest = []) s k t \<and> (\<forall>j u. 0 < j \<and> j < k \<longrightarrow> \<not> hit ps (rest = []) s j u) \<and>
          star_loop c s (rest = []) 0 = Inr (Inr (Some t))) \<or>
        (\<forall>j u. 0 < j \<longrightarrow> \<not> hit ps (rest = []) s j u) \<and> star_loop c s (rest = []) 0 = Inr (Inr None)"
      using star_loop_ops [OF assms(3), of 0 s "rest = []"] by simp
    then show ?thesis
    proof
      assume "\<exists>k t. 0 < k \<and> hit ps (rest = []) s k t \<and> (\<forall>j u. 0 < j \<and> j < k \<longrightarrow> \<not> hit ps (rest = []) s j u) \<and>
          star_loop c s (rest = []) 0 = Inr (Inr (Some t))"
      then obtain k t where k: "hit ps (rest = []) s k t" "\<forall>j u. 0 < j \<and> j < k \<longrightarrow> \<not> hit ps (rest = []) s j u"
        "star_loop c s (rest = []) 0 = Inr (Inr (Some t))" by blast
      have "\<forall>j u. j < k \<longrightarrow> \<not> hit ps (rest = []) s j u" using k(2) z by blast
      moreover have "Match p s = Match rest t" unfolding m using True k(3) by simp
      ultimately show ?thesis using h True k(1) by blast
    next
      assume a: "(\<forall>j u. 0 < j \<longrightarrow> \<not> hit ps (rest = []) s j u) \<and> star_loop c s (rest = []) 0 = Inr (Inr None)"
      then have "\<forall>j u. \<not> hit ps (rest = []) s j u" using z by blast
      moreover have "Match p s = Inr (False, None)" unfolding m using True a by simp
      ultimately show ?thesis using h by blast
    qed
  next
    case False
    then show ?thesis using h m by simp
  qed
qed

lemma Match_star_only: "p \<noteq> [] \<Longrightarrow> scanChunk p = (True, [], rest) \<Longrightarrow> Match p s = Inr (slash \<notin> set s, None)"
  by (subst Match.simps) (simp add: Index_slash)

text \<open>What a pattern with stars in front of a chunk matches.\<close>

lemma matches_chunk:
  "0 < k \<Longrightarrow> matches (replicate k Star @ map Op ps @ ts) s \<longleftrightarrow> (\<exists>j t. hit ps False s j t \<and> matches ts t)"
  unfolding stars_match by (auto simp: hit_def matches_ops split: option.splits)

text \<open>\<open>Match\<close> always returns; when it returns true the pattern is well formed and matches; an error means that the pattern is
  not well formed.\<close>

lemma Match_sound:
  "\<exists>b e. Match p s = Inr (b, e) \<and> (b \<longrightarrow> e = None \<and> (\<exists>ts. parse p = Some ts \<and> matches ts s)) \<and> (e \<noteq> None \<longrightarrow> parse p = None)"
proof (induction "length p" arbitrary: p s rule: less_induct)
  case less
  show ?case
  proof (cases "p = []")
    case True
    then show ?thesis by (subst Match.simps) simp
  next
    case False
    obtain star c rest where sc: "scanChunk p = (star, c, rest)" using prod_cases3 by blast
    obtain k where k: "parse p = map_option ((@) (replicate k Star)) (join_parse (parse_chunk c) (parse rest))" "star \<longleftrightarrow> 0 < k"
      using scanChunk_parse(1) [OF sc] by blast
    have l: "length rest < length p" using scanChunk_shorter [OF False sc] .
    note ih = less.hyps [OF l]
    show ?thesis
    proof (cases "c = []")
      case True
      have r: "rest = []" using scanChunk_parse(3) [OF sc True] .
      have star: "star"
      proof (rule ccontr)
        assume "\<not> star"
        then have "parse p = Some []" using k True r by simp
        then show False using False by (cases p) (auto split: if_splits option.splits list.splits)
      qed
      have "Match p s = Inr (slash \<notin> set s, None)" using Match_star_only False sc star True by simp
      moreover have "parse p = Some (replicate k Star)" using k(1) True r by simp
      moreover have "matches (replicate k Star) s \<longleftrightarrow> slash \<notin> set s"
        using stars_match [of k "[]" s] k(2) star trailing_star [of s] by simp
      ultimately show ?thesis by simp
    next
      case c0: False
      show ?thesis
      proof (cases "parse_chunk c")
        case None
        then obtain e where "Match p s = Inr (False, e)" using Match_bad [OF False sc] by blast
        then show ?thesis using k(1) None by (intro exI [of _ False] exI [of _ e]) simp
      next
        case (Some us)
        then obtain ps where ps: "parse_chunk c = Some (map Op ps)" using parse_chunk_ops by blast
        have pp: "parse p = map_option (\<lambda>ts. replicate k Star @ map Op ps @ ts) (parse rest)"
          using k(1) ps by (cases "parse rest") (simp_all add: join_parse_def)
        have step: ?thesis if t: "Match p s = Match rest t" "\<And>ts. matches ts t \<Longrightarrow> matches (replicate k Star @ map Op ps @ ts) s" for t
          using ih [of t] t pp by (cases "parse rest") auto
        from Match_chunk [OF False sc ps c0, of s] show ?thesis
        proof (elim disjE conjE exE)
          fix t assume t: "run ps s = Some t" "Match p s = Match rest t"
          show ?thesis
          proof (rule step [OF t(2)])
            fix ts assume "matches ts t"
            then have "matches (map Op ps @ ts) s" using t(1) by (simp add: matches_ops)
            then show "matches (replicate k Star @ map Op ps @ ts) s"
              using stars_match [of k "map Op ps @ ts" s] star_matchesI [of 0 s "map Op ps @ ts"] by (cases "k = 0") simp_all
          qed
        next
          fix j t assume a: "star" "hit ps (rest = []) s j t" "Match p s = Match rest t"
          show ?thesis
          proof (rule step [OF a(3)])
            fix ts assume "matches ts t"
            moreover have "hit ps False s j t" using a(2) by (simp add: hit_def)
            ultimately show "matches (replicate k Star @ map Op ps @ ts) s" using matches_chunk k(2) a(1) by blast
          qed
        next
          assume "Match p s = Inr (False, None)"
          then show ?thesis by (intro exI [of _ False] exI [of _ None]) simp
        qed
      qed
    qed
  qed
qed

section \<open>Completeness for ASCII names\<close>

text \<open>
  The code commits a chunk to the first position where it matches. On names of ASCII bytes, and when no class
  accepts a slash, that loses nothing: every later position of the chunk is reached by the star that follows.
\<close>

definition op_ok :: "glob_op \<Rightarrow> byte \<Rightarrow> bool" where
  "op_ok p b = (case p of Any \<Rightarrow> b \<noteq> slash | Class pos rs \<Rightarrow> in_ranges (uint b) rs = pos | Lit c \<Rightarrow> b = c)"

definition ascii :: "gostring \<Rightarrow> bool" where
  "ascii s \<longleftrightarrow> (\<forall>b \<in> set s. b < RuneSelf)"

fun plain_term :: "glob_term \<Rightarrow> bool" where
  "plain_term (Op (Class pos rs)) = (in_ranges (uint slash) rs \<noteq> pos)"
| "plain_term _ = True"

lemma op_step_ascii: "ascii (b # s) \<Longrightarrow> op_step p (b # s) = (if op_ok p b then Some s else None)"
  using ascii_decode [of "b # s"] by (cases p) (auto simp: ascii_def op_ok_def)

lemma run_ascii: "ascii s \<Longrightarrow> run ps s = (if length ps \<le> length s \<and> (\<forall>i < length ps. op_ok (ps ! i) (s ! i)) then Some (drop (length ps) s) else None)"
proof (induction ps arbitrary: s)
  case (Cons p ps)
  show ?case
  proof (cases s)
    case (Cons b u)
    have "ascii u" using Cons.prems Cons by (simp add: ascii_def)
    then show ?thesis using Cons.IH [of u] op_step_ascii [of b u p] Cons.prems Cons
      by (auto simp: nth_Cons' All_less_Suc2)
  qed simp
qed simp

lemma plain_slash: "plain_term (Op p) \<Longrightarrow> op_ok p slash \<Longrightarrow> p = Lit slash"
  by (cases p) (auto simp: op_ok_def)

lemma ascii_drop: "ascii s \<Longrightarrow> ascii (drop k s)"
  using set_drop_subset [of k s] by (auto simp: ascii_def)

lemma in_take: "x < k \<Longrightarrow> k \<le> length s \<Longrightarrow> slash \<notin> set (take k s) \<Longrightarrow> s ! x \<noteq> slash"
  by (auto simp: in_set_conv_nth)

text \<open>Two positions of a chunk that one star reaches: the text between their ends has no slash.\<close>

lemma hit_shift:
  assumes a: "ascii s" and plain: "\<forall>p \<in> set ps. plain_term (Op p)" and ji: "j < i"
    and j: "hit ps False s j t" and i: "hit ps False s i u"
  shows "u = drop (i - j) t \<and> i - j \<le> length t \<and> slash \<notin> set (take (i - j) t)"
proof -
  define m where "m = length ps"
  have il: "i \<le> length s" "slash \<notin> set (take i s)" using i by (simp_all add: hit_def)
  have rj: "t = drop m (drop j s)" "m \<le> length s - j" "\<And>q. q < m \<Longrightarrow> op_ok (ps ! q) (s ! (j + q))"
    using j run_ascii [OF ascii_drop [OF a], of ps j] by (auto simp: hit_def m_def split: if_splits)
  have ri: "u = drop m (drop i s)" "m \<le> length s - i" "\<And>q. q < m \<Longrightarrow> op_ok (ps ! q) (s ! (i + q))"
    using i run_ascii [OF ascii_drop [OF a], of ps i] il(1) by (auto simp: hit_def m_def split: if_splits)
  have lit: "ps ! q = Lit slash" if "q < m" "op_ok (ps ! q) slash" for q
    using plain plain_slash that by (simp add: m_def)
  have none: "ps ! q \<noteq> Lit slash" if "q < m" for q
    using that
  proof (induction q rule: less_induct)
    case (less q)
    show ?case
    proof
      assume l: "ps ! q = Lit slash"
      then have sl: "s ! (j + q) = slash" using rj(3) [OF less.prems] by (simp add: op_ok_def)
      have "\<not> j + q < i" using in_take [OF _ il(1,2)] sl by blast
      then have q': "j + q - i < q" "j + q - i < m" "i + (j + q - i) = j + q" using ji less.prems by simp_all
      then have "ps ! (j + q - i) = Lit slash" using lit ri(3) [OF q'(2)] sl by simp
      then show False using less.IH [OF q'(1,2)] by simp
    qed
  qed
  have free: "s ! x \<noteq> slash" if "j + m \<le> x" "x < i + m" for x
  proof (cases "x < i")
    case True
    then show ?thesis using in_take [OF _ il(1,2)] by blast
  next
    case False
    then have q: "x - i < m" "i + (x - i) = x" using that by simp_all
    show ?thesis
    proof
      assume "s ! x = slash"
      then have "op_ok (ps ! (x - i)) slash" using ri(3) [OF q(1)] q(2) by simp
      then show False using lit [OF q(1)] none [OF q(1)] by blast
    qed
  qed
  have lt: "i - j \<le> length t" using rj(1) ri(2) ji il(1) by simp
  have "slash \<notin> set (take (i - j) t)"
  proof
    assume "slash \<in> set (take (i - j) t)"
    then obtain x where "x < i - j" "t ! x = slash" using lt by (auto simp: in_set_conv_nth)
    then show False using free [of "m + j + x"] rj(1,2) ri(2) ji il(1) by simp
  qed
  moreover have "u = drop (i - j) t" using rj(1) ri(1) ji by (simp add: add.commute)
  ultimately show ?thesis using lt by blast
qed

lemma parse_star_head: "parse p = Some ts \<Longrightarrow> hd p = c_star \<Longrightarrow> p \<noteq> [] \<Longrightarrow> \<exists>us. ts = Star # us"
  by (cases p) auto

lemma Match_complete:
  "parse p = Some ts \<Longrightarrow> matches ts s \<Longrightarrow> Star \<notin> set ts \<or> ascii s \<and> (\<forall>t \<in> set ts. plain_term t) \<Longrightarrow> Match p s = Inr (True, None)"
proof (induction "length p" arbitrary: p ts s rule: less_induct)
  case less
  show ?case
  proof (cases "p = []")
    case True
    then show ?thesis using less.prems by (subst Match.simps) simp
  next
    case False
    obtain star c rest where sc: "scanChunk p = (star, c, rest)" using prod_cases3 by blast
    obtain k where k: "parse p = map_option ((@) (replicate k Star)) (join_parse (parse_chunk c) (parse rest))" "star \<longleftrightarrow> 0 < k"
      using scanChunk_parse(1) [OF sc] by blast
    have l: "length rest < length p" using scanChunk_shorter [OF False sc] .
    have "\<exists>us vs. parse_chunk c = Some us \<and> parse rest = Some vs \<and> ts = replicate k Star @ us @ vs"
      using less.prems(1) k(1) by (cases "parse_chunk c"; cases "parse rest") (auto simp: join_parse_def)
    then obtain us vs where v: "parse_chunk c = Some us" "parse rest = Some vs" "ts = replicate k Star @ us @ vs" by blast
    then obtain ps where ps: "us = map Op ps" using parse_chunk_ops by blast
    have pc: "parse_chunk c = Some (map Op ps)" using v(1) ps by simp
    show ?thesis
    proof (cases "c = []")
      case True
      then have r: "rest = []" "ts = replicate k Star" using scanChunk_parse(3) [OF sc] v by simp_all
      have "0 < k"
      proof (rule ccontr)
        assume "\<not> 0 < k"
        then have "parse p = Some []" using less.prems(1) r by simp
        then show False using False by (cases p) (auto split: if_splits option.splits list.splits)
      qed
      then have "slash \<notin> set s" using stars_match [of k "[]" s] less.prems(2) r(2) trailing_star [of s] by simp
      then show ?thesis using Match_star_only [OF False, of rest s] sc True k(2) \<open>0 < k\<close> by simp
    next
      case c0: False
      have cont: "Match rest t = Inr (True, None)" if "matches vs t" "Star \<notin> set ts \<or> ascii t" for t
      proof (rule less.hyps [OF l v(2) that(1)])
        show "Star \<notin> set vs \<or> ascii t \<and> (\<forall>t \<in> set vs. plain_term t)" using less.prems(3) that(2) v(3) by auto
      qed
      have suffix: "ascii t" if "hit ps F s j t" "ascii s" for F j t
        using that run_ascii [OF ascii_drop [OF that(2)], of ps j] ascii_drop [OF ascii_drop [OF that(2)]]
        by (auto simp: hit_def split: if_splits)
      have vsr: "rest = [] \<Longrightarrow> vs = []" using v(2) by simp
      show ?thesis
      proof (cases "k = 0")
        case True
        then obtain t where t: "run ps s = Some t" "matches vs t"
          using less.prems(2) v(3) ps by (auto simp: matches_ops split: option.splits)
        then have h: "hit ps (rest = []) s 0 t" using vsr by (auto simp: hit_def)
        have a: "Star \<notin> set ts \<or> ascii t" using less.prems(3) suffix [OF h] by blast
        from Match_chunk [OF False sc pc c0, of s] h obtain t' where "run ps s = Some t'" "Match p s = Match rest t'" by blast
        then show ?thesis using cont [OF t(2) a] t(1) by simp
      next
        case kp: False
        then have "Star \<in> set ts" using v(3) by simp
        then have as: "ascii s" "\<forall>p \<in> set ps. plain_term (Op p)" using less.prems(3) v(3) ps by auto
        obtain i u where i: "hit ps False s i u" "matches vs u"
          using less.prems(2) v(3) ps matches_chunk [of k ps vs s] kp by auto
        then have hi: "hit ps (rest = []) s i u" using vsr by (auto simp: hit_def)
        have earlier: "Match rest t = Inr (True, None)" if t: "hit ps (rest = []) s j t" "j \<le> i" for j t
        proof (rule cont)
          show "Star \<notin> set ts \<or> ascii t" using suffix [OF t(1) as(1)] by simp
          have tj: "hit ps False s j t" using t(1) by (simp add: hit_def)
          show "matches vs t"
          proof (cases "rest = []")
            case True
            then show ?thesis using t(1) vsr by (simp add: hit_def)
          next
            case rne: False
            obtain ws where ws: "vs = Star # ws" using parse_star_head [OF v(2)] scanChunk_parse(2) [OF sc rne] rne by blast
            show ?thesis
            proof (cases "j < i")
              case True
              have "u = drop (i - j) t" "i - j \<le> length t" "slash \<notin> set (take (i - j) t)"
                using hit_shift [OF as True tj i(1)] by blast+
              then show ?thesis using star_extend i(2) unfolding ws by blast
            next
              case False
              then have "t = u" using t(2) tj i(1) by (simp add: hit_def)
              then show ?thesis using i(2) by simp
            qed
          qed
        qed
        from Match_chunk [OF False sc pc c0, of s] show ?thesis
        proof (elim disjE conjE exE)
          fix t assume t: "run ps s = Some t" "rest = [] \<longrightarrow> t = []" "Match p s = Match rest t"
          then have "hit ps (rest = []) s 0 t" by (simp add: hit_def)
          then show ?thesis using earlier [of 0 t] t(3) by simp
        next
          fix j t assume a: "hit ps (rest = []) s j t" "\<forall>j' u. j' < j \<longrightarrow> \<not> hit ps (rest = []) s j' u" "Match p s = Match rest t"
          have "j \<le> i" using a(2) hi not_less by blast
          then show ?thesis using earlier [OF a(1)] a(3) by simp
        next
          assume "star \<longrightarrow> (\<forall>j u. \<not> hit ps (rest = []) s j u)"
          then show ?thesis using hi k(2) kp by blast
        qed
      qed
    qed
  qed
qed

section \<open>The documented grammar\<close>

text \<open>The grammar in the comment of \<open>Match\<close>, stated without the functions of the code. A character of a class is a
  rune in its encoding, plain unless it is a backslash, a dash or a closing bracket, or behind a backslash.\<close>

inductive class_char :: "gostring \<Rightarrow> rune \<Rightarrow> gostring \<Rightarrow> bool" where
  plain: "ValidRune r \<Longrightarrow> r \<notin> {0x5c, 0x2d, 0x5d} \<Longrightarrow> class_char (encodedBytes r @ q) r q"
| escaped: "ValidRune r \<Longrightarrow> class_char (c_esc # encodedBytes r @ q) r q"

inductive class_ranges :: "gostring \<Rightarrow> (rune \<times> rune) list \<Rightarrow> gostring \<Rightarrow> bool" where
  close: "class_ranges (c_close # q) [] q"
| single: "class_char p c p1 \<Longrightarrow> class_ranges p1 rs q \<Longrightarrow> class_ranges p ((c, c) # rs) q"
| range: "class_char p lo (c_dash # p1) \<Longrightarrow> class_char p1 hi p2 \<Longrightarrow> class_ranges p2 rs q \<Longrightarrow> class_ranges p ((lo, hi) # rs) q"

inductive class_text :: "gostring \<Rightarrow> glob_op \<Rightarrow> gostring \<Rightarrow> bool" where
  inside: "class_ranges p rs q \<Longrightarrow> rs \<noteq> [] \<Longrightarrow> hd p \<noteq> c_hat \<Longrightarrow> class_text p (Class True rs) q"
| outside: "class_ranges p rs q \<Longrightarrow> rs \<noteq> [] \<Longrightarrow> class_text (c_hat # p) (Class False rs) q"

inductive pattern :: "gostring \<Rightarrow> glob_term list \<Rightarrow> bool" where
  nothing: "pattern [] []"
| star: "pattern p ts \<Longrightarrow> pattern (c_star # p) (Star # ts)"
| any: "pattern p ts \<Longrightarrow> pattern (c_quest # p) (Op Any # ts)"
| cls: "class_text p cl q \<Longrightarrow> pattern q ts \<Longrightarrow> pattern (c_open # p) (Op cl # ts)"
| lit: "c \<notin> {c_star, c_quest, c_esc, c_open} \<Longrightarrow> pattern p ts \<Longrightarrow> pattern (c # p) (Op (Lit c) # ts)"
| esc: "pattern p ts \<Longrightarrow> pattern (c_esc # c # p) (Op (Lit c) # ts)"

inductive_cases pattern_ConsE: "pattern (c # p) ts"

lemma ascii_head:
  assumes "ValidRune r" "encodedBytes r = c # bs" "c < RuneSelf"
  shows "r = uint c"
proof -
  have "DecodeRune (encodedBytes (uint c) @ bs) = (uint c, 1)"
    using ascii_valid [OF assms(3)] DecodeRune_encodedBytes [of "uint c" bs] by simp
  moreover have "encodedBytes (uint c) @ bs = encodedBytes r @ []" using ascii_valid [OF assms(3)] assms(2) by simp
  ultimately show ?thesis using DecodeRune_encodedBytes [OF assms(1), of "[]"] by simp
qed

lemma encoded_head: "ValidRune r \<Longrightarrow> c < RuneSelf \<Longrightarrow> r \<noteq> uint c \<Longrightarrow> (encodedBytes r @ q) ! 0 \<noteq> c"
  using ascii_head [of r c "tl (encodedBytes r)"] by (cases "encodedBytes r") auto

lemma special_bytes: "c_esc < RuneSelf" "c_dash < RuneSelf" "c_close < RuneSelf" "uint c_esc = 0x5c" "uint c_dash = 0x2d" "uint c_close = 0x5d"
  by (simp_all add: RuneSelf_def)

lemma class_char_getEsc: "class_char p r q \<Longrightarrow> q \<noteq> [] \<Longrightarrow> getEsc p = (r, q, None)"
proof (induction rule: class_char.induct)
  case (plain r q)
  have h: "(encodedBytes r @ q) ! 0 \<noteq> c_dash" "(encodedBytes r @ q) ! 0 \<noteq> c_close" "(encodedBytes r @ q) ! 0 \<noteq> c_esc"
    using plain(1,2) special_bytes by (auto dest: encoded_head)
  have "\<not> (r = RuneError \<and> length (encodedBytes r) = 1)" using RuneError_valid by auto
  then show ?case using h DecodeRune_encodedBytes [OF plain(1), of q] plain(3)
    by (auto simp: getEsc_def Let_def DecodeRuneInString_eq)
next
  case (escaped r q)
  have "\<not> (r = RuneError \<and> length (encodedBytes r) = 1)" using RuneError_valid by auto
  then show ?case using DecodeRune_encodedBytes [OF escaped(1), of q] escaped(2)
    by (auto simp: getEsc_def Let_def DecodeRuneInString_eq)
qed

lemma getEsc_class_char: "getEsc p = (r, q, None) \<Longrightarrow> class_char p r q"
proof -
  assume g: "getEsc p = (r, q, None)"
  define p' where "p' = (if p ! 0 = c_esc then drop 1 p else p)"
  obtain r' n where r: "DecodeRune p' = (r', n)" by (cases "DecodeRune p'")
  have p: "p \<noteq> []" "p ! 0 \<noteq> c_dash" "p ! 0 \<noteq> c_close" "p' \<noteq> []" "r = r'" "q = drop n p'" "\<not> (r = RuneError \<and> n = 1)"
    using g r by (auto simp: getEsc_def p'_def Let_def DecodeRuneInString_eq split: if_splits)
  from p(4) have v: "ValidRune r \<and> p' = encodedBytes r @ q"
  proof (cases rule: DecodeRune_cases)
    case (good s)
    then have "s = r" "n = length (encodedBytes r)" using r p(5) by simp_all
    then show ?thesis using good p(6) by (metis append_take_drop_id)
  qed (use r p(5,7) in simp)
  show ?thesis
  proof (cases "p ! 0 = c_esc")
    case True
    then have "p = c_esc # encodedBytes r @ q" using v p(1) by (cases p) (auto simp: p'_def)
    then show ?thesis using v class_char.escaped by simp
  next
    case False
    then have e: "p = encodedBytes r @ q" using v by (simp add: p'_def)
    have "r \<notin> {0x5c, 0x2d, 0x5d}"
    proof
      assume "r \<in> {0x5c, 0x2d, 0x5d}"
      then have "r = uint c_esc \<or> r = uint c_dash \<or> r = uint c_close" using special_bytes by auto
      then have "encodedBytes r = [c_esc] \<or> encodedBytes r = [c_dash] \<or> encodedBytes r = [c_close]"
        using ascii_valid special_bytes by blast
      then show False using e False p(2,3) by auto
    qed
    then show ?thesis unfolding e using v class_char.plain by blast
  qed
qed

lemma class_char_head: "class_char p r q \<Longrightarrow> p \<noteq> [] \<and> p ! 0 \<noteq> c_dash \<and> p ! 0 \<noteq> c_close"
  by (induction rule: class_char.induct) (use special_bytes in \<open>auto dest: encoded_head\<close>)

lemma class_ranges_head: "class_ranges p rs q \<Longrightarrow> p \<noteq> [] \<and> p ! 0 \<noteq> c_dash"
  by (induction rule: class_ranges.induct) (auto dest: class_char_head)

lemma class_ranges_parse: "class_ranges p rs q \<Longrightarrow> n > 0 \<or> rs \<noteq> [] \<Longrightarrow> parse_ranges p n = Some (rs, q)"
proof (induction arbitrary: n rule: class_ranges.induct)
  case (close q)
  then show ?case by (subst parse_ranges.simps) simp
next
  case (single p c p1 rs q)
  have h: "p1 \<noteq> []" "p1 ! 0 \<noteq> c_dash" "p \<noteq> []" "p ! 0 \<noteq> c_close"
    using class_ranges_head [OF single(2)] class_char_head [OF single(1)] by auto
  then show ?case using class_char_getEsc [OF single(1)] single(3) [of "n + 1"] by (subst parse_ranges.simps) simp
next
  case (range p lo p1 hi p2 rs q)
  have h: "p2 \<noteq> []" "p \<noteq> []" "p ! 0 \<noteq> c_close"
    using class_ranges_head [OF range(3)] class_char_head [OF range(1)] by auto
  then show ?case using class_char_getEsc [OF range(1)] class_char_getEsc [OF range(2)] range(4) [of "n + 1"]
    by (subst parse_ranges.simps) simp
qed

lemma parse_class_ranges: "parse_ranges p n = Some (rs, q) \<Longrightarrow> class_ranges p rs q \<and> (n = 0 \<longrightarrow> rs \<noteq> [])"
proof (induction p n arbitrary: rs rule: parse_ranges.induct)
  case (1 p n)
  show ?case
  proof (cases "p \<noteq> [] \<and> p ! 0 = c_close \<and> n > 0")
    case True
    then have "parse_ranges p n = Some ([], drop 1 p)" by (subst parse_ranges.simps) simp
    then have "rs = []" "q = drop 1 p" using "1.prems" by simp_all
    moreover have "p = c_close # drop 1 p" using True by (cases p) simp_all
    ultimately show ?thesis using True class_ranges.close [of q] by simp
  next
    case False
    obtain lo p1 e1 where g: "getEsc p = (lo, p1, e1)" by (cases "getEsc p")
    obtain hi p2 e2 where h: "(if p1 ! 0 = c_dash then getEsc (drop 1 p1) else (lo, p1, None)) = (hi, p2, e2)"
      using prod_cases3 by blast
    have e: "e1 = None" "e2 = None" using "1.prems" False g h by (auto simp: parse_ranges.simps [of p] split: if_splits)
    obtain rs' where c: "parse_ranges p2 (n + 1) = Some (rs', q)" "rs = (lo, hi) # rs'"
      using "1.prems" False g h e by (auto simp: parse_ranges.simps [of p])
    have ih: "class_ranges p2 rs' q"
      using "1.IH" [OF False g [symmetric] refl _ h [symmetric] refl _ c(1)] e by simp
    have p1: "class_char p lo p1" "p1 \<noteq> []" using g e getEsc_class_char getEsc_shorter by blast+
    show ?thesis
    proof (cases "p1 ! 0 = c_dash")
      case True
      then have d: "p1 = c_dash # drop 1 p1" "getEsc (drop 1 p1) = (hi, p2, None)" using p1(2) h e by (cases p1; simp)+
      then have "class_char p lo (c_dash # drop 1 p1)" "class_char (drop 1 p1) hi p2" using p1(1) getEsc_class_char by simp_all
      then show ?thesis using class_ranges.range ih c(2) by blast
    next
      case False
      then have "hi = lo" "p2 = p1" using h by simp_all
      then show ?thesis using class_ranges.single [OF p1(1)] ih c(2) by simp
    qed
  qed
qed

lemma parse_class_text: "parse_class p = Some (cl, q) \<longleftrightarrow> class_text p cl q"
proof
  assume a: "parse_class p = Some (cl, q)"
  show "class_text p cl q"
  proof (cases "p \<noteq> [] \<and> p ! 0 = c_hat")
    case True
    then obtain p' where p: "p = c_hat # p'" by (cases p) auto
    then obtain rs where "parse_ranges p' 0 = Some (rs, q)" "cl = Class False rs" using a by (auto simp: parse_class_def)
    then show ?thesis unfolding p using parse_class_ranges [of p' 0 rs q] class_text.outside by blast
  next
    case False
    then obtain rs where r: "parse_ranges p 0 = Some (rs, q)" "cl = Class True rs" using a by (auto simp: parse_class_def)
    then have c: "class_ranges p rs q" "rs \<noteq> []" using parse_class_ranges [of p 0 rs q] by auto
    then have "hd p \<noteq> c_hat" using False class_ranges_head by (auto simp: hd_conv_nth)
    then show ?thesis unfolding r(2) using c by (intro class_text.inside)
  qed
next
  assume "class_text p cl q"
  then show "parse_class p = Some (cl, q)"
  proof cases
    case (inside rs)
    then have "p ! 0 \<noteq> c_hat" using class_ranges_head [of p] by (simp add: hd_conv_nth)
    then show ?thesis using inside class_ranges_parse [of p rs q 0] by (simp add: parse_class_def)
  next
    case (outside p' rs)
    then show ?thesis using class_ranges_parse [of p' rs q 0] by (simp add: parse_class_def)
  qed
qed

lemma pattern_parse: "pattern p ts \<Longrightarrow> parse p = Some ts"
  by (induction rule: pattern.induct) (auto simp: parse_class_text [symmetric])

lemma parse_pattern: "parse p = Some ts \<Longrightarrow> pattern p ts"
proof (induction "Star" p arbitrary: ts rule: parse_as.induct)
  case (2 c p)
  consider "c = c_star" | "c = c_open" | "c = c_quest" | "c = c_esc" | "c \<notin> {c_star, c_quest, c_esc, c_open}" by auto
  then show ?case
  proof cases
    case 2
    then obtain cl q us where "parse_class p = Some (cl, q)" "parse q = Some us" "ts = Op cl # us"
      using "2.prems" by (auto split: option.splits)
    then show ?thesis using "2.hyps"(2) [of "(cl, q)" cl q us] 2 by (auto simp: parse_class_text intro: pattern.cls)
  next
    case 4
    then obtain d q us where "p = d # q" "parse q = Some us" "ts = Op (Lit d) # us"
      using "2.prems" by (cases p) auto
    then show ?thesis using "2.hyps"(4) [of d q us] 4 by (auto intro: pattern.esc)
  qed (use "2.prems" "2.hyps"(1,3,5) in \<open>auto intro: pattern.intros\<close>)
qed (auto intro: pattern.nothing)

lemma pattern_iff: "pattern p ts \<longleftrightarrow> parse p = Some ts"
  using pattern_parse parse_pattern by blast

text \<open>A part of the pattern outside the grammar that is reached while the name lasts.\<close>

lemma class_char_append: "class_char p r q \<Longrightarrow> class_char (p @ x) r (q @ x)"
  by (induction rule: class_char.induct) (auto intro: class_char.intros)

lemma class_ranges_append: "class_ranges p rs q \<Longrightarrow> class_ranges (p @ x) rs (q @ x)"
proof (induction rule: class_ranges.induct)
  case (range p lo p1 hi p2 rs q)
  then show ?case using class_char_append [of p lo "c_dash # p1" x] class_char_append [of p1 hi p2 x]
    by (auto intro: class_ranges.range)
qed (auto intro: class_ranges.intros class_char_append)

lemma class_text_append: "class_text p cl q \<Longrightarrow> class_text (p @ x) cl (q @ x)"
proof (induction rule: class_text.induct)
  case (inside p rs q)
  then show ?case using class_ranges_append [OF inside(1), of x] class_ranges_head [OF inside(1)]
    by (intro class_text.inside) auto
qed (auto intro: class_text.intros class_ranges_append)

lemma matchChunk_class:
  assumes "class_text p cl q" "op_step cl s = Some t"
  shows "matchChunk (c_open # p) s = matchChunk q t"
proof -
  obtain pos rs where k: "cl = Class pos rs" "class_body (fst (DecodeRuneInString s)) p = Inr (q, in_ranges (fst (DecodeRuneInString s)) rs = pos, None)"
    using class_body_parse [where p = p and r = "fst (DecodeRuneInString s)"] assms(1) by (auto simp: parse_class_text [symmetric])
  obtain b u where s: "s = b # u" using assms(2) by (cases s) simp_all
  show ?thesis using assms(2) k s
    by (subst matchChunk.simps) (auto simp: DecodeRuneInString_eq split: prod.splits if_splits)
qed

lemma matchChunk_prefix: "pattern p (map Op ps) \<Longrightarrow> run ps s = Some t \<Longrightarrow> matchChunk (p @ x) s = matchChunk x t"
proof (induction p "map Op ps" arbitrary: ps s rule: pattern.induct)
  case (any p ts)
  then obtain ps' where ps: "ps = Any # ps'" "ts = map Op ps'" by (cases ps) auto
  obtain b u where s: "s = b # u" using any.prems ps(1) by (cases s) simp_all
  have st: "b \<noteq> slash" "run ps' (drop (snd (DecodeRune s)) s) = Some t" using any.prems ps(1) s by (auto split: if_splits)
  show ?case using any.hyps(2) [OF ps(2) st(2)] st(1) s
    by (subst matchChunk.simps) (simp add: DecodeRuneInString_eq)
next
  case (cls p cl q ts)
  then obtain ps' where ps: "ps = cl # ps'" "ts = map Op ps'" by (cases ps) auto
  obtain u where u: "op_step cl s = Some u" "run ps' u = Some t" using cls.prems ps(1) by (auto split: option.splits)
  show ?case using matchChunk_class [OF class_text_append [OF cls.hyps(1)] u(1), of x] cls.hyps(3) [OF ps(2) u(2)] by simp
next
  case (lit c p ts)
  then obtain ps' where ps: "ps = Lit c # ps'" "ts = map Op ps'" by (cases ps) auto
  obtain u where u: "s = c # u" "run ps' u = Some t" using lit.prems ps(1) by (cases s) (auto split: if_splits)
  show ?case using lit.hyps(1) lit.hyps(3) [OF ps(2) u(2)] u(1) by (subst matchChunk.simps) (simp add: Let_def)
next
  case (esc p ts c)
  then obtain ps' where ps: "ps = Lit c # ps'" "ts = map Op ps'" by (cases ps) auto
  obtain u where u: "s = c # u" "run ps' u = Some t" using esc.prems ps(1) by (cases s) (auto split: if_splits)
  show ?case using esc.hyps(2) [OF ps(2) u(2)] u(1) by (subst matchChunk.simps) (simp add: Let_def)
qed auto

lemma scanChunk_starless: "c_star \<notin> set p \<Longrightarrow> scanChunk p = (False, p, [])"
proof -
  assume n: "c_star \<notin> set p"
  then have "skip_stars p False = (False, p)" by (cases p) auto
  moreover have "\<not> chunk_len False p < length p"
    using chunk_len_star [of False p] n nth_mem [of "chunk_len False p" p] by auto
  then have "scan_loop p 0 False = length p" using chunk_len_le [of False p] by (cases p) (auto simp: scan_loop_len)
  ultimately show ?thesis by (simp add: scanChunk_def Let_def)
qed

lemma no_dash_class: "\<not> class_text (c_dash # p) cl q"
  by (auto elim!: class_text.cases dest!: class_ranges_head)

definition bad_rest :: "gostring \<Rightarrow> bool" where
  "bad_rest x \<longleftrightarrow> x = [c_esc] \<or> (\<exists>q. x = c_open # q \<and> (\<nexists>cl q'. class_text q cl q'))"

lemma matchChunk_bad: "bad_rest x \<Longrightarrow> t \<noteq> [] \<Longrightarrow> matchChunk x t = Inr ([], False, Some ErrBadPattern)"
proof -
  assume x: "bad_rest x" and t: "t \<noteq> []"
  have e: "e = ErrBadPattern" for e by (cases e) simp
  from x consider "x = [c_esc]" | q where "x = c_open # q" "\<nexists>cl q'. class_text q cl q'" unfolding bad_rest_def by blast
  then show ?thesis
  proof cases
    case 1
    then show ?thesis using t by (subst matchChunk.simps) (simp add: Let_def)
  next
    case (2 q)
    then have "parse_class q = None" using parse_class_text by (cases "parse_class q") auto
    then obtain q' b where "class_body (fst (DecodeRuneInString t)) q = Inr (q', b, Some ErrBadPattern)"
      using class_body_parse [where p = q and r = "fst (DecodeRuneInString t)"] e by auto
    then show ?thesis unfolding 2(1) using t by (subst matchChunk.simps) (auto simp: case_prod_beta)
  qed
qed

lemma Match_reaches_bad:
  assumes "pattern p (map Op ps)" "run ps s = Some t" "t \<noteq> []" "bad_rest x" "c_star \<notin> set (p @ x)"
  shows "Match (p @ x) s = Inr (False, Some ErrBadPattern)"
proof -
  have "p @ x \<noteq> []" using assms(4) by (auto simp: bad_rest_def)
  moreover have "matchChunk (p @ x) s = Inr ([], False, Some ErrBadPattern)"
    using matchChunk_prefix [OF assms(1,2), of x] matchChunk_bad [OF assms(4,3)] by simp
  ultimately show ?thesis using scanChunk_starless [OF assms(5)] by (subst Match.simps) simp
qed

section \<open>What Match promises\<close>

text \<open>Where the guarantee ends: skipped bytes may split a rune, so that two question marks match one character,
  and a chunk behind a star is not tried again, so that a class that accepts a slash can hide a match.\<close>

lemma Match_limits:
  "Match [c_star, c_quest, c_quest] [0xe2, 0x82, 0xac] = Inr (True, None) \<and>
   fst (DecodeRune [0xe2, 0x82, 0xac]) = 0x20ac \<and> snd (DecodeRune [0xe2, 0x82, 0xac]) = 3 \<and>
   Match [c_star, c_open, c_hat, 0x78, c_close, c_star, 0x62] [0x63, slash, 0x62] = Inr (False, None) \<and>
   matches [Star, Op (Class False [(0x78, 0x78)]), Star, Op (Lit 0x62)] [0x63, slash, 0x62]"
proof (intro conjI)
  show "matches [Star, Op (Class False [(0x78, 0x78)]), Star, Op (Lit 0x62)] [0x63, slash, 0x62]"
  proof (rule star_matchesI [of 1])
    have "op_step (Class False [(0x78, 0x78)]) [slash, 0x62] = Some [0x62]" by code_simp
    moreover have "matches [Star, Op (Lit 0x62)] [0x62]" by (rule star_matchesI [of 0]) simp_all
    ultimately show "matches [Op (Class False [(0x78, 0x78)]), Star, Op (Lit 0x62)] (drop 1 [0x63, slash, 0x62])"
      by (simp del: matches.simps(2) op_step.simps)
  qed simp_all
qed code_simp+

text \<open>C32: \<open>Match\<close> always returns, without a panic. It returns \<open>ErrBadPattern\<close> only for patterns outside the documented
  grammar, and true only for patterns inside it that match the name, byte for byte at the stars. For a pattern without
  a star, and for ASCII names when no class of the pattern accepts a slash, it returns true exactly when the pattern
  matches, although it never goes back behind a star. In a pattern without stars it returns
  \<open>ErrBadPattern\<close> as soon as it reaches a class outside the grammar or a backslash at the end before the name is used up.\<close>

theorem Match_exact:
  "(\<exists>b e. Match p s = Inr (b, e) \<and> (e \<noteq> None \<longrightarrow> \<not> b \<and> (\<nexists>ts. pattern p ts)) \<and>
     (b \<longrightarrow> (\<exists>ts. pattern p ts \<and> matches ts s)) \<and>
     (\<forall>ts. pattern p ts \<longrightarrow> Star \<notin> set ts \<or> ascii s \<and> (\<forall>t \<in> set ts. plain_term t) \<longrightarrow> b = matches ts s)) \<and>
   (\<forall>ps t x. pattern p (map Op ps) \<and> run ps s = Some t \<and> t \<noteq> [] \<and> bad_rest x \<and> c_star \<notin> set (p @ x) \<longrightarrow>
     Match (p @ x) s = Inr (False, Some ErrBadPattern))"
proof -
  obtain b e where m: "Match p s = Inr (b, e)" "b \<longrightarrow> e = None \<and> (\<exists>ts. parse p = Some ts \<and> matches ts s)"
    "e \<noteq> None \<longrightarrow> parse p = None" using Match_sound by blast
  have "\<forall>ts. parse p = Some ts \<longrightarrow> Star \<notin> set ts \<or> ascii s \<and> (\<forall>t \<in> set ts. plain_term t) \<longrightarrow> b = matches ts s"
    using Match_complete [of p _ s] m(1,2) by fastforce
  then have "\<exists>b e. Match p s = Inr (b, e) \<and> (e \<noteq> None \<longrightarrow> \<not> b \<and> (\<nexists>ts. pattern p ts)) \<and>
     (b \<longrightarrow> (\<exists>ts. pattern p ts \<and> matches ts s)) \<and>
     (\<forall>ts. pattern p ts \<longrightarrow> Star \<notin> set ts \<or> ascii s \<and> (\<forall>t \<in> set ts. plain_term t) \<longrightarrow> b = matches ts s)"
    unfolding pattern_iff using m by (intro exI [of _ b] exI [of _ e]) auto
  moreover have "\<forall>ps t x. pattern p (map Op ps) \<and> run ps s = Some t \<and> t \<noteq> [] \<and> bad_rest x \<and> c_star \<notin> set (p @ x) \<longrightarrow>
     Match (p @ x) s = Inr (False, Some ErrBadPattern)"
    using Match_reaches_bad by blast
  ultimately show ?thesis by (rule conjI)
qed

lemma Match_exact_witness:
  "Match [0x61, c_star, 0x62] [0x61, 0x78, 0x62, 0x62] = Inr (True, None) \<and>
   Match [0x61, c_open, c_dash, 0x78, c_close] [0x61, c_dash] = Inr (False, Some ErrBadPattern)"
proof (intro conjI)
  have p: "pattern [0x61, c_star, 0x62] [Op (Lit 0x61), Star, Op (Lit 0x62)]"
    by (intro pattern.intros) simp_all
  have "matches [Star, Op (Lit 0x62)] [0x78, 0x62, 0x62]" by (rule star_matchesI [of 2]) simp_all
  then have "matches [Op (Lit 0x61), Star, Op (Lit 0x62)] [0x61, 0x78, 0x62, 0x62]" by (simp del: matches.simps(2))
  moreover have "ascii [0x61, 0x78, 0x62, 0x62]" by code_simp
  ultimately show "Match [0x61, c_star, 0x62] [0x61, 0x78, 0x62, 0x62] = Inr (True, None)"
    using p Match_exact [of "[0x61, c_star, 0x62]" "[0x61, 0x78, 0x62, 0x62]", THEN conjunct1]
    by (elim exE conjE) (drule spec [of _ "[Op (Lit 0x61), Star, Op (Lit 0x62)]"], simp)
  have "pattern [0x61] (map Op [Lit 0x61])" by (simp, intro pattern.intros) simp_all
  moreover have "bad_rest [c_open, c_dash, 0x78, c_close]"
    using no_dash_class by (auto simp: bad_rest_def)
  ultimately show "Match [0x61, c_open, c_dash, 0x78, c_close] [0x61, c_dash] = Inr (False, Some ErrBadPattern)"
    using Match_exact [of "[0x61]" "[0x61, c_dash]", THEN conjunct2, rule_format, of "[Lit 0x61]" "[c_dash]" "[c_open, c_dash, 0x78, c_close]"]
    by simp
qed

end
