(* ===== verification/Spec2Isabelle.thy ===== *)
theory Spec2Isabelle
  imports Go_Sort Go_Stable Go_Runes Go_Chan_Inv Go_Heap Go_List Go_Ring Go_Mutex Go_RWMutex Go_Once
    Go_Utf16 Go_Hex Go_Binary Go_Strings Go_Path Go_Strconv
    Go_Indent Go_NatBytes Go_NatExp Go_Rat Go_Match
begin

text \<open>
  Verification of parts of the Go distribution (the tree under src/, a development version of
  Go 1.5). Each theory is a shallow embedding of the named source files; the theories are
  independent of each other unless one is said to use another.

  Theories:
  \<^item> \<open>Go_Prelude\<close>: bytes, strings, runes, panics, list segments.
  \<^item> \<open>Go_Sort\<close> (sort/sort.go): introsort over an \<open>Interface\<close>, whose contract is the locale
    \<open>sort_interface\<close>; the slice types interpret it. \<open>Go_Stable\<close> (sort/sort.go, sort/search.go):
    insertion blocks, \<open>symMerge\<close> and \<open>rotate\<close>, and binary search.
  \<^item> \<open>Go_Utf8\<close> (unicode/utf8/utf8.go): decoding and encoding. \<open>Go_Runes\<close> (runtime/rune.go,
    runtime/string.go, and the string loops of unicode/utf8): the runtime's decoder is the
    package's, both are exact, and the conversions between strings and rune slices.
  \<^item> \<open>Go_Waitq\<close> (runtime/chan.go, runtime/select.go): wait queues as linked sudogs; the locale
    \<open>fifo_queue\<close> is their contract. \<open>Go_Chan\<close> (runtime/chan.go): the state of a channel, its
    goroutines and sudogs, and every operation, one function per locked section, with the step
    relation \<open>chan_step\<close>; the two reads that a non-blocking operation makes without the lock each have a
    state of their own. The queues of a channel are lists there, so that the tests of a sudog's links in
    \<open>releaseSudog\<close> say nothing; \<open>Go_Waitq\<close> shows that the links implement lists. \<open>Go_Chan_Inv\<close>: every step
    keeps the invariant, and what follows.
  \<^item> \<open>Go_Heap\<close> (container/heap): the heap operations over an \<open>Interface\<close>, whose contract is the
    locale \<open>heap_interface\<close>, on indices in range; its methods take any index and may panic, as the -1 that \<open>Pop\<close>
    passes on an empty heap makes the queue of ready actions of cmd/go (build.go) do, which interprets the locale.
  \<^item> \<open>Go_List\<close> (container/list) and \<open>Go_Ring\<close> (container/ring): doubly linked structures on an explicit
    heap, shown to refine sequences; \<open>Go_Links\<close> has the lemmas on chains of links that both use.
  \<^item> \<open>Go_Mutex\<close>, \<open>Go_RWMutex\<close>, \<open>Go_Once\<close> (sync): each atomic operation is a step of one goroutine, and
    \<open>Go_Threads\<close> interleaves the steps of any number of goroutines. Only runs are covered in which a goroutine
    unlocks what it has locked itself, although the code allows another one to.
  \<^item> \<open>Go_Utf16\<close> (unicode/utf16), \<open>Go_Hex\<close> (encoding/hex), \<open>Go_Binary\<close> (encoding/binary: byte orders and
    varints): encoders and decoders over slices with Go's bounds checks, from \<open>Go_Slices\<close>.
  \<^item> \<open>Go_Strings\<close> (strings/strings.go): substring search with the rolling hash, counting, splitting,
    joining, replacing and repeating; the longest slice of strings is an argument of the split functions, the
    byte buffers are assumed to fit. \<open>Go_Path\<close> (path/path.go) uses them: \<open>Clean\<close> with its lazy buffer,
    shown to resolve the elements of a path, and the operations built on it.
  \<^item> \<open>Go_Strconv\<close> (strconv/itoa.go, strconv/atoi.go): integers to text and back, with the buffer of 65
    bytes, the loops for the two widths of \<open>uintptr\<close>, and the overflow tests of the parser, against a
    specification of numerals and their values for every text.
  \<^item> \<open>Go_Json\<close> (encoding/json/scanner.go): the push-down scanner, whose states stand for the languages
    they still accept; \<open>checkValid\<close> accepts the grammar of JSON and \<open>nextValue\<close> splits at it.
    \<open>Go_Indent\<close> (encoding/json/indent.go): \<open>Compact\<close> and \<open>Indent\<close> over the scanner.

  \<^item> math/big: \<open>Go_Arith\<close> (arith.go): words and vectors of words with their carries. \<open>Go_Nat\<close>,
    \<open>Go_NatBytes\<close>, \<open>Go_NatMul\<close>, \<open>Go_NatDiv\<close>, \<open>Go_NatExp\<close> (nat.go): natural numbers as normalised vectors; each
    operation is shown to return \<open>digits n\<close>, the one vector for the number \<open>n\<close>, from Karatsuba's products in
    place and Knuth's division to powers by windows. \<open>Go_Int\<close>, \<open>Go_IntBits\<close>, \<open>Go_IntGcd\<close> (int.go): sign and
    magnitude; \<open>ival\<close> is the integer of a record, \<open>Int_of\<close> the one well-formed record of an integer, and the lemmas
    \<open>Int_..._of\<close> push \<open>Int_of\<close> through every operation. Words have 64 bits. An operation returns a new value. Where
    a receiver or a result that is also an operand changes the result it is an argument: in \<open>binaryGCD\<close>, \<open>ModInverse\<close>,
    \<open>DivMod\<close> and \<open>Exp\<close>; the runs of \<open>Exp\<close> that go on after they have overwritten their modulus are left out.
    Elsewhere the code tests for such operands and takes fresh memory, or has read them when it writes. Not modelled:
    random numbers and the primality test that draws them, big floating point numbers, text formats, and the assembly
    versions. \<open>Go_Rat\<close> (rat.go): fractions in lowest terms over \<open>Int\<close>, with \<open>rval\<close> into the rational numbers, also
    those whose denominator 1 \<open>Denom\<close> has written out; its gob format stores a length through \<open>Go_Binary\<close>.
  \<^item> \<open>Go_Match\<close> (path/match.go): shell patterns. The code cuts a pattern into chunks and never goes back behind a star;
    the specification states the documented grammar by inductive rules and matches by trying every length of a star.

  Loops with a bound that the code makes evident are functions with a measure; \<open>dequeue\<close>, which
  follows links, the recursion of \<open>mulRange\<close> and the loops of \<open>GCD\<close> are partial functions into \<open>option\<close>, proved to
  return on every well-formed queue, range and pair of integers.
  Go's \<open>int\<close> is unbounded (\<open>nat\<close> or \<open>int\<close>) where the code indexes slices, and has its width where
  the code truncates or shifts bits.

  Not modelled: floating point and its conversions, the race detector and profiling hooks, memory exhaustion, \<open>select\<close>
  over several channels, the other packages of the
  distribution, the compilers and the rest of the runtime.
\<close>

end
